(* ===== verification/Prelude.thy ===== *)
theory Prelude
  imports Complex_Main "HOL-Library.Word" "HOL-Library.Multiset" "HOL-Library.Monad_Syntax"
begin

text \<open>
  What the components share. C memory is modelled as lists: an object of \<open>n\<close> cells is a list of
  length \<open>n\<close>, a pointer into it is an index (an \<open>int\<close>, so that pointers that C computes before
  or behind the object are representable), and a read or write outside the object is the value
  \<open>None\<close> of an option type. A function whose result type is \<open>'a option\<close> for this reason returns
  \<open>None\<close> exactly where the C code would have undefined behaviour; a theorem that it returns
  \<open>Some\<close> is a memory-safety statement.

  The C library's \<open>memcpy\<close>, \<open>memmove\<close>, \<open>memset\<close> and \<open>realloc\<close> are the functions
  \<open>blit\<close>, \<open>mem_move\<close>, \<open>mem_fill\<close> and \<open>mem_realloc\<close> below.
\<close>

named_theorems mem_simps "rewriting with the memory primitives"
named_theorems wf_intros "introduction rules for well-formedness invariants"

type_synonym byte = "8 word"
type_synonym u16 = "16 word"
type_synonym u32 = "32 word"
type_synonym u64 = "64 word"

section \<open>Memory objects as lists\<close>

definition slice :: "'a list \<Rightarrow> int \<Rightarrow> int \<Rightarrow> 'a list option" where
  "slice buf off n =
     (if 0 \<le> off \<and> 0 \<le> n \<and> off + n \<le> int (length buf)
      then Some (take (nat n) (drop (nat off) buf)) else None)"

definition blit :: "'a list \<Rightarrow> int \<Rightarrow> 'a list \<Rightarrow> 'a list option" where
  "blit buf off xs =
     (if 0 \<le> off \<and> off + int (length xs) \<le> int (length buf)
      then Some (take (nat off) buf @ xs @ drop (nat off + length xs) buf) else None)"

definition mem_move :: "'a list \<Rightarrow> int \<Rightarrow> int \<Rightarrow> int \<Rightarrow> 'a list option" where
  "mem_move buf dst src n = do { xs \<leftarrow> slice buf src n; blit buf dst xs }"

definition mem_fill :: "'a list \<Rightarrow> int \<Rightarrow> int \<Rightarrow> 'a \<Rightarrow> 'a list option" where
  "mem_fill buf off n z = (if n < 0 then None else blit buf off (replicate (nat n) z))"

text \<open>
  \<open>realloc\<close> keeps the common prefix; the cells it adds have unspecified contents, for which the
  model takes the filler \<open>z\<close> (the code under \<open>src/\<close> overwrites them before reading).
\<close>

definition mem_realloc :: "'a \<Rightarrow> 'a list option \<Rightarrow> int \<Rightarrow> 'a list option" where
  "mem_realloc z old n =
     (if n < 0 then None
      else (let xs = (case old of None \<Rightarrow> [] | Some b \<Rightarrow> b)
            in Some (take (nat n) xs @ replicate (nat n - length xs) z)))"

definition mem_get :: "'a list \<Rightarrow> int \<Rightarrow> 'a option" where
  "mem_get buf i = (if 0 \<le> i \<and> i < int (length buf) then Some (buf ! nat i) else None)"

definition mem_put :: "'a list \<Rightarrow> int \<Rightarrow> 'a \<Rightarrow> 'a list option" where
  "mem_put buf i x = (if 0 \<le> i \<and> i < int (length buf) then Some (buf[nat i := x]) else None)"

lemma slice_Some_iff [mem_simps]:
  "slice buf off n = Some xs \<longleftrightarrow>
     0 \<le> off \<and> 0 \<le> n \<and> off + n \<le> int (length buf) \<and> xs = take (nat n) (drop (nat off) buf)"
  by (auto simp: slice_def)

lemma blit_Some_iff [mem_simps]:
  "blit buf off xs = Some buf' \<longleftrightarrow>
     0 \<le> off \<and> off + int (length xs) \<le> int (length buf) \<and>
     buf' = take (nat off) buf @ xs @ drop (nat off + length xs) buf"
  by (auto simp: blit_def)

lemma slice_length: "slice buf off n = Some xs \<Longrightarrow> length xs = nat n"
  by (auto simp: slice_def split: if_splits)

lemma blit_length: "blit buf off xs = Some buf' \<Longrightarrow> length buf' = length buf"
  by (auto simp: blit_def split: if_splits)

lemma mem_move_length: "mem_move buf d s n = Some buf' \<Longrightarrow> length buf' = length buf"
  by (auto simp: mem_move_def blit_length split: Option.bind_splits)

lemma mem_fill_length: "mem_fill buf off n z = Some buf' \<Longrightarrow> length buf' = length buf"
  by (auto simp: mem_fill_def blit_length split: if_splits)

lemma slice_all: "int (length xs) = n \<Longrightarrow> slice xs 0 n = Some xs"
  by (auto simp: slice_def)

lemma slice_ok:
  "0 \<le> off \<Longrightarrow> 0 \<le> n \<Longrightarrow> off + n \<le> int (length buf) \<Longrightarrow>
   slice buf off n = Some (take (nat n) (drop (nat off) buf))"
  by (simp add: slice_def)

lemma blit_ok:
  "0 \<le> off \<Longrightarrow> off + int (length xs) \<le> int (length buf) \<Longrightarrow>
   blit buf off xs = Some (take (nat off) buf @ xs @ drop (nat off + length xs) buf)"
  by (simp add: blit_def)

text \<open>Reading back what was written, and framing: what lies outside the range is unchanged.\<close>

lemma slice_blit: "blit buf off xs = Some buf' \<Longrightarrow> slice buf' off (int (length xs)) = Some xs"
  by (auto simp: blit_def slice_def split: if_splits)

lemma blit_take: "blit buf off xs = Some buf' \<Longrightarrow> take (nat off) buf' = take (nat off) buf"
  by (auto simp: blit_def split: if_splits)

lemma mem_get_some: "0 \<le> i \<Longrightarrow> i < int (length buf) \<Longrightarrow> mem_get buf i = Some (buf ! nat i)"
  by (simp add: mem_get_def)

lemma mem_get_append_right:
  "mem_get (xs @ ys) (int (length xs) + i) = (if 0 \<le> i then mem_get ys i
     else mem_get xs (int (length xs) + i))"
proof (cases "0 \<le> i")
  case True
  then have "\<not> nat (int (length xs) + i) < length xs"
    and "nat (int (length xs) + i) - length xs = nat i" by auto
  with True show ?thesis by (auto simp: mem_get_def nth_append)
next
  case False
  then show ?thesis by (auto simp: mem_get_def nth_append)
qed

text \<open>A range of a buffer that does not reach its end.\<close>

lemma buffer_split:
  assumes "s + n < length m"
  shows "\<exists>A R b C. m = A @ R @ b # C \<and> length A = s \<and> length R = n \<and> R = take n (drop s m)"
proof (intro exI conjI)
  have "drop s m = take n (drop s m) @ drop n (drop s m)" by (rule append_take_drop_id [symmetric])
  also have "drop n (drop s m) = m ! (s + n) # drop (Suc (s + n)) m"
    using assms by (simp add: add.commute Cons_nth_drop_Suc)
  finally show "m = take s m @ take n (drop s m) @ m ! (s + n) # drop (Suc (s + n)) m"
    by (metis append_take_drop_id)
  show "length (take s m) = s" "length (take n (drop s m)) = n" using assms by auto
qed simp

section \<open>Fixed-width integers of the C implementation\<close>

text \<open>
  The model is of a little-endian LP64 machine (x86-64): \<open>int\<close> has 32 bits, \<open>long\<close> and pointers
  have 64, plain \<open>char\<close> is signed. Where a C \<open>int\<close> only counts elements it is an Isabelle \<open>int\<close>
  (signed overflow is undefined in C and is not modelled); where the code relies on wrap-around or
  on truncation the conversion is written out with the functions below.
\<close>

definition to_i32 :: "int \<Rightarrow> int" where
  "to_i32 x = sint (word_of_int x :: 32 word)"

definition schar :: "byte \<Rightarrow> int" where
  "schar b = sint b"

lemma to_i32_id: "- (2 ^ 31) \<le> x \<Longrightarrow> x < 2 ^ 31 \<Longrightarrow> to_i32 x = x"
  by (simp add: to_i32_def signed_take_bit_int_eq_self sint_sbintrunc')

lemma to_i32_bounds: "- (2 ^ 31) \<le> to_i32 x" "to_i32 x < 2 ^ 31"
  using sint_ge [of "word_of_int x :: 32 word"] sint_lt [of "word_of_int x :: 32 word"]
  by (simp_all add: to_i32_def)

section \<open>Lists\<close>

lemma take_nat_add: "0 \<le> i \<Longrightarrow> 0 \<le> j \<Longrightarrow> take (nat (i + j)) xs = take (nat i) xs @ take (nat j) (drop (nat i) xs)"
  by (simp add: nat_add_distrib take_add)

lemma nth_take_drop_split:
  "i < length xs \<Longrightarrow> take i xs @ xs ! i # drop (Suc i) xs = xs"
  by (simp add: id_take_nth_drop [symmetric])

lemma mset_concat_update:
  "i < length B \<Longrightarrow> mset (concat (B[i := xs])) + mset (B ! i) = mset (concat B) + mset xs"
proof -
  assume i: "i < length B"
  have "B = take i B @ B ! i # drop (Suc i) B" using i by (rule id_take_nth_drop)
  then have "mset (concat B) = mset (concat (take i B)) + mset (B ! i) + mset (concat (drop (Suc i) B))"
    by (metis concat.simps(2) concat_append mset_append union_assoc)
  moreover have "mset (concat (B[i := xs]))
      = mset (concat (take i B)) + mset xs + mset (concat (drop (Suc i) B))"
    using i by (simp add: upd_conv_take_nth_drop)
  ultimately show ?thesis by simp
qed

lemma option_bind_Some: "Option.bind m f = Some y \<longleftrightarrow> (\<exists>x. m = Some x \<and> f x = Some y)"
  by (cases m) auto

section \<open>Numbers as text\<close>

text \<open>What \<open>%d\<close> and \<open>%u\<close> of \<open>snprintf\<close> produce.\<close>

fun dec_nat :: "nat \<Rightarrow> string" where
  "dec_nat n = (if n < 10 then [char_of (48 + n)] else dec_nat (n div 10) @ [char_of (48 + n mod 10)])"

declare dec_nat.simps [simp del]

definition dec_int :: "int \<Rightarrow> string" where
  "dec_int i = (if i < 0 then CHR ''-'' # dec_nat (nat (- i)) else dec_nat (nat i))"

end
