(* ===== verification/CArray.thy ===== *)
theory CArray
  imports Prelude
begin

text \<open>
  \<open>array.c\<close>, \<open>array.h\<close>, \<open>array_inline.c\<close>: a growable array of fixed-size elements. The model
  counts in elements, not bytes: cell \<open>i\<close> of \<open>m_array\<close> stands for the \<open>m_eltsz\<close> bytes at
  \<open>m_array + i * m_eltsz\<close>, a pointer to an element is its index, and \<open>z\<close> is the element whose
  bytes are all zero. \<open>elems\<close> is the abstraction (the list of the first \<open>m_count\<close> elements) and
  \<open>array_wf\<close> the invariant; the operations refine list operations under it.
\<close>

record 'a array_t =
  m_eltsz :: int
  m_blocksz :: int
  m_array :: "'a list option"
  m_count :: int
  m_max :: int
  m_free_func :: "nat option"
  m_free_farg :: nat

definition ARRAY_DEFAULT_BLOCKSZ :: int where
  "ARRAY_DEFAULT_BLOCKSZ = 10"

definition array_init :: "int \<Rightarrow> int \<Rightarrow> 'a array_t" where
  "array_init eltsz blocksz =
     \<lparr>m_eltsz = eltsz,
      m_blocksz = (if blocksz \<le> 0 then ARRAY_DEFAULT_BLOCKSZ else blocksz),
      m_array = None, m_count = 0, m_max = 0, m_free_func = None, m_free_farg = 0\<rparr>"

definition array_import ::
    "'a list option \<Rightarrow> int \<Rightarrow> int \<Rightarrow> int \<Rightarrow> nat option \<Rightarrow> nat \<Rightarrow> 'a array_t" where
  "array_import arr nelts eltsz blocksz free_func free_farg =
     \<lparr>m_eltsz = eltsz,
      m_blocksz = (if blocksz \<le> 0 then ARRAY_DEFAULT_BLOCKSZ else blocksz),
      m_array = arr, m_count = nelts, m_max = nelts,
      m_free_func = free_func, m_free_farg = free_farg\<rparr>"

definition array_extract :: "'a array_t \<Rightarrow> 'a array_t \<times> 'a list option" where
  "array_extract self =
     (self\<lparr>m_array := None, m_max := 0, m_count := 0, m_free_func := None, m_free_farg := 0\<rparr>,
      m_array self)"

definition array_set_free :: "'a array_t \<Rightarrow> nat option \<Rightarrow> nat \<Rightarrow> 'a array_t" where
  "array_set_free self func farg = self\<lparr>m_free_func := func, m_free_farg := farg\<rparr>"

text \<open>What \<open>array_clear\<close> releases: the registered callback is called, or the block is freed.\<close>

datatype 'a release = FreeCall nat nat | FreeBlock "'a list option"

definition array_clear :: "'a array_t \<Rightarrow> 'a array_t \<times> 'a release" where
  "array_clear self =
     (self\<lparr>m_array := None, m_count := 0, m_max := 0\<rparr>,
      case m_free_func self of
        Some f \<Rightarrow> FreeCall f (m_free_farg self)
      | None \<Rightarrow> FreeBlock (m_array self))"

definition array_count :: "'a array_t \<Rightarrow> int" where
  "array_count self = m_count self"

definition array_get :: "'a array_t \<Rightarrow> int \<Rightarrow> int option" where
  "array_get self i =
     (let j = (if i < 0 then m_count self + i else i)
      in if m_array self = None \<or> m_eltsz self \<le> 0 \<or> j < 0 \<or> j \<ge> m_count self
         then None else Some j)"

text \<open>
  \<open>ok\<close> is the outcome of \<open>realloc\<close>: when it fails the code has already stored the new \<open>m_max\<close>
  and overwrites \<open>m_array\<close> with the null pointer. The result pairs the new state with the returned
  pointer (\<open>None\<close> for the null pointer).
\<close>

definition array_add :: "bool \<Rightarrow> 'a \<Rightarrow> 'a array_t \<Rightarrow> int \<Rightarrow> ('a array_t \<times> int option) option" where
  "array_add ok z self num =
     (if \<not> 0 < m_eltsz self then Some (self, None)
      else do {
        (self, err) \<leftarrow>
          (if m_count self + num \<le> m_max self then Some (self, False)
           else let mx = m_count self + (if num > m_blocksz self then num else m_blocksz self)
                in if \<not> ok then Some (self\<lparr>m_max := mx, m_array := None\<rparr>, True)
                   else do {
                     buf \<leftarrow> mem_realloc z (m_array self) mx;
                     buf \<leftarrow> mem_fill buf (m_count self) (mx - m_count self) z;
                     Some (self\<lparr>m_max := mx, m_array := Some buf\<rparr>, False)
                   });
        if err then Some (self, None)
        else if num > 0 then do {
          buf \<leftarrow> m_array self;
          buf \<leftarrow> mem_fill buf (m_count self) num z;
          Some (self\<lparr>m_array := Some buf, m_count := m_count self + num\<rparr>, Some (m_count self))
        }
        else Some (self, None)
      })"

definition array_set_count :: "bool \<Rightarrow> 'a \<Rightarrow> 'a array_t \<Rightarrow> int \<Rightarrow> 'a array_t option" where
  "array_set_count ok z self len =
     (if len > m_count self
      then do { (self, p) \<leftarrow> array_add ok z self len; Some (self\<lparr>m_count := len\<rparr>) }
      else Some (self\<lparr>m_count := len\<rparr>))"

text \<open>
  \<open>array_index\<close> takes a byte pointer: \<open>off\<close> is its distance in bytes from \<open>m_array\<close>, and the
  division truncates towards zero, as in C.
\<close>

definition array_index :: "'a array_t \<Rightarrow> int \<Rightarrow> int" where
  "array_index self off = sgn off * sgn (m_eltsz self) * (\<bar>off\<bar> div \<bar>m_eltsz self\<bar>)"

definition array_remove_idx :: "'a array_t \<Rightarrow> int \<Rightarrow> int \<Rightarrow> 'a array_t option" where
  "array_remove_idx self i len =
     (let i = (if i < 0 then i + m_count self else i);
          len = (if len \<le> 0 \<or> i + len > m_count self then m_count self - i else len)
      in case array_get self i of
           None \<Rightarrow> Some self
         | Some p \<Rightarrow> do {
             buf \<leftarrow> m_array self;
             buf \<leftarrow> (if i < m_count self - 1
                    then mem_move buf p (p + len) (m_count self - i - len) else Some buf);
             Some (self\<lparr>m_array := Some buf, m_count := m_count self - len\<rparr>)
           })"

definition array_remove_ptr :: "'a array_t \<Rightarrow> int \<Rightarrow> 'a array_t option" where
  "array_remove_ptr self off = array_remove_idx self (array_index self off) 1"

definition array_append ::
    "bool \<Rightarrow> 'a \<Rightarrow> 'a array_t \<Rightarrow> 'a list \<Rightarrow> int \<Rightarrow> ('a array_t \<times> int option) option" where
  "array_append ok z dst elt nelts =
     (if nelts \<le> 0 then Some (dst, None)
      else do {
        (dst, p) \<leftarrow> array_add ok z dst nelts;
        case p of None \<Rightarrow> Some (dst, None)
        | Some p \<Rightarrow> do {
            xs \<leftarrow> slice elt 0 nelts;
            buf \<leftarrow> m_array dst;
            buf \<leftarrow> blit buf p xs;
            Some (dst\<lparr>m_array := Some buf\<rparr>, Some p)
          }
      })"

definition array_insert ::
    "bool \<Rightarrow> 'a \<Rightarrow> 'a array_t \<Rightarrow> int \<Rightarrow> 'a list \<Rightarrow> int \<Rightarrow> ('a array_t \<times> int option) option" where
  "array_insert ok z dst idx elts nelts =
     (if nelts \<le> 0 then Some (dst, None)
      else do {
        (dst, fin) \<leftarrow> array_add ok z dst nelts;
        case fin of None \<Rightarrow> Some (dst, None)
        | Some fin \<Rightarrow>
           (case array_get dst idx of None \<Rightarrow> Some (dst, None)
            | Some start \<Rightarrow> do {
                buf \<leftarrow> m_array dst;
                buf \<leftarrow> mem_move buf fin start (fin - start);
                xs \<leftarrow> slice elts 0 nelts;
                buf \<leftarrow> blit buf start xs;
                Some (dst\<lparr>m_array := Some buf\<rparr>, Some start)
              })
      })"

definition array_concat ::
    "bool \<Rightarrow> 'a \<Rightarrow> 'a array_t \<Rightarrow> 'a array_t \<Rightarrow> ('a array_t \<times> int option) option" where
  "array_concat ok z dst src =
     (if m_eltsz dst \<noteq> m_eltsz src then Some (dst, None)
      else do {
        (dst, p) \<leftarrow> array_add ok z dst (array_count src);
        case p of None \<Rightarrow> Some (dst, None)
        | Some p \<Rightarrow> do {
            s \<leftarrow> array_get src 0;
            sbuf \<leftarrow> m_array src;
            xs \<leftarrow> slice sbuf s (array_count src);
            buf \<leftarrow> m_array dst;
            buf \<leftarrow> blit buf p xs;
            Some (dst\<lparr>m_array := Some buf\<rparr>, Some p)
          }
      })"

definition array_copy :: "bool \<Rightarrow> 'a \<Rightarrow> 'a array_t \<Rightarrow> 'a array_t option" where
  "array_copy ok z src =
     (let dst = array_init (m_eltsz src) (m_blocksz src); n = array_count src
      in if n > 0
         then do {
           s \<leftarrow> array_get src 0;
           sbuf \<leftarrow> m_array src;
           (dst, p) \<leftarrow> array_append ok z dst (drop (nat s) sbuf) n;
           Some dst
         }
         else Some dst)"

text \<open>Reading an element through a pointer returned by \<open>array_get\<close>.\<close>

definition elt_at :: "'a array_t \<Rightarrow> int option \<Rightarrow> 'a option" where
  "elt_at self p = do { p \<leftarrow> p; buf \<leftarrow> m_array self; mem_get buf p }"


text \<open>
  Searching. \<open>cmp\<close> is called with the needle and a pointer to an element; a null pointer there is
  undefined behaviour (the comparison functions dereference it).
\<close>

fun array_find_loop :: "('b \<Rightarrow> 'a \<Rightarrow> int) \<Rightarrow> 'b \<Rightarrow> 'a array_t \<Rightarrow> nat \<Rightarrow> int option" where
  "array_find_loop cmp needle self 0 = Some (-1)"
| "array_find_loop cmp needle self (Suc n) =
     do {
       x \<leftarrow> elt_at self (array_get self (int n));
       if cmp needle x = 0 then Some (int n) else array_find_loop cmp needle self n
     }"

definition array_find :: "'a array_t \<Rightarrow> ('b \<Rightarrow> 'a \<Rightarrow> int) \<Rightarrow> 'b \<Rightarrow> int option" where
  "array_find self cmp needle = array_find_loop cmp needle self (nat (array_count self))"

definition array_add_nodup ::
    "bool \<Rightarrow> 'a \<Rightarrow> 'a array_t \<Rightarrow> ('a \<Rightarrow> 'a \<Rightarrow> int) \<Rightarrow> 'a \<Rightarrow> ('a array_t \<times> int) option" where
  "array_add_nodup ok z self cmp elt =
     do {
       i \<leftarrow> array_find self cmp elt;
       if i \<ge> 0 then Some (self, i)
       else do {
         (self, p) \<leftarrow> array_add ok z self 1;
         case p of None \<Rightarrow> Some (self, -1)
         | Some p \<Rightarrow> do {
             buf \<leftarrow> m_array self;
             buf \<leftarrow> mem_put buf p elt;
             Some (self\<lparr>m_array := Some buf\<rparr>, 0)
           }
       }
     }"

fun array_subset_loop :: "'a array_t \<Rightarrow> 'b array_t \<Rightarrow> ('a \<Rightarrow> 'b \<Rightarrow> int) \<Rightarrow> nat \<Rightarrow> bool option" where
  "array_subset_loop sub super cmp 0 = Some True"
| "array_subset_loop sub super cmp (Suc n) =
     do {
       x \<leftarrow> elt_at sub (array_get sub (int n));
       i \<leftarrow> array_find super cmp x;
       if i < 0 then Some False else array_subset_loop sub super cmp n
     }"

definition array_subset :: "'a array_t \<Rightarrow> 'b array_t \<Rightarrow> ('a \<Rightarrow> 'b \<Rightarrow> int) \<Rightarrow> bool option" where
  "array_subset sub super cmp =
     array_subset_loop sub super cmp (nat (array_count sub))"

text \<open>
  The bisection loop of \<open>array_bsearch\<close>: \<open>a\<close> and \<open>b\<close> are the C variables, the result is the value of
  \<open>a\<close> at the \<open>break\<close>. C's \<open>(a + b) / 2\<close> is \<open>div\<close> here, since both are never negative.
\<close>

function bsearch_loop :: "('b \<Rightarrow> 'a \<Rightarrow> int) \<Rightarrow> 'b \<Rightarrow> 'a array_t \<Rightarrow> nat \<Rightarrow> nat \<Rightarrow> nat option" where
  "bsearch_loop cmp needle self a b =
     (let m = (a + b) div 2
      in if a \<ge> b then Some a
         else do {
           x \<leftarrow> elt_at self (array_get self (int m));
           if cmp needle x = 0 then Some m
           else if cmp needle x < 0
           then (if b = m then Some b else bsearch_loop cmp needle self a m)
           else (if a = m
                 then do {
                   y \<leftarrow> elt_at self (array_get self (int b));
                   Some (if cmp needle y \<ge> 0 then b else a)
                 }
                 else bsearch_loop cmp needle self m b)
         })"
  by pat_completeness auto
termination
  by (relation "measure (\<lambda>(cmp, needle, self, a, b). b - a)") auto

text \<open>The final loop: step back over equal elements.\<close>

fun bsearch_back :: "('b \<Rightarrow> 'a \<Rightarrow> int) \<Rightarrow> 'b \<Rightarrow> 'a array_t \<Rightarrow> nat \<Rightarrow> nat option" where
  "bsearch_back cmp needle self 0 = Some 0"
| "bsearch_back cmp needle self (Suc a) =
     do {
       x \<leftarrow> elt_at self (array_get self (int a));
       if cmp needle x = 0 then bsearch_back cmp needle self a else Some (Suc a)
     }"

definition array_bsearch :: "'a array_t \<Rightarrow> ('b \<Rightarrow> 'a \<Rightarrow> int) \<Rightarrow> 'b \<Rightarrow> int option" where
  "array_bsearch self cmp needle =
     (if array_count self - 1 < 0 then Some (-1)
      else do {
        x \<leftarrow> elt_at self (array_get self 0);
        if cmp needle x < 0 then Some (-1)
        else do {
          a \<leftarrow> bsearch_loop cmp needle self 0 (nat (array_count self - 1));
          r \<leftarrow> bsearch_back cmp needle self a;
          Some (int r)
        }
      })"

text \<open>
  \<open>qsort\<close> is the C library's: the order it gives to elements that compare equal is unspecified, so
  it is a parameter \<open>qs\<close> of the model.
\<close>

definition array_qsort ::
    "(('a \<Rightarrow> 'a \<Rightarrow> int) \<Rightarrow> 'a list \<Rightarrow> 'a list) \<Rightarrow> 'a array_t \<Rightarrow> ('a \<Rightarrow> 'a \<Rightarrow> int) \<Rightarrow> 'a array_t" where
  "array_qsort qs self cmp =
     (case m_array self of None \<Rightarrow> self
      | Some buf \<Rightarrow> self\<lparr>m_array := Some (qs cmp (take (nat (m_count self)) buf)
                                        @ drop (nat (m_count self)) buf)\<rparr>)"

declare bsearch_loop.simps [simp del]

section \<open>Abstraction and invariant\<close>

definition elems :: "'a array_t \<Rightarrow> 'a list" where
  "elems self = (case m_array self of None \<Rightarrow> [] | Some buf \<Rightarrow> take (nat (m_count self)) buf)"

definition array_wf :: "'a array_t \<Rightarrow> bool" where
  "array_wf self \<longleftrightarrow>
     0 < m_eltsz self \<and> 0 < m_blocksz self \<and> 0 \<le> m_count self \<and> m_count self \<le> m_max self \<and>
     (case m_array self of None \<Rightarrow> m_max self = 0 | Some buf \<Rightarrow> int (length buf) = m_max self)"

lemma array_wf_cases:
  assumes "array_wf self"
  obtains (null) "m_array self = None" "m_count self = 0" "m_max self = 0" "elems self = []"
  | (buf) xs ys where "m_array self = Some (xs @ ys)" "elems self = xs"
      "m_count self = int (length xs)" "m_max self = int (length xs + length ys)"
proof (cases "m_array self")
  case None
  with assms null show ?thesis by (simp add: array_wf_def elems_def)
next
  case (Some b)
  let ?n = "nat (m_count self)"
  from assms Some have "m_count self = int (length (take ?n b))"
    and "m_max self = int (length (take ?n b) + length (drop ?n b))"
    and "0 \<le> m_count self" and "m_count self \<le> m_max self"
    by (auto simp: array_wf_def)
  with Some show ?thesis
    by (intro buf [of "take ?n b" "drop ?n b"]) (auto simp: elems_def)
qed

lemma m_count_elems: "array_wf self \<Longrightarrow> m_count self = int (length (elems self))"
  by (erule array_wf_cases) auto

lemma array_wf_init [wf_intros]: "0 < eltsz \<Longrightarrow> array_wf (array_init eltsz blocksz)"
  by (simp add: array_wf_def array_init_def ARRAY_DEFAULT_BLOCKSZ_def)

lemma elems_init [simp]: "elems (array_init eltsz blocksz) = []"
  by (simp add: elems_def array_init_def)

lemma array_wf_import [wf_intros]:
  "0 < eltsz \<Longrightarrow> array_wf (array_import (Some xs) (int (length xs)) eltsz blocksz f g)"
  by (simp add: array_wf_def array_import_def ARRAY_DEFAULT_BLOCKSZ_def)

lemma elems_import [simp]: "elems (array_import (Some xs) (int (length xs)) eltsz blocksz f g) = xs"
  by (simp add: elems_def array_import_def)

lemma array_wf_clear [wf_intros]: "array_wf self \<Longrightarrow> array_wf (fst (array_clear self))"
  by (simp add: array_wf_def array_clear_def)

lemma elems_clear [simp]: "elems (fst (array_clear self)) = []"
  by (simp add: elems_def array_clear_def)

lemma array_wf_extract [wf_intros]: "array_wf self \<Longrightarrow> array_wf (fst (array_extract self))"
  by (simp add: array_wf_def array_extract_def)

lemma array_count_eq: "array_wf self \<Longrightarrow> array_count self = int (length (elems self))"
  by (simp add: array_count_def m_count_elems)

lemma array_get_eq:
  assumes "array_wf self"
  shows "array_get self i =
     (let n = int (length (elems self)); j = (if i < 0 then n + i else i)
      in if 0 \<le> j \<and> j < n then Some j else None)"
proof -
  have "int (length (elems self)) = m_count self"
    using assms by (simp add: m_count_elems)
  moreover have "0 < m_eltsz self" and "m_array self = None \<Longrightarrow> m_count self = 0"
    using assms by (auto simp: array_wf_def)
  ultimately show ?thesis
    by (cases "m_array self") (auto simp: array_get_def Let_def)
qed

lemma elt_at_nat:
  assumes wf: "array_wf self" and n: "n < length (elems self)"
  shows "elt_at self (array_get self (int n)) = Some (elems self ! n)"
proof -
  have "array_get self (int n) = Some (int n)"
    using wf n by (simp add: array_get_eq)
  moreover obtain xs ys where "m_array self = Some (xs @ ys)" "elems self = xs"
    using wf n by (cases rule: array_wf_cases) auto
  ultimately show ?thesis
    using n by (simp add: elt_at_def mem_get_def nth_append)
qed

lemma elt_at_get:
  "array_wf self \<Longrightarrow> 0 \<le> i \<Longrightarrow> i < int (length (elems self)) \<Longrightarrow>
   elt_at self (array_get self i) = Some (elems self ! nat i)"
  using elt_at_nat [of self "nat i"] by simp

section \<open>Growing\<close>

lemma mem_fill_end:
  "mem_fill (xs @ ys) (int (length xs)) (int (length ys)) z = Some (xs @ replicate (length ys) z)"
  by (simp add: mem_fill_def blit_def)

text \<open>The buffer after \<open>array_add\<close> made room: the old elements, then at least \<open>num\<close> free cells.\<close>

lemma array_add_spec:
  assumes wf: "array_wf self" and num: "0 < num"
  shows "\<exists>self'. array_add True z self num = Some (self', Some (m_count self)) \<and> array_wf self' \<and>
           elems self' = elems self @ replicate (nat num) z \<and>
           m_eltsz self' = m_eltsz self \<and> m_blocksz self' = m_blocksz self \<and>
           m_free_func self' = m_free_func self \<and> m_free_farg self' = m_free_farg self"
proof -
  define xs where "xs = elems self"
  obtain ys where arr: "m_array self = Some (xs @ ys) \<or> m_array self = None \<and> xs = [] \<and> ys = []"
    and cnt: "m_count self = int (length xs)" and mx: "m_max self = int (length xs + length ys)"
    using wf by (cases rule: array_wf_cases) (auto simp: xs_def)
  have elt: "0 < m_eltsz self" "0 < m_blocksz self" using wf by (auto simp: array_wf_def)
  show ?thesis
  proof (cases "m_count self + num \<le> m_max self")
    case True
    then have len: "nat num \<le> length ys" using cnt mx num by auto
    then have arr': "m_array self = Some (xs @ ys)" using arr num by auto
    define b1 where "b1 = xs @ replicate (nat num) z @ drop (nat num) ys"
    have f: "mem_fill (xs @ ys) (m_count self) num z = Some b1"
      using len num cnt by (auto simp: mem_fill_def blit_def b1_def)
    have "array_add True z self num = Some (self\<lparr>m_array := Some b1, m_count := m_count self + num\<rparr>, Some (m_count self))"
      using True arr' elt num f by (simp add: array_add_def)
    moreover have "elems (self\<lparr>m_array := Some b1, m_count := m_count self + num\<rparr>) = xs @ replicate (nat num) z"
      using cnt num by (simp add: elems_def b1_def nat_add_distrib)
    moreover have "array_wf (self\<lparr>m_array := Some b1, m_count := m_count self + num\<rparr>)"
      using elt True cnt mx num len by (simp add: array_wf_def b1_def)
    ultimately show ?thesis by (auto simp: xs_def)
  next
    case False
    define mx' where "mx' = m_count self + (if num > m_blocksz self then num else m_blocksz self)"
    have big: "int (length xs) + num \<le> mx'" "int (length xs + length ys) \<le> mx'"
      using elt num cnt mx False by (auto simp: mx'_def)
    define r where "r = ys @ replicate (nat mx' - length (xs @ ys)) z"
    have re: "mem_realloc z (m_array self) mx' = Some (xs @ r)"
      using arr big by (auto simp: mem_realloc_def Let_def r_def)
    have lr: "int (length r) = mx' - m_count self" using big cnt by (auto simp: r_def)
    define b1 where "b1 = xs @ replicate (length r) z"
    have f1: "mem_fill (xs @ r) (m_count self) (mx' - m_count self) z = Some b1"
      using mem_fill_end [of xs r z] cnt lr by (simp add: b1_def)
    define b2 where "b2 = xs @ replicate (nat num) z @ replicate (length r - nat num) z"
    have nr: "nat num \<le> length r" using lr big cnt num by linarith
    have f2: "mem_fill b1 (m_count self) num z = Some b2"
      using cnt num nr by (simp add: mem_fill_def blit_def b1_def b2_def)
    let ?s = "self\<lparr>m_max := mx', m_array := Some b2, m_count := m_count self + num\<rparr>"
    have "array_add True z self num = Some (?s, Some (m_count self))"
      using False elt num re f1 f2 by (simp add: array_add_def Let_def mx'_def [symmetric])
    moreover have "elems ?s = xs @ replicate (nat num) z"
      using cnt num by (simp add: elems_def b2_def nat_add_distrib)
    moreover have "array_wf ?s"
      using elt cnt big num nr lr by (simp add: array_wf_def b2_def)
    ultimately show ?thesis by (auto simp: xs_def)
  qed
qed

lemma array_add_nonpos:
  "array_wf self \<Longrightarrow> num \<le> 0 \<Longrightarrow> array_add ok z self num = Some (self, None)"
  by (simp add: array_add_def array_wf_def)

text \<open>
  A failing \<open>realloc\<close> is reported by the null pointer, but the array is left with a null
  \<open>m_array\<close> and the enlarged \<open>m_max\<close>.
\<close>

lemma array_add_fail:
  assumes "array_wf self" "m_max self < m_count self + num"
  shows "\<exists>mx. array_add False z self num = Some (self\<lparr>m_max := mx, m_array := None\<rparr>, None) \<and>
              m_count self + num \<le> mx"
  using assms by (auto simp: array_add_def Let_def array_wf_def)

text \<open>Shape of a state whose buffer is replaced by one of the same length.\<close>

lemma wf_replace_buf:
  assumes "array_wf self" "m_array self = Some buf" "length buf' = length buf"
  shows "array_wf (self\<lparr>m_array := Some buf'\<rparr>)"
    and "elems (self\<lparr>m_array := Some buf'\<rparr>) = take (length (elems self)) buf'"
proof -
  have "int (length (elems self)) = m_count self" using assms by (simp add: m_count_elems)
  then have "length (elems self) = nat (m_count self)" by simp
  then show "elems (self\<lparr>m_array := Some buf'\<rparr>) = take (length (elems self)) buf'"
    by (simp add: elems_def)
  show "array_wf (self\<lparr>m_array := Some buf'\<rparr>)" using assms by (simp add: array_wf_def)
qed

lemma wf_buf_split:
  assumes "array_wf self" "m_array self = Some buf"
  obtains ys where "buf = elems self @ ys"
  using assms by (cases rule: array_wf_cases) auto

lemma m_array_SomeI:
  assumes "array_wf self" "elems self \<noteq> []"
  obtains ys where "m_array self = Some (elems self @ ys)"
  using assms by (cases rule: array_wf_cases) auto

section \<open>Shrinking\<close>

lemma array_remove_idx_spec:
  assumes wf: "array_wf self" and xs: "elems self = as @ ms @ bs"
    and len: "length ms = nat len" "0 < len"
  shows "\<exists>self'. array_remove_idx self (int (length as)) len = Some self' \<and> array_wf self' \<and>
           elems self' = as @ bs \<and> m_eltsz self' = m_eltsz self \<and>
           m_free_func self' = m_free_func self \<and> m_free_farg self' = m_free_farg self"
proof -
  have ne: "ms \<noteq> []" using len by auto
  then have "elems self \<noteq> []" using xs by simp
  then obtain ys where arr: "m_array self = Some (as @ ms @ bs @ ys)"
    using wf xs m_array_SomeI [of self] by auto
  have cnt: "m_count self = int (length as + length ms + length bs)"
    using wf xs by (simp add: m_count_elems)
  have get: "array_get self (int (length as)) = Some (int (length as))"
    using wf xs ne len(2) by (auto simp: array_get_eq Let_def len(1))
  have lm: "len = int (length ms)" using len by simp
  define buf' where "buf' = as @ bs @ drop (length bs) (ms @ bs @ ys)"
  have mv: "mem_move (as @ ms @ bs @ ys) (int (length as)) (int (length as) + len)
              (m_count self - int (length as) - len) = Some buf'"
    using lm cnt by (simp add: mem_move_def slice_ok blit_ok buf'_def)
  let ?s = "self\<lparr>m_array := Some buf', m_count := m_count self - len\<rparr>"
  have "array_remove_idx self (int (length as)) len = Some ?s"
  proof (cases "int (length as) < m_count self - 1")
    case True
    then show ?thesis
      using get arr mv lm cnt len(2) by (simp add: array_remove_idx_def Let_def)
  next
    case False
    have "0 < length ms" using ne by simp
    then have "length bs = 0" using False cnt by linarith
    then have "bs = []" by simp
    then have "buf' = as @ ms @ bs @ ys" by (simp add: buf'_def)
    then show ?thesis
      using False get arr lm cnt len(2) by (simp add: array_remove_idx_def Let_def)
  qed
  moreover have "array_wf ?s" using wf arr cnt lm by (auto simp: array_wf_def buf'_def)
  moreover have "elems ?s = as @ bs" using cnt lm by (simp add: elems_def buf'_def nat_add_distrib)
  ultimately show ?thesis by auto
qed

lemma array_remove_idx_out:
  assumes "array_wf self" "i \<ge> int (length (elems self)) \<or> i < - 2 * int (length (elems self))"
  shows "array_remove_idx self i len = Some self"
proof -
  define j where "j = (if i < 0 then i + m_count self else i)"
  have "array_get self j = None"
    using assms by (auto simp: array_get_eq Let_def j_def m_count_elems)
  then show ?thesis by (simp add: array_remove_idx_def Let_def j_def)
qed

lemma array_remove_one:
  assumes "array_wf self" "i < length (elems self)"
  shows "\<exists>self'. array_remove_idx self (int i) 1 = Some self' \<and> array_wf self' \<and>
           elems self' = take i (elems self) @ drop (Suc i) (elems self) \<and>
           m_eltsz self' = m_eltsz self \<and>
           m_free_func self' = m_free_func self \<and> m_free_farg self' = m_free_farg self"
proof -
  have "elems self = take i (elems self) @ [elems self ! i] @ drop (Suc i) (elems self)"
    using assms(2) by (simp add: nth_take_drop_split)
  from array_remove_idx_spec [OF assms(1) this, of 1] assms(2) show ?thesis
    by (simp add: min.absorb2)
qed

text \<open>\<open>array_remove_ptr\<close> of the address of element \<open>i\<close> removes that element.\<close>

lemma array_index_elt: "0 < m_eltsz self \<Longrightarrow> 0 \<le> i \<Longrightarrow> array_index self (i * m_eltsz self) = i"
  by (cases "i = 0") (auto simp: array_index_def abs_mult sgn_mult)

lemma array_remove_ptr_eq:
  "array_wf self \<Longrightarrow> 0 \<le> i \<Longrightarrow> array_remove_ptr self (i * m_eltsz self) = array_remove_idx self i 1"
  by (simp add: array_remove_ptr_def array_index_elt array_wf_def)

section \<open>Appending and copying\<close>

lemma array_append_spec:
  assumes wf: "array_wf self" and n: "0 < n" "nat n \<le> length ws"
  shows "\<exists>self'. array_append True z self ws n = Some (self', Some (m_count self)) \<and> array_wf self' \<and>
           elems self' = elems self @ take (nat n) ws \<and>
           m_eltsz self' = m_eltsz self \<and> m_blocksz self' = m_blocksz self"
proof -
  obtain s1 where s1: "array_add True z self n = Some (s1, Some (m_count self))" "array_wf s1"
      "elems s1 = elems self @ replicate (nat n) z" "m_eltsz s1 = m_eltsz self"
      "m_blocksz s1 = m_blocksz self"
    using array_add_spec [OF wf n(1), of z] by blast
  have "elems s1 \<noteq> []" using s1(3) n by simp
  then obtain ys where arr: "m_array s1 = Some (elems self @ replicate (nat n) z @ ys)"
    using s1(2,3) m_array_SomeI [of s1] by auto
  define b where "b = elems self @ take (nat n) ws @ ys"
  have "blit (elems self @ replicate (nat n) z @ ys) (m_count self) (take (nat n) ws) = Some b"
    using wf n by (auto simp: blit_def b_def m_count_elems min_def)
  moreover have "slice ws 0 n = Some (take (nat n) ws)" using n by (simp add: slice_ok)
  ultimately have "array_append True z self ws n = Some (s1\<lparr>m_array := Some b\<rparr>, Some (m_count self))"
    using n s1(1) arr by (simp add: array_append_def)
  moreover have lb: "length b = length (elems self @ replicate (nat n) z @ ys)"
    using n by (simp add: b_def)
  moreover have "take (length (elems s1)) b = elems self @ take (nat n) ws"
    using n s1(3) by (simp add: b_def)
  ultimately show ?thesis using wf_replace_buf [OF s1(2) arr lb] s1(4,5) by simp
qed

lemma array_concat_spec:
  assumes wf: "array_wf dst" "array_wf src" and sz: "m_eltsz dst = m_eltsz src"
    and ne: "elems src \<noteq> []"
  shows "\<exists>dst'. array_concat True z dst src = Some (dst', Some (m_count dst)) \<and> array_wf dst' \<and>
           elems dst' = elems dst @ elems src"
proof -
  obtain ys where src: "m_array src = Some (elems src @ ys)" using wf(2) ne by (rule m_array_SomeI)
  have n: "0 < array_count src" "nat (array_count src) = length (elems src)"
    using wf(2) ne by (auto simp: array_count_eq)
  obtain s1 where s1: "array_add True z dst (array_count src) = Some (s1, Some (m_count dst))"
      "array_wf s1" "elems s1 = elems dst @ replicate (nat (array_count src)) z"
    using array_add_spec [OF wf(1) n(1), of z] by blast
  have "elems s1 \<noteq> []" using s1(3) n ne by simp
  then obtain zs where arr: "m_array s1 = Some (elems dst @ replicate (length (elems src)) z @ zs)"
    using s1(2,3) m_array_SomeI [of s1] n by auto
  define b where "b = elems dst @ elems src @ zs"
  have "array_get src 0 = Some 0" using wf(2) ne by (simp add: array_get_eq Let_def)
  moreover have "slice (elems src @ ys) 0 (array_count src) = Some (elems src)"
    using n by (simp add: slice_def)
  moreover have "blit (elems dst @ replicate (length (elems src)) z @ zs) (m_count dst) (elems src) = Some b"
    using wf(1) by (simp add: blit_def b_def m_count_elems)
  ultimately have "array_concat True z dst src = Some (s1\<lparr>m_array := Some b\<rparr>, Some (m_count dst))"
    using sz s1(1) src arr by (simp add: array_concat_def)
  moreover have "take (length (elems s1)) b = elems dst @ elems src"
    using s1(3) n by (simp add: b_def)
  ultimately show ?thesis
    using wf_replace_buf [OF s1(2) arr, of b] by (simp add: b_def)
qed

lemma array_copy_spec:
  assumes wf: "array_wf src"
  shows "\<exists>dst. array_copy True z src = Some dst \<and> array_wf dst \<and> elems dst = elems src \<and>
           m_eltsz dst = m_eltsz src"
proof (cases "elems src = []")
  case True
  have "0 < m_eltsz src" using wf by (simp add: array_wf_def)
  with True wf array_wf_init [of "m_eltsz src" "m_blocksz src"] show ?thesis
    by (auto simp: array_copy_def array_count_eq array_init_def elems_def)
next
  case False
  obtain ys where src: "m_array src = Some (elems src @ ys)" using wf False by (rule m_array_SomeI)
  have n: "0 < array_count src" "nat (array_count src) \<le> length (elems src @ ys)"
    using wf False by (auto simp: array_count_eq)
  have i: "array_wf (array_init (m_eltsz src) (m_blocksz src))"
    using wf by (intro array_wf_init) (simp add: array_wf_def)
  have g: "array_get src 0 = Some 0" using wf False by (simp add: array_get_eq Let_def)
  from array_append_spec [OF i n, of z] src g n wf show ?thesis
    by (auto simp: array_copy_def Let_def array_count_eq) (simp add: array_init_def)
qed

text \<open>
  A negative index is normalised twice, once by \<open>array_remove_idx\<close> and once by the \<open>array_get\<close> it
  calls. One step before the first element the second normalisation yields the last element, and
  the number of elements to move is computed from the index that is still negative: the \<open>memmove\<close>
  reads behind the buffer.
\<close>

lemma array_remove_idx_before:
  assumes wf: "array_wf self" and ne: "elems self \<noteq> []"
    and full: "m_array self = Some (elems self)"
  shows "array_remove_idx self (- int (length (elems self)) - 1) 1 = None"
proof -
  let ?n = "int (length (elems self))"
  have pos: "0 < ?n" using ne by simp
  have g: "array_get self (- 1) = Some (?n - 1)"
    using wf pos by (simp add: array_get_eq Let_def)
  have "mem_move (elems self) (?n - 1) (?n - 1 + 1) (?n - (- 1) - 1) = None"
    using pos by (simp add: mem_move_def slice_def)
  with wf g full pos show ?thesis
    by (simp add: array_remove_idx_def Let_def m_count_elems)
qed

section \<open>Searching\<close>

text \<open>\<open>found_last P n r\<close>: \<open>r\<close> is the last index below \<open>n\<close> with \<open>P\<close>, or -1 when there is none.\<close>

definition found_last :: "(nat \<Rightarrow> bool) \<Rightarrow> nat \<Rightarrow> int \<Rightarrow> bool" where
  "found_last P n r \<longleftrightarrow>
     (if r < 0 then r = -1 \<and> (\<forall>i<n. \<not> P i)
      else r < int n \<and> P (nat r) \<and> (\<forall>i<n. nat r < i \<longrightarrow> \<not> P i))"

lemma found_last_hit: "P n \<Longrightarrow> found_last P (Suc n) (int n)"
  by (simp add: found_last_def)

lemma found_last_miss: "\<not> P n \<Longrightarrow> found_last P n r \<Longrightarrow> found_last P (Suc n) r"
  by (auto simp: found_last_def less_Suc_eq split: if_splits)

lemma found_last_neg: "found_last P n r \<Longrightarrow> r < 0 \<longleftrightarrow> \<not> (\<exists>i<n. P i)"
  by (cases "r < 0") (auto simp: found_last_def intro!: exI [of _ "nat r"])

lemma array_find_loop_spec:
  assumes "array_wf self" "n \<le> length (elems self)"
  shows "\<exists>r. array_find_loop cmp k self n = Some r \<and>
           found_last (\<lambda>i. cmp k (elems self ! i) = 0) n r"
  using assms(2)
proof (induction n)
  case 0
  show ?case by (simp add: found_last_def)
next
  case (Suc n)
  let ?P = "\<lambda>i. cmp k (elems self ! i) = 0"
  have at: "elt_at self (array_get self (int n)) = Some (elems self ! n)"
    using assms(1) Suc.prems by (intro elt_at_nat) auto
  show ?case
  proof (cases "?P n")
    case True
    then have "array_find_loop cmp k self (Suc n) = Some (int n)" using at by simp
    with found_last_hit [of ?P n] True show ?thesis by blast
  next
    case False
    from Suc.IH Suc.prems obtain r where r: "array_find_loop cmp k self n = Some r" "found_last ?P n r"
      by (meson Suc_leD)
    have "array_find_loop cmp k self (Suc n) = Some r" using False at r(1) by simp
    with found_last_miss [of ?P n r] False r(2) show ?thesis by blast
  qed
qed

lemma array_find_spec:
  assumes "array_wf self"
  shows "\<exists>r. array_find self cmp k = Some r \<and>
           found_last (\<lambda>i. cmp k (elems self ! i) = 0) (length (elems self)) r"
  using array_find_loop_spec [OF assms order_refl, of cmp k] assms
  by (simp add: array_find_def array_count_eq)

lemma array_find_neg:
  assumes "array_wf self"
  obtains r where "array_find self cmp k = Some r"
    and "r < 0 \<longleftrightarrow> (\<forall>x\<in>set (elems self). cmp k x \<noteq> 0)"
proof -
  obtain r where "array_find self cmp k = Some r"
    and "found_last (\<lambda>i. cmp k (elems self ! i) = 0) (length (elems self)) r"
    using array_find_spec [OF assms, of cmp k] by blast
  moreover from this(2) have "r < 0 \<longleftrightarrow> \<not> (\<exists>i<length (elems self). cmp k (elems self ! i) = 0)"
    by (rule found_last_neg)
  ultimately show ?thesis by (intro that [of r]) (simp_all add: all_set_conv_all_nth)
qed

lemma array_add_nodup_spec:
  assumes wf: "array_wf self"
  shows "\<exists>self' r. array_add_nodup True z self cmp x = Some (self', r) \<and> array_wf self' \<and> 0 \<le> r \<and>
    elems self' = (if \<exists>y\<in>set (elems self). cmp x y = 0 then elems self else elems self @ [x])"
proof -
  obtain r where r: "array_find self cmp x = Some r"
    "r < 0 \<longleftrightarrow> (\<forall>y\<in>set (elems self). cmp x y \<noteq> 0)"
    using wf by (rule array_find_neg)
  show ?thesis
  proof (cases "r < 0")
    case False
    with r wf show ?thesis by (auto simp: array_add_nodup_def)
  next
    case True
    obtain s1 where s1: "array_add True z self 1 = Some (s1, Some (m_count self))" "array_wf s1"
        "elems s1 = elems self @ [z]"
      using array_add_spec [OF wf, of 1 z] by auto
    obtain ys where arr: "m_array s1 = Some (elems self @ z # ys)"
      using s1(2,3) m_array_SomeI [of s1] by auto
    define b where "b = elems self @ x # ys"
    have "mem_put (elems self @ z # ys) (m_count self) x = Some b"
      using wf by (simp add: mem_put_def m_count_elems b_def)
    then have "array_add_nodup True z self cmp x = Some (s1\<lparr>m_array := Some b\<rparr>, 0)"
      using True r(1) s1(1) arr by (simp add: array_add_nodup_def)
    moreover have "take (length (elems s1)) b = elems self @ [x]" using s1(3) by (simp add: b_def)
    ultimately show ?thesis
      using wf_replace_buf [OF s1(2) arr, of b] True r(2) by (auto simp: b_def)
  qed
qed

lemma array_subset_loop_spec:
  assumes "array_wf A" "array_wf B" "n \<le> length (elems A)"
  shows "array_subset_loop A B cmp n =
     Some (\<forall>i<n. \<exists>y\<in>set (elems B). cmp (elems A ! i) y = 0)"
  using assms(3)
proof (induction n)
  case (Suc n)
  have at: "elt_at A (array_get A (int n)) = Some (elems A ! n)"
    using assms(1) Suc.prems by (intro elt_at_nat) auto
  obtain r where "array_find B cmp (elems A ! n) = Some r"
    "r < 0 \<longleftrightarrow> (\<forall>y\<in>set (elems B). cmp (elems A ! n) y \<noteq> 0)"
    using assms(2) by (rule array_find_neg)
  with Suc at show ?case by (auto simp: less_Suc_eq)
qed simp

section \<open>Binary search\<close>

text \<open>
  \<open>array_sorted cmp k xs\<close>: \<open>xs\<close> is ordered with respect to the needle \<open>k\<close>, that is, the elements
  below \<open>k\<close> come first, then those equal to it, then those above.
\<close>

definition array_sorted :: "('b \<Rightarrow> 'a \<Rightarrow> int) \<Rightarrow> 'b \<Rightarrow> 'a list \<Rightarrow> bool" where
  "array_sorted cmp k xs \<longleftrightarrow> sorted (map (\<lambda>x. - sgn (cmp k x)) xs)"

lemma array_sorted_less:
  assumes "array_sorted cmp k xs" "i \<le> j" "j < length xs"
  shows "cmp k (xs ! i) < 0 \<Longrightarrow> cmp k (xs ! j) < 0"
    and "cmp k (xs ! j) > 0 \<Longrightarrow> cmp k (xs ! i) > 0"
    and "cmp k (xs ! i) \<le> 0 \<Longrightarrow> cmp k (xs ! j) \<le> 0"
    and "cmp k (xs ! j) \<ge> 0 \<Longrightarrow> cmp k (xs ! i) \<ge> 0"
proof -
  have "sgn (cmp k (xs ! j)) \<le> sgn (cmp k (xs ! i))"
    using assms sorted_nth_mono [of "map (\<lambda>x. - sgn (cmp k x)) xs" i j]
    by (auto simp: array_sorted_def)
  then show "cmp k (xs ! i) < 0 \<Longrightarrow> cmp k (xs ! j) < 0"
    and "cmp k (xs ! j) > 0 \<Longrightarrow> cmp k (xs ! i) > 0"
    and "cmp k (xs ! i) \<le> 0 \<Longrightarrow> cmp k (xs ! j) \<le> 0"
    and "cmp k (xs ! j) \<ge> 0 \<Longrightarrow> cmp k (xs ! i) \<ge> 0"
    by (auto simp: sgn_if split: if_splits)
qed

text \<open>The bisection ends at a position that is equal to the needle or the last one below it.\<close>

lemma bsearch_loop_spec:
  assumes "array_wf self" and "a \<le> b" "b < length (elems self)"
    and "cmp k (elems self ! a) \<ge> 0"
    and "Suc b = length (elems self) \<or> cmp k (elems self ! b) < 0"
  shows "\<exists>r. bsearch_loop cmp k self a b = Some r \<and> r < length (elems self) \<and>
    cmp k (elems self ! r) \<ge> 0 \<and>
    (cmp k (elems self ! r) = 0 \<or> Suc r = length (elems self) \<or> cmp k (elems self ! Suc r) < 0)"
  using assms
proof (induction cmp k self a b rule: bsearch_loop.induct)
  case (1 cmp k self a b)
  let ?xs = "elems self"
  define m where "m = (a + b) div 2"
  show ?case
  proof (cases "a \<ge> b")
    case True
    with "1.prems" have "a = b" by simp
    with "1.prems" show ?thesis by (auto simp: bsearch_loop.simps [of cmp k self b b])
  next
    case False
    then have m: "a \<le> m" "m < b" "m < length ?xs" and am: "a = m \<Longrightarrow> b = Suc a"
      using "1.prems" by (auto simp: m_def)
    have at: "elt_at self (array_get self (int m)) = Some (?xs ! m)"
      "elt_at self (array_get self (int b)) = Some (?xs ! b)"
      using m "1.prems" by (auto intro!: elt_at_nat)
    consider "cmp k (?xs ! m) = 0" | "cmp k (?xs ! m) < 0" | "cmp k (?xs ! m) > 0" "a = m"
      | "cmp k (?xs ! m) > 0" "a \<noteq> m" by linarith
    then show ?thesis
    proof cases
      case 2
      have "\<exists>r. bsearch_loop cmp k self a m = Some r \<and> r < length ?xs \<and> cmp k (?xs ! r) \<ge> 0 \<and>
        (cmp k (?xs ! r) = 0 \<or> Suc r = length ?xs \<or> cmp k (?xs ! Suc r) < 0)"
        using 2 False m at "1.prems" by (intro "1.IH"(1)) (auto simp: m_def)
      with 2 False m at show ?thesis
        by (auto simp: bsearch_loop.simps [of cmp k self a b] m_def [symmetric] Let_def)
    next
      case 4
      have "\<exists>r. bsearch_loop cmp k self m b = Some r \<and> r < length ?xs \<and> cmp k (?xs ! r) \<ge> 0 \<and>
        (cmp k (?xs ! r) = 0 \<or> Suc r = length ?xs \<or> cmp k (?xs ! Suc r) < 0)"
        using 4 False m at "1.prems" by (intro "1.IH"(2)) (auto simp: m_def)
      with 4 False m at show ?thesis
        by (auto simp: bsearch_loop.simps [of cmp k self a b] m_def [symmetric] Let_def)
    next
      case 1
      with False m at show ?thesis
        by (auto simp: bsearch_loop.simps [of cmp k self a b] m_def [symmetric] Let_def)
    next
      case 3
      then have "m = a" by simp
      with False at 3(1) have "bsearch_loop cmp k self a b = Some (if cmp k (?xs ! b) \<ge> 0 then b else a)"
        by (simp add: bsearch_loop.simps [of cmp k self a b] m_def [symmetric] Let_def)
      with am [OF 3(2)] "1.prems" show ?thesis by auto
    qed
  qed
qed

lemma bsearch_back_spec:
  assumes "array_wf self" "a < length (elems self)"
  shows "\<exists>r. bsearch_back cmp k self a = Some r \<and> r \<le> a \<and>
    (\<forall>i. r \<le> i \<and> i < a \<longrightarrow> cmp k (elems self ! i) = 0) \<and>
    (r = 0 \<or> cmp k (elems self ! (r - 1)) \<noteq> 0)"
  using assms(2)
proof (induction a)
  case (Suc a)
  have at: "elt_at self (array_get self (int a)) = Some (elems self ! a)"
    using assms(1) Suc.prems by (intro elt_at_nat) auto
  show ?case
  proof (cases "cmp k (elems self ! a) = 0")
    case True
    from Suc.IH Suc.prems obtain r where "bsearch_back cmp k self a = Some r" "r \<le> a"
      "\<forall>i. r \<le> i \<and> i < a \<longrightarrow> cmp k (elems self ! i) = 0" "r = 0 \<or> cmp k (elems self ! (r - 1)) \<noteq> 0"
      by (meson Suc_lessD)
    with True at show ?thesis by (intro exI [of _ r]) (auto simp: less_Suc_eq)
  qed (use at in auto)
qed simp

text \<open>
  What \<open>array_bsearch\<close> returns, on an array ordered with respect to the needle: -1 when every
  element is above it; the first of the equal elements when there is one; otherwise the last
  element below it.
\<close>

lemma array_bsearch_cases:
  assumes wf: "array_wf self" and srt: "array_sorted cmp k (elems self)"
  shows "(\<forall>x\<in>set (elems self). cmp k x < 0) \<and> array_bsearch self cmp k = Some (-1) \<or>
    (\<exists>r < length (elems self). array_bsearch self cmp k = Some (int r) \<and>
       (\<forall>i < r. cmp k (elems self ! i) > 0) \<and>
       (cmp k (elems self ! r) = 0 \<or>
        cmp k (elems self ! r) > 0 \<and> (\<forall>i < length (elems self). r < i \<longrightarrow> cmp k (elems self ! i) < 0)))"
proof -
  let ?xs = "elems self" and ?n = "length (elems self)"
  have cnt: "array_count self = int ?n" using wf by (rule array_count_eq)
  consider (empty) "?xs = []" | (above) "?xs \<noteq> []" "cmp k (?xs ! 0) < 0"
    | (go) "?xs \<noteq> []" "cmp k (?xs ! 0) \<ge> 0" by linarith
  then show ?thesis
  proof cases
    case empty
    then show ?thesis using cnt by (simp add: array_bsearch_def)
  next
    case above
    then have "elt_at self (array_get self 0) = Some (?xs ! 0)"
      using elt_at_nat [OF wf, of 0] by simp
    moreover have "\<forall>x\<in>set ?xs. cmp k x < 0"
      using above array_sorted_less(1) [OF srt, of 0] by (auto simp: in_set_conv_nth)
    ultimately show ?thesis using above cnt by (simp add: array_bsearch_def)
  next
    case go
    then have at: "elt_at self (array_get self 0) = Some (?xs ! 0)"
      using elt_at_nat [OF wf, of 0] by simp
    have pos: "0 < ?n" using go by simp
    obtain a where a: "bsearch_loop cmp k self 0 (?n - 1) = Some a" "a < ?n"
      "cmp k (?xs ! a) \<ge> 0" "cmp k (?xs ! a) = 0 \<or> Suc a = ?n \<or> cmp k (?xs ! Suc a) < 0"
      using bsearch_loop_spec [OF wf, of 0 "?n - 1" cmp k] pos go by auto
    obtain r where r: "bsearch_back cmp k self a = Some r" "r \<le> a"
      "\<forall>i. r \<le> i \<and> i < a \<longrightarrow> cmp k (?xs ! i) = 0" "r = 0 \<or> cmp k (?xs ! (r - 1)) \<noteq> 0"
      using bsearch_back_spec [OF wf a(2), of cmp k] by blast
    have "nat (array_count self - 1) = ?n - 1" using cnt by simp
    then have res: "array_bsearch self cmp k = Some (int r)"
      using at go(2) a(1) r(1) pos cnt by (simp add: array_bsearch_def)
    have r0: "cmp k (?xs ! r) \<ge> 0" using r(2,3) a(3) by (cases "r = a") auto
    have below: "\<forall>i < r. cmp k (?xs ! i) > 0"
    proof (intro allI impI)
      fix i assume i: "i < r"
      then have "cmp k (?xs ! (r - 1)) \<noteq> 0" using r(4) by simp
      moreover have "cmp k (?xs ! (r - 1)) \<ge> 0"
        using array_sorted_less(4) [OF srt, of "r - 1" r] r0 r(2) a(2) by simp
      ultimately show "cmp k (?xs ! i) > 0"
        using array_sorted_less(2) [OF srt, of i "r - 1"] i r(2) a(2) by simp
    qed
    have "cmp k (?xs ! r) = 0 \<or> (\<forall>i < ?n. r < i \<longrightarrow> cmp k (?xs ! i) < 0)"
    proof (rule disjCI)
      assume not: "\<not> (\<forall>i < ?n. r < i \<longrightarrow> cmp k (?xs ! i) < 0)"
      show "cmp k (?xs ! r) = 0"
      proof (rule ccontr)
        assume ne: "cmp k (?xs ! r) \<noteq> 0"
        then have "r = a" using r(2,3) by (cases "r = a") auto
        with ne a(4) have sa: "Suc r = ?n \<or> cmp k (?xs ! Suc r) < 0" by simp
        from not obtain i where "i < ?n" "r < i" "\<not> cmp k (?xs ! i) < 0" by blast
        with sa array_sorted_less(1) [OF srt, of "Suc r" i] show False by auto
      qed
    qed
    with res below r0 r(2) a(2) show ?thesis by (intro disjI2 exI [of _ r]) auto
  qed
qed

section \<open>Sorting\<close>

text \<open>The documented behaviour of \<open>qsort\<close> for one comparison function: a sorted permutation.\<close>

definition qsort_ok :: "(('a \<Rightarrow> 'a \<Rightarrow> int) \<Rightarrow> 'a list \<Rightarrow> 'a list) \<Rightarrow> ('a \<Rightarrow> 'a \<Rightarrow> int) \<Rightarrow> bool" where
  "qsort_ok qs cmp \<longleftrightarrow>
     (\<forall>xs. length (qs cmp xs) = length xs \<and> set (qs cmp xs) = set xs \<and>
           sorted_wrt (\<lambda>x y. cmp x y \<le> 0) (qs cmp xs))"

lemma array_qsort_spec:
  assumes wf: "array_wf self" and qs: "qsort_ok qs cmp"
  shows "array_wf (array_qsort qs self cmp)" "elems (array_qsort qs self cmp) = qs cmp (elems self)"
proof -
  have len: "length (qs cmp xs) = length xs" for xs using qs by (simp add: qsort_ok_def)
  show "array_wf (array_qsort qs self cmp)"
    using wf len by (auto simp: array_wf_def array_qsort_def split: option.splits)
  show "elems (array_qsort qs self cmp) = qs cmp (elems self)"
  proof (cases "m_array self")
    case None
    then show ?thesis using len [of "[]"] by (simp add: array_qsort_def elems_def)
  next
    case (Some b)
    then have "m_count self \<le> int (length b)" using wf by (simp add: array_wf_def)
    then have "nat (m_count self) \<le> length b" by linarith
    then show ?thesis using Some len [of "take (nat (m_count self)) b"]
      by (simp add: array_qsort_def elems_def)
  qed
qed

lemma sorted_wrt_array_sorted:
  assumes srt: "sorted_wrt (\<lambda>x y. cmp x y \<le> 0) xs"
    and trans: "\<And>x y. cmp x y \<le> 0 \<Longrightarrow> cmp k x \<le> 0 \<Longrightarrow> cmp k y \<le> 0"
    and trans': "\<And>x y. cmp x y \<le> 0 \<Longrightarrow> cmp k x < 0 \<Longrightarrow> cmp k y < 0"
  shows "array_sorted cmp k xs"
proof -
  have "sorted_wrt (\<lambda>x y. - sgn (cmp k x) \<le> - sgn (cmp k y)) xs"
    using srt by (rule sorted_wrt_mono_rel [rotated]) (use trans trans' in \<open>force simp: sgn_if\<close>)
  then show ?thesis by (simp add: array_sorted_def sorted_wrt_map)
qed

section \<open>The growable-sequence interface\<close>

text \<open>
  The contract of the array that its clients rely on (the send queue, the table of descriptors and
  the list of pending round trips): pushing at the end and removing at an index act on a list.
\<close>

locale growable =
  fixes inv :: "'s \<Rightarrow> bool" and items :: "'s \<Rightarrow> 'a list"
    and push :: "'s \<Rightarrow> 'a \<Rightarrow> 's option" and remove :: "'s \<Rightarrow> nat \<Rightarrow> 's option"
  assumes push_ok: "inv s \<Longrightarrow> \<exists>s'. push s x = Some s' \<and> inv s' \<and> items s' = items s @ [x]"
    and remove_ok: "inv s \<Longrightarrow> i < length (items s) \<Longrightarrow>
      \<exists>s'. remove s i = Some s' \<and> inv s' \<and> items s' = take i (items s) @ drop (Suc i) (items s)"
begin

fun push_all :: "'s \<Rightarrow> 'a list \<Rightarrow> 's option" where
  "push_all s [] = Some s"
| "push_all s (x # xs) = do { s \<leftarrow> push s x; push_all s xs }"

fun shift_n :: "'s \<Rightarrow> nat \<Rightarrow> 's option" where
  "shift_n s 0 = Some s"
| "shift_n s (Suc n) = do { s \<leftarrow> remove s 0; shift_n s n }"

lemma push_all_ok: "inv s \<Longrightarrow> \<exists>s'. push_all s xs = Some s' \<and> inv s' \<and> items s' = items s @ xs"
proof (induction xs arbitrary: s)
  case (Cons x xs)
  obtain t where "push s x = Some t" "inv t" "items t = items s @ [x]"
    using push_ok [OF Cons.prems] by blast
  with Cons.IH [of t] show ?case by auto
qed simp

lemma shift_n_ok:
  "inv s \<Longrightarrow> n \<le> length (items s) \<Longrightarrow>
   \<exists>s'. shift_n s n = Some s' \<and> inv s' \<and> items s' = drop n (items s)"
proof (induction n arbitrary: s)
  case (Suc n)
  then have "0 < length (items s)" by linarith
  with Suc.prems(1) obtain t where t: "remove s 0 = Some t" "inv t" "items t = drop 1 (items s)"
    using remove_ok [of s 0] by auto
  have "n \<le> length (items t)" using t(3) Suc.prems(2) by simp
  from Suc.IH [OF t(2) this] t show ?case by auto
qed simp

lemma fifo: "inv s \<Longrightarrow> items s = [] \<Longrightarrow>
  \<exists>s' s''. push_all s (xs @ ys) = Some s' \<and> shift_n s' (length xs) = Some s'' \<and> items s'' = ys"
proof -
  assume "inv s" and "items s = []"
  then obtain t where t: "push_all s (xs @ ys) = Some t" "inv t" "items t = xs @ ys"
    using push_all_ok [of s "xs @ ys"] by auto
  have "length xs \<le> length (items t)" using t(3) by simp
  from shift_n_ok [OF t(2) this] t show ?thesis by auto
qed

end

text \<open>Appending one element, the way every client of the array does it.\<close>

definition array_push :: "'a \<Rightarrow> 'a array_t \<Rightarrow> 'a \<Rightarrow> 'a array_t option" where
  "array_push z self x = map_option fst (array_append True z self [x] 1)"

lemma array_push_ok:
  "array_wf self \<Longrightarrow> \<exists>self'. array_push z self x = Some self' \<and> array_wf self' \<and>
     elems self' = elems self @ [x] \<and> m_eltsz self' = m_eltsz self"
  using array_append_spec [of self 1 "[x]" z] by (auto simp: array_push_def)

interpretation arr: growable array_wf elems "array_push z" "\<lambda>s i. array_remove_idx s (int i) 1"
proof unfold_locales
  fix s :: "'a array_t" and x assume "array_wf s"
  then show "\<exists>s'. array_push z s x = Some s' \<and> array_wf s' \<and> elems s' = elems s @ [x]"
    using array_push_ok [of s z x] by auto
next
  fix s :: "'a array_t" and i assume "array_wf s" "i < length (elems s)"
  then show "\<exists>s'. array_remove_idx s (int i) 1 = Some s' \<and> array_wf s' \<and>
      elems s' = take i (elems s) @ drop (Suc i) (elems s)"
    using array_remove_one [of s i] by auto
qed

section \<open>Properties\<close>

text \<open>
  C6. \<open>array_add\<close> refines appending to a list: on a well-formed array, when the allocator succeeds,
  adding \<open>num > 0\<close> elements never leaves the buffer, returns a pointer to the first new element,
  keeps the invariant, keeps every old element and appends \<open>num\<close> zeroed ones.
\<close>

theorem array_add_refines:
  assumes "array_wf self" and "0 < num"
  shows "\<exists>self'. array_add True z self num = Some (self', Some (int (length (elems self)))) \<and>
           array_wf self' \<and> elems self' = elems self @ replicate (nat num) z"
  using array_add_spec [OF assms, of z] m_count_elems [OF assms(1)] by auto

lemma array_add_refines_witness:
  "\<exists>self'. array_add True (0::byte) (array_import (Some [7, 8]) 2 1 0 None 0) 3 = Some (self', Some 2) \<and>
     array_wf self' \<and> elems self' = [7, 8, 0, 0, 0]"
proof -
  have "array_wf (array_import (Some [7::byte, 8]) 2 1 0 None 0)"
    using array_wf_import [of 1 "[7::byte, 8]"] by simp
  moreover have "elems (array_import (Some [7::byte, 8]) 2 1 0 None 0) = [7, 8]"
    using elems_import [of "[7::byte, 8]"] by simp
  ultimately show ?thesis
    using array_add_refines [of "array_import (Some [7::byte, 8]) 2 1 0 None 0" 3 0]
    by (simp add: numeral_3_eq_3)
qed

text \<open>
  C7. \<open>array_bsearch\<close> terminates on every well-formed array that is ordered with respect to the
  needle, reads only elements of it, and returns: -1 exactly when all elements are above the needle;
  else the first of the elements equal to it; else, with no equal element, the last one below it.
\<close>

theorem array_bsearch_correct:
  assumes "array_wf self" and "array_sorted cmp k (elems self)"
  shows "(\<forall>x\<in>set (elems self). cmp k x < 0) \<and> array_bsearch self cmp k = Some (-1) \<or>
    (\<exists>r < length (elems self). array_bsearch self cmp k = Some (int r) \<and>
       (\<forall>i < r. cmp k (elems self ! i) > 0) \<and>
       (cmp k (elems self ! r) = 0 \<or>
        cmp k (elems self ! r) > 0 \<and> (\<forall>i < length (elems self). r < i \<longrightarrow> cmp k (elems self ! i) < 0)))"
  by (rule array_bsearch_cases [OF assms])

lemma array_bsearch_correct_witness:
  "\<exists>r < 4. array_bsearch (array_import (Some [1, 3, 3, 5]) 4 4 0 None 0) (-) (3::int) = Some (int r) \<and>
     (\<forall>i < r. 3 - [1, 3, 3, 5] ! i > (0::int))"
proof -
  let ?a = "array_import (Some [1, 3, 3, 5::int]) 4 4 0 None 0"
  have wf: "array_wf ?a" using array_wf_import [of 4 "[1, 3, 3, 5::int]"] by simp
  have el: "elems ?a = [1, 3, 3, 5]" using elems_import [of "[1, 3, 3, 5::int]"] by simp
  have "array_sorted (-) (3::int) (elems ?a)" by (simp add: el array_sorted_def)
  from array_bsearch_correct [OF wf this] show ?thesis
    by (auto simp: el)
qed

text \<open>
  C11. \<open>array_remove_idx\<close> refines cutting a segment out of a list: removing \<open>len > 0\<close> elements at the
  position of the segment \<open>ms\<close> leaves the elements before and after it, in order, and the array
  well formed.
\<close>

theorem array_remove_refines:
  assumes "array_wf self" and "elems self = as @ ms @ bs" and "ms \<noteq> []"
  shows "\<exists>self'. array_remove_idx self (int (length as)) (int (length ms)) = Some self' \<and>
           array_wf self' \<and> elems self' = as @ bs"
  using array_remove_idx_spec [OF assms(1,2), of "int (length ms)"] assms(3) by auto

lemma array_remove_refines_witness:
  "\<exists>self'. array_remove_idx (array_import (Some ''hello'') 5 1 0 None 0) 1 3 = Some self' \<and>
     array_wf self' \<and> elems self' = ''ho''"
proof -
  let ?a = "array_import (Some ''hello'') 5 1 0 None 0"
  have "array_wf ?a" using array_wf_import [of 1 "''hello''"] by simp
  moreover have "elems ?a = ''h'' @ ''ell'' @ ''o''" using elems_import [of "''hello''"] by simp
  ultimately show ?thesis using array_remove_refines [of ?a "''h''" "''ell''" "''o''"] by simp
qed

text \<open>
  \<open>array_insert\<close> moves the tail behind the old end of the array instead of by the number of
  inserted elements, so it does not insert unless these are equally many. On the elements \<open>abc\<close>,
  inserting \<open>X\<close> at index 0 leaves \<open>Xbca\<close>, not \<open>Xabc\<close>.
\<close>

theorem array_insert_not_insert:
  "\<exists>self'. array_insert True (CHR 0x00)
       (array_import (Some ''abc'') 3 1 10 None 0) 0 ''X'' 1 = Some (self', Some 0) \<and>
     elems self' = ''Xbca''"
  by (simp add: array_insert_def array_add_def array_import_def mem_realloc_def mem_fill_def
      blit_def slice_def mem_move_def array_get_def elems_def Let_def numeral_eq_Suc)

text \<open>
  Sorting with \<open>array_qsort\<close> and then searching with \<open>array_bsearch\<close> decides membership: for a
  comparison function that is consistent for the needle, the result is an element equal to the
  needle exactly when the array holds one.
\<close>

theorem qsort_bsearch_mem:
  assumes "array_wf self" and "qsort_ok qs cmp"
    and "\<And>x y. cmp x y \<le> 0 \<Longrightarrow> cmp k x \<le> 0 \<Longrightarrow> cmp k y \<le> 0"
    and "\<And>x y. cmp x y \<le> 0 \<Longrightarrow> cmp k x < 0 \<Longrightarrow> cmp k y < 0"
  shows "\<exists>r. array_bsearch (array_qsort qs self cmp) cmp k = Some r \<and>
    ((0 \<le> r \<and> cmp k (qs cmp (elems self) ! nat r) = 0) \<longleftrightarrow> (\<exists>x\<in>set (elems self). cmp k x = 0))"
proof -
  let ?t = "array_qsort qs self cmp" and ?ys = "qs cmp (elems self)"
  have wf: "array_wf ?t" and el: "elems ?t = ?ys" using array_qsort_spec [OF assms(1,2)] .
  have set: "set ?ys = set (elems self)" and "sorted_wrt (\<lambda>x y. cmp x y \<le> 0) ?ys"
    using assms(2) by (simp_all add: qsort_ok_def)
  then have "array_sorted cmp k (elems ?t)"
    unfolding el by (intro sorted_wrt_array_sorted) (use assms(3,4) in blast)+
  from array_bsearch_cases [OF wf this] consider
      "\<forall>x\<in>set ?ys. cmp k x < 0" "array_bsearch ?t cmp k = Some (-1)"
    | r where "r < length ?ys" "array_bsearch ?t cmp k = Some (int r)" "cmp k (?ys ! r) = 0"
    | r where "r < length ?ys" "array_bsearch ?t cmp k = Some (int r)" "cmp k (?ys ! r) > 0"
        "\<forall>i < r. cmp k (?ys ! i) > 0" "\<forall>i < length ?ys. r < i \<longrightarrow> cmp k (?ys ! i) < 0"
    unfolding el by blast
  then show ?thesis
  proof cases
    case 1
    then show ?thesis using set by fastforce
  next
    case (2 r)
    then show ?thesis using set nth_mem by fastforce
  next
    case (3 r)
    have "cmp k x \<noteq> 0" if "x \<in> set ?ys" for x
    proof -
      from that obtain i where "i < length ?ys" "x = ?ys ! i" by (auto simp: in_set_conv_nth)
      with 3 show ?thesis by (cases i r rule: linorder_cases) auto
    qed
    with 3 set show ?thesis by auto
  qed
qed

lemma qsort_bsearch_mem_witness:
  "\<exists>r. array_bsearch (array_qsort (\<lambda>c. sort) (array_import (Some [3, 1, 2]) 3 4 0 None 0) (-))
         (-) (2::int) = Some r \<and>
     ((0 \<le> r \<and> 2 - sort [3, 1, 2] ! nat r = (0::int)) \<longleftrightarrow> (\<exists>x\<in>set [3, 1, 2]. 2 - x = (0::int)))"
proof -
  let ?a = "array_import (Some [3, 1, 2::int]) 3 4 0 None 0"
  have wf: "array_wf ?a" using array_wf_import [of 4 "[3, 1, 2::int]"] by simp
  have el: "elems ?a = [3, 1, 2]" using elems_import [of "[3, 1, 2::int]"] by simp
  have "qsort_ok (\<lambda>c. sort) ((-) :: int \<Rightarrow> int \<Rightarrow> int)" by (simp add: qsort_ok_def)
  from qsort_bsearch_mem [OF wf this, of 2] show ?thesis unfolding el by simp
qed

end
