(* ===== verification/Hash.thy ===== *)
theory Hash
  imports CArray
begin

unbundle bit_operations_syntax

text \<open>
  \<open>hash.c\<close>, \<open>hash.h\<close>: a chained hash table whose buckets are arrays of nodes. Keys and values are
  modelled by their contents: when \<open>key_sz\<close> (\<open>val_sz\<close>) is not zero the code copies them into the
  node and re-derives the node's pointers before every use, so a node is its key, its value and its
  hash. A pointer to a node is a pair of a bucket number and a position in the bucket. \<open>z\<close> is the
  node whose bytes are all zero. Allocation is taken to succeed (the code does not check it here).
  Calls of the registered destructors are recorded as a list of events, in call order.
\<close>

record ('k, 'v) hash_node =
  node_key :: 'k
  node_val :: 'v
  node_hash :: u64

record ('k, 'v) hash_t =
  m_bucket :: "('k, 'v) hash_node array_t list option"
  m_bucket_count :: int
  m_cmp :: "'k \<Rightarrow> 'k \<Rightarrow> int"
  m_hash :: "'k \<Rightarrow> u64"
  m_node_count :: int
  m_key_sz :: int
  m_val_sz :: int
  m_node_sz :: int
  m_free_key_func :: "(nat \<times> nat) option"
  m_free_val_func :: "(nat \<times> nat) option"

type_synonym node_ptr = "int \<times> int"

datatype ('k, 'v) hash_event = KeyFreed nat nat 'k | ValFreed nat nat 'v

definition HASH_DEFAULT_BUCKETS :: int where
  "HASH_DEFAULT_BUCKETS = 17"

definition hash_zero :: "('k \<Rightarrow> u64) \<Rightarrow> ('k \<Rightarrow> 'k \<Rightarrow> int) \<Rightarrow> ('k, 'v) hash_t" where
  "hash_zero hash cmp =
     \<lparr>m_bucket = None, m_bucket_count = 0, m_cmp = cmp, m_hash = hash, m_node_count = 0,
      m_key_sz = 0, m_val_sz = 0, m_node_sz = 0, m_free_key_func = None, m_free_val_func = None\<rparr>"

definition hash_set_free ::
    "('k, 'v) hash_t \<Rightarrow> (nat \<times> nat) option \<Rightarrow> (nat \<times> nat) option \<Rightarrow> ('k, 'v) hash_t" where
  "hash_set_free self fk fv = self\<lparr>m_free_key_func := fk, m_free_val_func := fv\<rparr>"

text \<open>The bucket of a hash value: \<open>h % m_bucket_count\<close>, undefined for an empty table.\<close>

definition bucket_of :: "('k, 'v) hash_t \<Rightarrow> u64 \<Rightarrow> int option" where
  "bucket_of self h =
     (if m_bucket_count self = 0 then None
      else Some (uint h mod (m_bucket_count self mod 2 ^ 64)))"

definition get_bucket :: "('k, 'v) hash_t \<Rightarrow> int \<Rightarrow> ('k, 'v) hash_node array_t option" where
  "get_bucket self i = do { bs \<leftarrow> m_bucket self; mem_get bs i }"

definition set_bucket ::
    "('k, 'v) hash_t \<Rightarrow> int \<Rightarrow> ('k, 'v) hash_node array_t \<Rightarrow> ('k, 'v) hash_t option" where
  "set_bucket self i b =
     do { bs \<leftarrow> m_bucket self; bs \<leftarrow> mem_put bs i b; Some (self\<lparr>m_bucket := Some bs\<rparr>) }"

text \<open>\<open>array_add(&m_bucket[i], 1)\<close> followed by filling in the new node.\<close>

definition bucket_push ::
    "('k, 'v) hash_node \<Rightarrow> ('k, 'v) hash_t \<Rightarrow> int \<Rightarrow> ('k, 'v) hash_node \<Rightarrow>
     (('k, 'v) hash_t \<times> int) option" where
  "bucket_push z self i node =
     do {
       b \<leftarrow> get_bucket self i;
       (b, p) \<leftarrow> array_add True z b 1;
       p \<leftarrow> p;
       buf \<leftarrow> m_array b;
       buf \<leftarrow> mem_put buf p node;
       self \<leftarrow> set_bucket self i (b\<lparr>m_array := Some buf\<rparr>);
       Some (self, p)
     }"

text \<open>Re-inserting the nodes of one old bucket, last node first, then the next bucket.\<close>

fun rehash_nodes ::
    "('k, 'v) hash_node \<Rightarrow> ('k, 'v) hash_t \<Rightarrow> ('k, 'v) hash_node array_t \<Rightarrow> nat \<Rightarrow>
     ('k, 'v) hash_t option" where
  "rehash_nodes z self old 0 = Some self"
| "rehash_nodes z self old (Suc j) =
     do {
       node \<leftarrow> elt_at old (array_get old (int j));
       i \<leftarrow> bucket_of self (node_hash node);
       (self, p) \<leftarrow> bucket_push z self i node;
       rehash_nodes z self old j
     }"

fun rehash_buckets ::
    "('k, 'v) hash_node \<Rightarrow> ('k, 'v) hash_t \<Rightarrow> ('k, 'v) hash_node array_t list \<Rightarrow>
     ('k, 'v) hash_t option" where
  "rehash_buckets z self [] = Some self"
| "rehash_buckets z self (b # bs) =
     do {
       self \<leftarrow> rehash_nodes z self b (nat (array_count b));
       rehash_buckets z self bs
     }"

definition hash_resize ::
    "('k, 'v) hash_node \<Rightarrow> ('k, 'v) hash_t \<Rightarrow> int \<Rightarrow> ('k, 'v) hash_t option" where
  "hash_resize z self buckets =
     (if buckets < 0 then None
      else let old = m_bucket self;
               self = self\<lparr>m_bucket_count := buckets,
                           m_bucket := Some (replicate (nat buckets) (array_init (m_node_sz self) 1))\<rparr>
           in case old of None \<Rightarrow> Some self | Some bs \<Rightarrow> rehash_buckets z self bs)"

text \<open>\<open>sizeof(hash_node_t)\<close> is 24 on LP64: two pointers and an unsigned long.\<close>

definition hash_init ::
    "('k, 'v) hash_node \<Rightarrow> ('k \<Rightarrow> u64) \<Rightarrow> ('k \<Rightarrow> 'k \<Rightarrow> int) \<Rightarrow> int \<Rightarrow> int \<Rightarrow> int \<Rightarrow>
     ('k, 'v) hash_t option" where
  "hash_init z hash cmp key_sz val_sz buckets =
     hash_resize z
       ((hash_zero hash cmp)\<lparr>m_key_sz := key_sz, m_val_sz := val_sz,
                             m_node_sz := 24 + key_sz + val_sz\<rparr>)
       (if buckets \<le> 0 then HASH_DEFAULT_BUCKETS else buckets)"

text \<open>
  The next table size. The loop variable is a 32-bit \<open>int\<close> that is shifted left until it passes
  \<open>buckets\<close> or becomes zero; \<open>k\<close> counts the shifts.
\<close>

lemma to_i32_pow_zero: "32 \<le> k \<Longrightarrow> to_i32 (2 ^ k) = 0"
proof -
  assume "32 \<le> k"
  then have "(2 :: 32 word) ^ k = 0" by (simp add: exp_eq_zero_iff)
  then have "word_of_int (2 ^ k) = (0 :: 32 word)"
    by (simp only: of_int_power of_int_numeral)
  then show ?thesis by (simp only: to_i32_def sint_0)
qed

function resize_next_loop :: "int \<Rightarrow> nat \<Rightarrow> int" where
  "resize_next_loop buckets k =
     (let i = to_i32 (2 ^ k)
      in if i \<noteq> 0 \<and> i \<le> buckets then resize_next_loop buckets (Suc k) else i)"
  by pat_completeness auto
termination
  by (relation "measure (\<lambda>(b, k). 32 - k)")
    (auto simp: to_i32_pow_zero not_le [symmetric] intro: ccontr)

declare resize_next_loop.simps [simp del]

definition hash_resize_next :: "int \<Rightarrow> int" where
  "hash_resize_next buckets =
     (let i = resize_next_loop buckets 0 in (if i = 0 then buckets else i) + 1)"

lemma resize_next_loop_eq:
  assumes n: "n \<le> 30" "b < 2 ^ n" and least: "\<And>j. j < n \<Longrightarrow> 2 ^ j \<le> b" and k: "k \<le> n"
  shows "resize_next_loop b k = 2 ^ n"
  using k
proof (induction rule: inc_induct)
  case base
  have "(2 :: int) ^ n \<le> 2 ^ 30" using n(1) by (intro power_increasing) auto
  then have "to_i32 (2 ^ n) = 2 ^ n" by (intro to_i32_id) (auto intro: order_trans [of _ 0])
  with n(2) show ?case by (simp add: resize_next_loop.simps [of b n] Let_def)
next
  case (step k)
  have "(2 :: int) ^ k \<le> 2 ^ 30" using n(1) step.hyps by (intro power_increasing) auto
  then have "to_i32 (2 ^ k) = 2 ^ k" by (intro to_i32_id) (auto intro: order_trans [of _ 0])
  with least [OF step.hyps(2)] step.IH show ?case
    by (simp add: resize_next_loop.simps [of b k] Let_def)
qed

lemma hash_resize_next_pow:
  assumes "0 \<le> b" "b < 2 ^ 30"
  shows "\<exists>n \<le> 30. hash_resize_next b = 2 ^ n + 1 \<and> b < 2 ^ n \<and> (\<forall>j<n. 2 ^ j \<le> b)"
proof -
  define n where "n = (LEAST n. b < (2 :: int) ^ n)"
  have n: "b < 2 ^ n" unfolding n_def using assms(2) by (rule LeastI)
  have le: "n \<le> 30" unfolding n_def using assms(2) by (rule Least_le)
  have least: "\<And>j. j < n \<Longrightarrow> 2 ^ j \<le> b" unfolding n_def by (meson not_less_Least not_le)
  have "resize_next_loop b 0 = 2 ^ n" using le n least by (intro resize_next_loop_eq) auto
  with n le least show ?thesis by (intro exI [of _ n]) (auto simp: hash_resize_next_def)
qed

lemma hash_resize_next_less:
  assumes "0 \<le> b" "b < 2 ^ 29"
  shows "b < hash_resize_next b" "hash_resize_next b < 2 ^ 30"
proof -
  obtain n where n: "hash_resize_next b = 2 ^ n + 1" "b < 2 ^ n" "\<forall>j<n. 2 ^ j \<le> b"
    using hash_resize_next_pow [of b] assms by auto
  then show "b < hash_resize_next b" by simp
  have "n \<le> 29" using n(3) assms(2) by (metis not_le)
  then have "(2 :: int) ^ n \<le> 2 ^ 29" by (intro power_increasing) auto
  with n(1) show "hash_resize_next b < 2 ^ 30" by simp
qed

text \<open>Lookup: the bucket is scanned from its last node to its first.\<close>

fun get_loop ::
    "('k, 'v) hash_t \<Rightarrow> 'k \<Rightarrow> u64 \<Rightarrow> ('k, 'v) hash_node array_t \<Rightarrow> nat \<Rightarrow> int option option" where
  "get_loop self key h b 0 = Some None"
| "get_loop self key h b (Suc j) =
     do {
       node \<leftarrow> elt_at b (array_get b (int j));
       if h \<noteq> node_hash node then get_loop self key h b j
       else if m_cmp self key (node_key node) = 0 then Some (Some (int j))
       else get_loop self key h b j
     }"

definition hash_get :: "('k, 'v) hash_t \<Rightarrow> 'k \<Rightarrow> node_ptr option option" where
  "hash_get self key =
     do {
       i \<leftarrow> bucket_of self (m_hash self key);
       b \<leftarrow> get_bucket self i;
       r \<leftarrow> get_loop self key (m_hash self key) b (nat (array_count b));
       Some (map_option (Pair i) r)
     }"

definition node_at :: "('k, 'v) hash_t \<Rightarrow> node_ptr \<Rightarrow> ('k, 'v) hash_node option" where
  "node_at self p =
     do { b \<leftarrow> get_bucket self (fst p); buf \<leftarrow> m_array b; mem_get buf (snd p) }"

definition hash_free_node :: "('k, 'v) hash_t \<Rightarrow> ('k, 'v) hash_node \<Rightarrow> ('k, 'v) hash_event list" where
  "hash_free_node self node =
     (case m_free_key_func self of None \<Rightarrow> [] | Some (f, a) \<Rightarrow> [KeyFreed f a (node_key node)]) @
     (case m_free_val_func self of None \<Rightarrow> [] | Some (f, a) \<Rightarrow> [ValFreed f a (node_val node)])"

text \<open>
  \<open>array_remove_ptr\<close> is called on the bucket of the node's hash; a pointer into another bucket would
  be subtracted from an unrelated object.
\<close>

definition hash_free ::
    "('k, 'v) hash_t \<Rightarrow> node_ptr option \<Rightarrow> (('k, 'v) hash_t \<times> ('k, 'v) hash_event list) option" where
  "hash_free self p =
     (case p of None \<Rightarrow> Some (self, [])
      | Some (i, j) \<Rightarrow> do {
          node \<leftarrow> node_at self (i, j);
          i' \<leftarrow> bucket_of self (node_hash node);
          if i' \<noteq> i then None
          else do {
            b \<leftarrow> get_bucket self i;
            b \<leftarrow> array_remove_ptr b (j * m_eltsz b);
            self' \<leftarrow> set_bucket self i b;
            Some (self'\<lparr>m_node_count := m_node_count self - 1\<rparr>, hash_free_node self node)
          }
        })"

definition hash_remove ::
    "('k, 'v) hash_t \<Rightarrow> 'k \<Rightarrow> (('k, 'v) hash_t \<times> ('k, 'v) hash_event list) option" where
  "hash_remove self key = do { p \<leftarrow> hash_get self key; hash_free self p }"

text \<open>\<open>val\<close> is \<open>None\<close> for the null pointer: the node's value then stays zero.\<close>

definition hash_put ::
    "('k, 'v) hash_node \<Rightarrow> ('k, 'v) hash_t \<Rightarrow> 'k \<Rightarrow> 'v option \<Rightarrow>
     (('k, 'v) hash_t \<times> node_ptr \<times> ('k, 'v) hash_event list) option" where
  "hash_put z self key val =
     do {
       p \<leftarrow> hash_get self key;
       (self, ev) \<leftarrow> hash_free self p;
       self \<leftarrow> (if m_node_count self > 3 * m_bucket_count self
               then hash_resize z self (hash_resize_next (m_bucket_count self)) else Some self);
       i \<leftarrow> bucket_of self (m_hash self key);
       (self, j) \<leftarrow> bucket_push z self i
          (z\<lparr>node_hash := m_hash self key, node_key := key,
             node_val := (case val of None \<Rightarrow> node_val z | Some v \<Rightarrow> v)\<rparr>);
       Some (self\<lparr>m_node_count := m_node_count self + 1\<rparr>, (i, j), ev)
     }"

definition hash_count :: "('k, 'v) hash_t \<Rightarrow> int" where
  "hash_count self = m_node_count self"

text \<open>
  Iteration. The callback receives the table, a node pointer and an argument that models the state
  it works on, and returns the new table, the new argument and an int. The header allows it to free
  the node it is given (\<open>hash_free\<close>); the bucket count is read once, since \<open>hash_free\<close> keeps it.
\<close>

type_synonym ('k, 'v, 's) foreach_func =
  "('k, 'v) hash_t \<Rightarrow> node_ptr \<Rightarrow> 's \<Rightarrow> (('k, 'v) hash_t \<times> 's \<times> int) option"

fun foreach_nodes ::
    "('k, 'v, 's) foreach_func \<Rightarrow> int \<Rightarrow> nat \<Rightarrow> ('k, 'v) hash_t \<Rightarrow> 's \<Rightarrow>
     (('k, 'v) hash_t \<times> 's \<times> int) option" where
  "foreach_nodes func i 0 self arg = Some (self, arg, 0)"
| "foreach_nodes func i (Suc j) self arg =
     do {
       (self, arg, n) \<leftarrow> func self (i, int j) arg;
       if n \<noteq> 0 then Some (self, arg, n) else foreach_nodes func i j self arg
     }"

fun foreach_buckets ::
    "('k, 'v, 's) foreach_func \<Rightarrow> nat \<Rightarrow> nat \<Rightarrow> ('k, 'v) hash_t \<Rightarrow> 's \<Rightarrow>
     (('k, 'v) hash_t \<times> 's \<times> int) option" where
  "foreach_buckets func i 0 self arg = Some (self, arg, 0)"
| "foreach_buckets func i (Suc n) self arg =
     do {
       b \<leftarrow> get_bucket self (int i);
       (self, arg, r) \<leftarrow> foreach_nodes func (int i) (nat (array_count b)) self arg;
       if r \<noteq> 0 then Some (self, arg, r) else foreach_buckets func (Suc i) n self arg
     }"

definition hash_foreach ::
    "('k, 'v, 's) foreach_func \<Rightarrow> ('k, 'v) hash_t \<Rightarrow> 's \<Rightarrow> (('k, 'v) hash_t \<times> 's \<times> int) option" where
  "hash_foreach func self arg = foreach_buckets func 0 (nat (m_bucket_count self)) self arg"

definition hash_foreach_free_node :: "('k, 'v, ('k, 'v) hash_event list) foreach_func" where
  "hash_foreach_free_node self p ev =
     do { node \<leftarrow> node_at self p; Some (self, ev @ hash_free_node self node, 0) }"

definition hash_clear ::
    "('k, 'v) hash_t \<Rightarrow> (('k, 'v) hash_t \<times> ('k, 'v) hash_event list) option" where
  "hash_clear self =
     do {
       (self, ev, n) \<leftarrow> hash_foreach hash_foreach_free_node self [];
       Some (hash_zero (m_hash self) (m_cmp self), ev)
     }"

text \<open>\<open>hash_stat\<close>; the average is an exact fraction here (the code rounds to a \<open>float\<close>).\<close>

record hash_stat_t =
  st_count :: int
  st_used :: int
  st_max :: int
  st_avg :: rat

definition hash_stat :: "('k, 'v) hash_t \<Rightarrow> hash_stat_t option" where
  "hash_stat self =
     (if m_bucket_count self < 1
      then Some \<lparr>st_count = m_bucket_count self, st_used = 0, st_max = 0, st_avg = 0\<rparr>
      else do {
        bs \<leftarrow> m_bucket self;
        let ns = map array_count bs;
            (mx, avg, used) = fold (\<lambda>n (mx, avg, used).
              (if n > mx then n else mx, avg + of_int n, if n > 0 then used + 1 else used))
              ns (hd ns, 0 :: rat, 0 :: int)
        in Some \<lparr>st_count = m_bucket_count self, st_used = used, st_max = mx,
                 st_avg = (if used > 0 then avg / of_int used else 0)\<rparr>
      })"

section \<open>The key functions of the library\<close>

text \<open>C strings are byte lists that end at the first zero byte (or at the end of the list).\<close>

definition cstr :: "byte list \<Rightarrow> byte list" where
  "cstr s = takeWhile (\<lambda>c. c \<noteq> 0) s"

definition tolower :: "byte \<Rightarrow> byte" where
  "tolower c = (if 65 \<le> c \<and> c \<le> 90 then c + 32 else c)"

fun hash_str_elf_nocase :: "byte list \<Rightarrow> u64 \<Rightarrow> bool \<Rightarrow> u64" where
  "hash_str_elf_nocase [] h nocase = h"
| "hash_str_elf_nocase (c # cs) h nocase =
     (let c = (if nocase then tolower c else c);
          h = push_bit 4 h + ucast c;
          g = h AND 0xF0000000;
          h = (if g \<noteq> 0 then h XOR drop_bit 24 g else h);
          h = h AND NOT g
      in hash_str_elf_nocase cs h nocase)"

definition hash_str_elf :: "byte list \<Rightarrow> u64 \<Rightarrow> u64" where
  "hash_str_elf q h = hash_str_elf_nocase q h False"

definition hash_hash_int :: "u64 \<Rightarrow> u64" where
  "hash_hash_int key = key"

text \<open>The difference of two 64-bit pointers, returned as a 32-bit \<open>int\<close>.\<close>

definition hash_cmp_int :: "u64 \<Rightarrow> u64 \<Rightarrow> int" where
  "hash_cmp_int key1 key2 = to_i32 (sint (key1 - key2))"

definition hash_hash_str :: "byte list \<Rightarrow> u64" where
  "hash_hash_str key = hash_str_elf (cstr key) 0"

definition hash_hash_str_nocase :: "byte list \<Rightarrow> u64" where
  "hash_hash_str_nocase key = hash_str_elf_nocase (cstr key) 0 True"

text \<open>The C library's \<open>strcmp\<close> and \<open>strcasecmp\<close>: the difference at the first differing byte.\<close>

fun strdiff :: "byte list \<Rightarrow> byte list \<Rightarrow> int" where
  "strdiff [] [] = 0"
| "strdiff (x # xs) [] = uint x"
| "strdiff [] (y # ys) = - uint y"
| "strdiff (x # xs) (y # ys) = (if x = y then strdiff xs ys else uint x - uint y)"

definition hash_cmp_str :: "byte list \<Rightarrow> byte list \<Rightarrow> int" where
  "hash_cmp_str key1 key2 = strdiff (cstr key1) (cstr key2)"

definition hash_cmp_str_nocase :: "byte list \<Rightarrow> byte list \<Rightarrow> int" where
  "hash_cmp_str_nocase key1 key2 =
     strdiff (map tolower (cstr key1)) (map tolower (cstr key2))"

section \<open>Shape: the buckets as lists\<close>

definition buckets :: "('k, 'v) hash_t \<Rightarrow> ('k, 'v) hash_node list list" where
  "buckets self = (case m_bucket self of None \<Rightarrow> [] | Some bs \<Rightarrow> map elems bs)"

definition nodes :: "('k, 'v) hash_t \<Rightarrow> ('k, 'v) hash_node list" where
  "nodes self = concat (buckets self)"

definition hash_shape :: "('k, 'v) hash_t \<Rightarrow> bool" where
  "hash_shape self \<longleftrightarrow>
     (case m_bucket self of None \<Rightarrow> False
      | Some bs \<Rightarrow> int (length bs) = m_bucket_count self \<and> (\<forall>b\<in>set bs. array_wf b)) \<and>
     0 < m_bucket_count self \<and> m_bucket_count self < 2 ^ 63 \<and> 0 < m_node_sz self"

definition slot :: "nat \<Rightarrow> u64 \<Rightarrow> nat" where
  "slot n h = unat h mod n"

lemma hash_shapeE:
  assumes "hash_shape self"
  obtains bs where "m_bucket self = Some bs" "int (length bs) = m_bucket_count self"
    "\<forall>b\<in>set bs. array_wf b" "buckets self = map elems bs" "0 < length bs"
proof (cases "m_bucket self")
  case None
  with assms show ?thesis by (simp add: hash_shape_def)
next
  case (Some bs)
  with assms have c: "int (length bs) = m_bucket_count self" "0 < m_bucket_count self"
    by (simp_all add: hash_shape_def)
  then have "0 < length bs" by linarith
  with Some assms c show ?thesis
    by (intro that [of bs]) (simp_all add: hash_shape_def buckets_def)
qed

lemma shape_length: "hash_shape self \<Longrightarrow> int (length (buckets self)) = m_bucket_count self"
  by (erule hash_shapeE) simp

lemma bucket_same: "m_bucket self = Some bs \<Longrightarrow> self\<lparr>m_bucket := Some bs\<rparr> = self"
  by (cases self) simp

lemma shape_pos: "hash_shape self \<Longrightarrow> 0 < length (buckets self)"
  by (erule hash_shapeE) simp

lemma slot_less: "hash_shape self \<Longrightarrow> slot (length (buckets self)) h < length (buckets self)"
  using shape_pos [of self] by (simp add: slot_def)

lemma bucket_of_eq:
  assumes "hash_shape self"
  shows "bucket_of self h = Some (int (slot (length (buckets self)) h))"
proof -
  let ?n = "length (buckets self)"
  have c: "m_bucket_count self = int ?n" using shape_length [OF assms] by simp
  have "0 < m_bucket_count self" "m_bucket_count self < 2 ^ 63"
    using assms by (simp_all add: hash_shape_def)
  then have "m_bucket_count self mod 2 ^ 64 = int ?n" "int ?n \<noteq> 0" unfolding c by simp_all
  moreover have "uint h mod int ?n = int (unat h mod ?n)" by (simp add: zmod_int)
  ultimately show ?thesis by (simp add: bucket_of_def slot_def c)
qed

lemma get_bucket_ok:
  assumes "hash_shape self" "i < length (buckets self)"
  obtains b where "get_bucket self (int i) = Some b" "array_wf b" "elems b = buckets self ! i"
  using assms by (elim hash_shapeE) (auto simp: get_bucket_def mem_get_def)

lemma set_bucket_ok:
  assumes "hash_shape self" "i < length (buckets self)" "array_wf b"
  shows "\<exists>bs. set_bucket self (int i) b = Some (self\<lparr>m_bucket := Some bs\<rparr>) \<and>
    hash_shape (self\<lparr>m_bucket := Some bs\<rparr>) \<and>
    buckets (self\<lparr>m_bucket := Some bs\<rparr>) = (buckets self)[i := elems b]"
proof -
  obtain bs where bs: "m_bucket self = Some bs" "int (length bs) = m_bucket_count self"
    "\<forall>b\<in>set bs. array_wf b" "buckets self = map elems bs"
    using assms(1) by (rule hash_shapeE)
  have "\<forall>b'\<in>set (bs[i := b]). array_wf b'"
    using bs(3) assms(3) set_update_subset_insert [of bs i b] by blast
  then show ?thesis
    using bs assms(1,2)
    by (intro exI [of _ "bs[i := b]"])
      (simp add: set_bucket_def mem_put_def hash_shape_def buckets_def map_update)
qed

lemma bucket_push_ok:
  assumes sh: "hash_shape self" and i: "i < length (buckets self)"
  shows "\<exists>bs. bucket_push z self (int i) n =
      Some (self\<lparr>m_bucket := Some bs\<rparr>, int (length (buckets self ! i))) \<and>
    hash_shape (self\<lparr>m_bucket := Some bs\<rparr>) \<and>
    buckets (self\<lparr>m_bucket := Some bs\<rparr>) = (buckets self)[i := buckets self ! i @ [n]]"
proof -
  obtain b where b: "get_bucket self (int i) = Some b" "array_wf b" "elems b = buckets self ! i"
    using sh i by (rule get_bucket_ok)
  obtain b1 where b1: "array_add True z b 1 = Some (b1, Some (m_count b))" "array_wf b1"
      "elems b1 = elems b @ [z]"
    using array_add_spec [OF b(2), of 1 z] by auto
  obtain ys where arr: "m_array b1 = Some (elems b @ z # ys)"
    using b1(2,3) m_array_SomeI [of b1] by auto
  define buf where "buf = elems b @ n # ys"
  have cnt: "m_count b = int (length (elems b))" using b(2) by (rule m_count_elems)
  then have put: "mem_put (elems b @ z # ys) (m_count b) n = Some buf"
    by (simp add: mem_put_def buf_def)
  have "length buf = length (elems b @ z # ys)" by (simp add: buf_def)
  from wf_replace_buf [OF b1(2) arr this]
  have b2: "array_wf (b1\<lparr>m_array := Some buf\<rparr>)" "elems (b1\<lparr>m_array := Some buf\<rparr>) = elems b @ [n]"
    using b1(3) by (simp_all add: buf_def)
  from set_bucket_ok [OF sh i b2(1)] show ?thesis
    using b(1) b(3) b1(1) arr put cnt b2(2) by (auto simp: bucket_push_def)
qed

lemma hash_shape_update [simp]:
  "hash_shape (self\<lparr>m_node_count := c\<rparr>) = hash_shape self"
  "buckets (self\<lparr>m_node_count := c\<rparr>) = buckets self"
  by (cases "m_bucket self"; simp add: hash_shape_def buckets_def)+

section \<open>Placing nodes\<close>

text \<open>The bucket lists after appending a node to the bucket of its hash.\<close>

definition place :: "('k, 'v) hash_node \<Rightarrow> ('k, 'v) hash_node list list \<Rightarrow> ('k, 'v) hash_node list list" where
  "place n B = (let i = slot (length B) (node_hash n) in B[i := B ! i @ [n]])"

text \<open>Every node is in the bucket of its hash.\<close>

definition placed :: "('k, 'v) hash_node list list \<Rightarrow> bool" where
  "placed B \<longleftrightarrow> (\<forall>i < length B. \<forall>n\<in>set (B ! i). slot (length B) (node_hash n) = i)"

lemma length_place [simp]: "length (place n B) = length B"
  by (simp add: place_def Let_def)

lemma place_Nil [simp]: "place n B = [] \<longleftrightarrow> B = []"
  by (simp add: place_def Let_def)

lemma slot_less': "B \<noteq> [] \<Longrightarrow> slot (length B) h < length B"
  by (simp add: slot_def)

lemma mset_place: "B \<noteq> [] \<Longrightarrow> mset (concat (place n B)) = add_mset n (mset (concat B))"
  using mset_concat_update [of "slot (length B) (node_hash n)" B
      "B ! slot (length B) (node_hash n) @ [n]"] slot_less' [of B "node_hash n"]
  by (simp add: place_def Let_def)

lemma placed_update:
  assumes "placed B" and "\<forall>n\<in>set xs. slot (length B) (node_hash n) = i"
  shows "placed (B[i := xs])"
  unfolding placed_def
proof (intro allI impI ballI)
  fix j n assume j: "j < length (B[i := xs])" and n: "n \<in> set (B[i := xs] ! j)"
  show "slot (length (B[i := xs])) (node_hash n) = j"
  proof (cases "j = i")
    case True
    with j n assms(2) show ?thesis by simp
  next
    case False
    with j n assms(1) show ?thesis by (simp add: placed_def)
  qed
qed

lemma placed_place: "B \<noteq> [] \<Longrightarrow> placed B \<Longrightarrow> placed (place n B)"
  using slot_less' [of B "node_hash n"] unfolding place_def Let_def
  by (intro placed_update) (auto simp: placed_def)

lemma length_fold_place [simp]: "length (fold place ns B) = length B"
  by (induction ns arbitrary: B) auto

lemma mset_fold_place:
  "B \<noteq> [] \<Longrightarrow> mset (concat (fold place ns B)) = mset ns + mset (concat B)"
  by (induction ns arbitrary: B) (auto simp: mset_place)

lemma placed_fold_place: "B \<noteq> [] \<Longrightarrow> placed B \<Longrightarrow> placed (fold place ns B)"
  by (induction ns arbitrary: B) (auto simp: placed_place)

lemma placed_removed:
  "placed B \<Longrightarrow> i < length B \<Longrightarrow> set xs \<subseteq> set (B ! i) \<Longrightarrow> placed (B[i := xs])"
  by (rule placed_update) (auto simp: placed_def)

lemma placed_empty: "placed (replicate n [])"
  by (simp add: placed_def)

lemma push_place:
  assumes sh: "hash_shape self"
  shows "\<exists>bs j. bucket_push z self (int (slot (length (buckets self)) (node_hash n))) n =
      Some (self\<lparr>m_bucket := Some bs\<rparr>, j) \<and>
    hash_shape (self\<lparr>m_bucket := Some bs\<rparr>) \<and>
    buckets (self\<lparr>m_bucket := Some bs\<rparr>) = place n (buckets self)"
  using bucket_push_ok [OF sh slot_less [OF sh], of z "node_hash n" n]
  by (auto simp: place_def Let_def)

section \<open>Rehashing\<close>

lemma rehash_nodes_ok:
  assumes "array_wf old" "j \<le> length (elems old)" "hash_shape self"
  shows "\<exists>bs. rehash_nodes z self old j = Some (self\<lparr>m_bucket := Some bs\<rparr>) \<and>
    hash_shape (self\<lparr>m_bucket := Some bs\<rparr>) \<and>
    buckets (self\<lparr>m_bucket := Some bs\<rparr>) = fold place (rev (take j (elems old))) (buckets self)"
  using assms(2,3)
proof (induction j arbitrary: self)
  case 0
  then obtain bs where "m_bucket self = Some bs" by (auto elim: hash_shapeE)
  with 0 show ?case by (intro exI [of _ bs]) (simp add: bucket_same)
next
  case (Suc j)
  have at: "elt_at old (array_get old (int j)) = Some (elems old ! j)"
    using assms(1) Suc.prems(1) by (intro elt_at_nat) auto
  obtain bs p where p: "bucket_push z self (int (slot (length (buckets self)) (node_hash (elems old ! j))))
      (elems old ! j) = Some (self\<lparr>m_bucket := Some bs\<rparr>, p)"
    "hash_shape (self\<lparr>m_bucket := Some bs\<rparr>)"
    "buckets (self\<lparr>m_bucket := Some bs\<rparr>) = place (elems old ! j) (buckets self)"
    using push_place [OF Suc.prems(2)] by blast
  have tk: "rev (take (Suc j) (elems old)) = elems old ! j # rev (take j (elems old))"
    using Suc.prems(1) by (simp add: take_Suc_conv_app_nth)
  have "j \<le> length (elems old)" using Suc.prems(1) by simp
  from Suc.IH [OF this p(2)] show ?case
    using at p(1,3) Suc.prems(2) tk by (simp add: bucket_of_eq)
qed

lemma rehash_buckets_ok:
  assumes "\<forall>b\<in>set olds. array_wf b" "hash_shape self"
  shows "\<exists>bs. rehash_buckets z self olds = Some (self\<lparr>m_bucket := Some bs\<rparr>) \<and>
    hash_shape (self\<lparr>m_bucket := Some bs\<rparr>) \<and>
    buckets (self\<lparr>m_bucket := Some bs\<rparr>) =
      fold place (concat (map (\<lambda>b. rev (elems b)) olds)) (buckets self)"
  using assms
proof (induction olds arbitrary: self)
  case Nil
  then obtain bs where "m_bucket self = Some bs" by (auto elim: hash_shapeE)
  with Nil show ?case by (intro exI [of _ bs]) (simp add: bucket_same)
next
  case (Cons b olds)
  have wf: "array_wf b" using Cons.prems by simp
  obtain bs where r: "rehash_nodes z self b (nat (array_count b)) = Some (self\<lparr>m_bucket := Some bs\<rparr>)"
    "hash_shape (self\<lparr>m_bucket := Some bs\<rparr>)"
    "buckets (self\<lparr>m_bucket := Some bs\<rparr>) = fold place (rev (elems b)) (buckets self)"
    using rehash_nodes_ok [OF wf order_refl Cons.prems(2), of z] wf by (auto simp: array_count_eq)
  have "\<forall>b\<in>set olds. array_wf b" using Cons.prems by simp
  from Cons.IH [OF this r(2)] r(1,3) show ?case by simp
qed

lemma hash_resize_ok:
  assumes n: "0 < n" "n < 2 ^ 63" and sz: "0 < m_node_sz self"
    and old: "case m_bucket self of None \<Rightarrow> True | Some bs \<Rightarrow> \<forall>b\<in>set bs. array_wf b"
  shows "\<exists>bs. hash_resize z self n = Some (self\<lparr>m_bucket_count := n, m_bucket := Some bs\<rparr>) \<and>
    hash_shape (self\<lparr>m_bucket_count := n, m_bucket := Some bs\<rparr>) \<and>
    mset (nodes (self\<lparr>m_bucket_count := n, m_bucket := Some bs\<rparr>)) = mset (nodes self) \<and>
    placed (buckets (self\<lparr>m_bucket_count := n, m_bucket := Some bs\<rparr>))"
proof -
  define fresh where "fresh = self\<lparr>m_bucket_count := n,
      m_bucket := Some (replicate (nat n) (array_init (m_node_sz self) 1))\<rparr>"
  have sh: "hash_shape fresh" using n sz by (auto simp: fresh_def hash_shape_def array_wf_init)
  have bk: "buckets fresh = replicate (nat n) []" by (simp add: fresh_def buckets_def)
  have pos: "buckets fresh \<noteq> []" using shape_pos [OF sh] by simp
  show ?thesis
  proof (cases "m_bucket self")
    case None
    have "hash_resize z self n = Some fresh" using None n by (simp add: hash_resize_def fresh_def)
    then show ?thesis using sh bk None
      by (intro exI [of _ "replicate (nat n) (array_init (m_node_sz self) 1)"])
        (simp add: fresh_def [symmetric] nodes_def placed_empty, simp add: buckets_def)
  next
    case (Some olds)
    have "\<forall>b\<in>set olds. array_wf b" using old Some by simp
    from rehash_buckets_ok [OF this sh, of z]
    obtain bs where bs: "rehash_buckets z fresh olds = Some (fresh\<lparr>m_bucket := Some bs\<rparr>)"
      "hash_shape (fresh\<lparr>m_bucket := Some bs\<rparr>)"
      "buckets (fresh\<lparr>m_bucket := Some bs\<rparr>) = fold place (concat (map (\<lambda>b. rev (elems b)) olds)) (buckets fresh)"
      by blast
    have eq: "fresh\<lparr>m_bucket := Some bs\<rparr> = self\<lparr>m_bucket_count := n, m_bucket := Some bs\<rparr>"
      by (simp add: fresh_def)
    have "hash_resize z self n = Some (self\<lparr>m_bucket_count := n, m_bucket := Some bs\<rparr>)"
      using Some n bs(1) by (simp add: hash_resize_def fresh_def [symmetric] eq)
    moreover have "placed (buckets (self\<lparr>m_bucket_count := n, m_bucket := Some bs\<rparr>))"
      using bs(3) placed_fold_place [OF pos] by (simp add: eq [symmetric]) (simp add: bk placed_empty)
    moreover have "mset (concat (map (\<lambda>b. rev (elems b)) olds)) = mset (concat (map elems olds))"
      by (induction olds) auto
    then have "mset (nodes (self\<lparr>m_bucket_count := n, m_bucket := Some bs\<rparr>)) = mset (nodes self)"
      using bs(3) pos Some
      by (simp add: eq [symmetric] nodes_def mset_fold_place bk) (simp add: buckets_def)
    ultimately show ?thesis using bs(2) by (auto simp: eq)
  qed
qed

lemma remove_node_ok:
  assumes sh: "hash_shape self" and i: "i < length (buckets self)" and j: "j < length (buckets self ! i)"
    and b: "get_bucket self (int i) = Some b"
  shows "\<exists>b' bs. array_remove_ptr b (int j * m_eltsz b) = Some b' \<and>
    set_bucket self (int i) b' = Some (self\<lparr>m_bucket := Some bs\<rparr>) \<and>
    hash_shape (self\<lparr>m_bucket := Some bs\<rparr>) \<and>
    buckets (self\<lparr>m_bucket := Some bs\<rparr>) =
      (buckets self)[i := take j (buckets self ! i) @ drop (Suc j) (buckets self ! i)]"
proof -
  have wf: "array_wf b" "elems b = buckets self ! i"
    using get_bucket_ok [OF sh i] b by auto
  obtain b' where b': "array_remove_idx b (int j) 1 = Some b'" "array_wf b'"
      "elems b' = take j (elems b) @ drop (Suc j) (elems b)"
    using array_remove_one [of b j] wf j by auto
  have "array_remove_ptr b (int j * m_eltsz b) = Some b'"
    using wf(1) b'(1) by (simp add: array_remove_ptr_eq)
  with set_bucket_ok [OF sh i b'(2)] b'(3) wf(2) show ?thesis by auto
qed

lemma node_at_ok:
  assumes "hash_shape self" "i < length (buckets self)" "j < length (buckets self ! i)"
  shows "node_at self (int i, int j) = Some (buckets self ! i ! j)"
proof -
  obtain b where b: "get_bucket self (int i) = Some b" "array_wf b" "elems b = buckets self ! i"
    using assms(1,2) by (rule get_bucket_ok)
  then have "elems b \<noteq> []" using assms(3) by auto
  then obtain ys where "m_array b = Some (elems b @ ys)" using b(2) m_array_SomeI by blast
  with b assms(3) show ?thesis by (simp add: node_at_def mem_get_def nth_append)
qed

lemma mset_remove_nth:
  "i < length B \<Longrightarrow> j < length (B ! i) \<Longrightarrow>
   add_mset (B ! i ! j) (mset (concat (B[i := take j (B ! i) @ drop (Suc j) (B ! i)]))) = mset (concat B)"
proof -
  assume i: "i < length B" and j: "j < length (B ! i)"
  let ?xs = "B ! i"
  have "mset ?xs = mset (take j ?xs @ ?xs ! j # drop (Suc j) ?xs)"
    using id_take_nth_drop [OF j] by simp
  then have "mset ?xs = add_mset (?xs ! j) (mset (take j ?xs @ drop (Suc j) ?xs))" by simp
  with mset_concat_update [OF i, of "take j ?xs @ drop (Suc j) ?xs"] show ?thesis by simp
qed

lemma nth_in_nodes: "i < length (buckets self) \<Longrightarrow> j < length (buckets self ! i) \<Longrightarrow>
    buckets self ! i ! j \<in> set (nodes self)"
  by (auto simp: nodes_def intro!: bexI [of _ "buckets self ! i"])

lemma hash_free_raw:
  assumes sh: "hash_shape self" and pl: "placed (buckets self)" and i: "i < length (buckets self)"
    and j: "j < length (buckets self ! i)"
  shows "\<exists>bs. hash_free self (Some (int i, int j)) =
      Some (self\<lparr>m_bucket := Some bs, m_node_count := m_node_count self - 1\<rparr>,
        hash_free_node self (buckets self ! i ! j)) \<and>
    hash_shape (self\<lparr>m_bucket := Some bs\<rparr>) \<and> placed (buckets (self\<lparr>m_bucket := Some bs\<rparr>)) \<and>
    buckets (self\<lparr>m_bucket := Some bs\<rparr>) =
      (buckets self)[i := take j (buckets self ! i) @ drop (Suc j) (buckets self ! i)]"
proof -
  obtain b where b: "get_bucket self (int i) = Some b" using sh i by (rule get_bucket_ok)
  obtain b' bs where r: "array_remove_ptr b (int j * m_eltsz b) = Some b'"
    "set_bucket self (int i) b' = Some (self\<lparr>m_bucket := Some bs\<rparr>)"
    "hash_shape (self\<lparr>m_bucket := Some bs\<rparr>)" "buckets (self\<lparr>m_bucket := Some bs\<rparr>) =
      (buckets self)[i := take j (buckets self ! i) @ drop (Suc j) (buckets self ! i)]"
    using remove_node_ok [OF sh i j b] by blast
  have "slot (length (buckets self)) (node_hash (buckets self ! i ! j)) = i"
    using pl i j by (simp add: placed_def)
  then have "hash_free self (Some (int i, int j)) =
      Some (self\<lparr>m_bucket := Some bs, m_node_count := m_node_count self - 1\<rparr>,
        hash_free_node self (buckets self ! i ! j))"
    using b r(1,2) node_at_ok [OF sh i j] by (simp add: hash_free_def bucket_of_eq [OF sh])
  moreover have "placed (buckets (self\<lparr>m_bucket := Some bs\<rparr>))" unfolding r(4)
    by (rule placed_removed [OF pl i]) (auto dest: in_set_takeD in_set_dropD)
  ultimately show ?thesis using r(3,4) by blast
qed

section \<open>Iteration\<close>

text \<open>A callback that only reads the node it is given, and one that frees the nodes it selects.\<close>

definition reader ::
    "(('k, 'v) hash_node \<Rightarrow> 's \<Rightarrow> 's \<times> int) \<Rightarrow> ('k, 'v, 's) foreach_func" where
  "reader f self p arg =
     do { n \<leftarrow> node_at self p; Some (self, fst (f n arg), snd (f n arg)) }"

definition freeing :: "(('k, 'v) hash_node \<Rightarrow> bool) \<Rightarrow> ('k, 'v, ('k, 'v) hash_event list) foreach_func" where
  "freeing P self p ev =
     do {
       n \<leftarrow> node_at self p;
       if P n then do { (self, e) \<leftarrow> hash_free self (Some p); Some (self, ev @ e, 0) }
       else Some (self, ev, 0)
     }"

text \<open>Visiting a list until the callback returns nonzero.\<close>

fun visit :: "('n \<Rightarrow> 's \<Rightarrow> 's \<times> int) \<Rightarrow> 'n list \<Rightarrow> 's \<Rightarrow> 's \<times> int" where
  "visit f [] arg = (arg, 0)"
| "visit f (n # ns) arg = (if snd (f n arg) \<noteq> 0 then f n arg else visit f ns (fst (f n arg)))"

lemma visit_append:
  "visit f (xs @ ys) arg =
   (if snd (visit f xs arg) \<noteq> 0 then visit f xs arg else visit f ys (fst (visit f xs arg)))"
  by (induction xs arbitrary: arg) auto

lemma foreach_nodes_reader:
  assumes "hash_shape self" "i < length (buckets self)" "j \<le> length (buckets self ! i)"
  shows "foreach_nodes (reader f) (int i) j self arg =
    Some (self, visit f (rev (take j (buckets self ! i))) arg)"
  using assms(3)
proof (induction j arbitrary: arg)
  case (Suc j)
  have "rev (take (Suc j) (buckets self ! i)) = buckets self ! i ! j # rev (take j (buckets self ! i))"
    using Suc.prems by (simp add: take_Suc_conv_app_nth)
  with Suc assms node_at_ok [OF assms(1,2), of j] show ?case
    by (cases "f (buckets self ! i ! j) arg") (simp add: reader_def)
qed simp

lemma foreach_buckets_reader:
  assumes sh: "hash_shape self" and "i + n = length (buckets self)"
  shows "foreach_buckets (reader f) i n self arg =
    Some (self, visit f (concat (map rev (drop i (buckets self)))) arg)"
  using assms(2)
proof (induction n arbitrary: i arg)
  case (Suc n)
  then have i: "i < length (buckets self)" by simp
  obtain b where b: "get_bucket self (int i) = Some b" "array_wf b" "elems b = buckets self ! i"
    using sh i by (rule get_bucket_ok)
  have d: "drop i (buckets self) = buckets self ! i # drop (Suc i) (buckets self)"
    using i by (simp add: Cons_nth_drop_Suc)
  have n: "foreach_nodes (reader f) (int i) (nat (array_count b)) self arg =
      Some (self, visit f (rev (buckets self ! i)) arg)"
    using foreach_nodes_reader [OF sh i order_refl] b(2,3) by (simp add: array_count_eq)
  have "Suc i + n = length (buckets self)" using Suc.prems by simp
  with Suc.IH [OF this] b(1) n show ?case
    by (cases "visit f (rev (buckets self ! i)) arg") (simp add: d visit_append)
qed simp

text \<open>The order of a traversal: buckets upwards, each from its last node to its first.\<close>

definition foreach_order :: "('k, 'v) hash_t \<Rightarrow> ('k, 'v) hash_node list" where
  "foreach_order self = concat (map rev (buckets self))"

lemma foreach_order_mset: "mset (foreach_order self) = mset (nodes self)"
proof -
  have "mset (concat (map rev B)) = mset (concat B)" for B :: "('k, 'v) hash_node list list"
    by (induction B) auto
  then show ?thesis by (simp add: foreach_order_def nodes_def)
qed

lemma hash_foreach_reader:
  assumes "hash_shape self"
  shows "hash_foreach (reader f) self arg = Some (self, visit f (foreach_order self) arg)"
proof -
  have "nat (m_bucket_count self) = length (buckets self)" using shape_length [OF assms] by simp
  then show ?thesis
    using foreach_buckets_reader [OF assms, of 0] by (simp add: hash_foreach_def foreach_order_def)
qed

lemma reader_keeps: "reader f self p arg = Some (self', r) \<Longrightarrow> self' = self"
  by (auto simp: reader_def split: bind_splits)

lemma foreach_nodes_reader_keeps:
  "foreach_nodes (reader f) i j self arg = Some (self', r) \<Longrightarrow> self' = self"
  by (induction j arbitrary: arg) (auto split: bind_splits if_splits dest!: reader_keeps)

lemma foreach_free_reader:
  "hash_foreach_free_node self p ev =
   reader (\<lambda>n ev. (ev @ hash_free_node self n, 0)) self p ev"
  by (simp add: hash_foreach_free_node_def reader_def)

section \<open>The contract of a key type\<close>

text \<open>
  What \<open>hash.c\<close> needs of its key functions: two keys have equal hashes and compare equal exactly
  when they have the same canonical form. The table is then a map from canonical forms to values.
\<close>

definition node_keys :: "('k \<Rightarrow> 'c) \<Rightarrow> ('k, 'v) hash_node list \<Rightarrow> 'c list" where
  "node_keys canon ns = map (\<lambda>n. canon (node_key n)) ns"

definition hash_map :: "('k \<Rightarrow> 'c) \<Rightarrow> ('k, 'v) hash_t \<Rightarrow> 'c \<Rightarrow> 'v option" where
  "hash_map canon self = map_of (map (\<lambda>n. (canon (node_key n), node_val n)) (nodes self))"

definition hash_ok ::
    "('k \<Rightarrow> u64) \<Rightarrow> ('k \<Rightarrow> 'k \<Rightarrow> int) \<Rightarrow> ('k \<Rightarrow> 'c) \<Rightarrow> ('k, 'v) hash_t \<Rightarrow> bool" where
  "hash_ok hash cmp canon self \<longleftrightarrow>
     hash_shape self \<and> m_hash self = hash \<and> m_cmp self = cmp \<and>
     placed (buckets self) \<and> (\<forall>n\<in>set (nodes self). node_hash n = hash (node_key n)) \<and>
     distinct (node_keys canon (nodes self)) \<and>
     m_node_count self = int (length (nodes self)) \<and> m_bucket_count self < 2 ^ 30"

lemma hash_map_cong:
  assumes "mset (nodes a) = mset (nodes b)" "distinct (node_keys canon (nodes a))"
  shows "hash_map canon a = hash_map canon b" "distinct (node_keys canon (nodes b))"
proof -
  have "mset (node_keys canon (nodes a)) = mset (node_keys canon (nodes b))"
    using assms(1) by (simp add: node_keys_def image_mset.compositionality [symmetric] multiset.map_comp [symmetric])
  then show d: "distinct (node_keys canon (nodes b))"
    using assms(2) by (metis mset_eq_imp_distinct_iff)
  have "set (nodes a) = set (nodes b)" using assms(1) by (rule mset_eq_setD)
  then show "hash_map canon a = hash_map canon b"
    using assms(2) d unfolding hash_map_def node_keys_def
    by (intro iffD2 [OF map_of_inject_set]) (simp_all add: comp_def)
qed

lemma hash_map_Some_iff:
  assumes "distinct (node_keys canon (nodes self))"
  shows "hash_map canon self c = Some v \<longleftrightarrow>
    (\<exists>n\<in>set (nodes self). canon (node_key n) = c \<and> node_val n = v)"
proof -
  have "distinct (map fst (map (\<lambda>n. (canon (node_key n), node_val n)) (nodes self)))"
    using assms by (simp add: node_keys_def comp_def)
  then show ?thesis by (auto simp: hash_map_def)
qed

lemma hash_map_None_iff:
  "hash_map canon self c = None \<longleftrightarrow> c \<notin> set (node_keys canon (nodes self))"
  by (auto simp: hash_map_def node_keys_def map_of_eq_None_iff image_image)

lemma node_keys_I: "x \<in> set ns \<Longrightarrow> canon (node_key x) \<in> set (node_keys canon ns)"
  by (induction ns) (auto simp: node_keys_def)

lemma node_keys_mset: "mset (node_keys canon ns) = image_mset (\<lambda>n. canon (node_key n)) (mset ns)"
  by (simp add: node_keys_def)

lemma hash_map_add:
  assumes m: "mset (nodes b) = add_mset n (mset (nodes a))"
    and d: "distinct (node_keys canon (nodes a))"
    and new: "canon (node_key n) \<notin> set (node_keys canon (nodes a))"
  shows "distinct (node_keys canon (nodes b))"
    "hash_map canon b = (hash_map canon a)(canon (node_key n) \<mapsto> node_val n)"
proof -
  have "mset (node_keys canon (nodes b)) = mset (node_keys canon (n # nodes a))"
    by (simp add: node_keys_mset m)
  moreover have "distinct (node_keys canon (n # nodes a))"
    using d new by (simp add: node_keys_def)
  ultimately show db: "distinct (node_keys canon (nodes b))" by (metis mset_eq_imp_distinct_iff)
  have set: "set (nodes b) = insert n (set (nodes a))"
    using m by (metis set_mset_add_mset_insert set_mset_mset)
  have fresh: "\<And>x. x \<in> set (nodes a) \<Longrightarrow> canon (node_key x) \<noteq> canon (node_key n)"
    using new node_keys_I [of _ "nodes a" canon] by metis
  show "hash_map canon b = (hash_map canon a)(canon (node_key n) \<mapsto> node_val n)"
  proof
    fix c
    have "hash_map canon b c = Some v \<longleftrightarrow>
        ((hash_map canon a)(canon (node_key n) \<mapsto> node_val n)) c = Some v" for v
      using fresh by (auto simp: hash_map_Some_iff [OF db] hash_map_Some_iff [OF d] set)
    then show "hash_map canon b c = ((hash_map canon a)(canon (node_key n) \<mapsto> node_val n)) c"
      by (metis option.exhaust)
  qed
qed

lemma hash_map_remove:
  assumes m: "add_mset n (mset (nodes b)) = mset (nodes a)"
    and d: "distinct (node_keys canon (nodes a))"
  shows "distinct (node_keys canon (nodes b))"
    "hash_map canon b = (hash_map canon a)(canon (node_key n) := None)"
    "canon (node_key n) \<notin> set (node_keys canon (nodes b))"
proof -
  have "mset (node_keys canon (n # nodes b)) = mset (node_keys canon (nodes a))"
    by (simp add: node_keys_mset m [symmetric])
  then have "distinct (node_keys canon (n # nodes b))" using d by (metis mset_eq_imp_distinct_iff)
  then show db: "distinct (node_keys canon (nodes b))"
    and nb: "canon (node_key n) \<notin> set (node_keys canon (nodes b))"
    by (simp_all add: node_keys_def)
  have "hash_map canon b (canon (node_key n)) = None" using nb by (simp add: hash_map_None_iff)
  then show "hash_map canon b = (hash_map canon a)(canon (node_key n) := None)"
    using hash_map_add(2) [where canon = canon, OF m [symmetric] db nb] by (auto simp: fun_eq_iff)
qed

lemma hash_map_count_update [simp]:
  "hash_map canon (self\<lparr>m_node_count := c\<rparr>) = hash_map canon self"
  "nodes (self\<lparr>m_node_count := c\<rparr>) = nodes self"
  by (simp_all add: hash_map_def nodes_def)

locale hash_key =
  fixes hash :: "'k \<Rightarrow> u64" and cmp :: "'k \<Rightarrow> 'k \<Rightarrow> int" and canon :: "'k \<Rightarrow> 'c"
  assumes same: "hash k = hash k' \<and> cmp k k' = 0 \<longleftrightarrow> canon k = canon k'"
begin

lemma canon_hash: "canon k = canon k' \<Longrightarrow> hash k = hash k'"
  using same by blast

lemma get_loop_spec:
  assumes "array_wf b" "j \<le> length (elems b)" "m_cmp self = cmp"
    "\<forall>n\<in>set (elems b). node_hash n = hash (node_key n)"
  shows "\<exists>r. get_loop self key (hash key) b j = Some r \<and>
    (case r of None \<Rightarrow> \<forall>m < j. canon (node_key (elems b ! m)) \<noteq> canon key
     | Some p \<Rightarrow> \<exists>m < j. p = int m \<and> canon (node_key (elems b ! m)) = canon key)"
  using assms(2)
proof (induction j)
  case (Suc j)
  have at: "elt_at b (array_get b (int j)) = Some (elems b ! j)"
    using assms(1) Suc.prems by (intro elt_at_nat) auto
  have h: "node_hash (elems b ! j) = hash (node_key (elems b ! j))"
    using assms(4) Suc.prems by simp
  show ?case
  proof (cases "canon key = canon (node_key (elems b ! j))")
    case True
    with same [of key "node_key (elems b ! j)"] show ?thesis
      by (intro exI [of _ "Some (int j)"]) (auto simp: at h assms(3))
  next
    case False
    obtain r where r: "get_loop self key (hash key) b j = Some r"
      "case r of None \<Rightarrow> \<forall>m < j. canon (node_key (elems b ! m)) \<noteq> canon key
       | Some p \<Rightarrow> \<exists>m < j. p = int m \<and> canon (node_key (elems b ! m)) = canon key"
      using Suc by auto
    from False same [of key "node_key (elems b ! j)"] r show ?thesis
      by (intro exI [of _ r])
        (auto simp: at h assms(3) less_Suc_eq split: option.splits)
  qed
qed simp

lemma hash_get_cases:
  assumes ok: "hash_ok hash cmp canon self"
  obtains (absent) "hash_get self key = Some None" "hash_map canon self (canon key) = None"
  | (found) i j where "hash_get self key = Some (Some (int i, int j))" "i < length (buckets self)"
      "j < length (buckets self ! i)" "canon (node_key (buckets self ! i ! j)) = canon key"
      "hash_map canon self (canon key) = Some (node_val (buckets self ! i ! j))"
      "slot (length (buckets self)) (node_hash (buckets self ! i ! j)) = i"
proof -
  have sh: "hash_shape self" and pl: "placed (buckets self)" and mh: "m_hash self = hash"
    and mc: "m_cmp self = cmp" and nh: "\<forall>n\<in>set (nodes self). node_hash n = hash (node_key n)"
    and d: "distinct (node_keys canon (nodes self))"
    using ok by (simp_all add: hash_ok_def)
  define i where "i = slot (length (buckets self)) (hash key)"
  have i: "i < length (buckets self)" unfolding i_def by (rule slot_less [OF sh])
  obtain b where b: "get_bucket self (int i) = Some b" "array_wf b" "elems b = buckets self ! i"
    using sh i by (rule get_bucket_ok)
  have sub: "set (elems b) \<subseteq> set (nodes self)"
    using b(3) nth_mem [OF i] by (auto simp: nodes_def)
  obtain r where r: "get_loop self key (hash key) b (length (elems b)) = Some r"
    "case r of None \<Rightarrow> \<forall>m < length (elems b). canon (node_key (elems b ! m)) \<noteq> canon key
     | Some p \<Rightarrow> \<exists>m < length (elems b). p = int m \<and> canon (node_key (elems b ! m)) = canon key"
    using get_loop_spec [OF b(2) order_refl mc, of key] nh sub by blast
  have get: "hash_get self key = Some (map_option (Pair (int i)) r)"
    using b(1,2) r(1) by (simp add: hash_get_def mh bucket_of_eq [OF sh] i_def [symmetric] array_count_eq)
  show thesis
  proof (cases r)
    case None
    have "canon (node_key n) \<noteq> canon key" if n: "n \<in> set (nodes self)" for n
    proof
      assume eq: "canon (node_key n) = canon key"
      then have "node_hash n = hash key" using nh n canon_hash by metis
      moreover from n obtain k where k: "k < length (buckets self)" "n \<in> set (buckets self ! k)"
        unfolding nodes_def set_concat by (metis UN_E in_set_conv_nth)
      ultimately have "k = i" using pl unfolding placed_def i_def by metis
      with k(2) b(3) None r(2) eq show False by (auto simp: in_set_conv_nth)
    qed
    then have "hash_map canon self (canon key) = None"
      unfolding hash_map_None_iff node_keys_def set_map by (metis imageE)
    with get None show thesis by (intro absent) simp_all
  next
    case (Some p)
    with r(2) obtain m where m: "m < length (buckets self ! i)" "p = int m"
      "canon (node_key (buckets self ! i ! m)) = canon key" using b(3) by auto
    have "hash_map canon self (canon key) = Some (node_val (buckets self ! i ! m))"
      using m(3) nth_in_nodes [OF i m(1)] by (auto simp: hash_map_Some_iff [OF d])
    moreover have "slot (length (buckets self)) (node_hash (buckets self ! i ! m)) = i"
      using pl i m(1) by (simp add: placed_def)
    ultimately show thesis using get Some m i by (intro found [of i m]) simp_all
  qed
qed

text \<open>Freeing the node a lookup has found.\<close>

lemma hash_free_ok:
  assumes ok: "hash_ok hash cmp canon self" and i: "i < length (buckets self)"
    and j: "j < length (buckets self ! i)"
  shows "\<exists>self'. hash_free self (Some (int i, int j)) =
      Some (self', hash_free_node self (buckets self ! i ! j)) \<and>
    hash_ok hash cmp canon self' \<and> m_node_count self' = m_node_count self - 1 \<and>
    m_bucket_count self' = m_bucket_count self \<and>
    hash_map canon self' = (hash_map canon self)(canon (node_key (buckets self ! i ! j)) := None)"
proof -
  let ?n = "buckets self ! i ! j"
  let ?B = "(buckets self)[i := take j (buckets self ! i) @ drop (Suc j) (buckets self ! i)]"
  have sh: "hash_shape self" and pl: "placed (buckets self)"
    and nh: "\<forall>n\<in>set (nodes self). node_hash n = hash (node_key n)"
    and d: "distinct (node_keys canon (nodes self))"
    using ok by (simp_all add: hash_ok_def)
  obtain bs where r: "hash_free self (Some (int i, int j)) =
      Some (self\<lparr>m_bucket := Some bs, m_node_count := m_node_count self - 1\<rparr>, hash_free_node self ?n)"
    "hash_shape (self\<lparr>m_bucket := Some bs\<rparr>)" "placed (buckets (self\<lparr>m_bucket := Some bs\<rparr>))"
    "buckets (self\<lparr>m_bucket := Some bs\<rparr>) = ?B"
    using hash_free_raw [OF sh pl i j] by blast
  define self' where "self' = self\<lparr>m_bucket := Some bs, m_node_count := m_node_count self - 1\<rparr>"
  have free: "hash_free self (Some (int i, int j)) = Some (self', hash_free_node self ?n)"
    using r(1) by (simp add: self'_def)
  have nd: "nodes self' = concat ?B" using r(4) by (simp add: nodes_def self'_def)
  have m: "add_mset ?n (mset (nodes self')) = mset (nodes self)"
    unfolding nd using mset_remove_nth [OF i j] by (simp add: nodes_def)
  note del = hash_map_remove [where canon = canon, OF m d]
  have sub: "set (nodes self') \<subseteq> set (nodes self)"
    using arg_cong [OF m, of set_mset] by auto
  have "length (nodes self) = Suc (length (nodes self'))" using arg_cong [OF m, of size] by simp
  moreover have "placed (buckets self')" using r(3) by (simp add: self'_def)
  moreover have "hash_shape self'" using r(2) by (simp add: self'_def)
  ultimately have "hash_ok hash cmp canon self'"
    using ok sub del(1) nh by (auto simp: hash_ok_def self'_def)
  with free del(2) show ?thesis by (auto simp: self'_def)
qed

lemma hash_remove_spec:
  assumes ok: "hash_ok hash cmp canon self"
  shows "\<exists>self' ev. hash_remove self key = Some (self', ev) \<and>
    hash_ok hash cmp canon self' \<and> m_bucket_count self' = m_bucket_count self \<and>
    m_node_count self' \<le> m_node_count self \<and>
    hash_map canon self' = (hash_map canon self)(canon key := None)"
proof (cases rule: hash_get_cases [OF ok, of key])
  case 1
  then have "hash_map canon self = (hash_map canon self)(canon key := None)" by auto
  with 1 ok show ?thesis by (simp add: hash_remove_def hash_free_def)
next
  case (2 i j)
  from hash_free_ok [OF ok 2(2,3)] 2 show ?thesis by (auto simp: hash_remove_def)
qed

text \<open>Resizing keeps the map, whatever the new size.\<close>

lemma hash_resize_map:
  assumes ok: "hash_ok hash cmp canon self" and n: "0 < n" "n < 2 ^ 30"
  shows "\<exists>self'. hash_resize z self n = Some self' \<and> hash_ok hash cmp canon self' \<and>
    m_bucket_count self' = n \<and> hash_map canon self' = hash_map canon self \<and>
    m_node_count self' = m_node_count self"
proof -
  have sh: "hash_shape self" using ok by (simp add: hash_ok_def)
  have old: "case m_bucket self of None \<Rightarrow> True | Some bs \<Rightarrow> \<forall>b\<in>set bs. array_wf b"
    using sh by (auto elim: hash_shapeE)
  have sz: "0 < m_node_sz self" using sh by (simp add: hash_shape_def)
  from n(2) have n63: "n < 2 ^ 63" by simp
  obtain bs where r: "hash_resize z self n = Some (self\<lparr>m_bucket_count := n, m_bucket := Some bs\<rparr>)"
    "hash_shape (self\<lparr>m_bucket_count := n, m_bucket := Some bs\<rparr>)"
    "mset (nodes (self\<lparr>m_bucket_count := n, m_bucket := Some bs\<rparr>)) = mset (nodes self)"
    "placed (buckets (self\<lparr>m_bucket_count := n, m_bucket := Some bs\<rparr>))"
    using hash_resize_ok [OF n(1) n63 sz old, of z] by blast
  let ?s = "self\<lparr>m_bucket_count := n, m_bucket := Some bs\<rparr>"
  have d: "distinct (node_keys canon (nodes self))" using ok by (simp add: hash_ok_def)
  note cong = hash_map_cong [where canon = canon, OF r(3) [symmetric] d]
  have "set (nodes ?s) = set (nodes self)" using r(3) by (rule mset_eq_setD)
  moreover have "length (nodes ?s) = length (nodes self)" using r(3) by (rule mset_eq_length)
  ultimately have "hash_ok hash cmp canon ?s"
    using ok r(2,4) cong(2) n(2) by (auto simp: hash_ok_def)
  with r(1) cong(1) show ?thesis by (intro exI [of _ ?s]) simp
qed

text \<open>\<open>hash_put\<close>: replace or add, growing the table when it holds more than three nodes per bucket.\<close>

lemma grow_ok:
  assumes ok: "hash_ok hash cmp canon self" and c: "m_node_count self < 3 * 2 ^ 29"
  shows "\<exists>self'. (if m_node_count self > 3 * m_bucket_count self
        then hash_resize z self (hash_resize_next (m_bucket_count self)) else Some self) = Some self' \<and>
      hash_ok hash cmp canon self' \<and> hash_map canon self' = hash_map canon self \<and>
      m_node_count self' = m_node_count self \<and> m_bucket_count self \<le> m_bucket_count self'"
proof (cases "m_node_count self > 3 * m_bucket_count self")
  case False
  with ok show ?thesis by simp
next
  case True
  then have b: "0 < m_bucket_count self" "m_bucket_count self < 2 ^ 29"
    using ok c by (auto simp: hash_ok_def hash_shape_def)
  from hash_resize_next_less [OF less_imp_le [OF b(1)] b(2)] b(1)
  have "0 < hash_resize_next (m_bucket_count self)" "hash_resize_next (m_bucket_count self) < 2 ^ 30"
    "m_bucket_count self \<le> hash_resize_next (m_bucket_count self)"
    by simp_all
  with hash_resize_map [OF ok, of "hash_resize_next (m_bucket_count self)" z] True show ?thesis by auto
qed

lemma bucket_push_node:
  assumes sh: "hash_shape self" and b: "bucket_of self h = Some i" "bucket_push z self i n = Some (self', j)"
  shows "\<exists>i' j'. i = int i' \<and> j = int j' \<and> i' < length (buckets self') \<and>
    j' < length (buckets self' ! i') \<and> buckets self' ! i' ! j' = n"
proof -
  let ?i = "slot (length (buckets self)) h"
  have i: "i = int ?i" using b(1) bucket_of_eq [OF sh] by simp
  obtain bs where p: "bucket_push z self (int ?i) n = Some (self\<lparr>m_bucket := Some bs\<rparr>, int (length (buckets self ! ?i)))"
    "buckets (self\<lparr>m_bucket := Some bs\<rparr>) = (buckets self)[?i := buckets self ! ?i @ [n]]"
    using bucket_push_ok [OF sh slot_less [OF sh]] by blast
  then have "self' = self\<lparr>m_bucket := Some bs\<rparr>" "j = int (length (buckets self ! ?i))"
    using b(2) i by simp_all
  with p(2) slot_less [OF sh, of h] i show ?thesis
    by (intro exI [of _ ?i] exI [of _ "length (buckets self ! ?i)"]) simp
qed

lemma push_new_ok:
  assumes ok: "hash_ok hash cmp canon self" and new: "hash_map canon self (canon key) = None"
    and n: "n = z\<lparr>node_hash := hash key, node_key := key, node_val := v\<rparr>"
  shows "\<exists>self' i j. bucket_of self (hash key) = Some i \<and> bucket_push z self i n = Some (self', j) \<and>
    hash_ok hash cmp canon (self'\<lparr>m_node_count := m_node_count self' + 1\<rparr>) \<and>
    m_node_count self' = m_node_count self \<and>
    hash_map canon self' = (hash_map canon self)(canon key \<mapsto> v)"
proof -
  have sh: "hash_shape self" and pl: "placed (buckets self)"
    and nh: "\<forall>n\<in>set (nodes self). node_hash n = hash (node_key n)"
    and d: "distinct (node_keys canon (nodes self))"
    using ok by (simp_all add: hash_ok_def)
  have nk: "node_hash n = hash key" "node_key n = key" "node_val n = v" by (simp_all add: n)
  obtain bs j where r: "bucket_push z self (int (slot (length (buckets self)) (node_hash n))) n =
      Some (self\<lparr>m_bucket := Some bs\<rparr>, j)" "hash_shape (self\<lparr>m_bucket := Some bs\<rparr>)"
    "buckets (self\<lparr>m_bucket := Some bs\<rparr>) = place n (buckets self)"
    using push_place [OF sh, of z n] by blast
  have ne: "buckets self \<noteq> []" using shape_pos [OF sh] by simp
  let ?s = "self\<lparr>m_bucket := Some bs\<rparr>"
  have m: "mset (nodes ?s) = add_mset n (mset (nodes self))"
    using mset_place [OF ne, of n] r(3) by (simp add: nodes_def)
  have "canon (node_key n) \<notin> set (node_keys canon (nodes self))"
    using new by (simp add: hash_map_None_iff nk)
  note add = hash_map_add [where canon = canon, OF m d this]
  have "set (nodes ?s) = insert n (set (nodes self))" using arg_cong [OF m, of set_mset] by simp
  moreover have "length (nodes ?s) = Suc (length (nodes self))" using arg_cong [OF m, of size] by simp
  ultimately have "hash_ok hash cmp canon (?s\<lparr>m_node_count := m_node_count ?s + 1\<rparr>)"
    using ok r(2,3) add(1) nh nk placed_place [OF ne pl, of n]
    by (simp add: hash_ok_def nodes_def)
  with r(1) add(2) nk show ?thesis by (intro exI [of _ ?s]) (auto simp: bucket_of_eq [OF sh])
qed

lemma hash_put_at:
  assumes ok: "hash_ok hash cmp canon self" and c: "m_node_count self < 3 * 2 ^ 29"
  shows "\<exists>self' i j ev. hash_put z self key val = Some (self', (int i, int j), ev) \<and>
    hash_ok hash cmp canon self' \<and> m_node_count self' \<le> m_node_count self + 1 \<and>
    hash_map canon self' = (hash_map canon self)(canon key \<mapsto> (case val of None \<Rightarrow> node_val z | Some v \<Rightarrow> v)) \<and>
    i < length (buckets self') \<and> j < length (buckets self' ! i) \<and> node_key (buckets self' ! i ! j) = key"
proof -
  define v where "v = (case val of None \<Rightarrow> node_val z | Some v \<Rightarrow> v)"
  obtain s1 ev where s1: "hash_remove self key = Some (s1, ev)" "hash_ok hash cmp canon s1"
    "m_bucket_count s1 = m_bucket_count self" "m_node_count s1 \<le> m_node_count self"
    "hash_map canon s1 = (hash_map canon self)(canon key := None)"
    using hash_remove_spec [OF ok, of key] by blast
  have c1: "m_node_count s1 < 3 * 2 ^ 29" using s1(4) c by simp
  obtain s2 where s2: "(if m_node_count s1 > 3 * m_bucket_count s1
        then hash_resize z s1 (hash_resize_next (m_bucket_count s1)) else Some s1) = Some s2"
      "hash_ok hash cmp canon s2" "hash_map canon s2 = hash_map canon s1"
      "m_node_count s2 = m_node_count s1" "m_bucket_count s1 \<le> m_bucket_count s2"
    using grow_ok [OF s1(2) c1, of z] by blast
  define n where "n = z\<lparr>node_hash := hash key, node_key := key, node_val := v\<rparr>"
  have new: "hash_map canon s2 (canon key) = None" by (simp add: s2(3) s1(5))
  obtain s3 i j where s3: "bucket_of s2 (hash key) = Some i" "bucket_push z s2 i n = Some (s3, j)"
    "hash_ok hash cmp canon (s3\<lparr>m_node_count := m_node_count s3 + 1\<rparr>)"
    "hash_map canon s3 = (hash_map canon s2)(canon key \<mapsto> v)" "m_node_count s3 = m_node_count s2"
    using push_new_ok [OF s2(2) new n_def] by blast
  have "m_hash s2 = hash" using s2(2) by (simp add: hash_ok_def)
  moreover obtain p where "hash_get self key = Some p" "hash_free self p = Some (s1, ev)"
    using s1(1) by (auto simp: hash_remove_def split: bind_splits)
  moreover have "hash_shape s2" using s2(2) by (simp add: hash_ok_def)
  from bucket_push_node [OF this s3(1,2)]
  obtain i' j' where "i = int i'" "j = int j'" "i' < length (buckets s3)" "j' < length (buckets s3 ! i')"
    "node_key (buckets s3 ! i' ! j') = key" by (auto simp: n_def)
  ultimately show ?thesis using s2(1,3,4) s1(4,5) s3
    by (intro exI [of _ "s3\<lparr>m_node_count := m_node_count s3 + 1\<rparr>"] exI [of _ i'] exI [of _ j'] exI [of _ ev])
      (simp add: hash_put_def n_def v_def)
qed

lemma hash_put_spec:
  assumes "hash_ok hash cmp canon self" "m_node_count self < 3 * 2 ^ 29"
  shows "\<exists>self' p ev. hash_put z self key val = Some (self', p, ev) \<and>
    hash_ok hash cmp canon self' \<and> m_node_count self' \<le> m_node_count self + 1 \<and>
    hash_map canon self' = (hash_map canon self)(canon key \<mapsto> (case val of None \<Rightarrow> node_val z | Some v \<Rightarrow> v))"
  using hash_put_at [OF assms, of z key val] by blast

lemma hash_init_ok:
  assumes "0 \<le> ks" "0 \<le> vs" "n < 2 ^ 30"
  shows "\<exists>self. hash_init z hash cmp ks vs n = Some (self :: ('k, 'v) hash_t) \<and>
    hash_ok hash cmp canon self \<and> hash_map canon self = Map.empty \<and> m_node_count self = 0 \<and>
    m_bucket_count self = (if n \<le> 0 then 17 else n)"
proof -
  define m where "m = (if n \<le> 0 then 17 else n)"
  have m: "0 < m" "m < 2 ^ 63" "m < 2 ^ 30" using assms(3) by (auto simp: m_def)
  define s0 where "s0 = ((hash_zero hash cmp :: ('k, 'v) hash_t)\<lparr>m_key_sz := ks, m_val_sz := vs,
      m_node_sz := 24 + ks + vs\<rparr>)"
  have s0: "m_bucket s0 = None" "0 < m_node_sz s0" "m_hash s0 = hash" "m_cmp s0 = cmp"
    "m_node_count s0 = 0"
    using assms(1,2) by (simp_all add: s0_def hash_zero_def)
  have "case m_bucket s0 of None \<Rightarrow> True | Some bs \<Rightarrow> \<forall>b\<in>set bs. array_wf b" by (simp add: s0)
  from hash_resize_ok [OF m(1,2) s0(2) this, of z]
  obtain bs where r: "hash_resize z s0 m = Some (s0\<lparr>m_bucket_count := m, m_bucket := Some bs\<rparr>)"
    "hash_shape (s0\<lparr>m_bucket_count := m, m_bucket := Some bs\<rparr>)"
    "mset (nodes (s0\<lparr>m_bucket_count := m, m_bucket := Some bs\<rparr>)) = mset (nodes s0)"
    "placed (buckets (s0\<lparr>m_bucket_count := m, m_bucket := Some bs\<rparr>))" by blast
  let ?s = "s0\<lparr>m_bucket_count := m, m_bucket := Some bs\<rparr>"
  have n0: "nodes ?s = []" using r(3) by (simp add: nodes_def buckets_def s0(1))
  have "hash_init z hash cmp ks vs n = Some ?s"
    unfolding hash_init_def HASH_DEFAULT_BUCKETS_def s0_def [symmetric] m_def [symmetric]
    by (rule r(1))
  moreover have "hash_ok hash cmp canon ?s"
    using r(2,4) s0 n0 m(3) by (simp add: hash_ok_def node_keys_def)
  ultimately show ?thesis using s0 n0 by (intro exI [of _ ?s]) (simp add: hash_map_def m_def)
qed

end

section \<open>Histories of operations\<close>

text \<open>What a client sees: a sequence of insertions and removals, then lookups of values.\<close>

datatype ('k, 'v) hash_op = Put 'k 'v | Remove 'k

fun hash_run :: "('k, 'v) hash_node \<Rightarrow> ('k, 'v) hash_op list \<Rightarrow> ('k, 'v) hash_t \<Rightarrow> ('k, 'v) hash_t option" where
  "hash_run z [] self = Some self"
| "hash_run z (Put k v # ops) self =
     do { (self, p, ev) \<leftarrow> hash_put z self k (Some v); hash_run z ops self }"
| "hash_run z (Remove k # ops) self =
     do { (self, ev) \<leftarrow> hash_remove self k; hash_run z ops self }"

definition hash_get_val :: "('k, 'v) hash_t \<Rightarrow> 'k \<Rightarrow> 'v option option" where
  "hash_get_val self key =
     do {
       p \<leftarrow> hash_get self key;
       case p of None \<Rightarrow> Some None | Some p \<Rightarrow> do { n \<leftarrow> node_at self p; Some (Some (node_val n)) }
     }"

text \<open>The dictionary the history stands for.\<close>

fun dict_run :: "('k \<Rightarrow> 'c) \<Rightarrow> ('k, 'v) hash_op list \<Rightarrow> ('c \<Rightarrow> 'v option) \<Rightarrow> 'c \<Rightarrow> 'v option" where
  "dict_run canon [] m = m"
| "dict_run canon (Put k v # ops) m = dict_run canon ops (m(canon k \<mapsto> v))"
| "dict_run canon (Remove k # ops) m = dict_run canon ops (m(canon k := None))"

context hash_key
begin

lemma hash_get_val_spec:
  assumes "hash_ok hash cmp canon self"
  shows "hash_get_val self key = Some (hash_map canon self (canon key))"
proof (cases rule: hash_get_cases [OF assms, of key])
  case 1
  then show ?thesis by (simp add: hash_get_val_def)
next
  case (2 i j)
  have "hash_shape self" using assms by (simp add: hash_ok_def)
  from node_at_ok [OF this 2(2,3)] 2 show ?thesis by (simp add: hash_get_val_def)
qed

lemma hash_run_spec:
  assumes "hash_ok hash cmp canon self" "m_node_count self + int (length ops) \<le> 3 * 2 ^ 29"
  shows "\<exists>self'. hash_run z ops self = Some self' \<and> hash_ok hash cmp canon self' \<and>
    hash_map canon self' = dict_run canon ops (hash_map canon self)"
  using assms
proof (induction ops arbitrary: self)
  case (Cons op ops)
  show ?case
  proof (cases op)
    case (Put k v)
    have "m_node_count self < 3 * 2 ^ 29" using Cons.prems(2) by simp
    from hash_put_spec [OF Cons.prems(1) this, of z k "Some v"]
    obtain s p ev where s: "hash_put z self k (Some v) = Some (s, p, ev)" "hash_ok hash cmp canon s"
      "m_node_count s \<le> m_node_count self + 1" "hash_map canon s = (hash_map canon self)(canon k \<mapsto> v)"
      by auto
    have "m_node_count s + int (length ops) \<le> 3 * 2 ^ 29" using s(3) Cons.prems(2) by simp
    from Cons.IH [OF s(2) this] show ?thesis by (simp add: Put s(1) s(4) [symmetric])
  next
    case (Remove k)
    from hash_remove_spec [OF Cons.prems(1), of k]
    obtain s ev where s: "hash_remove self k = Some (s, ev)" "hash_ok hash cmp canon s"
      "m_node_count s \<le> m_node_count self" "hash_map canon s = (hash_map canon self)(canon k := None)"
      by auto
    have "m_node_count s + int (length ops) \<le> 3 * 2 ^ 29" using s(3) Cons.prems(2) by simp
    from Cons.IH [OF s(2) this] show ?thesis by (simp add: Remove s(1) s(4) [symmetric])
  qed
qed simp

lemma history_spec:
  fixes z :: "('k, 'v) hash_node"
  assumes "0 \<le> ks" "0 \<le> vs" "n < 2 ^ 30" "length ops \<le> 3 * 2 ^ 29"
  shows "\<exists>self self'. hash_init z hash cmp ks vs n = Some self \<and> hash_run z ops self = Some self' \<and>
    hash_ok hash cmp canon self' \<and>
    (\<forall>key. hash_get_val self' key = Some (dict_run canon ops Map.empty (canon key)))"
proof -
  obtain self where s: "hash_init z hash cmp ks vs n = Some (self :: ('k, 'v) hash_t)"
    "hash_ok hash cmp canon self" "hash_map canon self = Map.empty" "m_node_count self = 0"
    using hash_init_ok [OF assms(1-3), of z] by blast
  have "m_node_count self + int (length ops) \<le> 3 * 2 ^ 29" using s(4) assms(4) by simp
  from hash_run_spec [OF s(2) this, of z] s(1,3) show ?thesis by (auto simp: hash_get_val_spec)
qed

end

section \<open>Deleting while iterating\<close>

text \<open>Freeing the current node never disturbs the nodes still to be visited.\<close>

context hash_key
begin

lemma freeing_nodes_ok:
  assumes "hash_ok hash cmp canon self" "i < length (buckets self)" "j \<le> length (buckets self ! i)"
  shows "\<exists>self' ev'. foreach_nodes (freeing P) (int i) j self ev = Some (self', ev', 0) \<and>
    hash_ok hash cmp canon self' \<and> m_bucket_count self' = m_bucket_count self \<and>
    buckets self' = (buckets self)[i := filter (\<lambda>n. \<not> P n) (take j (buckets self ! i)) @
      drop j (buckets self ! i)]"
  using assms
proof (induction j arbitrary: self ev)
  case 0
  then show ?case by simp
next
  case (Suc j)
  let ?b = "buckets self ! i"
  have sh: "hash_shape self" and pl: "placed (buckets self)"
    using Suc.prems(1) by (simp_all add: hash_ok_def)
  have j: "j < length ?b" "j \<le> length ?b" using Suc.prems(3) by simp_all
  have at: "node_at self (int i, int j) = Some (?b ! j)" by (rule node_at_ok [OF sh Suc.prems(2) j(1)])
  have tk: "take (Suc j) ?b = take j ?b @ [?b ! j]" using j by (simp add: take_Suc_conv_app_nth)
  have dr: "drop j ?b = ?b ! j # drop (Suc j) ?b" using j by (simp add: Cons_nth_drop_Suc)
  show ?case
  proof (cases "P (?b ! j)")
    case False
    from Suc.IH [OF Suc.prems(1,2) j(2), of ev] at False show ?thesis
      by (auto simp: freeing_def tk dr)
  next
    case True
    obtain bs where r: "hash_free self (Some (int i, int j)) =
        Some (self\<lparr>m_bucket := Some bs, m_node_count := m_node_count self - 1\<rparr>,
          hash_free_node self (?b ! j))"
      "buckets (self\<lparr>m_bucket := Some bs\<rparr>) = (buckets self)[i := take j ?b @ drop (Suc j) ?b]"
      using hash_free_raw [OF sh pl Suc.prems(2) j(1)] by blast
    define s where "s = self\<lparr>m_bucket := Some bs, m_node_count := m_node_count self - 1\<rparr>"
    have s: "hash_ok hash cmp canon s" "m_bucket_count s = m_bucket_count self"
      "buckets s = (buckets self)[i := take j ?b @ drop (Suc j) ?b]"
      using hash_free_ok [OF Suc.prems(1,2) j(1)] r by (auto simp: s_def)
    have i: "i < length (buckets s)" "j \<le> length (buckets s ! i)"
      using Suc.prems(2) j(1) by (simp_all add: s(3))
    from Suc.IH [OF s(1) i, of "ev @ hash_free_node self (?b ! j)"]
    show ?thesis using Suc.prems(2) j True at r(1) s
      by (auto simp: freeing_def tk s_def [symmetric] min_absorb2)
  qed
qed

lemma freeing_buckets_ok:
  assumes "hash_ok hash cmp canon self" "i + n = length (buckets self)"
  shows "\<exists>self' ev'. foreach_buckets (freeing P) i n self ev = Some (self', ev', 0) \<and>
    hash_ok hash cmp canon self' \<and>
    buckets self' = take i (buckets self) @ map (filter (\<lambda>n. \<not> P n)) (drop i (buckets self))"
  using assms
proof (induction n arbitrary: i self ev)
  case 0
  then show ?case by simp
next
  case (Suc n)
  have sh: "hash_shape self" using Suc.prems(1) by (simp add: hash_ok_def)
  have i: "i < length (buckets self)" using Suc.prems(2) by simp
  obtain b where b: "get_bucket self (int i) = Some b" "array_wf b" "elems b = buckets self ! i"
    using sh i by (rule get_bucket_ok)
  obtain s ev1 where s: "foreach_nodes (freeing P) (int i) (length (buckets self ! i)) self ev = Some (s, ev1, 0)"
    "hash_ok hash cmp canon s"
    "buckets s = (buckets self)[i := filter (\<lambda>n. \<not> P n) (buckets self ! i)]"
    using freeing_nodes_ok [OF Suc.prems(1) i order_refl, of P ev] by auto
  have "Suc i + n = length (buckets s)" using Suc.prems(2) s(3) by simp
  from Suc.IH [OF s(2) this, of ev1] b s(1) show ?case
    using i by (auto simp: array_count_eq s(3) take_Suc_conv_app_nth drop_update_cancel
        Cons_nth_drop_Suc [symmetric])
qed

lemma hash_foreach_freeing:
  assumes ok: "hash_ok hash cmp canon self"
  shows "\<exists>self' ev. hash_foreach (freeing P) self [] = Some (self', ev, 0) \<and>
    hash_ok hash cmp canon self' \<and> nodes self' = filter (\<lambda>n. \<not> P n) (nodes self)"
proof -
  have sh: "hash_shape self" using ok by (simp add: hash_ok_def)
  have "nat (m_bucket_count self) = length (buckets self)" using shape_length [OF sh] by simp
  moreover have "0 + length (buckets self) = length (buckets self)" by simp
  note freeing_buckets_ok [OF ok this, of P "[]"]
  ultimately show ?thesis by (auto simp: hash_foreach_def nodes_def filter_concat)
qed

end

section \<open>Writing a node's value in place\<close>

text \<open>Storing through the \<open>node_val\<close> pointer of a node.\<close>

definition node_store :: "('k, 'v) hash_t \<Rightarrow> node_ptr \<Rightarrow> 'v \<Rightarrow> ('k, 'v) hash_t option" where
  "node_store self p v =
     do {
       b \<leftarrow> get_bucket self (fst p);
       buf \<leftarrow> m_array b;
       n \<leftarrow> mem_get buf (snd p);
       buf \<leftarrow> mem_put buf (snd p) (n\<lparr>node_val := v\<rparr>);
       set_bucket self (fst p) (b\<lparr>m_array := Some buf\<rparr>)
     }"

lemma node_store_raw:
  assumes sh: "hash_shape self" and i: "i < length (buckets self)" and j: "j < length (buckets self ! i)"
  shows "\<exists>bs. node_store self (int i, int j) v = Some (self\<lparr>m_bucket := Some bs\<rparr>) \<and>
    hash_shape (self\<lparr>m_bucket := Some bs\<rparr>) \<and>
    buckets (self\<lparr>m_bucket := Some bs\<rparr>) =
      (buckets self)[i := (buckets self ! i)[j := (buckets self ! i ! j)\<lparr>node_val := v\<rparr>]]"
proof -
  obtain b where b: "get_bucket self (int i) = Some b" "array_wf b" "elems b = buckets self ! i"
    using sh i by (rule get_bucket_ok)
  then have "elems b \<noteq> []" using j by auto
  then obtain ys where arr: "m_array b = Some (elems b @ ys)" using b(2) m_array_SomeI by blast
  define n where "n = (buckets self ! i ! j)\<lparr>node_val := v\<rparr>"
  define buf where "buf = (elems b)[j := n] @ ys"
  have j': "j < length (elems b)" using j b(3) by simp
  then have put: "mem_get (elems b @ ys) (int j) = Some (buckets self ! i ! j)"
    "mem_put (elems b @ ys) (int j) n = Some buf"
    using b(3) by (simp_all add: mem_get_def mem_put_def buf_def nth_append list_update_append)
  have "length buf = length (elems b @ ys)" by (simp add: buf_def)
  from wf_replace_buf [OF b(2) arr this]
  have b2: "array_wf (b\<lparr>m_array := Some buf\<rparr>)" "elems (b\<lparr>m_array := Some buf\<rparr>) = (elems b)[j := n]"
    by (simp_all add: buf_def)
  from set_bucket_ok [OF sh i b2(1)] show ?thesis
    using b(1,3) arr put b2(2) by (auto simp: node_store_def n_def)
qed

context hash_key
begin

lemma node_store_ok:
  assumes ok: "hash_ok hash cmp canon self" and i: "i < length (buckets self)"
    and j: "j < length (buckets self ! i)"
  shows "\<exists>self'. node_store self (int i, int j) v = Some self' \<and> hash_ok hash cmp canon self' \<and>
    m_node_count self' = m_node_count self \<and>
    hash_map canon self' = (hash_map canon self)(canon (node_key (buckets self ! i ! j)) \<mapsto> v)"
proof -
  let ?n = "buckets self ! i ! j"
  let ?n' = "?n\<lparr>node_val := v\<rparr>"
  let ?xs = "buckets self ! i"
  have sh: "hash_shape self" and pl: "placed (buckets self)"
    and nh: "\<forall>n\<in>set (nodes self). node_hash n = hash (node_key n)"
    and d: "distinct (node_keys canon (nodes self))"
    using ok by (simp_all add: hash_ok_def)
  obtain bs0 where s0: "buckets (self\<lparr>m_bucket := Some bs0\<rparr>) = (buckets self)[i := take j ?xs @ drop (Suc j) ?xs]"
    using hash_free_raw [OF sh pl i j] by blast
  define s where "s = self\<lparr>m_bucket := Some bs0\<rparr>"
  have m0: "add_mset ?n (mset (nodes s)) = mset (nodes self)"
    using mset_remove_nth [OF i j] s0 by (simp add: nodes_def s_def)
  note rem = hash_map_remove [where canon = canon, OF m0 d]
  obtain bs where r: "node_store self (int i, int j) v = Some (self\<lparr>m_bucket := Some bs\<rparr>)"
    "hash_shape (self\<lparr>m_bucket := Some bs\<rparr>)"
    "buckets (self\<lparr>m_bucket := Some bs\<rparr>) = (buckets self)[i := ?xs[j := ?n']]"
    using node_store_raw [OF sh i j] by blast
  define s' where "s' = self\<lparr>m_bucket := Some bs\<rparr>"
  have up: "mset (?xs[j := ?n']) + {#?n#} = mset ?xs + {#?n'#}"
    using j by (simp add: mset_update [OF j])
  have "(mset (nodes s') + {#?n#}) + mset ?xs = (mset (nodes s') + mset ?xs) + {#?n#}" by simp
  also have "mset (nodes s') + mset ?xs = mset (nodes self) + mset (?xs[j := ?n'])"
    unfolding nodes_def s'_def r(3) by (rule mset_concat_update [OF i])
  also have "mset (nodes self) + mset (?xs[j := ?n']) + {#?n#} = (mset (nodes self) + {#?n'#}) + mset ?xs"
    unfolding union_assoc up by simp
  finally have "add_mset ?n (mset (nodes s')) = add_mset ?n' (mset (nodes self))" by simp
  then have m: "mset (nodes s') = add_mset ?n' (mset (nodes s))"
    unfolding m0 [symmetric] add_mset_commute [of ?n'] by simp
  have "canon (node_key ?n') \<notin> set (node_keys canon (nodes s))" using rem(3) by simp
  note add = hash_map_add [where canon = canon, OF m rem(1) this]
  have "placed (buckets s')" unfolding s'_def r(3)
    using pl i j by (intro placed_update) (auto simp: placed_def dest!: set_update_subset_insert [THEN subsetD])
  moreover have "set (nodes s') \<subseteq> insert ?n' (set (nodes self))"
    using arg_cong [OF m, of set_mset] arg_cong [OF m0, of set_mset] by auto
  then have "\<forall>n\<in>set (nodes s'). node_hash n = hash (node_key n)"
    using nh nth_in_nodes [OF i j] by auto
  moreover have "length (nodes s') = length (nodes self)"
    using arg_cong [OF m, of size] arg_cong [OF m0, of size] by simp
  ultimately have "hash_ok hash cmp canon s'"
    using ok r(2) add(1) by (simp add: hash_ok_def s'_def)
  moreover have "hash_map canon s' = (hash_map canon self)(canon (node_key ?n) \<mapsto> v)"
    using add(2) rem(2) by simp
  ultimately show ?thesis using r(1) by (auto simp: s'_def)
qed

end

section \<open>The library's key functions meet the contract\<close>

interpretation int_key: hash_key hash_hash_int hash_cmp_int id
  by unfold_locales (auto simp: hash_hash_int_def hash_cmp_int_def to_i32_def)

lemma strdiff_zero: "0 \<notin> set xs \<Longrightarrow> 0 \<notin> set ys \<Longrightarrow> strdiff xs ys = 0 \<longleftrightarrow> xs = ys"
  by (induction xs ys rule: strdiff.induct) (auto simp: uint_0_iff dest: word_uint_eqI)

lemma cstr_nonzero: "0 \<notin> set (cstr s)"
  by (auto simp: cstr_def dest: set_takeWhileD)

interpretation str_key: hash_key hash_hash_str hash_cmp_str cstr
  by unfold_locales
    (auto simp: hash_hash_str_def hash_cmp_str_def strdiff_zero cstr_nonzero)

lemma tolower_zero: "tolower c = 0 \<longleftrightarrow> c = 0"
proof -
  have "65 \<le> c \<Longrightarrow> c \<le> 90 \<Longrightarrow> c + 32 \<noteq> 0"
    by (auto simp: word_le_nat_alt unat_eq_0 [symmetric] unat_plus_if' split: if_splits)
  then show ?thesis by (auto simp: tolower_def)
qed

lemma elf_nocase_tolower:
  "hash_str_elf_nocase s h True = hash_str_elf_nocase (map tolower s) h False"
  by (induction s arbitrary: h) (simp_all add: Let_def)

lemma lower_nonzero: "0 \<notin> set (map tolower (cstr s))"
  using cstr_nonzero [of s] tolower_zero by auto

interpretation nocase_key: hash_key hash_hash_str_nocase hash_cmp_str_nocase
    "\<lambda>s. map tolower (cstr s)"
  by unfold_locales
    (auto simp: hash_hash_str_nocase_def hash_cmp_str_nocase_def elf_nocase_tolower
      strdiff_zero [OF lower_nonzero lower_nonzero])

section \<open>Properties\<close>

text \<open>\<open>hash_clear\<close>: the destructors of all nodes, in traversal order, and an empty table.\<close>

lemma visit_events: "visit (\<lambda>n ev. (ev @ g n, 0)) ns ev = (ev @ concat (map g ns), 0)"
  by (induction ns arbitrary: ev) auto

lemma hash_clear_eq:
  assumes "hash_shape self"
  shows "hash_clear self = Some (hash_zero (m_hash self) (m_cmp self),
    concat (map (hash_free_node self) (foreach_order self)))"
proof -
  have sh: "hash_foreach_free_node p = reader (\<lambda>n ev. (ev @ hash_free_node p n, 0)) p"
    for p :: "('a, 'b) hash_t"
    by (auto simp: fun_eq_iff foreach_free_reader)
  have "foreach_nodes hash_foreach_free_node i j self ev =
      foreach_nodes (reader (\<lambda>n ev. (ev @ hash_free_node self n, 0))) i j self ev" for i j ev
    by (induction j arbitrary: ev) (auto simp: foreach_free_reader reader_def split: bind_split)
  then have "foreach_buckets hash_foreach_free_node i n self ev =
      foreach_buckets (reader (\<lambda>n ev. (ev @ hash_free_node self n, 0))) i n self ev" for i n ev
    by (induction n arbitrary: i ev)
      (auto simp: reader_def split: bind_split dest: foreach_nodes_reader_keeps)
  then show ?thesis
    using hash_foreach_reader [OF assms, of "\<lambda>n ev. (ev @ hash_free_node self n, 0)" "[]"]
    by (simp add: hash_clear_def hash_foreach_def visit_events)
qed

abbreviation str_zero :: "(byte list, nat) hash_node" where
  "str_zero \<equiv> \<lparr>node_key = [], node_val = 0, node_hash = 0\<rparr>"



text \<open>
  A table with integer keys distinguishes all 64-bit keys: a lookup after any history returns
  the value last put under exactly that key, although the comparison function truncates its result.
\<close>

theorem hash_int_history:
  fixes z :: "(u64, 'v) hash_node"
  assumes "0 \<le> ks" "0 \<le> vs" "n < 2 ^ 30" "length ops \<le> 3 * 2 ^ 29"
  shows "\<exists>self self'. hash_init z hash_hash_int hash_cmp_int ks vs n = Some self \<and>
    hash_run z ops self = Some self' \<and>
    (\<forall>key. hash_get_val self' key = Some (dict_run id ops Map.empty key))"
  using int_key.history_spec [OF assms, of z] by fastforce

theorem hash_int_history_witness:
  "\<exists>self self'. hash_init \<lparr>node_key = 0, node_val = 0, node_hash = 0\<rparr> hash_hash_int hash_cmp_int 0 0 1
      = Some self \<and>
    hash_run \<lparr>node_key = 0, node_val = 0, node_hash = 0\<rparr> [Put 1 (7 :: nat), Put 0x100000001 8] self
      = Some self' \<and>
    hash_get_val self' 1 = Some (Some 7) \<and> hash_cmp_int 1 0x100000001 = 0"
  using hash_int_history [of 0 0 1 "[Put 1 7, Put 0x100000001 8]"
      "\<lparr>node_key = 0, node_val = 0 :: nat, node_hash = 0\<rparr>"]
  by (auto simp: hash_cmp_int_def to_i32_def)

text \<open>
  Resizing is invisible to lookups: whatever the new bucket count, every key has the value it
  had, and the invariant of the table holds again.
\<close>

theorem hash_resize_transparent:
  assumes "hash_ok hash_hash_str_nocase hash_cmp_str_nocase (\<lambda>s. map tolower (cstr s)) self"
    "0 < n" "n < 2 ^ 30"
  shows "\<exists>self'. hash_resize z self n = Some self' \<and> m_bucket_count self' = n \<and>
    hash_ok hash_hash_str_nocase hash_cmp_str_nocase (\<lambda>s. map tolower (cstr s)) self' \<and>
    (\<forall>key. hash_get_val self' key = hash_get_val self key)"
  using nocase_key.hash_resize_map [OF assms, of z] assms(1)
  by (auto simp: nocase_key.hash_get_val_spec)

theorem hash_resize_transparent_witness:
  "\<exists>self self' self''. hash_init str_zero hash_hash_str_nocase hash_cmp_str_nocase 0 0 17 = Some self \<and>
    hash_run str_zero [Put [65] 1] self = Some self' \<and> hash_resize str_zero self' 3 = Some self'' \<and>
    hash_get_val self'' [97] = Some (Some 1)"
proof -
  obtain self self' where s: "hash_init str_zero hash_hash_str_nocase hash_cmp_str_nocase 0 0 17 = Some self"
    "hash_run str_zero [Put [65] 1] self = Some self'"
    "hash_ok hash_hash_str_nocase hash_cmp_str_nocase (\<lambda>s. map tolower (cstr s)) self'"
    "hash_get_val self' [97] = Some (Some 1)"
    using nocase_key.history_spec [of 0 0 17 "[Put [65] 1]" str_zero]
    by (auto simp: cstr_def tolower_def)
  show ?thesis using hash_resize_transparent [OF s(3), of 3 str_zero] s by auto
qed

text \<open>
  The next table size exceeds the old one and is one more than a power of two, the least above
  the old size, for every size a 32-bit counter can double.
\<close>

theorem hash_resize_next_size:
  assumes "0 \<le> b" "b < 2 ^ 30"
  shows "b < hash_resize_next b \<and> (\<exists>n \<le> 30. hash_resize_next b = 2 ^ n + 1 \<and> (\<forall>j<n. 2 ^ j \<le> b))"
  using hash_resize_next_pow [OF assms] by force

theorem hash_resize_next_size_witness:
  "17 < hash_resize_next 17 \<and> (\<exists>n \<le> 30. hash_resize_next 17 = 2 ^ n + 1 \<and> (\<forall>j<n. 2 ^ j \<le> (17 :: int)))"
  using hash_resize_next_size [of 17] by simp

text \<open>
  A traversal whose callback only reads visits every node exactly once, in a fixed order, until
  the callback returns nonzero, and returns that value.
\<close>

theorem hash_foreach_visits:
  assumes "hash_shape self"
  shows "hash_foreach (reader f) self arg = Some (self, visit f (foreach_order self) arg) \<and>
    mset (foreach_order self) = mset (nodes self)"
  using hash_foreach_reader [OF assms, of f arg] foreach_order_mset [of self] by simp

theorem hash_foreach_visits_witness:
  "\<exists>self. hash_init str_zero hash_hash_str hash_cmp_str 0 0 2 = Some self \<and>
    hash_foreach (reader (\<lambda>n (s :: nat). (s + node_val n, 0))) self 4 = Some (self, 4, 0)"
proof -
  obtain self where s: "hash_init str_zero hash_hash_str hash_cmp_str 0 0 2 = Some self"
    "hash_ok hash_hash_str hash_cmp_str cstr self" "m_node_count self = 0"
    using str_key.hash_init_ok [of 0 0 2 str_zero] by auto
  then have sh: "hash_shape self" "nodes self = []" by (simp_all add: hash_ok_def)
  with hash_foreach_visits [OF sh(1), of "\<lambda>n s. (s + node_val n, 0)" 4] s(1) show ?thesis by auto
qed

text \<open>
  A traversal whose callback frees some of the nodes it is given keeps the table well formed and
  leaves exactly the other nodes.
\<close>

theorem hash_foreach_deletes:
  assumes "hash_ok hash_hash_int hash_cmp_int id self"
  shows "\<exists>self' ev. hash_foreach (freeing P) self [] = Some (self', ev, 0) \<and>
    hash_ok hash_hash_int hash_cmp_int id self' \<and> nodes self' = filter (\<lambda>n. \<not> P n) (nodes self)"
  using assms by (rule int_key.hash_foreach_freeing)

theorem hash_foreach_deletes_witness:
  "\<exists>self self' ev. hash_init \<lparr>node_key = 0, node_val = 0 :: nat, node_hash = 0\<rparr> hash_hash_int hash_cmp_int 0 0 9
      = Some self \<and> hash_foreach (freeing (\<lambda>n. node_key n < 5)) self [] = Some (self', ev, 0) \<and> nodes self' = []"
proof -
  obtain self where s: "hash_init \<lparr>node_key = 0, node_val = 0 :: nat, node_hash = 0\<rparr>
      hash_hash_int hash_cmp_int 0 0 9 = Some self"
    "hash_ok hash_hash_int hash_cmp_int id self" "m_node_count self = 0"
    using int_key.hash_init_ok [of 0 0 9] by fastforce
  then have "nodes self = []" by (simp add: hash_ok_def)
  with hash_foreach_deletes [OF s(2), of "\<lambda>n. node_key n < 5"] s(1) show ?thesis by auto
qed

text \<open>
  Clearing a table calls the registered destructors for every node exactly once, key before
  value, and leaves an empty table.
\<close>

theorem hash_clear_frees_all:
  assumes "hash_shape self"
  shows "\<exists>ev. hash_clear self = Some (hash_zero (m_hash self) (m_cmp self), ev) \<and>
    mset ev = (\<Sum>n\<in>#mset (nodes self). mset (hash_free_node self n))"
proof -
  have "mset (concat (map g ns)) = (\<Sum>n\<in>#mset ns. mset (g n))"
    for g :: "('a, 'b) hash_node \<Rightarrow> ('a, 'b) hash_event list" and ns
    by (induction ns) auto
  then show ?thesis
    by (simp add: hash_clear_eq [OF assms] foreach_order_mset)
qed

theorem hash_clear_frees_all_witness:
  "\<exists>self. hash_init str_zero hash_hash_str hash_cmp_str 0 0 2 = Some self \<and>
    (\<exists>s. hash_clear self = Some (s, []))"
proof -
  obtain self where s: "hash_init str_zero hash_hash_str hash_cmp_str 0 0 2 = Some self"
    "hash_ok hash_hash_str hash_cmp_str cstr self" "m_node_count self = 0"
    using str_key.hash_init_ok [of 0 0 2 str_zero] by auto
  then have sh: "hash_shape self" "nodes self = []" by (simp_all add: hash_ok_def)
  with hash_clear_frees_all [OF sh(1)] s(1) show ?thesis by auto
qed

end
