(* ===== verification/Memutil.thy ===== *)
theory Memutil
  imports Prelude
begin

text \<open>
  \<open>memutil.c\<close>: comparing, searching and filling byte buffers. Not modelled: \<open>memdump\<close> and
  \<open>memdump_row\<close>, which only format a dump for the log.
\<close>

section \<open>Comparing\<close>

text \<open>The scan of \<open>memdiff\<close>: \<open>k\<close> bytes are left, the position is \<open>na - k\<close>.\<close>

fun memdiff_loop :: "byte list \<Rightarrow> byte list \<Rightarrow> nat \<Rightarrow> int \<Rightarrow> int option" where
  "memdiff_loop pa pb 0 i = Some (- 1)"
| "memdiff_loop pa pb (Suc k) i =
     do {
       a \<leftarrow> mem_get pa i;
       b \<leftarrow> mem_get pb i;
       if a \<noteq> b then Some i else memdiff_loop pa pb k (i + 1)
     }"

definition memdiff :: "byte list option \<Rightarrow> int \<Rightarrow> byte list option \<Rightarrow> int \<Rightarrow> int option" where
  "memdiff va na vb nb =
     (if na < nb then Some na
      else if nb < na then Some nb
      else case (va, vb) of
          (None, None) \<Rightarrow> Some (- 1)
        | (Some pa, Some pb) \<Rightarrow> memdiff_loop pa pb (nat na) 0
        | _ \<Rightarrow> Some 0)"

lemma memdiff_loop_spec:
  assumes "i + k \<le> length pa" "i + k \<le> length pb"
  shows "\<exists>r. memdiff_loop pa pb k (int i) = Some r \<and>
    (r = - 1 \<and> (\<forall>j. i \<le> j \<and> j < i + k \<longrightarrow> pa ! j = pb ! j) \<or>
     (\<exists>j. r = int j \<and> i \<le> j \<and> j < i + k \<and> pa ! j \<noteq> pb ! j \<and>
        (\<forall>m. i \<le> m \<and> m < j \<longrightarrow> pa ! m = pb ! m)))"
  using assms
proof (induction k arbitrary: i)
  case (Suc k)
  have at: "mem_get pa (int i) = Some (pa ! i)" "mem_get pb (int i) = Some (pb ! i)"
    using Suc.prems by (simp_all add: mem_get_def)
  show ?case
  proof (cases "pa ! i = pb ! i")
    case False
    with at show ?thesis by (auto intro!: exI [of _ i])
  next
    case True
    have "Suc i + k \<le> length pa" "Suc i + k \<le> length pb" using Suc.prems by simp_all
    from Suc.IH [OF this] obtain r where r: "memdiff_loop pa pb k (int (Suc i)) = Some r"
      "r = - 1 \<and> (\<forall>j. Suc i \<le> j \<and> j < Suc i + k \<longrightarrow> pa ! j = pb ! j) \<or>
       (\<exists>j. r = int j \<and> Suc i \<le> j \<and> j < Suc i + k \<and> pa ! j \<noteq> pb ! j \<and>
        (\<forall>m. Suc i \<le> m \<and> m < j \<longrightarrow> pa ! m = pb ! m))" by blast
    have step: "memdiff_loop pa pb (Suc k) (int i) = Some r"
      using at True r(1) by (simp add: add.commute)
    have eq: "pa ! j = pb ! j" if "i \<le> j" "Suc i \<le> j \<longrightarrow> pa ! j = pb ! j" for j
      using that True by (cases "j = i") auto
    from r(2) show ?thesis
    proof
      assume "r = - 1 \<and> (\<forall>j. Suc i \<le> j \<and> j < Suc i + k \<longrightarrow> pa ! j = pb ! j)"
      then have h: "r = - 1" "\<And>j. Suc i \<le> j \<Longrightarrow> j < Suc i + k \<Longrightarrow> pa ! j = pb ! j" by simp_all
      have "\<forall>j. i \<le> j \<and> j < i + Suc k \<longrightarrow> pa ! j = pb ! j"
        by (intro allI impI, rule eq) (auto intro: h(2))
      with step h(1) show ?thesis by blast
    next
      assume "\<exists>j. r = int j \<and> Suc i \<le> j \<and> j < Suc i + k \<and> pa ! j \<noteq> pb ! j \<and>
        (\<forall>m. Suc i \<le> m \<and> m < j \<longrightarrow> pa ! m = pb ! m)"
      then obtain j where "r = int j" "Suc i \<le> j" "j < Suc i + k" "pa ! j \<noteq> pb ! j"
        "\<forall>m. Suc i \<le> m \<and> m < j \<longrightarrow> pa ! m = pb ! m" by blast
      moreover from this have "\<forall>m. i \<le> m \<and> m < j \<longrightarrow> pa ! m = pb ! m" using eq by blast
      ultimately show ?thesis using step by (intro exI [of _ r] conjI disjI2 exI [of _ j]) simp_all
    qed
  qed
qed auto

section \<open>Searching\<close>

text \<open>The C library's \<open>memchr\<close>: the position of the first \<open>c\<close> among \<open>len\<close> bytes from \<open>p\<close>.\<close>

definition memchr :: "byte list \<Rightarrow> int \<Rightarrow> byte \<Rightarrow> int \<Rightarrow> int option option" where
  "memchr buf p c len =
     do {
       xs \<leftarrow> slice buf p len;
       let k = length (takeWhile (\<lambda>x. x \<noteq> c) xs)
       in Some (if k < length xs then Some (p + int k) else None)
     }"

lemma memchr_bounds: "memchr buf p c len = Some (Some q) \<Longrightarrow> p \<le> q \<and> q < p + len \<and> 0 \<le> p"
  by (auto simp: memchr_def slice_def Let_def split: if_splits)

function memfind_loop ::
    "byte list \<Rightarrow> int \<Rightarrow> int \<Rightarrow> byte list \<Rightarrow> int \<Rightarrow> int option option" where
  "memfind_loop hay p len needle nl =
     (if len \<ge> nl then
        do {
          c \<leftarrow> mem_get needle 0;
          q \<leftarrow> memchr hay p c len;
          case q of None \<Rightarrow> Some None
          | Some q \<Rightarrow>
              if len - (q - p) < nl then Some None
              else do {
                a \<leftarrow> slice hay q nl;
                b \<leftarrow> slice needle 0 nl;
                if a = b then Some (Some q)
                else memfind_loop hay (q + 1) (len - (q - p) - 1) needle nl
              }
        }
      else Some None)"
  by pat_completeness auto
termination
  by (relation "measure (\<lambda>(h, p, len, n, nl). nat len)") (auto dest!: memchr_bounds)

declare memfind_loop.simps [simp del]

definition memfind :: "byte list \<Rightarrow> int \<Rightarrow> byte list \<Rightarrow> int \<Rightarrow> int option option" where
  "memfind haystack hay_len needle needle_len =
     memfind_loop haystack 0 hay_len needle needle_len"

text \<open>The needle occurs at position \<open>q\<close>.\<close>

definition occurs_at :: "byte list \<Rightarrow> byte list \<Rightarrow> nat \<Rightarrow> bool" where
  "occurs_at hay needle q \<longleftrightarrow> q + length needle \<le> length hay \<and> take (length needle) (drop q hay) = needle"

lemma occurs_at_first: "needle \<noteq> [] \<Longrightarrow> occurs_at hay needle q \<Longrightarrow> q < length hay \<and> hay ! q = hd needle"
proof -
  assume n: "needle \<noteq> []" and o: "occurs_at hay needle q"
  then have q: "q < length hay" by (cases needle) (auto simp: occurs_at_def)
  have "hd (take (length needle) (drop q hay)) = hay ! q"
    using n q by (cases needle) (simp_all add: hd_drop_conv_nth)
  with o q show ?thesis by (simp add: occurs_at_def)
qed

lemma memchr_ok:
  assumes "p \<le> length hay"
  shows "\<exists>r. memchr hay (int p) c (int (length hay - p)) = Some r \<and>
    (case r of None \<Rightarrow> \<forall>j. p \<le> j \<and> j < length hay \<longrightarrow> hay ! j \<noteq> c
     | Some q \<Rightarrow> \<exists>k. q = int k \<and> p \<le> k \<and> k < length hay \<and> hay ! k = c \<and>
         (\<forall>j. p \<le> j \<and> j < k \<longrightarrow> hay ! j \<noteq> c))"
proof -
  define xs where "xs = drop p hay"
  define k where "k = length (takeWhile (\<lambda>x. x \<noteq> c) xs)"
  have sl: "slice hay (int p) (int (length hay - p)) = Some xs"
    using assms by (simp add: slice_def xs_def of_nat_diff)
  have at: "hay ! (p + j) = xs ! j" if "j < length xs" for j
    using that assms by (simp add: xs_def)
  have before: "xs ! j \<noteq> c" if "j < k" for j
  proof -
    have "takeWhile (\<lambda>x. x \<noteq> c) xs ! j \<in> set (takeWhile (\<lambda>x. x \<noteq> c) xs)"
      using that by (simp add: k_def)
    moreover have "takeWhile (\<lambda>x. x \<noteq> c) xs ! j = xs ! j"
      using that by (simp add: k_def takeWhile_nth)
    ultimately show ?thesis by (auto dest: set_takeWhileD)
  qed
  have less: "j - p < length xs \<and> hay ! j = xs ! (j - p)" if "p \<le> j" "j < length hay" for j
    using that by (simp add: xs_def)
  show ?thesis
  proof (cases "k < length xs")
    case True
    then have "xs ! k = c" unfolding k_def using nth_length_takeWhile [of "\<lambda>x. x \<noteq> c" xs] by simp
    moreover have "p + k < length hay" using True by (simp add: xs_def)
    moreover have "\<forall>j. p \<le> j \<and> j < p + k \<longrightarrow> hay ! j \<noteq> c"
    proof (intro allI impI)
      fix j assume j: "p \<le> j \<and> j < p + k"
      then have "j < length hay" "j - p < k" using \<open>p + k < length hay\<close> by arith+
      then have "hay ! j = xs ! (j - p)" "j - p < k" using less [of j] j by blast+
      then show "hay ! j \<noteq> c" using before by simp
    qed
    ultimately show ?thesis using sl at True
      by (intro exI [of _ "Some (int (p + k))"] conjI)
        (simp add: memchr_def k_def [symmetric] Let_def, auto intro!: exI [of _ "p + k"])
  next
    case False
    then have "k = length xs" unfolding k_def by (metis le_neq_implies_less length_takeWhile_le)
    then have "\<forall>j. p \<le> j \<and> j < length hay \<longrightarrow> hay ! j \<noteq> c" using before less by metis
    with sl False show ?thesis by (simp add: memchr_def k_def [symmetric] Let_def)
  qed
qed

lemma memfind_loop_spec:
  assumes ne: "needle \<noteq> []" and p: "p \<le> length hay"
  shows "\<exists>r. memfind_loop hay (int p) (int (length hay - p)) needle (int (length needle)) = Some r \<and>
    (case r of None \<Rightarrow> \<forall>j \<ge> p. \<not> occurs_at hay needle j
     | Some q \<Rightarrow> \<exists>k \<ge> p. q = int k \<and> occurs_at hay needle k \<and>
         (\<forall>j. p \<le> j \<and> j < k \<longrightarrow> \<not> occurs_at hay needle j))"
  using p
proof (induction "length hay - p" arbitrary: p rule: less_induct)
  case less
  let ?n = "length needle"
  note unfold = memfind_loop.simps [of hay "int p" "int (length hay - p)" needle "int ?n"]
  have c0: "mem_get needle 0 = Some (hd needle)" using ne by (simp add: mem_get_def hd_conv_nth)
  have no_occ: "\<not> occurs_at hay needle j" if "length hay - k < ?n" "k \<le> j" for j k
    using that ne by (auto simp: occurs_at_def)
  obtain r where r: "memchr hay (int p) (hd needle) (int (length hay - p)) = Some r"
    "case r of None \<Rightarrow> \<forall>j. p \<le> j \<and> j < length hay \<longrightarrow> hay ! j \<noteq> hd needle
     | Some q \<Rightarrow> \<exists>k. q = int k \<and> p \<le> k \<and> k < length hay \<and> hay ! k = hd needle \<and>
         (\<forall>j. p \<le> j \<and> j < k \<longrightarrow> hay ! j \<noteq> hd needle)"
    using memchr_ok [OF less.prems] by blast
  show ?case
  proof (cases "length hay - p < ?n")
    case True
    then have "\<not> occurs_at hay needle j" if "p \<le> j" for j using no_occ that by blast
    with True show ?thesis by (simp add: unfold)
  next
    case long: False
    show ?thesis
    proof (cases r)
      case None
      then have "\<forall>j \<ge> p. \<not> occurs_at hay needle j" using r(2) occurs_at_first [OF ne] by auto
      with None r(1) c0 long show ?thesis by (simp add: unfold)
    next
      case (Some q)
      with r(2) obtain k where k: "q = int k" "p \<le> k" "k < length hay"
        "\<forall>j. p \<le> j \<and> j < k \<longrightarrow> hay ! j \<noteq> hd needle" by auto
      have skip: "\<forall>j. p \<le> j \<and> j < k \<longrightarrow> \<not> occurs_at hay needle j"
        using k(4) occurs_at_first [OF ne] by blast
      have l: "int (length hay - p) - (int k - int p) = int (length hay - k)" using k(2,3) by simp
      show ?thesis
      proof (cases "length hay - k < ?n")
        case True
        have "\<forall>j \<ge> p. \<not> occurs_at hay needle j" using skip no_occ [OF True] by (metis not_le)
        moreover have c: "int ?n \<le> int (length hay - p)" "int (length hay - p) - (q - int p) < int ?n"
          unfolding k(1) l using True long by simp_all
        have "memfind_loop hay (int p) (int (length hay - p)) needle (int ?n) = Some None"
          unfolding unfold by (simp add: c0 r(1) Some c del: of_nat_diff)
        ultimately show ?thesis by simp
      next
        case False
        have sl: "slice hay q (int ?n) = Some (take ?n (drop k hay))"
          "slice needle 0 (int ?n) = Some needle"
          using False k(1,3) by (simp_all add: slice_def)
        have c: "int ?n \<le> int (length hay - p)" "\<not> int (length hay - p) - (q - int p) < int ?n"
          unfolding k(1) l using False long by simp_all
        have step: "memfind_loop hay (int p) (int (length hay - p)) needle (int ?n) =
            (if take ?n (drop k hay) = needle then Some (Some q)
             else memfind_loop hay (q + 1) (int (length hay - p) - (q - int p) - 1) needle (int ?n))"
          unfolding unfold using long by (simp add: c0 r(1) Some c sl del: of_nat_diff)
        show ?thesis
        proof (cases "take ?n (drop k hay) = needle")
          case True
          then have "occurs_at hay needle k" using False k(3) by (simp add: occurs_at_def)
          with step True k(1,2) skip show ?thesis
            by (intro exI [of _ "Some q"]) auto
        next
          case ne': False
          then have nk: "\<not> occurs_at hay needle k" by (simp add: occurs_at_def)
          have m: "length hay - Suc k < length hay - p" "Suc k \<le> length hay" using k(2,3) by simp_all
          obtain r' where r': "memfind_loop hay (int (Suc k)) (int (length hay - Suc k)) needle (int ?n) = Some r'"
            "case r' of None \<Rightarrow> \<forall>j \<ge> Suc k. \<not> occurs_at hay needle j
             | Some q \<Rightarrow> \<exists>m \<ge> Suc k. q = int m \<and> occurs_at hay needle m \<and>
                (\<forall>j. Suc k \<le> j \<and> j < m \<longrightarrow> \<not> occurs_at hay needle j)"
            using less.hyps [OF m] by blast
          have all: "\<not> occurs_at hay needle j" if "p \<le> j" "Suc k \<le> j \<longrightarrow> \<not> occurs_at hay needle j" for j
            using that skip nk by (metis Suc_leI le_neq_implies_less not_le)
          have eq: "memfind_loop hay (int p) (int (length hay - p)) needle (int ?n) = Some r'"
          proof -
            have "q + 1 = int (Suc k)" "int (length hay - p) - (q - int p) - 1 = int (length hay - Suc k)"
              using k(1,3) l by simp_all
            with step ne' r'(1) show ?thesis by simp
          qed
          show ?thesis
          proof (cases r')
            case None
            with eq r'(2) all show ?thesis by auto
          next
            case (Some q')
            with r'(2) obtain m where m: "Suc k \<le> m" "q' = int m" "occurs_at hay needle m"
              "\<forall>j. Suc k \<le> j \<and> j < m \<longrightarrow> \<not> occurs_at hay needle j" by auto
            then have "\<forall>j. p \<le> j \<and> j < m \<longrightarrow> \<not> occurs_at hay needle j" using all by blast
            with eq Some m k(2) show ?thesis by auto
          qed
        qed
      qed
    qed
  qed
qed

section \<open>Packing\<close>

definition mem_pack_4 :: "byte list \<Rightarrow> int \<Rightarrow> byte \<Rightarrow> byte \<Rightarrow> byte \<Rightarrow> byte \<Rightarrow> byte list option" where
  "mem_pack_4 buf p a1 a2 a3 a4 = blit buf p [a1, a2, a3, a4]"

definition mem_pack_6 ::
    "byte list \<Rightarrow> int \<Rightarrow> byte \<Rightarrow> byte \<Rightarrow> byte \<Rightarrow> byte \<Rightarrow> byte \<Rightarrow> byte \<Rightarrow> byte list option" where
  "mem_pack_6 buf p a1 a2 a3 a4 a5 a6 = blit buf p [a1, a2, a3, a4, a5, a6]"

section \<open>Properties\<close>

text \<open>
  On buffers of the same length \<open>memdiff\<close> returns the first position at which they differ, or
  -1 when they are equal, and reads no byte outside them.
\<close>

theorem memdiff_first:
  assumes "length a = length b"
  shows "\<exists>r. memdiff (Some a) (int (length a)) (Some b) (int (length b)) = Some r \<and>
    (r = - 1 \<longleftrightarrow> a = b) \<and>
    (r \<noteq> - 1 \<longrightarrow> (\<exists>j < length a. r = int j \<and> a ! j \<noteq> b ! j \<and> take j a = take j b))"
proof -
  obtain r where r: "memdiff_loop a b (length a) 0 = Some r"
    "r = - 1 \<and> (\<forall>j. j < length a \<longrightarrow> a ! j = b ! j) \<or>
     (\<exists>j. r = int j \<and> j < length a \<and> a ! j \<noteq> b ! j \<and> (\<forall>m. m < j \<longrightarrow> a ! m = b ! m))"
    using memdiff_loop_spec [of 0 "length a" a b] assms by auto
  from r(2) show ?thesis
  proof
    assume "r = - 1 \<and> (\<forall>j. j < length a \<longrightarrow> a ! j = b ! j)"
    then have "r = - 1" "a = b" using assms by (auto intro: nth_equalityI)
    with r(1) assms show ?thesis by (simp add: memdiff_def)
  next
    assume "\<exists>j. r = int j \<and> j < length a \<and> a ! j \<noteq> b ! j \<and> (\<forall>m. m < j \<longrightarrow> a ! m = b ! m)"
    then obtain j where j: "r = int j" "j < length a" "a ! j \<noteq> b ! j" "\<forall>m < j. a ! m = b ! m" by blast
    have "take j a = take j b" using j(2,4) assms by (intro nth_take_lemma) auto
    with j r(1) assms show ?thesis by (auto simp: memdiff_def)
  qed
qed

theorem memdiff_first_witness:
  "memdiff (Some [1, 2, 3]) 3 (Some [1, 9, 3]) 3 = Some 1 \<and>
   (\<exists>r. memdiff (Some [1, 2, 3]) 3 (Some [1, 9, 3]) 3 = Some r \<and> r \<noteq> - 1)"
  using memdiff_first [of "[1, 2, 3]" "[1, 9, 3]"]
  by (simp add: memdiff_def mem_get_def numeral_3_eq_3)

text \<open>
  \<open>memfind\<close> terminates, stays inside both buffers and returns the first occurrence of a nonempty
  needle, or the null pointer when there is none.
\<close>

theorem memfind_first:
  assumes "needle \<noteq> []"
  shows "\<exists>r. memfind hay (int (length hay)) needle (int (length needle)) = Some r \<and>
    (case r of None \<Rightarrow> \<forall>j. \<not> occurs_at hay needle j
     | Some q \<Rightarrow> \<exists>k. q = int k \<and> occurs_at hay needle k \<and> (\<forall>j < k. \<not> occurs_at hay needle j))"
proof -
  obtain r where "memfind_loop hay 0 (int (length hay)) needle (int (length needle)) = Some r"
    "case r of None \<Rightarrow> \<forall>j \<ge> 0. \<not> occurs_at hay needle j
     | Some q \<Rightarrow> \<exists>k \<ge> 0. q = int k \<and> occurs_at hay needle k \<and>
         (\<forall>j. 0 \<le> j \<and> j < k \<longrightarrow> \<not> occurs_at hay needle j)"
    using memfind_loop_spec [OF assms, of 0 hay] by auto
  then show ?thesis by (intro exI [of _ r]) (simp add: memfind_def split: option.splits)
qed

theorem memfind_first_witness:
  "\<exists>k. memfind [1, 1, 2, 1, 2] 5 [1, 2] 2 = Some (Some (int k)) \<and> occurs_at [1, 1, 2, 1, 2] [1, 2] k"
proof -
  have "occurs_at [1, 1, 2, 1, 2] [1, 2 :: byte] 1" by (simp add: occurs_at_def)
  with memfind_first [of "[1, 2]" "[1, 1, 2, 1, 2]"] show ?thesis by (auto split: option.splits)
qed

end
