(* ===== verification/LList.thy ===== *)
theory LList
  imports Prelude
begin

text \<open>
  \<open>llist.h\<close>: the intrusive doubly linked list. Nodes live in a heap, a partial map from addresses to
  nodes; a pointer is an optional address. The list header is itself part of the heap: its \<open>head\<close>
  node is the sentinel at address \<open>head_at\<close>. An access through a null or dangling pointer is \<open>None\<close>.
\<close>

type_synonym addr = nat
type_synonym ptr = "addr option"

record lnode_t =
  next_p :: ptr
  prev_p :: ptr

type_synonym lheap = "addr \<rightharpoonup> lnode_t"

record llist_t =
  head_at :: addr
  tail_p :: ptr

definition set_next :: "lheap \<Rightarrow> addr \<Rightarrow> ptr \<Rightarrow> lheap option" where
  "set_next h a p = do { n \<leftarrow> h a; Some (h(a \<mapsto> n\<lparr>next_p := p\<rparr>)) }"

definition set_prev :: "lheap \<Rightarrow> addr \<Rightarrow> ptr \<Rightarrow> lheap option" where
  "set_prev h a p = do { n \<leftarrow> h a; Some (h(a \<mapsto> n\<lparr>prev_p := p\<rparr>)) }"

definition llist_init :: "lheap \<Rightarrow> addr \<Rightarrow> lheap \<times> llist_t" where
  "llist_init h a = (h(a \<mapsto> \<lparr>next_p = None, prev_p = None\<rparr>), \<lparr>head_at = a, tail_p = None\<rparr>)"

definition llist_head :: "lheap \<Rightarrow> llist_t \<Rightarrow> ptr option" where
  "llist_head h list = do { n \<leftarrow> h (head_at list); Some (next_p n) }"

definition llist_tail :: "llist_t \<Rightarrow> ptr" where
  "llist_tail list = tail_p list"

definition llist_add_after :: "lheap \<Rightarrow> llist_t \<Rightarrow> ptr \<Rightarrow> addr \<Rightarrow> (lheap \<times> llist_t) option" where
  "llist_add_after h list prev node =
     (let prev = (case prev of None \<Rightarrow> head_at list | Some p \<Rightarrow> p);
          list = (if tail_p list = None \<or> tail_p list = Some prev then list\<lparr>tail_p := Some node\<rparr> else list)
      in do {
        h \<leftarrow> set_prev h node (Some prev);
        pn \<leftarrow> h prev;
        h \<leftarrow> set_next h node (next_p pn);
        pn \<leftarrow> h prev;
        h \<leftarrow> (case next_p pn of None \<Rightarrow> Some h | Some x \<Rightarrow> set_prev h x (Some node));
        h \<leftarrow> set_next h prev (Some node);
        n \<leftarrow> h node;
        h \<leftarrow> (if prev_p n = Some (head_at list) then set_prev h node None else Some h);
        Some (h, list)
      })"

definition llist_insert :: "lheap \<Rightarrow> llist_t \<Rightarrow> addr \<Rightarrow> (lheap \<times> llist_t) option" where
  "llist_insert h list node = llist_add_after h list (Some (head_at list)) node"

definition llist_append :: "lheap \<Rightarrow> llist_t \<Rightarrow> addr \<Rightarrow> (lheap \<times> llist_t) option" where
  "llist_append h list node = llist_add_after h list (tail_p list) node"

definition llist_remove :: "lheap \<Rightarrow> llist_t \<Rightarrow> addr \<Rightarrow> (lheap \<times> llist_t) option" where
  "llist_remove h list node =
     do {
       n \<leftarrow> h node;
       let list = (if Some node = tail_p list then list\<lparr>tail_p := prev_p n\<rparr> else list);
       hd \<leftarrow> h (head_at list);
       h \<leftarrow> (if next_p hd = Some node then set_prev h node (Some (head_at list)) else Some h);
       n \<leftarrow> h node;
       h \<leftarrow> (case prev_p n of None \<Rightarrow> Some h | Some p \<Rightarrow> set_next h p (next_p n));
       n \<leftarrow> h node;
       h \<leftarrow> (case next_p n of None \<Rightarrow> Some h | Some x \<Rightarrow> set_prev h x (prev_p n));
       hd \<leftarrow> h (head_at list);
       h \<leftarrow> (case next_p hd of None \<Rightarrow> Some h | Some x \<Rightarrow> set_prev h x None);
       Some (h, list)
     }"

definition llist_to_tail :: "lheap \<Rightarrow> llist_t \<Rightarrow> addr \<Rightarrow> (lheap \<times> llist_t) option" where
  "llist_to_tail h list node = do { (h, list) \<leftarrow> llist_remove h list node; llist_append h list node }"

section \<open>Abstraction: the sequence of nodes\<close>

definition first_or :: "ptr \<Rightarrow> addr list \<Rightarrow> ptr" where
  "first_or q xs = (case xs of [] \<Rightarrow> q | x # _ \<Rightarrow> Some x)"

definition last_or :: "ptr \<Rightarrow> addr list \<Rightarrow> ptr" where
  "last_or p xs = (if xs = [] then p else Some (last xs))"

text \<open>A segment whose first node points back to \<open>p\<close> and whose last node points on to \<open>q\<close>.\<close>

fun chain :: "lheap \<Rightarrow> ptr \<Rightarrow> addr list \<Rightarrow> ptr \<Rightarrow> bool" where
  "chain h p [] q = True"
| "chain h p (x # xs) q \<longleftrightarrow>
     h x = Some \<lparr>next_p = first_or q xs, prev_p = p\<rparr> \<and> chain h (Some x) xs q"

definition is_list :: "lheap \<Rightarrow> llist_t \<Rightarrow> addr list \<Rightarrow> bool" where
  "is_list h list xs \<longleftrightarrow>
     distinct (head_at list # xs) \<and> chain h None xs None \<and> tail_p list = last_or None xs \<and>
     (\<exists>pv. h (head_at list) = Some \<lparr>next_p = first_or None xs, prev_p = pv\<rparr>)"

lemma first_or_simps [simp]:
  "first_or q [] = q" "first_or q (x # xs) = Some x"
  "first_or q (xs @ ys) = first_or (first_or q ys) xs"
  by (auto simp: first_or_def split: list.split)

lemma last_or_simps [simp]:
  "last_or p [] = p" "last_or p (xs @ [x]) = Some x" "last_or p (x # xs) = last_or (Some x) xs"
  "last_or p (xs @ ys) = last_or (last_or p xs) ys"
  by (auto simp: last_or_def)

lemma chain_append: "chain h p (xs @ ys) q \<longleftrightarrow> chain h p xs (first_or q ys) \<and> chain h (last_or p xs) ys q"
  by (induction xs arbitrary: p) auto

lemma chain_upd [simp]: "a \<notin> set xs \<Longrightarrow> chain (h(a \<mapsto> n)) p xs q = chain h p xs q"
  by (induction xs arbitrary: p) auto

text \<open>Changing the pointers at the two ends of a segment.\<close>

lemma chain_next: "chain h p (xs @ [x]) q \<Longrightarrow> distinct (xs @ [x]) \<Longrightarrow>
    \<exists>n. h x = Some n \<and> next_p n = q \<and> prev_p n = last_or p xs \<and>
      chain (h(x \<mapsto> n\<lparr>next_p := q'\<rparr>)) p (xs @ [x]) q'"
  by (auto simp: chain_append)

lemma chain_prev: "chain h p (x # xs) q \<Longrightarrow> distinct (x # xs) \<Longrightarrow>
    \<exists>n. h x = Some n \<and> prev_p n = p \<and> next_p n = first_or q xs \<and>
      chain (h(x \<mapsto> n\<lparr>prev_p := p'\<rparr>)) p' (x # xs) q"
  by auto

lemma is_list_init: "case llist_init h a of (h', list) \<Rightarrow> is_list h' list []"
  by (simp add: llist_init_def is_list_def)

text \<open>Linking a new node behind the sentinel, and behind a node of the list.\<close>

lemma add_after_head:
  assumes l: "is_list h list xs" and node: "h node \<noteq> None" "node \<notin> set (head_at list # xs)"
  shows "\<exists>h' list'. llist_add_after h list (Some (head_at list)) node = Some (h', list') \<and>
    is_list h' list' (node # xs) \<and> head_at list' = head_at list \<and>
    (\<forall>a. a \<notin> set (head_at list # node # xs) \<longrightarrow> h' a = h a)"
proof -
  have "tail_p list \<noteq> Some (head_at list)"
    using l unfolding is_list_def last_or_def
    by (metis distinct.simps(2) last_in_set option.inject option.discI)
  with assms show ?thesis
  by (cases xs) (auto simp: llist_add_after_def is_list_def set_next_def set_prev_def Let_def last_or_def)
qed

lemma add_after_node:
  assumes l: "is_list h list (xs @ p # ys)" and node: "h node \<noteq> None" "node \<notin> set (head_at list # xs @ p # ys)"
  shows "\<exists>h' list'. llist_add_after h list (Some p) node = Some (h', list') \<and>
    is_list h' list' (xs @ p # node # ys) \<and> head_at list' = head_at list \<and>
    (\<forall>a. a \<notin> set (head_at list # node # xs @ p # ys) \<longrightarrow> h' a = h a)"
  using assms
  by (cases ys) (auto simp: llist_add_after_def is_list_def set_next_def set_prev_def Let_def
      chain_append last_or_def split: if_splits)

lemma remove_ok:
  assumes l: "is_list h list (xs @ node # ys)"
  shows "\<exists>h' list'. llist_remove h list node = Some (h', list') \<and>
    is_list h' list' (xs @ ys) \<and> head_at list' = head_at list \<and> h' node \<noteq> None \<and>
    (\<forall>a. a \<notin> set (head_at list # xs @ node # ys) \<longrightarrow> h' a = h a)"
proof (cases xs rule: rev_cases)
  case Nil
  with l show ?thesis
    by (cases ys) (auto simp: llist_remove_def is_list_def set_next_def set_prev_def Let_def
        last_or_def split: if_splits)
next
  case (snoc us u)
  with l show ?thesis
    by (cases us; cases ys) (auto simp: llist_remove_def is_list_def set_next_def set_prev_def Let_def
        chain_append last_or_def split: if_splits)
qed

lemma append_ok:
  assumes l: "is_list h list xs" and node: "h node \<noteq> None" "node \<notin> set (head_at list # xs)"
  shows "\<exists>h' list'. llist_append h list node = Some (h', list') \<and>
    is_list h' list' (xs @ [node]) \<and> head_at list' = head_at list \<and>
    (\<forall>a. a \<notin> set (head_at list # node # xs) \<longrightarrow> h' a = h a)"
proof (cases xs rule: rev_cases)
  case Nil
  have "llist_append h list node = llist_add_after h list (Some (head_at list)) node"
    using l Nil by (simp add: llist_append_def is_list_def llist_add_after_def)
  with add_after_head [OF assms] Nil show ?thesis by simp
next
  case (snoc us u)
  have "tail_p list = Some u" using l snoc by (simp add: is_list_def)
  with add_after_node [of h list us u "[]" node] assms snoc show ?thesis
    by (simp add: llist_append_def)
qed

section \<open>Histories of list operations\<close>

datatype llist_op = Insert addr | Append addr | Remove addr | ToTail addr

fun llist_run :: "llist_op list \<Rightarrow> lheap \<times> llist_t \<Rightarrow> (lheap \<times> llist_t) option" where
  "llist_run [] s = Some s"
| "llist_run (op # ops) (h, list) =
     do {
       s \<leftarrow> (case op of Insert n \<Rightarrow> llist_insert h list n | Append n \<Rightarrow> llist_append h list n
            | Remove n \<Rightarrow> llist_remove h list n | ToTail n \<Rightarrow> llist_to_tail h list n);
       llist_run ops s
     }"

text \<open>What the operations mean for the sequence of nodes, and when they may be called.\<close>

fun seq_step :: "llist_op \<Rightarrow> addr list \<Rightarrow> addr list" where
  "seq_step (Insert n) xs = n # xs"
| "seq_step (Append n) xs = xs @ [n]"
| "seq_step (Remove n) xs = remove1 n xs"
| "seq_step (ToTail n) xs = remove1 n xs @ [n]"

fun seq_ok :: "addr set \<Rightarrow> llist_op list \<Rightarrow> addr list \<Rightarrow> bool" where
  "seq_ok A [] xs = True"
| "seq_ok A (op # ops) xs \<longleftrightarrow>
     (case op of Insert n \<Rightarrow> n \<in> A \<and> n \<notin> set xs | Append n \<Rightarrow> n \<in> A \<and> n \<notin> set xs
      | Remove n \<Rightarrow> n \<in> set xs | ToTail n \<Rightarrow> n \<in> set xs) \<and>
     seq_ok A ops (seq_step op xs)"

lemma remove_eq:
  assumes l: "is_list h list xs" and n: "node \<in> set xs"
  shows "\<exists>h' list'. llist_remove h list node = Some (h', list') \<and>
    is_list h' list' (remove1 node xs) \<and> head_at list' = head_at list \<and> h' node \<noteq> None \<and>
    (\<forall>a. a \<notin> set (head_at list # xs) \<longrightarrow> h' a = h a)"
proof -
  obtain us ys where xs: "xs = us @ node # ys" using n by (auto dest: split_list)
  then have "remove1 node xs = us @ ys" using l by (auto simp: is_list_def remove1_append)
  with remove_ok [of h list us node ys] l xs show ?thesis by simp
qed

lemma is_list_mapped: "is_list h list xs \<Longrightarrow> a \<in> set (head_at list # xs) \<Longrightarrow> h a \<noteq> None"
proof -
  have "chain h p xs q \<Longrightarrow> a \<in> set xs \<Longrightarrow> h a \<noteq> None" for p q
    by (induction xs arbitrary: p) auto
  then show "is_list h list xs \<Longrightarrow> a \<in> set (head_at list # xs) \<Longrightarrow> h a \<noteq> None"
    by (auto simp: is_list_def)
qed

text \<open>Every operation of a history maps the sequence as intended and keeps every node mapped.\<close>

lemma llist_step_ok:
  assumes l: "is_list h list xs" and A: "\<forall>a\<in>A. h a \<noteq> None" "head_at list \<notin> A"
    and ok: "seq_ok A [op] xs"
  shows "\<exists>h' list'. llist_run [op] (h, list) = Some (h', list') \<and> is_list h' list' (seq_step op xs) \<and>
    head_at list' = head_at list \<and> (\<forall>a\<in>A. h' a \<noteq> None)"
proof (cases op)
  case (Insert n)
  then have n: "h n \<noteq> None" "n \<notin> set (head_at list # xs)" using ok A by auto
  obtain h' list' where r: "llist_add_after h list (Some (head_at list)) n = Some (h', list')"
    "is_list h' list' (n # xs)" "head_at list' = head_at list"
    "\<forall>a. a \<notin> set (head_at list # n # xs) \<longrightarrow> h' a = h a"
    using add_after_head [OF l n] by blast
  then have "\<forall>a\<in>A. h' a \<noteq> None" using A is_list_mapped [OF r(2)] by (metis list.set_intros(2) set_ConsD)
  with r Insert show ?thesis by (simp add: llist_insert_def)
next
  case (Append n)
  then have n: "h n \<noteq> None" "n \<notin> set (head_at list # xs)" using ok A by auto
  obtain h' list' where r: "llist_append h list n = Some (h', list')"
    "is_list h' list' (xs @ [n])" "head_at list' = head_at list"
    "\<forall>a. a \<notin> set (head_at list # n # xs) \<longrightarrow> h' a = h a"
    using append_ok [OF l n] by blast
  have "\<forall>a\<in>A. h' a \<noteq> None"
  proof
    fix a assume "a \<in> A"
    moreover from this have "a \<noteq> head_at list" using A by blast
    ultimately show "h' a \<noteq> None" using A r(4) is_list_mapped [OF r(2), of a] by (cases "a \<in> set (n # xs)") auto
  qed
  with r Append show ?thesis by simp
next
  case (Remove n)
  then obtain h' list' where r: "llist_remove h list n = Some (h', list')"
    "is_list h' list' (remove1 n xs)" "head_at list' = head_at list" "h' n \<noteq> None"
    "\<forall>a. a \<notin> set (head_at list # xs) \<longrightarrow> h' a = h a"
    using remove_eq [OF l, of n] ok by auto
  have "\<forall>a\<in>A. h' a \<noteq> None"
  proof
    fix a assume "a \<in> A"
    moreover from this have "a \<noteq> head_at list" using A by blast
    ultimately show "h' a \<noteq> None" using A r(3-5) is_list_mapped [OF r(2), of a]
      by (cases "a = n"; cases "a \<in> set xs") auto
  qed
  with r Remove show ?thesis by simp
next
  case (ToTail n)
  then obtain h1 list1 where r: "llist_remove h list n = Some (h1, list1)"
    "is_list h1 list1 (remove1 n xs)" "head_at list1 = head_at list" "h1 n \<noteq> None"
    "\<forall>a. a \<notin> set (head_at list # xs) \<longrightarrow> h1 a = h a"
    using remove_eq [OF l, of n] ok by auto
  have d: "distinct xs" "n \<in> set xs" "head_at list \<notin> set xs" using l ok ToTail by (auto simp: is_list_def)
  then have "n \<notin> set (head_at list1 # remove1 n xs)" using r(3) by auto
  from append_ok [OF r(2,4) this]
  obtain h' list' where s: "llist_append h1 list1 n = Some (h', list')"
    "is_list h' list' (remove1 n xs @ [n])" "head_at list' = head_at list1"
    "\<forall>a. a \<notin> set (head_at list1 # n # remove1 n xs) \<longrightarrow> h' a = h1 a"
    by blast
  have "\<forall>a\<in>A. h' a \<noteq> None"
  proof
    fix a assume a: "a \<in> A"
    show "h' a \<noteq> None"
    proof (cases "a \<in> set xs")
      case True
      then have "a \<in> set (head_at list' # remove1 n xs @ [n])" using d by auto
      then show ?thesis by (rule is_list_mapped [OF s(2)])
    next
      case False
      then have "a \<notin> set (remove1 n xs)" "a \<noteq> n" "a \<noteq> head_at list"
        using a A d by (auto dest: notin_set_remove1)
      with a A False r(3,5) s(4) show ?thesis by auto
    qed
  qed
  with r(1,3) s ToTail show ?thesis by (simp add: llist_to_tail_def)
qed

section \<open>Properties\<close>

text \<open>
  C12. The list header with its heap of nodes implements a sequence: any admissible history of
  insertions, appends, removals and moves to the tail follows only valid pointers, and the links
  then spell out the sequence the history stands for, with the tail pointer on its last node.
\<close>

theorem llist_history:
  assumes "is_list h list xs" "\<forall>a\<in>A. h a \<noteq> None" "head_at list \<notin> A" "seq_ok A ops xs"
  shows "\<exists>h' list'. llist_run ops (h, list) = Some (h', list') \<and>
    is_list h' list' (fold seq_step ops xs) \<and> llist_tail list' = last_or None (fold seq_step ops xs)"
  using assms
proof (induction ops arbitrary: h list xs)
  case Nil
  then show ?case by (simp add: is_list_def llist_tail_def)
next
  case (Cons op ops)
  have "seq_ok A [op] xs" using Cons.prems(4) by simp
  from llist_step_ok [OF Cons.prems(1-3) this]
  obtain h1 list1 where s: "llist_run [op] (h, list) = Some (h1, list1)" "is_list h1 list1 (seq_step op xs)"
    "head_at list1 = head_at list" "\<forall>a\<in>A. h1 a \<noteq> None" by blast
  have "head_at list1 \<notin> A" "seq_ok A ops (seq_step op xs)" using s(3) Cons.prems(3,4) by simp_all
  from Cons.IH [OF s(2,4) this] s(1) show ?case by (cases op) (auto split: bind_splits)
qed

theorem llist_history_witness:
  "\<exists>h' list'. llist_run [Append 1, Append 2, Insert 3, ToTail 1, Remove 3]
      (case llist_init (\<lambda>a. if a \<in> {1, 2, 3} then Some \<lparr>next_p = None, prev_p = None\<rparr> else None) 9 of
        s \<Rightarrow> s) = Some (h', list') \<and> is_list h' list' [2, 1] \<and> llist_tail list' = Some 1"
proof -
  let ?h = "\<lambda>a :: nat. if a \<in> {1, 2, 3} then Some \<lparr>next_p = None, prev_p = None\<rparr> else None"
  have "is_list (fst (llist_init ?h 9)) (snd (llist_init ?h 9)) []" by (simp add: llist_init_def is_list_def)
  from llist_history [OF this, of "{1, 2, 3}" "[Append 1, Append 2, Insert 3, ToTail 1, Remove 3]"]
  show ?thesis by (simp add: llist_init_def)
qed

end
