(* ===== verification/Pool.thy ===== *)
theory Pool
  imports Hash
begin

text \<open>
  \<open>pool.c\<close>: a pool of reference-counted pointers. The pool is a hash table from pointers to pool
  nodes, copied into the table (\<open>val_sz\<close> is the size of a node). A free function is a number, with
  its argument; the calls of \<open>free\<close> and of free functions are recorded as events. What \<open>malloc\<close>,
  \<open>strdup\<close> and \<open>realloc\<close> return is an argument of the operations that call them. The pool
  registers no destructor with the table, so the table's own events are empty and are dropped.
\<close>

record pool_node_t =
  pn_ptr :: u64
  refcount :: int
  pn_free :: "nat option"
  pn_arg :: nat

type_synonym pool_t = "(u64, pool_node_t) hash_t"

datatype pool_event = Freed u64 | Called nat u64 nat

definition pool_zero :: "(u64, pool_node_t) hash_node" where
  "pool_zero = \<lparr>node_key = 0, node_val = \<lparr>pn_ptr = 0, refcount = 0, pn_free = None, pn_arg = 0\<rparr>,
                node_hash = 0\<rparr>"

definition pool_new :: "pool_t option" where
  "pool_new = hash_init pool_zero hash_hash_int hash_cmp_int 0 32 0"

definition pool_release :: "pool_node_t \<Rightarrow> pool_event" where
  "pool_release p = (case pn_free p of Some f \<Rightarrow> Called f (pn_ptr p) (pn_arg p) | None \<Rightarrow> Freed (pn_ptr p))"

definition pool_foreach_free :: "(u64, pool_node_t, pool_event list) foreach_func" where
  "pool_foreach_free = reader (\<lambda>n ev. (ev @ [pool_release (node_val n)], 0))"

definition pool_delete :: "pool_t \<Rightarrow> pool_event list option" where
  "pool_delete pool =
     do {
       (pool, ev, n) \<leftarrow> hash_foreach pool_foreach_free pool [];
       (pool, hev) \<leftarrow> hash_clear pool;
       Some ev
     }"

definition pool_clear :: "pool_t \<Rightarrow> (pool_t \<times> pool_event list) option" where
  "pool_clear pool =
     do {
       (pool, ev, n) \<leftarrow> hash_foreach pool_foreach_free pool [];
       (pool, hev) \<leftarrow> hash_clear pool;
       pool \<leftarrow> hash_init pool_zero hash_hash_int hash_cmp_int 0 32 0;
       Some (pool, ev)
     }"

definition pool_find :: "pool_t \<Rightarrow> u64 \<Rightarrow> node_ptr option option" where
  "pool_find pool ptr = hash_get pool ptr"

definition pool_remove :: "pool_t \<Rightarrow> u64 \<Rightarrow> pool_t option" where
  "pool_remove pool ptr = do { (pool, hev) \<leftarrow> hash_remove pool ptr; Some pool }"

definition pool_addref :: "pool_t \<Rightarrow> u64 \<Rightarrow> (pool_t \<times> int) option" where
  "pool_addref pool ptr =
     (if ptr = 0 then Some (pool, 0)
      else do {
        p \<leftarrow> pool_find pool ptr;
        case p of None \<Rightarrow> Some (pool, 0)
        | Some p \<Rightarrow> do {
            n \<leftarrow> node_at pool p;
            let v = (node_val n)\<lparr>refcount := refcount (node_val n) + 1\<rparr>;
            pool \<leftarrow> node_store pool p v;
            Some (pool, refcount v)
          }
      })"

definition pool_free :: "pool_t \<Rightarrow> u64 \<Rightarrow> (pool_t \<times> pool_event list) option" where
  "pool_free pool ptr =
     (if ptr = 0 then Some (pool, [])
      else do {
        p \<leftarrow> pool_find pool ptr;
        case p of None \<Rightarrow> Some (pool, [])
        | Some p \<Rightarrow> do {
            n \<leftarrow> node_at pool p;
            let v = (node_val n)\<lparr>refcount := refcount (node_val n) - 1\<rparr>;
            pool \<leftarrow> node_store pool p v;
            if refcount v \<le> 0
            then do { pool \<leftarrow> pool_remove pool ptr; Some (pool, [pool_release v]) }
            else Some (pool, [])
          }
      })"

definition pool_add :: "pool_t \<Rightarrow> u64 \<Rightarrow> nat option \<Rightarrow> nat \<Rightarrow> (pool_t \<times> pool_event list) option" where
  "pool_add pool ptr fn arg =
     do {
       (pool, ev) \<leftarrow> pool_free pool ptr;
       (pool, p, hev) \<leftarrow> hash_put pool_zero pool ptr None;
       n \<leftarrow> node_at pool p;
       pool \<leftarrow> node_store pool p \<lparr>pn_ptr = ptr, refcount = 1, pn_free = fn, pn_arg = arg\<rparr>;
       Some (pool, ev)
     }"

text \<open>The allocating wrappers return the new pointer (\<open>0\<close> for null).\<close>

definition pool_malloc :: "pool_t \<Rightarrow> u64 \<Rightarrow> (pool_t \<times> u64 \<times> pool_event list) option" where
  "pool_malloc pool allocated = do { (pool, ev) \<leftarrow> pool_add pool allocated None 0; Some (pool, allocated, ev) }"

definition pool_strdup :: "pool_t \<Rightarrow> u64 \<Rightarrow> u64 \<Rightarrow> (pool_t \<times> u64 \<times> pool_event list) option" where
  "pool_strdup pool str allocated =
     (if str = 0 then Some (pool, 0, [])
      else do { (pool, ev) \<leftarrow> pool_add pool allocated None 0; Some (pool, allocated, ev) })"

definition pool_memdup :: "pool_t \<Rightarrow> u64 \<Rightarrow> u64 \<Rightarrow> (pool_t \<times> u64 \<times> pool_event list) option" where
  "pool_memdup pool str allocated =
     (if str = 0 \<or> allocated = 0 then Some (pool, 0, [])
      else do { (pool, ev) \<leftarrow> pool_add pool allocated None 0; Some (pool, allocated, ev) })"

definition pool_realloc :: "pool_t \<Rightarrow> u64 \<Rightarrow> u64 \<Rightarrow> (pool_t \<times> u64 \<times> pool_event list) option" where
  "pool_realloc pool ptr allocated =
     do {
       pool \<leftarrow> pool_remove pool ptr;
       (pool, ev) \<leftarrow> pool_add pool allocated None 0;
       Some (pool, allocated, ev)
     }"

definition pool_copy_str :: "pool_t \<Rightarrow> u64 \<Rightarrow> u64 \<Rightarrow> u64 \<Rightarrow> (pool_t \<times> u64 \<times> pool_event list) option" where
  "pool_copy_str pool dst str allocated =
     do {
       (pool, copy, ev) \<leftarrow> pool_strdup pool str allocated;
       (pool, ev') \<leftarrow> pool_free pool dst;
       Some (pool, copy, ev @ ev')
     }"

definition pool_copy_buf :: "pool_t \<Rightarrow> u64 \<Rightarrow> u64 \<Rightarrow> (pool_t \<times> u64 \<times> pool_event list) option" where
  "pool_copy_buf pool dst allocated =
     do {
       (pool, ev) \<leftarrow> pool_free pool dst;
       (pool, p, ev') \<leftarrow> pool_malloc pool allocated;
       Some (pool, p, ev @ ev')
     }"

section \<open>The abstract pool: a map from pointers to counted entries\<close>

type_synonym pool_map = "u64 \<Rightarrow> pool_node_t option"

abbreviation pool_map :: "pool_t \<Rightarrow> pool_map" where
  "pool_map \<equiv> hash_map id"

definition pool_ok :: "pool_t \<Rightarrow> bool" where
  "pool_ok pool \<longleftrightarrow> hash_ok hash_hash_int hash_cmp_int id pool \<and>
     (\<forall>k v. pool_map pool k = Some v \<longrightarrow> pn_ptr v = k \<and> 1 \<le> refcount v)"

datatype pool_op = Add u64 "nat option" nat | Addref u64 | Free u64

definition map_free :: "pool_map \<Rightarrow> u64 \<Rightarrow> pool_map \<times> pool_event list" where
  "map_free m p =
     (case (if p = 0 then None else m p) of None \<Rightarrow> (m, [])
      | Some v \<Rightarrow> if refcount v = 1 then (m(p := None), [pool_release v])
                 else (m(p \<mapsto> v\<lparr>refcount := refcount v - 1\<rparr>), []))"

fun map_step :: "pool_map \<Rightarrow> pool_op \<Rightarrow> pool_map \<times> pool_event list" where
  "map_step m (Add p fn arg) =
     (let (m, ev) = map_free m p
      in (m(p \<mapsto> \<lparr>pn_ptr = p, refcount = 1, pn_free = fn, pn_arg = arg\<rparr>), ev))"
| "map_step m (Addref p) =
     ((case (if p = 0 then None else m p) of None \<Rightarrow> m
       | Some v \<Rightarrow> m(p \<mapsto> v\<lparr>refcount := refcount v + 1\<rparr>)), [])"
| "map_step m (Free p) = map_free m p"

fun map_run :: "pool_map \<Rightarrow> pool_op list \<Rightarrow> pool_map \<times> pool_event list" where
  "map_run m [] = (m, [])"
| "map_run m (op # ops) =
     (let (m, ev) = map_step m op; (m, ev') = map_run m ops in (m, ev @ ev'))"

fun pool_step :: "pool_t \<Rightarrow> pool_op \<Rightarrow> (pool_t \<times> pool_event list) option" where
  "pool_step pool (Add p fn arg) = pool_add pool p fn arg"
| "pool_step pool (Addref p) = do { (pool, n) \<leftarrow> pool_addref pool p; Some (pool, []) }"
| "pool_step pool (Free p) = pool_free pool p"

fun pool_run :: "pool_t \<Rightarrow> pool_op list \<Rightarrow> (pool_t \<times> pool_event list) option" where
  "pool_run pool [] = Some (pool, [])"
| "pool_run pool (op # ops) =
     do { (pool, ev) \<leftarrow> pool_step pool op; (pool, ev') \<leftarrow> pool_run pool ops; Some (pool, ev @ ev') }"

section \<open>Refinement\<close>

lemma pool_find_cases:
  assumes ok: "pool_ok pool"
  obtains (absent) "pool_find pool ptr = Some None" "pool_map pool ptr = None"
  | (found) p n where "pool_find pool ptr = Some (Some p)" "node_at pool p = Some n"
      "pool_map pool ptr = Some (node_val n)" "pn_ptr (node_val n) = ptr" "1 \<le> refcount (node_val n)"
      "\<And>v. \<exists>pool'. node_store pool p v = Some pool' \<and> hash_ok hash_hash_int hash_cmp_int id pool' \<and>
         m_node_count pool' = m_node_count pool \<and> pool_map pool' = (pool_map pool)(ptr \<mapsto> v)"
proof -
  have h: "hash_ok hash_hash_int hash_cmp_int id pool" using ok by (simp add: pool_ok_def)
  show thesis
  proof (cases rule: int_key.hash_get_cases [OF h, of ptr])
    case 1
    then show thesis by (intro absent) (simp_all add: pool_find_def)
  next
    case (2 i j)
    have "hash_shape pool" using h by (simp add: hash_ok_def)
    note at = node_at_ok [OF this 2(2,3)]
    show thesis
      using 2 at ok int_key.node_store_ok [OF h 2(2,3)]
      by (intro found [of "(int i, int j)" "buckets pool ! i ! j"])
        (simp_all add: pool_find_def pool_ok_def)
  qed
qed

lemma pool_remove_ok:
  assumes "hash_ok hash_hash_int hash_cmp_int id pool"
  shows "\<exists>pool'. pool_remove pool ptr = Some pool' \<and> hash_ok hash_hash_int hash_cmp_int id pool' \<and>
    m_node_count pool' \<le> m_node_count pool \<and> pool_map pool' = (pool_map pool)(ptr := None)"
  using int_key.hash_remove_spec [OF assms, of ptr] by (auto simp: pool_remove_def)

lemma pool_free_ok:
  assumes ok: "pool_ok pool"
  shows "\<exists>pool' ev. pool_free pool ptr = Some (pool', ev) \<and> pool_ok pool' \<and>
    m_node_count pool' \<le> m_node_count pool \<and> map_free (pool_map pool) ptr = (pool_map pool', ev)"
proof (cases "ptr = 0")
  case True
  then show ?thesis using ok by (simp add: pool_free_def map_free_def)
next
  case nz: False
  show ?thesis
  proof (cases rule: pool_find_cases [OF ok, of ptr])
    case 1
    then show ?thesis using ok nz by (simp add: pool_free_def map_free_def)
  next
    case (2 p n)
    let ?v = "(node_val n)\<lparr>refcount := refcount (node_val n) - 1\<rparr>"
    obtain p1 where p1: "node_store pool p ?v = Some p1" "hash_ok hash_hash_int hash_cmp_int id p1"
      "m_node_count p1 = m_node_count pool" "pool_map p1 = (pool_map pool)(ptr \<mapsto> ?v)"
      using 2(6) by blast
    show ?thesis
    proof (cases "refcount (node_val n) = 1")
      case True
      obtain p2 where p2: "pool_remove p1 ptr = Some p2" "hash_ok hash_hash_int hash_cmp_int id p2"
        "m_node_count p2 \<le> m_node_count p1" "pool_map p2 = (pool_map p1)(ptr := None)"
        using pool_remove_ok [OF p1(2)] by blast
      have "pool_release ?v = pool_release (node_val n)" by (simp add: pool_release_def split: option.split)
      with 2 p1 p2 nz True ok show ?thesis
        by (simp add: pool_free_def map_free_def pool_ok_def)
    next
      case False
      with 2(5) have pos: "1 < refcount (node_val n)" by linarith
      moreover have "pool_ok p1" using p1(2,4) pos 2(4) ok by (auto simp: pool_ok_def)
      ultimately show ?thesis using 2(1-3) p1(1,3,4) nz
        by (simp add: pool_free_def map_free_def)
    qed
  qed
qed

lemma pool_addref_ok:
  assumes ok: "pool_ok pool"
  shows "\<exists>pool' r. pool_addref pool ptr = Some (pool', r) \<and> pool_ok pool' \<and>
    m_node_count pool' = m_node_count pool \<and>
    map_step (pool_map pool) (Addref ptr) = (pool_map pool', []) \<and>
    r = (case (if ptr = 0 then None else pool_map pool' ptr) of None \<Rightarrow> 0 | Some v \<Rightarrow> refcount v)"
proof (cases "ptr = 0")
  case True
  then show ?thesis using ok by (simp add: pool_addref_def)
next
  case nz: False
  show ?thesis
  proof (cases rule: pool_find_cases [OF ok, of ptr])
    case 1
    then show ?thesis using ok nz by (simp add: pool_addref_def)
  next
    case (2 p n)
    let ?v = "(node_val n)\<lparr>refcount := refcount (node_val n) + 1\<rparr>"
    obtain p1 where p1: "node_store pool p ?v = Some p1" "hash_ok hash_hash_int hash_cmp_int id p1"
      "m_node_count p1 = m_node_count pool" "pool_map p1 = (pool_map pool)(ptr \<mapsto> ?v)"
      using 2(6) by blast
    moreover have "pool_ok p1" using p1(2,4) 2(4,5) ok by (auto simp: pool_ok_def)
    ultimately show ?thesis using 2(1-3) nz by (auto simp: pool_addref_def Let_def)
  qed
qed

lemma node_at_put:
  assumes h: "hash_ok hash_hash_int hash_cmp_int id pool" and c: "m_node_count pool < 3 * 2 ^ 29"
  shows "\<exists>pool1 p ev n. hash_put pool_zero pool ptr None = Some (pool1, p, ev) \<and> node_at pool1 p = Some n \<and>
    m_node_count pool1 \<le> m_node_count pool + 1 \<and>
    (\<forall>v. \<exists>pool'. node_store pool1 p v = Some pool' \<and> hash_ok hash_hash_int hash_cmp_int id pool' \<and>
       m_node_count pool' = m_node_count pool1 \<and> pool_map pool' = (pool_map pool)(ptr \<mapsto> v))"
proof -
  obtain s i j ev where s: "hash_put pool_zero pool ptr None = Some (s, (int i, int j), ev)"
    "hash_ok hash_hash_int hash_cmp_int id s" "m_node_count s \<le> m_node_count pool + 1"
    "pool_map s = (pool_map pool)(ptr \<mapsto> node_val pool_zero)"
    "i < length (buckets s)" "j < length (buckets s ! i)" "node_key (buckets s ! i ! j) = ptr"
    using int_key.hash_put_at [OF h c, of pool_zero ptr None] by auto
  have "hash_shape s" using s(2) by (simp add: hash_ok_def)
  note at = node_at_ok [OF this s(5,6)]
  have "\<exists>pool'. node_store s (int i, int j) v = Some pool' \<and> hash_ok hash_hash_int hash_cmp_int id pool' \<and>
       m_node_count pool' = m_node_count s \<and> pool_map pool' = (pool_map pool)(ptr \<mapsto> v)" for v
    using int_key.node_store_ok [OF s(2,5,6), of v] s(4,7) by auto
  with s(1,3) at show ?thesis by blast
qed

lemma pool_add_ok:
  assumes ok: "pool_ok pool" and c: "m_node_count pool < 3 * 2 ^ 29"
  shows "\<exists>pool' ev. pool_add pool ptr fn arg = Some (pool', ev) \<and> pool_ok pool' \<and>
    m_node_count pool' \<le> m_node_count pool + 1 \<and>
    map_step (pool_map pool) (Add ptr fn arg) = (pool_map pool', ev)"
proof -
  obtain p1 ev where p1: "pool_free pool ptr = Some (p1, ev)" "pool_ok p1"
    "m_node_count p1 \<le> m_node_count pool" "map_free (pool_map pool) ptr = (pool_map p1, ev)"
    using pool_free_ok [OF ok, of ptr] by blast
  have h: "hash_ok hash_hash_int hash_cmp_int id p1" "m_node_count p1 < 3 * 2 ^ 29"
    using p1(2,3) c by (simp_all add: pool_ok_def)
  obtain p2 p hev n where p2: "hash_put pool_zero p1 ptr None = Some (p2, p, hev)" "node_at p2 p = Some n"
    "m_node_count p2 \<le> m_node_count p1 + 1"
    "\<forall>v. \<exists>pool'. node_store p2 p v = Some pool' \<and> hash_ok hash_hash_int hash_cmp_int id pool' \<and>
       m_node_count pool' = m_node_count p2 \<and> pool_map pool' = (pool_map p1)(ptr \<mapsto> v)"
    using node_at_put [OF h, of ptr] by blast
  obtain p3 where p3: "node_store p2 p \<lparr>pn_ptr = ptr, refcount = 1, pn_free = fn, pn_arg = arg\<rparr> = Some p3"
    "hash_ok hash_hash_int hash_cmp_int id p3" "m_node_count p3 = m_node_count p2"
    "pool_map p3 = (pool_map p1)(ptr \<mapsto> \<lparr>pn_ptr = ptr, refcount = 1, pn_free = fn, pn_arg = arg\<rparr>)"
    using p2(4) by blast
  have "pool_ok p3" using p1(2) p3(2,4) by (auto simp: pool_ok_def)
  with p1 p2(1-3) p3 show ?thesis by (simp add: pool_add_def)
qed

lemma pool_run_ok:
  assumes "pool_ok pool" "m_node_count pool + int (length ops) \<le> 3 * 2 ^ 29"
  shows "\<exists>pool' ev. pool_run pool ops = Some (pool', ev) \<and> pool_ok pool' \<and>
    map_run (pool_map pool) ops = (pool_map pool', ev)"
  using assms
proof (induction ops arbitrary: pool)
  case (Cons op ops)
  have "\<exists>pool' ev. pool_step pool op = Some (pool', ev) \<and> pool_ok pool' \<and>
      m_node_count pool' \<le> m_node_count pool + 1 \<and> map_step (pool_map pool) op = (pool_map pool', ev)"
  proof (cases op)
    case (Add p fn arg)
    have "m_node_count pool < 3 * 2 ^ 29" using Cons.prems(2) by simp
    from pool_add_ok [OF Cons.prems(1) this] Add show ?thesis by simp
  next
    case (Addref p)
    with pool_addref_ok [OF Cons.prems(1), of p] show ?thesis by fastforce
  next
    case (Free p)
    with pool_free_ok [OF Cons.prems(1), of p] show ?thesis by fastforce
  qed
  then obtain p1 ev where p1: "pool_step pool op = Some (p1, ev)" "pool_ok p1"
    "m_node_count p1 \<le> m_node_count pool + 1" "map_step (pool_map pool) op = (pool_map p1, ev)" by blast
  have "m_node_count p1 + int (length ops) \<le> 3 * 2 ^ 29" using p1(3) Cons.prems(2) by simp
  from Cons.IH [OF p1(2) this] obtain p2 ev2 where "pool_run p1 ops = Some (p2, ev2)" "pool_ok p2"
    "map_run (pool_map p1) ops = (pool_map p2, ev2)" by blast
  with p1(1,4) show ?case
    by (intro exI [of _ p2] exI [of _ "ev @ ev2"] conjI) (simp_all only: pool_run.simps map_run.simps
        bind.simps prod.case Let_def)
qed simp

lemma pool_new_ok: "\<exists>pool. pool_new = Some pool \<and> pool_ok pool \<and> pool_map pool = Map.empty \<and>
    m_node_count pool = 0"
  using int_key.hash_init_ok [of 0 32 0 pool_zero] by (auto simp: pool_new_def pool_ok_def)

section \<open>Properties\<close>

text \<open>
  C8. Reference counting: after any history of additions, references and releases on a fresh pool,
  the table holds exactly the pointers whose count is positive with those counts, and the free
  functions called so far, in order, are those of the abstract pool: each at the moment its
  pointer's count reached zero.
\<close>

theorem pool_history:
  assumes "length ops \<le> 3 * 2 ^ 29"
  shows "\<exists>pool pool' ev. pool_new = Some pool \<and> pool_run pool ops = Some (pool', ev) \<and> pool_ok pool' \<and>
    map_run Map.empty ops = (pool_map pool', ev)"
proof -
  obtain pool where p: "pool_new = Some pool" "pool_ok pool" "pool_map pool = Map.empty"
    "m_node_count pool = 0" using pool_new_ok by blast
  have "m_node_count pool + int (length ops) \<le> 3 * 2 ^ 29" using p(4) assms by simp
  from pool_run_ok [OF p(2) this] p show ?thesis by auto
qed

theorem pool_history_witness:
  "\<exists>pool pool'. pool_new = Some pool \<and>
    pool_run pool [Add 5 None 0, Addref 5, Add 6 (Some 1) 2, Free 5, Free 6, Free 5] =
      Some (pool', [Called 1 6 2, Freed 5]) \<and> pool_map pool' = Map.empty"
proof -
  have m: "map_run Map.empty [Add 5 None 0, Addref 5, Add 6 (Some 1) 2, Free 5, Free 6, Free 5] =
      (Map.empty, [Called 1 6 2, Freed 5])"
    by (simp add: map_free_def pool_release_def Let_def fun_eq_iff)
  show ?thesis
    using pool_history [of "[Add 5 None 0, Addref 5, Add 6 (Some 1) 2, Free 5, Free 6, Free 5]"]
    unfolding m by auto
qed

text \<open>
  Deleting a well-formed pool releases every pointer it still holds exactly once.
\<close>

theorem pool_delete_releases:
  assumes "pool_ok pool"
  shows "\<exists>ev. pool_delete pool = Some ev \<and>
    mset ev = image_mset (\<lambda>n. pool_release (node_val n)) (mset (nodes pool)) \<and>
    distinct (map node_key (nodes pool)) \<and>
    (\<forall>p. p \<in> set (map node_key (nodes pool)) \<longleftrightarrow> pool_map pool p \<noteq> None)"
proof -
  have h: "hash_ok hash_hash_int hash_cmp_int id pool" using assms by (simp add: pool_ok_def)
  then have sh: "hash_shape pool" by (simp add: hash_ok_def)
  have v: "visit (\<lambda>n ev. (ev @ [g n], 0)) ns ev = (ev @ map g ns, 0)" for g :: "(u64, pool_node_t) hash_node \<Rightarrow> pool_event" and ns ev
    by (induction ns arbitrary: ev) auto
  have "pool_delete pool = Some (map (\<lambda>n. pool_release (node_val n)) (foreach_order pool))"
    using hash_foreach_reader [OF sh, of "\<lambda>n ev. (ev @ [pool_release (node_val n)], 0)" "[]"]
    by (simp add: pool_delete_def pool_foreach_free_def v hash_clear_eq [OF sh])
  moreover have "distinct (map node_key (nodes pool))"
    using h by (simp add: hash_ok_def node_keys_def)
  moreover have "p \<in> set (map node_key (nodes pool)) \<longleftrightarrow> pool_map pool p \<noteq> None" for p
    by (simp add: hash_map_None_iff node_keys_def)
  ultimately show ?thesis by (simp add: foreach_order_mset)
qed

theorem pool_delete_releases_witness:
  "\<exists>pool pool'. pool_new = Some pool \<and> pool_run pool [Add 5 None 0, Addref 5] = Some (pool', []) \<and>
    (\<exists>ev. pool_delete pool' = Some ev \<and> size (mset ev) = length (nodes pool') \<and> pool_map pool' 5 \<noteq> None)"
proof -
  have m: "map_run Map.empty [Add 5 None 0, Addref 5] =
      ([5 \<mapsto> \<lparr>pn_ptr = 5, refcount = 2, pn_free = None, pn_arg = 0\<rparr>], [])"
    by (simp add: map_free_def Let_def fun_eq_iff)
  obtain pool pool' where p: "pool_new = Some pool" "pool_run pool [Add 5 None 0, Addref 5] = Some (pool', [])"
    "pool_ok pool'" "pool_map pool' = [5 \<mapsto> \<lparr>pn_ptr = 5, refcount = 2, pn_free = None, pn_arg = 0\<rparr>]"
    using pool_run_ok [of _ "[Add 5 None 0, Addref 5]"] pool_new_ok m by fastforce
  obtain ev where ev: "pool_delete pool' = Some ev"
    "mset ev = image_mset (\<lambda>n. pool_release (node_val n)) (mset (nodes pool'))"
    using pool_delete_releases [OF p(3)] by blast
  have "size (mset ev) = length (nodes pool')" unfolding ev(2) by simp
  with p(1,2,4) ev(1) show ?thesis by auto
qed

end
