(* ===== verification/Bytes.thy ===== *)
theory Bytes
  imports Prelude
begin

unbundle bit_operations_syntax

text \<open>
  Reading and writing the packed structures of the packet code: 16- and 32-bit fields are stored in
  the little-endian order of the host, \<open>ntohs\<close> and \<open>ntohl\<close> swap the bytes. \<open>bit_get\<close> and \<open>bit_set\<close>
  are the macros of \<open>bitops.h\<close>; the first operates on a value promoted to \<open>int\<close>.
\<close>

section \<open>Byte order\<close>

definition le16 :: "byte \<Rightarrow> byte \<Rightarrow> u16" where
  "le16 a b = ucast a OR push_bit 8 (ucast b)"

definition le32 :: "byte \<Rightarrow> byte \<Rightarrow> byte \<Rightarrow> byte \<Rightarrow> u32" where
  "le32 a b c d = ucast a OR push_bit 8 (ucast b) OR push_bit 16 (ucast c) OR push_bit 24 (ucast d)"

definition byte_of :: "nat \<Rightarrow> 'a::len word \<Rightarrow> byte" where
  "byte_of k x = ucast (drop_bit (8 * k) x)"

definition ntohs :: "u16 \<Rightarrow> u16" where
  "ntohs x = le16 (byte_of 1 x) (byte_of 0 x)"

definition ntohl :: "u32 \<Rightarrow> u32" where
  "ntohl x = le32 (byte_of 3 x) (byte_of 2 x) (byte_of 1 x) (byte_of 0 x)"

abbreviation htons :: "u16 \<Rightarrow> u16" where "htons \<equiv> ntohs"
abbreviation htonl :: "u32 \<Rightarrow> u32" where "htonl \<equiv> ntohl"

lemma bit_le16: "bit (le16 a b) n \<longleftrightarrow> (if n < 8 then bit a n else n < 16 \<and> bit b (n - 8))"
  by (auto simp: le16_def bit_or_iff bit_push_bit_iff bit_ucast_iff bit_imp_le_length
      dest: bit_imp_le_length)

lemma bit_le32: "bit (le32 a b c d) n \<longleftrightarrow>
    (if n < 8 then bit a n else if n < 16 then bit b (n - 8)
     else if n < 24 then bit c (n - 16) else n < 32 \<and> bit d (n - 24))"
  by (auto simp: le32_def bit_or_iff bit_push_bit_iff bit_ucast_iff
      dest: bit_imp_le_length)

lemma bit_byte_of: "bit (byte_of k x) n \<longleftrightarrow> n < 8 \<and> bit x (8 * k + n)"
  by (auto simp: byte_of_def bit_ucast_iff bit_drop_bit_eq)

lemma le16_bytes [simp]: "le16 (byte_of 0 x) (byte_of 1 x) = x"
  by (rule bit_eqI) (auto simp: bit_le16 bit_byte_of)

lemma le32_bytes [simp]: "le32 (byte_of 0 x) (byte_of 1 x) (byte_of 2 x) (byte_of 3 x) = x"
  by (rule bit_eqI) (auto simp: bit_le32 bit_byte_of)

lemmas le_bytes_Suc [simp] = le16_bytes [unfolded One_nat_def] le32_bytes [unfolded One_nat_def]

lemma byte_of_le16 [simp]: "byte_of 0 (le16 a b) = a" "byte_of 1 (le16 a b) = b" "byte_of (Suc 0) (le16 a b) = b"
  by (rule bit_eqI; auto simp: bit_le16 bit_byte_of dest: bit_imp_le_length)+

lemma byte_of_le32 [simp]: "byte_of 0 (le32 a b c d) = a" "byte_of 1 (le32 a b c d) = b"
    "byte_of (Suc 0) (le32 a b c d) = b" "byte_of 2 (le32 a b c d) = c" "byte_of 3 (le32 a b c d) = d"
  by (rule bit_eqI; auto simp: bit_le32 bit_byte_of dest: bit_imp_le_length)+

lemma ntohs_ntohs [simp]: "ntohs (ntohs x) = x"
  by (simp add: ntohs_def)

lemma ntohl_ntohl [simp]: "ntohl (ntohl x) = x"
  by (simp add: ntohl_def)

lemma uint_le16: "uint (le16 a b) = uint a + 256 * uint b"
proof -
  have "(ucast a :: u16) AND push_bit 8 (ucast b) = 0"
    by (rule bit_eqI) (auto simp: bit_and_iff bit_push_bit_iff bit_ucast_iff dest: bit_imp_le_length)
  then have "le16 a b = ucast a + push_bit 8 (ucast b)"
    unfolding le16_def by (simp add: disjunctive_add_eq_or)
  moreover have "uint (push_bit 8 (ucast b) :: u16) = 256 * uint b"
    using uint_lt2p [of b]
    by (simp add: push_bit_eq_mult uint_word_ariths unsigned_ucast_eq take_bit_eq_mod)
  moreover have "uint (ucast a :: u16) = uint a"
    using uint_lt2p [of a] by (simp add: unsigned_ucast_eq take_bit_eq_mod)
  moreover have "uint a + 256 * uint b < 2 ^ 16"
    using uint_lt2p [of a] uint_lt2p [of b] by simp
  ultimately show ?thesis by (simp add: uint_word_ariths)
qed

text \<open>The bytes of a 32-bit field in memory order.\<close>

definition bytes_of32 :: "u32 \<Rightarrow> byte list" where
  "bytes_of32 x = [byte_of 0 x, byte_of 1 x, byte_of 2 x, byte_of 3 x]"

lemma bytes_of32_inj: "bytes_of32 x = bytes_of32 y \<Longrightarrow> x = y"
proof -
  assume "bytes_of32 x = bytes_of32 y"
  then have "le32 (byte_of 0 x) (byte_of 1 x) (byte_of 2 x) (byte_of 3 x) =
      le32 (byte_of 0 y) (byte_of 1 y) (byte_of 2 y) (byte_of 3 y)"
    unfolding bytes_of32_def by (simp only: list.inject)
  then show "x = y" by (simp only: le32_bytes)
qed

lemma length_bytes_of32 [simp]: "length (bytes_of32 x) = 4"
  by (simp add: bytes_of32_def)

section \<open>Bit fields\<close>

definition bit_get :: "int \<Rightarrow> nat \<Rightarrow> nat \<Rightarrow> int" where
  "bit_get x len off = drop_bit off x AND (2 ^ len - 1)"

definition bit_set :: "int \<Rightarrow> nat \<Rightarrow> nat \<Rightarrow> int \<Rightarrow> int" where
  "bit_set x len off bits = (x AND NOT (push_bit off (2 ^ len - 1))) OR push_bit off bits"

lemma bit_get_eq: "bit_get x len off = take_bit len (drop_bit off x)"
  by (simp add: bit_get_def take_bit_eq_mask mask_eq_exp_minus_1)

lemma bit_get_set_same: "0 \<le> v \<Longrightarrow> v < 2 ^ len \<Longrightarrow> bit_get (bit_set x len off v) len off = v"
proof -
  assume v: "0 \<le> v" "v < 2 ^ len"
  then have "take_bit len v = v" by (simp add: take_bit_int_eq_self)
  then have vb: "bit v n \<Longrightarrow> n < len" for n by (metis bit_take_bit_iff)
  have "(2 :: int) ^ len - 1 = mask len" by (simp add: mask_eq_exp_minus_1)
  then show ?thesis
    unfolding bit_get_eq bit_set_def
    by (intro bit_eqI) (auto simp: bit_take_bit_iff bit_drop_bit_eq bit_or_iff bit_and_iff bit_not_iff
        bit_push_bit_iff bit_mask_iff dest: vb)
qed

lemma bit_get_set_other:
  assumes "off + len \<le> off' \<or> off' + len' \<le> off" "0 \<le> v" "v < 2 ^ len"
  shows "bit_get (bit_set x len off v) len' off' = bit_get x len' off'"
proof -
  have "take_bit len v = v" using assms by (simp add: take_bit_int_eq_self)
  then have vb: "bit v n \<Longrightarrow> n < len" for n by (metis bit_take_bit_iff)
  have "(2 :: int) ^ len - 1 = mask len" by (simp add: mask_eq_exp_minus_1)
  then show ?thesis
    unfolding bit_get_eq bit_set_def using assms(1)
    by (intro bit_eqI) (auto simp: bit_take_bit_iff bit_drop_bit_eq bit_or_iff bit_and_iff bit_not_iff
        bit_push_bit_iff bit_mask_iff dest!: vb)
qed

section \<open>Fields in memory\<close>

type_synonym mem = "byte list"

definition rd8 :: "mem \<Rightarrow> int \<Rightarrow> byte option" where
  "rd8 m p = mem_get m p"

definition rd16 :: "mem \<Rightarrow> int \<Rightarrow> u16 option" where
  "rd16 m p = do { a \<leftarrow> mem_get m p; b \<leftarrow> mem_get m (p + 1); Some (le16 a b) }"

definition rd32 :: "mem \<Rightarrow> int \<Rightarrow> u32 option" where
  "rd32 m p =
     do { a \<leftarrow> mem_get m p; b \<leftarrow> mem_get m (p + 1); c \<leftarrow> mem_get m (p + 2); d \<leftarrow> mem_get m (p + 3);
          Some (le32 a b c d) }"

definition wr8 :: "mem \<Rightarrow> int \<Rightarrow> byte \<Rightarrow> mem option" where
  "wr8 m p x = mem_put m p x"

definition wr16 :: "mem \<Rightarrow> int \<Rightarrow> u16 \<Rightarrow> mem option" where
  "wr16 m p x = blit m p [byte_of 0 x, byte_of 1 x]"

definition wr32 :: "mem \<Rightarrow> int \<Rightarrow> u32 \<Rightarrow> mem option" where
  "wr32 m p x = blit m p [byte_of 0 x, byte_of 1 x, byte_of 2 x, byte_of 3 x]"

lemma blit_get:
  assumes "blit m p xs = Some m'"
  shows "mem_get m' q = (if p \<le> q \<and> q < p + int (length xs) then Some (xs ! nat (q - p)) else mem_get m q)"
proof -
  have p: "0 \<le> p" "p + int (length xs) \<le> int (length m)"
    and m': "m' = take (nat p) m @ xs @ drop (nat p + length xs) m"
    using assms by (auto simp: mem_simps)
  have len: "length m' = length m" using assms by (rule blit_length)
  consider "q < p" | "p \<le> q" "q < p + int (length xs)" | "p + int (length xs) \<le> q" by linarith
  then show ?thesis
  proof cases
    case 1
    show ?thesis
    proof (cases "0 \<le> q")
      case True
      then have "nat q < nat p" "nat q < length m" using 1 p by linarith+
      with 1 p show ?thesis by (auto simp: mem_get_def m' nth_append)
    next
      case False
      with 1 show ?thesis by (simp add: mem_get_def)
    qed
  next
    case 2
    then have "m' ! nat q = xs ! nat (q - p)"
      using p by (auto simp: m' nth_append nat_diff_distrib)
    with 2 p len show ?thesis by (simp add: mem_get_def)
  next
    case 3
    then have n: "nat p + length xs \<le> nat q" using p by linarith
    then have "m' ! nat q = m ! nat q" if "nat q < length m"
    proof -
      have "\<not> nat q < nat p" "\<not> nat q - nat p < length xs" "nat p \<le> length m"
        using n p by linarith+
      then show ?thesis using that n by (simp add: m' nth_append min_absorb2)
    qed
    with 3 p len show ?thesis by (auto simp: mem_get_def)
  qed
qed

text \<open>A write is read back, and a read of other bytes does not see it.\<close>

lemma rd_wr_same:
  "wr16 m p x = Some m' \<Longrightarrow> rd16 m' p = Some x"
  "wr32 m p y = Some m' \<Longrightarrow> rd32 m' p = Some y"
  by (simp_all add: wr16_def wr32_def rd16_def rd32_def blit_get)

lemma rd_blit_other:
  assumes "blit m p xs = Some m'"
  shows "q + 1 \<le> p \<or> p + int (length xs) \<le> q \<Longrightarrow> rd8 m' q = rd8 m q"
    and "q + 2 \<le> p \<or> p + int (length xs) \<le> q \<Longrightarrow> rd16 m' q = rd16 m q"
    and "q + 4 \<le> p \<or> p + int (length xs) \<le> q \<Longrightarrow> rd32 m' q = rd32 m q"
  by (auto simp: rd8_def rd16_def rd32_def blit_get [OF assms])

lemma wr8_blit: "wr8 m p x = blit m p [x]"
  by (auto simp: wr8_def mem_put_def blit_def upd_conv_take_nth_drop)

lemma wr_ok:
  "0 \<le> p \<Longrightarrow> p + 1 \<le> int (length m) \<Longrightarrow> \<exists>m'. wr8 m p x = Some m'"
  "0 \<le> p \<Longrightarrow> p + 2 \<le> int (length m) \<Longrightarrow> \<exists>m'. wr16 m p y = Some m'"
  "0 \<le> p \<Longrightarrow> p + 4 \<le> int (length m) \<Longrightarrow> \<exists>m'. wr32 m p z = Some m'"
  by (simp_all add: wr8_blit wr16_def wr32_def blit_def)

lemma rd_ok:
  "0 \<le> p \<Longrightarrow> p + 1 \<le> int (length m) \<Longrightarrow> \<exists>x. rd8 m p = Some x"
  "0 \<le> p \<Longrightarrow> p + 2 \<le> int (length m) \<Longrightarrow> \<exists>x. rd16 m p = Some x"
  "0 \<le> p \<Longrightarrow> p + 4 \<le> int (length m) \<Longrightarrow> \<exists>x. rd32 m p = Some x"
  by (simp_all add: rd8_def rd16_def rd32_def mem_get_def)

lemma slice_blit_other:
  assumes "blit m p xs = Some m'" "q + n \<le> p \<or> p + int (length xs) \<le> q"
  shows "slice m' q n = slice m q n"
proof (cases "0 \<le> q \<and> 0 \<le> n \<and> q + n \<le> int (length m)")
  case True
  have len: "length m' = length m" using assms(1) by (rule blit_length)
  have "take (nat n) (drop (nat q) m') = take (nat n) (drop (nat q) m)"
  proof (rule nth_equalityI)
    show "length (take (nat n) (drop (nat q) m')) = length (take (nat n) (drop (nat q) m))"
      using len by simp
    fix k assume "k < length (take (nat n) (drop (nat q) m'))"
    then have k: "k < nat n" "nat q + k < length m" using len by auto
    then have eq: "nat (q + int k) = nat q + k" "q + int k < int (length m)" using True by linarith+
    have "mem_get m' (q + int k) = mem_get m (q + int k)"
      using blit_get [OF assms(1), of "q + int k"] assms(2) k True by auto
    then show "take (nat n) (drop (nat q) m') ! k = take (nat n) (drop (nat q) m) ! k"
      using k len True eq by (simp add: mem_get_def)
  qed
  with True len show ?thesis by (simp add: slice_def)
next
  case False
  with blit_length [OF assms(1)] show ?thesis by (auto simp: slice_def)
qed

text \<open>The same per byte: what a read at \<open>q\<close> sees after a write at \<open>p\<close>.\<close>

lemma wr_get:
  "wr8 m p x = Some m' \<Longrightarrow> mem_get m' q = (if q = p then Some x else mem_get m q)"
  "wr16 m p y = Some m' \<Longrightarrow> mem_get m' q =
     (if q = p then Some (byte_of 0 y) else if q = p + 1 then Some (byte_of 1 y) else mem_get m q)"
proof -
  assume "wr8 m p x = Some m'"
  then show "mem_get m' q = (if q = p then Some x else mem_get m q)"
    unfolding wr8_blit by (auto simp: blit_get)
next
  assume w: "wr16 m p y = Some m'"
  have "p \<le> q \<and> q < p + 2 \<longleftrightarrow> q = p \<or> q = p + 1" by auto
  with w show "mem_get m' q =
     (if q = p then Some (byte_of 0 y) else if q = p + 1 then Some (byte_of 1 y) else mem_get m q)"
    unfolding wr16_def by (auto simp: blit_get)
qed

lemma wr_length:
  "wr8 m p x = Some m' \<Longrightarrow> length m' = length m"
  "wr16 m p y = Some m' \<Longrightarrow> length m' = length m"
  "wr32 m p z = Some m' \<Longrightarrow> length m' = length m"
  by (auto simp: wr8_blit wr16_def wr32_def dest: blit_length)

lemma bit_get_byte:
  assumes "off + len \<le> 8"
  shows "bit_get (uint (word_of_int x :: byte)) len off = bit_get x len off"
  unfolding bit_get_eq using assms
  by (intro bit_eqI) (auto simp: bit_take_bit_iff bit_drop_bit_eq uint_word_of_int_eq)

end
