(* ===== verification/Netpkt.thy ===== *)
theory Netpkt
  imports Bytes
begin

unbundle bit_operations_syntax

text \<open>
  \<open>netpkt.c\<close>, \<open>netpkt.h\<close>, \<open>netpkt_inet.h\<close>: parsing and building packets in place. A packet refers to
  a buffer (\<open>pkt_buf\<close>, all the memory the packet's pointers may touch); its header pointers are offsets
  into the buffer. Fields are read and written at the offsets of the packed structures:
  ethernet \<open>ether_dhost\<close> 0, \<open>ether_shost\<close> 6, \<open>ether_type\<close> 12 (size 14); IP \<open>vh\<close> 0, \<open>len\<close> 2, \<open>id\<close> 4,
  \<open>ttl\<close> 8, \<open>p\<close> 9, \<open>sum\<close> 10, \<open>src\<close> 12, \<open>dst\<close> 16 (20); TCP \<open>source\<close> 0, \<open>dest\<close> 2, \<open>seq\<close> 4, \<open>ack_seq\<close> 8,
  \<open>doffres\<close> 12, \<open>resflags\<close> 13, \<open>window\<close> 14, \<open>check\<close> 16 (20); UDP \<open>source\<close> 0, \<open>dest\<close> 2, \<open>len\<close> 4,
  \<open>check\<close> 6 (8); ICMP size 8; ARP size 28. \<open>None\<close> is an access outside the buffer. Not modelled: the
  \<open>netpkt_fmt\<close> family, which formats packets for the log.
\<close>

record netpkt =
  pkt_buf :: mem
  pkt_raw :: int
  pkt_rawlen :: int
  pkt_msg :: int
  pkt_len :: int
  pkt_max :: int
  pkt_cksum_ok :: int
  pkt_flags :: int
  pkt_eth :: "int option"
  pkt_arp :: "int option"
  pkt_ip :: "int option"
  pkt_tcp :: "int option"
  pkt_udp :: "int option"
  pkt_icmp :: "int option"
  pkt_ip_opt :: "int option"
  pkt_ip_opt_len :: int
  pkt_tcp_opt :: "int option"
  pkt_tcp_opt_len :: int
  pkt_tcp_seq_diff :: int

section \<open>Header fields\<close>

definition ip_hl :: "mem \<Rightarrow> int \<Rightarrow> int option" where
  "ip_hl m ip = do { vh \<leftarrow> rd8 m ip; Some (bit_get (uint vh) 4 0) }"

definition ip_v :: "mem \<Rightarrow> int \<Rightarrow> int option" where
  "ip_v m ip = do { vh \<leftarrow> rd8 m ip; Some (bit_get (uint vh) 4 4) }"

definition ip_hl_set :: "mem \<Rightarrow> int \<Rightarrow> int \<Rightarrow> mem option" where
  "ip_hl_set m ip v = do { vh \<leftarrow> rd8 m ip; wr8 m ip (word_of_int (bit_set (uint vh) 4 0 v)) }"

definition ip_v_set :: "mem \<Rightarrow> int \<Rightarrow> int \<Rightarrow> mem option" where
  "ip_v_set m ip v = do { vh \<leftarrow> rd8 m ip; wr8 m ip (word_of_int (bit_set (uint vh) 4 4 v)) }"

definition ip_len :: "mem \<Rightarrow> int \<Rightarrow> int option" where
  "ip_len m ip = do { n \<leftarrow> rd16 m (ip + 2); Some (uint (ntohs n)) }"

definition tcp_doff :: "mem \<Rightarrow> int \<Rightarrow> int option" where
  "tcp_doff m tcp = do { b \<leftarrow> rd8 m (tcp + 12); Some (bit_get (uint b) 4 4) }"

definition tcp_doff_set :: "mem \<Rightarrow> int \<Rightarrow> int \<Rightarrow> mem option" where
  "tcp_doff_set m tcp v = do { b \<leftarrow> rd8 m (tcp + 12); wr8 m (tcp + 12) (word_of_int (bit_set (uint b) 4 4 v)) }"

text \<open>The six flag macros differ in the bit number: fin 0, syn 1, rst 2, psh 3, ack 4, urg 5.\<close>

definition tcp_flag :: "nat \<Rightarrow> mem \<Rightarrow> int \<Rightarrow> int option" where
  "tcp_flag k m tcp = do { b \<leftarrow> rd8 m (tcp + 13); Some (bit_get (uint b) 1 k) }"

definition tcp_flag_set :: "nat \<Rightarrow> mem \<Rightarrow> int \<Rightarrow> int \<Rightarrow> mem option" where
  "tcp_flag_set k m tcp v = do { b \<leftarrow> rd8 m (tcp + 13); wr8 m (tcp + 13) (word_of_int (bit_set (uint b) 1 k v)) }"

abbreviation tcp_fin where "tcp_fin \<equiv> tcp_flag 0"
abbreviation tcp_syn where "tcp_syn \<equiv> tcp_flag 1"
abbreviation tcp_rst where "tcp_rst \<equiv> tcp_flag 2"
abbreviation tcp_psh where "tcp_psh \<equiv> tcp_flag 3"
abbreviation tcp_ack where "tcp_ack \<equiv> tcp_flag 4"
abbreviation tcp_urg where "tcp_urg \<equiv> tcp_flag 5"

definition netpkt_ip_addr_src :: "netpkt \<Rightarrow> u32 option" where
  "netpkt_ip_addr_src pkt = (case pkt_ip pkt of None \<Rightarrow> Some 0 | Some ip \<Rightarrow> rd32 (pkt_buf pkt) (ip + 12))"

definition netpkt_ip_addr_dst :: "netpkt \<Rightarrow> u32 option" where
  "netpkt_ip_addr_dst pkt = (case pkt_ip pkt of None \<Rightarrow> Some 0 | Some ip \<Rightarrow> rd32 (pkt_buf pkt) (ip + 16))"

section \<open>Parsing\<close>

text \<open>The packet at offset \<open>data\<close> of the buffer.\<close>

definition netpkt_init_max :: "mem \<Rightarrow> int \<Rightarrow> int \<Rightarrow> int \<Rightarrow> netpkt" where
  "netpkt_init_max buf data len mx =
     \<lparr>pkt_buf = buf, pkt_raw = data, pkt_rawlen = len, pkt_msg = data, pkt_len = len, pkt_max = mx,
      pkt_cksum_ok = 0, pkt_flags = 0, pkt_eth = None, pkt_arp = None, pkt_ip = None, pkt_tcp = None,
      pkt_udp = None, pkt_icmp = None, pkt_ip_opt = None, pkt_ip_opt_len = 0, pkt_tcp_opt = None,
      pkt_tcp_opt_len = 0, pkt_tcp_seq_diff = 0\<rparr>"

definition netpkt_init :: "mem \<Rightarrow> int \<Rightarrow> int \<Rightarrow> netpkt" where
  "netpkt_init buf data len = netpkt_init_max buf data len len"

definition IPPROTO_ICMP :: byte where "IPPROTO_ICMP = 1"
definition IPPROTO_TCP :: byte where "IPPROTO_TCP = 6"
definition IPPROTO_UDP :: byte where "IPPROTO_UDP = 17"

definition parse_tcp :: "netpkt \<Rightarrow> netpkt option" where
  "parse_tcp pkt =
     do {
       let tcp = pkt_msg pkt;
       doff \<leftarrow> tcp_doff (pkt_buf pkt) tcp;
       let hdrlen = doff * 4;
           pkt = pkt\<lparr>pkt_tcp := Some tcp, pkt_msg := pkt_msg pkt + hdrlen, pkt_len := pkt_len pkt - hdrlen,
                     pkt_tcp_opt_len := hdrlen - 20\<rparr>
       in Some (if pkt_tcp_opt_len pkt > 0 then pkt\<lparr>pkt_tcp_opt := Some (tcp + 20)\<rparr> else pkt)
     }"

definition netpkt_parse_ip :: "netpkt \<Rightarrow> (netpkt \<times> int) option" where
  "netpkt_parse_ip pkt =
     do {
       let ip = pkt_msg pkt;
       let buf = pkt_buf pkt;
       hl \<leftarrow> ip_hl buf ip;
       n \<leftarrow> ip_len buf ip;
       let hdrlen = hl * 4;
       let pkt = pkt\<lparr>pkt_ip := Some ip, pkt_msg := pkt_msg pkt + hdrlen, pkt_len := n - hdrlen,
                     pkt_ip_opt_len := hdrlen - 20\<rparr>;
       let pkt = (if pkt_ip_opt_len pkt > 0 then pkt\<lparr>pkt_ip_opt := Some (ip + 20)\<rparr> else pkt);
       p \<leftarrow> rd8 buf (ip + 9);
       pkt \<leftarrow> (if p = IPPROTO_TCP then parse_tcp pkt
               else if p = IPPROTO_UDP then
                 Some (pkt\<lparr>pkt_udp := Some (pkt_msg pkt), pkt_msg := pkt_msg pkt + 8, pkt_len := pkt_len pkt - 8\<rparr>)
               else if p = IPPROTO_ICMP then
                 Some (pkt\<lparr>pkt_icmp := Some (pkt_msg pkt), pkt_msg := pkt_msg pkt + 8, pkt_len := pkt_len pkt - 8\<rparr>)
               else Some pkt);
       Some (pkt, 0)
     }"

definition netpkt_parse_arp :: "netpkt \<Rightarrow> (netpkt \<times> int) option" where
  "netpkt_parse_arp pkt =
     (let arp = pkt_msg pkt; msg = arp + 28
      in Some (pkt\<lparr>pkt_arp := Some arp, pkt_msg := msg, pkt_len := pkt_rawlen pkt - (msg - pkt_raw pkt)\<rparr>, 0))"

definition ETHERTYPE_IP :: int where "ETHERTYPE_IP = 0x0800"
definition ETHERTYPE_ARP :: int where "ETHERTYPE_ARP = 0x0806"
definition ETHERTYPE_TRAIL :: int where "ETHERTYPE_TRAIL = 0x1000"

definition netpkt_parse_ether :: "netpkt \<Rightarrow> (netpkt \<times> int) option" where
  "netpkt_parse_ether pkt =
     do {
       let eth = pkt_msg pkt;
       t \<leftarrow> rd16 (pkt_buf pkt) (eth + 12);
       let ether_type = uint (ntohs t);
           pkt = pkt\<lparr>pkt_eth := Some eth, pkt_msg := eth + 14\<rparr>;
           pkt = (if ether_type > ETHERTYPE_TRAIL
                  then pkt\<lparr>pkt_msg := pkt_msg pkt + (ether_type - ETHERTYPE_TRAIL) * 512\<rparr> else pkt)
       in if ether_type = ETHERTYPE_IP then netpkt_parse_ip pkt
          else if ether_type = ETHERTYPE_ARP then netpkt_parse_arp pkt
          else Some (pkt, - 1)
     }"

section \<open>Options\<close>

text \<open>
  One step of the option iterator: the type of the option at \<open>p\<close> (or at \<open>start\<close>), the position behind
  it, and its data. \<open>char\<close> is signed: type and length bytes above 127 are negative.
\<close>

definition netpkt_ip_opt_next ::
    "mem \<Rightarrow> int option \<Rightarrow> int \<Rightarrow> int option \<Rightarrow> int option \<Rightarrow> int \<Rightarrow>
     (int \<times> int option \<times> int option \<times> int) option" where
  "netpkt_ip_opt_next m start optlen p data len =
     (case start of None \<Rightarrow> if p = None then Some (0, p, data, len) else None
      | Some s \<Rightarrow>
        let e = s + optlen; p = (case p of None \<Rightarrow> s | Some p \<Rightarrow> p)
        in if p \<ge> e then Some (0, Some p, data, len)
           else do {
             c \<leftarrow> mem_get m p;
             let type = schar c
             in if type = 0 then Some (type, Some e, None, 0)
                else if type = 1 then Some (type, Some (p + 1), None, 0)
                else do {
                  l \<leftarrow> mem_get m (p + 1);
                  let len = schar l
                  in if len < 2 \<or> p + len > e then Some (0, Some e, None, 0)
                     else Some (type, Some (p + len), Some (p + 2), len - 2)
                }
           })"

definition netpkt_ip_opt_enum where
  "netpkt_ip_opt_enum pkt = netpkt_ip_opt_next (pkt_buf pkt) (pkt_ip_opt pkt) (pkt_ip_opt_len pkt)"

definition netpkt_tcp_opt_enum where
  "netpkt_tcp_opt_enum pkt = netpkt_ip_opt_next (pkt_buf pkt) (pkt_tcp_opt pkt) (pkt_tcp_opt_len pkt)"

text \<open>How far an iteration that has reached \<open>p\<close> still has to go.\<close>

definition opt_left :: "int option \<Rightarrow> int \<Rightarrow> int option \<Rightarrow> nat" where
  "opt_left start optlen p =
     (case start of None \<Rightarrow> 0
      | Some s \<Rightarrow> case p of None \<Rightarrow> Suc (nat optlen) | Some p \<Rightarrow> nat (s + optlen - p))"

lemma opt_next_advances:
  assumes "netpkt_ip_opt_next m start optlen p data len = Some (type, p', data', len')" "type \<noteq> 0"
  shows "opt_left start optlen p' < opt_left start optlen p"
  using assms by (auto simp: netpkt_ip_opt_next_def opt_left_def Let_def
      split: option.splits if_splits bind_splits)

definition TCP_OPT_SACKOK :: int where "TCP_OPT_SACKOK = 4"

function remove_sack_loop ::
    "netpkt \<Rightarrow> int option \<Rightarrow> int option \<Rightarrow> int \<Rightarrow> int \<Rightarrow> (netpkt \<times> int) option" where
  "remove_sack_loop pkt p data n ret =
     do {
       r \<leftarrow> netpkt_tcp_opt_enum pkt p data n;
       case r of (type, p, data, n) \<Rightarrow>
         if type = 0 then Some (pkt, ret)
         else if type = TCP_OPT_SACKOK then do {
           d \<leftarrow> data;
           buf \<leftarrow> mem_fill (pkt_buf pkt) (d - 2) (n + 2) 1;
           remove_sack_loop (pkt\<lparr>pkt_buf := buf\<rparr>) p data n 1
         }
         else remove_sack_loop pkt p data n ret
     }"
  by pat_completeness auto
termination
  by (relation "measure (\<lambda>(pkt, p, data, n, ret). opt_left (pkt_tcp_opt pkt) (pkt_tcp_opt_len pkt) p)")
    (auto simp: netpkt_tcp_opt_enum_def dest: opt_next_advances)

declare remove_sack_loop.simps [simp del]

definition netpkt_tcp_remove_sack :: "netpkt \<Rightarrow> (netpkt \<times> int) option" where
  "netpkt_tcp_remove_sack pkt =
     (case pkt_tcp pkt of None \<Rightarrow> Some (pkt, 0)
      | Some tcp \<Rightarrow> do {
          syn \<leftarrow> tcp_syn (pkt_buf pkt) tcp;
          if syn = 0 \<or> pkt_tcp_opt pkt = None then Some (pkt, 0)
          else remove_sack_loop pkt None None 0 0
        })"

section \<open>Sequence numbers\<close>

definition tcp_seq_diff :: "u32 \<Rightarrow> u32 \<Rightarrow> int" where
  "tcp_seq_diff a b = sint (a - b)"

definition tcp_seq_next :: "netpkt \<Rightarrow> u32 option" where
  "tcp_seq_next pkt =
     (case pkt_tcp pkt of None \<Rightarrow> Some 0
      | Some tcp \<Rightarrow> do {
          s \<leftarrow> rd32 (pkt_buf pkt) (tcp + 4);
          let seq = ntohl s + word_of_int (pkt_len pkt);
          syn \<leftarrow> tcp_syn (pkt_buf pkt) tcp;
          let seq = (if syn \<noteq> 0 then seq + 1 else seq);
          fin \<leftarrow> tcp_fin (pkt_buf pkt) tcp;
          Some (if fin \<noteq> 0 then seq + 1 else seq)
        })"

section \<open>Building\<close>

definition netpkt_new_eth_tcp :: "netpkt \<Rightarrow> int \<Rightarrow> (netpkt \<times> int) option" where
  "netpkt_new_eth_tcp pkt len =
     do {
       let start = pkt_msg pkt;
       let eth = start;
       let ip = eth + 14;
       let tcp = ip + 20;
       let msg = tcp + 20;
       let p = msg + len;
       let pkt = pkt\<lparr>pkt_eth := Some eth, pkt_ip := Some ip, pkt_tcp := Some tcp, pkt_msg := msg,
                     pkt_len := len, pkt_rawlen := p - pkt_raw pkt\<rparr>;
       m \<leftarrow> mem_fill (pkt_buf pkt) start (p - start) 0;
       m \<leftarrow> wr16 m (eth + 12) (htons (word_of_int ETHERTYPE_IP));
       m \<leftarrow> ip_v_set m ip 4;
       m \<leftarrow> ip_hl_set m ip 5;
       m \<leftarrow> wr16 m (ip + 2) (htons (word_of_int (p - ip)));
       m \<leftarrow> wr8 m (ip + 8) 255;
       m \<leftarrow> wr8 m (ip + 9) IPPROTO_TCP;
       m \<leftarrow> tcp_doff_set m tcp 5;
       Some (pkt\<lparr>pkt_buf := m\<rparr>, 0)
     }"

definition netpkt_new_tcp_len :: "netpkt \<Rightarrow> int \<Rightarrow> (netpkt \<times> int) option" where
  "netpkt_new_tcp_len pkt len =
     do {
       ip \<leftarrow> pkt_ip pkt;
       m \<leftarrow> wr16 (pkt_buf pkt) (ip + 2) (htons (word_of_int (pkt_msg pkt + len - ip)));
       Some (pkt\<lparr>pkt_len := len, pkt_buf := m, pkt_rawlen := pkt_msg pkt + len - pkt_raw pkt\<rparr>, 0)
     }"

definition flag_of :: "int \<Rightarrow> nat \<Rightarrow> int" where
  "flag_of flags k = (if flags AND (2 ^ k) \<noteq> 0 then 1 else 0)"

text \<open>\<open>TH_FIN\<close> is 1, \<open>TH_SYN\<close> 2, \<open>TH_RST\<close> 4, \<open>TH_PUSH\<close> 8, \<open>TH_ACK\<close> 16, \<open>TH_URG\<close> 32.\<close>

definition netpkt_new_tcp_flags :: "netpkt \<Rightarrow> int \<Rightarrow> (netpkt \<times> int) option" where
  "netpkt_new_tcp_flags pkt flags =
     do {
       tcp \<leftarrow> pkt_tcp pkt;
       m \<leftarrow> tcp_flag_set 1 (pkt_buf pkt) tcp (flag_of flags 1);
       m \<leftarrow> tcp_flag_set 4 m tcp (flag_of flags 4);
       m \<leftarrow> tcp_flag_set 0 m tcp (flag_of flags 0);
       m \<leftarrow> tcp_flag_set 2 m tcp (flag_of flags 2);
       m \<leftarrow> tcp_flag_set 5 m tcp (flag_of flags 5);
       m \<leftarrow> tcp_flag_set 3 m tcp (flag_of flags 3);
       Some (pkt\<lparr>pkt_buf := m\<rparr>, 0)
     }"

definition netpkt_new_ip_opt :: "netpkt \<Rightarrow> int \<Rightarrow> int \<Rightarrow> mem \<Rightarrow> int" where
  "netpkt_new_ip_opt pkt type len data = - 1"

definition netpkt_new_tcp_opt :: "netpkt \<Rightarrow> int \<Rightarrow> int \<Rightarrow> mem \<Rightarrow> int" where
  "netpkt_new_tcp_opt pkt type len data = - 1"

text \<open>Returns the new start of the packet.\<close>

definition netpkt_add_hdr :: "netpkt \<Rightarrow> int \<Rightarrow> netpkt \<times> int" where
  "netpkt_add_hdr pkt len =
     (let pkt = pkt\<lparr>pkt_raw := pkt_raw pkt - len, pkt_rawlen := pkt_rawlen pkt + len\<rparr> in (pkt, pkt_raw pkt))"

text \<open>A packet with its own buffer of 2048 bytes, embedded in \<open>pb_pkt\<close>.\<close>

record PktBuf =
  pb_from :: int
  pb_max :: int
  pb_len :: int
  pb_pkt :: netpkt

definition pktbuf_init :: "PktBuf \<Rightarrow> PktBuf" where
  "pktbuf_init b =
     b\<lparr>pb_from := 0, pb_len := 0, pb_max := int (length (pkt_buf (pb_pkt b))),
       pb_pkt := netpkt_init (pkt_buf (pb_pkt b)) 0 0\<rparr>"

section \<open>Names\<close>

text \<open>Protocol names; other numbers are printed in decimal.\<close>

definition name_or_dec :: "(int \<times> string) list \<Rightarrow> int \<Rightarrow> string" where
  "name_or_dec tab n = (case map_of tab n of Some s \<Rightarrow> s | None \<Rightarrow> dec_int n)"

definition netpkt_icmp_code2str :: "int \<Rightarrow> string" where
  "netpkt_icmp_code2str = name_or_dec
     [(0, ''ECHOREPLY''), (3, ''DEST_UNREACH''), (4, ''SOURCE_QUENCH''), (5, ''REDIRECT''), (8, ''ECHO''),
      (11, ''TIME_EXCEEDED''), (12, ''PARAMETERPROB''), (13, ''TIMESTAMP''), (14, ''TIMESTAMPREPLY''),
      (15, ''INFO_REQUEST''), (16, ''INFO_REPLY''), (17, ''ADDRESS''), (18, ''ADDRESSREPLY'')]"

definition netpkt_ip_proto2str :: "int \<Rightarrow> string" where
  "netpkt_ip_proto2str = name_or_dec
     [(0, ''HOPOPTS''), (1, ''ICMP''), (2, ''IGMP''), (4, ''IPIP''), (6, ''TCP''), (8, ''EGP''), (12, ''PUP''),
      (17, ''UDP''), (22, ''IDP''), (29, ''TP''), (41, ''IPV6''), (43, ''ROUTING''), (44, ''FRAGMENT''),
      (46, ''RSVP''), (47, ''GRE''), (50, ''ESP''), (51, ''AH''), (58, ''ICMPV6''), (59, ''NONE''),
      (60, ''DSTOPTS''), (92, ''MTP''), (98, ''ENCAP''), (103, ''PIM''), (108, ''COMP''), (255, ''RAW'')]"

definition netpkt_ether_type2str :: "int \<Rightarrow> string" where
  "netpkt_ether_type2str = name_or_dec
     [(0x0200, ''PUP''), (0x0800, ''IP''), (0x0806, ''ARP''), (0x8035, ''REVARP'')]"

definition netpkt_proto_fmt :: "int \<Rightarrow> string" where
  "netpkt_proto_fmt proto =
     (case map_of [(1, ''icmp''), (6, ''tcp''), (17, ''udp'')] proto of Some s \<Rightarrow> s
      | None \<Rightarrow> ''unknown('' @ dec_int proto @ '')'')"

section \<open>Parsed packets\<close>

text \<open>
  The message of a parsed IP packet ends where the IP header says the packet ends, whatever the
  transport protocol and the header lengths.
\<close>

lemma parse_tcp_end: "parse_tcp pkt = Some pkt' \<Longrightarrow> pkt_msg pkt' + pkt_len pkt' = pkt_msg pkt + pkt_len pkt \<and>
    pkt_ip pkt' = pkt_ip pkt \<and> pkt_buf pkt' = pkt_buf pkt \<and> pkt_udp pkt' = pkt_udp pkt \<and>
    pkt_icmp pkt' = pkt_icmp pkt \<and> pkt_tcp pkt' = Some (pkt_msg pkt) \<and>
    (\<exists>doff. tcp_doff (pkt_buf pkt) (pkt_msg pkt) = Some doff \<and> pkt_msg pkt' = pkt_msg pkt + 4 * doff)"
  by (auto simp: parse_tcp_def Let_def split: bind_splits if_splits)

section \<open>Option lists\<close>

text \<open>The meaning of option bytes, and of overwriting every SACK-permitted option by no-ops.\<close>

fun opts :: "byte list \<Rightarrow> (int \<times> byte list) list" where
  "opts [] = []"
| "opts (t # xs) =
     (if t = 0 then [] else if t = 1 then (1, []) # opts xs
      else case xs of [] \<Rightarrow> []
        | l # ys \<Rightarrow> if schar l < 2 \<or> schar l - 2 > int (length ys) then []
            else (schar t, take (nat (schar l) - 2) ys) # opts (drop (nat (schar l) - 2) ys))"

fun strip_sackok :: "byte list \<Rightarrow> byte list" where
  "strip_sackok [] = []"
| "strip_sackok (t # xs) =
     (if t = 0 then t # xs else if t = 1 then t # strip_sackok xs
      else case xs of [] \<Rightarrow> t # xs
        | l # ys \<Rightarrow> if schar l < 2 \<or> schar l - 2 > int (length ys) then t # xs
            else (if t = 4 then replicate (nat (schar l)) 1 else t # l # take (nat (schar l) - 2) ys) @
              strip_sackok (drop (nat (schar l) - 2) ys))"

lemma length_strip [simp]: "length (strip_sackok xs) = length xs"
proof (induction xs rule: strip_sackok.induct)
  case (2 t xs)
  then show ?case by (cases xs) (auto simp: Let_def)
qed simp

lemma schar_eq: "schar t = 0 \<longleftrightarrow> t = 0" "schar t = 1 \<longleftrightarrow> t = 1" "schar t = 4 \<longleftrightarrow> t = 4"
proof -
  have "schar t = schar u \<longleftrightarrow> t = u" for u
    by (auto simp: schar_def intro: signed_word_eqI)
  from this [of 0] this [of 1] this [of 4]
  show "schar t = 0 \<longleftrightarrow> t = 0" "schar t = 1 \<longleftrightarrow> t = 1" "schar t = 4 \<longleftrightarrow> t = 4" by (simp_all add: schar_def)
qed

lemma opts_noops: "opts (replicate n 1 @ xs) = replicate n (1, []) @ opts xs"
  by (induction n) auto

lemma opts_strip: "opts (strip_sackok xs) =
    concat (map (\<lambda>(t, d). if t = 4 then replicate (length d + 2) (1, []) else [(t, d)]) (opts xs))"
proof (induction xs rule: strip_sackok.induct)
  case (2 t xs)
  show ?case
  proof (cases "t = 0 \<or> t = 1")
    case True
    with 2 show ?thesis by (auto simp: schar_eq)
  next
    case False
    show ?thesis
    proof (cases xs)
      case Nil
      with False show ?thesis by simp
    next
      case (Cons l ys)
      show ?thesis
      proof (cases "schar l < 2 \<or> schar l - 2 > int (length ys)")
        case True
        with False Cons show ?thesis by (auto split: list.split)
      next
        case ok: False
        let ?d = "take (nat (schar l) - 2) ys" and ?r = "drop (nat (schar l) - 2) ys"
        have IH: "opts (strip_sackok ?r) =
            concat (map (\<lambda>(t, d). if t = 4 then replicate (length d + 2) (1, []) else [(t, d)]) (opts ?r))"
          using 2(2) [of l ys] False Cons ok by auto
        have len: "length ?d + 2 = nat (schar l)" using ok by auto
        show ?thesis
        proof (cases "t = 4")
          case True
          have "strip_sackok (t # xs) = replicate (nat (schar l)) 1 @ strip_sackok ?r"
            using True Cons ok by auto
          moreover have "opts (t # xs) = (4, ?d) # opts ?r" using True Cons ok by (auto simp: schar_eq)
          ultimately show ?thesis
            by (simp only: opts_noops IH list.map concat.simps prod.case refl if_True len)
        next
          case t4: False
          have "strip_sackok (t # xs) = t # l # ?d @ strip_sackok ?r"
            using False t4 Cons ok by auto
          moreover have "opts (t # l # ?d @ strip_sackok ?r) = (schar t, ?d) # opts (strip_sackok ?r)"
            using False ok by auto
          moreover have "opts (t # xs) = (schar t, ?d) # opts ?r" using False Cons ok by auto
          moreover have "schar t \<noteq> 4" using t4 by (simp add: schar_eq)
          ultimately show ?thesis using IH by simp
        qed
      qed
    qed
  qed
qed simp

text \<open>The iterator on a buffer whose options from \<open>p\<close> on are \<open>R\<close>, followed by at least one byte.\<close>

lemma opt_next_at:
  assumes m: "m = A @ R @ b # C" and p: "p = int (length A)" and e: "s + optlen = p + int (length R)"
  shows "netpkt_ip_opt_next m (Some s) optlen (Some p) data len =
    Some (case R of [] \<Rightarrow> (0, Some p, data, len)
      | t # xs \<Rightarrow> if t = 0 then (0, Some (s + optlen), None, 0) else if t = 1 then (1, Some (p + 1), None, 0)
          else case xs of [] \<Rightarrow> (0, Some (s + optlen), None, 0)
          | l # ys \<Rightarrow> if schar l < 2 \<or> schar l - 2 > int (length ys) then (0, Some (s + optlen), None, 0)
              else (schar t, Some (p + schar l), Some (p + 2), schar l - 2))"
proof (cases R)
  case Nil
  with e show ?thesis by (simp add: netpkt_ip_opt_next_def)
next
  case (Cons t xs)
  have g: "mem_get m p = Some t" "mem_get m (p + 1) = (case xs of [] \<Rightarrow> Some b | l # ys \<Rightarrow> Some l)"
    using mem_get_append_right [of A "R @ b # C" 0] mem_get_append_right [of A "R @ b # C" 1]
    by (simp_all add: m p Cons mem_get_def split: list.split)
  have lt: "p < s + optlen" using e Cons by simp
  show ?thesis
    using Cons g lt e by (cases xs) (auto simp: netpkt_ip_opt_next_def Let_def schar_eq)
qed

lemma opt_next_start: "netpkt_ip_opt_next m (Some s) optlen None data len =
    netpkt_ip_opt_next m (Some s) optlen (Some s) data len"
  by (simp add: netpkt_ip_opt_next_def)

text \<open>What a client of the iterator sees: the options with their data bytes, in order.\<close>

function opt_collect ::
    "mem \<Rightarrow> int option \<Rightarrow> int \<Rightarrow> int option \<Rightarrow> int option \<Rightarrow> int \<Rightarrow> (int \<times> byte list) list option" where
  "opt_collect m start optlen p data n =
     do {
       r \<leftarrow> netpkt_ip_opt_next m start optlen p data n;
       case r of (type, p, data, n) \<Rightarrow>
         if type = 0 then Some []
         else do {
           d \<leftarrow> (case data of None \<Rightarrow> Some [] | Some d \<Rightarrow> slice m d n);
           os \<leftarrow> opt_collect m start optlen p data n;
           Some ((type, d) # os)
         }
     }"
  by pat_completeness auto
termination
  by (relation "measure (\<lambda>(m, start, optlen, p, data, n). opt_left start optlen p)")
    (auto dest: opt_next_advances)

declare opt_collect.simps [simp del]

lemma opt_collect_at:
  assumes "m = A @ R @ b # C" "p = int (length A)" "s + optlen = p + int (length R)"
  shows "opt_collect m (Some s) optlen (Some p) data n = Some (opts R)"
  using assms
proof (induction "length R" arbitrary: A R p data n rule: less_induct)
  case less
  note at = opt_next_at [OF less.prems, of data n]
  note step = opt_collect.simps [of m "Some s" optlen "Some p" data n]
  consider "R = []" | xs where "R = 0 # xs" | xs where "R = 1 # xs" | t where "R = [t]" "t \<noteq> 0" "t \<noteq> 1"
    | t l ys where "R = t # l # ys" "t \<noteq> 0" "t \<noteq> 1" "schar l < 2 \<or> schar l - 2 > int (length ys)"
    | t l ys where "R = t # l # ys" "t \<noteq> 0" "t \<noteq> 1" "\<not> (schar l < 2 \<or> schar l - 2 > int (length ys))"
    by (metis list.exhaust)
  then show ?case
  proof cases
    case (3 xs)
    have "opt_collect m (Some s) optlen (Some (p + 1)) None 0 = Some (opts xs)"
      by (rule less.hyps [of xs "A @ [1]"]) (use less.prems 3 in auto)
    with at step 3 show ?thesis by simp
  next
    case (6 t l ys)
    define k where "k = nat (schar l) - 2"
    have k: "k \<le> length ys" "schar l = int k + 2" "nat (int k + 2) - 2 = k" using 6(4) by (auto simp: k_def)
    have nz: "schar t \<noteq> 0" using 6 by (simp add: schar_eq)
    have "slice m (p + 2) (int k) = Some (take k ys)"
      using less.prems(1,2) 6(1) k(1) by (simp add: slice_def nat_add_distrib)
    moreover have "opt_collect m (Some s) optlen (Some (p + schar l)) (Some (p + 2)) (int k) = Some (opts (drop k ys))"
      by (rule less.hyps [of "drop k ys" "A @ t # l # take k ys"]) (use less.prems 6(1) k in auto)
    ultimately show ?thesis using at step 6 nz k by simp
  qed (use at step in simp_all)
qed

lemma remove_sack_loop_at:
  assumes "pkt_buf pkt = A @ R @ b # C" "p = int (length A)" "pkt_tcp_opt pkt = Some s"
    "s + pkt_tcp_opt_len pkt = p + int (length R)"
  shows "remove_sack_loop pkt (Some p) data n ret =
    Some (pkt\<lparr>pkt_buf := A @ strip_sackok R @ b # C\<rparr>, if \<exists>d. (4, d) \<in> set (opts R) then 1 else ret)"
  using assms
proof (induction "length R" arbitrary: A R p data n ret pkt rule: less_induct)
  case less
  note at = opt_next_at [OF less.prems(1,2,4), of data n]
  have same: "pkt\<lparr>pkt_buf := A @ R @ b # C\<rparr> = pkt" using less.prems(1) by simp
  note step = remove_sack_loop.simps [of pkt "Some p" data n ret]
  consider "R = []" | xs where "R = 0 # xs" | xs where "R = 1 # xs" | t where "R = [t]" "t \<noteq> 0" "t \<noteq> 1"
    | t l ys where "R = t # l # ys" "t \<noteq> 0" "t \<noteq> 1" "schar l < 2 \<or> schar l - 2 > int (length ys)"
    | t l ys where "R = t # l # ys" "t \<noteq> 0" "t \<noteq> 1" "\<not> (schar l < 2 \<or> schar l - 2 > int (length ys))"
    by (metis list.exhaust)
  then show ?case
  proof cases
    case (3 xs)
    have "remove_sack_loop pkt (Some (p + 1)) None 0 ret =
        Some (pkt\<lparr>pkt_buf := (A @ [1]) @ strip_sackok xs @ b # C\<rparr>, if \<exists>d. (4, d) \<in> set (opts xs) then 1 else ret)"
      by (rule less.hyps) (use less.prems 3 in auto)
    with at step 3 less.prems(3) show ?thesis by (simp add: netpkt_tcp_opt_enum_def TCP_OPT_SACKOK_def)
  next
    case (6 t l ys)
    define k where "k = nat (schar l) - 2"
    have k: "k \<le> length ys" "schar l = int k + 2" "nat (schar l) = k + 2" "nat (int k + 2) - 2 = k" "nat (int k + 2) = k + 2"
      using 6(4) by (auto simp: k_def)
    have nz: "schar t \<noteq> 0" using 6 by (simp add: schar_eq)
    have len: "length (drop k ys) < length R" using 6(1) by simp
    have R: "R = t # l # take k ys @ drop k ys" using 6(1) by simp
    show ?thesis
    proof (cases "t = 4")
      case False
      have "remove_sack_loop pkt (Some (p + schar l)) (Some (p + 2)) (int k) ret =
          Some (pkt\<lparr>pkt_buf := (A @ t # l # take k ys) @ strip_sackok (drop k ys) @ b # C\<rparr>,
            if \<exists>d. (4, d) \<in> set (opts (drop k ys)) then 1 else ret)"
        by (rule less.hyps [OF len]) (use less.prems 6(1) k in auto)
      moreover have "schar t \<noteq> 4" using False by (simp add: schar_eq)
      ultimately show ?thesis using at step 6 nz k less.prems(3) False
        by (simp add: netpkt_tcp_opt_enum_def TCP_OPT_SACKOK_def)
    next
      case True
      let ?buf = "(A @ replicate (k + 2) 1) @ drop k ys @ b # C"
      have "pkt_buf pkt = A @ (t # l # take k ys) @ drop k ys @ b # C" using less.prems(1) R by simp
      then have fill: "mem_fill (pkt_buf pkt) p (int k + 2) 1 = Some ?buf"
        using k(1) less.prems(2) by (simp add: mem_fill_def blit_def nat_add_distrib)
      let ?pkt = "pkt\<lparr>pkt_buf := ?buf\<rparr>"
      have "remove_sack_loop ?pkt (Some (p + schar l)) (Some (p + 2)) (int k) 1 =
          Some (?pkt\<lparr>pkt_buf := (A @ replicate (k + 2) 1) @ strip_sackok (drop k ys) @ b # C\<rparr>,
            if \<exists>d. (4, d) \<in> set (opts (drop k ys)) then 1 else 1)"
        by (rule less.hyps [OF len]) (use less.prems 6(1) k in auto)
      moreover have "schar t = 4" using True by (simp add: schar_eq)
      moreover have "strip_sackok R = replicate (k + 2) 1 @ strip_sackok (drop k ys)"
        using 6 True k by simp
      moreover have "opts R = (4, take k ys) # opts (drop k ys)"
        using 6 True k calculation(2) by simp
      ultimately show ?thesis using at step 6 nz k less.prems(3) fill
        by (auto simp: netpkt_tcp_opt_enum_def TCP_OPT_SACKOK_def simp del: replicate_add add_2_eq_Suc')
    qed
  qed (use at step same less.prems(3) in \<open>simp_all add: netpkt_tcp_opt_enum_def\<close>)
qed

section \<open>Flags\<close>

lemma tcp_flag_set_spec:
  assumes "0 \<le> tcp" "tcp + 20 \<le> int (length m)" "v \<in> {0, 1}" "k < 8"
  shows "\<exists>m'. tcp_flag_set k m tcp v = Some m' \<and> tcp_flag k m' tcp = Some v \<and>
    (\<forall>j < 8. j \<noteq> k \<longrightarrow> tcp_flag j m' tcp = tcp_flag j m tcp) \<and> length m' = length m \<and>
    (\<forall>q. q \<noteq> tcp + 13 \<longrightarrow> mem_get m' q = mem_get m q)"
proof -
  obtain b where b: "rd8 m (tcp + 13) = Some b" using rd_ok(1) [of "tcp + 13" m] assms by auto
  define x :: byte where "x = word_of_int (bit_set (uint b) 1 k v)"
  obtain m' where m': "wr8 m (tcp + 13) x = Some m'"
    using wr_ok(1) [of "tcp + 13" m x] assms by auto
  have "rd8 m' (tcp + 13) = Some x" using wr_get(1) [OF m'] by (simp add: rd8_def)
  moreover have "bit_get (uint x) 1 k = v"
    using assms by (auto simp: x_def bit_get_byte bit_get_set_same)
  moreover have "bit_get (uint x) 1 j = bit_get (uint b) 1 j" if "j < 8" "j \<noteq> k" for j
    using assms that by (cases j k rule: linorder_cases) (auto simp: x_def bit_get_byte intro!: bit_get_set_other)
  ultimately show ?thesis using b m' wr_get(1) [OF m'] wr_length(1) [OF m']
    by (simp add: tcp_flag_set_def tcp_flag_def x_def)
qed

lemma flag_of_01: "flag_of f k \<in> {0, 1}"
  by (simp add: flag_of_def)

section \<open>Properties\<close>

text \<open>
  Iterating over the TCP options of a packet terminates and yields exactly the options their bytes
  describe, each with its data, whatever the bytes are; it reads nothing beyond the byte behind the
  option area.
\<close>

theorem tcp_options_enumerated:
  assumes "pkt_tcp_opt pkt = Some s" "0 \<le> s" "0 \<le> pkt_tcp_opt_len pkt"
    "s + pkt_tcp_opt_len pkt < int (length (pkt_buf pkt))"
  shows "opt_collect (pkt_buf pkt) (pkt_tcp_opt pkt) (pkt_tcp_opt_len pkt) None None 0 =
    Some (opts (take (nat (pkt_tcp_opt_len pkt)) (drop (nat s) (pkt_buf pkt))))"
proof -
  let ?n = "nat (pkt_tcp_opt_len pkt)"
  obtain A R b C where d: "pkt_buf pkt = A @ R @ b # C" "length A = nat s" "length R = ?n"
    "R = take ?n (drop (nat s) (pkt_buf pkt))"
  proof -
    have "nat s + ?n < length (pkt_buf pkt)" using assms(2-4) by linarith
    from buffer_split [OF this] that show thesis by blast
  qed
  have "opt_collect (pkt_buf pkt) (Some s) (pkt_tcp_opt_len pkt) (Some s) None 0 = Some (opts R)"
    using d(2,3) assms(2,3) by (intro opt_collect_at [OF d(1)]) simp_all
  moreover have "opt_collect (pkt_buf pkt) (Some s) (pkt_tcp_opt_len pkt) None None 0 =
      opt_collect (pkt_buf pkt) (Some s) (pkt_tcp_opt_len pkt) (Some s) None 0"
    by (simp only: opt_collect.simps [of _ _ _ None] opt_collect.simps [of _ _ _ "Some s"] opt_next_start)
  ultimately show ?thesis by (simp only: assms(1) d(4) [symmetric])
qed

theorem tcp_options_enumerated_witness:
  "opt_collect ([1, 2, 4, 5, 180, 1, 4, 2, 0, 9]) (Some 1) 8 None None 0 = Some [(2, [5, 180]), (1, []), (4, [])]"
proof -
  let ?pkt = "(netpkt_init [1, 2, 4, 5, 180, 1, 4, 2, 0, 9] 0 10)\<lparr>pkt_tcp_opt := Some 1, pkt_tcp_opt_len := 8\<rparr>"
  have "opts [2, 4, 5, 180, 1, 4, 2, 0] = [(2, [5, 180]), (1, []), (4, [])]"
    by (simp add: schar_def)
  with tcp_options_enumerated [of ?pkt 1] show ?thesis
    by (simp add: netpkt_init_def netpkt_init_max_def)
qed

text \<open>
  C9. Removing SACK from a SYN packet terminates, writes only inside the option area, turns every
  SACK-permitted option into no-ops of the same length, keeps every other option with its data, and
  returns 1 exactly when there was one.
\<close>

theorem remove_sack_correct:
  assumes "pkt_tcp pkt = Some tcp" "tcp_syn (pkt_buf pkt) tcp = Some 1" "pkt_tcp_opt pkt = Some s"
    "pkt_buf pkt = A @ R @ b # C" "s = int (length A)" "pkt_tcp_opt_len pkt = int (length R)"
  shows "\<exists>R' r. netpkt_tcp_remove_sack pkt = Some (pkt\<lparr>pkt_buf := A @ R' @ b # C\<rparr>, r) \<and>
    length R' = length R \<and> (r = 1 \<longleftrightarrow> (\<exists>d. (4, d) \<in> set (opts R))) \<and>
    opts R' = concat (map (\<lambda>(t, d). if t = 4 then replicate (length d + 2) (1, []) else [(t, d)]) (opts R))"
proof -
  have "remove_sack_loop pkt None None 0 0 = remove_sack_loop pkt (Some s) None 0 0"
    by (subst (1 2) remove_sack_loop.simps) (simp add: netpkt_tcp_opt_enum_def assms(3) opt_next_start)
  also have "\<dots> = Some (pkt\<lparr>pkt_buf := A @ strip_sackok R @ b # C\<rparr>, if \<exists>d. (4, d) \<in> set (opts R) then 1 else 0)"
    using assms by (intro remove_sack_loop_at) simp_all
  finally have "netpkt_tcp_remove_sack pkt =
      Some (pkt\<lparr>pkt_buf := A @ strip_sackok R @ b # C\<rparr>, if \<exists>d. (4, d) \<in> set (opts R) then 1 else 0)"
    using assms(1-3) by (simp add: netpkt_tcp_remove_sack_def)
  then show ?thesis using opts_strip [of R] by (intro exI [of _ "strip_sackok R"]) auto
qed

theorem remove_sack_correct_witness:
  "\<exists>R' r. netpkt_tcp_remove_sack ((netpkt_init (replicate 13 0 @ [2, 0, 0, 0, 0, 0, 0] @ [4, 2, 1] @ [9]) 0 24)
      \<lparr>pkt_tcp := Some 0, pkt_tcp_opt := Some 20, pkt_tcp_opt_len := 3\<rparr>) = Some R' \<and> snd R' = r \<and> r = 1"
proof -
  let ?A = "replicate 13 0 @ [2, 0, 0, 0, 0, 0, 0] :: byte list"
  let ?pkt = "(netpkt_init (?A @ [4, 2, 1] @ 9 # []) 0 24)
      \<lparr>pkt_tcp := Some 0, pkt_tcp_opt := Some 20, pkt_tcp_opt_len := 3\<rparr>"
  have "tcp_syn (pkt_buf ?pkt) 0 = Some 1"
    by (simp add: tcp_flag_def rd8_def mem_get_def netpkt_init_def netpkt_init_max_def nth_append bit_get_def)
  moreover have "(4, []) \<in> set (opts [4, 2, 1])" by (simp add: schar_def)
  ultimately show ?thesis
    using remove_sack_correct [of ?pkt 0 20 ?A "[4, 2, 1]" 9 "[]"]
    by (fastforce simp: netpkt_init_def netpkt_init_max_def)
qed

text \<open>
  Setting the flags of a TCP header makes each of the six flags read back as requested and leaves
  every other byte of the packet and the two reserved bits as they were.
\<close>

theorem tcp_flags_roundtrip:
  assumes "pkt_tcp pkt = Some tcp" "0 \<le> tcp" "tcp + 20 \<le> int (length (pkt_buf pkt))"
  shows "\<exists>m. netpkt_new_tcp_flags pkt flags = Some (pkt\<lparr>pkt_buf := m\<rparr>, 0) \<and> length m = length (pkt_buf pkt) \<and>
    (\<forall>k < 6. tcp_flag k m tcp = Some (flag_of flags k)) \<and>
    (\<forall>k. 6 \<le> k \<and> k < 8 \<longrightarrow> tcp_flag k m tcp = tcp_flag k (pkt_buf pkt) tcp) \<and>
    (\<forall>q. q \<noteq> tcp + 13 \<longrightarrow> mem_get m q = mem_get (pkt_buf pkt) q)"
proof -
  let ?f = "flag_of flags"
  have step: "\<exists>m'. tcp_flag_set k m tcp (?f k) = Some m' \<and> tcp_flag k m' tcp = Some (?f k) \<and>
    (\<forall>j < 8. j \<noteq> k \<longrightarrow> tcp_flag j m' tcp = tcp_flag j m tcp) \<and> length m' = length m \<and>
    (\<forall>q. q \<noteq> tcp + 13 \<longrightarrow> mem_get m' q = mem_get m q)"
    if "length m = length (pkt_buf pkt)" "k < 8" for k m
    using tcp_flag_set_spec [of tcp m "?f k" k] that assms(2,3) flag_of_01 by auto
  obtain m1 where m1: "tcp_flag_set 1 (pkt_buf pkt) tcp (?f 1) = Some m1" "tcp_flag 1 m1 tcp = Some (?f 1)"
    "\<forall>j < 8. j \<noteq> 1 \<longrightarrow> tcp_flag j m1 tcp = tcp_flag j (pkt_buf pkt) tcp" "length m1 = length (pkt_buf pkt)"
    "\<forall>q. q \<noteq> tcp + 13 \<longrightarrow> mem_get m1 q = mem_get (pkt_buf pkt) q" using step [of "pkt_buf pkt" 1] by auto
  obtain m2 where m2: "tcp_flag_set 4 m1 tcp (?f 4) = Some m2" "tcp_flag 4 m2 tcp = Some (?f 4)"
    "\<forall>j < 8. j \<noteq> 4 \<longrightarrow> tcp_flag j m2 tcp = tcp_flag j m1 tcp" "length m2 = length (pkt_buf pkt)"
    "\<forall>q. q \<noteq> tcp + 13 \<longrightarrow> mem_get m2 q = mem_get m1 q" using step [OF m1(4), of 4] m1(4) by auto
  obtain m3 where m3: "tcp_flag_set 0 m2 tcp (?f 0) = Some m3" "tcp_flag 0 m3 tcp = Some (?f 0)"
    "\<forall>j < 8. j \<noteq> 0 \<longrightarrow> tcp_flag j m3 tcp = tcp_flag j m2 tcp" "length m3 = length (pkt_buf pkt)"
    "\<forall>q. q \<noteq> tcp + 13 \<longrightarrow> mem_get m3 q = mem_get m2 q" using step [OF m2(4), of 0] m2(4) by auto
  obtain m4 where m4: "tcp_flag_set 2 m3 tcp (?f 2) = Some m4" "tcp_flag 2 m4 tcp = Some (?f 2)"
    "\<forall>j < 8. j \<noteq> 2 \<longrightarrow> tcp_flag j m4 tcp = tcp_flag j m3 tcp" "length m4 = length (pkt_buf pkt)"
    "\<forall>q. q \<noteq> tcp + 13 \<longrightarrow> mem_get m4 q = mem_get m3 q" using step [OF m3(4), of 2] m3(4) by auto
  obtain m5 where m5: "tcp_flag_set 5 m4 tcp (?f 5) = Some m5" "tcp_flag 5 m5 tcp = Some (?f 5)"
    "\<forall>j < 8. j \<noteq> 5 \<longrightarrow> tcp_flag j m5 tcp = tcp_flag j m4 tcp" "length m5 = length (pkt_buf pkt)"
    "\<forall>q. q \<noteq> tcp + 13 \<longrightarrow> mem_get m5 q = mem_get m4 q" using step [OF m4(4), of 5] m4(4) by auto
  obtain m6 where m6: "tcp_flag_set 3 m5 tcp (?f 3) = Some m6" "tcp_flag 3 m6 tcp = Some (?f 3)"
    "\<forall>j < 8. j \<noteq> 3 \<longrightarrow> tcp_flag j m6 tcp = tcp_flag j m5 tcp" "length m6 = length (pkt_buf pkt)"
    "\<forall>q. q \<noteq> tcp + 13 \<longrightarrow> mem_get m6 q = mem_get m5 q" using step [OF m5(4), of 3] m5(4) by auto
  have "tcp_flag k m6 tcp = Some (?f k)" if "k < 6" for k
  proof -
    have "k \<in> {0, 1, 2, 3, 4, 5}" using that by auto
    then show ?thesis using m1(2,3) m2(2,3) m3(2,3) m4(2,3) m5(2,3) m6(2,3) by auto
  qed
  moreover have "tcp_flag k m6 tcp = tcp_flag k (pkt_buf pkt) tcp" if "6 \<le> k" "k < 8" for k
    using that m1(3) m2(3) m3(3) m4(3) m5(3) m6(3) by simp
  ultimately show ?thesis using assms(1) m1(1,5) m2(1,5) m3(1,5) m4(1,5) m5(1,5) m6(1,4,5)
    by (intro exI [of _ m6]) (simp add: netpkt_new_tcp_flags_def)
qed

theorem tcp_flags_roundtrip_witness:
  "\<exists>m. netpkt_new_tcp_flags ((netpkt_init (replicate 20 255) 0 20)\<lparr>pkt_tcp := Some 0\<rparr>) 18 = Some (m, 0) \<and>
    tcp_syn (pkt_buf m) 0 = Some 1 \<and> tcp_ack (pkt_buf m) 0 = Some 1 \<and> tcp_fin (pkt_buf m) 0 = Some 0"
  using tcp_flags_roundtrip [of "(netpkt_init (replicate 20 255) 0 20)\<lparr>pkt_tcp := Some 0\<rparr>" 0 18]
  by (auto simp: netpkt_init_def netpkt_init_max_def flag_of_def)

end
