(* ===== verification/Cksum.thy ===== *)
theory Cksum
  imports Netpkt
begin

unbundle bit_operations_syntax

text \<open>
  The checksums of \<open>netpkt.c\<close> and \<open>netpkt_inline.c\<close> (RFC 791, 793, 768 and the incremental update), and
  \<open>netpkt_new_udp\<close>, which uses them. Sums are \<open>int\<close>s: at most 32768 words of 16 bits and a pseudo header
  are added, which stays below \<open>2 ^ 31\<close>.
\<close>

section \<open>Sums\<close>

fun cksum_bytes :: "byte list \<Rightarrow> int" where
  "cksum_bytes (a # b # xs) = uint (le16 a b) + cksum_bytes xs"
| "cksum_bytes [c] = uint (ntohs (push_bit 8 (ucast c)))"
| "cksum_bytes [] = 0"

definition netpkt_cksum_in :: "mem \<Rightarrow> int \<Rightarrow> int \<Rightarrow> int option" where
  "netpkt_cksum_in m p len =
     (if len \<le> 0 then Some 0 else do { xs \<leftarrow> slice m p len; Some (cksum_bytes xs) })"

definition netpkt_cksum_in_final :: "int \<Rightarrow> int" where
  "netpkt_cksum_in_final s =
     (let sum = drop_bit 16 s + (s AND 0xffff);
          sum = sum + drop_bit 16 sum
      in NOT sum AND 0xffff)"

definition netpkt_cksum_ip :: "netpkt \<Rightarrow> (netpkt \<times> int) option" where
  "netpkt_cksum_ip pkt =
     (case pkt_ip pkt of None \<Rightarrow> Some (pkt, 0)
      | Some ip \<Rightarrow> do {
          oldsum \<leftarrow> rd16 (pkt_buf pkt) (ip + 10);
          m \<leftarrow> wr16 (pkt_buf pkt) (ip + 10) 0;
          hl \<leftarrow> ip_hl m ip;
          sum \<leftarrow> netpkt_cksum_in m ip (hl * 4);
          m \<leftarrow> wr16 m (ip + 10) oldsum;
          Some (pkt\<lparr>pkt_buf := m\<rparr>, netpkt_cksum_in_final sum)
        })"

text \<open>The part TCP and UDP share: the sum of header, body and pseudo header.\<close>

definition transport_sum :: "mem \<Rightarrow> int \<Rightarrow> int \<Rightarrow> int option" where
  "transport_sum m ip hdr =
     do {
       n \<leftarrow> ip_len m ip;
       hl \<leftarrow> ip_hl m ip;
       let len = n - hl * 4;
       sum \<leftarrow> netpkt_cksum_in m hdr len;
       addrs \<leftarrow> netpkt_cksum_in m (ip + 12) 8;
       p \<leftarrow> rd8 m (ip + 9);
       Some (netpkt_cksum_in_final
         (sum + addrs + uint (htons (ucast p)) + uint (htons (word_of_int len))))
     }"

definition netpkt_cksum_tcp :: "netpkt \<Rightarrow> (netpkt \<times> int) option" where
  "netpkt_cksum_tcp pkt =
     (case pkt_tcp pkt of None \<Rightarrow> Some (pkt, 0)
      | Some tcp \<Rightarrow> do {
          oldsum \<leftarrow> rd16 (pkt_buf pkt) (tcp + 16);
          m \<leftarrow> wr16 (pkt_buf pkt) (tcp + 16) 0;
          ip \<leftarrow> pkt_ip pkt;
          sum \<leftarrow> transport_sum m ip tcp;
          m \<leftarrow> wr16 m (tcp + 16) oldsum;
          Some (pkt\<lparr>pkt_buf := m\<rparr>, sum)
        })"

definition netpkt_cksum_udp :: "netpkt \<Rightarrow> (netpkt \<times> int) option" where
  "netpkt_cksum_udp pkt =
     (case pkt_udp pkt of None \<Rightarrow> Some (pkt, 0)
      | Some udp \<Rightarrow> do {
          oldsum \<leftarrow> rd16 (pkt_buf pkt) (udp + 6);
          m \<leftarrow> wr16 (pkt_buf pkt) (udp + 6) 0;
          ip \<leftarrow> pkt_ip pkt;
          sum \<leftarrow> transport_sum m ip udp;
          m \<leftarrow> wr16 m (udp + 6) oldsum;
          Some (pkt\<lparr>pkt_buf := m\<rparr>, sum)
        })"

definition netpkt_cksum_set :: "netpkt \<Rightarrow> (netpkt \<times> int) option" where
  "netpkt_cksum_set pkt =
     (case pkt_ip pkt of None \<Rightarrow> Some (pkt, 0)
      | Some ip \<Rightarrow> do {
          pkt \<leftarrow> (case pkt_tcp pkt of
              Some tcp \<Rightarrow> do {
                (pkt, sum) \<leftarrow> netpkt_cksum_tcp pkt;
                m \<leftarrow> wr16 (pkt_buf pkt) (tcp + 16) (word_of_int sum);
                Some (pkt\<lparr>pkt_buf := m\<rparr>) }
            | None \<Rightarrow> (case pkt_udp pkt of
                Some udp \<Rightarrow> do {
                  (pkt, sum) \<leftarrow> netpkt_cksum_udp pkt;
                  m \<leftarrow> wr16 (pkt_buf pkt) (udp + 6) (word_of_int sum);
                  Some (pkt\<lparr>pkt_buf := m\<rparr>) }
              | None \<Rightarrow> Some pkt));
          (pkt, sum) \<leftarrow> netpkt_cksum_ip pkt;
          m \<leftarrow> wr16 (pkt_buf pkt) (ip + 10) (word_of_int sum);
          Some (pkt\<lparr>pkt_buf := m\<rparr>, 0)
        })"

text \<open>Comparing a stored checksum with a computed one.\<close>

definition cksum_differs :: "netpkt \<Rightarrow> int \<Rightarrow> (netpkt \<Rightarrow> (netpkt \<times> int) option) \<Rightarrow> bool option" where
  "cksum_differs pkt p compute =
     do { stored \<leftarrow> rd16 (pkt_buf pkt) p; (pkt, i) \<leftarrow> compute pkt; Some (uint stored \<noteq> i) }"

definition netpkt_cksum_check :: "netpkt \<Rightarrow> (netpkt \<times> int) option" where
  "netpkt_cksum_check pkt =
     (case pkt_ip pkt of None \<Rightarrow> Some (pkt\<lparr>pkt_cksum_ok := 1\<rparr>, 0)
      | Some ip \<Rightarrow> do {
          bad \<leftarrow> cksum_differs pkt (ip + 10) netpkt_cksum_ip;
          if bad then Some (pkt, - 1)
          else do {
            bad \<leftarrow> (case pkt_tcp pkt of None \<Rightarrow> Some False
                     | Some tcp \<Rightarrow> cksum_differs pkt (tcp + 16) netpkt_cksum_tcp);
            if bad then Some (pkt, - 2)
            else do {
              bad \<leftarrow> (case pkt_udp pkt of None \<Rightarrow> Some False
                       | Some udp \<Rightarrow> cksum_differs pkt (udp + 6) netpkt_cksum_udp);
              if bad then Some (pkt, - 3) else Some (pkt\<lparr>pkt_cksum_ok := 1\<rparr>, 0)
            }
          }
        })"

section \<open>Incremental update\<close>

definition netpkt_adjust_cksum :: "u16 \<Rightarrow> u32 \<Rightarrow> u32 \<Rightarrow> u16" where
  "netpkt_adjust_cksum oldsum old new =
     (let sum = uint (oldsum XOR 0xFFFF) + cksum_bytes (bytes_of32 (NOT old) @ bytes_of32 new);
          sum = (sum AND 0xffff) + drop_bit 16 sum;
          sum = (sum AND 0xffff) + drop_bit 16 sum
      in word_of_int (NOT sum))"

definition netpkt_adjust_ip_src_dst :: "netpkt \<Rightarrow> u32 \<Rightarrow> u32 \<Rightarrow> netpkt option" where
  "netpkt_adjust_ip_src_dst pkt src dst =
     do {
       let checkp = (case pkt_tcp pkt of Some tcp \<Rightarrow> Some (tcp + 16)
                     | None \<Rightarrow> map_option (\<lambda>udp. udp + 6) (pkt_udp pkt));
       m \<leftarrow> (case checkp of None \<Rightarrow> Some (pkt_buf pkt)
          | Some cp \<Rightarrow> do {
              c \<leftarrow> rd16 (pkt_buf pkt) cp;
              ip \<leftarrow> pkt_ip pkt;
              old \<leftarrow> rd32 (pkt_buf pkt) (ip + 12);
              let c = netpkt_adjust_cksum c old src;
              old \<leftarrow> rd32 (pkt_buf pkt) (ip + 16);
              let c = netpkt_adjust_cksum c old dst;
              wr16 (pkt_buf pkt) cp (if c = 0 \<and> pkt_udp pkt \<noteq> None then 0xFFFF else c)
            });
       ip \<leftarrow> pkt_ip pkt;
       m \<leftarrow> wr32 m (ip + 12) src;
       m \<leftarrow> wr32 m (ip + 16) dst;
       (pkt, sum) \<leftarrow> netpkt_cksum_ip (pkt\<lparr>pkt_buf := m\<rparr>);
       m \<leftarrow> wr16 (pkt_buf pkt) (ip + 10) (word_of_int sum);
       Some (pkt\<lparr>pkt_buf := m\<rparr>)
     }"

section \<open>A UDP packet\<close>

definition netpkt_new_udp :: "mem \<Rightarrow> mem \<Rightarrow> netpkt option \<Rightarrow> (netpkt \<times> int) option" where
  "netpkt_new_udp buf msg replyto =
     do {
       m \<leftarrow> mem_fill buf 0 (int (length buf)) 0;
       let pkt = netpkt_init m 0 (int (length buf));
       let eth = pkt_msg pkt;
       let ip = eth + 14;
       let udp = ip + 20;
       let p = udp + 8;
       m \<leftarrow> wr16 m (eth + 12) (htons (word_of_int ETHERTYPE_IP));
       m \<leftarrow> blit m p msg;
       let pkt = pkt\<lparr>pkt_eth := Some eth, pkt_ip := Some ip, pkt_udp := Some udp, pkt_msg := p,
                     pkt_len := int (length msg)\<rparr>;
       let p = p + int (length msg);
       let pkt = pkt\<lparr>pkt_rawlen := p - pkt_raw pkt\<rparr>;
       m \<leftarrow> ip_v_set m ip 4;
       m \<leftarrow> ip_hl_set m ip 5;
       m \<leftarrow> wr16 m (ip + 4) 1;
       m \<leftarrow> wr16 m (ip + 2) (htons (word_of_int (p - ip)));
       m \<leftarrow> wr8 m (ip + 8) 255;
       m \<leftarrow> wr8 m (ip + 9) IPPROTO_UDP;
       m \<leftarrow> wr16 m (udp + 4) (htons (word_of_int (p - udp)));
       case replyto of None \<Rightarrow> Some (pkt\<lparr>pkt_buf := m\<rparr>, 0)
       | Some r \<Rightarrow> do {
           reth \<leftarrow> pkt_eth r; rip \<leftarrow> pkt_ip r; rudp \<leftarrow> pkt_udp r;
           dhost \<leftarrow> slice (pkt_buf r) reth 6;
           m \<leftarrow> blit m (eth + 6) dhost;
           shost \<leftarrow> slice (pkt_buf r) (reth + 6) 6;
           m \<leftarrow> blit m eth shost;
           dst \<leftarrow> rd32 (pkt_buf r) (rip + 16);
           m \<leftarrow> wr32 m (ip + 12) dst;
           src \<leftarrow> rd32 (pkt_buf r) (rip + 12);
           m \<leftarrow> wr32 m (ip + 16) src;
           dest \<leftarrow> rd16 (pkt_buf r) (rudp + 2);
           m \<leftarrow> wr16 m udp dest;
           source \<leftarrow> rd16 (pkt_buf r) rudp;
           m \<leftarrow> wr16 m (udp + 2) source;
           (pkt, i) \<leftarrow> netpkt_cksum_set (pkt\<lparr>pkt_buf := m\<rparr>);
           Some (pkt, 0)
         }
     }"

section \<open>One's complement arithmetic\<close>

definition fold16 :: "int \<Rightarrow> int" where
  "fold16 s = (if s = 0 then 0 else (s - 1) mod 65535 + 1)"

lemma fold16_unique: "1 \<le> x \<Longrightarrow> x \<le> 65535 \<Longrightarrow> x = s - 65535 * k \<Longrightarrow> s \<noteq> 0 \<Longrightarrow> fold16 s = x"
proof -
  assume x: "1 \<le> x" "x \<le> 65535" "x = s - 65535 * k" "s \<noteq> 0"
  then have "s - 1 = (x - 1) + k * 65535" by simp
  then have "(s - 1) mod 65535 = (x - 1) mod 65535" by (simp only: mod_mult_self1)
  also have "\<dots> = x - 1" using x by (intro mod_pos_pos_trivial) auto
  finally show ?thesis using x by (simp add: fold16_def)
qed

lemma fold16_bounds: "0 \<le> s \<Longrightarrow> 0 \<le> fold16 s \<and> fold16 s \<le> 65535 \<and> (0 < s \<longrightarrow> 1 \<le> fold16 s)"
proof -
  have "0 \<le> (s - 1) mod 65535" "(s - 1) mod 65535 < 65535" by simp_all
  then show ?thesis by (auto simp: fold16_def)
qed

lemma fold16_diff: "\<exists>k. fold16 s = s - 65535 * k"
proof (cases "s = 0")
  case True
  then show ?thesis by (intro exI [of _ 0]) (simp add: fold16_def)
next
  case False
  have "s - 1 = 65535 * ((s - 1) div 65535) + (s - 1) mod 65535" by simp
  then have "(s - 1) mod 65535 + 1 = s - 65535 * ((s - 1) div 65535)" by linarith
  with False show ?thesis by (auto simp: fold16_def)
qed

text \<open>Adding the high half to the low half, twice, computes it.\<close>

lemma and_ffff: "(x :: int) AND 65535 = x mod 65536"
  using take_bit_eq_mod [of 16 x] by (simp add: take_bit_eq_mask mask_eq_exp_minus_1)

lemma carry_once:
  fixes s :: int
  assumes "0 \<le> s" "s < 2 ^ 31"
  shows "\<exists>k. s div 65536 + s mod 65536 = s - 65535 * k" "0 \<le> s div 65536 + s mod 65536"
    "s div 65536 + s mod 65536 \<le> 98302" "s \<noteq> 0 \<Longrightarrow> 1 \<le> s div 65536 + s mod 65536"
proof -
  have s: "s = 65536 * (s div 65536) + s mod 65536" by simp
  then show "\<exists>k. s div 65536 + s mod 65536 = s - 65535 * k"
    by (intro exI [of _ "s div 65536"]) linarith
  have d: "0 \<le> s div 65536" "s div 65536 \<le> 32767" using assms by auto
  have r: "0 \<le> s mod 65536" "s mod 65536 \<le> 65535" by simp_all
  show "0 \<le> s div 65536 + s mod 65536" "s div 65536 + s mod 65536 \<le> 98302" using d r by linarith+
  show "1 \<le> s div 65536 + s mod 65536" if "s \<noteq> 0" using s d r that by linarith
qed

lemma fold_twice:
  fixes t :: int
  assumes t: "0 \<le> t" "t \<le> 98302"
  shows "(t + t div 65536) mod 65536 = fold16 t" "t mod 65536 + t div 65536 = fold16 t"
proof -
  consider "t = 0" | "1 \<le> t" "t \<le> 65535" | "65536 \<le> t" using t by linarith
  then have "(t + t div 65536) mod 65536 = fold16 t \<and> t mod 65536 + t div 65536 = fold16 t"
  proof cases
    case 1
    then show ?thesis by (simp add: fold16_def)
  next
    case 2
    then have "fold16 t = t" by (intro fold16_unique [of _ _ 0]) auto
    with 2 show ?thesis by (simp add: div_pos_pos_trivial)
  next
    case 3
    have "t div 65536 = 1" using 3 t by (intro int_div_pos_eq [of _ _ _ "t - 65536"]) auto
    moreover have "t mod 65536 = t - 65536" using 3 t by (intro int_mod_pos_eq [of _ _ 1]) auto
    moreover have "(t + 1) mod 65536 = t - 65535" using 3 t by (intro int_mod_pos_eq [of _ _ 1]) auto
    moreover have "fold16 t = t - 65535" using 3 t by (intro fold16_unique [of _ _ 1]) auto
    ultimately show ?thesis by simp
  qed
  then show "(t + t div 65536) mod 65536 = fold16 t" "t mod 65536 + t div 65536 = fold16 t" by auto
qed

lemma fold16_step: "\<lbrakk>t = s - 65535 * k; s \<noteq> 0 \<longrightarrow> t \<noteq> 0; s = 0 \<longrightarrow> t = 0\<rbrakk> \<Longrightarrow> fold16 t = fold16 s"
proof (cases "s = 0")
  case False
  assume t: "t = s - 65535 * k" and nz: "s \<noteq> 0 \<longrightarrow> t \<noteq> 0"
  have "t - 1 + k * 65535 = s - 1" using t by simp
  then have "(s - 1) mod 65535 = (t - 1) mod 65535" by (metis mod_mult_self1)
  with False nz show ?thesis by (simp add: fold16_def)
qed (simp add: fold16_def)

lemma not_and_ffff:
  fixes x :: int
  assumes "0 \<le> x" "x \<le> 65535"
  shows "NOT x AND 65535 = 65535 - x"
proof -
  have "(- x - 1) mod 65536 = 65535 - x"
    using assms by (intro int_mod_pos_eq [of _ _ "- 1"]) auto
  then show ?thesis by (simp add: and_ffff not_int_def)
qed

lemma not_mod_ffff: "NOT (x :: int) AND 65535 = NOT (x mod 65536) AND 65535"
  unfolding and_ffff not_int_def by (metis mod_diff_left_eq mod_minus_eq)

lemma cksum_final_eq:
  assumes "0 \<le> s" "s < 2 ^ 31"
  shows "netpkt_cksum_in_final s = 65535 - fold16 s"
proof -
  define t where "t = s div 65536 + s mod 65536"
  note c = carry_once [OF assms, folded t_def]
  obtain k where k: "t = s - 65535 * k" using c(1) by blast
  have "s = 0 \<longrightarrow> t = 0" by (simp add: t_def)
  then have f: "fold16 t = fold16 s" using k c(4) by (intro fold16_step [OF k]) auto
  have "NOT (t + t div 65536) AND 65535 = NOT ((t + t div 65536) mod 65536) AND 65535"
    by (rule not_mod_ffff)
  also have "\<dots> = 65535 - fold16 s"
    unfolding fold_twice(1) [OF c(2,3)] f using fold16_bounds [OF assms(1)] by (intro not_and_ffff) auto
  finally show ?thesis
    by (simp add: netpkt_cksum_in_final_def Let_def and_ffff drop_bit_eq_div t_def)
qed

section \<open>Writes that overwrite or do not interfere\<close>

lemma mem_eqI: "length m = length m' \<Longrightarrow> (\<And>q. mem_get m q = mem_get m' q) \<Longrightarrow> m = m'"
proof (rule nth_equalityI)
  fix i assume len: "length m = length m'" and get: "\<And>q. mem_get m q = mem_get m' q" and i: "i < length m"
  from get [of "int i"] i len show "m ! i = m' ! i" by (simp add: mem_get_def)
qed

lemma wr16_wr16: "wr16 m p x = Some m' \<Longrightarrow> wr16 m' p y = wr16 m p y"
proof -
  assume w: "wr16 m p x = Some m'"
  then have p: "0 \<le> p" "p + 2 \<le> int (length m)" and len: "length m' = length m"
    using wr_length(2) [OF w] by (auto simp: wr16_def mem_simps)
  obtain a b where a: "wr16 m p y = Some a" and b: "wr16 m' p y = Some b"
    using wr_ok(2) [OF p, of y] wr_ok(2) [of p m' y] p len by auto
  have "a = b"
    by (rule mem_eqI) (use wr_length(2) [OF a] wr_length(2) [OF b] len wr_get(2) [OF a] wr_get(2) [OF b]
        wr_get(2) [OF w] in auto)
  with a b show ?thesis by simp
qed

lemma wr16_same: "rd16 m p = Some x \<Longrightarrow> wr16 m p x = Some m"
proof -
  assume r: "rd16 m p = Some x"
  then obtain a b where ab: "mem_get m p = Some a" "mem_get m (p + 1) = Some b" "x = le16 a b"
    by (auto simp: rd16_def split: bind_splits)
  then have "0 \<le> p" "p + 2 \<le> int (length m)" by (auto simp: mem_get_def split: if_splits)
  from wr_ok(2) [OF this, of x] obtain m' where w: "wr16 m p x = Some m'" by blast
  have "m' = m" by (rule mem_eqI) (use wr_length(2) [OF w] wr_get(2) [OF w] ab in auto)
  with w show ?thesis by simp
qed

lemma wr16_restore:
  assumes "rd16 m p = Some old" "wr16 m p x = Some m'"
  shows "wr16 m' p old = Some m"
  using wr16_wr16 [OF assms(2)] wr16_same [OF assms(1)] by simp

lemma wr16_commute:
  assumes "wr16 m p x = Some a" "wr16 m q y = Some b" "p + 2 \<le> q \<or> q + 2 \<le> p"
  shows "wr16 a q y = wr16 b p x"
proof -
  have p: "0 \<le> p" "p + 2 \<le> int (length m)" "0 \<le> q" "q + 2 \<le> int (length m)"
    using assms(1,2) by (auto simp: wr16_def mem_simps)
  have len: "length a = length m" "length b = length m"
    using wr_length(2) [OF assms(1)] wr_length(2) [OF assms(2)] by auto
  obtain c d where c: "wr16 a q y = Some c" and d: "wr16 b p x = Some d"
    using wr_ok(2) [of q a y] wr_ok(2) [of p b x] p len by auto
  have "c = d"
    by (rule mem_eqI) (use wr_length(2) [OF c] wr_length(2) [OF d] len wr_get(2) [OF c] wr_get(2) [OF d]
        wr_get(2) [OF assms(1)] wr_get(2) [OF assms(2)] assms(3) in auto)
  with c d show ?thesis by simp
qed

text \<open>A write outside the fields a transport checksum reads does not change it.\<close>

lemma rd_wr16_other:
  assumes "wr16 m p x = Some m'"
  shows "q + 1 \<le> p \<or> p + 2 \<le> q \<Longrightarrow> rd8 m' q = rd8 m q"
    and "q + 2 \<le> p \<or> p + 2 \<le> q \<Longrightarrow> rd16 m' q = rd16 m q"
    and "q + 4 \<le> p \<or> p + 2 \<le> q \<Longrightarrow> rd32 m' q = rd32 m q"
    and "q + n \<le> p \<or> p + 2 \<le> q \<Longrightarrow> slice m' q n = slice m q n"
  using rd_blit_other [OF assms [unfolded wr16_def]] slice_blit_other [OF assms [unfolded wr16_def]]
  by auto

lemma hdr_wr16_other:
  assumes "wr16 m p x = Some m'"
  shows "ip + 1 \<le> p \<or> p + 2 \<le> ip \<Longrightarrow> ip_hl m' ip = ip_hl m ip"
    and "ip + 4 \<le> p \<or> p + 2 \<le> ip + 2 \<Longrightarrow> ip_len m' ip = ip_len m ip"
    and "q + n \<le> p \<or> p + 2 \<le> q \<Longrightarrow> netpkt_cksum_in m' q n = netpkt_cksum_in m q n"
  using rd_wr16_other [OF assms] by (auto simp: ip_hl_def ip_len_def netpkt_cksum_in_def)

lemma transport_sum_frame:
  assumes w: "wr16 m (ip + 10) x = Some m'" and hdr: "ip + 20 \<le> hdr"
  shows "transport_sum m' ip hdr = transport_sum m ip hdr"
proof -
  have "netpkt_cksum_in m' hdr n = netpkt_cksum_in m hdr n" for n
    using hdr by (intro hdr_wr16_other(3) [OF w]) auto
  moreover have "rd8 m' (ip + 9) = rd8 m (ip + 9)" by (rule rd_wr16_other(1) [OF w]) simp
  moreover have "netpkt_cksum_in m' (ip + 12) 8 = netpkt_cksum_in m (ip + 12) 8"
    by (rule hdr_wr16_other(3) [OF w]) simp
  moreover have "ip_hl m' ip = ip_hl m ip" "ip_len m' ip = ip_len m ip"
    using hdr_wr16_other(1,2) [OF w] by simp_all
  ultimately show ?thesis by (simp add: transport_sum_def)
qed

section \<open>Well-formed packets\<close>

text \<open>The parsed headers lie inside the buffer, one behind the other.\<close>

definition pkt_wf :: "netpkt \<Rightarrow> int \<Rightarrow> int \<Rightarrow> int \<Rightarrow> bool" where
  "pkt_wf pkt ip hl n \<longleftrightarrow>
     pkt_ip pkt = Some ip \<and> 0 \<le> ip \<and> ip_hl (pkt_buf pkt) ip = Some hl \<and> 5 \<le> hl \<and>
     ip_len (pkt_buf pkt) ip = Some n \<and> ip + n \<le> int (length (pkt_buf pkt)) \<and> ip + 4 * hl \<le> int (length (pkt_buf pkt)) \<and>
     (case pkt_tcp pkt of None \<Rightarrow> True
      | Some tcp \<Rightarrow> pkt_udp pkt = None \<and> tcp = ip + 4 * hl \<and> 4 * hl + 20 \<le> n) \<and>
     (case pkt_udp pkt of None \<Rightarrow> True | Some udp \<Rightarrow> udp = ip + 4 * hl \<and> 4 * hl + 8 \<le> n)"

text \<open>Where the transport checksum is, if there is one.\<close>

definition check_at :: "netpkt \<Rightarrow> (int \<times> int) option" where
  "check_at pkt =
     (case pkt_tcp pkt of Some tcp \<Rightarrow> Some (tcp, tcp + 16)
      | None \<Rightarrow> map_option (\<lambda>udp. (udp, udp + 6)) (pkt_udp pkt))"

lemma slice_some: "0 \<le> p \<Longrightarrow> 0 \<le> n \<Longrightarrow> p + n \<le> int (length m) \<Longrightarrow> \<exists>xs. slice m p n = Some xs"
  by (simp add: slice_def)

lemma cksum_in_some: "0 \<le> p \<Longrightarrow> p + n \<le> int (length m) \<Longrightarrow> \<exists>s. netpkt_cksum_in m p n = Some s"
  by (simp add: netpkt_cksum_in_def slice_def)

lemma cksum_final_range: "0 \<le> netpkt_cksum_in_final s" "netpkt_cksum_in_final s \<le> 65535"
proof -
  obtain y where y: "netpkt_cksum_in_final s = take_bit 16 y"
    by (simp add: netpkt_cksum_in_final_def Let_def take_bit_eq_mod and_ffff)
  show "0 \<le> netpkt_cksum_in_final s" unfolding y by simp
  have "take_bit 16 y < 2 ^ 16" by (rule take_bit_int_less_exp)
  then show "netpkt_cksum_in_final s \<le> 65535" unfolding y by simp
qed

lemma final_word [simp]: "uint (word_of_int (netpkt_cksum_in_final s) :: u16) = netpkt_cksum_in_final s"
proof -
  have "netpkt_cksum_in_final s < 2 ^ 16" using cksum_final_range(2) [of s] by simp
  then show ?thesis using cksum_final_range(1) [of s] by (simp add: uint_word_of_int_eq take_bit_int_eq_self)
qed

lemma transport_sum_some:
  assumes "0 \<le> ip" "ip_len m ip = Some n" "ip_hl m ip = Some hl" "ip + 20 \<le> int (length m)"
    "0 \<le> hdr" "hdr + (n - hl * 4) \<le> int (length m)"
  shows "\<exists>s. transport_sum m ip hdr = Some (netpkt_cksum_in_final s)"
proof -
  obtain a where a: "netpkt_cksum_in m hdr (n - hl * 4) = Some a" using cksum_in_some assms(5,6) by blast
  obtain b where b: "netpkt_cksum_in m (ip + 12) 8 = Some b"
    using cksum_in_some [of "ip + 12" 8 m] assms(1,4) by auto
  obtain p where "rd8 m (ip + 9) = Some p" using rd_ok(1) [of "ip + 9" m] assms(1,4) by auto
  with a b assms(2,3) show ?thesis by (auto simp: transport_sum_def)
qed

text \<open>The IP checksum of a well-formed packet: computed, and unchanged memory.\<close>

lemma cksum_ip_eq:
  assumes wf: "pkt_wf pkt ip hl n" and w: "wr16 (pkt_buf pkt) (ip + 10) 0 = Some z"
  shows "\<exists>s. netpkt_cksum_in z ip (hl * 4) = Some s \<and> netpkt_cksum_ip pkt = Some (pkt, netpkt_cksum_in_final s)"
proof -
  have p: "pkt_ip pkt = Some ip" "0 \<le> ip" "ip_hl (pkt_buf pkt) ip = Some hl" "5 \<le> hl"
    "ip + 4 * hl \<le> int (length (pkt_buf pkt))"
    using wf by (simp_all add: pkt_wf_def)
  obtain old where old: "rd16 (pkt_buf pkt) (ip + 10) = Some old" using rd_ok(2) [of "ip + 10" "pkt_buf pkt"] p by auto
  have "ip_hl z ip = Some hl" using hdr_wr16_other(1) [OF w, of ip] p(3) by simp
  moreover obtain s where s: "netpkt_cksum_in z ip (hl * 4) = Some s"
    using cksum_in_some [of ip "hl * 4" z] p wr_length(2) [OF w] by auto
  ultimately show ?thesis
    using p(1) old w wr16_restore [OF old w] by (simp add: netpkt_cksum_ip_def)
qed

text \<open>The checksum field at \<open>cp\<close> of the transport header at \<open>h\<close> is computed to be \<open>v\<close>.\<close>

definition computes :: "netpkt \<Rightarrow> int \<Rightarrow> int \<Rightarrow> int \<Rightarrow> bool" where
  "computes pkt h cp v \<longleftrightarrow>
     (if pkt_tcp pkt = None then pkt_udp pkt = Some h \<and> cp = h + 6 \<and> netpkt_cksum_udp pkt = Some (pkt, v)
      else pkt_tcp pkt = Some h \<and> cp = h + 16 \<and> netpkt_cksum_tcp pkt = Some (pkt, v))"

lemma computes_cases:
  assumes "computes pkt h cp v"
  obtains (udp) "pkt_tcp pkt = None" "pkt_udp pkt = Some h" "cp = h + 6" "netpkt_cksum_udp pkt = Some (pkt, v)"
  | (tcp) "pkt_tcp pkt = Some h" "cp = h + 16" "netpkt_cksum_tcp pkt = Some (pkt, v)"
proof (cases "pkt_tcp pkt = None")
  case True
  with assms show ?thesis by (intro udp) (simp_all add: computes_def)
next
  case False
  with assms show ?thesis by (intro tcp) (simp_all add: computes_def)
qed

lemma cksum_transport_eq:
  assumes wf: "pkt_wf pkt ip hl n" and c: "check_at pkt = Some (h, cp)" and w: "wr16 (pkt_buf pkt) cp 0 = Some z"
  shows "\<exists>s. transport_sum z ip h = Some (netpkt_cksum_in_final s) \<and>
    computes pkt h cp (netpkt_cksum_in_final s) \<and>
    ip + 20 \<le> h \<and> 0 \<le> cp \<and> cp + 2 \<le> int (length (pkt_buf pkt)) \<and> ip + 4 * hl = h"
proof -
  have p: "pkt_ip pkt = Some ip" "0 \<le> ip" "ip_hl (pkt_buf pkt) ip = Some hl" "5 \<le> hl"
    "ip_len (pkt_buf pkt) ip = Some n" "ip + n \<le> int (length (pkt_buf pkt))"
    using wf by (simp_all add: pkt_wf_def)
  have h: "h = ip + 4 * hl" "h \<le> cp" "cp + 2 \<le> int (length (pkt_buf pkt))"
    using wf c p(2,6) by (auto simp: pkt_wf_def check_at_def split: option.splits)
  obtain old where old: "rd16 (pkt_buf pkt) cp = Some old" using rd_ok(2) [of cp "pkt_buf pkt"] p h by auto
  have z: "ip_hl z ip = Some hl" "ip_len z ip = Some n"
    using hdr_wr16_other(1,2) [OF w, of ip] p h by simp_all
  obtain s where s: "transport_sum z ip h = Some (netpkt_cksum_in_final s)"
    using transport_sum_some [OF p(2) z(2,1), of h] p h wr_length(2) [OF w] by auto
  show ?thesis
    using c s p(1,2,4) h old w wr16_restore [OF old w]
    by (intro exI [of _ s]) (auto simp: check_at_def computes_def netpkt_cksum_tcp_def netpkt_cksum_udp_def split: option.splits)
qed

lemma pkt_wf_wr16:
  assumes "pkt_wf pkt ip hl n" "wr16 (pkt_buf pkt) p x = Some m" "ip + 4 \<le> p"
  shows "pkt_wf (pkt\<lparr>pkt_buf := m\<rparr>) ip hl n"
  using assms hdr_wr16_other(1,2) [OF assms(2), of ip] wr_length(2) [OF assms(2)]
  by (simp add: pkt_wf_def split: option.splits)

lemma check_at_update [simp]: "check_at (pkt\<lparr>pkt_buf := m\<rparr>) = check_at pkt"
  by (simp add: check_at_def split: option.split)

lemma ip_set_check:
  assumes wf: "pkt_wf pkt ip hl n"
  shows "\<exists>m s. netpkt_cksum_ip pkt = Some (pkt, netpkt_cksum_in_final s) \<and>
    wr16 (pkt_buf pkt) (ip + 10) (word_of_int (netpkt_cksum_in_final s)) = Some m \<and>
    cksum_differs (pkt\<lparr>pkt_buf := m\<rparr>) (ip + 10) netpkt_cksum_ip = Some False"
proof -
  have p: "0 \<le> ip" "ip + 20 \<le> int (length (pkt_buf pkt))" using wf by (auto simp: pkt_wf_def)
  obtain z where z: "wr16 (pkt_buf pkt) (ip + 10) 0 = Some z" using wr_ok(2) [of "ip + 10" "pkt_buf pkt" 0] p by auto
  obtain s where s: "netpkt_cksum_in z ip (hl * 4) = Some s" "netpkt_cksum_ip pkt = Some (pkt, netpkt_cksum_in_final s)"
    using cksum_ip_eq [OF wf z] by blast
  obtain m where m: "wr16 (pkt_buf pkt) (ip + 10) (word_of_int (netpkt_cksum_in_final s)) = Some m"
    using wr_ok(2) [of "ip + 10" "pkt_buf pkt"] p by auto
  let ?q = "pkt\<lparr>pkt_buf := m\<rparr>"
  have wf': "pkt_wf ?q ip hl n" by (rule pkt_wf_wr16 [OF wf m]) simp
  have "wr16 (pkt_buf ?q) (ip + 10) 0 = Some z" using wr16_wr16 [OF m] z by simp
  from cksum_ip_eq [OF wf' this] s(1) have "netpkt_cksum_ip ?q = Some (?q, netpkt_cksum_in_final s)" by simp
  with rd_wr_same(1) [OF m] have "cksum_differs ?q (ip + 10) netpkt_cksum_ip = Some False"
    by (simp add: cksum_differs_def)
  with s(2) m show ?thesis by blast
qed

text \<open>The transport checksum a packet stores is right, and stays right when the IP checksum is written.\<close>

definition transport_ok :: "netpkt \<Rightarrow> bool" where
  "transport_ok pkt \<longleftrightarrow>
     (case pkt_tcp pkt of None \<Rightarrow> True
      | Some tcp \<Rightarrow> cksum_differs pkt (tcp + 16) netpkt_cksum_tcp = Some False) \<and>
     (case pkt_udp pkt of None \<Rightarrow> True
      | Some udp \<Rightarrow> cksum_differs pkt (udp + 6) netpkt_cksum_udp = Some False)"

lemma transport_okI:
  assumes wf: "pkt_wf pkt ip hl n" and c: "check_at pkt = Some (h, cp)"
    and z: "wr16 (pkt_buf pkt) cp 0 = Some z"
    and v: "transport_sum z ip h = Some v" and r: "rd16 (pkt_buf pkt) cp = Some (word_of_int v)"
  shows "transport_ok pkt"
proof -
  obtain s where s: "transport_sum z ip h = Some (netpkt_cksum_in_final s)"
    "computes pkt h cp (netpkt_cksum_in_final s)"
    using cksum_transport_eq [OF wf c z] by blast
  have rv: "rd16 (pkt_buf pkt) cp = Some (word_of_int (netpkt_cksum_in_final s))" using s(1) v r by simp
  from s(2) show ?thesis
  proof (cases rule: computes_cases)
    case udp
    with rv show ?thesis by (simp add: transport_ok_def cksum_differs_def)
  next
    case tcp
    moreover have "pkt_udp pkt = None" using tcp(1) wf by (simp add: pkt_wf_def)
    ultimately show ?thesis using rv by (simp add: transport_ok_def cksum_differs_def)
  qed
qed

lemma transport_ok_ip_write:
  assumes wf: "pkt_wf pkt ip hl n" and c: "check_at pkt = Some (h, cp)"
    and z: "wr16 (pkt_buf pkt) cp 0 = Some z"
    and v: "transport_sum z ip h = Some v" and r: "rd16 (pkt_buf pkt) cp = Some (word_of_int v)"
    and w: "wr16 (pkt_buf pkt) (ip + 10) x = Some m"
  shows "transport_ok (pkt\<lparr>pkt_buf := m\<rparr>)"
proof -
  let ?q = "pkt\<lparr>pkt_buf := m\<rparr>"
  have wf': "pkt_wf ?q ip hl n" by (rule pkt_wf_wr16 [OF wf w]) simp
  have h: "ip + 20 \<le> h" "h \<le> cp" using cksum_transport_eq [OF wf c z] c
    by (auto simp: check_at_def split: option.splits)
  have c': "check_at ?q = Some (h, cp)" using c by simp
  obtain z' where z': "wr16 z (ip + 10) x = Some z'"
    using wr_ok(2) [of "ip + 10" z x] wr_length(2) [OF z] w by (auto simp: wr16_def mem_simps)
  have "wr16 m cp 0 = Some z'" using wr16_commute [OF w z] h z' by simp
  then have "wr16 (pkt_buf ?q) cp 0 = Some z'" by simp
  moreover have "transport_sum z' ip h = Some v" using transport_sum_frame [OF z' h(1)] v by simp
  moreover have "rd16 (pkt_buf ?q) cp = Some (word_of_int v)"
    using rd_wr16_other(2) [OF w, of cp] h r by simp
  ultimately show ?thesis by (rule transport_okI [OF wf' c'])
qed

lemma check_passes:
  assumes "pkt_wf pkt ip hl n" "cksum_differs pkt (ip + 10) netpkt_cksum_ip = Some False" "transport_ok pkt"
  shows "netpkt_cksum_check pkt = Some (pkt\<lparr>pkt_cksum_ok := 1\<rparr>, 0)"
  using assms by (auto simp: netpkt_cksum_check_def transport_ok_def pkt_wf_def split: option.splits)

section \<open>The incremental update agrees with recomputation\<close>

lemma uint_not_byte: "uint (NOT a :: byte) = 255 - uint a"
proof -
  have l: "uint a < 256" "0 \<le> uint a" using uint_lt2p [of a] by simp_all
  have "(- uint a - 1) mod 256 = 255 - uint a"
    by (rule int_mod_pos_eq [of _ _ "- 1"]) (use l in linarith)+
  then show ?thesis by (simp add: unsigned_not_eq take_bit_eq_mod not_int_def)
qed

lemma uint_not_u16: "uint (NOT a :: u16) = 65535 - uint a"
proof -
  have l: "uint a < 65536" "0 \<le> uint a" using uint_lt2p [of a] by simp_all
  have "(- uint a - 1) mod 65536 = 65535 - uint a"
    by (rule int_mod_pos_eq [of _ _ "- 1"]) (use l in linarith)+
  then show ?thesis by (simp add: unsigned_not_eq take_bit_eq_mod not_int_def)
qed

lemma byte_of_not: "8 * k + 8 \<le> LENGTH('a) \<Longrightarrow> byte_of k (NOT x :: 'a::len word) = NOT (byte_of k x)"
  by (rule bit_eqI) (auto simp: bit_byte_of bit_not_iff)

lemma cksum_bytes32_append: "cksum_bytes (bytes_of32 x @ ys) = cksum_bytes (bytes_of32 x) + cksum_bytes ys"
  by (simp add: bytes_of32_def)

lemma cksum_bytes32_not: "cksum_bytes (bytes_of32 (NOT x)) = 131070 - cksum_bytes (bytes_of32 x)"
  by (simp add: bytes_of32_def byte_of_not uint_le16 uint_not_byte)

lemma cksum_bytes32_bounds: "0 \<le> cksum_bytes (bytes_of32 x)" "cksum_bytes (bytes_of32 x) \<le> 131070"
  using uint_lt2p [of "byte_of 0 x"] uint_lt2p [of "byte_of 1 x"] uint_lt2p [of "byte_of 2 x"]
    uint_lt2p [of "byte_of 3 x"]
  by (simp_all add: bytes_of32_def uint_le16)

lemma adjust_eq:
  fixes S :: int and c :: u16
  assumes S: "0 \<le> S" "S < 2 ^ 31 - 131070" and pos: "0 < S + cksum_bytes (bytes_of32 old)" "0 < S + cksum_bytes (bytes_of32 new)"
    and c: "uint c = netpkt_cksum_in_final (S + cksum_bytes (bytes_of32 old))"
  shows "uint (netpkt_adjust_cksum c old new) = netpkt_cksum_in_final (S + cksum_bytes (bytes_of32 new))"
proof -
  let ?o = "cksum_bytes (bytes_of32 old)" and ?n = "cksum_bytes (bytes_of32 new)"
  note b = cksum_bytes32_bounds [of old] cksum_bytes32_bounds [of new]
  define F where "F = fold16 (S + ?o)"
  have F: "1 \<le> F" "F \<le> 65535" using fold16_bounds [of "S + ?o"] S(1) b(1) pos(1) by (auto simp: F_def)
  have "uint c = 65535 - F" using c cksum_final_eq [of "S + ?o"] S b by (simp add: F_def)
  moreover have "c XOR 0xFFFF = NOT c"
  proof -
    have "(0xFFFF :: u16) = - 1" by simp
    then show ?thesis by (simp only: bit.xor_one_right)
  qed
  ultimately have x: "uint (c XOR 0xFFFF) = F" using uint_not_u16 [of c] by simp
  define s where "s = F + (131070 - ?o) + ?n"
  have sum: "uint (c XOR 0xFFFF) + cksum_bytes (bytes_of32 (NOT old) @ bytes_of32 new) = s"
    unfolding x s_def cksum_bytes32_append cksum_bytes32_not by simp
  have s: "0 < s" "0 \<le> s" "s < 2 ^ 31" using F b by (simp_all add: s_def)
  define t where "t = s div 65536 + s mod 65536"
  note t = carry_once [OF s(2,3), folded t_def]
  have ts: "fold16 t = fold16 s" using t s(1) by (elim exE) (intro fold16_step, auto)
  have "fold16 s = fold16 (S + ?n)"
  proof -
    obtain k where k: "F = S + ?o - 65535 * k" using fold16_diff [of "S + ?o"] by (auto simp: F_def)
    have "s = (S + ?n) - 65535 * (k - 2)" unfolding s_def k by simp
    then show ?thesis using pos(2) s(1) by (intro fold16_step [of _ _ "k - 2"]) auto
  qed
  moreover have "uint (netpkt_adjust_cksum c old new) = 65535 - fold16 s"
  proof -
    have t2: "t mod 65536 + t div 65536 = fold16 s" using fold_twice(2) [OF t(2,3)] ts by simp
    have "netpkt_adjust_cksum c old new = word_of_int (NOT (fold16 s))"
      unfolding netpkt_adjust_cksum_def Let_def sum
      using t2 by (simp add: and_ffff drop_bit_eq_div t_def add.commute)
    then show ?thesis
      using not_and_ffff [of "fold16 s"] fold16_bounds [OF s(2)]
      by (simp add: uint_word_of_int_eq take_bit_eq_mod and_ffff)
  qed
  ultimately show ?thesis using cksum_final_eq [of "S + ?n"] S b by simp
qed


section \<open>Rewriting addresses\<close>

lemma slice_cong:
  assumes "length m' = length m" "\<And>q. p \<le> q \<Longrightarrow> q < p + n \<Longrightarrow> mem_get m' q = mem_get m q"
  shows "slice m' p n = slice m p n"
proof (cases "0 \<le> p \<and> 0 \<le> n \<and> p + n \<le> int (length m)")
  case True
  have "take (nat n) (drop (nat p) m') = take (nat n) (drop (nat p) m)"
  proof (rule nth_equalityI)
    fix k assume "k < length (take (nat n) (drop (nat p) m'))"
    then have k: "int k < n" "p + int k < int (length m)" "nat (p + int k) = nat p + k"
      using assms(1) True by auto
    then have "mem_get m' (p + int k) = mem_get m (p + int k)" using assms(2) by simp
    moreover have "nat p + k < length m" using k True by linarith
    ultimately show "take (nat n) (drop (nat p) m') ! k = take (nat n) (drop (nat p) m) ! k"
      using k assms(1) True by (simp add: mem_get_def)
  qed (use assms(1) in simp)
  with True assms(1) show ?thesis by (simp add: slice_def)
next
  case False
  with assms(1) show ?thesis by (auto simp: slice_def)
qed

lemma cksum_bytes_bounds: "0 \<le> cksum_bytes xs \<and> 2 * cksum_bytes xs \<le> 65535 * (int (length xs) + 1)"
proof (induction xs rule: cksum_bytes.induct)
  case (1 a b xs)
  have "0 \<le> uint (le16 a b)" "uint (le16 a b) < 65536" using uint_lt2p [of "le16 a b"] by simp_all
  with 1 show ?case by (simp add: algebra_simps)
next
  case (2 c)
  have "0 \<le> uint (ntohs (push_bit 8 (ucast c)))" "uint (ntohs (push_bit 8 (ucast c))) < 65536"
    using uint_lt2p [of "ntohs (push_bit 8 (ucast c))"] by simp_all
  then show ?case by simp
qed simp

lemma cksum_in_bounds:
  assumes "netpkt_cksum_in m p n = Some s" "n \<le> 65535"
  shows "0 \<le> s" "2 * s \<le> 65535 * (n + 1) \<or> n \<le> 0 \<and> s = 0"
proof -
  have "s = 0 \<and> n \<le> 0 \<or> (\<exists>xs. s = cksum_bytes xs \<and> int (length xs) = n)"
    using assms(1) slice_length [of m p n] by (auto simp: netpkt_cksum_in_def split: if_splits bind_splits)
  then show "0 \<le> s" "2 * s \<le> 65535 * (n + 1) \<or> n \<le> 0 \<and> s = 0"
    using cksum_bytes_bounds by auto
qed

lemma ip_len_bounds: "ip_len m ip = Some n \<Longrightarrow> 0 \<le> n \<and> n \<le> 65535"
proof -
  assume "ip_len m ip = Some n"
  then obtain w where "n = uint (ntohs w)" by (auto simp: ip_len_def split: bind_splits)
  then show ?thesis using uint_lt2p [of "ntohs w"] by simp
qed

text \<open>The addresses enter the sum through their own words.\<close>

lemma slice_rd32:
  assumes "rd32 m p = Some x" "rd32 m (p + 4) = Some y"
  shows "slice m p 8 = Some (bytes_of32 x @ bytes_of32 y)"
proof -
  have p: "0 \<le> p" "p + 8 \<le> int (length m)"
    using assms by (auto simp: rd32_def mem_get_def split: bind_splits if_splits)
  then obtain xs where xs: "slice m p 8 = Some xs" using slice_some [of p 8 m] by auto
  then have len: "length xs = 8" using slice_length by fastforce
  have "xs ! k = m ! (nat p + k)" if "k < 8" for k
    using xs that p by (auto simp: mem_simps)
  moreover have "mem_get m (p + int k) = Some (m ! (nat p + k))" if "k < 8" for k
    using that p by (auto simp: mem_get_def nat_add_distrib)
  ultimately have get: "mem_get m (p + int k) = Some (xs ! k)" if "k < 8" for k using that by simp
  have "x = le32 (xs ! 0) (xs ! 1) (xs ! 2) (xs ! 3)" "y = le32 (xs ! 4) (xs ! 5) (xs ! 6) (xs ! 7)"
    using assms get [of 0] get [of 1] get [of 2] get [of 3] get [of 4] get [of 5] get [of 6] get [of 7]
    by (simp_all add: rd32_def add.assoc)
  moreover have "xs = [xs ! 0, xs ! 1, xs ! 2, xs ! 3, xs ! 4, xs ! 5, xs ! 6, xs ! 7]"
    using len by (auto simp: numeral_eq_Suc length_Suc_conv)
  ultimately show ?thesis using xs by (simp add: bytes_of32_def)
qed

lemma transport_sum_split:
  assumes len: "ip_len z ip = Some n" and hl: "ip_hl z ip = Some hl" "5 \<le> hl" "hl * 4 < n"
    and a: "netpkt_cksum_in z h (n - hl * 4) = Some a" and p: "rd8 z (ip + 9) = Some p"
    and x: "rd32 z (ip + 12) = Some x" "rd32 z (ip + 16) = Some y"
    and T: "T = a + uint (htons (ucast p)) + uint (htons (word_of_int (n - hl * 4)))"
  shows "transport_sum z ip h = Some (netpkt_cksum_in_final
      (T + cksum_bytes (bytes_of32 x) + cksum_bytes (bytes_of32 y)))"
    and "0 < T" "T < 2 ^ 31 - 2 * 131070"
proof -
  have e: "ip + 12 + 4 = ip + 16" by linarith
  have "slice z (ip + 12) 8 = Some (bytes_of32 x @ bytes_of32 y)"
    by (rule slice_rd32 [OF x(1)]) (unfold e, rule x(2))
  moreover have "cksum_bytes (bytes_of32 y @ []) = cksum_bytes (bytes_of32 y)" by simp
  ultimately have "netpkt_cksum_in z (ip + 12) 8 = Some (cksum_bytes (bytes_of32 x) + cksum_bytes (bytes_of32 y))"
    by (simp add: netpkt_cksum_in_def cksum_bytes32_append)
  then show "transport_sum z ip h = Some (netpkt_cksum_in_final
      (T + cksum_bytes (bytes_of32 x) + cksum_bytes (bytes_of32 y)))"
    using len hl a p by (simp add: transport_sum_def T ac_simps)
  have n: "n \<le> 65535" using ip_len_bounds [OF len] by simp
  have "uint (word_of_int k :: u16) = k" if "0 \<le> k" "k < 65536" for k
    using that by (simp add: uint_word_of_int_eq take_bit_int_eq_self)
  then have w: "uint (word_of_int (n - hl * 4) :: u16) = n - hl * 4"
    by this (use n hl(2,3) in linarith)+
  have "htons (word_of_int (n - hl * 4)) \<noteq> 0"
  proof
    assume "htons (word_of_int (n - hl * 4)) = 0"
    then have "ntohs (htons (word_of_int (n - hl * 4))) = ntohs 0" by simp
    moreover have "ntohs 0 = 0" by (rule bit_eqI) (simp add: ntohs_def bit_le16 bit_byte_of)
    ultimately show False using w hl(3) by simp
  qed
  then have "0 < uint (htons (word_of_int (n - hl * 4)))"
    using uint_ge_0 [of "htons (word_of_int (n - hl * 4))"] by (simp add: uint_0_iff order_less_le)
  moreover have "uint (htons (word_of_int (n - hl * 4))) < 65536" "0 \<le> uint (htons (ucast p))" "uint (htons (ucast p)) < 65536"
    using uint_lt2p [of "htons (word_of_int (n - hl * 4))"] uint_lt2p [of "htons (ucast p)"] by simp_all
  moreover have "0 \<le> a" "2 * a \<le> 65535 * (65516)"
    using cksum_in_bounds [OF a] n hl(2,3) by auto
  ultimately have "0 < T" "T < 2147221508" unfolding T by linarith+
  then show "0 < T" "T < 2 ^ 31 - 2 * 131070" by simp_all
qed

section \<open>Properties\<close>

text \<open>
  C5. After the checksums of a well-formed packet have been set, checking them succeeds: for TCP, UDP
  and other protocols, whatever the header lengths, the options and the payload are.
\<close>

theorem cksum_set_then_check:
  assumes wf: "pkt_wf pkt ip hl n"
  shows "\<exists>pkt'. netpkt_cksum_set pkt = Some (pkt', 0) \<and>
    netpkt_cksum_check pkt' = Some (pkt'\<lparr>pkt_cksum_ok := 1\<rparr>, 0)"
proof (cases "check_at pkt")
  case None
  then have none: "pkt_tcp pkt = None" "pkt_udp pkt = None" by (auto simp: check_at_def split: option.splits)
  obtain m s where m: "netpkt_cksum_ip pkt = Some (pkt, netpkt_cksum_in_final s)"
    "wr16 (pkt_buf pkt) (ip + 10) (word_of_int (netpkt_cksum_in_final s)) = Some m"
    "cksum_differs (pkt\<lparr>pkt_buf := m\<rparr>) (ip + 10) netpkt_cksum_ip = Some False"
    using ip_set_check [OF wf] by blast
  have "pkt_wf (pkt\<lparr>pkt_buf := m\<rparr>) ip hl n" by (rule pkt_wf_wr16 [OF wf m(2)]) simp
  from check_passes [OF this m(3)] none m(1,2) wf show ?thesis
    by (auto simp: netpkt_cksum_set_def transport_ok_def pkt_wf_def)
next
  case (Some hc)
  then obtain h cp where c: "check_at pkt = Some (h, cp)" by (cases hc) auto
  have len: "0 \<le> cp" "cp + 2 \<le> int (length (pkt_buf pkt))"
    using c wf by (auto simp: check_at_def pkt_wf_def split: option.splits)
  obtain z where z: "wr16 (pkt_buf pkt) cp 0 = Some z" using wr_ok(2) [OF len] by blast
  obtain s where s: "transport_sum z ip h = Some (netpkt_cksum_in_final s)"
    "computes pkt h cp (netpkt_cksum_in_final s)"
    "ip + 20 \<le> h"
    using cksum_transport_eq [OF wf c z] by blast
  obtain m1 where m1: "wr16 (pkt_buf pkt) cp (word_of_int (netpkt_cksum_in_final s)) = Some m1"
    using wr_ok(2) [OF len] by blast
  let ?p = "pkt\<lparr>pkt_buf := m1\<rparr>"
  have "ip + 4 \<le> cp" using s(2,3) by (cases rule: computes_cases) simp_all
  then have wf1: "pkt_wf ?p ip hl n" by (rule pkt_wf_wr16 [OF wf m1])
  obtain m s' where m: "netpkt_cksum_ip ?p = Some (?p, netpkt_cksum_in_final s')"
    "wr16 m1 (ip + 10) (word_of_int (netpkt_cksum_in_final s')) = Some m"
    "cksum_differs (?p\<lparr>pkt_buf := m\<rparr>) (ip + 10) netpkt_cksum_ip = Some False"
    using ip_set_check [OF wf1] by auto
  have z1: "wr16 (pkt_buf ?p) cp 0 = Some z" using wr16_wr16 [OF m1] z by simp
  have "transport_ok (?p\<lparr>pkt_buf := m\<rparr>)"
    by (rule transport_ok_ip_write [OF wf1 _ z1 s(1)]) (use c m(2) rd_wr_same(1) [OF m1] in simp_all)
  moreover have "pkt_wf (?p\<lparr>pkt_buf := m\<rparr>) ip hl n" using pkt_wf_wr16 [OF wf1, of "ip + 10"] m(2) by simp
  ultimately have "netpkt_cksum_check (pkt\<lparr>pkt_buf := m\<rparr>) = Some (pkt\<lparr>pkt_buf := m, pkt_cksum_ok := 1\<rparr>, 0)"
    using check_passes m(3) by fastforce
  moreover have "netpkt_cksum_set pkt = Some (pkt\<lparr>pkt_buf := m\<rparr>, 0)"
  proof -
    have ip: "pkt_ip pkt = Some ip" using wf by (simp add: pkt_wf_def)
    from s(2) show ?thesis
      by (cases rule: computes_cases) (use ip m1 m(1,2) in \<open>simp_all add: netpkt_cksum_set_def\<close>)
  qed
  ultimately show ?thesis by auto
qed

theorem cksum_set_then_check_witness:
  "\<exists>pkt'. netpkt_cksum_set
      ((netpkt_init (0x45 # [0, 0, 30] @ replicate 26 7) 0 30)\<lparr>pkt_ip := Some 0, pkt_udp := Some 20\<rparr>) = Some (pkt', 0) \<and>
    netpkt_cksum_check pkt' = Some (pkt'\<lparr>pkt_cksum_ok := 1\<rparr>, 0)"
proof -
  let ?p = "(netpkt_init (0x45 # [0, 0, 30] @ replicate 26 7) 0 30)\<lparr>pkt_ip := Some 0, pkt_udp := Some 20\<rparr>"
  have "pkt_wf ?p 0 5 30"
    by (simp add: pkt_wf_def netpkt_init_def netpkt_init_max_def ip_hl_def ip_len_def rd8_def rd16_def
        mem_get_def bit_get_def ntohs_def uint_le16)
  from cksum_set_then_check [OF this] show ?thesis .
qed

text \<open>
  C13. Rewriting the source and destination address of a TCP packet whose checksums are right keeps them
  right: the incrementally updated TCP checksum is the one a full recomputation gives.
\<close>

theorem adjust_addresses_keeps_checksums:
  assumes wf: "pkt_wf pkt ip hl n" and tcp: "pkt_tcp pkt = Some tcp"
    and ok: "netpkt_cksum_check pkt = Some (q, 0)"
  shows "\<exists>pkt'. netpkt_adjust_ip_src_dst pkt src dst = Some pkt' \<and>
    netpkt_cksum_check pkt' = Some (pkt'\<lparr>pkt_cksum_ok := 1\<rparr>, 0) \<and>
    netpkt_ip_addr_src pkt' = Some src \<and> netpkt_ip_addr_dst pkt' = Some dst"
proof -
  let ?m = "pkt_buf pkt" and ?cp = "tcp + 16" and ?w = "\<lambda>x. cksum_bytes (bytes_of32 x)"
  have f: "pkt_ip pkt = Some ip" "0 \<le> ip" "ip_hl ?m ip = Some hl" "5 \<le> hl" "ip_len ?m ip = Some n"
    "ip + n \<le> int (length ?m)" "tcp = ip + 4 * hl" "4 * hl + 20 \<le> n" "pkt_udp pkt = None"
    using wf tcp by (simp_all add: pkt_wf_def)
  have c: "check_at pkt = Some (tcp, ?cp)" using tcp by (simp add: check_at_def)
  have cp: "0 \<le> ?cp" "?cp + 2 \<le> int (length ?m)" "ip + 36 \<le> ?cp" using f by linarith+
  obtain z where z: "wr16 ?m ?cp 0 = Some z" using wr_ok(2) [OF cp(1,2)] by blast
  have lz: "length z = length ?m" by (rule wr_length(2) [OF z])
  obtain p where p: "rd8 z (ip + 9) = Some p" using rd_ok(1) [of "ip + 9" z] f lz by auto
  obtain x where x: "rd32 z (ip + 12) = Some x" using rd_ok(3) [of "ip + 12" z] f lz by auto
  obtain y where y: "rd32 z (ip + 16) = Some y" using rd_ok(3) [of "ip + 16" z] f lz by auto
  obtain a where a: "netpkt_cksum_in z tcp (n - hl * 4) = Some a"
    using cksum_in_some [of tcp "n - hl * 4" z] f lz by auto
  have hz: "ip_len z ip = Some n" "ip_hl z ip = Some hl" using hdr_wr16_other(1,2) [OF z, of ip] f cp by simp_all
  have hn: "hl * 4 < n" using f by simp
  define T where "T = a + uint (htons (ucast p)) + uint (htons (word_of_int (n - hl * 4)))"
  note sum = transport_sum_split [OF hz f(4) hn a p x y T_def]
  have old: "rd32 ?m (ip + 12) = Some x" "rd32 ?m (ip + 16) = Some y"
    using rd_wr16_other(3) [OF z] cp x y by simp_all
  obtain c0 where c0: "rd16 ?m ?cp = Some c0" "uint c0 = netpkt_cksum_in_final (T + ?w x + ?w y)"
  proof -
    obtain s where s: "transport_sum z ip tcp = Some (netpkt_cksum_in_final s)"
      "computes pkt tcp ?cp (netpkt_cksum_in_final s)" using cksum_transport_eq [OF wf c z] by blast
    have "netpkt_cksum_tcp pkt = Some (pkt, netpkt_cksum_in_final s)"
      using s(2) tcp by (simp add: computes_def)
    moreover have "cksum_differs pkt ?cp netpkt_cksum_tcp = Some False"
      using ok f(1) tcp by (auto simp: netpkt_cksum_check_def split: bind_splits if_splits)
    ultimately obtain c0 where "rd16 ?m ?cp = Some c0" "uint c0 = netpkt_cksum_in_final s"
      by (auto simp: cksum_differs_def split: bind_splits)
    with s(1) sum(1) that show thesis by simp
  qed
  note wb = cksum_bytes32_bounds
  define c1 where "c1 = netpkt_adjust_cksum c0 x src"
  define c2 where "c2 = netpkt_adjust_cksum c1 y dst"
  have "uint c1 = netpkt_cksum_in_final ((T + ?w y) + ?w src)"
    unfolding c1_def using sum(2,3) wb [of x] wb [of y] wb [of src] c0(2)
    by (intro adjust_eq) (simp_all add: ac_simps)
  then have c2: "uint c2 = netpkt_cksum_in_final ((T + ?w src) + ?w dst)"
    unfolding c2_def using sum(2,3) wb [of y] wb [of src] wb [of dst]
    by (intro adjust_eq) (simp_all add: ac_simps)
  obtain m1 where m1: "wr16 ?m ?cp c2 = Some m1" using wr_ok(2) [OF cp(1,2)] by blast
  have l1: "length m1 = length ?m" by (rule wr_length(2) [OF m1])
  obtain m2 where m2: "wr32 m1 (ip + 12) src = Some m2" using wr_ok(3) [of "ip + 12" m1] l1 f by auto
  have l2: "length m2 = length ?m" using wr_length(3) [OF m2] l1 by simp
  obtain m3 where m3: "wr32 m2 (ip + 16) dst = Some m3" using wr_ok(3) [of "ip + 16" m2] l2 f by auto
  have l3: "length m3 = length ?m" using wr_length(3) [OF m3] l2 by simp
  let ?p3 = "pkt\<lparr>pkt_buf := m3\<rparr>"
  have g3: "mem_get m3 i = mem_get m1 i" if "i < ip + 12 \<or> ip + 20 \<le> i" for i
    using that blit_get [OF m3 [unfolded wr32_def]] blit_get [OF m2 [unfolded wr32_def]] by auto
  obtain z3 where z3: "wr16 m3 ?cp 0 = Some z3" using wr_ok(2) [of ?cp m3] cp l3 by auto
  have gz: "mem_get z3 i = mem_get z i" if "i < ip + 12 \<or> ip + 20 \<le> i" for i
    using g3 [OF that] wr_get(2) [OF z3] wr_get(2) [OF z] wr_get(2) [OF m1] by auto
  have lz3: "length z3 = length z" using wr_length(2) [OF z3] l3 lz by simp
  have h3: "ip_len z3 ip = Some n" "ip_hl z3 ip = Some hl" "rd8 z3 (ip + 9) = Some p"
    using hz p gz by (simp_all add: ip_len_def ip_hl_def rd16_def rd8_def)
  have "netpkt_cksum_in z3 tcp (n - hl * 4) = Some a"
  proof -
    have "slice z3 tcp (n - hl * 4) = slice z tcp (n - hl * 4)"
      using f by (intro slice_cong [OF lz3] gz) auto
    with a show ?thesis by (simp add: netpkt_cksum_in_def split: if_splits)
  qed
  moreover have a3: "rd32 m3 (ip + 12) = Some src" "rd32 m3 (ip + 16) = Some dst"
    using rd_wr_same(2) [OF m3] rd_wr_same(2) [OF m2] rd_blit_other(3) [OF m3 [unfolded wr32_def], of "ip + 12"]
    by simp_all
  then have "rd32 z3 (ip + 12) = Some src" "rd32 z3 (ip + 16) = Some dst"
    using rd_wr16_other(3) [OF z3] cp by simp_all
  ultimately have v3: "transport_sum z3 ip tcp = Some (netpkt_cksum_in_final (T + ?w src + ?w dst))"
    using transport_sum_split(1) [OF h3(1,2) f(4) hn _ h3(3) _ _ T_def] by blast
  have "rd16 m1 ?cp = Some c2" by (rule rd_wr_same(1) [OF m1])
  then have r3: "rd16 m3 ?cp = Some (word_of_int (netpkt_cksum_in_final (T + ?w src + ?w dst)))"
    using g3 [of ?cp] g3 [of "?cp + 1"] cp c2 by (simp add: rd16_def flip: c2)
  have wf3: "pkt_wf ?p3 ip hl n"
  proof -
    have "ip_len m3 ip = Some n" "ip_hl m3 ip = Some hl"
      using f(3,5) g3 wr_get(2) [OF m1] cp by (simp_all add: ip_len_def ip_hl_def rd16_def rd8_def)
    with wf l3 show ?thesis by (simp add: pkt_wf_def split: option.splits)
  qed
  obtain m s where m: "netpkt_cksum_ip ?p3 = Some (?p3, netpkt_cksum_in_final s)"
    "wr16 m3 (ip + 10) (word_of_int (netpkt_cksum_in_final s)) = Some m"
    "cksum_differs (?p3\<lparr>pkt_buf := m\<rparr>) (ip + 10) netpkt_cksum_ip = Some False"
    using ip_set_check [OF wf3] by auto
  let ?r = "?p3\<lparr>pkt_buf := m\<rparr>"
  have "transport_ok ?r"
    by (rule transport_ok_ip_write [OF wf3 _ _ v3]) (use c z3 r3 m(2) in simp_all)
  moreover have "pkt_wf ?r ip hl n" using pkt_wf_wr16 [OF wf3, of "ip + 10"] m(2) by simp
  ultimately have "netpkt_cksum_check ?r = Some (?r\<lparr>pkt_cksum_ok := 1\<rparr>, 0)" using check_passes m(3) by blast
  moreover have "netpkt_adjust_ip_src_dst pkt src dst = Some ?r"
    using tcp f(1,9) c0(1) old m1 m2 m3 m(1,2)
    by (simp add: netpkt_adjust_ip_src_dst_def c1_def [symmetric] c2_def [symmetric])
  moreover have "rd32 m (ip + 12) = Some src" "rd32 m (ip + 16) = Some dst"
    using rd_wr16_other(3) [OF m(2)] a3 by simp_all
  ultimately show ?thesis using f(1)
    by (intro exI [of _ ?r]) (simp add: netpkt_ip_addr_src_def netpkt_ip_addr_dst_def)
qed

definition sample_tcp :: netpkt where
  "sample_tcp =
     (netpkt_init ([0x45, 0, 0, 40, 0, 0, 0, 0, 0, 6, 0xBA, 0xD1] @ replicate 8 0 @
        replicate 12 0 @ [0x50, 0, 0, 0, 0xAF, 0xE5, 0, 0]) 0 40)\<lparr>pkt_ip := Some 0, pkt_tcp := Some 20\<rparr>"

theorem adjust_addresses_keeps_checksums_witness:
  "\<exists>pkt'. netpkt_adjust_ip_src_dst sample_tcp 0x0100007f 0x0200a8c0 = Some pkt' \<and>
    netpkt_cksum_check pkt' = Some (pkt'\<lparr>pkt_cksum_ok := 1\<rparr>, 0)"
proof -
  have "netpkt_cksum_check sample_tcp = Some (sample_tcp\<lparr>pkt_cksum_ok := 1\<rparr>, 0)" by code_simp
  moreover have "pkt_wf sample_tcp 0 5 40" by code_simp
  moreover have "pkt_tcp sample_tcp = Some 20" by code_simp
  ultimately show ?thesis using adjust_addresses_keeps_checksums [of sample_tcp 0 5 40 20] by blast
qed

section \<open>Building and parsing\<close>

lemma htons_len: "0 \<le> k \<Longrightarrow> k < 65536 \<Longrightarrow> uint (ntohs (htons (word_of_int k))) = k"
  by (simp add: uint_word_of_int_eq take_bit_int_eq_self)

lemma rd16_from_bytes: "mem_get m p = Some (byte_of 0 x) \<Longrightarrow> mem_get m (p + 1) = Some (byte_of 1 x) \<Longrightarrow> rd16 m p = Some x"
  by (simp add: rd16_def)



end
