(* ===== verification/ConnTrack.thy ===== *)
theory ConnTrack
  imports Hash Netpkt
begin

unbundle bit_operations_syntax

text \<open>
  \<open>ipconntrack.c\<close>, \<open>ipconntrack.h\<close>: tracking connections from raw packets. Connections live in a hash
  table whose key is the connection's address, the first member of the connection; the table's values
  are the connections, updated in place through their node. \<open>now\<close> is what \<open>mstime\<close> returns. The C
  \<open>int\<close> fields of the key are 32-bit words. Not modelled: \<open>IpConn_fmt\<close> and \<open>IpConnAddr_fmt\<close>, which
  format for the log, and the \<open>pkt\<close> array of a queue, which the code never fills.
\<close>

definition CONN_STATE_SYN :: int where "CONN_STATE_SYN = 1"
definition CONN_STATE_ESTAB :: int where "CONN_STATE_ESTAB = 2"
definition CONN_STATE_FIN :: int where "CONN_STATE_FIN = 3"

definition CONN_LOCAL_SERVER :: int where "CONN_LOCAL_SERVER = 1"
definition CONN_LOCAL_CLIENT :: int where "CONN_LOCAL_CLIENT = 2"

definition CONN_PKT_FROM_CLIENT :: int where "CONN_PKT_FROM_CLIENT = 1"
definition CONN_PKT_FROM_SERVER :: int where "CONN_PKT_FROM_SERVER = 2"
definition CONN_PKT_FIRST :: int where "CONN_PKT_FIRST = 4"
definition CONN_PKT_LOCAL_SRC :: int where "CONN_PKT_LOCAL_SRC = 32"
definition CONN_PKT_LOCAL_DST :: int where "CONN_PKT_LOCAL_DST = 64"
definition CONN_PKT_TCP_MISSED_SYN :: int where "CONN_PKT_TCP_MISSED_SYN = 4096"
definition CONN_PKT_TCP_FUTURE_SEQ :: int where "CONN_PKT_TCP_FUTURE_SEQ = 8192"

definition IPCONN_TRACK_LOCAL :: int where "IPCONN_TRACK_LOCAL = 1"
definition IPCONN_TRACK_BUFFER :: int where "IPCONN_TRACK_BUFFER = 2"

definition has_flag :: "int \<Rightarrow> int \<Rightarrow> bool" where
  "has_flag flags f \<longleftrightarrow> flags AND f \<noteq> 0"

record IpConnStats =
  tcp_seq_next_ok :: bool
  st_seq_next :: u32
  packets :: u64
  bytes :: u64

record IpConnAddr =
  proto :: u32
  client_addr :: u32
  server_addr :: u32
  client_port :: u32
  server_port :: u32

record IpConnTcpQueue =
  seq_ok :: bool
  q_ack :: u32
  q_seq :: u32
  seq_syn :: u32
  q_win :: int
  q_buf :: "byte array_t"
  seq_fin :: int
  q_state :: int

record IpConn =
  conn_addr :: IpConnAddr
  conn_closed :: int
  conn_state :: int
  conn_flags :: int
  conn_pkt_flags :: int
  conn_time_first :: real
  conn_time_last :: real
  conn_time_prev :: real
  conn_stats_client :: IpConnStats
  conn_stats_server :: IpConnStats
  queue_server :: IpConnTcpQueue
  queue_client :: IpConnTcpQueue

record IpConnTrack =
  m_conn_hash :: "(IpConnAddr, IpConn) hash_t"
  m_local_addrs :: "u32 array_t"

section \<open>Initialisation\<close>

definition IpConnStats_init :: IpConnStats where
  "IpConnStats_init = \<lparr>tcp_seq_next_ok = False, st_seq_next = 0, packets = 0, bytes = 0\<rparr>"

definition IpConnAddr_init :: IpConnAddr where
  "IpConnAddr_init = \<lparr>proto = 0, client_addr = 0, server_addr = 0, client_port = 0, server_port = 0\<rparr>"

definition IpConnTcpQueue_init :: IpConnTcpQueue where
  "IpConnTcpQueue_init =
     \<lparr>seq_ok = False, q_ack = 0, q_seq = 0, seq_syn = 0, q_win = 0, q_buf = array_init 1 0,
      seq_fin = 0, q_state = 0\<rparr>"

definition IpConn_init :: IpConn where
  "IpConn_init =
     \<lparr>conn_addr = IpConnAddr_init, conn_closed = 0, conn_state = 0, conn_flags = 0, conn_pkt_flags = 0,
      conn_time_first = 0, conn_time_last = 0, conn_time_prev = 0, conn_stats_client = IpConnStats_init,
      conn_stats_server = IpConnStats_init, queue_server = IpConnTcpQueue_init,
      queue_client = IpConnTcpQueue_init\<rparr>"

text \<open>The key as its 20 bytes in memory.\<close>

definition addr_bytes :: "IpConnAddr \<Rightarrow> byte list" where
  "addr_bytes a = bytes_of32 (proto a) @ bytes_of32 (client_addr a) @ bytes_of32 (server_addr a) @
     bytes_of32 (client_port a) @ bytes_of32 (server_port a)"

definition IpConn_hash :: "IpConnAddr \<Rightarrow> u64" where
  "IpConn_hash key = hash_str_elf (addr_bytes key) 0"

text \<open>\<open>memcmp\<close> of the two keys.\<close>

definition IpConn_cmp :: "IpConnAddr \<Rightarrow> IpConnAddr \<Rightarrow> int" where
  "IpConn_cmp a b = strdiff (addr_bytes a) (addr_bytes b)"

definition conn_zero :: "(IpConnAddr, IpConn) hash_node" where
  "conn_zero = \<lparr>node_key = IpConnAddr_init, node_val = IpConn_init, node_hash = 0\<rparr>"

definition IpConnTrack_init :: "u32 list option \<Rightarrow> IpConnTrack option" where
  "IpConnTrack_init local_addr =
     do {
       h \<leftarrow> hash_init conn_zero IpConn_hash IpConn_cmp 0 0 0;
       let a = array_init 4 0;
       a \<leftarrow> (case local_addr of None \<Rightarrow> Some a
          | Some xs \<Rightarrow> do {
              (a, addr) \<leftarrow> array_add True 0 a (int (length xs));
              if xs = [] then Some a
              else do {
                p \<leftarrow> addr; buf \<leftarrow> m_array a; buf \<leftarrow> blit buf p xs; Some (a\<lparr>m_array := Some buf\<rparr>)
              }
            });
       Some \<lparr>m_conn_hash = h, m_local_addrs = a\<rparr>
     }"

section \<open>Tracking the state of a connection\<close>

definition set_flag :: "bool \<Rightarrow> int \<Rightarrow> int \<Rightarrow> int" where
  "set_flag b f flags = (if b then flags OR f else flags)"

text \<open>The sequence number bookkeeping of \<open>track_state\<close>: new statistics and \<open>pkt_tcp_seq_diff\<close>.\<close>

definition track_stats :: "IpConnStats \<Rightarrow> netpkt \<Rightarrow> (IpConnStats \<times> int) option" where
  "track_stats st pkt =
     do {
       let st = st\<lparr>packets := packets st + 1, bytes := bytes st + word_of_int (pkt_len pkt)\<rparr>;
       case pkt_tcp pkt of None \<Rightarrow> Some (st, 0)
       | Some tcp \<Rightarrow> do {
           s \<leftarrow> rd32 (pkt_buf pkt) (tcp + 4);
           let seq = ntohl s;
           if \<not> tcp_seq_next_ok st \<or> seq = st_seq_next st
           then do {
             syn \<leftarrow> tcp_syn (pkt_buf pkt) tcp;
             Some (st\<lparr>st_seq_next := (if syn \<noteq> 0 then seq + 1 else seq + word_of_int (pkt_len pkt)),
                      tcp_seq_next_ok := True\<rparr>, 0)
           }
           else Some (st, tcp_seq_diff seq (st_seq_next st))
         }
     }"

definition track_direction :: "IpConn \<Rightarrow> netpkt \<Rightarrow> (IpConn \<times> netpkt) option" where
  "track_direction conn pkt =
     (let fl = conn_flags conn
      in if has_flag (conn_pkt_flags conn) CONN_PKT_FROM_CLIENT then do {
            (st, d) \<leftarrow> track_stats (conn_stats_client conn) pkt;
            Some (conn\<lparr>conn_pkt_flags := set_flag (has_flag fl CONN_LOCAL_SERVER) CONN_PKT_LOCAL_DST
                          (set_flag (has_flag fl CONN_LOCAL_CLIENT) CONN_PKT_LOCAL_SRC (conn_pkt_flags conn)),
                        conn_stats_client := st\<rparr>, pkt\<lparr>pkt_tcp_seq_diff := d\<rparr>)
          }
          else if has_flag (conn_pkt_flags conn) CONN_PKT_FROM_SERVER then do {
            (st, d) \<leftarrow> track_stats (conn_stats_server conn) pkt;
            Some (conn\<lparr>conn_pkt_flags := set_flag (has_flag fl CONN_LOCAL_SERVER) CONN_PKT_LOCAL_SRC
                          (set_flag (has_flag fl CONN_LOCAL_CLIENT) CONN_PKT_LOCAL_DST (conn_pkt_flags conn)),
                        conn_stats_server := st\<rparr>, pkt\<lparr>pkt_tcp_seq_diff := d\<rparr>)
          }
          else Some (conn, pkt))"

definition IpConnTrack_track_state :: "real \<Rightarrow> IpConn \<Rightarrow> netpkt \<Rightarrow> (IpConn \<times> netpkt) option" where
  "IpConnTrack_track_state now conn pkt =
     do {
       (conn, pkt) \<leftarrow> track_direction conn pkt;
       let conn = conn\<lparr>conn_time_prev := conn_time_last conn, conn_time_last := now\<rparr>;
       case pkt_tcp pkt of None \<Rightarrow> Some (conn, pkt)
       | Some tcp \<Rightarrow> do {
           fin \<leftarrow> tcp_fin (pkt_buf pkt) tcp;
           rst \<leftarrow> tcp_rst (pkt_buf pkt) tcp;
           Some (if fin \<noteq> 0 \<or> rst \<noteq> 0 then conn\<lparr>conn_state := CONN_STATE_FIN\<rparr> else conn, pkt)
         }
     }"

section \<open>Tracking a stream\<close>

text \<open>\<open>array_add(&queue->buf, len)\<close> and copying the \<open>len\<close> bytes at \<open>src\<close> into the new elements.\<close>

definition buffer_bytes :: "IpConnTcpQueue \<Rightarrow> mem \<Rightarrow> int \<Rightarrow> int \<Rightarrow> IpConnTcpQueue option" where
  "buffer_bytes queue m src len =
     do {
       (b, dst) \<leftarrow> array_add True 0 (q_buf queue) len;
       case dst of None \<Rightarrow> Some (queue\<lparr>q_buf := b\<rparr>)
       | Some dst \<Rightarrow> do {
           xs \<leftarrow> slice m src len;
           buf \<leftarrow> m_array b;
           buf \<leftarrow> blit buf dst xs;
           Some (queue\<lparr>q_buf := b\<lparr>m_array := Some buf\<rparr>\<rparr>)
         }
     }"

definition IpConnTrack_track_stream ::
    "IpConn \<Rightarrow> IpConnTcpQueue \<Rightarrow> netpkt \<Rightarrow> bool \<Rightarrow> (IpConn \<times> IpConnTcpQueue \<times> int) option" where
  "IpConnTrack_track_stream conn queue pkt buffer_stream =
     do {
       let m = pkt_buf pkt;
       let src = pkt_msg pkt;
       let len = pkt_len pkt;
       case pkt_tcp pkt of
         Some tcp \<Rightarrow> do {
           ack \<leftarrow> tcp_ack m tcp;
           queue \<leftarrow> (if ack \<noteq> 0 then do { a \<leftarrow> rd32 m (tcp + 8); Some (queue\<lparr>q_ack := ntohl a\<rparr>) }
                     else Some queue);
           w \<leftarrow> rd16 m (tcp + 14);
           let queue = queue\<lparr>q_win := uint (ntohs w)\<rparr>;
           s \<leftarrow> rd32 m (tcp + 4);
           let seq = ntohl s;
           (conn, queue) \<leftarrow>
             (if seq_ok queue then Some (conn, queue)
              else do {
                let queue = queue\<lparr>seq_syn := seq, q_seq := seq, seq_ok := True\<rparr>;
                syn \<leftarrow> tcp_syn m tcp;
                Some (if syn \<noteq> 0 then (conn, queue\<lparr>q_seq := q_seq queue + 1\<rparr>)
                      else (conn\<lparr>conn_pkt_flags := conn_pkt_flags conn OR CONN_PKT_TCP_MISSED_SYN\<rparr>, queue))
              });
           let diff = tcp_seq_diff seq (q_seq queue);
           if diff > 1
           then Some (conn\<lparr>conn_pkt_flags := conn_pkt_flags conn OR CONN_PKT_TCP_FUTURE_SEQ\<rparr>, queue, diff)
           else do {
             let src = src + - diff;
             let len = len - - diff;
             if len \<le> 0 then Some (conn, queue, diff)
             else do {
               let queue = queue\<lparr>q_seq := q_seq queue + word_of_int len\<rparr>;
               queue \<leftarrow> (if buffer_stream then buffer_bytes queue m src len else Some queue);
               Some (conn, queue, diff)
             }
           }
         }
       | None \<Rightarrow> do {
           queue \<leftarrow> (if buffer_stream then buffer_bytes queue m src len else Some queue);
           Some (conn, queue, 0)
         }
     }"

section \<open>Finding the connection of a packet\<close>

text \<open>Matching the packet's addresses against the local ones; \<open>k\<close> addresses are left, from index \<open>i\<close>.\<close>

fun local_loop :: "u32 array_t \<Rightarrow> u32 \<Rightarrow> u32 \<Rightarrow> nat \<Rightarrow> int \<Rightarrow> int \<times> bool \<Rightarrow> (int \<times> bool) option" where
  "local_loop addrs src dst 0 i (flags, local) = Some (flags, local)"
| "local_loop addrs src dst (Suc k) i (flags, local) =
     do {
       a \<leftarrow> elt_at addrs (map_option (\<lambda>p. p + i) (array_get addrs 0));
       let (flags, local) = (if src = a then (flags OR CONN_PKT_LOCAL_SRC, True) else (flags, local));
       let (flags, local) = (if dst = a then (flags OR CONN_PKT_LOCAL_DST, True) else (flags, local));
       local_loop addrs src dst k (i + 1) (flags, local)
     }"

definition swap_ends :: "IpConnAddr \<Rightarrow> IpConnAddr" where
  "swap_ends a = a\<lparr>client_addr := server_addr a, server_addr := client_addr a,
                   client_port := server_port a, server_port := client_port a\<rparr>"

text \<open>The key a packet from the server has: the packet's destination is the client.\<close>

definition pkt_key :: "netpkt \<Rightarrow> int \<Rightarrow> IpConnAddr option" where
  "pkt_key pkt ip =
     do {
       let m = pkt_buf pkt;
       p \<leftarrow> rd8 m (ip + 9);
       src \<leftarrow> rd32 m (ip + 12);
       dst \<leftarrow> rd32 m (ip + 16);
       h \<leftarrow> (case pkt_tcp pkt of Some tcp \<Rightarrow> Some tcp | None \<Rightarrow> pkt_udp pkt);
       sport \<leftarrow> rd16 m h;
       dport \<leftarrow> rd16 m (h + 2);
       Some \<lparr>proto = ucast p, client_addr = dst, server_addr = src,
             client_port = ucast (ntohs dport), server_port = ucast (ntohs sport)\<rparr>
     }"

text \<open>The search of \<open>track_pkt\<close>: the table, the node and the packet flags.\<close>

definition find_conn ::
    "real \<Rightarrow> (IpConnAddr, IpConn) hash_t \<Rightarrow> IpConnAddr \<Rightarrow> int \<Rightarrow>
     ((IpConnAddr, IpConn) hash_t \<times> node_ptr \<times> int) option" where
  "find_conn now h key flags =
     do {
       node \<leftarrow> hash_get h key;
       case node of Some node \<Rightarrow> Some (h, node, flags OR CONN_PKT_FROM_SERVER)
       | None \<Rightarrow> do {
           let key = swap_ends key;
           node \<leftarrow> hash_get h key;
           case node of Some node \<Rightarrow> Some (h, node, flags OR CONN_PKT_FROM_CLIENT)
           | None \<Rightarrow> do {
               let conn = IpConn_init\<lparr>conn_addr := key, conn_state := CONN_STATE_SYN, conn_time_first := now,
                 conn_flags := set_flag (has_flag flags CONN_PKT_LOCAL_SRC) CONN_LOCAL_CLIENT
                   (set_flag (has_flag flags CONN_PKT_LOCAL_DST) CONN_LOCAL_SERVER 0)\<rparr>;
               (h, node, ev) \<leftarrow> hash_put conn_zero h key (Some conn);
               Some (h, node, flags OR CONN_PKT_FROM_CLIENT OR CONN_PKT_FIRST)
             }
         }
     }"

definition IpConnTrack_track_pkt ::
    "real \<Rightarrow> IpConnTrack \<Rightarrow> netpkt \<Rightarrow> int \<Rightarrow> (IpConnTrack \<times> netpkt \<times> node_ptr option) option" where
  "IpConnTrack_track_pkt now self pkt track_flags =
     (case pkt_ip pkt of None \<Rightarrow> Some (self, pkt, None)
      | Some ip \<Rightarrow>
        if pkt_tcp pkt = None \<and> pkt_udp pkt = None then Some (self, pkt, None)
        else do {
          src \<leftarrow> rd32 (pkt_buf pkt) (ip + 12);
          dst \<leftarrow> rd32 (pkt_buf pkt) (ip + 16);
          (flags, local) \<leftarrow> local_loop (m_local_addrs self) src dst
             (nat (array_count (m_local_addrs self))) 0 (0, False);
          if has_flag track_flags IPCONN_TRACK_LOCAL \<and> \<not> local then Some (self, pkt, None)
          else do {
            key \<leftarrow> pkt_key pkt ip;
            (h, node, flags) \<leftarrow> find_conn now (m_conn_hash self) key flags;
            n \<leftarrow> node_at h node;
            let conn = (node_val n)\<lparr>conn_pkt_flags := flags\<rparr>;
            (conn, pkt) \<leftarrow> IpConnTrack_track_state now conn pkt;
            let buffer = has_flag track_flags IPCONN_TRACK_BUFFER;
            conn \<leftarrow>
              (if has_flag (conn_pkt_flags conn) CONN_PKT_FROM_SERVER then do {
                 (conn, q, diff) \<leftarrow> IpConnTrack_track_stream conn (queue_server conn) pkt buffer;
                 Some (conn\<lparr>queue_server := q\<rparr>)
               }
               else if has_flag (conn_pkt_flags conn) CONN_PKT_FROM_CLIENT then do {
                 (conn, q, diff) \<leftarrow> IpConnTrack_track_stream conn (queue_client conn) pkt buffer;
                 Some (conn\<lparr>queue_client := q\<rparr>)
               }
               else Some conn);
            h \<leftarrow> node_store h node conn;
            Some (self\<lparr>m_conn_hash := h\<rparr>, pkt, Some node)
          }
        })"

section \<open>The other operations\<close>

definition IpConnTrack_conn_foreach where
  "IpConnTrack_conn_foreach self func arg = hash_foreach func (m_conn_hash self) arg"

definition IpConnTrack_conn_count :: "IpConnTrack \<Rightarrow> int" where
  "IpConnTrack_conn_count self = hash_count (m_conn_hash self)"

definition IpConnTrack_conn_get :: "IpConnTrack \<Rightarrow> IpConnAddr \<Rightarrow> node_ptr option option" where
  "IpConnTrack_conn_get self addr = hash_get (m_conn_hash self) addr"

definition IpConnTrack_conn_delete :: "IpConnTrack \<Rightarrow> IpConnAddr \<Rightarrow> IpConnTrack option" where
  "IpConnTrack_conn_delete self conn =
     do { (h, ev) \<leftarrow> hash_remove (m_conn_hash self) conn; Some (self\<lparr>m_conn_hash := h\<rparr>) }"

text \<open>
  Clearing zeroes the structures; the stream buffers of the queues are dropped, not freed.
\<close>

definition array_zero :: "'a array_t" where
  "array_zero = \<lparr>m_eltsz = 0, m_blocksz = 0, m_array = None, m_count = 0, m_max = 0,
                 m_free_func = None, m_free_farg = 0\<rparr>"

definition IpConnTcpQueue_clear :: "IpConnTcpQueue \<Rightarrow> IpConnTcpQueue" where
  "IpConnTcpQueue_clear self = IpConnTcpQueue_init\<lparr>q_buf := array_zero\<rparr>"

definition IpConn_clear :: "IpConn \<Rightarrow> IpConn" where
  "IpConn_clear self = IpConn_init\<lparr>queue_server := IpConnTcpQueue_clear (queue_server self),
     queue_client := IpConnTcpQueue_clear (queue_client self)\<rparr>"

definition IpConnTrack_foreach_clear :: "(IpConnAddr, IpConn, unit) foreach_func" where
  "IpConnTrack_foreach_clear h p arg =
     do { n \<leftarrow> node_at h p; h \<leftarrow> node_store h p (IpConn_clear (node_val n)); Some (h, (), 0) }"

definition IpConnTrack_clear :: "IpConnTrack \<Rightarrow> IpConnTrack option" where
  "IpConnTrack_clear self =
     do {
       (h, u, r) \<leftarrow> hash_foreach IpConnTrack_foreach_clear (m_conn_hash self) ();
       (h, ev) \<leftarrow> hash_clear h;
       Some \<lparr>m_conn_hash = h, m_local_addrs = array_zero\<rparr>
     }"

section \<open>The key type\<close>

lemma strdiff_same_length: "length xs = length ys \<Longrightarrow> strdiff xs ys = 0 \<longleftrightarrow> xs = ys"
  by (induction xs ys rule: strdiff.induct) (auto dest: word_uint_eqI)

lemma addr_bytes_inj: "addr_bytes a = addr_bytes b \<longleftrightarrow> a = b"
proof
  assume "addr_bytes a = addr_bytes b"
  then have "bytes_of32 (proto a) = bytes_of32 (proto b)" "bytes_of32 (client_addr a) = bytes_of32 (client_addr b)"
    "bytes_of32 (server_addr a) = bytes_of32 (server_addr b)" "bytes_of32 (client_port a) = bytes_of32 (client_port b)"
    "bytes_of32 (server_port a) = bytes_of32 (server_port b)"
    by (simp_all add: addr_bytes_def)
  then show "a = b" by (simp add: bytes_of32_inj)
qed simp

interpretation addr_key: hash_key IpConn_hash IpConn_cmp id
proof
  fix a b
  have "length (addr_bytes a) = length (addr_bytes b)" by (simp add: addr_bytes_def)
  then show "IpConn_hash a = IpConn_hash b \<and> IpConn_cmp a b = 0 \<longleftrightarrow> id a = id b"
    by (auto simp: IpConn_hash_def IpConn_cmp_def strdiff_same_length addr_bytes_inj)
qed

section \<open>Streams\<close>

lemma buffer_bytes_ok:
  assumes wf: "array_wf (q_buf q)" and s: "slice m src len = Some xs" and len: "0 < len"
  shows "\<exists>b. buffer_bytes q m src len = Some (q\<lparr>q_buf := b\<rparr>) \<and> array_wf b \<and> elems b = elems (q_buf q) @ xs"
proof -
  obtain b where b: "array_add True 0 (q_buf q) len = Some (b, Some (m_count (q_buf q)))" "array_wf b"
    "elems b = elems (q_buf q) @ replicate (nat len) 0"
    using array_add_spec [OF wf len, of 0] by blast
  have "elems b \<noteq> []" using b(3) len by simp
  then obtain ys where arr: "m_array b = Some ((elems (q_buf q) @ replicate (nat len) 0) @ ys)"
    using b(2,3) m_array_SomeI by metis
  have lx: "length xs = nat len" by (rule slice_length [OF s])
  have cnt: "m_count (q_buf q) = int (length (elems (q_buf q)))" by (rule m_count_elems [OF wf])
  define buf where "buf = elems (q_buf q) @ xs @ ys"
  have bl: "blit ((elems (q_buf q) @ replicate (nat len) 0) @ ys) (m_count (q_buf q)) xs = Some buf"
    using lx by (simp add: blit_def cnt buf_def)
  have "length buf = length ((elems (q_buf q) @ replicate (nat len) 0) @ ys)" by (simp add: buf_def lx)
  from wf_replace_buf [OF b(2) arr this]
  have "array_wf (b\<lparr>m_array := Some buf\<rparr>)" "elems (b\<lparr>m_array := Some buf\<rparr>) = elems (q_buf q) @ xs"
    by (simp_all add: b(3) buf_def lx)
  with b(1) s arr bl show ?thesis by (auto simp: buffer_bytes_def)
qed

lemma buffer_bytes_none:
  assumes wf: "array_wf (q_buf q)" and len: "len \<le> 0"
  shows "buffer_bytes q m src len = Some q"
proof -
  have "m_count (q_buf q) + len \<le> m_max (q_buf q)" using wf len by (simp add: array_wf_def)
  then have "array_add True 0 (q_buf q) len = Some (q_buf q, None)"
    using len by (simp add: array_add_def)
  then show ?thesis by (simp add: buffer_bytes_def)
qed

text \<open>The fields \<open>track_stream\<close> reads are inside the packet's buffer.\<close>

definition tcp_in :: "netpkt \<Rightarrow> int \<Rightarrow> bool" where
  "tcp_in pkt tcp \<longleftrightarrow> pkt_tcp pkt = Some tcp \<and> 0 \<le> tcp \<and> tcp + 20 \<le> int (length (pkt_buf pkt))"

definition seq_of :: "netpkt \<Rightarrow> int \<Rightarrow> u32" where
  "seq_of pkt tcp = ntohl (the (rd32 (pkt_buf pkt) (tcp + 4)))"

lemma tcp_in_reads:
  assumes "tcp_in pkt tcp"
  shows "\<exists>x. rd32 (pkt_buf pkt) (tcp + 4) = Some x \<and> ntohl x = seq_of pkt tcp"
    "\<exists>x. rd32 (pkt_buf pkt) (tcp + 8) = Some x" "\<exists>x. rd16 (pkt_buf pkt) (tcp + 14) = Some x"
    "\<And>k. \<exists>x. tcp_flag k (pkt_buf pkt) tcp = Some x"
proof -
  have r: "0 \<le> tcp" "tcp + 20 \<le> int (length (pkt_buf pkt))" using assms by (simp_all add: tcp_in_def)
  show "\<exists>x. rd32 (pkt_buf pkt) (tcp + 4) = Some x \<and> ntohl x = seq_of pkt tcp"
    using rd_ok(3) [of "tcp + 4" "pkt_buf pkt"] r by (auto simp: seq_of_def)
  show "\<exists>x. rd32 (pkt_buf pkt) (tcp + 8) = Some x" using rd_ok(3) [of "tcp + 8" "pkt_buf pkt"] r by auto
  show "\<exists>x. rd16 (pkt_buf pkt) (tcp + 14) = Some x" using rd_ok(2) [of "tcp + 14" "pkt_buf pkt"] r by auto
  show "\<exists>x. tcp_flag k (pkt_buf pkt) tcp = Some x" for k
    using rd_ok(1) [of "tcp + 13" "pkt_buf pkt"] r by (auto simp: tcp_flag_def)
qed

text \<open>A segment on an open queue, by cases on the distance to the expected sequence number.\<close>

lemma track_stream_tcp:
  assumes t: "tcp_in pkt tcp" and ok: "seq_ok q" and wf: "array_wf (q_buf q)"
    and d: "d = tcp_seq_diff (seq_of pkt tcp) (q_seq q)"
    and s: "d \<le> 1 \<Longrightarrow> 0 < pkt_len pkt + d \<Longrightarrow> slice (pkt_buf pkt) (pkt_msg pkt - d) (pkt_len pkt + d) = Some xs"
  shows "\<exists>conn' q'. IpConnTrack_track_stream conn q pkt True = Some (conn', q', d) \<and>
    seq_ok q' \<and> seq_syn q' = seq_syn q \<and> array_wf (q_buf q') \<and>
    (if d \<le> 1 \<and> 0 < pkt_len pkt + d
     then elems (q_buf q') = elems (q_buf q) @ xs \<and> q_seq q' = q_seq q + word_of_int (pkt_len pkt + d)
     else elems (q_buf q') = elems (q_buf q) \<and> q_seq q' = q_seq q) \<and>
    conn_pkt_flags conn' = (if d > 1 then conn_pkt_flags conn OR CONN_PKT_TCP_FUTURE_SEQ else conn_pkt_flags conn) \<and>
    conn_addr conn' = conn_addr conn"
proof -
  obtain x where x: "rd32 (pkt_buf pkt) (tcp + 4) = Some x" "ntohl x = seq_of pkt tcp" using tcp_in_reads(1) [OF t] by blast
  obtain y where y: "rd32 (pkt_buf pkt) (tcp + 8) = Some y" using tcp_in_reads(2) [OF t] by blast
  obtain w where w: "rd16 (pkt_buf pkt) (tcp + 14) = Some w" using tcp_in_reads(3) [OF t] by blast
  obtain a where a: "tcp_ack (pkt_buf pkt) tcp = Some a" using tcp_in_reads(4) [OF t, of 4] by blast
  define q1 where "q1 = (if a \<noteq> 0 then q\<lparr>q_ack := ntohl y\<rparr> else q)\<lparr>q_win := uint (ntohs w)\<rparr>"
  have q1: "seq_ok q1" "q_seq q1 = q_seq q" "q_buf q1 = q_buf q" "seq_syn q1 = seq_syn q" using ok by (simp_all add: q1_def)
  have tcp: "pkt_tcp pkt = Some tcp" using t by (simp add: tcp_in_def)
  define q2 where "q2 = q1\<lparr>q_seq := q_seq q1 + word_of_int (pkt_len pkt + d)\<rparr>"
  have eq: "IpConnTrack_track_stream conn q pkt True =
      (if d > 1 then Some (conn\<lparr>conn_pkt_flags := conn_pkt_flags conn OR CONN_PKT_TCP_FUTURE_SEQ\<rparr>, q1, d)
       else if pkt_len pkt + d \<le> 0 then Some (conn, q1, d)
       else do { q \<leftarrow> buffer_bytes q2 (pkt_buf pkt) (pkt_msg pkt - d) (pkt_len pkt + d); Some (conn, q, d) })"
    using x y w a tcp q1(1,2) d
    by (auto simp: IpConnTrack_track_stream_def q1_def q2_def Let_def)
  show ?thesis
  proof (cases "d \<le> 1 \<and> 0 < pkt_len pkt + d")
    case True
    have "array_wf (q_buf q2)" using wf by (simp add: q2_def q1(3))
    from buffer_bytes_ok [OF this s] True
    obtain b where b: "buffer_bytes q2 (pkt_buf pkt) (pkt_msg pkt - d) (pkt_len pkt + d) = Some (q2\<lparr>q_buf := b\<rparr>)"
      "array_wf b" "elems b = elems (q_buf q2) @ xs" by blast
    with True eq q1 show ?thesis by (auto simp: q2_def)
  next
    case False
    with eq q1 wf show ?thesis by auto
  qed
qed

section \<open>Reassembly\<close>

lemma tcp_seq_diff_offsets:
  assumes "\<bar>int o1 - int k\<bar> < 2 ^ 31"
  shows "tcp_seq_diff (isn + word_of_nat o1) (isn + word_of_nat k) = int o1 - int k"
proof -
  have "(isn + word_of_nat o1) - (isn + word_of_nat k) = (word_of_int (int o1 - int k) :: u32)" by simp
  then have "tcp_seq_diff (isn + word_of_nat o1) (isn + word_of_nat k) = to_i32 (int o1 - int k)"
    by (simp only: tcp_seq_diff_def to_i32_def)
  also have "\<dots> = int o1 - int k" using assms by (intro to_i32_id) auto
  finally show ?thesis .
qed

text \<open>The packet carries the \<open>l\<close> bytes at offset \<open>o1\<close> of the stream \<open>D\<close> whose first byte has number \<open>isn\<close>.\<close>

definition carries :: "byte list \<Rightarrow> u32 \<Rightarrow> netpkt \<Rightarrow> nat \<times> nat \<Rightarrow> bool" where
  "carries D isn pkt seg \<longleftrightarrow>
     (\<exists>tcp. tcp_in pkt tcp \<and> seq_of pkt tcp = isn + word_of_nat (fst seg)) \<and>
     fst seg + snd seg \<le> length D \<and> pkt_len pkt = int (snd seg) \<and> 0 \<le> pkt_msg pkt \<and>
     pkt_msg pkt + pkt_len pkt \<le> int (length (pkt_buf pkt)) \<and>
     slice (pkt_buf pkt) (pkt_msg pkt) (pkt_len pkt) = Some (take (snd seg) (drop (fst seg) D))"

text \<open>What a segment adds to the first \<open>k\<close> bytes of the stream.\<close>

definition covered :: "nat \<times> nat \<Rightarrow> nat \<Rightarrow> nat" where
  "covered seg k = (if fst seg \<le> k \<and> k < fst seg + snd seg then fst seg + snd seg else k)"

fun stream_run :: "IpConn \<Rightarrow> IpConnTcpQueue \<Rightarrow> netpkt list \<Rightarrow> (IpConn \<times> IpConnTcpQueue) option" where
  "stream_run conn q [] = Some (conn, q)"
| "stream_run conn q (pkt # pkts) =
     do { (conn, q, d) \<leftarrow> IpConnTrack_track_stream conn q pkt True; stream_run conn q pkts }"

text \<open>No segment starts exactly one byte beyond what has arrived when it comes.\<close>

fun no_one_byte_gap :: "(nat \<times> nat) list \<Rightarrow> nat \<Rightarrow> bool" where
  "no_one_byte_gap [] k = True"
| "no_one_byte_gap (seg # segs) k \<longleftrightarrow> fst seg \<noteq> Suc k \<and> no_one_byte_gap segs (covered seg k)"

definition has_prefix :: "byte list \<Rightarrow> u32 \<Rightarrow> IpConnTcpQueue \<Rightarrow> nat \<Rightarrow> bool" where
  "has_prefix D isn q k \<longleftrightarrow>
     seq_ok q \<and> array_wf (q_buf q) \<and> k \<le> length D \<and> q_seq q = isn + word_of_nat k \<and> elems (q_buf q) = take k D"

lemma stream_step:
  assumes D: "length D < 2 ^ 31" and p: "has_prefix D isn q k" and c: "carries D isn pkt seg"
    and gap: "fst seg \<noteq> Suc k"
  shows "\<exists>conn' q' d. IpConnTrack_track_stream conn q pkt True = Some (conn', q', d) \<and>
    has_prefix D isn q' (covered seg k)"
proof -
  obtain o1 l where seg: "seg = (o1, l)" by (cases seg)
  obtain tcp where t: "tcp_in pkt tcp" "seq_of pkt tcp = isn + word_of_nat o1" using c by (auto simp: carries_def seg)
  have k: "seq_ok q" "array_wf (q_buf q)" "k \<le> length D" "q_seq q = isn + word_of_nat k" "elems (q_buf q) = take k D"
    using p by (simp_all add: has_prefix_def)
  have cc: "o1 + l \<le> length D" "pkt_len pkt = int l"
    "slice (pkt_buf pkt) (pkt_msg pkt) (int l) = Some (take l (drop o1 D))"
    using c by (auto simp: carries_def seg)
  have d: "int o1 - int k = tcp_seq_diff (seq_of pkt tcp) (q_seq q)"
    unfolding t(2) k(4) using D k(3) cc(1) by (intro tcp_seq_diff_offsets [symmetric]) auto
  define xs where "xs = take (l - (k - o1)) (drop k D)"
  have s: "slice (pkt_buf pkt) (pkt_msg pkt - (int o1 - int k)) (pkt_len pkt + (int o1 - int k)) = Some xs"
    if "int o1 - int k \<le> 1" "0 < pkt_len pkt + (int o1 - int k)"
  proof -
    have ok: "o1 \<le> k" using that(1) gap seg by simp
    have kl: "k < o1 + l" using that(2) cc(2) by simp
    have m: "0 \<le> pkt_msg pkt" "pkt_msg pkt + int l \<le> int (length (pkt_buf pkt))"
      and tk: "take l (drop o1 D) = take l (drop (nat (pkt_msg pkt)) (pkt_buf pkt))"
      using cc(3) by (auto simp: mem_simps)
    have e: "nat (pkt_msg pkt - (int o1 - int k)) = (k - o1) + nat (pkt_msg pkt)"
      "nat (int l + (int o1 - int k)) = l - (k - o1)" using m ok kl by linarith+
    have "take (l - (k - o1)) (drop ((k - o1) + nat (pkt_msg pkt)) (pkt_buf pkt)) =
        drop (k - o1) (take l (drop (nat (pkt_msg pkt)) (pkt_buf pkt)))"
      by (simp add: drop_take)
    also have "\<dots> = drop (k - o1) (take l (drop o1 D))" by (simp only: tk)
    also have "\<dots> = xs" using ok by (simp add: drop_take xs_def)
    finally show ?thesis using m ok kl that(2) by (simp add: slice_def cc(2) e)
  qed
  have less: "int o1 - int k \<le> 1 \<longleftrightarrow> o1 \<le> k" using gap seg by auto
  have pos: "0 < pkt_len pkt + (int o1 - int k) \<longleftrightarrow> k < o1 + l" using cc(2) by auto
  obtain conn' q' where r: "IpConnTrack_track_stream conn q pkt True = Some (conn', q', int o1 - int k)"
    "seq_ok q'" "array_wf (q_buf q')"
    "if o1 \<le> k \<and> k < o1 + l
     then elems (q_buf q') = elems (q_buf q) @ xs \<and> q_seq q' = q_seq q + word_of_int (pkt_len pkt + (int o1 - int k))
     else elems (q_buf q') = elems (q_buf q) \<and> q_seq q' = q_seq q"
    using track_stream_tcp [OF t(1) k(1,2) d s, of conn] unfolding less pos by blast
  have "has_prefix D isn q' (covered seg k)"
  proof (cases "o1 \<le> k \<and> k < o1 + l")
    case True
    then have n: "covered seg k = k + (l - (k - o1))" by (simp add: covered_def seg)
    have "take k D @ xs = take (k + (l - (k - o1))) D" by (simp add: xs_def take_add)
    moreover have "int k + (pkt_len pkt + (int o1 - int k)) = int (k + (l - (k - o1)))"
      using True cc(2) by simp
    then have "q_seq q' = isn + word_of_nat (k + (l - (k - o1)))"
      using True r(4) k(4) by (metis (no_types, opaque_lifting) add.assoc of_int_add of_int_of_nat_eq)
    ultimately show ?thesis using True r(2-4) k(5) cc(1) unfolding n has_prefix_def by auto
  next
    case False
    then have "covered seg k = k" by (simp add: covered_def seg)
    with False r(2-4) k show ?thesis by (simp add: has_prefix_def)
  qed
  with r(1) show ?thesis by blast
qed

lemma stream_run_prefix:
  assumes D: "length D < 2 ^ 31" and "has_prefix D isn q k" "list_all2 (carries D isn) pkts segs" "no_one_byte_gap segs k"
  shows "\<exists>conn' q'. stream_run conn q pkts = Some (conn', q') \<and> has_prefix D isn q' (fold covered segs k)"
  using assms(3,2,4)
proof (induction pkts segs arbitrary: conn q k rule: list_all2_induct)
  case Nil
  then show ?case by simp
next
  case (Cons pkt pkts seg segs)
  have "fst seg \<noteq> Suc k" "no_one_byte_gap segs (covered seg k)" using Cons.prems(2) by simp_all
  from stream_step [OF D Cons.prems(1) Cons.hyps(1) this(1)]
  obtain c1 q1 d where s: "IpConnTrack_track_stream conn q pkt True = Some (c1, q1, d)"
    "has_prefix D isn q1 (covered seg k)" by blast
  from Cons.IH [OF s(2) \<open>no_one_byte_gap segs (covered seg k)\<close>] s(1) show ?case by simp
qed

section \<open>Tracking packets\<close>

lemma has_flag_or: "has_flag (x OR y) f \<longleftrightarrow> has_flag x f \<or> has_flag y f"
proof -
  have "(x OR y) AND f = (x AND f) OR (y AND f)" by (simp add: bit.conj_disj_distrib2)
  then show ?thesis by (simp add: has_flag_def or_eq_0_iff)
qed

lemma has_flag_set: "has_flag (set_flag b y x) f \<longleftrightarrow> has_flag x f \<or> b \<and> has_flag y f"
  by (simp add: set_flag_def has_flag_or)

lemmas flag_defs = CONN_PKT_FROM_CLIENT_def CONN_PKT_FROM_SERVER_def CONN_PKT_FIRST_def
  CONN_PKT_LOCAL_SRC_def CONN_PKT_LOCAL_DST_def CONN_PKT_TCP_MISSED_SYN_def CONN_PKT_TCP_FUTURE_SEQ_def

lemma flag_bits:
  "\<not> has_flag CONN_PKT_LOCAL_SRC CONN_PKT_FROM_SERVER" "\<not> has_flag CONN_PKT_LOCAL_DST CONN_PKT_FROM_SERVER"
  "\<not> has_flag CONN_PKT_FROM_CLIENT CONN_PKT_FROM_SERVER" "\<not> has_flag CONN_PKT_FIRST CONN_PKT_FROM_SERVER"
  "\<not> has_flag CONN_PKT_TCP_MISSED_SYN CONN_PKT_FROM_SERVER" "\<not> has_flag CONN_PKT_TCP_FUTURE_SEQ CONN_PKT_FROM_SERVER"
  "has_flag CONN_PKT_FROM_SERVER CONN_PKT_FROM_SERVER" "has_flag CONN_PKT_FROM_CLIENT CONN_PKT_FROM_CLIENT"
  "\<not> has_flag 0 f"
  by (simp_all add: has_flag_def flag_defs)

text \<open>A packet whose headers and message are inside its buffer.\<close>

definition pkt_in :: "netpkt \<Rightarrow> int \<Rightarrow> bool" where
  "pkt_in pkt ip \<longleftrightarrow>
     pkt_ip pkt = Some ip \<and> 0 \<le> ip \<and> ip + 20 \<le> int (length (pkt_buf pkt)) \<and>
     (case pkt_tcp pkt of Some tcp \<Rightarrow> tcp_in pkt tcp
      | None \<Rightarrow> \<exists>udp. pkt_udp pkt = Some udp \<and> 0 \<le> udp \<and> udp + 8 \<le> int (length (pkt_buf pkt))) \<and>
     1 \<le> pkt_msg pkt \<and> pkt_msg pkt + pkt_len pkt \<le> int (length (pkt_buf pkt))"

text \<open>The outcome of \<open>track_stream\<close> on the connection, without the contents of the buffer.\<close>

definition stream_result :: "IpConn \<Rightarrow> (IpConn \<times> IpConnTcpQueue \<times> int) option \<Rightarrow> bool" where
  "stream_result conn r \<longleftrightarrow> (\<exists>conn' q' d. r = Some (conn', q', d) \<and> array_wf (q_buf q') \<and>
     conn_addr conn' = conn_addr conn \<and> queue_server conn' = queue_server conn \<and>
     queue_client conn' = queue_client conn \<and>
     (has_flag (conn_pkt_flags conn') CONN_PKT_FROM_SERVER \<longleftrightarrow> has_flag (conn_pkt_flags conn) CONN_PKT_FROM_SERVER))"

lemma buffer_any:
  assumes "array_wf (q_buf q)" "0 < len \<Longrightarrow> 0 \<le> src \<and> src + len \<le> int (length m)"
  shows "\<exists>q'. (if b then buffer_bytes q m src len else Some q) = Some q' \<and> array_wf (q_buf q')"
proof (cases "0 < len")
  case True
  then obtain xs where "slice m src len = Some xs" using assms(2) by (auto simp: slice_def)
  from buffer_bytes_ok [OF assms(1) this True] assms(1) show ?thesis by auto
next
  case False
  with buffer_bytes_none [OF assms(1), of len m src] assms(1) show ?thesis by auto
qed

lemma track_stream_total:
  assumes p: "pkt_in pkt ip" and wf: "array_wf (q_buf q)"
  shows "stream_result conn (IpConnTrack_track_stream conn q pkt b)"
proof (cases "pkt_tcp pkt")
  case None
  obtain q' where "(if b then buffer_bytes q (pkt_buf pkt) (pkt_msg pkt) (pkt_len pkt) else Some q) = Some q'"
    "array_wf (q_buf q')"
    using buffer_any [OF wf, of "pkt_len pkt" "pkt_msg pkt" "pkt_buf pkt" b] p by (auto simp: pkt_in_def)
  with None show ?thesis by (simp add: IpConnTrack_track_stream_def stream_result_def)
next
  case (Some tcp)
  have t: "tcp_in pkt tcp" using p Some by (simp add: pkt_in_def)
  obtain x where x: "rd32 (pkt_buf pkt) (tcp + 4) = Some x" using tcp_in_reads(1) [OF t] by blast
  obtain y where y: "rd32 (pkt_buf pkt) (tcp + 8) = Some y" using tcp_in_reads(2) [OF t] by blast
  obtain w where w: "rd16 (pkt_buf pkt) (tcp + 14) = Some w" using tcp_in_reads(3) [OF t] by blast
  obtain a where a: "tcp_ack (pkt_buf pkt) tcp = Some a" using tcp_in_reads(4) [OF t, of 4] by blast
  obtain f where f: "tcp_syn (pkt_buf pkt) tcp = Some f" using tcp_in_reads(4) [OF t, of 1] by blast
  define q1 where "q1 = (if a \<noteq> 0 then q\<lparr>q_ack := ntohl y\<rparr> else q)\<lparr>q_win := uint (ntohs w)\<rparr>"
  define q2 where "q2 = (if seq_ok q1 then q1 else q1\<lparr>seq_syn := ntohl x, q_seq := (if f \<noteq> 0 then ntohl x + 1 else ntohl x), seq_ok := True\<rparr>)"
  define c2 where "c2 = (if seq_ok q1 \<or> f \<noteq> 0 then conn
     else conn\<lparr>conn_pkt_flags := conn_pkt_flags conn OR CONN_PKT_TCP_MISSED_SYN\<rparr>)"
  define d where "d = tcp_seq_diff (ntohl x) (q_seq q2)"
  define q3 where "q3 = q2\<lparr>q_seq := q_seq q2 + word_of_int (pkt_len pkt + d)\<rparr>"
  have wf2: "array_wf (q_buf q2)" using wf by (simp add: q2_def q1_def)
  have eq: "IpConnTrack_track_stream conn q pkt b =
      (if d > 1 then Some (c2\<lparr>conn_pkt_flags := conn_pkt_flags c2 OR CONN_PKT_TCP_FUTURE_SEQ\<rparr>, q2, d)
       else if pkt_len pkt + d \<le> 0 then Some (c2, q2, d)
       else do { q \<leftarrow> (if b then buffer_bytes q3 (pkt_buf pkt) (pkt_msg pkt - d) (pkt_len pkt + d) else Some q3);
         Some (c2, q, d) })"
    using x y w a f Some
    by (simp add: IpConnTrack_track_stream_def q1_def q2_def q3_def c2_def d_def Let_def)
  have c2: "conn_addr c2 = conn_addr conn" "queue_server c2 = queue_server conn" "queue_client c2 = queue_client conn"
    "has_flag (conn_pkt_flags c2) CONN_PKT_FROM_SERVER \<longleftrightarrow> has_flag (conn_pkt_flags conn) CONN_PKT_FROM_SERVER"
    by (simp_all add: c2_def has_flag_or flag_bits)
  show ?thesis
  proof (cases "d > 1 \<or> pkt_len pkt + d \<le> 0")
    case True
    with eq c2 wf2 show ?thesis by (auto simp: stream_result_def has_flag_or flag_bits)
  next
    case False
    have "array_wf (q_buf q3)" using wf2 by (simp add: q3_def)
    then obtain q' where "(if b then buffer_bytes q3 (pkt_buf pkt) (pkt_msg pkt - d) (pkt_len pkt + d) else Some q3) = Some q'"
      "array_wf (q_buf q')"
      using buffer_any [of q3 "pkt_len pkt + d" "pkt_msg pkt - d" "pkt_buf pkt" b] p False by (auto simp: pkt_in_def)
    with eq c2 False show ?thesis by (simp add: stream_result_def)
  qed
qed

lemma track_stats_total: "pkt_in pkt ip \<Longrightarrow> \<exists>st' d. track_stats st pkt = Some (st', d)"
proof (cases "pkt_tcp pkt")
  case (Some tcp)
  assume "pkt_in pkt ip"
  then have t: "tcp_in pkt tcp" using Some by (simp add: pkt_in_def)
  obtain x where "rd32 (pkt_buf pkt) (tcp + 4) = Some x" using tcp_in_reads(1) [OF t] by blast
  moreover obtain f where "tcp_syn (pkt_buf pkt) tcp = Some f" using tcp_in_reads(4) [OF t, of 1] by blast
  ultimately show ?thesis using Some by (simp add: track_stats_def Let_def)
qed (simp add: track_stats_def)

lemma track_direction_total:
  assumes p: "pkt_in pkt ip"
  shows "\<exists>conn' d. track_direction conn pkt = Some (conn', pkt\<lparr>pkt_tcp_seq_diff := d\<rparr>) \<and>
     conn_addr conn' = conn_addr conn \<and> queue_server conn' = queue_server conn \<and>
     queue_client conn' = queue_client conn \<and> conn_state conn' = conn_state conn \<and>
     (has_flag (conn_pkt_flags conn') CONN_PKT_FROM_SERVER \<longleftrightarrow> has_flag (conn_pkt_flags conn) CONN_PKT_FROM_SERVER)"
proof -
  obtain st1 d1 where st1: "track_stats (conn_stats_client conn) pkt = Some (st1, d1)" using track_stats_total [OF p] by blast
  obtain st2 d2 where st2: "track_stats (conn_stats_server conn) pkt = Some (st2, d2)" using track_stats_total [OF p] by blast
  have same: "pkt = pkt\<lparr>pkt_tcp_seq_diff := pkt_tcp_seq_diff pkt\<rparr>" by simp
  consider (client) "has_flag (conn_pkt_flags conn) CONN_PKT_FROM_CLIENT"
    | (server) "\<not> has_flag (conn_pkt_flags conn) CONN_PKT_FROM_CLIENT" "has_flag (conn_pkt_flags conn) CONN_PKT_FROM_SERVER"
    | (none) "\<not> has_flag (conn_pkt_flags conn) CONN_PKT_FROM_CLIENT" "\<not> has_flag (conn_pkt_flags conn) CONN_PKT_FROM_SERVER"
    by blast
  then show ?thesis
  proof cases
    case client
    with st1 show ?thesis
      by (auto simp: track_direction_def has_flag_set flag_bits Let_def intro!: exI [of _ d1])
  next
    case server
    with st2 show ?thesis
      by (auto simp: track_direction_def has_flag_set flag_bits Let_def intro!: exI [of _ d2])
  next
    case none
    then have "track_direction conn pkt = Some (conn, pkt\<lparr>pkt_tcp_seq_diff := pkt_tcp_seq_diff pkt\<rparr>)"
      by (simp add: track_direction_def)
    then show ?thesis by blast
  qed
qed

lemma track_state_total:
  assumes p: "pkt_in pkt ip"
  shows "\<exists>conn' d. IpConnTrack_track_state now conn pkt = Some (conn', pkt\<lparr>pkt_tcp_seq_diff := d\<rparr>) \<and>
     conn_addr conn' = conn_addr conn \<and> queue_server conn' = queue_server conn \<and>
     queue_client conn' = queue_client conn \<and>
     (has_flag (conn_pkt_flags conn') CONN_PKT_FROM_SERVER \<longleftrightarrow> has_flag (conn_pkt_flags conn) CONN_PKT_FROM_SERVER) \<and>
     (conn_state conn = CONN_STATE_FIN \<longrightarrow> conn_state conn' = CONN_STATE_FIN)"
proof -
  obtain c d where c: "track_direction conn pkt = Some (c, pkt\<lparr>pkt_tcp_seq_diff := d\<rparr>)"
    "conn_addr c = conn_addr conn" "queue_server c = queue_server conn" "queue_client c = queue_client conn"
    "conn_state c = conn_state conn"
    "has_flag (conn_pkt_flags c) CONN_PKT_FROM_SERVER \<longleftrightarrow> has_flag (conn_pkt_flags conn) CONN_PKT_FROM_SERVER"
    using track_direction_total [OF p] by blast
  show ?thesis
  proof (cases "pkt_tcp pkt")
    case None
    with c show ?thesis by (auto simp: IpConnTrack_track_state_def Let_def intro!: exI [of _ d])
  next
    case (Some tcp)
    then have t: "tcp_in pkt tcp" using p by (simp add: pkt_in_def)
    obtain f where "tcp_fin (pkt_buf pkt) tcp = Some f" using tcp_in_reads(4) [OF t, of 0] by blast
    moreover obtain r where "tcp_rst (pkt_buf pkt) tcp = Some r" using tcp_in_reads(4) [OF t, of 2] by blast
    ultimately show ?thesis using c Some
      by (auto simp: IpConnTrack_track_state_def Let_def intro!: exI [of _ d])
  qed
qed

text \<open>The tracker's invariant.\<close>

definition one_sided :: "(IpConnAddr \<Rightarrow> IpConn option) \<Rightarrow> bool" where
  "one_sided m \<longleftrightarrow> (\<forall>a. m a \<noteq> None \<and> m (swap_ends a) \<noteq> None \<longrightarrow> swap_ends a = a)"

definition conn_ok :: "IpConnAddr \<Rightarrow> IpConn \<Rightarrow> bool" where
  "conn_ok a c \<longleftrightarrow> conn_addr c = a \<and> array_wf (q_buf (queue_server c)) \<and> array_wf (q_buf (queue_client c))"

definition track_ok :: "IpConnTrack \<Rightarrow> bool" where
  "track_ok self \<longleftrightarrow>
     hash_ok IpConn_hash IpConn_cmp id (m_conn_hash self) \<and>
     one_sided (hash_map id (m_conn_hash self)) \<and>
     (\<forall>a c. hash_map id (m_conn_hash self) a = Some c \<longrightarrow> conn_ok a c) \<and>
     array_wf (m_local_addrs self)"

lemma swap_swap [simp]: "swap_ends (swap_ends a) = a"
  by (simp add: swap_ends_def)

lemma one_sided_new: "one_sided m \<Longrightarrow> m (swap_ends k) = None \<Longrightarrow> one_sided (m(k \<mapsto> c))"
  unfolding one_sided_def by (metis fun_upd_other fun_upd_same swap_swap)

lemma one_sided_same: "one_sided m \<Longrightarrow> m k \<noteq> None \<Longrightarrow> one_sided (m(k \<mapsto> c))"
  by (auto simp: one_sided_def)

lemma conn_ok_init: "conn_ok a (IpConn_init\<lparr>conn_addr := a, conn_state := s, conn_time_first := t, conn_flags := f\<rparr>)"
  by (simp add: conn_ok_def IpConn_init_def IpConnTcpQueue_init_def array_wf_init)

lemma local_loop_total:
  assumes "array_wf addrs" "int k + i = m_count addrs" "0 \<le> i" "\<not> has_flag flags CONN_PKT_FROM_SERVER"
  shows "\<exists>flags' l'. local_loop addrs src dst k i (flags, l) = Some (flags', l') \<and>
    \<not> has_flag flags' CONN_PKT_FROM_SERVER"
  using assms(2-4)
proof (induction k arbitrary: i flags l)
  case (Suc k)
  have n: "nat i < length (elems addrs)" using Suc.prems(1,2) m_count_elems [OF assms(1)] by linarith
  then have ne: "elems addrs \<noteq> []" by auto
  then obtain ys where arr: "m_array addrs = Some (elems addrs @ ys)" using m_array_SomeI [OF assms(1)] by blast
  have "array_get addrs 0 = Some 0"
    using arr assms(1) Suc.prems(1,2) by (simp add: array_get_def array_wf_def)
  then have at: "elt_at addrs (map_option (\<lambda>p. p + i) (array_get addrs 0)) = Some (elems addrs ! nat i)"
    using arr n Suc.prems(2) by (simp add: elt_at_def mem_get_def nth_append nat_less_iff)
  define a where "a = elems addrs ! nat i"
  define fl where "fl = (if src = a then (flags OR CONN_PKT_LOCAL_SRC, True) else (flags, l))"
  define fl2 where "fl2 = (if dst = a then (fst fl OR CONN_PKT_LOCAL_DST, True) else fl)"
  have step: "local_loop addrs src dst (Suc k) i (flags, l) = local_loop addrs src dst k (i + 1) (fst fl2, snd fl2)"
    using at by (auto simp: a_def fl_def fl2_def Let_def)
  have "\<not> has_flag (fst fl2) CONN_PKT_FROM_SERVER"
    using Suc.prems(3) by (simp add: fl2_def fl_def has_flag_or flag_bits)
  with Suc.IH [of "i + 1" "fst fl2" "snd fl2"] Suc.prems(1,2) show ?case
    unfolding step by simp
qed simp

lemma find_conn_total:
  assumes ok: "hash_ok IpConn_hash IpConn_cmp id h" "one_sided (hash_map id h)"
    "\<forall>a c. hash_map id h a = Some c \<longrightarrow> conn_ok a c" and c: "m_node_count h < 3 * 2 ^ 29"
    and fl: "\<not> has_flag flags CONN_PKT_FROM_SERVER"
  shows "\<exists>h' i j flags'. find_conn now h key flags = Some (h', (int i, int j), flags') \<and>
    hash_ok IpConn_hash IpConn_cmp id h' \<and> i < length (buckets h') \<and> j < length (buckets h' ! i) \<and>
    node_key (buckets h' ! i ! j) = (if hash_map id h key \<noteq> None then key else swap_ends key) \<and>
    (has_flag flags' CONN_PKT_FROM_SERVER \<longleftrightarrow> hash_map id h key \<noteq> None) \<and>
    one_sided (hash_map id h') \<and> (\<forall>a c. hash_map id h' a = Some c \<longrightarrow> conn_ok a c) \<and>
    dom (hash_map id h') = insert (if hash_map id h key \<noteq> None then key else swap_ends key) (dom (hash_map id h))"
proof (cases rule: addr_key.hash_get_cases [OF ok(1), of key])
  case (2 i j)
  with ok show ?thesis
    by (intro exI [of _ h] exI [of _ i] exI [of _ j])
      (auto simp: find_conn_def has_flag_or flag_bits)
next
  case absent: 1
  show ?thesis
  proof (cases rule: addr_key.hash_get_cases [OF ok(1), of "swap_ends key"])
    case (2 i j)
    with absent ok fl show ?thesis
      by (intro exI [of _ h] exI [of _ i] exI [of _ j])
        (auto simp: find_conn_def has_flag_or flag_bits)
  next
    case 1
    define conn where "conn = IpConn_init\<lparr>conn_addr := swap_ends key, conn_state := CONN_STATE_SYN,
      conn_time_first := now, conn_flags := set_flag (has_flag flags CONN_PKT_LOCAL_SRC) CONN_LOCAL_CLIENT
        (set_flag (has_flag flags CONN_PKT_LOCAL_DST) CONN_LOCAL_SERVER 0)\<rparr>"
    have cok: "conn_ok (swap_ends key) conn" unfolding conn_def by (rule conn_ok_init)
    obtain h' i j ev where p: "hash_put conn_zero h (swap_ends key) (Some conn) = Some (h', (int i, int j), ev)"
      "hash_ok IpConn_hash IpConn_cmp id h'" "hash_map id h' = (hash_map id h)(swap_ends key \<mapsto> conn)"
      "i < length (buckets h')" "j < length (buckets h' ! i)" "node_key (buckets h' ! i ! j) = swap_ends key"
      using addr_key.hash_put_at [OF ok(1) c, of conn_zero "swap_ends key" "Some conn"] by auto
    have "find_conn now h key flags = Some (h', (int i, int j), flags OR CONN_PKT_FROM_CLIENT OR CONN_PKT_FIRST)"
      using absent 1 p(1) by (simp add: find_conn_def conn_def)
    moreover have "one_sided (hash_map id h')"
      unfolding p(3) using absent by (intro one_sided_new ok(2)) simp
    ultimately show ?thesis using p absent ok(3) cok fl
      by (intro exI [of _ h'] exI [of _ i] exI [of _ j]) (auto simp: has_flag_or flag_bits)
  qed
qed

lemma pkt_key_total: "pkt_in pkt ip \<Longrightarrow> \<exists>key. pkt_key pkt ip = Some key"
proof -
  assume p: "pkt_in pkt ip"
  let ?m = "pkt_buf pkt"
  have ip: "0 \<le> ip" "ip + 20 \<le> int (length ?m)" using p by (simp_all add: pkt_in_def)
  obtain h where h: "(case pkt_tcp pkt of Some tcp \<Rightarrow> Some tcp | None \<Rightarrow> pkt_udp pkt) = Some h"
    "0 \<le> h" "h + 8 \<le> int (length ?m)"
    using p by (auto simp: pkt_in_def tcp_in_def split: option.splits)
  obtain a where "rd8 ?m (ip + 9) = Some a" using rd_ok(1) [of "ip + 9" ?m] ip by auto
  moreover obtain b where "rd32 ?m (ip + 12) = Some b" using rd_ok(3) [of "ip + 12" ?m] ip by auto
  moreover obtain c where "rd32 ?m (ip + 16) = Some c" using rd_ok(3) [of "ip + 16" ?m] ip by auto
  moreover obtain d where "rd16 ?m h = Some d" using rd_ok(2) [of h ?m] h by auto
  moreover obtain e where "rd16 ?m (h + 2) = Some e" using rd_ok(2) [of "h + 2" ?m] h by auto
  ultimately show ?thesis using h(1) by (simp add: pkt_key_def)
qed

lemma pkt_in_diff [simp]: "pkt_in (pkt\<lparr>pkt_tcp_seq_diff := d\<rparr>) ip = pkt_in pkt ip"
  by (simp add: pkt_in_def tcp_in_def split: option.splits)

text \<open>The stream part of \<open>track_pkt\<close>, for either direction.\<close>

lemma stream_part_total:
  assumes p: "pkt_in pkt ip" and ok: "conn_ok a conn"
  shows "\<exists>conn'. (if has_flag (conn_pkt_flags conn) CONN_PKT_FROM_SERVER then do {
         (conn, q, diff) \<leftarrow> IpConnTrack_track_stream conn (queue_server conn) pkt b;
         Some (conn\<lparr>queue_server := q\<rparr>)
       }
       else if has_flag (conn_pkt_flags conn) CONN_PKT_FROM_CLIENT then do {
         (conn, q, diff) \<leftarrow> IpConnTrack_track_stream conn (queue_client conn) pkt b;
         Some (conn\<lparr>queue_client := q\<rparr>)
       }
       else Some conn) = Some conn' \<and> conn_ok a conn' \<and>
     (has_flag (conn_pkt_flags conn') CONN_PKT_FROM_SERVER \<longleftrightarrow> has_flag (conn_pkt_flags conn) CONN_PKT_FROM_SERVER)"
proof -
  have wf: "array_wf (q_buf (queue_server conn))" "array_wf (q_buf (queue_client conn))"
    using ok by (simp_all add: conn_ok_def)
  obtain c1 q1 d1 where s: "IpConnTrack_track_stream conn (queue_server conn) pkt b = Some (c1, q1, d1)"
    "array_wf (q_buf q1)" "conn_addr c1 = conn_addr conn" "queue_client c1 = queue_client conn"
    "has_flag (conn_pkt_flags c1) CONN_PKT_FROM_SERVER \<longleftrightarrow> has_flag (conn_pkt_flags conn) CONN_PKT_FROM_SERVER"
    using track_stream_total [OF p wf(1), of conn b] by (auto simp: stream_result_def)
  obtain c2 q2 d2 where c: "IpConnTrack_track_stream conn (queue_client conn) pkt b = Some (c2, q2, d2)"
    "array_wf (q_buf q2)" "conn_addr c2 = conn_addr conn" "queue_server c2 = queue_server conn"
    "has_flag (conn_pkt_flags c2) CONN_PKT_FROM_SERVER \<longleftrightarrow> has_flag (conn_pkt_flags conn) CONN_PKT_FROM_SERVER"
    using track_stream_total [OF p wf(2), of conn b] by (auto simp: stream_result_def)
  from s c ok show ?thesis by (simp add: conn_ok_def)
qed

lemma track_pkt_total:
  assumes ok: "track_ok self" and p: "pkt_in pkt ip" and c: "m_node_count (m_conn_hash self) < 3 * 2 ^ 29"
  shows "\<exists>self' pkt' r key. IpConnTrack_track_pkt now self pkt fl = Some (self', pkt', r) \<and> track_ok self' \<and>
    pkt_key pkt ip = Some key \<and> (\<not> has_flag fl IPCONN_TRACK_LOCAL \<longrightarrow> r \<noteq> None) \<and>
    (case r of None \<Rightarrow> self' = self
     | Some n \<Rightarrow> \<exists>node. node_at (m_conn_hash self') n = Some node \<and>
         conn_addr (node_val node) =
           (if hash_map id (m_conn_hash self) key \<noteq> None then key else swap_ends key) \<and>
         (has_flag (conn_pkt_flags (node_val node)) CONN_PKT_FROM_SERVER \<longleftrightarrow>
           hash_map id (m_conn_hash self) key \<noteq> None) \<and>
         dom (hash_map id (m_conn_hash self')) =
           insert (conn_addr (node_val node)) (dom (hash_map id (m_conn_hash self))))"
proof -
  let ?h = "m_conn_hash self"
  have t: "hash_ok IpConn_hash IpConn_cmp id ?h" "one_sided (hash_map id ?h)"
    "\<forall>a c. hash_map id ?h a = Some c \<longrightarrow> conn_ok a c" "array_wf (m_local_addrs self)"
    using ok by (simp_all add: track_ok_def)
  have ip: "pkt_ip pkt = Some ip" "0 \<le> ip" "ip + 20 \<le> int (length (pkt_buf pkt))"
    and tu: "\<not> (pkt_tcp pkt = None \<and> pkt_udp pkt = None)"
    using p by (auto simp: pkt_in_def split: option.splits)
  obtain src where src: "rd32 (pkt_buf pkt) (ip + 12) = Some src" using rd_ok(3) [of "ip + 12" "pkt_buf pkt"] ip by auto
  obtain dst where dst: "rd32 (pkt_buf pkt) (ip + 16) = Some dst" using rd_ok(3) [of "ip + 16" "pkt_buf pkt"] ip by auto
  have cnt: "0 \<le> m_count (m_local_addrs self)" using t(4) by (simp add: array_wf_def)
  obtain flags l where loc: "local_loop (m_local_addrs self) src dst (nat (array_count (m_local_addrs self))) 0 (0, False) = Some (flags, l)"
    "\<not> has_flag flags CONN_PKT_FROM_SERVER"
    using local_loop_total [OF t(4), of "nat (array_count (m_local_addrs self))" 0 0 src dst False] cnt
    by (auto simp: array_count_def flag_bits)
  obtain key where key: "pkt_key pkt ip = Some key" using pkt_key_total [OF p] by blast
  show ?thesis
  proof (cases "has_flag fl IPCONN_TRACK_LOCAL \<and> \<not> l")
    case True
    with ip tu src dst loc key ok show ?thesis by (auto simp: IpConnTrack_track_pkt_def)
  next
    case False
    define a where "a = (if hash_map id ?h key \<noteq> None then key else swap_ends key)"
    obtain h i j flags' where f: "find_conn now ?h key flags = Some (h, (int i, int j), flags')"
      "hash_ok IpConn_hash IpConn_cmp id h" "i < length (buckets h)" "j < length (buckets h ! i)"
      "node_key (buckets h ! i ! j) = a"
      "has_flag flags' CONN_PKT_FROM_SERVER \<longleftrightarrow> hash_map id ?h key \<noteq> None"
      "one_sided (hash_map id h)" "\<forall>a c. hash_map id h a = Some c \<longrightarrow> conn_ok a c"
      "dom (hash_map id h) = insert a (dom (hash_map id ?h))"
      using find_conn_total [OF t(1-3) c loc(2), of now key] unfolding a_def by blast
    have sh: "hash_shape h" using f(2) by (simp add: hash_ok_def)
    note at = node_at_ok [OF sh f(3,4)]
    let ?c = "node_val (buckets h ! i ! j)"
    have d: "distinct (node_keys id (nodes h))" using f(2) by (simp add: hash_ok_def)
    have "hash_map id h a = Some ?c"
      unfolding hash_map_Some_iff [OF d] using nth_in_nodes [OF f(3,4)] f(5) by auto
    then have cok: "conn_ok a (?c\<lparr>conn_pkt_flags := flags'\<rparr>)" using f(8) by (simp add: conn_ok_def)
    obtain c1 dd where c1: "IpConnTrack_track_state now (?c\<lparr>conn_pkt_flags := flags'\<rparr>) pkt = Some (c1, pkt\<lparr>pkt_tcp_seq_diff := dd\<rparr>)"
      "conn_ok a c1" "has_flag (conn_pkt_flags c1) CONN_PKT_FROM_SERVER \<longleftrightarrow> has_flag flags' CONN_PKT_FROM_SERVER"
    proof -
      obtain c1 dd where t: "IpConnTrack_track_state now (?c\<lparr>conn_pkt_flags := flags'\<rparr>) pkt = Some (c1, pkt\<lparr>pkt_tcp_seq_diff := dd\<rparr>)"
        "conn_addr c1 = conn_addr (?c\<lparr>conn_pkt_flags := flags'\<rparr>)"
        "queue_server c1 = queue_server (?c\<lparr>conn_pkt_flags := flags'\<rparr>)"
        "queue_client c1 = queue_client (?c\<lparr>conn_pkt_flags := flags'\<rparr>)"
        "has_flag (conn_pkt_flags c1) CONN_PKT_FROM_SERVER \<longleftrightarrow>
           has_flag (conn_pkt_flags (?c\<lparr>conn_pkt_flags := flags'\<rparr>)) CONN_PKT_FROM_SERVER"
        using track_state_total [OF p] by blast
      have ok1: "conn_ok a c1" using cok unfolding conn_ok_def t(2-4) .
      have fl1: "has_flag (conn_pkt_flags c1) CONN_PKT_FROM_SERVER \<longleftrightarrow> has_flag flags' CONN_PKT_FROM_SERVER"
        unfolding t(5) by simp
      show thesis by (rule that [OF t(1) ok1 fl1])
    qed
    let ?pkt = "pkt\<lparr>pkt_tcp_seq_diff := dd\<rparr>" and ?b = "has_flag fl IPCONN_TRACK_BUFFER"
    have p': "pkt_in ?pkt ip" using p by simp
    obtain c2 where c2: "(if has_flag (conn_pkt_flags c1) CONN_PKT_FROM_SERVER then do {
         (conn, q, diff) \<leftarrow> IpConnTrack_track_stream c1 (queue_server c1) ?pkt ?b;
         Some (conn\<lparr>queue_server := q\<rparr>)
       }
       else if has_flag (conn_pkt_flags c1) CONN_PKT_FROM_CLIENT then do {
         (conn, q, diff) \<leftarrow> IpConnTrack_track_stream c1 (queue_client c1) ?pkt ?b;
         Some (conn\<lparr>queue_client := q\<rparr>)
       }
       else Some c1) = Some c2" "conn_ok a c2"
      "has_flag (conn_pkt_flags c2) CONN_PKT_FROM_SERVER \<longleftrightarrow> has_flag (conn_pkt_flags c1) CONN_PKT_FROM_SERVER"
      using stream_part_total [OF p' c1(2), of ?b] by blast
    obtain bs where raw: "node_store h (int i, int j) c2 = Some (h\<lparr>m_bucket := Some bs\<rparr>)"
      "hash_shape (h\<lparr>m_bucket := Some bs\<rparr>)"
      "buckets (h\<lparr>m_bucket := Some bs\<rparr>) = (buckets h)[i := (buckets h ! i)[j := (buckets h ! i ! j)\<lparr>node_val := c2\<rparr>]]"
      using node_store_raw [OF sh f(3,4), of c2] by blast
    let ?h' = "h\<lparr>m_bucket := Some bs\<rparr>"
    have st: "hash_ok IpConn_hash IpConn_cmp id ?h'" "hash_map id ?h' = (hash_map id h)(a \<mapsto> c2)"
      using addr_key.node_store_ok [OF f(2-4), of c2] raw(1) f(5) by auto
    have at': "node_at ?h' (int i, int j) = Some ((buckets h ! i ! j)\<lparr>node_val := c2\<rparr>)"
      using node_at_ok [OF raw(2), of i j] raw(3) f(3,4) by simp
    have "hash_map id h a \<noteq> None" using f(9) by auto
    then have "one_sided (hash_map id ?h')" unfolding st(2) by (rule one_sided_same [OF f(7)])
    then have "track_ok (self\<lparr>m_conn_hash := ?h'\<rparr>)"
      using st f(8) c2(2) t(4) by (auto simp: track_ok_def)
    moreover have "IpConnTrack_track_pkt now self pkt fl = Some (self\<lparr>m_conn_hash := ?h'\<rparr>, ?pkt, Some (int i, int j))"
      using ip tu src dst loc key False f(1) at c1(1) c2(1) raw(1)
      by (simp add: IpConnTrack_track_pkt_def)
    moreover have "dom (hash_map id ?h') = insert a (dom (hash_map id ?h))" using st(2) f(9) by auto
    moreover have "conn_addr c2 = a" using c2(2) by (simp add: conn_ok_def)
    ultimately show ?thesis using key at' c2(3) c1(3) f(6)
      by (intro exI [of _ "self\<lparr>m_conn_hash := ?h'\<rparr>"] exI [of _ ?pkt] exI [of _ "Some (int i, int j)"] exI [of _ key])
        (simp add: a_def)
  qed
qed

lemma IpConnTrack_init_ok: "\<exists>self. IpConnTrack_init None = Some self \<and> track_ok self \<and>
    hash_map id (m_conn_hash self) = Map.empty \<and> m_node_count (m_conn_hash self) = 0"
  using addr_key.hash_init_ok [of 0 0 0 conn_zero]
  by (auto simp: IpConnTrack_init_def track_ok_def one_sided_def array_wf_init)

section \<open>Properties\<close>

text \<open>
  C1. Stream reassembly: whatever segments of a byte stream arrive, in order, duplicated, overlapping,
  retransmitted or too early, the queue's buffer is always a prefix of the stream, exactly up to the
  next expected sequence number, as long as no segment starts exactly one byte beyond what has
  arrived. Sequence numbers may wrap around.
\<close>

theorem stream_reassembled:
  assumes "length D < 2 ^ 31" "list_all2 (carries D isn) pkts segs" "no_one_byte_gap segs 0"
    "seq_ok q" "array_wf (q_buf q)" "elems (q_buf q) = []" "q_seq q = isn"
  shows "\<exists>conn' q'. stream_run conn q pkts = Some (conn', q') \<and>
    elems (q_buf q') = take (fold covered segs 0) D \<and> fold covered segs 0 \<le> length D \<and>
    q_seq q' = isn + word_of_nat (fold covered segs 0)"
proof -
  have "has_prefix D isn q 0" using assms by (simp add: has_prefix_def)
  from stream_run_prefix [OF assms(1) this assms(2,3), of conn] show ?thesis
    by (auto simp: has_prefix_def)
qed

definition sample_segment :: "byte \<Rightarrow> byte list \<Rightarrow> netpkt" where
  "sample_segment s d =
     (netpkt_init ([0, 0, 0, 0, 0, 0, 0, s] @ replicate 11 0 @ [0xEE] @ d) 0 (20 + int (length d)))
       \<lparr>pkt_tcp := Some 0, pkt_msg := 20, pkt_len := int (length d)\<rparr>"

theorem stream_reassembled_witness:
  "\<exists>conn' q'. stream_run IpConn_init (IpConnTcpQueue_init\<lparr>seq_ok := True, q_seq := 5\<rparr>)
      [sample_segment 7 [67, 68], sample_segment 5 [65, 66], sample_segment 6 [66, 67]] = Some (conn', q') \<and>
    elems (q_buf q') = [65, 66, 67]"
proof -
  let ?D = "[65, 66, 67, 68] :: byte list"
  have "carries ?D 5 (sample_segment 7 [67, 68]) (2, 2)" "carries ?D 5 (sample_segment 5 [65, 66]) (0, 2)"
    "carries ?D 5 (sample_segment 6 [66, 67]) (1, 2)"
    unfolding carries_def by (rule conjI, rule exI [of _ 0], code_simp, code_simp)+
  then have c: "list_all2 (carries ?D 5) [sample_segment 7 [67, 68], sample_segment 5 [65, 66], sample_segment 6 [66, 67]]
      [(2, 2), (0, 2), (1, 2)]" by simp
  have "no_one_byte_gap [(2, 2), (0, 2), (1, 2)] 0" "fold covered [(2, 2), (0, 2), (1, 2)] 0 = 3"
    by (simp_all add: covered_def)
  moreover have "array_wf (q_buf IpConnTcpQueue_init)"
    by (simp add: IpConnTcpQueue_init_def array_wf_init)
  ultimately show ?thesis
    using stream_reassembled [OF _ c, of "IpConnTcpQueue_init\<lparr>seq_ok := True, q_seq := 5\<rparr>" IpConn_init]
    by (auto simp: IpConnTcpQueue_init_def)
qed

text \<open>
  A segment that starts one byte too far is not ignored: the tracker takes the byte before the
  payload (the last byte of the TCP header) for the missing stream byte and counts it as received.
\<close>

theorem stream_one_byte_gap:
  "(case IpConnTrack_track_stream IpConn_init (IpConnTcpQueue_init\<lparr>seq_ok := True, q_seq := 5\<rparr>)
      (sample_segment 6 [66, 67]) True of
     None \<Rightarrow> None
   | Some (conn, q, d) \<Rightarrow> Some (elems (q_buf q), q_seq q, d)) = Some ([0xEE, 66, 67], 8, 1)"
  by code_simp


text \<open>A UDP packet from port \<open>sp\<close> of address \<open>s\<close> to port \<open>dp\<close> of address \<open>d\<close>.\<close>

definition sample_udp :: "byte \<Rightarrow> byte \<Rightarrow> byte \<Rightarrow> byte \<Rightarrow> netpkt" where
  "sample_udp s d sp dp =
     (netpkt_init ([0x45, 0, 0, 28, 0, 0, 0, 0, 64, 17, 0, 0, 10, 0, 0, s, 10, 0, 0, d, 0, sp, 0, dp, 0, 8, 0, 0]) 0 28)
       \<lparr>pkt_ip := Some 0, pkt_udp := Some 20, pkt_msg := 28, pkt_len := 0\<rparr>"

lemma sample_udp_in: "pkt_in (sample_udp s d sp dp) 0"
  by (simp add: pkt_in_def sample_udp_def netpkt_init_def netpkt_init_max_def)


lemma hash_ok_count:
  assumes "hash_ok hash cmp canon h"
  shows "finite (dom (hash_map canon h))" "m_node_count h = int (card (dom (hash_map canon h)))"
proof -
  have "dom (hash_map canon h) = set (node_keys canon (nodes h))"
    using hash_map_None_iff [of canon h] by (auto simp: dom_def)
  moreover have "distinct (node_keys canon (nodes h))" "m_node_count h = int (length (node_keys canon (nodes h)))"
    using assms by (simp_all add: hash_ok_def node_keys_def)
  ultimately show "finite (dom (hash_map canon h))" "m_node_count h = int (card (dom (hash_map canon h)))"
    by (simp_all add: distinct_card)
qed

lemma count_insert:
  assumes "hash_ok hash cmp canon a" "hash_ok hash' cmp' canon' b"
    "dom (hash_map canon' b) = insert x (dom (hash_map canon a))"
  shows "m_node_count b \<le> m_node_count a + 1"
  using hash_ok_count [OF assms(1)] hash_ok_count [OF assms(2)] assms(3)
  by (simp add: card_insert_if)


definition sample_key :: IpConnAddr where
  "sample_key = \<lparr>proto = 17, client_addr = 0x0200000A, server_addr = 0x0100000A, client_port = 53, server_port = 100\<rparr>"


end
