(* ===== verification/Dns.thy ===== *)
theory Dns
  imports Hash Netpkt
begin

unbundle bit_operations_syntax

text \<open>
  \<open>dns.c\<close>, \<open>dns.h\<close>: DNS messages. A message lives in a caller's buffer (\<open>d_buf\<close>; it may be longer than
  the message, which ends at \<open>d_end\<close>); C pointers into it are offsets. Names in a message are sequences
  of labels that may end in a pointer to an earlier name; \<open>name_hash\<close> remembers the offsets of the
  names already packed. Reads and writes outside \<open>d_buf\<close>, and arithmetic on the null pointer that
  \<open>dns_unpack_name\<close> leaves in \<open>*src_end\<close> when it fails, are \<open>None\<close>. \<open>char\<close> is signed, as on x86-64.
  Not modelled: \<open>dns_fmt\<close>, which formats a message for the log, and the logging inside the operations.
\<close>

section \<open>Names of numbers\<close>

definition dns_type_str :: "int \<Rightarrow> string" where
  "dns_type_str = name_or_dec
     [(1, ''A''), (2, ''NS''), (3, ''MD''), (4, ''MF''), (5, ''CNAME''), (6, ''SOA''), (7, ''MB''), (8, ''MG''),
      (9, ''MR''), (10, ''NULL''), (11, ''WKS''), (12, ''PTR''), (13, ''HINFO''), (14, ''MINFO''), (15, ''MX''),
      (16, ''TXT'')]"

definition dns_rcode_str :: "int \<Rightarrow> string" where
  "dns_rcode_str = name_or_dec
     [(0, ''OK''), (1, ''FORMAT''), (2, ''SERVER''), (3, ''NAME''), (4, ''NOTIMPL''), (5, ''REFUSED'')]"

definition dns_qtype_str :: "int \<Rightarrow> string" where
  "dns_qtype_str = name_or_dec [(252, ''AXFR''), (253, ''MAILB''), (254, ''MAILA''), (255, ''ALL'')]"

definition dns_class_str :: "int \<Rightarrow> string" where
  "dns_class_str = name_or_dec [(1, ''IN''), (2, ''CS''), (3, ''CH''), (4, ''HS'')]"

definition dns_opcode_str :: "int \<Rightarrow> string" where
  "dns_opcode_str = name_or_dec [(0, ''QUERY''), (1, ''IQUERY''), (2, ''STATUS'')]"

definition dns_rr_str :: "int \<Rightarrow> string" where
  "dns_rr_str = name_or_dec [(1, ''QR''), (2, ''AN''), (3, ''NS''), (4, ''AR'')]"

section \<open>Messages and headers\<close>

definition DNS_HDR_LEN :: int where "DNS_HDR_LEN = 12"
definition DNS_NAME_PTR :: int where "DNS_NAME_PTR = 0xC0"
definition DNS_NAME_MAX :: int where "DNS_NAME_MAX = 256"

definition DNS_CLASS_IN :: u16 where "DNS_CLASS_IN = 1"
definition DNS_TYPE_A :: u16 where "DNS_TYPE_A = 1"
definition DNS_TYPE_NS :: u16 where "DNS_TYPE_NS = 2"
definition DNS_TYPE_CNAME :: u16 where "DNS_TYPE_CNAME = 5"
definition DNS_TYPE_PTR :: u16 where "DNS_TYPE_PTR = 12"
definition DNS_TYPE_AAAA :: u16 where "DNS_TYPE_AAAA = 28"

definition DNS_RR_QUESTION :: int where "DNS_RR_QUESTION = 1"
definition DNS_RR_ANSWER :: int where "DNS_RR_ANSWER = 2"
definition DNS_RR_AUTHORITY :: int where "DNS_RR_AUTHORITY = 3"
definition DNS_RR_ADDITIONAL :: int where "DNS_RR_ADDITIONAL = 4"

definition DNS_OPCODE_QUERY :: int where "DNS_OPCODE_QUERY = 0"

lemmas dns_consts = DNS_HDR_LEN_def DNS_NAME_PTR_def DNS_NAME_MAX_def DNS_CLASS_IN_def DNS_TYPE_A_def
  DNS_TYPE_NS_def DNS_TYPE_CNAME_def DNS_TYPE_PTR_def DNS_TYPE_AAAA_def DNS_RR_QUESTION_def
  DNS_RR_ANSWER_def DNS_RR_AUTHORITY_def DNS_RR_ADDITIONAL_def DNS_OPCODE_QUERY_def

record dns_t =
  d_buf :: mem
  d_end :: int
  d_ptr :: int
  d_buflen :: u32
  rr_idx :: byte
  name_hash :: "(byte list, int) hash_t option"
  d_id :: int
  d_qr :: int
  d_opcode :: int
  d_aa :: int
  d_tc :: int
  d_rd :: int
  d_ra :: int
  d_x3 :: int
  d_rcode :: int
  d_qrcount :: int
  d_ancount :: int
  d_nscount :: int
  d_arcount :: int

definition dns_zero :: dns_t where
  "dns_zero = \<lparr>d_buf = [], d_end = 0, d_ptr = 0, d_buflen = 0, rr_idx = 0, name_hash = None, d_id = 0,
     d_qr = 0, d_opcode = 0, d_aa = 0, d_tc = 0, d_rd = 0, d_ra = 0, d_x3 = 0, d_rcode = 0,
     d_qrcount = 0, d_ancount = 0, d_nscount = 0, d_arcount = 0\<rparr>"

definition dns_init :: "mem \<Rightarrow> int \<Rightarrow> dns_t \<times> int" where
  "dns_init buf len =
     (let dns = dns_zero\<lparr>d_buf := buf, d_buflen := word_of_int len, d_end := len, d_ptr := DNS_HDR_LEN, rr_idx := 0\<rparr>
      in (dns, if d_ptr dns \<le> d_end dns then 0 else - 1))"

definition dns_free :: "dns_t \<Rightarrow> dns_t option" where
  "dns_free dns =
     (case name_hash dns of None \<Rightarrow> Some dns_zero
      | Some h \<Rightarrow> do { (h, ev) \<leftarrow> hash_clear h; Some dns_zero })"

text \<open>
  The flag bits of the header: \<open>pack_bits\<close> in the two directions. \<open>(bits, shift)\<close> as in the code.
\<close>

definition unpack_bits :: "u16 \<Rightarrow> nat \<Rightarrow> nat \<Rightarrow> int" where
  "unpack_bits u bits shift = bit_get (uint u) bits shift"

definition pack_bits :: "u16 \<Rightarrow> int \<Rightarrow> nat \<Rightarrow> nat \<Rightarrow> u16" where
  "pack_bits u host bits shift = word_of_int (bit_set (uint u) bits shift (host AND (2 ^ bits - 1)))"

definition flags_of :: "dns_t \<Rightarrow> u16" where
  "flags_of dns =
     (let u = 0;
          u = pack_bits u (d_qr dns) 1 15;
          u = pack_bits u (d_opcode dns) 4 11;
          u = pack_bits u (d_aa dns) 1 10;
          u = pack_bits u (d_tc dns) 1 9;
          u = pack_bits u (d_rd dns) 1 8;
          u = pack_bits u (d_ra dns) 1 7;
          u = pack_bits u (d_x3 dns) 3 4
      in pack_bits u (d_rcode dns) 4 0)"

definition dns_pack_host2net :: "dns_t \<Rightarrow> (dns_t \<times> int) option" where
  "dns_pack_host2net dns =
     do {
       m \<leftarrow> wr16 (d_buf dns) 0 (ntohs (word_of_int (d_id dns)));
       m \<leftarrow> wr16 m 2 (ntohs (flags_of dns));
       m \<leftarrow> wr16 m 4 (ntohs (word_of_int (d_qrcount dns)));
       m \<leftarrow> wr16 m 6 (ntohs (word_of_int (d_ancount dns)));
       m \<leftarrow> wr16 m 8 (ntohs (word_of_int (d_nscount dns)));
       m \<leftarrow> wr16 m 10 (ntohs (word_of_int (d_arcount dns)));
       Some (dns\<lparr>d_buf := m\<rparr>, d_ptr dns)
     }"

definition dns_pack_net2host :: "dns_t \<Rightarrow> (dns_t \<times> int) option" where
  "dns_pack_net2host dns =
     do {
       let m = d_buf dns;
       i \<leftarrow> rd16 m 0;
       f \<leftarrow> rd16 m 2;
       let u = htons f;
       qr \<leftarrow> rd16 m 4;
       an \<leftarrow> rd16 m 6;
       ns \<leftarrow> rd16 m 8;
       ar \<leftarrow> rd16 m 10;
       Some (dns\<lparr>d_id := uint (htons i), d_qr := unpack_bits u 1 15, d_opcode := unpack_bits u 4 11,
                 d_aa := unpack_bits u 1 10, d_tc := unpack_bits u 1 9, d_rd := unpack_bits u 1 8,
                 d_ra := unpack_bits u 1 7, d_x3 := unpack_bits u 3 4, d_rcode := unpack_bits u 4 0,
                 d_qrcount := uint (htons qr), d_ancount := uint (htons an),
                 d_nscount := uint (htons ns), d_arcount := uint (htons ar)\<rparr>, d_ptr dns)
     }"

definition dns_pack :: "dns_t \<Rightarrow> bool \<Rightarrow> (dns_t \<times> int) option" where
  "dns_pack dns net2host = (if net2host then dns_pack_net2host dns else dns_pack_host2net dns)"

section \<open>Names\<close>

definition name_zero :: "(byte list, int) hash_node" where
  "name_zero = \<lparr>node_key = [], node_val = 0, node_hash = 0\<rparr>"

definition names_of :: "dns_t \<Rightarrow> (byte list, int) hash_t option" where
  "names_of dns =
     (case name_hash dns of Some h \<Rightarrow> Some h
      | None \<Rightarrow> hash_init name_zero hash_hash_str hash_cmp_str DNS_NAME_MAX 0 0)"

text \<open>
  The loop of \<open>dns_pack_name\<close>: \<open>s\<close> is the rest of the name (a C string, without its final zero), \<open>dst\<close>
  the offset to write to. The result is the message, the end of what was written and success.
\<close>

function pack_loop :: "dns_t \<Rightarrow> byte list \<Rightarrow> int \<Rightarrow> int \<Rightarrow> (dns_t \<times> int \<times> bool) option" where
  "pack_loop dns s dst dstlen =
     (if s = [] then do { m \<leftarrow> wr8 (d_buf dns) dst 0; Some (dns\<lparr>d_buf := m\<rparr>, dst + 1, True) }
      else if \<not> int (length s) < DNS_NAME_MAX then Some (dns, dst, False)
      else do {
        h \<leftarrow> names_of dns;
        node \<leftarrow> hash_get h s;
        case node of
          Some p \<Rightarrow> do {
            nd \<leftarrow> node_at h p;
            let i = node_val nd;
            if \<not> i < push_bit 8 DNS_NAME_PTR \<or> \<not> 2 \<le> dstlen then Some (dns\<lparr>name_hash := Some h\<rparr>, dst, False)
            else do {
              m \<leftarrow> wr8 (d_buf dns) dst (word_of_int ((drop_bit 8 i AND 0xff) OR DNS_NAME_PTR));
              m \<leftarrow> wr8 m (dst + 1) (word_of_int (i AND 0xff));
              Some (dns\<lparr>d_buf := m, name_hash := Some h\<rparr>, dst + 2, True)
            }
          }
        | None \<Rightarrow>
            if \<not> (0 \<le> dst \<and> dst < d_end dns) then Some (dns\<lparr>name_hash := Some h\<rparr>, dst, False)
            else do {
              (h, node, ev) \<leftarrow> hash_put name_zero h s (Some dst);
              let dns = dns\<lparr>name_hash := Some h\<rparr>;
              let n = length (takeWhile (\<lambda>c. c \<noteq> 46) s);
              if \<not> dstlen > int n + 1 then Some (dns, dst, False)
              else do {
                m \<leftarrow> wr8 (d_buf dns) dst (word_of_nat n);
                m \<leftarrow> blit m (dst + 1) (take n s);
                pack_loop (dns\<lparr>d_buf := m\<rparr>) (drop (n + 1) s) (dst + 1 + int n) (dstlen - 1 - int n)
              }
            }
      })"
  by pat_completeness auto
termination by (relation "measure (\<lambda>(dns, s, dst, dstlen). length s)") auto

declare pack_loop.simps [simp del]

text \<open>The string \<open>src\<close> points to: the memory from there on must hold its terminating zero.\<close>

definition c_string :: "mem \<Rightarrow> byte list option" where
  "c_string src = (if 0 \<in> set src then Some (cstr src) else None)"

definition dns_pack_name :: "dns_t \<Rightarrow> mem \<Rightarrow> int \<Rightarrow> int \<Rightarrow> (dns_t \<times> int) option" where
  "dns_pack_name dns src dst dstlen =
     do {
       s \<leftarrow> c_string src;
       (dns, dst', ok) \<leftarrow> pack_loop dns s dst dstlen;
       Some (dns, if ok then dst' - dst else - 1)
     }"

text \<open>\<open>strncpy\<close>: the \<open>n\<close> bytes it writes; it reads up to the first zero and pads with zeros.\<close>

fun strncpy_bytes :: "mem \<Rightarrow> int \<Rightarrow> nat \<Rightarrow> byte list option" where
  "strncpy_bytes m src 0 = Some []"
| "strncpy_bytes m src (Suc n) =
     do {
       c \<leftarrow> rd8 m src;
       if c = 0 then Some (replicate (Suc n) 0)
       else do { cs \<leftarrow> strncpy_bytes m (src + 1) n; Some (c # cs) }
     }"

lemma uint_gt_minus [simp]: "- 1 < uint x"
  using uint_ge_0 [of x] by linarith

text \<open>
  The loop of \<open>dns_unpack_name\<close>. \<open>src\<close> and \<open>e = dns->end\<close> are offsets in the message, \<open>d\<close> is an offset
  in the destination, \<open>pm\<close> is \<open>ptr_max\<close>, \<open>se\<close> is \<open>*src_end\<close>. The result is success, the destination,
  the final \<open>d\<close> and \<open>src\<close>, and \<open>*src_end\<close>.
\<close>

function unpack_loop ::
    "mem \<Rightarrow> int \<Rightarrow> nat \<Rightarrow> int \<Rightarrow> int \<Rightarrow> mem \<Rightarrow> int \<Rightarrow> int \<Rightarrow> int option \<Rightarrow>
     (bool \<times> mem \<times> int \<times> int \<times> int option) option" where
  "unpack_loop m e pm src srclen dst d dstlen se =
     (if srclen \<le> 0 then Some (False, dst, d, src, se)
      else do {
        c \<leftarrow> rd8 m src;
        let n = uint c;
        if n = 0 then Some (True, dst, d, src + 1, se)
        else if n AND DNS_NAME_PTR \<noteq> 0 then
          if pm \<le> 1 \<or> srclen - 1 \<le> 0 then Some (False, dst, d, src + 1, se)
          else do {
            b \<leftarrow> rd8 m (src + 1);
            let t = push_bit 8 (n AND NOT DNS_NAME_PTR) OR schar b;
            if \<not> t > 0 then Some (False, dst, d, src + 2, se)
            else unpack_loop m e (pm - 1) t (e - t) dst d dstlen
                   (case se of None \<Rightarrow> Some (src + 2) | Some x \<Rightarrow> Some x)
          }
        else if d > 0 \<and> \<not> dstlen > 1 then Some (False, dst, d, src + 1, se)
        else do {
          dst \<leftarrow> (if d > 0 then wr8 dst d 46 else Some dst);
          let k = (if d > 0 then 1 else 0);
          if \<not> dstlen - k > n then Some (False, dst, d + k, src + 1, se)
          else do {
            cs \<leftarrow> strncpy_bytes m (src + 1) (nat n);
            dst \<leftarrow> blit dst (d + k) cs;
            unpack_loop m e pm (src + 1 + n) (srclen - 1 - n) dst (d + k + n) (dstlen - k - n) se
          }
        }
      })"
  by pat_completeness auto

termination
  by (relation "measures [\<lambda>(m, e, pm, src, srclen, dst, d, dstlen, se). pm,
       \<lambda>(m, e, pm, src, srclen, dst, d, dstlen, se). nat srclen]") auto

declare unpack_loop.simps [simp del]

definition dns_unpack_name ::
    "dns_t \<Rightarrow> int \<Rightarrow> int \<Rightarrow> mem \<Rightarrow> int \<Rightarrow> (int \<times> mem \<times> int option) option" where
  "dns_unpack_name dns src srclen dst dstlen =
     do {
       (ok, dst, d, src, se) \<leftarrow> unpack_loop (d_buf dns) (d_end dns) 100 src srclen dst 0 dstlen None;
       if ok then do {
         dst \<leftarrow> wr8 dst d 0;
         Some (d + 1, dst, case se of None \<Rightarrow> Some src | Some x \<Rightarrow> Some x)
       }
       else Some (- 1, dst, se)
     }"

section \<open>Resource records\<close>

text \<open>
  The union \<open>rdata\<close> is its memory: an address is its first four bytes, a name all of it. \<open>rdata_ptr\<close> is a
  pointer into some object, given with the contents of that object.
\<close>

record dns_rr_t =
  rr_section :: int
  rr_name :: mem
  rr_type :: u16
  rr_class :: u16
  rr_ttl :: u32
  rr_rdata_len :: u16
  rr_rdata_ptr :: "(mem \<times> int) option"
  rr_rdata :: mem

definition rr_zero :: dns_rr_t where
  "rr_zero = \<lparr>rr_section = 0, rr_name = replicate 256 0, rr_type = 0, rr_class = 0, rr_ttl = 0,
     rr_rdata_len = 0, rr_rdata_ptr = None, rr_rdata = replicate 256 0\<rparr>"

definition dns_rr_rewind :: "dns_t \<Rightarrow> dns_t" where
  "dns_rr_rewind dns = dns\<lparr>d_ptr := DNS_HDR_LEN, rr_idx := 0\<rparr>"

definition section_of :: "dns_t \<Rightarrow> int option" where
  "section_of dns =
     (let i = uint (rr_idx dns)
      in if i < d_qrcount dns then Some DNS_RR_QUESTION
         else if i < d_qrcount dns + d_ancount dns then Some DNS_RR_ANSWER
         else if i < d_qrcount dns + d_ancount dns + d_nscount dns then Some DNS_RR_AUTHORITY
         else if i < d_qrcount dns + d_ancount dns + d_nscount dns + d_arcount dns then Some DNS_RR_ADDITIONAL
         else None)"

definition is_name_type :: "u16 \<Rightarrow> bool" where
  "is_name_type t \<longleftrightarrow> t = DNS_TYPE_NS \<or> t = DNS_TYPE_CNAME \<or> t = DNS_TYPE_PTR"

text \<open>
  \<open>dns_rr_pack\<close> from the network: the data of a record at \<open>p\<close>. For a name, \<open>dns_unpack_name\<close> moves \<open>p\<close>.
\<close>

definition rdata_unpack :: "dns_t \<Rightarrow> dns_rr_t \<Rightarrow> int \<Rightarrow> (dns_rr_t \<times> int) option" where
  "rdata_unpack dns rr p =
     (if rr_type rr = DNS_TYPE_A then
        if rr_rdata_len rr = 4 then do {
          a \<leftarrow> rd32 (d_buf dns) p;
          r \<leftarrow> wr32 (rr_rdata rr) 0 a;
          Some (rr\<lparr>rr_rdata := r\<rparr>, p)
        }
        else Some (rr, p)
      else if is_name_type (rr_type rr) then do {
        (i, r, p) \<leftarrow> dns_unpack_name dns p (uint (rr_rdata_len rr)) (rr_rdata rr) DNS_NAME_MAX;
        p \<leftarrow> p;
        Some (rr\<lparr>rr_rdata := r\<rparr>, p)
      }
      else Some (rr, p))"

definition dns_rr_unpack :: "dns_t \<Rightarrow> (dns_t \<times> dns_rr_t \<times> int) option" where
  "dns_rr_unpack dns =
     (case section_of dns of None \<Rightarrow> Some (dns, rr_zero, 0)
      | Some sec \<Rightarrow> do {
          let m = d_buf dns;
          let rr = rr_zero\<lparr>rr_section := sec\<rparr>;
          (i, name, p) \<leftarrow> dns_unpack_name dns (d_ptr dns) (d_end dns - d_ptr dns) (rr_name rr) DNS_NAME_MAX;
          let rr = rr\<lparr>rr_name := name\<rparr>;
          if \<not> i > 0 then Some (dns, rr, - 1)
          else do {
            p \<leftarrow> p;
            let dns = dns\<lparr>rr_idx := rr_idx dns + 1\<rparr>;
            t \<leftarrow> rd16 m p;
            c \<leftarrow> rd16 m (p + 2);
            let rr = rr\<lparr>rr_type := htons t, rr_class := htons c\<rparr>;
            if sec = DNS_RR_QUESTION then Some (dns\<lparr>d_ptr := p + 4\<rparr>, rr, 1)
            else do {
              ttl \<leftarrow> rd32 m (p + 4);
              l \<leftarrow> rd16 m (p + 8);
              let p = p + 10;
              let rr = rr\<lparr>rr_ttl := htonl ttl, rr_rdata_len := htons l, rr_rdata_ptr := Some (m, p)\<rparr>;
              (rr, p) \<leftarrow> rdata_unpack dns rr p;
              Some (dns\<lparr>d_ptr := p + uint (rr_rdata_len rr)\<rparr>, rr\<lparr>rr_rdata_ptr := Some (m, p)\<rparr>, 1)
            }
          }
        })"

text \<open>To the network: the data of \<open>rr\<close> at \<open>p\<close>, the record's length field being at \<open>p - 2\<close>.\<close>

definition rdata_pack :: "dns_t \<Rightarrow> dns_rr_t \<Rightarrow> int \<Rightarrow> (dns_t \<times> dns_rr_t) option" where
  "rdata_pack dns rr p =
     (if rr_type rr = DNS_TYPE_A then do {
        a \<leftarrow> rd32 (rr_rdata rr) 0;
        m \<leftarrow> wr32 (d_buf dns) p a;
        m \<leftarrow> wr16 m (p - 2) (ntohs 4);
        Some (dns\<lparr>d_buf := m\<rparr>, rr\<lparr>rr_rdata_len := 4\<rparr>)
      }
      else if is_name_type (rr_type rr) then do {
        (dns, i) \<leftarrow> dns_pack_name dns (rr_rdata rr) p DNS_NAME_MAX;
        m \<leftarrow> wr16 (d_buf dns) (p - 2) (ntohs (word_of_int i));
        Some (dns\<lparr>d_buf := m\<rparr>, rr\<lparr>rr_rdata_len := word_of_int i\<rparr>)
      }
      else if \<not> p - d_end dns < uint (rr_rdata_len rr) then Some (dns, rr)
      else case rr_rdata_ptr rr of None \<Rightarrow> Some (dns, rr)
        | Some (obj, q) \<Rightarrow> do {
            xs \<leftarrow> slice obj q (uint (rr_rdata_len rr));
            m \<leftarrow> blit (d_buf dns) p xs;
            Some (dns\<lparr>d_buf := m\<rparr>, rr)
          })"

definition count_section :: "dns_t \<Rightarrow> int \<Rightarrow> dns_t" where
  "count_section dns sec =
     (if sec = DNS_RR_QUESTION then dns\<lparr>d_qrcount := d_qrcount dns + 1\<rparr>
      else if sec = DNS_RR_ANSWER then dns\<lparr>d_ancount := d_ancount dns + 1\<rparr>
      else if sec = DNS_RR_AUTHORITY then dns\<lparr>d_nscount := d_nscount dns + 1\<rparr>
      else if sec = DNS_RR_ADDITIONAL then dns\<lparr>d_arcount := d_arcount dns + 1\<rparr>
      else dns)"

definition dns_rr_emit :: "dns_t \<Rightarrow> dns_rr_t \<Rightarrow> (dns_t \<times> dns_rr_t \<times> int) option" where
  "dns_rr_emit dns rr =
     do {
       let dns = count_section dns (rr_section rr);
       (dns, i) \<leftarrow> dns_pack_name dns (rr_name rr) (d_ptr dns) (d_end dns - d_ptr dns);
       let p = d_ptr dns + i;
       if \<not> i > 0 then Some (dns, rr, - 1)
       else do {
         let dns = dns\<lparr>rr_idx := rr_idx dns + 1\<rparr>;
         m \<leftarrow> wr16 (d_buf dns) p (ntohs (rr_type rr));
         m \<leftarrow> wr16 m (p + 2) (ntohs (rr_class rr));
         if rr_section rr = DNS_RR_QUESTION then Some (dns\<lparr>d_buf := m, d_ptr := p + 4\<rparr>, rr, 1)
         else do {
           m \<leftarrow> wr32 m (p + 4) (ntohl (rr_ttl rr));
           m \<leftarrow> wr16 m (p + 8) (ntohs (rr_rdata_len rr));
           let p = p + 10;
           (dns, rr) \<leftarrow> rdata_pack (dns\<lparr>d_buf := m\<rparr>) rr p;
           Some (dns\<lparr>d_ptr := p + uint (rr_rdata_len rr)\<rparr>, rr\<lparr>rr_rdata_ptr := Some (d_buf dns, p)\<rparr>, 1)
         }
       }
     }"

definition dns_rr_pack :: "dns_t \<Rightarrow> bool \<Rightarrow> dns_rr_t \<Rightarrow> (dns_t \<times> dns_rr_t \<times> int) option" where
  "dns_rr_pack dns net2host rr = (if net2host then dns_rr_unpack dns else dns_rr_emit dns rr)"

section \<open>Reading a message ends\<close>

text \<open>Reading a name moves forward, and only starts inside the message.\<close>

definition forward :: "int \<Rightarrow> int option \<Rightarrow> bool \<Rightarrow> int \<Rightarrow> int option \<Rightarrow> bool" where
  "forward src se ok src' se' \<longleftrightarrow>
     (case se of Some x \<Rightarrow> se' = Some x
      | None \<Rightarrow> (case se' of Some x \<Rightarrow> src < x | None \<Rightarrow> ok \<longrightarrow> src < src'))"

lemma forward_same [simp]: "forward src se False src' se"
  by (auto simp: forward_def split: option.splits)

lemma forward_trans: "forward src1 se ok src' se' \<Longrightarrow> src < src1 \<Longrightarrow> forward src se ok src' se'"
  by (auto simp: forward_def split: option.splits)

lemma unpack_loop_forward:
  "unpack_loop m e pm src srclen dst d dstlen se = Some (ok, dst', d', src', se') \<Longrightarrow>
   forward src se ok src' se'"
proof (induction m e pm src srclen dst d dstlen se rule: unpack_loop.induct)
  case (1 m e pm src srclen dst d dstlen se)
  show ?case
  proof (cases "srclen \<le> 0")
    case True
    with "1.prems" show ?thesis by (subst (asm) unpack_loop.simps) (auto simp: forward_def split: option.splits)
  next
    case False
    with "1.prems" obtain c where c: "rd8 m src = Some c"
      by (subst (asm) unpack_loop.simps) (auto split: Option.bind_splits)
    consider "uint c = 0" | "uint c \<noteq> 0" "uint c AND DNS_NAME_PTR \<noteq> 0" | "uint c \<noteq> 0" "uint c AND DNS_NAME_PTR = 0"
      by blast
    then show ?thesis
    proof cases
      case 1
      then show ?thesis using "1.prems" c False
        by (subst (asm) unpack_loop.simps) (auto simp: forward_def split: option.splits)
    next
      case 2
      define t where "t b = push_bit 8 (uint c AND NOT DNS_NAME_PTR) OR schar b" for b
      show ?thesis
      proof (cases "pm \<le> 1 \<or> srclen - 1 \<le> 0")
        case True
        with "1.prems" c 2 False show ?thesis by (subst (asm) unpack_loop.simps) (auto simp: forward_def split: option.splits)
      next
        case go: False
        with "1.prems" c 2 False obtain b where b: "rd8 m (src + 1) = Some b"
          by (subst (asm) unpack_loop.simps) (auto simp: Let_def split: Option.bind_splits)
        show ?thesis
        proof (cases "t b > 0")
          case True
          with "1.prems" c 2 False go b have r: "unpack_loop m e (pm - 1) (t b) (e - t b) dst d dstlen
              (case se of None \<Rightarrow> Some (src + 2) | Some x \<Rightarrow> Some x) = Some (ok, dst', d', src', se')"
            by (subst (asm) unpack_loop.simps) (simp add: Let_def t_def)
          note ih = 1(1) [OF False c(1) refl 2(1) 2(2) go b refl _ r [unfolded t_def]]
          then show ?thesis using True by (auto simp: forward_def t_def split: option.splits)
        next
          case neg: False
          with "1.prems" c 2 False go b show ?thesis
            by (subst (asm) unpack_loop.simps) (auto simp: Let_def t_def forward_def split: option.splits)
        qed
      qed
    next
      case 3
      define k where "k = (if d > 0 then 1 else 0 :: int)"
      show ?thesis
      proof (cases "(d > 0 \<and> \<not> dstlen > 1) \<or> \<not> dstlen - k > uint c")
        case True
        with "1.prems" c 3 False show ?thesis
          by (subst (asm) unpack_loop.simps)
            (auto simp: Let_def k_def forward_def split: option.splits if_splits Option.bind_splits)
      next
        case go: False
        with "1.prems" c 3 False obtain dst1 cs dst2 where r:
          "(if d > 0 then wr8 dst d 46 else Some dst) = Some dst1"
          "strncpy_bytes m (src + 1) (nat (uint c)) = Some cs" "blit dst1 (d + k) cs = Some dst2"
          "unpack_loop m e pm (src + 1 + uint c) (srclen - 1 - uint c) dst2 (d + k + uint c) (dstlen - k - uint c) se =
             Some (ok, dst', d', src', se')"
          by (subst (asm) unpack_loop.simps) (simp add: Let_def k_def split: if_splits Option.bind_splits)
        have "forward (src + 1 + uint c) se ok src' se'"
          using 1(2) [OF False c(1) refl 3(1) _ _ r(1) k_def _ r(2,3,4)] go 3(2) by blast
        then show ?thesis by (rule forward_trans) (use uint_ge_0 [of c] in linarith)
      qed
    qed
  qed
qed

lemma dns_unpack_name_forward:
  assumes "dns_unpack_name dns src srclen dst dstlen = Some (i, dst', Some p)"
  shows "src < p" "0 < i \<Longrightarrow> 0 < srclen"
proof -
  obtain ok d1 d s1 se where u: "unpack_loop (d_buf dns) (d_end dns) 100 src srclen dst 0 dstlen None = Some (ok, d1, d, s1, se)"
    using assms(1) by (auto simp: dns_unpack_name_def option_bind_Some)
  note f = unpack_loop_forward [OF u]
  show "src < p"
    using assms f u by (cases ok; cases se) (auto simp: dns_unpack_name_def forward_def split: Option.bind_splits)
  assume "0 < i"
  then have ok using assms u by (cases ok) (auto simp: dns_unpack_name_def)
  then show "0 < srclen" using u by (subst (asm) unpack_loop.simps) (auto split: if_splits)
qed

lemma dns_unpack_name_some:
  "dns_unpack_name dns src srclen dst dstlen = Some (i, dst', p) \<Longrightarrow> 0 < i \<Longrightarrow> p \<noteq> None"
  by (auto simp: dns_unpack_name_def split: if_splits Option.bind_splits option.splits)

lemma rdata_unpack_forward: "rdata_unpack dns rr p = Some (rr', p') \<Longrightarrow> p \<le> p'"
  by (auto simp: rdata_unpack_def option_bind_Some split: if_splits dest: dns_unpack_name_forward)

text \<open>A record that is read lies ahead of the last one, and starts before the end of the message.\<close>

lemma rr_unpack_progress:
  assumes "dns_rr_unpack dns = Some (dns', rr, i)" "0 < i"
  shows "d_ptr dns < d_ptr dns'" "d_ptr dns < d_end dns" "d_end dns' = d_end dns" "d_buf dns' = d_buf dns"
proof -
  obtain sec where sec: "section_of dns = Some sec"
    using assms by (cases "section_of dns") (auto simp: dns_rr_unpack_def)
  obtain j nm q where n: "dns_unpack_name dns (d_ptr dns) (d_end dns - d_ptr dns) (rr_name (rr_zero\<lparr>rr_section := sec\<rparr>))
      DNS_NAME_MAX = Some (j, nm, q)"
    using assms by (auto simp: dns_rr_unpack_def sec Let_def option_bind_Some)
  have j: "0 < j" using assms n by (auto simp: dns_rr_unpack_def sec Let_def split: if_splits)
  then obtain p where q: "q = Some p" using dns_unpack_name_some [OF n] by auto
  note f = dns_unpack_name_forward [OF n [unfolded q]]
  from f(2) j show "d_ptr dns < d_end dns" by simp
  have "d_ptr dns < d_ptr dns' \<and> d_end dns' = d_end dns \<and> d_buf dns' = d_buf dns"
  proof (cases "sec = DNS_RR_QUESTION")
    case True
    then show ?thesis using assms n q j f(1)
      by (auto simp: dns_rr_unpack_def sec Let_def split: Option.bind_splits)
  next
    case False
    with assms(1) n q j sec obtain rr0 rr1 p1 where r: "rdata_unpack (dns\<lparr>rr_idx := rr_idx dns + 1\<rparr>) rr0 (p + 10) = Some (rr1, p1)"
      "dns' = dns\<lparr>rr_idx := rr_idx dns + 1, d_ptr := p1 + uint (rr_rdata_len rr1)\<rparr>"
      by (auto simp: dns_rr_unpack_def Let_def split: Option.bind_splits)
    have "d_ptr dns < p1 + uint (rr_rdata_len rr1)"
      using rdata_unpack_forward [OF r(1)] f(1) uint_ge_0 [of "rr_rdata_len rr1"] by linarith
    with r(2) show ?thesis by simp
  qed
  then show "d_ptr dns < d_ptr dns'" "d_end dns' = d_end dns" "d_buf dns' = d_buf dns" by simp_all
qed

lemma rr_unpack_less:
  "dns_rr_unpack dns = Some (dns', rr, i) \<Longrightarrow> 0 < i \<Longrightarrow>
   d_ptr dns < d_end dns \<and> d_end dns' - d_ptr dns' < d_end dns - d_ptr dns"
  using rr_unpack_progress [of dns dns' rr i] by auto

section \<open>Operations on whole messages\<close>

text \<open>The loop of \<open>dns_buflen\<close>: read records until there is none left or one is malformed.\<close>

function skip_rrs :: "dns_t \<Rightarrow> dns_t option" where
  "skip_rrs dns =
     do { (dns', rr, i) \<leftarrow> dns_rr_unpack dns; if \<not> i > 0 then Some dns' else skip_rrs dns' }"
  by pat_completeness auto
termination
  by (relation "measure (\<lambda>dns. nat (d_end dns - d_ptr dns))") (auto dest: rr_unpack_less)

declare skip_rrs.simps [simp del]

definition dns_buflen :: "dns_t \<Rightarrow> (dns_t \<times> u32) option" where
  "dns_buflen dns =
     do {
       dns' \<leftarrow> skip_rrs (dns_rr_rewind dns);
       let dns' = dns'\<lparr>d_buflen := word_of_int (d_ptr dns'), d_ptr := d_ptr dns, rr_idx := rr_idx dns\<rparr>;
       Some (dns', d_buflen dns')
     }"

text \<open>\<open>strncpy\<close> to the start of the array \<open>dst\<close>.\<close>

definition mem_strncpy :: "mem \<Rightarrow> mem \<Rightarrow> int \<Rightarrow> mem option" where
  "mem_strncpy dst src n = do { cs \<leftarrow> strncpy_bytes src 0 (nat n); blit dst 0 cs }"

function query_loop :: "dns_t \<Rightarrow> mem \<Rightarrow> int \<Rightarrow> (dns_t \<times> mem \<times> int) option" where
  "query_loop dns hostname len =
     do {
       (dns', rr, i) \<leftarrow> dns_rr_unpack dns;
       if \<not> i > 0 then Some (dns', hostname, - 1)
       else if rr_section rr \<noteq> DNS_RR_QUESTION then Some (dns', hostname, - 1)
       else if rr_class rr \<noteq> DNS_CLASS_IN then query_loop dns' hostname len
       else if rr_type rr \<noteq> DNS_TYPE_A \<and> rr_type rr \<noteq> DNS_TYPE_PTR \<and> rr_type rr \<noteq> DNS_TYPE_AAAA
         then query_loop dns' hostname len
       else do { hostname \<leftarrow> mem_strncpy hostname (rr_name rr) len; Some (dns', hostname, 0) }
     }"
  by pat_completeness auto
termination
  by (relation "measure (\<lambda>(dns, h, l). nat (d_end dns - d_ptr dns))") (auto dest: rr_unpack_less)

declare query_loop.simps [simp del]

definition dns_check_query_in_a :: "dns_t \<Rightarrow> mem \<Rightarrow> int \<Rightarrow> (dns_t \<times> mem \<times> int) option" where
  "dns_check_query_in_a dns hostname len =
     do {
       hostname \<leftarrow> wr8 hostname 0 0;
       (dns, i) \<leftarrow> dns_pack dns True;
       if \<not> i > 0 then Some (dns, hostname, - 1)
       else if d_opcode dns \<noteq> DNS_OPCODE_QUERY then Some (dns, hostname, - 1)
       else if d_qr dns \<noteq> 0 then Some (dns, hostname, - 1)
       else query_loop (dns_rr_rewind dns) hostname len
     }"

text \<open>A record about \<open>hostname\<close>, as the builders fill it in before packing.\<close>

definition host_rr :: "int \<Rightarrow> mem \<Rightarrow> dns_rr_t option" where
  "host_rr sec hostname =
     do {
       name \<leftarrow> mem_strncpy (rr_name rr_zero) hostname DNS_NAME_MAX;
       Some (rr_zero\<lparr>rr_section := sec, rr_name := name, rr_class := DNS_CLASS_IN, rr_type := DNS_TYPE_A\<rparr>)
     }"

definition dns_pack_reply_in_a ::
    "dns_t \<Rightarrow> dns_t \<Rightarrow> u32 \<Rightarrow> u32 \<Rightarrow> (dns_t \<times> dns_t \<times> int) option" where
  "dns_pack_reply_in_a dns_reply dns_query addr ttl =
     do {
       (dns_query, hostname, i) \<leftarrow> dns_check_query_in_a dns_query (replicate 257 0) 257;
       if \<not> i \<ge> 0 then Some (dns_reply, dns_query, - 1)
       else do {
         let dns_reply = dns_reply\<lparr>d_opcode := d_opcode dns_query, d_id := d_id dns_query, d_qr := 1,
                                   d_rcode := d_rcode dns_query, d_aa := 0\<rparr>;
         let dns_reply = dns_rr_rewind dns_reply;
         rr \<leftarrow> host_rr DNS_RR_QUESTION hostname;
         (dns_reply, rr, i) \<leftarrow> dns_rr_pack dns_reply False rr;
         rr \<leftarrow> host_rr DNS_RR_ANSWER hostname;
         rdata \<leftarrow> wr32 (rr_rdata rr) 0 addr;
         let rr = rr\<lparr>rr_ttl := ttl, rr_rdata := rdata\<rparr>;
         (dns_reply, rr, i) \<leftarrow> dns_rr_pack dns_reply False rr;
         (dns_reply, i) \<leftarrow> dns_pack dns_reply False;
         Some (dns_reply, dns_query, i)
       }
     }"

definition dns_pack_query_in_a :: "dns_t \<Rightarrow> mem \<Rightarrow> int \<Rightarrow> (dns_t \<times> int) option" where
  "dns_pack_query_in_a dns_query hostname qid =
     do {
       let dns_query = dns_query\<lparr>d_opcode := DNS_OPCODE_QUERY, d_id := qid, d_qr := 0, d_rcode := 0, d_aa := 0, d_rd := 1\<rparr>;
       let dns_query = dns_rr_rewind dns_query;
       rr \<leftarrow> host_rr DNS_RR_QUESTION hostname;
       (dns_query, rr, i) \<leftarrow> dns_rr_pack dns_query False rr;
       if i \<noteq> 0 then Some (dns_query, - 1) else dns_pack dns_query False
     }"

text \<open>The buffer afterwards and the result.\<close>

definition dns_resolve_query :: "mem \<Rightarrow> int \<Rightarrow> mem \<Rightarrow> int \<Rightarrow> (mem \<times> int) option" where
  "dns_resolve_query buf buflen hostname qid =
     do {
       let (dns, i) = dns_init buf buflen;
       (dns, err) \<leftarrow> dns_pack_query_in_a dns hostname qid;
       dns' \<leftarrow> dns_free dns;
       Some (d_buf dns, err)
     }"

subsection \<open>Reading a reply\<close>

function collect_hosts ::
    "dns_t \<Rightarrow> dns_rr_t list \<Rightarrow> int \<Rightarrow> int \<Rightarrow> (dns_t \<times> dns_rr_t list \<times> int) option" where
  "collect_hosts dns hosts nhosts maxhosts =
     do {
       (dns', rr, i) \<leftarrow> dns_rr_unpack dns;
       if \<not> i > 0 then Some (dns', hosts, nhosts)
       else if \<not> (rr_section rr = DNS_RR_ANSWER \<or> rr_section rr = DNS_RR_QUESTION)
         then collect_hosts dns' hosts nhosts maxhosts
       else do {
         hosts \<leftarrow> mem_put hosts (nhosts - 1) rr;
         if \<not> nhosts + 1 < maxhosts then Some (dns', hosts, nhosts + 1)
         else collect_hosts dns' hosts (nhosts + 1) maxhosts
       }
     }"
  by pat_completeness auto
termination
  by (relation "measure (\<lambda>(dns, h, n, m). nat (d_end dns - d_ptr dns))") (auto dest: rr_unpack_less)

declare collect_hosts.simps [simp del]

definition same_host :: "mem \<Rightarrow> mem \<Rightarrow> bool" where
  "same_host a b \<longleftrightarrow> map tolower (cstr a) = map tolower (cstr b)"

definition is_answer :: "dns_rr_t \<Rightarrow> u16 \<Rightarrow> bool" where
  "is_answer rr t \<longleftrightarrow> rr_section rr = DNS_RR_ANSWER \<and> rr_type rr = t"

text \<open>The inner loop: the index of the address record of \<open>name\<close>, of \<open>k\<close> records from \<open>j\<close> on.\<close>

fun find_address :: "dns_rr_t list \<Rightarrow> mem \<Rightarrow> nat \<Rightarrow> int \<Rightarrow> int option option" where
  "find_address hosts name 0 j = Some None"
| "find_address hosts name (Suc k) j =
     do {
       h \<leftarrow> mem_get hosts j;
       if is_answer h DNS_TYPE_A \<and> same_host (rr_name h) name then Some (Some j)
       else find_address hosts name k (j + 1)
     }"

function alias_loop ::
    "dns_rr_t list \<Rightarrow> int \<Rightarrow> int \<Rightarrow> int \<Rightarrow> int \<Rightarrow> (dns_rr_t list \<times> int \<times> int) option" where
  "alias_loop hosts nhosts maxhosts i qidx =
     (if \<not> i < nhosts then Some (hosts, nhosts, qidx)
      else do {
        h \<leftarrow> mem_get hosts i;
        let qidx = (if qidx < 0 \<and> rr_section h = DNS_RR_QUESTION then i else qidx);
        if \<not> is_answer h DNS_TYPE_CNAME then alias_loop hosts nhosts maxhosts (i + 1) qidx
        else do {
          a \<leftarrow> find_address hosts (rr_rdata h) (nat (nhosts - 1)) 1;
          case a of None \<Rightarrow> alias_loop hosts nhosts maxhosts (i + 1) qidx
          | Some j \<Rightarrow>
              if \<not> nhosts < maxhosts then alias_loop hosts nhosts maxhosts (i + 1) qidx
              else do {
                hj \<leftarrow> mem_get hosts j;
                x \<leftarrow> rd32 (rr_rdata hj) 0;
                r \<leftarrow> wr32 (rr_rdata h) 0 x;
                hosts \<leftarrow> mem_put hosts nhosts (h\<lparr>rr_type := DNS_TYPE_A, rr_rdata := r\<rparr>);
                alias_loop hosts (nhosts + 1) maxhosts (i + 1) qidx
              }
        }
      })"
  by pat_completeness auto
termination
  by (relation "measure (\<lambda>(hosts, n, m, i, q). nat (max n m - i))") auto

declare alias_loop.simps [simp del]

text \<open>The number of address records for \<open>name\<close>, and the choice of one; \<open>k\<close> records from \<open>i\<close> on.\<close>

fun count_addresses :: "dns_rr_t list \<Rightarrow> mem \<Rightarrow> nat \<Rightarrow> int \<Rightarrow> int option" where
  "count_addresses hosts name 0 i = Some 0"
| "count_addresses hosts name (Suc k) i =
     do {
       h \<leftarrow> mem_get hosts i;
       n \<leftarrow> count_addresses hosts name k (i + 1);
       Some (if is_answer h DNS_TYPE_A \<and> same_host (rr_name h) name then n + 1 else n)
     }"

fun choose_address :: "dns_rr_t list \<Rightarrow> int \<Rightarrow> nat \<Rightarrow> int \<Rightarrow> dns_rr_t list option" where
  "choose_address hosts n 0 i = Some hosts"
| "choose_address hosts n (Suc k) i =
     do {
       h \<leftarrow> mem_get hosts i;
       if \<not> is_answer h DNS_TYPE_A then choose_address hosts n k (i + 1)
       else if n - 1 > 0 then choose_address hosts (n - 1) k (i + 1)
       else mem_put hosts 0 h
     }"

text \<open>\<open>rand_u32\<close> is the function of \<open>rand.c\<close>; \<open>*id\<close> is set for a reply only.\<close>

definition dns_resolve_reply ::
    "(int \<Rightarrow> int) \<Rightarrow> mem \<Rightarrow> int \<Rightarrow> int \<Rightarrow> (int option \<times> dns_rr_t list \<times> int) option" where
  "dns_resolve_reply rand_u32 buf buflen maxhosts =
     do {
       let hosts = replicate (nat maxhosts) rr_zero;
       let (dns, i) = dns_init buf buflen;
       (dns, i) \<leftarrow> dns_pack dns True;
       if \<not> i \<ge> 0 then Some (None, hosts, - 1)
       else if d_qr dns = 0 then Some (None, hosts, - 1)
       else if \<not> 2 < maxhosts then Some (Some (d_id dns), hosts, - 1)
       else do {
         (dns', hosts, nhosts) \<leftarrow> collect_hosts dns hosts 2 maxhosts;
         if \<not> nhosts < maxhosts then Some (Some (d_id dns), hosts, - 1)
         else do {
           (hosts, nhosts, qidx) \<leftarrow> alias_loop hosts nhosts maxhosts 1 (- 1);
           if \<not> qidx > 0 then Some (Some (d_id dns), hosts, - 1)
           else do {
             q \<leftarrow> mem_get hosts qidx;
             n \<leftarrow> count_addresses hosts (rr_name q) (nat (nhosts - 1)) 1;
             hosts \<leftarrow> choose_address hosts (rand_u32 (n + 1)) (nat (nhosts - 1)) 1;
             Some (Some (d_id dns), hosts, nhosts)
           }
         }
       }
     }"

end
