(* ===== verification/DnsHeader.thy ===== *)
theory DnsHeader
  imports Dns
begin

unbundle bit_operations_syntax

text \<open>
  The header of a DNS message (\<open>dns_pack\<close> of \<open>dns.c\<close>): its bit fields, and the two round trips between
  the fields of \<open>dns_t\<close> and the twelve bytes on the wire.
\<close>

section \<open>The header\<close>

lemma bit_pack_bits:
  "bit (pack_bits u h b s) n \<longleftrightarrow>
     n < 16 \<and> (if s \<le> n \<and> n < s + b then bit h (n - s) else bit u n)"
proof -
  have m: "(2 :: int) ^ b - 1 = mask b" by (simp add: mask_eq_exp_minus_1)
  show ?thesis
    unfolding pack_bits_def bit_set_def m
    by (auto simp: bit_word_of_int_iff bit_or_iff bit_and_iff bit_not_iff bit_push_bit_iff bit_mask_iff
        bit_uint_iff)
qed

lemma bit_unpack_bits: "bit (unpack_bits u b s) n \<longleftrightarrow> n < b \<and> bit u (s + n)"
  by (auto simp: unpack_bits_def bit_get_eq bit_take_bit_iff bit_drop_bit_eq bit_uint_iff
      dest: bit_imp_le_length)

lemma unpack_pack_same: "0 \<le> h \<Longrightarrow> h < 2 ^ b \<Longrightarrow> s + b \<le> 16 \<Longrightarrow> unpack_bits (pack_bits u h b s) b s = h"
proof -
  assume h: "0 \<le> h" "h < 2 ^ b" "s + b \<le> 16"
  then have "take_bit b h = h" by (simp add: take_bit_int_eq_self)
  then have "bit h n \<Longrightarrow> n < b" for n by (metis bit_take_bit_iff)
  with h(3) show ?thesis by (intro bit_eqI) (auto simp: bit_unpack_bits bit_pack_bits)
qed

lemma unpack_pack_other:
  "s + b \<le> s' \<or> s' + b' \<le> s \<Longrightarrow> s' + b' \<le> 16 \<Longrightarrow>
   unpack_bits (pack_bits u h b s) b' s' = unpack_bits u b' s'"
  by (intro bit_eqI) (auto simp: bit_unpack_bits bit_pack_bits)

text \<open>The ranges the fields of the header have on the wire.\<close>

definition header_in :: "dns_t \<Rightarrow> bool" where
  "header_in dns \<longleftrightarrow>
     d_id dns \<in> {0..<2 ^ 16} \<and> d_qr dns \<in> {0..<2} \<and> d_opcode dns \<in> {0..<2 ^ 4} \<and> d_aa dns \<in> {0..<2} \<and>
     d_tc dns \<in> {0..<2} \<and> d_rd dns \<in> {0..<2} \<and> d_ra dns \<in> {0..<2} \<and> d_x3 dns \<in> {0..<2 ^ 3} \<and>
     d_rcode dns \<in> {0..<2 ^ 4} \<and> d_qrcount dns \<in> {0..<2 ^ 16} \<and> d_ancount dns \<in> {0..<2 ^ 16} \<and>
     d_nscount dns \<in> {0..<2 ^ 16} \<and> d_arcount dns \<in> {0..<2 ^ 16}"

lemma flags_of_fields:
  assumes "header_in dns"
  shows "unpack_bits (flags_of dns) 1 15 = d_qr dns" "unpack_bits (flags_of dns) 4 11 = d_opcode dns"
    "unpack_bits (flags_of dns) 1 10 = d_aa dns" "unpack_bits (flags_of dns) 1 9 = d_tc dns"
    "unpack_bits (flags_of dns) 1 8 = d_rd dns" "unpack_bits (flags_of dns) 1 7 = d_ra dns"
    "unpack_bits (flags_of dns) 3 4 = d_x3 dns" "unpack_bits (flags_of dns) 4 0 = d_rcode dns"
  using assms by (simp_all add: flags_of_def header_in_def unpack_pack_same unpack_pack_other)

lemma uint_u16: "i \<in> {0..<2 ^ 16} \<Longrightarrow> uint (word_of_int i :: u16) = i"
  by (simp add: uint_word_of_int_eq take_bit_int_eq_self)

text \<open>Writing six 16-bit fields and reading them back.\<close>

definition six_fields :: "mem \<Rightarrow> u16 \<Rightarrow> u16 \<Rightarrow> u16 \<Rightarrow> u16 \<Rightarrow> u16 \<Rightarrow> u16 \<Rightarrow> bool" where
  "six_fields m a b c d e f \<longleftrightarrow> rd16 m 0 = Some a \<and> rd16 m 2 = Some b \<and> rd16 m 4 = Some c \<and>
     rd16 m 6 = Some d \<and> rd16 m 8 = Some e \<and> rd16 m 10 = Some f"

lemma rd16_wr16: "wr16 m p x = Some m' \<Longrightarrow> q = p \<or> q + 2 \<le> p \<or> p + 2 \<le> q \<Longrightarrow>
    rd16 m' q = (if q = p then Some x else rd16 m q)"
  using rd_wr_same(1) [of m p x m'] rd_blit_other(2) [of m p "[byte_of 0 x, byte_of 1 x]" m' q]
  by (auto simp: wr16_def)

lemma host2net_ok:
  assumes "12 \<le> length (d_buf dns)"
  obtains m where "dns_pack_host2net dns = Some (dns\<lparr>d_buf := m\<rparr>, d_ptr dns)"
    "six_fields m (ntohs (word_of_int (d_id dns))) (ntohs (flags_of dns)) (ntohs (word_of_int (d_qrcount dns)))
       (ntohs (word_of_int (d_ancount dns))) (ntohs (word_of_int (d_nscount dns))) (ntohs (word_of_int (d_arcount dns)))"
    "length m = length (d_buf dns)" "\<And>i. 12 \<le> i \<Longrightarrow> mem_get m i = mem_get (d_buf dns) i"
proof -
  let ?w = "\<lambda>m p x. wr16 m p (x :: u16)"
  obtain m1 where 1: "wr16 (d_buf dns) 0 (ntohs (word_of_int (d_id dns))) = Some m1" using wr_ok(2) [of 0 "d_buf dns"] assms by auto
  note l1 = wr_length(2) [OF 1]
  obtain m2 where 2: "wr16 m1 2 (ntohs (flags_of dns)) = Some m2" using wr_ok(2) [of 2 m1] assms l1 by auto
  note l2 = wr_length(2) [OF 2]
  obtain m3 where 3: "wr16 m2 4 (ntohs (word_of_int (d_qrcount dns))) = Some m3" using wr_ok(2) [of 4 m2] assms l1 l2 by auto
  note l3 = wr_length(2) [OF 3]
  obtain m4 where 4: "wr16 m3 6 (ntohs (word_of_int (d_ancount dns))) = Some m4" using wr_ok(2) [of 6 m3] assms l1 l2 l3 by auto
  note l4 = wr_length(2) [OF 4]
  obtain m5 where 5: "wr16 m4 8 (ntohs (word_of_int (d_nscount dns))) = Some m5" using wr_ok(2) [of 8 m4] assms l1 l2 l3 l4 by auto
  note l5 = wr_length(2) [OF 5]
  obtain m6 where 6: "wr16 m5 10 (ntohs (word_of_int (d_arcount dns))) = Some m6" using wr_ok(2) [of 10 m5] assms l1 l2 l3 l4 l5 by auto
  note r = rd16_wr16 [OF 1] rd16_wr16 [OF 2] rd16_wr16 [OF 3] rd16_wr16 [OF 4] rd16_wr16 [OF 5] rd16_wr16 [OF 6]
  note g = wr_get(2) [OF 1] wr_get(2) [OF 2] wr_get(2) [OF 3] wr_get(2) [OF 4] wr_get(2) [OF 5] wr_get(2) [OF 6]
  show thesis
  proof (rule that)
    show "dns_pack_host2net dns = Some (dns\<lparr>d_buf := m6\<rparr>, d_ptr dns)"
      by (simp add: dns_pack_host2net_def 1 2 3 4 5 6)
    show "six_fields m6 (ntohs (word_of_int (d_id dns))) (ntohs (flags_of dns)) (ntohs (word_of_int (d_qrcount dns)))
       (ntohs (word_of_int (d_ancount dns))) (ntohs (word_of_int (d_nscount dns))) (ntohs (word_of_int (d_arcount dns)))"
      by (simp add: six_fields_def r)
    show "length m6 = length (d_buf dns)" using wr_length(2) [OF 6] l1 l2 l3 l4 l5 by simp
    show "mem_get m6 i = mem_get (d_buf dns) i" if "12 \<le> i" for i using that by (simp add: g)
  qed
qed

lemma header_roundtrip_gen:
  assumes "12 \<le> length (d_buf dns)" "header_in dns"
  shows "\<exists>m. dns_pack dns False = Some (dns\<lparr>d_buf := m\<rparr>, d_ptr dns) \<and> length m = length (d_buf dns) \<and>
    (\<forall>i\<ge>12. mem_get m i = mem_get (d_buf dns) i) \<and>
    (\<forall>dns'. d_buf dns' = m \<longrightarrow> dns_pack dns' True =
       Some (dns\<lparr>d_buf := m, d_end := d_end dns', d_ptr := d_ptr dns', d_buflen := d_buflen dns',
                 rr_idx := rr_idx dns', name_hash := name_hash dns'\<rparr>, d_ptr dns'))"
proof -
  obtain m where m: "dns_pack_host2net dns = Some (dns\<lparr>d_buf := m\<rparr>, d_ptr dns)"
    "six_fields m (ntohs (word_of_int (d_id dns))) (ntohs (flags_of dns)) (ntohs (word_of_int (d_qrcount dns)))
       (ntohs (word_of_int (d_ancount dns))) (ntohs (word_of_int (d_nscount dns))) (ntohs (word_of_int (d_arcount dns)))"
    "length m = length (d_buf dns)" "\<And>i. 12 \<le> i \<Longrightarrow> mem_get m i = mem_get (d_buf dns) i"
    using host2net_ok [OF assms(1)] by blast
  have "dns_pack dns' True = Some (dns\<lparr>d_buf := m, d_end := d_end dns', d_ptr := d_ptr dns', d_buflen := d_buflen dns',
                 rr_idx := rr_idx dns', name_hash := name_hash dns'\<rparr>, d_ptr dns')" if "d_buf dns' = m" for dns'
    using m(2) assms(2) that flags_of_fields [OF assms(2)]
    by (cases dns'; cases dns) (simp add: dns_pack_def dns_pack_net2host_def six_fields_def header_in_def uint_u16 Let_def)
  with m(1,3,4) show ?thesis by (auto simp: dns_pack_def)
qed

text \<open>
  Headers survive the wire: packing the header of a message whose fields are in their ranges writes
  nothing behind the 12 header bytes, and unpacking the result restores every field.
\<close>

theorem header_roundtrip:
  assumes "12 \<le> length (d_buf dns)" "header_in dns"
  shows "\<exists>m. dns_pack dns False = Some (dns\<lparr>d_buf := m\<rparr>, d_ptr dns) \<and>
    drop 12 m = drop 12 (d_buf dns) \<and> dns_pack (dns\<lparr>d_buf := m\<rparr>) True = Some (dns\<lparr>d_buf := m\<rparr>, d_ptr dns)"
proof -
  obtain m where m: "dns_pack dns False = Some (dns\<lparr>d_buf := m\<rparr>, d_ptr dns)" "length m = length (d_buf dns)"
    "\<forall>i\<ge>12. mem_get m i = mem_get (d_buf dns) i"
    "dns_pack (dns\<lparr>d_buf := m\<rparr>) True = Some (dns\<lparr>d_buf := m\<rparr>, d_ptr dns)"
    using header_roundtrip_gen [OF assms] by fastforce
  have "drop 12 m = drop 12 (d_buf dns)"
  proof (rule nth_equalityI)
    fix k assume "k < length (drop 12 m)"
    then have "12 + k < length m" by simp
    then have "mem_get m (int (12 + k)) = Some (m ! (12 + k))" "mem_get (d_buf dns) (int (12 + k)) = Some (d_buf dns ! (12 + k))"
      using m(2) by (simp_all only: mem_get_def nat_int of_nat_0_le_iff of_nat_less_iff simp_thms if_True)
    moreover have "mem_get m (int (12 + k)) = mem_get (d_buf dns) (int (12 + k))" using m(3) by simp
    ultimately show "drop 12 m ! k = drop 12 (d_buf dns) ! k" using m(2) \<open>k < length (drop 12 m)\<close> by simp
  qed (simp add: m(2))
  with m(1,4) show ?thesis by blast
qed

theorem header_roundtrip_witness:
  "\<exists>m. dns_pack (dns_zero\<lparr>d_buf := replicate 14 7, d_id := 977, d_opcode := 2, d_rcode := 3, d_rd := 1, d_arcount := 300\<rparr>) False =
     Some (dns_zero\<lparr>d_buf := m, d_id := 977, d_opcode := 2, d_rcode := 3, d_rd := 1, d_arcount := 300\<rparr>, 0) \<and> drop 12 m = [7, 7]"
  using header_roundtrip [of "dns_zero\<lparr>d_buf := replicate 14 7, d_id := 977, d_opcode := 2, d_rcode := 3, d_rd := 1, d_arcount := 300\<rparr>"]
  by (auto simp: header_in_def dns_zero_def eval_nat_numeral)

lemma rd16_Some: "rd16 m p = Some x \<Longrightarrow> mem_get m p = Some (byte_of 0 x) \<and> mem_get m (p + 1) = Some (byte_of 1 x)"
  by (auto simp: rd16_def split: Option.bind_splits)

lemma six_fields_eq:
  assumes "six_fields m a b c d e f" "six_fields m' a b c d e f" "length m' = length m"
    "\<And>i. 12 \<le> i \<Longrightarrow> mem_get m' i = mem_get m i"
  shows "m' = m"
proof (rule nth_equalityI)
  fix k assume k: "k < length m'"
  note r = rd16_Some [of m] rd16_Some [of m']
  have "mem_get m' (int k) = mem_get m (int k)"
  proof (cases "12 \<le> k")
    case False
    then have "k \<in> set [0..<12]" by simp
    then show ?thesis using assms(1,2) by (auto simp: upt_rec six_fields_def dest!: r)
  qed (simp add: assms(4))
  with k assms(3) show "m' ! k = m ! k" by (simp add: mem_get_def)
qed (simp add: assms(3))

lemma flags_of_unpack:
  "flags_of (dns\<lparr>d_id := i, d_qr := unpack_bits u 1 15, d_opcode := unpack_bits u 4 11,
     d_aa := unpack_bits u 1 10, d_tc := unpack_bits u 1 9, d_rd := unpack_bits u 1 8,
     d_ra := unpack_bits u 1 7, d_x3 := unpack_bits u 3 4, d_rcode := unpack_bits u 4 0,
     d_qrcount := a, d_ancount := b, d_nscount := c, d_arcount := d\<rparr>) = u"
proof (rule bit_eqI)
  fix n assume "possible_bit TYPE(u16) n"
  then have "n \<in> set [0..<16]" by simp
  then show "bit (flags_of (dns\<lparr>d_id := i, d_qr := unpack_bits u 1 15, d_opcode := unpack_bits u 4 11,
     d_aa := unpack_bits u 1 10, d_tc := unpack_bits u 1 9, d_rd := unpack_bits u 1 8,
     d_ra := unpack_bits u 1 7, d_x3 := unpack_bits u 3 4, d_rcode := unpack_bits u 4 0,
     d_qrcount := a, d_ancount := b, d_nscount := c, d_arcount := d\<rparr>)) n = bit u n"
    by (auto simp: upt_rec flags_of_def bit_pack_bits bit_unpack_bits eval_nat_numeral)
qed

lemma unpack_bits_in: "unpack_bits u b s \<in> {0..<2 ^ b}"
  by (simp add: unpack_bits_def bit_get_eq)

lemma uint_u16_in: "uint (x :: u16) \<in> {0..<2 ^ 16}"
  using uint_lt2p [of x] by simp

text \<open>
  The other way round: unpacking any header and packing it again leaves all its bytes as they are,
  so every bit of the header is represented.
\<close>

theorem header_repack:
  assumes "12 \<le> length (d_buf dns)"
  shows "\<exists>dns'. dns_pack dns True = Some (dns', d_ptr dns) \<and> header_in dns' \<and>
    dns_pack dns' False = Some (dns', d_ptr dns)"
proof -
  obtain a b c d e f where r: "six_fields (d_buf dns) a b c d e f"
    using assms rd_ok(2) [of _ "d_buf dns"] unfolding six_fields_def by fastforce
  define u where "u = ntohs b"
  define dns' where "dns' = dns\<lparr>d_id := uint (ntohs a), d_qr := unpack_bits u 1 15, d_opcode := unpack_bits u 4 11,
     d_aa := unpack_bits u 1 10, d_tc := unpack_bits u 1 9, d_rd := unpack_bits u 1 8,
     d_ra := unpack_bits u 1 7, d_x3 := unpack_bits u 3 4, d_rcode := unpack_bits u 4 0,
     d_qrcount := uint (ntohs c), d_ancount := uint (ntohs d), d_nscount := uint (ntohs e), d_arcount := uint (ntohs f)\<rparr>"
  have 1: "dns_pack dns True = Some (dns', d_ptr dns)"
    using r by (simp add: dns_pack_def dns_pack_net2host_def six_fields_def dns'_def u_def Let_def)
  have buf: "d_buf dns' = d_buf dns" "d_ptr dns' = d_ptr dns" by (simp_all add: dns'_def)
  have fl: "ntohs (flags_of dns') = b" by (simp only: dns'_def flags_of_unpack u_def ntohs_ntohs)
  have "12 \<le> length (d_buf dns')" using assms buf by simp
  then obtain m where m: "dns_pack_host2net dns' = Some (dns'\<lparr>d_buf := m\<rparr>, d_ptr dns')"
    "six_fields m (ntohs (word_of_int (d_id dns'))) (ntohs (flags_of dns')) (ntohs (word_of_int (d_qrcount dns')))
       (ntohs (word_of_int (d_ancount dns'))) (ntohs (word_of_int (d_nscount dns'))) (ntohs (word_of_int (d_arcount dns')))"
    "length m = length (d_buf dns')" "\<And>i. 12 \<le> i \<Longrightarrow> mem_get m i = mem_get (d_buf dns') i"
    using host2net_ok by blast
  have "six_fields m a b c d e f" using m(2) unfolding fl by (simp add: dns'_def)
  from six_fields_eq [OF r this] m(3,4) buf have "m = d_buf dns'" by simp
  with m(1) buf have "dns_pack dns' False = Some (dns', d_ptr dns)" by (simp add: dns_pack_def)
  moreover have "header_in dns'"
    using unpack_bits_in [of u 1] unpack_bits_in [of u 3] unpack_bits_in [of u 4] uint_u16_in
    by (simp add: dns'_def header_in_def)
  ultimately show ?thesis using 1 by blast
qed

theorem header_repack_witness:
  "\<exists>dns'. dns_pack (dns_zero\<lparr>d_buf := [0xAB, 0xCD, 0xEF, 1, 2, 3, 4, 5, 6, 7, 8, 9]\<rparr>) True = Some (dns', 0) \<and>
     dns_pack dns' False = Some (dns', 0)"
  using header_repack [of "dns_zero\<lparr>d_buf := [0xAB, 0xCD, 0xEF, 1, 2, 3, 4, 5, 6, 7, 8, 9]\<rparr>"]
  by (auto simp: dns_zero_def)

end
