(* ===== verification/DnsNames.thy ===== *)
theory DnsNames
  imports DnsHeader
begin

unbundle bit_operations_syntax

text \<open>
  Names in DNS messages: what the bytes at an offset denote (\<open>name_at\<close>), that \<open>dns_unpack_name\<close> reads
  it, that \<open>dns_pack_name\<close> writes it, sharing the ends of names already written.
\<close>

section \<open>Names as labels\<close>

definition label_ok :: "byte list \<Rightarrow> bool" where
  "label_ok l \<longleftrightarrow> l \<noteq> [] \<and> length l < 64 \<and> 0 \<notin> set l \<and> 46 \<notin> set l"

definition dots :: "byte list list \<Rightarrow> byte list" where
  "dots ls = concat (map (Cons 46) ls)"

text \<open>The string with the labels \<open>ls\<close>, separated by dots.\<close>

definition dotted :: "byte list list \<Rightarrow> byte list" where
  "dotted ls = tl (dots ls)"

lemma dots_simps [simp]: "dots [] = []" "dots (l # ls) = 46 # l @ dots ls"
  by (simp_all add: dots_def)

lemma dotted_Nil [simp]: "dotted [] = []"
  by (simp add: dotted_def)

lemma dotted_Cons: "dotted (l # ls) = l @ dots ls"
  by (simp add: dotted_def)

lemma dots_dotted: "ls \<noteq> [] \<Longrightarrow> dots ls = 46 # dotted ls"
  by (cases ls) (auto simp: dotted_Cons)

lemma takeWhile_label: "46 \<notin> set l \<Longrightarrow> takeWhile (\<lambda>c. c \<noteq> 46) (l @ dots ls) = l"
  by (cases ls) (auto simp: takeWhile_append takeWhile_eq_all_conv)

lemma dots_inj:
  "\<forall>l\<in>set ls. 46 \<notin> set l \<Longrightarrow> \<forall>l\<in>set ks. 46 \<notin> set l \<Longrightarrow> dots ls = dots ks \<Longrightarrow> ls = ks"
proof (induction ls arbitrary: ks)
  case Nil
  then show ?case by (cases ks) auto
next
  case (Cons l ls)
  then obtain k ks' where ks: "ks = k # ks'" by (cases ks) auto
  have eq: "l @ dots ls = k @ dots ks'" using Cons.prems(3) by (simp add: ks)
  have "l = k" using arg_cong [OF eq, of "takeWhile (\<lambda>c. c \<noteq> 46)"] Cons.prems(1,2)
    by (simp add: takeWhile_label ks)
  moreover from this eq have "dots ls = dots ks'" by simp
  ultimately show ?case using Cons.IH [of ks'] Cons.prems(1,2) by (simp add: ks)
qed

definition labels_ok :: "byte list list \<Rightarrow> bool" where
  "labels_ok ls \<longleftrightarrow> (\<forall>l\<in>set ls. label_ok l)"

lemma labels_ok_simps [simp]: "labels_ok []" "labels_ok (l # ls) \<longleftrightarrow> label_ok l \<and> labels_ok ls"
  by (simp_all add: labels_ok_def)

lemma dotted_inj: "labels_ok ls \<Longrightarrow> labels_ok ks \<Longrightarrow> dotted ls = dotted ks \<Longrightarrow> ls = ks"
proof -
  assume ok: "labels_ok ls" "labels_ok ks" and eq: "dotted ls = dotted ks"
  have ne: "dotted xs = [] \<longleftrightarrow> xs = []" if "labels_ok xs" for xs
    using that by (cases xs) (auto simp: dotted_Cons label_ok_def)
  have "dots ls = dots ks"
    using dots_dotted [of ls] dots_dotted [of ks] eq ne [OF ok(1)] ne [OF ok(2)] by (cases "ls = []") auto
  with ok show "ls = ks" by (intro dots_inj) (auto simp: labels_ok_def label_ok_def)
qed

lemma dots_nonzero: "labels_ok ls \<Longrightarrow> 0 \<notin> set (dots ls)"
  by (induction ls) (auto simp: label_ok_def)

lemma dotted_nonzero: "labels_ok ls \<Longrightarrow> 0 \<notin> set (dotted ls)"
  by (cases ls) (auto simp: dotted_Cons label_ok_def dots_nonzero)

lemma dotted_empty: "labels_ok ls \<Longrightarrow> dotted ls = [] \<longleftrightarrow> ls = []"
  by (cases ls) (auto simp: dotted_Cons label_ok_def)

section \<open>Names in memory\<close>

definition ptr_target :: "byte \<Rightarrow> byte \<Rightarrow> int" where
  "ptr_target a b = push_bit 8 (uint a AND NOT DNS_NAME_PTR) OR schar b"

text \<open>
  \<open>name_at m w off ls k x\<close>: the bytes of \<open>m\<close> behind the header and below \<open>w\<close> hold at \<open>off\<close> a name with the labels \<open>ls\<close>, reached
  through \<open>k\<close> pointers; \<open>x\<close> is the offset behind it.
\<close>

inductive name_at :: "mem \<Rightarrow> int \<Rightarrow> int \<Rightarrow> byte list list \<Rightarrow> nat \<Rightarrow> int \<Rightarrow> bool" for m w where
  end_of_name: "12 \<le> off \<Longrightarrow> off < w \<Longrightarrow> mem_get m off = Some 0 \<Longrightarrow> name_at m w off [] 0 (off + 1)"
| label: "12 \<le> off \<Longrightarrow> mem_get m off = Some (word_of_nat (length l)) \<Longrightarrow> label_ok l \<Longrightarrow>
    (\<And>i. i < length l \<Longrightarrow> mem_get m (off + 1 + int i) = Some (l ! i)) \<Longrightarrow>
    name_at m w (off + 1 + int (length l)) ls k x \<Longrightarrow> name_at m w off (l # ls) k x"
| pointer: "12 \<le> off \<Longrightarrow> off + 1 < w \<Longrightarrow> mem_get m off = Some a \<Longrightarrow> uint a AND DNS_NAME_PTR \<noteq> 0 \<Longrightarrow>
    mem_get m (off + 1) = Some b \<Longrightarrow> 0 < ptr_target a b \<Longrightarrow>
    name_at m w (ptr_target a b) ls k x \<Longrightarrow> name_at m w off ls (Suc k) (off + 2)"

inductive_cases name_at_NilE: "name_at m w off [] k x"

lemma name_at_below: "name_at m w off ls k x \<Longrightarrow> 12 \<le> off \<and> off < w \<and> off < x"
  by (induction rule: name_at.induct) auto

text \<open>The header and the bytes at or beyond \<open>w\<close> do not matter.\<close>

lemma name_at_frame:
  assumes "name_at m w off ls k x" "\<And>i. 12 \<le> i \<Longrightarrow> i < w \<Longrightarrow> mem_get m' i = mem_get m i" "w \<le> w'"
  shows "name_at m' w' off ls k x"
  using assms
proof (induction rule: name_at.induct)
  case (end_of_name off)
  then show ?case by (intro name_at.end_of_name) auto
next
  case (label off l ls k x)
  have "off + 1 + int (length l) < w" using name_at_below [OF label.hyps(5)] by simp
  with label show ?case by (intro name_at.label) auto
next
  case (pointer off a b ls k x)
  then show ?case by (intro name_at.pointer) auto
qed

lemma strncpy_bytes_plain:
  "(\<And>i. i < length l \<Longrightarrow> mem_get m (src + int i) = Some (l ! i)) \<Longrightarrow> 0 \<notin> set l \<Longrightarrow>
   strncpy_bytes m src (length l) = Some l"
proof (induction l arbitrary: src)
  case (Cons c l)
  have "mem_get m src = Some c" using Cons.prems(1) [of 0] by simp
  moreover have "mem_get m (src + 1 + int i) = Some (l ! i)" if "i < length l" for i
    using Cons.prems(1) [of "Suc i"] that by (simp add: algebra_simps)
  ultimately show ?case using Cons by (simp add: rd8_def)
qed simp

lemma label_length_byte:
  "label_ok l \<Longrightarrow> uint (word_of_nat (length l) :: byte) = int (length l)"
  "label_ok l \<Longrightarrow> int (length l) AND DNS_NAME_PTR = 0"
proof -
  assume l: "label_ok l"
  then have n: "length l < 64" by (simp add: label_ok_def)
  then show "uint (word_of_nat (length l) :: byte) = int (length l)"
    by (simp add: uint_nat unat_of_nat)
  have "take_bit 6 (int (length l)) = int (length l)" using n by (simp add: take_bit_int_eq_self)
  then have "int (length l) AND DNS_NAME_PTR = int (length l) AND (take_bit 6 DNS_NAME_PTR)"
    by (metis take_bit_and take_bit_eq_mask and.assoc and.commute)
  then show "int (length l) AND DNS_NAME_PTR = 0" by (simp add: DNS_NAME_PTR_def)
qed

text \<open>What \<open>dns_unpack_name\<close> appends to the destination.\<close>

definition emitted :: "int \<Rightarrow> byte list list \<Rightarrow> byte list" where
  "emitted d ls = (if d > 0 then dots ls else dotted ls)"

lemma emitted_Cons: "0 \<le> d \<Longrightarrow> label_ok l \<Longrightarrow>
    emitted d (l # ls) = (if d > 0 then [46] else []) @ l @ emitted (d + (if d > 0 then 1 else 0) + int (length l)) ls"
  by (auto simp: emitted_def dotted_Cons label_ok_def)

lemma unpack_name_at:
  assumes "name_at m w off ls k x" "w \<le> e" "k < pm" "0 \<le> d" "d + dstlen \<le> int (length dst)"
    "int (length (emitted d ls)) < dstlen"
  shows "\<exists>src' se'. unpack_loop m e pm off (e - off) dst d dstlen se =
     Some (True, take (nat d) dst @ emitted d ls @ drop (nat d + length (emitted d ls)) dst,
           d + int (length (emitted d ls)), src', se') \<and>
     (case se' of None \<Rightarrow> src' = x | Some y \<Rightarrow> y = (case se of None \<Rightarrow> x | Some z \<Rightarrow> z)) \<and>
     (se \<noteq> None \<longrightarrow> se' = se)"
  using assms
proof (induction arbitrary: pm dst d dstlen se rule: name_at.induct)
  case (end_of_name off)
  then have "\<not> e - off \<le> 0" by simp
  with end_of_name show ?case
    by (subst unpack_loop.simps) (auto simp: rd8_def emitted_def Let_def split: option.splits)
next
  case (label off l ls k x)
  define j where "j = (if d > 0 then 1 else 0 :: int)"
  have j: "0 \<le> j" "j \<le> 1" by (auto simp: j_def)
  let ?sep = "if d > 0 then [46] else [] :: byte list"
  let ?n = "int (length l)"
  have below: "off + 1 + ?n < w" using name_at_below [OF label.hyps(5)] by simp
  then have go: "\<not> e - off \<le> 0" using label.prems(1) by simp
  have em: "emitted d (l # ls) = ?sep @ l @ emitted (d + j + ?n) ls"
    using emitted_Cons [OF label.prems(3) label.hyps(3)] by (simp add: j_def)
  have lsep: "int (length ?sep) = j" by (simp add: j_def)
  have room: "j + ?n + int (length (emitted (d + j + ?n) ls)) < dstlen"
    using label.prems(5) lsep unfolding em by simp
  have l0: "length l > 0" "0 \<notin> set l" "length l < 64" using label.hyps(3) by (auto simp: label_ok_def)
  have n: "uint (word_of_nat (length l) :: byte) = ?n" using label_length_byte(1) [OF label.hyps(3)] .
  define dst1 where "dst1 = (if d > 0 then take (nat d) dst @ [46] @ drop (nat d + 1) dst else dst)"
  have d1: "(if d > 0 then wr8 dst d 46 else Some dst) = Some dst1" "length dst1 = length dst"
    using label.prems(3,4) room j l0 by (auto simp: dst1_def wr8_blit blit_def)
  have cs: "strncpy_bytes m (off + 1) (length l) = Some l"
    using strncpy_bytes_plain [of l m "off + 1"] label.hyps(4) l0(2) by blast
  define dst2 where "dst2 = take (nat (d + j)) dst1 @ l @ drop (nat (d + j) + length l) dst1"
  have d2: "blit dst1 (d + j) l = Some dst2"
    using label.prems(3,4) room j d1(2) by (auto simp: blit_def dst2_def)
  have len2: "length dst2 = length dst" using blit_length [OF d2] d1(2) by simp
  have tk: "take (nat (d + j + ?n)) dst2 = take (nat d) dst @ ?sep @ l"
  proof -
    have "take (nat (d + j + ?n)) dst2 = take (nat (d + j)) dst1 @ l"
      using label.prems(3,4) room j d1(2) by (simp add: dst2_def nat_add_distrib min_absorb2)
    also have "take (nat (d + j)) dst1 = take (nat d) dst @ ?sep"
      using label.prems(3,4) room j l0(1) by (auto simp: dst1_def j_def nat_add_distrib min_absorb2)
    finally show ?thesis by simp
  qed
  have dr: "drop (nat (d + j + ?n) + q) dst2 = drop (nat d + length ?sep + length l + q) dst" for q
  proof -
    have "drop (nat (d + j + ?n) + q) dst2 = drop (nat (d + j) + length l + q) dst1"
      using label.prems(3,4) room j d1(2) by (simp add: dst2_def nat_add_distrib min_absorb2 add.commute)
    also have "\<dots> = drop (nat d + length ?sep + length l + q) dst"
      using label.prems(3,4) room j l0(1) by (auto simp: dst1_def j_def nat_add_distrib min_absorb2 ac_simps)
    finally show ?thesis .
  qed
  obtain src' se' where ih: "unpack_loop m e pm (off + 1 + ?n) (e - (off + 1 + ?n)) dst2 (d + j + ?n) (dstlen - j - ?n) se =
     Some (True, take (nat (d + j + ?n)) dst2 @ emitted (d + j + ?n) ls @
             drop (nat (d + j + ?n) + length (emitted (d + j + ?n) ls)) dst2,
           d + j + ?n + int (length (emitted (d + j + ?n) ls)), src', se')"
     "case se' of None \<Rightarrow> src' = x | Some y \<Rightarrow> y = (case se of None \<Rightarrow> x | Some z \<Rightarrow> z)"
     "se \<noteq> None \<longrightarrow> se' = se"
    using label.IH [of pm "d + j + ?n" "dstlen - j - ?n" dst2 se] label.prems room j len2 by auto
  have nolim: "\<not> (d > 0 \<and> \<not> dstlen > 1)" "dstlen - j > ?n"
    using room l0(1) by (auto simp: j_def)
  have step: "unpack_loop m e pm off (e - off) dst d dstlen se =
      unpack_loop m e pm (off + 1 + ?n) (e - (off + 1 + ?n)) dst2 (d + j + ?n) (dstlen - j - ?n) se"
    using go label.hyps(2) n l0(1) label_length_byte(2) [OF label.hyps(3)] d1(1) cs d2 nolim
    by (subst unpack_loop.simps) (auto simp: rd8_def Let_def j_def algebra_simps)
  show ?case
    unfolding step ih(1) em tk dr using ih(2,3) lsep
    by (intro exI [of _ src'] exI [of _ se']) (simp add: add.assoc)
next
  case (pointer off a b ls k x)
  have go: "\<not> e - off \<le> 0" "\<not> (pm \<le> 1 \<or> e - off - 1 \<le> 0)" using pointer.hyps pointer.prems by auto
  have a0: "uint a \<noteq> 0" using pointer.hyps(4) by auto
  have step: "unpack_loop m e pm off (e - off) dst d dstlen se =
      unpack_loop m e (pm - 1) (ptr_target a b) (e - ptr_target a b) dst d dstlen
        (case se of None \<Rightarrow> Some (off + 2) | Some z \<Rightarrow> Some z)"
    using go a0 pointer.hyps by (subst unpack_loop.simps) (simp add: rd8_def Let_def ptr_target_def)
  have "k < pm - 1" using pointer.prems(2) by simp
  from pointer.IH [OF pointer.prems(1) this pointer.prems(3,4,5), of "case se of None \<Rightarrow> Some (off + 2) | Some z \<Rightarrow> Some z"]
  show ?case unfolding step by (auto split: option.splits)
qed

section \<open>Packing names\<close>

text \<open>The offsets a compression pointer of this code can lead to: 14 bits, and a low byte below 128.\<close>

definition ptr_ok :: "int \<Rightarrow> bool" where
  "ptr_ok i \<longleftrightarrow> 0 < i \<and> i < 2 ^ 14 \<and> i mod 256 < 128"

lemma ptr_ok_small: "0 < i \<Longrightarrow> i < 128 \<Longrightarrow> ptr_ok i"
  by (simp add: ptr_ok_def)

lemma pointer_bytes:
  assumes "ptr_ok i"
  defines "a \<equiv> word_of_int ((drop_bit 8 i AND 0xff) OR DNS_NAME_PTR) :: byte"
    and "b \<equiv> word_of_int (i AND 0xff) :: byte"
  shows "uint a AND DNS_NAME_PTR \<noteq> 0" "ptr_target a b = i" "i < push_bit 8 DNS_NAME_PTR"
proof -
  have i: "0 \<le> i" "i < 2 ^ 14" "i mod 256 < 128" using assms(1) by (auto simp: ptr_ok_def)
  have t14: "take_bit 14 i = i" using i by (simp add: take_bit_int_eq_self)
  have b14: "bit i n \<Longrightarrow> n < 14" for n using t14 by (metis bit_take_bit_iff)
  have ff: "(0xff :: int) = mask 8" by (simp add: mask_eq_exp_minus_1)
  have c0: "DNS_NAME_PTR = push_bit 6 (mask 2)" by (simp add: DNS_NAME_PTR_def mask_eq_exp_minus_1)
  have ba: "bit (uint a) n \<longleftrightarrow> n = 6 \<or> n = 7 \<or> n < 8 \<and> bit i (8 + n)" for n
    unfolding a_def ff c0
    by (auto simp: bit_uint_iff bit_word_of_int_iff bit_or_iff bit_and_iff bit_drop_bit_eq bit_mask_iff bit_push_bit_iff)
  have n7: "\<not> bit i 7"
  proof -
    have "take_bit 8 i = i mod 256" by (simp add: take_bit_eq_mod)
    then have "take_bit 7 (take_bit 8 i) = take_bit 8 i" using i by (simp add: take_bit_int_eq_self)
    then have "bit (take_bit 8 i) 7 = bit (take_bit 7 (take_bit 8 i)) 7" by simp
    then show ?thesis by (simp add: bit_take_bit_iff)
  qed
  have "bit (uint a AND DNS_NAME_PTR) 6" by (simp add: bit_and_iff ba) (simp add: c0 bit_push_bit_iff bit_mask_iff)
  then show "uint a AND DNS_NAME_PTR \<noteq> 0" by auto
  have ub: "uint b = take_bit 8 i" by (simp add: b_def uint_word_of_int_eq ff take_bit_eq_mask [symmetric])
  have "schar b = take_bit 8 i"
  proof -
    have "schar b = signed_take_bit 7 (take_bit 8 i)" using ub by (simp add: schar_def sint_uint)
    also have "\<dots> = take_bit 7 (take_bit 8 i)" by (rule signed_take_bit_eq_if_positive) (simp add: bit_take_bit_iff n7)
    also have "\<dots> = take_bit 8 i" using i by (simp add: take_bit_int_eq_self take_bit_eq_mod)
    finally show ?thesis .
  qed
  then show "ptr_target a b = i"
    unfolding ptr_target_def
    by (intro bit_eqI) (auto simp: bit_or_iff bit_push_bit_iff bit_and_iff bit_not_iff ba bit_take_bit_iff c0 bit_mask_iff
        dest: b14)
  have "i < 2 ^ 14" by (rule i(2))
  then show "i < push_bit 8 DNS_NAME_PTR" by (simp add: DNS_NAME_PTR_def push_bit_eq_mult)
qed

text \<open>A name the table offers for sharing.\<close>

definition entry_ok :: "mem \<Rightarrow> int \<Rightarrow> byte list \<Rightarrow> int \<Rightarrow> bool" where
  "entry_ok m w key off \<longleftrightarrow>
     (\<exists>ls k x. key = dotted ls \<and> ls \<noteq> [] \<and> labels_ok ls \<and> name_at m w off ls k x \<and> k < length ls \<and> ptr_ok off)"

lemma entry_ok_frame:
  "entry_ok m w key off \<Longrightarrow> (\<And>i. i < w \<Longrightarrow> mem_get m' i = mem_get m i) \<Longrightarrow> w \<le> w' \<Longrightarrow> entry_ok m' w' key off"
  unfolding entry_ok_def using name_at_frame by blast

text \<open>
  The table of a message that has been written up to \<open>w\<close>: all its names but those in \<open>P\<close>, which are
  still being written, can be shared. \<open>c\<close> bounds the number of its entries.
\<close>

definition dict_ok :: "(byte list, int) hash_t \<Rightarrow> mem \<Rightarrow> int \<Rightarrow> byte list set \<Rightarrow> int \<Rightarrow> bool" where
  "dict_ok h m w P c \<longleftrightarrow> hash_ok hash_hash_str hash_cmp_str cstr h \<and> m_node_count h \<le> c \<and>
     (\<forall>key off. hash_map cstr h key = Some off \<longrightarrow> key \<in> P \<or> entry_ok m w key off)"

lemma dict_ok_frame:
  "dict_ok h m w P c \<Longrightarrow> (\<And>i. i < w \<Longrightarrow> mem_get m' i = mem_get m i) \<Longrightarrow> w \<le> w' \<Longrightarrow> dict_ok h m' w' P c"
  unfolding dict_ok_def using entry_ok_frame by blast

lemma cstr_dotted: "labels_ok ls \<Longrightarrow> cstr (dotted ls) = dotted ls"
  using dotted_nonzero [of ls] by (auto simp: cstr_def takeWhile_eq_all_conv)

text \<open>What packing leaves: only the buffer and the table change.\<close>

definition packed :: "dns_t \<Rightarrow> mem \<Rightarrow> (byte list, int) hash_t option \<Rightarrow> dns_t" where
  "packed dns m t = dns\<lparr>d_buf := m, name_hash := t\<rparr>"

lemma packed_simps [simp]:
  "d_buf (packed dns m t) = m" "name_hash (packed dns m t) = t" "d_end (packed dns m t) = d_end dns"
  "d_ptr (packed dns m t) = d_ptr dns" "packed (packed dns m t) m' t' = packed dns m' t'"
  "rr_idx (packed dns m t) = rr_idx dns"
  by (simp_all add: packed_def)

lemma packed_fold: "dns\<lparr>name_hash := t, d_buf := m\<rparr> = packed dns m t"
  by (simp add: packed_def)

lemma names_of_packed_Some [simp]: "names_of (packed dns m (Some h)) = Some h"
  by (simp add: names_of_def)

lemma packed_same: "packed dns (d_buf dns) (name_hash dns) = dns"
  by (simp add: packed_def)

lemma wr8_frame: "wr8 m p x = Some m' \<Longrightarrow> i < p \<Longrightarrow> mem_get m' i = mem_get m i"
  by (simp add: wr_get(1))

lemma blit_frame: "blit m p xs = Some m' \<Longrightarrow> i < p \<Longrightarrow> mem_get m' i = mem_get m i"
  by (simp add: blit_get)

text \<open>The bytes of a name without sharing.\<close>

definition name_size :: "byte list list \<Rightarrow> int" where
  "name_size ls = int (length (dots ls)) + 1"

lemma name_size_simps [simp]:
  "name_size [] = 1" "name_size (l # ls) = 1 + int (length l) + name_size ls"
  by (simp_all add: name_size_def)

lemma name_size_pos: "1 \<le> name_size ls"
  by (simp add: name_size_def)

text \<open>A name the table knows is written as a pointer.\<close>

lemma pack_loop_hit:
  assumes ok: "labels_ok ls" "length (dotted ls) < 256" "ls \<noteq> []" "names_of dns = Some h"
    and d: "dict_ok h (d_buf dns) dst P c" "dotted ls \<notin> P" "hash_map cstr h (dotted ls) = Some q"
    and room: "12 \<le> dst" "dst + 2 \<le> int (length (d_buf dns))" "2 \<le> dstlen"
  shows "\<exists>m k. pack_loop dns (dotted ls) dst dstlen = Some (packed dns m (Some h), dst + 2, True) \<and>
    length m = length (d_buf dns) \<and> (\<forall>i < dst. mem_get m i = mem_get (d_buf dns) i) \<and>
    name_at m (dst + 2) dst ls k (dst + 2) \<and> k \<le> length ls \<and> dict_ok h m (dst + 2) P c"
proof -
  let ?s = "dotted ls"
  have s: "?s \<noteq> []" "cstr ?s = ?s" "int (length ?s) < DNS_NAME_MAX"
    using ok cstr_dotted [OF ok(1)] by (auto simp: dotted_empty DNS_NAME_MAX_def)
  have hok: "hash_ok hash_hash_str hash_cmp_str cstr h" using d(1) by (simp add: dict_ok_def)
  show ?thesis
  proof (cases rule: str_key.hash_get_cases [OF hok, of ?s])
    case 1
    then show ?thesis using d(3) s(2) by simp
  next
    case (2 i j)
    have sh: "hash_shape h" using hok by (simp add: hash_ok_def)
    have q: "node_val (buckets h ! i ! j) = q" using 2(5) d(3) s(2) by simp
    have "entry_ok (d_buf dns) dst ?s q" using d by (auto simp: dict_ok_def)
    then obtain ls' k x where ls': "?s = dotted ls'" "labels_ok ls'" "name_at (d_buf dns) dst q ls' k x"
      "k < length ls'" "ptr_ok q" by (auto simp: entry_ok_def)
    have eq: "ls' = ls" using dotted_inj [OF ls'(2) ok(1)] ls'(1) by simp
    note pb = pointer_bytes [OF ls'(5)]
    obtain m1 where m1: "wr8 (d_buf dns) dst (word_of_int ((drop_bit 8 q AND 0xff) OR DNS_NAME_PTR)) = Some m1"
      using wr_ok(1) [of dst "d_buf dns"] room by auto
    obtain m where m: "wr8 m1 (dst + 1) (word_of_int (q AND 0xff)) = Some m"
      using wr_ok(1) [of "dst + 1" m1] room wr_length(1) [OF m1] by auto
    have fr: "mem_get m i = mem_get (d_buf dns) i" if "i < dst" for i
      using wr8_frame [OF m, of i] wr8_frame [OF m1, of i] that by simp
    have "pack_loop dns ?s dst dstlen = Some (packed dns m (Some h), dst + 2, True)"
      using s(1,3) ok(4) room(3) 2(1) node_at_ok [OF sh 2(2,3)] pb(3) m1 m
      by (subst pack_loop.simps) (simp add: q Let_def packed_def)
    moreover have "name_at m (dst + 2) dst ls (Suc k) (dst + 2)"
    proof (rule name_at.pointer)
      show "name_at m (dst + 2) (ptr_target (word_of_int ((drop_bit 8 q AND 0xff) OR DNS_NAME_PTR)) (word_of_int (q AND 0xff)))
          ls k x"
        unfolding pb(2) using name_at_frame [OF ls'(3) fr] eq by simp
      show "0 < ptr_target (word_of_int ((drop_bit 8 q AND 0xff) OR DNS_NAME_PTR)) (word_of_int (q AND 0xff))"
        unfolding pb(2) using ls'(5) by (simp add: ptr_ok_def)
    qed (use pb(1) room(1) in \<open>simp_all add: wr_get(1) [OF m] wr_get(1) [OF m1]\<close>)
    moreover have "dict_ok h m (dst + 2) P c" using dict_ok_frame [OF d(1) fr] by simp
    ultimately show ?thesis using wr_length(1) [OF m1] wr_length(1) [OF m] fr ls'(4) eq
      by (intro exI [of _ m] exI [of _ "Suc k"]) auto
  qed
qed

lemma pack_loop_spec:
  assumes "labels_ok ls" "length (dotted ls) < 256" "names_of dns = Some h"
    "dict_ok h (d_buf dns) dst P c" "c + int (length ls) < 3 * 2 ^ 29"
    "\<forall>key\<in>P. length (dotted ls) < length key"
    "\<forall>i. dst \<le> i \<and> i < dst + name_size ls \<longrightarrow> ptr_ok i"
    "12 \<le> dst" "dst + name_size ls \<le> d_end dns" "d_end dns \<le> int (length (d_buf dns))"
    "name_size ls \<le> dstlen"
  shows "\<exists>m t h' dst' k. pack_loop dns (dotted ls) dst dstlen = Some (packed dns m t, dst', True) \<and>
    dst < dst' \<and> dst' \<le> dst + name_size ls \<and> length m = length (d_buf dns) \<and>
    (\<forall>i < dst. mem_get m i = mem_get (d_buf dns) i) \<and> name_at m dst' dst ls k dst' \<and> k \<le> length ls \<and>
    names_of (packed dns m t) = Some h' \<and> dict_ok h' m dst' P (c + int (length ls)) \<and>
    (\<forall>key off. hash_map cstr h key = Some off \<longrightarrow> hash_map cstr h' key = Some off) \<and>
    (ls \<noteq> [] \<longrightarrow> hash_map cstr h' (dotted ls) \<noteq> None)"
  using assms
proof (induction ls arbitrary: dns h dst P c dstlen)
  case Nil
  obtain m where m: "wr8 (d_buf dns) dst 0 = Some m"
    using wr_ok(1) [of dst "d_buf dns" 0] Nil.prems(8,9,10) by auto
  have fr: "mem_get m i = mem_get (d_buf dns) i" if "i < dst" for i using wr8_frame [OF m that] .
  have "pack_loop dns (dotted []) dst dstlen = Some (packed dns m (name_hash dns), dst + 1, True)"
    by (subst pack_loop.simps) (simp add: m packed_def)
  moreover have "name_at m (dst + 1) dst [] 0 (dst + 1)"
    by (rule end_of_name) (use Nil.prems(8) in \<open>simp_all add: wr_get(1) [OF m]\<close>)
  moreover have "names_of (packed dns m (name_hash dns)) = Some h"
    using Nil.prems(3) by (simp add: names_of_def packed_def)
  moreover have "dict_ok h m (dst + 1) P c" using dict_ok_frame [OF Nil.prems(4) fr] by simp
  ultimately show ?case using wr_length(1) [OF m] fr
    by (intro exI [of _ m] exI [of _ "name_hash dns"] exI [of _ h] exI [of _ "dst + 1"] exI [of _ 0]) simp
next
  case (Cons l ls)
  let ?s = "dotted (l # ls)"
  have lab: "label_ok l" "labels_ok ls" "labels_ok (l # ls)" using Cons.prems(1) by auto
  have s: "?s \<noteq> []" "cstr ?s = ?s" "int (length ?s) < DNS_NAME_MAX"
    using lab Cons.prems(2) cstr_dotted [OF lab(3)] by (auto simp: dotted_empty DNS_NAME_MAX_def)
  have hok: "hash_ok hash_hash_str hash_cmp_str cstr h" "m_node_count h \<le> c"
    and ent: "\<And>key off. hash_map cstr h key = Some off \<Longrightarrow> key \<in> P \<or> entry_ok (d_buf dns) dst key off"
    using Cons.prems(4) by (auto simp: dict_ok_def)
  have sP: "?s \<notin> P" using Cons.prems(6) by auto
  show ?case
  proof (cases rule: str_key.hash_get_cases [OF hok(1), of ?s])
    case (2 i j)
    have q: "hash_map cstr h ?s = Some (node_val (buckets h ! i ! j))" using 2(5) s(2) by simp
    have room: "12 \<le> dst" "dst + 2 \<le> int (length (d_buf dns))" "2 \<le> dstlen"
      using Cons.prems(8-11) name_size_pos [of ls] lab(1) by auto
    obtain m k where r: "pack_loop dns ?s dst dstlen = Some (packed dns m (Some h), dst + 2, True)"
      "length m = length (d_buf dns)" "\<forall>i < dst. mem_get m i = mem_get (d_buf dns) i"
      "name_at m (dst + 2) dst (l # ls) k (dst + 2)" "k \<le> length (l # ls)" "dict_ok h m (dst + 2) P c"
      using pack_loop_hit [OF lab(3) Cons.prems(2) _ Cons.prems(3,4) sP q room] by blast
    have "dict_ok h m (dst + 2) P (c + int (length (l # ls)))" using r(6) by (simp add: dict_ok_def)
    then show ?thesis using r q lab(1) name_size_pos [of ls]
      by (intro exI [of _ m] exI [of _ "Some h"] exI [of _ h] exI [of _ "dst + 2"] exI [of _ k]) simp
  next
    case 1
    have cnt: "m_node_count h < 3 * 2 ^ 29" using hok(2) Cons.prems(5) by simp
    obtain h1 p ev where h1: "hash_put name_zero h ?s (Some dst) = Some (h1, p, ev)"
      "hash_ok hash_hash_str hash_cmp_str cstr h1" "m_node_count h1 \<le> m_node_count h + 1"
      "hash_map cstr h1 = (hash_map cstr h)(?s \<mapsto> dst)"
      using str_key.hash_put_spec [OF hok(1) cnt, of name_zero ?s "Some dst"] s(2) by auto
    have none: "hash_map cstr h ?s = None" using 1(2) s(2) by simp
    let ?n = "length l"
    have n: "takeWhile (\<lambda>c. c \<noteq> 46) ?s = l" "take ?n ?s = l" "drop (?n + 1) ?s = dotted ls"
      using lab(1) takeWhile_label [of l ls] by (auto simp: dotted_Cons label_ok_def dotted_def drop_Suc)
    have fits: "?n > 0" "length (dotted ls) < length ?s"
      using lab(1) by (cases ls; auto simp: label_ok_def dotted_Cons)+
    note pos = name_size_pos [of ls]
    obtain m1 where m1: "wr8 (d_buf dns) dst (word_of_nat ?n) = Some m1"
      using wr_ok(1) [of dst "d_buf dns"] Cons.prems(8,9,10) pos by auto
    note len1 = wr_length(1) [OF m1]
    obtain m2 where m2: "blit m1 (dst + 1) l = Some m2"
      using blit_ok [of "dst + 1" l m1] Cons.prems(8,9,10) len1 fits pos by auto
    note len2 = blit_length [OF m2]
    have fr2: "mem_get m2 i = mem_get (d_buf dns) i" if "i < dst" for i
      using blit_frame [OF m2, of i] wr8_frame [OF m1, of i] that by simp
    let ?dns = "packed dns m2 (Some h1)"
    let ?dst = "dst + 1 + int ?n"
    let ?P = "insert ?s P"
    have d1: "dict_ok h1 m2 ?dst ?P (c + 1)"
      unfolding dict_ok_def
    proof (intro conjI allI impI)
      fix key off assume k: "hash_map cstr h1 key = Some off"
      show "key \<in> ?P \<or> entry_ok m2 ?dst key off"
      proof (cases "key = ?s")
        case False
        with k h1(4) have "hash_map cstr h key = Some off" by simp
        from ent [OF this] entry_ok_frame [of "d_buf dns" dst key off m2 ?dst] fr2 show ?thesis by auto
      qed simp
    qed (use h1(2,3) hok(2) in auto)
    have pre: "length (dotted ls) < 256" "names_of ?dns = Some h1" "dict_ok h1 (d_buf ?dns) ?dst ?P (c + 1)"
      "c + 1 + int (length ls) < 3 * 2 ^ 29" "\<forall>key\<in>?P. length (dotted ls) < length key"
      "\<forall>i. ?dst \<le> i \<and> i < ?dst + name_size ls \<longrightarrow> ptr_ok i"
      "12 \<le> ?dst" "?dst + name_size ls \<le> d_end ?dns" "d_end ?dns \<le> int (length (d_buf ?dns))"
      "name_size ls \<le> dstlen - 1 - int ?n"
      using Cons.prems(2,5-11) fits pos len1 len2 d1 by auto
    obtain m t h' dst' k where r: "pack_loop ?dns (dotted ls) ?dst (dstlen - 1 - int ?n) = Some (packed ?dns m t, dst', True)"
      "?dst < dst'" "dst' \<le> ?dst + name_size ls" "length m = length (d_buf ?dns)"
      "\<forall>i < ?dst. mem_get m i = mem_get (d_buf ?dns) i" "name_at m dst' ?dst ls k dst'" "k \<le> length ls"
      "names_of (packed ?dns m t) = Some h'" "dict_ok h' m dst' ?P (c + 1 + int (length ls))"
      "\<forall>key off. hash_map cstr h1 key = Some off \<longrightarrow> hash_map cstr h' key = Some off"
      using Cons.IH [OF lab(2) pre] by blast
    have byte: "mem_get m dst = Some (word_of_nat ?n)"
      using r(5) blit_frame [OF m2, of dst] wr_get(1) [OF m1, of dst] by simp
    have bytes: "mem_get m (dst + 1 + int i) = Some (l ! i)" if "i < ?n" for i
      using r(5) blit_get [OF m2, of "dst + 1 + int i"] that by simp
    have name: "name_at m dst' dst (l # ls) k dst'"
      by (rule name_at.label [OF Cons.prems(8) byte lab(1) bytes r(6)])
    have step: "pack_loop dns ?s dst dstlen = pack_loop ?dns (dotted ls) ?dst (dstlen - 1 - int ?n)"
      using s(1,3) Cons.prems(3,8,9,11) 1(1) h1(1) n m1 m2 pos fits(1)
      by (subst pack_loop.simps) (simp add: Let_def packed_fold algebra_simps)
    have map': "hash_map cstr h' key = Some off" if "hash_map cstr h key = Some off" for key off
      using r(10) that none h1(4) by (metis fun_upd_apply option.distinct(1))
    have "dict_ok h' m dst' P (c + int (length (l # ls)))"
      unfolding dict_ok_def
    proof (intro conjI allI impI)
      fix key off assume k: "hash_map cstr h' key = Some off"
      show "key \<in> P \<or> entry_ok m dst' key off"
      proof (cases "key = ?s")
        case True
        have "hash_map cstr h' ?s = Some dst" using r(10) h1(4) by simp
        then have off: "off = dst" using k True by simp
        have "ptr_ok dst" using Cons.prems(7) pos by simp
        then show ?thesis
          unfolding True off entry_ok_def using name lab(3) r(7) by (intro disjI2 exI [of _ "l # ls"]) auto
      next
        case False
        with r(9) k show ?thesis unfolding dict_ok_def by auto
      qed
    qed (use r(9) in \<open>auto simp: dict_ok_def\<close>)
    moreover have "\<forall>i < dst. mem_get m i = mem_get (d_buf dns) i" using r(5) fr2 by simp
    moreover have "k \<le> length (l # ls)" using r(7) by simp
    moreover have "hash_map cstr h' ?s \<noteq> None" using r(10) h1(4) by simp
    ultimately show ?thesis
      using step r(1,2,3,4,8) name map' len1 len2
      by (intro exI [of _ m] exI [of _ t] exI [of _ h'] exI [of _ dst'] exI [of _ k]) simp
  qed
qed

section \<open>Packing and unpacking\<close>

lemma names_of_fresh:
  assumes "name_hash dns = None"
  shows "\<exists>h. names_of dns = Some h \<and> dict_ok h m w P 0"
  using str_key.hash_init_ok [of DNS_NAME_MAX 0 0 name_zero] assms
  by (auto simp: names_of_def dict_ok_def DNS_NAME_MAX_def)

lemma cstr_append: "0 \<notin> set s \<Longrightarrow> cstr (s @ 0 # rest) = s"
  by (induction s) (auto simp: cstr_def)

lemma c_string_append: "0 \<notin> set s \<Longrightarrow> c_string (s @ 0 # rest) = Some s"
  by (simp add: c_string_def cstr_append)

lemma dns_unpack_name_at:
  assumes "name_at (d_buf dns) w off ls k x" "w \<le> d_end dns" "k < 100"
    "int (length (dotted ls)) < dstlen" "dstlen \<le> int (length dst)"
  shows "dns_unpack_name dns off (d_end dns - off) dst dstlen =
    Some (int (length (dotted ls)) + 1, dotted ls @ 0 # drop (length (dotted ls) + 1) dst, Some x)"
proof -
  have em: "emitted 0 ls = dotted ls" by (simp add: emitted_def)
  obtain src' se' where u: "unpack_loop (d_buf dns) (d_end dns) 100 off (d_end dns - off) dst 0 dstlen None =
      Some (True, dotted ls @ drop (length (dotted ls)) dst, int (length (dotted ls)), src', se')"
    "case se' of None \<Rightarrow> src' = x | Some y \<Rightarrow> y = x"
    using unpack_name_at [OF assms(1,2,3), of 0 dstlen dst None] assms(4,5) em by (auto split: option.splits)
  have "wr8 (dotted ls @ drop (length (dotted ls)) dst) (int (length (dotted ls))) 0 =
      Some (dotted ls @ 0 # drop (length (dotted ls) + 1) dst)"
    using assms(4,5) by (simp add: wr8_blit blit_def)
  with u show ?thesis
    by (simp add: dns_unpack_name_def split: option.splits)
qed

text \<open>Packing names one after the other; the offsets at which they start.\<close>

fun pack_names :: "dns_t \<Rightarrow> mem list \<Rightarrow> (dns_t \<times> int list) option" where
  "pack_names dns [] = Some (dns, [])"
| "pack_names dns (s # ss) =
     do {
       (dns', n) \<leftarrow> dns_pack_name dns s (d_ptr dns) (d_end dns - d_ptr dns);
       if \<not> n > 0 then None
       else do {
         (dns'', offs) \<leftarrow> pack_names (dns'\<lparr>d_ptr := d_ptr dns + n\<rparr>) ss;
         Some (dns'', d_ptr dns # offs)
       }
     }"

definition names_ok :: "byte list list list \<Rightarrow> bool" where
  "names_ok ns \<longleftrightarrow> (\<forall>ls\<in>set ns. labels_ok ls \<and> length ls < 100 \<and> length (dotted ls) < 256)"

definition total_size :: "byte list list list \<Rightarrow> int" where
  "total_size ns = sum_list (map name_size ns)"

lemma total_size_simps [simp]: "total_size [] = 0" "total_size (ls # ns) = name_size ls + total_size ns"
  by (simp_all add: total_size_def)

lemma total_size_nonneg: "0 \<le> total_size ns"
proof (induction ns)
  case (Cons ls ns)
  then show ?case using name_size_pos [of ls] by simp
qed simp

definition readable :: "mem \<Rightarrow> int \<Rightarrow> int \<Rightarrow> byte list list \<Rightarrow> bool" where
  "readable m w off ls \<longleftrightarrow> (\<exists>k x. name_at m w off ls k x \<and> k \<le> length ls)"

lemma pack_names_spec:
  assumes "names_ok ns" "names_of dns = Some h" "dict_ok h (d_buf dns) (d_ptr dns) {} c"
    "c + int (length (concat ns)) < 3 * 2 ^ 29" "12 \<le> d_ptr dns" "d_ptr dns + total_size ns \<le> d_end dns"
    "d_end dns \<le> 128" "d_end dns \<le> int (length (d_buf dns))"
  shows "\<exists>dns' offs. pack_names dns (map (\<lambda>ls. dotted ls @ [0]) ns) = Some (dns', offs) \<and>
    d_end dns' = d_end dns \<and> length (d_buf dns') = length (d_buf dns) \<and> d_ptr dns' \<le> d_end dns \<and>
    d_ptr dns \<le> d_ptr dns' \<and>
    (\<forall>i < d_ptr dns. mem_get (d_buf dns') i = mem_get (d_buf dns) i) \<and>
    list_all2 (readable (d_buf dns') (d_ptr dns')) offs ns"
  using assms
proof (induction ns arbitrary: dns h c)
  case Nil
  then show ?case by simp
next
  case (Cons ls ns)
  have ls: "labels_ok ls" "length (dotted ls) < 256" and ns: "names_ok ns"
    using Cons.prems(1) by (auto simp: names_ok_def)
  note nn = total_size_nonneg [of ns] name_size_pos [of ls]
  have ptr: "\<forall>i. d_ptr dns \<le> i \<and> i < d_ptr dns + name_size ls \<longrightarrow> ptr_ok i"
    using Cons.prems(5,6,7) nn by (auto intro!: ptr_ok_small)
  have c1: "c + int (length ls) < 3 * 2 ^ 29" using Cons.prems(4) by simp
  have room: "12 \<le> d_ptr dns" "d_ptr dns + name_size ls \<le> d_end dns" "name_size ls \<le> d_end dns - d_ptr dns"
    using Cons.prems(5,6) nn by auto
  obtain m t h' dst k where r: "pack_loop dns (dotted ls) (d_ptr dns) (d_end dns - d_ptr dns) = Some (packed dns m t, dst, True)"
    "d_ptr dns < dst" "dst \<le> d_ptr dns + name_size ls" "length m = length (d_buf dns)"
    "\<forall>i < d_ptr dns. mem_get m i = mem_get (d_buf dns) i" "name_at m dst (d_ptr dns) ls k dst" "k \<le> length ls"
    "names_of (packed dns m t) = Some h'" "dict_ok h' m dst {} (c + int (length ls))"
    using pack_loop_spec [OF ls Cons.prems(2,3) c1 _ ptr room(1,2) Cons.prems(8) room(3)] by blast
  let ?d = "(packed dns m t)\<lparr>d_ptr := dst\<rparr>"
  have p: "dns_pack_name dns (dotted ls @ [0]) (d_ptr dns) (d_end dns - d_ptr dns) = Some (packed dns m t, dst - d_ptr dns)"
    using r(1) c_string_append [OF dotted_nonzero [OF ls(1)], of "[]"] by (simp add: dns_pack_name_def)
  have pre: "names_of ?d = Some h'" "dict_ok h' (d_buf ?d) (d_ptr ?d) {} (c + int (length ls))"
    "c + int (length ls) + int (length (concat ns)) < 3 * 2 ^ 29" "12 \<le> d_ptr ?d" "d_ptr ?d + total_size ns \<le> d_end ?d"
    "d_end ?d \<le> 128" "d_end ?d \<le> int (length (d_buf ?d))"
    using r Cons.prems(4-8) by (auto simp: names_of_def packed_def)
  obtain dns' offs where i: "pack_names ?d (map (\<lambda>ls. dotted ls @ [0]) ns) = Some (dns', offs)"
    "d_end dns' = d_end ?d" "length (d_buf dns') = length (d_buf ?d)" "d_ptr dns' \<le> d_end ?d" "d_ptr ?d \<le> d_ptr dns'"
    "\<forall>i < d_ptr ?d. mem_get (d_buf dns') i = mem_get (d_buf ?d) i"
    "list_all2 (readable (d_buf dns') (d_ptr dns')) offs ns"
    using Cons.IH [OF ns pre] by blast
  have "name_at (d_buf dns') (d_ptr dns') (d_ptr dns) ls k dst"
    using name_at_frame [OF r(6), of "d_buf dns'" "d_ptr dns'"] i(5,6) by simp
  then have "readable (d_buf dns') (d_ptr dns') (d_ptr dns) ls" using r(7) by (auto simp: readable_def)
  moreover have "pack_names dns (map (\<lambda>ls. dotted ls @ [0]) (ls # ns)) = Some (dns', d_ptr dns # offs)"
    using p r(2) i(1) by simp
  moreover have "\<forall>i < d_ptr dns. mem_get (d_buf dns') i = mem_get (d_buf dns) i" using i(6) r(2,5) by simp
  ultimately show ?case using i r(2,4) by (intro exI [of _ dns'] exI [of _ "d_ptr dns # offs"]) simp
qed

lemma dns_init_fields [simp]:
  "d_buf (fst (dns_init buf n)) = buf" "d_end (fst (dns_init buf n)) = n" "d_ptr (fst (dns_init buf n)) = 12"
  "name_hash (fst (dns_init buf n)) = None" "rr_idx (fst (dns_init buf n)) = 0"
  by (simp_all add: dns_init_def DNS_HDR_LEN_def dns_zero_def Let_def)



end
