(* ===== verification/DnsMsg.thy ===== *)
theory DnsMsg
  imports DnsNames
begin

text \<open>
  Whole DNS messages: reading never leaves the buffer by more than a label, replies answer their query,
  and what the code does not achieve with queries and aliases.
\<close>

section \<open>Reading names stays in bounds\<close>

lemma strncpy_bytes_total:
  "0 \<le> src \<Longrightarrow> src + int n \<le> int (length m) \<Longrightarrow> \<exists>cs. strncpy_bytes m src n = Some cs \<and> length cs = n"
proof (induction n arbitrary: src)
  case (Suc n)
  obtain c where "rd8 m src = Some c" using rd_ok(1) [of src m] Suc.prems by auto
  with Suc.IH [of "src + 1"] Suc.prems show ?case by auto
qed simp

text \<open>The longest label has 63 bytes; one that starts inside the message may end that far behind it.\<close>

lemma label_byte: "uint (c :: byte) AND DNS_NAME_PTR = 0 \<Longrightarrow> uint c < 64"
proof -
  assume z: "uint c AND DNS_NAME_PTR = 0"
  have c0: "DNS_NAME_PTR = push_bit 6 (mask 2)" by (simp add: DNS_NAME_PTR_def mask_eq_exp_minus_1)
  have "\<not> bit (uint c) n" if "6 \<le> n" for n
  proof (cases "n < 8")
    case True
    then have "bit (uint c AND DNS_NAME_PTR) n \<longleftrightarrow> bit (uint c) n"
      using that by (auto simp: c0 bit_and_iff bit_push_bit_iff bit_mask_iff)
    with z show ?thesis by simp
  next
    case False
    then show ?thesis by (simp add: bit_uint_iff)
  qed
  then have "uint c = take_bit 6 (uint c)" by (intro bit_eqI) (metis bit_take_bit_iff not_le)
  then have "uint c < 2 ^ 6" by (metis take_bit_int_less_exp)
  then show ?thesis by simp
qed

definition in_source :: "mem \<Rightarrow> int \<Rightarrow> int \<Rightarrow> bool" where
  "in_source m src srclen \<longleftrightarrow> (0 < srclen \<longrightarrow> 0 \<le> src \<and> src + srclen + 63 \<le> int (length m))"

lemma unpack_loop_total:
  "in_source m src srclen \<Longrightarrow> e + 63 \<le> int (length m) \<Longrightarrow> 0 \<le> d \<Longrightarrow> 0 < dstlen \<Longrightarrow> d + dstlen \<le> int (length dst) \<Longrightarrow>
   \<exists>ok dst' d' src' se'. unpack_loop m e pm src srclen dst d dstlen se = Some (ok, dst', d', src', se') \<and>
     length dst' = length dst \<and> (\<forall>i. d + dstlen \<le> i \<longrightarrow> mem_get dst' i = mem_get dst i) \<and>
     (ok \<longrightarrow> 0 \<le> d' \<and> d' < d + dstlen) \<and>
     (se = None \<longrightarrow> (case se' of Some y \<Rightarrow> y \<le> src + srclen | None \<Rightarrow> ok \<longrightarrow> src' \<le> src + srclen))"
proof (induction m e pm src srclen dst d dstlen se rule: unpack_loop.induct)
  case (1 m e pm src srclen dst d dstlen se)
  show ?case
  proof (cases "srclen \<le> 0")
    case True
    then show ?thesis by (subst unpack_loop.simps) (auto split: option.splits)
  next
    case False
    then have src: "0 \<le> src" "src + srclen + 63 \<le> int (length m)" using 1(3) by (auto simp: in_source_def)
    obtain c where c: "rd8 m src = Some c" using rd_ok(1) [of src m] src False by auto
    consider "uint c = 0" | "uint c \<noteq> 0" "uint c AND DNS_NAME_PTR \<noteq> 0" | "uint c \<noteq> 0" "uint c AND DNS_NAME_PTR = 0"
      by blast
    then show ?thesis
    proof cases
      case 1
      then show ?thesis using c False "1.prems"
        by (subst unpack_loop.simps) (auto split: option.splits)
    next
      case 2
      define t where "t b = push_bit 8 (uint c AND NOT DNS_NAME_PTR) OR schar b" for b
      show ?thesis
      proof (cases "pm \<le> 1 \<or> srclen - 1 \<le> 0")
        case True
        with c 2 False "1.prems" show ?thesis by (subst unpack_loop.simps) (auto split: option.splits)
      next
        case go: False
        obtain b where b: "rd8 m (src + 1) = Some b" using rd_ok(1) [of "src + 1" m] src go by auto
        show ?thesis
        proof (cases "t b > 0")
          case True
          have step: "unpack_loop m e pm src srclen dst d dstlen se =
              unpack_loop m e (pm - 1) (t b) (e - t b) dst d dstlen (case se of None \<Rightarrow> Some (src + 2) | Some x \<Rightarrow> Some x)"
            using c 2 False go b True by (subst unpack_loop.simps) (simp add: Let_def t_def)
          have "in_source m (t b) (e - t b)" using "1.prems"(2) True by (auto simp: in_source_def)
          note ih = 1(1) [OF False c(1) refl 2(1) 2(2) go b refl _ this [unfolded t_def] "1.prems"(2-5)]
          obtain ok dst' d' src' se' where r: "unpack_loop m e (pm - 1) (t b) (e - t b) dst d dstlen
              (case se of None \<Rightarrow> Some (src + 2) | Some x \<Rightarrow> Some x) = Some (ok, dst', d', src', se')"
            "length dst' = length dst" "\<forall>i. d + dstlen \<le> i \<longrightarrow> mem_get dst' i = mem_get dst i"
            "ok \<longrightarrow> 0 \<le> d' \<and> d' < d + dstlen"
            using ih True unfolding t_def by auto
          have "se = None \<longrightarrow> se' = Some (src + 2)" using unpack_loop_forward [OF r(1)] by (auto simp: forward_def)
          with r go show ?thesis unfolding step by auto
        next
          case neg: False
          with c 2 False go b "1.prems" show ?thesis
            by (subst unpack_loop.simps) (auto simp: Let_def t_def split: option.splits)
        qed
      qed
    next
      case 3
      have n: "uint c < 64" "0 < uint c" using label_byte [OF 3(2)] 3(1) uint_ge_0 [of c] by linarith+
      define k where "k = (if d > 0 then 1 else 0 :: int)"
      have k: "0 \<le> k" "k \<le> 1" by (auto simp: k_def)
      show ?thesis
      proof (cases "(d > 0 \<and> \<not> dstlen > 1) \<or> \<not> dstlen - k > uint c")
        case True
        have "d > 0 \<Longrightarrow> \<exists>m'. wr8 dst d 46 = Some m'" using wr_ok(1) [of d dst] "1.prems" by auto
        then obtain dst1 where w: "(if d > 0 then wr8 dst d 46 else Some dst) = Some dst1" by fastforce
        have l1: "length dst1 = length dst" "\<forall>i. d + dstlen \<le> i \<longrightarrow> mem_get dst1 i = mem_get dst i"
          using w "1.prems"(4) by (auto simp: wr_get(1) split: if_splits dest: wr_length(1))
        have "\<exists>x d1. unpack_loop m e pm src srclen dst d dstlen se = Some (False, x, d1, src + 1, se) \<and>
            length x = length dst \<and> (\<forall>i. d + dstlen \<le> i \<longrightarrow> mem_get x i = mem_get dst i)"
        proof (cases "d > 0 \<and> \<not> dstlen > 1")
          case True
          with c 3 False show ?thesis by (subst unpack_loop.simps) (simp add: Let_def)
        next
          case no: False
          with True have "\<not> dstlen - k > uint c" by blast
          then have "unpack_loop m e pm src srclen dst d dstlen se = Some (False, dst1, d + k, src + 1, se)"
            using c 3 False w no by (subst unpack_loop.simps) (auto simp: Let_def k_def)
          with l1 show ?thesis by blast
        qed
        then obtain x d1 where x: "unpack_loop m e pm src srclen dst d dstlen se = Some (False, x, d1, src + 1, se)"
            "length x = length dst" "\<forall>i. d + dstlen \<le> i \<longrightarrow> mem_get x i = mem_get dst i" by blast
        show ?thesis unfolding x(1) using x(2,3)
          by (intro exI [of _ False] exI [of _ x] exI [of _ d1] exI [of _ "src + 1"] exI [of _ se]) (simp split: option.splits)
      next
        case go: False
        have "d > 0 \<Longrightarrow> \<exists>m'. wr8 dst d 46 = Some m'" using wr_ok(1) [of d dst] "1.prems" by auto
        then obtain dst1 where w: "(if d > 0 then wr8 dst d 46 else Some dst) = Some dst1" by fastforce
        have l1: "length dst1 = length dst" "\<forall>i. d + dstlen \<le> i \<longrightarrow> mem_get dst1 i = mem_get dst i"
          using w "1.prems"(4) by (auto simp: wr_get(1) split: if_splits dest: wr_length(1))
        obtain cs where cs: "strncpy_bytes m (src + 1) (nat (uint c)) = Some cs" "length cs = nat (uint c)"
          using strncpy_bytes_total [of "src + 1" "nat (uint c)" m] src n False by auto
        obtain dst2 where d2: "blit dst1 (d + k) cs = Some dst2"
          using blit_ok [of "d + k" cs dst1] cs(2) l1 go "1.prems" k n by auto
        have l2: "length dst2 = length dst" "\<forall>i. d + dstlen \<le> i \<longrightarrow> mem_get dst2 i = mem_get dst i"
          using blit_length [OF d2] l1 blit_get [OF d2] cs(2) go n k by auto
        have step: "unpack_loop m e pm src srclen dst d dstlen se =
          unpack_loop m e pm (src + 1 + uint c) (srclen - 1 - uint c) dst2 (d + k + uint c) (dstlen - k - uint c) se"
          using c 3 False w cs(1) d2 go by (subst unpack_loop.simps) (auto simp: Let_def k_def)
        have pre: "in_source m (src + 1 + uint c) (srclen - 1 - uint c)" "0 \<le> d + k + uint c" "0 < dstlen - k - uint c"
          "d + k + uint c + (dstlen - k - uint c) \<le> int (length dst2)"
          using src n "1.prems"(3,5) go k l2 by (auto simp: in_source_def)
        obtain ok dst' d' src' se' where r: "unpack_loop m e pm (src + 1 + uint c) (srclen - 1 - uint c) dst2
            (d + k + uint c) (dstlen - k - uint c) se = Some (ok, dst', d', src', se')"
          "length dst' = length dst2" "\<forall>i. d + k + uint c + (dstlen - k - uint c) \<le> i \<longrightarrow> mem_get dst' i = mem_get dst2 i"
          "ok \<longrightarrow> 0 \<le> d' \<and> d' < d + k + uint c + (dstlen - k - uint c)"
          "se = None \<longrightarrow> (case se' of Some y \<Rightarrow> y \<le> src + 1 + uint c + (srclen - 1 - uint c) |
             None \<Rightarrow> ok \<longrightarrow> src' \<le> src + 1 + uint c + (srclen - 1 - uint c))"
          using 1(2) [OF False c(1) refl 3(1) _ _ w k_def _ cs(1) d2 pre(1) "1.prems"(2) pre(2-4)] go 3(2) by blast
        have eq: "d + k + uint c + (dstlen - k - uint c) = d + dstlen" "src + 1 + uint c + (srclen - 1 - uint c) = src + srclen"
          by simp_all
        show ?thesis unfolding step r(1) using r(2-5) l2 unfolding eq by auto
      qed
    qed
  qed
qed

text \<open>
  C18. Reading a name is memory safe on arbitrary bytes: for every message, every start and every length
  the loop ends, the message is read at most 63 bytes (one label) behind the given length or the end of
  the message, the destination is written in its first \<open>dstlen\<close> bytes only, and on success it holds a
  terminated string of the reported length and \<open>*src_end\<close> points behind \<open>src\<close>, not beyond the length.
\<close>

theorem unpack_name_safe:
  assumes "0 \<le> src" "src + max 0 srclen + 63 \<le> int (length (d_buf dns))" "d_end dns + 63 \<le> int (length (d_buf dns))"
    "0 < dstlen" "dstlen \<le> int (length dst)"
  shows "\<exists>i dst' p. dns_unpack_name dns src srclen dst dstlen = Some (i, dst', p) \<and>
    drop (nat dstlen) dst' = drop (nat dstlen) dst \<and> (i = - 1 \<or> 0 < i \<and> i \<le> dstlen) \<and>
    (0 < i \<longrightarrow> mem_get dst' (i - 1) = Some 0 \<and> (\<exists>x. p = Some x \<and> src < x \<and> x \<le> src + srclen))"
proof -
  have "in_source (d_buf dns) src srclen" using assms(1,2) by (auto simp: in_source_def)
  from unpack_loop_total [OF this assms(3) _ assms(4), of 0 dst 100 None] assms(5)
  obtain ok d1 d s1 se where u: "unpack_loop (d_buf dns) (d_end dns) 100 src srclen dst 0 dstlen None = Some (ok, d1, d, s1, se)"
    "length d1 = length dst" "\<forall>i. dstlen \<le> i \<longrightarrow> mem_get d1 i = mem_get dst i" "ok \<longrightarrow> 0 \<le> d \<and> d < dstlen"
    "case se of Some y \<Rightarrow> y \<le> src + srclen | None \<Rightarrow> ok \<longrightarrow> s1 \<le> src + srclen"
    by auto
  have dropeq: "drop (nat dstlen) m' = drop (nat dstlen) dst"
    if "length m' = length dst" "\<forall>i. dstlen \<le> i \<longrightarrow> mem_get m' i = mem_get dst i" for m'
  proof (rule nth_equalityI)
    fix j assume "j < length (drop (nat dstlen) m')"
    then have j: "nat dstlen + j < length m'" "nat dstlen + j < length dst" using that(1) by auto
    moreover have "mem_get m' (int (nat dstlen + j)) = mem_get dst (int (nat dstlen + j))"
      using that(2) assms(4) by simp
    ultimately have "m' ! (nat dstlen + j) = dst ! (nat dstlen + j)"
      by (simp only: mem_get_def nat_int of_nat_0_le_iff of_nat_less_iff simp_thms if_True option.inject)
    then show "drop (nat dstlen) m' ! j = drop (nat dstlen) dst ! j" using j by simp
  qed (simp add: that(1))
  show ?thesis
  proof (cases ok)
    case False
    with u dropeq [OF u(2,3)] show ?thesis by (simp add: dns_unpack_name_def)
  next
    case True
    then have d: "0 \<le> d" "d < dstlen" using u(4) by auto
    obtain d2 where w: "wr8 d1 d 0 = Some d2" using wr_ok(1) [of d d1] d u(2) assms(5) by auto
    have "\<forall>i. dstlen \<le> i \<longrightarrow> mem_get d2 i = mem_get dst i" using u(3) wr_get(1) [OF w] d by auto
    from dropeq [OF _ this] wr_length(1) [OF w] u(2) have dr: "drop (nat dstlen) d2 = drop (nat dstlen) dst" by simp
    have z: "mem_get d2 d = Some 0" by (simp add: wr_get(1) [OF w])
    have "forward src None True s1 se" using unpack_loop_forward [OF u(1)] True by simp
    then have "\<exists>x. (case se of None \<Rightarrow> Some s1 | Some x \<Rightarrow> Some x) = Some x \<and> src < x \<and> x \<le> src + srclen"
      using u(5) True by (auto simp: forward_def split: option.splits)
    with u(1) True w d dr z show ?thesis by (auto simp: dns_unpack_name_def)
  qed
qed

theorem unpack_name_safe_witness:
  "\<exists>i dst' p. dns_unpack_name (dns_zero\<lparr>d_buf := replicate 80 0x3F, d_end := 12\<rparr>) 4 8 (replicate 10 0) 10 = Some (i, dst', p) \<and>
     (i = - 1 \<or> 0 < i \<and> i \<le> 10)"
  using unpack_name_safe [of 4 8 "dns_zero\<lparr>d_buf := replicate 80 0x3F, d_end := 12\<rparr>" 10 "replicate 10 0"]
  by (auto simp: dns_zero_def)

section \<open>Records\<close>

definition name_field :: "byte list list \<Rightarrow> mem" where
  "name_field ls = dotted ls @ 0 # drop (length (dotted ls) + 1) (replicate 256 0)"

lemma cstr_name_field: "labels_ok ls \<Longrightarrow> cstr (name_field ls) = dotted ls"
  by (simp add: name_field_def cstr_append dotted_nonzero)

lemma unpack_name_field:
  assumes "name_at (d_buf dns) w (d_ptr dns) ls k x" "w \<le> d_end dns" "k < 100" "length (dotted ls) < 256"
  shows "dns_unpack_name dns (d_ptr dns) (d_end dns - d_ptr dns) (replicate 256 0) DNS_NAME_MAX =
    Some (int (length (dotted ls)) + 1, name_field ls, Some x)"
  using dns_unpack_name_at [OF assms(1-3), of DNS_NAME_MAX "replicate 256 0"] assms(4)
  by (simp add: DNS_NAME_MAX_def name_field_def)

lemma rr_zero_name: "rr_name (rr_zero\<lparr>rr_section := s\<rparr>) = replicate 256 0"
  by (simp add: rr_zero_def)

lemma rr_unpack_question:
  assumes "section_of dns = Some DNS_RR_QUESTION" "name_at (d_buf dns) w (d_ptr dns) ls k x" "w \<le> d_end dns" "k < 100"
    "length (dotted ls) < 256" "rd16 (d_buf dns) x = Some (ntohs t)" "rd16 (d_buf dns) (x + 2) = Some (ntohs c)"
  shows "dns_rr_unpack dns = Some (dns\<lparr>rr_idx := rr_idx dns + 1, d_ptr := x + 4\<rparr>,
    rr_zero\<lparr>rr_section := DNS_RR_QUESTION, rr_name := name_field ls, rr_type := t, rr_class := c\<rparr>, 1)"
  using assms(1,6,7) unpack_name_field [OF assms(2-5)]
  by (simp add: dns_rr_unpack_def Let_def rr_zero_name)

lemma rr_unpack_answer:
  assumes "section_of dns = Some DNS_RR_ANSWER" "name_at (d_buf dns) w (d_ptr dns) ls k x" "w \<le> d_end dns" "k < 100"
    "length (dotted ls) < 256" "rd16 (d_buf dns) x = Some (ntohs DNS_TYPE_A)" "rd16 (d_buf dns) (x + 2) = Some (ntohs c)"
    "rd32 (d_buf dns) (x + 4) = Some (ntohl ttl)" "rd16 (d_buf dns) (x + 8) = Some (ntohs 4)"
    "rd32 (d_buf dns) (x + 10) = Some a"
  shows "\<exists>rr. dns_rr_unpack dns = Some (dns\<lparr>rr_idx := rr_idx dns + 1, d_ptr := x + 14\<rparr>, rr, 1) \<and>
    rr_section rr = DNS_RR_ANSWER \<and> rr_name rr = name_field ls \<and> rr_type rr = DNS_TYPE_A \<and> rr_class rr = c \<and>
    rr_ttl rr = ttl \<and> rd32 (rr_rdata rr) 0 = Some a"
proof -
  obtain r where r: "wr32 (rr_rdata rr_zero) 0 a = Some r"
    using wr_ok(3) [of 0 "rr_rdata rr_zero"] by (auto simp: rr_zero_def)
  have "DNS_RR_ANSWER \<noteq> DNS_RR_QUESTION" by (simp add: dns_consts)
  with assms(1,6-10) unpack_name_field [OF assms(2-5)] r rd_wr_same(2) [OF r] show ?thesis
    by (simp add: dns_rr_unpack_def rdata_unpack_def Let_def rr_zero_name)
qed

lemma rd32_wr32: "wr32 m p x = Some m' \<Longrightarrow> q = p \<or> q + 4 \<le> p \<or> p + 4 \<le> q \<Longrightarrow>
    rd32 m' q = (if q = p then Some x else rd32 m q)"
  using rd_wr_same(2) [of m p x m'] rd_blit_other(3) [of m p "[byte_of 0 x, byte_of 1 x, byte_of 2 x, byte_of 3 x]" m' q]
  by (auto simp: wr32_def)

lemma rd16_wr32: "wr32 m p x = Some m' \<Longrightarrow> q + 2 \<le> p \<or> p + 4 \<le> q \<Longrightarrow> rd16 m' q = rd16 m q"
  using rd_blit_other(2) [of m p "[byte_of 0 x, byte_of 1 x, byte_of 2 x, byte_of 3 x]" m' q] by (auto simp: wr32_def)

lemma rd32_wr16: "wr16 m p x = Some m' \<Longrightarrow> q + 4 \<le> p \<or> p + 2 \<le> q \<Longrightarrow> rd32 m' q = rd32 m q"
  using rd_blit_other(3) [of m p "[byte_of 0 x, byte_of 1 x]" m' q] by (auto simp: wr16_def)

lemma wr16_frame: "wr16 m p x = Some m' \<Longrightarrow> i < p \<Longrightarrow> mem_get m' i = mem_get m i"
  by (simp add: wr_get(2))

lemma wr32_frame: "wr32 m p x = Some m' \<Longrightarrow> i < p \<Longrightarrow> mem_get m' i = mem_get m i"
  by (simp add: wr32_def blit_get)

definition emitted_rr :: "dns_t \<Rightarrow> mem \<Rightarrow> (byte list, int) hash_t option \<Rightarrow> int \<Rightarrow> dns_t" where
  "emitted_rr d m t p = (packed d m t)\<lparr>rr_idx := rr_idx d + 1, d_ptr := p\<rparr>"

lemma rr_idx_count [simp]: "rr_idx (count_section dns s) = rr_idx dns" "d_ptr (count_section dns s) = d_ptr dns"
  "d_end (count_section dns s) = d_end dns" "d_buf (count_section dns s) = d_buf dns"
  "names_of (count_section dns s) = names_of dns"
  by (simp_all add: count_section_def names_of_def)

lemma emit_question:
  assumes "rr_section rr = DNS_RR_QUESTION"
    "dns_pack_name (count_section dns DNS_RR_QUESTION) (rr_name rr) (d_ptr dns) (d_end dns - d_ptr dns) =
       Some (packed (count_section dns DNS_RR_QUESTION) m t, n)"
    "0 < n" "0 \<le> d_ptr dns" "d_ptr dns + n + 4 \<le> int (length m)"
  shows "\<exists>m'. dns_rr_emit dns rr = Some (emitted_rr (count_section dns DNS_RR_QUESTION) m' t (d_ptr dns + n + 4), rr, 1) \<and>
    length m' = length m \<and> (\<forall>i < d_ptr dns + n. mem_get m' i = mem_get m i) \<and>
    rd16 m' (d_ptr dns + n) = Some (ntohs (rr_type rr)) \<and> rd16 m' (d_ptr dns + n + 2) = Some (ntohs (rr_class rr))"
proof -
  let ?p = "d_ptr dns + n"
  obtain m1 where 1: "wr16 m ?p (ntohs (rr_type rr)) = Some m1" using wr_ok(2) [of ?p m] assms by auto
  obtain m2 where 2: "wr16 m1 (?p + 2) (ntohs (rr_class rr)) = Some m2"
    using wr_ok(2) [of "?p + 2" m1] assms wr_length(2) [OF 1] by auto
  have "dns_rr_emit dns rr = Some (emitted_rr (count_section dns DNS_RR_QUESTION) m2 t (?p + 4), rr, 1)"
    using assms 1 2 by (simp add: dns_rr_emit_def Let_def emitted_rr_def packed_def)
  then show ?thesis
    using wr_length(2) [OF 1] wr_length(2) [OF 2] wr16_frame [OF 1] wr16_frame [OF 2] rd16_wr16 [OF 1] rd16_wr16 [OF 2]
    by (intro exI [of _ m2]) simp
qed

lemma emit_answer:
  assumes "rr_section rr = DNS_RR_ANSWER" "rr_type rr = DNS_TYPE_A" "rd32 (rr_rdata rr) 0 = Some a"
    "dns_pack_name (count_section dns DNS_RR_ANSWER) (rr_name rr) (d_ptr dns) (d_end dns - d_ptr dns) =
       Some (packed (count_section dns DNS_RR_ANSWER) m t, n)"
    "0 < n" "0 \<le> d_ptr dns" "d_ptr dns + n + 14 \<le> int (length m)"
  shows "\<exists>m' rr'. dns_rr_emit dns rr = Some (emitted_rr (count_section dns DNS_RR_ANSWER) m' t (d_ptr dns + n + 14), rr', 1) \<and>
    length m' = length m \<and> (\<forall>i < d_ptr dns + n. mem_get m' i = mem_get m i) \<and>
    rd16 m' (d_ptr dns + n) = Some (ntohs DNS_TYPE_A) \<and> rd16 m' (d_ptr dns + n + 2) = Some (ntohs (rr_class rr)) \<and>
    rd32 m' (d_ptr dns + n + 4) = Some (ntohl (rr_ttl rr)) \<and> rd16 m' (d_ptr dns + n + 8) = Some (ntohs 4) \<and>
    rd32 m' (d_ptr dns + n + 10) = Some a"
proof -
  let ?p = "d_ptr dns + n"
  obtain m1 where 1: "wr16 m ?p (ntohs (rr_type rr)) = Some m1" using wr_ok(2) [of ?p m] assms by auto
  note l1 = wr_length(2) [OF 1]
  obtain m2 where 2: "wr16 m1 (?p + 2) (ntohs (rr_class rr)) = Some m2"
    using wr_ok(2) [of "?p + 2" m1] assms l1 by auto
  note l2 = wr_length(2) [OF 2]
  obtain m3 where 3: "wr32 m2 (?p + 4) (ntohl (rr_ttl rr)) = Some m3"
    using wr_ok(3) [of "?p + 4" m2] assms l1 l2 by auto
  note l3 = wr_length(3) [OF 3]
  obtain m4 where 4: "wr16 m3 (?p + 8) (ntohs (rr_rdata_len rr)) = Some m4"
    using wr_ok(2) [of "?p + 8" m3] assms l1 l2 l3 by auto
  note l4 = wr_length(2) [OF 4]
  obtain m5 where 5: "wr32 m4 (?p + 10) a = Some m5"
    using wr_ok(3) [of "?p + 10" m4] assms l1 l2 l3 l4 by auto
  note l5 = wr_length(3) [OF 5]
  obtain m6 where 6: "wr16 m5 (?p + 8) (ntohs 4) = Some m6"
    using wr_ok(2) [of "?p + 8" m5] assms l1 l2 l3 l4 l5 by auto
  note l6 = wr_length(2) [OF 6]
  note r = rd16_wr16 [OF 1] rd16_wr16 [OF 2] rd16_wr32 [OF 3] rd16_wr16 [OF 4] rd16_wr32 [OF 5] rd16_wr16 [OF 6]
    rd32_wr16 [OF 1] rd32_wr16 [OF 2] rd32_wr32 [OF 3] rd32_wr16 [OF 4] rd32_wr32 [OF 5] rd32_wr16 [OF 6]
  note f = wr16_frame [OF 1] wr16_frame [OF 2] wr32_frame [OF 3] wr16_frame [OF 4] wr32_frame [OF 5] wr16_frame [OF 6]
  have ne: "DNS_RR_ANSWER \<noteq> DNS_RR_QUESTION" by (simp add: dns_consts)
  have p8: "?p + 10 - 2 = ?p + 8" by simp
  obtain rr' where "dns_rr_emit dns rr = Some (emitted_rr (count_section dns DNS_RR_ANSWER) m6 t (?p + 14), rr', 1)"
    using assms 1 2 3 4 5 6 ne p8 by (simp add: dns_rr_emit_def rdata_pack_def Let_def emitted_rr_def packed_def)
  then show ?thesis
    using l1 l2 l3 l4 l5 l6 assms(2)
    by (intro exI [of _ m6] exI [of _ rr']) (simp add: r f)
qed

section \<open>Replies\<close>

lemma unpack_header_in: "dns_pack dns True = Some (dns', i) \<Longrightarrow> header_in dns'"
  using unpack_bits_in [of _ 1] unpack_bits_in [of _ 3] unpack_bits_in [of _ 4] uint_u16_in
  by (auto simp: dns_pack_def dns_pack_net2host_def header_in_def Let_def split: Option.bind_splits)

definition only_moved :: "dns_t \<Rightarrow> dns_t \<Rightarrow> bool" where
  "only_moved dns dns' \<longleftrightarrow> (\<exists>j p. dns' = dns\<lparr>rr_idx := j, d_ptr := p\<rparr>)"

lemma only_moved_refl [simp]: "only_moved dns dns"
  unfolding only_moved_def by (rule exI [of _ "rr_idx dns"], rule exI [of _ "d_ptr dns"]) simp

lemma only_moved_trans: "only_moved a b \<Longrightarrow> only_moved b c \<Longrightarrow> only_moved a c"
proof -
  assume "only_moved a b" "only_moved b c"
  then obtain j p j' p' where "b = a\<lparr>rr_idx := j, d_ptr := p\<rparr>" "c = b\<lparr>rr_idx := j', d_ptr := p'\<rparr>"
    by (auto simp: only_moved_def)
  then have "c = a\<lparr>rr_idx := j', d_ptr := p'\<rparr>" by simp
  then show ?thesis unfolding only_moved_def by blast
qed

lemma only_moved_intros [simp]: "only_moved dns (dns\<lparr>rr_idx := j, d_ptr := p\<rparr>)"
  by (auto simp: only_moved_def)

lemma header_in_moved: "only_moved dns dns' \<Longrightarrow> header_in dns' = header_in dns"
  by (auto simp: only_moved_def header_in_def)

lemma rr_unpack_moved: "dns_rr_unpack dns = Some (dns', rr, i) \<Longrightarrow> only_moved dns dns'"
  by (auto simp: dns_rr_unpack_def Let_def split: option.splits Option.bind_splits if_splits)

lemma query_loop_moved: "query_loop dns h len = Some (dns', h', i) \<Longrightarrow> only_moved dns dns' \<and> length h' = length h"
proof (induction dns h len rule: query_loop.induct)
  case (1 dns h len)
  obtain d rr j where u: "dns_rr_unpack dns = Some (d, rr, j)"
    using "1.prems" by (subst (asm) query_loop.simps) (auto split: Option.bind_splits)
  note m = rr_unpack_moved [OF u]
  show ?case
  proof (cases "0 < j \<and> rr_section rr = DNS_RR_QUESTION \<and>
      (rr_class rr \<noteq> DNS_CLASS_IN \<or> rr_type rr \<noteq> DNS_TYPE_A \<and> rr_type rr \<noteq> DNS_TYPE_PTR \<and> rr_type rr \<noteq> DNS_TYPE_AAAA)")
    case True
    then have "query_loop d h len = Some (dns', h', i)"
      using "1.prems" u by (subst (asm) query_loop.simps) (auto split: if_splits)
    then have "only_moved d dns' \<and> length h' = length h"
      using 1(1) [OF u refl refl] 1(2) [OF u refl refl] True by blast
    with m show ?thesis using only_moved_trans by blast
  next
    case False
    then show ?thesis using "1.prems" u m
      by (subst (asm) query_loop.simps)
        (auto simp: mem_strncpy_def split: if_splits Option.bind_splits dest: blit_length)
  qed
qed

lemma check_query_header:
  assumes "dns_check_query_in_a dns h len = Some (dns', h', 0)"
  shows "header_in dns'" "length h' = length h"
proof -
  obtain h0 d where w: "wr8 h 0 0 = Some h0" "dns_pack dns True = Some (d, d_ptr dns)"
    "query_loop (dns_rr_rewind d) h0 len = Some (dns', h', 0)"
    using assms by (auto simp: dns_check_query_in_a_def dns_pack_def dns_pack_net2host_def Let_def
        split: Option.bind_splits if_splits)
  note q = query_loop_moved [OF w(3)]
  have "only_moved d (dns_rr_rewind d)"
    unfolding only_moved_def dns_rr_rewind_def by (rule exI [of _ 0], rule exI [of _ DNS_HDR_LEN]) simp
  with q have "only_moved d dns'" using only_moved_trans by blast
  then show "header_in dns'" using header_in_moved unpack_header_in [OF w(2)] by blast
  show "length h' = length h" using q wr_length(1) [OF w(1)] by simp
qed

lemma strncpy_bytes_string:
  "0 \<notin> set s \<Longrightarrow> length s < n \<Longrightarrow> (\<And>i. i < length s \<Longrightarrow> mem_get m (src + int i) = Some (s ! i)) \<Longrightarrow>
   mem_get m (src + int (length s)) = Some 0 \<Longrightarrow>
   strncpy_bytes m src n = Some (s @ replicate (n - length s) 0)"
proof (induction s arbitrary: src n)
  case Nil
  then show ?case by (cases n) (simp_all add: rd8_def)
next
  case (Cons c s)
  obtain n' where n: "n = Suc n'" using Cons.prems(2) by (cases n) auto
  have "mem_get m src = Some c" using Cons.prems(3) [of 0] by simp
  moreover have "mem_get m (src + 1 + int i) = Some (s ! i)" if "i < length s" for i
    using Cons.prems(3) [of "Suc i"] that by (simp add: algebra_simps)
  moreover have "mem_get m (src + 1 + int (length s)) = Some 0" using Cons.prems(4) by (simp add: algebra_simps)
  ultimately show ?case using Cons n by (simp add: rd8_def)
qed

lemma cstr_memory:
  "length (cstr h) < length h \<Longrightarrow> \<exists>zs. h = cstr h @ 0 # zs"
  by (induction h) (auto simp: cstr_def)

lemma host_rr_ok:
  assumes "cstr host = dotted ls" "labels_ok ls" "length (dotted ls) < 256" "length host = 257"
  shows "\<exists>name. host_rr sec host =
      Some (rr_zero\<lparr>rr_section := sec, rr_name := name, rr_class := DNS_CLASS_IN, rr_type := DNS_TYPE_A\<rparr>) \<and>
    c_string name = Some (dotted ls)"
proof -
  let ?s = "dotted ls"
  obtain zs where h: "host = ?s @ 0 # zs" using cstr_memory [of host] assms by auto
  have g1: "mem_get host (int i) = Some (?s ! i)" if "i < length ?s" for i
    using that by (simp add: h mem_get_def nth_append)
  have g2: "mem_get host (int (length ?s)) = Some 0"
    by (simp add: h mem_get_def nth_append)
  have "strncpy_bytes host 0 256 = Some (?s @ replicate (256 - length ?s) 0)"
    using strncpy_bytes_string [of ?s 256 host 0] dotted_nonzero [OF assms(2)] assms(3) g1 g2 by simp
  then have m: "mem_strncpy (replicate 256 0) host DNS_NAME_MAX = Some (?s @ replicate (256 - length ?s) 0)"
    using assms(3) by (simp add: mem_strncpy_def DNS_NAME_MAX_def blit_def)
  obtain r where "replicate (256 - length ?s) 0 = (0 :: byte) # r" using assms(3)
    by (cases "256 - length ?s") auto
  then have "c_string (?s @ replicate (256 - length ?s) 0) = Some ?s"
    using c_string_append [OF dotted_nonzero [OF assms(2)]] by simp
  with m show ?thesis by (simp add: host_rr_def rr_zero_def)
qed

text \<open>A message that answers a query: what a client that reads it sees.\<close>

definition answers :: "mem \<Rightarrow> int \<Rightarrow> dns_t \<Rightarrow> byte list \<Rightarrow> u32 \<Rightarrow> u32 \<Rightarrow> bool" where
  "answers m len query name addr ttl \<longleftrightarrow>
     (\<exists>d0 d1 d2 r1 r2. dns_pack (fst (dns_init m len)) True = Some (d0, DNS_HDR_LEN) \<and>
        d_id d0 = d_id query \<and> d_opcode d0 = d_opcode query \<and> d_rcode d0 = d_rcode query \<and> d_qr d0 = 1 \<and>
        dns_rr_unpack d0 = Some (d1, r1, 1) \<and> rr_section r1 = DNS_RR_QUESTION \<and> cstr (rr_name r1) = name \<and>
        rr_type r1 = DNS_TYPE_A \<and> rr_class r1 = DNS_CLASS_IN \<and>
        dns_rr_unpack d1 = Some (d2, r2, 1) \<and> rr_section r2 = DNS_RR_ANSWER \<and> cstr (rr_name r2) = name \<and>
        rr_type r2 = DNS_TYPE_A \<and> rr_class r2 = DNS_CLASS_IN \<and> rr_ttl r2 = ttl \<and> rd32 (rr_rdata r2) 0 = Some addr \<and>
        dns_rr_unpack d2 = Some (d2, rr_zero, 0))"

text \<open>The message built by the two records, before its header is packed.\<close>

lemma reply_records:
  assumes host: "cstr host = dotted ls" "length host = 257"
    and ls: "labels_ok ls" "ls \<noteq> []" "length ls < 100" "12 + name_size ls \<le> 128"
    and d: "d_ptr d = 12" "rr_idx d = 0" "name_hash d = None" "12 + name_size ls + 20 \<le> d_end d"
      "d_end d \<le> int (length (d_buf d))"
  shows "\<exists>rr1 d1 rr1' rr2 rdata d2 rr2' k k'.
    host_rr DNS_RR_QUESTION host = Some rr1 \<and> dns_rr_pack d False rr1 = Some (d1, rr1', 1) \<and>
    host_rr DNS_RR_ANSWER host = Some rr2 \<and> wr32 (rr_rdata rr2) 0 addr = Some rdata \<and>
    dns_rr_pack d1 False (rr2\<lparr>rr_ttl := ttl, rr_rdata := rdata\<rparr>) = Some (d2, rr2', 1) \<and>
    (\<exists>m t. d2 = d\<lparr>d_buf := m, name_hash := t, d_qrcount := d_qrcount d + 1, d_ancount := d_ancount d + 1,
       rr_idx := 2, d_ptr := d_ptr d2\<rparr>) \<and>
    length (d_buf d2) = length (d_buf d) \<and> k < 100 \<and> k' < 100 \<and>
    (\<exists>x. d_ptr d2 = x + 20 \<and> x \<le> 12 + name_size ls \<and> name_at (d_buf d2) x 12 ls k x \<and>
       rd16 (d_buf d2) x = Some (ntohs DNS_TYPE_A) \<and> rd16 (d_buf d2) (x + 2) = Some (ntohs DNS_CLASS_IN) \<and>
       name_at (d_buf d2) (x + 6) (x + 4) ls k' (x + 6) \<and>
       rd16 (d_buf d2) (x + 6) = Some (ntohs DNS_TYPE_A) \<and> rd16 (d_buf d2) (x + 8) = Some (ntohs DNS_CLASS_IN) \<and>
       rd32 (d_buf d2) (x + 10) = Some (ntohl ttl) \<and> rd16 (d_buf d2) (x + 14) = Some (ntohs 4) \<and>
       rd32 (d_buf d2) (x + 16) = Some addr)"
proof -
  have len: "length (dotted ls) < 128" using ls(2,4) dots_dotted [OF ls(2)] by (simp add: name_size_def)
  then have len256: "length (dotted ls) < 256" by simp
  obtain n1 where n1: "host_rr DNS_RR_QUESTION host = Some (rr_zero\<lparr>rr_section := DNS_RR_QUESTION, rr_name := n1,
      rr_class := DNS_CLASS_IN, rr_type := DNS_TYPE_A\<rparr>)" "c_string n1 = Some (dotted ls)"
    using host_rr_ok [OF host(1) ls(1) len256 host(2)] by blast
  obtain n2 where n2: "host_rr DNS_RR_ANSWER host = Some (rr_zero\<lparr>rr_section := DNS_RR_ANSWER, rr_name := n2,
      rr_class := DNS_CLASS_IN, rr_type := DNS_TYPE_A\<rparr>)" "c_string n2 = Some (dotted ls)"
    using host_rr_ok [OF host(1) ls(1) len256 host(2)] by blast
  let ?rr1 = "rr_zero\<lparr>rr_section := DNS_RR_QUESTION, rr_name := n1, rr_class := DNS_CLASS_IN, rr_type := DNS_TYPE_A\<rparr>"
  let ?rr2 = "rr_zero\<lparr>rr_section := DNS_RR_ANSWER, rr_name := n2, rr_class := DNS_CLASS_IN, rr_type := DNS_TYPE_A\<rparr>"
  let ?c1 = "count_section d DNS_RR_QUESTION"
  obtain h where h: "names_of ?c1 = Some h" "dict_ok h (d_buf ?c1) 12 {} 0"
    using names_of_fresh [of ?c1 "d_buf ?c1" 12 "{}"] d(3) by (auto simp: count_section_def)
  have ptr: "\<forall>i. 12 \<le> i \<and> i < 12 + name_size ls \<longrightarrow> ptr_ok i" using ls(4) by (auto intro!: ptr_ok_small)
  have c: "0 + int (length ls) < 3 * 2 ^ 29" using ls(3) by simp
  obtain m1 t1 h1 x k where p1: "pack_loop ?c1 (dotted ls) 12 (d_end d - 12) = Some (packed ?c1 m1 t1, x, True)"
    "12 < x" "x \<le> 12 + name_size ls" "length m1 = length (d_buf ?c1)" "name_at m1 x 12 ls k x" "k \<le> length ls"
    "names_of (packed ?c1 m1 t1) = Some h1" "dict_ok h1 m1 x {} (0 + int (length ls))" "hash_map cstr h1 (dotted ls) \<noteq> None"
    using pack_loop_spec [OF ls(1) len256 h c _ ptr, of "d_end d - 12"] d ls(2) by auto
  have pn1: "dns_pack_name ?c1 (rr_name ?rr1) (d_ptr d) (d_end d - d_ptr d) = Some (packed ?c1 m1 t1, x - 12)"
    using p1(1) n1(2) d(1) by (simp add: dns_pack_name_def)
  have e1: "0 < x - 12" "0 \<le> d_ptr d" "d_ptr d + (x - 12) + 4 \<le> int (length m1)"
    using p1(2-4) d by auto
  obtain m2 where r1: "dns_rr_emit d ?rr1 = Some (emitted_rr ?c1 m2 t1 (x + 4), ?rr1, 1)" "length m2 = length m1"
    "\<forall>i < x. mem_get m2 i = mem_get m1 i" "rd16 m2 x = Some (ntohs DNS_TYPE_A)" "rd16 m2 (x + 2) = Some (ntohs DNS_CLASS_IN)"
    using emit_question [OF _ pn1 e1] d(1) by (auto simp: rr_zero_def)
  let ?d1 = "emitted_rr ?c1 m2 t1 (x + 4)"
  let ?c2 = "count_section ?d1 DNS_RR_ANSWER"
  have d1: "d_buf ?d1 = m2" "d_ptr ?d1 = x + 4" "d_end ?d1 = d_end d" "names_of ?d1 = Some h1"
    using p1(7) by (simp_all add: emitted_rr_def packed_def names_of_def)
  have dict2: "dict_ok h1 (d_buf ?c2) (x + 4) {} (0 + int (length ls))" "names_of ?c2 = Some h1"
    using dict_ok_frame [OF p1(8), of m2 "x + 4"] r1(3) d1 by simp_all
  obtain q where q: "hash_map cstr h1 (dotted ls) = Some q" using p1(9) by auto
  obtain m3 k' where p2: "pack_loop ?c2 (dotted ls) (x + 4) (d_end d - (x + 4)) = Some (packed ?c2 m3 (Some h1), x + 4 + 2, True)"
    "length m3 = length m2" "\<forall>i < x + 4. mem_get m3 i = mem_get m2 i" "name_at m3 (x + 4 + 2) (x + 4) ls k' (x + 4 + 2)" "k' \<le> length ls"
    using pack_loop_hit [OF ls(1) len256 ls(2) dict2(2,1) _ q, of "d_end d - (x + 4)"] p1(2-4) r1(2) d d1 by auto
  obtain rdata where rd: "wr32 (rr_rdata ?rr2) 0 addr = Some rdata"
    using wr_ok(3) [of 0 "rr_rdata rr_zero"] by (auto simp: rr_zero_def)
  let ?rr = "?rr2\<lparr>rr_ttl := ttl, rr_rdata := rdata\<rparr>"
  have pn2: "dns_pack_name ?c2 (rr_name ?rr) (d_ptr ?d1) (d_end ?d1 - d_ptr ?d1) = Some (packed ?c2 m3 (Some h1), 2)"
    using p2(1) n2(2) d1 by (simp add: dns_pack_name_def)
  have f2: "rr_section ?rr = DNS_RR_ANSWER" "rr_type ?rr = DNS_TYPE_A" "rd32 (rr_rdata ?rr) 0 = Some addr"
    using rd_wr_same(2) [OF rd] by simp_all
  have a: "d_ptr ?d1 + 2 = x + 6" "x + 6 + 14 = x + 20" "x + 6 + 2 = x + 8" "x + 6 + 4 = x + 10" "x + 6 + 8 = x + 14"
    "x + 6 + 10 = x + 16" using d1(2) by simp_all
  have e2: "(0 :: int) < 2" "0 \<le> d_ptr ?d1" "d_ptr ?d1 + 2 + 14 \<le> int (length m3)"
    using p1(2-4) p2(2) r1(2) d d1 by auto
  obtain m4 rr' where r2: "dns_rr_emit ?d1 ?rr = Some (emitted_rr ?c2 m4 (Some h1) (x + 20), rr', 1)" "length m4 = length m3"
    "\<forall>i < x + 6. mem_get m4 i = mem_get m3 i" "rd16 m4 (x + 6) = Some (ntohs DNS_TYPE_A)" "rd16 m4 (x + 8) = Some (ntohs DNS_CLASS_IN)"
    "rd32 m4 (x + 10) = Some (ntohl ttl)" "rd16 m4 (x + 14) = Some (ntohs 4)" "rd32 m4 (x + 16) = Some addr"
    using emit_answer [OF f2 pn2 e2] unfolding a by auto
  have x6: "x + 4 + 2 = x + 6" "6 + x = x + 6" by simp_all
  have old: "mem_get m4 i = mem_get m2 i" if "i < x + 4" for i using r2(3) p2(3) that by simp
  have "rd16 m4 x = rd16 m2 x" "rd16 m4 (x + 2) = rd16 m2 (x + 2)" by (simp_all add: rd16_def old)
  moreover have "name_at m4 x 12 ls k x" using name_at_frame [OF p1(5)] old r1(3) by simp
  moreover have "name_at m4 (x + 6) (x + 4) ls k' (x + 6)"
    using name_at_frame [of m3 "x + 6" "x + 4" ls k' "x + 6" m4 "x + 6"] p2(4) r2(3) unfolding x6 by simp
  moreover have "\<exists>m t. emitted_rr ?c2 m4 (Some h1) (x + 20) = d\<lparr>d_buf := m, name_hash := t, d_qrcount := d_qrcount d + 1,
      d_ancount := d_ancount d + 1, rr_idx := 2, d_ptr := x + 20\<rparr>"
    by (intro exI [of _ m4] exI [of _ "Some h1"]) (simp add: emitted_rr_def packed_def count_section_def dns_consts d(2))
  moreover have "d_buf (emitted_rr ?c2 m4 (Some h1) (x + 20)) = m4" "d_ptr (emitted_rr ?c2 m4 (Some h1) (x + 20)) = x + 20"
    by (simp_all add: emitted_rr_def)
  ultimately show ?thesis
    using n1(1) n2(1) rd r1 r2 p1(3,4,6) p2(2,5) ls(3)
    by (intro exI [of _ ?rr1] exI [of _ ?d1] exI [of _ ?rr2] exI [of _ rdata]
      exI [of _ "emitted_rr ?c2 m4 (Some h1) (x + 20)"] exI [of _ rr'] exI [of _ k] exI [of _ k'])
      (simp add: dns_rr_pack_def)
qed

lemma in_range_small [simp]: "(0 :: int) \<in> {0..<2 ^ n}" "(1 :: int) \<in> {0..<2 ^ 16}" by simp_all

lemma dns_init_zero:
  "fst (dns_init buf n) = dns_zero\<lparr>d_buf := buf, d_buflen := word_of_int n, d_end := n, d_ptr := 12\<rparr>"
  by (simp add: dns_init_def DNS_HDR_LEN_def Let_def dns_zero_def)


text \<open>A query for the address of \<open>p2p\<close>, with recursion desired.\<close>

definition sample_query :: mem where
  "sample_query = [3, 0xD1, 1, 0, 0, 1, 0, 0, 0, 0, 0, 0, 3, 0x70, 0x32, 0x70, 0, 0, 1, 0, 1]"

lemma sample_query_checks:
  "(case dns_check_query_in_a (fst (dns_init sample_query 21)) (replicate 257 0) 257 of None \<Rightarrow> None
    | Some (q, h, i) \<Rightarrow> Some (cstr h, i)) = Some ([0x70, 0x32, 0x70], 0)"
  by code_simp


section \<open>What the code does not achieve\<close>

lemma rr_emit_result: "dns_rr_emit dns rr = Some (dns', rr', i) \<Longrightarrow> i = 1 \<or> i = - 1"
  by (auto simp: dns_rr_emit_def Let_def split: Option.bind_splits if_splits)



text \<open>A reply to a query for \<open>a\<close>: an alias \<open>a = b\<close> and the address of \<open>b\<close>.\<close>

definition alias_reply :: "byte list \<Rightarrow> mem" where
  "alias_reply rdata = [0, 1, 0x84, 0, 0, 1, 0, 2, 0, 0, 0, 0, 1, 0x61, 0, 0, 1, 0, 1,
     0xC0, 12, 0, 5, 0, 1, 0, 0, 0, 60, 0, word_of_nat (length rdata)] @ rdata @
     [1, 0x62, 0, 0, 1, 0, 1, 0, 0, 0, 60, 0, 4, 10, 0, 0, 7]"

text \<open>The records of \<open>hosts\<close>: section, name, type and the first four bytes of the data.\<close>

definition host_summary :: "dns_rr_t list \<Rightarrow> (int \<times> byte list \<times> u16 \<times> byte list) list" where
  "host_summary = map (\<lambda>rr. (rr_section rr, cstr (rr_name rr), rr_type rr, take 4 (rr_rdata rr)))"

text \<open>
  Aliases are not followed: in a well-formed reply with an alias and the address of its target the
  code reads the second answer from the wrong place (the name in the alias is skipped twice), so the
  address is not found and \<open>hosts[0]\<close> stays empty. An alias with empty data, which any server can
  send, makes it continue at the null pointer.
\<close>

theorem alias_not_resolved:
  "map_option (\<lambda>(qid, hosts, n). (qid, n, take 4 (host_summary hosts)))
     (dns_resolve_reply (\<lambda>x. 0) (alias_reply [1, 0x62, 0] @ replicate 80 0) 51 8) =
   Some (Some 1, 5, [(0, [], 0, [0, 0, 0, 0]), (1, [0x61], 1, [0, 0, 0, 0]), (2, [0x61], 5, [0x62, 0, 0, 0]),
     (2, [], 256, [0, 0, 0, 0])]) \<and>
   dns_resolve_reply (\<lambda>x. 0) (alias_reply [] @ replicate 80 0) 48 8 = None"
  by code_simp

end
