(* ===== verification/Http.thy ===== *)
theory Http
  imports Hash Bytes
begin

unbundle bit_operations_syntax

text \<open>
  \<open>http.c\<close>, \<open>http.h\<close>: reading HTTP headers, CGI arguments and URLs. Strings are the bytes before their
  terminating zero; they are allocated from a pool (\<open>calloc\<close>), which is represented by its identity
  only, with the calls of \<open>pool_clear\<close> and \<open>pool_delete\<close> as events. A linked list of key-value nodes is
  a list, \<open>headers_last\<close> its last element. Reads outside the given memory, and the write to an
  allocation of size zero in \<open>http_strdup\<close>, are \<open>None\<close>. The character classes are those of the C
  locale. The field \<open>version\<close>, which no code sets, is left out.
\<close>

section \<open>Characters and numbers\<close>

definition bytes_of :: "string \<Rightarrow> byte list" where
  "bytes_of s = map of_char s"

definition is_space :: "byte \<Rightarrow> bool" where
  "is_space c \<longleftrightarrow> c = 32 \<or> 9 \<le> c \<and> c \<le> 13"

definition is_digit :: "byte \<Rightarrow> bool" where
  "is_digit c \<longleftrightarrow> 48 \<le> c \<and> c \<le> 57"

definition is_alnum :: "byte \<Rightarrow> bool" where
  "is_alnum c \<longleftrightarrow> is_digit c \<or> 65 \<le> c \<and> c \<le> 90 \<or> 97 \<le> c \<and> c \<le> 122"

text \<open>\<open>strtoul\<close>: the value and the number of bytes consumed, zero if there is no number.\<close>

definition digit_val :: "byte \<Rightarrow> int" where
  "digit_val c = (if is_digit c then uint c - 48 else if 65 \<le> c \<and> c \<le> 90 then uint c - 55
     else if 97 \<le> c \<and> c \<le> 122 then uint c - 87 else 99)"

definition number_base :: "int \<Rightarrow> byte list \<Rightarrow> int \<times> nat" where
  "number_base base s =
     (case s of
        z # x # h # _ \<Rightarrow> if (base = 0 \<or> base = 16) \<and> z = 48 \<and> (x = 120 \<or> x = 88) \<and> digit_val h < 16 then (16, 2)
          else (if base = 0 then (if z = 48 then 8 else 10) else base, 0)
      | z # _ \<Rightarrow> (if base = 0 then (if z = 48 then 8 else 10) else base, 0)
      | [] \<Rightarrow> (if base = 0 then 10 else base, 0))"

definition strtoul :: "byte list \<Rightarrow> int \<Rightarrow> int \<times> nat" where
  "strtoul s base =
     (let ws = length (takeWhile is_space s);
          r = drop ws s;
          sg = (case r of c # _ \<Rightarrow> if c = 43 \<or> c = 45 then 1 else 0 | [] \<Rightarrow> 0);
          neg = (sg = 1 \<and> hd r = 45);
          r = drop sg r;
          (b, pre) = number_base base r;
          ds = takeWhile (\<lambda>c. digit_val c < b) (drop pre r);
          v = foldl (\<lambda>v d. v * b + digit_val d) 0 ds
      in if ds = [] then (0, 0)
         else (if v > 2 ^ 64 - 1 then 2 ^ 64 - 1 else if neg then (- v) mod 2 ^ 64 else v,
               ws + sg + pre + length ds))"

section \<open>Key-value lists\<close>

record http_keyval =
  kv_key :: "byte list option"
  kv_val :: "byte list option"

definition keyval_zero :: http_keyval where
  "keyval_zero = \<lparr>kv_key = None, kv_val = None\<rparr>"

text \<open>
  The value (which may be the null pointer) and the rest of the list from the node that was found.
\<close>

fun http_keyval_get ::
    "http_keyval list \<Rightarrow> byte list \<Rightarrow> (byte list option \<times> http_keyval list option) option" where
  "http_keyval_get [] key = Some (None, None)"
| "http_keyval_get (node # rest) key =
     do {
       k \<leftarrow> kv_key node;
       if map tolower (cstr k) = map tolower (cstr key) then Some (kv_val node, Some (node # rest))
       else http_keyval_get rest key
     }"

section \<open>Headers\<close>

datatype http_op = HTTP_OP_UNKNOWN | HTTP_OP_RESPONSE | HTTP_OP_GET | HTTP_OP_PUT | HTTP_OP_POST

datatype http_state =
    HTTP_STATE_ERROR | HTTP_STATE_INIT | HTTP_STATE_SPACE | HTTP_STATE_OP | HTTP_STATE_RESPONSE_CODE
  | HTTP_STATE_RESPONSE_MESSAGE | HTTP_STATE_URI | HTTP_STATE_VERSION | HTTP_STATE_HEADER_BOL
  | HTTP_STATE_HEADER | HTTP_STATE_HEADER_NAME | HTTP_STATE_HEADER_VAL | HTTP_STATE_DONE

definition state_code :: "http_state \<Rightarrow> int" where
  "state_code s =
     (case s of HTTP_STATE_ERROR \<Rightarrow> - 1 | HTTP_STATE_INIT \<Rightarrow> 1 | HTTP_STATE_SPACE \<Rightarrow> 2 | HTTP_STATE_OP \<Rightarrow> 3
      | HTTP_STATE_RESPONSE_CODE \<Rightarrow> 4 | HTTP_STATE_RESPONSE_MESSAGE \<Rightarrow> 5 | HTTP_STATE_URI \<Rightarrow> 6
      | HTTP_STATE_VERSION \<Rightarrow> 7 | HTTP_STATE_HEADER_BOL \<Rightarrow> 8 | HTTP_STATE_HEADER \<Rightarrow> 9
      | HTTP_STATE_HEADER_NAME \<Rightarrow> 10 | HTTP_STATE_HEADER_VAL \<Rightarrow> 11 | HTTP_STATE_DONE \<Rightarrow> 12)"

record http_header =
  h_op :: "byte list option"
  h_op_code :: http_op
  h_response_code :: int
  h_response_message :: "byte list option"
  h_uri :: "byte list option"
  h_http_version :: "byte list option"
  h_headers :: "http_keyval list"
  h_header_len :: u64
  h_total_len :: u64
  h_content_ptr :: "int option"
  h_content_len :: u64
  h_content_type :: "byte list option"
  h_error_line :: int
  h_error_state :: int
  h_error_col :: int
  h_pool :: "nat option"
  h_free_pool :: bool

definition http_zero :: http_header where
  "http_zero = \<lparr>h_op = None, h_op_code = HTTP_OP_UNKNOWN, h_response_code = 0, h_response_message = None,
     h_uri = None, h_http_version = None, h_headers = [], h_header_len = 0, h_total_len = 0,
     h_content_ptr = None, h_content_len = 0, h_content_type = None, h_error_line = 0, h_error_state = 0,
     h_error_col = 0, h_pool = None, h_free_pool = False\<rparr>"

datatype pool_call = PoolClear nat | PoolDelete nat

text \<open>\<open>new\<close> is the pool that \<open>pool_new\<close> returns, if it is called.\<close>

definition http_header_init :: "nat option \<Rightarrow> nat option \<Rightarrow> http_header \<times> int" where
  "http_header_init pool new =
     (case pool of
        None \<Rightarrow> (http_zero\<lparr>h_free_pool := True, h_pool := new\<rparr>, if new = None then - 1 else 0)
      | Some p \<Rightarrow> (http_zero\<lparr>h_free_pool := False, h_pool := Some p\<rparr>, 0))"

definition http_header_clear :: "http_header \<Rightarrow> (http_header \<times> pool_call list) option" where
  "http_header_clear http =
     do { p \<leftarrow> h_pool http; Some (http_zero\<lparr>h_pool := Some p\<rparr>, [PoolClear p]) }"

definition http_header_free :: "http_header \<Rightarrow> (http_header \<times> pool_call list) option" where
  "http_header_free http =
     do {
       (http, ev) \<leftarrow> http_header_clear http;
       let ev = (case h_pool http of Some p \<Rightarrow> if h_free_pool http then ev @ [PoolDelete p] else ev | None \<Rightarrow> ev);
       Some (http\<lparr>h_pool := None\<rparr>, ev)
     }"

definition http_header_get :: "http_header \<Rightarrow> byte list \<Rightarrow> (byte list option \<times> http_keyval list option) option" where
  "http_header_get http key = http_keyval_get (h_headers http) key"

text \<open>
  \<open>http_strdup\<close> of \<open>len\<close> bytes at \<open>str\<close>. After the leading space is skipped, the trailing space is skipped
  down to the first byte; if that is reached, the copy is empty. With nothing left the length is
  -1, and the terminating zero goes to an allocation of size 0.
\<close>

definition http_strdup :: "mem \<Rightarrow> int \<Rightarrow> int \<Rightarrow> byte list option" where
  "http_strdup m str len =
     do {
       xs \<leftarrow> slice m str len;
       let ys = dropWhile is_space xs;
       let zs = rev (dropWhile is_space (rev ys));
       if zs = [] then None
       else if length zs = 1 then Some []
       else Some (filter (\<lambda>c. c \<noteq> 13) zs)
     }"

record parse_state =
  ps_http :: http_header
  ps_state :: http_state
  ps_next :: http_state
  ps_word :: "int option"
  ps_line :: int
  ps_line_ptr :: int

definition parse_error :: "int \<Rightarrow> parse_state \<Rightarrow> parse_state" where
  "parse_error ptr st =
     st\<lparr>ps_http := (ps_http st)\<lparr>h_error_state := state_code (ps_state st), h_error_line := ps_line st,
                                h_error_col := ptr - ps_line_ptr st\<rparr>,
        ps_state := HTTP_STATE_ERROR\<rparr>"

definition go_space :: "http_state \<Rightarrow> parse_state \<Rightarrow> parse_state" where
  "go_space next st = st\<lparr>ps_state := HTTP_STATE_SPACE, ps_next := next\<rparr>"

definition get_word :: "mem \<Rightarrow> int \<Rightarrow> parse_state \<Rightarrow> byte list option" where
  "get_word m ptr st = do { w \<leftarrow> ps_word st; http_strdup m w (ptr - w) }"

definition op_code_of :: "byte list \<Rightarrow> http_op" where
  "op_code_of s =
     (if cstr s = bytes_of ''GET'' then HTTP_OP_GET else if cstr s = bytes_of ''PUT'' then HTTP_OP_PUT
      else if cstr s = bytes_of ''POST'' then HTTP_OP_POST else HTTP_OP_UNKNOWN)"

definition set_last_val :: "byte list \<Rightarrow> http_keyval list \<Rightarrow> http_keyval list" where
  "set_last_val v hs = butlast hs @ [(last hs)\<lparr>kv_val := Some v\<rparr>]"

definition set_last_key :: "byte list \<Rightarrow> http_keyval list \<Rightarrow> http_keyval list" where
  "set_last_key v hs = butlast hs @ [(last hs)\<lparr>kv_key := Some v\<rparr>]"

text \<open>The \<open>switch\<close> of the loop for the states that consume the byte \<open>c\<close> at \<open>ptr\<close>.\<close>

definition parse_visit :: "mem \<Rightarrow> int \<Rightarrow> byte \<Rightarrow> parse_state \<Rightarrow> parse_state option" where
  "parse_visit m ptr c st =
     (let nl = (c = 10); sp = (c = 32 \<or> c = 9); http = ps_http st
      in case ps_state st of
        HTTP_STATE_OP \<Rightarrow>
          if nl then Some (parse_error ptr st)
          else if sp then do {
            op \<leftarrow> get_word m ptr st;
            if take 5 (cstr op) = bytes_of ''HTTP/''
            then Some (go_space HTTP_STATE_RESPONSE_CODE
              (st\<lparr>ps_http := http\<lparr>h_http_version := Some op, h_op := None, h_op_code := HTTP_OP_RESPONSE\<rparr>\<rparr>))
            else Some (go_space HTTP_STATE_URI (st\<lparr>ps_http := http\<lparr>h_op := Some op, h_op_code := op_code_of op\<rparr>\<rparr>))
          }
          else Some st
      | HTTP_STATE_RESPONSE_CODE \<Rightarrow>
          if sp \<or> nl then do {
            w \<leftarrow> ps_word st;
            let (v, q) = strtoul (drop (nat w) m) 0;
            let st = st\<lparr>ps_http := http\<lparr>h_response_code := to_i32 v\<rparr>\<rparr>;
            if q = 0 then Some (parse_error ptr st)
            else Some (let st = go_space HTTP_STATE_RESPONSE_MESSAGE st
                       in if nl then st\<lparr>ps_state := HTTP_STATE_HEADER\<rparr> else st)
          }
          else Some st
      | HTTP_STATE_RESPONSE_MESSAGE \<Rightarrow>
          if nl then do {
            s \<leftarrow> get_word m ptr st;
            Some (st\<lparr>ps_http := http\<lparr>h_response_message := Some s\<rparr>, ps_state := HTTP_STATE_HEADER\<rparr>)
          }
          else Some st
      | HTTP_STATE_URI \<Rightarrow>
          if sp \<or> nl then do {
            s \<leftarrow> get_word m ptr st;
            Some (go_space (if nl then HTTP_STATE_HEADER else HTTP_STATE_VERSION) (st\<lparr>ps_http := http\<lparr>h_uri := Some s\<rparr>\<rparr>))
          }
          else Some st
      | HTTP_STATE_VERSION \<Rightarrow>
          if sp \<or> nl then do {
            s \<leftarrow> get_word m ptr st;
            let st = st\<lparr>ps_http := http\<lparr>h_http_version := Some s\<rparr>\<rparr>;
            Some (if nl then st\<lparr>ps_state := HTTP_STATE_HEADER\<rparr> else go_space HTTP_STATE_HEADER_BOL st)
          }
          else Some st
      | HTTP_STATE_HEADER_BOL \<Rightarrow>
          Some (if \<not> nl then parse_error ptr st else st\<lparr>ps_state := HTTP_STATE_HEADER\<rparr>)
      | HTTP_STATE_HEADER \<Rightarrow>
          if sp then Some (st\<lparr>ps_state := HTTP_STATE_HEADER_VAL\<rparr>)
          else do {
            hs \<leftarrow> (if h_headers http = [] then Some []
                   else do { v \<leftarrow> get_word m ptr st; Some (set_last_val v (h_headers http)) });
            Some (if nl then st\<lparr>ps_http := http\<lparr>h_headers := hs\<rparr>, ps_state := HTTP_STATE_DONE\<rparr>
                  else st\<lparr>ps_http := http\<lparr>h_headers := hs @ [keyval_zero]\<rparr>, ps_word := Some ptr,
                           ps_state := HTTP_STATE_HEADER_NAME\<rparr>)
          }
      | HTTP_STATE_HEADER_NAME \<Rightarrow>
          if is_alnum c \<or> c = 45 then Some st
          else if c \<noteq> 58 then Some (parse_error ptr st)
          else do {
            k \<leftarrow> get_word m ptr st;
            Some (go_space HTTP_STATE_HEADER_VAL
              (st\<lparr>ps_http := http\<lparr>h_headers := set_last_key k (h_headers http)\<rparr>\<rparr>))
          }
      | HTTP_STATE_HEADER_VAL \<Rightarrow> Some (if nl then st\<lparr>ps_state := HTTP_STATE_HEADER\<rparr> else st)
      | _ \<Rightarrow> Some st)"

definition count_line :: "int \<Rightarrow> byte \<Rightarrow> parse_state \<Rightarrow> parse_state" where
  "count_line ptr c st = (if c = 10 then st\<lparr>ps_line := ps_line st + 1, ps_line_ptr := ptr\<rparr> else st)"

text \<open>
  The loop body. Where the code leaves a state without consuming the byte (\<open>ptr--\<close>), the body runs again
  at once, in the new state; that state is never one of the two that skip space.
\<close>

definition parse_step :: "mem \<Rightarrow> int \<Rightarrow> parse_state \<Rightarrow> parse_state option" where
  "parse_step m ptr st =
     do {
       c \<leftarrow> rd8 m ptr;
       if c = 13 then Some st
       else do {
         let st = count_line ptr c st;
         case ps_state st of
           HTTP_STATE_INIT \<Rightarrow>
             if c = 32 \<or> c = 9 \<or> c = 10 then Some st
             else parse_visit m ptr c (count_line ptr c (st\<lparr>ps_state := HTTP_STATE_OP, ps_word := Some ptr\<rparr>))
         | HTTP_STATE_SPACE \<Rightarrow>
             if c = 32 \<or> c = 9 then Some st
             else parse_visit m ptr c (count_line ptr c (st\<lparr>ps_state := ps_next st, ps_word := Some ptr\<rparr>))
         | _ \<Rightarrow> parse_visit m ptr c st
       }
     }"

text \<open>The loop over the remaining \<open>k\<close> bytes: the final \<open>ptr\<close> and state.\<close>

fun parse_loop :: "mem \<Rightarrow> int \<Rightarrow> nat \<Rightarrow> parse_state \<Rightarrow> (int \<times> parse_state) option" where
  "parse_loop m ptr 0 st = Some (ptr, st)"
| "parse_loop m ptr (Suc k) st =
     (if ps_state st = HTTP_STATE_DONE \<or> ps_state st = HTTP_STATE_ERROR then Some (ptr, st)
      else do { st \<leftarrow> parse_step m ptr st; parse_loop m (ptr + 1) k st })"

definition parse_start :: "http_header \<Rightarrow> parse_state" where
  "parse_start http = \<lparr>ps_http = http, ps_state = HTTP_STATE_INIT, ps_next = HTTP_STATE_INIT, ps_word = None,
     ps_line = 0, ps_line_ptr = 0\<rparr>"

definition http_header_parse :: "http_header \<Rightarrow> mem \<Rightarrow> nat \<Rightarrow> (http_header \<times> int) option" where
  "http_header_parse http buf len =
     do {
       (http, ev) \<leftarrow> http_header_clear http;
       (ptr, st) \<leftarrow> parse_loop buf 0 len (parse_start http);
       let http = ps_http st;
       if ps_state st = HTTP_STATE_ERROR then Some (http, - h_error_state http)
       else if ps_state st \<noteq> HTTP_STATE_DONE then do { (http, ev) \<leftarrow> http_header_clear http; Some (http, 0) }
       else do {
         (p, n) \<leftarrow> http_keyval_get (h_headers http) (bytes_of ''content-length'');
         let clen = (case p of None \<Rightarrow> 0 | Some s \<Rightarrow> word_of_int (fst (strtoul (cstr s) 0)));
         (ct, n) \<leftarrow> http_keyval_get (h_headers http) (bytes_of ''content-type'');
         Some (http\<lparr>h_header_len := word_of_int ptr, h_total_len := word_of_int ptr + clen,
                    h_content_ptr := Some ptr, h_content_len := clen, h_content_type := ct\<rparr>, 1)
       }
     }"

section \<open>CGI encoding\<close>

text \<open>
  The loop of \<open>http_cgi_dec\<close> over the source bytes, with \<open>room\<close> bytes left in the destination: what it
  writes. A \<open>%\<close> without two bytes behind it ends the loop.
\<close>

fun cgi_dec_loop :: "byte list \<Rightarrow> nat \<Rightarrow> byte list" where
  "cgi_dec_loop src 0 = []"
| "cgi_dec_loop [] (Suc room) = []"
| "cgi_dec_loop (c # src) (Suc room) =
     (if c = 37 then
        (case src of h # l # rest \<Rightarrow> word_of_int (fst (strtoul [h, l] 16) AND 0xff) # cgi_dec_loop rest room
         | _ \<Rightarrow> [])
      else c # cgi_dec_loop src room)"

text \<open>The bytes written to \<open>dst\<close>, the final zero included, and the result.\<close>

definition http_cgi_dec :: "byte list \<Rightarrow> nat \<Rightarrow> byte list \<times> int" where
  "http_cgi_dec src dst_len =
     (let out = cgi_dec_loop src dst_len
      in if length out \<ge> dst_len then (out, 0) else (out @ [0], int (length out)))"

text \<open>
  \<open>http_cgi_enc\<close>: the loop runs while \<open>dst\<close> is beyond \<open>dst_end\<close>; \<open>dst\<close> and \<open>dst_end\<close> are offsets. The
  result is what is written at \<open>dst\<close> and whether the result is not null. \<open>snprintf\<close> with size 3 writes two
  characters and a zero.
\<close>

definition hex_digit :: "int \<Rightarrow> byte" where
  "hex_digit n = word_of_int (if n < 10 then 48 + n else 87 + n)"

fun cgi_enc_loop :: "byte list \<Rightarrow> int \<Rightarrow> int \<Rightarrow> byte list \<times> int" where
  "cgi_enc_loop [] dst dst_end = ([], dst)"
| "cgi_enc_loop (c # src) dst dst_end =
     (if \<not> dst > dst_end then ([], dst)
      else if is_alnum c \<or> c = 45 \<or> c = 95 then
        (let (out, dst') = cgi_enc_loop src (dst + 1) dst_end in (c # out, dst'))
      else if \<not> dst_end - dst \<ge> 3 then ([], dst)
      else (let (out, dst') = cgi_enc_loop src (dst + 3) dst_end
            in (37 # hex_digit (if schar c < 0 then 15 else uint c div 16) # 0 # out, dst')))"

definition http_cgi_enc :: "byte list \<Rightarrow> int \<Rightarrow> byte list \<times> bool" where
  "http_cgi_enc src dst_len =
     (let (out, dst) = cgi_enc_loop src 0 dst_len in (out, \<not> dst \<ge> dst_len))"

section \<open>CGI arguments\<close>

text \<open>
  The loop of \<open>http_cgi_args\<close> over \<open>n\<close> bytes of \<open>m\<close>: \<open>nodes\<close> are the finished nodes and \<open>node\<close> the current
  one; \<open>to_val\<close> says where \<open>pkv\<close> points. The result adds the final \<open>src\<close> and \<open>word\<close>.
\<close>

record args_state =
  as_nodes :: "http_keyval list"
  as_node :: http_keyval
  as_to_val :: bool
  as_word :: int

definition decode_word :: "mem \<Rightarrow> int \<Rightarrow> int \<Rightarrow> nat \<Rightarrow> byte list option" where
  "decode_word m word src n =
     do {
       xs \<leftarrow> slice m word (src - word);
       let (out, i) = http_cgi_dec xs n;
       Some (take (nat i) out)
     }"

definition store_word :: "byte list \<Rightarrow> args_state \<Rightarrow> args_state" where
  "store_word v st =
     (if as_to_val st then st\<lparr>as_node := (as_node st)\<lparr>kv_val := Some v\<rparr>\<rparr>
      else st\<lparr>as_node := (as_node st)\<lparr>kv_key := Some v\<rparr>\<rparr>)"

function args_loop :: "mem \<Rightarrow> nat \<Rightarrow> int \<Rightarrow> args_state \<Rightarrow> (int \<times> args_state) option" where
  "args_loop m n src st =
     (if \<not> src < int n then Some (src, st)
      else do {
        c \<leftarrow> rd8 m src;
        if \<not> (c = 38 \<or> c = 61) then args_loop m n (src + 1) st
        else do {
          v \<leftarrow> decode_word m (as_word st) src n;
          let st = store_word v st;
          if c = 38 then
            args_loop m n (src + 2)
              (st\<lparr>as_nodes := as_nodes st @ [as_node st], as_node := keyval_zero, as_to_val := False, as_word := src + 1\<rparr>)
          else if kv_val (as_node st) \<noteq> None then Some (src, st)
          else args_loop m n (src + 2) (st\<lparr>as_to_val := True, as_word := src + 1\<rparr>)
        }
      })"
  by pat_completeness auto
termination by (relation "measure (\<lambda>(m, n, src, st). nat (int n - src))") auto

declare args_loop.simps [simp del]

text \<open>The list of nodes, or null; \<open>src_len \<le> 0\<close> stands for the length of the string.\<close>

definition http_cgi_args :: "mem \<Rightarrow> int \<Rightarrow> http_keyval list option option" where
  "http_cgi_args src src_len =
     do {
       n \<leftarrow> (if src_len \<le> 0 then if 0 \<in> set src then Some (length (cstr src)) else None else Some (nat src_len));
       (s, st) \<leftarrow> args_loop src n 0 \<lparr>as_nodes = [], as_node = keyval_zero, as_to_val = False, as_word = 0\<rparr>;
       if s < int n then Some None
       else if s > as_word st then do {
         v \<leftarrow> decode_word src (as_word st) s n;
         let st = store_word v st;
         Some (Some (as_nodes st @ [as_node st]))
       }
       else Some (Some (as_nodes st @ [as_node st]))
     }"

section \<open>URLs\<close>

datatype url_parse_err = URL_PARSE_ERR_OK | URL_PARSE_ERR_CHAR | URL_PARSE_ERR_OVER

datatype url_parse_state =
    URL_PARSE_PROTO | URL_PARSE_HOST | URL_PARSE_PORT | URL_PARSE_PATH_ARGS | URL_PARSE_PATH | URL_PARSE_ARGS

record url =
  u_url :: "byte list option"
  u_proto :: "byte list option"
  u_user :: "byte list option"
  u_host :: "byte list option"
  u_port :: int
  u_path_args :: "byte list option"
  u_path :: "byte list option"
  u_args_str :: "byte list option"
  u_args :: "http_keyval list option"
  u_err_code :: url_parse_err
  u_err_state :: url_parse_state
  u_err_pos :: int

text \<open>The local variables of \<open>url_parse\<close>: \<open>up_buf\<close> is what \<open>buf\<close> holds before \<open>bufp\<close>.\<close>

record url_parser =
  up_url :: url
  up_state :: url_parse_state
  up_strp :: int
  up_buf :: "byte list"
  up_done :: bool

definition url_zero :: url where
  "url_zero = \<lparr>u_url = None, u_proto = None, u_user = None, u_host = None, u_port = 0, u_path_args = None,
     u_path = None, u_args_str = None, u_args = None, u_err_code = URL_PARSE_ERR_OK,
     u_err_state = URL_PARSE_PROTO, u_err_pos = 0\<rparr>"

text \<open>The character, the new position and whether it is an error.\<close>

definition url_parse_char :: "mem \<Rightarrow> int \<Rightarrow> (byte \<times> int \<times> bool) option" where
  "url_parse_char s strp =
     do {
       c \<leftarrow> rd8 s strp;
       if c = 37 then do {
         h \<leftarrow> rd8 s (strp + 1);
         l \<leftarrow> rd8 s (strp + 2);
         let (v, q) = strtoul (cstr [h, l]) 16;
         let c = word_of_int v;
         Some (c, strp + 3, c = 0 \<and> q = 0)
       }
       else Some (c, strp + 1, False)
     }"

definition url_parse_err :: "url_parse_err \<Rightarrow> url_parser \<Rightarrow> url_parser" where
  "url_parse_err code u =
     u\<lparr>up_url := (up_url u)\<lparr>u_err_state := up_state u, u_err_code := code, u_err_pos := up_strp u\<rparr>\<rparr>"

definition URL_BUF_SIZE :: nat where "URL_BUF_SIZE = 16834"

definition url_char_buf :: "mem \<Rightarrow> url_parser \<Rightarrow> url_parser option" where
  "url_char_buf s u =
     do {
       (c, strp, err) \<leftarrow> url_parse_char s (up_strp u);
       let u = u\<lparr>up_strp := strp\<rparr>;
       let u = (if err then url_parse_err URL_PARSE_ERR_CHAR u else u);
       if length (up_buf u) \<ge> URL_BUF_SIZE - 1 then Some (url_parse_err URL_PARSE_ERR_OVER u)
       else Some (u\<lparr>up_buf := up_buf u @ [c]\<rparr>)
     }"

definition url_state :: "url_parse_state \<Rightarrow> url_parser \<Rightarrow> url_parser" where
  "url_state new u = u\<lparr>up_state := new, up_buf := []\<rparr>"

definition url_advance :: "int \<Rightarrow> url_parser \<Rightarrow> url_parser" where
  "url_advance k u = u\<lparr>up_strp := up_strp u + k\<rparr>"

text \<open>The characters of names, and the string from a position on.\<close>

definition url_name_char :: "byte \<Rightarrow> bool" where
  "url_name_char c \<longleftrightarrow> is_alnum c \<or> c = 37 \<or> c = 95 \<or> c = 45 \<or> c = 46"

definition string_at :: "mem \<Rightarrow> int \<Rightarrow> byte list option" where
  "string_at s p = (if 0 \<le> p \<and> 0 \<in> set (drop (nat p) s) then Some (cstr (drop (nat p) s)) else None)"

definition url_step :: "mem \<Rightarrow> url_parser \<Rightarrow> url_parser option" where
  "url_step s u =
     (case up_state u of
        URL_PARSE_PROTO \<Rightarrow> do {
          c \<leftarrow> rd8 s (up_strp u);
          let u = (if c = 0 \<or> c = 58 then u\<lparr>up_url := (up_url u)\<lparr>u_proto := Some (cstr (up_buf u))\<rparr>\<rparr> else u);
          if c = 0 then Some (u\<lparr>up_done := True\<rparr>)
          else if c = 58 then do {
            let u = url_state URL_PARSE_PATH_ARGS (url_advance 1 u);
            r \<leftarrow> string_at s (up_strp u);
            Some (if take 2 r = [47, 47] then url_state URL_PARSE_HOST (url_advance 2 u) else u)
          }
          else if url_name_char c then url_char_buf s u
          else Some (url_parse_err URL_PARSE_ERR_CHAR u)
        }
      | URL_PARSE_HOST \<Rightarrow> do {
          c \<leftarrow> rd8 s (up_strp u);
          let u = (if c = 0 \<or> c = 58 \<or> c = 47 then u\<lparr>up_url := (up_url u)\<lparr>u_host := Some (cstr (up_buf u))\<rparr>\<rparr> else u);
          if c = 0 then Some (u\<lparr>up_done := True\<rparr>)
          else if c = 64 then
            Some (url_state URL_PARSE_HOST
              (url_advance 1 (u\<lparr>up_url := (up_url u)\<lparr>u_user := Some (cstr (up_buf u))\<rparr>\<rparr>)))
          else if c = 47 then Some (url_state URL_PARSE_PATH_ARGS u)
          else if c = 58 then Some (url_state URL_PARSE_PORT (url_advance 1 u))
          else if url_name_char c then url_char_buf s u
          else Some (url_parse_err URL_PARSE_ERR_CHAR u)
        }
      | URL_PARSE_PORT \<Rightarrow> do {
          c \<leftarrow> rd8 s (up_strp u);
          let u = (if c = 0 \<or> c = 47 then
                     (let (v, q) = strtoul (cstr (up_buf u)) 0;
                          u = u\<lparr>up_url := (up_url u)\<lparr>u_port := to_i32 v\<rparr>\<rparr>
                      in if q = 0 then url_parse_err URL_PARSE_ERR_CHAR u else u)
                   else u);
          if c = 0 then Some (u\<lparr>up_done := True\<rparr>)
          else if c = 47 then Some (url_state URL_PARSE_PATH_ARGS u)
          else if is_digit c \<or> c = 37 then url_char_buf s u
          else Some (url_parse_err URL_PARSE_ERR_CHAR u)
        }
      | URL_PARSE_PATH_ARGS \<Rightarrow> do {
          r \<leftarrow> string_at s (up_strp u);
          Some (url_state URL_PARSE_PATH (u\<lparr>up_url := (up_url u)\<lparr>u_path_args := Some r\<rparr>\<rparr>))
        }
      | URL_PARSE_PATH \<Rightarrow> do {
          c \<leftarrow> rd8 s (up_strp u);
          let u = (if c = 0 \<or> c = 63 then u\<lparr>up_url := (up_url u)\<lparr>u_path := Some (cstr (up_buf u))\<rparr>\<rparr> else u);
          if c = 0 then Some (u\<lparr>up_done := True\<rparr>)
          else if c = 63 then Some (url_state URL_PARSE_ARGS (url_advance 1 u))
          else url_char_buf s u
        }
      | URL_PARSE_ARGS \<Rightarrow> do {
          r \<leftarrow> string_at s (up_strp u);
          args \<leftarrow> http_cgi_args (r @ [0]) (int (length r));
          Some (u\<lparr>up_url := (up_url u)\<lparr>u_args_str := Some r, u_args := args\<rparr>, up_done := True\<rparr>)
        })"

text \<open>A step either ends the loop or moves on: the position grows, or the state does.\<close>

definition url_rank :: "url_parse_state \<Rightarrow> nat" where
  "url_rank st = (case st of URL_PARSE_PROTO \<Rightarrow> 2 | URL_PARSE_HOST \<Rightarrow> 2 | URL_PARSE_PORT \<Rightarrow> 2 |
     URL_PARSE_PATH_ARGS \<Rightarrow> 1 | URL_PARSE_PATH \<Rightarrow> 0 | URL_PARSE_ARGS \<Rightarrow> 0)"

definition url_stopped :: "url_parser \<Rightarrow> bool" where
  "url_stopped u \<longleftrightarrow> up_done u \<or> u_err_code (up_url u) \<noteq> URL_PARSE_ERR_OK"

lemma rd8_Some_bounds: "rd8 s p = Some c \<Longrightarrow> 0 \<le> p \<and> p < int (length s)"
  by (auto simp: rd8_def mem_get_def split: if_splits)

lemma url_char_buf_moves:
  "url_char_buf s u = Some u' \<Longrightarrow> up_strp u < up_strp u' \<and> 0 \<le> up_strp u \<and> up_strp u < int (length s)"
  by (auto simp: url_char_buf_def url_parse_char_def url_parse_err_def Let_def
      split: Option.bind_splits if_splits prod.splits dest: rd8_Some_bounds)

lemma url_step_moves:
  assumes step: "url_step s u = Some u'" and go: "\<not> url_stopped u'"
  shows "nat (int (length s) - up_strp u') < nat (int (length s) - up_strp u) \<or>
    up_strp u' = up_strp u \<and> url_rank (up_state u') < url_rank (up_state u)"
proof -
  have "up_strp u < up_strp u' \<and> up_strp u < int (length s) \<or>
      up_strp u' = up_strp u \<and> url_rank (up_state u') < url_rank (up_state u)"
  proof (cases "up_state u = URL_PARSE_PATH_ARGS \<or> up_state u = URL_PARSE_ARGS")
    case True
    then show ?thesis using step go
      by (auto simp: url_step_def url_state_def url_rank_def url_stopped_def split: Option.bind_splits)
  next
    case False
    then obtain c where c: "rd8 s (up_strp u) = Some c"
      using step by (auto simp: url_step_def split: url_parse_state.splits Option.bind_splits)
    note b = rd8_Some_bounds [OF c]
    show ?thesis
      using False step go c b
      by (cases "up_state u")
        (auto simp: url_step_def url_state_def url_advance_def url_rank_def url_stopped_def url_parse_err_def Let_def
          split: if_splits Option.bind_splits prod.splits dest!: url_char_buf_moves)
  qed
  then show ?thesis by auto
qed

text \<open>The loop of \<open>url_parse\<close>, which runs a step before it looks whether it is done.\<close>

function url_loop :: "mem \<Rightarrow> url_parser \<Rightarrow> url_parser option" where
  "url_loop s u =
     (case url_step s u of None \<Rightarrow> None
      | Some u' \<Rightarrow> if url_stopped u' then Some u' else url_loop s u')"
  by pat_completeness auto
termination
  by (relation "measures [\<lambda>(s, u). nat (int (length s) - up_strp u), \<lambda>(s, u). url_rank (up_state u)]")
    (auto dest: url_step_moves)

declare url_loop.simps [simp del]

definition default_port :: "byte list \<Rightarrow> int" where
  "default_port proto =
     (let p = map tolower (cstr proto)
      in if p = bytes_of ''http'' then 80 else if p = bytes_of ''https'' then 443
         else if p = bytes_of ''ftp'' then 21 else 0)"

definition url_parse :: "mem \<Rightarrow> (url \<times> url_parse_err) option" where
  "url_parse str =
     do {
       s \<leftarrow> string_at str 0;
       u \<leftarrow> url_loop str \<lparr>up_url = url_zero\<lparr>u_url := Some s\<rparr>, up_state = URL_PARSE_PROTO, up_strp = 0,
                          up_buf = [], up_done = False\<rparr>;
       let url = up_url u;
       if u_err_code url = URL_PARSE_ERR_OK \<and> u_port url = 0 then do {
         proto \<leftarrow> u_proto url;
         Some (url\<lparr>u_port := default_port proto\<rparr>, u_err_code url)
       }
       else Some (url, u_err_code url)
     }"

end
