(* ===== verification/HttpProps.thy ===== *)
theory HttpProps
  imports Http
begin

text \<open>
  Reading requests: the parser on well-formed requests, complete and cut off, and what it does with
  short words; CGI arguments and URLs.
\<close>

section \<open>Words in memory\<close>

definition at_mem :: "mem \<Rightarrow> int \<Rightarrow> byte list \<Rightarrow> bool" where
  "at_mem m p xs \<longleftrightarrow> 0 \<le> p \<and> (\<exists>a b. m = a @ xs @ b \<and> p = int (length a))"

lemma at_mem_append: "at_mem m p (xs @ ys) \<longleftrightarrow> at_mem m p xs \<and> at_mem m (p + int (length xs)) ys"
proof
  assume "at_mem m p (xs @ ys)"
  then obtain a b where m: "m = a @ (xs @ ys) @ b" "p = int (length a)" by (auto simp: at_mem_def)
  show "at_mem m p xs \<and> at_mem m (p + int (length xs)) ys"
  proof
    show "at_mem m p xs" unfolding at_mem_def
      by (rule conjI, simp add: m, rule exI [of _ a], rule exI [of _ "ys @ b"]) (simp add: m)
    show "at_mem m (p + int (length xs)) ys" unfolding at_mem_def
      by (rule conjI, simp add: m, rule exI [of _ "a @ xs"], rule exI [of _ b]) (simp add: m)
  qed
next
  assume r: "at_mem m p xs \<and> at_mem m (p + int (length xs)) ys"
  then obtain a b where m: "m = a @ xs @ b" "p = int (length a)" unfolding at_mem_def by blast
  from r obtain c d where n: "m = c @ ys @ d" "p + int (length xs) = int (length c)" unfolding at_mem_def by blast
  from m(2) n(2) have "length c = length (a @ xs)" by simp
  with m(1) n(1) have "c = a @ xs" by (metis append_assoc append_eq_append_conv)
  with m n have "m = a @ (xs @ ys) @ d" by simp
  with m(2) show "at_mem m p (xs @ ys)" unfolding at_mem_def by (metis of_nat_0_le_iff)
qed

lemma at_mem_Cons: "at_mem m p (x # xs) \<longleftrightarrow> rd8 m p = Some x \<and> at_mem m (p + 1) xs"
proof -
  have "at_mem m p [x] \<longleftrightarrow> rd8 m p = Some x"
  proof
    assume "at_mem m p [x]"
    then show "rd8 m p = Some x" by (auto simp: at_mem_def rd8_def mem_get_def nth_append)
  next
    assume "rd8 m p = Some x"
    then have p: "0 \<le> p" "nat p < length m" "m ! nat p = x" by (auto simp: rd8_def mem_get_def split: if_splits)
    then have "m = take (nat p) m @ [x] @ drop (Suc (nat p)) m"
      using id_take_nth_drop [OF p(2)] by simp
    with p show "at_mem m p [x]" unfolding at_mem_def
      by (intro conjI exI [of _ "take (nat p) m"] exI [of _ "drop (Suc (nat p)) m"]) auto
  qed
  with at_mem_append [of m p "[x]" xs] show ?thesis
    by (auto simp: at_mem_append [of m p "[x]" xs, simplified])
qed

lemma slice_at_mem: "at_mem m p xs \<Longrightarrow> slice m p (int (length xs)) = Some xs"
  by (auto simp: at_mem_def slice_def)

text \<open>The words the parser reads, and what it makes of them: a word of one byte becomes the empty string.\<close>

definition kept :: "byte list \<Rightarrow> byte list" where
  "kept v = (if length v = 1 then [] else v)"

definition value_ok :: "byte list \<Rightarrow> bool" where
  "value_ok v \<longleftrightarrow> v \<noteq> [] \<and> \<not> is_space (hd v) \<and> \<not> is_space (last v) \<and> 10 \<notin> set v \<and> 13 \<notin> set v"

definition token_ok :: "byte list \<Rightarrow> bool" where
  "token_ok t \<longleftrightarrow> t \<noteq> [] \<and> (\<forall>c\<in>set t. \<not> is_space c)"

lemma space_bytes [simp]: "is_space 32" "is_space 9" "is_space 10" "is_space 13"
  by (simp_all add: is_space_def)

lemma token_value: "token_ok t \<Longrightarrow> value_ok t"
  unfolding token_ok_def value_ok_def
  by (metis hd_in_set last_in_set space_bytes(3,4))

lemma dropWhile_all: "\<forall>c\<in>set xs. P c \<Longrightarrow> dropWhile P (xs @ ys) = dropWhile P ys"
  by (induction xs) auto

lemma strdup_value:
  assumes "value_ok v" "at_mem m p (v @ ws)" "\<forall>c\<in>set ws. is_space c"
  shows "http_strdup m p (int (length v) + int (length ws)) = Some (kept v)"
proof -
  obtain c w where v: "v = c # w" using assms(1) by (cases v) (auto simp: value_ok_def)
  obtain w' d where v': "v = w' @ [d]" using assms(1) by (cases v rule: rev_cases) (auto simp: value_ok_def)
  have s: "slice m p (int (length v) + int (length ws)) = Some (v @ ws)"
    using slice_at_mem [OF assms(2)] by simp
  have d1: "dropWhile is_space (v @ ws) = v @ ws" using assms(1) by (simp add: v value_ok_def)
  have "dropWhile is_space (rev (v @ ws)) = rev v"
  proof -
    have "dropWhile is_space (rev ws @ rev v) = dropWhile is_space (rev v)"
      using assms(3) by (intro dropWhile_all) auto
    also have "\<dots> = rev v" using assms(1) by (simp add: v' value_ok_def)
    finally show ?thesis by simp
  qed
  then have z: "rev (dropWhile is_space (rev (dropWhile is_space (v @ ws)))) = v" by (simp only: d1 rev_rev_ident)
  have "filter (\<lambda>c. c \<noteq> 13) v = v" using assms(1) by (auto simp: value_ok_def filter_id_conv)
  moreover have "v \<noteq> []" by (simp add: v)
  ultimately show ?thesis using s by (simp only: http_strdup_def Let_def z option_bind_Some Option.bind.simps kept_def if_False)
      (simp split: if_splits)
qed

section \<open>Running the parser\<close>

definition live :: "parse_state \<Rightarrow> bool" where
  "live st \<longleftrightarrow> ps_state st \<noteq> HTTP_STATE_DONE \<and> ps_state st \<noteq> HTTP_STATE_ERROR"

lemma parse_loop_stopped: "\<not> live st \<Longrightarrow> parse_loop m p k st = Some (p, st)"
  by (cases k) (auto simp: live_def)

lemma parse_loop_step: "live st \<Longrightarrow> parse_step m p st = Some st' \<Longrightarrow> parse_loop m p (Suc k) st = parse_loop m (p + 1) k st'"
  by (simp add: live_def)

lemma parse_loop_add:
  "parse_loop m p (j + k) st = do { (p', st') \<leftarrow> parse_loop m p j st; parse_loop m p' k st' }"
proof (induction j arbitrary: p st)
  case (Suc j)
  show ?case
  proof (cases "live st")
    case True
    then show ?thesis by (cases "parse_step m p st") (auto simp: live_def Suc.IH)
  next
    case False
    then have "parse_loop m p (Suc j + k) st = Some (p, st)" "parse_loop m p (Suc j) st = Some (p, st)"
      "parse_loop m p k st = Some (p, st)" by (rule parse_loop_stopped)+
    then show ?thesis by simp
  qed
qed simp

lemma parse_loop_ptr:
  "parse_loop m p k st = Some (p', st') \<Longrightarrow> p' \<le> p + int k \<and> (live st' \<longrightarrow> p' = p + int k)"
proof (induction k arbitrary: p st)
  case (Suc k)
  show ?case
  proof (cases "live st")
    case True
    with Suc.prems obtain st1 where "parse_loop m (p + 1) k st1 = Some (p', st')"
      by (auto simp: live_def split: Option.bind_splits)
    from Suc.IH [OF this] show ?thesis by auto
  next
    case False
    then have "parse_loop m p (Suc k) st = Some (p, st)" by (rule parse_loop_stopped)
    with Suc.prems False show ?thesis by simp
  qed
qed auto

text \<open>The parser never changes which pool it allocates from.\<close>

lemma visit_pool:
  assumes "parse_visit m p c st = Some st'"
  shows "h_pool (ps_http st') = h_pool (ps_http st)"
proof (cases "ps_state st = HTTP_STATE_RESPONSE_CODE")
  case True
  show ?thesis
  proof (cases "ps_word st")
    case (Some w)
    then show ?thesis using True assms
      by (cases "strtoul (drop (nat w) m) 0") (auto simp: parse_visit_def parse_error_def go_space_def Let_def split: if_splits)
  qed (use True assms in \<open>auto simp: parse_visit_def Let_def split: if_splits\<close>)
next
  case False
  then show ?thesis using assms
    by (cases "ps_state st")
      (auto simp: parse_visit_def parse_error_def go_space_def Let_def option_bind_Some split: if_splits)
qed

lemma step_pool: "parse_step m p st = Some st' \<Longrightarrow> h_pool (ps_http st') = h_pool (ps_http st)"
  by (cases "ps_state st")
    (auto simp: parse_step_def count_line_def Let_def option_bind_Some split: if_splits dest!: visit_pool)

lemma parse_loop_pool: "parse_loop m p k st = Some (p', st') \<Longrightarrow> h_pool (ps_http st') = h_pool (ps_http st)"
  by (induction k arbitrary: p st) (auto simp: option_bind_Some split: if_splits dest!: step_pool)

lemma parse_loop_skip:
  "live st \<Longrightarrow> at_mem m p xs \<Longrightarrow> (\<And>q c. c \<in> set xs \<Longrightarrow> rd8 m q = Some c \<Longrightarrow> parse_step m q st = Some st) \<Longrightarrow>
   parse_loop m p (length xs + k) st = parse_loop m (p + int (length xs)) k st"
proof (induction xs arbitrary: p)
  case (Cons x xs)
  have x: "rd8 m p = Some x" "at_mem m (p + 1) xs" using Cons.prems(2) by (auto simp: at_mem_Cons)
  have "parse_loop m p (length (x # xs) + k) st = parse_loop m (p + 1) (length xs + k) st"
    using parse_loop_step [OF Cons.prems(1) Cons.prems(3) [OF _ x(1)], of "length xs + k"] by simp
  also have "\<dots> = parse_loop m (p + 1 + int (length xs)) k st"
    using Cons.prems by (intro Cons.IH x) auto
  finally show ?case by (simp add: add.assoc)
qed simp

text \<open>A word is passed in the state it belongs to.\<close>

definition passes :: "http_state \<Rightarrow> byte \<Rightarrow> bool" where
  "passes s c \<longleftrightarrow> c \<noteq> 10 \<and> c \<noteq> 13 \<and>
     (s = HTTP_STATE_OP \<or> s = HTTP_STATE_URI \<or> s = HTTP_STATE_VERSION \<or> s = HTTP_STATE_RESPONSE_CODE \<longrightarrow>
       c \<noteq> 32 \<and> c \<noteq> 9) \<and>
     (s = HTTP_STATE_HEADER_NAME \<longrightarrow> is_alnum c \<or> c = 45)"

definition word_state :: "http_state \<Rightarrow> bool" where
  "word_state s \<longleftrightarrow> s \<in> {HTTP_STATE_OP, HTTP_STATE_URI, HTTP_STATE_VERSION, HTTP_STATE_RESPONSE_CODE,
     HTTP_STATE_RESPONSE_MESSAGE, HTTP_STATE_HEADER_NAME, HTTP_STATE_HEADER_VAL}"

lemma word_state_live: "word_state (ps_state st) \<Longrightarrow> live st"
  by (auto simp: word_state_def live_def)

lemma visit_passes: "word_state (ps_state st) \<Longrightarrow> passes (ps_state st) c \<Longrightarrow> parse_visit m q c st = Some st"
  by (cases "ps_state st") (auto simp: word_state_def passes_def parse_visit_def Let_def)

lemma step_passes:
  "word_state (ps_state st) \<Longrightarrow> passes (ps_state st) c \<Longrightarrow> rd8 m q = Some c \<Longrightarrow> parse_step m q st = Some st"
  using visit_passes [of st c m q]
  by (cases "ps_state st") (auto simp: word_state_def parse_step_def count_line_def passes_def Let_def)

lemma run_word:
  assumes "ps_state st = HTTP_STATE_SPACE" "word_state (ps_next st)" "at_mem m p t" "t \<noteq> []" "\<not> is_space (hd t)"
    "\<forall>c\<in>set t. passes (ps_next st) c"
  shows "parse_loop m p (length t + k) st =
    parse_loop m (p + int (length t)) k (st\<lparr>ps_state := ps_next st, ps_word := Some p\<rparr>)"
proof -
  let ?st = "st\<lparr>ps_state := ps_next st, ps_word := Some p\<rparr>"
  obtain c u where t: "t = c # u" using assms(4) by (cases t) auto
  have c: "rd8 m p = Some c" "at_mem m (p + 1) u" using assms(3) by (auto simp: t at_mem_Cons)
  have p: "passes (ps_next st) c" "c \<noteq> 32" "c \<noteq> 9" "c \<noteq> 10" "c \<noteq> 13" using assms(5,6) by (auto simp: t)
  have "parse_step m p st = parse_visit m p c ?st"
    using assms(1) c p by (simp add: parse_step_def count_line_def Let_def)
  also have "\<dots> = Some ?st" using visit_passes [of ?st c m p] assms(2) p(1) by simp
  finally have s: "parse_step m p st = Some ?st" .
  have "live st" using assms(1) by (simp add: live_def)
  from parse_loop_step [OF this s, of "length u + k"]
  have "parse_loop m p (length t + k) st = parse_loop m (p + 1) (length u + k) ?st" by (simp add: t)
  also have "\<dots> = parse_loop m (p + 1 + int (length u)) k ?st"
    using assms(2,6) step_passes [of ?st] by (intro parse_loop_skip [OF word_state_live c(2)]) (auto simp: t)
  finally show ?thesis by (simp add: t add.assoc)
qed

text \<open>From one state to another by the bytes \<open>xs\<close>, whatever follows.\<close>

definition runs :: "mem \<Rightarrow> int \<Rightarrow> byte list \<Rightarrow> parse_state \<Rightarrow> parse_state \<Rightarrow> bool" where
  "runs m p xs st st' \<longleftrightarrow> (\<forall>k. parse_loop m p (length xs + k) st = parse_loop m (p + int (length xs)) k st')"

lemma runs_trans:
  "runs m p xs st st' \<Longrightarrow> runs m (p + int (length xs)) ys st' st'' \<Longrightarrow> runs m p (xs @ ys) st st''"
  by (simp add: runs_def add.assoc)

lemma runs_then:
  "runs m p xs st st' \<Longrightarrow> runs m q ys st' st'' \<Longrightarrow> q = p + int (length xs) \<Longrightarrow> zs = xs @ ys \<Longrightarrow> runs m p zs st st''"
  by (simp add: runs_trans)

lemma runs_one: "live st \<Longrightarrow> parse_step m p st = Some st' \<Longrightarrow> runs m p [c] st st'"
  unfolding runs_def by (simp add: live_def)

lemma runs_word:
  assumes "ps_state st = HTTP_STATE_SPACE" "word_state (ps_next st)" "at_mem m p t" "t \<noteq> []" "\<not> is_space (hd t)"
    "\<forall>c\<in>set t. passes (ps_next st) c"
  shows "runs m p t st (st\<lparr>ps_state := ps_next st, ps_word := Some p\<rparr>)"
  unfolding runs_def using run_word [OF assms] by blast

lemma runs_skip:
  assumes "live st" "at_mem m p xs" "\<And>q c. c \<in> set xs \<Longrightarrow> rd8 m q = Some c \<Longrightarrow> parse_step m q st = Some st"
  shows "runs m p xs st st"
  unfolding runs_def using assms(3) by (intro allI parse_loop_skip [OF assms(1,2)])

section \<open>Header lines\<close>

definition header_line :: "byte list \<times> byte list \<Rightarrow> byte list" where
  "header_line = (\<lambda>(k, v). k @ [58, 32] @ v @ [10])"

definition name_ok :: "byte list \<Rightarrow> bool" where
  "name_ok k \<longleftrightarrow> k \<noteq> [] \<and> (\<forall>c\<in>set k. is_alnum c \<or> c = 45)"

definition header_ok :: "byte list \<times> byte list \<Rightarrow> bool" where
  "header_ok = (\<lambda>(k, v). name_ok k \<and> value_ok v)"

definition keyval :: "byte list \<times> byte list \<Rightarrow> http_keyval" where
  "keyval = (\<lambda>(k, v). \<lparr>kv_key = Some (kept k), kv_val = Some (kept v)\<rparr>)"

text \<open>Before a header line: the value of the line before is still to be taken from memory.\<close>

definition header_at :: "mem \<Rightarrow> int \<Rightarrow> http_header \<Rightarrow> (byte list \<times> byte list) list \<Rightarrow> parse_state \<Rightarrow> bool" where
  "header_at m p http hs st \<longleftrightarrow> ps_state st = HTTP_STATE_HEADER \<and>
     (if hs = [] then ps_http st = http\<lparr>h_headers := []\<rparr>
      else ps_http st = http\<lparr>h_headers := map keyval (butlast hs) @ [\<lparr>kv_key = Some (kept (fst (last hs))), kv_val = None\<rparr>]\<rparr> \<and>
        value_ok (snd (last hs)) \<and>
        (\<exists>w. ps_word st = Some w \<and> p = w + int (length (snd (last hs))) + 1 \<and> at_mem m w (snd (last hs) @ [10])))"

lemma name_char: "is_alnum c \<or> c = 45 \<Longrightarrow> c \<noteq> 32 \<and> c \<noteq> 9 \<and> c \<noteq> 10 \<and> c \<noteq> 13 \<and> c \<noteq> 58 \<and> c \<noteq> 0 \<and> \<not> is_space c"
  by (auto simp: is_alnum_def is_digit_def is_space_def word_le_nat_alt)

lemma name_token: "name_ok k \<Longrightarrow> token_ok k"
  using name_char by (auto simp: name_ok_def token_ok_def)

lemma header_finish:
  assumes "header_at m p http hs st"
  shows "(if h_headers (ps_http st) = [] then Some []
          else do { v \<leftarrow> get_word m p st; Some (set_last_val v (h_headers (ps_http st))) }) = Some (map keyval hs)"
proof (cases "hs = []")
  case False
  then obtain w where w: "ps_word st = Some w" "p = w + int (length (snd (last hs))) + 1"
      "at_mem m w (snd (last hs) @ [10])" and v: "value_ok (snd (last hs))"
    and h: "h_headers (ps_http st) = map keyval (butlast hs) @ [\<lparr>kv_key = Some (kept (fst (last hs))), kv_val = None\<rparr>]"
    using assms by (auto simp: header_at_def)
  have "get_word m p st = Some (kept (snd (last hs)))"
    using strdup_value [OF v w(3)] w(1,2) by (simp add: get_word_def)
  moreover have "map keyval hs = map keyval (butlast hs) @ [keyval (last hs)]"
    using False by (metis append_butlast_last_id list.simps(8,9) map_append)
  ultimately show ?thesis by (simp add: h set_last_val_def keyval_def split: prod.splits)
qed (use assms in \<open>simp add: header_at_def\<close>)

text \<open>A header line from its first byte: the name, the colon, the space, the value and the line feed.\<close>

lemma header_name_start:
  assumes at: "header_at m p http hs st" and k: "rd8 m p = Some c" "is_alnum c \<or> c = 45"
  shows "parse_step m p st = Some (st\<lparr>ps_http := http\<lparr>h_headers := map keyval hs @ [keyval_zero]\<rparr>, ps_word := Some p,
    ps_state := HTTP_STATE_HEADER_NAME\<rparr>)"
proof -
  have s: "ps_state st = HTTP_STATE_HEADER" using at by (simp add: header_at_def)
  have h: "(ps_http st)\<lparr>h_headers := x\<rparr> = http\<lparr>h_headers := x\<rparr>" for x
    using at by (auto simp: header_at_def split: if_splits)
  show ?thesis
    using name_char [OF k(2)] k(1) s header_finish [OF at]
    by (simp add: parse_step_def count_line_def parse_visit_def Let_def h)
qed

lemma header_colon:
  assumes "rd8 m p = Some 58" "ps_state st = HTTP_STATE_HEADER_NAME" "ps_word st = Some w" "p = w + int (length k)"
    "name_ok k" "at_mem m w k"
  shows "parse_step m p st = Some (go_space HTTP_STATE_HEADER_VAL
    (st\<lparr>ps_http := (ps_http st)\<lparr>h_headers := set_last_key (kept k) (h_headers (ps_http st))\<rparr>\<rparr>))"
proof -
  have "get_word m p st = Some (kept k)"
    using strdup_value [OF token_value [OF name_token [OF assms(5)]], of m w "[]"] assms(3,4,6)
    by (simp add: get_word_def)
  moreover have "\<not> is_alnum 58" by (simp add: is_alnum_def is_digit_def)
  ultimately show ?thesis using assms(1,2) by (simp add: parse_step_def count_line_def parse_visit_def Let_def)
qed

lemma space_skipped: "rd8 m p = Some 32 \<Longrightarrow> ps_state st = HTTP_STATE_SPACE \<Longrightarrow> parse_step m p st = Some st"
  by (simp add: parse_step_def count_line_def Let_def)

lemma header_line_runs:
  assumes at: "header_at m p http hs st" and ok: "name_ok k" "value_ok v" and m: "at_mem m p (k @ [58, 32] @ v @ [10])"
  shows "\<exists>st'. runs m p (k @ [58, 32] @ v @ [10]) st st' \<and>
    header_at m (p + int (length (k @ [58, 32] @ v @ [10]))) http (hs @ [(k, v)]) st'"
proof -
  obtain c u where k: "k = c # u" using ok(1) by (cases k) (auto simp: name_ok_def)
  let ?n = "int (length k)"
  let ?hs = "map keyval hs @ [\<lparr>kv_key = Some (kept k), kv_val = None\<rparr>]"
  let ?http = "http\<lparr>h_headers := ?hs\<rparr>"
  let ?s1 = "st\<lparr>ps_http := http\<lparr>h_headers := map keyval hs @ [keyval_zero]\<rparr>, ps_word := Some p,
    ps_state := HTTP_STATE_HEADER_NAME\<rparr>"
  let ?s2 = "go_space HTTP_STATE_HEADER_VAL (st\<lparr>ps_http := ?http, ps_word := Some p\<rparr>)"
  let ?s3 = "st\<lparr>ps_http := ?http, ps_word := Some (p + ?n + 2), ps_next := HTTP_STATE_HEADER_VAL,
    ps_state := HTTP_STATE_HEADER_VAL\<rparr>"
  let ?q = "p + ?n + 2 + int (length v)"
  let ?s4 = "count_line ?q 10 ?s3\<lparr>ps_state := HTTP_STATE_HEADER\<rparr>"
  have m: "at_mem m p k" "rd8 m (p + ?n) = Some 58" "rd8 m (p + ?n + 1) = Some 32" "at_mem m (p + ?n + 2) v"
    "rd8 m ?q = Some 10" "at_mem m (p + ?n + 2) (v @ [10])"
    using m by (auto simp: at_mem_append at_mem_Cons algebra_simps)
  have c: "rd8 m p = Some c" "at_mem m (p + 1) u" using m(1) by (auto simp: k at_mem_Cons)
  have live: "live st" "live ?s1" "live ?s2" "live ?s3"
    using at by (auto simp: live_def header_at_def go_space_def)
  have "runs m p [c] st ?s1"
    using ok(1) by (intro runs_one live header_name_start [OF at c(1)]) (auto simp: k name_ok_def)
  moreover have "runs m (p + 1) u ?s1 ?s1"
  proof (rule runs_skip [OF live(2) c(2)])
    fix q b assume b: "b \<in> set u" "rd8 m q = Some b"
    with ok(1) have "is_alnum b \<or> b = 45" by (auto simp: k name_ok_def)
    with b name_char [of b] show "parse_step m q ?s1 = Some ?s1"
      by (intro step_passes [OF _ _ b(2)]) (auto simp: word_state_def passes_def)
  qed
  ultimately have r1: "runs m p k st ?s1" using runs_trans [of m p "[c]" st ?s1 u ?s1] by (simp add: k)
  have "parse_step m (p + ?n) ?s1 = Some ?s2"
    using header_colon [OF m(2) _ _ refl ok(1) m(1), of ?s1] by (simp add: set_last_key_def keyval_zero_def go_space_def)
  from runs_then [OF r1 runs_one [OF live(2) this, of 58] refl refl] have r2: "runs m p (k @ [58]) st ?s2" .
  have "parse_step m (p + ?n + 1) ?s2 = Some ?s2" by (rule space_skipped [OF m(3)]) (simp add: go_space_def)
  from runs_one [OF live(3) this, of 32] have r3: "runs m p (k @ [58, 32]) st ?s2"
    by (rule runs_then [OF r2]) simp_all
  have "runs m (p + ?n + 2) v ?s2 (?s2\<lparr>ps_state := ps_next ?s2, ps_word := Some (p + ?n + 2)\<rparr>)"
    using ok(2) by (intro runs_word m) (auto simp: go_space_def word_state_def passes_def value_ok_def)
  also have "?s2\<lparr>ps_state := ps_next ?s2, ps_word := Some (p + ?n + 2)\<rparr> = ?s3" by (simp add: go_space_def)
  finally have r4: "runs m p (k @ [58, 32] @ v) st ?s3" by (rule runs_then [OF r3]) simp_all
  have "parse_step m ?q ?s3 = Some ?s4"
    using m(5) by (simp add: parse_step_def parse_visit_def count_line_def Let_def)
  from runs_one [OF live(4) this, of 10] have "runs m p (k @ [58, 32] @ v @ [10]) st ?s4"
    by (rule runs_then [OF r4]) simp_all
  moreover have "header_at m (p + int (length (k @ [58, 32] @ v @ [10]))) http (hs @ [(k, v)]) ?s4"
    using m(6) ok(2) by (simp add: header_at_def count_line_def)
  ultimately show ?thesis by blast
qed

lemma header_lines_run:
  "header_at m p http hs st \<Longrightarrow> list_all header_ok ks \<Longrightarrow> at_mem m p (concat (map header_line ks)) \<Longrightarrow>
   \<exists>st'. runs m p (concat (map header_line ks)) st st' \<and>
     header_at m (p + int (length (concat (map header_line ks)))) http (hs @ ks) st'"
proof (induction ks arbitrary: p hs st)
  case Nil
  then show ?case by (auto simp: runs_def)
next
  case (Cons kv ks)
  obtain k v where kv: "kv = (k, v)" by force
  let ?l = "k @ [58, 32] @ v @ [10]"
  have ok: "name_ok k" "value_ok v" "list_all header_ok ks" using Cons.prems(2) by (auto simp: kv header_ok_def)
  have l: "concat (map header_line (kv # ks)) = ?l @ concat (map header_line ks)" by (simp add: kv header_line_def)
  have m: "at_mem m p ?l" "at_mem m (p + int (length ?l)) (concat (map header_line ks))"
    using Cons.prems(3) at_mem_append [of m p ?l "concat (map header_line ks)"] unfolding l by blast+
  from header_line_runs [OF Cons.prems(1) ok(1,2) m(1)] obtain st1 where
    1: "runs m p ?l st st1" "header_at m (p + int (length ?l)) http (hs @ [kv]) st1" unfolding kv by blast
  from Cons.IH [OF 1(2) ok(3) m(2)] obtain st2 where
    2: "runs m (p + int (length ?l)) (concat (map header_line ks)) st1 st2"
      "header_at m (p + int (length ?l) + int (length (concat (map header_line ks)))) http ((hs @ [kv]) @ ks) st2"
    by blast
  have "runs m p (concat (map header_line (kv # ks))) st st2" by (rule runs_then [OF 1(1) 2(1) refl l])
  moreover have "header_at m (p + int (length (concat (map header_line (kv # ks))))) http (hs @ kv # ks) st2"
    using 2(2) unfolding l length_append [of ?l] of_nat_add add.assoc [of p, symmetric] by simp
  ultimately show ?case by blast
qed

section \<open>Requests and responses\<close>

definition request_text ::
    "byte list \<Rightarrow> byte list \<Rightarrow> byte list \<Rightarrow> (byte list \<times> byte list) list \<Rightarrow> byte list" where
  "request_text op uri ver hs =
     (op @ [32] @ uri @ [32] @ ver @ [10]) @ concat (map header_line hs) @ [10]"

definition response_text ::
    "byte list \<Rightarrow> byte list \<Rightarrow> byte list \<Rightarrow> (byte list \<times> byte list) list \<Rightarrow> byte list" where
  "response_text ver code msg hs =
     (ver @ [32] @ code @ [32] @ msg @ [10]) @ concat (map header_line hs) @ [10]"

text \<open>The first header of a name, in any case.\<close>

definition header_value :: "(byte list \<times> byte list) list \<Rightarrow> string \<Rightarrow> byte list option" where
  "header_value hs key =
     map_option (\<lambda>(k, v). kept v) (find (\<lambda>(k, v). map tolower (kept k) = map tolower (bytes_of key)) hs)"

lemma cstr_whole: "0 \<notin> set s \<Longrightarrow> cstr s = s"
  by (induction s) (auto simp: cstr_def)

lemma keyval_get:
  assumes "list_all header_ok hs" "0 \<notin> set (bytes_of key)"
  shows "\<exists>r. http_keyval_get (map keyval hs) (bytes_of key) = Some (header_value hs key, r)"
  using assms(1)
proof (induction hs)
  case (Cons h hs)
  obtain k v where h: "h = (k, v)" by force
  have k: "cstr (kept k) = kept k"
    using Cons.prems name_char by (intro cstr_whole) (auto simp: h header_ok_def name_ok_def kept_def)
  from Cons obtain r where "http_keyval_get (map keyval hs) (bytes_of key) = Some (header_value hs key, r)" by auto
  then show ?case by (auto simp: h keyval_def header_value_def k cstr_whole [OF assms(2)])
qed (simp add: header_value_def)

text \<open>After the start line: the rest of a request or a response, and what is read from the headers.\<close>

definition finished :: "http_header \<Rightarrow> (byte list \<times> byte list) list \<Rightarrow> int \<Rightarrow> http_header" where
  "finished http hs n =
     (let clen = (case header_value hs ''content-length'' of None \<Rightarrow> 0
                  | Some s \<Rightarrow> word_of_int (fst (strtoul (cstr s) 0)))
      in http\<lparr>h_headers := map keyval hs, h_header_len := word_of_int n, h_total_len := word_of_int n + clen,
           h_content_ptr := Some n, h_content_len := clen, h_content_type := header_value hs ''content-type''\<rparr>)"

lemma headers_run:
  assumes "header_at m p http [] st" "list_all header_ok hs" "at_mem m p (concat (map header_line hs) @ [10])"
  shows "\<exists>st'. runs m p (concat (map header_line hs) @ [10]) st st' \<and>
    ps_http st' = http\<lparr>h_headers := map keyval hs\<rparr> \<and> ps_state st' = HTTP_STATE_DONE"
proof -
  let ?l = "concat (map header_line hs)"
  have m: "at_mem m p ?l" "rd8 m (p + int (length ?l)) = Some 10"
    using assms(3) at_mem_append [of m p ?l "[10]"] at_mem_Cons [of m "p + int (length ?l)" 10 "[]"] by blast+
  from header_lines_run [OF assms(1,2) m(1)] obtain st1 where
    1: "runs m p ?l st st1" "header_at m (p + int (length ?l)) http hs st1" by auto
  let ?st1 = "count_line (p + int (length ?l)) 10 st1"
  let ?st2 = "?st1\<lparr>ps_http := http\<lparr>h_headers := map keyval hs\<rparr>, ps_state := HTTP_STATE_DONE\<rparr>"
  have s: "ps_state st1 = HTTP_STATE_HEADER" using 1(2) by (simp add: header_at_def)
  have h: "(ps_http st1)\<lparr>h_headers := x\<rparr> = http\<lparr>h_headers := x\<rparr>" for x
    using 1(2) by (auto simp: header_at_def split: if_splits)
  have "header_at m (p + int (length ?l)) http hs ?st1" using 1(2) by (simp add: header_at_def count_line_def)
  then have "header_at m (p + int (length ?l)) http hs
      (st1\<lparr>ps_line := ps_line st1 + 1, ps_line_ptr := p + int (length ?l)\<rparr>)" by (simp add: count_line_def)
  note f = header_finish [OF this, simplified]
  have "parse_step m (p + int (length ?l)) st1 = Some ?st2"
  proof (cases "h_headers (ps_http st1) = []")
    case True
    then show ?thesis using m(2) s f by (simp add: parse_step_def count_line_def parse_visit_def Let_def h)
  next
    case False
    with f obtain v where "get_word m (p + int (length ?l))
        (st1\<lparr>ps_line := ps_line st1 + 1, ps_line_ptr := p + int (length ?l)\<rparr>) = Some v"
      "set_last_val v (h_headers (ps_http st1)) = map keyval hs" by (auto simp: option_bind_Some)
    with False show ?thesis using m(2) s by (simp add: parse_step_def count_line_def parse_visit_def Let_def h)
  qed
  from runs_one [OF _ this, of 10] have "runs m (p + int (length ?l)) [10] st1 ?st2" using s by (simp add: live_def)
  from runs_then [OF 1(1) this refl refl] show ?thesis by (intro exI [of _ ?st2]) simp
qed

text \<open>
  A message: a start line that leads to the first header line, the header lines, the empty line, and
  anything behind it.
\<close>

definition message_at :: "mem \<Rightarrow> byte list \<Rightarrow> (byte list \<times> byte list) list \<Rightarrow> http_header \<Rightarrow> nat \<Rightarrow> nat \<Rightarrow> bool" where
  "message_at m line hs http pool n \<longleftrightarrow> list_all header_ok hs \<and>
     (\<exists>body. m = line @ (concat (map header_line hs) @ [10]) @ body) \<and>
     n = length line + length (concat (map header_line hs)) + 1 \<and>
     (\<exists>st. runs m 0 line (parse_start (http_zero\<lparr>h_pool := Some pool\<rparr>)) st \<and>
       header_at m (int (length line)) http [] st)"

lemma message_loop:
  assumes "message_at m line hs http pool n"
  shows "\<exists>st'. parse_loop m 0 n (parse_start (http_zero\<lparr>h_pool := Some pool\<rparr>)) = Some (int n, st') \<and>
    ps_http st' = http\<lparr>h_headers := map keyval hs\<rparr> \<and> ps_state st' = HTTP_STATE_DONE"
proof -
  let ?r = "concat (map header_line hs) @ [10]" and ?start = "parse_start (http_zero\<lparr>h_pool := Some pool\<rparr>)"
  obtain st body where hs: "list_all header_ok hs" and m: "m = line @ ?r @ body"
    and n: "n = length line + length (concat (map header_line hs)) + 1"
    and line: "runs m 0 line ?start st" "header_at m (int (length line)) http [] st"
    using assms unfolding message_at_def by blast
  have "at_mem m (int (length line)) ?r" unfolding at_mem_def m by (metis of_nat_0_le_iff)
  from headers_run [OF line(2) hs this] obtain st' where
    st': "runs m (int (length line)) ?r st st'" "ps_http st' = http\<lparr>h_headers := map keyval hs\<rparr>"
      "ps_state st' = HTTP_STATE_DONE" by blast
  have "runs m 0 (line @ ?r) ?start st'" by (rule runs_then [OF line(1) st'(1)]) simp_all
  then have "parse_loop m 0 (length (line @ ?r) + 0) ?start = parse_loop m (0 + int (length (line @ ?r))) 0 st'"
    unfolding runs_def by blast
  then have "parse_loop m 0 n ?start = Some (int n, st')" by (simp add: n add.assoc)
  with st' show ?thesis by blast
qed

lemma message_complete:
  assumes m: "message_at m line hs http pool n" and http: "h_pool h = Some pool" and len: "n \<le> len"
  shows "http_header_parse h m len = Some (finished http hs (int n), 1)"
proof -
  let ?start = "parse_start (http_zero\<lparr>h_pool := Some pool\<rparr>)"
  from message_loop [OF m] obtain st' where st': "parse_loop m 0 n ?start = Some (int n, st')"
    "ps_http st' = http\<lparr>h_headers := map keyval hs\<rparr>" "ps_state st' = HTTP_STATE_DONE" by blast
  have stop: "parse_loop m p k st' = Some (p, st')" for p k using st'(3) by (simp add: parse_loop_stopped live_def)
  have loop: "parse_loop m 0 len ?start = Some (int n, st')"
    using parse_loop_add [of m 0 n "len - n" ?start] len by (simp add: st' stop)
  have hs: "list_all header_ok hs" using m by (simp add: message_at_def)
  have z: "0 \<notin> set (bytes_of ''content-length'')" "0 \<notin> set (bytes_of ''content-type'')" by code_simp+
  from keyval_get [OF hs z(1)] keyval_get [OF hs z(2)] obtain r1 r2 where
    "http_keyval_get (map keyval hs) (bytes_of ''content-length'') = Some (header_value hs ''content-length'', r1)"
    "http_keyval_get (map keyval hs) (bytes_of ''content-type'') = Some (header_value hs ''content-type'', r2)" by blast
  then show ?thesis
    using st' http loop by (simp add: http_header_parse_def http_header_clear_def finished_def Let_def)
qed

lemma incomplete_if_live:
  assumes "h_pool h = Some pool" "live st"
    "parse_loop m 0 j (parse_start (http_zero\<lparr>h_pool := Some pool\<rparr>)) = Some (p, st)"
  shows "http_header_parse h m j = Some (http_zero\<lparr>h_pool := Some pool\<rparr>, 0)"
proof -
  from parse_loop_pool [OF assms(3)] have "h_pool (ps_http st) = Some pool" by (simp add: parse_start_def)
  then show ?thesis using assms by (simp add: http_header_parse_def http_header_clear_def live_def)
qed

lemma message_live:
  assumes m: "message_at m line hs http pool n" and j: "j < n"
  shows "\<exists>st. parse_loop m 0 j (parse_start (http_zero\<lparr>h_pool := Some pool\<rparr>)) = Some (int j, st) \<and> live st"
proof -
  let ?start = "parse_start (http_zero\<lparr>h_pool := Some pool\<rparr>)"
  from message_loop [OF m] obtain st' where loop: "parse_loop m 0 n ?start = Some (int n, st')" by blast
  have "parse_loop m 0 n ?start = do { (p', st') \<leftarrow> parse_loop m 0 j ?start; parse_loop m p' (n - j) st' }"
    using parse_loop_add [of m 0 j "n - j" ?start] j by simp
  with loop obtain p' st1 where r: "parse_loop m 0 j ?start = Some (p', st1)"
    and e: "parse_loop m p' (n - j) st1 = Some (int n, st')" by (auto simp: option_bind_Some)
  have "live st1"
  proof (rule ccontr)
    assume "\<not> live st1"
    with e have "p' = int n" by (simp add: parse_loop_stopped)
    with parse_loop_ptr [OF r] j show False by simp
  qed
  with parse_loop_ptr [OF r] r show ?thesis by simp
qed

lemma message_incomplete:
  assumes "message_at m line hs http pool n" "h_pool h = Some pool" "j < n"
  shows "http_header_parse h m j = Some (http_zero\<lparr>h_pool := Some pool\<rparr>, 0)"
  using message_live [OF assms(1,3)] incomplete_if_live [OF assms(2)] by blast

text \<open>The words of a start line.\<close>

lemma token_hd: "token_ok t \<Longrightarrow> t \<noteq> [] \<and> \<not> is_space (hd t)"
  by (cases t) (auto simp: token_ok_def)

lemma token_passes:
  "token_ok t \<Longrightarrow> s \<in> {HTTP_STATE_OP, HTTP_STATE_URI, HTTP_STATE_VERSION, HTTP_STATE_RESPONSE_CODE} \<Longrightarrow>
   \<forall>c\<in>set t. passes s c"
  by (auto simp: token_ok_def passes_def)

lemma runs_first:
  assumes "ps_state st = HTTP_STATE_INIT" "at_mem m p t" "token_ok t"
  shows "runs m p t st (st\<lparr>ps_state := HTTP_STATE_OP, ps_word := Some p\<rparr>)"
proof -
  let ?st = "st\<lparr>ps_state := HTTP_STATE_OP, ps_word := Some p\<rparr>"
  obtain c u where t: "t = c # u" using token_hd [OF assms(3)] by (cases t) auto
  have c: "rd8 m p = Some c" "at_mem m (p + 1) u" using assms(2) by (auto simp: t at_mem_Cons)
  have p: "\<forall>b\<in>set t. passes HTTP_STATE_OP b" by (rule token_passes [OF assms(3)]) simp
  then have c': "passes HTTP_STATE_OP c" "c \<noteq> 32" "c \<noteq> 9" "c \<noteq> 10" "c \<noteq> 13" by (auto simp: t passes_def)
  have "parse_step m p st = parse_visit m p c ?st"
    using assms(1) c c' by (simp add: parse_step_def count_line_def Let_def)
  also have "\<dots> = Some ?st" using visit_passes [of ?st c m p] c'(1) by (simp add: word_state_def)
  finally have "runs m p [c] st ?st" using assms(1) by (intro runs_one) (simp_all add: live_def)
  moreover have "runs m (p + 1) u ?st ?st"
  proof (rule runs_skip [OF _ c(2)])
    show "live ?st" by (simp add: live_def)
    fix q b assume b: "b \<in> set u" "rd8 m q = Some b"
    with p show "parse_step m q ?st = Some ?st" by (intro step_passes [OF _ _ b(2)]) (auto simp: word_state_def t)
  qed
  ultimately show ?thesis by (rule runs_then) (simp_all add: t)
qed

lemma get_token: "ps_word st = Some w \<Longrightarrow> q = w + int (length t) \<Longrightarrow> token_ok t \<Longrightarrow> at_mem m w t \<Longrightarrow> get_word m q st = Some (kept t)"
  using strdup_value [OF token_value, of t m w "[]"] by (simp add: get_word_def)

lemma request_line_runs:
  assumes t: "token_ok op" "token_ok uri" "token_ok ver" and op: "take 5 (cstr (kept op)) \<noteq> bytes_of ''HTTP/''"
    and http: "h_headers http = []"
    and m: "at_mem m 0 (op @ [32] @ uri @ [32] @ ver @ [10])"
  shows "\<exists>st. runs m 0 (op @ [32] @ uri @ [32] @ ver @ [10]) (parse_start http) st \<and>
    header_at m (int (length (op @ [32] @ uri @ [32] @ ver @ [10])))
      (http\<lparr>h_op := Some (kept op), h_op_code := op_code_of (kept op), h_uri := Some (kept uri), h_http_version := Some (kept ver)\<rparr>) [] st"
proof -
  let ?a = "int (length op)" and ?start = "parse_start http"
  let ?b = "?a + 1 + int (length uri)"
  let ?c = "?b + 1 + int (length ver)"
  let ?http1 = "http\<lparr>h_op := Some (kept op), h_op_code := op_code_of (kept op)\<rparr>"
  let ?http2 = "?http1\<lparr>h_uri := Some (kept uri)\<rparr>"
  let ?http3 = "?http2\<lparr>h_http_version := Some (kept ver)\<rparr>"
  let ?s1 = "?start\<lparr>ps_state := HTTP_STATE_OP, ps_word := Some 0\<rparr>"
  let ?s2 = "go_space HTTP_STATE_URI (?s1\<lparr>ps_http := ?http1\<rparr>)"
  let ?s3 = "?s2\<lparr>ps_state := HTTP_STATE_URI, ps_word := Some (?a + 1)\<rparr>"
  let ?s4 = "go_space HTTP_STATE_VERSION (?s3\<lparr>ps_http := ?http2\<rparr>)"
  let ?s5 = "?s4\<lparr>ps_state := HTTP_STATE_VERSION, ps_word := Some (?b + 1)\<rparr>"
  let ?s6 = "(count_line ?c 10 ?s5)\<lparr>ps_http := ?http3, ps_state := HTTP_STATE_HEADER\<rparr>"
  have m: "at_mem m 0 op" "rd8 m ?a = Some 32" "at_mem m (?a + 1) uri" "rd8 m ?b = Some 32"
    "at_mem m (?b + 1) ver" "rd8 m ?c = Some 10"
    using m by (auto simp: at_mem_append at_mem_Cons add.assoc)
  have "parse_step m ?a ?s1 = Some ?s2"
    using get_token [OF _ _ t(1) m(1), of ?s1 ?a] m(2) op
    by (simp add: parse_step_def parse_visit_def count_line_def Let_def parse_start_def)
  then have r: "runs m 0 (op @ [32]) ?start ?s2"
    by (intro runs_then [OF runs_first [OF _ m(1) t(1)] runs_one]) (simp_all add: live_def parse_start_def)
  have "runs m (?a + 1) uri ?s2 ?s3"
    using runs_word [OF _ _ m(3), of ?s2] token_hd [OF t(2)] token_passes [OF t(2)]
    by (simp add: go_space_def word_state_def)
  from runs_then [OF r this] have r: "runs m 0 (op @ [32] @ uri) ?start ?s3" by simp
  have "parse_step m ?b ?s3 = Some ?s4"
    using get_token [OF _ _ t(2) m(3), of ?s3 ?b] m(4)
    by (simp add: parse_step_def parse_visit_def count_line_def Let_def go_space_def)
  from runs_then [OF r runs_one [OF _ this, of 32]] have r: "runs m 0 (op @ [32] @ uri @ [32]) ?start ?s4"
    by (simp add: live_def)
  have "runs m (?b + 1) ver ?s4 ?s5"
    using runs_word [OF _ _ m(5), of ?s4] token_hd [OF t(3)] token_passes [OF t(3)]
    by (simp add: go_space_def word_state_def)
  from runs_then [OF r this] have r: "runs m 0 (op @ [32] @ uri @ [32] @ ver) ?start ?s5" by simp
  have "get_word m ?c (count_line ?c 10 ?s5) = Some (kept ver)"
    by (rule get_token [OF _ _ t(3) m(5)]) (simp_all add: count_line_def)
  then have "parse_step m ?c ?s5 = Some ?s6"
    using m(6) by (simp add: parse_step_def parse_visit_def count_line_def Let_def go_space_def)
  from runs_then [OF r runs_one [OF _ this, of 10]]
  have "runs m 0 (op @ [32] @ uri @ [32] @ ver @ [10]) ?start ?s6" by (simp add: live_def)
  moreover have "header_at m (int (length (op @ [32] @ uri @ [32] @ ver @ [10]))) ?http3 [] ?s6"
    using http by (simp add: header_at_def)
  ultimately show ?thesis by auto
qed

definition request_header ::
    "nat \<Rightarrow> byte list \<Rightarrow> byte list \<Rightarrow> byte list \<Rightarrow> http_header" where
  "request_header pool op uri ver =
     http_zero\<lparr>h_pool := Some pool, h_op := Some (kept op), h_op_code := op_code_of (kept op), h_uri := Some (kept uri),
       h_http_version := Some (kept ver)\<rparr>"

lemma request_message:
  assumes "token_ok op" "token_ok uri" "token_ok ver" "take 5 (cstr (kept op)) \<noteq> bytes_of ''HTTP/''" "list_all header_ok hs"
  shows "message_at (request_text op uri ver hs @ body) (op @ [32] @ uri @ [32] @ ver @ [10]) hs
    (request_header pool op uri ver) pool (length (request_text op uri ver hs))"
proof -
  let ?line = "op @ [32] @ uri @ [32] @ ver @ [10]" and ?r = "concat (map header_line hs) @ [10]"
  let ?m = "request_text op uri ver hs @ body"
  have t: "request_text op uri ver hs = ?line @ ?r" by (simp add: request_text_def)
  have "at_mem ?m 0 ?line" unfolding at_mem_def t by (intro conjI exI [of _ "[]"] exI [of _ "?r @ body"]) simp_all
  from request_line_runs [OF assms(1-4) _ this, of "http_zero\<lparr>h_pool := Some pool\<rparr>"]
  obtain st where st: "runs ?m 0 ?line (parse_start (http_zero\<lparr>h_pool := Some pool\<rparr>)) st"
    "header_at ?m (int (length ?line)) (request_header pool op uri ver) [] st"
    by (auto simp: http_zero_def request_header_def)
  have "?m = ?line @ ?r @ body" by (simp add: t)
  moreover have "length (request_text op uri ver hs) = length ?line + length (concat (map header_line hs)) + 1"
    by (simp add: t)
  ultimately show ?thesis unfolding message_at_def using assms(5) st by blast
qed


text \<open>
  A request that has not arrived completely is not an error: while the parser is given fewer bytes than the
  start line, the headers and the empty line have, it returns 0 and leaves the header empty, wherever the data
  is cut.
\<close>

theorem request_incomplete:
  assumes "token_ok op" "token_ok uri" "token_ok ver" "take 5 (cstr (kept op)) \<noteq> bytes_of ''HTTP/''"
    and "list_all header_ok hs" and "h_pool h = Some pool" and "j < length (request_text op uri ver hs)"
  shows "http_header_parse h (request_text op uri ver hs @ body) j = Some (http_zero\<lparr>h_pool := Some pool\<rparr>, 0)"
  by (rule message_incomplete [OF request_message [OF assms(1-5)] assms(6,7)])

definition sample_headers :: "(byte list \<times> byte list) list" where
  "sample_headers = [(bytes_of ''Host'', bytes_of ''a.org''), (bytes_of ''CONTENT-Length'', bytes_of ''0x10'')]"


lemma request_incomplete_witness:
  "http_header_parse (http_zero\<lparr>h_pool := Some 7\<rparr>)
     (request_text (bytes_of ''PUT'') (bytes_of ''/'') (bytes_of ''HTTP/1.1'') sample_headers @ []) 40 =
   Some (http_zero\<lparr>h_pool := Some 7\<rparr>, 0)"
  by (rule request_incomplete [where op = "bytes_of ''PUT''" and uri = "bytes_of ''/''" and ver = "bytes_of ''HTTP/1.1''" and hs = sample_headers]) code_simp+

section \<open>Responses\<close>

definition response_header :: "nat \<Rightarrow> byte list \<Rightarrow> int \<Rightarrow> byte list \<Rightarrow> http_header" where
  "response_header pool ver code msg =
     http_zero\<lparr>h_pool := Some pool, h_op_code := HTTP_OP_RESPONSE, h_response_code := code,
       h_response_message := Some (kept msg), h_http_version := Some (kept ver)\<rparr>"

text \<open>Three digits, the first of them not zero.\<close>

definition code_ok :: "byte list \<Rightarrow> bool" where
  "code_ok code \<longleftrightarrow> length code = 3 \<and> list_all is_digit code \<and> hd code \<noteq> 48"

definition code_value :: "byte list \<Rightarrow> int" where
  "code_value code = foldl (\<lambda>v d. v * 10 + (uint d - 48)) 0 code"

lemma digit_facts: "is_digit d \<Longrightarrow> digit_val d = uint d - 48 \<and> digit_val d < 10 \<and> \<not> is_space d \<and>
    d \<noteq> 10 \<and> d \<noteq> 13 \<and> d \<noteq> 32 \<and> d \<noteq> 9 \<and> d \<noteq> 43 \<and> d \<noteq> 45 \<and> d \<noteq> 120 \<and> d \<noteq> 88 \<and> 48 \<le> uint d \<and> uint d < 58"
  by (auto simp: is_digit_def digit_val_def is_space_def word_le_def)

lemma strtoul_code:
  assumes "code_ok code"
  shows "strtoul (code @ 32 # rest) 0 = (code_value code, 3)" "0 \<le> code_value code" "code_value code < 1000"
proof -
  obtain a b c where code: "code = [a, b, c]" using assms by (auto simp: code_ok_def length_Suc_conv numeral_3_eq_3)
  have d: "is_digit a" "is_digit b" "is_digit c" and z: "a \<noteq> 48" using assms by (auto simp: code_ok_def code)
  note f = digit_facts [OF d(1)] digit_facts [OF d(2)] digit_facts [OF d(3)]
  have sp: "digit_val 32 = 99" by (simp add: digit_val_def is_digit_def)
  show "strtoul (code @ 32 # rest) 0 = (code_value code, 3)"
    using f z by (simp add: strtoul_def number_base_def code code_value_def sp Let_def)
  show "0 \<le> code_value code" "code_value code < 1000" using f by (simp_all add: code code_value_def)
qed

lemma code_token: "code_ok code \<Longrightarrow> token_ok code"
  using digit_facts by (auto simp: code_ok_def token_ok_def list_all_iff)

lemma code_read:
  assumes "at_mem m w (code @ [32])" "code_ok code"
  shows "strtoul (drop (nat w) m) 0 = (code_value code, 3)" "to_i32 (code_value code) = code_value code"
proof -
  obtain a b where "m = a @ code @ 32 # b" "w = int (length a)" using assms(1) by (auto simp: at_mem_def)
  then have "drop (nat w) m = code @ 32 # b" by simp
  with strtoul_code(1) [OF assms(2)] show "strtoul (drop (nat w) m) 0 = (code_value code, 3)" by simp
  show "to_i32 (code_value code) = code_value code" using strtoul_code(2,3) [OF assms(2)] by (simp add: to_i32_id)
qed

definition response_http :: "http_header \<Rightarrow> byte list \<Rightarrow> http_header" where
  "response_http http ver = http\<lparr>h_http_version := Some (kept ver), h_op := None, h_op_code := HTTP_OP_RESPONSE\<rparr>"

text \<open>The states behind the version, within and behind the code.\<close>

definition version_read :: "http_header \<Rightarrow> byte list \<Rightarrow> parse_state" where
  "version_read http ver = go_space HTTP_STATE_RESPONSE_CODE
     ((parse_start http)\<lparr>ps_state := HTTP_STATE_OP, ps_word := Some 0, ps_http := response_http http ver\<rparr>)"

definition code_begun :: "http_header \<Rightarrow> byte list \<Rightarrow> parse_state" where
  "code_begun http ver = (version_read http ver)\<lparr>ps_state := HTTP_STATE_RESPONSE_CODE, ps_word := Some (int (length ver) + 1)\<rparr>"

definition code_read_state :: "http_header \<Rightarrow> byte list \<Rightarrow> byte list \<Rightarrow> parse_state" where
  "code_read_state http ver code = go_space HTTP_STATE_RESPONSE_MESSAGE
     ((code_begun http ver)\<lparr>ps_http := (response_http http ver)\<lparr>h_response_code := code_value code\<rparr>\<rparr>)"

lemma version_runs:
  assumes "token_ok ver" "take 5 (cstr (kept ver)) = bytes_of ''HTTP/''" "at_mem m 0 (ver @ [32])"
  shows "runs m 0 (ver @ [32]) (parse_start http) (version_read http ver)"
proof -
  have m: "at_mem m 0 ver" "rd8 m (int (length ver)) = Some 32" using assms(3) by (auto simp: at_mem_append at_mem_Cons)
  let ?s1 = "(parse_start http)\<lparr>ps_state := HTTP_STATE_OP, ps_word := Some 0\<rparr>"
  have "parse_step m (int (length ver)) ?s1 = Some (version_read http ver)"
    using get_token [OF _ _ assms(1) m(1), of ?s1 "int (length ver)"] m(2) assms(2)
    by (simp add: parse_step_def parse_visit_def count_line_def Let_def parse_start_def version_read_def response_http_def go_space_def)
  then show ?thesis
    by (intro runs_then [OF runs_first [OF _ m(1) assms(1)] runs_one]) (simp_all add: live_def parse_start_def)
qed

lemma part_code_runs:
  assumes "token_ok code" "at_mem m (int (length ver) + 1) code"
  shows "runs m (int (length ver) + 1) code (version_read http ver) (code_begun http ver)"
  using runs_word [OF _ _ assms(2), of "version_read http ver"] token_hd [OF assms(1)] token_passes [OF assms(1)]
  by (simp add: version_read_def code_begun_def go_space_def word_state_def)

lemma code_runs:
  assumes t: "token_ok ver" "take 5 (cstr (kept ver)) = bytes_of ''HTTP/''" "code_ok code"
    and m: "at_mem m 0 (ver @ [32] @ code @ [32])"
  shows "runs m 0 (ver @ [32] @ code @ [32]) (parse_start http) (code_read_state http ver code)"
proof -
  let ?b = "int (length ver) + 1 + int (length code)"
  have "at_mem m 0 ((ver @ [32]) @ (code @ [32]))" using m by simp
  then have v: "at_mem m 0 (ver @ [32])" "at_mem m (int (length ver) + 1) (code @ [32])"
    unfolding at_mem_append [of m 0 "ver @ [32]"] by (simp_all add: add.commute)
  then have c: "at_mem m (int (length ver) + 1) code" "rd8 m ?b = Some 32" by (auto simp: at_mem_append at_mem_Cons)
  have r: "runs m 0 (ver @ [32] @ code) (parse_start http) (code_begun http ver)"
    by (rule runs_then [OF version_runs [OF t(1,2) v(1)] part_code_runs [OF code_token [OF t(3)] c(1)]]) simp_all
  have "parse_step m ?b (code_begun http ver) = Some (code_read_state http ver code)"
    using code_read [OF v(2) t(3)] c(2)
    by (simp add: parse_step_def parse_visit_def count_line_def Let_def go_space_def code_begun_def version_read_def
      code_read_state_def)
  from runs_then [OF r runs_one [OF _ this, of 32]] show ?thesis by (simp add: live_def code_begun_def)
qed

lemma response_line_runs:
  assumes t: "token_ok ver" "take 5 (cstr (kept ver)) = bytes_of ''HTTP/''" "code_ok code" "value_ok msg"
    and http: "h_headers http = []" "h_op http = None"
    and m: "at_mem m 0 (ver @ [32] @ code @ [32] @ msg @ [10])"
  shows "\<exists>st. runs m 0 (ver @ [32] @ code @ [32] @ msg @ [10]) (parse_start http) st \<and>
    header_at m (int (length (ver @ [32] @ code @ [32] @ msg @ [10])))
      (http\<lparr>h_http_version := Some (kept ver), h_op_code := HTTP_OP_RESPONSE, h_response_code := code_value code,
        h_response_message := Some (kept msg)\<rparr>) [] st"
proof -
  let ?b = "int (length ver) + 1 + int (length code)"
  let ?c = "?b + 1 + int (length msg)"
  let ?http3 = "(response_http http ver)\<lparr>h_response_code := code_value code, h_response_message := Some (kept msg)\<rparr>"
  let ?s4 = "code_read_state http ver code"
  let ?s5 = "?s4\<lparr>ps_state := HTTP_STATE_RESPONSE_MESSAGE, ps_word := Some (?b + 1)\<rparr>"
  let ?s6 = "(count_line ?c 10 ?s5)\<lparr>ps_http := ?http3, ps_state := HTTP_STATE_HEADER\<rparr>"
  have "at_mem m 0 ((ver @ [32] @ code @ [32]) @ msg @ [10])" using m by simp
  then have v: "at_mem m 0 (ver @ [32] @ code @ [32])" "at_mem m (?b + 1) (msg @ [10])"
    unfolding at_mem_append [of m 0 "ver @ [32] @ code @ [32]"] by (simp_all add: algebra_simps)
  then have c: "at_mem m (?b + 1) msg" "rd8 m ?c = Some 10" by (auto simp: at_mem_append at_mem_Cons)
  note r = code_runs [OF t(1-3) v(1)]
  have "runs m (?b + 1) msg ?s4 ?s5"
    using runs_word [OF _ _ c(1), of ?s4] t(4)
    by (auto simp: code_read_state_def go_space_def word_state_def passes_def value_ok_def)
  from runs_then [OF r this, of "ver @ [32] @ code @ [32] @ msg"]
  have r: "runs m 0 (ver @ [32] @ code @ [32] @ msg) (parse_start http) ?s5" by simp
  have "get_word m ?c (count_line ?c 10 ?s5) = Some (kept msg)"
    using strdup_value [OF t(4), of m "?b + 1" "[]"] c(1) by (simp add: get_word_def count_line_def)
  then have "parse_step m ?c ?s5 = Some ?s6"
    using c(2) by (simp add: parse_step_def parse_visit_def count_line_def Let_def go_space_def code_read_state_def code_begun_def)
  from runs_then [OF r runs_one [OF _ this, of 10]]
  have "runs m 0 (ver @ [32] @ code @ [32] @ msg @ [10]) (parse_start http) ?s6" by (simp add: live_def)
  moreover have "header_at m (int (length (ver @ [32] @ code @ [32] @ msg @ [10]))) ?http3 [] ?s6"
    using http by (simp add: header_at_def response_http_def)
  moreover have "?http3 = http\<lparr>h_http_version := Some (kept ver), h_op_code := HTTP_OP_RESPONSE,
      h_response_code := code_value code, h_response_message := Some (kept msg)\<rparr>" using http by (simp add: response_http_def)
  ultimately show ?thesis by metis
qed

lemma response_message:
  assumes "token_ok ver" "take 5 (cstr (kept ver)) = bytes_of ''HTTP/''" "code_ok code" "value_ok msg"
    and hs: "list_all header_ok hs"
  shows "message_at (response_text ver code msg hs @ body) (ver @ [32] @ code @ [32] @ msg @ [10]) hs
    (response_header pool ver (code_value code) msg) pool (length (response_text ver code msg hs))"
proof -
  let ?line = "ver @ [32] @ code @ [32] @ msg @ [10]" and ?r = "concat (map header_line hs) @ [10]"
  let ?m = "response_text ver code msg hs @ body"
  have t: "response_text ver code msg hs = ?line @ ?r" by (simp add: response_text_def)
  have "at_mem ?m 0 ?line" unfolding at_mem_def t by (intro conjI exI [of _ "[]"] exI [of _ "?r @ body"]) simp_all
  from response_line_runs [OF assms(1-4) _ _ this, of "http_zero\<lparr>h_pool := Some pool\<rparr>"]
  obtain st where st: "runs ?m 0 ?line (parse_start (http_zero\<lparr>h_pool := Some pool\<rparr>)) st"
    "header_at ?m (int (length ?line)) (response_header pool ver (code_value code) msg) [] st"
    by (auto simp: http_zero_def response_header_def)
  have "?m = ?line @ ?r @ body" by (simp add: t)
  moreover have "length (response_text ver code msg hs) = length ?line + length (concat (map header_line hs)) + 1"
    by (simp add: t)
  ultimately show ?thesis unfolding message_at_def using hs st by blast
qed

text \<open>
  A response is read back in the same way: version, a code of three digits that does not start with zero, a
  message, the headers and the content length; the operation is the null pointer.
\<close>

theorem response_parsed:
  assumes "token_ok ver" "take 5 (cstr (kept ver)) = bytes_of ''HTTP/''" "code_ok code" "value_ok msg"
    and hs: "list_all header_ok hs" and "h_pool h = Some pool" and "length (response_text ver code msg hs) \<le> len"
  shows "http_header_parse h (response_text ver code msg hs @ body) len =
    Some (finished (response_header pool ver (code_value code) msg) hs (int (length (response_text ver code msg hs))), 1)"
  by (rule message_complete [OF response_message [OF assms(1-5)] assms(6,7)])

lemma response_parsed_witness:
  "http_header_parse (http_zero\<lparr>h_pool := Some 7\<rparr>)
     (response_text (bytes_of ''HTTP/1.0'') (bytes_of ''404'') (bytes_of ''Not Found'') sample_headers @ []) 66 =
   Some (finished (response_header 7 (bytes_of ''HTTP/1.0'') (code_value (bytes_of ''404'')) (bytes_of ''Not Found''))
     sample_headers (int (length (response_text (bytes_of ''HTTP/1.0'') (bytes_of ''404'') (bytes_of ''Not Found'') sample_headers))), 1)"
  by (rule response_parsed) code_simp+

end
