(* ===== verification/HttpCgi.thy ===== *)
theory HttpCgi
  imports HttpProps
begin

text \<open>CGI arguments and URLs.\<close>

section \<open>Arguments\<close>

text \<open>The usual encoding: letters, digits, hyphen and underscore as they are, every other byte as \<open>%\<close> and two digits.\<close>

definition quote_byte :: "byte \<Rightarrow> byte list" where
  "quote_byte c = (if is_alnum c \<or> c = 45 \<or> c = 95 then [c] else [37, hex_digit (uint c div 16), hex_digit (uint c mod 16)])"

definition quoted :: "byte list \<Rightarrow> byte list" where
  "quoted v = concat (map quote_byte v)"

fun args_text :: "(byte list \<times> byte list) list \<Rightarrow> byte list" where
  "args_text [] = []"
| "args_text [kv] = quoted (fst kv) @ [61] @ quoted (snd kv)"
| "args_text (kv # kvs) = quoted (fst kv) @ [61] @ quoted (snd kv) @ [38] @ args_text kvs"

lemma hex_digit_facts:
  assumes "0 \<le> n" "n < 16"
  shows "digit_val (hex_digit n) = n" "is_alnum (hex_digit n)" "hex_digit n \<noteq> 43" "hex_digit n \<noteq> 45" "\<not> is_space (hex_digit n)"
proof -
  have "n \<in> set [0..15]" using assms by simp
  moreover have "\<forall>n\<in>set [0..15]. digit_val (hex_digit n) = n \<and> is_alnum (hex_digit n) \<and> hex_digit n \<noteq> 43 \<and>
      hex_digit n \<noteq> 45 \<and> \<not> is_space (hex_digit n)" by code_simp
  ultimately show "digit_val (hex_digit n) = n" "is_alnum (hex_digit n)" "hex_digit n \<noteq> 43" "hex_digit n \<noteq> 45"
    "\<not> is_space (hex_digit n)" by blast+
qed

lemma byte_range: "0 \<le> uint (c :: byte)" "uint (c :: byte) < 256"
  using uint_lt2p [of c] by simp_all

lemma nibble_range:
  "0 \<le> uint (c :: byte) div 16" "uint (c :: byte) div 16 < 16" "0 \<le> uint c mod 16" "uint c mod 16 < 16"
  using byte_range [of c] by (simp_all add: pos_imp_zdiv_nonneg_iff)

lemma strtoul_hex: "strtoul [hex_digit (uint c div 16), hex_digit (uint c mod 16)] 16 = (uint (c :: byte), 2)"
proof -
  note f = hex_digit_facts [OF nibble_range(1,2) [of c]] hex_digit_facts [OF nibble_range(3,4) [of c]]
  have "uint c div 16 * 16 + uint c mod 16 = uint c" by simp
  then show ?thesis using f byte_range [of c] by (simp add: strtoul_def number_base_def Let_def)
qed

lemma dec_quoted: "length v \<le> room \<Longrightarrow> cgi_dec_loop (quoted v) room = v"
proof (induction v arbitrary: room)
  case Nil
  then show ?case by (cases room) (simp_all add: quoted_def)
next
  case (Cons c v)
  then obtain r where r: "room = Suc r" "length v \<le> r" by (cases room) auto
  have a: "is_alnum c \<or> c = 45 \<or> c = 95 \<Longrightarrow> c \<noteq> 37" by (auto simp: is_alnum_def is_digit_def)
  have w: "word_of_int (uint c AND 255) = c" 
  proof -
    have "uint c AND mask 8 = uint c" unfolding take_bit_eq_mask [symmetric] using byte_range [of c]
      by (intro take_bit_int_eq_self) simp_all
    then show ?thesis by (simp add: mask_eq_exp_minus_1)
  qed
  have q: "quoted (c # v) = quote_byte c @ quoted v" by (simp add: quoted_def)
  show ?case using Cons.IH [OF r(2)] a w by (auto simp: q r(1) quote_byte_def strtoul_hex)
qed

lemma quoted_length: "length v \<le> length (quoted v)"
  by (induction v) (auto simp: quoted_def quote_byte_def)

lemma quoted_chars: "c \<in> set (quoted v) \<Longrightarrow> c \<noteq> 38 \<and> c \<noteq> 61 \<and> c \<noteq> 0 \<and> c \<noteq> 10"
proof -
  have a: "is_alnum c \<Longrightarrow> c \<noteq> 38 \<and> c \<noteq> 61 \<and> c \<noteq> 0 \<and> c \<noteq> 10" for c
    by (auto simp: is_alnum_def is_digit_def)
  have h: "is_alnum (hex_digit (uint x div 16))" "is_alnum (hex_digit (uint x mod 16))" for x :: byte
    by (intro hex_digit_facts nibble_range)+
  assume "c \<in> set (quoted v)"
  then show ?thesis using a h by (auto simp: quoted_def quote_byte_def split: if_splits)
qed

lemma quoted_nonempty: "v \<noteq> [] \<Longrightarrow> quoted v \<noteq> []"
  using quoted_length [of v] by (cases v) auto

lemma decode_quoted:
  assumes "at_mem m w (quoted v)" "length (quoted v) < n"
  shows "decode_word m w (w + int (length (quoted v))) n = Some v"
  using slice_at_mem [OF assms(1)] assms(2) quoted_length [of v]
  by (simp add: decode_word_def http_cgi_dec_def dec_quoted Let_def)

lemma args_scan:
  assumes "at_mem m src xs" "\<forall>c\<in>set xs. c \<noteq> 38 \<and> c \<noteq> 61" "src + int (length xs) \<le> int n"
  shows "args_loop m n src st = args_loop m n (src + int (length xs)) st"
  using assms
proof (induction xs arbitrary: src)
  case (Cons c xs)
  then have "args_loop m n src st = args_loop m n (src + 1) st"
    by (subst args_loop.simps) (auto simp: at_mem_Cons)
  also have "\<dots> = args_loop m n (src + 1 + int (length xs)) st"
    using Cons by (intro Cons.IH) (auto simp: at_mem_Cons)
  finally show ?case by (simp add: add.assoc)
qed simp

text \<open>Scanning a word, when the scan begins at its first or its second byte.\<close>

lemma args_word:
  assumes m: "at_mem m p (quoted v)" and v: "v \<noteq> []" and src: "src = p \<or> src = p + 1"
    and n: "p + int (length (quoted v)) \<le> int n"
  shows "args_loop m n src st = args_loop m n (p + int (length (quoted v))) st"
proof -
  obtain c u where q: "quoted v = c # u" using quoted_nonempty [OF v] by (cases "quoted v") auto
  have c: "\<forall>c\<in>set (quoted v). c \<noteq> 38 \<and> c \<noteq> 61" using quoted_chars by blast
  from src show ?thesis
  proof
    assume "src = p"
    with args_scan [OF m c n] show ?thesis by simp
  next
    assume s: "src = p + 1"
    have "at_mem m (p + 1) u" using m by (simp add: q at_mem_Cons)
    from args_scan [OF this, of n st] c n show ?thesis by (simp add: q s add.assoc)
  qed
qed

lemma at_mem_prefix: "at_mem m p (xs @ c # ys) \<Longrightarrow> at_mem m p (xs @ [c])"
  using at_mem_append [of m p "xs @ [c]" ys] by simp

definition arg_node :: "byte list \<times> byte list \<Rightarrow> http_keyval" where
  "arg_node = (\<lambda>(k, v). \<lparr>kv_key = Some k, kv_val = Some v\<rparr>)"

text \<open>From the first byte of a pair to the second byte of its value.\<close>

definition pair_start :: "int \<Rightarrow> int \<Rightarrow> http_keyval list \<Rightarrow> args_state \<Rightarrow> bool" where
  "pair_start p src ns st \<longleftrightarrow> (src = p \<or> src = p + 1) \<and> st = \<lparr>as_nodes = ns, as_node = keyval_zero, as_to_val = False, as_word = p\<rparr>"

lemma args_key:
  assumes m: "at_mem m p (quoted k @ [61])" and k: "k \<noteq> []" and st: "pair_start p src ns st"
    and n: "0 \<le> p" "p + int (length (quoted k)) < int n"
  shows "args_loop m n src st = args_loop m n (p + int (length (quoted k)) + 2)
    \<lparr>as_nodes = ns, as_node = \<lparr>kv_key = Some k, kv_val = None\<rparr>, as_to_val = True,
     as_word = p + int (length (quoted k)) + 1\<rparr>"
proof -
  have mk: "at_mem m p (quoted k)" "rd8 m (p + int (length (quoted k))) = Some 61"
    using m by (auto simp: at_mem_append at_mem_Cons)
  have "args_loop m n src st = args_loop m n (p + int (length (quoted k))) st"
    using st n by (intro args_word mk k) (auto simp: pair_start_def)
  also have "decode_word m p (p + int (length (quoted k))) n = Some k"
    using n by (intro decode_quoted mk) simp
  then have "args_loop m n (p + int (length (quoted k))) st = args_loop m n (p + int (length (quoted k)) + 2)
    \<lparr>as_nodes = ns, as_node = \<lparr>kv_key = Some k, kv_val = None\<rparr>, as_to_val = True,
     as_word = p + int (length (quoted k)) + 1\<rparr>"
    using st mk(2) n by (subst args_loop.simps) (simp add: pair_start_def store_word_def keyval_zero_def)
  finally show ?thesis .
qed

lemma args_value:
  fixes n :: nat
  assumes m: "at_mem m w (quoted v)" and v: "v \<noteq> []"
    and n: "0 < w" "w + int (length (quoted v)) \<le> int n"
    and st: "st = \<lparr>as_nodes = ns, as_node = \<lparr>kv_key = Some k, kv_val = None\<rparr>, as_to_val = True, as_word = w\<rparr>"
  shows "args_loop m n (w + 1) st = args_loop m n (w + int (length (quoted v))) st"
    and "store_word v st = \<lparr>as_nodes = ns, as_node = arg_node (k, v), as_to_val = True, as_word = w\<rparr>"
    and "decode_word m w (w + int (length (quoted v))) n = Some v"
  using args_word [OF m v _ n(2), of "w + 1" st] decode_quoted [OF m, of n] n
  by (simp_all add: st store_word_def arg_node_def)

lemma pair_then_more:
  assumes m: "at_mem m p (quoted k @ [61] @ quoted v @ [38])" and kv: "k \<noteq> []" "v \<noteq> []"
    and st: "pair_start p src ns st" and p: "0 \<le> p"
    and n: "p + int (length (quoted k @ [61] @ quoted v @ [38])) \<le> int n" and q: "q = p + int (length (quoted k @ [61] @ quoted v @ [38]))"
  shows "\<exists>st'. args_loop m n src st = args_loop m n (q + 1) st' \<and> pair_start q (q + 1) (ns @ [arg_node (k, v)]) st'"
proof -
  let ?w = "p + int (length (quoted k)) + 1"
  let ?e = "?w + int (length (quoted v))"
  let ?st = "\<lparr>as_nodes = ns, as_node = \<lparr>kv_key = Some k, kv_val = None\<rparr>, as_to_val = True, as_word = ?w\<rparr>"
  let ?st' = "\<lparr>as_nodes = ns @ [arg_node (k, v)], as_node = keyval_zero, as_to_val = False, as_word = q\<rparr>"
  have mk: "at_mem m p (quoted k @ [61])" using m by (intro at_mem_prefix) simp
  have mv: "at_mem m ?w (quoted v)" and e: "rd8 m ?e = Some 38"
    using m by (auto simp: at_mem_append at_mem_Cons algebra_simps)
  have "args_loop m n src st = args_loop m n (?w + 1) ?st"
    using args_key [OF mk kv(1) st p] n by (simp add: add.assoc)
  also have "\<dots> = args_loop m n ?e ?st" by (rule args_value(1) [OF mv kv(2) _ _ refl]) (use p n in simp_all)
  also have "\<dots> = args_loop m n (q + 1) ?st'"
    using args_value(2) [OF mv kv(2) _ _ refl, where n = n and ns = ns and k = k]
      args_value(3) [OF mv kv(2) _ _ refl, where n = n] e p n
    by (subst args_loop.simps) (simp add: q algebra_simps)
  finally show ?thesis by (intro exI [of _ ?st']) (simp add: pair_start_def)
qed

lemma last_pair:
  assumes m: "at_mem m p (quoted k @ [61] @ quoted v)" and kv: "k \<noteq> []" "v \<noteq> []"
    and st: "pair_start p src ns st" and p: "0 \<le> p"
    and n: "int n = p + int (length (quoted k @ [61] @ quoted v))"
  shows "\<exists>st'. args_loop m n src st = Some (int n, st') \<and> as_word st' < int n \<and>
    decode_word m (as_word st') (int n) n = Some v \<and>
    as_nodes (store_word v st') = ns \<and> as_node (store_word v st') = arg_node (k, v)"
proof -
  let ?w = "p + int (length (quoted k)) + 1"
  let ?e = "?w + int (length (quoted v))"
  let ?st = "\<lparr>as_nodes = ns, as_node = \<lparr>kv_key = Some k, kv_val = None\<rparr>, as_to_val = True, as_word = ?w\<rparr>"
  have mk: "at_mem m p (quoted k @ [61])" using m by (intro at_mem_prefix) simp
  have mv: "at_mem m ?w (quoted v)" using m by (auto simp: at_mem_append at_mem_Cons algebra_simps)
  have e: "?e = int n" using n by simp
  note f = args_value(1) [OF mv kv(2) _ _ refl, of n ns k]
    args_value(2) [OF mv kv(2) _ _ refl, where n = n and ns = ns and k = k]
    args_value(3) [OF mv kv(2) _ _ refl, where n = n]
  have "args_loop m n src st = args_loop m n (?w + 1) ?st"
    using args_key [OF mk kv(1) st p] n by (simp add: add.assoc)
  also have "\<dots> = args_loop m n (int n) ?st" using f(1) p e by simp
  also have "\<dots> = Some (int n, ?st)" by (subst args_loop.simps) simp
  finally have "args_loop m n src st = Some (int n, ?st)" .
  moreover have "?w < int n" using e quoted_nonempty [OF kv(2)] by (simp flip: length_greater_0_conv)
  ultimately show ?thesis using f(2,3) p e by (intro exI [of _ ?st]) auto
qed

lemma args_loop_pairs:
  "kvs \<noteq> [] \<Longrightarrow> \<forall>(k, v)\<in>set kvs. k \<noteq> [] \<and> v \<noteq> [] \<Longrightarrow> at_mem m p (args_text kvs) \<Longrightarrow> pair_start p src ns st \<Longrightarrow>
   0 \<le> p \<Longrightarrow> int n = p + int (length (args_text kvs)) \<Longrightarrow>
   \<exists>st' v. args_loop m n src st = Some (int n, st') \<and> as_word st' < int n \<and>
    decode_word m (as_word st') (int n) n = Some v \<and>
    as_nodes (store_word v st') @ [as_node (store_word v st')] = ns @ map arg_node kvs"
proof (induction kvs arbitrary: p src ns st rule: args_text.induct)
  case (2 kv)
  then show ?case using last_pair [of m p "fst kv" "snd kv" src ns st n] by auto
next
  case (3 kv kv2 kvs)
  let ?l = "quoted (fst kv) @ [61] @ quoted (snd kv) @ [38]" and ?t = "args_text (kv2 # kvs)"
  have t: "args_text (kv # kv2 # kvs) = ?l @ ?t" by simp
  have m: "at_mem m p ?l" "at_mem m (p + int (length ?l)) ?t"
    using 3(4) unfolding t at_mem_append [of m p ?l] by blast+
  have n: "int n = p + int (length ?l) + int (length ?t)" using 3(7) unfolding t length_append [of ?l] by simp
  obtain st1 where 1: "args_loop m n src st = args_loop m n (p + int (length ?l) + 1) st1"
    "pair_start (p + int (length ?l)) (p + int (length ?l) + 1) (ns @ [arg_node kv]) st1"
    using pair_then_more [OF m(1) _ _ 3(5,6) _ refl, of n] 3(3) n by (auto split: prod.splits)
  from 3(1) [OF _ _ m(2) 1(2) _ n] 3(3,6) show ?case unfolding 1(1) by auto
qed simp

lemma args_read:
  assumes "kvs \<noteq> []" "\<forall>(k, v)\<in>set kvs. k \<noteq> [] \<and> v \<noteq> []"
  shows "http_cgi_args (args_text kvs @ rest) (int (length (args_text kvs))) = Some (Some (map arg_node kvs))"
proof -
  let ?t = "args_text kvs" and ?st = "\<lparr>as_nodes = [], as_node = keyval_zero, as_to_val = False, as_word = 0\<rparr>"
  have t: "?t \<noteq> []" using assms(1) by (cases kvs rule: args_text.cases) auto
  have m: "at_mem (?t @ rest) 0 ?t" by (auto simp: at_mem_def)
  obtain st' v where "args_loop (?t @ rest) (length ?t) 0 ?st = Some (int (length ?t), st')" "as_word st' < int (length ?t)"
      "decode_word (?t @ rest) (as_word st') (int (length ?t)) (length ?t) = Some v"
      "as_nodes (store_word v st') @ [as_node (store_word v st')] = map arg_node kvs"
    using args_loop_pairs [OF assms m, of 0 "[]" ?st "length ?t"] by (auto simp: pair_start_def)
  with t show ?thesis by (simp add: http_cgi_args_def Let_def)
qed

text \<open>
  C10. Arguments \<open>k=v&k=v\<close> are read back to their keys and values in their order, whatever bytes these have,
  when the separators, the percent sign and other bytes are written as \<open>%\<close> and two hexadecimal digits. No key
  and no value may be empty: the code skips the byte behind every \<open>=\<close> and \<open>&\<close>, so an empty value swallows the
  separator that follows it.
\<close>

theorem args_parsed:
  assumes "kvs \<noteq> []" "\<forall>(k, v)\<in>set kvs. k \<noteq> [] \<and> v \<noteq> []"
  shows "http_cgi_args (args_text kvs @ rest) (int (length (args_text kvs))) = Some (Some (map arg_node kvs))"
  by (rule args_read [OF assms])

lemma args_parsed_witness:
  "http_cgi_args (args_text [(bytes_of ''q'', bytes_of ''a&b''), (bytes_of ''n'', [7])] @ [0])
     (int (length (args_text [(bytes_of ''q'', bytes_of ''a&b''), (bytes_of ''n'', [7])]))) =
   Some (Some (map arg_node [(bytes_of ''q'', bytes_of ''a&b''), (bytes_of ''n'', [7])]))"
  by (rule args_parsed) code_simp+

end
