(* ===== verification/HttpUrl.thy ===== *)
theory HttpUrl
  imports HttpCgi
begin

text \<open>\<open>url_parse\<close> takes a URL apart.\<close>

section \<open>Strings in memory\<close>

lemma string_at_mem:
  assumes "at_mem m p (r @ [0])" "0 \<notin> set r"
  shows "string_at m p = Some r"
proof -
  obtain a b where m: "m = a @ r @ 0 # b" "p = int (length a)" using assms(1) by (auto simp: at_mem_def)
  have "cstr (r @ 0 # b) = r" using assms(2) by (induction r) (auto simp: cstr_def)
  with m show ?thesis by (simp add: string_at_def)
qed

section \<open>Copying\<close>

definition url_copies :: "url_parse_state \<Rightarrow> byte \<Rightarrow> bool" where
  "url_copies st c \<longleftrightarrow> c \<noteq> 0 \<and>
     (case st of
        URL_PARSE_PROTO \<Rightarrow> is_alnum c \<or> c = 95 \<or> c = 45 \<or> c = 46
      | URL_PARSE_HOST \<Rightarrow> is_alnum c \<or> c = 95 \<or> c = 45 \<or> c = 46
      | URL_PARSE_PORT \<Rightarrow> is_digit c
      | URL_PARSE_PATH \<Rightarrow> c \<noteq> 63 \<and> c \<noteq> 37
      | _ \<Rightarrow> False)"

definition url_going :: "url_parser \<Rightarrow> bool" where
  "url_going u \<longleftrightarrow> \<not> up_done u \<and> u_err_code (up_url u) = URL_PARSE_ERR_OK"

lemma url_loop_step:
  "url_step m u = Some u' \<Longrightarrow> url_going u' \<Longrightarrow> url_loop m u = url_loop m u'"
  by (subst url_loop.simps) (simp add: url_stopped_def url_going_def)

lemma url_copy_step:
  assumes "rd8 m (up_strp u) = Some c" "url_copies (up_state u) c" "length (up_buf u) < URL_BUF_SIZE - 1"
  shows "url_step m u = Some (u\<lparr>up_strp := up_strp u + 1, up_buf := up_buf u @ [c]\<rparr>)"
proof -
  have a: "c \<noteq> 58 \<and> c \<noteq> 64 \<and> c \<noteq> 47 \<and> c \<noteq> 37 \<and> c \<noteq> 63" if "is_alnum c \<or> c = 95 \<or> c = 45 \<or> c = 46"
    using that by (auto simp: is_alnum_def is_digit_def)
  have d: "is_digit c \<Longrightarrow> is_alnum c" by (simp add: is_alnum_def)
  show ?thesis
    using assms a d
    by (cases "up_state u")
      (auto simp: url_copies_def url_step_def url_char_buf_def url_parse_char_def url_name_char_def Let_def)
qed

lemma url_copy:
  "at_mem m (up_strp u) xs \<Longrightarrow> \<forall>c\<in>set xs. url_copies (up_state u) c \<Longrightarrow>
   length (up_buf u) + length xs < URL_BUF_SIZE \<Longrightarrow> url_going u \<Longrightarrow>
   url_loop m u = url_loop m (u\<lparr>up_strp := up_strp u + int (length xs), up_buf := up_buf u @ xs\<rparr>)"
proof (induction xs arbitrary: u)
  case (Cons c xs)
  let ?u = "u\<lparr>up_strp := up_strp u + 1, up_buf := up_buf u @ [c]\<rparr>"
  have "url_step m u = Some ?u" using Cons.prems by (intro url_copy_step) (auto simp: at_mem_Cons)
  then have "url_loop m u = url_loop m ?u" using Cons.prems(4) by (intro url_loop_step) (simp_all add: url_going_def)
  also have "\<dots> = url_loop m (?u\<lparr>up_strp := up_strp ?u + int (length xs), up_buf := up_buf ?u @ xs\<rparr>)"
    using Cons.prems by (intro Cons.IH) (auto simp: at_mem_Cons url_going_def)
  finally show ?case by (simp add: add.assoc)
qed simp

section \<open>Port numbers\<close>

definition port_ok :: "byte list \<Rightarrow> bool" where
  "port_ok ds \<longleftrightarrow> ds \<noteq> [] \<and> list_all is_digit ds \<and> hd ds \<noteq> 48 \<and> code_value ds < 2 ^ 31"

lemma code_value_fold: "list_all is_digit ds \<Longrightarrow> 0 \<le> v \<Longrightarrow>
    foldl (\<lambda>v d. v * 10 + digit_val d) v ds = foldl (\<lambda>v d. v * 10 + (uint d - 48)) v ds \<and>
    v \<le> foldl (\<lambda>v d. v * 10 + (uint d - 48)) v ds"
proof (induction ds arbitrary: v)
  case (Cons d ds)
  then have d: "digit_val d = uint d - 48" "48 \<le> uint d" using digit_facts by auto
  with Cons.IH [of "v * 10 + (uint d - 48)"] Cons.prems show ?case by auto
qed simp

lemma strtoul_port:
  assumes "port_ok ds"
  shows "strtoul ds 0 = (code_value ds, length ds)" "to_i32 (code_value ds) = code_value ds" "code_value ds \<noteq> 0"
proof -
  obtain d u where ds: "ds = d # u" and d: "is_digit d" "list_all is_digit u" "d \<noteq> 48"
    using assms by (cases ds) (auto simp: port_ok_def)
  note f = digit_facts [OF d(1)]
  have v: "code_value ds = foldl (\<lambda>v d. v * 10 + digit_val d) 0 ds" "code_value ds \<ge> uint d - 48"
    using code_value_fold [of ds 0] code_value_fold [OF d(2), of "uint d - 48"] d f by (auto simp: ds code_value_def)
  have "uint d \<noteq> 48"
  proof
    assume "uint d = 48"
    then have "word_of_int (uint d) = (48 :: byte)" by simp
    with d(3) show False by simp
  qed
  with f have pos: "1 \<le> uint d - 48" by linarith
  have nb: "number_base 0 ds = (10, 0)" using f d(3) by (auto simp: number_base_def ds split: list.splits)
  have dv: "\<forall>c\<in>set ds. digit_val c < 10" using d digit_facts by (auto simp: ds list_all_iff)
  then have tw: "takeWhile (\<lambda>c. digit_val c < 10) ds = ds" by (simp add: takeWhile_eq_all_conv)
  have b: "code_value ds < 2 ^ 31" using assms by (simp add: port_ok_def)
  have sp: "takeWhile is_space ds = []" using f by (simp add: ds)
  have sg: "(case ds of c # _ \<Rightarrow> if c = 43 \<or> c = 45 then 1 else 0 | [] \<Rightarrow> 0) = (0::nat)" using f by (simp add: ds)
  have "ds \<noteq> []" by (simp add: ds)
  with b show "strtoul ds 0 = (code_value ds, length ds)"
    by (simp add: strtoul_def sp sg nb tw v(1) [symmetric] Let_def)
  show "to_i32 (code_value ds) = code_value ds" using v(2) pos b by (intro to_i32_id) auto
  show "code_value ds \<noteq> 0" using v(2) pos by auto
qed

section \<open>Whole URLs\<close>

definition url_text :: "byte list \<Rightarrow> byte list \<Rightarrow> byte list \<Rightarrow> byte list \<Rightarrow> (byte list \<times> byte list) list \<Rightarrow> byte list" where
  "url_text proto host port path kvs = proto @ [58, 47, 47] @ host @ [58] @ port @ path @ [63] @ args_text kvs"

definition name_chars :: "byte list \<Rightarrow> bool" where
  "name_chars s \<longleftrightarrow> length s < URL_BUF_SIZE \<and> (\<forall>c\<in>set s. is_alnum c \<or> c = 95 \<or> c = 45 \<or> c = 46)"

definition path_ok :: "byte list \<Rightarrow> bool" where
  "path_ok s \<longleftrightarrow> length s < URL_BUF_SIZE \<and> s \<noteq> [] \<and> hd s = 47 \<and> (\<forall>c\<in>set s. c \<noteq> 0 \<and> c \<noteq> 37 \<and> c \<noteq> 63)"

lemma name_nonzero: "is_alnum c \<or> c = 95 \<or> c = 45 \<or> c = 46 \<Longrightarrow> c \<noteq> 0"
  by (auto simp: is_alnum_def is_digit_def)

lemma names_nonzero: "name_chars s \<Longrightarrow> 0 \<notin> set s"
  using name_nonzero unfolding name_chars_def by blast

lemma cstr_names: "name_chars s \<Longrightarrow> cstr s = s"
  by (rule cstr_whole [OF names_nonzero])

text \<open>The parts of a URL one after the other: each state reads its part and hands over to the next.\<close>

definition at_part :: "url_parser \<Rightarrow> url_parse_state \<Rightarrow> int \<Rightarrow> bool" where
  "at_part u st p \<longleftrightarrow> url_going u \<and> up_state u = st \<and> up_strp u = p \<and> up_buf u = []"

lemma url_proto:
  assumes u: "at_part u URL_PARSE_PROTO p" and m: "at_mem m p (s @ 58 # 47 # 47 # xs @ [0])" and s: "name_chars s"
    and xs: "0 \<notin> set xs"
  shows "\<exists>u'. url_loop m u = url_loop m u' \<and> at_part u' URL_PARSE_HOST (p + int (length s) + 3) \<and>
    up_url u' = (up_url u)\<lparr>u_proto := Some s\<rparr>"
proof -
  let ?u1 = "u\<lparr>up_strp := p + int (length s), up_buf := s\<rparr>"
  let ?u2 = "u\<lparr>up_url := (up_url u)\<lparr>u_proto := Some s\<rparr>, up_state := URL_PARSE_HOST,
    up_strp := p + int (length s) + 3, up_buf := []\<rparr>"
  have mm: "at_mem m p s" "rd8 m (p + int (length s)) = Some 58"
    "at_mem m (p + int (length s) + 1) ((47 # 47 # xs) @ [0])"
    using m by (simp_all add: at_mem_append at_mem_Cons)
  have "url_loop m u = url_loop m ?u1"
    using url_copy [of m u s] u mm(1) s name_nonzero by (auto simp: at_part_def url_copies_def name_chars_def)
  also have "string_at m (p + int (length s) + 1) = Some (47 # 47 # xs)" by (rule string_at_mem [OF mm(3)]) (simp add: xs)
  then have "url_step m ?u1 = Some ?u2"
    using u mm(2) cstr_names [OF s] by (simp add: at_part_def url_step_def url_state_def url_advance_def Let_def)
  then have "url_loop m ?u1 = url_loop m ?u2" using u by (intro url_loop_step) (simp_all add: at_part_def url_going_def)
  finally show ?thesis using u by (intro exI [of _ ?u2]) (simp add: at_part_def url_going_def)
qed

lemma url_host:
  assumes u: "at_part u URL_PARSE_HOST p" and m: "at_mem m p (s @ 58 # xs)" and s: "name_chars s"
  shows "\<exists>u'. url_loop m u = url_loop m u' \<and> at_part u' URL_PARSE_PORT (p + int (length s) + 1) \<and>
    up_url u' = (up_url u)\<lparr>u_host := Some s\<rparr>"
proof -
  let ?u1 = "u\<lparr>up_strp := p + int (length s), up_buf := s\<rparr>"
  let ?u2 = "u\<lparr>up_url := (up_url u)\<lparr>u_host := Some s\<rparr>, up_state := URL_PARSE_PORT,
    up_strp := p + int (length s) + 1, up_buf := []\<rparr>"
  have mm: "at_mem m p s" "rd8 m (p + int (length s)) = Some 58" using m by (simp_all add: at_mem_append at_mem_Cons)
  have "url_loop m u = url_loop m ?u1"
    using url_copy [of m u s] u mm(1) s name_nonzero by (auto simp: at_part_def url_copies_def name_chars_def)
  also have "url_step m ?u1 = Some ?u2"
    using u mm(2) cstr_names [OF s] by (simp add: at_part_def url_step_def url_state_def url_advance_def Let_def)
  then have "url_loop m ?u1 = url_loop m ?u2" using u by (intro url_loop_step) (simp_all add: at_part_def url_going_def)
  finally show ?thesis using u by (intro exI [of _ ?u2]) (simp add: at_part_def url_going_def)
qed

lemma url_port:
  assumes u: "at_part u URL_PARSE_PORT p" and m: "at_mem m p (s @ (47 # xs) @ [0])" and s: "port_ok s" "length s < URL_BUF_SIZE"
    and xs: "0 \<notin> set xs"
  shows "\<exists>u'. url_loop m u = url_loop m u' \<and> at_part u' URL_PARSE_PATH (p + int (length s)) \<and>
    up_url u' = (up_url u)\<lparr>u_port := code_value s, u_path_args := Some (47 # xs)\<rparr>"
proof -
  let ?u1 = "u\<lparr>up_strp := p + int (length s), up_buf := s\<rparr>"
  let ?u2 = "u\<lparr>up_url := (up_url u)\<lparr>u_port := code_value s\<rparr>, up_state := URL_PARSE_PATH_ARGS,
    up_strp := p + int (length s), up_buf := []\<rparr>"
  let ?u3 = "?u2\<lparr>up_url := (up_url ?u2)\<lparr>u_path_args := Some (47 # xs)\<rparr>, up_state := URL_PARSE_PATH\<rparr>"
  have mm: "at_mem m p s" "rd8 m (p + int (length s)) = Some 47" "at_mem m (p + int (length s)) ((47 # xs) @ [0])"
    using m by (simp_all add: at_mem_append at_mem_Cons)
  have d: "\<forall>c\<in>set s. is_digit c \<and> c \<noteq> 0" using s(1) digit_facts by (auto simp: port_ok_def list_all_iff is_digit_def)
  have "url_loop m u = url_loop m ?u1"
    using url_copy [of m u s] u mm(1) s(2) d by (auto simp: at_part_def url_copies_def)
  also have "cstr s = s" using d by (intro cstr_whole) auto
  then have "url_step m ?u1 = Some ?u2"
    using u mm(2) strtoul_port [OF s(1)] s(1)
    by (simp add: at_part_def url_step_def url_state_def Let_def port_ok_def)
  then have "url_loop m ?u1 = url_loop m ?u2" using u by (intro url_loop_step) (simp_all add: at_part_def url_going_def)
  also have "string_at m (p + int (length s)) = Some (47 # xs)" by (rule string_at_mem [OF mm(3)]) (simp add: xs)
  then have "url_step m ?u2 = Some ?u3" by (simp add: url_step_def url_state_def)
  then have "url_loop m ?u2 = url_loop m ?u3" using u by (intro url_loop_step) (simp_all add: at_part_def url_going_def)
  finally show ?thesis using u by (intro exI [of _ ?u3]) (simp add: at_part_def url_going_def)
qed

lemma url_path:
  assumes u: "at_part u URL_PARSE_PATH p" and m: "at_mem m p (s @ 63 # xs)" and s: "path_ok s"
  shows "\<exists>u'. url_loop m u = url_loop m u' \<and> at_part u' URL_PARSE_ARGS (p + int (length s) + 1) \<and>
    up_url u' = (up_url u)\<lparr>u_path := Some s\<rparr>"
proof -
  let ?u1 = "u\<lparr>up_strp := p + int (length s), up_buf := s\<rparr>"
  let ?u2 = "u\<lparr>up_url := (up_url u)\<lparr>u_path := Some s\<rparr>, up_state := URL_PARSE_ARGS,
    up_strp := p + int (length s) + 1, up_buf := []\<rparr>"
  have mm: "at_mem m p s" "rd8 m (p + int (length s)) = Some 63" using m by (simp_all add: at_mem_append at_mem_Cons)
  have "url_loop m u = url_loop m ?u1"
    using url_copy [of m u s] u mm(1) s by (auto simp: at_part_def url_copies_def path_ok_def)
  also have "cstr s = s" using s by (intro cstr_whole) (auto simp: path_ok_def)
  then have "url_step m ?u1 = Some ?u2"
    using u mm(2) by (simp add: at_part_def url_step_def url_state_def url_advance_def Let_def)
  then have "url_loop m ?u1 = url_loop m ?u2" using u by (intro url_loop_step) (simp_all add: at_part_def url_going_def)
  finally show ?thesis using u by (intro exI [of _ ?u2]) (simp add: at_part_def url_going_def)
qed

lemma args_text_nonzero: "0 \<notin> set (args_text kvs)"
  using quoted_chars by (induction kvs rule: args_text.induct) auto

lemma url_args:
  assumes u: "at_part u URL_PARSE_ARGS p" and m: "at_mem m p (args_text kvs @ [0])"
    and kvs: "kvs \<noteq> []" "\<forall>(k, v)\<in>set kvs. k \<noteq> [] \<and> v \<noteq> []"
  shows "\<exists>u'. url_loop m u = Some u' \<and>
    up_url u' = (up_url u)\<lparr>u_args_str := Some (args_text kvs), u_args := Some (map arg_node kvs)\<rparr>"
proof -
  have "string_at m p = Some (args_text kvs)" by (rule string_at_mem [OF m args_text_nonzero])
  with args_read [OF kvs, of "[0]"] u show ?thesis
    by (subst url_loop.simps) (auto simp: at_part_def url_step_def url_stopped_def)
qed

lemma url_reads:
  assumes "name_chars proto" "name_chars host" "port_ok port" "length port < URL_BUF_SIZE" "path_ok path"
    and "kvs \<noteq> []" "\<forall>(k, v)\<in>set kvs. k \<noteq> [] \<and> v \<noteq> []"
  shows "url_parse (url_text proto host port path kvs @ 0 # rest) =
    Some (url_zero\<lparr>u_url := Some (url_text proto host port path kvs), u_proto := Some proto, u_host := Some host,
            u_port := code_value port, u_path_args := Some (path @ 63 # args_text kvs), u_path := Some path,
            u_args_str := Some (args_text kvs), u_args := Some (map arg_node kvs)\<rparr>, URL_PARSE_ERR_OK)"
proof -
  let ?t = "url_text proto host port path kvs" and ?a = "args_text kvs"
  let ?m = "?t @ 0 # rest"
  let ?u = "\<lparr>up_url = url_zero\<lparr>u_url := Some ?t\<rparr>, up_state = URL_PARSE_PROTO, up_strp = 0, up_buf = [], up_done = False\<rparr>"
  obtain path' where path: "path = 47 # path'" using assms(5) by (cases path) (auto simp: path_ok_def)
  have z: "0 \<notin> set ?a" "0 \<notin> set host" "0 \<notin> set proto" "0 \<notin> set port" "0 \<notin> set path"
    using args_text_nonzero names_nonzero assms(1-5) by (auto simp: path_ok_def port_ok_def list_all_iff is_digit_def)
  then have zt: "0 \<notin> set ?t" by (simp add: url_text_def)
  let ?q = "0 + int (length proto) + 3 :: int"
  let ?r = "?q + int (length host) + 1" let ?s = "?r + int (length port)" let ?w = "?s + int (length path) + 1"
  have mt: "at_mem ?m 0 (?t @ [0])" unfolding at_mem_def by (intro conjI exI [of _ "[]"] exI [of _ rest]) simp_all
  then have m1: "at_mem ?m 0 (proto @ 58 # 47 # 47 # (host @ 58 # port @ path @ 63 # ?a) @ [0])"
    by (simp add: url_text_def)
  then have m2: "at_mem ?m ?q (host @ 58 # port @ path @ 63 # ?a @ [0])"
    by (simp add: at_mem_append at_mem_Cons add.assoc)
  then have m3: "at_mem ?m ?r (port @ path @ 63 # ?a @ [0])" by (simp add: at_mem_append [of _ _ host] at_mem_Cons)
  then have m4: "at_mem ?m ?s (path @ 63 # ?a @ [0])" by (simp add: at_mem_append [of _ _ port])
  then have m5: "at_mem ?m ?w (?a @ [0])" by (simp add: at_mem_append [of _ _ path] at_mem_Cons)
  have "at_part ?u URL_PARSE_PROTO 0" by (simp add: at_part_def url_going_def url_zero_def)
  from url_proto [OF this m1 assms(1)] z obtain u1 where u1: "url_loop ?m ?u = url_loop ?m u1"
    "at_part u1 URL_PARSE_HOST ?q" "up_url u1 = (up_url ?u)\<lparr>u_proto := Some proto\<rparr>" by auto
  from url_host [OF u1(2) m2 assms(2)] obtain u2 where u2: "url_loop ?m u1 = url_loop ?m u2"
    "at_part u2 URL_PARSE_PORT ?r" "up_url u2 = (up_url u1)\<lparr>u_host := Some host\<rparr>" by auto
  have "at_mem ?m ?r (port @ (47 # path' @ 63 # ?a) @ [0])" using m3 by (simp add: path)
  from url_port [OF u2(2) this assms(3,4)] z obtain u3 where u3: "url_loop ?m u2 = url_loop ?m u3"
    "at_part u3 URL_PARSE_PATH ?s" "up_url u3 = (up_url u2)\<lparr>u_port := code_value port, u_path_args := Some (path @ 63 # ?a)\<rparr>"
    by (auto simp: path)
  from url_path [OF u3(2) m4 assms(5)] obtain u4 where u4: "url_loop ?m u3 = url_loop ?m u4"
    "at_part u4 URL_PARSE_ARGS ?w" "up_url u4 = (up_url u3)\<lparr>u_path := Some path\<rparr>" by auto
  from url_args [OF u4(2) m5 assms(6,7)] obtain u5 where u5: "url_loop ?m u4 = Some u5"
    "up_url u5 = (up_url u4)\<lparr>u_args_str := Some ?a, u_args := Some (map arg_node kvs)\<rparr>" by auto
  have "string_at ?m 0 = Some ?t" by (rule string_at_mem [OF mt zt])
  moreover have "url_loop ?m ?u = Some u5" using u1(1) u2(1) u3(1) u4(1) u5(1) by simp
  ultimately show ?thesis
    using u1(3) u2(3) u3(3) u4(3) u5(2) strtoul_port(3) [OF assms(3)]
    by (simp add: url_parse_def Let_def url_zero_def)
qed

text \<open>
  C20. \<open>url_parse\<close> takes the URL \<open>proto://host:port/path?args\<close> apart: its parts are the texts between the
  separators, the port is the decimal number, the path with arguments is everything from the first \<open>/\<close>, the
  arguments are split and decoded, and no error is reported. Protocol and host consist of letters, digits, \<open>_\<close>,
  \<open>-\<close> and \<open>.\<close>; the port has no leading zero (it would be read as octal), the path no percent sign.
\<close>

theorem url_parsed:
  assumes "name_chars proto" "name_chars host" "port_ok port" "length port < URL_BUF_SIZE" "path_ok path"
    and "kvs \<noteq> []" "\<forall>(k, v)\<in>set kvs. k \<noteq> [] \<and> v \<noteq> []"
  shows "url_parse (url_text proto host port path kvs @ 0 # rest) =
    Some (url_zero\<lparr>u_url := Some (url_text proto host port path kvs), u_proto := Some proto, u_host := Some host,
            u_port := code_value port, u_path_args := Some (path @ 63 # args_text kvs), u_path := Some path,
            u_args_str := Some (args_text kvs), u_args := Some (map arg_node kvs)\<rparr>, URL_PARSE_ERR_OK)"
  by (rule url_reads [OF assms])

lemma url_parsed_witness:
  "url_parse (url_text (bytes_of ''http'') (bytes_of ''a.org'') (bytes_of ''8080'') (bytes_of ''/x/y'') [(bytes_of ''q'', bytes_of ''1 2'')] @ 0 # []) =
    Some (url_zero\<lparr>u_url := Some (url_text (bytes_of ''http'') (bytes_of ''a.org'') (bytes_of ''8080'') (bytes_of ''/x/y'')
              [(bytes_of ''q'', bytes_of ''1 2'')]),
            u_proto := Some (bytes_of ''http''), u_host := Some (bytes_of ''a.org''),
            u_port := code_value (bytes_of ''8080''),
            u_path_args := Some (bytes_of ''/x/y'' @ 63 # args_text [(bytes_of ''q'', bytes_of ''1 2'')]),
            u_path := Some (bytes_of ''/x/y''), u_args_str := Some (args_text [(bytes_of ''q'', bytes_of ''1 2'')]),
            u_args := Some (map arg_node [(bytes_of ''q'', bytes_of ''1 2'')])\<rparr>, URL_PARSE_ERR_OK)"
proof (rule url_parsed)
  have c: "\<forall>c\<in>set (bytes_of ''http''). is_alnum c \<or> c = 95 \<or> c = 45 \<or> c = 46"
    "\<forall>c\<in>set (bytes_of ''a.org''). is_alnum c \<or> c = 95 \<or> c = 45 \<or> c = 46"
    "\<forall>c\<in>set (bytes_of ''/x/y''). c \<noteq> 0 \<and> c \<noteq> 37 \<and> c \<noteq> 63" "hd (bytes_of ''/x/y'') = 47" by code_simp+
  show "name_chars (bytes_of ''http'')" "name_chars (bytes_of ''a.org'')" "path_ok (bytes_of ''/x/y'')"
    "length (bytes_of ''8080'') < URL_BUF_SIZE"
    using c by (simp_all add: name_chars_def path_ok_def URL_BUF_SIZE_def bytes_of_def)
  show "port_ok (bytes_of ''8080'')" "[(bytes_of ''q'', bytes_of ''1 2'')] \<noteq> []"
    "\<forall>(k, v)\<in>set [(bytes_of ''q'', bytes_of ''1 2'')]. k \<noteq> [] \<and> v \<noteq> []" by code_simp+
qed

end
