(* ===== verification/Select.thy ===== *)
theory Select
  imports CArray
begin

unbundle bit_operations_syntax

text \<open>
  \<open>fdselect.c\<close>, \<open>fdselect.h\<close> and \<open>fdselect_unix.c\<close>: callbacks on descriptors. The table is an array of
  entries, the pointer \<open>f\<close> that walks it is an index. A callback is the value of a type \<open>'h\<close> (the
  function) and a number (its argument). What the operating system decides is a parameter: \<open>os\<close> is the system
  call \<open>select\<close>, \<open>call\<close> runs a callback on the table and on the rest of the program's state \<open>'w\<close>.
\<close>

section \<open>The table\<close>

record 'h fdselect_fd =
  f_fd :: int
  f_events :: int
  f_os_event :: u64
  f_free_os_event :: int
  f_not_sock :: int
  f_read_func :: "'h option"
  f_read_farg :: nat
  f_write_func :: "'h option"
  f_write_farg :: nat
  f_t_last :: int

record 'h fdselect_t =
  fs_count :: int
  fs_select_break :: int
  fs_fd_array :: "'h fdselect_fd array_t"
  fs_enable_win_loop :: int

definition FDSELECT_READ :: int where "FDSELECT_READ = 1"
definition FDSELECT_WRITE :: int where "FDSELECT_WRITE = 2"
definition FDSELECT_ADDRESS_LIST_CHANGE :: int where "FDSELECT_ADDRESS_LIST_CHANGE = 4"
definition FDSELECT_ALL :: int where "FDSELECT_ALL = - 1"

lemmas fdselect_events = FDSELECT_READ_def FDSELECT_WRITE_def FDSELECT_ADDRESS_LIST_CHANGE_def FDSELECT_ALL_def

definition fd_zero :: "'h fdselect_fd" where
  "fd_zero = \<lparr>f_fd = 0, f_events = 0, f_os_event = 0, f_free_os_event = 0, f_not_sock = 0, f_read_func = None,
     f_read_farg = 0, f_write_func = None, f_write_farg = 0, f_t_last = 0\<rparr>"

text \<open>\<open>sizeof(fdselect_fd)\<close> on the 64-bit machine of the model.\<close>

definition fdselect_fd_size :: int where "fdselect_fd_size = 72"

definition fdselect_init :: "'h fdselect_t" where
  "fdselect_init = \<lparr>fs_count = 0, fs_select_break = 0, fs_fd_array = array_init fdselect_fd_size 0, fs_enable_win_loop = 0\<rparr>"

definition fdselect_clear :: "'h fdselect_t \<Rightarrow> 'h fdselect_t" where
  "fdselect_clear sel = sel\<lparr>fs_fd_array := fst (array_clear (fs_fd_array sel)), fs_count := 0, fs_select_break := 1\<rparr>"

definition fdselect_count :: "'h fdselect_t \<Rightarrow> int" where
  "fdselect_count sel = fs_count sel"

text \<open>The loops that walk from the last entry to the first, with \<open>i\<close> entries left: the index found.\<close>

fun find_fd :: "('h fdselect_fd \<Rightarrow> bool) \<Rightarrow> 'h fdselect_fd array_t \<Rightarrow> nat \<Rightarrow> int option option" where
  "find_fd P a 0 = Some None"
| "find_fd P a (Suc i) =
     do { f \<leftarrow> elt_at a (Some (int i)); if P f then Some (Some (int i)) else find_fd P a i }"

definition fdselect_get :: "'h fdselect_t \<Rightarrow> int \<Rightarrow> int \<Rightarrow> int option option" where
  "fdselect_get sel fd events =
     find_fd (\<lambda>f. f_fd f = fd \<and> f_events f AND events \<noteq> 0) (fs_fd_array sel) (nat (array_count (fs_fd_array sel)))"

text \<open>Writing an element through its pointer.\<close>

definition put_elt :: "'a array_t \<Rightarrow> int \<Rightarrow> 'a \<Rightarrow> 'a array_t option" where
  "put_elt a p x = do { buf \<leftarrow> m_array a; buf \<leftarrow> mem_put buf p x; Some (a\<lparr>m_array := Some buf\<rparr>) }"

text \<open>What \<open>fdselect_set\<close> writes into the entry; \<open>fdselect_free_os_event\<close> does nothing on Unix.\<close>

definition set_entry :: "int \<Rightarrow> 'h option \<Rightarrow> nat \<Rightarrow> 'h fdselect_fd \<Rightarrow> 'h fdselect_fd" where
  "set_entry events func farg f =
     (let new_events = (if func \<noteq> None then f_events f OR events else f_events f AND NOT events);
          f = (if new_events \<noteq> f_events f \<and> f_os_event f \<noteq> 0 \<and> f_free_os_event f \<noteq> 0 then f\<lparr>f_os_event := 0\<rparr> else f);
          f = f\<lparr>f_events := new_events\<rparr>;
          f = (if events AND (FDSELECT_READ OR FDSELECT_ADDRESS_LIST_CHANGE) \<noteq> 0
               then f\<lparr>f_read_func := func, f_read_farg := farg\<rparr> else f)
      in if events AND FDSELECT_WRITE \<noteq> 0 then f\<lparr>f_write_func := func, f_write_farg := farg\<rparr> else f)"

definition store_entry ::
    "'h fdselect_t \<Rightarrow> int \<Rightarrow> int \<Rightarrow> 'h option \<Rightarrow> nat \<Rightarrow> ('h fdselect_t \<times> int) option" where
  "store_entry sel i events func farg =
     do {
       f \<leftarrow> elt_at (fs_fd_array sel) (Some i);
       let f = set_entry events func farg f;
       a \<leftarrow> put_elt (fs_fd_array sel) i f;
       let sel = sel\<lparr>fs_fd_array := a\<rparr>;
       if f_events f = 0 then do {
         a \<leftarrow> array_remove_ptr a (i * m_eltsz a);
         Some (sel\<lparr>fs_fd_array := a, fs_count := fs_count sel - 1\<rparr>, 0)
       }
       else Some (sel, 0)
     }"

definition fdselect_set ::
    "bool \<Rightarrow> 'h fdselect_t \<Rightarrow> int \<Rightarrow> int \<Rightarrow> 'h option \<Rightarrow> nat \<Rightarrow> ('h fdselect_t \<times> int) option" where
  "fdselect_set ok sel fd events func farg =
     do {
       let sel = sel\<lparr>fs_select_break := 1\<rparr>;
       let events = (if events = 0 then FDSELECT_READ OR FDSELECT_WRITE else events);
       r \<leftarrow> find_fd (\<lambda>f. f_fd f = fd) (fs_fd_array sel) (nat (array_count (fs_fd_array sel)));
       (sel, p) \<leftarrow>
         (case r of Some i \<Rightarrow> Some (sel, Some i)
          | None \<Rightarrow> do {
              (a, p) \<leftarrow> array_add ok fd_zero (fs_fd_array sel) 1;
              case p of None \<Rightarrow> Some (sel\<lparr>fs_fd_array := a\<rparr>, None)
              | Some i \<Rightarrow> do {
                  f \<leftarrow> elt_at a p;
                  a \<leftarrow> put_elt a i (f\<lparr>f_fd := fd\<rparr>);
                  Some (sel\<lparr>fs_fd_array := a, fs_count := fs_count sel + 1\<rparr>, p)
                }
            });
       case p of None \<Rightarrow> Some (sel, - 1)
       | Some i \<Rightarrow> store_entry sel i events func farg
     }"

definition fdselect_unset :: "bool \<Rightarrow> 'h fdselect_t \<Rightarrow> int \<Rightarrow> int \<Rightarrow> ('h fdselect_t \<times> int) option" where
  "fdselect_unset ok sel fd events =
     fdselect_set ok (sel\<lparr>fs_select_break := 1\<rparr>) fd (if events = 0 then FDSELECT_ALL else events) None 0"

definition fdselect_break :: "'h fdselect_t \<Rightarrow> 'h fdselect_t" where
  "fdselect_break sel = sel\<lparr>fs_select_break := 1\<rparr>"

definition fdselect_enable_win_loop :: "'h fdselect_t \<Rightarrow> int \<Rightarrow> 'h fdselect_t \<times> int" where
  "fdselect_enable_win_loop sel enable = (sel\<lparr>fs_enable_win_loop := enable\<rparr>, fs_enable_win_loop sel)"

section \<open>Waiting\<close>

text \<open>
  The descriptor sets, from the last entry to the first, and the largest descriptor. \<open>FD_SET\<close> is undefined for
  descriptors below 0 or from \<open>FD_SETSIZE\<close> (1024) on.
\<close>

definition FD_SETSIZE :: int where "FD_SETSIZE = 1024"

definition fd_set_add :: "bool \<Rightarrow> int \<Rightarrow> int list \<Rightarrow> int list option" where
  "fd_set_add wanted fd fds =
     (if \<not> wanted then Some fds else if 0 \<le> fd \<and> fd < FD_SETSIZE then Some (fds @ [fd]) else None)"

fun build_sets :: "'h fdselect_fd array_t \<Rightarrow> nat \<Rightarrow> int \<Rightarrow> int list \<Rightarrow> int list \<Rightarrow> (int \<times> int list \<times> int list) option" where
  "build_sets a 0 fd_max rfds wfds = Some (fd_max, rfds, wfds)"
| "build_sets a (Suc i) fd_max rfds wfds =
     do {
       f \<leftarrow> elt_at a (Some (int i));
       rfds \<leftarrow> fd_set_add (f_events f AND FDSELECT_READ \<noteq> 0) (f_fd f) rfds;
       wfds \<leftarrow> fd_set_add (f_events f AND FDSELECT_WRITE \<noteq> 0) (f_fd f) wfds;
       build_sets a i (if f_fd f > fd_max then f_fd f else fd_max) rfds wfds
     }"

type_synonym os_select = "int \<Rightarrow> int list \<Rightarrow> int list \<Rightarrow> (int \<times> int) option \<Rightarrow> int \<times> int list \<times> int list"
type_synonym ('h, 'w) handler_call =
  "'h \<Rightarrow> nat \<Rightarrow> int \<Rightarrow> int \<Rightarrow> 'h fdselect_t \<Rightarrow> 'w \<Rightarrow> ('h fdselect_t \<times> 'w) option"

text \<open>
  A callback, if it is set and its descriptor is ready. If the callback changes the table without setting
  \<open>select_break\<close>, the loop goes on with a pointer into the old array: that is undefined.
\<close>

definition run_handler ::
    "('h, 'w) handler_call \<Rightarrow> bool \<Rightarrow> 'h option \<Rightarrow> nat \<Rightarrow> int \<Rightarrow> int \<Rightarrow> 'h fdselect_t \<Rightarrow> 'w \<Rightarrow> ('h fdselect_t \<times> 'w) option" where
  "run_handler call ready func farg fd st sel w =
     (case func of None \<Rightarrow> Some (sel, w)
      | Some h \<Rightarrow>
          if \<not> ready then Some (sel, w)
          else do {
            (sel', w') \<leftarrow> call h farg fd st sel w;
            if fs_select_break sel' = 0 \<and> fs_fd_array sel' \<noteq> fs_fd_array sel then None else Some (sel', w')
          })"

fun dispatch ::
    "('h, 'w) handler_call \<Rightarrow> int list \<Rightarrow> int list \<Rightarrow> nat \<Rightarrow> 'h fdselect_t \<Rightarrow> 'w \<Rightarrow> ('h fdselect_t \<times> 'w) option" where
  "dispatch call rfds wfds 0 sel w = Some (sel, w)"
| "dispatch call rfds wfds (Suc i) sel w =
     do {
       f \<leftarrow> elt_at (fs_fd_array sel) (Some (int i));
       if f_events f = 0 then dispatch call rfds wfds i sel w
       else do {
         (sel, w) \<leftarrow> run_handler call (f_fd f \<in> set rfds) (f_read_func f) (f_read_farg f) (f_fd f) FDSELECT_READ sel w;
         if fs_select_break sel \<noteq> 0 then Some (sel, w)
         else do {
           f \<leftarrow> elt_at (fs_fd_array sel) (Some (int i));
           (sel, w) \<leftarrow> run_handler call (f_fd f \<in> set wfds) (f_write_func f) (f_write_farg f) (f_fd f) FDSELECT_WRITE sel w;
           if fs_select_break sel \<noteq> 0 then Some (sel, w) else dispatch call rfds wfds i sel w
         }
       }
     }"

definition fdselect_select_os ::
    "os_select \<Rightarrow> ('h, 'w) handler_call \<Rightarrow> 'h fdselect_t \<Rightarrow> int \<Rightarrow> 'w \<Rightarrow> ('h fdselect_t \<times> 'w \<times> int) option" where
  "fdselect_select_os os call sel timeout w =
     do {
       let sel = sel\<lparr>fs_select_break := 0\<rparr>;
       let n = nat (array_count (fs_fd_array sel));
       (fd_max, rfds, wfds) \<leftarrow> build_sets (fs_fd_array sel) n 0 [] [];
       let tv = (if timeout \<ge> 0 then Some (timeout div 1000, timeout mod 1000 * 1000) else None);
       let (nfds, rfds, wfds) = os (fd_max + 1) rfds wfds tv;
       if \<not> nfds \<ge> 0 then Some (sel, w, - 1)
       else do {
         (sel, w) \<leftarrow> (if nfds > 0 then dispatch call rfds wfds n sel w else Some (sel, w));
         Some (sel, w, 0)
       }
     }"

definition fdselect_select ::
    "os_select \<Rightarrow> ('h, 'w) handler_call \<Rightarrow> 'h fdselect_t \<Rightarrow> int \<Rightarrow> 'w \<Rightarrow> ('h fdselect_t \<times> 'w \<times> int) option" where
  "fdselect_select os call sel timeout w = fdselect_select_os os call (sel\<lparr>fs_select_break := 0\<rparr>) timeout w"

section \<open>The table as a map\<close>

definition sel_ok :: "'h fdselect_t \<Rightarrow> bool" where
  "sel_ok sel \<longleftrightarrow> array_wf (fs_fd_array sel) \<and> distinct (map f_fd (elems (fs_fd_array sel))) \<and>
     (\<forall>f\<in>set (elems (fs_fd_array sel)). f_events f \<noteq> 0) \<and> fs_count sel = int (length (elems (fs_fd_array sel)))"

definition entry_of :: "'h fdselect_t \<Rightarrow> int \<Rightarrow> 'h fdselect_fd option" where
  "entry_of sel fd = find (\<lambda>f. f_fd f = fd) (elems (fs_fd_array sel))"

text \<open>What \<open>fdselect_set\<close> does to the entries, by descriptor.\<close>

definition entry_set :: "(int \<Rightarrow> 'h fdselect_fd option) \<Rightarrow> int \<Rightarrow> int \<Rightarrow> 'h option \<Rightarrow> nat \<Rightarrow> (int \<Rightarrow> 'h fdselect_fd option)" where
  "entry_set m fd events func farg =
     (let old = (case m fd of Some f \<Rightarrow> f | None \<Rightarrow> fd_zero\<lparr>f_fd := fd\<rparr>);
          new = set_entry (if events = 0 then 3 else events) func farg old
      in m(fd := if f_events new = 0 then None else Some new))"

lemma find_fd_spec:
  "array_wf a \<Longrightarrow> n \<le> length (elems a) \<Longrightarrow>
   \<exists>r. find_fd P a n = Some r \<and>
     (case r of None \<Rightarrow> \<forall>i<n. \<not> P (elems a ! i) | Some p \<Rightarrow> \<exists>i<n. p = int i \<and> P (elems a ! i))"
proof (induction n)
  case (Suc n)
  have "array_get a (int n) = Some (int n)" using Suc.prems by (simp add: array_get_eq Let_def)
  with elt_at_nat [OF Suc.prems(1), of n] Suc.prems(2)
  have e: "elt_at a (Some (int n)) = Some (elems a ! n)" by simp
  show ?case
  proof (cases "P (elems a ! n)")
    case True
    then show ?thesis by (auto simp: e)
  next
    case False
    from Suc.IH Suc.prems obtain r where r: "find_fd P a n = Some r"
      "case r of None \<Rightarrow> \<forall>i<n. \<not> P (elems a ! i) | Some p \<Rightarrow> \<exists>i<n. p = int i \<and> P (elems a ! i)" by auto
    with False show ?thesis by (cases r) (auto simp: e less_Suc_eq)
  qed
qed simp

lemma elt_at_index: "array_wf a \<Longrightarrow> i < length (elems a) \<Longrightarrow> elt_at a (Some (int i)) = Some (elems a ! i)"
  using elt_at_nat [of a i] by (simp add: array_get_eq Let_def)

lemma put_elt_spec:
  assumes "array_wf a" "i < length (elems a)"
  shows "\<exists>a'. put_elt a (int i) x = Some a' \<and> array_wf a' \<and> elems a' = (elems a)[i := x] \<and>
    m_eltsz a' = m_eltsz a"
proof -
  have "elems a \<noteq> []" using assms(2) by auto
  from m_array_SomeI [OF assms(1) this] obtain ys where m: "m_array a = Some (elems a @ ys)" .
  have c: "nat (m_count a) = length (elems a)" using assms(1) by (simp add: m_count_elems)
  have "put_elt a (int i) x = Some (a\<lparr>m_array := Some ((elems a)[i := x] @ ys)\<rparr>)"
    using assms(2) m by (simp add: put_elt_def mem_put_def list_update_append)
  moreover have "array_wf (a\<lparr>m_array := Some ((elems a)[i := x] @ ys)\<rparr>)" using assms m by (auto simp: array_wf_def)
  moreover have "elems (a\<lparr>m_array := Some ((elems a)[i := x] @ ys)\<rparr>) = (elems a)[i := x]"
    using c by (simp add: elems_def [of "a\<lparr>m_array := Some ((elems a)[i := x] @ ys)\<rparr>"])
  ultimately show ?thesis by auto
qed

lemma set_entry_fd [simp]: "f_fd (set_entry events func farg f) = f_fd f"
  by (simp add: set_entry_def Let_def)

lemma find_split:
  assumes "distinct (map f_fd (as @ x # bs))"
  shows "find (\<lambda>f. f_fd f = fd) (as @ x # bs) = (if fd = f_fd x then Some x else find (\<lambda>f. f_fd f = fd) (as @ bs))"
  using assms by (induction as) (auto simp: find_None_iff split: option.splits intro: sym)

lemma find_outside: "fd \<notin> f_fd ` set es \<Longrightarrow> find (\<lambda>f. f_fd f = fd) es = None"
  by (auto simp: find_None_iff)

text \<open>The entry \<open>fdselect_set\<close> works on: the old one, or a new one at the end.\<close>

definition obtained :: "'h fdselect_t \<Rightarrow> 'h fdselect_t \<Rightarrow> int \<Rightarrow> 'h fdselect_fd list \<Rightarrow> 'h fdselect_fd \<Rightarrow> 'h fdselect_fd list \<Rightarrow> bool" where
  "obtained sel sel' fd as f bs \<longleftrightarrow> array_wf (fs_fd_array sel') \<and> elems (fs_fd_array sel') = as @ f # bs \<and>
     f = (case entry_of sel fd of Some f \<Rightarrow> f | None \<Rightarrow> fd_zero\<lparr>f_fd := fd\<rparr>) \<and> f_fd f = fd \<and>
     (\<forall>x. x \<noteq> fd \<longrightarrow> entry_of sel x = find (\<lambda>f. f_fd f = x) (as @ bs)) \<and>
     distinct (map f_fd (as @ f # bs)) \<and> (\<forall>g\<in>set (as @ bs). f_events g \<noteq> 0) \<and>
     fs_count sel' = int (length (as @ f # bs)) \<and> fs_select_break sel' = fs_select_break sel"

text \<open>The second half of \<open>fdselect_set\<close>.\<close>

lemma set_update:
  assumes ob: "obtained sel sel' fd as f bs" and br: "fs_select_break sel = 1"
    and new: "new = set_entry events func farg f"
  shows "\<exists>sel2. store_entry sel' (int (length as)) events func farg = Some (sel2, 0) \<and> sel_ok sel2 \<and> fs_select_break sel2 = 1 \<and>
    entry_of sel2 = (entry_of sel)(fd := if f_events new = 0 then None else Some new)"
proof -
  let ?a = "fs_fd_array sel'"
  have wf: "array_wf ?a" and es: "elems ?a = as @ f # bs" and fd: "f_fd f = fd" "f_fd new = fd"
    and d: "distinct (map f_fd (as @ f # bs))"
    using ob by (auto simp: obtained_def new)
  have get: "elt_at ?a (Some (int (length as))) = Some f" using elt_at_index [OF wf, of "length as"] by (simp add: es)
  obtain a1 where a1: "put_elt ?a (int (length as)) new = Some a1" "array_wf a1" "elems a1 = as @ new # bs"
    using put_elt_spec [OF wf, of "length as" new] by (auto simp: es)
  have d1: "distinct (map f_fd (as @ new # bs))" using d fd by auto
  have c: "fs_count sel' = int (length (as @ f # bs))" "fs_select_break sel' = 1" using ob br by (simp_all add: obtained_def)
  have evs: "\<forall>g\<in>set (as @ bs). f_events g \<noteq> 0" using ob by (simp add: obtained_def)
  have other: "x \<noteq> fd \<Longrightarrow> entry_of sel x = find (\<lambda>f. f_fd f = x) (as @ bs)" for x using ob by (simp add: obtained_def)
  show ?thesis
  proof (cases "f_events new = 0")
    case True
    have "array_remove_ptr a1 (int (length as) * m_eltsz a1) = array_remove_idx a1 (int (length as)) 1"
      by (rule array_remove_ptr_eq [OF a1(2)]) simp
    then obtain a2 where a2: "array_remove_ptr a1 (int (length as) * m_eltsz a1) = Some a2" "array_wf a2"
        "elems a2 = as @ bs"
      using array_remove_one [OF a1(2), of "length as"] a1(3) by auto
    let ?s = "sel'\<lparr>fs_fd_array := a2, fs_count := fs_count sel' - 1\<rparr>"
    have "sel_ok ?s" using a2 c d evs by (auto simp: sel_ok_def)
    moreover have "entry_of ?s = (entry_of sel)(fd := None)"
      using other d fd(1) find_outside [of fd "as @ bs"] by (auto simp: entry_of_def a2 fun_eq_iff)
    ultimately show ?thesis
      using get a1(1) a2(1) True c(2) by (intro exI [of _ ?s]) (simp add: store_entry_def new [symmetric] Let_def)
  next
    case False
    let ?s = "sel'\<lparr>fs_fd_array := a1\<rparr>"
    have "sel_ok ?s" using a1 c d1 evs False by (auto simp: sel_ok_def)
    moreover have "entry_of ?s = (entry_of sel)(fd := Some new)"
      using other find_split [OF d1] fd(2) by (auto simp: entry_of_def a1(3) fun_eq_iff)
    ultimately show ?thesis
      using get a1(1) False c(2) by (intro exI [of _ ?s]) (simp add: store_entry_def new [symmetric] Let_def)
  qed
qed

lemma obtained_spec:
  "obtained sel sel' fd as f bs \<Longrightarrow> new = set_entry (if events = 0 then 3 else events) func farg f \<Longrightarrow>
   (entry_of sel)(fd := if f_events new = 0 then None else Some new) = entry_set (entry_of sel) fd events func farg"
  by (simp add: entry_set_def obtained_def Let_def)

lemma fdselect_set_spec:
  assumes ok: "sel_ok sel"
  shows "\<exists>sel'. fdselect_set True sel fd events func farg = Some (sel', 0) \<and> sel_ok sel' \<and> fs_select_break sel' = 1 \<and>
    entry_of sel' = entry_set (entry_of sel) fd events func farg"
proof -
  let ?a = "fs_fd_array sel" and ?sel = "sel\<lparr>fs_select_break := 1\<rparr>" and ?ev = "if events = 0 then 3 else events"
  have wf: "array_wf ?a" and d: "distinct (map f_fd (elems ?a))" using ok by (auto simp: sel_ok_def)
  have en: "entry_of ?sel = entry_of sel" by (simp add: entry_of_def fun_eq_iff)
  have ev: "FDSELECT_READ OR FDSELECT_WRITE = 3" by (simp add: fdselect_events)
  have cnt: "nat (array_count ?a) = length (elems ?a)" using wf by (simp add: array_count_eq)
  obtain r where r: "find_fd (\<lambda>f. f_fd f = fd) ?a (length (elems ?a)) = Some r"
    "case r of None \<Rightarrow> \<forall>i<length (elems ?a). f_fd (elems ?a ! i) \<noteq> fd
     | Some p \<Rightarrow> \<exists>i<length (elems ?a). p = int i \<and> f_fd (elems ?a ! i) = fd"
    using find_fd_spec [OF wf order_refl, of "\<lambda>f. f_fd f = fd"] by blast
  show ?thesis
  proof (cases r)
    case (Some p)
    then obtain i where i: "i < length (elems ?a)" "p = int i" "f_fd (elems ?a ! i) = fd" using r(2) by auto
    define as f bs where "as = take i (elems ?a)" and "f = elems ?a ! i" and "bs = drop (Suc i) (elems ?a)"
    have es: "elems ?a = as @ f # bs" "length as = i" using i(1) by (simp_all add: as_def f_def bs_def id_take_nth_drop [symmetric])
    have "f_fd f = fd" using i(3) by (simp add: f_def)
    then have ob: "obtained ?sel ?sel fd as f bs"
      using ok find_split [of as f bs] d by (auto simp: obtained_def sel_ok_def entry_of_def es(1))
    from set_update [OF ob _ refl, of ?ev func farg] obtain sel2 where
      s2: "store_entry ?sel (int i) ?ev func farg = Some (sel2, 0)" "sel_ok sel2" "fs_select_break sel2 = 1"
        "entry_of sel2 = entry_set (entry_of ?sel) fd events func farg"
      unfolding obtained_spec [OF ob refl] by (auto simp: es(2))
    have "fdselect_set True sel fd events func farg = Some (sel2, 0)"
      using r(1) Some i(2) cnt s2(1) by (cases "events = 0") (simp_all add: fdselect_set_def ev Let_def)
    with s2 en show ?thesis by auto
  next
    case None
    let ?es = "elems ?a" and ?f = "fd_zero\<lparr>f_fd := fd\<rparr>"
    have m: "m_count ?a = int (length ?es)" by (rule m_count_elems [OF wf])
    obtain a1 where a1: "array_add True fd_zero ?a 1 = Some (a1, Some (int (length ?es)))" "array_wf a1"
        "elems a1 = ?es @ [fd_zero]"
      using array_add_spec [OF wf, of 1 fd_zero] by (auto simp: m)
    have get: "elt_at a1 (Some (int (length ?es))) = Some fd_zero"
      using elt_at_index [OF a1(2), of "length ?es"] by (simp add: a1(3))
    obtain a2 where a2: "put_elt a1 (int (length ?es)) ?f = Some a2" "array_wf a2" "elems a2 = ?es @ [?f]"
      using put_elt_spec [OF a1(2), of "length ?es" ?f] by (auto simp: a1(3))
    let ?sel2 = "?sel\<lparr>fs_fd_array := a2, fs_count := fs_count sel + 1\<rparr>"
    have no: "fd \<notin> f_fd ` set ?es" using None r(2) by (auto simp: in_set_conv_nth)
    then have "entry_of ?sel fd = None" by (simp add: entry_of_def find_outside)
    then have ob: "obtained ?sel ?sel2 fd ?es ?f []"
      using ok no a2 by (auto simp: obtained_def sel_ok_def entry_of_def)
    from set_update [OF ob _ refl, of ?ev func farg] obtain sel3 where
      s3: "store_entry ?sel2 (int (length ?es)) ?ev func farg = Some (sel3, 0)" "sel_ok sel3" "fs_select_break sel3 = 1"
        "entry_of sel3 = entry_set (entry_of ?sel) fd events func farg"
      unfolding obtained_spec [OF ob refl] by auto
    have "fdselect_set True sel fd events func farg = Some (sel3, 0)"
      using r(1) None cnt a1(1) a2(1) get s3(1) by (cases "events = 0") (simp_all add: fdselect_set_def ev Let_def)
    with s3 en show ?thesis by auto
  qed
qed

lemma sel_ok_init: "sel_ok fdselect_init" "entry_of fdselect_init = (\<lambda>_. None)"
  by (simp_all add: sel_ok_def fdselect_init_def fdselect_fd_size_def entry_of_def fun_eq_iff array_wf_init)

lemma fdselect_unset_spec:
  assumes ok: "sel_ok sel"
  shows "\<exists>sel'. fdselect_unset True sel fd events = Some (sel', 0) \<and> sel_ok sel' \<and> fs_select_break sel' = 1 \<and>
    entry_of sel' = entry_set (entry_of sel) fd (if events = 0 then - 1 else events) None 0"
proof -
  let ?sel = "sel\<lparr>fs_select_break := 1\<rparr>"
  have "sel_ok ?sel" "entry_of ?sel = entry_of sel" using ok by (simp_all add: sel_ok_def entry_of_def fun_eq_iff)
  then show ?thesis
    using fdselect_set_spec [of ?sel fd "if events = 0 then - 1 else events" None 0]
    by (simp only: fdselect_unset_def FDSELECT_ALL_def)
qed

text \<open>Histories of the two operations.\<close>

datatype 'h sel_op = SetOp int int "'h option" nat | UnsetOp int int

fun run_sel :: "'h fdselect_t \<Rightarrow> 'h sel_op list \<Rightarrow> 'h fdselect_t option" where
  "run_sel sel [] = Some sel"
| "run_sel sel (SetOp fd events func farg # ops) =
     do { (sel, r) \<leftarrow> fdselect_set True sel fd events func farg; run_sel sel ops }"
| "run_sel sel (UnsetOp fd events # ops) =
     do { (sel, r) \<leftarrow> fdselect_unset True sel fd events; run_sel sel ops }"

text \<open>
  The specification: a map from descriptors to the wanted events and the callbacks for reading and for writing.
  Setting a callback adds events, setting none removes them, and a descriptor without events is forgotten.
\<close>

type_synonym 'h interest = "int \<times> ('h option \<times> nat) \<times> ('h option \<times> nat)"

definition spec_set ::
    "(int \<Rightarrow> 'h interest option) \<Rightarrow> int \<Rightarrow> int \<Rightarrow> 'h option \<Rightarrow> nat \<Rightarrow> int \<Rightarrow> 'h interest option" where
  "spec_set m fd events func farg =
     (let (ev, r, w) = (case m fd of Some x \<Rightarrow> x | None \<Rightarrow> (0, (None, 0), (None, 0)));
          ev' = (if func = None then ev AND NOT events else ev OR events)
      in m(fd := if ev' = 0 then None
                 else Some (ev', if events AND 5 \<noteq> 0 then (func, farg) else r,
                            if events AND 2 \<noteq> 0 then (func, farg) else w)))"

fun spec_sel :: "(int \<Rightarrow> 'h interest option) \<Rightarrow> 'h sel_op list \<Rightarrow> int \<Rightarrow> 'h interest option" where
  "spec_sel m [] = m"
| "spec_sel m (SetOp fd events func farg # ops) = spec_sel (spec_set m fd (if events = 0 then 3 else events) func farg) ops"
| "spec_sel m (UnsetOp fd events # ops) = spec_sel (spec_set m fd (if events = 0 then - 1 else events) None 0) ops"

definition view :: "'h fdselect_fd \<Rightarrow> 'h interest" where
  "view f = (f_events f, (f_read_func f, f_read_farg f), (f_write_func f, f_write_farg f))"

definition view_of :: "'h fdselect_t \<Rightarrow> int \<Rightarrow> 'h interest option" where
  "view_of sel fd = map_option view (entry_of sel fd)"

lemma view_entry_set:
  "(\<lambda>x. map_option view (entry_set m fd events func farg x)) =
   spec_set (\<lambda>x. map_option view (m x)) fd (if events = 0 then 3 else events) func farg"
  by (rule ext) (auto simp: entry_set_def spec_set_def set_entry_def view_def fd_zero_def fdselect_events Let_def
    split: option.splits)

lemma run_sel_spec:
  "sel_ok sel \<Longrightarrow> \<exists>sel'. run_sel sel ops = Some sel' \<and> sel_ok sel' \<and> view_of sel' = spec_sel (view_of sel) ops"
proof (induction ops arbitrary: sel)
  case (Cons op ops)
  then show ?case
  proof (cases op)
    case (SetOp fd events func farg)
    from fdselect_set_spec [OF Cons.prems, of fd events func farg] obtain s1 where
      "fdselect_set True sel fd events func farg = Some (s1, 0)" "sel_ok s1"
      "entry_of s1 = entry_set (entry_of sel) fd events func farg" by blast
    moreover from this(3) have "view_of s1 = spec_set (view_of sel) fd (if events = 0 then 3 else events) func farg"
      using view_entry_set [of "entry_of sel" fd events func farg] by (simp add: view_of_def [abs_def])
    ultimately show ?thesis using Cons.IH [of s1] SetOp by simp
  next
    case (UnsetOp fd events)
    from fdselect_unset_spec [OF Cons.prems, of fd events] obtain s1 where
      "fdselect_unset True sel fd events = Some (s1, 0)" "sel_ok s1"
      "entry_of s1 = entry_set (entry_of sel) fd (if events = 0 then - 1 else events) None 0" by blast
    moreover from this(3) have "view_of s1 = spec_set (view_of sel) fd (if events = 0 then - 1 else events) None 0"
      using view_entry_set [of "entry_of sel" fd "if events = 0 then - 1 else events" None 0]
      by (simp add: view_of_def [abs_def] split: if_splits)
    ultimately show ?thesis using Cons.IH [of s1] UnsetOp by simp
  qed
qed simp

lemma fdselect_get_spec:
  assumes ok: "sel_ok sel"
  shows "\<exists>r. fdselect_get sel fd events = Some r \<and>
    map_option (\<lambda>p. elems (fs_fd_array sel) ! nat p) r =
      (case entry_of sel fd of None \<Rightarrow> None | Some f \<Rightarrow> if f_events f AND events \<noteq> 0 then Some f else None)"
proof -
  let ?a = "fs_fd_array sel" and ?P = "\<lambda>f. f_fd f = fd \<and> f_events f AND events \<noteq> 0"
  have wf: "array_wf ?a" and d: "distinct (map f_fd (elems ?a))" using ok by (auto simp: sel_ok_def)
  have cnt: "nat (array_count ?a) = length (elems ?a)" using wf by (simp add: array_count_eq)
  obtain r where r: "find_fd ?P ?a (length (elems ?a)) = Some r"
    "case r of None \<Rightarrow> \<forall>i<length (elems ?a). \<not> ?P (elems ?a ! i)
     | Some p \<Rightarrow> \<exists>i<length (elems ?a). p = int i \<and> ?P (elems ?a ! i)"
    using find_fd_spec [OF wf order_refl, of ?P] by blast
  have unique: "i < length (elems ?a) \<Longrightarrow> entry_of sel (f_fd (elems ?a ! i)) = Some (elems ?a ! i)" for i
    using find_split [of "take i (elems ?a)" "elems ?a ! i" "drop (Suc i) (elems ?a)"] d
    by (simp add: entry_of_def id_take_nth_drop [symmetric])
  show ?thesis
  proof (cases r)
    case (Some p)
    with r unique cnt show ?thesis by (auto simp: fdselect_get_def)
  next
    case None
    have "entry_of sel fd = Some f \<Longrightarrow> f_events f AND events = 0" for f
      using None r(2) by (auto simp: entry_of_def find_Some_iff)
    with None r(1) cnt show ?thesis by (auto simp: fdselect_get_def split: option.splits)
  qed
qed

text \<open>
  The descriptor table is the map its interface promises: after any history of \<open>fdselect_set\<close> and
  \<open>fdselect_unset\<close> from an empty table, no call has left the array, there is one entry per descriptor with wanted
  events and the counter counts them, and \<open>fdselect_get\<close> finds for each descriptor and event exactly the entry
  (events, functions and arguments) that the history gives it.
\<close>

theorem fdselect_history:
  "\<exists>sel'. run_sel fdselect_init ops = Some sel' \<and> sel_ok sel' \<and>
     (\<exists>r. fdselect_get sel' fd events = Some r \<and>
       map_option (\<lambda>p. view (elems (fs_fd_array sel') ! nat p)) r =
         (case spec_sel (\<lambda>_. None) ops fd of None \<Rightarrow> None
          | Some v \<Rightarrow> if fst v AND events \<noteq> 0 then Some v else None))"
proof -
  have i: "view_of fdselect_init = (\<lambda>_. None)" by (simp add: view_of_def sel_ok_init fun_eq_iff)
  from run_sel_spec [OF sel_ok_init(1), of ops, unfolded i] obtain sel' where
    s: "run_sel fdselect_init ops = Some sel'" "sel_ok sel'" "view_of sel' = spec_sel (\<lambda>_. None) ops" by blast
  from fdselect_get_spec [OF s(2), of fd events] obtain r where r: "fdselect_get sel' fd events = Some r"
    "map_option (\<lambda>p. elems (fs_fd_array sel') ! nat p) r =
      (case entry_of sel' fd of None \<Rightarrow> None | Some f \<Rightarrow> if f_events f AND events \<noteq> 0 then Some f else None)" by blast
  have "map_option (\<lambda>p. view (elems (fs_fd_array sel') ! nat p)) r = map_option view (map_option (\<lambda>p. elems (fs_fd_array sel') ! nat p) r)"
    by (simp add: option.map_comp comp_def)
  also have "\<dots> = (case view_of sel' fd of None \<Rightarrow> None | Some v \<Rightarrow> if fst v AND events \<noteq> 0 then Some v else None)"
    unfolding r(2) by (simp add: view_of_def view_def split: option.splits)
  finally show ?thesis using s r(1) by auto
qed

section \<open>Dispatching\<close>

text \<open>Callbacks that leave the table alone; what they are called with is logged.\<close>

definition log_call :: "('h, ('h \<times> nat \<times> int \<times> int) list) handler_call" where
  "log_call h farg fd st sel w = Some (sel, w @ [(h, farg, fd, st)])"

text \<open>The calls an entry is due, given the ready sets.\<close>

definition calls_for :: "int list \<Rightarrow> int list \<Rightarrow> 'h fdselect_fd \<Rightarrow> ('h \<times> nat \<times> int \<times> int) list" where
  "calls_for rfds wfds f =
     (case f_read_func f of Some h \<Rightarrow> if f_fd f \<in> set rfds then [(h, f_read_farg f, f_fd f, FDSELECT_READ)] else [] | None \<Rightarrow> []) @
     (case f_write_func f of Some h \<Rightarrow> if f_fd f \<in> set wfds then [(h, f_write_farg f, f_fd f, FDSELECT_WRITE)] else [] | None \<Rightarrow> [])"

lemma dispatch_logged:
  assumes "array_wf (fs_fd_array sel)" "fs_select_break sel = 0" "\<forall>f\<in>set (elems (fs_fd_array sel)). f_events f \<noteq> 0"
  shows "n \<le> length (elems (fs_fd_array sel)) \<Longrightarrow>
    dispatch log_call rfds wfds n sel w =
      Some (sel, w @ concat (map (calls_for rfds wfds) (rev (take n (elems (fs_fd_array sel))))))"
proof (induction n arbitrary: w)
  case (Suc n)
  let ?f = "elems (fs_fd_array sel) ! n"
  have e: "elt_at (fs_fd_array sel) (Some (int n)) = Some ?f" using Suc.prems assms(1) by (intro elt_at_index) auto
  have ev: "f_events ?f \<noteq> 0" using assms(3) Suc.prems by auto
  have "dispatch log_call rfds wfds (Suc n) sel w = dispatch log_call rfds wfds n sel (w @ calls_for rfds wfds ?f)"
    using assms(2) ev
    by (auto simp: e run_handler_def log_call_def calls_for_def split: option.splits)
  also have "\<dots> = Some (sel, (w @ calls_for rfds wfds ?f) @
      concat (map (calls_for rfds wfds) (rev (take n (elems (fs_fd_array sel))))))" using Suc by simp
  finally show ?case using Suc.prems by (simp add: take_Suc_conv_app_nth)
qed simp

lemma build_sets_ok:
  assumes "array_wf a" "\<forall>f\<in>set (elems a). 0 \<le> f_fd f \<and> f_fd f < FD_SETSIZE"
  shows "n \<le> length (elems a) \<Longrightarrow> \<exists>mx. build_sets a n m rs ws = Some (mx,
    rs @ map f_fd (filter (\<lambda>f. f_events f AND FDSELECT_READ \<noteq> 0) (rev (take n (elems a)))),
    ws @ map f_fd (filter (\<lambda>f. f_events f AND FDSELECT_WRITE \<noteq> 0) (rev (take n (elems a)))))"
proof (induction n arbitrary: m rs ws)
  case (Suc n)
  let ?f = "elems a ! n"
  have e: "elt_at a (Some (int n)) = Some ?f" using Suc.prems assms(1) by (intro elt_at_index) auto
  have fd: "0 \<le> f_fd ?f" "f_fd ?f < FD_SETSIZE" using assms(2) Suc.prems by auto
  have t: "rev (take (Suc n) (elems a)) = ?f # rev (take n (elems a))" using Suc.prems by (simp add: take_Suc_conv_app_nth)
  let ?R = "f_events ?f AND FDSELECT_READ \<noteq> 0" and ?W = "f_events ?f AND FDSELECT_WRITE \<noteq> 0"
  have "build_sets a (Suc n) m rs ws = build_sets a n (if f_fd ?f > m then f_fd ?f else m)
      (rs @ (if ?R then [f_fd ?f] else [])) (ws @ (if ?W then [f_fd ?f] else []))"
    using fd by (simp add: e fd_set_add_def)
  moreover from Suc obtain mx where "build_sets a n (if f_fd ?f > m then f_fd ?f else m)
      (rs @ (if ?R then [f_fd ?f] else [])) (ws @ (if ?W then [f_fd ?f] else [])) = Some (mx,
      (rs @ (if ?R then [f_fd ?f] else [])) @ map f_fd (filter (\<lambda>f. f_events f AND FDSELECT_READ \<noteq> 0) (rev (take n (elems a)))),
      (ws @ (if ?W then [f_fd ?f] else [])) @ map f_fd (filter (\<lambda>f. f_events f AND FDSELECT_WRITE \<noteq> 0) (rev (take n (elems a)))))"
    by (meson Suc_leD)
  ultimately show ?case unfolding t by simp
qed auto


definition one_reader :: "unit fdselect_t" where
  "one_reader = \<lparr>fs_count = 1, fs_select_break = 1,
     fs_fd_array = array_import (Some [fd_zero\<lparr>f_fd := 5, f_events := 1, f_read_func := Some (), f_read_farg := 8\<rparr>])
       (int (length [fd_zero\<lparr>f_fd := 5, f_events := 1, f_read_func := Some (), f_read_farg := 8\<rparr>])) fdselect_fd_size 0 None 0,
     fs_enable_win_loop = 0\<rparr>"


end
