(* ===== verification/SendList.thy ===== *)
theory SendList
  imports Select
begin

text \<open>
  \<open>sendlist.c\<close>, \<open>sendlist.h\<close>: a queue of buffers and file ranges to be sent on a socket, over the array of
  \<open>CArray\<close> and the descriptor table of \<open>Select\<close>. The socket is a parameter: \<open>io t\<close> is the outcome of the \<open>t\<close>th call
  of \<open>write\<close>, \<open>sendfile\<close> or \<open>sock_shutdown\<close>. What the outside world sees is a list of events: the bytes that
  were accepted, and the calls of \<open>free_func\<close> and \<open>flushed_func\<close>, which are recorded and do not call back. A
  pointer to a buffer is its contents; all allocations succeed.
\<close>

record sendbuf_t =
  sb_buf :: "byte list option"
  sb_fd :: int
  sb_len :: int
  sb_off :: int
  sb_free_func :: "nat option"
  sb_free_arg :: nat

record sendlist_t =
  sl_send_fd :: int
  sl_sendbufs :: "sendbuf_t array_t"
  sl_flushed_func :: "nat option"
  sl_func_arg :: nat

definition sendbuf_zero :: sendbuf_t where
  "sendbuf_zero = \<lparr>sb_buf = None, sb_fd = 0, sb_len = 0, sb_off = 0, sb_free_func = None, sb_free_arg = 0\<rparr>"

text \<open>
  The outcome of a system call: \<open>Done c\<close> when the system has room for \<open>c\<close> bytes (it takes that many or all it is
  given, whichever is less), "would block", or another error.
\<close>

datatype io = Done nat | WouldBlock | Failed

datatype send_event =
    Written int "byte list"
  | FileSent int int int int
  | ShutDown int
  | FreeCalled nat nat
  | FlushedCalled nat int nat

text \<open>The one callback that the queue registers, \<open>sendlist_select_write\<close>; its argument is the queue.\<close>

datatype send_handler = SendlistSelectWrite

definition sendbuf_size :: int where "sendbuf_size = 56"

definition sendlist_init :: "int \<Rightarrow> nat option \<Rightarrow> nat \<Rightarrow> sendlist_t" where
  "sendlist_init send_fd func arg =
     \<lparr>sl_send_fd = send_fd, sl_sendbufs = array_init sendbuf_size 10, sl_flushed_func = func, sl_func_arg = arg\<rparr>"

definition sendlist_peek :: "sendlist_t \<Rightarrow> int option" where
  "sendlist_peek sl = array_get (sl_sendbufs sl) 0"

definition sendlist_shift :: "sendlist_t \<Rightarrow> (sendlist_t \<times> int option \<times> send_event list) option" where
  "sendlist_shift sl =
     (case sendlist_peek sl of
        None \<Rightarrow> Some (sl, None, [])
      | Some p \<Rightarrow> do {
          sb \<leftarrow> elt_at (sl_sendbufs sl) (Some p);
          a \<leftarrow> array_remove_idx (sl_sendbufs sl) 0 1;
          Some (sl\<lparr>sl_sendbufs := a\<rparr>, Some p,
                case sb_free_func sb of Some f \<Rightarrow> [FreeCalled f (sb_free_arg sb)] | None \<Rightarrow> [])
        })"

definition sendlist_push :: "sendlist_t \<Rightarrow> (sendlist_t \<times> int option) option" where
  "sendlist_push sl =
     do { (a, p) \<leftarrow> array_add True sendbuf_zero (sl_sendbufs sl) 1; Some (sl\<lparr>sl_sendbufs := a\<rparr>, p) }"

text \<open>
  The body of the loop of \<open>sendlist_flush\<close> for the buffer at the head. The result is the count \<open>n\<close> (\<open>None\<close> when
  an assertion leaves the loop) and what was sent.
\<close>

definition send_head :: "io \<Rightarrow> int \<Rightarrow> sendbuf_t \<Rightarrow> (int option \<times> send_event list) option" where
  "send_head r out sb =
     (case sb_buf sb of
        Some b \<Rightarrow>
          (case r of
             Done c \<Rightarrow> do {
               let n = min (int c) (sb_len sb);
               xs \<leftarrow> slice b (sb_off sb) n;
               Some (Some n, [Written out xs])
             }
           | WouldBlock \<Rightarrow> Some (Some 0, [])
           | Failed \<Rightarrow> Some (None, []))
      | None \<Rightarrow>
          if sb_fd sb \<ge> 0 then
            (case r of
               Done c \<Rightarrow> (let n = min (int c) (sb_len sb) in Some (Some n, [FileSent out (sb_fd sb) (sb_off sb) n]))
             | WouldBlock \<Rightarrow> Some (Some 0, [])
             | Failed \<Rightarrow> Some (None, []))
          else
            (case r of
               Done c \<Rightarrow> Some (Some (sb_len sb), [ShutDown out])
             | _ \<Rightarrow> Some (None, [])))"

text \<open>
  The loop: the queue, the number of system calls made, what happened, and \<open>err\<close>. The loop ends because an
  iteration that goes on has removed an element.
\<close>

lemma remove_first_count:
  assumes "array_get a 0 = Some p" "array_remove_idx a 0 1 = Some a'"
  shows "m_count a' = m_count a - 1 \<and> 0 < m_count a"
proof -
  have "0 < m_count a" using assms(1) by (auto simp: array_get_def split: if_splits)
  then show ?thesis
    using assms by (auto simp: array_remove_idx_def Let_def split: if_splits Option.bind_splits)
qed

lemma put_elt_get: "put_elt a p x = Some a' \<Longrightarrow> array_get a' i = array_get a i \<and> m_count a' = m_count a"
  by (auto simp: put_elt_def array_get_def Let_def option_bind_Some)

lemma shift_count:
  assumes peek: "sendlist_peek sl = Some p" and put: "put_elt (sl_sendbufs sl) p sb = Some a"
    and shift: "sendlist_shift (sl\<lparr>sl_sendbufs := a\<rparr>) = Some (sl2, q, ev)"
  shows "m_count (sl_sendbufs sl2) < m_count (sl_sendbufs sl) \<and> 0 < m_count (sl_sendbufs sl)"
proof -
  have g: "array_get a 0 = Some p" and c: "m_count a = m_count (sl_sendbufs sl)"
    using put_elt_get [OF put, of 0] peek by (simp_all add: sendlist_peek_def)
  with shift obtain a' where "array_remove_idx a 0 1 = Some a'" "sl_sendbufs sl2 = a'"
    by (auto simp: sendlist_shift_def sendlist_peek_def option_bind_Some)
  with remove_first_count [OF g] c show ?thesis by auto
qed

function flush_loop ::
    "(nat \<Rightarrow> io) \<Rightarrow> sendlist_t \<Rightarrow> nat \<Rightarrow> (sendlist_t \<times> nat \<times> send_event list \<times> int) option" where
  "flush_loop io sl t =
     (case sendlist_peek sl of
        None \<Rightarrow> Some (sl, t, [], 0)
      | Some p \<Rightarrow> do {
          sb \<leftarrow> elt_at (sl_sendbufs sl) (Some p);
          (r, ev) \<leftarrow> send_head (io t) (sl_send_fd sl) sb;
          case r of
            None \<Rightarrow> Some (sl, Suc t, ev, - 1)
          | Some n \<Rightarrow> do {
              let sb = sb\<lparr>sb_len := sb_len sb - n, sb_off := sb_off sb + n\<rparr>;
              a \<leftarrow> put_elt (sl_sendbufs sl) p sb;
              let sl = sl\<lparr>sl_sendbufs := a\<rparr>;
              if sb_len sb > 0 then Some (sl, Suc t, ev, 1)
              else (case sendlist_shift sl of
                      None \<Rightarrow> None
                    | Some (sl, q, ev') \<Rightarrow> do {
                        (sl, t, ev'', err) \<leftarrow> flush_loop io sl (Suc t);
                        Some (sl, t, ev @ ev' @ ev'', err)
                      })
            }
        })"
  by pat_completeness auto
termination
  by (relation "measure (\<lambda>(io, sl, t). nat (m_count (sl_sendbufs sl)))") (auto dest: shift_count)

declare flush_loop.simps [simp del]

text \<open>\<open>me\<close> is the address of the queue, which is the argument of its callback.\<close>

definition sendlist_flush ::
    "nat \<Rightarrow> (nat \<Rightarrow> io) \<Rightarrow> sendlist_t \<Rightarrow> send_handler fdselect_t \<Rightarrow> nat \<Rightarrow>
     (sendlist_t \<times> send_handler fdselect_t \<times> nat \<times> send_event list \<times> int) option" where
  "sendlist_flush me io sl sel t =
     do {
       (sl, t, ev, err) \<leftarrow> flush_loop io sl t;
       (sel, e) \<leftarrow> (if err > 0 then fdselect_set True sel (sl_send_fd sl) FDSELECT_WRITE (Some SendlistSelectWrite) me
                   else fdselect_unset True sel (sl_send_fd sl) FDSELECT_WRITE);
       let fev = (case sl_flushed_func sl of Some f \<Rightarrow> [FlushedCalled f err (sl_func_arg sl)] | None \<Rightarrow> []);
       Some (sl, sel, t, ev @ fev, err)
     }"

definition sendlist_select_write ::
    "nat \<Rightarrow> (nat \<Rightarrow> io) \<Rightarrow> int \<Rightarrow> sendlist_t \<Rightarrow> send_handler fdselect_t \<Rightarrow> nat \<Rightarrow>
     (sendlist_t \<times> send_handler fdselect_t \<times> nat \<times> send_event list \<times> int) option" where
  "sendlist_select_write me io fd sl sel t =
     (if fd \<noteq> sl_send_fd sl then Some (sl, sel, t, [], - 1) else sendlist_flush me io sl sel t)"

definition sendlist_send ::
    "nat \<Rightarrow> (nat \<Rightarrow> io) \<Rightarrow> sendlist_t \<Rightarrow> send_handler fdselect_t \<Rightarrow> nat \<Rightarrow>
     byte list option \<Rightarrow> int \<Rightarrow> int \<Rightarrow> int \<Rightarrow> nat option \<Rightarrow> nat \<Rightarrow>
     (sendlist_t \<times> send_handler fdselect_t \<times> nat \<times> send_event list \<times> int) option" where
  "sendlist_send me io sl sel t buf fd off len func arg =
     do {
       (sl, p) \<leftarrow> sendlist_push sl;
       case p of
         None \<Rightarrow> Some (sl, sel, t, [], - 1)
       | Some i \<Rightarrow> do {
           a \<leftarrow> put_elt (sl_sendbufs sl) i
                  \<lparr>sb_buf = buf, sb_fd = fd, sb_len = len, sb_off = off, sb_free_func = func, sb_free_arg = arg\<rparr>;
           sendlist_flush me io (sl\<lparr>sl_sendbufs := a\<rparr>) sel t
         }
     }"

definition sendlist_send_buf ::
    "nat \<Rightarrow> (nat \<Rightarrow> io) \<Rightarrow> sendlist_t \<Rightarrow> send_handler fdselect_t \<Rightarrow> nat \<Rightarrow> byte list option \<Rightarrow> int \<Rightarrow> nat option \<Rightarrow> nat \<Rightarrow>
     (sendlist_t \<times> send_handler fdselect_t \<times> nat \<times> send_event list \<times> int) option" where
  "sendlist_send_buf me io sl sel t buf len func arg = sendlist_send me io sl sel t buf (- 1) 0 len func arg"

definition sendlist_send_fd ::
    "nat \<Rightarrow> (nat \<Rightarrow> io) \<Rightarrow> sendlist_t \<Rightarrow> send_handler fdselect_t \<Rightarrow> nat \<Rightarrow> int \<Rightarrow> int \<Rightarrow> int \<Rightarrow> nat option \<Rightarrow> nat \<Rightarrow>
     (sendlist_t \<times> send_handler fdselect_t \<times> nat \<times> send_event list \<times> int) option" where
  "sendlist_send_fd me io sl sel t fd off len func arg = sendlist_send me io sl sel t None fd off len func arg"

definition sendlist_shutdown ::
    "nat \<Rightarrow> (nat \<Rightarrow> io) \<Rightarrow> sendlist_t \<Rightarrow> send_handler fdselect_t \<Rightarrow> nat \<Rightarrow> nat option \<Rightarrow> nat \<Rightarrow>
     (sendlist_t \<times> send_handler fdselect_t \<times> nat \<times> send_event list \<times> int) option" where
  "sendlist_shutdown me io sl sel t func arg = sendlist_send me io sl sel t None (- 1) 0 0 func arg"

text \<open>\<open>sendlist_close\<close>, whose first loop is \<open>close_loop\<close> with at most \<open>n\<close> buffers to remove.\<close>

fun close_loop :: "nat \<Rightarrow> sendlist_t \<Rightarrow> (sendlist_t \<times> send_event list) option" where
  "close_loop n sl =
     do {
       (sl, p, ev) \<leftarrow> sendlist_shift sl;
       case p of None \<Rightarrow> Some (sl, ev)
       | Some _ \<Rightarrow> (case n of 0 \<Rightarrow> None | Suc n \<Rightarrow> do { (sl, ev') \<leftarrow> close_loop n sl; Some (sl, ev @ ev') })
     }"

declare close_loop.simps [simp del]

definition sendlist_close ::
    "sendlist_t \<Rightarrow> send_handler fdselect_t \<Rightarrow> (sendlist_t \<times> send_handler fdselect_t \<times> send_event list \<times> int) option" where
  "sendlist_close sl sel =
     do {
       (sl, ev) \<leftarrow> close_loop (nat (m_count (sl_sendbufs sl))) sl;
       (sel, e) \<leftarrow> fdselect_unset True sel (sl_send_fd sl) FDSELECT_WRITE;
       if e \<noteq> 0 then Some (sl, sel, ev, - 1)
       else Some (sl\<lparr>sl_sendbufs := fst (array_clear (sl_sendbufs sl))\<rparr>, sel, ev, 0)
     }"

section \<open>What is sent and what is pending\<close>

text \<open>One unit of output: a byte, a byte of a file, or the end of the stream.\<close>

datatype atom = Byte byte | FileByte int int | EndOfStream

definition entry_atoms :: "sendbuf_t \<Rightarrow> atom list" where
  "entry_atoms sb =
     (case sb_buf sb of
        Some b \<Rightarrow> map Byte (take (nat (sb_len sb)) (drop (nat (sb_off sb)) b))
      | None \<Rightarrow> if sb_fd sb \<ge> 0 then map (FileByte (sb_fd sb)) [sb_off sb..sb_off sb + sb_len sb - 1] else [EndOfStream])"

definition entry_frees :: "sendbuf_t \<Rightarrow> (nat \<times> nat) list" where
  "entry_frees sb = (case sb_free_func sb of Some f \<Rightarrow> [(f, sb_free_arg sb)] | None \<Rightarrow> [])"

fun sent :: "send_event list \<Rightarrow> atom list" where
  "sent [] = []"
| "sent (Written fd xs # ev) = map Byte xs @ sent ev"
| "sent (FileSent fd f off n # ev) = map (FileByte f) [off..off + n - 1] @ sent ev"
| "sent (ShutDown fd # ev) = EndOfStream # sent ev"
| "sent (_ # ev) = sent ev"

fun freed :: "send_event list \<Rightarrow> (nat \<times> nat) list" where
  "freed [] = []"
| "freed (FreeCalled f arg # ev) = (f, arg) # freed ev"
| "freed (_ # ev) = freed ev"

definition pending :: "sendlist_t \<Rightarrow> atom list" where
  "pending sl = concat (map entry_atoms (elems (sl_sendbufs sl)))"

definition pending_frees :: "sendlist_t \<Rightarrow> (nat \<times> nat) list" where
  "pending_frees sl = concat (map entry_frees (elems (sl_sendbufs sl)))"

definition sb_ok :: "sendbuf_t \<Rightarrow> bool" where
  "sb_ok sb \<longleftrightarrow> 0 \<le> sb_len sb \<and> 0 \<le> sb_off sb \<and>
     (case sb_buf sb of Some b \<Rightarrow> sb_off sb + sb_len sb \<le> int (length b) | None \<Rightarrow> True)"

definition sl_ok :: "sendlist_t \<Rightarrow> bool" where
  "sl_ok sl \<longleftrightarrow> array_wf (sl_sendbufs sl) \<and> list_all sb_ok (elems (sl_sendbufs sl))"

definition total_len :: "sendlist_t \<Rightarrow> nat" where
  "total_len sl = sum_list (map (\<lambda>sb. nat (sb_len sb)) (elems (sl_sendbufs sl)))"

lemma sent_append [simp]: "sent (xs @ ys) = sent xs @ sent ys"
  by (induction xs rule: sent.induct) auto

lemma freed_append [simp]: "freed (xs @ ys) = freed xs @ freed ys"
  by (induction xs rule: freed.induct) auto

lemma upto_join: "0 \<le> n \<Longrightarrow> n \<le> k \<Longrightarrow> [x..x + n - 1] @ [x + n..x + k - 1] = [x..x + k - 1]"
  using upto_split1 [of x "x + n" "x + k - 1"] by (cases "n = k") auto

text \<open>Sending from the head keeps what is sent and what remains together.\<close>

definition advanced :: "sendbuf_t \<Rightarrow> int \<Rightarrow> sendbuf_t" where
  "advanced sb n = sb\<lparr>sb_len := sb_len sb - n, sb_off := sb_off sb + n\<rparr>"

lemma take_join: "n \<le> k \<Longrightarrow> take n (drop i b) @ take (k - n) (drop (i + n) b) = take k (drop i b)"
  by (metis add.commute drop_drop le_add_diff_inverse take_add)

definition sends :: "sendbuf_t \<Rightarrow> int \<Rightarrow> send_event list \<Rightarrow> bool" where
  "sends sb n ev \<longleftrightarrow> freed ev = [] \<and> 0 \<le> n \<and> n \<le> sb_len sb \<and>
     sent ev @ (if n < sb_len sb then entry_atoms (advanced sb n) else []) = entry_atoms sb"

lemma sends_bytes:
  assumes "sb_ok sb" "sb_buf sb = Some b" "0 \<le> n" "n \<le> sb_len sb"
  shows "\<exists>xs. slice b (sb_off sb) n = Some xs \<and> sends sb n [Written out xs]"
proof -
  have o: "0 \<le> sb_off sb" "sb_off sb + sb_len sb \<le> int (length b)" using assms by (auto simp: sb_ok_def)
  then have "slice b (sb_off sb) n = Some (take (nat n) (drop (nat (sb_off sb)) b))"
    using assms(3,4) by (intro slice_ok) auto
  moreover have "sends sb n [Written out (take (nat n) (drop (nat (sb_off sb)) b))]"
  proof (cases "n < sb_len sb")
    case True
    have e: "nat (sb_len sb - n) = nat (sb_len sb) - nat n" "nat (sb_off sb + n) = nat (sb_off sb) + nat n"
      using assms(3) o True by (simp_all add: nat_diff_distrib nat_add_distrib)
    show ?thesis using True assms take_join [of "nat n" "nat (sb_len sb)" "nat (sb_off sb)" b]
      by (simp add: sends_def entry_atoms_def advanced_def e map_append [symmetric] del: map_append)
  next
    case False
    then show ?thesis using assms by (simp add: sends_def entry_atoms_def)
  qed
  ultimately show ?thesis by blast
qed

lemma sends_file:
  assumes "sb_buf sb = None" "0 \<le> sb_fd sb" "0 \<le> n" "n \<le> sb_len sb"
  shows "sends sb n [FileSent out (sb_fd sb) (sb_off sb) n]"
proof (cases "n < sb_len sb")
  case True
  have "sb_off sb + n + (sb_len sb - n) = sb_off sb + sb_len sb" by simp
  then show ?thesis using True assms upto_join [of n "sb_len sb" "sb_off sb"]
    by (simp add: sends_def entry_atoms_def advanced_def map_append [symmetric] del: map_append)
next
  case False
  then show ?thesis using assms by (simp add: sends_def entry_atoms_def)
qed

lemma send_head_spec:
  assumes ok: "sb_ok sb"
  obtains (stop) ev where "send_head r out sb = Some (None, ev)" "sent ev = []" "freed ev = []" "r = Failed \<or> r = WouldBlock \<and> EndOfStream \<in> set (entry_atoms sb)"
  | (go) n ev where "send_head r out sb = Some (Some n, ev)" "sends sb n ev" "\<forall>c. r = Done c \<and> 0 < c \<longrightarrow> n = sb_len sb \<or> 0 < n"
proof (cases r)
  case (Done c)
  let ?n = "min (int c) (sb_len sb)"
  have n: "0 \<le> ?n" "?n \<le> sb_len sb" using ok by (auto simp: sb_ok_def)
  show ?thesis
  proof (cases "sb_buf sb")
    case (Some b)
    from sends_bytes [OF ok Some n, of out] obtain xs where
      xs: "slice b (sb_off sb) ?n = Some xs" "sends sb ?n [Written out xs]" by blast
    with Done Some show ?thesis by (intro go [OF _ xs(2)]) (auto simp: send_head_def Let_def)
  next
    case None
    show ?thesis
    proof (cases "0 \<le> sb_fd sb")
      case True
      with None Done show ?thesis by (intro go [OF _ sends_file [OF None True n, of out]]) (auto simp: send_head_def Let_def)
    next
      case False
      with None Done ok show ?thesis
        by (intro go [of "sb_len sb" "[ShutDown out]"]) (auto simp: send_head_def sends_def entry_atoms_def sb_ok_def)
    qed
  qed
next
  case WouldBlock
  show ?thesis
  proof (cases "sb_buf sb = None \<and> sb_fd sb < 0")
    case True
    with WouldBlock show ?thesis by (intro stop [of "[]"]) (auto simp: send_head_def entry_atoms_def)
  next
    case False
    have "sends sb 0 []" using ok False by (auto simp: sends_def entry_atoms_def advanced_def sb_ok_def split: option.splits)
    with WouldBlock False show ?thesis by (intro go [of 0 "[]"]) (auto simp: send_head_def split: option.splits)
  qed
next
  case Failed
  then show ?thesis by (intro stop [of "[]"]) (auto simp: send_head_def split: option.splits)
qed

section \<open>The loop\<close>

lemma sl_head:
  assumes "sl_ok sl"
  shows "(elems (sl_sendbufs sl) = [] \<and> sendlist_peek sl = None) \<or>
    (\<exists>sb bs. elems (sl_sendbufs sl) = sb # bs \<and> sendlist_peek sl = Some 0 \<and>
       elt_at (sl_sendbufs sl) (Some 0) = Some sb \<and> sb_ok sb \<and> list_all sb_ok bs)"
proof (cases "elems (sl_sendbufs sl)")
  case Nil
  with assms show ?thesis by (simp add: sendlist_peek_def sl_ok_def array_get_eq Let_def)
next
  case (Cons sb bs)
  with assms elt_at_index [of "sl_sendbufs sl" 0] show ?thesis
    by (auto simp: sendlist_peek_def sl_ok_def array_get_eq Let_def)
qed

lemma sl_shift:
  assumes "sl_ok sl" "elems (sl_sendbufs sl) = sb # bs"
  shows "\<exists>a. sendlist_shift sl = Some (sl\<lparr>sl_sendbufs := a\<rparr>, Some 0,
      case sb_free_func sb of Some f \<Rightarrow> [FreeCalled f (sb_free_arg sb)] | None \<Rightarrow> []) \<and>
    array_wf a \<and> elems a = bs"
proof -
  from sl_head [OF assms(1)] assms(2) have h: "sendlist_peek sl = Some 0" "elt_at (sl_sendbufs sl) (Some 0) = Some sb" by auto
  obtain a where "array_remove_idx (sl_sendbufs sl) 0 1 = Some a" "array_wf a" "elems a = bs"
    using arr.remove_ok [of "sl_sendbufs sl" 0] assms by (auto simp: sl_ok_def)
  with h show ?thesis by (auto simp: sendlist_shift_def)
qed

lemma sl_put_head:
  assumes "sl_ok sl" "elems (sl_sendbufs sl) = sb # bs" "sb_ok sb'"
  shows "\<exists>a. put_elt (sl_sendbufs sl) 0 sb' = Some a \<and> sl_ok (sl\<lparr>sl_sendbufs := a\<rparr>) \<and> elems a = sb' # bs"
  using put_elt_spec [of "sl_sendbufs sl" 0 sb'] assms by (auto simp: sl_ok_def)

text \<open>What a run of the loop leaves and reports.\<close>

definition flushed :: "(nat \<Rightarrow> io) \<Rightarrow> sendlist_t \<Rightarrow> sendlist_t \<Rightarrow> send_event list \<Rightarrow> int \<Rightarrow> bool" where
  "flushed io sl sl' ev err \<longleftrightarrow> sl_ok sl' \<and> sl_send_fd sl' = sl_send_fd sl \<and> sl_flushed_func sl' = sl_flushed_func sl \<and>
     sent ev @ pending sl' = pending sl \<and> freed ev @ pending_frees sl' = pending_frees sl \<and>
     (err = 0 \<and> elems (sl_sendbufs sl') = [] \<or> err = 1 \<and> elems (sl_sendbufs sl') \<noteq> [] \<or> err = - 1 \<and> ((\<exists>t. io t = Failed) \<or> EndOfStream \<in> set (pending sl'))) \<and>
     ((\<forall>t. \<exists>c>0. io t = Done c) \<longrightarrow> err = 0 \<or> err = 1 \<and> total_len sl' < total_len sl)"

lemma flush_loop_spec:
  "sl_ok sl \<Longrightarrow> \<exists>sl' t' ev err. flush_loop io sl t = Some (sl', t', ev, err) \<and> flushed io sl sl' ev err"
proof (induction "length (elems (sl_sendbufs sl))" arbitrary: sl t)
  case 0
  then have "elems (sl_sendbufs sl) = []" by simp
  with sl_head [OF 0(2)] 0(2) show ?case by (subst flush_loop.simps) (auto simp: flushed_def)
next
  case (Suc n)
  from Suc(2) sl_head [OF Suc(3)] obtain sb bs where es: "elems (sl_sendbufs sl) = sb # bs"
    and h: "sendlist_peek sl = Some 0" "elt_at (sl_sendbufs sl) (Some 0) = Some sb" "sb_ok sb" by auto
  show ?case
  proof (cases rule: send_head_spec [OF h(3), of "io t" "sl_send_fd sl"])
    case (1 ev)
    have "flush_loop io sl t = Some (sl, Suc t, ev, - 1)" using h 1(1) by (subst flush_loop.simps) simp
    moreover have "flushed io sl sl ev (- 1)"
      using Suc(3) 1 by (auto simp: flushed_def pending_def es) (metis io.distinct)+
    ultimately show ?thesis by blast
  next
    case (2 m ev)
    let ?sb = "advanced sb m"
    have ok: "sb_ok ?sb" using 2(2) h(3) by (auto simp: sb_ok_def advanced_def sends_def split: option.splits)
    obtain a where a: "put_elt (sl_sendbufs sl) 0 ?sb = Some a" "sl_ok (sl\<lparr>sl_sendbufs := a\<rparr>)" "elems a = ?sb # bs"
      using sl_put_head [OF Suc(3) es ok] by blast
    let ?sl = "sl\<lparr>sl_sendbufs := a\<rparr>"
    show ?thesis
    proof (cases "m < sb_len sb")
      case True
      have "flush_loop io sl t = Some (?sl, Suc t, ev, 1)"
        using h 2(1) a(1) True by (subst flush_loop.simps) (simp add: advanced_def)
      moreover have "flushed io sl ?sl ev 1"
        using True a 2(2,3) h(3)
        by (auto simp: flushed_def sends_def pending_def pending_frees_def es total_len_def advanced_def
          entry_frees_def sb_ok_def split: option.splits)
      ultimately show ?thesis by blast
    next
      case False
      with 2(2) have m: "m = sb_len sb" by (simp add: sends_def)
      have adv: "sb_free_func ?sb = sb_free_func sb" "sb_free_arg ?sb = sb_free_arg sb" by (simp_all add: advanced_def)
      from sl_shift [OF a(2), of ?sb bs] a(3) obtain a' where a': "sendlist_shift ?sl = Some (sl\<lparr>sl_sendbufs := a'\<rparr>, Some 0,
          case sb_free_func sb of Some f \<Rightarrow> [FreeCalled f (sb_free_arg sb)] | None \<Rightarrow> [])" "array_wf a'" "elems a' = bs"
        unfolding adv by auto
      let ?sl2 = "sl\<lparr>sl_sendbufs := a'\<rparr>"
      let ?fev = "case sb_free_func sb of Some f \<Rightarrow> [FreeCalled f (sb_free_arg sb)] | None \<Rightarrow> []"
      have fev: "sent ?fev = []" "freed ?fev = entry_frees sb" by (auto simp: entry_frees_def split: option.splits)
      have ok2: "sl_ok ?sl2" using a' a(2,3) by (simp add: sl_ok_def)
      have "n = length (elems (sl_sendbufs ?sl2))" using Suc(2) es a'(3) by simp
      from Suc(1) [OF this ok2, of "Suc t"] obtain sl3 t3 ev3 err where
        r: "flush_loop io ?sl2 (Suc t) = Some (sl3, t3, ev3, err)" "flushed io ?sl2 sl3 ev3 err" by blast
      have "flush_loop io sl t = Some (sl3, t3, ev @ ?fev @ ev3, err)"
        using h 2(1) a(1) False a'(1) r(1) by (subst flush_loop.simps) (simp add: advanced_def)
      moreover have "flushed io sl sl3 (ev @ ?fev @ ev3) err"
        using r(2) 2(2) m fev by (fastforce simp: flushed_def sends_def pending_def pending_frees_def es a'(3) total_len_def)
      ultimately show ?thesis by blast
    qed
  qed
qed

section \<open>Flushing and the descriptor table\<close>

text \<open>Whether the event loop waits until a descriptor can be written.\<close>

definition waits :: "send_handler fdselect_t \<Rightarrow> int \<Rightarrow> bool" where
  "waits sel fd \<longleftrightarrow> (\<exists>p. fdselect_get sel fd FDSELECT_WRITE = Some (Some p))"

lemma waits_entry:
  assumes "sel_ok sel"
  shows "waits sel fd \<longleftrightarrow> (\<exists>f. entry_of sel fd = Some f \<and> f_events f AND 2 \<noteq> 0)"
proof -
  obtain r where r: "fdselect_get sel fd 2 = Some r"
    "map_option (\<lambda>p. elems (fs_fd_array sel) ! nat p) r =
      (case entry_of sel fd of None \<Rightarrow> None | Some f \<Rightarrow> if f_events f AND 2 \<noteq> 0 then Some f else None)"
    using fdselect_get_spec [OF assms, of fd 2] by blast
  show ?thesis
  proof (cases r)
    case None
    with r(2) have "\<forall>f. entry_of sel fd = Some f \<longrightarrow> f_events f AND 2 = 0" by (auto split: if_splits)
    with None r(1) show ?thesis by (auto simp: waits_def FDSELECT_WRITE_def)
  next
    case (Some p)
    with r(2) have "\<exists>f. entry_of sel fd = Some f \<and> f_events f AND 2 \<noteq> 0" by (auto split: option.splits if_splits)
    with Some r(1) show ?thesis by (auto simp: waits_def FDSELECT_WRITE_def)
  qed
qed

lemma write_bit: "(x OR 2) AND (2 :: int) = 2" "(x AND - 3) AND (2 :: int) = 0"
proof -
  show "(x OR 2) AND (2 :: int) = 2" by (rule bit_eqI) (auto simp: bit_and_iff bit_or_iff)
  show "(x AND - 3) AND (2 :: int) = 0" by (simp add: and.assoc)
qed

lemma entry_set_write:
  "\<exists>f. entry_set m fd 2 (Some h) arg fd = Some f \<and> f_events f AND 2 \<noteq> 0"
  "entry_set m fd 2 None arg fd = Some f \<Longrightarrow> f_events f AND 2 = 0"
proof -
  let ?f = "set_entry 2 (Some h) arg (case m fd of Some f \<Rightarrow> f | None \<Rightarrow> fd_zero\<lparr>f_fd := fd\<rparr>)"
  have "f_events ?f AND 2 = 2" by (simp add: set_entry_def Let_def write_bit)
  then have "f_events ?f AND 2 \<noteq> 0" and "f_events ?f \<noteq> 0" by auto
  then show "\<exists>f. entry_set m fd 2 (Some h) arg fd = Some f \<and> f_events f AND 2 \<noteq> 0"
    by (simp add: entry_set_def Let_def)
  let ?g = "set_entry 2 None arg (case m fd of Some f \<Rightarrow> f | None \<Rightarrow> fd_zero\<lparr>f_fd := fd\<rparr>)"
  have "f_events ?g AND 2 = 0" by (simp add: set_entry_def Let_def write_bit)
  then show "entry_set m fd 2 None arg fd = Some f \<Longrightarrow> f_events f AND 2 = 0"
    by (auto simp: entry_set_def Let_def split: if_splits)
qed

lemma set_waits:
  assumes "sel_ok sel"
  shows "\<exists>sel'. fdselect_set True sel fd FDSELECT_WRITE (Some h) me = Some (sel', 0) \<and> sel_ok sel' \<and> waits sel' fd"
proof -
  from fdselect_set_spec [OF assms, of fd FDSELECT_WRITE "Some h" me] obtain sel' where
    s: "fdselect_set True sel fd FDSELECT_WRITE (Some h) me = Some (sel', 0)" "sel_ok sel'"
      "entry_of sel' = entry_set (entry_of sel) fd 2 (Some h) me" by (auto simp: fdselect_events)
  with entry_set_write(1) [of "entry_of sel" fd h me] show ?thesis by (auto simp: waits_entry)
qed

lemma unset_waits:
  assumes "sel_ok sel"
  shows "\<exists>sel'. fdselect_unset True sel fd FDSELECT_WRITE = Some (sel', 0) \<and> sel_ok sel' \<and> \<not> waits sel' fd"
proof -
  from fdselect_unset_spec [OF assms, of fd FDSELECT_WRITE] obtain sel' where
    s: "fdselect_unset True sel fd FDSELECT_WRITE = Some (sel', 0)" "sel_ok sel'"
      "entry_of sel' = entry_set (entry_of sel) fd 2 None 0" by (auto simp: fdselect_events)
  with entry_set_write(2) [of "entry_of sel" fd 0] show ?thesis by (auto simp: waits_entry)
qed

lemma flush_spec:
  assumes "sl_ok sl" "sel_ok sel"
  shows "\<exists>sl' sel' t' ev err. sendlist_flush me io sl sel t = Some (sl', sel', t', ev, err) \<and> sel_ok sel' \<and>
    flushed io sl sl' ev err \<and> (waits sel' (sl_send_fd sl) \<longleftrightarrow> err = 1)"
proof -
  from flush_loop_spec [OF assms(1), of io t] obtain sl' t' ev err where
    f: "flush_loop io sl t = Some (sl', t', ev, err)" "flushed io sl sl' ev err" by blast
  have fd: "sl_send_fd sl' = sl_send_fd sl" and err: "err > 0 \<longleftrightarrow> err = 1" using f(2) by (auto simp: flushed_def)
  let ?fev = "case sl_flushed_func sl' of Some g \<Rightarrow> [FlushedCalled g err (sl_func_arg sl')] | None \<Rightarrow> []"
  have "sent ?fev = []" "freed ?fev = []" by (auto split: option.splits)
  then have fl: "flushed io sl sl' (ev @ ?fev) err" using f(2) by (simp add: flushed_def)
  show ?thesis
  proof (cases "err = 1")
    case True
    from set_waits [OF assms(2), of "sl_send_fd sl" SendlistSelectWrite me] obtain sel' where
      "fdselect_set True sel (sl_send_fd sl) FDSELECT_WRITE (Some SendlistSelectWrite) me = Some (sel', 0)"
      "sel_ok sel'" "waits sel' (sl_send_fd sl)" by blast
    with True f(1) fl fd show ?thesis by (cases "sl_flushed_func sl'") (simp_all add: sendlist_flush_def Let_def)
  next
    case False
    from unset_waits [OF assms(2), of "sl_send_fd sl"] obtain sel' where
      "fdselect_unset True sel (sl_send_fd sl) FDSELECT_WRITE = Some (sel', 0)"
      "sel_ok sel'" "\<not> waits sel' (sl_send_fd sl)" by blast
    with False err f(1) fl fd show ?thesis by (simp add: sendlist_flush_def Let_def)
  qed
qed

section \<open>Histories\<close>

datatype queue_op =
    SendBuf "byte list" int "nat option" nat
  | SendFile int int int "nat option" nat
  | SendEnd "nat option" nat
  | Writable

fun op_ok :: "queue_op \<Rightarrow> bool" where
  "op_ok (SendBuf b len _ _) \<longleftrightarrow> 0 \<le> len \<and> len \<le> int (length b)"
| "op_ok (SendFile fd off len _ _) \<longleftrightarrow> 0 \<le> fd \<and> 0 \<le> off \<and> 0 \<le> len"
| "op_ok _ \<longleftrightarrow> True"

fun op_atoms :: "queue_op \<Rightarrow> atom list" where
  "op_atoms (SendBuf b len _ _) = map Byte (take (nat len) b)"
| "op_atoms (SendFile fd off len _ _) = map (FileByte fd) [off..off + len - 1]"
| "op_atoms (SendEnd _ _) = [EndOfStream]"
| "op_atoms Writable = []"

fun op_frees :: "queue_op \<Rightarrow> (nat \<times> nat) list" where
  "op_frees (SendBuf _ _ (Some f) arg) = [(f, arg)]"
| "op_frees (SendFile _ _ _ (Some f) arg) = [(f, arg)]"
| "op_frees (SendEnd (Some f) arg) = [(f, arg)]"
| "op_frees _ = []"

fun run_op ::
    "nat \<Rightarrow> (nat \<Rightarrow> io) \<Rightarrow> sendlist_t \<Rightarrow> send_handler fdselect_t \<Rightarrow> nat \<Rightarrow> queue_op \<Rightarrow>
     (sendlist_t \<times> send_handler fdselect_t \<times> nat \<times> send_event list \<times> int) option" where
  "run_op me io sl sel t (SendBuf b len f arg) = sendlist_send_buf me io sl sel t (Some b) len f arg"
| "run_op me io sl sel t (SendFile fd off len f arg) = sendlist_send_fd me io sl sel t fd off len f arg"
| "run_op me io sl sel t (SendEnd f arg) = sendlist_shutdown me io sl sel t f arg"
| "run_op me io sl sel t Writable = sendlist_select_write me io (sl_send_fd sl) sl sel t"

fun run_queue ::
    "nat \<Rightarrow> (nat \<Rightarrow> io) \<Rightarrow> sendlist_t \<Rightarrow> send_handler fdselect_t \<Rightarrow> nat \<Rightarrow> queue_op list \<Rightarrow>
     (sendlist_t \<times> send_handler fdselect_t \<times> nat \<times> send_event list) option" where
  "run_queue me io sl sel t [] = Some (sl, sel, t, [])"
| "run_queue me io sl sel t (x # ops) =
     do {
       (sl, sel, t, ev, err) \<leftarrow> run_op me io sl sel t x;
       (sl, sel, t, ev') \<leftarrow> run_queue me io sl sel t ops;
       Some (sl, sel, t, ev @ ev')
     }"

lemma send_queued:
  assumes "sl_ok sl" "sb_ok sb" "sb = \<lparr>sb_buf = buf, sb_fd = fd, sb_len = len, sb_off = off, sb_free_func = f, sb_free_arg = arg\<rparr>"
  shows "\<exists>a. sendlist_send me io sl sel t buf fd off len f arg = sendlist_flush me io (sl\<lparr>sl_sendbufs := a\<rparr>) sel t \<and>
    sl_ok (sl\<lparr>sl_sendbufs := a\<rparr>) \<and> elems a = elems (sl_sendbufs sl) @ [sb]"
proof -
  let ?es = "elems (sl_sendbufs sl)"
  have wf: "array_wf (sl_sendbufs sl)" using assms(1) by (simp add: sl_ok_def)
  obtain a where a: "array_add True sendbuf_zero (sl_sendbufs sl) 1 = Some (a, Some (int (length ?es)))" "array_wf a"
      "elems a = ?es @ [sendbuf_zero]"
    using array_add_spec [OF wf, of 1 sendbuf_zero] by (auto simp: m_count_elems [OF wf])
  obtain a' where a': "put_elt a (int (length ?es)) sb = Some a'" "array_wf a'" "elems a' = ?es @ [sb]"
    using put_elt_spec [OF a(2), of "length ?es" sb] by (auto simp: a(3))
  have "sl_ok (sl\<lparr>sl_sendbufs := a'\<rparr>)" using a' assms by (simp add: sl_ok_def)
  with a(1) a' assms(3) show ?thesis
    by (intro exI [of _ a']) (simp add: sendlist_send_def sendlist_push_def)
qed

text \<open>Every operation is a flush of the queue with the new buffer at its end.\<close>

lemma run_op_flush:
  assumes "sl_ok sl" "op_ok x"
  shows "\<exists>sl1. run_op me io sl sel t x = sendlist_flush me io sl1 sel t \<and> sl_ok sl1 \<and> sl_send_fd sl1 = sl_send_fd sl \<and>
    pending sl1 = pending sl @ op_atoms x \<and> pending_frees sl1 = pending_frees sl @ op_frees x"
proof (cases x)
  case (SendBuf b len f arg)
  let ?sb = "\<lparr>sb_buf = Some b, sb_fd = - 1, sb_len = len, sb_off = 0, sb_free_func = f, sb_free_arg = arg\<rparr>"
  have "sb_ok ?sb" using assms(2) SendBuf by (simp add: sb_ok_def)
  from send_queued [OF assms(1) this refl, of me io sel t] SendBuf show ?thesis
    by (cases f) (auto simp: sendlist_send_buf_def pending_def pending_frees_def entry_atoms_def entry_frees_def)
next
  case (SendFile fd off len f arg)
  let ?sb = "\<lparr>sb_buf = None, sb_fd = fd, sb_len = len, sb_off = off, sb_free_func = f, sb_free_arg = arg\<rparr>"
  have "sb_ok ?sb" using assms(2) SendFile by (simp add: sb_ok_def)
  from send_queued [OF assms(1) this refl, of me io sel t] SendFile assms(2) show ?thesis
    by (cases f) (auto simp: sendlist_send_fd_def pending_def pending_frees_def entry_atoms_def entry_frees_def)
next
  case (SendEnd f arg)
  let ?sb = "\<lparr>sb_buf = None, sb_fd = - 1, sb_len = 0, sb_off = 0, sb_free_func = f, sb_free_arg = arg\<rparr>"
  have "sb_ok ?sb" by (simp add: sb_ok_def)
  from send_queued [OF assms(1) this refl, of me io sel t] SendEnd show ?thesis
    by (cases f) (auto simp: sendlist_shutdown_def pending_def pending_frees_def entry_atoms_def entry_frees_def)
next
  case Writable
  with assms(1) show ?thesis by (intro exI [of _ sl]) (simp add: sendlist_select_write_def)
qed

text \<open>The loop waits for the socket exactly while there is something to send.\<close>

definition watched :: "(nat \<Rightarrow> io) \<Rightarrow> sendlist_t \<Rightarrow> send_handler fdselect_t \<Rightarrow> bool" where
  "watched io sl sel \<longleftrightarrow> ((\<forall>t. io t \<noteq> Failed) \<and> EndOfStream \<notin> set (pending sl) \<longrightarrow>
     (waits sel (sl_send_fd sl) \<longleftrightarrow> elems (sl_sendbufs sl) \<noteq> []))"

lemma run_op_spec:
  assumes "sl_ok sl" "sel_ok sel" "op_ok x"
  shows "\<exists>sl' sel' t' ev err. run_op me io sl sel t x = Some (sl', sel', t', ev, err) \<and> sl_ok sl' \<and> sel_ok sel' \<and>
    sl_send_fd sl' = sl_send_fd sl \<and> sent ev @ pending sl' = pending sl @ op_atoms x \<and>
    freed ev @ pending_frees sl' = pending_frees sl @ op_frees x \<and> watched io sl' sel'"
proof -
  from run_op_flush [OF assms(1,3), of me io sel t] obtain sl1 where
    1: "run_op me io sl sel t x = sendlist_flush me io sl1 sel t" "sl_ok sl1" "sl_send_fd sl1 = sl_send_fd sl"
      "pending sl1 = pending sl @ op_atoms x" "pending_frees sl1 = pending_frees sl @ op_frees x" by blast
  from flush_spec [OF 1(2) assms(2), of me io t] obtain sl' sel' t' ev err where
    2: "sendlist_flush me io sl1 sel t = Some (sl', sel', t', ev, err)" "sel_ok sel'" "flushed io sl1 sl' ev err"
      "waits sel' (sl_send_fd sl1) \<longleftrightarrow> err = 1" by blast
  have "watched io sl' sel'" using 1(3) 2(3,4) by (auto simp: flushed_def watched_def)
  then show ?thesis using 1 2 by (auto simp: flushed_def)
qed

lemma run_queue_spec:
  "sl_ok sl \<Longrightarrow> sel_ok sel \<Longrightarrow> watched io sl sel \<Longrightarrow> list_all op_ok ops \<Longrightarrow>
   \<exists>sl' sel' t' ev. run_queue me io sl sel t ops = Some (sl', sel', t', ev) \<and> sl_ok sl' \<and> sel_ok sel' \<and>
     sl_send_fd sl' = sl_send_fd sl \<and> watched io sl' sel' \<and>
     sent ev @ pending sl' = pending sl @ concat (map op_atoms ops) \<and>
     freed ev @ pending_frees sl' = pending_frees sl @ concat (map op_frees ops)"
proof (induction ops arbitrary: sl sel t)
  case (Cons x ops)
  from run_op_spec [OF Cons.prems(1,2), of x me io t] Cons.prems(4) obtain sl1 sel1 t1 ev1 err where
    1: "run_op me io sl sel t x = Some (sl1, sel1, t1, ev1, err)" "sl_ok sl1" "sel_ok sel1" "sl_send_fd sl1 = sl_send_fd sl"
      "sent ev1 @ pending sl1 = pending sl @ op_atoms x" "freed ev1 @ pending_frees sl1 = pending_frees sl @ op_frees x"
      "watched io sl1 sel1" by auto
  have ok: "list_all op_ok ops" using Cons.prems(4) by simp
  from Cons.IH [OF 1(2,3,7) ok, of t1] obtain sl2 sel2 t2 ev2 where
    2: "run_queue me io sl1 sel1 t1 ops = Some (sl2, sel2, t2, ev2)" "sl_ok sl2" "sel_ok sel2" "sl_send_fd sl2 = sl_send_fd sl1"
      "watched io sl2 sel2" "sent ev2 @ pending sl2 = pending sl1 @ concat (map op_atoms ops)"
      "freed ev2 @ pending_frees sl2 = pending_frees sl1 @ concat (map op_frees ops)" by blast
  have "sent (ev1 @ ev2) @ pending sl2 = (sent ev1 @ pending sl1) @ concat (map op_atoms ops)" using 2(6) by simp
  also have "\<dots> = pending sl @ concat (map op_atoms (x # ops))" unfolding 1(5) by simp
  finally have s: "sent (ev1 @ ev2) @ pending sl2 = pending sl @ concat (map op_atoms (x # ops))" .
  have "freed (ev1 @ ev2) @ pending_frees sl2 = (freed ev1 @ pending_frees sl1) @ concat (map op_frees ops)" using 2(7) by simp
  also have "\<dots> = pending_frees sl @ concat (map op_frees (x # ops))" unfolding 1(6) by simp
  finally show ?case using s 1 2 by simp
qed simp

lemma queue_init:
  "sl_ok (sendlist_init fd func arg)" "sl_send_fd (sendlist_init fd func arg) = fd"
  "pending (sendlist_init fd func arg) = []" "pending_frees (sendlist_init fd func arg) = []"
  "elems (sl_sendbufs (sendlist_init fd func arg)) = []"
  by (simp_all add: sl_ok_def sendlist_init_def sendbuf_size_def pending_def pending_frees_def array_wf_init)

text \<open>
  C22. Whatever the socket does, nothing is lost, repeated or reordered: after any history of \<open>sendlist_send_buf\<close>,
  \<open>sendlist_send_fd\<close>, \<open>sendlist_shutdown\<close> and write events, the bytes, file bytes and ends of stream that went out,
  followed by those pending in the queue, are exactly those submitted, in order. The free functions are called once
  for each buffer, in order, and not before it is sent. No memory outside the buffers and the array is touched.
  And unless a call fails or an end of stream is pending, the loop waits for the socket exactly while something is
  pending.
\<close>

theorem queue_delivers:
  assumes "list_all op_ok ops" and "sel_ok sel" and "\<not> waits sel fd"
  shows "\<exists>sl sel' t' ev. run_queue me io (sendlist_init fd func arg) sel t ops = Some (sl, sel', t', ev) \<and>
    sent ev @ pending sl = concat (map op_atoms ops) \<and> freed ev @ pending_frees sl = concat (map op_frees ops) \<and>
    watched io sl sel'"
proof -
  have "watched io (sendlist_init fd func arg) sel" using assms(3) by (simp add: watched_def queue_init)
  from run_queue_spec [OF queue_init(1) assms(2) this assms(1), of me t] show ?thesis by (auto simp: queue_init)
qed

section \<open>Draining\<close>

text \<open>Rounds of the event loop: while the queue waits for the socket, the socket becomes writable.\<close>

fun rounds ::
    "nat \<Rightarrow> nat \<Rightarrow> (nat \<Rightarrow> io) \<Rightarrow> sendlist_t \<Rightarrow> send_handler fdselect_t \<Rightarrow> nat \<Rightarrow>
     (sendlist_t \<times> send_handler fdselect_t \<times> nat \<times> send_event list) option" where
  "rounds 0 me io sl sel t = Some (sl, sel, t, [])"
| "rounds (Suc k) me io sl sel t =
     do {
       r \<leftarrow> fdselect_get sel (sl_send_fd sl) FDSELECT_WRITE;
       if r = None then Some (sl, sel, t, [])
       else do {
         (sl, sel, t, ev, err) \<leftarrow> sendlist_select_write me io (sl_send_fd sl) sl sel t;
         (sl, sel, t, ev') \<leftarrow> rounds k me io sl sel t;
         Some (sl, sel, t, ev @ ev')
       }
     }"

lemma get_some: "sel_ok sel \<Longrightarrow> \<exists>r. fdselect_get sel fd FDSELECT_WRITE = Some r \<and> (r = None \<longleftrightarrow> \<not> waits sel fd)"
  using fdselect_get_spec [of sel fd FDSELECT_WRITE] by (auto simp: waits_def)

lemma rounds_idle: "sel_ok sel \<Longrightarrow> \<not> waits sel (sl_send_fd sl) \<Longrightarrow> rounds k me io sl sel t = Some (sl, sel, t, [])"
  using get_some [of sel "sl_send_fd sl"] by (cases k) auto

lemma rounds_drain:
  "sl_ok sl \<Longrightarrow> sel_ok sel \<Longrightarrow> \<forall>t. \<exists>c>0. io t = Done c \<Longrightarrow> total_len sl < k \<Longrightarrow>
   waits sel (sl_send_fd sl) \<longleftrightarrow> elems (sl_sendbufs sl) \<noteq> [] \<Longrightarrow>
   \<exists>sl' sel' t' ev. rounds k me io sl sel t = Some (sl', sel', t', ev) \<and> elems (sl_sendbufs sl') = [] \<and>
     \<not> waits sel' (sl_send_fd sl) \<and> sent ev = pending sl \<and> freed ev = pending_frees sl"
proof (induction k arbitrary: sl sel t)
  case (Suc k)
  from get_some [OF Suc.prems(2), of "sl_send_fd sl"] obtain r where
    r: "fdselect_get sel (sl_send_fd sl) FDSELECT_WRITE = Some r" "r = None \<longleftrightarrow> \<not> waits sel (sl_send_fd sl)" by blast
  show ?case
  proof (cases "waits sel (sl_send_fd sl)")
    case False
    then have "elems (sl_sendbufs sl) = []" using Suc.prems(5) by simp
    with False r show ?thesis by (simp add: pending_def pending_frees_def)
  next
    case True
    from flush_spec [OF Suc.prems(1,2), of me io t] obtain sl1 sel1 t1 ev1 err where
      1: "sendlist_flush me io sl sel t = Some (sl1, sel1, t1, ev1, err)" "sel_ok sel1" "flushed io sl sl1 ev1 err"
        "waits sel1 (sl_send_fd sl) \<longleftrightarrow> err = 1" by blast
    have f: "sl_ok sl1" "sl_send_fd sl1 = sl_send_fd sl" "sent ev1 @ pending sl1 = pending sl"
      "freed ev1 @ pending_frees sl1 = pending_frees sl" "err = 0 \<or> err = 1 \<and> total_len sl1 < total_len sl"
      "err = 0 \<longrightarrow> elems (sl_sendbufs sl1) = []" "err = 1 \<longrightarrow> elems (sl_sendbufs sl1) \<noteq> []"
      using 1(3) Suc.prems(3) by (auto simp: flushed_def)
    have step: "rounds (Suc k) me io sl sel t = do { (sl, sel, t, ev') \<leftarrow> rounds k me io sl1 sel1 t1; Some (sl, sel, t, ev1 @ ev') }"
      using r True 1(1) by (auto simp: sendlist_select_write_def)
    from f(5) show ?thesis
    proof
      assume "err = 0"
      then have e: "elems (sl_sendbufs sl1) = []" "\<not> waits sel1 (sl_send_fd sl)" using f(6) 1(4) by auto
      with rounds_idle [of sel1 sl1 k me io t1] 1(2) f(2) step have "rounds (Suc k) me io sl sel t = Some (sl1, sel1, t1, ev1)" by simp
      with e f(3,4) show ?thesis by (simp add: pending_def pending_frees_def)
    next
      assume a: "err = 1 \<and> total_len sl1 < total_len sl"
      then have k: "total_len sl1 < k" using Suc.prems(4) by simp
      have w: "waits sel1 (sl_send_fd sl1) \<longleftrightarrow> elems (sl_sendbufs sl1) \<noteq> []" using a f(2,7) 1(4) by auto
      from Suc.IH [OF f(1) 1(2) Suc.prems(3) k w, of t1] obtain sl2 sel2 t2 ev2 where
        2: "rounds k me io sl1 sel1 t1 = Some (sl2, sel2, t2, ev2)" "elems (sl_sendbufs sl2) = []"
          "\<not> waits sel2 (sl_send_fd sl1)" "sent ev2 = pending sl1" "freed ev2 = pending_frees sl1" by blast
      then show ?thesis using step f(2,3,4) by auto
    qed
  qed
qed simp

text \<open>
  C23. The queue drains: after any history of buffers and file ranges without a failed call, when the socket from
  then on takes at least one byte each time it is asked, the event loop needs at most one round more than there are
  pending bytes; then everything submitted has gone out, every free function has been called, and the loop no
  longer waits for the socket.
\<close>

theorem queue_drains:
  assumes "list_all op_ok ops" and "sel_ok sel" and "\<not> waits sel fd" and "EndOfStream \<notin> set (concat (map op_atoms ops))"
    and "\<forall>t. io t \<noteq> Failed" and "\<forall>t. \<exists>c>0. io' t = Done c"
  shows "\<exists>sl sel1 t1 ev1 sl' sel' t' ev'.
    run_queue me io (sendlist_init fd func arg) sel t ops = Some (sl, sel1, t1, ev1) \<and>
    rounds (Suc (total_len sl)) me io' sl sel1 t1 = Some (sl', sel', t', ev') \<and>
    sent (ev1 @ ev') = concat (map op_atoms ops) \<and> freed (ev1 @ ev') = concat (map op_frees ops) \<and> \<not> waits sel' fd"
proof -
  have "watched io (sendlist_init fd func arg) sel" using assms(3) by (simp add: watched_def queue_init)
  from run_queue_spec [OF queue_init(1) assms(2) this assms(1), of me t] obtain sl sel1 t1 ev1 where
    1: "run_queue me io (sendlist_init fd func arg) sel t ops = Some (sl, sel1, t1, ev1)" "sl_ok sl" "sel_ok sel1"
      "sl_send_fd sl = fd" "watched io sl sel1" "sent ev1 @ pending sl = concat (map op_atoms ops)"
      "freed ev1 @ pending_frees sl = concat (map op_frees ops)" by (auto simp: queue_init)
  have "EndOfStream \<notin> set (sent ev1 @ pending sl)" using assms(4) 1(6) by simp
  then have "waits sel1 (sl_send_fd sl) \<longleftrightarrow> elems (sl_sendbufs sl) \<noteq> []" using 1(5) assms(5) by (simp add: watched_def)
  from rounds_drain [OF 1(2,3) assms(6) _ this, of "Suc (total_len sl)" me t1] 1 show ?thesis by auto
qed

text \<open>A socket that takes three bytes, then blocks, then takes two at a time.\<close>

lemma fresh_table: "sel_ok fdselect_init" "\<not> waits fdselect_init 5"
  using waits_entry [OF sel_ok_init(1), of 5] by (simp_all add: sel_ok_init)

lemma queue_delivers_witness:
  "\<exists>sl sel' t' ev. run_queue 1 (\<lambda>t. if t = 0 then Done 3 else WouldBlock) (sendlist_init 5 None 0) fdselect_init 0
       [SendBuf [1, 2, 3, 4, 5] 5 (Some 9) 2, Writable, SendFile 7 0 2 None 0] = Some (sl, sel', t', ev) \<and>
    sent ev @ pending sl = concat (map op_atoms [SendBuf [1, 2, 3, 4, 5] 5 (Some 9) 2, Writable, SendFile 7 0 2 None 0]) \<and>
    freed ev @ pending_frees sl = concat (map op_frees [SendBuf [1, 2, 3, 4, 5] 5 (Some 9) 2, Writable, SendFile 7 0 2 None 0]) \<and>
    watched (\<lambda>t. if t = 0 then Done 3 else WouldBlock) sl sel'"
  by (rule queue_delivers) (use fresh_table in simp_all)

lemma queue_drains_witness:
  "\<exists>sl sel1 t1 ev1 sl' sel' t' ev'.
    run_queue 1 (\<lambda>t. if t = 0 then Done 3 else WouldBlock) (sendlist_init 5 None 0) fdselect_init 0
       [SendBuf [1, 2, 3, 4, 5] 5 (Some 9) 2, Writable] = Some (sl, sel1, t1, ev1) \<and>
    rounds (Suc (total_len sl)) 1 (\<lambda>t. Done 2) sl sel1 t1 = Some (sl', sel', t', ev') \<and>
    sent (ev1 @ ev') = concat (map op_atoms [SendBuf [1, 2, 3, 4, 5] 5 (Some 9) 2, Writable]) \<and>
    freed (ev1 @ ev') = concat (map op_frees [SendBuf [1, 2, 3, 4, 5] 5 (Some 9) 2, Writable]) \<and> \<not> waits sel' 5"
  by (rule queue_drains) (use fresh_table in auto)

end
