(* ===== verification/StateMachine.thy ===== *)
theory StateMachine
  imports Prelude
begin

text \<open>
  \<open>state.c\<close>, \<open>state.h\<close>: a table-driven machine that retries an action in each state and goes on to another state
  when the tries are used up. Times (\<open>double\<close>) are the values of any type with an addition and a linear order,
  so that nothing rests on exact arithmetic. The table is the list of its rows, the last of which has
  \<open>retry_max = 0\<close>; \<open>table\<close> and \<open>current\<close> are pointers into it, that is 0 and an index. Reading behind the list is
  \<open>None\<close>.
\<close>

record 't state_table_t =
  st_state :: int
  st_retry_interval :: 't
  st_retry_max :: int
  st_timeout_next :: int
  st_arg :: nat

record 't state_t =
  s_table :: "'t state_table_t list"
  s_current :: nat
  s_retry_timeout :: 't
  s_retry_count :: int

datatype state_poll_ret = STATE_POLL_NOOP | STATE_POLL_RETRY | STATE_POLL_TIMEOUT

definition state_init :: "'t :: zero state_table_t list \<Rightarrow> 't state_t" where
  "state_init tab = \<lparr>s_table = tab, s_current = 0, s_retry_timeout = 0, s_retry_count = 0\<rparr>"

definition row :: "'t state_t \<Rightarrow> nat \<Rightarrow> 't state_table_t option" where
  "row st i = (if i < length (s_table st) then Some (s_table st ! i) else None)"

definition state_get :: "'t state_t \<Rightarrow> int option" where
  "state_get st = do { p \<leftarrow> row st (s_current st); Some (st_state p) }"

text \<open>The search of \<open>state_set\<close> over the rows from index \<open>i\<close> on.\<close>

fun set_search :: "'t state_table_t list \<Rightarrow> nat \<Rightarrow> int \<Rightarrow> nat option option" where
  "set_search [] i new = None"
| "set_search (p # rows) i new =
     (if st_retry_max p = 0 then Some None
      else if st_state p \<noteq> new then set_search rows (Suc i) new
      else Some (Some i))"

definition state_set :: "'t :: zero state_t \<Rightarrow> int \<Rightarrow> 't \<Rightarrow> ('t state_t \<times> int) option" where
  "state_set st new now =
     do {
       r \<leftarrow> set_search (s_table st) 0 new;
       case r of
         None \<Rightarrow> Some (st, - 1)
       | Some i \<Rightarrow> do {
           p \<leftarrow> row st i;
           Some (st\<lparr>s_current := i, s_retry_timeout := 0, s_retry_count := st_retry_max p\<rparr>, 0)
         }
     }"

definition state_timeout_next :: "'t :: zero state_t \<Rightarrow> 't \<Rightarrow> ('t state_t \<times> int) option" where
  "state_timeout_next st now = do { p \<leftarrow> row st (s_current st); state_set st (st_timeout_next p) now }"

definition state_poll ::
    "'t :: {zero, plus, linorder} state_t \<Rightarrow> 't \<Rightarrow> int \<Rightarrow> ('t state_t \<times> state_poll_ret) option" where
  "state_poll st now timeout_next =
     (if now < s_retry_timeout st then Some (st, STATE_POLL_NOOP)
      else do {
        (st, done) \<leftarrow>
          (if s_retry_count st \<le> 0 then
             if timeout_next \<noteq> 0 then do { (st, r) \<leftarrow> state_timeout_next st now; Some (st, False) }
             else Some (st, True)
           else Some (st, False));
        if done then Some (st, STATE_POLL_TIMEOUT)
        else do {
          p \<leftarrow> row st (s_current st);
          Some (st\<lparr>s_retry_count := s_retry_count st - 1, s_retry_timeout := now + st_retry_interval p\<rparr>, STATE_POLL_RETRY)
        }
      })"

section \<open>Following the timeouts\<close>

text \<open>A table that ends, with a positive number of tries in every other row.\<close>

definition table_ok :: "'t state_table_t list \<Rightarrow> bool" where
  "table_ok tab \<longleftrightarrow> tab \<noteq> [] \<and> st_retry_max (last tab) = 0 \<and> (\<forall>p\<in>set (butlast tab). 0 < st_retry_max p)"

text \<open>The first row of a state.\<close>

definition row_of :: "'t state_table_t list \<Rightarrow> int \<Rightarrow> nat \<Rightarrow> bool" where
  "row_of tab s i \<longleftrightarrow> i < length tab - 1 \<and> st_state (tab ! i) = s \<and> (\<forall>j<i. st_state (tab ! j) \<noteq> s)"

fun chain :: "'t state_table_t list \<Rightarrow> nat list \<Rightarrow> bool" where
  "chain tab [] = True"
| "chain tab [i] = (i < length tab - 1)"
| "chain tab (i # j # path) = (i < length tab - 1 \<and> row_of tab (st_timeout_next (tab ! i)) j \<and> chain tab (j # path))"

definition tries :: "'t state_table_t list \<Rightarrow> nat \<Rightarrow> int list" where
  "tries tab i = replicate (nat (st_retry_max (tab ! i))) (st_state (tab ! i))"

text \<open>The states in which the machine acts when it is polled at the given times.\<close>

fun polls :: "'t :: {zero, plus, linorder} state_t \<Rightarrow> 't list \<Rightarrow> ('t state_t \<times> int list) option" where
  "polls st [] = Some (st, [])"
| "polls st (t # ts) =
     do {
       (st1, r) \<leftarrow> state_poll st t 1;
       s \<leftarrow> state_get st1;
       (st2, acts) \<leftarrow> polls st1 ts;
       Some (st2, if r = STATE_POLL_RETRY then s # acts else acts)
     }"

lemma set_search_spec:
  "table_ok tab \<Longrightarrow> row_of tab s i \<Longrightarrow> set_search tab k s = Some (Some (k + i))"
proof (induction tab arbitrary: i k)
  case (Cons p tab)
  have ne: "tab \<noteq> []" using Cons.prems(2) by (auto simp: row_of_def)
  have p: "0 < st_retry_max p" using Cons.prems(1) ne by (auto simp: table_ok_def)
  have ok: "table_ok tab" using Cons.prems(1) ne by (auto simp: table_ok_def)
  show ?case
  proof (cases i)
    case 0
    then show ?thesis using Cons.prems(2) p by (simp add: row_of_def)
  next
    case (Suc j)
    have "st_state p \<noteq> s" using Cons.prems(2) Suc by (auto simp: row_of_def)
    moreover have "row_of tab s j" using Cons.prems(2) Suc by (auto simp: row_of_def)
    ultimately show ?thesis using Cons.IH [OF ok, of j "Suc k"] p Suc by simp
  qed
qed (simp add: row_of_def)

lemma row_positive: "table_ok tab \<Longrightarrow> i < length tab - 1 \<Longrightarrow> 0 < st_retry_max (tab ! i)"
proof -
  assume "table_ok tab" "i < length tab - 1"
  moreover from this(2) have "butlast tab ! i = tab ! i" "i < length (butlast tab)" by (simp_all add: nth_butlast)
  ultimately show ?thesis unfolding table_ok_def by (metis nth_mem)
qed

lemma state_set_row:
  assumes "table_ok (s_table st)" "row_of (s_table st) s i"
  shows "state_set st s now =
    Some (st\<lparr>s_current := i, s_retry_timeout := 0, s_retry_count := st_retry_max (s_table st ! i)\<rparr>, 0)"
proof -
  have "i < length (s_table st)" using assms(2) unfolding row_of_def by linarith
  with set_search_spec [OF assms, of 0] show ?thesis by (simp add: state_set_def row_def)
qed

text \<open>The position in the chain: \<open>left\<close> tries in the row \<open>i\<close>, then those of the rest.\<close>

definition at_row :: "'t state_table_t list \<Rightarrow> 't state_t \<Rightarrow> nat \<Rightarrow> nat list \<Rightarrow> nat \<Rightarrow> bool" where
  "at_row tab st i rest left \<longleftrightarrow> s_table st = tab \<and> s_current st = i \<and> s_retry_count st = int left \<and> chain tab (i # rest)"

definition remaining :: "'t state_table_t list \<Rightarrow> nat \<Rightarrow> nat list \<Rightarrow> nat \<Rightarrow> int list" where
  "remaining tab i rest left = replicate left (st_state (tab ! i)) @ concat (map (tries tab) rest)"

lemma due_poll:
  assumes ok: "table_ok tab" and at: "at_row tab st i rest left" and due: "\<not> now < s_retry_timeout st"
    and rem: "remaining tab i rest left = s # ss"
  shows "\<exists>st' i' rest' left'. state_poll st now 1 = Some (st', STATE_POLL_RETRY) \<and> state_get st' = Some s \<and>
    at_row tab st' i' rest' left' \<and> remaining tab i' rest' left' = ss \<and>
    s_retry_timeout st' = now + st_retry_interval (tab ! i')"
proof (cases left)
  case (Suc k)
  have i: "i < length tab" using at by (cases rest) (auto simp: at_row_def)
  let ?st = "st\<lparr>s_retry_count := int k, s_retry_timeout := now + st_retry_interval (tab ! i)\<rparr>"
  have "state_poll st now 1 = Some (?st, STATE_POLL_RETRY)"
    using at due Suc i by (simp add: state_poll_def at_row_def row_def)
  moreover have "at_row tab ?st i rest k" using at by (simp add: at_row_def)
  moreover have "state_get ?st = Some s" "remaining tab i rest k = ss"
    using rem at i Suc by (auto simp: remaining_def state_get_def row_def at_row_def)
  ultimately show ?thesis by (intro exI [of _ ?st] exI [of _ i] exI [of _ rest] exI [of _ k]) simp
next
  case 0
  then obtain j path where rest: "rest = j # path" using rem by (cases rest) (auto simp: remaining_def)
  have ij: "i < length tab - 1" "row_of tab (st_timeout_next (tab ! i)) j" "chain tab (j # path)"
    using at by (simp_all add: at_row_def rest)
  then have j: "j < length tab - 1" by (simp add: row_of_def)
  then have lt: "i < length tab" "j < length tab" using ij(1) by simp_all
  obtain k where k: "st_retry_max (tab ! j) = int (Suc k)"
    using row_positive [OF ok j] by (metis pos_int_cases Suc_pred)
  have tj: "tries tab j = st_state (tab ! j) # replicate k (st_state (tab ! j))"
    unfolding tries_def k nat_int by simp
  let ?st = "st\<lparr>s_current := j, s_retry_timeout := now + st_retry_interval (tab ! j), s_retry_count := int k\<rparr>"
  have "state_set st (st_timeout_next (tab ! i)) now =
      Some (st\<lparr>s_current := j, s_retry_timeout := 0, s_retry_count := int (Suc k)\<rparr>, 0)"
    using state_set_row [of st "st_timeout_next (tab ! i)" j now] at ok ij(2) k by (simp add: at_row_def)
  then have "state_poll st now 1 = Some (?st, STATE_POLL_RETRY)"
    using at due 0 lt by (simp add: state_poll_def at_row_def row_def state_timeout_next_def)
  moreover have "at_row tab ?st j path k" using at ij(3) by (simp add: at_row_def)
  moreover have "state_get ?st = Some s" "remaining tab j path k = ss"
    using rem at lt 0 by (auto simp: remaining_def tj rest state_get_def row_def at_row_def)
  ultimately show ?thesis by (intro exI [of _ ?st] exI [of _ j] exI [of _ path] exI [of _ k]) simp
qed

lemma early_poll: "now < s_retry_timeout st \<Longrightarrow> state_poll st now n = Some (st, STATE_POLL_NOOP)"
  by (simp add: state_poll_def)

lemma polls_prefix:
  "table_ok tab \<Longrightarrow> at_row tab st i rest left \<Longrightarrow> length ts \<le> length (remaining tab i rest left) \<Longrightarrow>
   \<exists>st' acts. polls st ts = Some (st', acts) \<and> acts = take (length acts) (remaining tab i rest left) \<and> length acts \<le> length ts"
proof (induction ts arbitrary: st i rest left)
  case (Cons t ts)
  show ?case
  proof (cases "t < s_retry_timeout st")
    case True
    have "i < length tab" using Cons.prems(2) by (cases rest) (auto simp: at_row_def)
    then have "state_get st \<noteq> None" using Cons.prems(2) by (simp add: state_get_def row_def at_row_def)
    with Cons.IH [OF Cons.prems(1,2)] Cons.prems(3) early_poll [OF True, of 1] show ?thesis by fastforce
  next
    case False
    obtain s ss where r: "remaining tab i rest left = s # ss"
      using Cons.prems(3) by (cases "remaining tab i rest left") auto
    from due_poll [OF Cons.prems(1,2) False r] obtain st' i' rest' left' where
      1: "state_poll st t 1 = Some (st', STATE_POLL_RETRY)" "state_get st' = Some s" "at_row tab st' i' rest' left'"
        "remaining tab i' rest' left' = ss" by blast
    from Cons.IH [OF Cons.prems(1) 1(3)] Cons.prems(3) r 1(4) obtain st2 acts where
      "polls st' ts = Some (st2, acts)" "acts = take (length acts) ss" "length acts \<le> length ts" by auto
    with 1(1,2) r show ?thesis by simp
  qed
qed simp

text \<open>Poll times each of which comes when the interval of any row has passed.\<close>

fun spaced :: "'t :: {plus, linorder} state_table_t list \<Rightarrow> 't list \<Rightarrow> bool" where
  "spaced tab (t # u # ts) = ((\<forall>p\<in>set tab. t + st_retry_interval p \<le> u) \<and> spaced tab (u # ts))"
| "spaced tab _ = True"

lemma polls_spaced:
  "table_ok tab \<Longrightarrow> at_row tab st i rest left \<Longrightarrow> length ts \<le> length (remaining tab i rest left) \<Longrightarrow>
   spaced tab ts \<Longrightarrow> (\<forall>t\<in>set (take 1 ts). s_retry_timeout st \<le> t) \<Longrightarrow>
   \<exists>st'. polls st ts = Some (st', take (length ts) (remaining tab i rest left))"
proof (induction ts arbitrary: st i rest left)
  case (Cons t ts)
  obtain s ss where r: "remaining tab i rest left = s # ss"
    using Cons.prems(3) by (cases "remaining tab i rest left") auto
  have "\<not> t < s_retry_timeout st" using Cons.prems(5) by auto
  from due_poll [OF Cons.prems(1,2) this r] obtain st' i' rest' left' where
    1: "state_poll st t 1 = Some (st', STATE_POLL_RETRY)" "state_get st' = Some s" "at_row tab st' i' rest' left'"
      "remaining tab i' rest' left' = ss" "s_retry_timeout st' = t + st_retry_interval (tab ! i')" by blast
  have "i' < length tab" using 1(3) by (cases rest') (auto simp: at_row_def)
  then have "\<forall>u\<in>set (take 1 ts). s_retry_timeout st' \<le> u" using Cons.prems(4) 1(5) by (cases ts) auto
  moreover have "spaced tab ts" using Cons.prems(4) by (cases ts) auto
  ultimately obtain st2 where "polls st' ts = Some (st2, take (length ts) ss)"
    using Cons.IH [OF Cons.prems(1) 1(3)] Cons.prems(3) r 1(4) by auto
  with 1(1,2) r show ?case by simp
qed simp

text \<open>
  A machine that is set to a state and then polled with \<open>timeout_next\<close> follows the timeouts of its table: whatever
  the times of the polls, the states in which it acts are a beginning of the schedule (each state of the chain as
  often as its row says, in the order of the chain), and when each poll comes after the interval of the row has
  passed, every poll acts. No row outside the table is read.
\<close>

theorem timeouts_followed:
  assumes "table_ok tab" and "s_table st = tab" and "row_of tab s i" and "chain tab (i # path)"
    and "length ts \<le> length (concat (map (tries tab) (i # path)))"
  shows "\<exists>st1 st' acts. state_set st s now = Some (st1, 0) \<and> polls st1 ts = Some (st', acts) \<and>
    acts = take (length acts) (concat (map (tries tab) (i # path))) \<and>
    (spaced tab ts \<and> (\<forall>t\<in>set ts. 0 \<le> t) \<longrightarrow> length acts = length ts)"
proof -
  let ?st = "st\<lparr>s_current := i, s_retry_timeout := 0, s_retry_count := st_retry_max (tab ! i)\<rparr>"
  let ?n = "nat (st_retry_max (tab ! i))"
  have set: "state_set st s now = Some (?st, 0)" using state_set_row [of st s i now] assms(1-3) by simp
  have "i < length tab - 1" using assms(3) by (simp add: row_of_def)
  from row_positive [OF assms(1) this] have at: "at_row tab ?st i path ?n" using assms(2,4) by (simp add: at_row_def)
  have rem: "remaining tab i path ?n = concat (map (tries tab) (i # path))" by (simp add: remaining_def tries_def)
  from polls_prefix [OF assms(1) at, unfolded rem, OF assms(5)] obtain st' acts where
    p: "polls ?st ts = Some (st', acts)" "acts = take (length acts) (concat (map (tries tab) (i # path)))" by blast
  have "length acts = length ts" if sp: "spaced tab ts" "\<forall>t\<in>set ts. 0 \<le> t"
  proof -
    have "\<forall>t\<in>set (take 1 ts). s_retry_timeout ?st \<le> t" using sp(2) by (auto dest: in_set_takeD)
    from polls_spaced [OF assms(1) at _ sp(1) this, unfolded rem, OF assms(5)] p(1) assms(5) show ?thesis by auto
  qed
  with set p show ?thesis by blast
qed

definition dial_table :: "int state_table_t list" where
  "dial_table = [\<lparr>st_state = 7, st_retry_interval = 10, st_retry_max = 2, st_timeout_next = 9, st_arg = 0\<rparr>,
     \<lparr>st_state = 9, st_retry_interval = 5, st_retry_max = 1, st_timeout_next = 7, st_arg = 0\<rparr>,
     \<lparr>st_state = 0, st_retry_interval = 0, st_retry_max = 0, st_timeout_next = 0, st_arg = 0\<rparr>]"

lemma timeouts_followed_witness:
  "\<exists>st1 st' acts. state_set (state_init dial_table) 7 0 = Some (st1, 0) \<and> polls st1 [0, 10, 20, 30] = Some (st', acts) \<and>
    acts = take (length acts) (concat (map (tries dial_table) [0, 1, 0])) \<and>
    (spaced dial_table [0, 10, 20, 30] \<and> (\<forall>t\<in>set [0, 10, 20, 30 :: int]. 0 \<le> t) \<longrightarrow> length acts = length [0, 10, 20, 30 :: int])"
  by (rule timeouts_followed)
    (simp_all add: table_ok_def state_init_def row_of_def dial_table_def tries_def nth_Cons' less_Suc_eq)

end
