(* ===== verification/Opt.thy ===== *)
theory Opt
  imports Http
begin

text \<open>
  \<open>opt.c\<close>, \<open>opt.h\<close>: quoting, splitting a command line, tables of options. Strings are the bytes before their
  terminating zero, but the functions that write work on a memory with pointers as indices: \<open>opt_str2argv\<close> splits a
  string in place. Each reads and writes one memory; \<open>None\<close> is an access outside it. \<open>strtod\<close> is a
  parameter with values in a type \<open>'f\<close>: the number and how many bytes it has.
\<close>

definition is_ws :: "byte \<Rightarrow> bool" where
  "is_ws c \<longleftrightarrow> c = 32 \<or> c = 9 \<or> c = 13 \<or> c = 10"

definition OPT_WORD_MAX :: nat where "OPT_WORD_MAX = 127"

text \<open>\<open>i\<close> counts down from \<open>OPT_WORD_MAX\<close>; \<open>strchr\<close> finds one of the six other characters.\<close>

fun verify_loop :: "byte list \<Rightarrow> nat \<Rightarrow> bool" where
  "verify_loop [] i = True"
| "verify_loop (c # s) i = (if i = 0 \<or> \<not> is_alnum c \<and> c \<notin> set (bytes_of ''@-_.,;'') then False else verify_loop s (i - 1))"

definition opt_verify_word :: "byte list \<Rightarrow> bool" where
  "opt_verify_word s = verify_loop (cstr s) OPT_WORD_MAX"

section \<open>Quoting\<close>

definition opt_needs_quote :: "byte list option \<Rightarrow> bool" where
  "opt_needs_quote s =
     (case s of None \<Rightarrow> True | Some s \<Rightarrow> \<exists>c\<in>set (cstr s). is_ws c \<or> c = 92 \<or> c = 34)"

datatype opt_quoted_enc_style_t = OPT_QUOTED_ENC_C | OPT_QUOTED_ENC_PERL

definition quote_char :: "opt_quoted_enc_style_t \<Rightarrow> byte" where
  "quote_char style = (case style of OPT_QUOTED_ENC_C \<Rightarrow> 34 | OPT_QUOTED_ENC_PERL \<Rightarrow> 39)"

definition esc_of :: "opt_quoted_enc_style_t \<Rightarrow> byte \<Rightarrow> byte list option" where
  "esc_of style c =
     (if c = 10 then Some [92, 110] else if c = 13 then Some [92, 114] else if c = 9 then Some [92, 116]
      else if c = 92 then Some [92, 92] else if c = 0 then Some [92, 48]
      else if c = quote_char style then Some [92, c] else None)"

text \<open>\<open>snprintf(dst, n, "%s", s)\<close>; the result is the length of \<open>s\<close>.\<close>

definition snprintf_str :: "mem \<Rightarrow> int \<Rightarrow> int \<Rightarrow> byte list \<Rightarrow> (mem \<times> int) option" where
  "snprintf_str m d n s =
     do { m \<leftarrow> (if n > 0 then blit m d (take (nat (n - 1)) s @ [0]) else Some m); Some (m, int (length s)) }"

fun enc_loop :: "opt_quoted_enc_style_t \<Rightarrow> byte list \<Rightarrow> mem \<Rightarrow> int \<Rightarrow> int \<Rightarrow> (mem \<times> int) option" where
  "enc_loop style [] m dst e = Some (m, dst)"
| "enc_loop style (c # src) m dst e =
     (if \<not> dst < e then Some (m, dst)
      else case esc_of style c of
             Some s \<Rightarrow> do { (m, n) \<leftarrow> snprintf_str m dst (e - dst) s; enc_loop style src m (dst + n) e }
           | None \<Rightarrow> do { m \<leftarrow> wr8 m dst c; enc_loop style src m (dst + 1) e })"

text \<open>\<open>src\<close> is the null pointer or the memory from \<open>src\<close> on; the result is the memory of \<open>dst\<close> and the length.\<close>

definition opt_quoted_enc_style ::
    "byte list option \<Rightarrow> int \<Rightarrow> mem \<Rightarrow> int \<Rightarrow> int \<Rightarrow> opt_quoted_enc_style_t \<Rightarrow> (mem \<times> int) option" where
  "opt_quoted_enc_style src srclen m dst dstlen style =
     do {
       src \<leftarrow> (case src of None \<Rightarrow> Some []
              | Some s \<Rightarrow> if srclen < 0 then (if 0 \<in> set s then Some (cstr s) else None) else slice s 0 srclen);
       let e = dst + dstlen - 3;
       m \<leftarrow> wr8 m dst (quote_char style);
       (m, d) \<leftarrow> enc_loop style src m (dst + 1) e;
       if d < e then do {
         m \<leftarrow> wr8 m d (quote_char style);
         m \<leftarrow> wr8 m (d + 1) 0;
         Some (m, d + 1 - dst)
       }
       else Some (m, - 1)
     }"

definition opt_quoted_enc :: "byte list option \<Rightarrow> int \<Rightarrow> mem \<Rightarrow> int \<Rightarrow> int \<Rightarrow> (mem \<times> int) option" where
  "opt_quoted_enc src srclen m dst dstlen = opt_quoted_enc_style src srclen m dst dstlen OPT_QUOTED_ENC_C"

text \<open>The arguments of \<open>opt_cat\<close> up to \<open>OPT_CAT_END\<close>.\<close>

datatype cat_arg = CatNull | CatInt int | CatStr "byte list"

text \<open>\<open>sprintf(pout, "%.*s", nout, arg)\<close> writes up to \<open>nout\<close> bytes and a zero.\<close>

definition cat_word :: "mem \<Rightarrow> int \<Rightarrow> int \<Rightarrow> cat_arg \<Rightarrow> (mem \<times> int) option" where
  "cat_word m pout nout arg =
     (case arg of
        CatInt i \<Rightarrow> (let s = bytes_of (dec_int i) in do { m \<leftarrow> blit m pout (s @ [0]); Some (m, int (length s)) })
      | CatStr s \<Rightarrow>
          if opt_needs_quote (Some s) then opt_quoted_enc (Some (s @ [0])) (- 1) m pout nout
          else (let s = take (nat nout) (cstr s) in do { m \<leftarrow> blit m pout (s @ [0]); Some (m, int (length s)) })
      | CatNull \<Rightarrow> Some (m, 0))"

fun cat_loop :: "mem \<Rightarrow> int \<Rightarrow> int \<Rightarrow> int \<Rightarrow> cat_arg list \<Rightarrow> (mem \<times> int) option" where
  "cat_loop m buf pout nout [] =
     (if nout < 2 then Some (m, - 1)
      else do { m \<leftarrow> blit m pout [10, 0]; Some (m, pout + 1 - buf) })"
| "cat_loop m buf pout nout (arg # args) =
     (if arg = CatNull then cat_loop m buf pout nout args
      else if nout < 2 then Some (m, - 1)
      else do {
        (m, pout, nout) \<leftarrow> (if pout > buf then do { m \<leftarrow> wr8 m pout 32; Some (m, pout + 1, nout - 1) } else Some (m, pout, nout));
        (m, i) \<leftarrow> cat_word m pout nout arg;
        if i < 0 then Some (m, - 1) else cat_loop m buf (pout + i) (nout - i) args
      })"

definition opt_cat :: "mem \<Rightarrow> int \<Rightarrow> int \<Rightarrow> cat_arg list \<Rightarrow> (mem \<times> int) option" where
  "opt_cat m buf len args = cat_loop m buf buf len args"

section \<open>Unquoting\<close>

text \<open>\<open>strspn(src, WHITESPACE)\<close>.\<close>

definition span_ws :: "mem \<Rightarrow> int \<Rightarrow> int option" where
  "span_ws m src =
     (let r = drop (nat src) m; k = length (takeWhile is_ws r)
      in if src < 0 \<or> k = length r then None else Some (int k))"

definition unescape :: "byte \<Rightarrow> byte" where
  "unescape c = (if c = 110 then 10 else if c = 114 then 13 else if c = 116 then 9 else c)"

lemma rd8_bounds: "rd8 m p = Some c \<Longrightarrow> 0 \<le> p \<and> p < int (length m)"
  by (rule rd8_Some_bounds)

lemma wr8_length: "wr8 m p x = Some m' \<Longrightarrow> length m' = length m"
  by (auto simp: wr8_def mem_put_def split: if_splits)

text \<open>Inside quotes: the memory, where reading and writing go on.\<close>

function str_loop :: "bool \<Rightarrow> mem \<Rightarrow> int \<Rightarrow> int \<Rightarrow> int \<Rightarrow> (mem \<times> int \<times> int) option" where
  "str_loop noslash m src dst e =
     (case rd8 m src of None \<Rightarrow> None
      | Some c \<Rightarrow>
          if c = 0 \<or> \<not> dst < e then Some (m, src, dst)
          else if c = 34 then Some (m, src + 1, dst)
          else if c = 92 \<and> \<not> noslash then
            (case rd8 m (src + 1) of None \<Rightarrow> None
             | Some x \<Rightarrow> (case wr8 m dst (unescape x) of None \<Rightarrow> None | Some m' \<Rightarrow> str_loop noslash m' (src + 2) (dst + 1) e))
          else (case wr8 m dst c of None \<Rightarrow> None | Some m' \<Rightarrow> str_loop noslash m' (src + 1) (dst + 1) e))"
  by pat_completeness auto
termination
  by (relation "measure (\<lambda>(noslash, m, src, dst, e). nat (int (length m) - src))") (auto dest: rd8_bounds wr8_length)

declare str_loop.simps [simp del]

lemma str_loop_moves: "str_loop noslash m src dst e = Some (m', src', dst') \<Longrightarrow> length m' = length m \<and> src \<le> src'"
proof (induction noslash m src dst e rule: str_loop.induct)
  case (1 noslash m src dst e)
  then show ?case
    by (subst (asm) (3) str_loop.simps) (fastforce split: option.splits if_splits dest: wr8_length)
qed

function dec_loop :: "bool \<Rightarrow> mem \<Rightarrow> int \<Rightarrow> int \<Rightarrow> int \<Rightarrow> (mem \<times> int \<times> int) option" where
  "dec_loop noslash m src dst e =
     (case rd8 m src of None \<Rightarrow> None
      | Some c \<Rightarrow>
          if c = 0 \<or> \<not> dst < e then Some (m, src, dst)
          else if is_ws c then map_option (\<lambda>k. (m, src + k, dst)) (span_ws m src)
          else if c = 34 then
            (case str_loop noslash m (src + 1) dst e of None \<Rightarrow> None
             | Some (m', src', dst') \<Rightarrow> dec_loop noslash m' src' dst' e)
          else (case wr8 m dst c of None \<Rightarrow> None | Some m' \<Rightarrow> dec_loop noslash m' (src + 1) (dst + 1) e))"
  by pat_completeness auto
termination
  by (relation "measure (\<lambda>(noslash, m, src, dst, e). nat (int (length m) - src))")
    (auto dest: rd8_bounds str_loop_moves wr8_length)

declare dec_loop.simps [simp del]

text \<open>The memory, the new \<open>*psrc\<close> and the result.\<close>

definition opt_quoted_dec :: "mem \<Rightarrow> int \<Rightarrow> int \<Rightarrow> int \<Rightarrow> bool \<Rightarrow> (mem \<times> int \<times> int) option" where
  "opt_quoted_dec m src dst len noslash =
     do {
       k \<leftarrow> span_ws m src;
       let e = dst + len - 1;
       (m, src, d) \<leftarrow> dec_loop noslash m (src + k) dst e;
       m \<leftarrow> (if d \<le> e then wr8 m d 0 else Some m);
       Some (m, src, if d \<le> e then d - dst else - 1)
     }"

text \<open>
  The loop of \<open>opt_str2argv\<close>: \<open>argv\<close> is the list of the pointers stored so far, of at most \<open>argn\<close>; a further one
  would be stored outside the array. \<open>e\<close> is the position behind the terminating zero. A call that does not
  move \<open>str\<close> cannot occur on a terminated string; the model gives up there.
\<close>

function argv_loop :: "mem \<Rightarrow> int \<Rightarrow> int \<Rightarrow> int \<Rightarrow> nat \<Rightarrow> int list \<Rightarrow> (mem \<times> int \<times> int \<times> int list) option" where
  "argv_loop m str dst e argn argv =
     (case rd8 m str of None \<Rightarrow> None
      | Some c \<Rightarrow>
          if c = 0 \<or> \<not> str < e then Some (m, str, dst, argv)
          else if \<not> length argv < argn then None
          else (case opt_quoted_dec m str dst (e - str) False of None \<Rightarrow> None
                | Some (m', str', n) \<Rightarrow>
                    if str < str' then argv_loop m' str' (dst + n + 1) e argn (argv @ [dst]) else None))"
  by pat_completeness auto
termination by (relation "measure (\<lambda>(m, str, dst, e, argn, argv). nat (e - str))") auto

declare argv_loop.simps [simp del]

definition opt_str2argv :: "mem \<Rightarrow> int \<Rightarrow> nat \<Rightarrow> (mem \<times> int \<times> int list) option" where
  "opt_str2argv m str argn =
     do {
       s \<leftarrow> string_at m str;
       (m, str, dst, argv) \<leftarrow> argv_loop m str str (str + int (length s) + 1) argn [];
       m \<leftarrow> wr8 m dst 0;
       Some (m, str, argv)
     }"

section \<open>Option tables\<close>

datatype 'f optval = OptReal 'f | OptInt int | OptStr "byte list"

record 'f OptSet =
  o_names :: "byte list option"
  o_argtype :: byte
  o_required :: bool
  o_err :: int
  o_defval :: "byte list option"
  o_argidx :: int
  o_argval :: "byte list option"
  o_val :: "'f optval"

definition OPT_ERR_OPT :: int where "OPT_ERR_OPT = - 1"
definition OPT_ERR_ARGREQ :: int where "OPT_ERR_ARGREQ = - 2"
definition OPT_ERR_ARG :: int where "OPT_ERR_ARG = - 3"
definition OPT_ERR_TYPE :: int where "OPT_ERR_TYPE = - 4"
definition OPT_ERR_OPTREQ :: int where "OPT_ERR_OPTREQ = - 5"

definition optset_zero :: "'f OptSet" where
  "optset_zero = \<lparr>o_names = None, o_argtype = 0, o_required = False, o_err = 0, o_defval = None, o_argidx = 0,
     o_argval = None, o_val = OptInt 0\<rparr>"

text \<open>Character \<open>i\<close> of a string: zero at its end, undefined behind.\<close>

definition char_at :: "byte list \<Rightarrow> nat \<Rightarrow> byte option" where
  "char_at s i = (if i < length s then Some (s ! i) else if i = length s then Some 0 else None)"

text \<open>\<open>strstr\<close>: the rest of the string from the first occurrence on.\<close>

fun strstr :: "byte list \<Rightarrow> byte list \<Rightarrow> byte list option" where
  "strstr [] pat = (if pat = [] then Some [] else None)"
| "strstr (c # s) pat = (if take (length pat) (c # s) = pat then Some (c # s) else strstr s pat)"

definition name2opt :: "byte list \<Rightarrow> 'f OptSet option" where
  "name2opt p =
     do {
       c \<leftarrow> char_at p 0;
       let req = (c = 33);
       let p = (if req then drop 1 p else p);
       d \<leftarrow> char_at p 1;
       t \<leftarrow> char_at p 0;
       let (argtype, p) = (if d = 61 then (t, drop 2 p) else (0, p));
       Some (optset_zero\<lparr>o_required := req, o_argtype := argtype, o_names := Some p,
         o_defval := map_option (drop 8) (strstr p (bytes_of ''default:''))\<rparr>)
     }"

text \<open>The table has \<open>optn\<close> entries, of which the first \<open>optc\<close> are filled.\<close>

fun namev_loop :: "byte list list \<Rightarrow> nat \<Rightarrow> 'f OptSet list option" where
  "namev_loop [] n = Some []"
| "namev_loop (p # namev) 0 = Some []"
| "namev_loop (p # namev) (Suc n) = do { x \<leftarrow> name2opt p; xs \<leftarrow> namev_loop namev n; Some (x # xs) }"

definition opt_namev2optv :: "byte list list \<Rightarrow> nat \<Rightarrow> ('f OptSet list \<times> nat) option" where
  "opt_namev2optv namev optn =
     do { xs \<leftarrow> namev_loop namev optn; Some (xs @ replicate (optn - length xs) optset_zero, length xs) }"

text \<open>Whether \<open>name\<close> is one of the aliases at \<open>p\<close>.\<close>

function alias_match :: "byte list \<Rightarrow> byte list \<Rightarrow> bool" where
  "alias_match p name =
     (let n = length (takeWhile (\<lambda>c. c \<noteq> 124 \<and> \<not> is_ws c) p)
      in if n = 0 then False
         else if length name = n \<and> take n p = name then True
         else (case drop n p of
                 c # d # r \<Rightarrow> if c = 124 then alias_match (d # r) name else False
               | _ \<Rightarrow> False))"
  by pat_completeness auto
termination
proof (relation "measure (\<lambda>(p, name). length p)", goal_cases)
  case (2 p name n c xs d r)
  then have "length (c # d # r) = length p - n" by (metis length_drop)
  then show ?case by simp
qed simp

declare alias_match.simps [simp del]

text \<open>The index of the option; an entry without names ends the table.\<close>

fun opt_get_from :: "'f OptSet list \<Rightarrow> nat \<Rightarrow> byte list \<Rightarrow> nat option option" where
  "opt_get_from [] i name = None"
| "opt_get_from (x # optv) i name =
     (case o_names x of
        None \<Rightarrow> Some None
      | Some p \<Rightarrow> if alias_match p name then Some (Some i) else opt_get_from optv (Suc i) name)"

definition opt_get :: "'f OptSet list \<Rightarrow> byte list \<Rightarrow> nat option option" where
  "opt_get optv name = opt_get_from optv 0 name"

text \<open>
  The option, the argument index and the error. \<open>argv\<close> has \<open>argc\<close> strings. \<open>strtoul\<close> returns an
  \<open>unsigned long\<close> that is stored in a \<open>long\<close>.
\<close>

definition opt_setval ::
    "(byte list \<Rightarrow> 'f \<times> nat) \<Rightarrow> 'f OptSet \<Rightarrow> nat \<Rightarrow> byte list list \<Rightarrow> 'f OptSet \<times> nat \<times> int" where
  "opt_setval strtod opt argidx argv =
     (if argidx \<ge> length argv then (opt\<lparr>o_err := OPT_ERR_OPTREQ\<rparr>, argidx, OPT_ERR_OPTREQ)
      else let opt = opt\<lparr>o_argidx := int argidx, o_argval := Some (argv ! argidx)\<rparr>
      in if o_argtype opt = 0 then (opt\<lparr>o_val := OptInt 1, o_err := 0\<rparr>, argidx, 0)
      else let argidx = (case argv ! argidx of c # _ \<Rightarrow> if c = 45 then argidx + 1 else argidx | [] \<Rightarrow> argidx)
      in if argidx \<ge> length argv then (opt\<lparr>o_err := OPT_ERR_ARGREQ\<rparr>, argidx, OPT_ERR_ARGREQ)
      else let a = argv ! argidx; opt = opt\<lparr>o_argval := Some a\<rparr>;
        (opt, err) =
          (if o_argtype opt = 102 then let (v, q) = strtod a in (opt\<lparr>o_val := OptReal v\<rparr>, if q = 0 then OPT_ERR_ARG else 0)
           else if o_argtype opt = 105 then
             let (v, q) = strtoul a 0 in (opt\<lparr>o_val := OptInt (sint (word_of_int v :: 64 word))\<rparr>, if q = 0 then OPT_ERR_ARG else 0)
           else if o_argtype opt = 115 then (opt\<lparr>o_val := OptStr a\<rparr>, 0)
           else if o_argtype opt = 119 then
             (if \<not> opt_verify_word a then (opt, OPT_ERR_ARG) else (opt\<lparr>o_val := OptStr a\<rparr>, 0))
           else (opt, OPT_ERR_TYPE))
      in (opt\<lparr>o_err := err\<rparr>, argidx, err))"

text \<open>The first loop of \<open>opt_argv2optv\<close>, from \<open>optind\<close> on; \<open>k\<close> bounds the options that are left.\<close>

fun options_loop ::
    "(byte list \<Rightarrow> 'f \<times> nat) \<Rightarrow> 'f OptSet list \<Rightarrow> nat \<Rightarrow> byte list list \<Rightarrow> nat \<Rightarrow> ('f OptSet list \<times> nat \<times> int) option" where
  "options_loop strtod optv optind argv 0 = None"
| "options_loop strtod optv optind argv (Suc k) =
     (if optind \<ge> length argv then Some (optv, optind, 0)
      else let parg = argv ! optind
      in if parg = [45, 45] then Some (optv, optind + 1, 0)
      else if take 1 parg \<noteq> [45] then Some (optv, optind, 0)
      else do {
        r \<leftarrow> opt_get optv (dropWhile (\<lambda>c. c = 45) parg);
        case r of
          None \<Rightarrow> Some (optv, optind, OPT_ERR_OPT)
        | Some i \<Rightarrow>
            (let (opt, optind, err) = opt_setval strtod (optv ! i) optind argv; optv = optv[i := opt]
             in if err \<noteq> 0 then Some (optv, optind, err) else options_loop strtod optv (optind + 1) argv k)
      })"

text \<open>The second loop, over the entries from \<open>i\<close> on. Its error is overwritten by the code behind it.\<close>

fun required_loop ::
    "(byte list \<Rightarrow> 'f \<times> nat) \<Rightarrow> 'f OptSet list \<Rightarrow> nat \<Rightarrow> nat \<Rightarrow> byte list list \<Rightarrow> nat \<Rightarrow> ('f OptSet list \<times> nat) option" where
  "required_loop strtod optv i optind argv 0 = None"
| "required_loop strtod optv i optind argv (Suc k) =
     (if i \<ge> length optv then None
      else let opt = optv ! i
      in if o_names opt = None then Some (optv, optind)
      else if \<not> o_required opt \<or> o_argval opt \<noteq> None then required_loop strtod optv (Suc i) optind argv k
      else let (opt, optind, err) = opt_setval strtod opt optind argv; optv = optv[i := opt]
      in if err \<noteq> 0 then Some (optv, optind) else required_loop strtod optv (Suc i) optind argv k)"

definition opt_argv2optv ::
    "(byte list \<Rightarrow> 'f \<times> nat) \<Rightarrow> 'f OptSet list \<Rightarrow> byte list list \<Rightarrow> ('f OptSet list \<times> int) option" where
  "opt_argv2optv strtod optv argv =
     do {
       (optv, optind, err) \<leftarrow> options_loop strtod optv 0 argv (Suc (length argv));
       if err \<noteq> 0 then Some (optv, - (int optind + 1))
       else do {
         (optv, optind) \<leftarrow> required_loop strtod optv 0 optind argv (Suc (length optv));
         Some (optv, int optind)
       }
     }"

section \<open>One option at a time\<close>

datatype opt_type_t = OPT_TYPE_NONE | OPT_TYPE_FLAG | OPT_TYPE_INT | OPT_TYPE_UINT | OPT_TYPE_REAL | OPT_TYPE_STR

record opt_set_t =
  os_id :: int
  os_name :: "byte list option"
  os_type :: opt_type_t

definition OPT_ERROR_NONE :: int where "OPT_ERROR_NONE = 0"
definition OPT_ERROR_END :: int where "OPT_ERROR_END = - 1"
definition OPT_ERROR_UNKNOWN :: int where "OPT_ERROR_UNKNOWN = - 2"
definition OPT_ERROR_MISSING :: int where "OPT_ERROR_MISSING = - 3"
definition OPT_ERROR_BAD :: int where "OPT_ERROR_BAD = - 4"

record 'f opt_iter_t =
  oi_id :: int
  oi_name :: "byte list option"
  oi_type :: opt_type_t
  oi_argi :: nat
  oi_error :: int
  oi_arg :: "byte list"
  oi_val :: "'f optval"

text \<open>\<open>strtol\<close>: as \<open>strtoul\<close>, but the value is signed and kept within a \<open>long\<close>.\<close>

definition strtol :: "byte list \<Rightarrow> int \<Rightarrow> int \<times> nat" where
  "strtol s base =
     (let ws = length (takeWhile is_space s);
          r = drop ws s;
          sg = (case r of c # _ \<Rightarrow> if c = 43 \<or> c = 45 then 1 else 0 | [] \<Rightarrow> 0);
          neg = (sg = 1 \<and> hd r = 45);
          r = drop sg r;
          (b, pre) = number_base base r;
          ds = takeWhile (\<lambda>c. digit_val c < b) (drop pre r);
          v = foldl (\<lambda>v d. v * b + digit_val d) 0 ds;
          v = (if neg then - v else v)
      in if ds = [] then (0, 0)
         else (if v > 2 ^ 63 - 1 then 2 ^ 63 - 1 else if v < - (2 ^ 63) then - (2 ^ 63) else v,
               ws + sg + pre + length ds))"

fun find_opt :: "opt_set_t list \<Rightarrow> byte list \<Rightarrow> opt_set_t option option" where
  "find_opt [] p = None"
| "find_opt (x # opts) p =
     (case os_name x of None \<Rightarrow> Some None
      | Some n \<Rightarrow> if p = n then Some (Some x) else find_opt opts p)"

text \<open>
  The value of an argument and how many bytes of it were read (at least one for a string, so that any string is
  accepted).
\<close>

definition read_arg :: "(byte list \<Rightarrow> 'f \<times> nat) \<Rightarrow> opt_type_t \<Rightarrow> byte list \<Rightarrow> 'f optval \<Rightarrow> 'f optval \<times> nat" where
  "read_arg strtod ty a old =
     (case ty of
        OPT_TYPE_STR \<Rightarrow> (OptStr a, 1)
      | OPT_TYPE_INT \<Rightarrow> (let (v, q) = strtol a 0 in (OptInt (to_i32 v), q))
      | OPT_TYPE_UINT \<Rightarrow> (let (v, q) = strtoul a 0 in (OptInt (v mod 2 ^ 32), q))
      | OPT_TYPE_REAL \<Rightarrow> (let (v, q) = strtod a in (OptReal v, q))
      | _ \<Rightarrow> (old, 0))"

definition opt_get_argv ::
    "(byte list \<Rightarrow> 'f \<times> nat) \<Rightarrow> opt_set_t list \<Rightarrow> byte list list \<Rightarrow> 'f opt_iter_t \<Rightarrow> ('f opt_iter_t \<times> int) option" where
  "opt_get_argv strtod opts argv opt =
     (let opt = opt\<lparr>oi_error := OPT_ERROR_END, oi_id := 0\<rparr>
      in if oi_argi opt \<ge> length argv then Some (opt, OPT_ERROR_END)
      else let arg = argv ! oi_argi opt; opt = opt\<lparr>oi_arg := arg\<rparr>
      in case arg of
           [] \<Rightarrow> None
         | c # p \<Rightarrow>
             if c \<noteq> 45 then Some (opt, OPT_ERROR_END)
             else if p = [45] then Some (opt\<lparr>oi_argi := oi_argi opt + 1\<rparr>, OPT_ERROR_END)
             else do {
               r \<leftarrow> find_opt opts (case p of d # q \<Rightarrow> if d = 45 then q else p | [] \<Rightarrow> p);
               case r of
                 None \<Rightarrow> Some (opt\<lparr>oi_error := OPT_ERROR_UNKNOWN\<rparr>, OPT_ERROR_UNKNOWN)
               | Some x \<Rightarrow>
                   (let opt = opt\<lparr>oi_argi := oi_argi opt + 1, oi_name := os_name x, oi_id := os_id x, oi_type := os_type x\<rparr>
                    in if os_type x = OPT_TYPE_FLAG then Some (opt\<lparr>oi_val := OptInt 1, oi_error := 0\<rparr>, os_id x)
                    else if oi_argi opt \<ge> length argv then Some (opt\<lparr>oi_error := OPT_ERROR_MISSING\<rparr>, OPT_ERROR_MISSING)
                    else let a = argv ! oi_argi opt;
                             opt = opt\<lparr>oi_argi := oi_argi opt + 1\<rparr>;
                             (v, q) = read_arg strtod (os_type x) a (oi_val opt);
                             opt = opt\<lparr>oi_val := v\<rparr>;
                             opt = (if q = 0 then opt\<lparr>oi_error := OPT_ERROR_BAD, oi_val := OptStr a\<rparr> else opt)
                    in Some (opt\<lparr>oi_error := 0\<rparr>, os_id x))
             })"

text \<open>What \<open>opt_perror\<close> prints; \<open>val.s\<close> is read as a string also when it is none.\<close>

definition opt_perror :: "'f opt_iter_t \<Rightarrow> byte list option" where
  "opt_perror opt =
     (if oi_error opt = OPT_ERROR_UNKNOWN \<or> oi_error opt = OPT_ERROR_MISSING
      then Some (bytes_of ''unknown option '' @ oi_arg opt @ [10])
      else if oi_error opt = OPT_ERROR_BAD then
        (case oi_val opt of
           OptStr s \<Rightarrow> Some (bytes_of ''bad argument for option '' @ oi_arg opt @ bytes_of '': '' @ s @ [10])
         | _ \<Rightarrow> None)
      else Some [])"

end
