(* ===== verification/OptProps.thy ===== *)
theory OptProps
  imports Opt
begin

text \<open>
  What \<open>opt_cat\<close> writes, \<open>opt_str2argv\<close> splits again. The memory is taken apart around the two pointers:
  \<open>A\<close> before the write pointer, \<open>G\<close> between it and the read pointer, then the unread rest.
\<close>

section \<open>Writing\<close>

lemma wr8_at: "wr8 (P @ r # R) (int (length P)) x = Some (P @ x # R)"
  by (simp only: wr8_def mem_put_def nat_int list_update_length) simp

lemma rd8_at: "rd8 (P @ c # R) (int (length P)) = Some c"
  by (simp add: rd8_def mem_get_def)

lemma blit_at: "length xs \<le> length R \<Longrightarrow> blit (P @ R) (int (length P)) xs = Some (P @ xs @ drop (length xs) R)"
  by (simp add: blit_def)

definition quote_byte :: "opt_quoted_enc_style_t \<Rightarrow> byte \<Rightarrow> byte list" where
  "quote_byte style c = (case esc_of style c of Some s \<Rightarrow> s | None \<Rightarrow> [c])"

definition quoted :: "opt_quoted_enc_style_t \<Rightarrow> byte list \<Rightarrow> byte list" where
  "quoted style s = concat (map (quote_byte style) s)"

abbreviation quoted_c :: "byte list \<Rightarrow> byte list" where
  "quoted_c \<equiv> quoted OPT_QUOTED_ENC_C"

definition word_text :: "byte list \<Rightarrow> byte list" where
  "word_text s = (if opt_needs_quote (Some s) then 34 # quoted_c s @ [34] else s)"

fun line_text :: "byte list list \<Rightarrow> byte list" where
  "line_text [] = []"
| "line_text (w # ws) = word_text w @ (if ws = [] then 10 else 32) # line_text ws"

definition word_ok :: "byte list \<Rightarrow> bool" where
  "word_ok s \<longleftrightarrow> s \<noteq> [] \<and> 0 \<notin> set s"

lemma cstr_id: "0 \<notin> set s \<Longrightarrow> cstr s = s" "0 \<notin> set s \<Longrightarrow> cstr (s @ 0 # r) = s"
  by (induction s) (auto simp: cstr_def)

lemma esc_two: "esc_of style c = Some s \<Longrightarrow> \<exists>a b. s = [a, b]"
  by (auto simp: esc_of_def split: if_splits)

lemma enc_loop_text:
  "int (length P) + int (length (quoted style s)) < e \<Longrightarrow> e + 2 \<le> int (length P + length R) \<Longrightarrow>
   \<exists>R'. enc_loop style s (P @ R) (int (length P)) e =
     Some ((P @ quoted style s) @ R', int (length (P @ quoted style s))) \<and> length (quoted style s) + length R' = length R"
proof (induction s arbitrary: P R)
  case (Cons c s)
  have q: "quoted style (c # s) = quote_byte style c @ quoted style s" by (simp add: quoted_def)
  show ?case
  proof (cases "esc_of style c")
    case None
    then have b: "quote_byte style c = [c]" by (simp add: quote_byte_def)
    obtain r R1 where R: "R = r # R1" using Cons.prems by (cases R) (auto simp: q b)
    from Cons.IH [of "P @ [c]" R1] Cons.prems obtain R' where
      "enc_loop style s (P @ c # R1) (int (length P) + 1) e =
        Some (P @ c # quoted style s @ R', int (length (P @ c # quoted style s)))" "length (quoted style s) + length R' = length R1"
      by (auto simp: q b R add.commute)
    with Cons.prems None show ?thesis by (auto simp: q b R wr8_at)
  next
    case (Some t)
    obtain x y where t: "t = [x, y]" using esc_two [OF Some] by blast
    have b: "quote_byte style c = [x, y]" using Some t by (simp add: quote_byte_def)
    have len: "3 \<le> e - int (length P)" "3 \<le> length R" using Cons.prems by (auto simp: q b)
    then have tk: "take (nat (e - int (length P) - 1)) t @ [0] = [x, y, 0]" by (simp add: t)
    have "snprintf_str (P @ R) (int (length P)) (e - int (length P)) t = Some (P @ [x, y] @ 0 # drop 3 R, 2)"
      using len blit_at [of "[x, y, 0]" R P] by (simp add: snprintf_str_def tk) (simp add: t eval_nat_numeral)
    moreover
    have i: "int (length (P @ [x, y])) = int (length P) + 2" by simp
    have pre: "int (length (P @ [x, y])) + int (length (quoted style s)) < e"
      "e + 2 \<le> int (length (P @ [x, y]) + length (0 # drop 3 R))"
      using Cons.prems len by (simp_all add: q b)
    from Cons.IH [OF pre] obtain R' where
      e: "enc_loop style s ((P @ [x, y]) @ 0 # drop 3 R) (int (length (P @ [x, y]))) e =
        Some (((P @ [x, y]) @ quoted style s) @ R', int (length ((P @ [x, y]) @ quoted style s)))"
      "length (quoted style s) + length R' = length (0 # drop 3 R)" by blast
    ultimately show ?thesis
      using Some Cons.prems(1) len e(1) [unfolded i] e(2) by (auto simp: q b)
  qed
qed (simp add: quoted_def)

lemma quoted_style_text:
  assumes "0 \<notin> set s" "int (length (quoted style s)) + 4 < n" "n \<le> int (length R)"
  shows "\<exists>R'. opt_quoted_enc_style (Some (s @ [0])) (- 1) (P @ R) (int (length P)) n style =
    Some (P @ (quote_char style # quoted style s @ [quote_char style]) @ 0 # R', int (length (quote_char style # quoted style s @ [quote_char style]))) \<and>
    length (quoted style s) + 3 + length R' = length R"
proof -
  let ?q = "quote_char style"
  let ?e = "int (length P) + n - 3"
  obtain r R1 where R: "R = r # R1" using assms by (cases R) auto
  from enc_loop_text [where P = "P @ [?q]" and s = s and e = ?e and R = R1 and style = style] assms R obtain R2 where
    2: "enc_loop style s ((P @ [?q]) @ R1) (int (length (P @ [?q]))) ?e =
      Some (((P @ [?q]) @ quoted style s) @ R2, int (length ((P @ [?q]) @ quoted style s)))" "length (quoted style s) + length R2 = length R1"
    by auto
  have "2 \<le> length R2" using assms 2(2) R by simp
  then obtain x y R3 where R2: "R2 = x # y # R3" by (cases R2; cases "tl R2") auto
  let ?Q = "P @ ?q # quoted style s"
  have w1: "wr8 (?Q @ x # y # R3) (int (length ?Q)) ?q = Some (?Q @ ?q # y # R3)" by (rule wr8_at)
  have w2: "wr8 ((?Q @ [?q]) @ y # R3) (int (length (?Q @ [?q]))) 0 = Some ((?Q @ [?q]) @ 0 # R3)" by (rule wr8_at)
  have "opt_quoted_enc_style (Some (s @ [0])) (- 1) (P @ R) (int (length P)) n style =
      Some (P @ (?q # quoted style s @ [?q]) @ 0 # R3, int (length (?q # quoted style s @ [?q])))"
    using assms 2(1) w1 w2
    by (simp add: opt_quoted_enc_style_def cstr_id R R2 wr8_at Let_def add.commute)
  with 2(2) R R2 show ?thesis by auto
qed

lemma quoted_enc_text:
  assumes "0 \<notin> set s" "int (length (quoted_c s)) + 4 < n" "n \<le> int (length R)"
  shows "\<exists>R'. opt_quoted_enc (Some (s @ [0])) (- 1) (P @ R) (int (length P)) n =
    Some (P @ (34 # quoted_c s @ [34]) @ 0 # R', int (length (34 # quoted_c s @ [34]))) \<and>
    length (quoted_c s) + 3 + length R' = length R"
  using quoted_style_text [OF assms, of P] by (simp add: opt_quoted_enc_def quote_char_def)

lemma word_text_nonempty: "word_ok s \<Longrightarrow> word_text s \<noteq> []"
  by (simp add: word_text_def word_ok_def)

lemma cat_word_text:
  assumes "word_ok s" "int (length (word_text s)) + 2 < n" "n \<le> int (length R)"
  shows "\<exists>R'. cat_word (P @ R) (int (length P)) n (CatStr s) =
    Some ((P @ word_text s) @ 0 # R', int (length (word_text s))) \<and> length (word_text s) + 1 + length R' = length R"
proof (cases "opt_needs_quote (Some s)")
  case True
  have z: "0 \<notin> set s" using assms(1) by (simp add: word_ok_def)
  from quoted_enc_text [OF z _ assms(3), of P] assms(2) True show ?thesis
    by (auto simp: cat_word_def word_text_def)
next
  case False
  have z: "0 \<notin> set s" using assms(1) by (simp add: word_ok_def)
  have wt: "word_text s = s" using False by (simp add: word_text_def)
  have "length (s @ [0]) \<le> length R" using assms(2,3) wt by simp
  from blit_at [OF this, of P] have "blit (P @ R) (int (length P)) (s @ [0]) = Some ((P @ s) @ 0 # drop (length (s @ [0])) R)"
    by simp
  moreover have "take (nat n) s = s" using assms(2) wt by simp
  ultimately show ?thesis using False assms(2,3) wt
    by (auto simp: cat_word_def cstr_id [OF z] Let_def)
qed

text \<open>The text of the arguments that are left, with the space before the first one if something is there already.\<close>

fun cat_rest :: "bool \<Rightarrow> byte list list \<Rightarrow> byte list" where
  "cat_rest sep [] = [10]"
| "cat_rest sep (w # ws) = (if sep then [32] else []) @ word_text w @ cat_rest True ws"

lemma cat_rest_line: "ws \<noteq> [] \<Longrightarrow> cat_rest False ws = line_text ws \<and> cat_rest True ws = 32 # line_text ws"
proof (induction ws)
  case (Cons w ws)
  then show ?case by (cases ws) auto
qed simp

lemma cat_loop_text:
  "list_all word_ok ws \<Longrightarrow> int (length (cat_rest (P \<noteq> []) ws)) + 2 \<le> n \<Longrightarrow> n \<le> int (length R) \<Longrightarrow>
   \<exists>R'. cat_loop (P @ R) 0 (int (length P)) n (map CatStr ws) =
     Some (P @ cat_rest (P \<noteq> []) ws @ 0 # R', int (length (P @ cat_rest (P \<noteq> []) ws))) \<and>
     length (cat_rest (P \<noteq> []) ws) + 1 + length R' = length R"
proof (induction ws arbitrary: P R n)
  case Nil
  then have "length [10, 0 :: byte] \<le> length R" by simp
  from blit_at [OF this, of P] Nil show ?case by (auto simp: add.commute)
next
  case (Cons w ws)
  have w: "word_ok w" "list_all word_ok ws" using Cons.prems(1) by auto
  let ?wt = "word_text w"
  let ?P = "P @ (if P \<noteq> [] then [32] else [])"
  have more: "?P @ ?wt \<noteq> []" using word_text_nonempty [OF w(1)] by simp
  have c: "cat_rest (P \<noteq> []) (w # ws) = (if P \<noteq> [] then [32] else []) @ ?wt @ cat_rest True ws" by simp
  have l1: "1 \<le> length (cat_rest True ws)" by (cases ws) auto
  obtain r R1 where R: "R = r # R1" using Cons.prems by (cases R) auto
  define R2 where "R2 = (if P \<noteq> [] then R1 else R)"
  define n2 where "n2 = (if P \<noteq> [] then n - 1 else n)"
  have sep: "(if int (length P) > 0 then do { m \<leftarrow> wr8 (P @ R) (int (length P)) 32; Some (m, int (length P) + 1, n - 1) }
      else Some (P @ R, int (length P), n)) = Some (?P @ R2, int (length ?P), n2)"
    by (simp add: R wr8_at R2_def n2_def)
  have n2: "int (length ?wt) + 2 < n2" "n2 \<le> int (length R2)" "int (length (cat_rest True ws)) + 2 \<le> n2 - int (length ?wt)"
    using Cons.prems(2,3) l1 by (auto simp: n2_def R2_def R c split: if_splits)
  from cat_word_text [OF w(1) n2(1,2), of ?P] obtain R3 where
    3: "cat_word (?P @ R2) (int (length ?P)) n2 (CatStr w) = Some ((?P @ ?wt) @ 0 # R3, int (length ?wt))"
      "length ?wt + 1 + length R3 = length R2" by blast
  have n3: "n2 - int (length ?wt) \<le> int (length (0 # R3))" using n2(2) 3(2) by simp
  from Cons.IH [OF w(2) _ n3, of "?P @ ?wt"] n2(3) more obtain R4 where
    4: "cat_loop ((?P @ ?wt) @ 0 # R3) 0 (int (length (?P @ ?wt))) (n2 - int (length ?wt)) (map CatStr ws) =
       Some ((?P @ ?wt) @ cat_rest True ws @ 0 # R4, int (length ((?P @ ?wt) @ cat_rest True ws)))"
      "length (cat_rest True ws) + 1 + length R4 = length (0 # R3)" by auto
  have "cat_loop (P @ R) 0 (int (length P)) n (map CatStr (w # ws)) =
      cat_loop ((?P @ ?wt) @ 0 # R3) 0 (int (length (?P @ ?wt))) (n2 - int (length ?wt)) (map CatStr ws)"
    using Cons.prems(2) sep 3(1) by (simp add: add.assoc)
  with 4 3(2) show ?case unfolding c by (auto simp: R2_def R)
qed

section \<open>Splitting in place\<close>

text \<open>What was read and not yet overwritten moves up by one byte with each byte that is written.\<close>

lemma wr8_gap: "wr8 (A @ G @ c # U) (int (length A)) x = Some (A @ x # tl (G @ [c]) @ U)"
  using wr8_at [of A "hd (G @ [c])" "tl (G @ [c]) @ U" x] by (cases G) simp_all

lemma rd8_gap: "rd8 (A @ G @ c # U) (int (length (A @ G))) = Some c"
  using rd8_at [of "A @ G" c U] by simp

lemma special: "is_ws c \<Longrightarrow> c \<noteq> 0 \<and> c \<noteq> 34 \<and> c \<noteq> 92" "\<not> is_ws 0" "\<not> is_ws 34" "is_ws 10" "is_ws 32"
  by (auto simp: is_ws_def)

lemma dec_plain:
  "\<forall>c\<in>set w. \<not> is_ws c \<and> c \<noteq> 34 \<and> c \<noteq> 0 \<Longrightarrow> int (length A) + int (length w) \<le> e \<Longrightarrow>
   \<exists>G'. length G' = length G \<and>
     dec_loop nos (A @ G @ w @ U) (int (length (A @ G))) (int (length A)) e =
     dec_loop nos ((A @ w) @ G' @ U) (int (length ((A @ w) @ G'))) (int (length (A @ w))) e"
proof (induction w arbitrary: A G)
  case (Cons c w)
  let ?G = "tl (G @ [c])"
  have lg: "length ?G = length G" by simp
  from Cons.IH [of "A @ [c]" ?G] Cons.prems obtain G' where
    "length G' = length G" "dec_loop nos ((A @ [c]) @ ?G @ w @ U) (int (length ((A @ [c]) @ ?G))) (int (length (A @ [c]))) e =
     dec_loop nos (((A @ [c]) @ w) @ G' @ U) (int (length (((A @ [c]) @ w) @ G'))) (int (length ((A @ [c]) @ w))) e"
    by auto
  moreover have "dec_loop nos (A @ G @ (c # w) @ U) (int (length (A @ G))) (int (length A)) e =
      dec_loop nos ((A @ [c]) @ ?G @ w @ U) (int (length ((A @ [c]) @ ?G))) (int (length (A @ [c]))) e"
    using Cons.prems rd8_gap [of A G c "w @ U"] wr8_gap [of A G c "w @ U" c]
    by (subst dec_loop.simps) (simp add: add_ac)
  ultimately show ?case by auto
qed auto

text \<open>The steps inside quotes.\<close>

lemma str_plain:
  assumes "rd8 m p = Some c" "c \<noteq> 0" "d < e" "c \<noteq> 34" "c \<noteq> 92" "wr8 m d c = Some m'" "p' = p + 1" "d' = d + 1"
  shows "str_loop False m p d e = str_loop False m' p' d' e"
  using assms by (subst str_loop.simps) simp

lemma str_escaped:
  assumes "rd8 m p = Some 92" "rd8 m (p + 1) = Some x" "d < e" "wr8 m d (unescape x) = Some m'" "p' = p + 2" "d' = d + 1"
  shows "str_loop False m p d e = str_loop False m' p' d' e"
  using assms by (subst str_loop.simps) simp

lemma str_closed:
  assumes "rd8 m p = Some 34" "d < e" "p' = p + 1"
  shows "str_loop False m p d e = Some (m, p', d)"
  using assms by (subst str_loop.simps) simp

lemma quoted_c_length: "length s \<le> length (quoted_c s)"
proof (induction s)
  case (Cons c s)
  have "length (quoted_c (c # s)) = length (quote_byte OPT_QUOTED_ENC_C c) + length (quoted_c s)" by (simp add: quoted_def)
  moreover have "1 \<le> length (quote_byte OPT_QUOTED_ENC_C c)"
  proof (cases "esc_of OPT_QUOTED_ENC_C c")
    case (Some t)
    then show ?thesis using esc_two [OF Some] by (auto simp: quote_byte_def)
  qed (simp add: quote_byte_def)
  ultimately show ?case using Cons.IH by simp
qed simp

lemma esc_unescape: "esc_of OPT_QUOTED_ENC_C c = Some t \<Longrightarrow> c \<noteq> 0 \<Longrightarrow> \<exists>x. t = [92, x] \<and> unescape x = c"
proof -
  assume e: "esc_of OPT_QUOTED_ENC_C c = Some t" "c \<noteq> 0"
  then have "c = 10 \<or> c = 13 \<or> c = 9 \<or> c = 92 \<or> c = 34"
    by (simp add: esc_of_def quote_char_def split: if_splits)
  then show "\<exists>x. t = [92, x] \<and> unescape x = c"
    using e(1) by (intro exI [of _ "t ! 1"], elim disjE) (auto simp: esc_of_def quote_char_def unescape_def)
qed

lemma str_loop_quoted:
  "0 \<notin> set s \<Longrightarrow> int (length A) + int (length s) < e \<Longrightarrow>
   \<exists>G'. length s + length G' = length G + length (quoted_c s) + 1 \<and>
     str_loop False (A @ G @ quoted_c s @ 34 # U) (int (length (A @ G))) (int (length A)) e =
     Some ((A @ s) @ G' @ U, int (length ((A @ s) @ G')), int (length (A @ s)))"
proof (induction s arbitrary: A G)
  case Nil
  have "str_loop False (A @ G @ 34 # U) (int (length (A @ G))) (int (length A)) e =
      Some (A @ G @ 34 # U, int (length (A @ G @ [34])), int (length A))"
    using Nil by (intro str_closed [OF rd8_gap]) simp_all
  then show ?case by (intro exI [of _ "G @ [34]"]) (simp add: quoted_def)
next
  case (Cons c s)
  have q: "quoted_c (c # s) = quote_byte OPT_QUOTED_ENC_C c @ quoted_c s" by (simp add: quoted_def)
  have z: "0 \<notin> set s" and le: "int (length (A @ [c])) + int (length s) < e" using Cons.prems by simp_all
  show ?case
  proof (cases "esc_of OPT_QUOTED_ENC_C c")
    case None
    then have b: "quote_byte OPT_QUOTED_ENC_C c = [c]" and c: "c \<noteq> 0" "c \<noteq> 34" "c \<noteq> 92"
      by (auto simp: quote_byte_def esc_of_def quote_char_def split: if_splits)
    let ?G = "tl (G @ [c])"
    from Cons.IH [OF z le, of ?G] obtain G' where
      "length s + length G' = length ?G + length (quoted_c s) + 1"
      "str_loop False ((A @ [c]) @ ?G @ quoted_c s @ 34 # U) (int (length ((A @ [c]) @ ?G))) (int (length (A @ [c]))) e =
       Some (((A @ [c]) @ s) @ G' @ U, int (length (((A @ [c]) @ s) @ G')), int (length ((A @ [c]) @ s)))" by blast
    moreover have "str_loop False (A @ G @ quoted_c (c # s) @ 34 # U) (int (length (A @ G))) (int (length A)) e =
        str_loop False ((A @ [c]) @ ?G @ quoted_c s @ 34 # U) (int (length ((A @ [c]) @ ?G))) (int (length (A @ [c]))) e"
      using Cons.prems(2) c rd8_gap [of A G c "quoted_c s @ 34 # U"] wr8_gap [of A G c "quoted_c s @ 34 # U" c]
      by (intro str_plain [of _ _ c]) (simp_all add: q b)
    ultimately show ?thesis by (intro exI [of _ G']) (simp add: q b)
  next
    case (Some t)
    then obtain x where t: "t = [92, x]" "unescape x = c" using esc_unescape Cons.prems(1) by fastforce
    then have b: "quote_byte OPT_QUOTED_ENC_C c = [92, x]" using Some by (simp add: quote_byte_def)
    let ?G = "tl (G @ [92]) @ [x]"
    from Cons.IH [OF z le, of ?G] obtain G' where
      "length s + length G' = length ?G + length (quoted_c s) + 1"
      "str_loop False ((A @ [c]) @ ?G @ quoted_c s @ 34 # U) (int (length ((A @ [c]) @ ?G))) (int (length (A @ [c]))) e =
       Some (((A @ [c]) @ s) @ G' @ U, int (length (((A @ [c]) @ s) @ G')), int (length ((A @ [c]) @ s)))" by blast
    moreover
    have p: "int (length (A @ G)) + 1 = int (length (A @ G @ [92]))" by simp
    have second: "rd8 (A @ G @ quoted_c (c # s) @ 34 # U) (int (length (A @ G)) + 1) = Some x"
      unfolding p using rd8_at [of "A @ G @ [92]" x "quoted_c s @ 34 # U"] by (simp add: q b)
    have "str_loop False (A @ G @ quoted_c (c # s) @ 34 # U) (int (length (A @ G))) (int (length A)) e =
        str_loop False ((A @ [c]) @ ?G @ quoted_c s @ 34 # U) (int (length ((A @ [c]) @ ?G))) (int (length (A @ [c]))) e"
      using Cons.prems(2) t(2) rd8_gap [of A G 92 "x # quoted_c s @ 34 # U"] wr8_gap [of A G 92 "x # quoted_c s @ 34 # U" c]
      by (intro str_escaped [OF _ second]) (simp_all add: q b)
    ultimately show ?thesis by (intro exI [of _ G']) (simp add: q b)
  qed
qed

text \<open>A word and the white space behind it are taken, and the word stands terminated at the write pointer.\<close>

lemma span_ws_0: "\<not> is_ws c \<Longrightarrow> span_ws (P @ c # R) (int (length P)) = Some 0"
  by (simp add: span_ws_def)

lemma span_ws_1: "is_ws c \<Longrightarrow> \<not> is_ws d \<Longrightarrow> span_ws (P @ c # d # R) (int (length P)) = Some 1"
  by (simp add: span_ws_def)

lemma dec_end:
  assumes "is_ws c" "\<not> is_ws d" "int (length A) < e"
  shows "dec_loop nos (A @ G @ c # d # U) (int (length (A @ G))) (int (length A)) e =
    Some (A @ G @ c # d # U, int (length (A @ G @ [c])), int (length A))"
  using assms special(1) [OF assms(1)] rd8_gap [of A G c "d # U"] span_ws_1 [OF assms(1,2), of "A @ G" U]
  by (subst dec_loop.simps) simp

lemma dec_quote:
  assumes "rd8 m p = Some 34" "d < e" "p' = p + 1"
  shows "dec_loop nos m p d e =
    (case str_loop nos m p' d e of None \<Rightarrow> None | Some (m', src', dst') \<Rightarrow> dec_loop nos m' src' dst' e)"
  using assms special(3) by (subst dec_loop.simps) simp

lemma dec_open:
  assumes "int (length A) < e"
  shows "dec_loop nos (A @ G @ 34 # U) (int (length (A @ G))) (int (length A)) e =
    (case str_loop nos (A @ (G @ [34]) @ U) (int (length (A @ (G @ [34])))) (int (length A)) e of None \<Rightarrow> None
     | Some (m', src', dst') \<Rightarrow> dec_loop nos m' src' dst' e)"
  using dec_quote [OF rd8_gap [of A G 34 U] assms, of "int (length (A @ (G @ [34])))"] by simp

lemma unquoted_bytes: "\<not> opt_needs_quote (Some s) \<Longrightarrow> 0 \<notin> set s \<Longrightarrow> \<forall>c\<in>set s. \<not> is_ws c \<and> c \<noteq> 34 \<and> c \<noteq> 0"
  by (auto simp: opt_needs_quote_def cstr_id)

lemma dec_word:
  assumes "word_ok s" "is_ws c" "\<not> is_ws d" "int (length A) + int (length s) < e"
  shows "\<exists>G'. dec_loop False (A @ G @ word_text s @ c # d # U) (int (length (A @ G))) (int (length A)) e =
    Some ((A @ s) @ G' @ c # d # U, int (length ((A @ s) @ G' @ [c])), int (length (A @ s))) \<and>
    length s + length G' = length G + length (word_text s)"
proof -
  have z: "0 \<notin> set s" using assms(1) by (simp add: word_ok_def)
  show ?thesis
  proof (cases "opt_needs_quote (Some s)")
    case False
    have le: "int (length A) + int (length s) \<le> e" using assms(4) by simp
    from dec_plain [OF unquoted_bytes [OF False z] le, of G False "c # d # U"] dec_end [OF assms(2,3), of "A @ s" e False] assms(4)
    show ?thesis using False by (auto simp: word_text_def)
  next
    case True
    have lt: "int (length A) < e" "int (length (A @ s)) < e" using assms(4) by simp_all
    from str_loop_quoted [OF z assms(4), of "G @ [34]" "c # d # U"] obtain G' where
      l: "length s + length G' = length (G @ [34]) + length (quoted_c s) + 1"
      and G': "str_loop False (A @ (G @ [34]) @ quoted_c s @ 34 # c # d # U) (int (length (A @ (G @ [34])))) (int (length A)) e =
       Some ((A @ s) @ G' @ c # d # U, int (length ((A @ s) @ G')), int (length (A @ s)))" by blast
    have "dec_loop False (A @ G @ word_text s @ c # d # U) (int (length (A @ G))) (int (length A)) e =
        dec_loop False (A @ G @ 34 # quoted_c s @ 34 # c # d # U) (int (length (A @ G))) (int (length A)) e"
      using True by (simp add: word_text_def)
    also have "\<dots> = dec_loop False ((A @ s) @ G' @ c # d # U) (int (length ((A @ s) @ G'))) (int (length (A @ s))) e"
      unfolding dec_open [OF lt(1)] G' by simp
    also have "\<dots> = Some ((A @ s) @ G' @ c # d # U, int (length ((A @ s) @ G' @ [c])), int (length (A @ s)))"
      using dec_end [OF assms(2,3) lt(2)] by simp
    finally show ?thesis using l True by (intro exI [of _ G']) (simp add: word_text_def)
  qed
qed

lemma word_text_first: "word_ok s \<Longrightarrow> \<exists>x xs. word_text s = x # xs \<and> \<not> is_ws x \<and> x \<noteq> 0"
proof (cases s)
  case (Cons x xs)
  assume "word_ok s"
  then show ?thesis using unquoted_bytes [of s] special(3) by (auto simp: word_text_def word_ok_def Cons)
qed (simp add: word_ok_def)

lemma quoted_dec_word:
  assumes "word_ok s" "is_ws c" "\<not> is_ws d" "int (length s) + 1 < n"
  shows "\<exists>G'. opt_quoted_dec (A @ G @ word_text s @ c # d # U) (int (length (A @ G))) (int (length A)) n False =
    Some ((A @ s @ [0]) @ G' @ d # U, int (length ((A @ s @ [0]) @ G')), int (length s)) \<and>
    length s + length G' = length G + length (word_text s)"
proof -
  let ?e = "int (length A) + n - 1"
  have "int (length A) + int (length s) < ?e" using assms(4) by simp
  from dec_word [OF assms(1-3) this, of G U] obtain G' where
    G': "dec_loop False (A @ G @ word_text s @ c # d # U) (int (length (A @ G))) (int (length A)) ?e =
      Some ((A @ s) @ G' @ c # d # U, int (length ((A @ s) @ G' @ [c])), int (length (A @ s)))"
    and l: "length s + length G' = length G + length (word_text s)" by blast
  obtain x xs where x: "word_text s = x # xs" "\<not> is_ws x" using word_text_first [OF assms(1)] by blast
  have sp: "span_ws (A @ G @ word_text s @ c # d # U) (int (length (A @ G))) = Some 0"
    using span_ws_0 [OF x(2), of "A @ G" "xs @ c # d # U"] x(1) by simp
  have w: "wr8 ((A @ s) @ G' @ c # d # U) (int (length (A @ s))) 0 = Some ((A @ s) @ 0 # tl (G' @ [c]) @ d # U)" by (rule wr8_gap)
  have "opt_quoted_dec (A @ G @ word_text s @ c # d # U) (int (length (A @ G))) (int (length A)) n False =
      Some ((A @ s) @ 0 # tl (G' @ [c]) @ d # U, int (length ((A @ s) @ G' @ [c])), int (length (A @ s)) - int (length A))"
    unfolding opt_quoted_dec_def sp using assms(4) G' w by simp
  with l show ?thesis by (intro exI [of _ "tl (G' @ [c])"]) simp
qed

text \<open>The arguments one behind the other, and where each starts.\<close>

definition args_text :: "byte list list \<Rightarrow> byte list" where
  "args_text ws = concat (map (\<lambda>w. w @ [0]) ws)"

fun starts :: "nat \<Rightarrow> byte list list \<Rightarrow> int list" where
  "starts a [] = []"
| "starts a (w # ws) = int a # starts (a + length w + 1) ws"

lemma args_at: "list_all word_ok ws \<Longrightarrow> map (string_at (A @ args_text ws @ R)) (starts (length A) ws) = map Some ws"
proof (induction ws arbitrary: A)
  case (Cons w ws)
  have "string_at (A @ args_text (w # ws) @ R) (int (length A)) = Some w"
    using Cons.prems by (simp add: string_at_def args_text_def cstr_id word_ok_def)
  with Cons.IH [of "A @ w @ [0]"] Cons.prems show ?case by (simp add: args_text_def)
qed simp

lemma line_text_first: "list_all word_ok ws \<Longrightarrow> \<exists>d U'. line_text ws @ 0 # U = d # U' \<and> \<not> is_ws d"
proof (cases ws)
  case (Cons w vs)
  assume "list_all word_ok ws"
  then show ?thesis using word_text_first [of w] Cons by auto
qed (use special(2) in simp)

lemma quoted_nonzero: "0 \<notin> set (quoted_c s)"
proof (induction s)
  case (Cons c s)
  have "0 \<notin> set (quote_byte OPT_QUOTED_ENC_C c)"
  proof (cases "esc_of OPT_QUOTED_ENC_C c")
    case None
    then show ?thesis by (auto simp: quote_byte_def esc_of_def split: if_splits)
  next
    case (Some t)
    then have "0 \<notin> set t" by (auto simp: esc_of_def split: if_splits)
    with Some show ?thesis by (simp add: quote_byte_def)
  qed
  with Cons.IH show ?case by (simp add: quoted_def)
qed (simp add: quoted_def)

lemma line_text_nonzero: "list_all word_ok ws \<Longrightarrow> 0 \<notin> set (line_text ws)"
  by (induction ws) (auto simp: word_text_def word_ok_def quoted_nonzero)

lemma argv_step:
  assumes "rd8 m p = Some c" "c \<noteq> 0" "p < e" "length argv < argn" "opt_quoted_dec m p d (e - p) False = Some (m', p', n)"
    "p < p'" "d' = d + n + 1"
  shows "argv_loop m p d e argn argv = argv_loop m' p' d' e argn (argv @ [d])"
  using assms by (subst argv_loop.simps) simp

lemma argv_loop_text:
  "list_all word_ok ws \<Longrightarrow> length argv + length ws \<le> argn \<Longrightarrow> int (length (A @ G @ line_text ws)) + 1 = e \<Longrightarrow>
   \<exists>G'. argv_loop (A @ G @ line_text ws @ 0 # U) (int (length (A @ G))) (int (length A)) e argn argv =
     Some ((A @ args_text ws) @ G' @ 0 # U, int (length ((A @ args_text ws) @ G')), int (length (A @ args_text ws)),
       argv @ starts (length A) ws)"
proof (induction ws arbitrary: A G argv)
  case Nil
  then show ?case using rd8_gap [of A G 0 U]
    by (intro exI [of _ G]) (subst argv_loop.simps, simp add: args_text_def)
next
  case (Cons w ws)
  have w: "word_ok w" "list_all word_ok ws" using Cons.prems(1) by auto
  let ?c = "if ws = [] then 10 else 32 :: byte"
  let ?p = "int (length (A @ G))"
  obtain d U' where d: "line_text ws @ 0 # U = d # U'" "\<not> is_ws d" using line_text_first [OF w(2)] by blast
  obtain x xs where x: "word_text w = x # xs" "x \<noteq> 0" using word_text_first [OF w(1)] by blast
  have len: "length w \<le> length (word_text w)" using quoted_c_length [of w] by (simp add: word_text_def)
  have fits: "int (length w) + 1 < e - ?p" using Cons.prems(3) len by simp
  have wsc: "is_ws ?c" using special(4,5) by simp
  from quoted_dec_word [OF w(1) wsc d(2) fits, of A G U'] obtain G' where
    l: "length w + length G' = length G + length (word_text w)"
    and G': "opt_quoted_dec (A @ G @ word_text w @ ?c # d # U') ?p (int (length A)) (e - ?p) False =
      Some ((A @ w @ [0]) @ G' @ d # U', int (length ((A @ w @ [0]) @ G')), int (length w))" by blast
  have m: "A @ G @ line_text (w # ws) @ 0 # U = A @ G @ word_text w @ ?c # d # U'" using d(1) by simp
  have same: "length ((A @ w @ [0]) @ G') = length (A @ G @ word_text w @ [?c])"
    using l by simp
  have "argv_loop (A @ G @ line_text (w # ws) @ 0 # U) ?p (int (length A)) e argn argv =
      argv_loop ((A @ w @ [0]) @ G' @ d # U') (int (length ((A @ w @ [0]) @ G'))) (int (length (A @ w @ [0]))) e argn (argv @ [int (length A)])"
    unfolding m
  proof (rule argv_step [OF _ x(2) _ _ G'])
    show "rd8 (A @ G @ word_text w @ ?c # d # U') ?p = Some x" using rd8_gap [of A G x "xs @ ?c # d # U'"] x(1) by simp
  qed (use Cons.prems same x(1) in auto)
  moreover have "length (argv @ [int (length A)]) + length ws \<le> argn" using Cons.prems(2) by simp
  moreover have "int (length ((A @ w @ [0]) @ G' @ line_text ws)) + 1 = e" using Cons.prems(3) same by simp
  ultimately show ?case
    using Cons.IH [OF w(2), of "argv @ [int (length A)]" "A @ w @ [0]" G'] by (auto simp: args_text_def d(1) [symmetric])
qed

text \<open>
  C24. Quoting and splitting are inverse: for arguments that are not empty and hold no zero byte, and a buffer with
  room for the line and two bytes, \<open>opt_cat\<close> writes exactly the line \<open>line_text ws\<close> (words with white space,
  quotes or backslashes in quotes with escapes, a space between words, a newline at the end) and returns its length;
  \<open>opt_str2argv\<close> on that buffer, in place, stores one pointer for each argument, and the string at
  the pointer is the argument, whatever bytes it has.
\<close>

theorem cat_argv_roundtrip:
  assumes "ws \<noteq> []" "list_all word_ok ws" "int (length (line_text ws)) + 2 \<le> n" "n \<le> int (length m)" "length ws \<le> argn"
  shows "\<exists>m1 m2 p argv. opt_cat m 0 n (map CatStr ws) = Some (m1, int (length (line_text ws))) \<and>
    string_at m1 0 = Some (line_text ws) \<and> opt_str2argv m1 0 argn = Some (m2, p, argv) \<and> map (string_at m2) argv = map Some ws"
proof -
  have rest: "cat_rest ([] \<noteq> ([] :: byte list)) ws = line_text ws" using cat_rest_line [OF assms(1)] by simp
  from cat_loop_text [OF assms(2), of "[]" n m] assms(3,4) rest obtain R where
    cat: "opt_cat m 0 n (map CatStr ws) = Some (line_text ws @ 0 # R, int (length (line_text ws)))"
    by (auto simp: opt_cat_def)
  have z: "0 \<notin> set (line_text ws)" using line_text_nonzero [OF assms(2)] .
  from argv_loop_text [OF assms(2), of "[]" argn "[]" "[]" _ R] assms(5) obtain G' where
    split: "argv_loop (line_text ws @ 0 # R) 0 0 (int (length (line_text ws)) + 1) argn [] =
      Some (args_text ws @ G' @ 0 # R, int (length (args_text ws @ G')), int (length (args_text ws)), starts 0 ws)" by auto
  have str: "string_at (line_text ws @ 0 # R) 0 = Some (line_text ws)" using z by (simp add: string_at_def cstr_id)
  with split wr8_gap [of "args_text ws" G' 0 R 0]
  have "opt_str2argv (line_text ws @ 0 # R) 0 argn =
      Some (args_text ws @ 0 # tl (G' @ [0]) @ R, int (length (args_text ws @ G')), starts 0 ws)"
    by (simp add: opt_str2argv_def)
  with cat str args_at [OF assms(2), of "[]" "0 # tl (G' @ [0]) @ R"] show ?thesis by auto
qed

definition some_args :: "byte list list" where
  "some_args = [bytes_of ''run'', [97, 32, 34, 10, 98], [92]]"

lemma cat_argv_roundtrip_witness:
  "\<exists>m1 m2 p argv. opt_cat (replicate 40 0) 0 40 (map CatStr some_args) = Some (m1, int (length (line_text some_args))) \<and>
    string_at m1 0 = Some (line_text some_args) \<and> opt_str2argv m1 0 3 = Some (m2, p, argv) \<and>
    map (string_at m2) argv = map Some some_args"
proof (rule cat_argv_roundtrip)
  show "some_args \<noteq> []" "list_all word_ok some_args" "length some_args \<le> 3" by code_simp+
  show "int (length (line_text some_args)) + 2 \<le> 40" by code_simp
qed simp

section \<open>Finding an option\<close>

text \<open>The names of an option: aliases with bars between them, then white space and a description, if any.\<close>

definition alias_ok :: "byte list \<Rightarrow> bool" where
  "alias_ok a \<longleftrightarrow> a \<noteq> [] \<and> (\<forall>c\<in>set a. c \<noteq> 124 \<and> \<not> is_ws c)"

fun names_text :: "byte list list \<Rightarrow> byte list \<Rightarrow> byte list" where
  "names_text [] desc = desc"
| "names_text [a] desc = a @ desc"
| "names_text (a # as) desc = a @ 124 # names_text as desc"

definition desc_ok :: "byte list \<Rightarrow> bool" where
  "desc_ok d \<longleftrightarrow> (case d of [] \<Rightarrow> True | c # _ \<Rightarrow> is_ws c)"

lemma name_prefix: "alias_ok a \<Longrightarrow> \<not> (case r of [] \<Rightarrow> False | c # _ \<Rightarrow> c \<noteq> 124 \<and> \<not> is_ws c) \<Longrightarrow>
    takeWhile (\<lambda>c. c \<noteq> 124 \<and> \<not> is_ws c) (a @ r) = a"
  by (cases r) (auto simp: alias_ok_def takeWhile_tail)

lemma alias_match_names:
  "as \<noteq> [] \<Longrightarrow> list_all alias_ok as \<Longrightarrow> desc_ok d \<Longrightarrow> alias_match (names_text as d) name \<longleftrightarrow> name \<in> set as"
proof (induction as d rule: names_text.induct)
  case (2 a d)
  have tw: "takeWhile (\<lambda>c. c \<noteq> 124 \<and> \<not> is_ws c) (a @ d) = a"
    using 2 by (intro name_prefix) (auto simp: desc_ok_def split: list.splits)
  have "\<And>c e r. d = c # e # r \<Longrightarrow> c \<noteq> 124" using 2 by (auto simp: desc_ok_def is_ws_def)
  then show ?case using 2 tw
    by (subst alias_match.simps) (auto simp: alias_ok_def Let_def split: list.splits)
next
  case (3 a b as d)
  let ?r = "names_text (b # as) d"
  have tw: "takeWhile (\<lambda>c. c \<noteq> 124 \<and> \<not> is_ws c) (a @ 124 # ?r) = a" using 3 by (intro name_prefix) auto
  obtain x r where r: "?r = x # r" using 3(3) by (cases b; cases as) (auto simp: alias_ok_def)
  have "alias_match (names_text (a # b # as) d) name \<longleftrightarrow> name = a \<or> alias_match ?r name"
    using 3(3) tw r by (subst alias_match.simps) (auto simp: alias_ok_def Let_def)
  then show ?case using 3 by auto
qed simp

lemma opt_get_from_index:
  "list_all2 (\<lambda>x as. \<exists>d. o_names x = Some (names_text as d) \<and> as \<noteq> [] \<and> list_all alias_ok as \<and> desc_ok d) xs ass \<Longrightarrow> o_names z = None \<Longrightarrow>
   opt_get_from (xs @ z # zs) i name = Some (find (\<lambda>j. name \<in> set (ass ! (j - i))) [i..<i + length ass])"
proof (induction xs arbitrary: ass i)
  case (Cons x xs)
  then obtain as ass' d where ass: "ass = as # ass'" and x: "o_names x = Some (names_text as d)" "as \<noteq> []" "list_all alias_ok as" "desc_ok d"
    and r: "list_all2 (\<lambda>x as. \<exists>d. o_names x = Some (names_text as d) \<and> as \<noteq> [] \<and> list_all alias_ok as \<and> desc_ok d) xs ass'"
    by (cases ass) auto
  have up: "[i..<i + length ass] = i # [Suc i..<Suc i + length ass']" by (subst upt_rec) (simp add: ass)
  have shift: "find (\<lambda>j. name \<in> set (ass ! (j - i))) [Suc i..<Suc i + length ass'] =
      find (\<lambda>j. name \<in> set (ass' ! (j - Suc i))) [Suc i..<Suc i + length ass']"
  proof (intro find_cong refl)
    fix j assume "j \<in> set [Suc i..<Suc i + length ass']"
    then have "j - i = Suc (j - Suc i)" by auto
    then show "name \<in> set (ass ! (j - i)) \<longleftrightarrow> name \<in> set (ass' ! (j - Suc i))" by (simp add: ass)
  qed
  show ?case unfolding up find.simps shift
    using x alias_match_names [OF x(2-4), of name] Cons.IH [OF r Cons.prems(2), of "Suc i"]
    by (simp add: ass del: upt_Suc)
qed simp

text \<open>
  For a table of options with well-formed names (aliases that are not empty and hold neither a bar nor white space,
  with bars between them, then perhaps white space and a description) that ends in an entry without names,
  \<open>opt_get\<close> returns the first option one of whose aliases is the name, and nothing if there is none: a part of an
  alias, several aliases with their bar or a word of the description are never found.
\<close>

theorem option_found:
  assumes "list_all2 (\<lambda>x as. \<exists>d. o_names x = Some (names_text as d) \<and> as \<noteq> [] \<and> list_all alias_ok as \<and> desc_ok d) xs ass"
    "o_names z = None"
  shows "opt_get (xs @ [z]) name = Some (find (\<lambda>j. name \<in> set (ass ! j)) [0..<length ass])"
  using opt_get_from_index [OF assms, of "[]" 0 name] by (simp add: opt_get_def)

definition some_options :: "unit OptSet list" where
  "some_options = [optset_zero\<lparr>o_names := Some (bytes_of ''v|verbose  say more'')\<rparr>, optset_zero\<lparr>o_names := Some (bytes_of ''o'')\<rparr>]"

lemma option_found_witness:
  "opt_get (some_options @ [optset_zero]) (bytes_of ''o'') =
    Some (find (\<lambda>j. bytes_of ''o'' \<in> set ([[bytes_of ''v'', bytes_of ''verbose''], [bytes_of ''o'']] ! j)) [0..<length [[bytes_of ''v'', bytes_of ''verbose''], [bytes_of ''o'']]])"
proof (rule option_found)
  have "o_names (some_options ! 0) = Some (names_text [bytes_of ''v'', bytes_of ''verbose''] (bytes_of ''  say more''))"
    "list_all alias_ok [bytes_of ''v'', bytes_of ''verbose'']" "desc_ok (bytes_of ''  say more'')"
    "o_names (some_options ! 1) = Some (names_text [bytes_of ''o''] [])" "list_all alias_ok [bytes_of ''o'']" "desc_ok []" by code_simp+
  then show "list_all2 (\<lambda>x as. \<exists>d. o_names x = Some (names_text as d) \<and> as \<noteq> [] \<and> list_all alias_ok as \<and> desc_ok d)
      some_options [[bytes_of ''v'', bytes_of ''verbose''], [bytes_of ''o'']]"
    unfolding some_options_def by (auto simp del: names_text.simps)
qed (simp add: optset_zero_def)

end
