(* ===== verification/OptSafe.thy ===== *)
theory OptSafe
  imports OptProps
begin

text \<open>
  \<open>opt_str2argv\<close> on any string without backslashes: it returns, and it touches nothing but the string and the one
  byte behind its terminator. That byte is zeroed when the string does not end in white space.
\<close>

definition clean :: "byte list \<Rightarrow> bool" where
  "clean w \<longleftrightarrow> 0 \<notin> set w \<and> 92 \<notin> set w"

lemma clean_simps [simp]: "clean []" "clean (c # w) \<longleftrightarrow> c \<noteq> 0 \<and> c \<noteq> 92 \<and> clean w" "clean (v @ w) \<longleftrightarrow> clean v \<and> clean w"
  by (auto simp: clean_def)

lemma str_stop: "rd8 m p = Some c \<Longrightarrow> c = 0 \<or> \<not> d < e \<Longrightarrow> str_loop False m p d e = Some (m, p, d)"
  by (subst str_loop.simps) auto

lemma str_loop_safe:
  "clean w \<Longrightarrow> \<exists>B G' w'. clean w' \<and> length B + length w' \<le> length w \<and> length B + length G' + length w' = length G + length w \<and>
     str_loop False (A @ G @ w @ 0 # U) (int (length (A @ G))) (int (length A)) e =
     Some ((A @ B) @ G' @ w' @ 0 # U, int (length ((A @ B) @ G')), int (length (A @ B)))"
proof (induction w arbitrary: A G)
  case Nil
  then show ?case using str_stop [OF rd8_gap [of A G 0 U]]
    by (intro exI [of _ "[]"] exI [of _ G]) simp
next
  case (Cons c w)
  note r = rd8_gap [of A G c "w @ 0 # U"]
  consider "\<not> int (length A) < e" | "int (length A) < e" "c = 34" | "int (length A) < e" "c \<noteq> 34" by blast
  then show ?case
  proof cases
    case 1
    then have "str_loop False (A @ G @ (c # w) @ 0 # U) (int (length (A @ G))) (int (length A)) e =
        Some (A @ G @ (c # w) @ 0 # U, int (length (A @ G)), int (length A))" using str_stop [OF r] by simp
    then show ?thesis using Cons.prems by (intro exI [of _ "[]"] exI [of _ G] exI [of _ "c # w"]) simp
  next
    case 2
    then have "str_loop False (A @ G @ (c # w) @ 0 # U) (int (length (A @ G))) (int (length A)) e =
        Some (A @ G @ (c # w) @ 0 # U, int (length (A @ G @ [c])), int (length A))"
      using r by (intro str_closed) simp_all
    then show ?thesis using 2(2) Cons.prems
      by (intro exI [of _ "[]"] exI [of _ "G @ [34]"] exI [of _ w]) simp
  next
    case 3
    have c: "c \<noteq> 0" "c \<noteq> 92" and w: "clean w" using Cons.prems by simp_all
    let ?G = "tl (G @ [c])"
    have step: "str_loop False (A @ G @ (c # w) @ 0 # U) (int (length (A @ G))) (int (length A)) e =
        str_loop False ((A @ [c]) @ ?G @ w @ 0 # U) (int (length ((A @ [c]) @ ?G))) (int (length (A @ [c]))) e"
    proof -
      have m: "A @ G @ (c # w) @ 0 # U = A @ G @ c # w @ 0 # U" "(A @ [c]) @ ?G @ w @ 0 # U = A @ c # ?G @ w @ 0 # U" by simp_all
      show ?thesis unfolding m by (rule str_plain [OF r c(1) 3(1) 3(2) c(2) wr8_gap]) simp_all
    qed
    from Cons.IH [OF w, where A = "A @ [c]" and G = ?G] obtain B G' w' where
      "clean w'" "length B + length w' \<le> length w" "length B + length G' + length w' = length ?G + length w"
      "str_loop False ((A @ [c]) @ ?G @ w @ 0 # U) (int (length ((A @ [c]) @ ?G))) (int (length (A @ [c]))) e =
        Some (((A @ [c]) @ B) @ G' @ w' @ 0 # U, int (length (((A @ [c]) @ B) @ G')), int (length ((A @ [c]) @ B)))" by blast
    then show ?thesis unfolding step
      by (intro exI [of _ "c # B"] exI [of _ G'] exI [of _ w']) simp
  qed
qed

lemma dec_stop: "rd8 m p = Some c \<Longrightarrow> c = 0 \<or> \<not> d < e \<Longrightarrow> dec_loop nos m p d e = Some (m, p, d)"
  by (subst dec_loop.simps) auto

lemma dec_plain_step:
  assumes "rd8 m p = Some c" "c \<noteq> 0" "d < e" "\<not> is_ws c" "c \<noteq> 34" "wr8 m d c = Some m'" "p' = p + 1" "d' = d + 1"
  shows "dec_loop nos m p d e = dec_loop nos m' p' d' e"
  using assms by (subst dec_loop.simps) simp

lemma dec_ws:
  assumes "rd8 m p = Some c" "is_ws c" "d < e" "span_ws m p = Some k"
  shows "dec_loop nos m p d e = Some (m, p + k, d)"
  using assms special(1) [OF assms(2)] by (subst dec_loop.simps) simp

lemma span_ws_rest:
  assumes "clean w"
  shows "\<exists>s w'. w = s @ w' \<and> (w \<noteq> [] \<and> is_ws (w ! 0) \<longrightarrow> s \<noteq> []) \<and> (w' \<noteq> [] \<longrightarrow> \<not> is_ws (w' ! 0)) \<and>
    span_ws (A @ w @ 0 # U) (int (length A)) = Some (int (length s))"
proof -
  let ?s = "takeWhile is_ws w" and ?w = "dropWhile is_ws w"
  have "takeWhile is_ws (w @ 0 # U) = ?s" using special(2) by (induction w) auto
  then have "span_ws (A @ w @ 0 # U) (int (length A)) = Some (int (length ?s))"
    using length_takeWhile_le [of is_ws w] by (simp add: span_ws_def)
  moreover have "?w \<noteq> [] \<longrightarrow> \<not> is_ws (?w ! 0)" using hd_dropWhile [of is_ws w] by (simp add: hd_conv_nth)
  moreover have "w \<noteq> [] \<and> is_ws (w ! 0) \<longrightarrow> ?s \<noteq> []" by (cases w) auto
  ultimately show ?thesis by (intro exI [of _ ?s] exI [of _ ?w]) simp
qed

text \<open>A call takes at least a byte of the text; it stops at the end, behind white space or when the output is full.\<close>

lemma dec_loop_safe:
  "clean w \<Longrightarrow> \<exists>B G' w'. clean w' \<and> length B + length w' \<le> length w \<and> length B + length G' + length w' = length G + length w \<and>
     (w' = [] \<or> length G < length G' \<or> e \<le> int (length (A @ B))) \<and> (w \<noteq> [] \<and> int (length A) < e \<longrightarrow> length w' < length w) \<and>
     dec_loop False (A @ G @ w @ 0 # U) (int (length (A @ G))) (int (length A)) e =
     Some ((A @ B) @ G' @ w' @ 0 # U, int (length ((A @ B) @ G')), int (length (A @ B)))"
proof (induction "length w" arbitrary: A G w rule: less_induct)
  case less
  show ?case
  proof (cases w)
    case Nil
    then show ?thesis using dec_stop [OF rd8_gap [of A G 0 U]] by (intro exI [of _ "[]"] exI [of _ G]) simp
  next
    case (Cons c w1)
    note r = rd8_gap [of A G c "w1 @ 0 # U"]
    have c: "c \<noteq> 0" "c \<noteq> 92" and w1: "clean w1" "length w1 < length w" using less.prems Cons by simp_all
    consider "\<not> int (length A) < e" | "int (length A) < e" "is_ws c" | "int (length A) < e" "c = 34"
      | "int (length A) < e" "\<not> is_ws c" "c \<noteq> 34" by blast
    then show ?thesis
    proof cases
      case 1
      then show ?thesis using dec_stop [OF r] less.prems Cons by (intro exI [of _ "[]"] exI [of _ G] exI [of _ w]) simp
    next
      case 2
      from span_ws_rest [OF less.prems, of "A @ G" U] obtain s w' where
        s0: "w = s @ w' \<and> (w \<noteq> [] \<and> is_ws (w ! 0) \<longrightarrow> s \<noteq> []) \<and>
          span_ws ((A @ G) @ w @ 0 # U) (int (length (A @ G))) = Some (int (length s))" by (elim exE) blast
      have s: "w = s @ w'" "s \<noteq> []" using s0 Cons 2(2) by auto
      have s3: "span_ws (A @ G @ w @ 0 # U) (int (length (A @ G))) = Some (int (length s))"
        using conjunct2 [OF conjunct2 [OF s0]] by (simp only: append_assoc)
      have "rd8 (A @ G @ w @ 0 # U) (int (length (A @ G))) = Some c" using r Cons by simp
      from dec_ws [OF this 2(2,1) s3] less.prems s(1,2) show ?thesis
        by (intro exI [of _ "[]"] exI [of _ "G @ s"] exI [of _ w']) simp
    next
      case 3
      from str_loop_safe [OF w1(1), of "G @ [34]" A U e] obtain B G1 w2 where
        B: "clean w2" "length B + length w2 \<le> length w1" "length B + length G1 + length w2 = length (G @ [34]) + length w1"
          "str_loop False (A @ (G @ [34]) @ w1 @ 0 # U) (int (length (A @ (G @ [34])))) (int (length A)) e =
           Some ((A @ B) @ G1 @ w2 @ 0 # U, int (length ((A @ B) @ G1)), int (length (A @ B)))" by blast
      have "length w2 < length w" using B(2) w1(2) by simp
      from less.hyps [OF this B(1), where A = "A @ B" and G = G1] obtain B' G' w' where
        B': "clean w'" "length B' + length w' \<le> length w2" "length B' + length G' + length w' = length G1 + length w2"
          "w' = [] \<or> length G1 < length G' \<or> e \<le> int (length ((A @ B) @ B'))"
          "dec_loop False ((A @ B) @ G1 @ w2 @ 0 # U) (int (length ((A @ B) @ G1))) (int (length (A @ B))) e =
           Some (((A @ B) @ B') @ G' @ w' @ 0 # U, int (length (((A @ B) @ B') @ G')), int (length ((A @ B) @ B')))" by blast
      have "dec_loop False (A @ G @ w @ 0 # U) (int (length (A @ G))) (int (length A)) e =
          dec_loop False ((A @ B) @ G1 @ w2 @ 0 # U) (int (length ((A @ B) @ G1))) (int (length (A @ B))) e"
        using dec_open [OF 3(1), of False G "w1 @ 0 # U"] B(4) Cons 3(2) by simp
      with B'(5) B(2,3) B'(1-4) Cons show ?thesis
        by (intro exI [of _ "B @ B'"] exI [of _ G'] exI [of _ w']) auto
    next
      case 4
      let ?G = "tl (G @ [c])"
      have m: "A @ G @ w @ 0 # U = A @ G @ c # w1 @ 0 # U" "(A @ [c]) @ ?G @ w1 @ 0 # U = A @ c # ?G @ w1 @ 0 # U"
        using Cons by simp_all
      have step: "dec_loop False (A @ G @ w @ 0 # U) (int (length (A @ G))) (int (length A)) e =
          dec_loop False ((A @ [c]) @ ?G @ w1 @ 0 # U) (int (length ((A @ [c]) @ ?G))) (int (length (A @ [c]))) e"
        unfolding m by (rule dec_plain_step [OF r c(1) 4 wr8_gap]) simp_all
      from less.hyps [OF w1(2,1), where A = "A @ [c]" and G = ?G] obtain B' G' w' where
        B': "clean w'" "length B' + length w' \<le> length w1" "length B' + length G' + length w' = length ?G + length w1"
          "w' = [] \<or> length ?G < length G' \<or> e \<le> int (length ((A @ [c]) @ B'))"
          "dec_loop False ((A @ [c]) @ ?G @ w1 @ 0 # U) (int (length ((A @ [c]) @ ?G))) (int (length (A @ [c]))) e =
           Some (((A @ [c]) @ B') @ G' @ w' @ 0 # U, int (length (((A @ [c]) @ B') @ G')), int (length ((A @ [c]) @ B')))" by blast
      then show ?thesis unfolding step using Cons by (intro exI [of _ "c # B'"] exI [of _ G'] exI [of _ w']) auto
    qed
  qed
qed

text \<open>
  One argument: the result is again a text behind a gap, or the whole text was written and the terminator is the
  argument's.
\<close>

lemma quoted_dec_safe:
  assumes "clean w" "w \<noteq> []"
  shows "\<exists>B G' w' t. clean w' \<and> length w' < length w \<and> length B + length G' + length w' = length G + length w \<and>
     (t = 0 \<or> t = 1 \<and> G' = [] \<and> w' = []) \<and> length B + length w' \<le> length w + 1 \<and>
     opt_quoted_dec (A @ G @ w @ 0 # U) (int (length (A @ G))) (int (length A)) (int (length w) + 1) False =
     Some ((A @ B) @ G' @ w' @ 0 # U, int (length ((A @ B) @ G')), int (length B) + t - 1)"
proof -
  let ?e = "int (length A) + (int (length w) + 1) - 1"
  from span_ws_rest [OF assms(1), of "A @ G" U] obtain s w1 where
    s0: "w = s @ w1 \<and> (w \<noteq> [] \<and> is_ws (w ! 0) \<longrightarrow> s \<noteq> []) \<and> (w1 \<noteq> [] \<longrightarrow> \<not> is_ws (w1 ! 0)) \<and>
      span_ws ((A @ G) @ w @ 0 # U) (int (length (A @ G))) = Some (int (length s))" by (elim exE) blast
  have w: "w = s @ w1" and w1: "clean w1" using s0 assms(1) by auto
  have sp: "span_ws (A @ G @ w @ 0 # U) (int (length (A @ G))) = Some (int (length s))"
    using conjunct2 [OF conjunct2 [OF conjunct2 [OF s0]]] by (simp only: append_assoc)
  from dec_loop_safe [OF w1, of "G @ s" ?e A U] obtain B G' w' where
    B: "clean w'" "length B + length w' \<le> length w1" "length B + length G' + length w' = length (G @ s) + length w1"
      "w' = [] \<or> length (G @ s) < length G' \<or> ?e \<le> int (length (A @ B))"
      "w1 \<noteq> [] \<and> int (length A) < ?e \<longrightarrow> length w' < length w1"
      "dec_loop False (A @ (G @ s) @ w1 @ 0 # U) (int (length (A @ (G @ s)))) (int (length A)) ?e =
       Some ((A @ B) @ G' @ w' @ 0 # U, int (length ((A @ B) @ G')), int (length (A @ B)))" by blast
  have le: "int (length (A @ B)) \<le> ?e" using B(2) w by simp
  have short: "length w' < length w"
  proof (cases "w1 = []")
    case True
    then show ?thesis using B(2) assms(2) by simp
  next
    case False
    then have "int (length A) < ?e" using w by (cases w1) auto
    then show ?thesis using B(5) False w by simp
  qed
  have dec: "opt_quoted_dec (A @ G @ w @ 0 # U) (int (length (A @ G))) (int (length A)) (int (length w) + 1) False =
      do { m \<leftarrow> wr8 ((A @ B) @ G' @ w' @ 0 # U) (int (length (A @ B))) 0;
        Some (m, int (length ((A @ B) @ G')), int (length B)) }"
  proof -
    have q: "int (length (A @ G)) + int (length s) = int (length (A @ (G @ s)))" by simp
    have d: "dec_loop False (A @ G @ w @ 0 # U) (int (length (A @ G)) + int (length s)) (int (length A)) ?e =
        Some ((A @ B) @ G' @ w' @ 0 # U, int (length ((A @ B) @ G')), int (length (A @ B)))"
      unfolding q using B(6) w by simp
    show ?thesis unfolding opt_quoted_dec_def sp Let_def Option.bind.simps d prod.case using le by simp
  qed
  show ?thesis
  proof (cases G')
    case Nil
    then have nil: "w' = []"
      using B(2,3,4) w by (cases w') auto
    have "wr8 ((A @ B) @ G' @ w' @ 0 # U) (int (length (A @ B))) 0 = Some ((A @ B) @ 0 # U)"
      using wr8_at [of "A @ B" 0 U 0] Nil nil by simp
    with dec B(1,2,3) short Nil nil w show ?thesis
      by (intro exI [of _ B] exI [of _ G'] exI [of _ w'] exI [of _ 1]) simp
  next
    case (Cons g G1)
    have "wr8 ((A @ B) @ G' @ w' @ 0 # U) (int (length (A @ B))) 0 = Some ((A @ B) @ 0 # G1 @ w' @ 0 # U)"
      using wr8_at [of "A @ B" g "G1 @ w' @ 0 # U" 0] Cons by simp
    with dec B(1,2,3) short Cons w show ?thesis
      by (intro exI [of _ "B @ [0]"] exI [of _ G1] exI [of _ w'] exI [of _ 0]) simp
  qed
qed

lemma argv_loop_safe:
  "clean w \<Longrightarrow> length argv + length w \<le> argn \<Longrightarrow> int (length (A @ G @ w)) + 1 = e \<Longrightarrow>
   \<exists>B G' t argv'. length B + length G' = length G + length w \<and> (t = 0 \<or> t = 1 \<and> G' = []) \<and>
     length argv' \<le> length argv + length w \<and>
     argv_loop (A @ G @ w @ 0 # U) (int (length (A @ G))) (int (length A)) e argn argv =
     Some ((A @ B) @ G' @ 0 # U, int (length ((A @ B) @ G')), int (length (A @ B)) + t, argv')"
proof (induction "length w" arbitrary: A G w argv rule: less_induct)
  case less
  show ?case
  proof (cases w)
    case Nil
    then show ?thesis using rd8_gap [of A G 0 U]
      by (intro exI [of _ "[]"] exI [of _ G] exI [of _ 0] exI [of _ argv]) (subst argv_loop.simps, simp)
  next
    case (Cons c w1)
    then have ne: "w \<noteq> []" and c: "c \<noteq> 0" using less.prems(1) by simp_all
    from quoted_dec_safe [OF less.prems(1) ne, of G A U] obtain B G1 w2 t where
      B: "clean w2" "length w2 < length w" "length B + length G1 + length w2 = length G + length w"
        "t = 0 \<or> t = 1 \<and> G1 = [] \<and> w2 = []" "length B + length w2 \<le> length w + 1"
        "opt_quoted_dec (A @ G @ w @ 0 # U) (int (length (A @ G))) (int (length A)) (int (length w) + 1) False =
         Some ((A @ B) @ G1 @ w2 @ 0 # U, int (length ((A @ B) @ G1)), int (length B) + t - 1)" by blast
    have r: "rd8 (A @ G @ w @ 0 # U) (int (length (A @ G))) = Some c" using rd8_gap [of A G c "w1 @ 0 # U"] Cons by simp
    have n: "e - int (length (A @ G)) = int (length w) + 1" using less.prems(3) by simp
    have step: "argv_loop (A @ G @ w @ 0 # U) (int (length (A @ G))) (int (length A)) e argn argv =
        argv_loop ((A @ B) @ G1 @ w2 @ 0 # U) (int (length ((A @ B) @ G1))) (int (length (A @ B)) + t) e argn (argv @ [int (length A)])"
    proof (rule argv_step [OF r c])
      show "opt_quoted_dec (A @ G @ w @ 0 # U) (int (length (A @ G))) (int (length A)) (e - int (length (A @ G))) False =
         Some ((A @ B) @ G1 @ w2 @ 0 # U, int (length ((A @ B) @ G1)), int (length B) + t - 1)" unfolding n by (rule B(6))
    qed (use less.prems(2,3) Cons B(2,3) in auto)
    show ?thesis
    proof (cases "t = 0")
      case True
      have a: "length (argv @ [int (length A)]) + length w2 \<le> argn" using less.prems(2) B(2) by simp
      have e: "int (length ((A @ B) @ G1 @ w2)) + 1 = e" using less.prems(3) B(3) by simp
      from less.hyps [OF B(2,1) a e] obtain B' G' t' argv' where
        "length B' + length G' = length G1 + length w2" "t' = 0 \<or> t' = 1 \<and> G' = []"
        "length argv' \<le> length (argv @ [int (length A)]) + length w2"
        "argv_loop ((A @ B) @ G1 @ w2 @ 0 # U) (int (length ((A @ B) @ G1))) (int (length (A @ B))) e argn (argv @ [int (length A)]) =
         Some (((A @ B) @ B') @ G' @ 0 # U, int (length (((A @ B) @ B') @ G')), int (length ((A @ B) @ B')) + t', argv')"
        by blast
      with B(2,3) True show ?thesis unfolding step
        by (intro exI [of _ "B @ B'"] exI [of _ G'] exI [of _ t'] exI [of _ argv']) auto
    next
      case False
      then have t: "t = 1" "G1 = []" "w2 = []" using B(4) by auto
      have "argv_loop ((A @ B) @ G1 @ w2 @ 0 # U) (int (length ((A @ B) @ G1))) (int (length (A @ B)) + t) e argn (argv @ [int (length A)]) =
          Some ((A @ B) @ G1 @ 0 # U, int (length ((A @ B) @ G1)), int (length (A @ B)) + t, argv @ [int (length A)])"
        using rd8_gap [of "A @ B" "[]" 0 U] t by (subst argv_loop.simps) simp
      with B(3) t ne show ?thesis unfolding step
        by (intro exI [of _ B] exI [of _ G1] exI [of _ t] exI [of _ "argv @ [int (length A)]"]) (auto simp: Suc_le_eq)
    qed
  qed
qed

lemma str2argv_touches:
  assumes "clean w" "length w \<le> argn"
  shows "\<exists>M p argv. length M = length w + 2 \<and> length argv \<le> length w \<and>
    opt_str2argv (A @ w @ 0 # x # U) (int (length A)) argn = Some (A @ M @ U, p, argv)"
proof -
  have str: "string_at (A @ w @ 0 # x # U) (int (length A)) = Some w" using assms(1) by (simp add: string_at_def cstr_id clean_def)
  have n: "length ([] :: int list) + length w \<le> argn" and e: "int (length (A @ [] @ w)) + 1 = int (length A) + int (length w) + 1"
    using assms(2) by simp_all
  from argv_loop_safe [OF assms(1) n e, of "x # U"] obtain B G t argv where
    B: "length B + length G = length ([] :: byte list) + length w" "t = 0 \<or> t = 1 \<and> G = []"
     "length argv \<le> length ([] :: int list) + length w"
     "argv_loop (A @ [] @ w @ 0 # x # U) (int (length (A @ []))) (int (length A)) (int (length A) + int (length w) + 1) argn [] =
      Some ((A @ B) @ G @ 0 # x # U, int (length ((A @ B) @ G)), int (length (A @ B)) + t, argv)" by blast
  have "\<exists>M. length M = length w + 2 \<and> wr8 ((A @ B) @ G @ 0 # x # U) (int (length (A @ B)) + t) 0 = Some (A @ M @ U)"
  proof (cases "t = 0")
    case True
    then show ?thesis using wr8_gap [of "A @ B" G 0 "x # U" 0] B(1)
      by (intro exI [of _ "B @ 0 # tl (G @ [0]) @ [x]"]) simp
  next
    case False
    then have p: "int (length (A @ B)) + t = int (length (A @ B @ [0]))" and "G = []" using B(2) by auto
    then show ?thesis unfolding p using wr8_at [of "A @ B @ [0]" x U 0] B(1)
      by (intro exI [of _ "B @ [0, 0]"]) simp
  qed
  then obtain M where M: "length M = length w + 2" "wr8 ((A @ B) @ G @ 0 # x # U) (int (length (A @ B)) + t) 0 = Some (A @ M @ U)"
    by blast
  have "opt_str2argv (A @ w @ 0 # x # U) (int (length A)) argn = Some (A @ M @ U, int (length ((A @ B) @ G)), argv)"
    using str B(4) M(2) by (simp add: opt_str2argv_def)
  with M(1) B(3) show ?thesis by (intro exI [of _ M] exI [of _ "int (length ((A @ B) @ G))"] exI [of _ argv]) simp
qed

lemma wr8_end: "wr8 P (int (length P)) x = None"
  by (simp add: wr8_def mem_put_def)

lemma str2argv_plain:
  assumes "w \<noteq> []" "\<forall>c\<in>set w. \<not> is_ws c \<and> c \<noteq> 34 \<and> c \<noteq> 0" "0 < argn"
  shows "opt_str2argv (A @ w @ 0 # U) (int (length A)) argn =
    (case U of [] \<Rightarrow> None | x # V \<Rightarrow> Some (A @ w @ 0 # 0 # V, int (length (A @ w)), [int (length A)]))"
proof -
  let ?m = "A @ w @ 0 # U" and ?a = "int (length A)" and ?p = "int (length (A @ w))"
  let ?e = "?a + int (length w) + 1"
  obtain x xs where x: "w = x # xs" using assms(1) by (cases w) auto
  have x1: "\<not> is_ws x" "x \<noteq> 0" using assms(2) x by auto
  have str: "string_at ?m ?a = Some w" using assms(2) by (auto simp: string_at_def cstr_id)
  have sp: "span_ws ?m ?a = Some 0" using span_ws_0 [OF x1(1), of A "xs @ 0 # U"] x by simp
  have le: "?a + int (length w) \<le> ?e - 1" by simp
  from dec_plain [OF assms(2) le, of "[]" False "0 # U"]
  have "dec_loop False ?m ?a ?a (?e - 1) = dec_loop False ?m ?p ?p (?e - 1)" by simp
  also have "\<dots> = Some (?m, ?p, ?p)" using rd8_at [of "A @ w" 0 U] by (intro dec_stop) simp_all
  finally have q: "opt_quoted_dec ?m ?a ?a (?e - ?a) False = Some (?m, ?p, int (length w))"
    unfolding opt_quoted_dec_def sp using wr8_at [of "A @ w" 0 U 0] by (simp add: Let_def)
  have r: "rd8 ?m ?a = Some x" using rd8_at [of A x "xs @ 0 # U"] x by simp
  have "argv_loop ?m ?a ?a ?e argn [] = argv_loop ?m ?p (?p + 1) ?e argn ([] @ [?a])"
    by (rule argv_step [OF r x1(2) _ _ q]) (use x assms(3) in simp_all)
  also have "\<dots> = Some (?m, ?p, ?p + 1, [?a])" using rd8_at [of "A @ w" 0 U] by (subst argv_loop.simps) simp
  finally have "opt_str2argv ?m ?a argn = do { m \<leftarrow> wr8 ?m (?p + 1) 0; Some (m, ?p, [?a]) }"
    using str by (simp add: opt_str2argv_def)
  also have p: "?p + 1 = int (length (A @ w @ [0]))" by simp
  also have "wr8 ?m (int (length (A @ w @ [0]))) 0 = (case U of [] \<Rightarrow> None | y # V \<Rightarrow> Some (A @ w @ 0 # 0 # V))"
  proof (cases U)
    case Nil
    then show ?thesis using wr8_end [of "A @ w @ [0]" 0] by simp
  next
    case (Cons y V)
    then show ?thesis using wr8_at [of "A @ w @ [0]" y V 0] by simp
  qed
  finally show ?thesis by (cases U) simp_all
qed

section \<open>Properties\<close>

text \<open>
  C25. \<open>opt_str2argv\<close> returns on every string without backslashes, however its quotes and spaces stand: with an
  \<open>argv\<close> that has room for one pointer per byte of the string, it comes back with no more pointers than the string
  has bytes, and it changes nothing before the string and nothing behind the byte that follows its terminator.
\<close>

theorem str2argv_returns:
  assumes "0 \<notin> set w" "92 \<notin> set w" "length w \<le> argn"
  shows "\<exists>M p argv. length M = length w + 2 \<and> length argv \<le> length w \<and>
    opt_str2argv (A @ w @ 0 # x # U) (int (length A)) argn = Some (A @ M @ U, p, argv)"
  using str2argv_touches [of w argn A x U] assms by (simp add: clean_def)

definition some_line :: "byte list" where
  "some_line = [32, 34, 97, 32, 34, 98]"

lemma str2argv_returns_witness:
  "\<exists>M p argv. length M = length some_line + 2 \<and> length argv \<le> length some_line \<and>
    opt_str2argv ([7, 7] @ some_line @ 0 # 5 # [9]) (int (length [7, 7 :: byte])) 6 = Some ([7, 7] @ M @ [9], p, argv)"
  by (rule str2argv_returns) (simp_all add: some_line_def)

text \<open>
  The byte behind the terminator is not the caller's: for a line of one plain word that ends without white space,
  \<open>opt_str2argv\<close> finds the one argument but stores a zero behind the string's terminator, so in an array that is just
  as long as the string it writes outside, and otherwise it clears the byte that follows.
\<close>

theorem str2argv_overrun:
  assumes "w \<noteq> []" "\<forall>c\<in>set w. \<not> is_ws c \<and> c \<noteq> 34 \<and> c \<noteq> 0" "0 < argn"
  shows "opt_str2argv (A @ w @ [0]) (int (length A)) argn = None \<and>
    opt_str2argv (A @ w @ 0 # x # U) (int (length A)) argn = Some (A @ w @ 0 # 0 # U, int (length (A @ w)), [int (length A)])"
  using str2argv_plain [OF assms, of A "[]"] str2argv_plain [OF assms, of A "x # U"] by simp

lemma str2argv_overrun_witness:
  "opt_str2argv ([] @ [108, 115] @ [0]) (int (length ([] :: mem))) 4 = None \<and>
   opt_str2argv ([] @ [108, 115] @ 0 # 77 # []) (int (length ([] :: mem))) 4 = Some ([] @ [108, 115] @ 0 # 0 # [], int (length ([] @ [108, 115] :: mem)), [int (length ([] :: mem))])"
  by (rule str2argv_overrun) (simp_all add: is_ws_def)

end
