(* ===== verification/OptPrint.thy ===== *)
theory OptPrint
  imports OptProps
begin

text \<open>
  \<open>opt_print.c\<close>: nested output as text, Perl or XML. Each function returns the new state and the bytes it prints; the
  return value of all but \<open>opt_print_format\<close> is 0. The buffers of \<open>opt_print_kv\<close> are not initialised: their
  contents are arguments.
\<close>

datatype opt_print_format_t = OPT_PRINT_FORMAT_TEXT | OPT_PRINT_FORMAT_PERL | OPT_PRINT_FORMAT_XML

record opt_print_t =
  op_format :: opt_print_format_t
  print_indent :: int

definition same_nocase :: "byte list \<Rightarrow> string \<Rightarrow> bool" where
  "same_nocase s t \<longleftrightarrow> map tolower s = map tolower (bytes_of t)"

definition opt_print_format :: "opt_print_t \<Rightarrow> byte list \<Rightarrow> opt_print_t \<times> int" where
  "opt_print_format opt format =
     (if same_nocase format ''perl'' then (opt\<lparr>op_format := OPT_PRINT_FORMAT_PERL\<rparr>, 0)
      else if same_nocase format ''xml'' then (opt\<lparr>op_format := OPT_PRINT_FORMAT_XML\<rparr>, 0)
      else if same_nocase format ''text'' then (opt\<lparr>op_format := OPT_PRINT_FORMAT_TEXT\<rparr>, 0)
      else (opt, - 1))"

definition nl :: "byte list" where "nl = [10]"

definition opt_print_begin :: "opt_print_t \<Rightarrow> opt_print_t \<times> byte list" where
  "opt_print_begin opt =
     (case op_format opt of
        OPT_PRINT_FORMAT_TEXT \<Rightarrow> (opt, [])
      | OPT_PRINT_FORMAT_PERL \<Rightarrow> (opt\<lparr>print_indent := 1\<rparr>, bytes_of ''{'' @ nl)
      | OPT_PRINT_FORMAT_XML \<Rightarrow> (opt\<lparr>print_indent := 1\<rparr>, bytes_of ''<root>'' @ nl))"

definition opt_print_end :: "opt_print_t \<Rightarrow> opt_print_t \<times> byte list" where
  "opt_print_end opt =
     (case op_format opt of
        OPT_PRINT_FORMAT_TEXT \<Rightarrow> (opt, [])
      | OPT_PRINT_FORMAT_PERL \<Rightarrow> (opt, bytes_of ''}'' @ nl)
      | OPT_PRINT_FORMAT_XML \<Rightarrow> (opt, bytes_of ''</root>'' @ nl))"

text \<open>\<open>for(i=0; i<opt->print_indent; i++) printf("  ")\<close>.\<close>

definition indent_text :: "int \<Rightarrow> byte list" where
  "indent_text n = concat (replicate (nat n) [32, 32])"

definition opt_print_block_begin :: "opt_print_t \<Rightarrow> opt_print_t \<times> byte list" where
  "opt_print_block_begin opt =
     (opt\<lparr>print_indent := print_indent opt + 1\<rparr>,
      indent_text (print_indent opt) @
      (case op_format opt of
         OPT_PRINT_FORMAT_TEXT \<Rightarrow> bytes_of ''begin'' @ nl
       | OPT_PRINT_FORMAT_PERL \<Rightarrow> bytes_of ''{'' @ nl
       | OPT_PRINT_FORMAT_XML \<Rightarrow> bytes_of ''<block>'' @ nl))"

definition opt_print_block_end :: "opt_print_t \<Rightarrow> opt_print_t \<times> byte list" where
  "opt_print_block_end opt =
     (let opt = opt\<lparr>print_indent := print_indent opt - 1\<rparr>
      in (opt,
          indent_text (print_indent opt) @
          (case op_format opt of
             OPT_PRINT_FORMAT_TEXT \<Rightarrow> bytes_of ''end'' @ nl
           | OPT_PRINT_FORMAT_PERL \<Rightarrow> bytes_of ''},'' @ nl
           | OPT_PRINT_FORMAT_XML \<Rightarrow> bytes_of ''</block>'' @ nl)))"

definition opt_print_array_begin :: "opt_print_t \<Rightarrow> byte list \<Rightarrow> opt_print_t \<times> byte list" where
  "opt_print_array_begin opt label =
     (opt\<lparr>print_indent := print_indent opt + 1\<rparr>,
      indent_text (print_indent opt) @
      (case op_format opt of
         OPT_PRINT_FORMAT_TEXT \<Rightarrow> bytes_of ''begin '' @ label @ nl
       | OPT_PRINT_FORMAT_PERL \<Rightarrow> 34 # label @ 34 # bytes_of '', ['' @ nl
       | OPT_PRINT_FORMAT_XML \<Rightarrow> bytes_of ''<'' @ label @ bytes_of ''>'' @ nl))"

definition opt_print_array_end :: "opt_print_t \<Rightarrow> byte list \<Rightarrow> opt_print_t \<times> byte list" where
  "opt_print_array_end opt label =
     (let opt = opt\<lparr>print_indent := print_indent opt - 1\<rparr>
      in (opt,
          indent_text (print_indent opt) @
          (case op_format opt of
             OPT_PRINT_FORMAT_TEXT \<Rightarrow> bytes_of ''end '' @ label @ nl
           | OPT_PRINT_FORMAT_PERL \<Rightarrow> bytes_of ''],'' @ nl
           | OPT_PRINT_FORMAT_XML \<Rightarrow> bytes_of ''</'' @ label @ bytes_of ''>'' @ nl)))"

text \<open>\<open>None\<close>: a buffer does not hold a string when it is printed.\<close>

definition opt_print_kv :: "opt_print_t \<Rightarrow> mem \<Rightarrow> mem \<Rightarrow> byte list \<Rightarrow> byte list \<Rightarrow> byte list option" where
  "opt_print_kv opt kbuf vbuf k v =
     (case op_format opt of
        OPT_PRINT_FORMAT_TEXT \<Rightarrow> Some (indent_text (print_indent opt) @ k @ bytes_of '': '' @ v @ nl)
      | OPT_PRINT_FORMAT_PERL \<Rightarrow> do {
          (kbuf, _) \<leftarrow> opt_quoted_enc_style (Some (k @ [0])) (- 1) kbuf 0 4096 OPT_QUOTED_ENC_PERL;
          (vbuf, _) \<leftarrow> opt_quoted_enc_style (Some (v @ [0])) (- 1) vbuf 0 4096 OPT_QUOTED_ENC_PERL;
          ks \<leftarrow> string_at kbuf 0;
          vs \<leftarrow> string_at vbuf 0;
          Some (indent_text (print_indent opt) @ ks @ bytes_of '',  '' @ vs @ bytes_of '','' @ nl)
        }
      | OPT_PRINT_FORMAT_XML \<Rightarrow>
          Some (indent_text (print_indent opt) @ bytes_of ''<'' @ k @ bytes_of ''>'' @ v @ bytes_of ''</'' @ k @ bytes_of ''>'' @ nl))"

section \<open>Trees\<close>

text \<open>The calls that print nested data, and the data that they print.\<close>

datatype print_tree = PrintKv "byte list" "byte list" | PrintBlock "print_tree list" | PrintArray "byte list" "print_tree list"

fun print_item :: "opt_print_t \<Rightarrow> print_tree \<Rightarrow> (opt_print_t \<times> byte list) option"
  and print_items :: "opt_print_t \<Rightarrow> print_tree list \<Rightarrow> (opt_print_t \<times> byte list) option" where
  "print_item opt (PrintKv k v) = map_option (Pair opt) (opt_print_kv opt (replicate 4096 0) (replicate 4096 0) k v)"
| "print_item opt (PrintBlock ts) =
     do {
       let (opt, a) = opt_print_block_begin opt;
       (opt, b) \<leftarrow> print_items opt ts;
       let (opt, c) = opt_print_block_end opt;
       Some (opt, a @ b @ c)
     }"
| "print_item opt (PrintArray label ts) =
     do {
       let (opt, a) = opt_print_array_begin opt label;
       (opt, b) \<leftarrow> print_items opt ts;
       let (opt, c) = opt_print_array_end opt label;
       Some (opt, a @ b @ c)
     }"
| "print_items opt [] = Some (opt, [])"
| "print_items opt (t # ts) =
     do { (opt, a) \<leftarrow> print_item opt t; (opt, b) \<leftarrow> print_items opt ts; Some (opt, a @ b) }"

text \<open>Each line with its depth.\<close>

definition kv_line :: "opt_print_format_t \<Rightarrow> byte list \<Rightarrow> byte list \<Rightarrow> byte list" where
  "kv_line f k v =
     (case f of
        OPT_PRINT_FORMAT_TEXT \<Rightarrow> k @ bytes_of '': '' @ v
      | OPT_PRINT_FORMAT_PERL \<Rightarrow>
          39 # quoted OPT_QUOTED_ENC_PERL k @ 39 # bytes_of '',  '' @ 39 # quoted OPT_QUOTED_ENC_PERL v @ 39 # bytes_of '',''
      | OPT_PRINT_FORMAT_XML \<Rightarrow> bytes_of ''<'' @ k @ bytes_of ''>'' @ v @ bytes_of ''</'' @ k @ bytes_of ''>'')"

fun item_lines :: "opt_print_format_t \<Rightarrow> nat \<Rightarrow> print_tree \<Rightarrow> (nat \<times> byte list) list" where
  "item_lines f d (PrintKv k v) = [(d, kv_line f k v)]"
| "item_lines f d (PrintBlock ts) =
     (d, case f of OPT_PRINT_FORMAT_TEXT \<Rightarrow> bytes_of ''begin'' | OPT_PRINT_FORMAT_PERL \<Rightarrow> bytes_of ''{''
         | OPT_PRINT_FORMAT_XML \<Rightarrow> bytes_of ''<block>'') # concat (map (item_lines f (Suc d)) ts) @
     [(d, case f of OPT_PRINT_FORMAT_TEXT \<Rightarrow> bytes_of ''end'' | OPT_PRINT_FORMAT_PERL \<Rightarrow> bytes_of ''},''
         | OPT_PRINT_FORMAT_XML \<Rightarrow> bytes_of ''</block>'')]"
| "item_lines f d (PrintArray l ts) =
     (d, case f of OPT_PRINT_FORMAT_TEXT \<Rightarrow> bytes_of ''begin '' @ l | OPT_PRINT_FORMAT_PERL \<Rightarrow> 34 # l @ 34 # bytes_of '', [''
         | OPT_PRINT_FORMAT_XML \<Rightarrow> bytes_of ''<'' @ l @ bytes_of ''>'') # concat (map (item_lines f (Suc d)) ts) @
     [(d, case f of OPT_PRINT_FORMAT_TEXT \<Rightarrow> bytes_of ''end '' @ l | OPT_PRINT_FORMAT_PERL \<Rightarrow> bytes_of ''],''
         | OPT_PRINT_FORMAT_XML \<Rightarrow> bytes_of ''</'' @ l @ bytes_of ''>'')]"

definition lines_text :: "(nat \<times> byte list) list \<Rightarrow> byte list" where
  "lines_text ls = concat (map (\<lambda>(d, l). replicate (2 * d) 32 @ l @ [10]) ls)"

text \<open>Keys and values that are printed in Perl quotes fit in their buffers and hold no zero.\<close>

fun item_ok :: "opt_print_format_t \<Rightarrow> print_tree \<Rightarrow> bool" where
  "item_ok f (PrintKv k v) \<longleftrightarrow>
     (f = OPT_PRINT_FORMAT_PERL \<longrightarrow> list_all (\<lambda>s. 0 \<notin> set s \<and> length (quoted OPT_QUOTED_ENC_PERL s) < 4092) [k, v])"
| "item_ok f (PrintBlock ts) \<longleftrightarrow> list_all (item_ok f) ts"
| "item_ok f (PrintArray l ts) \<longleftrightarrow> list_all (item_ok f) ts"

lemma indent_text_nat: "indent_text (int d) = replicate (2 * d) 32"
proof -
  have "concat (replicate n [32, 32 :: byte]) = replicate (2 * n) 32" for n by (induction n) simp_all
  then show ?thesis by (simp add: indent_text_def)
qed

lemma lines_text_simps [simp]:
  "lines_text [] = []" "lines_text ((d, l) # ls) = replicate (2 * d) 32 @ l @ 10 # lines_text ls"
  "lines_text (ls @ ms) = lines_text ls @ lines_text ms"
  by (simp_all add: lines_text_def)

lemma quoted_nonzero_style: "0 \<notin> set s \<Longrightarrow> 0 \<notin> set (quoted style s)"
proof (induction s)
  case (Cons c s)
  have "0 \<notin> set (quote_byte style c)"
    using Cons.prems by (cases style) (auto simp: quote_byte_def esc_of_def quote_char_def split: option.splits if_splits)
  with Cons show ?case by (simp add: quoted_def)
qed (simp add: quoted_def)

lemma perl_quoted:
  assumes "0 \<notin> set s" "length (quoted OPT_QUOTED_ENC_PERL s) < 4092"
  shows "\<exists>m n. opt_quoted_enc_style (Some (s @ [0])) (- 1) (replicate 4096 0) 0 4096 OPT_QUOTED_ENC_PERL = Some (m, n) \<and>
    string_at m 0 = Some (39 # quoted OPT_QUOTED_ENC_PERL s @ [39])"
proof -
  let ?q = "39 # quoted OPT_QUOTED_ENC_PERL s @ [39]"
  from quoted_style_text [OF assms(1), of OPT_QUOTED_ENC_PERL 4096 "replicate 4096 0" "[]"] assms(2) obtain R where
    "opt_quoted_enc_style (Some (s @ [0])) (- 1) (replicate 4096 0) 0 4096 OPT_QUOTED_ENC_PERL = Some (?q @ 0 # R, int (length ?q))"
    by (auto simp: quote_char_def)
  moreover have "0 \<notin> set ?q" using quoted_nonzero_style [OF assms(1)] by simp
  then have "string_at (?q @ 0 # R) 0 = Some ?q" using cstr_id(2) [of ?q R] by (simp add: string_at_def)
  ultimately show ?thesis by blast
qed

lemma print_kv_line:
  assumes "item_ok (op_format opt) (PrintKv k v)" "print_indent opt = int d"
  shows "opt_print_kv opt (replicate 4096 0) (replicate 4096 0) k v = Some (lines_text [(d, kv_line (op_format opt) k v)])"
proof (cases "op_format opt")
  case OPT_PRINT_FORMAT_PERL
  then obtain mk nk mv nv where
    "opt_quoted_enc_style (Some (k @ [0])) (- 1) (replicate 4096 0) 0 4096 OPT_QUOTED_ENC_PERL = Some (mk, nk)"
    "string_at mk 0 = Some (39 # quoted OPT_QUOTED_ENC_PERL k @ [39])"
    "opt_quoted_enc_style (Some (v @ [0])) (- 1) (replicate 4096 0) 0 4096 OPT_QUOTED_ENC_PERL = Some (mv, nv)"
    "string_at mv 0 = Some (39 # quoted OPT_QUOTED_ENC_PERL v @ [39])"
    using perl_quoted [of k] perl_quoted [of v] assms(1) by auto
  with OPT_PRINT_FORMAT_PERL assms(2) show ?thesis
    by (simp add: opt_print_kv_def kv_line_def indent_text_nat nl_def)
qed (use assms(2) in \<open>simp_all add: opt_print_kv_def kv_line_def indent_text_nat nl_def\<close>)

lemma print_items_lines:
  "item_ok (op_format opt) t \<Longrightarrow> print_indent opt = int d \<Longrightarrow>
     print_item opt t = Some (opt, lines_text (item_lines (op_format opt) d t))"
  "list_all (item_ok (op_format opt)) ts \<Longrightarrow> print_indent opt = int d \<Longrightarrow>
     print_items opt ts = Some (opt, lines_text (concat (map (item_lines (op_format opt) d) ts)))"
proof (induction opt t and opt ts arbitrary: d and d rule: print_item_print_items.induct)
  case (1 opt k v)
  then show ?case using print_kv_line by simp
next
  case (2 opt ts)
  let ?opt = "opt\<lparr>print_indent := print_indent opt + 1\<rparr>"
  have "print_items ?opt ts = Some (?opt, lines_text (concat (map (item_lines (op_format opt) (Suc d)) ts)))"
    using 2(1) [OF refl opt_print_block_begin_def [symmetric], of "Suc d"] 2(2,3) by simp
  then show ?case using 2(3)
    by (cases "op_format opt") (simp_all add: opt_print_block_begin_def opt_print_block_end_def indent_text_nat nl_def Let_def)
next
  case (3 opt l ts)
  let ?opt = "opt\<lparr>print_indent := print_indent opt + 1\<rparr>"
  have "print_items ?opt ts = Some (?opt, lines_text (concat (map (item_lines (op_format opt) (Suc d)) ts)))"
    using 3(1) [OF refl opt_print_array_begin_def [symmetric], of "Suc d"] 3(2,3) by simp
  then show ?case using 3(3)
    by (cases "op_format opt") (simp_all add: opt_print_array_begin_def opt_print_array_end_def indent_text_nat nl_def Let_def)
qed auto

definition print_document :: "opt_print_t \<Rightarrow> print_tree list \<Rightarrow> (opt_print_t \<times> byte list) option" where
  "print_document opt ts =
     do {
       let (opt, a) = opt_print_begin opt;
       (opt, b) \<leftarrow> print_items opt ts;
       let (opt, c) = opt_print_end opt;
       Some (opt, a @ b @ c)
     }"

definition document_lines :: "opt_print_format_t \<Rightarrow> nat \<Rightarrow> print_tree list \<Rightarrow> (nat \<times> byte list) list" where
  "document_lines f d ts =
     (case f of
        OPT_PRINT_FORMAT_TEXT \<Rightarrow> concat (map (item_lines f d) ts)
      | OPT_PRINT_FORMAT_PERL \<Rightarrow> (0, bytes_of ''{'') # concat (map (item_lines f 1) ts) @ [(0, bytes_of ''}'')]
      | OPT_PRINT_FORMAT_XML \<Rightarrow> (0, bytes_of ''<root>'') # concat (map (item_lines f 1) ts) @ [(0, bytes_of ''</root>'')])"

text \<open>
  Whatever nesting of blocks, arrays and pairs is printed, in each of the three formats: every line is indented by two
  spaces for each block or array around it (and the root), each block is closed at the depth where it was opened by the
  closing line of its format and label, and in the Perl format keys and values are quoted so that quotes,
  backslashes and line ends in them are escaped.
\<close>

theorem printed_nested:
  assumes "list_all (item_ok (op_format opt)) ts" "print_indent opt = int d"
  shows "\<exists>opt'. print_document opt ts = Some (opt', lines_text (document_lines (op_format opt) d ts))"
proof (cases "op_format opt")
  case OPT_PRINT_FORMAT_TEXT
  then show ?thesis using print_items_lines(2) [OF assms]
    by (simp add: print_document_def opt_print_begin_def opt_print_end_def document_lines_def)
next
  case OPT_PRINT_FORMAT_PERL
  then show ?thesis using print_items_lines(2) [of "opt\<lparr>print_indent := 1\<rparr>" ts 1] assms(1)
    by (simp add: print_document_def opt_print_begin_def opt_print_end_def document_lines_def nl_def)
next
  case OPT_PRINT_FORMAT_XML
  then show ?thesis using print_items_lines(2) [of "opt\<lparr>print_indent := 1\<rparr>" ts 1] assms(1)
    by (simp add: print_document_def opt_print_begin_def opt_print_end_def document_lines_def nl_def)
qed

definition some_items :: "print_tree list" where
  "some_items = [PrintArray [97] [PrintKv [107] [39, 10]], PrintBlock []]"

lemma printed_nested_witness:
  "\<exists>opt'. print_document \<lparr>op_format = OPT_PRINT_FORMAT_PERL, print_indent = 0\<rparr> some_items =
    Some (opt', lines_text (document_lines OPT_PRINT_FORMAT_PERL 0 some_items))"
proof -
  have "list_all (item_ok OPT_PRINT_FORMAT_PERL) some_items"
    by (simp add: some_items_def quoted_def quote_byte_def esc_of_def quote_char_def)
  then show ?thesis using printed_nested [of "\<lparr>op_format = OPT_PRINT_FORMAT_PERL, print_indent = 0\<rparr>" some_items 0] by simp
qed

end
