(* ===== verification/DnsProxy.thy ===== *)
theory DnsProxy
  imports DnsMsg Select
begin

text \<open>
  \<open>dns_proxy.c\<close>: forwarding queries under a new id and relaying the replies. The state is that of the C code: the
  array of servers, the table of pending requests by proxied id (a hash table with integer keys) and two times.
  Times are seconds as real numbers (the C type is \<open>double\<close>; its rounding is left out). A socket address is a value
  of type \<open>'a\<close>. \<open>recvfrom\<close> is an argument (the buffer and the result), \<open>sendto\<close> a function from the datagram to
  the result, \<open>rand_u32(0xffff)\<close> a sequence of numbers; datagrams handed to \<open>sendto\<close> are listed in their
  order.
\<close>

definition DNS_PROXY_EXPIRE_REQ :: real where "DNS_PROXY_EXPIRE_REQ = 10"
definition DNS_PROXY_EXPIRE_POLL :: real where "DNS_PROXY_EXPIRE_POLL = 1"

record 'a dns_proxy_req_t =
  pr_id :: int
  pr_orig_id :: int
  pr_orig_addr :: 'a
  pr_orig_sock :: int
  pr_expire :: real
  pr_hostname :: mem

record 'a dns_proxy_t =
  px_sock :: int
  px_forward_addrs :: "'a array_t"
  px_req_hash_id :: "(u64, 'a dns_proxy_req_t) hash_t"
  px_expire :: real
  px_mstime :: real

type_synonym 'a dgram = "int \<times> 'a \<times> byte list"

text \<open>
  The size of a request with its padding, as \<open>hash_init\<close> gets it. A new node holds unspecified bytes until the request
  is stored in it; the model starts from the request itself.
\<close>

definition req_node :: "'a dns_proxy_req_t \<Rightarrow> (u64, 'a dns_proxy_req_t) hash_node" where
  "req_node req = \<lparr>node_key = 0, node_val = req, node_hash = 0\<rparr>"

text \<open>\<open>sel\<close> is \<open>proxy->fdselect\<close>, null in a proxy that is not complete. The result adds the socket that is closed.\<close>

definition dns_proxy_delete ::
    "'a dns_proxy_t \<Rightarrow> 'h fdselect_t option \<Rightarrow> ('h fdselect_t option \<times> int list) option" where
  "dns_proxy_delete proxy sel =
     do {
       _ \<leftarrow> hash_clear (px_req_hash_id proxy);
       if px_sock proxy \<ge> 0 then do {
         s \<leftarrow> sel;
         (s, i) \<leftarrow> fdselect_unset True s (px_sock proxy) 0;
         Some (Some s, [px_sock proxy])
       }
       else Some (sel, [])
     }"

text \<open>
  \<open>sock\<close> is the result of \<open>socket\<close>, \<open>recv\<close> stands for \<open>dns_proxy_select_recv\<close> and \<open>self\<close> for the new
  proxy as its argument. \<open>z\<close> fills new nodes.
\<close>

definition dns_proxy_new ::
    "(u64, 'a dns_proxy_req_t) hash_node \<Rightarrow> 'a \<Rightarrow> 'h \<Rightarrow> nat \<Rightarrow> int \<Rightarrow> 'h fdselect_t \<Rightarrow> 'a list \<Rightarrow> int \<Rightarrow>
     ('a dns_proxy_t option \<times> 'h fdselect_t) option" where
  "dns_proxy_new z a0 recv self sock sel addrs naddrs =
     do {
       let arr = array_init 16 0;
       h \<leftarrow> hash_init z hash_hash_int hash_cmp_int 0 1064 0;
       (arr, p) \<leftarrow> array_add True a0 arr naddrs;
       case p of
         None \<Rightarrow> do {
           _ \<leftarrow> dns_proxy_delete \<lparr>px_sock = 0, px_forward_addrs = arr, px_req_hash_id = h, px_expire = 0, px_mstime = 0\<rparr>
                  (None :: 'h fdselect_t option);
           Some (None, sel)
         }
       | Some i \<Rightarrow> do {
           src \<leftarrow> slice addrs 0 naddrs;
           buf \<leftarrow> m_array arr;
           buf \<leftarrow> blit buf i src;
           let proxy = \<lparr>px_sock = sock, px_forward_addrs = arr\<lparr>m_array := Some buf\<rparr>, px_req_hash_id = h, px_expire = 0, px_mstime = 0\<rparr>;
           if \<not> sock \<ge> 0 then do {
             _ \<leftarrow> dns_proxy_delete proxy (None :: 'h fdselect_t option);
             Some (None, sel)
           }
           else do {
             (sel, i) \<leftarrow> fdselect_set True sel sock FDSELECT_READ (Some recv) self;
             Some (Some proxy, sel)
           }
         }
     }"

definition dns_proxy_foreach_expire :: "real \<Rightarrow> (u64, 'a dns_proxy_req_t, unit) foreach_func" where
  "dns_proxy_foreach_expire mstime h p arg =
     do {
       node \<leftarrow> node_at h p;
       if mstime > pr_expire (node_val node) then do { (h, ev) \<leftarrow> hash_free h (Some p); Some (h, arg, 0) }
       else Some (h, arg, 0)
     }"

definition dns_proxy_poll :: "'a dns_proxy_t \<Rightarrow> real \<Rightarrow> ('a dns_proxy_t \<times> int) option" where
  "dns_proxy_poll proxy mstime =
     (let proxy = proxy\<lparr>px_mstime := mstime\<rparr>
      in if px_mstime proxy < px_expire proxy then Some (proxy, 0)
         else do {
           let proxy = proxy\<lparr>px_expire := px_mstime proxy + DNS_PROXY_EXPIRE_POLL\<rparr>;
           (h, _, err) \<leftarrow> hash_foreach (dns_proxy_foreach_expire (px_mstime proxy)) (px_req_hash_id proxy) ();
           Some (proxy\<lparr>px_req_hash_id := h\<rparr>, err)
         })"

text \<open>
  The loop for a new id from its \<open>i\<close>-th turn on, with \<open>k + 1\<close> turns left: the id, the node it found last and whether
  the id is free.
\<close>

fun pick_id :: "(nat \<Rightarrow> int) \<Rightarrow> (u64, 'a dns_proxy_req_t) hash_t \<Rightarrow> nat \<Rightarrow> nat \<Rightarrow> (int \<times> node_ptr option \<times> bool) option" where
  "pick_id rand h i 0 =
     do { node \<leftarrow> hash_get h (word_of_int (rand i)); Some (rand i, node, node = None) }"
| "pick_id rand h i (Suc k) =
     do {
       node \<leftarrow> hash_get h (word_of_int (rand i));
       if node = None then Some (rand i, None, True) else pick_id rand h (Suc i) k
     }"

text \<open>Sending to the servers from the last one down; a failed \<open>sendto\<close> leaves the loop.\<close>

fun send_all :: "('a dgram \<Rightarrow> int) \<Rightarrow> int \<Rightarrow> 'a array_t \<Rightarrow> byte list \<Rightarrow> int \<Rightarrow> nat \<Rightarrow> 'a dgram list option" where
  "send_all sendto sock addrs msg len 0 = Some []"
| "send_all sendto sock addrs msg len (Suc k) =
     do {
       a \<leftarrow> elt_at addrs (Some (int k));
       if sendto (sock, a, msg) \<noteq> len then Some [(sock, a, msg)]
       else do { ds \<leftarrow> send_all sendto sock addrs msg len k; Some ((sock, a, msg) # ds) }
     }"

definition free_req :: "'a dns_proxy_t \<Rightarrow> node_ptr option \<Rightarrow> 'a dns_proxy_t option" where
  "free_req proxy node =
     (if node = None then Some proxy
      else do { (h, ev) \<leftarrow> hash_free (px_req_hash_id proxy) node; Some (proxy\<lparr>px_req_hash_id := h\<rparr>) })"

text \<open>
  The result is the proxy, the caller's buffer, what was sent and the return value. \<open>msg0\<close> is the bytes of the new
  request before they are set (\<open>hostname\<close> is zeroed by \<open>memset\<close>).
\<close>

definition dns_proxy_forward ::
    "(nat \<Rightarrow> int) \<Rightarrow> ('a dgram \<Rightarrow> int) \<Rightarrow> real \<Rightarrow> 'a dns_proxy_t \<Rightarrow> mem \<Rightarrow> int \<Rightarrow> int \<Rightarrow> 'a \<Rightarrow>
     ('a dns_proxy_t \<times> mem \<times> 'a dgram list \<times> int) option" where
  "dns_proxy_forward rand sendto now proxy buf len orig_sock orig_addr =
     do {
       let (dns, i) = dns_init buf len;
       if \<not> i \<ge> 0 then Some (proxy, buf, [], - 1)
       else do {
         (dns, i) \<leftarrow> dns_pack dns True;
         if \<not> i \<ge> 0 then Some (proxy, d_buf dns, [], - 1)
         else do {
           let orig_id = d_id dns;
           (dns, hostname, i) \<leftarrow> dns_check_query_in_a dns (replicate 1024 0) 1024;
           (id, node, free) \<leftarrow> pick_id rand (px_req_hash_id proxy) 0 999;
           let req = \<lparr>pr_id = id, pr_orig_id = orig_id, pr_orig_addr = orig_addr, pr_orig_sock = orig_sock,
                      pr_expire = now + DNS_PROXY_EXPIRE_REQ, pr_hostname = hostname\<rparr>;
           if \<not> free then do { proxy \<leftarrow> free_req proxy node; Some (proxy, d_buf dns, [], - 1) }
           else do {
             let dns = dns\<lparr>d_id := id\<rparr>;
             (h, p, ev) \<leftarrow> hash_put (req_node req) (px_req_hash_id proxy) (word_of_int id) (Some req);
             let proxy = proxy\<lparr>px_req_hash_id := h\<rparr>;
             (dns, i) \<leftarrow> dns_pack dns False;
             if \<not> i \<ge> 0 then do { proxy \<leftarrow> free_req proxy (Some p); Some (proxy, d_buf dns, [], - 1) }
             else do {
               msg \<leftarrow> slice (d_buf dns) 0 (uint (d_buflen dns));
               ds \<leftarrow> send_all sendto (px_sock proxy) (px_forward_addrs proxy) msg (sint (d_buflen dns))
                       (nat (array_count (px_forward_addrs proxy)));
               Some (proxy, d_buf dns, ds, 0)
             }
           }
         }
       }
     }"

text \<open>\<open>buf\<close> and \<open>n\<close> are what \<open>recvfrom\<close> stored and returned.\<close>

definition dns_proxy_select_recv ::
    "('a dgram \<Rightarrow> int) \<Rightarrow> 'a dns_proxy_t \<Rightarrow> mem \<Rightarrow> int \<Rightarrow> ('a dns_proxy_t \<times> 'a dgram list) option" where
  "dns_proxy_select_recv sendto proxy buf n =
     (if \<not> n > 0 then Some (proxy, [])
      else do {
        let (dns, i) = dns_init buf n;
        if \<not> i \<ge> 0 then Some (proxy, [])
        else do {
          (dns, i) \<leftarrow> dns_pack dns True;
          if \<not> i \<ge> 0 then Some (proxy, [])
          else do {
            node \<leftarrow> hash_get (px_req_hash_id proxy) (word_of_int (d_id dns));
            case node of
              None \<Rightarrow> Some (proxy, [])
            | Some p \<Rightarrow> do {
                req \<leftarrow> node_at (px_req_hash_id proxy) p;
                let dns = dns\<lparr>d_id := pr_orig_id (node_val req)\<rparr>;
                (dns, i) \<leftarrow> dns_pack dns False;
                ds \<leftarrow> (if \<not> i \<ge> 0 then Some []
                       else do {
                         msg \<leftarrow> slice (d_buf dns) 0 (uint (d_buflen dns));
                         Some [(pr_orig_sock (node_val req), pr_orig_addr (node_val req), msg)]
                       });
                proxy \<leftarrow> free_req proxy node;
                Some (proxy, ds)
              }
          }
        }
      })"

end
