(* ===== verification/DnsProxyProps.thy ===== *)
theory DnsProxyProps
  imports DnsProxy
begin

text \<open>
  What the proxy promises: a query goes to the servers as it came but for its id, its reply goes back to where the
  query came from, as it came but for the id, and nothing else is disturbed.
\<close>

section \<open>Changing the id of a message\<close>

definition with_id :: "u16 \<Rightarrow> mem \<Rightarrow> mem" where
  "with_id x m = byte_of 1 x # byte_of 0 x # drop 2 m"

definition id_of :: "mem \<Rightarrow> u16" where
  "id_of m = le16 (m ! 1) (m ! 0)"

lemma ntohs_le16: "ntohs (le16 a b) = le16 b a"
  by (simp add: ntohs_def)

lemma two_bytes: "2 \<le> length m \<Longrightarrow> \<exists>a b r. m = a # b # r"
  by (metis Suc_le_length_iff numeral_2_eq_2)

lemma with_id_simps: "2 \<le> length m \<Longrightarrow> length (with_id x m) = length m" "drop 2 (with_id x m) = drop 2 m"
  "2 \<le> length m \<Longrightarrow> 2 \<le> i \<Longrightarrow> mem_get (with_id x m) i = mem_get m i"
proof -
  show "mem_get (with_id x m) i = mem_get m i" if l: "2 \<le> length m" and i: "2 \<le> i"
  proof -
    obtain a b r where m: "m = a # b # r" using two_bytes [OF l] by blast
    have n: "nat i = Suc (Suc (nat (i - 2)))" using i by simp
    show ?thesis using i unfolding mem_get_def with_id_def m n by simp
  qed
qed (simp_all add: with_id_def)

lemma with_id_again: "with_id x (with_id y m) = with_id x m"
  by (simp add: with_id_def)

lemma rd16_with_id:
  assumes "12 \<le> length m"
  shows "rd16 (with_id x m) 0 = Some (ntohs x)" "2 \<le> i \<Longrightarrow> rd16 (with_id x m) i = rd16 m i"
    "rd16 m 0 = Some (ntohs (id_of m))"
proof -
  obtain a b r where m: "m = a # b # r" using two_bytes [of m] assms by auto
  show "rd16 (with_id x m) 0 = Some (ntohs x)" by (simp add: with_id_def rd16_def mem_get_def ntohs_def)
  show "rd16 m 0 = Some (ntohs (id_of m))" by (simp add: m id_of_def rd16_def mem_get_def ntohs_le16)
  show "rd16 (with_id x m) i = rd16 m i" if "2 \<le> i"
    using that assms by (simp add: rd16_def with_id_simps)
qed

lemma unpack_again: "dns_pack dns True = Some (d, i) \<Longrightarrow> dns_pack d True = Some (d, i)"
  by (auto simp: dns_pack_def dns_pack_net2host_def Let_def split: Option.bind_splits)

lemma unpack_ok:
  assumes "12 \<le> length (d_buf dns)"
  shows "\<exists>d. dns_pack dns True = Some (d, d_ptr dns) \<and> d_id d = uint (id_of (d_buf dns)) \<and> d_buf d = d_buf dns \<and>
    d_buflen d = d_buflen dns \<and> d_ptr d = d_ptr dns"
proof -
  obtain a b c d e f where r: "six_fields (d_buf dns) a b c d e f"
    using assms rd_ok(2) [of _ "d_buf dns"] unfolding six_fields_def by fastforce
  have "a = ntohs (id_of (d_buf dns))" using rd16_with_id(3) [OF assms] r by (simp add: six_fields_def)
  with r show ?thesis by (simp add: dns_pack_def dns_pack_net2host_def six_fields_def Let_def)
qed

lemma pack_with_id:
  assumes len: "12 \<le> length (d_buf dns)" and u: "dns_pack dns True = Some (d1, i)" and m: "only_moved d1 d2"
  shows "dns_pack (d2\<lparr>d_id := y\<rparr>) False =
    Some (d2\<lparr>d_id := y, d_buf := with_id (word_of_int y) (d_buf dns)\<rparr>, d_ptr d2)"
proof -
  obtain a b c d e f where r: "six_fields (d_buf dns) a b c d e f"
    using assms rd_ok(2) [of _ "d_buf dns"] unfolding six_fields_def by fastforce
  obtain j p where d2: "d2 = d1\<lparr>rr_idx := j, d_ptr := p\<rparr>" using m by (auto simp: only_moved_def)
  define v where "v = ntohs b"
  let ?e = "d2\<lparr>d_id := y\<rparr>"
  have e: "?e = (dns\<lparr>rr_idx := j, d_ptr := p\<rparr>)\<lparr>d_id := y, d_qr := unpack_bits v 1 15, d_opcode := unpack_bits v 4 11,
     d_aa := unpack_bits v 1 10, d_tc := unpack_bits v 1 9, d_rd := unpack_bits v 1 8,
     d_ra := unpack_bits v 1 7, d_x3 := unpack_bits v 3 4, d_rcode := unpack_bits v 4 0,
     d_qrcount := uint (ntohs c), d_ancount := uint (ntohs d), d_nscount := uint (ntohs e), d_arcount := uint (ntohs f)\<rparr>"
    using r u by (cases dns) (auto simp: d2 dns_pack_def dns_pack_net2host_def six_fields_def v_def Let_def)
  have buf: "d_buf ?e = d_buf dns" "d_ptr ?e = d_ptr d2" using e by (simp_all add: d2)
  have fl: "ntohs (flags_of ?e) = b" by (simp only: e flags_of_unpack v_def ntohs_ntohs)
  have "12 \<le> length (d_buf ?e)" using len buf by simp
  then obtain n where n: "dns_pack_host2net ?e = Some (?e\<lparr>d_buf := n\<rparr>, d_ptr ?e)"
    "six_fields n (ntohs (word_of_int (d_id ?e))) (ntohs (flags_of ?e)) (ntohs (word_of_int (d_qrcount ?e)))
       (ntohs (word_of_int (d_ancount ?e))) (ntohs (word_of_int (d_nscount ?e))) (ntohs (word_of_int (d_arcount ?e)))"
    "length n = length (d_buf ?e)" "\<And>i. 12 \<le> i \<Longrightarrow> mem_get n i = mem_get (d_buf ?e) i"
    using host2net_ok by blast
  let ?w = "with_id (word_of_int y) (d_buf dns)"
  have "six_fields n (ntohs (word_of_int y)) b c d e f" using n(2) unfolding fl by (simp add: e)
  moreover have "six_fields ?w (ntohs (word_of_int y)) b c d e f"
    using r by (simp add: six_fields_def rd16_with_id [OF len])
  ultimately have "n = ?w"
  proof (intro six_fields_eq [of ?w])
    show "length n = length ?w" using n(3) buf(1) len with_id_simps(1) [of "d_buf dns"] by simp
    show "mem_get n i = mem_get ?w i" if "12 \<le> i" for i
      using n(4) [OF that] buf(1) len that with_id_simps(3) [of "d_buf dns" i] by simp
  qed
  with n(1) buf show ?thesis by (simp add: dns_pack_def)
qed

lemma check_moves:
  assumes "dns_pack dns True = Some (d, i)" "dns_check_query_in_a d h len = Some (d', h', r)"
  shows "only_moved d d'"
proof -
  have rw: "only_moved d (dns_rr_rewind d)"
    unfolding only_moved_def dns_rr_rewind_def by (rule exI [of _ 0], rule exI [of _ DNS_HDR_LEN]) simp
  from assms(2) unpack_again [OF assms(1)] consider "d' = d" | h0 where "query_loop (dns_rr_rewind d) h0 len = Some (d', h', r)"
    by (auto simp: dns_check_query_in_a_def split: Option.bind_splits if_splits)
  then show ?thesis
  proof cases
    case 2
    from query_loop_moved [OF 2] rw show ?thesis using only_moved_trans by blast
  qed simp
qed

lemma rr_unpack_ptr: "dns_rr_unpack dns = Some (dns', rr, i) \<Longrightarrow> d_ptr dns \<le> d_ptr dns'"
proof (cases "0 < i")
  case True
  assume u: "dns_rr_unpack dns = Some (dns', rr, i)"
  from rr_unpack_progress(1) [OF u True] show ?thesis by simp
next
  case False
  assume "dns_rr_unpack dns = Some (dns', rr, i)"
  with False show ?thesis
    by (auto simp: dns_rr_unpack_def Let_def split: option.splits Option.bind_splits if_splits)
qed

lemma query_loop_ptr: "query_loop dns h len = Some (dns', h', r) \<Longrightarrow> d_ptr dns \<le> d_ptr dns'"
proof (induction dns h len rule: query_loop.induct)
  case (1 dns h len)
  obtain d rr i where u: "dns_rr_unpack dns = Some (d, rr, i)" using 1(3) by (subst (asm) query_loop.simps) (auto split: Option.bind_splits)
  note le = rr_unpack_ptr [OF u]
  show ?case
  proof (cases "dns' = d")
    case False
    then have "d_ptr d \<le> d_ptr dns'"
      using 1 u by (subst (asm) (3) query_loop.simps) (auto split: Option.bind_splits if_splits)
    with le show ?thesis by simp
  qed (use le in simp)
qed

lemma check_ptr:
  assumes "dns_pack dns True = Some (d, i)" "dns_check_query_in_a d h len = Some (d', h', r)"
  shows "min 12 (d_ptr d) \<le> d_ptr d'"
proof -
  from assms(2) unpack_again [OF assms(1)] consider "d' = d" | h0 where "query_loop (dns_rr_rewind d) h0 len = Some (d', h', r)"
    by (auto simp: dns_check_query_in_a_def split: Option.bind_splits if_splits)
  then show ?thesis
  proof cases
    case 2
    from query_loop_ptr [OF 2] show ?thesis by (simp add: dns_rr_rewind_def dns_consts)
  qed simp
qed

section \<open>The table of requests\<close>

definition req_ok :: "(u64, 'a dns_proxy_req_t) hash_t \<Rightarrow> bool" where
  "req_ok h \<longleftrightarrow> hash_ok hash_hash_int hash_cmp_int id h"

definition req_map :: "(u64, 'a dns_proxy_req_t) hash_t \<Rightarrow> u64 \<Rightarrow> 'a dns_proxy_req_t option" where
  "req_map h = hash_map id h"

definition proxy_ok :: "'a dns_proxy_t \<Rightarrow> bool" where
  "proxy_ok proxy \<longleftrightarrow> req_ok (px_req_hash_id proxy) \<and> array_wf (px_forward_addrs proxy)"

definition pending :: "'a dns_proxy_t \<Rightarrow> u64 \<Rightarrow> 'a dns_proxy_req_t option" where
  "pending proxy = req_map (px_req_hash_id proxy)"

lemma get_None: "req_ok h \<Longrightarrow> \<exists>r. hash_get h k = Some r \<and> (r = None \<longleftrightarrow> req_map h k = None)"
  unfolding req_ok_def req_map_def by (erule int_key.hash_get_cases [of h k]) auto

lemma node_at_bucket:
  assumes "hash_shape h" "i < length (buckets h)" "j < length (buckets h ! i)"
  shows "node_at h (int i, int j) = Some (buckets h ! i ! j)"
proof -
  obtain b where b: "get_bucket h (int i) = Some b" "array_wf b" "elems b = buckets h ! i"
    using assms(1,2) by (rule get_bucket_ok)
  have j: "j < length (elems b)" using assms(3) b(3) by simp
  from elt_at_nat [OF b(2) j] array_get_eq [OF b(2), of "int j"] j b show ?thesis
    by (auto simp: node_at_def elt_at_def Let_def split: Option.bind_splits)
qed

lemma get_found:
  assumes "req_ok h" "req_map h k = Some v"
  shows "\<exists>p n h' ev. hash_get h k = Some (Some p) \<and> node_at h p = Some n \<and> node_val n = v \<and>
    hash_free h (Some p) = Some (h', ev) \<and> req_ok h' \<and>
    req_map h' = (req_map h)(k := None) \<and> m_node_count h' = m_node_count h - 1"
proof -
  have ok: "hash_ok hash_hash_int hash_cmp_int id h" using assms(1) by (simp only: req_ok_def)
  obtain i j where 3: "hash_get h k = Some (Some (int i, int j))" "i < length (buckets h)" "j < length (buckets h ! i)"
    "node_key (buckets h ! i ! j) = k" "node_val (buckets h ! i ! j) = v"
    using ok assms(2) unfolding req_map_def by (elim int_key.hash_get_cases [of h k]) auto
  have sh: "hash_shape h" using ok by (simp add: hash_ok_def)
  from int_key.hash_free_ok [OF ok 3(2,3)] 3(4) obtain h' where h':
    "hash_free h (Some (int i, int j)) = Some (h', hash_free_node h (buckets h ! i ! j))"
    "req_ok h'" "m_node_count h' = m_node_count h - 1"
    "req_map h' = (req_map h)(k := None)" unfolding req_ok_def req_map_def by auto
  with 3(1,5) node_at_bucket [OF sh 3(2,3)] show ?thesis by blast
qed

text \<open>The first of the drawn ids that is free.\<close>

lemma pick_id_free:
  assumes ok: "req_ok h"
  shows "j \<le> k \<Longrightarrow> req_map h (word_of_int (rand (i + j))) = None \<Longrightarrow>
    (\<forall>l<j. req_map h (word_of_int (rand (i + l))) \<noteq> None) \<Longrightarrow> pick_id rand h i k = Some (rand (i + j), None, True)"
proof (induction k arbitrary: i j)
  case 0
  then show ?case using get_None [OF ok, of "word_of_int (rand i)"] by auto
next
  case (Suc k)
  obtain r where r: "hash_get h (word_of_int (rand i)) = Some r" "r = None \<longleftrightarrow> req_map h (word_of_int (rand i)) = None"
    using get_None [OF ok] by blast
  show ?case
  proof (cases j)
    case 0
    with Suc.prems r show ?thesis by simp
  next
    case (Suc j')
    have "r \<noteq> None" using Suc.prems(3) r(2) \<open>j = Suc j'\<close> by auto
    moreover have "pick_id rand h (Suc i) k = Some (rand (Suc i + j'), None, True)"
      using Suc.prems \<open>j = Suc j'\<close> by (intro Suc.IH) auto
    ultimately show ?thesis using r(1) \<open>j = Suc j'\<close> by auto
  qed
qed

text \<open>The datagrams to the servers: to each, from the last one on, until one fails.\<close>

fun until_failed :: "('d \<Rightarrow> bool) \<Rightarrow> 'd list \<Rightarrow> 'd list" where
  "until_failed good [] = []"
| "until_failed good (d # ds) = (if good d then d # until_failed good ds else [d])"

lemma until_failed_all: "list_all good ds \<Longrightarrow> until_failed good ds = ds"
  by (induction ds) auto

lemma send_all_list:
  assumes wf: "array_wf arr"
  shows "k \<le> length (elems arr) \<Longrightarrow> send_all sendto sock arr msg len k =
    Some (until_failed (\<lambda>d. sendto d = len) (map (\<lambda>a. (sock, a, msg)) (rev (take k (elems arr)))))"
proof (induction k)
  case (Suc k)
  have "elt_at arr (Some (int k)) = Some (elems arr ! k)"
    using elt_at_nat [OF wf, of k] array_get_eq [OF wf, of "int k"] Suc.prems by simp
  then show ?case using Suc by (simp add: take_Suc_conv_app_nth)
qed simp

section \<open>The operations\<close>

definition query_read :: "mem \<Rightarrow> int \<Rightarrow> (dns_t \<times> mem \<times> int) option" where
  "query_read buf len =
     do { (d, i) \<leftarrow> dns_pack (fst (dns_init buf len)) True; dns_check_query_in_a d (replicate 1024 0) 1024 }"

definition new_req :: "int \<Rightarrow> mem \<Rightarrow> int \<Rightarrow> 'a \<Rightarrow> real \<Rightarrow> mem \<Rightarrow> 'a dns_proxy_req_t" where
  "new_req pid buf sock addr now host =
     \<lparr>pr_id = pid, pr_orig_id = uint (id_of buf), pr_orig_addr = addr, pr_orig_sock = sock,
      pr_expire = now + DNS_PROXY_EXPIRE_REQ, pr_hostname = host\<rparr>"

lemma init_shape: "12 \<le> len \<Longrightarrow> \<exists>d0. d_buf d0 = buf \<and> d_ptr d0 = 12 \<and> d_buflen d0 = word_of_int len \<and> dns_init buf len = (d0, 0)"
  by (simp add: dns_init_def dns_consts)

lemma buflen_word: "0 \<le> len \<Longrightarrow> len < 2 ^ 31 \<Longrightarrow> uint (word_of_int len :: u32) = len \<and> sint (word_of_int len :: u32) = len"
  by (simp add: uint_word_of_int_eq sint_uint take_bit_int_eq_self signed_take_bit_int_eq_self)

lemma proxy_forward:
  assumes ok: "proxy_ok proxy" "m_node_count (px_req_hash_id proxy) < 3 * 2 ^ 29"
    and len: "12 \<le> len" "len \<le> int (length buf)" "len < 2 ^ 31"
    and read: "query_read buf len = Some (dc, host, r)"
    and id: "j < 1000" "pending proxy (word_of_int (rand j)) = None" "\<forall>l<j. pending proxy (word_of_int (rand l)) \<noteq> None"
  shows "\<exists>proxy'. dns_proxy_forward rand sendto now proxy buf len sock addr =
      Some (proxy', with_id (word_of_int (rand j)) buf,
        until_failed (\<lambda>d. sendto d = len) (map (\<lambda>a. (px_sock proxy, a, take (nat len) (with_id (word_of_int (rand j)) buf)))
          (rev (elems (px_forward_addrs proxy)))), 0) \<and>
    proxy_ok proxy' \<and> pending proxy' = (pending proxy)(word_of_int (rand j) \<mapsto> new_req (rand j) buf sock addr now host) \<and>
    m_node_count (px_req_hash_id proxy') \<le> m_node_count (px_req_hash_id proxy) + 1 \<and>
    px_forward_addrs proxy' = px_forward_addrs proxy \<and> px_sock proxy' = px_sock proxy"
proof -
  let ?h = "px_req_hash_id proxy" and ?y = "word_of_int (rand j) :: u64"
  obtain d0 where d0: "d_buf d0 = buf" "d_ptr d0 = 12" "d_buflen d0 = word_of_int len" "dns_init buf len = (d0, 0)"
    using init_shape [OF len(1)] by blast
  have l12: "12 \<le> length (d_buf d0)" using len d0 by simp
  obtain d where d: "dns_pack d0 True = Some (d, 12)" "d_id d = uint (id_of buf)" "d_buf d = buf" "d_buflen d = word_of_int len" "d_ptr d = 12"
    using unpack_ok [OF l12] d0 by auto
  have chk: "dns_check_query_in_a d (replicate 1024 0) 1024 = Some (dc, host, r)" using read d(1) d0(4) by (simp add: query_read_def)
  have mv: "only_moved d dc" by (rule check_moves [OF d(1) chk])
  have dc: "d_buflen dc = word_of_int len" using mv d(4) by (auto simp: only_moved_def)
  have ptr: "0 \<le> d_ptr dc" using check_ptr [OF d(1) chk] d(5) by simp
  have pack: "dns_pack (dc\<lparr>d_id := rand j\<rparr>) False = Some (dc\<lparr>d_id := rand j, d_buf := with_id (word_of_int (rand j)) buf\<rparr>, d_ptr dc)"
    using pack_with_id [OF l12 d(1) mv] d0(1) by simp
  have hok: "req_ok ?h" and wf: "array_wf (px_forward_addrs proxy)" using ok(1) by (simp_all add: proxy_ok_def)
  have pick: "pick_id rand ?h 0 999 = Some (rand j, None, True)"
    using pick_id_free [OF hok, of j 999 rand 0] id by (simp add: pending_def)
  let ?req = "new_req (rand j) buf sock addr now host"
  obtain h' p ev where put: "hash_put (req_node ?req) ?h ?y (Some ?req) = Some (h', p, ev)" "req_ok h'"
    "m_node_count h' \<le> m_node_count ?h + 1" "req_map h' = (req_map ?h)(?y \<mapsto> ?req)"
    using int_key.hash_put_spec [of ?h "req_node ?req" ?y "Some ?req"] hok ok(2) unfolding req_ok_def req_map_def by auto
  let ?msg = "with_id (word_of_int (rand j)) buf"
  have "slice ?msg 0 len = Some (take (nat len) ?msg)" using len with_id_simps(1) [of buf] by (simp add: slice_def)
  with put(1) pack pick d0(4) d(1,2) chk send_all_list [OF wf order_refl, of sendto "px_sock proxy" "take (nat len) ?msg" len]
    buflen_word [of len] dc len ptr array_count_eq [OF wf]
  have "dns_proxy_forward rand sendto now proxy buf len sock addr =
      Some (proxy\<lparr>px_req_hash_id := h'\<rparr>, ?msg,
        until_failed (\<lambda>d. sendto d = len) (map (\<lambda>a. (px_sock proxy, a, take (nat len) ?msg)) (rev (elems (px_forward_addrs proxy)))), 0)"
    by (simp add: dns_proxy_forward_def new_req_def [symmetric])
  with put(2,3,4) wf show ?thesis by (simp add: proxy_ok_def pending_def)
qed

lemma proxy_recv:
  assumes ok: "proxy_ok proxy" and len: "12 \<le> n" "n \<le> int (length buf)" "n < 2 ^ 31"
    and req: "pending proxy (ucast (id_of buf)) = Some req"
  shows "\<exists>proxy'. dns_proxy_select_recv sendto proxy buf n =
      Some (proxy', [(pr_orig_sock req, pr_orig_addr req, take (nat n) (with_id (word_of_int (pr_orig_id req)) buf))]) \<and>
    proxy_ok proxy' \<and> pending proxy' = (pending proxy)(ucast (id_of buf) := None) \<and>
    m_node_count (px_req_hash_id proxy') \<le> m_node_count (px_req_hash_id proxy) \<and>
    px_forward_addrs proxy' = px_forward_addrs proxy \<and> px_sock proxy' = px_sock proxy"
proof -
  let ?h = "px_req_hash_id proxy" and ?k = "ucast (id_of buf) :: u64"
  obtain d0 where d0: "d_buf d0 = buf" "d_ptr d0 = 12" "d_buflen d0 = word_of_int n" "dns_init buf n = (d0, 0)"
    using init_shape [OF len(1)] by blast
  have l12: "12 \<le> length (d_buf d0)" using len d0 by simp
  obtain d where d: "dns_pack d0 True = Some (d, 12)" "d_id d = uint (id_of buf)" "d_buflen d = word_of_int n" "d_ptr d = 12"
    using unpack_ok [OF l12] d0 by auto
  have k: "word_of_int (uint (id_of buf)) = ?k" by (rule ucast_eq [symmetric])
  have hok: "req_ok ?h" and wf: "array_wf (px_forward_addrs proxy)" using ok(1) by (simp_all add: proxy_ok_def)
  have "req_map ?h ?k = Some req" using req by (simp add: pending_def)
  from get_found [OF hok this] obtain p nd h' ev where g:
    "hash_get ?h ?k = Some (Some p)" "node_at ?h p = Some nd" "node_val nd = req"
    "hash_free ?h (Some p) = Some (h', ev)" "req_ok h'" "req_map h' = (req_map ?h)(?k := None)" "m_node_count h' = m_node_count ?h - 1"
    by blast
  let ?msg = "with_id (word_of_int (pr_orig_id req)) buf"
  have pack: "dns_pack (d\<lparr>d_id := pr_orig_id req\<rparr>) False = Some (d\<lparr>d_id := pr_orig_id req, d_buf := ?msg\<rparr>, 12)"
    using pack_with_id [OF l12 d(1) only_moved_refl] d0(1) d(4) by simp
  have "slice ?msg 0 n = Some (take (nat n) ?msg)" using len with_id_simps(1) [of buf] by (simp add: slice_def)
  with g(1-4) d0(4) d(1,2,3) pack k buflen_word [of n] len
  have "dns_proxy_select_recv sendto proxy buf n =
      Some (proxy\<lparr>px_req_hash_id := h'\<rparr>, [(pr_orig_sock req, pr_orig_addr req, take (nat n) ?msg)])"
    by (simp add: dns_proxy_select_recv_def free_req_def)
  with g(5-7) wf show ?thesis by (simp add: proxy_ok_def pending_def)
qed

lemma proxy_recv_unknown:
  assumes ok: "proxy_ok proxy" and len: "n \<le> int (length buf)" "n < 2 ^ 31"
    and req: "n < 12 \<or> pending proxy (ucast (id_of buf)) = None"
  shows "dns_proxy_select_recv sendto proxy buf n = Some (proxy, [])"
proof (cases "n < 12")
  case True
  then show ?thesis by (simp add: dns_proxy_select_recv_def dns_init_def dns_consts Let_def)
next
  case False
  let ?h = "px_req_hash_id proxy"
  obtain d0 where d0: "d_buf d0 = buf" "d_ptr d0 = 12" "dns_init buf n = (d0, 0)"
    using init_shape [of n buf] False by auto
  have l12: "12 \<le> length (d_buf d0)" using len False d0 by simp
  obtain d where d: "dns_pack d0 True = Some (d, 12)" "d_id d = uint (id_of buf)" using unpack_ok [OF l12] d0 by auto
  have "req_ok ?h" using ok by (simp add: proxy_ok_def)
  then have "hash_get ?h (ucast (id_of buf)) = Some None" using get_None req False by (fastforce simp: pending_def)
  moreover have "word_of_int (uint (id_of buf)) = (ucast (id_of buf) :: u64)" by (rule ucast_eq [symmetric])
  ultimately show ?thesis using False d0(3) d by (simp add: dns_proxy_select_recv_def)
qed

text \<open>Polling.\<close>

lemma expire_nodes:
  assumes "foreach_nodes (freeing (\<lambda>n. t > pr_expire (node_val n))) i j h ev = Some (h', ev', r)"
  shows "foreach_nodes (dns_proxy_foreach_expire t) i j h () = Some (h', (), r)"
  using assms
  by (induction j arbitrary: h ev)
    (auto simp: freeing_def dns_proxy_foreach_expire_def split: Option.bind_splits if_splits)

lemma expire_buckets:
  assumes "foreach_buckets (freeing (\<lambda>n. t > pr_expire (node_val n))) i k h ev = Some (h', ev', r)"
  shows "foreach_buckets (dns_proxy_foreach_expire t) i k h () = Some (h', (), r)"
  using assms
proof (induction k arbitrary: i h ev)
  case (Suc k)
  then show ?case by (auto simp: expire_nodes split: Option.bind_splits if_splits)
qed simp

lemma proxy_poll:
  assumes ok: "proxy_ok proxy"
  shows "\<exists>proxy'. dns_proxy_poll proxy t = Some (proxy', 0) \<and> proxy_ok proxy' \<and>
    pending proxy' = (if t < px_expire proxy then pending proxy
      else (\<lambda>k. case pending proxy k of Some req \<Rightarrow> if t > pr_expire req then None else Some req | None \<Rightarrow> None)) \<and>
    m_node_count (px_req_hash_id proxy') \<le> m_node_count (px_req_hash_id proxy) \<and>
    px_forward_addrs proxy' = px_forward_addrs proxy \<and> px_sock proxy' = px_sock proxy"
proof (cases "t < px_expire proxy")
  case True
  with ok show ?thesis by (simp add: dns_proxy_poll_def proxy_ok_def pending_def)
next
  case False
  let ?h = "px_req_hash_id proxy" and ?P = "\<lambda>n :: (u64, 'a dns_proxy_req_t) hash_node. t > pr_expire (node_val n)"
  have hok: "hash_ok hash_hash_int hash_cmp_int id ?h" using ok by (simp add: proxy_ok_def req_ok_def)
  obtain h' ev where h': "hash_foreach (freeing ?P) ?h [] = Some (h', ev, 0)" "hash_ok hash_hash_int hash_cmp_int id h'"
    "nodes h' = filter (\<lambda>n. \<not> ?P n) (nodes ?h)" using int_key.hash_foreach_freeing [OF hok] by blast
  have "hash_foreach (dns_proxy_foreach_expire t) ?h () = Some (h', (), 0)"
    using h'(1) expire_buckets unfolding hash_foreach_def by blast
  moreover have "req_map h' = (\<lambda>k. case req_map ?h k of Some req \<Rightarrow> if t > pr_expire req then None else Some req | None \<Rightarrow> None)"
  proof
    fix k
    have dh: "distinct (node_keys id (nodes ?h))" and dh': "distinct (node_keys id (nodes h'))"
      using hok h'(2) by (simp_all add: hash_ok_def)
    have iff: "req_map h' k = Some v \<longleftrightarrow> req_map ?h k = Some v \<and> \<not> t > pr_expire v" for v
      unfolding req_map_def hash_map_Some_iff [OF dh] hash_map_Some_iff [OF dh'] h'(3) by auto
    show "req_map h' k = (case req_map ?h k of Some req \<Rightarrow> if t > pr_expire req then None else Some req | None \<Rightarrow> None)"
    proof (cases "req_map h' k")
      case None
      then have "req_map ?h k = Some v \<Longrightarrow> t > pr_expire v" for v using iff [of v] by simp
      with None show ?thesis by (cases "req_map ?h k") simp_all
    next
      case (Some v)
      then have "req_map ?h k = Some v \<and> \<not> t > pr_expire v" using iff [of v] by blast
      with Some show ?thesis by simp
    qed
  qed
  moreover have "m_node_count h' \<le> m_node_count ?h"
    using hok h'(2,3) length_filter_le [of "\<lambda>n. \<not> ?P n" "nodes ?h"] by (simp add: hash_ok_def)
  moreover have "dns_proxy_poll proxy t = Some (proxy\<lparr>px_mstime := t, px_expire := t + DNS_PROXY_EXPIRE_POLL, px_req_hash_id := h'\<rparr>, 0)"
    using False calculation(1) by (simp add: dns_proxy_poll_def)
  ultimately show ?thesis using False ok h'(2) by (auto simp: proxy_ok_def pending_def req_ok_def)
qed

section \<open>Histories\<close>

datatype 'a proxy_event = Forward "nat \<Rightarrow> int" real mem int int 'a | Receive mem int | Poll real

fun proxy_step :: "('a dgram \<Rightarrow> int) \<Rightarrow> 'a dns_proxy_t \<Rightarrow> 'a proxy_event \<Rightarrow> ('a dns_proxy_t \<times> 'a dgram list) option" where
  "proxy_step sendto p (Forward rand now buf len sock addr) =
     map_option (\<lambda>(p, m, ds, r). (p, ds)) (dns_proxy_forward rand sendto now p buf len sock addr)"
| "proxy_step sendto p (Receive buf n) = dns_proxy_select_recv sendto p buf n"
| "proxy_step sendto p (Poll t) = map_option (\<lambda>(p, r). (p, [])) (dns_proxy_poll p t)"

fun proxy_run :: "('a dgram \<Rightarrow> int) \<Rightarrow> 'a dns_proxy_t \<Rightarrow> 'a proxy_event list \<Rightarrow> ('a dns_proxy_t \<times> 'a dgram list) option" where
  "proxy_run sendto p [] = Some (p, [])"
| "proxy_run sendto p (e # es) =
     do { (p, ds) \<leftarrow> proxy_step sendto p e; (p, ds') \<leftarrow> proxy_run sendto p es; Some (p, ds @ ds') }"

text \<open>
  Buffers as long as said, queries that can be read within their buffer, and among the thousand drawn ids one that is
  free.
\<close>

fun event_ok :: "'a dns_proxy_t \<Rightarrow> 'a proxy_event \<Rightarrow> bool" where
  "event_ok p (Forward rand now buf len sock addr) \<longleftrightarrow>
     12 \<le> len \<and> len \<le> int (length buf) \<and> len < 2 ^ 31 \<and> query_read buf len \<noteq> None \<and>
     (\<exists>j<1000. pending p (word_of_int (rand j)) = None)"
| "event_ok p (Receive buf n) \<longleftrightarrow> n \<le> int (length buf) \<and> n < 2 ^ 31"
| "event_ok p (Poll t) \<longleftrightarrow> True"

fun run_ok :: "('a dgram \<Rightarrow> int) \<Rightarrow> 'a dns_proxy_t \<Rightarrow> 'a proxy_event list \<Rightarrow> bool" where
  "run_ok sendto p [] \<longleftrightarrow> True"
| "run_ok sendto p (e # es) \<longleftrightarrow>
     event_ok p e \<and> (case proxy_step sendto p e of None \<Rightarrow> True | Some (p, ds) \<Rightarrow> run_ok sendto p es)"

text \<open>Events that do not answer the request \<open>y\<close> and do not happen after its time.\<close>

fun leaves_req :: "u16 \<Rightarrow> real \<Rightarrow> 'a proxy_event \<Rightarrow> bool" where
  "leaves_req y expire (Receive buf n) \<longleftrightarrow> n < 12 \<or> id_of buf \<noteq> y"
| "leaves_req y expire (Poll t) \<longleftrightarrow> t \<le> expire"
| "leaves_req y expire (Forward rand now buf len sock addr) \<longleftrightarrow> True"

lemma key_inj: "(ucast x :: u64) = ucast y \<Longrightarrow> (x :: u16) = y"
proof -
  assume e: "(ucast x :: u64) = ucast y"
  have "uint (ucast z :: u64) = uint z" for z :: u16
    using uint_lt2p [of z] by (simp add: unsigned_ucast_eq take_bit_eq_mod)
  then show "x = y" using e by (metis word_uint_eqI)
qed

lemma step_keeps:
  assumes ok: "proxy_ok p" "m_node_count (px_req_hash_id p) < 3 * 2 ^ 29"
    and e: "event_ok p e" "leaves_req y (pr_expire req) e" and y: "pending p (ucast y) = Some req"
  shows "\<exists>p' ds. proxy_step sendto p e = Some (p', ds) \<and> proxy_ok p' \<and> pending p' (ucast y) = Some req \<and>
    m_node_count (px_req_hash_id p') \<le> m_node_count (px_req_hash_id p) + 1"
proof (cases e)
  case (Forward rand now buf len sock addr)
  have "\<exists>j. j < 1000 \<and> pending p (word_of_int (rand j)) = None" using e(1) Forward by auto
  then obtain j where j: "j < 1000" "pending p (word_of_int (rand j)) = None" "\<forall>l<j. pending p (word_of_int (rand l)) \<noteq> None"
    unfolding exists_least_iff [of "\<lambda>j. j < 1000 \<and> pending p (word_of_int (rand j)) = None"] by (metis order.strict_trans)
  obtain dc host r where q: "query_read buf len = Some (dc, host, r)" using e(1) Forward by auto
  have ne: "word_of_int (rand j) \<noteq> (ucast y :: u64)" using j(2) y by auto
  have len: "12 \<le> len" "len \<le> int (length buf)" "len < 2 ^ 31" using e(1) Forward by simp_all
  from proxy_forward [OF ok len q j, of sendto now sock addr] ne y show ?thesis unfolding Forward by auto
next
  case (Receive buf n)
  show ?thesis
  proof (cases "12 \<le> n \<and> pending p (ucast (id_of buf)) \<noteq> None")
    case True
    then obtain r where r: "pending p (ucast (id_of buf)) = Some r" by blast
    have "id_of buf \<noteq> y" using e(2) True Receive by simp
    then have ne: "ucast (id_of buf) \<noteq> (ucast y :: u64)" using key_inj by blast
    have len: "12 \<le> n" "n \<le> int (length buf)" "n < 2 ^ 31" using e(1) True Receive by simp_all
    from proxy_recv [OF ok(1) len r, of sendto] ne y show ?thesis unfolding Receive by auto
  next
    case False
    then have "n < 12 \<or> pending p (ucast (id_of buf)) = None" by auto
    from proxy_recv_unknown [OF ok(1) _ _ this, of sendto] e(1) y ok(1) show ?thesis unfolding Receive by simp
  qed
next
  case (Poll t)
  from proxy_poll [OF ok(1), of t] e(2) y show ?thesis unfolding Poll by (auto split: if_splits)
qed

lemma run_keeps:
  "proxy_ok p \<Longrightarrow> m_node_count (px_req_hash_id p) + int (length es) < 3 * 2 ^ 29 \<Longrightarrow> run_ok sendto p es \<Longrightarrow>
   list_all (leaves_req y (pr_expire req)) es \<Longrightarrow> pending p (ucast y) = Some req \<Longrightarrow>
   \<exists>p' ds. proxy_run sendto p es = Some (p', ds) \<and> proxy_ok p' \<and> pending p' (ucast y) = Some req"
proof (induction es arbitrary: p)
  case (Cons e es)
  have c: "m_node_count (px_req_hash_id p) < 3 * 2 ^ 29" using Cons.prems(2) by simp
  obtain p1 ds where s: "proxy_step sendto p e = Some (p1, ds)" "proxy_ok p1" "pending p1 (ucast y) = Some req"
    "m_node_count (px_req_hash_id p1) \<le> m_node_count (px_req_hash_id p) + 1"
    using step_keeps [OF Cons.prems(1) c _ _ Cons.prems(5), of e sendto] Cons.prems(3,4) by auto
  have "m_node_count (px_req_hash_id p1) + int (length es) < 3 * 2 ^ 29" "run_ok sendto p1 es"
    using Cons.prems(2,3) s(1,4) by simp_all
  from Cons.IH [OF s(2) this _ s(3)] Cons.prems(4) s(1) show ?case by auto
qed simp

section \<open>An example\<close>

text \<open>A proxy without requests and with two servers.\<close>

definition some_servers :: "int array_t" where
  "some_servers = array_import (Some [8, 9]) 2 16 0 None 0"

lemma some_proxy:
  "\<exists>h. proxy_ok \<lparr>px_sock = 3, px_forward_addrs = some_servers, px_req_hash_id = h, px_expire = 0, px_mstime = 0\<rparr> \<and>
    req_map h = Map.empty \<and> m_node_count h = 0"
proof -
  obtain h where h: "hash_init (req_node undefined) hash_hash_int hash_cmp_int 0 1064 0 = Some (h :: (u64, int dns_proxy_req_t) hash_t)"
    "hash_ok hash_hash_int hash_cmp_int id h" "hash_map id h = Map.empty" "m_node_count h = 0"
    using int_key.hash_init_ok [of 0 1064 0] by fastforce
  have "array_wf some_servers" using array_wf_import [of 16 "[8, 9 :: int]"] by (simp add: some_servers_def)
  with h show ?thesis by (auto simp: proxy_ok_def req_ok_def req_map_def)
qed

lemma some_query_read: "\<exists>dc host r. query_read sample_query 21 = Some (dc, host, r)"
proof -
  have "(case query_read sample_query 21 of None \<Rightarrow> False | Some _ \<Rightarrow> True)" by code_simp
  then show ?thesis by (auto split: option.splits)
qed

section \<open>Properties\<close>

text \<open>
  C27. A query that can be read is forwarded under the first drawn id that no pending request has: each server, from the
  last one on, is sent the bytes of the query with nothing changed but the two bytes of the id (until a \<open>sendto\<close>
  fails), and the request is entered under the new id with the old id, the socket and address it came from
  and its time; all other requests stay.
\<close>

theorem query_forwarded:
  assumes "proxy_ok proxy" "m_node_count (px_req_hash_id proxy) < 3 * 2 ^ 29"
    "12 \<le> len" "len \<le> int (length buf)" "len < 2 ^ 31" "query_read buf len = Some (dc, host, r)"
    "j < 1000" "pending proxy (word_of_int (rand j)) = None" "\<forall>l<j. pending proxy (word_of_int (rand l)) \<noteq> None"
  shows "\<exists>proxy'. dns_proxy_forward rand sendto now proxy buf len sock addr =
      Some (proxy', with_id (word_of_int (rand j)) buf,
        until_failed (\<lambda>d. sendto d = len) (map (\<lambda>a. (px_sock proxy, a, take (nat len) (with_id (word_of_int (rand j)) buf)))
          (rev (elems (px_forward_addrs proxy)))), 0) \<and>
    proxy_ok proxy' \<and> pending proxy' = (pending proxy)(word_of_int (rand j) \<mapsto> new_req (rand j) buf sock addr now host)"
  using proxy_forward [OF assms, of sendto now sock addr] by blast

lemma query_forwarded_witness:
  "\<exists>p p'. dns_proxy_forward (\<lambda>_. 500) (\<lambda>_. 21) 100 p sample_query 21 5 (77 :: int) =
     Some (p', with_id 500 sample_query,
       [(3, 9, take 21 (with_id 500 sample_query)), (3, 8, take 21 (with_id 500 sample_query))], 0) \<and>
    proxy_ok p \<and> pending p = Map.empty"
proof -
  obtain h where h: "proxy_ok \<lparr>px_sock = 3, px_forward_addrs = some_servers, px_req_hash_id = h, px_expire = 0, px_mstime = 0\<rparr>"
    "req_map h = Map.empty" "m_node_count h = 0" using some_proxy by blast
  let ?p = "\<lparr>px_sock = 3, px_forward_addrs = some_servers, px_req_hash_id = h, px_expire = 0, px_mstime = 0\<rparr>"
  obtain dc host r where q: "query_read sample_query 21 = Some (dc, host, r)" using some_query_read by blast
  have "elems some_servers = [8, 9]" using elems_import [of "[8, 9 :: int]"] by (simp add: some_servers_def)
  with query_forwarded [OF h(1) _ _ _ _ q, of 0 "\<lambda>_. 500" "\<lambda>_. 21" 100 5 77] h
  have "\<exists>p'. dns_proxy_forward (\<lambda>_. 500) (\<lambda>_. 21) 100 ?p sample_query 21 5 (77 :: int) =
     Some (p', with_id 500 sample_query,
       [(3, 9, take 21 (with_id 500 sample_query)), (3, 8, take 21 (with_id 500 sample_query))], 0) \<and>
    proxy_ok ?p \<and> pending ?p = Map.empty" by (auto simp: pending_def sample_query_def)
  then show ?thesis by (rule exI)
qed



end
