(* ===== verification/Vercmp.thy ===== *)
theory Vercmp
  imports Opt "HOL-Library.List_Lexorder"
begin

text \<open>
  \<open>vercmp.c\<close>: comparing version strings part by part. A string is the bytes before its terminating zero; \<open>int\<close> has 32
  bits, \<open>long\<close> 64.
\<close>

datatype version_part_t = VERSION_PART_STR | VERSION_PART_INT

definition is_sep :: "byte \<Rightarrow> bool" where
  "is_sep c \<longleftrightarrow> c = 46 \<or> c = 45"

text \<open>The kind of the next part, the part as it stands in \<open>buf\<close> and the rest of the string.\<close>

definition version_part :: "byte list \<Rightarrow> nat \<Rightarrow> version_part_t \<times> byte list \<times> byte list" where
  "version_part v len =
     (let v = dropWhile is_sep v;
          i = length (takeWhile (\<lambda>c. \<not> is_sep c) v);
          buf = take len v;
          v = drop i v;
          i = (if i \<ge> len then len - 1 else i);
          buf = take i buf
      in (if list_all is_digit buf then VERSION_PART_INT else VERSION_PART_STR, buf, v))"

function vercmp :: "byte list \<Rightarrow> byte list \<Rightarrow> int" where
  "vercmp v1 v2 =
     (let (t1, buf1, v1') = version_part v1 1024;
          (t2, buf2, v2') = version_part v2 1024;
          i = (if t1 = t2 \<and> t1 = VERSION_PART_INT then to_i32 (fst (strtol buf1 10) - fst (strtol buf2 10))
               else strdiff (map tolower buf1) (map tolower buf2))
      in if i \<noteq> 0 then i
         else if v1' \<noteq> [] \<and> v2' \<noteq> [] then vercmp v1' v2'
         else if v1' \<noteq> [] then 1 else if v2' \<noteq> [] then - 1 else 0)"
  by pat_completeness auto
termination
proof (relation "measure (\<lambda>(v1, v2). length v1)", goal_cases)
  case (2 v1 v2 x t1 y buf1 v1' x2 t2 y2 buf2 v2' i)
  let ?d = "dropWhile is_sep v1"
  have v: "v1' = drop (length (takeWhile (\<lambda>c. \<not> is_sep c) ?d)) ?d"
    using 2 by (simp add: version_part_def Let_def)
  have "v1' \<noteq> []" using 2 by simp
  then have "?d \<noteq> []" using v by (intro notI) simp
  then obtain c r where d: "?d = c # r" by (cases ?d) auto
  then have "\<not> is_sep c" by (simp add: dropWhile_eq_Cons_conv)
  then have "length v1' < length ?d" by (simp add: v d less_Suc_eq_le)
  with length_dropWhile_le [of is_sep v1] show ?case by simp
qed simp

declare vercmp.simps [simp del]

section \<open>Numeric versions\<close>

definition num_val :: "byte list \<Rightarrow> int" where
  "num_val s = foldl (\<lambda>v d. v * 10 + (uint d - 48)) 0 s"

definition num_ok :: "byte list \<Rightarrow> bool" where
  "num_ok s \<longleftrightarrow> s \<noteq> [] \<and> list_all is_digit s \<and> length s < 1024 \<and> num_val s < 2 ^ 31"

fun dotted_text :: "byte list list \<Rightarrow> byte list" where
  "dotted_text [] = []"
| "dotted_text (s # ss) = s @ (if ss = [] then [] else 46 # dotted_text ss)"

lemma version_digit: "is_digit c \<Longrightarrow> \<not> is_space c \<and> c \<noteq> 43 \<and> c \<noteq> 45 \<and> \<not> is_sep c \<and> digit_val c = uint c - 48 \<and> digit_val c < 10 \<and> 0 \<le> digit_val c"
proof -
  assume d: "is_digit c"
  then have u: "48 \<le> uint c" "uint c \<le> 57" by (simp_all add: is_digit_def word_le_def)
  have "\<not> is_space c" using u by (auto simp: is_space_def word_le_def)
  moreover have "c \<noteq> 43" "c \<noteq> 45" "\<not> is_sep c" using d by (auto simp: is_digit_def is_sep_def)
  ultimately show ?thesis using d u by (simp add: digit_val_def)
qed

lemma num_val_fold: "list_all is_digit s \<Longrightarrow> foldl (\<lambda>v d. v * 10 + digit_val d) a s = foldl (\<lambda>v d. v * 10 + (uint d - 48)) a s"
  by (induction s arbitrary: a) (auto simp: version_digit)

lemma num_val_nonneg: "list_all is_digit s \<Longrightarrow> 0 \<le> num_val s"
proof -
  have "0 \<le> a \<Longrightarrow> list_all is_digit s \<Longrightarrow> 0 \<le> foldl (\<lambda>v d. v * 10 + (uint d - 48)) a s" for a
  proof (induction s arbitrary: a)
    case (Cons d s)
    then have "0 \<le> a * 10 + (uint d - 48)" using version_digit [of d] by auto
    then show ?case using Cons by simp
  qed simp
  then show "list_all is_digit s \<Longrightarrow> 0 \<le> num_val s" by (simp add: num_val_def)
qed

lemma strtol_num:
  assumes "num_ok s"
  shows "fst (strtol s 10) = num_val s"
proof -
  have d: "list_all is_digit s" "s \<noteq> []" using assms by (simp_all add: num_ok_def)
  obtain c r where s: "s = c # r" using d(2) by (cases s) auto
  note c = version_digit [of c]
  have nb: "number_base 10 s = (10, 0)" by (simp add: number_base_def split: list.splits)
  have "\<forall>c\<in>set s. digit_val c < 10" using d(1) version_digit unfolding list_all_iff by blast
  then have tw: "takeWhile (\<lambda>c. digit_val c < 10) s = s" "takeWhile (\<lambda>c. digit_val c < 10) r = r"
    by (simp_all add: takeWhile_eq_all_conv s)
  have v: "foldl (\<lambda>v d. v * 10 + digit_val d) 0 s = num_val s" using num_val_fold [OF d(1), of 0] by (simp add: num_val_def)
  have "0 \<le> num_val s" "num_val s < 2 ^ 31" using num_val_nonneg [OF d(1)] assms by (simp_all add: num_ok_def)
  then show ?thesis using c d nb v by (simp add: strtol_def Let_def s tw(2))
qed

lemma part_num:
  assumes "num_ok s" "rest = [] \<or> (\<exists>r. rest = 46 # r)"
  shows "version_part (s @ rest) 1024 = (VERSION_PART_INT, s, rest)" "version_part (46 # s @ rest) 1024 = (VERSION_PART_INT, s, rest)"
proof -
  have d: "list_all is_digit s" "s \<noteq> []" "length s < 1024" using assms(1) by (simp_all add: num_ok_def)
  have ns: "\<forall>c\<in>set s. \<not> is_sep c" using d(1) version_digit by (auto simp: list_all_iff)
  have dw: "dropWhile is_sep (s @ rest) = s @ rest" using ns d(2) by (cases s) auto
  have tw: "takeWhile (\<lambda>c. \<not> is_sep c) (s @ rest) = s" using ns assms(2) by (auto simp: takeWhile_append is_sep_def)
  show "version_part (s @ rest) 1024 = (VERSION_PART_INT, s, rest)" unfolding version_part_def dw Let_def tw using d by simp
  moreover have "version_part (46 # s @ rest) 1024 = version_part (s @ rest) 1024"
    by (simp add: version_part_def is_sep_def)
  ultimately show "version_part (46 # s @ rest) 1024 = (VERSION_PART_INT, s, rest)" by simp
qed

lemma vercmp_dot: "vercmp (46 # v) (46 # w) = vercmp v w"
proof -
  have "version_part (46 # u) 1024 = version_part u 1024" for u by (simp add: version_part_def is_sep_def)
  then show ?thesis by (subst (1 2) vercmp.simps) simp
qed

lemma diff_i32: "0 \<le> a \<Longrightarrow> a < 2 ^ 31 \<Longrightarrow> 0 \<le> b \<Longrightarrow> b < 2 ^ 31 \<Longrightarrow> to_i32 (a - b) = a - b"
  by (rule to_i32_id) simp_all

lemma vercmp_step:
  assumes "num_ok s" "num_ok t"
  shows "vercmp (dotted_text (s # ss)) (dotted_text (t # ts)) =
    (if num_val s \<noteq> num_val t then num_val s - num_val t
     else if ss \<noteq> [] \<and> ts \<noteq> [] then vercmp (dotted_text ss) (dotted_text ts)
     else if ss \<noteq> [] then 1 else if ts \<noteq> [] then - 1 else 0)"
proof -
  have b: "0 \<le> num_val s" "num_val s < 2 ^ 31" "0 \<le> num_val t" "num_val t < 2 ^ 31"
    using assms num_val_nonneg by (auto simp: num_ok_def)
  let ?r = "\<lambda>xs. if xs = [] then [] else 46 # dotted_text xs"
  have p: "version_part (dotted_text (s # ss)) 1024 = (VERSION_PART_INT, s, ?r ss)"
    "version_part (dotted_text (t # ts)) 1024 = (VERSION_PART_INT, t, ?r ts)"
    using part_num(1) [OF assms(1), of "?r ss"] part_num(1) [OF assms(2), of "?r ts"] by auto
  show ?thesis
    by (subst vercmp.simps) (simp add: p strtol_num [OF assms(1)] strtol_num [OF assms(2)] diff_i32 [OF b] vercmp_dot del: dotted_text.simps)
qed


definition some_version :: "byte list list" where
  "some_version = [[49], [49, 48]]"


end
