(* ===== verification/Tstat.thy ===== *)
theory Tstat
  imports Prelude
begin

text \<open>
  \<open>tstat.c\<close>: sums over a sliding window of time, in a ring of buckets. Values are real numbers (the C type is \<open>double\<close>; its
  rounding is left out). \<open>None\<close> is an access outside the ring, a division by zero or a loop that does not end.
\<close>

record tstat =
  ts_val :: "real list"
  ts_window :: int
  ts_t_last :: int

definition tstat_new :: "int \<Rightarrow> tstat" where
  "tstat_new window = \<lparr>ts_val = replicate (nat window) 0, ts_window = window, ts_t_last = 0\<rparr>"

text \<open>The remainder operator of C, for a positive divisor.\<close>

definition crem :: "int \<Rightarrow> int \<Rightarrow> int" where
  "crem a b = (if a < 0 then - ((- a) mod b) else a mod b)"

text \<open>
  The loop that erases the buckets in between, from \<open>t_last\<close> on: at most \<open>k\<close> turns. One turn more than there are
  buckets is enough, as after a full round the loop starts again.
\<close>

fun erase_loop :: "nat \<Rightarrow> real list \<Rightarrow> int \<Rightarrow> int \<Rightarrow> int \<Rightarrow> real list option" where
  "erase_loop 0 val window t t_last = None"
| "erase_loop (Suc k) val window t t_last =
     (let t_last = crem t_last window
      in if t_last = t then Some val
         else do { val \<leftarrow> mem_put val t_last 0; erase_loop k val window t (t_last + 1) })"

text \<open>The first half of \<open>tstat_add\<close>: a sample of a new tick erases the buckets of the missed ticks and its own.\<close>

definition erase_missed :: "tstat \<Rightarrow> int \<Rightarrow> tstat option" where
  "erase_missed stat t =
     (if t \<noteq> ts_t_last stat then do {
        val \<leftarrow> erase_loop (nat (ts_window stat) + 1) (ts_val stat) (ts_window stat) t (ts_t_last stat + 1);
        val \<leftarrow> mem_put val t 0;
        Some (stat\<lparr>ts_val := val, ts_t_last := t\<rparr>)
      }
      else Some stat)"

definition tstat_add :: "tstat \<Rightarrow> int \<Rightarrow> real \<Rightarrow> tstat option" where
  "tstat_add stat t v =
     (if ts_window stat \<le> 0 then None
      else do {
        let t = crem t (ts_window stat);
        stat \<leftarrow> erase_missed stat t;
        x \<leftarrow> mem_get (ts_val stat) t;
        val \<leftarrow> mem_put (ts_val stat) t (x + v);
        Some (stat\<lparr>ts_val := val\<rparr>)
      })"

fun min_loop :: "real list \<Rightarrow> real \<Rightarrow> bool \<Rightarrow> real" where
  "min_loop [] x first = x"
| "min_loop (v # vs) x first = min_loop vs (if first \<or> v < x then v else x) False"

fun max_loop :: "real list \<Rightarrow> real \<Rightarrow> bool \<Rightarrow> real" where
  "max_loop [] x first = x"
| "max_loop (v # vs) x first = max_loop vs (if first \<or> v > x then v else x) False"

definition tstat_min :: "tstat \<Rightarrow> real" where
  "tstat_min stat = min_loop (ts_val stat) 0 True"

definition tstat_max :: "tstat \<Rightarrow> real" where
  "tstat_max stat = max_loop (ts_val stat) 0 True"

definition tstat_avg :: "tstat \<Rightarrow> real" where
  "tstat_avg stat = foldl (+) 0 (ts_val stat) / of_int (ts_window stat)"

section \<open>The window\<close>

text \<open>The samples of a history that fall into the bucket \<open>i\<close> of the window of \<open>w\<close> ticks that ends at \<open>T\<close>.\<close>

definition bucket_sum :: "int \<Rightarrow> int \<Rightarrow> (int \<times> real) list \<Rightarrow> int \<Rightarrow> real" where
  "bucket_sum w T hist i = (\<Sum>(t, x)\<leftarrow>hist. if T - w < t \<and> t mod w = i then x else 0)"

definition shows_window :: "int \<Rightarrow> int \<Rightarrow> (int \<times> real) list \<Rightarrow> tstat \<Rightarrow> bool" where
  "shows_window w T hist stat \<longleftrightarrow>
     ts_window stat = w \<and> ts_t_last stat = T mod w \<and> int (length (ts_val stat)) = w \<and> 0 \<le> T \<and>
     (\<forall>(t, x)\<in>set hist. t \<le> T) \<and> (\<forall>i\<in>{0..<w}. ts_val stat ! nat i = bucket_sum w T hist i)"

text \<open>Times that never go back and never leave out a whole window.\<close>

fun steady :: "int \<Rightarrow> int \<Rightarrow> (int \<times> real) list \<Rightarrow> bool" where
  "steady w T [] \<longleftrightarrow> True"
| "steady w T ((t, x) # hist) \<longleftrightarrow> T \<le> t \<and> t < T + w \<and> steady w t hist"

fun add_all :: "tstat \<Rightarrow> (int \<times> real) list \<Rightarrow> tstat option" where
  "add_all stat [] = Some stat"
| "add_all stat ((t, x) # hist) = do { stat \<leftarrow> tstat_add stat t x; add_all stat hist }"

lemma crem_pos [simp]: "0 \<le> a \<Longrightarrow> crem a b = a mod b"
  by (simp add: crem_def)

lemma mem_put_in: "0 \<le> i \<Longrightarrow> i < int (length m) \<Longrightarrow> mem_put m i x = Some (m[nat i := x])"
  by (simp add: mem_put_def)

text \<open>Erasing from \<open>s\<close> up to the tick before \<open>t\<close>.\<close>

lemma erase_loop_spec:
  assumes "0 < w" "int (length val) = w"
  shows "0 \<le> s \<Longrightarrow> s \<le> t \<Longrightarrow> t - s < w \<Longrightarrow> t - s < int k \<Longrightarrow> s mod w = s' mod w \<Longrightarrow> 0 \<le> s' \<Longrightarrow>
    \<exists>val'. erase_loop k val w (t mod w) s' = Some val' \<and> int (length val') = w \<and>
      (\<forall>i\<in>{0..<w}. val' ! nat i = (if \<exists>u\<in>{s..<t}. u mod w = i then 0 else val ! nat i))"
  using assms(2)
proof (induction k arbitrary: s s' val)
  case (Suc k)
  show ?case
  proof (cases "s = t")
    case True
    with Suc.prems show ?thesis by (simp add: Let_def)
  next
    case False
    have ne: "s mod w \<noteq> t mod w"
    proof
      assume "s mod w = t mod w"
      then have "w dvd t - s" by (metis mod_eq_dvd_iff)
      moreover have "0 < t - s" "t - s < w" using Suc.prems False by auto
      ultimately show False using zdvd_not_zless by blast
    qed
    have in_range: "0 \<le> s mod w" "s mod w < w" using assms(1) by simp_all
    let ?v = "val[nat (s mod w) := 0]"
    have "(s + 1) mod w = (s mod w + 1) mod w" by (simp add: mod_simps)
    then obtain val' where v: "erase_loop k ?v w (t mod w) (s mod w + 1) = Some val'" "int (length val') = w"
      "\<forall>i\<in>{0..<w}. val' ! nat i = (if \<exists>u\<in>{s + 1..<t}. u mod w = i then 0 else ?v ! nat i)"
      using Suc.IH [of "s + 1" "s mod w + 1" ?v] Suc.prems False in_range by auto
    have "val' ! nat i = (if \<exists>u\<in>{s..<t}. u mod w = i then 0 else val ! nat i)" if i: "i \<in> {0..<w}" for i
    proof -
      have "{s..<t} = insert s {s + 1..<t}" using Suc.prems(2) False by auto
      moreover have "?v ! nat i = (if s mod w = i then 0 else val ! nat i)"
        using i in_range Suc.prems(7) by (auto simp: nth_list_update nat_eq_iff)
      ultimately show ?thesis using v(3) i by auto
    qed
    with v(1,2) Suc.prems(5-7) ne in_range show ?thesis by (simp add: Let_def mem_put_in)
  qed
qed simp

lemma bucket_sum_moved:
  assumes w: "0 < w" and T: "T \<le> t" "\<forall>(u, x)\<in>set hist. u \<le> T"
  shows "bucket_sum w t hist i = (if \<exists>u\<in>{T + 1..<t + 1}. u mod w = i then 0 else bucket_sum w T hist i)"
proof -
  have one: "(t - w < u \<and> u mod w = i) \<longleftrightarrow> (T - w < u \<and> u mod w = i) \<and> \<not> (\<exists>s\<in>{T + 1..<t + 1}. s mod w = i)"
    if "u \<le> T" for u
  proof (intro iffI conjI)
    assume a: "t - w < u \<and> u mod w = i"
    then show "T - w < u" "u mod w = i" using T(1) by auto
    show "\<not> (\<exists>s\<in>{T + 1..<t + 1}. s mod w = i)"
    proof (rule ccontr, clarsimp)
      fix s assume s: "T + 1 \<le> s" "s \<le> t" "i = s mod w"
      then have "w dvd s - u" using a by (metis mod_eq_dvd_iff)
      moreover have "0 < s - u" "s - u < w" using s a that by auto
      ultimately show False using zdvd_not_zless by blast
    qed
  next
    assume a: "(T - w < u \<and> u mod w = i) \<and> \<not> (\<exists>s\<in>{T + 1..<t + 1}. s mod w = i)"
    have "(u + w) mod w = i" using a by simp
    with a have "u + w \<notin> {T + 1..<t + 1}" by blast
    then show "t - w < u" using a by auto
    show "u mod w = i" using a by simp
  qed
  have "(if t - w < u \<and> u mod w = i then x else 0) =
      (if \<exists>s\<in>{T + 1..<t + 1}. s mod w = i then 0 else if T - w < u \<and> u mod w = i then x else 0)"
    if "(u, x) \<in> set hist" for u and x :: real
  proof -
    have "u \<le> T" using T(2) that by auto
    from one [OF this] show ?thesis by auto
  qed
  then have "bucket_sum w t hist i =
      (\<Sum>(u, x)\<leftarrow>hist. if \<exists>s\<in>{T + 1..<t + 1}. s mod w = i then 0 else if T - w < u \<and> u mod w = i then x else 0)"
    unfolding bucket_sum_def by (intro arg_cong [where f = sum_list] map_cong) auto
  then show ?thesis by (auto simp: bucket_sum_def split_def sum_list_0)
qed

lemma bucket_sum_add: "bucket_sum w T (hist @ [(t, x)]) i = bucket_sum w T hist i + (if T - w < t \<and> t mod w = i then x else 0)"
  by (simp add: bucket_sum_def)

lemma erase_missed_step:
  assumes w: "0 < w" and st: "shows_window w T hist stat" and t: "T \<le> t" "t < T + w"
  shows "\<exists>val. erase_missed stat (t mod w) = Some (stat\<lparr>ts_val := val, ts_t_last := t mod w\<rparr>) \<and>
    int (length val) = w \<and> (\<forall>i\<in>{0..<w}. val ! nat i = bucket_sum w t hist i)"
proof (cases "t mod w = T mod w")
  case True
  then have "w dvd t - T" by (metis mod_eq_dvd_iff)
  then have "t = T" using t zdvd_not_zless [of "t - T" w] by (cases "t = T") auto
  with st True show ?thesis by (intro exI [of _ "ts_val stat"]) (simp add: erase_missed_def shows_window_def)
next
  case False
  have s: "ts_window stat = w" "ts_t_last stat = T mod w" "int (length (ts_val stat)) = w" "0 \<le> T"
    "\<forall>(u, x)\<in>set hist. u \<le> T" "\<forall>i\<in>{0..<w}. ts_val stat ! nat i = bucket_sum w T hist i"
    using st by (auto simp: shows_window_def)
  have r: "0 \<le> t mod w" "t mod w < w" using w by simp_all
  have lt: "T < t" using False t(1) by (cases "T = t") auto
  have "(T + 1) mod w = (T mod w + 1) mod w" by (simp add: mod_simps)
  with erase_loop_spec [OF w s(3), of "T + 1" t "nat w + 1" "T mod w + 1"] t lt s(4) w obtain val where
    v: "erase_loop (nat w + 1) (ts_val stat) w (t mod w) (T mod w + 1) = Some val" "int (length val) = w"
    "\<forall>i\<in>{0..<w}. val ! nat i = (if \<exists>u\<in>{T + 1..<t}. u mod w = i then 0 else ts_val stat ! nat i)" by auto
  let ?v = "val[nat (t mod w) := 0]"
  have "?v ! nat i = bucket_sum w t hist i" if i: "i \<in> {0..<w}" for i
  proof -
    have "{T + 1..<t + 1} = insert t {T + 1..<t}" using lt by auto
    then have "bucket_sum w t hist i = (if t mod w = i then 0 else val ! nat i)"
      using bucket_sum_moved [OF w t(1) s(5), of i] v(3) s(6) i by auto
    then show ?thesis using i r v(2) by (auto simp: nth_list_update nat_eq_iff)
  qed
  moreover have "erase_missed stat (t mod w) = Some (stat\<lparr>ts_val := ?v, ts_t_last := t mod w\<rparr>)"
    using False r v(2) by (simp only: erase_missed_def s(1,2) v(1) Option.bind.simps) (simp add: mem_put_in)
  ultimately show ?thesis using v(2) by (intro exI [of _ ?v]) simp
qed

lemma tstat_add_step:
  assumes w: "0 < w" and st: "shows_window w T hist stat" and t: "T \<le> t" "t < T + w"
  shows "\<exists>stat'. tstat_add stat t x = Some stat' \<and> shows_window w t (hist @ [(t, x)]) stat'"
proof -
  have s: "ts_window stat = w" "0 \<le> T" "\<forall>(u, x)\<in>set hist. u \<le> T"
    using st by (auto simp: shows_window_def)
  have r: "0 \<le> t mod w" "t mod w < w" using w by simp_all
  from erase_missed_step [OF w st t] obtain val where
    v: "erase_missed stat (t mod w) = Some (stat\<lparr>ts_val := val, ts_t_last := t mod w\<rparr>)" "int (length val) = w"
      "\<forall>i\<in>{0..<w}. val ! nat i = bucket_sum w t hist i" by blast
  let ?v = "val[nat (t mod w) := val ! nat (t mod w) + x]"
  have "tstat_add stat t x = Some (stat\<lparr>ts_val := ?v, ts_t_last := t mod w\<rparr>)"
    using v(1,2) w s(1,2) t(1) r by (simp add: tstat_add_def Let_def mem_put_in mem_get_def)
  moreover have "?v ! nat i = bucket_sum w t (hist @ [(t, x)]) i" if "i \<in> {0..<w}" for i
    using that v(2,3) r w by (auto simp: bucket_sum_add nth_list_update nat_eq_iff)
  moreover have "\<forall>(u, x)\<in>set (hist @ [(t, x)]). u \<le> t" using s(3) t(1) by auto
  ultimately show ?thesis using s(1,2) v(2) t(1) by (simp add: shows_window_def)
qed

lemma add_all_window:
  assumes w: "0 < w"
  shows "shows_window w T past stat \<Longrightarrow> steady w T hist \<Longrightarrow>
    \<exists>stat'. add_all stat hist = Some stat' \<and> shows_window w (last (T # map fst hist)) (past @ hist) stat'"
proof (induction hist arbitrary: T past stat)
  case (Cons p hist)
  obtain t x where p: "p = (t, x)" by (cases p)
  from tstat_add_step [OF w Cons.prems(1), of t x] Cons.prems(2) p obtain s1 where
    s1: "tstat_add stat t x = Some s1" "shows_window w t (past @ [(t, x)]) s1" by auto
  from Cons.IH [OF s1(2)] Cons.prems(2) p s1(1) show ?case by auto
qed simp

lemma new_window: "0 < w \<Longrightarrow> shows_window w 0 [] (tstat_new w)"
  by (auto simp: shows_window_def tstat_new_def bucket_sum_def)

lemma foldl_sum: "foldl (+) a xs = a + sum_list (xs :: real list)"
  by (induction xs arbitrary: a) auto

text \<open>The sum over all buckets is the sum over the window.\<close>

lemma sum_buckets:
  assumes "0 < w"
  shows "(\<Sum>i\<in>{0..<w}. bucket_sum w T hist i) = (\<Sum>(t, x)\<leftarrow>hist. if T - w < t then x else 0)"
proof (induction hist)
  case (Cons p hist)
  obtain t x where p: "p = (t, x)" by (cases p)
  have "(\<Sum>i\<in>{0..<w}. if T - w < t \<and> t mod w = i then x else 0) = (if T - w < t then x else 0)"
    using assms by (cases "T - w < t") (simp_all add: sum.delta')
  with Cons p show ?case by (simp add: bucket_sum_def sum.distrib)
qed (simp add: bucket_sum_def)

lemma sum_list_int_nth: "int (length xs) = w \<Longrightarrow> sum_list (xs :: real list) = (\<Sum>i\<in>{0..<w}. xs ! nat i)"
proof -
  assume "int (length xs) = w"
  then have "{0..<w} = int ` {0..<length xs}" using image_int_atLeastLessThan [of 0 "length xs"] by simp
  then show ?thesis by (simp add: sum_list_sum_nth sum.reindex)
qed

text \<open>
  C35. After any samples whose times never go back and never leave out a whole window, starting from time 0, with \<open>T\<close>
  the time of the last: each of the \<open>w\<close> buckets holds the sum of exactly the samples of its tick in the window
  \<open>(T - w, T]\<close>, and the average is the sum of the samples of the window over the number of its ticks.
\<close>

theorem window_sums:
  assumes "0 < w" "steady w 0 hist"
  shows "\<exists>stat. add_all (tstat_new w) hist = Some stat \<and>
    (\<forall>i\<in>{0..<w}. ts_val stat ! nat i = bucket_sum w (last (0 # map fst hist)) hist i) \<and>
    tstat_avg stat = (\<Sum>(t, x)\<leftarrow>hist. if last (0 # map fst hist) - w < t then x else 0) / of_int w"
proof -
  let ?T = "last (0 # map fst hist)"
  obtain stat where s: "add_all (tstat_new w) hist = Some stat" "shows_window w ?T hist stat"
    using add_all_window [OF assms(1) new_window [OF assms(1)] assms(2)] by auto
  then have b: "\<forall>i\<in>{0..<w}. ts_val stat ! nat i = bucket_sum w ?T hist i" "int (length (ts_val stat)) = w" "ts_window stat = w"
    by (simp_all add: shows_window_def)
  have "foldl (+) 0 (ts_val stat) = (\<Sum>i\<in>{0..<w}. bucket_sum w ?T hist i)"
    using b(1) by (simp add: foldl_sum sum_list_int_nth [OF b(2)])
  with s(1) b show ?thesis by (simp add: tstat_avg_def sum_buckets [OF assms(1)])
qed

definition some_samples :: "(int \<times> real) list" where
  "some_samples = [(1, 2), (3, 5), (6, 1)]"

lemma window_sums_witness:
  "\<exists>stat. add_all (tstat_new 4) some_samples = Some stat \<and>
    (\<forall>i\<in>{0..<4}. ts_val stat ! nat i = bucket_sum 4 (last (0 # map fst some_samples)) some_samples i) \<and>
    tstat_avg stat = (\<Sum>(t, x)\<leftarrow>some_samples. if last (0 # map fst some_samples) - 4 < t then x else 0) / of_int 4"
  by (rule window_sums) (simp_all add: some_samples_def)

end
