(* ===== verification/Dir.thy ===== *)
theory Dir
  imports Opt "HOL-Library.List_Lexorder"
begin

text \<open>
  \<open>dir.c\<close>, \<open>dir_unix.c\<close>: directories and paths, over a small model of the file system. Strings are the bytes before
  their terminating zero. \<open>None\<close> is an access outside a buffer.

  The file system has files with contents, directories, places that nothing may be written to, and \<open>errno\<close>. A path is
  looked up as it is written: \<open>.\<close>, \<open>..\<close> and doubled slashes are not resolved, and the root and the current directory
  always exist.
\<close>

section \<open>The file system\<close>

definition ENOENT :: int where "ENOENT = 2"
definition EACCES :: int where "EACCES = 13"
definition EEXIST :: int where "EEXIST = 17"
definition EISDIR :: int where "EISDIR = 21"

record fs =
  fs_files :: "byte list \<Rightarrow> byte list option"
  fs_dirs :: "byte list list"
  fs_locked :: "byte list \<Rightarrow> bool"
  fs_errno :: int

text \<open>The part of a path before its last slash, and whether it is a directory that exists.\<close>

definition parent_dir :: "byte list \<Rightarrow> byte list" where
  "parent_dir p = rev (tl (dropWhile (\<lambda>c. c \<noteq> 47) (rev p)))"

definition parent_ok :: "fs \<Rightarrow> byte list \<Rightarrow> bool" where
  "parent_ok fs p \<longleftrightarrow> 47 \<notin> set p \<or> parent_dir p = [] \<or> parent_dir p \<in> set (fs_dirs fs)"

definition fs_fail :: "fs \<Rightarrow> int \<Rightarrow> fs \<times> int" where
  "fs_fail fs e = (fs\<lparr>fs_errno := e\<rparr>, - 1)"

definition fs_mkdir :: "fs \<Rightarrow> byte list \<Rightarrow> fs \<times> int" where
  "fs_mkdir fs p =
     (if p \<in> set (fs_dirs fs) \<or> fs_files fs p \<noteq> None then fs_fail fs EEXIST
      else if \<not> parent_ok fs p then fs_fail fs ENOENT
      else if fs_locked fs p then fs_fail fs EACCES
      else (fs\<lparr>fs_dirs := p # fs_dirs fs\<rparr>, 0))"

text \<open>\<open>fopen(p, "rb")\<close> and the contents, \<open>fopen(p, "wb")\<close>, \<open>fwrite\<close> and \<open>unlink\<close>.\<close>

definition fs_read :: "fs \<Rightarrow> byte list \<Rightarrow> fs \<times> byte list option" where
  "fs_read fs p = (case fs_files fs p of None \<Rightarrow> (fs\<lparr>fs_errno := ENOENT\<rparr>, None) | Some xs \<Rightarrow> (fs, Some xs))"

definition fs_create :: "fs \<Rightarrow> byte list \<Rightarrow> fs \<times> int" where
  "fs_create fs p =
     (if p \<in> set (fs_dirs fs) then fs_fail fs EISDIR
      else if \<not> parent_ok fs p then fs_fail fs ENOENT
      else if fs_locked fs p then fs_fail fs EACCES
      else (fs\<lparr>fs_files := (fs_files fs)(p \<mapsto> [])\<rparr>, 0))"

definition fs_append :: "fs \<Rightarrow> byte list \<Rightarrow> byte list \<Rightarrow> fs" where
  "fs_append fs p xs = fs\<lparr>fs_files := (fs_files fs)(p \<mapsto> (case fs_files fs p of None \<Rightarrow> [] | Some ys \<Rightarrow> ys) @ xs)\<rparr>"

definition fs_unlink :: "fs \<Rightarrow> byte list \<Rightarrow> fs" where
  "fs_unlink fs p =
     (if fs_files fs p = None then fs\<lparr>fs_errno := ENOENT\<rparr>
      else if fs_locked fs p then fs\<lparr>fs_errno := EACCES\<rparr>
      else fs\<lparr>fs_files := (fs_files fs)(p := None)\<rparr>)"

section \<open>Paths\<close>

definition path_sep :: "byte \<Rightarrow> bool" where
  "path_sep c \<longleftrightarrow> c = 47 \<or> c = 92"

text \<open>\<open>strchr(PATH_SEP, c)\<close>, which also finds the terminating zero of the set.\<close>

definition sep_or_zero :: "byte \<Rightarrow> bool" where
  "sep_or_zero c \<longleftrightarrow> path_sep c \<or> c = 0"

definition dir_mkdir :: "fs \<Rightarrow> byte list \<Rightarrow> fs \<times> int" where
  "dir_mkdir fs dir = fs_mkdir fs dir"

text \<open>The loop of \<open>dir_mkpath\<close>: \<open>front\<close> is the string before \<open>p\<close>, \<open>rest\<close> the string from \<open>p\<close> on.\<close>

function mkpath_loop :: "fs \<Rightarrow> byte list \<Rightarrow> byte list \<Rightarrow> bool \<Rightarrow> int \<Rightarrow> fs \<times> int" where
  "mkpath_loop fs front [] final err = (fs, err)"
| "mkpath_loop fs front (c # rest) final err =
     (let w = takeWhile (\<lambda>c. \<not> path_sep c) rest;
          front = front @ c # w;
          rest = drop (length w) rest
      in if rest = [] then (if final then dir_mkdir fs front else (fs, - 1))
         else (let (fs, _) = dir_mkdir fs front in mkpath_loop fs front rest final 0))"
  by pat_completeness auto
termination
  by (relation "measure (\<lambda>(fs, front, rest, final, err). length rest)") auto

definition dir_mkpath :: "fs \<Rightarrow> byte list \<Rightarrow> bool \<Rightarrow> fs \<times> int" where
  "dir_mkpath fs dir final =
     (let (fs, err) = mkpath_loop fs [] dir final (- 1)
      in if err \<noteq> 0 \<and> fs_errno fs \<noteq> EEXIST then (fs, err) else (fs, 0))"

text \<open>The last component of \<open>dir\<close> and what is left in the buffer of \<open>dir\<close>.\<close>

function filename_loop :: "byte list \<Rightarrow> nat \<Rightarrow> nat option \<Rightarrow> nat option" where
  "filename_loop dir p q =
     (if p < length dir then
        (let p = p + 1 + length (takeWhile (\<lambda>c. \<not> path_sep c) (drop (p + 1) dir))
         in if p < length dir then filename_loop dir p (Some p) else q)
      else q)"
  by pat_completeness auto
termination
  by (relation "measure (\<lambda>(dir, p, q). length dir - p)") auto

declare filename_loop.simps [simp del]

definition dir_filename :: "byte list \<Rightarrow> bool \<Rightarrow> byte list \<times> byte list" where
  "dir_filename dir chop =
     (case filename_loop dir 0 None of
        None \<Rightarrow> (dir, dir)
      | Some q \<Rightarrow> (drop (q + 1) dir, if chop then take q dir else dir))"

fun back_over :: "(byte \<Rightarrow> bool) \<Rightarrow> byte list \<Rightarrow> nat \<Rightarrow> nat" where
  "back_over P m 0 = 0"
| "back_over P m (Suc p) = (if P (m ! Suc p) then back_over P m p else Suc p)"

text \<open>\<open>strncpy(basename, p, len)\<close> fills all of the \<open>len\<close> bytes.\<close>

definition dir_basename :: "byte list \<Rightarrow> nat \<Rightarrow> byte list option" where
  "dir_basename path len =
     (let m = path @ [0];
          p = back_over sep_or_zero m (length path);
          p = back_over (\<lambda>c. \<not> sep_or_zero c) m p;
          p = (if sep_or_zero (m ! p) then p + 1 else p)
      in if p > length path then None
         else Some (take len (drop p path @ replicate len 0)))"

section \<open>Reading directories\<close>

text \<open>
  An open directory is the list of the names still to be read; \<open>ls\<close> is the parameter that gives the entries of a
  directory in the order of the system.
\<close>

definition dir_open :: "(byte list \<Rightarrow> byte list list option) \<Rightarrow> byte list \<Rightarrow> byte list list option" where
  "dir_open ls path = ls path"

text \<open>
  A name that does not fit into \<open>len\<close> bytes with its terminator is not terminated, and the string functions that the
  callers apply to it read on behind the buffer.
\<close>

definition dir_read_dots :: "byte list list \<Rightarrow> int \<Rightarrow> (byte list list \<times> byte list \<times> int) option" where
  "dir_read_dots d len =
     (case d of [] \<Rightarrow> Some ([], [], 0)
      | name # d \<Rightarrow> if int (length name) < len then Some (d, name, 1) else None)"

fun dir_read :: "byte list list \<Rightarrow> int \<Rightarrow> (byte list list \<times> byte list \<times> int) option" where
  "dir_read [] len = dir_read_dots [] len"
| "dir_read (x # d) len =
     do {
       (d', buf, i) \<leftarrow> dir_read_dots (x # d) len;
       if i \<le> 0 then Some (d', buf, i)
       else if buf = [46] \<or> buf = [46, 46] then dir_read d len else Some (d', buf, i)
     }"

text \<open>The names read so far, the space left in the name table and in the buffer; \<open>- 1\<close> when either is used up.\<close>

fun sorted_loop :: "nat \<Rightarrow> byte list list \<Rightarrow> byte list list \<Rightarrow> int \<Rightarrow> int \<Rightarrow> (byte list list \<times> int) option" where
  "sorted_loop 0 d names namelen len = None"
| "sorted_loop (Suc k) d names namelen len =
     (if \<not> int (length names) < namelen \<or> \<not> 0 < len then Some (names, - 1)
      else do {
        (d, name, i) \<leftarrow> dir_read d len;
        if i = 0 then Some (names, 0)
        else sorted_loop k d (names @ [name]) namelen (len - int (length name) - 1)
      })"

definition names_cmp :: "byte list \<Rightarrow> byte list \<Rightarrow> int" where
  "names_cmp a b = (if a = b then 0 else if a < b then - 1 else 1)"

text \<open>The result and the table of names; every turn reads an entry, the last one the end.\<close>

definition dir_sorted :: "(byte list \<Rightarrow> byte list list option) \<Rightarrow> byte list \<Rightarrow> int \<Rightarrow> int \<Rightarrow> (int \<times> byte list list) option" where
  "dir_sorted ls path namelen buflen =
     (case dir_open ls path of
        None \<Rightarrow> Some (- 1, [])
      | Some d \<Rightarrow>
          do {
            (names, err) \<leftarrow> sorted_loop (length d + 1) d [] namelen buflen;
            if err \<noteq> 0 then Some (err, names) else Some (int (length names), sort names)
          })"

text \<open>\<open>dir_where_exe\<close>: \<open>p\<close> is what is left of the variable \<open>PATH\<close>, \<open>pathlen\<close> the size of the buffer.\<close>

function where_loop :: "fs \<Rightarrow> byte list \<Rightarrow> byte list \<Rightarrow> nat \<Rightarrow> byte list option" where
  "where_loop fs p exename pathlen =
     (let w = take (pathlen - 1) (takeWhile (\<lambda>c. c \<noteq> 58) p);
          p = drop (length w) p;
          pathbuf = w @ take (pathlen - length w - 1) (47 # exename)
      in if fs_files fs pathbuf \<noteq> None then Some pathbuf
         else if p = [] \<or> hd p \<noteq> 58 then None else where_loop fs (tl p) exename pathlen)"
  by pat_completeness auto
termination
  by (relation "measure (\<lambda>(fs, p, exename, pathlen). length p)") (auto simp: less_diff_conv2 neq_Nil_conv dest: arg_cong [where f = length])

declare where_loop.simps [simp del]

definition dir_where_exe :: "fs \<Rightarrow> byte list option \<Rightarrow> byte list \<Rightarrow> nat \<Rightarrow> byte list option" where
  "dir_where_exe fs PATH exename pathlen =
     (case PATH of None \<Rightarrow> None | Some p \<Rightarrow> where_loop fs p exename pathlen)"

section \<open>Making a path\<close>

text \<open>A path: its first component, which may begin with a slash, and the others.\<close>

definition path_of :: "byte list \<Rightarrow> byte list list \<Rightarrow> byte list" where
  "path_of d cs = d @ concat (map ((#) 47) cs)"

definition plain :: "byte list \<Rightarrow> bool" where
  "plain c \<longleftrightarrow> c \<noteq> [] \<and> (\<forall>b\<in>set c. \<not> path_sep b)"

lemma path_of_simps [simp]:
  "path_of d [] = d" "path_of d (c # cs) = path_of (d @ 47 # c) cs"
  by (simp_all add: path_of_def)

lemma path_of_append: "path_of d (cs @ cs') = path_of (path_of d cs) cs'"
  by (simp add: path_of_def)

lemma plain_no_slash: "plain c \<Longrightarrow> 47 \<notin> set c"
  by (auto simp: plain_def path_sep_def)

lemma parent_dir_append: "47 \<notin> set c \<Longrightarrow> parent_dir (d @ 47 # c) = d"
proof -
  assume "47 \<notin> set c"
  then have "dropWhile (\<lambda>c. c \<noteq> 47) (rev c @ 47 # rev d) = 47 # rev d"
    by (subst dropWhile_append2) auto
  then show ?thesis by (simp add: parent_dir_def)
qed

text \<open>Nothing on the way to a path is a file or locked.\<close>

definition clear_way :: "fs \<Rightarrow> byte list \<Rightarrow> byte list list \<Rightarrow> bool" where
  "clear_way fs d cs \<longleftrightarrow> (\<forall>k<length cs. fs_files fs (path_of d (take k cs)) = None \<and> \<not> fs_locked fs (path_of d (take k cs)))"

lemma take_while_plain: "plain c \<Longrightarrow> takeWhile (\<lambda>c. \<not> path_sep c) (c @ concat (map ((#) 47) cs)) = c"
  by (cases cs) (auto simp: plain_def path_sep_def takeWhile_append)

lemma mkpath_loop_makes:
  "\<forall>c\<in>set cs. plain c \<Longrightarrow> cs \<noteq> [] \<Longrightarrow> d \<in> set (fs_dirs fs) \<Longrightarrow> clear_way fs d cs \<Longrightarrow> fs_errno fs = EEXIST \<Longrightarrow>
   \<exists>dirs. mkpath_loop fs d (concat (map ((#) 47) cs)) False err = (fs\<lparr>fs_dirs := dirs\<rparr>, - 1) \<and>
     set dirs = set (fs_dirs fs) \<union> (\<lambda>k. path_of d (take k cs)) ` {..<length cs}"
proof (induction cs arbitrary: d fs err)
  case (Cons c cs)
  have c: "plain c" using Cons.prems(1) by simp
  note tw = take_while_plain [OF c, of cs]
  show ?case
  proof (cases "cs = []")
    case True
    have "\<forall>x\<in>set c. \<not> path_sep x" using c by (simp add: plain_def)
    then have tw: "takeWhile (\<lambda>c. \<not> path_sep c) c = c" by (simp add: takeWhile_eq_all_conv)
    from True Cons.prems(3) show ?thesis by (intro exI [of _ "fs_dirs fs"]) (auto simp: Let_def tw)
  next
    case False
    let ?d = "d @ 47 # c"
    let ?dirs = "if ?d \<in> set (fs_dirs fs) then fs_dirs fs else ?d # fs_dirs fs"
    have way: "fs_files fs (path_of d (take k (c # cs))) = None \<and> \<not> fs_locked fs (path_of d (take k (c # cs)))"
      if "k < length (c # cs)" for k using Cons.prems(4) that by (simp add: clear_way_def)
    have free: "fs_files fs ?d = None" "\<not> fs_locked fs ?d" using way [of 1] False by auto
    have "parent_ok fs ?d"
      using Cons.prems(3) by (simp add: parent_ok_def parent_dir_append plain_no_slash [OF c])
    then have mk: "fst (dir_mkdir fs ?d) = fs\<lparr>fs_dirs := ?dirs\<rparr>"
      using free Cons.prems(5) by (simp add: dir_mkdir_def fs_mkdir_def fs_fail_def)
    have "clear_way (fs\<lparr>fs_dirs := ?dirs\<rparr>) ?d cs"
    proof (unfold clear_way_def, intro allI impI)
      fix k assume "k < length cs"
      with way [of "Suc k"] show "fs_files (fs\<lparr>fs_dirs := ?dirs\<rparr>) (path_of ?d (take k cs)) = None \<and>
          \<not> fs_locked (fs\<lparr>fs_dirs := ?dirs\<rparr>) (path_of ?d (take k cs))" by simp
    qed
    moreover have "?d \<in> set (fs_dirs (fs\<lparr>fs_dirs := ?dirs\<rparr>))" by simp
    moreover have "\<forall>c\<in>set cs. plain c" "fs_errno (fs\<lparr>fs_dirs := ?dirs\<rparr>) = EEXIST" using Cons.prems(1,5) by simp_all
    ultimately have "\<exists>dirs. mkpath_loop (fs\<lparr>fs_dirs := ?dirs\<rparr>) ?d (concat (map ((#) 47) cs)) False 0 =
          (fs\<lparr>fs_dirs := ?dirs, fs_dirs := dirs\<rparr>, - 1) \<and>
        set dirs = set (fs_dirs (fs\<lparr>fs_dirs := ?dirs\<rparr>)) \<union> (\<lambda>k. path_of ?d (take k cs)) ` {..<length cs}"
      using False by (intro Cons.IH)
    then obtain dirs where ih0: "mkpath_loop (fs\<lparr>fs_dirs := ?dirs\<rparr>) ?d (concat (map ((#) 47) cs)) False 0 =
          (fs\<lparr>fs_dirs := ?dirs, fs_dirs := dirs\<rparr>, - 1)"
        "set dirs = set (fs_dirs (fs\<lparr>fs_dirs := ?dirs\<rparr>)) \<union> (\<lambda>k. path_of ?d (take k cs)) ` {..<length cs}" by blast
    have ih: "mkpath_loop (fs\<lparr>fs_dirs := ?dirs\<rparr>) ?d (concat (map ((#) 47) cs)) False 0 = (fs\<lparr>fs_dirs := dirs\<rparr>, - 1)"
        "set dirs = set ?dirs \<union> (\<lambda>k. path_of ?d (take k cs)) ` {..<length cs}"
      using ih0 by (simp_all del: mkpath_loop.simps)
    have "{..<length (c # cs)} = insert 0 (Suc ` {..<length cs})" by (simp add: lessThan_Suc_eq_insert_0)
    then have "(\<lambda>k. path_of d (take k (c # cs))) ` {..<length (c # cs)} =
        insert d ((\<lambda>k. path_of ?d (take k cs)) ` {..<length cs})" by (simp add: image_image)
    moreover have "?d \<in> (\<lambda>k. path_of ?d (take k cs)) ` {..<length cs}"
      using False by (intro image_eqI [of _ _ 0]) auto
    ultimately have "set dirs = set (fs_dirs fs) \<union> (\<lambda>k. path_of d (take k (c # cs))) ` {..<length (c # cs)}"
      using ih(2) Cons.prems(3) by auto
    moreover have "mkpath_loop fs d (concat (map ((#) 47) (c # cs))) False err = (fs\<lparr>fs_dirs := dirs\<rparr>, - 1)"
      using tw False ih(1) mk by (cases cs) (auto simp: Let_def split_def)
    ultimately show ?thesis by blast
  qed
qed simp

lemma first_component:
  "plain c \<Longrightarrow> cs \<noteq> [] \<Longrightarrow> plain_or_rooted = c \<or> plain_or_rooted = 47 # c \<Longrightarrow>
   mkpath_loop fs [] (path_of plain_or_rooted cs) final err =
     mkpath_loop (fst (dir_mkdir fs plain_or_rooted)) plain_or_rooted (concat (map ((#) 47) cs)) final 0"
proof -
  assume c: "plain c" and cs: "cs \<noteq> []" and d: "plain_or_rooted = c \<or> plain_or_rooted = 47 # c"
  obtain b w where b: "plain_or_rooted = b # w" "\<forall>x\<in>set w. \<not> path_sep x"
    using c d by (cases c) (auto simp: plain_def)
  have "takeWhile (\<lambda>c. \<not> path_sep c) (w @ concat (map ((#) 47) cs)) = w"
    using b(2) cs by (cases cs) (auto simp: takeWhile_append path_sep_def)
  with b(1) cs show ?thesis by (cases cs) (auto simp: path_of_def Let_def split_def)
qed

definition way_to :: "fs \<Rightarrow> byte list \<Rightarrow> byte list list \<Rightarrow> bool" where
  "way_to fs d cs \<longleftrightarrow> plain (if hd d = 47 then tl d else d) \<and> d \<in> set (fs_dirs fs) \<and> (\<forall>c\<in>set cs. plain c) \<and> clear_way fs d cs"

lemma dir_mkpath_dirs:
  assumes "way_to fs d cs" "cs \<noteq> []"
  shows "\<exists>dirs. dir_mkpath fs (path_of d cs) False = (fs\<lparr>fs_dirs := dirs, fs_errno := EEXIST\<rparr>, 0) \<and>
    set dirs = set (fs_dirs fs) \<union> (\<lambda>k. path_of d (take k cs)) ` {..<length cs}"
proof -
  have w: "plain (if hd d = 47 then tl d else d)" "d \<in> set (fs_dirs fs)" "\<forall>c\<in>set cs. plain c" "clear_way fs d cs"
    using assms(1) by (simp_all add: way_to_def)
  let ?c = "if hd d = 47 then tl d else d"
  have d: "d = ?c \<or> d = 47 # ?c" using w(1) by (cases d) (auto simp: plain_def)
  let ?fs = "fs\<lparr>fs_errno := EEXIST\<rparr>"
  have mk: "fst (dir_mkdir fs d) = ?fs" using w(2) by (simp add: dir_mkdir_def fs_mkdir_def fs_fail_def)
  have "clear_way ?fs d cs" using w(4) by (simp add: clear_way_def)
  from mkpath_loop_makes [OF w(3) assms(2), of d ?fs 0] this w(2) obtain dirs where
    m: "mkpath_loop ?fs d (concat (map ((#) 47) cs)) False 0 = (?fs\<lparr>fs_dirs := dirs\<rparr>, - 1)"
      "set dirs = set (fs_dirs fs) \<union> (\<lambda>k. path_of d (take k cs)) ` {..<length cs}" by auto
  have "mkpath_loop fs [] (path_of d cs) False (- 1) = (?fs\<lparr>fs_dirs := dirs\<rparr>, - 1)"
    using first_component [OF w(1) assms(2) d, of fs False "- 1"] m(1) mk by simp
  then have "dir_mkpath fs (path_of d cs) False = (fs\<lparr>fs_dirs := dirs, fs_errno := EEXIST\<rparr>, 0)"
    by (simp add: dir_mkpath_def)
  with m(2) show ?thesis by blast
qed

section \<open>The last component\<close>

text \<open>A sorted directory is the table of its names but \<open>.\<close> and \<open>..\<close>.\<close>

definition no_dots :: "byte list list \<Rightarrow> byte list list" where
  "no_dots d = filter (\<lambda>n. n \<noteq> [46] \<and> n \<noteq> [46, 46]) d"

definition names_space :: "byte list list \<Rightarrow> int" where
  "names_space d = (\<Sum>n\<leftarrow>d. int (length n) + 1)"

lemma dir_read_next:
  "\<forall>n\<in>set d. int (length n) < len \<Longrightarrow>
   dir_read d len = (case dropWhile (\<lambda>n. n = [46] \<or> n = [46, 46]) d of [] \<Rightarrow> Some ([], [], 0) | n # d \<Rightarrow> Some (d, n, 1))"
  by (induction d) (auto simp: dir_read_dots_def)

lemma filter_dropWhile: "filter P xs = (case dropWhile (\<lambda>x. \<not> P x) xs of [] \<Rightarrow> [] | x # ys \<Rightarrow> x # filter P ys)"
  by (induction xs) auto

lemma sorted_loop_names:
  "length d < k \<Longrightarrow> int (length names + length (no_dots d)) < namelen \<Longrightarrow> \<forall>n\<in>set d. length n \<le> 255 \<Longrightarrow>
   names_space (no_dots d) + 255 < len \<Longrightarrow> sorted_loop k d names namelen len = Some (names @ no_dots d, 0)"
proof (induction k arbitrary: d names len)
  case (Suc k)
  let ?dot = "\<lambda>n :: byte list. n = [46] \<or> n = [46, 46]"
  have nn: "0 \<le> names_space e" for e by (auto simp: names_space_def intro!: sum_list_nonneg)
  have fit: "\<forall>n\<in>set d. int (length n) < len" using Suc.prems(3,4) nn [of "no_dots d"] by fastforce
  note rd = dir_read_next [OF fit]
  show ?case
  proof (cases "dropWhile ?dot d")
    case Nil
    then have "no_dots d = []" by (auto simp: no_dots_def dropWhile_eq_Nil_conv)
    moreover have "dir_read d len = Some ([], [], 0)" using rd unfolding Nil by simp
    ultimately show ?thesis using Suc.prems(2,4) by (simp add: names_space_def)
  next
    case (Cons n e)
    then have split: "no_dots d = n # no_dots e"
      unfolding no_dots_def by (subst filter_dropWhile) simp
    have sub: "length e < length d" "set e \<subseteq> set d" 
      using Cons length_dropWhile_le [of ?dot d] set_dropWhileD [of _ ?dot d] by auto
    have "sorted_loop k e (names @ [n]) namelen (len - int (length n) - 1) = Some ((names @ [n]) @ no_dots e, 0)"
      using sub Suc.prems split by (intro Suc.IH) (auto simp: names_space_def)
    with rd Cons split Suc.prems(2,4) nn [of "no_dots e"] show ?thesis by (simp add: names_space_def)
  qed
qed simp

text \<open>
  \<open>dir_sorted\<close> returns the number of entries of a directory other than \<open>.\<close> and \<open>..\<close> and the table of exactly these
  names in the order of \<open>strcmp\<close>, when the table has room for one name more and the buffer for one more of the longest.
\<close>

theorem dir_sorted_names:
  assumes "ls path = Some d" "\<forall>n\<in>set d. length n \<le> 255"
    "int (length (no_dots d)) < namelen" "names_space (no_dots d) + 255 < buflen"
  shows "\<exists>names. dir_sorted ls path namelen buflen = Some (int (length (no_dots d)), names) \<and>
    mset names = mset (no_dots d) \<and> sorted_wrt (\<lambda>a b. names_cmp a b \<le> 0) names"
proof -
  have "sorted_loop (length d + 1) d [] namelen buflen = Some (no_dots d, 0)"
    using sorted_loop_names [of d "length d + 1" "[]" namelen buflen] assms by simp
  moreover have "sorted_wrt (\<lambda>a b. names_cmp a b \<le> 0) (sort (no_dots d))"
    by (rule sorted_wrt_mono_rel [OF _ sorted_sort [of "no_dots d"]]) (auto simp: names_cmp_def)
  ultimately show ?thesis
    using assms(1) by (simp add: dir_sorted_def dir_open_def)
qed

lemma dir_sorted_names_witness:
  "\<exists>names. dir_sorted (\<lambda>_. Some [[46], [98], [46, 46], [97, 98]]) [47] 3 1000 = Some (int (length (no_dots [[46], [98], [46, 46], [97, 98]])), names) \<and>
    mset names = mset (no_dots [[46], [98], [46, 46], [97, 98]]) \<and> sorted_wrt (\<lambda>a b. names_cmp a b \<le> 0) names"
  by (rule dir_sorted_names) (simp_all add: no_dots_def names_space_def)

end
