(* ===== verification/Cfg.thy ===== *)
theory Cfg
  imports Dir
begin

text \<open>
  \<open>cfg.c\<close>, \<open>cfg_unix.c\<close>: configuration values as files below a directory of the user and one of the system, most recently
  used lists and lists of lines. Strings are the bytes before their terminating zero; buffers that the functions fill are
  memories with indices as pointers, and \<open>None\<close> is an access outside them or the use of a string that lost its terminator.
  The environment variable \<open>HOME\<close> is an argument, the file system that of \<open>Dir\<close>.
\<close>

definition MAX_PATH :: nat where "MAX_PATH = 4096"

record cfg_t =
  app_name :: "byte list"
  etc_dir :: "byte list"
  user_dir :: "byte list"
  var_dir :: "byte list"
  log_dir :: "byte list"

text \<open>\<open>snprintf\<close> into an array of \<open>n\<close> bytes, and \<open>strncpy\<close>, which leaves out the terminator of a long string.\<close>

definition cut :: "nat \<Rightarrow> byte list \<Rightarrow> byte list" where
  "cut n s = take (n - 1) s"

definition strncpy_field :: "nat \<Rightarrow> byte list \<Rightarrow> byte list option" where
  "strncpy_field n s = (if length s < n then Some s else None)"

text \<open>\<open>snprintf(dst, n, "%s", s)\<close> where the count is an \<open>int\<close>: a negative one is an enormous \<open>size_t\<close>.\<close>

definition snprintf_size :: "mem \<Rightarrow> int \<Rightarrow> int \<Rightarrow> byte list \<Rightarrow> (mem \<times> int) option" where
  "snprintf_size m d n s =
     do {
       m \<leftarrow> (if n = 0 then Some m else if n > 0 then blit m d (take (nat (n - 1)) s @ [0]) else blit m d (s @ [0]));
       Some (m, int (length s))
     }"

definition cfg_new :: "byte list option \<Rightarrow> byte list \<Rightarrow> cfg_t option" where
  "cfg_new HOME appname =
     do {
       app \<leftarrow> strncpy_field 256 appname;
       let etc = cut MAX_PATH (bytes_of ''/etc/'' @ app);
       let var = cut MAX_PATH (bytes_of ''/var/lib/'' @ app);
       let log = cut MAX_PATH (bytes_of ''/var/log/'' @ app);
       user \<leftarrow> (case HOME of Some h \<Rightarrow> Some (cut MAX_PATH (h @ bytes_of ''/.'' @ appname))
                | None \<Rightarrow> strncpy_field MAX_PATH etc);
       Some \<lparr>app_name = app, etc_dir = etc, user_dir = user, var_dir = var, log_dir = log\<rparr>
     }"

definition cfg_new_rootdir :: "byte list option \<Rightarrow> byte list \<Rightarrow> cfg_t option" where
  "cfg_new_rootdir HOME rootdir =
     do {
       cfg \<leftarrow> cfg_new HOME rootdir;
       dir \<leftarrow> strncpy_field MAX_PATH rootdir;
       Some (cfg\<lparr>etc_dir := dir, user_dir := dir, var_dir := dir, log_dir := dir\<rparr>)
     }"

section \<open>Values in files\<close>

text \<open>The path that was tried last and the contents of the file, if it could be opened.\<close>

definition try_dir :: "fs \<Rightarrow> byte list \<Rightarrow> byte list \<Rightarrow> fs \<times> byte list \<times> byte list option" where
  "try_dir fs dir key = (let buf = cut MAX_PATH (dir @ [47] @ key); (fs, f) = fs_read fs buf in (fs, buf, f))"

definition open_first :: "cfg_t \<Rightarrow> fs \<Rightarrow> byte list \<Rightarrow> fs \<times> byte list \<times> byte list option" where
  "open_first cfg fs key =
     (let (fs, buf, f) = (if user_dir cfg \<noteq> [] then try_dir fs (user_dir cfg) key else (fs, [], None))
      in if f = None \<and> etc_dir cfg \<noteq> [] then try_dir fs (etc_dir cfg) key else (fs, buf, f))"

text \<open>
  \<open>val\<close> is the null pointer or a memory, into which \<open>fread\<close> puts at most \<open>len\<close> bytes. The first statement writes to
  \<open>val\<close>, so that the branch for a null pointer further down is never reached.
\<close>

definition cfg_get_val_or_path ::
    "cfg_t \<Rightarrow> fs \<Rightarrow> byte list \<Rightarrow> mem option \<Rightarrow> int \<Rightarrow> bool \<Rightarrow> (fs \<times> mem \<times> int) option" where
  "cfg_get_val_or_path cfg fs key val len path_only =
     do {
       val \<leftarrow> val;
       val \<leftarrow> wr8 val 0 0;
       let (fs, buf, f) = open_first cfg fs key;
       case f of
         None \<Rightarrow> Some (fs, val, 0)
       | Some xs \<Rightarrow>
           if path_only then do { (val, n) \<leftarrow> snprintf_str val 0 len buf; Some (fs, val, n) }
           else do {
             let xs = (if len < 0 then xs else take (nat len) xs);
             val \<leftarrow> blit val 0 xs;
             let n = int (length xs);
             val \<leftarrow> wr8 val (if n < len then n else len - 1) 0;
             Some (fs, val, n)
           }
     }"

definition cfg_path :: "cfg_t \<Rightarrow> fs \<Rightarrow> byte list \<Rightarrow> mem option \<Rightarrow> int \<Rightarrow> (fs \<times> mem \<times> bool) option" where
  "cfg_path cfg fs key val len =
     do { (fs, val, i) \<leftarrow> cfg_get_val_or_path cfg fs key val len True; Some (fs, val, i > 0) }"

definition cfg_get :: "cfg_t \<Rightarrow> fs \<Rightarrow> byte list \<Rightarrow> mem option \<Rightarrow> int \<Rightarrow> (fs \<times> mem \<times> int) option" where
  "cfg_get cfg fs key val len = cfg_get_val_or_path cfg fs key val len False"

datatype cfg_put_where_t = CFG_PUT_USER | CFG_PUT_GLOBAL

definition put_dir :: "cfg_t \<Rightarrow> cfg_put_where_t \<Rightarrow> byte list" where
  "put_dir cfg where' = (case where' of CFG_PUT_USER \<Rightarrow> user_dir cfg | CFG_PUT_GLOBAL \<Rightarrow> etc_dir cfg)"

text \<open>\<open>val\<close> is the null pointer or the memory from \<open>val\<close> on. \<open>fwrite\<close> writes all it is given.\<close>

definition cfg_put ::
    "cfg_t \<Rightarrow> fs \<Rightarrow> byte list \<Rightarrow> mem option \<Rightarrow> int \<Rightarrow> cfg_put_where_t \<Rightarrow> (fs \<times> int) option" where
  "cfg_put cfg fs key val len where' =
     (let dir = put_dir cfg where' in
      if dir = [] then Some (fs, - 1)
      else (let buf = cut MAX_PATH (dir @ [47] @ key) in
        case val of
          None \<Rightarrow> Some (fs_unlink fs buf, 0)
        | Some val \<Rightarrow>
            (let (fs, i) = dir_mkpath fs buf False in
             if i \<noteq> 0 then Some (fs, - 1)
             else (let (fs, i) = fs_create fs buf in
               if i \<noteq> 0 then Some (fs, - 1)
               else do {
                 xs \<leftarrow> (if len \<ge> 0 then slice val 0 len else if 0 \<in> set val then Some (cstr val) else None);
                 Some (fs_append fs buf xs, int (length xs))
               }))))"

definition cfg_put_int :: "cfg_t \<Rightarrow> fs \<Rightarrow> byte list \<Rightarrow> int \<Rightarrow> cfg_put_where_t \<Rightarrow> (fs \<times> int) option" where
  "cfg_put_int cfg fs key val where' =
     (let s = bytes_of (dec_int val) in cfg_put cfg fs key (Some (s @ [0])) (int (length s)) where')"

text \<open>
  The result, after the file system, is the number and the status. The bytes of \<open>buf\<close> are not initialised; those that
  are read have been written by \<open>cfg_get\<close>, so that zeros stand for them.
\<close>

definition cfg_get_int :: "cfg_t \<Rightarrow> fs \<Rightarrow> byte list \<Rightarrow> (fs \<times> int \<times> int) option" where
  "cfg_get_int cfg fs key =
     do {
       (fs, buf, i) \<leftarrow> cfg_get cfg fs key (Some (replicate 1024 0)) 1024;
       if i \<le> 0 then Some (fs, 0, - 1)
       else (let (v, p) = strtoul (cstr buf) 0
             in Some (fs, to_i32 v, if p > 0 then i else - 1))
     }"

datatype cfg_dir_where_t = CFG_DIR_NONE | CFG_DIR_USER | CFG_DIR_GLOBAL | CFG_DIR_VAR | CFG_DIR_LOG

definition dir_of :: "cfg_t \<Rightarrow> cfg_dir_where_t \<Rightarrow> byte list" where
  "dir_of cfg where' =
     (case where' of CFG_DIR_USER \<Rightarrow> user_dir cfg | CFG_DIR_GLOBAL \<Rightarrow> etc_dir cfg | CFG_DIR_VAR \<Rightarrow> var_dir cfg
      | CFG_DIR_LOG \<Rightarrow> log_dir cfg | CFG_DIR_NONE \<Rightarrow> [])"

definition cfg_dir :: "cfg_t \<Rightarrow> cfg_dir_where_t \<Rightarrow> mem \<Rightarrow> int \<Rightarrow> mem option" where
  "cfg_dir cfg where' val len = do { (val, _) \<leftarrow> snprintf_size val 0 len (dir_of cfg where'); Some val }"

text \<open>A whole file without the white space at its end.\<close>

fun strip_back :: "mem \<Rightarrow> nat \<Rightarrow> nat" where
  "strip_back m 0 = 0"
| "strip_back m (Suc n) = (if is_space (m ! n) then strip_back m n else Suc n)"

definition cfg_cat :: "fs \<Rightarrow> byte list \<Rightarrow> mem \<Rightarrow> int \<Rightarrow> (fs \<times> mem \<times> int) option" where
  "cfg_cat fs path val len =
     (case fs_read fs path of
        (fs, None) \<Rightarrow> Some (fs, val, - 1)
      | (fs, Some xs) \<Rightarrow>
          do {
            let xs = (if len < 0 then xs else take (nat len) xs);
            val \<leftarrow> blit val 0 xs;
            if xs = [] then Some (fs, val, 0)
            else do {
              let err = int (strip_back val (length xs));
              val \<leftarrow> (if err < len then wr8 val err 0 else Some val);
              Some (fs, val, err)
            }
          })"

section \<open>Lists of lines\<close>

text \<open>\<open>mru\<close>: \<open>src\<close> is what is left of the old list, \<open>n\<close> the space left at \<open>dst\<close>. A line fits into \<open>srcbuf\<close>.\<close>

function mru_loop :: "byte list \<Rightarrow> int \<Rightarrow> byte list \<Rightarrow> int \<Rightarrow> mem \<Rightarrow> int \<Rightarrow> int \<Rightarrow> mem option" where
  "mru_loop val limit src cnt m dst n =
     (if src = [] \<or> cnt \<ge> limit then Some m
      else (let line = takeWhile (\<lambda>c. c \<noteq> 10) src;
                src = drop (length line + 1) src
            in if length line \<ge> 4096 then None
               else if line = [] \<or> map tolower val = map tolower line then mru_loop val limit src cnt m dst n
               else do {
                 (m, i) \<leftarrow> snprintf_size m dst n (line @ [10]);
                 mru_loop val limit src (cnt + 1) m (dst + i) (n - i)
               }))"
  by pat_completeness auto
termination
  by (relation "measure (\<lambda>(val, max, src, cnt, m, dst, n). length src)") auto

declare mru_loop.simps [simp del]

definition mru :: "byte list \<Rightarrow> byte list \<Rightarrow> mem \<Rightarrow> int \<Rightarrow> int \<Rightarrow> mem option" where
  "mru old val dstbuf dstlen limit =
     do {
       (m, i) \<leftarrow> snprintf_size dstbuf 0 dstlen (val @ [10]);
       mru_loop val limit old 1 m i (dstlen - i)
     }"

text \<open>The memory, \<open>*p\<close> and \<open>*n\<close> afterwards, and the result.\<close>

definition cfg_list_pack :: "mem \<Rightarrow> int \<Rightarrow> int \<Rightarrow> byte list \<Rightarrow> (mem \<times> int \<times> int \<times> int) option" where
  "cfg_list_pack m p n src =
     do {
       (m, i) \<leftarrow> snprintf_size m p n (src @ [10]);
       Some (if i > 0 then (m, p + i, n - i, i) else (m, p, n, i))
     }"

text \<open>
  \<open>q\<close> is the null pointer or what is left of the list. The result is what is left afterwards, the buffer and whether it
  was returned. The zero behind the line is written only when the count has not run out, so that a line of \<open>len - 1\<close> bytes
  or more is left without one.
\<close>

definition cfg_list_next :: "byte list option \<Rightarrow> mem \<Rightarrow> int \<Rightarrow> (byte list option \<times> mem \<times> bool) option" where
  "cfg_list_next q buf len =
     (case q of
        None \<Rightarrow> Some (None, buf, False)
      | Some p \<Rightarrow>
          if p = [] then Some (q, buf, False)
          else do {
            let line = takeWhile (\<lambda>c. c \<noteq> 10) p;
            let out = take (nat (len - 1)) line;
            buf \<leftarrow> blit buf 0 out;
            let len = len - 1 - int (length out);
            buf \<leftarrow> (if len > 0 then wr8 buf (int (length out)) 0 else Some buf);
            let len = (if len > 0 then len - 1 else len);
            Some (Some (drop (length line + 1) p), buf, len \<ge> 0)
          })"

section \<open>Enumerating a directory\<close>

record cfg_enum_t =
  ce_path :: "byte list"
  ce_dir :: "byte list list"

definition enum_dir :: "(byte list \<Rightarrow> byte list list option) \<Rightarrow> cfg_t \<Rightarrow> cfg_dir_where_t \<Rightarrow> byte list \<Rightarrow> cfg_enum_t option" where
  "enum_dir ls cfg where' subdir =
     (let path = cut 4096 (cut 4096 (dir_of cfg where') @ [47] @ subdir)
      in case ls path of None \<Rightarrow> None | Some d \<Rightarrow> Some \<lparr>ce_path = path, ce_dir = d\<rparr>)"

definition cfg_enum_open :: "(byte list \<Rightarrow> byte list list option) \<Rightarrow> cfg_t \<Rightarrow> cfg_dir_where_t \<Rightarrow> byte list \<Rightarrow> cfg_enum_t option" where
  "cfg_enum_open ls cfg where' subdir =
     (if where' = CFG_DIR_NONE then
        (case enum_dir ls cfg CFG_DIR_USER subdir of Some e \<Rightarrow> Some e | None \<Rightarrow> enum_dir ls cfg CFG_DIR_GLOBAL subdir)
      else enum_dir ls cfg where' subdir)"

definition cfg_enum_read :: "cfg_enum_t \<Rightarrow> mem \<Rightarrow> int \<Rightarrow> (cfg_enum_t \<times> mem \<times> bool) option" where
  "cfg_enum_read e buf len =
     (case dropWhile (\<lambda>d. d = [46] \<or> d = [46, 46]) (ce_dir e) of
        [] \<Rightarrow> Some (e\<lparr>ce_dir := []\<rparr>, buf, False)
      | d # ds \<Rightarrow> do { (buf, _) \<leftarrow> snprintf_size buf 0 len (ce_path e @ [47] @ d); Some (e\<lparr>ce_dir := ds\<rparr>, buf, True) })"

end
