(* ===== verification/CfgProps.thy ===== *)
theory CfgProps
  imports Cfg OptProps "HOL-Library.Sublist"
begin

text \<open>
  What the configuration stores: the files below the two directories behave like two maps from keys to values, numbers and
  lists of lines come back as they were put, and a most recently used list is what its name says.
\<close>

section \<open>Lists of lines\<close>

definition rows_text :: "byte list list \<Rightarrow> byte list" where
  "rows_text ss = concat (map (\<lambda>s. s @ [10]) ss)"

definition line_ok :: "byte list \<Rightarrow> bool" where
  "line_ok s \<longleftrightarrow> 0 \<notin> set s \<and> 10 \<notin> set s"

lemma rows_text_simps [simp]: "rows_text [] = []" "rows_text (s # ss) = s @ 10 # rows_text ss"
  by (simp_all add: rows_text_def)

lemma rows_no_zero: "\<forall>s\<in>set ss. line_ok s \<Longrightarrow> 0 \<notin> set (rows_text ss)"
  by (induction ss) (auto simp: line_ok_def)

lemma take_line: "10 \<notin> set s \<Longrightarrow> takeWhile (\<lambda>c. c \<noteq> 10) (s @ 10 # r) = s"
  by (induction s) auto

lemma append_line:
  assumes "int (length s) + 1 < n" "n \<le> int (length R)"
  shows "snprintf_size (P @ R) (int (length P)) n (s @ [10]) =
    Some ((P @ s @ [10]) @ 0 # drop (length s + 2) R, int (length s) + 1)"
proof -
  have "take (nat (n - 1)) (s @ [10]) = s @ [10]" using assms(1) by (simp add: take_all_iff)
  moreover have "blit (P @ R) (int (length P)) (s @ [10, 0]) = Some (P @ (s @ [10, 0]) @ drop (length (s @ [10, 0])) R)"
    using assms by (intro blit_at) auto
  ultimately show ?thesis using assms(1) by (simp add: snprintf_size_def)
qed

fun pack_all :: "mem \<Rightarrow> int \<Rightarrow> int \<Rightarrow> byte list list \<Rightarrow> (mem \<times> int \<times> int) option" where
  "pack_all m p n [] = Some (m, p, n)"
| "pack_all m p n (s # ss) = do { (m, p, n, i) \<leftarrow> cfg_list_pack m p n s; pack_all m p n ss }"

text \<open>At most \<open>k\<close> lines of a list, read into the same buffer.\<close>

fun next_all :: "nat \<Rightarrow> byte list option \<Rightarrow> mem \<Rightarrow> int \<Rightarrow> byte list list option" where
  "next_all 0 q buf len = Some []"
| "next_all (Suc k) q buf len =
     do {
       (q, buf, ok) \<leftarrow> cfg_list_next q buf len;
       if ok then do { ss \<leftarrow> next_all k q buf len; Some (cstr buf # ss) } else Some []
     }"

lemma pack_all_text:
  "int (length (rows_text ss)) < n \<Longrightarrow> n \<le> int (length R) \<Longrightarrow> hd R = 0 \<Longrightarrow>
   \<exists>R'. pack_all (P @ R) (int (length P)) n ss =
     Some ((P @ rows_text ss) @ 0 # R', int (length (P @ rows_text ss)), n - int (length (rows_text ss)))"
proof (induction ss arbitrary: P R n)
  case Nil
  then show ?case by (cases R) auto
next
  case (Cons s ss)
  let ?R = "0 # drop (length s + 2) R"
  have "\<exists>R'. pack_all ((P @ s @ [10]) @ ?R) (int (length (P @ s @ [10]))) (n - (int (length s) + 1)) ss =
      Some (((P @ s @ [10]) @ rows_text ss) @ 0 # R', int (length ((P @ s @ [10]) @ rows_text ss)),
        (n - (int (length s) + 1)) - int (length (rows_text ss)))"
    using Cons.prems by (intro Cons.IH) auto
  moreover have "cfg_list_pack (P @ R) (int (length P)) n s =
      Some ((P @ s @ [10]) @ ?R, int (length (P @ s @ [10])), n - (int (length s) + 1), int (length s) + 1)"
    using append_line [of s n R P] Cons.prems(1,2) by (simp add: cfg_list_pack_def)
  ultimately show ?case by (simp add: algebra_simps)
qed

lemma list_next_line:
  assumes "line_ok s" "int (length s) + 2 \<le> len" "len \<le> int (length buf)"
  shows "\<exists>buf'. cfg_list_next (Some (s @ 10 # r)) buf len = Some (Some r, buf', True) \<and> cstr buf' = s \<and> length buf' = length buf"
proof -
  obtain b B where B: "drop (length s) buf = b # B" using assms(2,3) by (cases "drop (length s) buf") auto
  have "blit buf 0 s = Some (s @ b # B)" using blit_at [of s buf "[]"] assms B by simp
  moreover have "wr8 (s @ b # B) (int (length s)) 0 = Some (s @ 0 # B)" by (rule wr8_at)
  moreover have "take (nat (len - 1)) s = s" using assms(2) by (simp add: take_all_iff)
  moreover have "length (s @ 0 # B) = length buf"
    using arg_cong [OF B, of length] assms(2,3) by simp
  ultimately show ?thesis
    using assms take_line [of s r] by (auto simp: cfg_list_next_def line_ok_def cstr_id intro!: exI [of _ "s @ 0 # B"])
qed

lemma next_all_text:
  "\<forall>s\<in>set ss. line_ok s \<and> int (length s) + 2 \<le> len \<Longrightarrow> len \<le> int (length buf) \<Longrightarrow> length ss < k \<Longrightarrow>
   next_all k (Some (rows_text ss)) buf len = Some ss"
proof (induction ss arbitrary: buf k)
  case Nil
  then show ?case by (cases k) (auto simp: cfg_list_next_def)
next
  case (Cons s ss)
  obtain j where k: "k = Suc j" using Cons.prems(3) by (cases k) auto
  obtain buf' where b: "cfg_list_next (Some (s @ 10 # rows_text ss)) buf len = Some (Some (rows_text ss), buf', True)"
      "cstr buf' = s" "length buf' = length buf"
    using list_next_line [of s len buf] Cons.prems by auto
  have "next_all j (Some (rows_text ss)) buf' len = Some ss" using Cons.prems k b(3) by (intro Cons.IH) auto
  with b(1,2) k show ?case by simp
qed

text \<open>
  Strings packed one after the other with \<open>cfg_list_pack\<close> into a buffer that has room for them, their line ends and
  the zero, are returned in the same order by \<open>cfg_list_next\<close>, which then returns null, when the buffer of the reader has
  two bytes more than the longest.
\<close>

theorem list_pack_next:
  assumes "\<forall>s\<in>set ss. line_ok s \<and> int (length s) + 2 \<le> len" "len \<le> int (length buf)"
    "int (length (rows_text ss)) < n" "n \<le> int (length m)" "hd m = 0" "length ss < k"
  shows "\<exists>m'. pack_all m 0 n ss = Some (m', int (length (rows_text ss)), n - int (length (rows_text ss))) \<and>
    next_all k (Some (cstr m')) buf len = Some ss"
proof -
  obtain R' where "pack_all m 0 n ss = Some (rows_text ss @ 0 # R', int (length (rows_text ss)), n - int (length (rows_text ss)))"
    using pack_all_text [OF assms(3,4,5), of "[]"] by auto
  moreover have "cstr (rows_text ss @ 0 # R') = rows_text ss"
    using assms(1) by (intro cstr_id(2) rows_no_zero) simp
  ultimately show ?thesis using next_all_text [OF assms(1,2,6)] by simp
qed

lemma list_pack_next_witness:
  "\<exists>m'. pack_all (replicate 20 0) 0 20 [[97, 98], [], [99]] =
      Some (m', int (length (rows_text [[97, 98], [], [99]])), 20 - int (length (rows_text [[97, 98], [], [99]]))) \<and>
    next_all 5 (Some (cstr m')) (replicate 4 9) 4 = Some [[97, 98], [], [99]]"
  by (rule list_pack_next) (simp_all add: line_ok_def)

section \<open>Most recently used\<close>

definition mru_keeps :: "byte list \<Rightarrow> byte list \<Rightarrow> bool" where
  "mru_keeps val s \<longleftrightarrow> s \<noteq> [] \<and> map tolower val \<noteq> map tolower s"

lemma mru_loop_text:
  "\<forall>s\<in>set ss. line_ok s \<and> length s < 4096 \<Longrightarrow>
   int (length (rows_text (take (nat (limit - cnt)) (filter (mru_keeps val) ss)))) < n \<Longrightarrow> n \<le> int (length R) \<Longrightarrow> hd R = 0 \<Longrightarrow>
   \<exists>R'. mru_loop val limit (rows_text ss) cnt (P @ R) (int (length P)) n =
     Some (P @ rows_text (take (nat (limit - cnt)) (filter (mru_keeps val) ss)) @ 0 # R')"
proof (induction ss arbitrary: cnt P R n)
  case Nil
  then show ?case by (cases R) (auto simp: mru_loop.simps)
next
  case (Cons s ss)
  show ?case
  proof (cases "cnt \<ge> limit")
    case True
    with Cons.prems(2-4) show ?thesis by (cases R) (auto simp: mru_loop.simps)
  next
    case False
    have s: "line_ok s" "length s < 4096" using Cons.prems(1) by auto
    have tl: "takeWhile (\<lambda>c. c \<noteq> 10) (s @ 10 # rows_text ss) = s" using s(1) by (simp add: take_line line_ok_def)
    show ?thesis
    proof (cases "mru_keeps val s")
      case True
      obtain j where j: "nat (limit - cnt) = Suc j" "nat (limit - (cnt + 1)) = j" using False by (cases "nat (limit - cnt)") auto
      let ?R = "0 # drop (length s + 2) R"
      have "\<exists>R'. mru_loop val limit (rows_text ss) (cnt + 1) ((P @ s @ [10]) @ ?R) (int (length (P @ s @ [10]))) (n - (int (length s) + 1)) =
          Some ((P @ s @ [10]) @ rows_text (take (nat (limit - (cnt + 1))) (filter (mru_keeps val) ss)) @ 0 # R')"
        using Cons.prems j True by (intro Cons.IH) auto
      moreover have "snprintf_size (P @ R) (int (length P)) n (s @ [10]) = Some ((P @ s @ [10]) @ ?R, int (length s) + 1)"
        using append_line [of s n R P] Cons.prems(2,3) j True by auto
      moreover have "s \<noteq> []" "map tolower val \<noteq> map tolower s" using True by (simp_all add: mru_keeps_def)
      ultimately show ?thesis
        using False s j True by (subst mru_loop.simps) (auto simp: tl algebra_simps)
    next
      case no: False
      then have "mru_loop val limit (rows_text (s # ss)) cnt (P @ R) (int (length P)) n =
          mru_loop val limit (rows_text ss) cnt (P @ R) (int (length P)) n"
        using False s by (subst mru_loop.simps) (auto simp: tl mru_keeps_def)
      with Cons.IH [of cnt n R P] Cons.prems no show ?thesis by simp
    qed
  qed
qed

text \<open>
  \<open>mru\<close> puts the value first and then, up to the limit, the other lines of the old list in their order, without empty
  lines and without the lines that are the value in any case of letters.
\<close>

theorem mru_first:
  assumes "line_ok val" "\<forall>s\<in>set ss. line_ok s \<and> length s < 4096"
    "int (length (rows_text (val # take (nat (limit - 1)) (filter (mru_keeps val) ss)))) < n" "n \<le> int (length m)"
  shows "\<exists>m'. mru (rows_text ss) val m n limit = Some m' \<and>
    cstr m' = rows_text (val # take (nat (limit - 1)) (filter (mru_keeps val) ss))"
proof -
  let ?R = "0 # drop (length val + 2) m" and ?ls = "take (nat (limit - 1)) (filter (mru_keeps val) ss)"
  have "snprintf_size m 0 n (val @ [10]) = Some ((val @ [10]) @ ?R, int (length val) + 1)"
    using append_line [of val n m "[]"] assms(3,4) by simp
  moreover obtain R' where "mru_loop val limit (rows_text ss) 1 ((val @ [10]) @ ?R) (int (length (val @ [10]))) (n - (int (length val) + 1)) =
      Some ((val @ [10]) @ rows_text ?ls @ 0 # R')"
    using mru_loop_text [OF assms(2), of limit 1 val "n - (int (length val) + 1)" ?R "val @ [10]"] assms(3,4) by auto
  moreover have "cstr ((val @ 10 # rows_text ?ls) @ 0 # R') = val @ 10 # rows_text ?ls"
  proof (rule cstr_id(2))
    have "0 \<notin> set (rows_text ?ls)"
      by (rule rows_no_zero) (use assms(2) in \<open>auto dest!: in_set_takeD\<close>)
    with assms(1) show "0 \<notin> set (val @ 10 # rows_text ?ls)" by (simp add: line_ok_def)
  qed
  ultimately show ?thesis by (simp add: mru_def add.commute)
qed

lemma mru_first_witness:
  "\<exists>m'. mru (rows_text [[98], [65], [99], [100]]) [97] (replicate 20 7) 20 3 = Some m' \<and>
    cstr m' = rows_text ([97] # take (nat (3 - 1)) (filter (mru_keeps [97]) [[98], [65], [99], [100]]))"
  by (rule mru_first) (simp_all add: line_ok_def mru_keeps_def tolower_def)

section \<open>Numbers\<close>

definition dec_bytes :: "nat \<Rightarrow> byte list" where
  "dec_bytes n = bytes_of (dec_nat n)"

lemma digit_byte: "d < 10 \<Longrightarrow> (of_char (char_of (48 + d) :: char) :: byte) = of_nat (48 + d)"
proof -
  assume d: "d < 10"
  have "(of_char (char_of (48 + d) :: char) :: byte) = of_nat (of_char (char_of (48 + d) :: char))"
    by (rule of_nat_of_char [symmetric])
  also have "(of_char (char_of (48 + d) :: char) :: nat) = 48 + d" using d by (simp only: of_char_of) simp
  finally show ?thesis .
qed

lemma digit_byte_val: "d < 10 \<Longrightarrow> is_digit (of_nat (48 + d)) \<and> digit_val (of_nat (48 + d)) = int d \<and> ((of_nat (48 + d) :: byte) = 48 \<longleftrightarrow> d = 0)"
proof -
  assume d: "d < 10"
  have "\<forall>d\<in>set [0 ..< 10]. is_digit (of_nat (48 + d)) \<and> digit_val (of_nat (48 + d)) = int d \<and>
      ((of_nat (48 + d) :: byte) = 48 \<longleftrightarrow> d = 0)" by code_simp
  with d show ?thesis by simp
qed

lemma dec_bytes_rec: "dec_bytes n = (if n < 10 then [of_nat (48 + n)] else dec_bytes (n div 10) @ [of_nat (48 + n mod 10)])"
proof (cases "n < 10")
  case True
  then have "dec_nat n = [char_of (48 + n)]" by (subst dec_nat.simps) simp
  then show ?thesis using True by (simp only: dec_bytes_def bytes_of_def list.map digit_byte [OF True] if_True)
next
  case False
  then have "dec_nat n = dec_nat (n div 10) @ [char_of (48 + n mod 10)]" by (subst dec_nat.simps) simp
  moreover have "n mod 10 < 10" by simp
  ultimately show ?thesis
    using False by (simp only: dec_bytes_def bytes_of_def map_append list.map digit_byte if_False)
qed

definition dec_val :: "byte list \<Rightarrow> int" where
  "dec_val ds = foldl (\<lambda>v d. v * 10 + digit_val d) 0 ds"

lemma dec_bytes_facts:
  "dec_bytes n \<noteq> [] \<and> (\<forall>d\<in>set (dec_bytes n). is_digit d) \<and> dec_val (dec_bytes n) = int n \<and> (0 < n \<longrightarrow> hd (dec_bytes n) \<noteq> 48)"
proof (induction n rule: dec_nat.induct)
  case (1 n)
  show ?case
  proof (cases "n < 10")
    case True
    with digit_byte_val [of n] show ?thesis by (simp add: dec_bytes_rec [of n] dec_val_def del: of_nat_add)
  next
    case False
    have "int (n div 10) * 10 + int (n mod 10) = int n"
      by (metis div_mult_mod_eq of_nat_add of_nat_mult of_nat_numeral)
    with False 1 digit_byte_val [of "n mod 10"] show ?thesis
      by (simp add: dec_bytes_rec [of n] dec_val_def hd_append del: of_nat_add)
  qed
qed

lemma decimal_digit: "is_digit d \<Longrightarrow> digit_val d < 10 \<and> 0 \<le> digit_val d \<and> \<not> is_space d \<and> d \<noteq> 0 \<and> d \<noteq> 43 \<and> d \<noteq> 45 \<and> d \<noteq> 120 \<and> d \<noteq> 88"
  by (auto simp: is_digit_def digit_val_def is_space_def word_le_def)

lemma number_base_dec:
  assumes "0 < n"
  shows "number_base 0 (dec_bytes n) = (10, 0)"
  using dec_bytes_facts [of n] assms by (auto simp: number_base_def split: list.splits)

text \<open>The text of an \<open>int\<close>, read back with \<open>strtoul\<close> and stored in an \<open>int\<close>.\<close>

lemma strtoul_dec_nat:
  assumes "int n < 2 ^ 64" "pre = [] \<or> pre = [45]"
  shows "strtoul (pre @ dec_bytes n) 0 = ((if pre = [] then int n else (- int n) mod 2 ^ 64), length pre + length (dec_bytes n))"
proof -
  note f = dec_bytes_facts [of n]
  obtain c r where ds: "dec_bytes n = c # r" using f by (cases "dec_bytes n") auto
  then have c: "is_digit c" using f by simp
  have dv: "\<forall>d\<in>set (dec_bytes n). digit_val d < 10" using f decimal_digit by blast
  obtain b where nb: "number_base 0 (dec_bytes n) = (b, 0)" and tw: "\<forall>d\<in>set (dec_bytes n). digit_val d < b"
    and v: "foldl (\<lambda>v d. v * b + digit_val d) 0 (dec_bytes n) = int n"
  proof (cases "n = 0")
    case True
    then have "dec_bytes n = [48]" by (simp add: dec_bytes_rec)
    then have "number_base 0 (dec_bytes n) = (8, 0)" "\<forall>d\<in>set (dec_bytes n). digit_val d < 8"
        "foldl (\<lambda>v d. v * 8 + digit_val d) 0 (dec_bytes n) = int n"
      using True by (simp_all add: number_base_def digit_val_def is_digit_def)
    then show thesis by (rule that)
  next
    case False
    then show thesis using number_base_dec [of n] f dv by (intro that [of 10]) (simp_all add: dec_val_def)
  qed
  have tw: "takeWhile (\<lambda>d. digit_val d < b) (dec_bytes n) = dec_bytes n" using tw by (simp add: takeWhile_eq_all_conv)
  have sp: "takeWhile is_space (pre @ dec_bytes n) = []" using assms(2) decimal_digit [OF c] by (auto simp: ds is_space_def)
  have ne: "dec_bytes n \<noteq> []" using f by simp
  show ?thesis
  proof (cases "pre = []")
    case True
    have "(case dec_bytes n of c # _ \<Rightarrow> if c = 43 \<or> c = 45 then 1 else 0 | [] \<Rightarrow> 0) = (0 :: nat)" using decimal_digit [OF c] by (simp add: ds)
    with True sp v ne assms(1) show ?thesis by (simp add: strtoul_def Let_def nb tw)
  next
    case False
    with assms sp v ne show ?thesis by (auto simp: strtoul_def Let_def nb tw)
  qed
qed

end
