(* ===== verification/CfgStore.thy ===== *)
theory CfgStore
  imports CfgProps
begin

text \<open>
  The configuration as a store: putting, deleting and getting, in any order, against two maps from keys to values.
\<close>

section \<open>The directories\<close>

text \<open>
  The directory \<open>path_of d cs\<close> can hold the keys \<open>K\<close>: its first component exists, nothing on the way to it or below it is
  in the way.
\<close>

definition holds_keys :: "byte list \<Rightarrow> byte list list \<Rightarrow> byte list set \<Rightarrow> fs \<Rightarrow> bool" where
  "holds_keys d cs K fs \<longleftrightarrow>
     plain (if hd d = 47 then tl d else d) \<and> (\<forall>c\<in>set cs. plain c) \<and> d \<in> set (fs_dirs fs) \<and>
     (\<forall>j\<le>length cs. fs_files fs (path_of d (take j cs)) = None \<and> \<not> fs_locked fs (path_of d (take j cs))) \<and>
     (\<forall>k\<in>K. plain k \<and> path_of d cs @ 47 # k \<notin> set (fs_dirs fs) \<and> \<not> fs_locked fs (path_of d cs @ 47 # k) \<and>
       length (path_of d cs @ 47 # k) < MAX_PATH)"

lemma holds_keys_way: "holds_keys d cs K fs \<Longrightarrow> k \<in> K \<Longrightarrow> way_to fs d (cs @ [k])"
proof -
  assume h: "holds_keys d cs K fs" and k: "k \<in> K"
  have "take j (cs @ [k]) = take j cs" if "j < length (cs @ [k])" for j using that by simp
  then have "clear_way fs d (cs @ [k])" using h by (auto simp: clear_way_def holds_keys_def)
  then show ?thesis using h k by (auto simp: way_to_def holds_keys_def)
qed

lemma path_below: "path_of d (cs @ [k]) = path_of d cs @ 47 # k"
  by (simp add: path_of_append)

lemma path_prefix: "prefix (path_of d (take j cs)) (path_of d cs)"
  by (metis append_take_drop_id path_of_append path_of_def prefixI)

lemma key_not_way: "path_of d cs @ 47 # k \<noteq> path_of d (take j cs)"
proof
  assume "path_of d cs @ 47 # k = path_of d (take j cs)"
  then have "length (path_of d cs @ 47 # k) = length (path_of d (take j cs))" by (rule arg_cong)
  then show False using prefix_length_le [OF path_prefix, of d j cs] by simp
qed

definition apart :: "byte list \<Rightarrow> byte list \<Rightarrow> bool" where
  "apart a b \<longleftrightarrow> \<not> prefix (a @ [47]) (b @ [47]) \<and> \<not> prefix (b @ [47]) (a @ [47])"

lemma apart_keys: "apart a b \<Longrightarrow> a @ 47 # k \<noteq> b @ 47 # k'"
proof
  assume ap: "apart a b" and e: "a @ 47 # k = b @ 47 # k'"
  have "prefix (a @ [47]) (a @ 47 # k)" "prefix (b @ [47]) (a @ 47 # k)"
    by (simp_all add: prefix_def) (use e in auto)
  then show False using ap prefix_same_cases unfolding apart_def by blast
qed

lemma apart_way: "apart a b \<Longrightarrow> prefix p b \<Longrightarrow> a @ 47 # k \<noteq> p"
proof
  assume ap: "apart a b" and p: "prefix p b" "a @ 47 # k = p"
  then have "prefix (a @ [47]) (b @ [47])" by (auto simp: prefix_def)
  with ap show False by (simp add: apart_def)
qed

lemma apart_sym: "apart a b \<Longrightarrow> apart b a"
  by (simp add: apart_def)

section \<open>Putting and getting\<close>

definition value_map :: "fs \<Rightarrow> byte list \<Rightarrow> byte list \<Rightarrow> byte list option" where
  "value_map fs dir k = fs_files fs (dir @ 47 # k)"

lemma cut_path: "length s < MAX_PATH \<Longrightarrow> cut MAX_PATH s = s"
  by (simp add: cut_def)

lemma try_dir_short:
  "length (dir @ 47 # k) < MAX_PATH \<Longrightarrow> try_dir fs dir k =
     (case fs_files fs (dir @ 47 # k) of None \<Rightarrow> (fs\<lparr>fs_errno := ENOENT\<rparr>, dir @ 47 # k, None) | Some v \<Rightarrow> (fs, dir @ 47 # k, Some v))"
  by (simp add: try_dir_def cut_path fs_read_def Let_def split: option.splits)

lemma put_file:
  assumes h: "holds_keys d cs K fs" "k \<in> K" and dir: "put_dir cfg w = path_of d cs"
    and val: "(if len \<ge> 0 then slice val 0 len else if 0 \<in> set val then Some (cstr val) else None) = Some xs"
  shows "\<exists>dirs. cfg_put cfg fs k (Some val) len w =
      Some (fs\<lparr>fs_dirs := dirs, fs_errno := EEXIST, fs_files := (fs_files fs)(path_of d cs @ 47 # k \<mapsto> xs)\<rparr>, int (length xs)) \<and>
    set dirs = set (fs_dirs fs) \<union> (\<lambda>j. path_of d (take j cs)) ` {..length cs}"
proof -
  let ?p = "path_of d cs @ 47 # k"
  obtain dirs where m: "dir_mkpath fs (path_of d (cs @ [k])) False = (fs\<lparr>fs_dirs := dirs, fs_errno := EEXIST\<rparr>, 0)"
      "set dirs = set (fs_dirs fs) \<union> (\<lambda>j. path_of d (take j (cs @ [k]))) ` {..<length (cs @ [k])}"
    using dir_mkpath_dirs [OF holds_keys_way [OF h]] by auto
  have "(\<lambda>j. path_of d (take j (cs @ [k]))) ` {..<length (cs @ [k])} = (\<lambda>j. path_of d (take j cs)) ` {..length cs}"
    by (rule image_cong) auto
  with m(2) have dirs: "set dirs = set (fs_dirs fs) \<union> (\<lambda>j. path_of d (take j cs)) ` {..length cs}" by simp
  let ?fs = "fs\<lparr>fs_dirs := dirs, fs_errno := EEXIST\<rparr>"
  have k: "plain k" "?p \<notin> set (fs_dirs fs)" "\<not> fs_locked fs ?p" "length ?p < MAX_PATH"
    using h by (auto simp: holds_keys_def)
  have "path_of d cs \<noteq> []" using h(1) by (cases d) (auto simp: holds_keys_def plain_def path_of_def)
  then have ne: "put_dir cfg w \<noteq> []" using dir by simp
  have "?p \<notin> (\<lambda>j. path_of d (take j cs)) ` {..length cs}" using key_not_way by blast
  with dirs k(2) have nd: "?p \<notin> set dirs" by simp
  have "path_of d cs \<in> set dirs" unfolding dirs by (intro UnI2 image_eqI [of _ _ "length cs"]) simp_all
  then have ok: "parent_ok ?fs ?p" by (simp add: parent_ok_def parent_dir_append plain_no_slash [OF k(1)])
  have "fs_create ?fs ?p = (?fs\<lparr>fs_files := (fs_files fs)(?p \<mapsto> [])\<rparr>, 0)"
    using nd ok k(3) by (simp add: fs_create_def)
  then have "cfg_put cfg fs k (Some val) len w = Some (?fs\<lparr>fs_files := (fs_files fs)(?p \<mapsto> xs)\<rparr>, int (length xs))"
    using ne dir m(1) val k(4) by (simp add: cfg_put_def cut_path path_below fs_append_def)
  with dirs show ?thesis by blast
qed

text \<open>What a buffer of \<open>len\<close> bytes shows of a value: one that does not fit with its zero loses bytes.\<close>

definition read_back :: "nat \<Rightarrow> byte list \<Rightarrow> byte list" where
  "read_back len v = (if length v < len then v else take (len - 1) v @ [0])"

lemma take_last_zero: "0 < len \<Longrightarrow> len \<le> length v \<Longrightarrow> (take len v)[len - 1 := 0] = take (len - 1) v @ [0]"
  by (cases len) (simp_all add: take_Suc_conv_app_nth list_update_append)

lemma get_file:
  assumes "0 < len" "length buf = len"
    "open_first cfg fs k = (fs', p, f)"
  shows "\<exists>buf'. cfg_get cfg fs k (Some buf) (int len) =
      Some (fs', buf', case f of None \<Rightarrow> 0 | Some v \<Rightarrow> int (min len (length v))) \<and>
    length buf' = len \<and> (f = None \<longrightarrow> buf' ! 0 = 0) \<and>
    (\<forall>v. f = Some v \<longrightarrow> take (min len (length v)) buf' = read_back len v \<and> (length v < len \<longrightarrow> buf' ! length v = 0))"
proof -
  have w: "wr8 buf 0 0 = Some (buf[0 := 0])" using assms by (simp add: wr8_def mem_put_def)
  show ?thesis
  proof (cases f)
    case None
    then show ?thesis using assms w
      by (auto simp: cfg_get_def cfg_get_val_or_path_def intro!: exI [of _ "buf[0 := 0]"])
  next
    case (Some v)
    let ?x = "take len v" and ?b = "buf[0 := 0]"
    let ?m = "?x @ drop (length ?x) ?b" and ?i = "if length v < len then length v else len - 1"
    have b: "blit ?b 0 ?x = Some ?m" using assms(2) by (simp add: blit_def)
    have l: "length ?m = len" using assms(2) by simp
    have i: "(if int (length ?x) < int len then int (length ?x) else int len - 1) = int ?i" using assms(1) by auto
    have z: "wr8 ?m (int ?i) 0 = Some (?m[?i := 0])" using l assms(1) by (simp add: wr8_def mem_put_def)
    have "cfg_get cfg fs k (Some buf) (int len) = do { val \<leftarrow> blit ?b 0 ?x;
        val \<leftarrow> wr8 val (if int (length ?x) < int len then int (length ?x) else int len - 1) 0; Some (fs', val, int (length ?x)) }"
      using Some assms(3) w by (simp add: cfg_get_def cfg_get_val_or_path_def Let_def)
    then have "cfg_get cfg fs k (Some buf) (int len) = Some (fs', ?m[?i := 0], int (min len (length v)))"
      unfolding b i Option.bind.simps z by (simp add: min.commute)
    moreover have "take (min len (length v)) (?m[?i := 0]) = read_back len v"
    proof (cases "length v < len")
      case False
      then show ?thesis using assms take_last_zero [of len v] by (simp add: read_back_def min_def)
    qed (simp add: read_back_def list_update_append)
    moreover have "length v < len \<Longrightarrow> (?m[?i := 0]) ! length v = 0" using l by simp
    ultimately show ?thesis using l Some by (intro exI [of _ "?m[?i := 0]"]) simp
  qed
qed

lemma dec_bytes_length: "n < 10 ^ k \<Longrightarrow> 0 < k \<Longrightarrow> length (dec_bytes n) \<le> k"
proof (induction k arbitrary: n)
  case (Suc k)
  show ?case
  proof (cases "n < 10")
    case False
    with Suc.prems have "0 < k" by (cases k) auto
    moreover have "n div 10 < 10 ^ k" using Suc.prems(1) by (simp add: less_mult_imp_div_less)
    ultimately show ?thesis using Suc.IH [of "n div 10"] False by (simp add: dec_bytes_rec [of n])
  qed (simp add: dec_bytes_rec [of n])
qed simp

lemma to_i32_mod: "to_i32 (x mod 2 ^ 64) = to_i32 x"
proof -
  have "(word_of_int (x mod 2 ^ 64) :: 32 word) = word_of_int x"
    by (simp add: word_of_int_eq_iff take_bit_eq_mod mod_mod_cancel)
  then show ?thesis by (simp add: to_i32_def)
qed

text \<open>
  Every number of an \<open>int\<close> that \<open>cfg_put_int\<close> stores is the one that \<open>cfg_get_int\<close> finds, with a status above zero, as long as
  no file of the user hides it.
\<close>

theorem int_put_get:
  assumes "holds_keys d cs {k} fs" "put_dir cfg w = path_of d cs" "w = CFG_PUT_GLOBAL \<longrightarrow> user_dir cfg = []"
    "- (2 ^ 31) \<le> v" "v < 2 ^ 31"
  shows "\<exists>fs' n. cfg_put_int cfg fs k v w = Some (fs', n) \<and> cfg_get_int cfg fs' k = Some (fs', v, n) \<and> 0 < n"
proof -
  define s where "s = bytes_of (dec_int v)"
  let ?pre = "if v < 0 then [45] else [] :: byte list" and ?n = "nat (abs v)"
  have s: "s = ?pre @ dec_bytes ?n" by (simp add: s_def dec_int_def dec_bytes_def bytes_of_def)
  have d: "dec_bytes ?n \<noteq> []" "\<forall>c\<in>set (dec_bytes ?n). is_digit c" using dec_bytes_facts [of ?n] by auto
  have nz: "0 \<notin> set s" using d(2) decimal_digit by (auto simp: s)
  have "?n < 10 ^ 10" using assms(4,5) by simp
  then have len: "0 < length s" "length s < 1024"
    using d(1) dec_bytes_length [of ?n 10] by (auto simp: s)
  let ?p = "path_of d cs @ 47 # k"
  obtain dirs where p: "cfg_put cfg fs k (Some (s @ [0])) (int (length s)) w =
      Some (fs\<lparr>fs_dirs := dirs, fs_errno := EEXIST, fs_files := (fs_files fs)(?p \<mapsto> s)\<rparr>, int (length s))"
    using put_file [OF assms(1) _ assms(2), of k "int (length s)" "s @ [0]" s] by (auto simp: slice_def)
  let ?fs = "fs\<lparr>fs_dirs := dirs, fs_errno := EEXIST, fs_files := (fs_files fs)(?p \<mapsto> s)\<rparr>"
  have ne: "path_of d cs \<noteq> []" "length ?p < MAX_PATH" 
    using assms(1) by (cases d; auto simp: holds_keys_def plain_def path_of_def)+
  have "open_first cfg ?fs k = (?fs, ?p, Some s)"
    using assms(2,3) ne by (cases w) (auto simp: open_first_def try_dir_short put_dir_def)
  from get_file [OF _ _ this, of 1024 "replicate 1024 0"] len(2) obtain buf where
    g: "cfg_get cfg ?fs k (Some (replicate 1024 0)) 1024 = Some (?fs, buf, int (length s))" "length buf = 1024"
      "take (length s) buf = s" "buf ! length s = 0"
    by (auto simp: read_back_def min_def)
  have "buf = s @ 0 # drop (length s + 1) buf"
    using g(2-4) len(2) by (metis Cons_nth_drop_Suc Suc_eq_plus1 append_take_drop_id)
  then have c: "cstr buf = s" by (metis cstr_id(2) nz)
  have "int ?n < 2 ^ 64" using assms(4,5) by auto
  then have "strtoul s 0 = (if v < 0 then (- int ?n) mod 2 ^ 64 else int ?n, length s)"
    using strtoul_dec_nat [of ?n ?pre] by (auto simp: s)
  moreover have "to_i32 (if v < 0 then (- int ?n) mod 2 ^ 64 else int ?n) = v"
    using to_i32_id [OF assms(4,5)] to_i32_mod [of v] by auto
  ultimately have "cfg_get_int cfg ?fs k = Some (?fs, v, int (length s))"
    using g(1) c len(1) by (simp add: cfg_get_int_def)
  then show ?thesis using p len(1) by (auto simp: cfg_put_int_def Let_def s_def)
qed

lemma int_put_get_witness:
  "\<exists>fs' n. cfg_put_int \<lparr>app_name = [97], etc_dir = [], user_dir = [47, 104, 47, 97], var_dir = [], log_dir = []\<rparr>
       \<lparr>fs_files = \<lambda>_. None, fs_dirs = [[47, 104]], fs_locked = \<lambda>_. False, fs_errno = 0\<rparr> [107] (- 12) CFG_PUT_USER = Some (fs', n) \<and>
    cfg_get_int \<lparr>app_name = [97], etc_dir = [], user_dir = [47, 104, 47, 97], var_dir = [], log_dir = []\<rparr> fs' [107] = Some (fs', - 12, n) \<and> 0 < n"
  by (rule int_put_get [where d = "[47, 104]" and cs = "[[97]]"])
    (simp_all add: holds_keys_def plain_def path_sep_def put_dir_def MAX_PATH_def)

section \<open>Any history\<close>

datatype cfg_op = Put cfg_put_where_t "byte list" "byte list" | Del cfg_put_where_t "byte list" | Get "byte list"

datatype cfg_out = Status int | Value "byte list"

fun op_key :: "cfg_op \<Rightarrow> byte list" where
  "op_key (Put w k v) = k"
| "op_key (Del w k) = k"
| "op_key (Get k) = k"

fun cfg_step :: "cfg_t \<Rightarrow> nat \<Rightarrow> fs \<Rightarrow> cfg_op \<Rightarrow> (fs \<times> cfg_out) option" where
  "cfg_step cfg len fs (Put w k v) = do { (fs, i) \<leftarrow> cfg_put cfg fs k (Some v) (int (length v)) w; Some (fs, Status i) }"
| "cfg_step cfg len fs (Del w k) = do { (fs, i) \<leftarrow> cfg_put cfg fs k None 0 w; Some (fs, Status i) }"
| "cfg_step cfg len fs (Get k) =
     do { (fs, buf, n) \<leftarrow> cfg_get cfg fs k (Some (replicate len 0)) (int len); Some (fs, Value (take (nat n) buf)) }"

fun cfg_run :: "cfg_t \<Rightarrow> nat \<Rightarrow> fs \<Rightarrow> cfg_op list \<Rightarrow> (fs \<times> cfg_out list) option" where
  "cfg_run cfg len fs [] = Some (fs, [])"
| "cfg_run cfg len fs (x # xs) =
     do { (fs, y) \<leftarrow> cfg_step cfg len fs x; (fs, ys) \<leftarrow> cfg_run cfg len fs xs; Some (fs, y # ys) }"

type_synonym store = "byte list \<Rightarrow> byte list option"

text \<open>The two maps, of the user and of the system: a value of the user hides one of the system.\<close>

fun store_step :: "nat \<Rightarrow> store \<times> store \<Rightarrow> cfg_op \<Rightarrow> (store \<times> store) \<times> cfg_out" where
  "store_step len (u, g) (Put w k v) =
     ((if w = CFG_PUT_USER then (u(k \<mapsto> v), g) else (u, g(k \<mapsto> v))), Status (int (length v)))"
| "store_step len (u, g) (Del w k) =
     ((if w = CFG_PUT_USER then (u(k := None), g) else (u, g(k := None))), Status 0)"
| "store_step len (u, g) (Get k) =
     ((u, g), Value (case u k of Some v \<Rightarrow> read_back len v | None \<Rightarrow> (case g k of Some v \<Rightarrow> read_back len v | None \<Rightarrow> [])))"

fun store_run :: "nat \<Rightarrow> store \<times> store \<Rightarrow> cfg_op list \<Rightarrow> cfg_out list" where
  "store_run len s [] = []"
| "store_run len s (x # xs) = (let (s, y) = store_step len s x in y # store_run len s xs)"

definition cfg_ready :: "cfg_t \<Rightarrow> byte list \<times> byte list list \<Rightarrow> byte list \<times> byte list list \<Rightarrow> byte list set \<Rightarrow> fs \<Rightarrow> bool" where
  "cfg_ready cfg du de K fs \<longleftrightarrow>
     user_dir cfg = path_of (fst du) (snd du) \<and> etc_dir cfg = path_of (fst de) (snd de) \<and>
     holds_keys (fst du) (snd du) K fs \<and> holds_keys (fst de) (snd de) K fs \<and> apart (user_dir cfg) (etc_dir cfg)"

definition stored_as :: "cfg_t \<Rightarrow> byte list set \<Rightarrow> fs \<Rightarrow> store \<times> store \<Rightarrow> bool" where
  "stored_as cfg K fs s \<longleftrightarrow>
     (\<forall>k\<in>K. fst s k = fs_files fs (user_dir cfg @ 47 # k) \<and> snd s k = fs_files fs (etc_dir cfg @ 47 # k))"

text \<open>A file of one directory, and the directories on the way to it, change nothing for the keys of either directory.\<close>

lemma holds_keys_put:
  assumes h: "holds_keys d cs K fs" and h': "holds_keys d' cs' K fs" and k: "k \<in> K"
    and ap: "d' = d \<and> cs' = cs \<or> apart (path_of d cs) (path_of d' cs')"
    and dirs: "set dirs = set (fs_dirs fs) \<union> (\<lambda>j. path_of d (take j cs)) ` {..length cs}"
  shows "holds_keys d' cs' K (fs\<lparr>fs_dirs := dirs, fs_errno := e, fs_files := (fs_files fs)(path_of d cs @ 47 # k \<mapsto> xs)\<rparr>)"
proof -
  have ff: "path_of d' (take j cs') \<noteq> path_of d cs @ 47 # k" for j
    using ap
  proof
    assume "d' = d \<and> cs' = cs"
    then show ?thesis using key_not_way by metis
  next
    assume "apart (path_of d cs) (path_of d' cs')"
    from apart_way [OF this path_prefix] show ?thesis by metis
  qed
  have dir: "path_of d' cs' @ 47 # k' \<noteq> path_of d (take j cs)" for j k'
    using ap
  proof
    assume "d' = d \<and> cs' = cs"
    then show ?thesis using key_not_way by metis
  next
    assume "apart (path_of d cs) (path_of d' cs')"
    from apart_way [OF apart_sym [OF this] path_prefix] show ?thesis .
  qed
  show ?thesis using h' ff dir dirs by (auto simp: holds_keys_def)
qed

lemma holds_keys_less:
  "holds_keys d cs K fs \<Longrightarrow> holds_keys d cs K (fs\<lparr>fs_errno := e\<rparr>)"
  "holds_keys d cs K fs \<Longrightarrow> holds_keys d cs K (fs\<lparr>fs_files := (fs_files fs)(p := None)\<rparr>)"
  by (auto simp: holds_keys_def)

lemma put_step:
  assumes r: "cfg_ready cfg du de K fs" and k: "k \<in> K"
    and dir: "(w = CFG_PUT_USER \<and> d = fst du \<and> cs = snd du) \<or> (w = CFG_PUT_GLOBAL \<and> d = fst de \<and> cs = snd de)"
  shows "\<exists>dirs. cfg_put cfg fs k (Some v) (int (length v)) w =
      Some (fs\<lparr>fs_dirs := dirs, fs_errno := EEXIST, fs_files := (fs_files fs)(path_of d cs @ 47 # k \<mapsto> v)\<rparr>, int (length v)) \<and>
    cfg_ready cfg du de K (fs\<lparr>fs_dirs := dirs, fs_errno := EEXIST, fs_files := (fs_files fs)(path_of d cs @ 47 # k \<mapsto> v)\<rparr>)"
proof -
  have h: "holds_keys d cs K fs" "put_dir cfg w = path_of d cs" 
    using r dir by (auto simp: cfg_ready_def put_dir_def)
  obtain dirs where p: "cfg_put cfg fs k (Some v) (int (length v)) w =
      Some (fs\<lparr>fs_dirs := dirs, fs_errno := EEXIST, fs_files := (fs_files fs)(path_of d cs @ 47 # k \<mapsto> v)\<rparr>, int (length v))"
      "set dirs = set (fs_dirs fs) \<union> (\<lambda>j. path_of d (take j cs)) ` {..length cs}"
    using put_file [OF h(1) k h(2), of "int (length v)" v v] by (auto simp: slice_all)
  have u: "holds_keys (fst du) (snd du) K (fs\<lparr>fs_dirs := dirs, fs_errno := EEXIST, fs_files := (fs_files fs)(path_of d cs @ 47 # k \<mapsto> v)\<rparr>)"
    by (rule holds_keys_put [OF h(1) _ k _ p(2)]) (use r dir in \<open>auto simp: cfg_ready_def intro: apart_sym\<close>)
  have e: "holds_keys (fst de) (snd de) K (fs\<lparr>fs_dirs := dirs, fs_errno := EEXIST, fs_files := (fs_files fs)(path_of d cs @ 47 # k \<mapsto> v)\<rparr>)"
    by (rule holds_keys_put [OF h(1) _ k _ p(2)]) (use r dir in \<open>auto simp: cfg_ready_def intro: apart_sym\<close>)
  from u e p(1) r show ?thesis by (auto simp: cfg_ready_def)
qed

lemma del_step:
  assumes r: "cfg_ready cfg du de K fs" and k: "k \<in> K"
  shows "\<exists>fs'. cfg_put cfg fs k None 0 w = Some (fs', 0) \<and> cfg_ready cfg du de K fs' \<and>
    fs_files fs' = (fs_files fs)(put_dir cfg w @ 47 # k := None)"
proof -
  let ?p = "put_dir cfg w @ 47 # k"
  obtain d cs where h: "holds_keys d cs K fs" "put_dir cfg w = path_of d cs"
    using r by (cases w) (auto simp: cfg_ready_def put_dir_def)
  have f: "put_dir cfg w \<noteq> []" "\<not> fs_locked fs ?p" "length ?p < MAX_PATH"
    using h k by (cases d; auto simp: holds_keys_def plain_def path_of_def)+
  then have "cfg_put cfg fs k None 0 w = Some (fs_unlink fs ?p, 0)" by (simp add: cfg_put_def cut_path)
  moreover have "cfg_ready cfg du de K (fs_unlink fs ?p)"
    using r f(2) holds_keys_less by (auto simp: cfg_ready_def fs_unlink_def)
  moreover have "fs_files (fs_unlink fs ?p) = (fs_files fs)(?p := None)"
    using f(2) by (auto simp: fs_unlink_def)
  ultimately show ?thesis by blast
qed

lemma get_step:
  assumes r: "cfg_ready cfg du de K fs" and k: "k \<in> K" and len: "0 < len"
  shows "\<exists>fs' buf n. cfg_get cfg fs k (Some (replicate len 0)) (int len) = Some (fs', buf, n) \<and> cfg_ready cfg du de K fs' \<and>
    fs_files fs' = fs_files fs \<and>
    take (nat n) buf = (case fs_files fs (user_dir cfg @ 47 # k) of Some v \<Rightarrow> read_back len v
      | None \<Rightarrow> (case fs_files fs (etc_dir cfg @ 47 # k) of Some v \<Rightarrow> read_back len v | None \<Rightarrow> []))"
proof -
  have ne: "user_dir cfg \<noteq> []" "etc_dir cfg \<noteq> []"
    using r by (cases "fst du"; cases "fst de"; auto simp: cfg_ready_def holds_keys_def plain_def path_of_def)+
  have short: "length (user_dir cfg @ 47 # k) < MAX_PATH" "length (etc_dir cfg @ 47 # k) < MAX_PATH"
    using r k by (auto simp: cfg_ready_def holds_keys_def)
  obtain fs' p f where o: "open_first cfg fs k = (fs', p, f)" by (cases "open_first cfg fs k") auto
  then have f: "f = (case fs_files fs (user_dir cfg @ 47 # k) of Some v \<Rightarrow> Some v | None \<Rightarrow> fs_files fs (etc_dir cfg @ 47 # k))"
      "fs_files fs' = fs_files fs" "fs' = fs\<lparr>fs_errno := fs_errno fs'\<rparr>"
    using ne short by (auto simp: open_first_def try_dir_short split: option.splits if_splits)
  obtain buf where g: "cfg_get cfg fs k (Some (replicate len 0)) (int len) =
      Some (fs', buf, case f of None \<Rightarrow> 0 | Some v \<Rightarrow> int (min len (length v)))"
      "\<forall>v. f = Some v \<longrightarrow> take (min len (length v)) buf = read_back len v"
    using get_file [OF len _ o, of "replicate len 0"] by auto
  have "cfg_ready cfg du de K fs'" using r holds_keys_less(1) by (subst f(3)) (auto simp: cfg_ready_def)
  moreover have "take (nat (case f of None \<Rightarrow> 0 | Some v \<Rightarrow> int (min len (length v)))) buf =
      (case fs_files fs (user_dir cfg @ 47 # k) of Some v \<Rightarrow> read_back len v
      | None \<Rightarrow> (case fs_files fs (etc_dir cfg @ 47 # k) of Some v \<Rightarrow> read_back len v | None \<Rightarrow> []))"
    using f(1) g(2) by (auto split: option.splits)
  ultimately show ?thesis using g(1) f(2) by blast
qed

lemma keys_differ:
  "cfg_ready cfg du de K fs \<Longrightarrow> user_dir cfg @ 47 # k \<noteq> etc_dir cfg @ 47 # k'"
  proof -
  assume "cfg_ready cfg du de K fs"
  then have "apart (user_dir cfg) (etc_dir cfg)" unfolding cfg_ready_def by blast
  then show ?thesis by (rule apart_keys)
qed

lemma step_stored:
  assumes r: "cfg_ready cfg du de K fs" "stored_as cfg K fs s" and x: "op_key x \<in> K" and len: "0 < len"
  shows "\<exists>fs'. cfg_step cfg len fs x = Some (fs', snd (store_step len s x)) \<and> cfg_ready cfg du de K fs' \<and>
    stored_as cfg K fs' (fst (store_step len s x))"
proof (cases x)
  case (Put w k v)
  have dirs: "user_dir cfg = path_of (fst du) (snd du)" "etc_dir cfg = path_of (fst de) (snd de)"
    using r(1) by (simp_all add: cfg_ready_def)
  have k: "k \<in> K" using x Put by simp
  note ne = keys_differ [OF r(1)] keys_differ [OF r(1), symmetric]
  show ?thesis
  proof (cases w)
    case CFG_PUT_USER
    with put_step [OF r(1) k, of w "fst du" "snd du" v] r(2) Put ne dirs show ?thesis
      by (cases s) (auto simp: stored_as_def)
  next
    case CFG_PUT_GLOBAL
    with put_step [OF r(1) k, of w "fst de" "snd de" v] r(2) Put ne dirs show ?thesis
      by (cases s) (auto simp: stored_as_def)
  qed
next
  case (Del w k)
  have k: "k \<in> K" using x Del by simp
  from del_step [OF r(1) k, of w] r(2) Del keys_differ [OF r(1)] keys_differ [OF r(1), symmetric] show ?thesis
    by (cases s; cases w) (auto simp: stored_as_def put_dir_def)
next
  case (Get k)
  have k: "k \<in> K" using x Get by simp
  from get_step [OF r(1) k len] r(2) Get k show ?thesis
    by (cases s) (auto simp: stored_as_def split: option.splits)
qed

lemma run_stored:
  "cfg_ready cfg du de K fs \<Longrightarrow> stored_as cfg K fs s \<Longrightarrow> \<forall>x\<in>set xs. op_key x \<in> K \<Longrightarrow> 0 < len \<Longrightarrow>
   \<exists>fs'. cfg_run cfg len fs xs = Some (fs', store_run len s xs)"
proof (induction xs arbitrary: fs s)
  case (Cons x xs)
  from step_stored [OF Cons.prems(1,2) _ Cons.prems(4), of x] Cons.prems(3) obtain fs1 where
    s: "cfg_step cfg len fs x = Some (fs1, snd (store_step len s x))" "cfg_ready cfg du de K fs1"
      "stored_as cfg K fs1 (fst (store_step len s x))" by auto
  from Cons.IH [OF s(2,3) _ Cons.prems(4)] Cons.prems(3) s(1) show ?case by (auto simp: split_def Let_def)
qed simp

text \<open>
  C29. Whatever sequence of puts, deletions and gets of keys: the statuses and the values are those of two maps, one of the
  user and one of the system, that begin with the files already there, where a value of the user hides the one of the
  system. The directories are made when they are missing; neither lies below the other, and nothing on the way is locked
  or a file.
\<close>

theorem cfg_history:
  assumes "cfg_ready cfg du de (set (map op_key xs)) fs" "0 < len"
  shows "\<exists>fs'. cfg_run cfg len fs xs = Some (fs', store_run len (value_map fs (user_dir cfg), value_map fs (etc_dir cfg)) xs)"
  by (rule run_stored [OF assms(1) _ _ assms(2)]) (auto simp: stored_as_def value_map_def)

definition sample_cfg :: cfg_t where
  "sample_cfg = \<lparr>app_name = [97], etc_dir = [47, 101, 47, 97], user_dir = [47, 104, 47, 46, 97], var_dir = [], log_dir = []\<rparr>"

definition sample_fs :: fs where
  "sample_fs = \<lparr>fs_files = [[47, 101, 47, 97, 47, 107] \<mapsto> [53]], fs_dirs = [[47, 104], [47, 101], [47, 101, 47, 97]],
     fs_locked = \<lambda>_. False, fs_errno = 0\<rparr>"

definition sample_ops :: "cfg_op list" where
  "sample_ops = [Get [107], Put CFG_PUT_USER [107] [49, 50], Get [107], Del CFG_PUT_USER [107], Get [107], Get [120]]"

lemma cfg_history_witness:
  "\<exists>fs'. cfg_run sample_cfg 8 sample_fs sample_ops =
    Some (fs', store_run 8 (value_map sample_fs (user_dir sample_cfg), value_map sample_fs (etc_dir sample_cfg)) sample_ops)"
  by (rule cfg_history [where du = "([47, 104], [[46, 97]])" and de = "([47, 101], [[97]])"])
    (simp_all add: cfg_ready_def holds_keys_def plain_def path_sep_def MAX_PATH_def apart_def sample_cfg_def sample_fs_def
      sample_ops_def take_Cons')

end
