(* ===== verification/HttpPart.thy ===== *)
theory HttpPart
  imports HttpProps
begin

text \<open>
  Headers that have arrived in part: the parser is called on a buffer whose first bytes are those of a message and whose
  other bytes are anything. It asks for more until the header is complete, wherever the data is cut.
\<close>

definition agree :: "nat \<Rightarrow> mem \<Rightarrow> mem \<Rightarrow> bool" where
  "agree j m m' \<longleftrightarrow> take j m = take j m' \<and> j \<le> length m \<and> j \<le> length m'"

lemma agree_slice:
  assumes a: "agree j m m'" "off + n \<le> int j"
  shows "slice m off n = slice m' off n"
proof (cases "0 \<le> off \<and> 0 \<le> n")
  case True
  then have "nat n \<le> j - nat off" using a(2) by linarith
  then have t: "take (nat n) (drop (nat off) x) = take (nat n) (drop (nat off) (take j x))" for x :: mem
    by (simp add: drop_take)
  have "take j m = take j m'" using a(1) by (simp add: agree_def)
  then have "take (nat n) (drop (nat off) m) = take (nat n) (drop (nat off) m')" using t [of m] t [of m'] by simp
  then show ?thesis using a True by (simp add: slice_def agree_def)
qed (auto simp: slice_def)

lemma agree_rd8:
  assumes a: "agree j m m'" "p < int j"
  shows "rd8 m p = rd8 m' p"
proof (cases "0 \<le> p")
  case True
  then have i: "nat p < j" using a(2) by linarith
  have "m ! nat p = take j m ! nat p" using i by simp
  also have "\<dots> = take j m' ! nat p" using a(1) by (simp only: agree_def)
  also have "\<dots> = m' ! nat p" using i by simp
  finally show ?thesis using a True by (simp add: agree_def rd8_def mem_get_def)
qed (simp add: rd8_def mem_get_def)

lemma agree_at_mem: "agree j m m' \<Longrightarrow> at_mem m p xs \<Longrightarrow> p + int (length xs) \<le> int j \<Longrightarrow> at_mem m' p xs"
proof -
  assume a: "agree j m m'" "at_mem m p xs" "p + int (length xs) \<le> int j"
  then have "slice m p (int (length xs)) = Some xs" by (auto simp: at_mem_def slice_def)
  then have s: "slice m' p (int (length xs)) = Some xs" using agree_slice [OF a(1,3)] by simp
  then have p: "0 \<le> p" "xs = take (length xs) (drop (nat p) m')" "nat p \<le> length m'" by (auto simp: slice_def split: if_splits)
  have "m' = take (nat p) m' @ xs @ drop (length xs) (drop (nat p) m')"
    by (metis append_take_drop_id p(2))
  then show ?thesis unfolding at_mem_def using p(1,3) by (metis int_nat_eq length_take min.absorb2)
qed

text \<open>Once the first words have been read, the code of a response is not read again.\<close>

definition late :: "parse_state \<Rightarrow> bool" where
  "late st \<longleftrightarrow> ps_state st \<notin> {HTTP_STATE_INIT, HTTP_STATE_OP, HTTP_STATE_RESPONSE_CODE} \<and>
     (ps_state st = HTTP_STATE_SPACE \<longrightarrow> ps_next st \<notin> {HTTP_STATE_INIT, HTTP_STATE_OP, HTTP_STATE_RESPONSE_CODE, HTTP_STATE_SPACE})"

lemma visit_late:
  assumes "parse_visit m p c st = Some st'" "late st" "ps_state st \<noteq> HTTP_STATE_SPACE"
  shows "late st'"
  using assms by (cases "ps_state st")
    (auto simp: late_def parse_visit_def parse_error_def go_space_def Let_def option_bind_Some split: if_splits)

lemma step_late:
  assumes "parse_step m p st = Some st'" "late st"
  shows "late st'"
proof -
  obtain c where c: "rd8 m p = Some c" using assms(1) by (auto simp: parse_step_def option_bind_Some)
  let ?s = "count_line p c st"
  have l: "late ?s" "ps_state ?s = ps_state st" "ps_next ?s = ps_next st" using assms(2) by (auto simp: late_def count_line_def)
  let ?t = "count_line p c (?s\<lparr>ps_state := ps_next ?s, ps_word := Some p\<rparr>)"
  have t: "ps_state st = HTTP_STATE_SPACE \<Longrightarrow> late ?t \<and> ps_state ?t \<noteq> HTTP_STATE_SPACE"
    using assms(2) by (auto simp: late_def count_line_def)
  consider "c = 13" | "c \<noteq> 13" "ps_state st = HTTP_STATE_SPACE" | "c \<noteq> 13" "ps_state st \<noteq> HTTP_STATE_SPACE" by blast
  then show ?thesis
  proof cases
    case 1
    with assms c show ?thesis by (simp add: parse_step_def)
  next
    case 2
    then have "st' = ?s \<or> parse_visit m p c ?t = Some st'"
      using assms(1) c l(2) by (auto simp: parse_step_def Let_def split: if_splits)
    with l(1) t 2(2) visit_late [of m p c ?t st'] show ?thesis by blast
  next
    case 3
    then have "parse_visit m p c ?s = Some st'"
      using assms l(2) c by (cases "ps_state st") (simp_all add: parse_step_def Let_def late_def)
    with l(1,2) 3(2) visit_late [of m p c ?s st'] show ?thesis by simp
  qed
qed

lemma agree_visit:
  assumes "agree j m m'" "p \<le> int j" "ps_state st \<noteq> HTTP_STATE_RESPONSE_CODE"
  shows "parse_visit m p c st = parse_visit m' p c st"
proof -
  have "get_word m p s = get_word m' p s" for s
    unfolding get_word_def http_strdup_def using agree_slice [OF assms(1)] assms(2) by (cases "ps_word s") auto
  then show ?thesis using assms(3) by (cases "ps_state st") (simp_all add: parse_visit_def Let_def)
qed

lemma agree_step:
  assumes "agree j m m'" "p < int j" "late st"
  shows "parse_step m p st = parse_step m' p st"
  unfolding parse_step_def agree_rd8 [OF assms(1,2)]
  using agree_visit [OF assms(1), of p] assms(2,3)
  by (cases "rd8 m' p"; cases "ps_state st") (auto simp: late_def count_line_def Let_def)

lemma agree_loop:
  "agree j m m' \<Longrightarrow> late st \<Longrightarrow> p + int k \<le> int j \<Longrightarrow> parse_loop m p k st = parse_loop m' p k st"
proof (induction k arbitrary: p st)
  case (Suc k)
  show ?case
  proof (cases "live st")
    case True
    have s: "parse_step m p st = parse_step m' p st" using Suc.prems by (intro agree_step) auto
    show ?thesis
    proof (cases "parse_step m p st")
      case (Some st')
      have "parse_loop m (p + 1) k st' = parse_loop m' (p + 1) k st'"
        using Suc.prems(3) by (intro Suc.IH [OF Suc.prems(1) step_late [OF Some Suc.prems(2)]]) simp
      moreover have "parse_step m' p st = Some st'" using s Some by simp
      ultimately show ?thesis using Some by simp
    qed (use s True in \<open>simp add: live_def\<close>)
  qed (simp add: parse_loop_stopped del: parse_loop.simps)
qed simp

text \<open>
  The parser on a message cut to \<open>j\<close> bytes, after the part \<open>front\<close> of its start line was read in both memories.
\<close>

lemma cut_behind:
  assumes T: "message_at T line hs http pool n" and j: "length front \<le> j" "j < n" and a: "agree j T m"
    and r: "runs T 0 front (parse_start (http_zero\<lparr>h_pool := Some pool\<rparr>)) st"
      "runs m 0 front (parse_start (http_zero\<lparr>h_pool := Some pool\<rparr>)) st" and l: "late st"
    and h: "h_pool h = Some pool"
  shows "http_header_parse h m j = Some (http_zero\<lparr>h_pool := Some pool\<rparr>, 0)"
proof -
  let ?start = "parse_start (http_zero\<lparr>h_pool := Some pool\<rparr>)"
  obtain k where k: "j = length front + k" using j(1) le_Suc_ex by blast
  have "parse_loop x 0 j ?start = parse_loop x (0 + int (length front)) k st" if "runs x 0 front ?start st" for x
    using that unfolding runs_def k by blast
  with r have "parse_loop m 0 j ?start = parse_loop m (int (length front)) k st"
    "parse_loop T 0 j ?start = parse_loop T (int (length front)) k st" by simp_all
  moreover have "parse_loop T (int (length front)) k st = parse_loop m (int (length front)) k st"
    by (rule agree_loop [OF a l]) (simp add: k)
  moreover from message_live [OF T j(2)] obtain st' where "parse_loop T 0 j ?start = Some (int j, st')" "live st'" by blast
  ultimately have "parse_loop m 0 j ?start = Some (int j, st')" by simp
  then show ?thesis by (rule incomplete_if_live [OF h \<open>live st'\<close>])
qed

lemma cut_within:
  assumes "runs m 0 front (parse_start (http_zero\<lparr>h_pool := Some pool\<rparr>)) st" "live st" "h_pool h = Some pool"
  shows "http_header_parse h m (length front) = Some (http_zero\<lparr>h_pool := Some pool\<rparr>, 0)"
proof (rule incomplete_if_live [OF assms(3,2)])
  from assms(1) have "parse_loop m 0 (length front + 0) (parse_start (http_zero\<lparr>h_pool := Some pool\<rparr>)) =
      parse_loop m (0 + int (length front)) 0 st" unfolding runs_def by blast
  then show "parse_loop m 0 (length front) (parse_start (http_zero\<lparr>h_pool := Some pool\<rparr>)) = Some (int (length front), st)" by simp
qed

lemma token_take: "token_ok t \<Longrightarrow> 0 < j \<Longrightarrow> token_ok (take j t)"
  by (auto simp: token_ok_def dest: in_set_takeD)

lemma at_mem_take: "at_mem m 0 xs \<Longrightarrow> at_mem m 0 (take j xs)"
  by (metis append_take_drop_id at_mem_append)

text \<open>Cut within the first word.\<close>

lemma cut_first_word:
  assumes "token_ok t" "j \<le> length t" "at_mem m 0 (take j t)" "h_pool h = Some pool"
  shows "http_header_parse h m j = Some (http_zero\<lparr>h_pool := Some pool\<rparr>, 0)"
proof (cases "j = 0")
  case True
  have "live (parse_start (http_zero\<lparr>h_pool := Some pool\<rparr>))" by (simp add: live_def parse_start_def)
  then have "http_header_parse h m (length ([] :: byte list)) = Some (http_zero\<lparr>h_pool := Some pool\<rparr>, 0)"
    using assms(4) by (intro cut_within [where st = "parse_start (http_zero\<lparr>h_pool := Some pool\<rparr>)"]) (simp_all add: runs_def)
  then show ?thesis using True by simp
next
  case False
  let ?start = "parse_start (http_zero\<lparr>h_pool := Some pool\<rparr>)"
  have "runs m 0 (take j t) ?start (?start\<lparr>ps_state := HTTP_STATE_OP, ps_word := Some 0\<rparr>)"
    using assms(1,3) False by (intro runs_first token_take) (simp_all add: parse_start_def)
  from cut_within [OF this _ assms(4)] assms(2) show ?thesis by (simp add: live_def)
qed

lemma request_cut:
  assumes t: "token_ok op" "token_ok uri" "token_ok ver" "take 5 (cstr (kept op)) \<noteq> bytes_of ''HTTP/''" "list_all header_ok hs"
    and h: "h_pool h = Some pool" and j: "j < length (request_text op uri ver hs)"
    and m: "take j m = take j (request_text op uri ver hs)" "j \<le> length m"
  shows "http_header_parse h m j = Some (http_zero\<lparr>h_pool := Some pool\<rparr>, 0)"
proof -
  let ?T = "request_text op uri ver hs @ []"
  have a: "agree j ?T m" using j m by (simp add: agree_def)
  have T: "message_at ?T (op @ [32] @ uri @ [32] @ ver @ [10]) hs (request_header pool op uri ver) pool (length (request_text op uri ver hs))"
    by (rule request_message [OF t])
  have w: "at_mem ?T 0 ((op @ [32]) @ uri @ [32] @ ver @ [10] @ concat (map header_line hs) @ [10])"
    unfolding at_mem_def request_text_def by (intro conjI exI [of _ "[]"]) simp_all
  show ?thesis
  proof (cases "j \<le> length op")
    case True
    then have "take j ?T = take j op" using j by (simp add: request_text_def)
    then have "at_mem m 0 (take j op)"
      using m(1) append_take_drop_id [of j m] unfolding at_mem_def
      by (intro conjI exI [of _ "[]"] exI [of _ "drop j m"]) auto
    from cut_first_word [OF t(1) True this h] show ?thesis .
  next
    case False
    have v: "at_mem ?T 0 (op @ [32])" using w unfolding at_mem_append [of ?T 0 "op @ [32]"] by blast
    have v': "at_mem m 0 (op @ [32])" using agree_at_mem [OF a v] False by simp
    let ?s1 = "(parse_start (http_zero\<lparr>h_pool := Some pool\<rparr>))\<lparr>ps_state := HTTP_STATE_OP, ps_word := Some 0\<rparr>"
    let ?s2 = "go_space HTTP_STATE_URI (?s1\<lparr>ps_http := http_zero\<lparr>h_pool := Some pool, h_op := Some (kept op), h_op_code := op_code_of (kept op)\<rparr>\<rparr>)"
    have r: "runs x 0 (op @ [32]) (parse_start (http_zero\<lparr>h_pool := Some pool\<rparr>)) ?s2" if x: "at_mem x 0 (op @ [32])" for x
    proof -
      have xs: "at_mem x 0 op" "rd8 x (int (length op)) = Some 32" using x by (auto simp: at_mem_append at_mem_Cons)
      have "parse_step x (int (length op)) ?s1 = Some ?s2"
        using get_token [OF _ _ t(1) xs(1), of ?s1 "int (length op)"] xs(2) t(4)
        by (simp add: parse_step_def parse_visit_def count_line_def Let_def parse_start_def go_space_def)
      then show ?thesis
        by (intro runs_then [OF runs_first [OF _ xs(1) t(1)] runs_one]) (simp_all add: live_def parse_start_def)
    qed
    show ?thesis
      by (rule cut_behind [OF T _ j a r [OF v] r [OF v'] _ h]) (use False in \<open>simp_all add: late_def go_space_def\<close>)
  qed
qed

lemma response_cut:
  assumes t: "token_ok ver" "take 5 (cstr (kept ver)) = bytes_of ''HTTP/''" "code_ok code" "value_ok msg" "list_all header_ok hs"
    and h: "h_pool h = Some pool" and j: "j < length (response_text ver code msg hs)"
    and m: "take j m = take j (response_text ver code msg hs)" "j \<le> length m"
  shows "http_header_parse h m j = Some (http_zero\<lparr>h_pool := Some pool\<rparr>, 0)"
proof -
  let ?T = "response_text ver code msg hs @ []" and ?http = "http_zero\<lparr>h_pool := Some pool\<rparr>"
  have a: "agree j ?T m" using j m by (simp add: agree_def)
  have T: "message_at ?T (ver @ [32] @ code @ [32] @ msg @ [10]) hs (response_header pool ver (code_value code) msg) pool
      (length (response_text ver code msg hs))" by (rule response_message [OF t])
  have "at_mem ?T 0 ((ver @ [32] @ code @ [32]) @ msg @ [10] @ concat (map header_line hs) @ [10])"
    unfolding at_mem_def response_text_def by (intro conjI exI [of _ "[]"]) simp_all
  then have w: "at_mem ?T 0 (ver @ [32] @ code @ [32])" unfolding at_mem_append [of ?T 0 "ver @ [32] @ code @ [32]"] by blast
  have sub: "at_mem m 0 (take j (ver @ [32] @ code @ [32]))"
    by (rule agree_at_mem [OF a at_mem_take [OF w]]) simp
  consider "j \<le> length ver" | "j = length ver + 1" | "length ver + 1 < j" "j \<le> length ver + 1 + length code"
    | "length ver + 1 + length code < j" by linarith
  then show ?thesis
  proof cases
    case 1
    with sub have "at_mem m 0 (take j ver)" by simp
    from cut_first_word [OF t(1) 1 this h] show ?thesis .
  next
    case 2
    with sub have "at_mem m 0 (ver @ [32])" by simp
    from cut_within [OF version_runs [OF t(1,2) this] _ h] 2 show ?thesis by (simp add: live_def version_read_def go_space_def)
  next
    case 3
    let ?c = "take (j - length ver - 1) code"
    have "take j (ver @ [32] @ code @ [32]) = (ver @ [32]) @ ?c" using 3 by (simp add: take_Cons')
    then have c: "at_mem m 0 (ver @ [32])" "at_mem m (int (length ver) + 1) ?c"
      using sub at_mem_append [of m 0 "ver @ [32]" ?c] by (simp_all add: add.commute)
    have "token_ok ?c" using 3 by (intro token_take code_token [OF t(3)]) auto
    from runs_then [OF version_runs [OF t(1,2) c(1)] part_code_runs [OF this c(2)], of "ver @ [32] @ ?c" ?http]
    have "runs m 0 (ver @ [32] @ ?c) (parse_start ?http) (code_begun ?http ver)" by simp
    from cut_within [OF this _ h] 3 show ?thesis by (simp add: live_def code_begun_def)
  next
    case 4
    then have m4: "at_mem m 0 (ver @ [32] @ code @ [32])" using sub by simp
    show ?thesis
      by (rule cut_behind [OF T _ j a code_runs [OF t(1-3) w] code_runs [OF t(1-3) m4] _ h])
        (use 4 in \<open>simp_all add: late_def go_space_def code_read_state_def\<close>)
  qed
qed

end
