(* ===== verification/HttpReq.thy ===== *)
theory HttpReq
  imports HttpPart Dir
begin

text \<open>
  \<open>http_req.c\<close>: one HTTP GET, with a callback for every stage. The callback is a function \<open>func\<close> on a state of its own,
  the request and the bytes it is given; what it returns is as in C, anything but zero ends the request. The socket calls
  are parameters: whether there is a socket, the text of the address a host resolves to, whether the connection is made,
  the result of sending, and the data that arrives, as the segments of a stream. \<open>None\<close> is an access outside a buffer.
\<close>

datatype http_req_state_t =
  HTTP_REQ_RESOLVE | HTTP_REQ_CONNECT | HTTP_REQ_SEND | HTTP_REQ_HEAD | HTTP_REQ_BODY | HTTP_REQ_EOF | HTTP_REQ_ERROR

datatype http_req_error_t =
  HTTP_REQ_ERROR_NONE | HTTP_REQ_ERROR_BAD_URL | HTTP_REQ_ERROR_CONNECT | HTTP_REQ_ERROR_BAD_RESPONSE
  | HTTP_REQ_ERROR_INCOMPLETE | HTTP_REQ_ERROR_FILE_NOT_FOUND

record http_req_t =
  req_url :: url
  req_state :: http_req_state_t
  req_error :: http_req_error_t
  reply_hdr :: http_header
  reply_max :: int
  reply_len :: int

definition http_req_state_fmt :: "http_req_state_t \<Rightarrow> string" where
  "http_req_state_fmt s =
     (case s of HTTP_REQ_RESOLVE \<Rightarrow> ''HTTP_REQ_RESOLVE'' | HTTP_REQ_CONNECT \<Rightarrow> ''HTTP_REQ_CONNECT''
      | HTTP_REQ_SEND \<Rightarrow> ''HTTP_REQ_SEND'' | HTTP_REQ_HEAD \<Rightarrow> ''HTTP_REQ_HEAD'' | HTTP_REQ_BODY \<Rightarrow> ''HTTP_REQ_BODY''
      | HTTP_REQ_EOF \<Rightarrow> ''HTTP_REQ_EOF'' | HTTP_REQ_ERROR \<Rightarrow> ''HTTP_REQ_ERROR'')"

type_synonym 'w http_req_func = "'w \<Rightarrow> http_req_t \<Rightarrow> byte list \<Rightarrow> 'w \<times> int"

text \<open>What the socket delivers: the data in segments, an error; the end of the list is the end of the stream.\<close>

datatype net_in = Data "byte list" | Failed

record net =
  n_socket :: bool
  n_addr :: "byte list \<Rightarrow> byte list"
  n_connect :: bool
  n_send :: "byte list \<Rightarrow> int"
  n_in :: "net_in list"

text \<open>\<open>recv\<close> of at most \<open>m\<close> bytes: the bytes, or nothing when it fails, and what is still to come.\<close>

fun sock_recv :: "net_in list \<Rightarrow> nat \<Rightarrow> byte list option \<times> net_in list" where
  "sock_recv [] m = (Some [], [])"
| "sock_recv (Failed # xs) m = (None, xs)"
| "sock_recv (Data d # xs) m = (Some (take m d), if length d \<le> m then xs else Data (drop m d) # xs)"

section \<open>The local variables of \<open>http_get\<close>\<close>

definition GET_BUF :: nat where "GET_BUF = 16384"

record 'w get_t =
  g_buf :: mem
  g_len :: nat
  g_http :: http_header
  g_got_header :: bool
  g_req :: http_req_t
  g_req_err :: http_req_error_t
  g_err :: int
  g_in :: "net_in list"
  g_pool :: nat
  g_world :: 'w

text \<open>\<open>err = func(&req, buf, len, farg)\<close> in the state \<open>s\<close>; the request points to the header as it is now.\<close>

definition notify :: "'w http_req_func \<Rightarrow> http_req_state_t \<Rightarrow> byte list \<Rightarrow> 'w get_t \<Rightarrow> 'w get_t" where
  "notify func s d st =
     (let req = (g_req st)\<lparr>req_state := s, reply_hdr := g_http st\<rparr>;
          (w, i) = func (g_world st) req d
      in st\<lparr>g_req := req, g_world := w, g_err := i\<rparr>)"

text \<open>\<open>snprintf\<close> into \<open>buf\<close>, and a callback with the length it returned.\<close>

definition print_notify :: "'w http_req_func \<Rightarrow> http_req_state_t \<Rightarrow> byte list \<Rightarrow> 'w get_t \<Rightarrow> 'w get_t option" where
  "print_notify func s t st =
     do {
       buf \<leftarrow> blit (g_buf st) 0 (take (GET_BUF - 1) t @ [0]);
       d \<leftarrow> slice buf 0 (int (length t));
       Some (notify func s d (st\<lparr>g_buf := buf\<rparr>))
     }"

datatype turn = Stop | Again | Body

text \<open>The header, when it has not been read yet: its length is taken off the front of the buffer.\<close>

definition get_head :: "'w http_req_func \<Rightarrow> 'w get_t \<Rightarrow> (turn \<times> 'w get_t) option" where
  "get_head func st =
     (if g_got_header st then Some (Body, st)
      else do {
        let (http, _) = http_header_init None (Some (g_pool st));
        (http, i) \<leftarrow> http_header_parse http (g_buf st) (g_len st);
        let st = st\<lparr>g_http := http, g_pool := g_pool st + 1\<rparr>;
        if i < 0 then Some (Stop, st\<lparr>g_req_err := HTTP_REQ_ERROR_BAD_RESPONSE\<rparr>)
        else if i = 0 then Some (Again, st)
        else do {
          let hl = uint (h_header_len http);
          let st = st\<lparr>g_got_header := True, g_req := (g_req st)\<lparr>reply_max := to_i32 (uint (h_content_len http))\<rparr>\<rparr>;
          d \<leftarrow> slice (g_buf st) 0 hl;
          let st = notify func HTTP_REQ_HEAD d st;
          if g_err st \<noteq> 0 then Some (Stop, st)
          else do {
            let st = st\<lparr>g_len := g_len st - nat hl\<rparr>;
            buf \<leftarrow> (if g_len st > 0 then mem_move (g_buf st) 0 hl (int (g_len st)) else Some (g_buf st));
            Some (Body, st\<lparr>g_buf := buf\<rparr>)
          }
        }
      })"

definition get_body :: "'w http_req_func \<Rightarrow> 'w get_t \<Rightarrow> (turn \<times> 'w get_t) option" where
  "get_body func st =
     do {
       let st = st\<lparr>g_req := (g_req st)\<lparr>reply_len := reply_len (g_req st) + int (g_len st)\<rparr>\<rparr>;
       d \<leftarrow> slice (g_buf st) 0 (int (g_len st));
       let st = (notify func HTTP_REQ_BODY d st)\<lparr>g_len := 0\<rparr>;
       Some (if g_err st \<noteq> 0 then Stop else Again, st)
     }"

definition get_turn :: "'w http_req_func \<Rightarrow> 'w get_t \<Rightarrow> (turn \<times> 'w get_t) option" where
  "get_turn func st =
     (if \<not> g_len st < GET_BUF then Some (Stop, st)
      else (case sock_recv (g_in st) (GET_BUF - g_len st) of
        (None, rest) \<Rightarrow> Some (Stop, st\<lparr>g_req_err := HTTP_REQ_ERROR_INCOMPLETE, g_in := rest\<rparr>)
      | (Some d, rest) \<Rightarrow>
          let st = st\<lparr>g_in := rest\<rparr> in
          if d = [] then Some (Stop, notify func HTTP_REQ_EOF [] st)
          else do {
            buf \<leftarrow> blit (g_buf st) (int (g_len st)) d;
            (t, st) \<leftarrow> get_head func (st\<lparr>g_buf := buf, g_len := g_len st + length d\<rparr>);
            if t = Body then get_body func st else Some (t, st)
          }))"

text \<open>Every turn but the last takes at least one byte: as many turns as there are bytes and segments, and one, are enough.\<close>

fun get_loop :: "nat \<Rightarrow> 'w http_req_func \<Rightarrow> 'w get_t \<Rightarrow> 'w get_t option" where
  "get_loop 0 func st = None"
| "get_loop (Suc k) func st =
     do { (t, st) \<leftarrow> get_turn func st; if t = Again then get_loop k func st else Some st }"

definition in_size :: "net_in list \<Rightarrow> nat" where
  "in_size xs = (\<Sum>x\<leftarrow>xs. case x of Data d \<Rightarrow> length d + 1 | Failed \<Rightarrow> 1)"

section \<open>The request\<close>

text \<open>\<open>%s\<close> of a string or of the null pointer.\<close>

definition str_arg :: "byte list option \<Rightarrow> byte list" where
  "str_arg s = (case s of None \<Rightarrow> bytes_of ''(null)'' | Some s \<Rightarrow> cstr s)"

definition resolve_text :: "url \<Rightarrow> byte list" where
  "resolve_text u = bytes_of ''resolving host '' @ str_arg (u_host u) @ [10]"

definition connect_text :: "net \<Rightarrow> url \<Rightarrow> byte list" where
  "connect_text net u =
     bytes_of ''connecting to host '' @ str_arg (u_host u) @ bytes_of '' at '' @ n_addr net (str_arg (u_host u)) @ [10]"

definition get_text :: "url \<Rightarrow> byte list" where
  "get_text u = bytes_of ''GET '' @ str_arg (u_path_args u) @ bytes_of '' HTTP/1.0'' @ [13, 10] @
     bytes_of ''Host: '' @ str_arg (u_host u) @ [13, 10, 13, 10]"

definition get_net :: "'w http_req_func \<Rightarrow> net \<Rightarrow> url \<Rightarrow> 'w get_t \<Rightarrow> 'w get_t option" where
  "get_net func net u st =
     (let st = st\<lparr>g_req_err := HTTP_REQ_ERROR_CONNECT\<rparr> in
      if \<not> n_socket net then Some st
      else do {
        st \<leftarrow> print_notify func HTTP_REQ_RESOLVE (resolve_text u) st;
        if g_err st \<noteq> 0 then Some st
        else do {
          st \<leftarrow> print_notify func HTTP_REQ_CONNECT (connect_text net u) st;
          if g_err st \<noteq> 0 \<or> \<not> n_connect net then Some st
          else do {
            st \<leftarrow> print_notify func HTTP_REQ_SEND (get_text u) st;
            if g_err st \<noteq> 0 then Some st
            else do {
              d \<leftarrow> slice (g_buf st) 0 (int (length (get_text u)));
              if n_send net d < 0 then Some st
              else do {
                st \<leftarrow> get_loop (in_size (n_in net) + 1) func (st\<lparr>g_len := 0, g_got_header := False, g_in := n_in net\<rparr>);
                Some (st\<lparr>g_req_err := HTTP_REQ_ERROR_NONE\<rparr>)
              }
            }
          }
        }
      })"

text \<open>A file: its bytes in portions of the buffer, until the callback has had enough.\<close>

function file_loop :: "'w http_req_func \<Rightarrow> byte list \<Rightarrow> 'w get_t \<Rightarrow> 'w get_t option" where
  "file_loop func xs st =
     (if xs = [] then Some (st\<lparr>g_len := 0\<rparr>)
      else (let d = take GET_BUF xs in
        case blit (g_buf st) 0 d of
          None \<Rightarrow> None
        | Some buf \<Rightarrow>
            (let st = notify func HTTP_REQ_BODY d (st\<lparr>g_buf := buf, g_len := length d\<rparr>)
             in if g_err st \<noteq> 0 then Some st else file_loop func (drop GET_BUF xs) st)))"
  by pat_completeness auto
termination
  by (relation "measure (\<lambda>(func, xs, st). length xs)") (auto simp: GET_BUF_def)

declare file_loop.simps [simp del]

definition get_file_url :: "'w http_req_func \<Rightarrow> fs \<Rightarrow> byte list \<Rightarrow> 'w get_t \<Rightarrow> 'w get_t option" where
  "get_file_url func fs path st =
     (let st = st\<lparr>g_req_err := HTTP_REQ_ERROR_FILE_NOT_FOUND\<rparr> in
      case fs_files fs path of
        None \<Rightarrow> Some st
      | Some xs \<Rightarrow>
          do {
            st \<leftarrow> file_loop func xs (st\<lparr>g_http := (g_http st)\<lparr>h_content_len := word_of_int (int (length xs))\<rparr>,
              g_req := (g_req st)\<lparr>req_state := HTTP_REQ_BODY\<rparr>\<rparr>);
            Some (st\<lparr>g_req_err := HTTP_REQ_ERROR_NONE, g_err := 0\<rparr>)
          })"

text \<open>After the loop: a response that is not 200 counts as a file that was not found; an error is reported once more.\<close>

definition get_end :: "'w http_req_func \<Rightarrow> 'w get_t \<Rightarrow> ('w \<times> int) option" where
  "get_end func st =
     do {
       let st = (if g_got_header st \<and> h_response_code (g_http st) \<noteq> 200
                 then st\<lparr>g_req_err := HTTP_REQ_ERROR_FILE_NOT_FOUND\<rparr> else st);
       st \<leftarrow> (if g_req_err st = HTTP_REQ_ERROR_NONE then Some st
             else do {
               d \<leftarrow> slice (g_buf st) 0 (int (g_len st));
               Some (notify func HTTP_REQ_ERROR d (st\<lparr>g_req := (g_req st)\<lparr>req_error := g_req_err st\<rparr>\<rparr>))
             });
       Some (g_world st, g_err st)
     }"

text \<open>
  \<open>buf\<close> and \<open>http\<close> are what the uninitialised variables hold, \<open>fs\<close> the files for \<open>file\<close> addresses. A file that cannot be
  opened although it exists is not modelled, nor are the calls of \<open>pool_clear\<close> on the header, which nothing reads.
\<close>

definition http_get :: "fs \<Rightarrow> net \<Rightarrow> mem \<Rightarrow> http_header \<Rightarrow> mem \<Rightarrow> 'w http_req_func \<Rightarrow> 'w \<Rightarrow> ('w \<times> int) option" where
  "http_get fs net buf http urlstr func w =
     do {
       (u, e) \<leftarrow> url_parse urlstr;
       let req = \<lparr>req_url = u, req_state = HTTP_REQ_RESOLVE, req_error = HTTP_REQ_ERROR_NONE, reply_hdr = http,
                  reply_max = 0, reply_len = 0\<rparr>;
       let st = \<lparr>g_buf = buf, g_len = 0, g_http = http, g_got_header = False, g_req = req,
                 g_req_err = HTTP_REQ_ERROR_BAD_URL, g_err = - 1, g_in = [], g_pool = 0, g_world = w\<rparr>;
       st \<leftarrow> (if e \<noteq> URL_PARSE_ERR_OK then Some st
             else do {
               proto \<leftarrow> u_proto u;
               if map tolower (cstr proto) = bytes_of ''file'' then do { path \<leftarrow> u_path u; get_file_url func fs path st }
               else if map tolower (cstr proto) = bytes_of ''http'' then get_net func net u st
               else Some st
             });
       get_end func st
     }"

end
