(* ===== verification/HttpReqProps.thy ===== *)
theory HttpReqProps
  imports HttpReq HttpUrl
begin

text \<open>
  A response arrives whole, however the stream is cut: the callback sees the stages in their order, the header once and
  complete, and the body without a byte missing.
\<close>

section \<open>The stream\<close>

definition segments :: "byte list list \<Rightarrow> net_in list" where
  "segments ss = map Data ss"

lemma recv_some:
  assumes "ss \<noteq> []" "[] \<notin> set ss" "0 < m"
  shows "\<exists>d ss'. sock_recv (segments ss) m = (Some d, segments ss') \<and> d \<noteq> [] \<and> length d \<le> m \<and> [] \<notin> set ss' \<and>
    d @ concat ss' = concat ss \<and> in_size (segments ss') < in_size (segments ss)"
proof -
  obtain s r where s: "ss = s # r" using assms(1) by (cases ss) auto
  show ?thesis
  proof (cases "length s \<le> m")
    case True
    then show ?thesis using assms(2) by (intro exI [of _ s] exI [of _ r]) (auto simp: s segments_def in_size_def)
  next
    case False
    then show ?thesis using assms(2,3)
      by (intro exI [of _ "take m s"] exI [of _ "drop m s # r"]) (auto simp: s segments_def in_size_def)
  qed
qed

lemma recv_end: "sock_recv (segments []) m = (Some [], [])"
  by (simp add: segments_def)

text \<open>A callback that keeps a list of what it was called with and never ends the request.\<close>

type_synonym log = "(http_req_state_t \<times> byte list) list"

definition log_call :: "log http_req_func" where
  "log_call w req d = (w @ [(req_state req, d)], 0)"

lemma notify_log [simp]:
  "notify log_call s d st = st\<lparr>g_req := (g_req st)\<lparr>req_state := s, reply_hdr := g_http st\<rparr>, g_world := g_world st @ [(s, d)], g_err := 0\<rparr>"
  by (simp add: notify_def log_call_def Let_def)

section \<open>The body\<close>

definition body_log :: "byte list list \<Rightarrow> log" where
  "body_log ds = map (Pair HTTP_REQ_BODY) ds"

lemma get_body_log:
  assumes "slice (g_buf st) 0 (int (g_len st)) = Some d"
  shows "\<exists>req. get_body log_call st =
    Some (Again, st\<lparr>g_req := req, g_world := g_world st @ [(HTTP_REQ_BODY, d)], g_err := 0, g_len := 0\<rparr>)"
  using assms
  by (intro exI [of _ "(g_req st)\<lparr>reply_len := reply_len (g_req st) + int (g_len st), req_state := HTTP_REQ_BODY, reply_hdr := g_http st\<rparr>"])
    (simp add: get_body_def Let_def)

lemma blit_front: "length d \<le> length m \<Longrightarrow> blit m 0 d = Some (d @ drop (length d) m)"
  by (simp add: blit_def)

lemma body_loop:
  "length (g_buf st) = GET_BUF \<Longrightarrow> g_len st = 0 \<Longrightarrow> g_got_header st \<Longrightarrow> g_in st = segments ss \<Longrightarrow> [] \<notin> set ss \<Longrightarrow>
   in_size (segments ss) < k \<Longrightarrow>
   \<exists>st' ds. get_loop k log_call st = Some st' \<and> concat ds = concat ss \<and> g_got_header st' \<and> g_http st' = g_http st \<and> g_err st' = 0 \<and>
     g_world st' = g_world st @ body_log ds @ [(HTTP_REQ_EOF, [])]"
proof (induction k arbitrary: st ss)
  case (Suc k)
  show ?case
  proof (cases "ss = []")
    case True
    have "get_turn log_call st = Some (Stop, notify log_call HTTP_REQ_EOF [] (st\<lparr>g_in := []\<rparr>))"
      using Suc.prems True by (simp add: get_turn_def recv_end GET_BUF_def)
    then show ?thesis using Suc.prems(3) True by (intro exI exI [of _ "[]"]) (auto simp: body_log_def)
  next
    case False
    have "0 < GET_BUF" by (simp add: GET_BUF_def)
    from recv_some [OF False Suc.prems(5) this] obtain d ss' where
      d: "sock_recv (segments ss) GET_BUF = (Some d, segments ss')" "d \<noteq> []" "length d \<le> GET_BUF" "[] \<notin> set ss'"
        "d @ concat ss' = concat ss" "in_size (segments ss') < in_size (segments ss)" by blast
    let ?st = "st\<lparr>g_in := segments ss', g_buf := d @ drop (length d) (g_buf st), g_len := length d\<rparr>"
    have b: "blit (g_buf st) 0 d = Some (d @ drop (length d) (g_buf st))" using d(3) Suc.prems(1) by (intro blit_front) simp
    have "slice (g_buf ?st) 0 (int (g_len ?st)) = Some d" by (simp add: slice_def)
    from get_body_log [OF this] obtain req where
      g: "get_body log_call ?st = Some (Again, ?st\<lparr>g_req := req, g_world := g_world st @ [(HTTP_REQ_BODY, d)], g_err := 0, g_len := 0\<rparr>)"
      by auto
    let ?st' = "?st\<lparr>g_req := req, g_world := g_world st @ [(HTTP_REQ_BODY, d)], g_err := 0, g_len := 0\<rparr>"
    have t: "get_turn log_call st = Some (Again, ?st')"
      using Suc.prems(2-4) d(1,2) b g by (simp add: get_turn_def GET_BUF_def get_head_def)
    have "\<exists>st'' ds. get_loop k log_call ?st' = Some st'' \<and> concat ds = concat ss' \<and> g_got_header st'' \<and> g_http st'' = g_http ?st' \<and>
        g_err st'' = 0 \<and> g_world st'' = g_world ?st' @ body_log ds @ [(HTTP_REQ_EOF, [])]"
      using Suc.prems d by (intro Suc.IH) auto
    then obtain st'' ds where "get_loop k log_call ?st' = Some st''" "concat ds = concat ss'" "g_got_header st''"
        "g_http st'' = g_http st" "g_err st'' = 0" "g_world st'' = g_world st @ (HTTP_REQ_BODY, d) # body_log ds @ [(HTTP_REQ_EOF, [])]"
      by auto
    with t d(5) show ?thesis by (intro exI [of _ st''] exI [of _ "d # ds"]) (simp add: body_log_def)
  qed
qed simp

section \<open>The header\<close>

text \<open>The turn that completes the header: header and the bytes of the body that came with it.\<close>

lemma head_complete:
  assumes t: "token_ok ver" "take 5 (cstr (kept ver)) = bytes_of ''HTTP/''" "code_ok code" "value_ok msg" "list_all header_ok hs"
    and T: "T = response_text ver code msg hs" and st: "\<not> g_got_header st" "g_len st = length T + length d" "length (g_buf st) = GET_BUF"
      "g_buf st = T @ d @ rest"
  shows "\<exists>buf req. get_head log_call st = Some (Body, st\<lparr>g_http := finished (response_header (g_pool st) ver (code_value code) msg) hs (int (length T)),
      g_pool := g_pool st + 1, g_got_header := True, g_req := req, g_world := g_world st @ [(HTTP_REQ_HEAD, T)], g_err := 0,
      g_len := length d, g_buf := buf\<rparr>) \<and> length buf = GET_BUF \<and> take (length d) buf = d"
proof -
  let ?http = "finished (response_header (g_pool st) ver (code_value code) msg) hs (int (length T))"
  have p: "http_header_parse (fst (http_header_init None (Some (g_pool st)))) (g_buf st) (g_len st) = Some (?http, 1)"
    using message_complete [OF response_message [OF t, of "d @ rest" "g_pool st"], of _ "g_len st"] st(2,4)
    by (simp add: http_header_init_def T)
  have "length T < 2 ^ 64" using st(3,4) by (simp add: GET_BUF_def)
  then have hl: "uint (h_header_len ?http) = int (length T)"
    by (simp add: finished_def Let_def unsigned_of_nat take_bit_nat_eq_self)
  have sl: "slice (g_buf st) 0 (int (length T)) = Some T" by (simp add: slice_def st(4))
  define buf where "buf = (if d = [] then g_buf st else d @ drop (length d) (g_buf st))"
  have "slice (g_buf st) (int (length T)) (int (length d)) = Some d" by (simp add: slice_def st(4))
  then have mv: "(if length d > 0 then mem_move (g_buf st) 0 (int (length T)) (int (length d)) else Some (g_buf st)) = Some buf"
    using blit_front [of d "g_buf st"] by (simp add: mem_move_def buf_def st(4))
  have "length buf = GET_BUF \<and> take (length d) buf = d" using st(3) by (auto simp: buf_def st(4))
  moreover have "\<exists>req. get_head log_call st = Some (Body, st\<lparr>g_http := ?http, g_pool := g_pool st + 1, g_got_header := True, g_req := req,
      g_world := g_world st @ [(HTTP_REQ_HEAD, T)], g_err := 0, g_len := length d, g_buf := buf\<rparr>)"
    using p hl sl mv st(1,2)
    by (intro exI [of _ "(g_req st)\<lparr>reply_max := to_i32 (uint (h_content_len ?http)), req_state := HTTP_REQ_HEAD, reply_hdr := ?http\<rparr>"])
      (cases "d = []"; simp add: get_head_def split_def Let_def buf_def; cases st; simp)
  ultimately show ?thesis by blast
qed

lemma head_loop:
  assumes t: "token_ok ver" "take 5 (cstr (kept ver)) = bytes_of ''HTTP/''" "code_ok code" "value_ok msg" "list_all header_ok hs"
    and T: "T = response_text ver code msg hs" "length T \<le> GET_BUF"
  shows "length (g_buf st) = GET_BUF \<Longrightarrow> g_len st < length T \<Longrightarrow> \<not> g_got_header st \<Longrightarrow>
    take (g_len st) (g_buf st) = take (g_len st) T \<Longrightarrow> concat ss = drop (g_len st) T @ body \<Longrightarrow>
    g_in st = segments ss \<Longrightarrow> [] \<notin> set ss \<Longrightarrow> in_size (segments ss) < k \<Longrightarrow>
    \<exists>st' ds pool. get_loop k log_call st = Some st' \<and> concat ds = body \<and> g_got_header st' \<and>
      g_http st' = finished (response_header pool ver (code_value code) msg) hs (int (length T)) \<and> g_err st' = 0 \<and>
      g_world st' = g_world st @ [(HTTP_REQ_HEAD, T)] @ body_log ds @ [(HTTP_REQ_EOF, [])]"
proof (induction k arbitrary: st ss)
  case (Suc k)
  let ?j = "g_len st"
  have "ss \<noteq> []" using Suc.prems(2,5) by auto
  moreover have j: "0 < GET_BUF - ?j" using Suc.prems(2) T(2) by simp
  ultimately obtain d ss' where
    d: "sock_recv (segments ss) (GET_BUF - ?j) = (Some d, segments ss')" "d \<noteq> []" "length d \<le> GET_BUF - ?j" "[] \<notin> set ss'"
      "d @ concat ss' = drop ?j T @ body" "in_size (segments ss') < in_size (segments ss)"
    using recv_some [of ss "GET_BUF - ?j"] Suc.prems(5,7) by metis
  let ?n = "?j + length d"
  let ?buf = "take ?j T @ d @ drop ?n (g_buf st)"
  have b: "blit (g_buf st) (int ?j) d = Some ?buf" using Suc.prems(1,4) d(3) j by (simp add: blit_def)
  have len: "length ?buf = GET_BUF" using Suc.prems(1,2) d(3) j by simp
  let ?st = "st\<lparr>g_in := segments ss', g_buf := ?buf, g_len := ?n\<rparr>"
  have turn: "get_turn log_call st = do { (t, st) \<leftarrow> get_head log_call ?st; if t = Body then get_body log_call st else Some (t, st) }"
    using j d(1,2) b Suc.prems(6) by (simp add: get_turn_def)
  show ?case
  proof (cases "?n < length T")
    case True
    then have "take (length d) (d @ concat ss') = take (length d) (drop ?j T @ body)" using d(5) by simp
    then have dT: "d = take (length d) (drop ?j T)" using True by simp
    have "drop (length d) (d @ concat ss') = drop (length d) (drop ?j T @ body)" using d(5) by simp
    then have rest: "concat ss' = drop ?n T @ body" using True by (simp add: add.commute)
    have "take ?n T = take ?j T @ take (length d) (drop ?j T)" by (rule take_add)
    with dT have buf: "take ?n ?buf = take ?n T" using Suc.prems(2) by simp
    have "http_header_parse (fst (http_header_init None (Some (g_pool st)))) ?buf ?n = Some (http_zero\<lparr>h_pool := Some (g_pool st)\<rparr>, 0)"
      using buf True T len by (intro response_cut [OF t]) (auto simp: http_header_init_def)
    then have head: "get_head log_call ?st = Some (Again, ?st\<lparr>g_http := http_zero\<lparr>h_pool := Some (g_pool st)\<rparr>, g_pool := g_pool st + 1\<rparr>)"
      using Suc.prems(3) by (simp add: get_head_def split_def Let_def)
    let ?st' = "?st\<lparr>g_http := http_zero\<lparr>h_pool := Some (g_pool st)\<rparr>, g_pool := g_pool st + 1\<rparr>"
    have "\<exists>st' ds pool. get_loop k log_call ?st' = Some st' \<and> concat ds = body \<and> g_got_header st' \<and>
      g_http st' = finished (response_header pool ver (code_value code) msg) hs (int (length T)) \<and> g_err st' = 0 \<and>
      g_world st' = g_world ?st' @ [(HTTP_REQ_HEAD, T)] @ body_log ds @ [(HTTP_REQ_EOF, [])]"
      using Suc.prems(3,8) True len buf rest d(4,6) by (intro Suc.IH [where ss = ss']) simp_all
    with turn head show ?thesis by simp
  next
    case False
    define d' where "d' = drop (length T - ?j) d"
    have "take (length T - ?j) (d @ concat ss') = take (length T - ?j) (drop ?j T @ body)" using d(5) by simp
    then have "take (length T - ?j) d = drop ?j T" using False by simp
    then have dd: "d = drop ?j T @ d'" unfolding d'_def by (metis append_take_drop_id)
    with d(5) have rest: "d' @ concat ss' = body" by simp
    have n: "?n = length T + length d'" using dd Suc.prems(2) by (metis add_diff_inverse_nat ab_semigroup_add_class.add_ac(1) length_append length_drop less_imp_not_less)
    have buf: "?buf = T @ d' @ drop ?n (g_buf st)" by (simp add: dd)
    obtain buf' req where h: "get_head log_call ?st = Some (Body, ?st\<lparr>g_http := finished (response_header (g_pool st) ver (code_value code) msg) hs (int (length T)),
        g_pool := g_pool st + 1, g_got_header := True, g_req := req, g_world := g_world st @ [(HTTP_REQ_HEAD, T)], g_err := 0,
        g_len := length d', g_buf := buf'\<rparr>)" "length buf' = GET_BUF" "take (length d') buf' = d'"
      using head_complete [OF t T(1), of ?st d' "drop ?n (g_buf st)"] Suc.prems(3) n len buf by auto
    let ?st1 = "?st\<lparr>g_http := finished (response_header (g_pool st) ver (code_value code) msg) hs (int (length T)),
        g_pool := g_pool st + 1, g_got_header := True, g_req := req, g_world := g_world st @ [(HTTP_REQ_HEAD, T)], g_err := 0,
        g_len := length d', g_buf := buf'\<rparr>"
    have "length d' \<le> GET_BUF" using h(2,3) by (metis length_take min.cobounded1)
    then have "slice (g_buf ?st1) 0 (int (g_len ?st1)) = Some d'" using h(2,3) by (simp add: slice_def)
    from get_body_log [OF this] obtain req' where
      g: "get_body log_call ?st1 = Some (Again, ?st1\<lparr>g_req := req', g_world := g_world ?st1 @ [(HTTP_REQ_BODY, d')], g_err := 0, g_len := 0\<rparr>)" by blast
    let ?st2 = "?st1\<lparr>g_req := req', g_world := g_world ?st1 @ [(HTTP_REQ_BODY, d')], g_err := 0, g_len := 0\<rparr>"
    have "\<exists>st' ds. get_loop k log_call ?st2 = Some st' \<and> concat ds = concat ss' \<and> g_got_header st' \<and> g_http st' = g_http ?st2 \<and>
        g_err st' = 0 \<and> g_world st' = g_world ?st2 @ body_log ds @ [(HTTP_REQ_EOF, [])]"
      using h(2) d(4,6) Suc.prems(8) by (intro body_loop) simp_all
    then obtain st' ds where "get_loop k log_call ?st2 = Some st'" "concat ds = concat ss'" "g_got_header st'" "g_http st' = g_http ?st2"
        "g_err st' = 0" "g_world st' = g_world ?st2 @ body_log ds @ [(HTTP_REQ_EOF, [])]" by blast
    moreover have "get_turn log_call st = Some (Again, ?st2)" using turn h(1) g by simp
    ultimately show ?thesis using rest
      by (intro exI [of _ st'] exI [of _ "d' # ds"] exI [of _ "g_pool st"]) (simp add: body_log_def)
  qed
qed simp

section \<open>The whole request\<close>

lemma print_notify_log:
  assumes "length t \<le> GET_BUF - 1" "length (g_buf st) = GET_BUF"
  shows "\<exists>req buf. print_notify log_call s t st =
      Some (st\<lparr>g_buf := buf, g_req := req, g_world := g_world st @ [(s, t)], g_err := 0\<rparr>) \<and>
    length buf = GET_BUF \<and> take (length t) buf = t"
proof -
  let ?buf = "(t @ [0]) @ drop (length (t @ [0])) (g_buf st)"
  have b: "blit (g_buf st) 0 (take (GET_BUF - 1) t @ [0]) = Some ?buf"
    using assms blit_front [of "t @ [0]" "g_buf st"] by (simp add: GET_BUF_def)
  have "slice ?buf 0 (int (length t)) = Some t" by (simp add: slice_def)
  with b have "print_notify log_call s t st = Some (st\<lparr>g_buf := ?buf,
      g_req := (g_req st)\<lparr>req_state := s, reply_hdr := g_http st\<rparr>, g_world := g_world st @ [(s, t)], g_err := 0\<rparr>)"
    by (simp add: print_notify_def)
  moreover have "length ?buf = GET_BUF" using assms by (simp add: GET_BUF_def)
  moreover have "take (length t) ?buf = t" by simp
  ultimately show ?thesis by blast
qed

definition text_fits :: "byte list \<Rightarrow> bool" where
  "text_fits t \<longleftrightarrow> length t \<le> GET_BUF - 1"

text \<open>The steps before the answer: what the callback is told, and the state in which the loop begins.\<close>

lemma get_net_begins:
  assumes net: "n_socket net" "n_connect net" "\<forall>d. 0 \<le> n_send net d"
    and fits: "text_fits (resolve_text u)" "text_fits (connect_text net u)" "text_fits (get_text u)" "length (g_buf st) = GET_BUF"
  shows "\<exists>st1. get_net log_call net u st =
      map_option (\<lambda>st. st\<lparr>g_req_err := HTTP_REQ_ERROR_NONE\<rparr>) (get_loop (in_size (n_in net) + 1) log_call st1) \<and>
    length (g_buf st1) = GET_BUF \<and> g_len st1 = 0 \<and> \<not> g_got_header st1 \<and> g_in st1 = n_in net \<and>
    g_world st1 = g_world st @ [(HTTP_REQ_RESOLVE, resolve_text u), (HTTP_REQ_CONNECT, connect_text net u), (HTTP_REQ_SEND, get_text u)]"
proof -
  let ?st = "st\<lparr>g_req_err := HTTP_REQ_ERROR_CONNECT\<rparr>"
  obtain r1 b1 where p1: "print_notify log_call HTTP_REQ_RESOLVE (resolve_text u) ?st =
      Some (?st\<lparr>g_buf := b1, g_req := r1, g_world := g_world st @ [(HTTP_REQ_RESOLVE, resolve_text u)], g_err := 0\<rparr>)" "length b1 = GET_BUF"
    using print_notify_log [of "resolve_text u" ?st HTTP_REQ_RESOLVE] fits(1,4) by (auto simp: text_fits_def)
  let ?s1 = "?st\<lparr>g_buf := b1, g_req := r1, g_world := g_world st @ [(HTTP_REQ_RESOLVE, resolve_text u)], g_err := 0\<rparr>"
  obtain r2 b2 where p2: "print_notify log_call HTTP_REQ_CONNECT (connect_text net u) ?s1 =
      Some (?s1\<lparr>g_buf := b2, g_req := r2, g_world := g_world ?s1 @ [(HTTP_REQ_CONNECT, connect_text net u)], g_err := 0\<rparr>)" "length b2 = GET_BUF"
    using print_notify_log [of "connect_text net u" ?s1 HTTP_REQ_CONNECT] fits(2) p1(2) by (auto simp: text_fits_def)
  let ?s2 = "?s1\<lparr>g_buf := b2, g_req := r2, g_world := g_world ?s1 @ [(HTTP_REQ_CONNECT, connect_text net u)], g_err := 0\<rparr>"
  obtain r3 b3 where p3: "print_notify log_call HTTP_REQ_SEND (get_text u) ?s2 =
      Some (?s2\<lparr>g_buf := b3, g_req := r3, g_world := g_world ?s2 @ [(HTTP_REQ_SEND, get_text u)], g_err := 0\<rparr>)" "length b3 = GET_BUF"
      "take (length (get_text u)) b3 = get_text u"
    using print_notify_log [of "get_text u" ?s2 HTTP_REQ_SEND] fits(3) p2(2) by (auto simp: text_fits_def)
  let ?s3 = "?s2\<lparr>g_buf := b3, g_req := r3, g_world := g_world ?s2 @ [(HTTP_REQ_SEND, get_text u)], g_err := 0, g_len := 0,
    g_got_header := False, g_in := n_in net\<rparr>"
  have sl: "slice b3 0 (int (length (get_text u))) = Some (get_text u)"
    using p3(2,3) fits(3) by (simp add: slice_def text_fits_def)
  have "\<not> n_send net (get_text u) < 0" using net(3) by (simp add: not_less)
  then have "get_net log_call net u st =
      map_option (\<lambda>st. st\<lparr>g_req_err := HTTP_REQ_ERROR_NONE\<rparr>) (get_loop (in_size (n_in net) + 1) log_call ?s3)"
    using net(1,2) p1(1) p2(1) p3(1) sl
    by (cases "get_loop (in_size (n_in net) + 1) log_call ?s3") (simp_all add: get_net_def del: get_loop.simps)
  with p3(2) show ?thesis by (intro exI [of _ ?s3]) simp
qed

lemma http_get_logs:
  assumes url: "url_parse urlstr = Some (u, URL_PARSE_ERR_OK)" "u_proto u = Some proto" "map tolower (cstr proto) = bytes_of ''http''"
    and net: "n_socket net" "n_connect net" "\<forall>d. 0 \<le> n_send net d" "n_in net = segments ss" "[] \<notin> set ss"
    and ok: "token_ok ver" "take 5 (cstr (kept ver)) = bytes_of ''HTTP/''" "code_ok code" "code_value code = 200" "value_ok msg"
      "list_all header_ok hs"
    and data: "concat ss = response_text ver code msg hs @ body" "length (response_text ver code msg hs) \<le> GET_BUF"
    and fits: "text_fits (resolve_text u)" "text_fits (connect_text net u)" "text_fits (get_text u)" "length buf = GET_BUF"
  shows "\<exists>ds. http_get fs net buf http urlstr log_call [] =
      Some ([(HTTP_REQ_RESOLVE, resolve_text u), (HTTP_REQ_CONNECT, connect_text net u), (HTTP_REQ_SEND, get_text u),
        (HTTP_REQ_HEAD, response_text ver code msg hs)] @ body_log ds @ [(HTTP_REQ_EOF, [])], 0) \<and> concat ds = body"
proof -
  let ?T = "response_text ver code msg hs"
  let ?req = "\<lparr>req_url = u, req_state = HTTP_REQ_RESOLVE, req_error = HTTP_REQ_ERROR_NONE, reply_hdr = http, reply_max = 0, reply_len = 0\<rparr>"
  let ?st = "\<lparr>g_buf = buf, g_len = 0, g_http = http, g_got_header = False, g_req = ?req, g_req_err = HTTP_REQ_ERROR_BAD_URL,
    g_err = - 1, g_in = [], g_pool = 0, g_world = [] :: log\<rparr>"
  obtain st1 where b: "get_net log_call net u ?st =
        map_option (\<lambda>st. st\<lparr>g_req_err := HTTP_REQ_ERROR_NONE\<rparr>) (get_loop (in_size (n_in net) + 1) log_call st1)"
      "length (g_buf st1) = GET_BUF" "g_len st1 = 0" "\<not> g_got_header st1" "g_in st1 = n_in net"
      "g_world st1 = [(HTTP_REQ_RESOLVE, resolve_text u), (HTTP_REQ_CONNECT, connect_text net u), (HTTP_REQ_SEND, get_text u)]"
    using get_net_begins [OF net(1-3) fits(1-3), of ?st] fits(4) by auto
  have "0 < length ?T" by (simp add: response_text_def)
  then obtain st' ds pool where l: "get_loop (in_size (n_in net) + 1) log_call st1 = Some st'" "concat ds = body" "g_got_header st'"
      "g_http st' = finished (response_header pool ver (code_value code) msg) hs (int (length ?T))" "g_err st' = 0"
      "g_world st' = g_world st1 @ [(HTTP_REQ_HEAD, ?T)] @ body_log ds @ [(HTTP_REQ_EOF, [])]"
    using head_loop [OF ok(1-3,5,6) refl data(2), of st1 ss body "in_size (n_in net) + 1"] b(2-5) net(4,5) data(1) by auto
  have "h_response_code (g_http st') = 200" using l(4) ok(4) by (simp add: finished_def Let_def response_header_def)
  then have "get_end log_call (st'\<lparr>g_req_err := HTTP_REQ_ERROR_NONE\<rparr>) = Some (g_world st', 0)"
    using l(5) by (simp add: get_end_def)
  moreover have "bytes_of ''http'' \<noteq> bytes_of ''file''" by code_simp
  ultimately show ?thesis using url b(1,6) l(1,2,6) by (intro exI [of _ ds]) (simp add: http_get_def del: get_loop.simps)
qed


definition sample_net :: net where
  "sample_net = \<lparr>n_socket = True, n_addr = \<lambda>_. bytes_of ''1.2.3.4:80'', n_connect = True, n_send = \<lambda>d. int (length d),
     n_in = segments [bytes_of ''HTTP/1.0 20'', bytes_of ''0 Ok'' @ [10] @ bytes_of ''Content-Length: 0x10'' @ [10, 10, 65], [66, 67]]\<rparr>"

definition sample_hdrs :: "(byte list \<times> byte list) list" where
  "sample_hdrs = [(bytes_of ''Content-Length'', bytes_of ''0x10'')]"

definition sample_url_text :: "byte list" where
  "sample_url_text = url_text (bytes_of ''http'') (bytes_of ''a.org'') (bytes_of ''80'') (bytes_of ''/x'') [(bytes_of ''q'', bytes_of ''1'')]"

definition sample_url :: url where
  "sample_url = url_zero\<lparr>u_url := Some sample_url_text, u_proto := Some (bytes_of ''http''), u_host := Some (bytes_of ''a.org''),
     u_port := code_value (bytes_of ''80''), u_path_args := Some (bytes_of ''/x'' @ 63 # args_text [(bytes_of ''q'', bytes_of ''1'')]),
     u_path := Some (bytes_of ''/x''), u_args_str := Some (args_text [(bytes_of ''q'', bytes_of ''1'')]),
     u_args := Some (map arg_node [(bytes_of ''q'', bytes_of ''1'')])\<rparr>"

lemma sample_url_parsed: "url_parse (sample_url_text @ [0]) = Some (sample_url, URL_PARSE_ERR_OK)"
  unfolding sample_url_text_def sample_url_def
proof (rule url_reads)
  have c: "\<forall>c\<in>set (bytes_of ''http''). is_alnum c \<or> c = 95 \<or> c = 45 \<or> c = 46"
    "\<forall>c\<in>set (bytes_of ''a.org''). is_alnum c \<or> c = 95 \<or> c = 45 \<or> c = 46"
    "\<forall>c\<in>set (bytes_of ''/x''). c \<noteq> 0 \<and> c \<noteq> 37 \<and> c \<noteq> 63" "hd (bytes_of ''/x'') = 47" by code_simp+
  show "name_chars (bytes_of ''http'')" "name_chars (bytes_of ''a.org'')" "path_ok (bytes_of ''/x'')"
    "length (bytes_of ''80'') < URL_BUF_SIZE"
    using c by (simp_all add: name_chars_def path_ok_def URL_BUF_SIZE_def bytes_of_def)
  show "port_ok (bytes_of ''80'')" "[(bytes_of ''q'', bytes_of ''1'')] \<noteq> []"
    "\<forall>(k, v)\<in>set [(bytes_of ''q'', bytes_of ''1'')]. k \<noteq> [] \<and> v \<noteq> []" by code_simp+
qed

lemma sample_texts:
  "length (resolve_text sample_url) \<le> 100" "length (connect_text sample_net sample_url) \<le> 100" "length (get_text sample_url) \<le> 100"
  by code_simp+


end
