(* ===== verification/HttpServer.thy ===== *)
theory HttpServer
  imports Select HttpPart
begin

text \<open>
  \<open>http_server.c\<close>: a server that sends files, as callbacks of the descriptor table. The clients live in the pool of the
  server, where nothing is ever given back: they are a list, and a pointer to one is its index. What the system does is
  part of the state \<open>world\<close>: the results of the calls that are still to come, the files, and a log of what was sent and
  closed. \<open>None\<close> is an access outside a buffer.

  \<open>stat\<close> and \<open>open\<close> find the files of the world and always succeed on them; directories are not among them. The set-up
  of the listening socket in \<open>main\<close> is not modelled, its loop is.
\<close>

definition HTTP_SERVER_CLIENT_BUF_MAX :: nat where "HTTP_SERVER_CLIENT_BUF_MAX = 4096"

record http_server_client_t =
  c_sock :: int
  c_recv_buf :: mem
  c_recv_len :: nat
  c_recv_max :: nat
  c_send_fd :: int
  c_send_off :: nat
  c_send_end :: nat
  c_http_req :: http_header
  c_pool :: "nat option"

definition client_zero :: http_server_client_t where
  "client_zero = \<lparr>c_sock = 0, c_recv_buf = replicate (HTTP_SERVER_CLIENT_BUF_MAX + 1) 0, c_recv_len = 0, c_recv_max = 0,
     c_send_fd = 0, c_send_off = 0, c_send_end = 0, c_http_req = http_zero, c_pool = None\<rparr>"

datatype accept_res = Accepted int | AcceptBlock | AcceptBroken
datatype recv_res = Arrived "byte list" | RecvBlock | RecvBroken
datatype send_res = Took nat | SendBlock | SendBroken
datatype sys_call = Sent int "byte list" | SentFile int "byte list" | Closed int | SockClosed int | PoolGone nat

record world =
  w_root :: "byte list"
  w_pool :: "nat option"
  w_accept_sock :: int
  w_clients :: "http_server_client_t list"
  w_next_pool :: nat
  w_files :: "byte list \<Rightarrow> byte list option"
  w_open :: "int \<Rightarrow> byte list"
  w_next_fd :: int
  w_accepts :: "accept_res list"
  w_in :: "int \<Rightarrow> recv_res list"
  w_sends :: "send_res list"
  w_log :: "sys_call list"

datatype server_fn = SelectAccept | ClientRead | ClientWrite

type_synonym table = "server_fn fdselect_t"

section \<open>The calls of the system\<close>

text \<open>\<open>recv\<close>: the bytes (none at the end of the stream), or nothing and whether it would have blocked.\<close>

definition sys_recv :: "world \<Rightarrow> int \<Rightarrow> nat \<Rightarrow> world \<times> byte list option \<times> bool" where
  "sys_recv w s m =
     (case w_in w s of
        [] \<Rightarrow> (w, Some [], False)
      | RecvBlock # r \<Rightarrow> (w\<lparr>w_in := (w_in w)(s := r)\<rparr>, None, True)
      | RecvBroken # r \<Rightarrow> (w\<lparr>w_in := (w_in w)(s := r)\<rparr>, None, False)
      | Arrived d # r \<Rightarrow> (w\<lparr>w_in := (w_in w)(s := (if length d \<le> m then r else Arrived (drop m d) # r))\<rparr>, Some (take m d), False))"

text \<open>The next result of \<open>send\<close> or \<open>sendfile\<close> for \<open>n\<close> bytes: how many were taken, \<open>- 1\<close> and whether it would have blocked.\<close>

definition sys_take :: "world \<Rightarrow> nat \<Rightarrow> world \<times> int \<times> bool" where
  "sys_take w n =
     (case w_sends w of
        [] \<Rightarrow> (w, - 1, True)
      | Took k # r \<Rightarrow> (w\<lparr>w_sends := r\<rparr>, int (min k n), False)
      | SendBlock # r \<Rightarrow> (w\<lparr>w_sends := r\<rparr>, - 1, True)
      | SendBroken # r \<Rightarrow> (w\<lparr>w_sends := r\<rparr>, - 1, False))"

definition sys_log :: "sys_call \<Rightarrow> world \<Rightarrow> world" where
  "sys_log x w = w\<lparr>w_log := w_log w @ [x]\<rparr>"

text \<open>\<open>send(sock, buf, snprintf(buf, 4096, ...), 0)\<close>: the length is that of the whole text, even if it did not fit.\<close>

definition send_text :: "world \<Rightarrow> int \<Rightarrow> byte list \<Rightarrow> (world \<times> int) option" where
  "send_text w s t =
     (if length t < 4096
      then (let (w, i, _) = sys_take w (length t)
            in Some (if i > 0 then sys_log (Sent s (take (nat i) t)) w else w, i))
      else None)"

section \<open>Clients\<close>

definition put_client :: "nat \<Rightarrow> http_server_client_t \<Rightarrow> world \<Rightarrow> world" where
  "put_client c x w = w\<lparr>w_clients := (w_clients w)[c := x]\<rparr>"

definition http_server_client_init :: "world \<Rightarrow> http_server_client_t \<times> world" where
  "http_server_client_init w =
     (let p = w_next_pool w;
          x = client_zero\<lparr>c_pool := Some p, c_http_req := fst (http_header_init (Some p) None),
                          c_recv_max := HTTP_SERVER_CLIENT_BUF_MAX\<rparr>
      in (x, w\<lparr>w_next_pool := p + 1\<rparr>))"

text \<open>The client that \<open>memset\<close> clears still has a place in the pool of the server. Descriptor 0 counts as an open file.\<close>

definition http_server_client_free :: "table \<Rightarrow> world \<Rightarrow> nat \<Rightarrow> (table \<times> world) option" where
  "http_server_client_free sel w c =
     do {
       x \<leftarrow> mem_get (w_clients w) (int c);
       (http, ev) \<leftarrow> http_header_clear (c_http_req x);
       let w = (if c_send_fd x \<ge> 0 then sys_log (Closed (c_send_fd x)) w else w);
       (sel, w) \<leftarrow> (if c_sock x \<noteq> 0 then do {
           (sel, _) \<leftarrow> fdselect_unset True sel (c_sock x) FDSELECT_WRITE;
           (sel, _) \<leftarrow> fdselect_unset True sel (c_sock x) FDSELECT_READ;
           Some (sel, sys_log (SockClosed (c_sock x)) w)
         }
         else Some (sel, w));
       let w = (case c_pool x of Some p \<Rightarrow> sys_log (PoolGone p) w | None \<Rightarrow> w);
       Some (sel, put_client c client_zero w)
     }"

text \<open>A call that would block passes the check: the client then has the socket \<open>- 1\<close>.\<close>

definition http_server_select_accept :: "table \<Rightarrow> world \<Rightarrow> (table \<times> world) option" where
  "http_server_select_accept sel w =
     (let (res, rest) = (case w_accepts w of [] \<Rightarrow> (AcceptBlock, []) | x # xs \<Rightarrow> (x, xs));
          w = w\<lparr>w_accepts := rest\<rparr>
      in case res of
           AcceptBroken \<Rightarrow> Some (sel, w)
         | _ \<Rightarrow> do {
             let sock = (case res of Accepted s \<Rightarrow> s | _ \<Rightarrow> - 1);
             let (x, w) = http_server_client_init w;
             let c = length (w_clients w);
             let w = w\<lparr>w_clients := w_clients w @ [x\<lparr>c_sock := sock\<rparr>]\<rparr>;
             (sel, _) \<leftarrow> fdselect_set True sel sock FDSELECT_READ (Some ClientRead) c;
             Some (sel, w)
           })"

definition str_or_null :: "byte list option \<Rightarrow> byte list" where
  "str_or_null s = (case s of None \<Rightarrow> bytes_of ''(null)'' | Some s \<Rightarrow> cstr s)"

definition crlf :: "byte list" where "crlf = [13, 10]"

definition ok_text :: "nat \<Rightarrow> byte list" where
  "ok_text n = bytes_of ''HTTP/1.0 200 Ok'' @ crlf @ bytes_of ''Pragma: no-cache'' @ crlf @
     bytes_of ''Cache-Control: no-cache'' @ crlf @ bytes_of ''Connection: keep-alive'' @ crlf @
     bytes_of ''Content-Length: '' @ bytes_of (dec_nat n) @ crlf @ bytes_of ''Content-Type: text/plain'' @ crlf @ crlf"

definition error_text :: "int \<Rightarrow> byte list option \<Rightarrow> byte list" where
  "error_text err uri = bytes_of ''HTTP/1.0 '' @ bytes_of (dec_int err) @ crlf @
     bytes_of ''Content-Type: text/html; charset=iso-8859-1'' @ crlf @ crlf @ bytes_of ''<HTML><HEAD>'' @ crlf @
     bytes_of ''<TITLE>HTTP Error '' @ bytes_of (dec_int err) @ bytes_of ''</TITLE>'' @ crlf @ bytes_of ''</HEAD><BODY>'' @ crlf @
     bytes_of ''<H1>HTTP Error '' @ bytes_of (dec_int err) @ bytes_of ''</H1>'' @ crlf @ str_or_null uri @ bytes_of ''<br>'' @ crlf @
     bytes_of ''<HR>'' @ crlf @ bytes_of ''</BODY></HTML>'' @ crlf"

text \<open>The file of a request that was read: the descriptor is opened, the header sent and the events exchanged; the status.\<close>

definition send_file :: "table \<Rightarrow> world \<Rightarrow> nat \<Rightarrow> http_server_client_t \<Rightarrow> (table \<times> world \<times> int) option" where
  "send_file sel w c x =
     (let path = take 4095 (w_root w @ str_or_null (h_uri (c_http_req x)))
      in case w_files w path of
           None \<Rightarrow> Some (sel, w, 404)
         | Some xs \<Rightarrow> do {
             let fd = w_next_fd w;
             let w = w\<lparr>w_open := (w_open w)(fd := xs), w_next_fd := fd + 1\<rparr>;
             let x = x\<lparr>c_send_fd := fd, c_send_off := 0, c_send_end := length xs\<rparr>;
             let w = put_client c x w;
             (w, i) \<leftarrow> send_text w (c_sock x) (ok_text (length xs));
             if i \<noteq> int (length (ok_text (length xs))) then Some (sel, w, 404)
             else do {
               (sel, _) \<leftarrow> fdselect_unset True sel (c_sock x) FDSELECT_READ;
               (sel, _) \<leftarrow> fdselect_set True sel (c_sock x) FDSELECT_WRITE (Some ClientWrite) c;
               Some (sel, w, 0)
             }
           })"

text \<open>The buffer holds \<open>n\<close> bytes: they are parsed, and a request that is complete is answered.\<close>

definition parse_request :: "table \<Rightarrow> world \<Rightarrow> nat \<Rightarrow> http_server_client_t \<Rightarrow> mem \<Rightarrow> int \<Rightarrow> (table \<times> world \<times> int) option" where
  "parse_request sel w c x buf n =
     do {
       buf \<leftarrow> wr8 buf n 0;
       (http, i) \<leftarrow> http_header_parse (c_http_req x) buf (nat n);
       let x = x\<lparr>c_recv_len := nat n, c_recv_buf := buf, c_http_req := http\<rparr>;
       let w = put_client c x w;
       if i = 0 then Some (sel, w, 0)
       else if i < 0 then Some (sel, w, - i)
       else send_file sel w c x
     }"

text \<open>
  What is read, up to the status: 0 to go on, above 0 a page with an error, below 0 the end. The check behind a failed
  \<open>recv\<close> is of \<open>i\<close> itself, which is not zero: the function goes on with one byte less, before the buffer if it was empty.
\<close>

definition read_request :: "table \<Rightarrow> world \<Rightarrow> nat \<Rightarrow> http_server_client_t \<Rightarrow> (table \<times> world \<times> int) option" where
  "read_request sel w c x =
     (if c_recv_max x \<le> c_recv_len x then Some (sel, w, 405)
      else (case sys_recv w (c_sock x) (c_recv_max x - c_recv_len x) of
        (w, None, True) \<Rightarrow> Some (sel, w, 0)
      | (w, None, False) \<Rightarrow> parse_request sel w c x (c_recv_buf x) (int (c_recv_len x) - 1)
      | (w, Some d, _) \<Rightarrow>
          if d = [] then Some (sel, w, - 1)
          else do {
            buf \<leftarrow> blit (c_recv_buf x) (int (c_recv_len x)) d;
            parse_request sel w c x buf (int (c_recv_len x + length d))
          }))"

definition http_server_client_select_read :: "table \<Rightarrow> world \<Rightarrow> nat \<Rightarrow> (table \<times> world) option" where
  "http_server_client_select_read sel w c =
     do {
       x \<leftarrow> mem_get (w_clients w) (int c);
       (sel, w, err) \<leftarrow> read_request sel w c x;
       x \<leftarrow> mem_get (w_clients w) (int c);
       w \<leftarrow> (if err > 0 then do { (w, _) \<leftarrow> send_text w (c_sock x) (error_text err (h_uri (c_http_req x))); Some w } else Some w);
       if err \<noteq> 0 then http_server_client_free sel w c else Some (sel, w)
     }"

text \<open>Nothing calls this function: a client is freed when its file has been sent.\<close>

definition http_server_client_end_req :: "table \<Rightarrow> world \<Rightarrow> nat \<Rightarrow> (table \<times> world \<times> int) option" where
  "http_server_client_end_req sel w c =
     do {
       x \<leftarrow> mem_get (w_clients w) (int c);
       let w = (if c_send_fd x \<ge> 0 then sys_log (Closed (c_send_fd x)) w else w);
       (sel, _) \<leftarrow> fdselect_unset True sel (c_sock x) FDSELECT_WRITE;
       (sel, _) \<leftarrow> fdselect_set True sel (c_sock x) FDSELECT_READ (Some ClientRead) c;
       (http, ev) \<leftarrow> http_header_clear (c_http_req x);
       Some (sel, put_client c (x\<lparr>c_send_fd := - 1, c_recv_len := 0, c_http_req := http\<rparr>) w, 0)
     }"

text \<open>\<open>sendfile\<close> moves the offset. A socket that would block ends the transfer like an error.\<close>

definition http_server_client_select_write :: "table \<Rightarrow> world \<Rightarrow> nat \<Rightarrow> (table \<times> world) option" where
  "http_server_client_select_write sel w c =
     do {
       x \<leftarrow> mem_get (w_clients w) (int c);
       if c_send_off x \<ge> c_send_end x then http_server_client_free sel w c
       else do {
         let d = take (c_send_end x - c_send_off x) (drop (c_send_off x) (w_open w (c_send_fd x)));
         let (w, i, block) = sys_take w (length d);
         if i \<le> 0 then http_server_client_free sel w c
         else Some (sel, put_client c (x\<lparr>c_send_off := c_send_off x + nat i\<rparr>) (sys_log (SentFile (c_sock x) (take (nat i) d)) w))
       }
     }"

definition server_call :: "(server_fn, world) handler_call" where
  "server_call h arg fd st sel w =
     (case h of SelectAccept \<Rightarrow> http_server_select_accept sel w
      | ClientRead \<Rightarrow> http_server_client_select_read sel w arg
      | ClientWrite \<Rightarrow> http_server_client_select_write sel w arg)"

text \<open>The server and the loop of \<open>main\<close>, for \<open>k\<close> turns; \<open>os\<close> is the system call \<open>select\<close>.\<close>

definition http_server_init :: "byte list \<Rightarrow> world \<Rightarrow> world" where
  "http_server_init root_dir w =
     w\<lparr>w_root := root_dir, w_pool := Some (w_next_pool w), w_accept_sock := 0, w_clients := [], w_next_pool := w_next_pool w + 1\<rparr>"

definition http_server_free :: "world \<Rightarrow> world" where
  "http_server_free w =
     (let w = (case w_pool w of Some p \<Rightarrow> sys_log (PoolGone p) w | None \<Rightarrow> w)
      in w\<lparr>w_root := [], w_pool := None, w_accept_sock := 0, w_clients := []\<rparr>)"

fun server_loop :: "os_select \<Rightarrow> nat \<Rightarrow> table \<Rightarrow> world \<Rightarrow> (table \<times> world) option" where
  "server_loop os 0 sel w = Some (sel, w)"
| "server_loop os (Suc k) sel w =
     do { (sel, w, _) \<leftarrow> fdselect_select os server_call sel 1 w; server_loop os k sel w }"

end
