(* ===== verification/HttpServerProps.thy ===== *)
theory HttpServerProps
  imports HttpServer
begin

text \<open>
  One client from its connection to the end: however its request is cut and however little of the file each call takes, it
  gets the header and the whole file, and everything that belongs to it is closed. The other entries of the table stay.
\<close>

section \<open>One ready descriptor\<close>

definition fds_valid :: "table \<Rightarrow> bool" where
  "fds_valid sel \<longleftrightarrow> (\<forall>f\<in>set (elems (fs_fd_array sel)). 0 \<le> f_fd f \<and> f_fd f < FD_SETSIZE)"

text \<open>A system where only the descriptor \<open>s\<close> is ever ready, for whatever is asked of it.\<close>

definition only_ready :: "int \<Rightarrow> os_select" where
  "only_ready s n rfds wfds tv = (1, filter (\<lambda>fd. fd = s) rfds, filter (\<lambda>fd. fd = s) wfds)"

lemma build_sets_members:
  assumes wf: "array_wf a" and v: "\<forall>f\<in>set (elems a). 0 \<le> f_fd f \<and> f_fd f < FD_SETSIZE"
  shows "n \<le> length (elems a) \<Longrightarrow> \<exists>m r' w'. build_sets a n fd_max r w = Some (m, r', w') \<and>
    (\<forall>fd. fd \<in> set r' \<longleftrightarrow> fd \<in> set r \<or> (\<exists>i<n. f_fd (elems a ! i) = fd \<and> f_events (elems a ! i) AND FDSELECT_READ \<noteq> 0)) \<and>
    (\<forall>fd. fd \<in> set w' \<longleftrightarrow> fd \<in> set w \<or> (\<exists>i<n. f_fd (elems a ! i) = fd \<and> f_events (elems a ! i) AND FDSELECT_WRITE \<noteq> 0))"
proof (induction n arbitrary: fd_max r w)
  case (Suc n)
  let ?f = "elems a ! n"
  have f: "elt_at a (Some (int n)) = Some ?f" "0 \<le> f_fd ?f" "f_fd ?f < FD_SETSIZE"
    using elt_at_index [OF wf, of n] v Suc.prems by auto
  let ?r = "if f_events ?f AND FDSELECT_READ \<noteq> 0 then r @ [f_fd ?f] else r"
  let ?w = "if f_events ?f AND FDSELECT_WRITE \<noteq> 0 then w @ [f_fd ?f] else w"
  have b: "build_sets a (Suc n) fd_max r w = build_sets a n (if f_fd ?f > fd_max then f_fd ?f else fd_max) ?r ?w"
    using f by (simp add: fd_set_add_def)
  have "n \<le> length (elems a)" using Suc.prems by simp
  from Suc.IH [OF this, of "if f_fd ?f > fd_max then f_fd ?f else fd_max" ?r ?w] obtain m r' w' where
    i: "build_sets a n (if f_fd ?f > fd_max then f_fd ?f else fd_max) ?r ?w = Some (m, r', w')"
      "\<forall>fd. fd \<in> set r' \<longleftrightarrow> fd \<in> set ?r \<or> (\<exists>i<n. f_fd (elems a ! i) = fd \<and> f_events (elems a ! i) AND FDSELECT_READ \<noteq> 0)"
      "\<forall>fd. fd \<in> set w' \<longleftrightarrow> fd \<in> set ?w \<or> (\<exists>i<n. f_fd (elems a ! i) = fd \<and> f_events (elems a ! i) AND FDSELECT_WRITE \<noteq> 0)"
    by blast
  show ?case unfolding b i(1) by (intro exI conjI; (rule refl)?) (use i(2,3) in \<open>auto simp: less_Suc_eq\<close>)
qed simp

lemma run_not_ready: "run_handler call False func farg fd st sel w = Some (sel, w)"
  by (cases func) (simp_all add: run_handler_def)

lemma dispatch_skip:
  assumes "array_wf (fs_fd_array sel)" "fs_select_break sel = 0" "set rfds \<subseteq> {s}" "set wfds \<subseteq> {s}"
  shows "n \<le> length (elems (fs_fd_array sel)) \<Longrightarrow> \<forall>i<n. f_fd (elems (fs_fd_array sel) ! i) \<noteq> s \<Longrightarrow>
    dispatch call rfds wfds n sel w = Some (sel, w)"
proof (induction n)
  case (Suc n)
  have e: "elt_at (fs_fd_array sel) (Some (int n)) = Some (elems (fs_fd_array sel) ! n)"
    using elt_at_index [OF assms(1), of n] Suc.prems(1) by simp
  have "f_fd (elems (fs_fd_array sel) ! n) \<notin> set rfds" "f_fd (elems (fs_fd_array sel) ! n) \<notin> set wfds"
    using assms(3,4) Suc.prems(2) by auto
  then show ?case using e Suc assms(2) by (simp add: run_not_ready)
qed simp

lemma dispatch_one:
  assumes ok: "sel_ok sel" "fs_select_break sel = 0" and f: "i < n" "elems (fs_fd_array sel) ! i = f" "f_fd f = s" "f_events f \<noteq> 0"
    and r: "set rfds = {s} \<and> wfds = [] \<and> f_read_func f = Some h \<and> call h (f_read_farg f) s FDSELECT_READ sel w = Some (sel', w') \<or>
      rfds = [] \<and> set wfds = {s} \<and> f_write_func f = Some h \<and> call h (f_write_farg f) s FDSELECT_WRITE sel w = Some (sel', w')"
    and br: "fs_select_break sel' = 1 \<or> sel' = sel"
  shows "n \<le> length (elems (fs_fd_array sel)) \<Longrightarrow> dispatch call rfds wfds n sel w = Some (sel', w')"
  using f(1)
proof (induction n)
  case (Suc n)
  let ?es = "elems (fs_fd_array sel)"
  have wf: "array_wf (fs_fd_array sel)" "distinct (map f_fd ?es)" using ok(1) by (simp_all add: sel_ok_def)
  have e: "elt_at (fs_fd_array sel) (Some (int n)) = Some (?es ! n)" using elt_at_index [OF wf(1), of n] Suc.prems(1) by simp
  have sub: "set rfds \<subseteq> {s}" "set wfds \<subseteq> {s}" using r by (elim disjE conjE; simp)+
  have other: "f_fd (?es ! j) \<noteq> s" if "j < length ?es" "j \<noteq> i" for j
  proof -
    have "j \<noteq> i" "i < length ?es" using that Suc.prems by simp_all
    then show ?thesis using nth_eq_iff_index_eq [OF wf(2), of j i] f(2,3) that(1) by simp
  qed
  show ?case
  proof (cases "n = i")
    case True
    have "\<forall>j<n. f_fd (?es ! j) \<noteq> s" using other Suc.prems(1) True by simp
    from dispatch_skip [OF wf(1) ok(2) sub _ this, of call w'] Suc.prems(1)
    have skip: "dispatch call rfds wfds n sel w' = Some (sel, w')" by simp
    show ?thesis using r
    proof
      assume a: "set rfds = {s} \<and> wfds = [] \<and> f_read_func f = Some h \<and> call h (f_read_farg f) s FDSELECT_READ sel w = Some (sel', w')"
      then have "run_handler call (f_fd f \<in> set rfds) (f_read_func f) (f_read_farg f) (f_fd f) FDSELECT_READ sel w = Some (sel', w')"
        using f(3) br by (auto simp: run_handler_def)
      then show ?thesis using e True f(2,4) br a ok(2) skip by (auto simp: run_not_ready)
    next
      assume a: "rfds = [] \<and> set wfds = {s} \<and> f_write_func f = Some h \<and> call h (f_write_farg f) s FDSELECT_WRITE sel w = Some (sel', w')"
      then have "run_handler call (f_fd f \<in> set wfds) (f_write_func f) (f_write_farg f) (f_fd f) FDSELECT_WRITE sel w = Some (sel', w')"
        using f(3) br by (auto simp: run_handler_def)
      then show ?thesis using e True f(2,4) br a ok(2) skip by (auto simp: run_not_ready)
    qed
  next
    case False
    then have ne: "f_fd (?es ! n) \<notin> set rfds" "f_fd (?es ! n) \<notin> set wfds" using other [of n] Suc.prems(1) sub by auto
    have "dispatch call rfds wfds n sel w = Some (sel', w')" using Suc False by simp
    then show ?thesis using e ne ok(2) by (simp add: run_not_ready)
  qed
qed simp

text \<open>A turn of the loop when the handler of \<open>s\<close> returns, having changed the table through \<open>fdselect_set\<close> or not at all.\<close>

lemma entry_index: "entry_of sel s = Some f \<Longrightarrow> \<exists>i<length (elems (fs_fd_array sel)). elems (fs_fd_array sel) ! i = f \<and> f_fd f = s"
  unfolding entry_of_def find_Some_iff by blast

lemma turn_one:
  assumes ok: "sel_ok sel" "fds_valid sel" and v: "view_of sel s = Some (ev, (hr, ra), (hw, wa))"
    and h: "ev = 1 \<and> hr = Some h \<and> server_call h ra s FDSELECT_READ (sel\<lparr>fs_select_break := 0\<rparr>) w = Some (sel', w') \<or>
      ev = 2 \<and> hw = Some h \<and> server_call h wa s FDSELECT_WRITE (sel\<lparr>fs_select_break := 0\<rparr>) w = Some (sel', w')"
    and br: "fs_select_break sel' = 1 \<or> sel' = sel\<lparr>fs_select_break := 0\<rparr>"
  shows "fdselect_select (only_ready s) server_call sel t w = Some (sel', w', 0)"
proof -
  let ?sel = "sel\<lparr>fs_select_break := 0\<rparr>" and ?a = "fs_fd_array sel"
  have ok': "sel_ok ?sel" "fs_select_break ?sel = 0" and wfa: "array_wf ?a" "distinct (map f_fd (elems ?a))" using ok(1) by (simp_all add: sel_ok_def)
  have n: "nat (array_count ?a) = length (elems ?a)" using wfa by (simp add: array_count_eq)
  obtain f where f: "entry_of sel s = Some f" "f_events f = ev" "f_read_func f = hr" "f_read_farg f = ra" "f_write_func f = hw" "f_write_farg f = wa"
    using v by (auto simp: view_of_def view_def)
  obtain i where i: "i < length (elems ?a)" "elems ?a ! i = f" "f_fd f = s" using entry_index [OF f(1)] by blast
  obtain m r' w2 where b: "build_sets ?a (length (elems ?a)) 0 [] [] = Some (m, r', w2)"
      "\<forall>fd. fd \<in> set r' \<longleftrightarrow> (\<exists>i<length (elems ?a). f_fd (elems ?a ! i) = fd \<and> f_events (elems ?a ! i) AND FDSELECT_READ \<noteq> 0)"
      "\<forall>fd. fd \<in> set w2 \<longleftrightarrow> (\<exists>i<length (elems ?a). f_fd (elems ?a ! i) = fd \<and> f_events (elems ?a ! i) AND FDSELECT_WRITE \<noteq> 0)"
    using build_sets_members [OF wfa(1), of "length (elems ?a)" 0 "[]" "[]"] ok(2) by (auto simp: fds_valid_def)
  have uniq: "j = i" if "j < length (elems ?a)" "f_fd (elems ?a ! j) = s" for j
    using nth_eq_iff_index_eq [OF wfa(2), of j i] that i by simp
  have mem: "s \<in> set r' \<longleftrightarrow> ev AND FDSELECT_READ \<noteq> 0" "s \<in> set w2 \<longleftrightarrow> ev AND FDSELECT_WRITE \<noteq> 0"
  proof -
    have "(\<exists>j<length (elems ?a). f_fd (elems ?a ! j) = s \<and> f_events (elems ?a ! j) AND e \<noteq> 0) \<longleftrightarrow> ev AND e \<noteq> 0" for e
      using uniq i f(2) by metis
    then show "s \<in> set r' \<longleftrightarrow> ev AND FDSELECT_READ \<noteq> 0" "s \<in> set w2 \<longleftrightarrow> ev AND FDSELECT_WRITE \<noteq> 0"
      using b(2) [rule_format, of s] b(3) [rule_format, of s] by (simp_all only:)
  qed
  let ?r = "filter (\<lambda>fd. fd = s) r'" and ?w = "filter (\<lambda>fd. fd = s) w2"
  have only: "set (filter (\<lambda>fd. fd = s) xs) = (if s \<in> set xs then {s} else {})" for xs by auto
  have none: "filter (\<lambda>fd. fd = s) xs = [] \<longleftrightarrow> s \<notin> set xs" for xs by (auto simp: filter_empty_conv)
  have "ev = 1 \<Longrightarrow> set ?r = {s} \<and> ?w = []" "ev = 2 \<Longrightarrow> ?r = [] \<and> set ?w = {s}"
    unfolding only none using mem by (simp_all add: fdselect_events)
  with h f(3-6) have "set ?r = {s} \<and> ?w = [] \<and> f_read_func f = Some h \<and> server_call h (f_read_farg f) s FDSELECT_READ ?sel w = Some (sel', w') \<or>
      ?r = [] \<and> set ?w = {s} \<and> f_write_func f = Some h \<and> server_call h (f_write_farg f) s FDSELECT_WRITE ?sel w = Some (sel', w')"
    by blast
  then have "dispatch server_call ?r ?w (length (elems ?a)) ?sel w = Some (sel', w')"
    using i f(2) h br by (intro dispatch_one [OF ok' i(1)]) auto
  then show ?thesis
    using b(1) n by (simp add: fdselect_select_def fdselect_select_os_def only_ready_def Let_def)
qed

section \<open>The table under the operations\<close>

lemma view_break [simp]: "view_of (sel\<lparr>fs_select_break := b\<rparr>) = view_of sel"
  by (simp add: view_of_def entry_of_def fun_eq_iff)

lemma sel_ok_break [simp]: "sel_ok (sel\<lparr>fs_select_break := b\<rparr>) \<longleftrightarrow> sel_ok sel" "fds_valid (sel\<lparr>fs_select_break := b\<rparr>) \<longleftrightarrow> fds_valid sel"
  by (simp_all add: sel_ok_def fds_valid_def)

lemma valid_view: "sel_ok sel \<Longrightarrow> fds_valid sel \<longleftrightarrow> (\<forall>x. view_of sel x \<noteq> None \<longrightarrow> 0 \<le> x \<and> x < FD_SETSIZE)"
proof -
  assume ok: "sel_ok sel"
  have "view_of sel x \<noteq> None \<longleftrightarrow> x \<in> f_fd ` set (elems (fs_fd_array sel))" for x
    by (auto simp: view_of_def entry_of_def find_None_iff)
  then show ?thesis by (auto simp: fds_valid_def)
qed

text \<open>The table after setting or unsetting a valid descriptor.\<close>

lemma set_view:
  assumes "sel_ok sel" "fds_valid sel" "0 \<le> fd" "fd < FD_SETSIZE" "events \<noteq> 0"
  shows "\<exists>sel'. fdselect_set True sel fd events func farg = Some (sel', 0) \<and> sel_ok sel' \<and> fds_valid sel' \<and> fs_select_break sel' = 1 \<and>
    view_of sel' = spec_set (view_of sel) fd events func farg"
proof -
  from fdselect_set_spec [OF assms(1), of fd events func farg] obtain sel' where
    s: "fdselect_set True sel fd events func farg = Some (sel', 0)" "sel_ok sel'" "fs_select_break sel' = 1"
      "entry_of sel' = entry_set (entry_of sel) fd events func farg" by blast
  have v: "view_of sel' = spec_set (view_of sel) fd events func farg"
    using view_entry_set [of "entry_of sel" fd events func farg] assms(5) by (simp add: view_of_def [abs_def] s(4))
  moreover have "fds_valid sel'"
    unfolding valid_view [OF s(2)] v using assms(2-4) valid_view [OF assms(1)] by (auto simp: spec_set_def Let_def split: option.splits)
  ultimately show ?thesis using s by blast
qed

lemma unset_view:
  assumes "sel_ok sel" "fds_valid sel" "0 \<le> fd" "fd < FD_SETSIZE" "events \<noteq> 0"
  shows "\<exists>sel'. fdselect_unset True sel fd events = Some (sel', 0) \<and> sel_ok sel' \<and> fds_valid sel' \<and> fs_select_break sel' = 1 \<and>
    view_of sel' = spec_set (view_of sel) fd events None 0"
  using set_view [of "sel\<lparr>fs_select_break := 1\<rparr>" fd events None 0] assms by (simp add: fdselect_unset_def)

section \<open>Reading the request\<close>

definition request_of :: "byte list \<Rightarrow> byte list \<Rightarrow> bool" where
  "request_of R uri \<longleftrightarrow> (\<exists>op ver hs. token_ok op \<and> token_ok uri \<and> token_ok ver \<and> take 5 (cstr (kept op)) \<noteq> bytes_of ''HTTP/'' \<and>
     list_all header_ok hs \<and> R = request_text op uri ver hs)"

lemma request_of_cut:
  "request_of R uri \<Longrightarrow> h_pool h = Some p \<Longrightarrow> j < length R \<Longrightarrow> take j m = take j R \<Longrightarrow> j \<le> length m \<Longrightarrow>
   http_header_parse h m j = Some (http_zero\<lparr>h_pool := Some p\<rparr>, 0)"
  unfolding request_of_def using request_cut by blast

lemma request_of_whole:
  assumes "request_of R uri" "h_pool h = Some p"
  shows "\<exists>http. http_header_parse h (R @ rest) (length R) = Some (http, 1) \<and> h_uri http = Some (kept uri) \<and> h_pool http = Some p"
proof -
  obtain op ver hs where r: "token_ok op" "token_ok uri" "token_ok ver" "take 5 (cstr (kept op)) \<noteq> bytes_of ''HTTP/''"
      "list_all header_ok hs" "R = request_text op uri ver hs" using assms(1) unfolding request_of_def by blast
  from message_complete [OF request_message [OF r(1-5), of rest p] assms(2) order_refl] show ?thesis
    by (simp add: r(6) finished_def request_header_def Let_def)
qed

definition client_at :: "world \<Rightarrow> nat \<Rightarrow> int \<Rightarrow> nat \<Rightarrow> http_server_client_t \<Rightarrow> bool" where
  "client_at w c s p x \<longleftrightarrow> mem_get (w_clients w) (int c) = Some x \<and> c_sock x = s \<and> c_pool x = Some p \<and> h_pool (c_http_req x) = Some p"

definition waits :: "byte list \<Rightarrow> nat \<Rightarrow> table \<Rightarrow> world \<Rightarrow> nat \<Rightarrow> int \<Rightarrow> nat \<Rightarrow> bool" where
  "waits R j sel w c s p \<longleftrightarrow> sel_ok sel \<and> fds_valid sel \<and> view_of sel s = Some (1, (Some ClientRead, c), (None, 0)) \<and>
     (\<exists>x. client_at w c s p x \<and> c_recv_len x = j \<and> c_recv_max x = 4096 \<and> length (c_recv_buf x) = 4097 \<and>
       take j (c_recv_buf x) = take j R)"

lemma put_client_same: "mem_get (w_clients w) (int c) = Some x \<Longrightarrow> mem_get (w_clients (put_client c y w)) (int c) = Some y"
  by (auto simp: put_client_def mem_get_def split: if_splits)

text \<open>Receiving the next piece: what is in the buffer afterwards.\<close>

lemma receive:
  assumes x: "c_recv_len x = j" "c_recv_max x = 4096" "length (c_recv_buf x) = 4097" "take j (c_recv_buf x) = take j R"
    and d: "w_in w s = Arrived d # r" "c_sock x = s" "d \<noteq> []" "j + length d \<le> length R" "length R \<le> 4096" "d = take (length d) (drop j R)"
  shows "\<exists>buf. length buf = 4097 \<and> take (j + length d) buf = take (j + length d) R \<and>
    read_request sel w c x =
      do {
        (http, i) \<leftarrow> http_header_parse (c_http_req x) buf (j + length d);
        let x = x\<lparr>c_recv_len := j + length d, c_recv_buf := buf, c_http_req := http\<rparr>;
        let w = put_client c x (w\<lparr>w_in := (w_in w)(s := r)\<rparr>);
        if i = 0 then Some (sel, w, 0) else if i < 0 then Some (sel, w, - i) else send_file sel w c x
      }"
proof -
  let ?n = "j + length d"
  let ?b = "take j R @ d @ drop ?n (c_recv_buf x)"
  have l: "length (take j R) = j" "j < 4096" using d(3-5) by (cases d; auto)+
  have b: "blit (c_recv_buf x) (int j) d = Some ?b" using x(3,4) d(4,5) by (simp add: blit_def)
  have lb: "length ?b = 4097" using x(3) l d(4,5) by simp
  have z: "wr8 ?b (int ?n) 0 = Some (?b[?n := 0])" using lb d(4,5) by (simp add: wr8_def mem_put_def del: of_nat_add)
  have "take ?n (?b[?n := 0]) = take ?n ?b" by simp
  also have "\<dots> = take j R @ d" using l(1) by simp
  also have "\<dots> = take ?n R" unfolding take_add using d(6) by simp
  finally have t: "take ?n (?b[?n := 0]) = take ?n R" .
  have r: "sys_recv w (c_sock x) (c_recv_max x - c_recv_len x) = (w\<lparr>w_in := (w_in w)(s := r)\<rparr>, Some d, False)"
    using d x(1,2) by (simp add: sys_recv_def)
  show ?thesis
  proof (intro exI [of _ "?b[?n := 0]"] conjI)
    show "length (?b[?n := 0]) = 4097" using lb by simp
    show "take ?n (?b[?n := 0]) = take ?n R" by (rule t)
  qed (use r b z x(1,2) l(2) d(3) in \<open>simp add: read_request_def parse_request_def del: of_nat_add take_append\<close>)
qed

text \<open>A piece that does not complete the request.\<close>

lemma read_part:
  assumes w: "waits R j sel w c s p" and req: "request_of R uri" and d: "w_in w s = Arrived d # r" "d \<noteq> []"
      "j + length d < length R" "length R \<le> 4096" "d = take (length d) (drop j R)"
  shows "\<exists>x. fdselect_select (only_ready s) server_call sel t w =
      Some (sel\<lparr>fs_select_break := 0\<rparr>, put_client c x (w\<lparr>w_in := (w_in w)(s := r)\<rparr>), 0) \<and>
    waits R (j + length d) (sel\<lparr>fs_select_break := 0\<rparr>) (put_client c x (w\<lparr>w_in := (w_in w)(s := r)\<rparr>)) c s p"
proof -
  let ?sel = "sel\<lparr>fs_select_break := 0\<rparr>" and ?w = "w\<lparr>w_in := (w_in w)(s := r)\<rparr>"
  obtain x where x: "client_at w c s p x" "c_recv_len x = j" "c_recv_max x = 4096" "length (c_recv_buf x) = 4097"
      "take j (c_recv_buf x) = take j R" using w by (auto simp: waits_def)
  have c: "c_sock x = s" "h_pool (c_http_req x) = Some p" "mem_get (w_clients w) (int c) = Some x" using x(1) by (simp_all add: client_at_def)
  from receive [OF x(2-5) d(1) c(1) d(2) _ d(4,5), of ?sel c] d(3) obtain buf where
    b: "length buf = 4097" "take (j + length d) buf = take (j + length d) R"
      "read_request ?sel w c x =
        do {
          (http, i) \<leftarrow> http_header_parse (c_http_req x) buf (j + length d);
          let x = x\<lparr>c_recv_len := j + length d, c_recv_buf := buf, c_http_req := http\<rparr>;
          let w = put_client c x ?w;
          if i = 0 then Some (?sel, w, 0) else if i < 0 then Some (?sel, w, - i) else send_file ?sel w c x
        }" by auto
  let ?x = "x\<lparr>c_recv_len := j + length d, c_recv_buf := buf, c_http_req := http_zero\<lparr>h_pool := Some p\<rparr>\<rparr>"
  have "http_header_parse (c_http_req x) buf (j + length d) = Some (http_zero\<lparr>h_pool := Some p\<rparr>, 0)"
    using d(3,4) b(1) by (intro request_of_cut [OF req c(2) d(3) b(2)]) simp
  with b(3) have "read_request ?sel w c x = Some (?sel, put_client c ?x ?w, 0)" by simp
  moreover have g: "mem_get (w_clients (put_client c ?x ?w)) (int c) = Some ?x" using c(3) by (intro put_client_same [of _ _ x]) simp
  ultimately have "server_call ClientRead c s FDSELECT_READ ?sel w = Some (?sel, put_client c ?x ?w)"
    using c(3) by (simp add: server_call_def http_server_client_select_read_def)
  then have "fdselect_select (only_ready s) server_call sel t w = Some (?sel, put_client c ?x ?w, 0)"
    using w by (intro turn_one) (auto simp: waits_def)
  moreover have "waits R (j + length d) ?sel (put_client c ?x ?w) c s p"
    using w x(1,3) b(1,2) g by (auto simp: waits_def client_at_def)
  ultimately show ?thesis by blast
qed

text \<open>The client whose request is being answered: the rest of the file is to be sent.\<close>

definition answers :: "byte list \<Rightarrow> nat \<Rightarrow> table \<Rightarrow> world \<Rightarrow> nat \<Rightarrow> int \<Rightarrow> nat \<Rightarrow> int \<Rightarrow> bool" where
  "answers xs off sel w c s p fd \<longleftrightarrow> sel_ok sel \<and> fds_valid sel \<and> view_of sel s = Some (2, (None, 0), (Some ClientWrite, c)) \<and>
     w_open w fd = xs \<and> (\<exists>x. client_at w c s p x \<and> c_send_fd x = fd \<and> c_send_off x = off \<and> c_send_end x = length xs)"

text \<open>Exchanging the read for the write event.\<close>

lemma exchange_events:
  assumes "sel_ok sel" "fds_valid sel" "view_of sel s = Some (1, (Some ClientRead, c), (None, 0))" "0 \<le> s" "s < FD_SETSIZE"
  shows "\<exists>sel1 sel2. fdselect_unset True sel s FDSELECT_READ = Some (sel1, 0) \<and>
    fdselect_set True sel1 s FDSELECT_WRITE (Some ClientWrite) c = Some (sel2, 0) \<and> sel_ok sel2 \<and> fds_valid sel2 \<and>
    fs_select_break sel2 = 1 \<and> view_of sel2 = (view_of sel)(s \<mapsto> (2, (None, 0), (Some ClientWrite, c)))"
proof -
  obtain sel1 where 1: "fdselect_unset True sel s FDSELECT_READ = Some (sel1, 0)" "sel_ok sel1" "fds_valid sel1"
      "view_of sel1 = spec_set (view_of sel) s FDSELECT_READ None 0"
    using unset_view [OF assms(1,2,4,5), of FDSELECT_READ] by (auto simp: fdselect_events)
  obtain sel2 where 2: "fdselect_set True sel1 s FDSELECT_WRITE (Some ClientWrite) c = Some (sel2, 0)" "sel_ok sel2" "fds_valid sel2"
      "fs_select_break sel2 = 1" "view_of sel2 = spec_set (view_of sel1) s FDSELECT_WRITE (Some ClientWrite) c"
    using set_view [OF 1(2,3) assms(4,5), of FDSELECT_WRITE "Some ClientWrite" c] by (auto simp: fdselect_events)
  have "view_of sel1 = (view_of sel)(s := None)"
    unfolding 1(4) using assms(3) by (simp add: spec_set_def fdselect_events Let_def)
  then have "view_of sel2 = (view_of sel)(s \<mapsto> (2, (None, 0), (Some ClientWrite, c)))"
    unfolding 2(5) by (simp add: spec_set_def fdselect_events Let_def)
  with 1(1) 2 show ?thesis by blast
qed

lemma send_all:
  assumes "w_sends w = Took n # r" "length t \<le> n" "length t < 4096" "t \<noteq> []"
  shows "send_text w s t = Some (sys_log (Sent s t) (w\<lparr>w_sends := r\<rparr>), int (length t))"
  using assms by (simp add: send_text_def sys_take_def)

lemma ok_text_nonempty: "ok_text n \<noteq> []"
  by (simp add: ok_text_def bytes_of_def)

text \<open>The piece that completes the request.\<close>

lemma read_last:
  assumes w: "waits R j sel w c s p" and req: "request_of R uri" and s: "0 \<le> s" "s < FD_SETSIZE"
    and d: "w_in w s = Arrived d # r" "d \<noteq> []" "d = drop j R" "length R \<le> 4096" "j \<le> length R"
    and ff: "w_files w (take 4095 (w_root w @ cstr (kept uri))) = Some xs"
    and send: "w_sends w = Took n # sends" "length (ok_text (length xs)) \<le> n" "length (ok_text (length xs)) < 4096"
  shows "\<exists>sel' w'. fdselect_select (only_ready s) server_call sel t w = Some (sel', w', 0) \<and>
    answers xs 0 sel' w' c s p (w_next_fd w) \<and> view_of sel' = (view_of sel)(s \<mapsto> (2, (None, 0), (Some ClientWrite, c))) \<and>
    w_log w' = w_log w @ [Sent s (ok_text (length xs))] \<and> w_sends w' = sends"
proof -
  let ?sel = "sel\<lparr>fs_select_break := 0\<rparr>" and ?w = "w\<lparr>w_in := (w_in w)(s := r)\<rparr>"
  obtain x where x: "client_at w c s p x" "c_recv_len x = j" "c_recv_max x = 4096" "length (c_recv_buf x) = 4097"
      "take j (c_recv_buf x) = take j R" using w by (auto simp: waits_def)
  have c: "c_sock x = s" "h_pool (c_http_req x) = Some p" "mem_get (w_clients w) (int c) = Some x" using x(1) by (simp_all add: client_at_def)
  have n: "j + length d = length R" "d = take (length d) (drop j R)" using d(3,5) by simp_all
  obtain buf where b: "length buf = 4097" "take (j + length d) buf = take (j + length d) R"
      "read_request ?sel w c x =
        do {
          (http, i) \<leftarrow> http_header_parse (c_http_req x) buf (j + length d);
          let x = x\<lparr>c_recv_len := j + length d, c_recv_buf := buf, c_http_req := http\<rparr>;
          let w = put_client c x ?w;
          if i = 0 then Some (?sel, w, 0) else if i < 0 then Some (?sel, w, - i) else send_file ?sel w c x
        }" using receive [OF x(2-5) d(1) c(1) d(2) _ d(4) n(2), of ?sel c] n(1) by auto
  have "buf = R @ drop (length R) buf" using b(2) n(1) by (metis append_take_drop_id take_all order_refl)
  with request_of_whole [OF req c(2), of "drop (length R) buf"] obtain http where
    h: "http_header_parse (c_http_req x) buf (length R) = Some (http, 1)" "h_uri http = Some (kept uri)" "h_pool http = Some p" by auto
  let ?x = "x\<lparr>c_recv_len := length R, c_recv_buf := buf, c_http_req := http\<rparr>"
  let ?y = "?x\<lparr>c_send_fd := w_next_fd w, c_send_off := 0, c_send_end := length xs\<rparr>"
  let ?w1 = "put_client c ?x ?w"
  let ?w2 = "put_client c ?y (?w1\<lparr>w_open := (w_open w)(w_next_fd w := xs), w_next_fd := w_next_fd w + 1\<rparr>)"
  let ?w3 = "sys_log (Sent s (ok_text (length xs))) (?w2\<lparr>w_sends := sends\<rparr>)"
  from exchange_events [of ?sel s c] w s obtain sel1 sel2 where
    e: "fdselect_unset True ?sel s FDSELECT_READ = Some (sel1, 0)" "fdselect_set True sel1 s FDSELECT_WRITE (Some ClientWrite) c = Some (sel2, 0)"
      "sel_ok sel2" "fds_valid sel2" "fs_select_break sel2 = 1" "view_of sel2 = (view_of sel)(s \<mapsto> (2, (None, 0), (Some ClientWrite, c)))"
    by (auto simp: waits_def)
  have "send_text ?w2 s (ok_text (length xs)) = Some (?w3, int (length (ok_text (length xs))))"
    using send by (intro send_all) (simp_all add: put_client_def ok_text_nonempty)
  then have "send_file ?sel ?w1 c ?x = Some (sel2, ?w3, 0)"
    using e(1,2) ff h(2) c(1) by (simp add: send_file_def str_or_null_def put_client_def Let_def)
  then have "read_request ?sel w c x = Some (sel2, ?w3, 0)" using b(3) h(1) n(1) by (simp add: Let_def)
  moreover have g: "mem_get (w_clients ?w3) (int c) = Some ?y"
    using c(3) by (auto simp: sys_log_def put_client_def mem_get_def split: if_splits)
  ultimately have "server_call ClientRead c s FDSELECT_READ ?sel w = Some (sel2, ?w3)"
    using c(3) by (simp add: server_call_def http_server_client_select_read_def)
  then have "fdselect_select (only_ready s) server_call sel t w = Some (sel2, ?w3, 0)"
    using w e(5) by (intro turn_one) (auto simp: waits_def)
  moreover have "answers xs 0 sel2 ?w3 c s p (w_next_fd w)"
    using e(3,4,6) g x(1) h(3) by (auto simp: answers_def client_at_def sys_log_def put_client_def)
  moreover have "w_log ?w3 = w_log w @ [Sent s (ok_text (length xs))]" "w_sends ?w3 = sends" by (simp_all add: sys_log_def put_client_def)
  ultimately show ?thesis using e(6) by blast
qed

section \<open>Sending the file\<close>

lemma write_part:
  assumes a: "answers xs off sel w c s p fd" and off: "off < length xs" and send: "w_sends w = Took n # sends" "0 < n"
  shows "\<exists>w'. fdselect_select (only_ready s) server_call sel t w = Some (sel\<lparr>fs_select_break := 0\<rparr>, w', 0) \<and>
    answers xs (off + min n (length xs - off)) (sel\<lparr>fs_select_break := 0\<rparr>) w' c s p fd \<and>
    w_log w' = w_log w @ [SentFile s (take n (drop off xs))] \<and> w_sends w' = sends"
proof -
  let ?sel = "sel\<lparr>fs_select_break := 0\<rparr>"
  obtain x where x: "client_at w c s p x" "c_send_fd x = fd" "c_send_off x = off" "c_send_end x = length xs" "w_open w fd = xs"
    using a by (auto simp: answers_def)
  have c: "c_sock x = s" "mem_get (w_clients w) (int c) = Some x" using x(1) by (simp_all add: client_at_def)
  define m where "m = min n (length xs - off)"
  let ?w = "put_client c (x\<lparr>c_send_off := off + m\<rparr>) (sys_log (SentFile s (take m (drop off xs))) (w\<lparr>w_sends := sends\<rparr>))"
  have k: "sys_take w (length xs - off) = (w\<lparr>w_sends := sends\<rparr>, int m, False)" using send(1) by (simp add: sys_take_def m_def)
  have "0 < m" using off send(2) by (simp add: m_def)
  then have "server_call ClientWrite c s FDSELECT_WRITE ?sel w = Some (?sel, ?w)"
    using c x(2-5) off k by (simp add: server_call_def http_server_client_select_write_def)
  then have "fdselect_select (only_ready s) server_call sel t w = Some (?sel, ?w, 0)"
    using a by (intro turn_one) (auto simp: answers_def)
  moreover have "mem_get (w_clients ?w) (int c) = Some (x\<lparr>c_send_off := off + m\<rparr>)"
    using c(2) by (intro put_client_same [of _ _ x]) (simp add: sys_log_def)
  then have "answers xs (off + m) ?sel ?w c s p fd"
    using a x by (auto simp: answers_def client_at_def sys_log_def put_client_def)
  moreover have "take m (drop off xs) = take n (drop off xs)" by (simp add: m_def min_def)
  then have "w_log ?w = w_log w @ [SentFile s (take n (drop off xs))]" "w_sends ?w = sends"
    by (simp_all add: put_client_def sys_log_def)
  ultimately show ?thesis by (simp only: m_def) blast
qed

lemma write_end:
  assumes a: "answers xs off sel w c s p fd" and off: "length xs \<le> off" and s: "0 < s" "s < FD_SETSIZE" and fd: "0 \<le> fd"
  shows "\<exists>sel' w'. fdselect_select (only_ready s) server_call sel t w = Some (sel', w', 0) \<and>
    view_of sel' = (view_of sel)(s := None) \<and> w_log w' = w_log w @ [Closed fd, SockClosed s, PoolGone p] \<and> w_sends w' = w_sends w"
proof -
  let ?sel = "sel\<lparr>fs_select_break := 0\<rparr>"
  obtain x where x: "client_at w c s p x" "c_send_fd x = fd" "c_send_off x = off" "c_send_end x = length xs"
    using a by (auto simp: answers_def)
  have c: "c_sock x = s" "c_pool x = Some p" "h_pool (c_http_req x) = Some p" "mem_get (w_clients w) (int c) = Some x"
    using x(1) by (simp_all add: client_at_def)
  have t: "sel_ok ?sel" "fds_valid ?sel" "view_of sel s = Some (2, (None, 0), (Some ClientWrite, c))" using a by (simp_all add: answers_def)
  obtain sel1 where 1: "fdselect_unset True ?sel s FDSELECT_WRITE = Some (sel1, 0)" "sel_ok sel1" "fds_valid sel1"
      "view_of sel1 = spec_set (view_of sel) s FDSELECT_WRITE None 0"
    using unset_view [OF t(1,2), of s FDSELECT_WRITE] s by (auto simp: fdselect_events)
  obtain sel2 where 2: "fdselect_unset True sel1 s FDSELECT_READ = Some (sel2, 0)" "fs_select_break sel2 = 1"
      "view_of sel2 = spec_set (view_of sel1) s FDSELECT_READ None 0"
    using unset_view [OF 1(2,3), of s FDSELECT_READ] s by (auto simp: fdselect_events)
  have "view_of sel1 = (view_of sel)(s := None)" unfolding 1(4) using t(3) by (simp add: spec_set_def fdselect_events Let_def)
  then have v: "view_of sel2 = (view_of sel)(s := None)" unfolding 2(3) by (simp add: spec_set_def fdselect_events Let_def)
  let ?w = "put_client c client_zero (sys_log (PoolGone p) (sys_log (SockClosed s) (sys_log (Closed fd) w)))"
  have "server_call ClientWrite c s FDSELECT_WRITE ?sel w = Some (sel2, ?w)"
    using c x(2-4) off s fd 1(1) 2(1)
    by (simp add: server_call_def http_server_client_select_write_def http_server_client_free_def http_header_clear_def sys_log_def)
  then have "fdselect_select (only_ready s) server_call sel t w = Some (sel2, ?w, 0)"
    using a 2(2) by (intro turn_one) (auto simp: answers_def)
  moreover have "w_log ?w = w_log w @ [Closed fd, SockClosed s, PoolGone p]" "w_sends ?w = w_sends w" by (simp_all add: put_client_def sys_log_def)
  ultimately show ?thesis using v by blast
qed

lemma server_loop_turn:
  "fdselect_select os server_call sel 1 w = Some (sel1, w1, 0) \<Longrightarrow> server_loop os k sel1 w1 = r \<Longrightarrow> server_loop os (Suc k) sel w = r"
  by simp

lemma write_all:
  assumes s: "0 < s" "s < FD_SETSIZE" and fd: "0 \<le> fd"
  shows "answers xs off sel w c s p fd \<Longrightarrow> w_sends w = map Took ns @ r \<Longrightarrow> \<forall>n\<in>set ns. 0 < n \<Longrightarrow> off \<le> length xs \<Longrightarrow>
    length xs - off \<le> sum_list ns \<Longrightarrow>
    \<exists>k sel' w' ds. server_loop (only_ready s) k sel w = Some (sel', w') \<and> concat ds = drop off xs \<and>
      w_log w' = w_log w @ map (SentFile s) ds @ [Closed fd, SockClosed s, PoolGone p] \<and> view_of sel' = (view_of sel)(s := None)"
proof (induction ns arbitrary: off sel w)
  case Nil
  then have "length xs \<le> off" by simp
  from write_end [OF Nil.prems(1) this s fd, of 1] obtain sel' w' where
    e: "fdselect_select (only_ready s) server_call sel 1 w = Some (sel', w', 0)" "view_of sel' = (view_of sel)(s := None)"
      "w_log w' = w_log w @ [Closed fd, SockClosed s, PoolGone p]" by blast
  have "server_loop (only_ready s) 1 sel w = Some (sel', w')" using e(1) by simp
  with e(2,3) \<open>length xs \<le> off\<close> show ?case by (intro exI [of _ 1] exI [of _ sel'] exI [of _ w'] exI [of _ "[]"]) simp
next
  case (Cons n ns)
  show ?case
  proof (cases "off < length xs")
    case True
    let ?off = "off + min n (length xs - off)"
    from write_part [OF Cons.prems(1) True, of n "map Took ns @ r" 1] Cons.prems(2,3) obtain w1 where
      t: "fdselect_select (only_ready s) server_call sel 1 w = Some (sel\<lparr>fs_select_break := 0\<rparr>, w1, 0)"
        "answers xs ?off (sel\<lparr>fs_select_break := 0\<rparr>) w1 c s p fd" "w_log w1 = w_log w @ [SentFile s (take n (drop off xs))]"
        "w_sends w1 = map Took ns @ r" by auto
    have "\<forall>n\<in>set ns. 0 < n" "?off \<le> length xs" "length xs - ?off \<le> sum_list ns" using Cons.prems(3-5) by auto
    from Cons.IH [OF t(2,4) this] obtain k sel' w' ds where
      i: "server_loop (only_ready s) k (sel\<lparr>fs_select_break := 0\<rparr>) w1 = Some (sel', w')" "concat ds = drop ?off xs"
        "w_log w' = w_log w1 @ map (SentFile s) ds @ [Closed fd, SockClosed s, PoolGone p]" "view_of sel' = (view_of sel)(s := None)" unfolding view_break by blast
    have "drop ?off xs = drop n (drop off xs)" using True by (auto simp: min_def add.commute)
    with i(2) have "concat ds = drop n (drop off xs)" by (rule trans)
    then have "concat (take n (drop off xs) # ds) = drop off xs" by (simp only: concat.simps append_take_drop_id)
    with server_loop_turn [OF t(1) i(1)] i(3,4) t(3) show ?thesis
      by (intro exI [of _ "Suc k"] exI [of _ sel'] exI [of _ w'] exI [of _ "take n (drop off xs) # ds"]) simp
  next
    case False
    then have "length xs \<le> off" by simp
    from write_end [OF Cons.prems(1) this s fd, of 1] obtain sel' w' where
      e: "fdselect_select (only_ready s) server_call sel 1 w = Some (sel', w', 0)" "view_of sel' = (view_of sel)(s := None)"
        "w_log w' = w_log w @ [Closed fd, SockClosed s, PoolGone p]" by blast
    have "server_loop (only_ready s) 1 sel w = Some (sel', w')" using e(1) by simp
    with e(2,3) \<open>length xs \<le> off\<close> show ?thesis by (intro exI [of _ 1] exI [of _ sel'] exI [of _ w'] exI [of _ "[]"]) simp
  qed
qed

section \<open>One client\<close>

lemma read_all:
  assumes req: "request_of R uri" "length R \<le> 4096" and s: "0 \<le> s" "s < FD_SETSIZE"
    and send: "length (ok_text (length xs)) \<le> n" "length (ok_text (length xs)) < 4096"
  shows "waits R j sel w c s p \<Longrightarrow> w_in w s = map Arrived ds \<Longrightarrow> [] \<notin> set ds \<Longrightarrow> concat ds = drop j R \<Longrightarrow> j < length R \<Longrightarrow>
    w_files w (take 4095 (w_root w @ cstr (kept uri))) = Some xs \<Longrightarrow> w_sends w = Took n # sends \<Longrightarrow>
    \<exists>k sel' w'. server_loop (only_ready s) k sel w = Some (sel', w') \<and> answers xs 0 sel' w' c s p (w_next_fd w) \<and>
      view_of sel' = (view_of sel)(s \<mapsto> (2, (None, 0), (Some ClientWrite, c))) \<and>
      w_log w' = w_log w @ [Sent s (ok_text (length xs))] \<and> w_sends w' = sends"
proof (induction ds arbitrary: j sel w)
  case Nil
  then show ?case by simp
next
  case (Cons d ds)
  have d: "w_in w s = Arrived d # map Arrived ds" "d \<noteq> []" using Cons.prems(2,3) by auto
  have dj: "d @ concat ds = drop j R" using Cons.prems(4) by simp
  have le: "length d \<le> length (drop j R)" using arg_cong [OF dj, of length] by simp
  have dt: "d = take (length d) (drop j R)" using arg_cong [OF dj, of "take (length d)"] by simp
  have rest: "concat ds = drop (j + length d) R" using arg_cong [OF dj, of "drop (length d)"] by (simp add: add.commute)
  show ?case
  proof (cases "j + length d < length R")
    case True
    from read_part [OF Cons.prems(1) req(1) d True req(2) dt, of 1] obtain x where
      t: "fdselect_select (only_ready s) server_call sel 1 w =
          Some (sel\<lparr>fs_select_break := 0\<rparr>, put_client c x (w\<lparr>w_in := (w_in w)(s := map Arrived ds)\<rparr>), 0)"
        "waits R (j + length d) (sel\<lparr>fs_select_break := 0\<rparr>) (put_client c x (w\<lparr>w_in := (w_in w)(s := map Arrived ds)\<rparr>)) c s p" by blast
    let ?w = "put_client c x (w\<lparr>w_in := (w_in w)(s := map Arrived ds)\<rparr>)"
    have same: "w_in ?w s = map Arrived ds" "w_files ?w = w_files w" "w_root ?w = w_root w" "w_sends ?w = w_sends w"
        "w_next_fd ?w = w_next_fd w" "w_log ?w = w_log w" by (simp_all add: put_client_def)
    have "w_files ?w (take 4095 (w_root ?w @ cstr (kept uri))) = Some xs" "w_sends ?w = Took n # sends" "[] \<notin> set ds"
      using Cons.prems(3,6,7) by (simp_all add: same)
    from Cons.IH [OF t(2) same(1) this(3) rest True this(1,2)] obtain k sel' w' where
      i: "server_loop (only_ready s) k (sel\<lparr>fs_select_break := 0\<rparr>) ?w = Some (sel', w')" "answers xs 0 sel' w' c s p (w_next_fd w)"
        "view_of sel' = (view_of sel)(s \<mapsto> (2, (None, 0), (Some ClientWrite, c)))"
        "w_log w' = w_log w @ [Sent s (ok_text (length xs))]" "w_sends w' = sends" unfolding view_break same by blast
    from server_loop_turn [OF t(1) i(1)] i(2-5) show ?thesis by blast
  next
    case False
    then have "length d = length (drop j R)" using le by simp
    then have whole: "d = drop j R" using dt by simp
    have "j \<le> length R" using Cons.prems(5) by simp
    from read_last [OF Cons.prems(1) req(1) s d whole req(2) this Cons.prems(6,7) send, of 1] obtain sel' w' where
      t: "fdselect_select (only_ready s) server_call sel 1 w = Some (sel', w', 0)" "answers xs 0 sel' w' c s p (w_next_fd w)"
        "view_of sel' = (view_of sel)(s \<mapsto> (2, (None, 0), (Some ClientWrite, c)))"
        "w_log w' = w_log w @ [Sent s (ok_text (length xs))]" "w_sends w' = sends" by blast
    have "server_loop (only_ready s) 1 sel w = Some (sel', w')" using t(1) by simp
    with t(2-5) show ?thesis by blast
  qed
qed

lemma accept_waits:
  assumes ok: "sel_ok sel" "fds_valid sel" and new: "view_of sel s = None" and s: "0 \<le> s" "s < FD_SETSIZE"
    and a: "w_accepts w = Accepted s # r"
  shows "\<exists>sel' w'. http_server_select_accept sel w = Some (sel', w') \<and>
    waits R 0 sel' w' (length (w_clients w)) s (w_next_pool w) \<and> view_of sel' = (view_of sel)(s \<mapsto> (1, (Some ClientRead, length (w_clients w)), (None, 0))) \<and>
    w_in w' = w_in w \<and> w_files w' = w_files w \<and> w_root w' = w_root w \<and> w_sends w' = w_sends w \<and> w_log w' = w_log w \<and> w_next_fd w' = w_next_fd w"
proof -
  let ?c = "length (w_clients w)" and ?p = "w_next_pool w"
  let ?x = "client_zero\<lparr>c_pool := Some ?p, c_http_req := http_zero\<lparr>h_free_pool := False, h_pool := Some ?p\<rparr>, c_recv_max := HTTP_SERVER_CLIENT_BUF_MAX, c_sock := s\<rparr>"
  let ?w = "w\<lparr>w_accepts := r, w_next_pool := ?p + 1, w_clients := w_clients w @ [?x]\<rparr>"
  obtain sel' where f: "fdselect_set True sel s FDSELECT_READ (Some ClientRead) ?c = Some (sel', 0)" "sel_ok sel'" "fds_valid sel'"
      "view_of sel' = spec_set (view_of sel) s FDSELECT_READ (Some ClientRead) ?c"
    using set_view [OF ok s, of FDSELECT_READ "Some ClientRead" ?c] by (auto simp: fdselect_events)
  have v: "view_of sel' = (view_of sel)(s \<mapsto> (1, (Some ClientRead, ?c), (None, 0)))"
    unfolding f(4) using new by (simp add: spec_set_def fdselect_events Let_def)
  have "http_server_select_accept sel w = Some (sel', ?w)"
    using a f(1) by (simp add: http_server_select_accept_def http_server_client_init_def http_header_init_def Let_def)
  moreover have "mem_get (w_clients ?w) (int ?c) = Some ?x" by (simp add: mem_get_def)
  then have "waits R 0 sel' ?w ?c s ?p"
    using f(2,3) v by (simp add: waits_def client_at_def client_zero_def HTTP_SERVER_CLIENT_BUF_MAX_def)
  ultimately show ?thesis using v by (intro exI [of _ sel'] exI [of _ ?w]) simp
qed

lemma server_loop_add:
  "server_loop os (j + k) sel w = do { (sel, w) \<leftarrow> server_loop os j sel w; server_loop os k sel w }"
proof (induction j arbitrary: sel w)
  case (Suc j)
  then show ?case by (cases "fdselect_select os server_call sel 1 w") auto
qed simp


definition sample_request :: "byte list" where
  "sample_request = request_text (bytes_of ''GET'') (bytes_of ''/x'') (bytes_of ''HTTP/1.0'') [(bytes_of ''Host'', bytes_of ''a.org'')]"

definition sample_world :: world where
  "sample_world = \<lparr>w_root = bytes_of ''/www'', w_pool = Some 1, w_accept_sock = 3, w_clients = [], w_next_pool = 2,
     w_files = (\<lambda>p. if p = bytes_of ''/www/x'' then Some [65, 66, 67] else None), w_open = (\<lambda>_. []), w_next_fd = 6,
     w_accepts = [Accepted 5], w_in = (\<lambda>s. if s = 5 then [Arrived (take 6 sample_request), Arrived (drop 6 sample_request)] else []),
     w_sends = [Took 1000, Took 2, Took 5], w_log = []\<rparr>"

lemma sample_served:
  "request_of sample_request (bytes_of ''/x'')" "length sample_request \<le> 4096" "take 6 sample_request \<noteq> []" "drop 6 sample_request \<noteq> []"
  "length (ok_text 3) \<le> 1000" "take 4095 (bytes_of ''/www'' @ cstr (kept (bytes_of ''/x''))) = bytes_of ''/www/x''"
proof -
  show "request_of sample_request (bytes_of ''/x'')"
    unfolding request_of_def sample_request_def
    by (intro exI [of _ "bytes_of ''GET''"] exI [of _ "bytes_of ''HTTP/1.0''"] exI [of _ "[(bytes_of ''Host'', bytes_of ''a.org'')]"]) code_simp
  show "length sample_request \<le> 4096" "take 6 sample_request \<noteq> []" "drop 6 sample_request \<noteq> []"
    "length (ok_text 3) \<le> 1000" "take 4095 (bytes_of ''/www'' @ cstr (kept (bytes_of ''/x''))) = bytes_of ''/www/x''"
    by code_simp+
qed


end
