(* ===== verification/Leak.thy ===== *)
theory Leak
  imports Hash
begin

text \<open>
  \<open>debug_leak.c\<close> and \<open>alloc_count.c\<close>: the tables of allocated pointers. A record is the value of a node of the hash table,
  written through the node. What is printed is a list of messages; the lines that only frame a report are left out.
  A table that was not initialised has no buckets: looking into it divides by zero, which is \<open>None\<close>.
\<close>

record stack_rec =
  st_file :: "byte list"
  st_line :: "32 word"

record leak_rec =
  lr_ptr :: u64
  lr_counter :: int
  lr_stack :: "stack_rec array_t"

datatype leak_msg =
  AllocatedTwice u64 stack_rec | UnknownStacked u64 stack_rec | UnknownDeleted u64 stack_rec
  | Dumped stack_rec u64 int | ByLine "byte list" "32 word" int

record leak_t =
  lk_hash :: "(u64, leak_rec) hash_t"
  lk_init_done :: bool
  lk_counter :: int
  lk_out :: "leak_msg list"

definition stack_zero :: stack_rec where "stack_zero = \<lparr>st_file = [], st_line = 0\<rparr>"

definition leak_node_zero :: "(u64, leak_rec) hash_node" where
  "leak_node_zero = \<lparr>node_key = 0, node_val = \<lparr>lr_ptr = 0, lr_counter = 0, lr_stack =
     \<lparr>m_eltsz = 0, m_blocksz = 0, m_array = None, m_count = 0, m_max = 0, m_free_func = None, m_free_farg = 0\<rparr>\<rparr>, node_hash = 0\<rparr>"

text \<open>The state of the program before its first call.\<close>

definition leak_start :: leak_t where
  "leak_start = \<lparr>lk_hash = hash_zero hash_hash_int hash_cmp_int, lk_init_done = False, lk_counter = 0, lk_out = []\<rparr>"

definition leak_print :: "leak_msg list \<Rightarrow> leak_t \<Rightarrow> leak_t" where
  "leak_print ms st = st\<lparr>lk_out := lk_out st @ ms\<rparr>"

text \<open>\<open>array_add\<close> of one element that is filled with \<open>x\<close>.\<close>

definition add_store :: "'a \<Rightarrow> 'a array_t \<Rightarrow> 'a \<Rightarrow> 'a array_t option" where
  "add_store z a x =
     do {
       (a, q) \<leftarrow> array_add True z a 1;
       q \<leftarrow> q;
       buf \<leftarrow> m_array a;
       buf \<leftarrow> mem_put buf q x;
       Some (a\<lparr>m_array := Some buf\<rparr>)
     }"

section \<open>Records\<close>

definition debug_leak_rec_init :: "u64 \<Rightarrow> leak_t \<Rightarrow> leak_rec \<times> leak_t" where
  "debug_leak_rec_init ptr st =
     (\<lparr>lr_ptr = ptr, lr_counter = lk_counter st + 1, lr_stack = array_init 16 1\<rparr>, st\<lparr>lk_counter := lk_counter st + 1\<rparr>)"

definition debug_leak_rec_free :: "leak_rec \<Rightarrow> leak_rec" where
  "debug_leak_rec_free r = r\<lparr>lr_stack := fst (array_clear (lr_stack r))\<rparr>"

text \<open>From the last place to the first.\<close>

fun dump_loop :: "leak_rec \<Rightarrow> nat \<Rightarrow> leak_msg list option" where
  "dump_loop r 0 = Some []"
| "dump_loop r (Suc n) =
     do {
       loc \<leftarrow> elt_at (lr_stack r) (array_get (lr_stack r) (int n));
       ms \<leftarrow> dump_loop r n;
       Some (Dumped loc (lr_ptr r) (lr_counter r) # ms)
     }"

definition debug_leak_rec_dump :: "leak_rec \<Rightarrow> leak_msg list option" where
  "debug_leak_rec_dump r = dump_loop r (nat (array_count (lr_stack r)))"

section \<open>The operations\<close>

definition debug_leak_init_f :: "leak_t \<Rightarrow> leak_t option" where
  "debug_leak_init_f st =
     (if lk_init_done st then Some st
      else do {
        h \<leftarrow> hash_init leak_node_zero hash_hash_int hash_cmp_int 0 56 0;
        Some (st\<lparr>lk_init_done := True, lk_hash := h\<rparr>)
      })"

definition foreach_debug_leak_rec_free :: "(u64, leak_rec, unit) foreach_func" where
  "foreach_debug_leak_rec_free h p arg =
     do {
       n \<leftarrow> node_at h p;
       h \<leftarrow> node_store h p (debug_leak_rec_free (node_val n));
       Some (h, (), 0)
     }"

definition debug_leak_fini_f :: "leak_t \<Rightarrow> leak_t option" where
  "debug_leak_fini_f st =
     (if \<not> lk_init_done st then Some st
      else do {
        (h, _) \<leftarrow> hash_foreach foreach_debug_leak_rec_free (lk_hash st) ();
        (h, ev) \<leftarrow> hash_clear h;
        Some (st\<lparr>lk_hash := h, lk_init_done := False\<rparr>)
      })"

definition debug_leak_stack_f :: "u64 \<Rightarrow> stack_rec \<Rightarrow> leak_t \<Rightarrow> leak_t option" where
  "debug_leak_stack_f ptr loc st =
     do {
       p \<leftarrow> hash_get (lk_hash st) ptr;
       case p of
         None \<Rightarrow> Some (leak_print [UnknownStacked ptr loc] st)
       | Some p \<Rightarrow> do {
           n \<leftarrow> node_at (lk_hash st) p;
           a \<leftarrow> add_store stack_zero (lr_stack (node_val n)) loc;
           h \<leftarrow> node_store (lk_hash st) p ((node_val n)\<lparr>lr_stack := a\<rparr>);
           Some (st\<lparr>lk_hash := h\<rparr>)
         }
     }"

text \<open>Freeing the record of a node and the node.\<close>

definition leak_drop :: "node_ptr \<Rightarrow> leak_t \<Rightarrow> leak_t option" where
  "leak_drop p st =
     do {
       n \<leftarrow> node_at (lk_hash st) p;
       h \<leftarrow> node_store (lk_hash st) p (debug_leak_rec_free (node_val n));
       (h, ev) \<leftarrow> hash_free h (Some p);
       Some (st\<lparr>lk_hash := h\<rparr>)
     }"

definition debug_leak_create_f :: "u64 \<Rightarrow> stack_rec \<Rightarrow> leak_t \<Rightarrow> leak_t option" where
  "debug_leak_create_f ptr loc st =
     do {
       st \<leftarrow> debug_leak_init_f st;
       p \<leftarrow> hash_get (lk_hash st) ptr;
       st \<leftarrow> (case p of
           None \<Rightarrow> Some st
         | Some p \<Rightarrow> do {
             n \<leftarrow> node_at (lk_hash st) p;
             ms \<leftarrow> debug_leak_rec_dump (node_val n);
             leak_drop p (leak_print (AllocatedTwice ptr loc # ms) st)
           });
       (h, p, ev) \<leftarrow> hash_put leak_node_zero (lk_hash st) ptr None;
       let (r, st) = debug_leak_rec_init ptr st;
       h \<leftarrow> node_store h p r;
       debug_leak_stack_f ptr loc (st\<lparr>lk_hash := h\<rparr>)
     }"

definition debug_leak_delete_f :: "u64 \<Rightarrow> stack_rec \<Rightarrow> leak_t \<Rightarrow> leak_t option" where
  "debug_leak_delete_f ptr loc st =
     do {
       p \<leftarrow> hash_get (lk_hash st) ptr;
       case p of
         None \<Rightarrow> Some (leak_print [UnknownDeleted ptr loc] st)
       | Some p \<Rightarrow> leak_drop p st
     }"

section \<open>The reports\<close>

text \<open>The arrays of a report hold pointers to records; nothing changes the records until the report is done.\<close>

definition debug_leak_rec_cmp_counter :: "leak_rec \<Rightarrow> leak_rec \<Rightarrow> int" where
  "debug_leak_rec_cmp_counter a b = lr_counter a - lr_counter b"

definition debug_leak_dump_foreach :: "(u64, leak_rec, leak_rec array_t) foreach_func" where
  "debug_leak_dump_foreach h p a =
     do { n \<leftarrow> node_at h p; a \<leftarrow> add_store (node_val leak_node_zero) a (node_val n); Some (h, a, 0) }"

fun dump_all :: "leak_rec array_t \<Rightarrow> nat \<Rightarrow> nat \<Rightarrow> leak_msg list option" where
  "dump_all a i 0 = Some []"
| "dump_all a i (Suc n) =
     do {
       r \<leftarrow> elt_at a (array_get a (int i));
       xs \<leftarrow> debug_leak_rec_dump r;
       ys \<leftarrow> dump_all a (Suc i) n;
       Some (xs @ ys)
     }"

text \<open>\<open>qs\<close> is \<open>qsort\<close>.\<close>

definition debug_leak_dump_f ::
    "((leak_rec \<Rightarrow> leak_rec \<Rightarrow> int) \<Rightarrow> leak_rec list \<Rightarrow> leak_rec list) \<Rightarrow> leak_t \<Rightarrow> leak_t option" where
  "debug_leak_dump_f qs st =
     do {
       (h, a, _) \<leftarrow> hash_foreach debug_leak_dump_foreach (lk_hash st) (array_init 8 0);
       let a = array_qsort qs a debug_leak_rec_cmp_counter;
       ms \<leftarrow> dump_all a 0 (nat (array_count a));
       Some (leak_print ms (st\<lparr>lk_hash := h\<rparr>))
     }"

record by_line =
  bl_file :: "byte list"
  bl_line :: "32 word"
  bl_count :: int

definition debug_leak_by_line_hash_hash :: "by_line \<Rightarrow> u64" where
  "debug_leak_by_line_hash_hash a = hash_hash_str (bl_file a) + hash_hash_int (scast (bl_line a))"

definition debug_leak_by_line_hash_cmp :: "by_line \<Rightarrow> by_line \<Rightarrow> int" where
  "debug_leak_by_line_hash_cmp a b =
     (let i = hash_cmp_str (bl_file a) (bl_file b)
      in if i = 0 then hash_cmp_int (scast (bl_line a)) (scast (bl_line b)) else i)"

definition debug_leak_by_line_cmp_count :: "by_line \<Rightarrow> by_line \<Rightarrow> int" where
  "debug_leak_by_line_cmp_count a b =
     (let i = bl_count b - bl_count a in if i = 0 then hash_cmp_str (bl_file a) (bl_file b) else i)"

definition by_line_zero :: "(by_line, by_line) hash_node" where
  "by_line_zero = \<lparr>node_key = \<lparr>bl_file = [], bl_line = 0, bl_count = 0\<rparr>, node_val = \<lparr>bl_file = [], bl_line = 0, bl_count = 0\<rparr>,
     node_hash = 0\<rparr>"

text \<open>One more pointer of the first place in the stack of a record. A record without a place is passed over.\<close>

definition count_line :: "leak_rec \<Rightarrow> (by_line, by_line) hash_t \<Rightarrow> (by_line, by_line) hash_t option" where
  "count_line r bh =
     (case array_get (lr_stack r) 0 of
        None \<Rightarrow> Some bh
      | Some i \<Rightarrow> do {
          loc \<leftarrow> elt_at (lr_stack r) (Some i);
          let key = \<lparr>bl_file = st_file loc, bl_line = st_line loc, bl_count = 0\<rparr>;
          q \<leftarrow> hash_get bh key;
          (bh, q) \<leftarrow> (case q of Some q \<Rightarrow> Some (bh, q)
            | None \<Rightarrow> do { (bh, q, ev) \<leftarrow> hash_put by_line_zero bh key (Some key); Some (bh, q) });
          n \<leftarrow> node_at bh q;
          node_store bh q ((node_val n)\<lparr>bl_count := bl_count (node_val n) + 1\<rparr>)
        })"

definition debug_leak_by_line_foreach_hash :: "(u64, leak_rec, (by_line, by_line) hash_t) foreach_func" where
  "debug_leak_by_line_foreach_hash h p bh =
     do { n \<leftarrow> node_at h p; bh \<leftarrow> count_line (node_val n) bh; Some (h, bh, 0) }"

definition debug_leak_by_line_foreach_array :: "(by_line, by_line, by_line array_t) foreach_func" where
  "debug_leak_by_line_foreach_array h p a =
     do { n \<leftarrow> node_at h p; a \<leftarrow> add_store (node_val by_line_zero) a (node_val n); Some (h, a, 0) }"

fun print_lines :: "by_line array_t \<Rightarrow> nat \<Rightarrow> nat \<Rightarrow> leak_msg list option" where
  "print_lines a i 0 = Some []"
| "print_lines a i (Suc n) =
     do {
       r \<leftarrow> elt_at a (array_get a (int i));
       ys \<leftarrow> print_lines a (Suc i) n;
       Some (ByLine (bl_file r) (bl_line r) (bl_count r) # ys)
     }"

definition debug_leak_by_line_f ::
    "((by_line \<Rightarrow> by_line \<Rightarrow> int) \<Rightarrow> by_line list \<Rightarrow> by_line list) \<Rightarrow> leak_t \<Rightarrow> leak_t option" where
  "debug_leak_by_line_f qs st =
     do {
       bh \<leftarrow> hash_init by_line_zero debug_leak_by_line_hash_hash debug_leak_by_line_hash_cmp 16 16 0;
       (h, bh, _) \<leftarrow> hash_foreach debug_leak_by_line_foreach_hash (lk_hash st) bh;
       (bh, a, _) \<leftarrow> hash_foreach debug_leak_by_line_foreach_array bh (array_init 8 0);
       let a = array_qsort qs a debug_leak_by_line_cmp_count;
       ms \<leftarrow> print_lines a 0 (nat (array_count a));
       (bh, ev) \<leftarrow> hash_clear bh;
       Some (leak_print ms (st\<lparr>lk_hash := h\<rparr>))
     }"

section \<open>Counted allocations\<close>

record alloc_info =
  ai_ptr :: u64
  ai_len :: u64
  ai_file :: "byte list"
  ai_line :: "32 word"
  ai_count :: int

type_synonym alloc_hash = "(u64, alloc_info) hash_t"

definition alloc_node_zero :: "(u64, alloc_info) hash_node" where
  "alloc_node_zero = \<lparr>node_key = 0, node_val = \<lparr>ai_ptr = 0, ai_len = 0, ai_file = [], ai_line = 0, ai_count = 0\<rparr>, node_hash = 0\<rparr>"

definition alloc_count_init :: "alloc_hash option" where
  "alloc_count_init = hash_init alloc_node_zero hash_hash_int hash_cmp_int 0 32 0"

definition alloc_count_fini :: "alloc_hash \<Rightarrow> alloc_hash option" where
  "alloc_count_fini h = map_option fst (hash_clear h)"

definition alloc_count_add :: "u64 \<Rightarrow> u64 \<Rightarrow> byte list \<Rightarrow> 32 word \<Rightarrow> alloc_hash \<Rightarrow> (alloc_hash \<times> int) option" where
  "alloc_count_add ptr len file line h =
     do {
       p \<leftarrow> hash_get h ptr;
       case p of
         Some p \<Rightarrow> do {
           n \<leftarrow> node_at h p;
           h \<leftarrow> node_store h p ((node_val n)\<lparr>ai_count := ai_count (node_val n) + 1\<rparr>);
           Some (h, - 1)
         }
       | None \<Rightarrow> do {
           (h, p, ev) \<leftarrow> hash_put alloc_node_zero h ptr
              (Some \<lparr>ai_ptr = ptr, ai_len = len, ai_file = file, ai_line = line, ai_count = 1\<rparr>);
           Some (h, 0)
         }
     }"

definition alloc_count_free :: "u64 \<Rightarrow> byte list \<Rightarrow> 32 word \<Rightarrow> alloc_hash \<Rightarrow> (alloc_hash \<times> int) option" where
  "alloc_count_free ptr file line h =
     do {
       p \<leftarrow> hash_get h ptr;
       case p of None \<Rightarrow> Some (h, - 1) | Some _ \<Rightarrow> do { (h, ev) \<leftarrow> hash_remove h ptr; Some (h, 0) }
     }"

text \<open>What is printed for each allocation that is left: the pointer, its length, its file and its line.\<close>

definition alloc_count_dump_foreach :: "(u64, alloc_info, (u64 \<times> u64 \<times> byte list \<times> 32 word) list) foreach_func" where
  "alloc_count_dump_foreach h p out =
     do {
       n \<leftarrow> node_at h p;
       let i = node_val n;
       Some (h, out @ [(ai_ptr i, ai_len i, ai_file i, ai_line i)], 0)
     }"

definition alloc_count_dump :: "alloc_hash \<Rightarrow> (alloc_hash \<times> (u64 \<times> u64 \<times> byte list \<times> 32 word) list \<times> int) option" where
  "alloc_count_dump h = hash_foreach alloc_count_dump_foreach h []"

end
