(* ===== verification/LeakProps.thy ===== *)
theory LeakProps
  imports Leak
begin

text \<open>
  The table of allocated pointers as a map: what a history of allocations, stacked places and releases leaves in it and what
  it prints; and the two reports, which count and sort what the table holds.
\<close>

section \<open>Nodes that a client holds\<close>

context hash_key
begin

text \<open>A node of the table with the key, as a client sees it: it can be read, written and freed.\<close>

definition holds :: "('k, 'v) hash_t \<Rightarrow> 'k \<Rightarrow> node_ptr \<Rightarrow> 'v \<Rightarrow> bool" where
  "holds self key p v \<longleftrightarrow> hash_ok hash cmp canon self \<and>
     (\<exists>i j. p = (int i, int j) \<and> i < length (buckets self) \<and> j < length (buckets self ! i) \<and>
       canon (node_key (buckets self ! i ! j)) = canon key \<and> node_val (buckets self ! i ! j) = v)"

lemma holds_ok: "holds self key p v \<Longrightarrow> hash_ok hash cmp canon self"
  by (simp add: holds_def)

lemma holds_node: "holds self key p v \<Longrightarrow> \<exists>n. node_at self p = Some n \<and> node_val n = v"
  using node_at_ok by (fastforce simp: holds_def hash_ok_def)

lemma holds_find:
  assumes "hash_ok hash cmp canon self"
  shows "hash_map canon self (canon key) = None \<and> hash_get self key = Some None \<or>
    (\<exists>p v. hash_map canon self (canon key) = Some v \<and> hash_get self key = Some (Some p) \<and> holds self key p v)"
  using assms by (cases rule: hash_get_cases [OF assms, of key]) (auto simp: holds_def)

lemma holds_store:
  assumes "holds self key p v"
  shows "\<exists>self'. node_store self p w = Some self' \<and> holds self' key p w \<and> m_node_count self' = m_node_count self \<and>
    hash_map canon self' = (hash_map canon self)(canon key \<mapsto> w)"
proof -
  obtain i j where p: "hash_ok hash cmp canon self" "p = (int i, int j)" "i < length (buckets self)" "j < length (buckets self ! i)"
    "canon (node_key (buckets self ! i ! j)) = canon key" using assms by (auto simp: holds_def)
  have "hash_shape self" using p(1) by (simp add: hash_ok_def)
  from node_store_raw [OF this p(3,4), of w] obtain bs where
    b: "node_store self p w = Some (self\<lparr>m_bucket := Some bs\<rparr>)"
      "buckets (self\<lparr>m_bucket := Some bs\<rparr>) = (buckets self)[i := (buckets self ! i)[j := (buckets self ! i ! j)\<lparr>node_val := w\<rparr>]]"
    using p(2) by blast
  from node_store_ok [OF p(1,3,4), of w] b(1) p(2) have
    "hash_ok hash cmp canon (self\<lparr>m_bucket := Some bs\<rparr>)"
    "hash_map canon (self\<lparr>m_bucket := Some bs\<rparr>) = (hash_map canon self)(canon key \<mapsto> w)"
    by (auto simp: p(5))
  moreover from this(1) have "holds (self\<lparr>m_bucket := Some bs\<rparr>) key p w"
    unfolding holds_def using p by (intro conjI exI [of _ i] exI [of _ j]) (simp_all add: b(2))
  ultimately show ?thesis using b(1) by simp
qed

lemma holds_free:
  assumes "holds self key p v"
  shows "\<exists>self' ev. hash_free self (Some p) = Some (self', ev) \<and> hash_ok hash cmp canon self' \<and>
    m_node_count self' \<le> m_node_count self \<and> hash_map canon self' = (hash_map canon self)(canon key := None)"
proof -
  obtain i j where p: "hash_ok hash cmp canon self" "p = (int i, int j)" "i < length (buckets self)" "j < length (buckets self ! i)"
    "canon (node_key (buckets self ! i ! j)) = canon key" using assms by (auto simp: holds_def)
  from hash_free_ok [OF p(1,3,4)] p(2,5) show ?thesis by auto
qed

lemma holds_put:
  assumes "hash_ok hash cmp canon self" "m_node_count self < 3 * 2 ^ 29"
  shows "\<exists>self' p ev. hash_put z self key val = Some (self', p, ev) \<and>
    holds self' key p (case val of None \<Rightarrow> node_val z | Some v \<Rightarrow> v) \<and> m_node_count self' \<le> m_node_count self + 1 \<and>
    hash_map canon self' = (hash_map canon self)(canon key \<mapsto> (case val of None \<Rightarrow> node_val z | Some v \<Rightarrow> v))"
proof -
  let ?v = "case val of None \<Rightarrow> node_val z | Some v \<Rightarrow> v"
  obtain self' i j ev where p: "hash_put z self key val = Some (self', (int i, int j), ev)" "hash_ok hash cmp canon self'"
    "m_node_count self' \<le> m_node_count self + 1" "hash_map canon self' = (hash_map canon self)(canon key \<mapsto> ?v)"
    "i < length (buckets self')" "j < length (buckets self' ! i)" "node_key (buckets self' ! i ! j) = key"
    using hash_put_at [OF assms, of z key val] by blast
  let ?n = "buckets self' ! i ! j"
  have "?n \<in> set (nodes self')" using p(5,6) by (force simp: nodes_def intro: nth_mem)
  moreover have "distinct (node_keys canon (nodes self'))" using p(2) by (simp add: hash_ok_def)
  ultimately have "hash_map canon self' (canon key) = Some (node_val ?n)"
    using p(7) by (subst hash_map_Some_iff) auto
  then have "node_val ?n = ?v" by (simp add: p(4))
  then have "holds self' key (int i, int j) ?v" unfolding holds_def using p(2,5-7) by auto
  with p(1,3,4) show ?thesis by blast
qed

end

section \<open>The state as a map\<close>

text \<open>For each pointer its number and its places, the oldest first.\<close>

definition live :: "leak_t \<Rightarrow> u64 \<Rightarrow> (int \<times> stack_rec list) option" where
  "live st p = map_option (\<lambda>r. (lr_counter r, elems (lr_stack r))) (hash_map id (lk_hash st) p)"

definition rec_ok :: "int \<Rightarrow> u64 \<Rightarrow> leak_rec \<Rightarrow> bool" where
  "rec_ok c p r \<longleftrightarrow> lr_ptr r = p \<and> array_wf (lr_stack r) \<and> lr_counter r \<le> c"

definition leak_ok :: "leak_t \<Rightarrow> bool" where
  "leak_ok st \<longleftrightarrow> lk_init_done st \<and> hash_ok hash_hash_int hash_cmp_int id (lk_hash st) \<and>
     (\<forall>p r. hash_map id (lk_hash st) p = Some r \<longrightarrow> rec_ok (lk_counter st) p r)"

lemma live_print [simp]: "live (st\<lparr>lk_out := ms\<rparr>) = live st" "live (st\<lparr>lk_counter := c\<rparr>) = live st"
  by (simp_all add: live_def fun_eq_iff)

lemma add_store_ok:
  assumes "array_wf a"
  shows "\<exists>a'. add_store z a x = Some a' \<and> array_wf a' \<and> elems a' = elems a @ [x]"
proof -
  obtain a' where a: "array_add True z a 1 = Some (a', Some (m_count a))" "array_wf a'" "elems a' = elems a @ [z]"
    using array_add_spec [OF assms, of 1 z] by auto
  then obtain ys where buf: "m_array a' = Some (elems a' @ ys)" using m_array_SomeI [OF a(2)] by auto
  have c: "m_count a = int (length (elems a))" using assms by (rule m_count_elems)
  let ?buf = "elems a @ x # ys"
  have "mem_put (elems a' @ ys) (m_count a) x = Some ?buf" by (simp add: a(3) c mem_put_def)
  then have "add_store z a x = Some (a'\<lparr>m_array := Some ?buf\<rparr>)" using a(1) buf by (simp add: add_store_def)
  moreover have "length ?buf = length (elems a' @ ys)" by (simp add: a(3))
  from wf_replace_buf [OF a(2) buf this] have "array_wf (a'\<lparr>m_array := Some ?buf\<rparr>)"
    "elems (a'\<lparr>m_array := Some ?buf\<rparr>) = elems a @ [x]" by (simp_all add: a(3))
  ultimately show ?thesis by blast
qed

lemma dump_loop_eq:
  assumes "array_wf (lr_stack r)" "n \<le> length (elems (lr_stack r))"
  shows "dump_loop r n = Some (map (\<lambda>l. Dumped l (lr_ptr r) (lr_counter r)) (rev (take n (elems (lr_stack r)))))"
  using assms(2)
proof (induction n)
  case (Suc n)
  then have "elt_at (lr_stack r) (array_get (lr_stack r) (int n)) = Some (elems (lr_stack r) ! n)"
    using assms(1) by (intro elt_at_nat) auto
  with Suc show ?case by (simp add: take_Suc_conv_app_nth)
qed simp

lemma rec_dump:
  "array_wf (lr_stack r) \<Longrightarrow>
   debug_leak_rec_dump r = Some (map (\<lambda>l. Dumped l (lr_ptr r) (lr_counter r)) (rev (elems (lr_stack r))))"
  using dump_loop_eq [of r "length (elems (lr_stack r))"] by (simp add: debug_leak_rec_dump_def array_count_eq)

section \<open>What the operations do to the map\<close>

datatype leak_op = Create u64 stack_rec | Stack u64 stack_rec | Delete u64 stack_rec

fun leak_op_run :: "leak_op \<Rightarrow> leak_t \<Rightarrow> leak_t option" where
  "leak_op_run (Create p l) st = debug_leak_create_f p l st"
| "leak_op_run (Stack p l) st = debug_leak_stack_f p l st"
| "leak_op_run (Delete p l) st = debug_leak_delete_f p l st"

fun leak_run :: "leak_op list \<Rightarrow> leak_t \<Rightarrow> leak_t option" where
  "leak_run [] st = Some st"
| "leak_run (op # ops) st = do { st \<leftarrow> leak_op_run op st; leak_run ops st }"

type_synonym leak_view = "(u64 \<Rightarrow> (int \<times> stack_rec list) option) \<times> int \<times> leak_msg list"

definition dump_of :: "u64 \<Rightarrow> int \<times> stack_rec list \<Rightarrow> leak_msg list" where
  "dump_of p r = map (\<lambda>l. Dumped l p (fst r)) (rev (snd r))"

fun view_step :: "leak_op \<Rightarrow> leak_view \<Rightarrow> leak_view" where
  "view_step (Create p l) (m, c, out) =
     (m(p \<mapsto> (c + 1, [l])), c + 1, out @ (case m p of None \<Rightarrow> [] | Some r \<Rightarrow> AllocatedTwice p l # dump_of p r))"
| "view_step (Stack p l) (m, c, out) =
     (case m p of None \<Rightarrow> (m, c, out @ [UnknownStacked p l]) | Some (k, ls) \<Rightarrow> (m(p \<mapsto> (k, ls @ [l])), c, out))"
| "view_step (Delete p l) (m, c, out) =
     (case m p of None \<Rightarrow> (m, c, out @ [UnknownDeleted p l]) | Some r \<Rightarrow> (m(p := None), c, out))"

definition view :: "leak_t \<Rightarrow> leak_view" where
  "view st = (live st, lk_counter st, lk_out st)"

lemma leak_find:
  assumes "leak_ok st"
  shows "live st p = None \<and> hash_get (lk_hash st) p = Some None \<or>
    (\<exists>q r. live st p = Some (lr_counter r, elems (lr_stack r)) \<and> hash_map id (lk_hash st) p = Some r \<and>
       hash_get (lk_hash st) p = Some (Some q) \<and> int_key.holds (lk_hash st) p q r \<and> rec_ok (lk_counter st) p r)"
  using int_key.holds_find [of "lk_hash st" p] assms by (auto simp: leak_ok_def live_def)

lemma leak_drop_ok:
  assumes ok: "leak_ok st" and q: "int_key.holds (lk_hash st) p q r" and r: "hash_map id (lk_hash st) p = Some r"
  shows "\<exists>st'. leak_drop q st = Some st' \<and> leak_ok st' \<and> live st' = (live st)(p := None) \<and> lk_counter st' = lk_counter st \<and>
    lk_out st' = lk_out st \<and> m_node_count (lk_hash st') \<le> m_node_count (lk_hash st)"
proof -
  obtain n where n: "node_at (lk_hash st) q = Some n" "node_val n = r" using int_key.holds_node [OF q] by blast
  from int_key.holds_store [OF q, of "debug_leak_rec_free r"] obtain h where
    h: "node_store (lk_hash st) q (debug_leak_rec_free r) = Some h" "int_key.holds h p q (debug_leak_rec_free r)"
      "m_node_count h = m_node_count (lk_hash st)" "hash_map id h = (hash_map id (lk_hash st))(p \<mapsto> debug_leak_rec_free r)" by auto
  from int_key.holds_free [OF h(2)] obtain h' ev where
    h': "hash_free h (Some q) = Some (h', ev)" "hash_ok hash_hash_int hash_cmp_int id h'" "m_node_count h' \<le> m_node_count h"
      "hash_map id h' = (hash_map id (lk_hash st))(p := None)" by (auto simp: h(4))
  have "leak_drop q st = Some (st\<lparr>lk_hash := h'\<rparr>)" using n h(1) h'(1) by (simp add: leak_drop_def)
  moreover have "leak_ok (st\<lparr>lk_hash := h'\<rparr>)" using ok h'(2) by (simp add: leak_ok_def h'(4))
  ultimately show ?thesis using h'(3) h(3) by (auto simp: live_def h'(4))
qed

lemma stack_ok:
  assumes ok: "leak_ok st"
  shows "\<exists>st'. debug_leak_stack_f p l st = Some st' \<and> leak_ok st' \<and> view st' = view_step (Stack p l) (view st) \<and>
    m_node_count (lk_hash st') = m_node_count (lk_hash st)"
  using leak_find [OF ok, of p]
proof (elim disjE exE conjE)
  assume "live st p = None" "hash_get (lk_hash st) p = Some None"
  then show ?thesis using ok by (simp add: debug_leak_stack_f_def view_def leak_print_def leak_ok_def live_def)
next
  fix q r assume q: "live st p = Some (lr_counter r, elems (lr_stack r))" "hash_get (lk_hash st) p = Some (Some q)"
    "int_key.holds (lk_hash st) p q r" "rec_ok (lk_counter st) p r"
  obtain n where n: "node_at (lk_hash st) q = Some n" "node_val n = r" using int_key.holds_node [OF q(3)] by blast
  obtain a where a: "add_store stack_zero (lr_stack r) l = Some a" "array_wf a" "elems a = elems (lr_stack r) @ [l]"
    using add_store_ok [of "lr_stack r" stack_zero l] q(4) by (auto simp: rec_ok_def)
  from int_key.holds_store [OF q(3), of "r\<lparr>lr_stack := a\<rparr>"] obtain h where
    h: "node_store (lk_hash st) q (r\<lparr>lr_stack := a\<rparr>) = Some h" "hash_ok hash_hash_int hash_cmp_int id h"
      "m_node_count h = m_node_count (lk_hash st)" "hash_map id h = (hash_map id (lk_hash st))(p \<mapsto> r\<lparr>lr_stack := a\<rparr>)"
    by (auto dest: int_key.holds_ok [of _ p q])
  have "debug_leak_stack_f p l st = Some (st\<lparr>lk_hash := h\<rparr>)" using q(2) n a(1) h(1) by (simp add: debug_leak_stack_f_def)
  moreover have "leak_ok (st\<lparr>lk_hash := h\<rparr>)" using ok h(2) q(4) a(2) by (auto simp: leak_ok_def h(4) rec_ok_def)
  moreover have "live (st\<lparr>lk_hash := h\<rparr>) = (live st)(p \<mapsto> (lr_counter r, elems (lr_stack r) @ [l]))"
    using a(3) by (auto simp: live_def h(4) fun_eq_iff)
  ultimately show ?thesis using q(1) h(3) by (simp add: view_def)
qed

lemma delete_ok:
  assumes ok: "leak_ok st"
  shows "\<exists>st'. debug_leak_delete_f p l st = Some st' \<and> leak_ok st' \<and> view st' = view_step (Delete p l) (view st) \<and>
    m_node_count (lk_hash st') \<le> m_node_count (lk_hash st)"
  using leak_find [OF ok, of p]
proof (elim disjE exE conjE)
  assume "live st p = None" "hash_get (lk_hash st) p = Some None"
  then show ?thesis using ok by (simp add: debug_leak_delete_f_def view_def leak_print_def leak_ok_def live_def)
next
  fix q r assume q: "live st p = Some (lr_counter r, elems (lr_stack r))" "hash_map id (lk_hash st) p = Some r"
    "hash_get (lk_hash st) p = Some (Some q)" "int_key.holds (lk_hash st) p q r"
  from leak_drop_ok [OF ok q(4,2)] q(1,3) show ?thesis by (auto simp: debug_leak_delete_f_def view_def)
qed

lemma leak_ok_print: "leak_ok st \<Longrightarrow> leak_ok (leak_print ms st)"
  by (simp add: leak_ok_def leak_print_def)

text \<open>A pointer that is already known is reported and forgotten first.\<close>

lemma create_forget:
  assumes ok: "leak_ok st"
  shows "\<exists>q st'. hash_get (lk_hash st) p = Some q \<and>
    (case q of None \<Rightarrow> Some st
     | Some q \<Rightarrow> do {
         n \<leftarrow> node_at (lk_hash st) q;
         ms \<leftarrow> debug_leak_rec_dump (node_val n);
         leak_drop q (leak_print (AllocatedTwice p l # ms) st)
       }) = Some st' \<and> leak_ok st' \<and> live st' = (live st)(p := None) \<and> lk_counter st' = lk_counter st \<and>
    lk_out st' = lk_out st @ (case live st p of None \<Rightarrow> [] | Some r \<Rightarrow> AllocatedTwice p l # dump_of p r) \<and>
    m_node_count (lk_hash st') \<le> m_node_count (lk_hash st)"
  using leak_find [OF ok, of p]
proof (elim disjE exE conjE)
  assume "live st p = None" "hash_get (lk_hash st) p = Some None"
  then show ?thesis using ok by (auto simp: fun_eq_iff)
next
  fix q r assume q: "live st p = Some (lr_counter r, elems (lr_stack r))" "hash_map id (lk_hash st) p = Some r"
    "hash_get (lk_hash st) p = Some (Some q)" "int_key.holds (lk_hash st) p q r" "rec_ok (lk_counter st) p r"
  obtain n where n: "node_at (lk_hash st) q = Some n" "node_val n = r" using int_key.holds_node [OF q(4)] by blast
  let ?ms = "AllocatedTwice p l # dump_of p (lr_counter r, elems (lr_stack r))"
  have d: "debug_leak_rec_dump r = Some (dump_of p (lr_counter r, elems (lr_stack r)))"
    using q(5) by (simp add: rec_dump rec_ok_def dump_of_def)
  have "int_key.holds (lk_hash (leak_print ?ms st)) p q r" "hash_map id (lk_hash (leak_print ?ms st)) p = Some r"
    using q(2,4) by (simp_all add: leak_print_def)
  from leak_drop_ok [OF leak_ok_print [OF ok] this] obtain st' where
    s: "leak_drop q (leak_print ?ms st) = Some st'" "leak_ok st'" "live st' = (live (leak_print ?ms st))(p := None)"
      "lk_counter st' = lk_counter (leak_print ?ms st)" "lk_out st' = lk_out (leak_print ?ms st)"
      "m_node_count (lk_hash st') \<le> m_node_count (lk_hash (leak_print ?ms st))" by blast
  then show ?thesis using q(1,3) n d by (intro exI [of _ "Some q"] exI [of _ st']) (simp add: leak_print_def)
qed

lemma create_ok:
  assumes ok: "leak_ok st" and c: "m_node_count (lk_hash st) < 3 * 2 ^ 29"
  shows "\<exists>st'. debug_leak_create_f p l st = Some st' \<and> leak_ok st' \<and> view st' = view_step (Create p l) (view st) \<and>
    m_node_count (lk_hash st') \<le> m_node_count (lk_hash st) + 1"
proof -
  from create_forget [OF ok, of p l] obtain q st1 where
    1: "hash_get (lk_hash st) p = Some q"
      "(case q of None \<Rightarrow> Some st
        | Some q \<Rightarrow> do {
            n \<leftarrow> node_at (lk_hash st) q;
            ms \<leftarrow> debug_leak_rec_dump (node_val n);
            leak_drop q (leak_print (AllocatedTwice p l # ms) st)
          }) = Some st1"
      "leak_ok st1" "live st1 = (live st)(p := None)" "lk_counter st1 = lk_counter st"
      "lk_out st1 = lk_out st @ (case live st p of None \<Rightarrow> [] | Some r \<Rightarrow> AllocatedTwice p l # dump_of p r)"
      "m_node_count (lk_hash st1) \<le> m_node_count (lk_hash st)" by blast
  have ok1: "hash_ok hash_hash_int hash_cmp_int id (lk_hash st1)" using 1(3) by (simp add: leak_ok_def)
  have c1: "m_node_count (lk_hash st1) < 3 * 2 ^ 29" using c 1(7) by simp
  from int_key.holds_put [OF ok1 c1, of leak_node_zero p None] obtain h q' ev where
    2: "hash_put leak_node_zero (lk_hash st1) p None = Some (h, q', ev)" "int_key.holds h p q' (node_val leak_node_zero)"
      "m_node_count h \<le> m_node_count (lk_hash st1) + 1"
      "hash_map id h = (hash_map id (lk_hash st1))(p \<mapsto> node_val leak_node_zero)" by auto
  let ?r = "\<lparr>lr_ptr = p, lr_counter = lk_counter st + 1, lr_stack = array_init 16 1\<rparr>"
  from int_key.holds_store [OF 2(2), of ?r] obtain h' where
    3: "node_store h q' ?r = Some h'" "int_key.holds h' p q' ?r" "m_node_count h' = m_node_count h"
      "hash_map id h' = (hash_map id (lk_hash st1))(p \<mapsto> ?r)" by (auto simp: 2(4))
  let ?st = "st1\<lparr>lk_counter := lk_counter st + 1, lk_hash := h'\<rparr>"
  have wf: "array_wf (array_init 16 1 :: stack_rec array_t)" "elems (array_init 16 1 :: stack_rec array_t) = []"
    using array_wf_init [of 16 1] by (simp_all add: elems_def array_init_def)
  have "leak_ok ?st" unfolding leak_ok_def
  proof (intro conjI allI impI)
    show "lk_init_done ?st" using 1(3) by (simp add: leak_ok_def)
    show "hash_ok hash_hash_int hash_cmp_int id (lk_hash ?st)" using int_key.holds_ok [OF 3(2)] by simp
    fix x r assume "hash_map id (lk_hash ?st) x = Some r"
    then show "rec_ok (lk_counter ?st) x r"
      using 1(3,5) wf(1) by (fastforce simp: 3(4) leak_ok_def rec_ok_def split: if_splits)
  qed
  from stack_ok [OF this, of p l] obtain st' where
    4: "debug_leak_stack_f p l ?st = Some st'" "leak_ok st'" "view st' = view_step (Stack p l) (view ?st)"
      "m_node_count (lk_hash st') = m_node_count (lk_hash ?st)" by blast
  have init: "debug_leak_init_f st = Some st" using ok by (simp add: debug_leak_init_f_def leak_ok_def)
  have "debug_leak_create_f p l st = Some st'"
    unfolding debug_leak_create_f_def init using 1(1,2) 2(1) 3(1) 4(1)
    by (simp add: debug_leak_rec_init_def Let_def 1(5))
  moreover have "live ?st = (live st)(p \<mapsto> (lk_counter st + 1, []))"
    using 1(4) wf(2) by (auto simp: live_def 3(4) fun_eq_iff)
  then have "view ?st = ((live st)(p \<mapsto> (lk_counter st + 1, [])), lk_counter st + 1,
      lk_out st @ (case live st p of None \<Rightarrow> [] | Some r \<Rightarrow> AllocatedTwice p l # dump_of p r))" by (simp add: view_def 1(6))
  then have "view st' = view_step (Create p l) (view st)" unfolding 4(3) by (simp add: view_def)
  ultimately show ?thesis using 4(2,4) 3(3) 2(3) 1(7) by auto
qed

lemma leak_op_ok:
  assumes "leak_ok st" "m_node_count (lk_hash st) < 3 * 2 ^ 29"
  shows "\<exists>st'. leak_op_run op st = Some st' \<and> leak_ok st' \<and> view st' = view_step op (view st) \<and>
    m_node_count (lk_hash st') \<le> m_node_count (lk_hash st) + 1"
  using create_ok [OF assms] stack_ok [OF assms(1)] delete_ok [OF assms(1)] assms(2) by (cases op) fastforce+

lemma leak_run_ok:
  "leak_ok st \<Longrightarrow> m_node_count (lk_hash st) + int (length ops) \<le> 3 * 2 ^ 29 \<Longrightarrow>
   \<exists>st'. leak_run ops st = Some st' \<and> leak_ok st' \<and> view st' = fold view_step ops (view st) \<and>
     m_node_count (lk_hash st') \<le> m_node_count (lk_hash st) + int (length ops)"
proof (induction ops arbitrary: st)
  case (Cons op ops)
  then obtain st' where s: "leak_op_run op st = Some st'" "leak_ok st'" "view st' = view_step op (view st)"
    "m_node_count (lk_hash st') \<le> m_node_count (lk_hash st) + 1" using leak_op_ok [of st op] by auto
  from Cons.IH [OF s(2)] s Cons.prems(2) show ?case by auto
qed simp

lemma first_create:
  "\<exists>st. debug_leak_create_f p l leak_start = debug_leak_create_f p l st \<and> leak_ok st \<and> view st = (Map.empty, 0, []) \<and>
     m_node_count (lk_hash st) = 0"
proof -
  obtain h where h: "hash_init leak_node_zero hash_hash_int hash_cmp_int 0 56 0 = Some h"
      "hash_ok hash_hash_int hash_cmp_int id h" "hash_map id h = Map.empty" "m_node_count h = 0"
    using int_key.hash_init_ok [of 0 56 0 leak_node_zero] by auto
  let ?st = "leak_start\<lparr>lk_init_done := True, lk_hash := h\<rparr>"
  have "debug_leak_init_f leak_start = debug_leak_init_f ?st"
    using h(1) by (simp add: debug_leak_init_f_def leak_start_def)
  then have "debug_leak_create_f p l leak_start = debug_leak_create_f p l ?st" by (simp add: debug_leak_create_f_def)
  moreover have "leak_ok ?st" "view ?st = (Map.empty, 0, [])"
    using h by (simp_all add: leak_ok_def view_def live_def leak_start_def fun_eq_iff)
  ultimately show ?thesis using h(4) by (intro exI [of _ ?st]) (simp add: leak_start_def)
qed

lemma history:
  assumes "length ops < 3 * 2 ^ 29"
  shows "\<exists>st. leak_run (Create p l # ops) leak_start = Some st \<and> leak_ok st \<and>
    view st = fold view_step (Create p l # ops) (Map.empty, 0, []) \<and> m_node_count (lk_hash st) \<le> 3 * 2 ^ 29"
proof -
  obtain s0 where s0: "debug_leak_create_f p l leak_start = debug_leak_create_f p l s0" "leak_ok s0"
    "view s0 = (Map.empty, 0, [])" "m_node_count (lk_hash s0) = 0" using first_create by blast
  have "leak_run (Create p l # ops) leak_start = leak_run (Create p l # ops) s0" by (simp add: s0(1))
  with leak_run_ok [OF s0(2), of "Create p l # ops"] assms s0(3,4) show ?thesis by fastforce
qed

section \<open>Traversals that collect\<close>

fun each :: "('n \<Rightarrow> 's \<Rightarrow> 's option) \<Rightarrow> 'n list \<Rightarrow> 's \<Rightarrow> 's option" where
  "each g [] a = Some a"
| "each g (n # ns) a = do { a \<leftarrow> g n a; each g ns a }"

lemma each_append: "each g (xs @ ys) a = do { a \<leftarrow> each g xs a; each g ys a }"
  by (induction xs arbitrary: a) (auto split: bind_split)

text \<open>A callback that reads its node and may fail.\<close>

definition scan :: "(('k, 'v) hash_node \<Rightarrow> 's \<Rightarrow> 's option) \<Rightarrow> ('k, 'v, 's) foreach_func" where
  "scan g self p a = do { n \<leftarrow> node_at self p; a \<leftarrow> g n a; Some (self, a, 0) }"

lemma foreach_nodes_scan:
  assumes sh: "hash_shape self" "i < length (buckets self)"
  shows "j \<le> length (buckets self ! i) \<Longrightarrow>
    foreach_nodes (scan g) (int i) j self a = map_option (\<lambda>a. (self, a, 0)) (each g (rev (take j (buckets self ! i))) a)"
proof (induction j arbitrary: a)
  case (Suc j)
  have "rev (take (Suc j) (buckets self ! i)) = buckets self ! i ! j # rev (take j (buckets self ! i))"
    using Suc.prems by (simp add: take_Suc_conv_app_nth)
  with Suc node_at_ok [OF sh, of j] show ?case by (cases "g (buckets self ! i ! j) a") (simp_all add: scan_def)
qed simp

lemma foreach_buckets_scan:
  assumes sh: "hash_shape self"
  shows "i + n = length (buckets self) \<Longrightarrow>
    foreach_buckets (scan g) i n self a = map_option (\<lambda>a. (self, a, 0)) (each g (concat (map rev (drop i (buckets self)))) a)"
proof (induction n arbitrary: i a)
  case (Suc n)
  then have i: "i < length (buckets self)" by simp
  obtain b where b: "get_bucket self (int i) = Some b" "array_wf b" "elems b = buckets self ! i"
    using sh i by (rule get_bucket_ok)
  have d: "drop i (buckets self) = buckets self ! i # drop (Suc i) (buckets self)" using i by (simp add: Cons_nth_drop_Suc)
  have n: "foreach_nodes (scan g) (int i) (nat (array_count b)) self a =
      map_option (\<lambda>a. (self, a, 0)) (each g (rev (buckets self ! i)) a)"
    using foreach_nodes_scan [OF sh i order_refl, of g a] b(2,3) by (simp add: array_count_eq)
  have "Suc i + n = length (buckets self)" using Suc.prems by simp
  from Suc.IH [OF this] b(1) n show ?case
    by (cases "each g (rev (buckets self ! i)) a") (simp_all add: d each_append)
qed simp

lemma hash_foreach_scan:
  assumes "hash_shape self"
  shows "hash_foreach (scan g) self a = map_option (\<lambda>a. (self, a, 0)) (each g (foreach_order self) a)"
proof -
  have "nat (m_bucket_count self) = length (buckets self)" using shape_length [OF assms] by simp
  then show ?thesis using foreach_buckets_scan [OF assms, of 0] by (simp add: hash_foreach_def foreach_order_def)
qed

lemma each_store:
  "array_wf a \<Longrightarrow> \<exists>a'. each (\<lambda>n a. add_store z a (f n)) ns a = Some a' \<and> array_wf a' \<and> elems a' = elems a @ map f ns"
proof (induction ns arbitrary: a)
  case (Cons n ns)
  obtain a1 where a1: "add_store z a (f n) = Some a1" "array_wf a1" "elems a1 = elems a @ [f n]"
    using add_store_ok [OF Cons.prems] by blast
  with Cons.IH [OF a1(2)] show ?case by auto
qed simp

lemma collected:
  assumes "hash_shape h"
  shows "\<exists>a'. hash_foreach (\<lambda>h p a. do { n \<leftarrow> node_at h p; a \<leftarrow> add_store z a (node_val n); Some (h, a, 0) }) h
      (array_init 8 0) = Some (h, a', 0) \<and>
    array_wf a' \<and> elems a' = map node_val (foreach_order h)"
proof -
  have "(\<lambda>h p a. do { n \<leftarrow> node_at h p; a \<leftarrow> add_store z a (node_val n); Some (h, a, 0) }) = scan (\<lambda>n a. add_store z a (node_val n))"
    by (simp add: scan_def fun_eq_iff)
  note eq = this
  obtain a' where "each (\<lambda>n a. add_store z a (node_val n)) (foreach_order h) (array_init 8 0) = Some a'"
      "array_wf a'" "elems a' = map node_val (foreach_order h)"
    using each_store [of "array_init 8 0" z node_val "foreach_order h"] array_wf_init [of 8 0] by auto
  then show ?thesis unfolding eq hash_foreach_scan [OF assms(1)] by simp
qed

text \<open>Sorting keeps distinctness.\<close>

lemma qsort_distinct:
  assumes "qsort_ok qs cmp" "distinct (map f xs)"
  shows "distinct (map f (qs cmp xs))"
proof -
  have q: "length (qs cmp xs) = length xs" "set (qs cmp xs) = set xs" using assms(1) by (auto simp: qsort_ok_def)
  have "distinct xs" using assms(2) by (simp add: distinct_map)
  then have "distinct (qs cmp xs)" using q by (metis card_distinct distinct_card)
  then show ?thesis using assms(2) q(2) by (simp add: distinct_map)
qed

section \<open>The dump\<close>

lemma dump_all_eq:
  assumes a: "array_wf a" and r: "\<forall>r\<in>set (elems a). array_wf (lr_stack r)"
  shows "i + n = length (elems a) \<Longrightarrow>
    dump_all a i n = Some (concat (map (\<lambda>r. dump_of (lr_ptr r) (lr_counter r, elems (lr_stack r))) (drop i (elems a))))"
proof (induction n arbitrary: i)
  case (Suc n)
  then have i: "i < length (elems a)" by simp
  then have e: "elt_at a (array_get a (int i)) = Some (elems a ! i)" using a by (intro elt_at_nat) auto
  have d: "drop i (elems a) = elems a ! i # drop (Suc i) (elems a)" using i by (simp add: Cons_nth_drop_Suc)
  have "array_wf (lr_stack (elems a ! i))" using r i by simp
  from rec_dump [OF this] Suc.IH [of "Suc i"] Suc.prems e show ?case by (simp add: d dump_of_def)
qed simp

text \<open>The records of the table, with the pointer each belongs to.\<close>

lemma leak_records:
  assumes "leak_ok st"
  shows "hash_shape (lk_hash st)" "distinct (map node_key (foreach_order (lk_hash st)))"
    "n \<in> set (foreach_order (lk_hash st)) \<Longrightarrow> hash_map id (lk_hash st) (node_key n) = Some (node_val n)"
    "hash_map id (lk_hash st) p = Some r \<Longrightarrow> \<exists>n\<in>set (foreach_order (lk_hash st)). node_key n = p \<and> node_val n = r"
proof -
  let ?h = "lk_hash st"
  have m: "mset (foreach_order ?h) = mset (nodes ?h)" by (rule foreach_order_mset)
  have ok: "hash_ok hash_hash_int hash_cmp_int id ?h" using assms by (simp add: leak_ok_def)
  then show "hash_shape ?h" by (simp add: hash_ok_def)
  have d: "distinct (node_keys id (nodes ?h))" using ok by (simp add: hash_ok_def)
  have "mset (map node_key (foreach_order ?h)) = mset (node_keys id (nodes ?h))" using m by (simp add: node_keys_def)
  then show "distinct (map node_key (foreach_order ?h))" using d by (metis mset_eq_imp_distinct_iff)
  have s: "set (foreach_order ?h) = set (nodes ?h)" using m by (rule mset_eq_setD)
  show "n \<in> set (foreach_order ?h) \<Longrightarrow> hash_map id ?h (node_key n) = Some (node_val n)"
    using hash_map_Some_iff [OF d, of "node_key n" "node_val n"] s by auto
  show "hash_map id ?h p = Some r \<Longrightarrow> \<exists>n\<in>set (foreach_order ?h). node_key n = p \<and> node_val n = r"
    using hash_map_Some_iff [OF d, of p r] s by auto
qed

lemma dump_ok:
  assumes ok: "leak_ok st" and qs: "qsort_ok qs debug_leak_rec_cmp_counter"
  shows "\<exists>st' ps. debug_leak_dump_f qs st = Some st' \<and> leak_ok st' \<and> live st' = live st \<and> lk_counter st' = lk_counter st \<and>
    distinct ps \<and> set ps = dom (live st) \<and> sorted_wrt (\<lambda>p q. fst (the (live st p)) \<le> fst (the (live st q))) ps \<and>
    lk_out st' = lk_out st @ concat (map (\<lambda>p. dump_of p (the (live st p))) ps)"
proof -
  let ?h = "lk_hash st" and ?rs = "map node_val (foreach_order (lk_hash st))"
  obtain a where a: "hash_foreach debug_leak_dump_foreach ?h (array_init 8 0) = Some (?h, a, 0)" "array_wf a" "elems a = ?rs"
    using collected [OF leak_records(1) [OF ok], of "node_val leak_node_zero"] by (auto simp: debug_leak_dump_foreach_def [abs_def])
  let ?b = "array_qsort qs a debug_leak_rec_cmp_counter" and ?ys = "qs debug_leak_rec_cmp_counter ?rs"
  have b: "array_wf ?b" "elems ?b = ?ys" using array_qsort_spec [OF a(2) qs] a(3) by simp_all
  have q: "set ?ys = set ?rs" "sorted_wrt (\<lambda>x y. lr_counter x \<le> lr_counter y) ?ys"
    using qs unfolding qsort_ok_def by (auto simp: debug_leak_rec_cmp_counter_def)
  have r: "hash_map id ?h (lr_ptr r) = Some r" "rec_ok (lk_counter st) (lr_ptr r) r" if "r \<in> set ?rs" for r
  proof -
    from that obtain n where n: "n \<in> set (foreach_order ?h)" "r = node_val n" by auto
    with leak_records(3) [OF ok n(1)] have "hash_map id ?h (node_key n) = Some r" by simp
    moreover from this ok have "rec_ok (lk_counter st) (node_key n) r" by (simp add: leak_ok_def)
    ultimately show "hash_map id ?h (lr_ptr r) = Some r" "rec_ok (lk_counter st) (lr_ptr r) r" by (auto simp: rec_ok_def)
  qed
  have live: "live st (lr_ptr r) = Some (lr_counter r, elems (lr_stack r))" if "r \<in> set ?ys" for r
    using r(1) [of r] that by (simp add: live_def q(1))
  have wf: "\<forall>r\<in>set ?ys. array_wf (lr_stack r)" using r(2) q(1) by (auto simp: rec_ok_def)
  have d: "dump_all ?b 0 (nat (array_count ?b)) = Some (concat (map (\<lambda>r. dump_of (lr_ptr r) (lr_counter r, elems (lr_stack r))) ?ys))"
    using dump_all_eq [OF b(1), of 0 "length ?ys"] wf b by (simp add: array_count_eq)
  also have "map (\<lambda>r. dump_of (lr_ptr r) (lr_counter r, elems (lr_stack r))) ?ys = map (\<lambda>p. dump_of p (the (live st p))) (map lr_ptr ?ys)"
    using live by simp
  finally have "debug_leak_dump_f qs st =
      Some (leak_print (concat (map (\<lambda>p. dump_of p (the (live st p))) (map lr_ptr ?ys))) (st\<lparr>lk_hash := ?h\<rparr>))"
    using a(1) by (simp add: debug_leak_dump_f_def Let_def)
  moreover have "map lr_ptr ?rs = map node_key (foreach_order ?h)"
    using leak_records(3) [OF ok] ok by (auto simp: leak_ok_def rec_ok_def)
  then have "distinct (map lr_ptr ?rs)" using leak_records(2) [OF ok] by (simp only:)
  then have "distinct (map lr_ptr ?ys)" by (rule qsort_distinct [OF qs])
  moreover have "set (map lr_ptr ?ys) = dom (live st)"
  proof
    show "set (map lr_ptr ?ys) \<subseteq> dom (live st)" using live by auto
    show "dom (live st) \<subseteq> set (map lr_ptr ?ys)"
    proof
      fix p assume "p \<in> dom (live st)"
      then obtain r' where r': "hash_map id ?h p = Some r'" by (auto simp: live_def)
      with leak_records(4) [OF ok this] have "r' \<in> set ?rs" by auto
      moreover have "lr_ptr r' = p" using r' ok by (auto simp: leak_ok_def rec_ok_def)
      ultimately show "p \<in> set (map lr_ptr ?ys)" by (simp only: set_map q(1)) blast
    qed
  qed
  moreover have "sorted_wrt (\<lambda>p q. fst (the (live st p)) \<le> fst (the (live st q))) (map lr_ptr ?ys)"
    unfolding sorted_wrt_map by (rule sorted_wrt_mono_rel [OF _ q(2)]) (simp add: live)
  ultimately show ?thesis using leak_ok_print [OF ok]
    by (intro exI [of _ "leak_print (concat (map (\<lambda>p. dump_of p (the (live st p))) (map lr_ptr ?ys))) st"] exI [of _ "map lr_ptr ?ys"])
      (simp add: leak_print_def)
qed

section \<open>The report by line\<close>

text \<open>Two places are the same when the names of the files and the lines are.\<close>

definition place_of :: "by_line \<Rightarrow> byte list \<times> 32 word" where
  "place_of b = (cstr (bl_file b), bl_line b)"

interpretation line_key: hash_key debug_leak_by_line_hash_hash debug_leak_by_line_hash_cmp place_of
proof unfold_locales
  fix a b
  have w: "hash_cmp_int (scast x) (scast y) = 0 \<longleftrightarrow> x = y" for x y :: "32 word"
  proof -
    have "scast x - scast y = (of_int (sint x - sint y) :: u64)" unfolding scast_eq of_int_diff ..
    moreover have "- (2 ^ 31) \<le> sint x" "sint x < 2 ^ 31" "- (2 ^ 31) \<le> sint y" "sint y < 2 ^ 31"
      using sint_ge [of x] sint_lt [of x] sint_ge [of y] sint_lt [of y] by simp_all
    then have "sint (of_int (sint x - sint y) :: u64) = sint x - sint y"
      by (simp add: sint_sbintrunc' signed_take_bit_int_eq_self del: of_int_diff)
    ultimately have "to_i32 (sint (scast x - scast y :: u64)) = sint (x - y)" by (simp add: to_i32_def)
    then show ?thesis unfolding hash_cmp_int_def by (metis right_minus_eq sint_0 signed_word_eqI)
  qed
  show "debug_leak_by_line_hash_hash a = debug_leak_by_line_hash_hash b \<and> debug_leak_by_line_hash_cmp a b = 0 \<longleftrightarrow>
      place_of a = place_of b"
    by (auto simp: debug_leak_by_line_hash_hash_def debug_leak_by_line_hash_cmp_def Let_def place_of_def w
        hash_cmp_str_def strdiff_zero cstr_nonzero hash_hash_str_def)
qed

text \<open>The place a record was allocated at, if it has one.\<close>

definition origin :: "leak_rec \<Rightarrow> (byte list \<times> 32 word) option" where
  "origin r = (case elems (lr_stack r) of [] \<Rightarrow> None | l # ls \<Rightarrow> Some (cstr (st_file l), st_line l))"

definition lines_ok :: "(by_line, by_line) hash_t \<Rightarrow> bool" where
  "lines_ok bh \<longleftrightarrow> hash_ok debug_leak_by_line_hash_hash debug_leak_by_line_hash_cmp place_of bh \<and>
     (\<forall>k b. hash_map place_of bh k = Some b \<longrightarrow> place_of b = k \<and> 0 < bl_count b)"

definition line_count :: "(by_line, by_line) hash_t \<Rightarrow> byte list \<times> 32 word \<Rightarrow> int" where
  "line_count bh k = (case hash_map place_of bh k of None \<Rightarrow> 0 | Some b \<Rightarrow> bl_count b)"

lemma count_line_ok:
  assumes bh: "lines_ok bh" "m_node_count bh < 3 * 2 ^ 29" and r: "array_wf (lr_stack r)"
  shows "\<exists>bh'. count_line r bh = Some bh' \<and> lines_ok bh' \<and> m_node_count bh' \<le> m_node_count bh + 1 \<and>
    line_count bh' = (\<lambda>k. line_count bh k + (if origin r = Some k then 1 else 0))"
proof (cases "elems (lr_stack r)")
  case Nil
  then have "array_get (lr_stack r) 0 = None" using r by (simp add: array_get_eq Let_def)
  then show ?thesis using Nil bh(1) by (simp add: count_line_def origin_def)
next
  case (Cons l ls)
  then have g: "array_get (lr_stack r) 0 = Some 0" using r by (simp add: array_get_eq Let_def)
  moreover have "elt_at (lr_stack r) (array_get (lr_stack r) (int 0)) = Some (elems (lr_stack r) ! 0)"
    using r Cons by (intro elt_at_nat) auto
  ultimately have e: "elt_at (lr_stack r) (Some 0) = Some l" using Cons by simp
  let ?key = "\<lparr>bl_file = st_file l, bl_line = st_line l, bl_count = 0\<rparr>"
  have k: "origin r = Some (place_of ?key)" using Cons by (simp add: origin_def place_of_def)
  have ok: "hash_ok debug_leak_by_line_hash_hash debug_leak_by_line_hash_cmp place_of bh" using bh(1) by (simp add: lines_ok_def)
  obtain bh1 q v where 1:
    "(do { q \<leftarrow> hash_get bh ?key;
           case q of Some q \<Rightarrow> Some (bh, q)
           | None \<Rightarrow> do { (bh, q, ev) \<leftarrow> hash_put by_line_zero bh ?key (Some ?key); Some (bh, q) } }) = Some (bh1, q)"
    "line_key.holds bh1 ?key q v" "m_node_count bh1 \<le> m_node_count bh + 1"
    "hash_map place_of bh1 = (hash_map place_of bh)(place_of ?key \<mapsto> v)"
    "place_of v = place_of ?key" "bl_count v = line_count bh (place_of ?key)" "0 \<le> bl_count v"
  proof (cases "hash_map place_of bh (place_of ?key)")
    case None
    then have "hash_get bh ?key = Some None" using line_key.holds_find [OF ok, of ?key] by simp
    moreover obtain bh1 q ev where "hash_put by_line_zero bh ?key (Some ?key) = Some (bh1, q, ev)"
        "line_key.holds bh1 ?key q ?key" "m_node_count bh1 \<le> m_node_count bh + 1"
        "hash_map place_of bh1 = (hash_map place_of bh)(place_of ?key \<mapsto> ?key)"
      using line_key.holds_put [OF ok bh(2), of by_line_zero ?key "Some ?key"] by auto
    ultimately show ?thesis using None by (intro that [of bh1 q ?key]) (simp_all add: line_count_def)
  next
    case (Some v)
    then obtain q where q: "hash_get bh ?key = Some (Some q)" "line_key.holds bh ?key q v"
      using line_key.holds_find [OF ok, of ?key] by auto
    show ?thesis
    proof (rule that [of bh q v])
      show "hash_map place_of bh = (hash_map place_of bh)(place_of ?key \<mapsto> v)" using Some by auto
      have "place_of v = place_of ?key \<and> 0 < bl_count v" using Some bh(1) unfolding lines_ok_def by blast
      then show "place_of v = place_of ?key" "0 \<le> bl_count v" by simp_all
    qed (use q Some in \<open>simp_all add: line_count_def\<close>)
  qed
  obtain n where n: "node_at bh1 q = Some n" "node_val n = v" using line_key.holds_node [OF 1(2)] by blast
  let ?w = "v\<lparr>bl_count := bl_count v + 1\<rparr>"
  obtain bh2 where 2: "node_store bh1 q ?w = Some bh2" "line_key.holds bh2 ?key q ?w" "m_node_count bh2 = m_node_count bh1"
      "hash_map place_of bh2 = (hash_map place_of bh)(place_of ?key \<mapsto> ?w)"
    using line_key.holds_store [OF 1(2), of ?w] by (auto simp: 1(4))
  have "count_line r bh = Some bh2"
    using g e 1(1) n 2(1) by (auto simp: count_line_def Let_def split: bind_splits option.splits)
  moreover have "place_of ?w = place_of ?key" using 1(5) by (simp add: place_of_def)
  then have "lines_ok bh2" using bh(1) line_key.holds_ok [OF 2(2)] 1(7) by (auto simp: lines_ok_def 2(4))
  moreover have "line_count bh2 = (\<lambda>k. line_count bh k + (if origin r = Some k then 1 else 0))"
    by (auto simp: fun_eq_iff k line_count_def 2(4) 1(6))
  ultimately show ?thesis using 1(3) 2(3) by auto
qed

lemma each_count:
  "lines_ok bh \<Longrightarrow> m_node_count bh + int (length ns) \<le> 3 * 2 ^ 29 \<Longrightarrow> \<forall>n\<in>set ns. array_wf (lr_stack (node_val n)) \<Longrightarrow>
   \<exists>bh'. each (\<lambda>n. count_line (node_val n)) ns bh = Some bh' \<and> lines_ok bh' \<and>
     line_count bh' = (\<lambda>k. line_count bh k + int (length (filter (\<lambda>n. origin (node_val n) = Some k) ns)))"
proof (induction ns arbitrary: bh)
  case (Cons n ns)
  obtain bh1 where 1: "count_line (node_val n) bh = Some bh1" "lines_ok bh1" "m_node_count bh1 \<le> m_node_count bh + 1"
    "line_count bh1 = (\<lambda>k. line_count bh k + (if origin (node_val n) = Some k then 1 else 0))"
    using count_line_ok [OF Cons.prems(1), of "node_val n"] Cons.prems(2,3) by auto
  from Cons.IH [OF 1(2)] 1 Cons.prems(2,3) show ?case by (auto simp: fun_eq_iff)
qed simp

text \<open>The pointers that are live and were allocated at a place.\<close>

definition allocated_at :: "(u64 \<Rightarrow> (int \<times> stack_rec list) option) \<Rightarrow> byte list \<times> 32 word \<Rightarrow> u64 set" where
  "allocated_at m k = {p. \<exists>c l ls. m p = Some (c, l # ls) \<and> (cstr (st_file l), st_line l) = k}"

lemma allocated_count:
  assumes ok: "leak_ok st"
  shows "length (filter (\<lambda>n. origin (node_val n) = Some k) (foreach_order (lk_hash st))) = card (allocated_at (live st) k)"
proof -
  let ?ns = "foreach_order (lk_hash st)" and ?P = "\<lambda>n. origin (node_val n) = Some k"
  have "distinct (map node_key (filter ?P ?ns))" using leak_records(2) [OF ok] by (simp add: distinct_map_filter)
  then have "length (filter ?P ?ns) = card (set (map node_key (filter ?P ?ns)))" using distinct_card by fastforce
  also have "set (map node_key (filter ?P ?ns)) = allocated_at (live st) k"
  proof (rule set_eqI)
    fix p
    have "p \<in> set (map node_key (filter ?P ?ns)) \<longleftrightarrow> (\<exists>r. hash_map id (lk_hash st) p = Some r \<and> origin r = Some k)"
      using leak_records(3,4) [OF ok] by fastforce
    also have "\<dots> \<longleftrightarrow> p \<in> allocated_at (live st) k"
      by (cases "hash_map id (lk_hash st) p") (auto simp: allocated_at_def live_def origin_def split: list.splits)
    finally show "p \<in> set (map node_key (filter ?P ?ns)) \<longleftrightarrow> p \<in> allocated_at (live st) k" .
  qed
  finally show ?thesis .
qed

definition line_msg :: "by_line \<Rightarrow> leak_msg" where
  "line_msg b = ByLine (bl_file b) (bl_line b) (bl_count b)"

lemma print_lines_eq:
  assumes a: "array_wf a"
  shows "i + n = length (elems a) \<Longrightarrow> print_lines a i n = Some (map line_msg (drop i (elems a)))"
proof (induction n arbitrary: i)
  case (Suc n)
  then have i: "i < length (elems a)" by simp
  then have e: "elt_at a (array_get a (int i)) = Some (elems a ! i)" using a by (intro elt_at_nat) auto
  have d: "drop i (elems a) = elems a ! i # drop (Suc i) (elems a)" using i by (simp add: Cons_nth_drop_Suc)
  from Suc.IH [of "Suc i"] Suc.prems e show ?case by (simp add: d line_msg_def)
qed simp

text \<open>The rows the table of lines stands for.\<close>

lemma line_rows:
  assumes "lines_ok bh"
  shows "hash_shape bh" "distinct (map place_of (map node_val (foreach_order bh)))"
    "b \<in> set (map node_val (foreach_order bh)) \<longleftrightarrow> hash_map place_of bh (place_of b) = Some b"
proof -
  have m: "mset (foreach_order bh) = mset (nodes bh)" by (rule foreach_order_mset)
  have ok: "hash_ok debug_leak_by_line_hash_hash debug_leak_by_line_hash_cmp place_of bh" using assms by (simp add: lines_ok_def)
  then show "hash_shape bh" by (simp add: hash_ok_def)
  have d: "distinct (node_keys place_of (nodes bh))" using ok by (simp add: hash_ok_def)
  have s: "set (foreach_order bh) = set (nodes bh)" using m by (rule mset_eq_setD)
  have v: "place_of (node_val n) = place_of (node_key n)" "hash_map place_of bh (place_of (node_key n)) = Some (node_val n)"
    if "n \<in> set (foreach_order bh)" for n
  proof -
    show h: "hash_map place_of bh (place_of (node_key n)) = Some (node_val n)"
      using hash_map_Some_iff [OF d, of "place_of (node_key n)" "node_val n"] that s by auto
    show "place_of (node_val n) = place_of (node_key n)" using assms h unfolding lines_ok_def by blast
  qed
  have "mset (map (\<lambda>n. place_of (node_key n)) (foreach_order bh)) = mset (node_keys place_of (nodes bh))"
    using m by (simp add: node_keys_def)
  then have "distinct (map (\<lambda>n. place_of (node_key n)) (foreach_order bh))" using d by (metis mset_eq_imp_distinct_iff)
  moreover have "map place_of (map node_val (foreach_order bh)) = map (\<lambda>n. place_of (node_key n)) (foreach_order bh)"
    using v(1) by simp
  ultimately show "distinct (map place_of (map node_val (foreach_order bh)))" by (simp only:)
  show "b \<in> set (map node_val (foreach_order bh)) \<longleftrightarrow> hash_map place_of bh (place_of b) = Some b"
  proof
    assume "b \<in> set (map node_val (foreach_order bh))"
    then obtain n where n: "n \<in> set (foreach_order bh)" "b = node_val n" by auto
    then show "hash_map place_of bh (place_of b) = Some b" using v [OF n(1)] by simp
  next
    assume "hash_map place_of bh (place_of b) = Some b"
    then obtain n where "n \<in> set (foreach_order bh)" "node_val n = b" using hash_map_Some_iff [OF d, of "place_of b" b] s by auto
    then show "b \<in> set (map node_val (foreach_order bh))" by auto
  qed
qed

lemma counted:
  assumes ok: "leak_ok st" and c: "m_node_count (lk_hash st) \<le> 3 * 2 ^ 29"
  shows "\<exists>bh0 bh. hash_init by_line_zero debug_leak_by_line_hash_hash debug_leak_by_line_hash_cmp 16 16 0 = Some bh0 \<and>
    hash_foreach debug_leak_by_line_foreach_hash (lk_hash st) bh0 = Some (lk_hash st, bh, 0) \<and> lines_ok bh \<and>
    line_count bh = (\<lambda>k. int (card (allocated_at (live st) k)))"
proof -
  let ?h = "lk_hash st" and ?g = "\<lambda>n :: (u64, leak_rec) hash_node. count_line (node_val n)"
  obtain bh0 where 0: "hash_init by_line_zero debug_leak_by_line_hash_hash debug_leak_by_line_hash_cmp 16 16 0 = Some bh0"
      "hash_ok debug_leak_by_line_hash_hash debug_leak_by_line_hash_cmp place_of bh0" "hash_map place_of bh0 = Map.empty"
      "m_node_count bh0 = 0"
    using line_key.hash_init_ok [of 16 16 0 by_line_zero] by auto
  have l0: "lines_ok bh0" "line_count bh0 = (\<lambda>k. 0)" using 0(2,3) by (simp_all add: lines_ok_def line_count_def fun_eq_iff)
  have "hash_ok hash_hash_int hash_cmp_int id ?h" using ok by (simp add: leak_ok_def)
  then have "m_node_count ?h = int (length (nodes ?h))" by (simp add: hash_ok_def)
  then have len: "m_node_count bh0 + int (length (foreach_order ?h)) \<le> 3 * 2 ^ 29"
    using c 0(4) arg_cong [OF foreach_order_mset [of ?h], of size] by simp
  have wf: "\<forall>n\<in>set (foreach_order ?h). array_wf (lr_stack (node_val n))"
    using leak_records(3) [OF ok] ok by (auto simp: leak_ok_def rec_ok_def)
  obtain bh where 1: "each ?g (foreach_order ?h) bh0 = Some bh" "lines_ok bh"
      "line_count bh = (\<lambda>k. int (length (filter (\<lambda>n. origin (node_val n) = Some k) (foreach_order ?h))))"
    using each_count [OF l0(1) len wf] by (auto simp: l0(2))
  have "debug_leak_by_line_foreach_hash = scan ?g" by (simp add: debug_leak_by_line_foreach_hash_def scan_def fun_eq_iff)
  then have "hash_foreach debug_leak_by_line_foreach_hash ?h bh0 = Some (?h, bh, 0)"
    using hash_foreach_scan [OF leak_records(1) [OF ok], of ?g bh0] 1(1) by simp
  with 0(1) 1(2,3) show ?thesis by (simp add: allocated_count [OF ok])
qed

lemma by_line_ok:
  assumes ok: "leak_ok st" and c: "m_node_count (lk_hash st) \<le> 3 * 2 ^ 29" and qs: "qsort_ok qs debug_leak_by_line_cmp_count"
  shows "\<exists>st' rows. debug_leak_by_line_f qs st = Some st' \<and> live st' = live st \<and> lk_out st' = lk_out st @ map line_msg rows \<and>
    distinct (map place_of rows) \<and> sorted_wrt (\<lambda>a b. debug_leak_by_line_cmp_count a b \<le> 0) rows \<and>
    set (map place_of rows) = {k. allocated_at (live st) k \<noteq> {}} \<and>
    (\<forall>b\<in>set rows. bl_count b = int (card (allocated_at (live st) (place_of b))))"
proof -
  obtain bh0 bh where bh: "hash_init by_line_zero debug_leak_by_line_hash_hash debug_leak_by_line_hash_cmp 16 16 0 = Some bh0"
      "hash_foreach debug_leak_by_line_foreach_hash (lk_hash st) bh0 = Some (lk_hash st, bh, 0)" "lines_ok bh"
      "line_count bh = (\<lambda>k. int (card (allocated_at (live st) k)))"
    using counted [OF ok c] by blast
  let ?rs = "map node_val (foreach_order bh)"
  note rows = line_rows [OF bh(3)]
  obtain a where a: "hash_foreach debug_leak_by_line_foreach_array bh (array_init 8 0) = Some (bh, a, 0)" "array_wf a" "elems a = ?rs"
    using collected [OF rows(1), of "node_val by_line_zero"] by (auto simp: debug_leak_by_line_foreach_array_def [abs_def])
  let ?b = "array_qsort qs a debug_leak_by_line_cmp_count" and ?ys = "qs debug_leak_by_line_cmp_count ?rs"
  have b: "array_wf ?b" "elems ?b = ?ys" using array_qsort_spec [OF a(2) qs] a(3) by simp_all
  have q: "set ?ys = set ?rs" "sorted_wrt (\<lambda>a b. debug_leak_by_line_cmp_count a b \<le> 0) ?ys" using qs by (auto simp: qsort_ok_def)
  have "print_lines ?b 0 (nat (array_count ?b)) = Some (map line_msg ?ys)"
    using print_lines_eq [OF b(1), of 0 "length ?ys"] b by (simp add: array_count_eq)
  then have "debug_leak_by_line_f qs st = Some (leak_print (map line_msg ?ys) (st\<lparr>lk_hash := lk_hash st\<rparr>))"
    using bh(1,2) a(1) hash_clear_eq [OF rows(1)] by (simp add: debug_leak_by_line_f_def Let_def)
  moreover have "distinct (map place_of ?ys)" using rows(2) by (rule qsort_distinct [OF qs])
  moreover have n: "bl_count b = int (card (allocated_at (live st) (place_of b)))" if "b \<in> set ?ys" for b
  proof -
    have "hash_map place_of bh (place_of b) = Some b" using that rows(3) q(1) by blast
    then show ?thesis using fun_cong [OF bh(4), of "place_of b"] by (simp add: line_count_def)
  qed
  moreover have "set (map place_of ?ys) = {k. allocated_at (live st) k \<noteq> {}}"
  proof (rule set_eqI)
    fix k
    have p: "place_of b = k" if "hash_map place_of bh k = Some b" for b using bh(3) that unfolding lines_ok_def by blast
    have "k \<in> set (map place_of ?ys) \<longleftrightarrow> (\<exists>b\<in>set ?rs. k = place_of b)" unfolding set_map q(1) by blast
    also have "\<dots> \<longleftrightarrow> (\<exists>b. hash_map place_of bh k = Some b)" using rows(3) p by metis
    also have "\<dots> \<longleftrightarrow> line_count bh k \<noteq> 0"
    proof -
      have "0 < bl_count b" if "hash_map place_of bh k = Some b" for b using bh(3) that unfolding lines_ok_def by blast
      then show ?thesis by (cases "hash_map place_of bh k") (force simp: line_count_def)+
    qed
    also have "\<dots> \<longleftrightarrow> allocated_at (live st) k \<noteq> {}" by (simp add: bh(4))
    finally show "k \<in> set (map place_of ?ys) \<longleftrightarrow> k \<in> {k. allocated_at (live st) k \<noteq> {}}" by simp
  qed
  ultimately show ?thesis using q(2) by (intro exI [of _ "leak_print (map line_msg ?ys) st"] exI [of _ ?ys]) (simp add: leak_print_def)
qed

section \<open>Properties\<close>


definition sample_loc :: "nat \<Rightarrow> stack_rec" where
  "sample_loc n = \<lparr>st_file = [97, 46, 99, 0], st_line = of_nat n\<rparr>"

definition sample_ops :: "leak_op list" where
  "sample_ops = [Create 16 (sample_loc 2), Stack 8 (sample_loc 3), Create 16 (sample_loc 2), Delete 24 (sample_loc 5)]"


text \<open>
  The report by line after any history: one row for every file and line where a live pointer was allocated, with the number
  of these pointers, ordered by falling numbers and then by the names of the files; the table is unchanged. \<open>qsort\<close> is assumed
  to sort.
\<close>

theorem by_line_counts:
  assumes "length ops < 3 * 2 ^ 29" and "qsort_ok qs debug_leak_by_line_cmp_count"
  shows "\<exists>st st' rows. leak_run (Create p l # ops) leak_start = Some st \<and> debug_leak_by_line_f qs st = Some st' \<and>
    live st' = live st \<and> lk_out st' = lk_out st @ map line_msg rows \<and> distinct (map place_of rows) \<and>
    sorted_wrt (\<lambda>a b. debug_leak_by_line_cmp_count a b \<le> 0) rows \<and>
    set (map place_of rows) = {k. allocated_at (fst (fold view_step (Create p l # ops) (Map.empty, 0, []))) k \<noteq> {}} \<and>
    (\<forall>b\<in>set rows. bl_count b = int (card (allocated_at (fst (fold view_step (Create p l # ops) (Map.empty, 0, []))) (place_of b))))"
proof -
  obtain st where st: "leak_run (Create p l # ops) leak_start = Some st" "leak_ok st"
      "view st = fold view_step (Create p l # ops) (Map.empty, 0, [])" "m_node_count (lk_hash st) \<le> 3 * 2 ^ 29"
    using history [OF assms(1), of p l] by blast
  have "live st = fst (fold view_step (Create p l # ops) (Map.empty, 0, []))" using arg_cong [OF st(3), of fst] by (simp only: view_def fst_conv)
  note m = this
  show ?thesis unfolding m [symmetric] using by_line_ok [OF st(2,4) assms(2)] st(1) by blast
qed

text \<open>A function that sorts by any comparison that is a total preorder.\<close>

fun insert_by :: "('a \<Rightarrow> 'a \<Rightarrow> int) \<Rightarrow> 'a \<Rightarrow> 'a list \<Rightarrow> 'a list" where
  "insert_by c x [] = [x]"
| "insert_by c x (y # ys) = (if c x y \<le> 0 then x # y # ys else y # insert_by c x ys)"

definition sort_by :: "('a \<Rightarrow> 'a \<Rightarrow> int) \<Rightarrow> 'a list \<Rightarrow> 'a list" where
  "sort_by c xs = foldr (insert_by c) xs []"

lemma insert_by_set: "length (insert_by c x ys) = Suc (length ys)" "set (insert_by c x ys) = insert x (set ys)"
  by (induction ys) auto

lemma sort_by_ok:
  assumes total: "\<And>x y. c x y \<le> 0 \<or> c y x \<le> 0" and trans: "\<And>x y z. c x y \<le> 0 \<Longrightarrow> c y z \<le> 0 \<Longrightarrow> c x z \<le> 0"
  shows "qsort_ok sort_by c"
proof -
  have "sorted_wrt (\<lambda>x y. c x y \<le> 0) ys \<Longrightarrow> sorted_wrt (\<lambda>x y. c x y \<le> 0) (insert_by c x ys)" for x ys
    by (induction ys) (use total trans in \<open>auto simp: insert_by_set\<close>)
  then have "length (sort_by c xs) = length xs \<and> set (sort_by c xs) = set xs \<and> sorted_wrt (\<lambda>x y. c x y \<le> 0) (sort_by c xs)" for xs
    by (induction xs) (auto simp: sort_by_def insert_by_set)
  then show ?thesis by (simp add: qsort_ok_def)
qed

lemma strdiff_swap: "strdiff ys xs = - strdiff xs ys"
  by (induction xs ys rule: strdiff.induct) auto

lemma strdiff_trans: "0 \<notin> set xs \<Longrightarrow> 0 \<notin> set ys \<Longrightarrow> strdiff xs ys \<le> 0 \<Longrightarrow> strdiff ys zs \<le> 0 \<Longrightarrow> strdiff xs zs \<le> 0"
proof (induction xs zs arbitrary: ys rule: strdiff.induct)
  case (2 x xs)
  show ?case
  proof (cases ys)
    case (Cons a l)
    then have "uint a = 0" using 2(4) uint_ge_0 [of a] by simp
    then show ?thesis using 2(2) Cons by (simp add: uint_0_iff)
  qed (use 2 in simp)
next
  case (4 x xs z zs)
  then show ?case using uint_ge_0 [of x]
    by (cases ys) (auto simp: uint_0_iff split: if_splits dest: word_uint_eqI dest!: antisym)
qed auto

lemma cmp_count_sorts: "qsort_ok sort_by debug_leak_by_line_cmp_count"
proof (rule sort_by_ok)
  fix x y z :: by_line
  show "debug_leak_by_line_cmp_count x y \<le> 0 \<or> debug_leak_by_line_cmp_count y x \<le> 0"
    using strdiff_swap [of "cstr (bl_file x)" "cstr (bl_file y)"]
    by (auto simp: debug_leak_by_line_cmp_count_def hash_cmp_str_def Let_def)
  show "debug_leak_by_line_cmp_count x y \<le> 0 \<Longrightarrow> debug_leak_by_line_cmp_count y z \<le> 0 \<Longrightarrow> debug_leak_by_line_cmp_count x z \<le> 0"
    using strdiff_trans [OF cstr_nonzero cstr_nonzero, of "bl_file x" "bl_file y" "cstr (bl_file z)"]
    by (auto simp: debug_leak_by_line_cmp_count_def hash_cmp_str_def Let_def split: if_splits)
qed

lemma by_line_counts_witness:
  "\<exists>st st' rows. leak_run (Create 8 (sample_loc 1) # sample_ops) leak_start = Some st \<and>
    debug_leak_by_line_f sort_by st = Some st' \<and> lk_out st' = lk_out st @ map line_msg rows \<and>
    (\<forall>b\<in>set rows. place_of b = ([97, 46, 99], 2) \<longrightarrow> bl_count b = 1) \<and> ([97, 46, 99], 2) \<in> set (map place_of rows)"
proof -
  let ?m = "fst (fold view_step (Create 8 (sample_loc 1) # sample_ops) (Map.empty, 0, []))"
  have m: "?m = Map.empty(8 \<mapsto> (1, [sample_loc 1, sample_loc 3]), 16 \<mapsto> (3, [sample_loc 2]))"
    by (simp add: sample_ops_def)
  have at: "allocated_at ?m ([97, 46, 99], 2) = {16}"
    unfolding m by (auto simp: allocated_at_def sample_loc_def cstr_def)
  have "length sample_ops < 3 * 2 ^ 29" by (simp add: sample_ops_def)
  from by_line_counts [OF this cmp_count_sorts, of 8 "sample_loc 1"] obtain st st' rows where
    r: "leak_run (Create 8 (sample_loc 1) # sample_ops) leak_start = Some st" "debug_leak_by_line_f sort_by st = Some st'"
      "lk_out st' = lk_out st @ map line_msg rows" "set (map place_of rows) = {k. allocated_at ?m k \<noteq> {}}"
      "\<forall>b\<in>set rows. bl_count b = int (card (allocated_at ?m (place_of b)))" by blast
  have "([97, 46, 99], 2) \<in> set (map place_of rows)" unfolding r(4) using at by simp
  moreover have "\<forall>b\<in>set rows. place_of b = ([97, 46, 99], 2) \<longrightarrow> bl_count b = 1" using r(5) at by simp
  ultimately show ?thesis using r(1-3) by blast
qed

end
