(* ===== verification/SelectView.thy ===== *)
theory SelectView
  imports Select
begin

text \<open>The table of descriptors as the clients of \<open>fdselect_set\<close> see it: the wanted events and callbacks by descriptor.\<close>

lemma view_of_break [simp]: "view_of (sel\<lparr>fs_select_break := b\<rparr>) = view_of sel"
  by (simp add: view_of_def entry_of_def fun_eq_iff)

lemma sel_ok_of_break [simp]: "sel_ok (sel\<lparr>fs_select_break := b\<rparr>) \<longleftrightarrow> sel_ok sel"
  by (simp add: sel_ok_def)

lemma fdselect_set_view:
  assumes "sel_ok sel" "events \<noteq> 0"
  shows "\<exists>sel'. fdselect_set True sel fd events func farg = Some (sel', 0) \<and> sel_ok sel' \<and> fs_select_break sel' = 1 \<and>
    view_of sel' = spec_set (view_of sel) fd events func farg"
proof -
  from fdselect_set_spec [OF assms(1), of fd events func farg] obtain sel' where
    s: "fdselect_set True sel fd events func farg = Some (sel', 0)" "sel_ok sel'" "fs_select_break sel' = 1"
      "entry_of sel' = entry_set (entry_of sel) fd events func farg" by blast
  have "view_of sel' = spec_set (view_of sel) fd events func farg"
    using view_entry_set [of "entry_of sel" fd events func farg] assms(2) by (simp add: view_of_def [abs_def] s(4))
  with s show ?thesis by blast
qed

lemma fdselect_unset_view:
  assumes "sel_ok sel" "events \<noteq> 0"
  shows "\<exists>sel'. fdselect_unset True sel fd events = Some (sel', 0) \<and> sel_ok sel' \<and> fs_select_break sel' = 1 \<and>
    view_of sel' = spec_set (view_of sel) fd events None 0"
  using fdselect_set_view [of "sel\<lparr>fs_select_break := 1\<rparr>" events fd None 0] assms by (simp add: fdselect_unset_def)

end
