(* ===== verification/Pipe.thy ===== *)
theory Pipe
  imports Select
begin

text \<open>
  \<open>fdselect_pipe.c\<close>: what arrives on one of two sockets is sent on the other, through a buffer for each direction. The
  sockets are the sides 0 and 1; the peer of \<open>c\<close> is \<open>1 - c\<close>. What the system does is part of the state: what each side
  has still to deliver, what each call of \<open>send\<close> will take, and a log of what was received, sent, shut down and closed.
  The callback works on a state of its own; it does not change the pipe. \<open>None\<close> is an access outside a buffer.
\<close>

record pipe_sock =
  ps_sock :: int
  ps_err_read :: bool
  ps_err_write :: bool
  ps_select_read :: bool
  ps_select_write :: bool
  ps_buf :: "byte list"
  ps_off :: nat
  ps_len :: nat
  ps_max :: nat
  ps_err_read_done :: bool

datatype pipe_event = FDSELECT_PIPE_READ | FDSELECT_PIPE_WRITE | FDSELECT_PIPE_CLOSED

type_synonym 'w pipe_callback = "'w \<Rightarrow> nat option \<Rightarrow> pipe_event \<Rightarrow> byte list \<Rightarrow> int \<Rightarrow> 'w"

text \<open>What \<open>recv\<close> and \<open>send\<close> give; an empty piece is the end of the stream, an exhausted list blocks.\<close>

datatype pipe_in = PData "byte list" | PWait | PBroken
datatype pipe_out = PTook nat | PFull | PFailed
datatype pipe_act = Got nat "byte list" | Sent nat "byte list" | ShutRecv nat | ShutSend nat | SockClosed nat

record 'w pipe =
  pp_sock :: "nat \<Rightarrow> pipe_sock"
  pp_callback :: "'w pipe_callback option"
  pp_world :: 'w
  pp_in :: "nat \<Rightarrow> pipe_in list"
  pp_out :: "nat \<Rightarrow> pipe_out list"
  pp_log :: "pipe_act list"

datatype pipe_fn = SockRead | SockWrite

type_synonym pipe_table = "pipe_fn fdselect_t"

definition put_sock :: "nat \<Rightarrow> pipe_sock \<Rightarrow> 'w pipe \<Rightarrow> 'w pipe" where
  "put_sock c x p = p\<lparr>pp_sock := (pp_sock p)(c := x)\<rparr>"

definition pipe_log :: "pipe_act \<Rightarrow> 'w pipe \<Rightarrow> 'w pipe" where
  "pipe_log x p = p\<lparr>pp_log := pp_log p @ [x]\<rparr>"

definition pipe_notify :: "nat option \<Rightarrow> pipe_event \<Rightarrow> byte list \<Rightarrow> int \<Rightarrow> 'w pipe \<Rightarrow> 'w pipe" where
  "pipe_notify c e d n p = (case pp_callback p of None \<Rightarrow> p | Some f \<Rightarrow> p\<lparr>pp_world := f (pp_world p) c e d n\<rparr>)"

text \<open>\<open>recv\<close> of at most \<open>m\<close> bytes: the bytes, or nothing and whether it would have blocked.\<close>

definition pipe_recv :: "'w pipe \<Rightarrow> nat \<Rightarrow> nat \<Rightarrow> 'w pipe \<times> byte list option \<times> bool" where
  "pipe_recv p c m =
     (case pp_in p c of
        [] \<Rightarrow> (p, None, True)
      | PWait # r \<Rightarrow> (p\<lparr>pp_in := (pp_in p)(c := r)\<rparr>, None, True)
      | PBroken # r \<Rightarrow> (p\<lparr>pp_in := (pp_in p)(c := r)\<rparr>, None, False)
      | PData d # r \<Rightarrow>
          (pipe_log (Got c (take m d)) (p\<lparr>pp_in := (pp_in p)(c := (if length d \<le> m then r else PData (drop m d) # r))\<rparr>),
           Some (take m d), False))"

text \<open>\<open>send\<close>: how many bytes were taken, or \<open>- 1\<close> and whether it would have blocked.\<close>

definition pipe_send :: "'w pipe \<Rightarrow> nat \<Rightarrow> byte list \<Rightarrow> 'w pipe \<times> int \<times> bool" where
  "pipe_send p c d =
     (case pp_out p c of
        [] \<Rightarrow> (p, - 1, True)
      | PFull # r \<Rightarrow> (p\<lparr>pp_out := (pp_out p)(c := r)\<rparr>, - 1, True)
      | PFailed # r \<Rightarrow> (p\<lparr>pp_out := (pp_out p)(c := r)\<rparr>, - 1, False)
      | PTook n # r \<Rightarrow> (pipe_log (Sent c (take n d)) (p\<lparr>pp_out := (pp_out p)(c := r)\<rparr>), int (min n (length d)), False))"

section \<open>Setting up and closing\<close>

definition fdselect_pipe_close :: "pipe_table \<Rightarrow> 'w pipe \<Rightarrow> bool \<Rightarrow> (pipe_table \<times> 'w pipe) option" where
  "fdselect_pipe_close sel p close_socks =
     do {
       (sel, _) \<leftarrow> fdselect_unset True sel (ps_sock (pp_sock p 0)) FDSELECT_ALL;
       let p = (if close_socks then pipe_log (SockClosed 0) p else p);
       (sel, _) \<leftarrow> fdselect_unset True sel (ps_sock (pp_sock p 1)) FDSELECT_ALL;
       Some (sel, if close_socks then pipe_log (SockClosed 1) p else p)
     }"

definition fdselect_pipe_closed :: "'w pipe \<Rightarrow> bool" where
  "fdselect_pipe_closed p \<longleftrightarrow>
     \<not> (ps_select_read (pp_sock p 0) \<or> ps_select_write (pp_sock p 0)) \<and>
     \<not> (ps_select_read (pp_sock p 1) \<or> ps_select_write (pp_sock p 1))"

definition sock_init :: "int \<Rightarrow> byte list \<Rightarrow> nat \<Rightarrow> pipe_sock" where
  "sock_init sock buf bufmax =
     \<lparr>ps_sock = sock, ps_err_read = False, ps_err_write = False, ps_select_read = True, ps_select_write = False,
      ps_buf = buf, ps_off = 0, ps_len = 0, ps_max = bufmax, ps_err_read_done = False\<rparr>"

definition fdselect_pipe_init ::
    "pipe_table \<Rightarrow> 'w pipe_callback option \<Rightarrow> 'w \<Rightarrow> (nat \<Rightarrow> pipe_in list) \<Rightarrow> (nat \<Rightarrow> pipe_out list) \<Rightarrow>
     int \<Rightarrow> byte list \<Rightarrow> nat \<Rightarrow> int \<Rightarrow> byte list \<Rightarrow> nat \<Rightarrow> (pipe_table \<times> 'w pipe) option" where
  "fdselect_pipe_init sel callback w ins outs sock0 buf0 max0 sock1 buf1 max1 =
     do {
       let p = \<lparr>pp_sock = (\<lambda>c. if c = 0 then sock_init sock0 buf0 max0 else sock_init sock1 buf1 max1),
                pp_callback = callback, pp_world = w, pp_in = ins, pp_out = outs, pp_log = []\<rparr>;
       (sel, _) \<leftarrow> fdselect_set True sel sock0 FDSELECT_READ (Some SockRead) 0;
       (sel, _) \<leftarrow> fdselect_set True sel sock1 FDSELECT_READ (Some SockRead) 1;
       Some (sel, p)
     }"

definition fdselect_pipe_closed_callback :: "pipe_table \<Rightarrow> 'w pipe \<Rightarrow> (pipe_table \<times> 'w pipe) option" where
  "fdselect_pipe_closed_callback sel p =
     (if fdselect_pipe_closed p
      then (if pp_callback p \<noteq> None then Some (sel, pipe_notify None FDSELECT_PIPE_CLOSED [] 0 p)
            else fdselect_pipe_close sel p True)
      else Some (sel, p))"

section \<open>Sending\<close>

text \<open>The bytes of the peer's buffer go out until the socket blocks; every turn but the last takes one at least.\<close>

fun write_loop :: "nat \<Rightarrow> pipe_table \<Rightarrow> 'w pipe \<Rightarrow> nat \<Rightarrow> (pipe_table \<times> 'w pipe) option" where
  "write_loop 0 sel p c = None"
| "write_loop (Suc k) sel p c =
     (let peer = pp_sock p (1 - c)
      in if ps_len peer = 0 then Some (sel, p)
         else do {
           d \<leftarrow> slice (ps_buf peer) (int (ps_off peer)) (int (ps_len peer));
           let (p, i, block) = pipe_send p c d;
           if i \<le> 0 \<and> block then Some (sel, p)
           else do {
             let p = pipe_notify (Some c) FDSELECT_PIPE_WRITE (take (nat i) d) i p;
             if i \<le> 0 then do {
               let p = pipe_log (ShutRecv (1 - c)) (put_sock c ((pp_sock p c)\<lparr>ps_err_write := True\<rparr>) p);
               if ps_select_read peer then do {
                 (sel, _) \<leftarrow> fdselect_unset True sel (ps_sock peer) FDSELECT_READ;
                 Some (sel, put_sock (1 - c) (peer\<lparr>ps_select_read := False\<rparr>) p)
               }
               else Some (sel, p)
             }
             else do {
               let n = ps_len peer - nat i;
               write_loop k sel (put_sock (1 - c) (peer\<lparr>ps_off := (if n = 0 then 0 else ps_off peer + nat i), ps_len := n\<rparr>) p) c
             }
           }
         })"

text \<open>Reading the peer is asked for when its buffer has room.\<close>

definition peer_wants :: "pipe_table \<Rightarrow> 'w pipe \<Rightarrow> nat \<Rightarrow> (pipe_table \<times> 'w pipe) option" where
  "peer_wants sel p c =
     (let peer = pp_sock p (1 - c)
      in if ps_off peer + ps_len peer < ps_max peer \<and> \<not> ps_err_read peer \<and> \<not> ps_select_read peer
         then do {
           (sel, _) \<leftarrow> fdselect_set True sel (ps_sock peer) FDSELECT_READ (Some SockRead) (1 - c);
           Some (sel, put_sock (1 - c) (peer\<lparr>ps_select_read := True\<rparr>) p)
         }
         else Some (sel, p))"

text \<open>Writing is asked for while the peer's buffer holds something; the end of the peer is passed on when it is empty.\<close>

definition sock_wants :: "pipe_table \<Rightarrow> 'w pipe \<Rightarrow> nat \<Rightarrow> (pipe_table \<times> 'w pipe) option" where
  "sock_wants sel p c =
     (let x = pp_sock p c; peer = pp_sock p (1 - c)
      in if ps_len peer > 0 \<and> \<not> ps_err_write x
         then (if ps_select_write x then Some (sel, p)
               else do {
                 (sel, _) \<leftarrow> fdselect_set True sel (ps_sock x) FDSELECT_WRITE (Some SockWrite) c;
                 Some (sel, put_sock c (x\<lparr>ps_select_write := True\<rparr>) p)
               })
         else do {
           let p = (if ps_err_read peer \<and> \<not> ps_err_read_done peer
                    then pipe_log (ShutSend c) (put_sock (1 - c) (peer\<lparr>ps_err_read_done := True\<rparr>) p) else p);
           if ps_select_write x then do {
             (sel, _) \<leftarrow> fdselect_unset True sel (ps_sock x) FDSELECT_WRITE;
             Some (sel, put_sock c (x\<lparr>ps_select_write := False\<rparr>) p)
           }
           else Some (sel, p)
         })"

definition fdselect_pipe_sock_write :: "pipe_table \<Rightarrow> 'w pipe \<Rightarrow> nat \<Rightarrow> (pipe_table \<times> 'w pipe) option" where
  "fdselect_pipe_sock_write sel p c =
     do {
       (sel, p) \<leftarrow> write_loop (ps_len (pp_sock p (1 - c)) + 1) sel p c;
       (sel, p) \<leftarrow> peer_wants sel p c;
       (sel, p) \<leftarrow> sock_wants sel p c;
       fdselect_pipe_closed_callback sel p
     }"

section \<open>Receiving\<close>

definition pipe_in_size :: "pipe_in list \<Rightarrow> nat" where
  "pipe_in_size xs = (\<Sum>x\<leftarrow>xs. case x of PData d \<Rightarrow> length d + 1 | _ \<Rightarrow> 1)"

text \<open>What arrives is appended to the buffer until the socket blocks or the buffer is full.\<close>

fun read_loop :: "nat \<Rightarrow> pipe_table \<Rightarrow> 'w pipe \<Rightarrow> nat \<Rightarrow> (pipe_table \<times> 'w pipe) option" where
  "read_loop 0 sel p c = None"
| "read_loop (Suc k) sel p c =
     (let x = pp_sock p c; off = ps_off x + ps_len x
      in if ps_max x \<le> off then Some (sel, p)
         else (let (p, d, block) = pipe_recv p c (ps_max x - off)
           in if d = None \<and> block then Some (sel, p)
              else if d = None \<or> d = Some [] then do {
                let p = pipe_log (ShutRecv c) (put_sock c (x\<lparr>ps_err_read := True\<rparr>) p);
                (sel, _) \<leftarrow> fdselect_unset True sel (ps_sock x) FDSELECT_READ;
                Some (sel, p)
              }
              else do {
                d \<leftarrow> d;
                buf \<leftarrow> blit (ps_buf x) (int off) d;
                let p = put_sock c (x\<lparr>ps_buf := buf, ps_len := ps_len x + length d\<rparr>) p;
                read_loop k sel (pipe_notify (Some c) FDSELECT_PIPE_READ d (int (length d)) p) c
              }))"

definition own_wants :: "pipe_table \<Rightarrow> 'w pipe \<Rightarrow> nat \<Rightarrow> (pipe_table \<times> 'w pipe) option" where
  "own_wants sel p c =
     (let x = pp_sock p c
      in if ps_off x + ps_len x < ps_max x \<and> \<not> ps_err_read x
         then (if ps_select_read x then Some (sel, p)
               else do {
                 (sel, _) \<leftarrow> fdselect_set True sel (ps_sock x) FDSELECT_READ (Some SockRead) c;
                 Some (sel, put_sock c (x\<lparr>ps_select_read := True\<rparr>) p)
               })
         else (if ps_select_read x
               then do {
                 (sel, _) \<leftarrow> fdselect_unset True sel (ps_sock x) FDSELECT_READ;
                 Some (sel, put_sock c (x\<lparr>ps_select_read := False\<rparr>) p)
               }
               else Some (sel, p)))"

definition fdselect_pipe_sock_read :: "pipe_table \<Rightarrow> 'w pipe \<Rightarrow> nat \<Rightarrow> (pipe_table \<times> 'w pipe) option" where
  "fdselect_pipe_sock_read sel p c =
     do {
       (sel, p) \<leftarrow> read_loop (pipe_in_size (pp_in p c) + 1) sel p c;
       (sel, p) \<leftarrow> fdselect_pipe_sock_write sel p (1 - c);
       (sel, p) \<leftarrow> own_wants sel p c;
       fdselect_pipe_closed_callback sel p
     }"

text \<open>The callbacks, for the loop of \<open>Select\<close>; the argument is the side.\<close>

definition pipe_call :: "(pipe_fn, 'w pipe) handler_call" where
  "pipe_call h arg fd st sel p =
     (case h of SockRead \<Rightarrow> fdselect_pipe_sock_read sel p arg | SockWrite \<Rightarrow> fdselect_pipe_sock_write sel p arg)"

end
