(* ===== verification/PipeProps.thy ===== *)
theory PipeProps
  imports SelectView Pipe
begin

unbundle bit_operations_syntax

text \<open>
  The two buffers of a pipe as channels: what was received on one side is what was sent on the other, followed by what the
  buffer holds. And the table of descriptors: after each callback it asks for exactly the events the buffers have use for.
\<close>

text \<open>The peer of a side is written \<open>1 - c\<close>.\<close>

declare One_nat_def [simp del]

section \<open>The table\<close>

definition wanted :: "bool \<Rightarrow> bool \<Rightarrow> nat \<Rightarrow> pipe_fn interest option" where
  "wanted r w c =
     (if r \<or> w then Some ((if r then 1 else 0) + (if w then 2 else 0), if r then (Some SockRead, c) else (None, 0),
        if w then (Some SockWrite, c) else (None, 0))
      else None)"

lemma spec_set_wanted:
  assumes "m s = wanted r w c"
  shows "spec_set m s 1 (Some SockRead) c = m(s := wanted True w c)" "spec_set m s 2 (Some SockWrite) c = m(s := wanted r True c)"
    "spec_set m s 1 None 0 = m(s := wanted False w c)" "spec_set m s 2 None 0 = m(s := wanted r False c)"
    "spec_set m s (- 1) None 0 = m(s := wanted False False c)"
  by (auto simp: spec_set_def assms wanted_def Let_def)

lemma want_read:
  assumes "sel_ok sel" "view_of sel s = wanted r w c"
  shows "\<exists>sel'. fdselect_set True sel s FDSELECT_READ (Some SockRead) c = Some (sel', 0) \<and> sel_ok sel' \<and>
      view_of sel' = (view_of sel)(s := wanted True w c)"
    "\<exists>sel'. fdselect_unset True sel s FDSELECT_READ = Some (sel', 0) \<and> sel_ok sel' \<and> view_of sel' = (view_of sel)(s := wanted False w c)"
    "\<exists>sel'. fdselect_set True sel s FDSELECT_WRITE (Some SockWrite) c = Some (sel', 0) \<and> sel_ok sel' \<and>
      view_of sel' = (view_of sel)(s := wanted r True c)"
    "\<exists>sel'. fdselect_unset True sel s FDSELECT_WRITE = Some (sel', 0) \<and> sel_ok sel' \<and> view_of sel' = (view_of sel)(s := wanted r False c)"
    "\<exists>sel'. fdselect_unset True sel s FDSELECT_ALL = Some (sel', 0) \<and> sel_ok sel' \<and> view_of sel' = (view_of sel)(s := wanted False False c)"
  using fdselect_set_view [OF assms(1), of FDSELECT_READ s "Some SockRead" c] fdselect_unset_view [OF assms(1), of FDSELECT_READ s]
    fdselect_set_view [OF assms(1), of FDSELECT_WRITE s "Some SockWrite" c] fdselect_unset_view [OF assms(1), of FDSELECT_WRITE s]
    fdselect_unset_view [OF assms(1), of FDSELECT_ALL s] spec_set_wanted [of "view_of sel" s r w c, OF assms(2)]
  by (auto simp: fdselect_events)

section \<open>The invariant\<close>

definition got :: "nat \<Rightarrow> pipe_act list \<Rightarrow> byte list" where
  "got c L = concat (map (\<lambda>a. case a of Got s d \<Rightarrow> if s = c then d else [] | _ \<Rightarrow> []) L)"

definition sent :: "nat \<Rightarrow> pipe_act list \<Rightarrow> byte list" where
  "sent c L = concat (map (\<lambda>a. case a of Sent s d \<Rightarrow> if s = c then d else [] | _ \<Rightarrow> []) L)"

lemma got_sent [simp]:
  "got c [] = []" "sent c [] = []"
  "got c (a # L) = (case a of Got s d \<Rightarrow> if s = c then d else [] | _ \<Rightarrow> []) @ got c L"
  "sent c (a # L) = (case a of Sent s d \<Rightarrow> if s = c then d else [] | _ \<Rightarrow> []) @ sent c L"
  "got c (L @ M) = got c L @ got c M" "sent c (L @ M) = sent c L @ sent c M"
  by (simp_all add: got_def sent_def)

definition pending :: "pipe_sock \<Rightarrow> byte list" where
  "pending x = take (ps_len x) (drop (ps_off x) (ps_buf x))"

definition room :: "pipe_sock \<Rightarrow> bool" where
  "room x \<longleftrightarrow> ps_off x + ps_len x < ps_max x"

definition sock_ok :: "pipe_sock \<Rightarrow> bool" where
  "sock_ok x \<longleftrightarrow> length (ps_buf x) = ps_max x \<and> ps_off x + ps_len x \<le> ps_max x"

definition sock_view :: "pipe_sock \<Rightarrow> nat \<Rightarrow> pipe_fn interest option" where
  "sock_view x c = wanted (ps_select_read x \<and> \<not> ps_err_read x) (ps_select_write x) c"

text \<open>\<open>s\<close> are the descriptors of the two sides, \<open>V\<close> is what the table has for all others.\<close>

definition side_inv ::
    "(nat \<Rightarrow> int) \<Rightarrow> pipe_table \<Rightarrow> (nat \<Rightarrow> pipe_sock) \<Rightarrow> pipe_act list \<Rightarrow> nat \<Rightarrow> bool" where
  "side_inv s sel S L c \<longleftrightarrow> ps_sock (S c) = s c \<and> sock_ok (S c) \<and> view_of sel (s c) = sock_view (S c) c \<and>
     got c L = sent (1 - c) L @ pending (S c)"

definition pipe_inv ::
    "(nat \<Rightarrow> int) \<Rightarrow> (int \<Rightarrow> pipe_fn interest option) \<Rightarrow> pipe_table \<Rightarrow> (nat \<Rightarrow> pipe_sock) \<Rightarrow> pipe_act list \<Rightarrow> bool" where
  "pipe_inv s V sel S L \<longleftrightarrow> sel_ok sel \<and> s 0 \<noteq> s 1 \<and> (\<forall>fd. fd \<noteq> s 0 \<and> fd \<noteq> s 1 \<longrightarrow> view_of sel fd = V fd) \<and>
     side_inv s sel S L 0 \<and> side_inv s sel S L 1"

text \<open>A step that changes one side.\<close>

lemma inv_side:
  assumes "pipe_inv s V sel S L" "c \<le> 1"
  shows "side_inv s sel S L c" "side_inv s sel S L (1 - c)" "sel_ok sel" "s (1 - c) \<noteq> s c"
proof -
  have "c = 0 \<or> c = 1" using assms(2) by auto
  then show "side_inv s sel S L c" "side_inv s sel S L (1 - c)" "sel_ok sel" "s (1 - c) \<noteq> s c"
    using assms(1) by (auto simp: pipe_inv_def)
qed

lemma inv_step:
  assumes inv: "pipe_inv s V sel S L" "c \<le> 1" and sel: "sel_ok sel'" "view_of sel' = (view_of sel)(s c := sock_view x c)"
    and x: "ps_sock x = s c" "sock_ok x" "got c L' = sent (1 - c) L' @ pending x"
    and L: "got (1 - c) L' = got (1 - c) L" "sent c L' = sent c L"
  shows "pipe_inv s V sel' (S(c := x)) L'"
proof -
  have "c = 0 \<or> c = 1" using inv(2) by auto
  then show ?thesis using inv(1) sel x L by (elim disjE) (auto simp: pipe_inv_def side_inv_def)
qed

text \<open>A step that leaves the table.\<close>

lemma inv_local:
  assumes inv: "pipe_inv s V sel S L" "c \<le> 1" and x: "ps_sock x = s c" "sock_ok x" "sock_view x c = sock_view (S c) c"
      "got c L' = sent (1 - c) L' @ pending x"
    and L: "got (1 - c) L' = got (1 - c) L" "sent c L' = sent c L"
  shows "pipe_inv s V sel (S(c := x)) L'"
proof (rule inv_step [OF inv])
  show "view_of sel = (view_of sel)(s c := sock_view x c)"
    using inv_side(1) [OF inv] x(3) by (auto simp: side_inv_def)
qed (use inv_side(3) [OF inv] x L in auto)

lemma inv_log: "pipe_inv s V sel S L \<Longrightarrow> got 0 L' = got 0 L \<Longrightarrow> got 1 L' = got 1 L \<Longrightarrow> sent 0 L' = sent 0 L \<Longrightarrow> sent 1 L' = sent 1 L \<Longrightarrow>
    pipe_inv s V sel S L'"
  by (simp add: pipe_inv_def side_inv_def)

lemma notify_keeps [simp]:
  "pp_sock (pipe_notify e f d n p) = pp_sock p" "pp_log (pipe_notify e f d n p) = pp_log p" "pp_in (pipe_notify e f d n p) = pp_in p"
  "pp_out (pipe_notify e f d n p) = pp_out p" "pp_callback (pipe_notify e f d n p) = pp_callback p"
  by (simp_all add: pipe_notify_def split: option.splits)

lemma put_log_fields [simp]:
  "pp_sock (put_sock c x p) = (pp_sock p)(c := x)" "pp_log (put_sock c x p) = pp_log p" "pp_in (put_sock c x p) = pp_in p"
  "pp_out (put_sock c x p) = pp_out p" "pp_callback (put_sock c x p) = pp_callback p"
  "pp_sock (pipe_log a p) = pp_sock p" "pp_log (pipe_log a p) = pp_log p @ [a]" "pp_in (pipe_log a p) = pp_in p"
  "pp_out (pipe_log a p) = pp_out p" "pp_callback (pipe_log a p) = pp_callback p"
  by (simp_all add: put_sock_def pipe_log_def)

section \<open>The loops\<close>

lemma pipe_send_cases:
  obtains (blocked) p' where "pipe_send p c d = (p', - 1, True)" "pp_sock p' = pp_sock p" "pp_log p' = pp_log p" "pp_in p' = pp_in p"
      "pp_callback p' = pp_callback p"
  | (failed) p' where "pipe_send p c d = (p', - 1, False)" "pp_sock p' = pp_sock p" "pp_log p' = pp_log p" "pp_in p' = pp_in p"
      "pp_callback p' = pp_callback p"
  | (took) p' n where "pipe_send p c d = (p', int n, False)" "n \<le> length d" "pp_sock p' = pp_sock p"
      "pp_log p' = pp_log p @ [Sent c (take n d)]" "pp_in p' = pp_in p" "pp_callback p' = pp_callback p"
proof (cases "pp_out p c")
  case Nil
  then show ?thesis by (intro blocked [of p]) (simp_all add: pipe_send_def)
next
  case (Cons a r)
  let ?p = "p\<lparr>pp_out := (pp_out p)(c := r)\<rparr>"
  show ?thesis
  proof (cases a)
    case (PTook n)
    then show ?thesis using Cons by (intro took [of "pipe_log (Sent c (take n d)) ?p" "min n (length d)"]) (auto simp: pipe_send_def min_def)
  next
    case PFull
    then show ?thesis using Cons by (intro blocked [of ?p]) (simp_all add: pipe_send_def)
  next
    case PFailed
    then show ?thesis using Cons by (intro failed [of ?p]) (simp_all add: pipe_send_def)
  qed
qed

lemma pending_slice: "sock_ok x \<Longrightarrow> slice (ps_buf x) (int (ps_off x)) (int (ps_len x)) = Some (pending x)"
  by (simp add: slice_def sock_ok_def pending_def)

lemma pending_length: "sock_ok x \<Longrightarrow> length (pending x) = ps_len x"
  by (auto simp: pending_def sock_ok_def min_def)

text \<open>A failed \<open>send\<close>: reading the peer is given up.\<close>

lemma write_error:
  assumes inv: "pipe_inv s V sel (pp_sock p) (pp_log p)" and c: "c \<le> 1"
    and p': "pp_sock p' = (pp_sock p)(c := (pp_sock p c)\<lparr>ps_err_write := True\<rparr>)"
      "got 0 (pp_log p') = got 0 (pp_log p)" "got 1 (pp_log p') = got 1 (pp_log p)"
      "sent 0 (pp_log p') = sent 0 (pp_log p)" "sent 1 (pp_log p') = sent 1 (pp_log p)"
  shows "\<exists>sel'' p''. (if ps_select_read (pp_sock p (1 - c)) then do {
        (sel, _) \<leftarrow> fdselect_unset True sel (ps_sock (pp_sock p (1 - c))) FDSELECT_READ;
        Some (sel, put_sock (1 - c) ((pp_sock p (1 - c))\<lparr>ps_select_read := False\<rparr>) p')
      } else Some (sel, p')) = Some (sel'', p'') \<and> pipe_inv s V sel'' (pp_sock p'') (pp_log p'') \<and>
    pp_sock p'' c = (pp_sock p c)\<lparr>ps_err_write := True\<rparr> \<and> pp_sock p'' (1 - c) = (pp_sock p (1 - c))\<lparr>ps_select_read := False\<rparr> \<and>
    pp_in p'' = pp_in p' \<and> pp_callback p'' = pp_callback p'"
proof -
  let ?x = "pp_sock p c" and ?y = "pp_sock p (1 - c)"
  have d: "1 - c \<noteq> c" "1 - c \<le> 1" "1 - (1 - c) = c" using c by arith+
  note i = inv_side [OF inv c]
  have "pipe_inv s V sel ((pp_sock p)(c := ?x\<lparr>ps_err_write := True\<rparr>)) (pp_log p)"
    using i(1) by (intro inv_local [OF inv c]) (auto simp: side_inv_def sock_ok_def sock_view_def pending_def)
  then have 1: "pipe_inv s V sel (pp_sock p') (pp_log p')" unfolding p'(1) by (rule inv_log) (use p' in simp_all)
  show ?thesis
  proof (cases "ps_select_read ?y")
    case False
    then have "?y\<lparr>ps_select_read := False\<rparr> = ?y" by simp
    then show ?thesis using 1 False d p'(1) by simp
  next
    case True
    have y: "pp_sock p' (1 - c) = ?y" using d by (simp add: p'(1))
    have v: "view_of sel (ps_sock ?y) = wanted (\<not> ps_err_read ?y) (ps_select_write ?y) (1 - c)" "ps_sock ?y = s (1 - c)"
      using i(2) True by (auto simp: side_inv_def sock_view_def)
    obtain sel' where s: "fdselect_unset True sel (ps_sock ?y) FDSELECT_READ = Some (sel', 0)" "sel_ok sel'"
        "view_of sel' = (view_of sel)(s (1 - c) := wanted False (ps_select_write ?y) (1 - c))"
      using want_read(2) [OF i(3) v(1)] v(2) by auto
    have "pipe_inv s V sel' ((pp_sock p')(1 - c := ?y\<lparr>ps_select_read := False\<rparr>)) (pp_log p')"
      using inv_side(2) [OF 1 c] s
      by (intro inv_step [OF 1 d(2)]) (auto simp: side_inv_def sock_ok_def sock_view_def pending_def y d)
    then show ?thesis using s(1) True d p'(1)
      by (intro exI [of _ sel'] exI [of _ "put_sock (1 - c) (?y\<lparr>ps_select_read := False\<rparr>) p'"]) simp
  qed
qed

lemma write_loop_ok:
  assumes "pipe_inv s V sel (pp_sock p) (pp_log p)" "c \<le> 1" "ps_len (pp_sock p (1 - c)) < k"
  shows "\<exists>sel' p' ew off len sr. write_loop k sel p c = Some (sel', p') \<and> pipe_inv s V sel' (pp_sock p') (pp_log p') \<and>
    pp_sock p' c = (pp_sock p c)\<lparr>ps_err_write := ew\<rparr> \<and>
    pp_sock p' (1 - c) = (pp_sock p (1 - c))\<lparr>ps_off := off, ps_len := len, ps_select_read := sr\<rparr> \<and>
    off + len \<le> ps_off (pp_sock p (1 - c)) + ps_len (pp_sock p (1 - c)) \<and> (sr \<longrightarrow> ps_select_read (pp_sock p (1 - c))) \<and>
    pp_in p' = pp_in p \<and> pp_callback p' = pp_callback p"
  using assms
proof (induction k arbitrary: sel p)
  case (Suc k)
  let ?x = "pp_sock p c" and ?y = "pp_sock p (1 - c)"
  note inv = Suc.prems(1) and c = Suc.prems(2)
  have d: "1 - c \<noteq> c" "1 - c \<le> 1" "1 - (1 - c) = c" using c by arith+
  note i = inv_side [OF inv c]
  have stay: "?x\<lparr>ps_err_write := ps_err_write ?x\<rparr> = ?x"
    "?y\<lparr>ps_off := ps_off ?y, ps_len := ps_len ?y, ps_select_read := ps_select_read ?y\<rparr> = ?y" by simp_all
  show ?case
  proof (cases "ps_len ?y = 0")
    case True
    then show ?thesis using inv stay
      by (intro exI [of _ sel] exI [of _ p] exI [of _ "ps_err_write ?x"] exI [of _ "ps_off ?y"] exI [of _ "ps_len ?y"] exI [of _ "ps_select_read ?y"]) simp
  next
    case False
    have sl: "slice (ps_buf ?y) (int (ps_off ?y)) (int (ps_len ?y)) = Some (pending ?y)" "sock_ok ?y"
      using i(2) by (simp_all add: side_inv_def pending_slice)
    show ?thesis
    proof (cases rule: pipe_send_cases [of p c "pending ?y"])
      case (blocked p')
      then show ?thesis using inv False sl(1)
        by (intro exI [of _ sel] exI [of _ p'] exI [of _ "ps_err_write ?x"] exI [of _ "ps_off ?y"] exI [of _ "ps_len ?y"] exI [of _ "ps_select_read ?y"])
          simp
    next
      case (failed p')
      let ?p = "pipe_log (ShutRecv (1 - c)) (put_sock c (?x\<lparr>ps_err_write := True\<rparr>) (pipe_notify (Some c) FDSELECT_PIPE_WRITE [] (- 1) p'))"
      have "pp_sock ?p = (pp_sock p)(c := ?x\<lparr>ps_err_write := True\<rparr>)" using failed by simp
      then obtain sel'' p'' where e: "(if ps_select_read ?y then do {
            (sel, _) \<leftarrow> fdselect_unset True sel (ps_sock ?y) FDSELECT_READ;
            Some (sel, put_sock (1 - c) (?y\<lparr>ps_select_read := False\<rparr>) ?p)
          } else Some (sel, ?p)) = Some (sel'', p'')" "pipe_inv s V sel'' (pp_sock p'') (pp_log p'')"
          "pp_sock p'' c = ?x\<lparr>ps_err_write := True\<rparr>" "pp_sock p'' (1 - c) = ?y\<lparr>ps_select_read := False\<rparr>"
          "pp_in p'' = pp_in ?p" "pp_callback p'' = pp_callback ?p"
        using write_error [OF inv c, of ?p] failed by auto
      have "write_loop (Suc k) sel p c = Some (sel'', p'')" using False sl(1) failed e(1) d by simp
      then show ?thesis using e(2-6) failed
        by (intro exI [of _ sel''] exI [of _ p''] exI [of _ True] exI [of _ "ps_off ?y"] exI [of _ "ps_len ?y"] exI [of _ False]) simp
    next
      case (took p' n)
      then have n: "n \<le> ps_len ?y" using sl(2) by (simp add: pending_length)
      show ?thesis
      proof (cases "n = 0")
        case True
        let ?p = "pipe_log (ShutRecv (1 - c)) (put_sock c (?x\<lparr>ps_err_write := True\<rparr>) (pipe_notify (Some c) FDSELECT_PIPE_WRITE [] 0 p'))"
        have "pp_sock ?p = (pp_sock p)(c := ?x\<lparr>ps_err_write := True\<rparr>)" using took by simp
        then obtain sel'' p'' where e: "(if ps_select_read ?y then do {
              (sel, _) \<leftarrow> fdselect_unset True sel (ps_sock ?y) FDSELECT_READ;
              Some (sel, put_sock (1 - c) (?y\<lparr>ps_select_read := False\<rparr>) ?p)
            } else Some (sel, ?p)) = Some (sel'', p'')" "pipe_inv s V sel'' (pp_sock p'') (pp_log p'')"
            "pp_sock p'' c = ?x\<lparr>ps_err_write := True\<rparr>" "pp_sock p'' (1 - c) = ?y\<lparr>ps_select_read := False\<rparr>"
            "pp_in p'' = pp_in ?p" "pp_callback p'' = pp_callback ?p"
          using write_error [OF inv c, of ?p] took True by auto
        have "write_loop (Suc k) sel p c = Some (sel'', p'')" using False sl(1) took True e(1) d by simp
        then show ?thesis using e(2-6) took
          by (intro exI [of _ sel''] exI [of _ p''] exI [of _ True] exI [of _ "ps_off ?y"] exI [of _ "ps_len ?y"] exI [of _ False]) simp
      next
        case n0: False
        let ?m = "ps_len ?y - n"
        let ?z = "?y\<lparr>ps_off := (if ?m = 0 then 0 else ps_off ?y + n), ps_len := ?m\<rparr>"
        let ?p = "put_sock (1 - c) ?z (pipe_notify (Some c) FDSELECT_PIPE_WRITE (take n (pending ?y)) (int n) p')"
        have "pending ?z = drop n (pending ?y)"
          using n pending_length [OF sl(2)] by (cases "?m = 0") (simp_all add: pending_def drop_take add.commute)
        then have pz: "take n (pending ?y) @ pending ?z = pending ?y" by (simp only: append_take_drop_id)
        have 1: "pipe_inv s V sel ((pp_sock p)(1 - c := ?z)) (pp_log p @ [Sent c (take n (pending ?y))])"
        proof (rule inv_local [OF inv d(2)])
          show "ps_sock ?z = s (1 - c)" "sock_ok ?z" "sock_view ?z (1 - c) = sock_view ?y (1 - c)"
            using i(2) n by (auto simp: side_inv_def sock_ok_def sock_view_def)
          show "got (1 - c) (pp_log p @ [Sent c (take n (pending ?y))]) =
              sent (1 - (1 - c)) (pp_log p @ [Sent c (take n (pending ?y))]) @ pending ?z"
            using i(2) pz by (simp add: side_inv_def d)
        qed (use d in simp_all)
        have 2: "pp_sock ?p = (pp_sock p)(1 - c := ?z)" "pp_log ?p = pp_log p @ [Sent c (take n (pending ?y))]" using took by simp_all
        have "ps_len (pp_sock ?p (1 - c)) < k" using 2(1) n0 Suc.prems(3) False by simp
        from Suc.IH [of sel ?p, unfolded 2, OF 1 c] this obtain sel' p'' ew off len sr where
          3: "write_loop k sel ?p c = Some (sel', p'')" "pipe_inv s V sel' (pp_sock p'') (pp_log p'')"
            "pp_sock p'' c = ?x\<lparr>ps_err_write := ew\<rparr>"
            "pp_sock p'' (1 - c) = ?z\<lparr>ps_off := off, ps_len := len, ps_select_read := sr\<rparr>"
            "off + len \<le> ps_off ?z + ps_len ?z" "sr \<longrightarrow> ps_select_read ?z" "pp_in p'' = pp_in ?p" "pp_callback p'' = pp_callback ?p"
          using d(1) by (auto simp: 2(1))
        have "write_loop (Suc k) sel p c = Some (sel', p'')" using False sl(1) took n0 3(1) by (cases "ps_len ?y \<le> n") (simp_all add: Let_def)
        moreover have "pp_sock p'' (1 - c) = ?y\<lparr>ps_off := off, ps_len := len, ps_select_read := sr\<rparr>" unfolding 3(4) by simp
        moreover have "off + len \<le> ps_off ?y + ps_len ?y" using 3(5) n by (cases "?m = 0") simp_all
        moreover have "sr \<longrightarrow> ps_select_read ?y" using 3(6) by simp
        moreover have "pp_in p'' = pp_in p" "pp_callback p'' = pp_callback p" using 3(7,8) took by simp_all
        ultimately show ?thesis using 3(2,3) by blast
      qed
    qed
  qed
qed simp

lemma pipe_recv_cases:
  obtains (blocked) p' where "pipe_recv p c m = (p', None, True)" "pp_sock p' = pp_sock p" "pp_log p' = pp_log p" "pp_callback p' = pp_callback p"
  | (ended) p' d L where "pipe_recv p c m = (p', d, False)" "d = None \<or> d = Some []" "pp_sock p' = pp_sock p" "pp_log p' = pp_log p @ L"
      "L = [] \<or> L = [Got c []]" "pp_callback p' = pp_callback p"
  | (came) p' d where "pipe_recv p c m = (p', Some d, False)" "d \<noteq> []" "length d \<le> m" "pp_sock p' = pp_sock p"
      "pp_log p' = pp_log p @ [Got c d]" "pipe_in_size (pp_in p' c) < pipe_in_size (pp_in p c)" "pp_callback p' = pp_callback p"
proof (cases "pp_in p c")
  case Nil
  then show ?thesis by (intro blocked [of p]) (simp_all add: pipe_recv_def)
next
  case (Cons a r)
  show ?thesis
  proof (cases a)
    case (PData d)
    let ?p = "pipe_log (Got c (take m d)) (p\<lparr>pp_in := (pp_in p)(c := (if length d \<le> m then r else PData (drop m d) # r))\<rparr>)"
    show ?thesis
    proof (cases "take m d = []")
      case True
      then show ?thesis using Cons PData by (intro ended [of ?p "Some []" "[Got c []]"]) (simp_all add: pipe_recv_def)
    next
      case False
      then show ?thesis using Cons PData
        by (intro came [of ?p "take m d"]) (auto simp: pipe_recv_def pipe_in_size_def)
    qed
  next
    case PWait
    then show ?thesis using Cons by (intro blocked [of "p\<lparr>pp_in := (pp_in p)(c := r)\<rparr>"]) (simp_all add: pipe_recv_def)
  next
    case PBroken
    then show ?thesis using Cons by (intro ended [of "p\<lparr>pp_in := (pp_in p)(c := r)\<rparr>" None "[]"]) (simp_all add: pipe_recv_def)
  qed
qed

lemma read_loop_ok:
  assumes "pipe_inv s V sel (pp_sock p) (pp_log p)" "c \<le> 1" "pipe_in_size (pp_in p c) < k"
  shows "\<exists>sel' p' er buf len. read_loop k sel p c = Some (sel', p') \<and> pipe_inv s V sel' (pp_sock p') (pp_log p') \<and>
    pp_sock p' c = (pp_sock p c)\<lparr>ps_err_read := er, ps_buf := buf, ps_len := len\<rparr> \<and> pp_sock p' (1 - c) = pp_sock p (1 - c) \<and>
    pp_callback p' = pp_callback p"
  using assms
proof (induction k arbitrary: sel p)
  case (Suc k)
  let ?x = "pp_sock p c"
  let ?off = "ps_off ?x + ps_len ?x"
  note inv = Suc.prems(1) and c = Suc.prems(2)
  have d: "1 - c \<noteq> c" "c \<noteq> 1 - c" using c by arith+
  note i = inv_side [OF inv c]
  have stay: "?x\<lparr>ps_err_read := ps_err_read ?x, ps_buf := ps_buf ?x, ps_len := ps_len ?x\<rparr> = ?x" by simp
  show ?case
  proof (cases "ps_max ?x \<le> ?off")
    case True
    then show ?thesis using inv stay
      by (intro exI [of _ sel] exI [of _ p] exI [of _ "ps_err_read ?x"] exI [of _ "ps_buf ?x"] exI [of _ "ps_len ?x"]) simp
  next
    case False
    show ?thesis
    proof (cases rule: pipe_recv_cases [of p c "ps_max ?x - ?off"])
      case (blocked p')
      then show ?thesis using inv False
        by (intro exI [of _ sel] exI [of _ p'] exI [of _ "ps_err_read ?x"] exI [of _ "ps_buf ?x"] exI [of _ "ps_len ?x"]) simp
    next
      case (ended p' e L)
      let ?p = "pipe_log (ShutRecv c) (put_sock c (?x\<lparr>ps_err_read := True\<rparr>) p')"
      have v: "view_of sel (ps_sock ?x) = wanted (ps_select_read ?x \<and> \<not> ps_err_read ?x) (ps_select_write ?x) c" "ps_sock ?x = s c"
        using i(1) by (simp_all add: side_inv_def sock_view_def)
      obtain sel' where s: "fdselect_unset True sel (ps_sock ?x) FDSELECT_READ = Some (sel', 0)" "sel_ok sel'"
          "view_of sel' = (view_of sel)(s c := wanted False (ps_select_write ?x) c)"
        using want_read(2) [OF i(3) v(1)] v(2) by auto
      have L: "got e' L = []" "sent e' L = []" for e' using ended(5) by auto
      have "pipe_inv s V sel' ((pp_sock p)(c := ?x\<lparr>ps_err_read := True\<rparr>)) (pp_log p @ L @ [ShutRecv c])"
        using i(1) s L by (intro inv_step [OF inv c]) (auto simp: side_inv_def sock_ok_def sock_view_def pending_def)
      then have "pipe_inv s V sel' (pp_sock ?p) (pp_log ?p)" using ended by simp
      moreover have "read_loop (Suc k) sel p c = Some (sel', ?p)" using False ended(1,2) s(1) by auto
      moreover have "pp_sock ?p c = ?x\<lparr>ps_err_read := True, ps_buf := ps_buf ?x, ps_len := ps_len ?x\<rparr>" by simp
      moreover have "pp_sock ?p (1 - c) = pp_sock p (1 - c)" "pp_callback ?p = pp_callback p" using d ended by simp_all
      ultimately show ?thesis by blast
    next
      case (came p' e)
      let ?buf = "take ?off (ps_buf ?x) @ e @ drop (?off + length e) (ps_buf ?x)"
      let ?z = "?x\<lparr>ps_buf := ?buf, ps_len := ps_len ?x + length e\<rparr>"
      let ?p = "pipe_notify (Some c) FDSELECT_PIPE_READ e (int (length e)) (put_sock c ?z p')"
      have ok: "sock_ok ?x" using i(1) by (simp add: side_inv_def)
      then have b: "blit (ps_buf ?x) (int ?off) e = Some ?buf" using came(3) False
        by (simp add: blit_def sock_ok_def nat_add_distrib)
      have pz: "pending ?z = pending ?x @ e"
        using ok came(3) False by (simp add: pending_def sock_ok_def take_add [symmetric] take_drop add.commute)
      have 1: "pipe_inv s V sel ((pp_sock p)(c := ?z)) (pp_log p @ [Got c e])"
        using i(1) came(3) False ok by (intro inv_local [OF inv c]) (auto simp: side_inv_def sock_ok_def sock_view_def pz d)
      have 2: "pp_sock ?p = (pp_sock p)(c := ?z)" "pp_log ?p = pp_log p @ [Got c e]" "pipe_in_size (pp_in ?p c) < k"
        using came Suc.prems(3) by simp_all
      from Suc.IH [of sel ?p, OF _ c 2(3)] 1 obtain sel' p'' er buf len where
        3: "read_loop k sel ?p c = Some (sel', p'')" "pipe_inv s V sel' (pp_sock p'') (pp_log p'')"
          "pp_sock p'' c = (pp_sock ?p c)\<lparr>ps_err_read := er, ps_buf := buf, ps_len := len\<rparr>"
          "pp_sock p'' (1 - c) = pp_sock ?p (1 - c)" "pp_callback p'' = pp_callback ?p"
        unfolding 2(1,2) by blast
      have "read_loop (Suc k) sel p c = Some (sel', p'')" using False came(1,2) b 3(1) by (simp add: Let_def)
      moreover have "pp_sock p'' c = ?x\<lparr>ps_err_read := er, ps_buf := buf, ps_len := len\<rparr>" unfolding 3(3) 2(1) by simp
      moreover have "pp_sock p'' (1 - c) = pp_sock p (1 - c)" "pp_callback p'' = pp_callback p" unfolding 3(4,5) 2(1) using d came by simp_all
      ultimately show ?thesis using 3(2) by blast
    qed
  qed
qed simp

section \<open>The callbacks\<close>

lemma peer_wants_ok:
  assumes inv: "pipe_inv s V sel (pp_sock p) (pp_log p)" and c: "c \<le> 1"
  shows "\<exists>sel' p'. peer_wants sel p c = Some (sel', p') \<and> pipe_inv s V sel' (pp_sock p') (pp_log p') \<and>
    pp_sock p' c = pp_sock p c \<and>
    pp_sock p' (1 - c) = (pp_sock p (1 - c))\<lparr>ps_select_read :=
       ps_select_read (pp_sock p (1 - c)) \<or> room (pp_sock p (1 - c)) \<and> \<not> ps_err_read (pp_sock p (1 - c))\<rparr> \<and>
    pp_callback p' = pp_callback p"
proof -
  let ?y = "pp_sock p (1 - c)"
  have d: "1 - c \<noteq> c" "1 - c \<le> 1" "1 - (1 - c) = c" using c by arith+
  note i = inv_side [OF inv c]
  show ?thesis
  proof (cases "room ?y \<and> \<not> ps_err_read ?y \<and> \<not> ps_select_read ?y")
    case False
    then have "peer_wants sel p c = Some (sel, p)" by (auto simp: peer_wants_def room_def Let_def)
    moreover have "?y\<lparr>ps_select_read := ps_select_read ?y \<or> room ?y \<and> \<not> ps_err_read ?y\<rparr> = ?y" using False by auto
    ultimately show ?thesis using inv by simp
  next
    case True
    have v: "view_of sel (ps_sock ?y) = wanted False (ps_select_write ?y) (1 - c)" "ps_sock ?y = s (1 - c)"
      using i(2) True by (auto simp: side_inv_def sock_view_def)
    obtain sel' where s: "fdselect_set True sel (ps_sock ?y) FDSELECT_READ (Some SockRead) (1 - c) = Some (sel', 0)" "sel_ok sel'"
        "view_of sel' = (view_of sel)(s (1 - c) := wanted True (ps_select_write ?y) (1 - c))"
      using want_read(1) [OF i(3) v(1)] v(2) by auto
    have "pipe_inv s V sel' ((pp_sock p)(1 - c := ?y\<lparr>ps_select_read := True\<rparr>)) (pp_log p)"
      using i(2) s True by (intro inv_step [OF inv d(2)]) (auto simp: side_inv_def sock_ok_def sock_view_def pending_def d)
    moreover have "peer_wants sel p c = Some (sel', put_sock (1 - c) (?y\<lparr>ps_select_read := True\<rparr>) p)"
      using s(1) True by (simp add: peer_wants_def room_def Let_def)
    ultimately show ?thesis using True d by auto
  qed
qed

lemma sock_wants_ok:
  assumes inv: "pipe_inv s V sel (pp_sock p) (pp_log p)" and c: "c \<le> 1"
  shows "\<exists>sel' p' dn. sock_wants sel p c = Some (sel', p') \<and> pipe_inv s V sel' (pp_sock p') (pp_log p') \<and>
    pp_sock p' c = (pp_sock p c)\<lparr>ps_select_write := 0 < ps_len (pp_sock p (1 - c)) \<and> \<not> ps_err_write (pp_sock p c)\<rparr> \<and>
    pp_sock p' (1 - c) = (pp_sock p (1 - c))\<lparr>ps_err_read_done := dn\<rparr> \<and> pp_callback p' = pp_callback p"
proof -
  let ?x = "pp_sock p c" and ?y = "pp_sock p (1 - c)"
  have d: "1 - c \<noteq> c" "c \<noteq> 1 - c" "1 - c \<le> 1" "1 - (1 - c) = c" using c by arith+
  note i = inv_side [OF inv c]
  have stay: "?y\<lparr>ps_err_read_done := ps_err_read_done ?y\<rparr> = ?y" by simp
  have v: "view_of sel (ps_sock ?x) = wanted (ps_select_read ?x \<and> \<not> ps_err_read ?x) (ps_select_write ?x) c" "ps_sock ?x = s c"
    using i(1) by (simp_all add: side_inv_def sock_view_def)
  show ?thesis
  proof (cases "0 < ps_len ?y \<and> \<not> ps_err_write ?x")
    case w: True
    show ?thesis
    proof (cases "ps_select_write ?x")
      case True
      then have "?x\<lparr>ps_select_write := 0 < ps_len ?y \<and> \<not> ps_err_write ?x\<rparr> = ?x" using w by simp
      then show ?thesis using w True inv stay
        by (intro exI [of _ sel] exI [of _ p] exI [of _ "ps_err_read_done ?y"]) (simp add: sock_wants_def)
    next
      case False
      obtain sel' where s: "fdselect_set True sel (ps_sock ?x) FDSELECT_WRITE (Some SockWrite) c = Some (sel', 0)" "sel_ok sel'"
          "view_of sel' = (view_of sel)(s c := wanted (ps_select_read ?x \<and> \<not> ps_err_read ?x) True c)"
        using want_read(3) [OF i(3) v(1)] v(2) by auto
      have "pipe_inv s V sel' ((pp_sock p)(c := ?x\<lparr>ps_select_write := True\<rparr>)) (pp_log p)"
        using i(1) s by (intro inv_step [OF inv c]) (auto simp: side_inv_def sock_ok_def sock_view_def pending_def)
      moreover have "sock_wants sel p c = Some (sel', put_sock c (?x\<lparr>ps_select_write := True\<rparr>) p)"
        using s(1) w False by (simp add: sock_wants_def Let_def)
      ultimately show ?thesis using w d stay
        by (intro exI [of _ sel'] exI [of _ "put_sock c (?x\<lparr>ps_select_write := True\<rparr>) p"] exI [of _ "ps_err_read_done ?y"]) simp
    qed
  next
    case w: False
    define b where "b = (ps_err_read ?y \<and> \<not> ps_err_read_done ?y)"
    let ?p = "if b then pipe_log (ShutSend c) (put_sock (1 - c) (?y\<lparr>ps_err_read_done := True\<rparr>) p) else p"
    let ?dn = "b \<or> ps_err_read_done ?y"
    have "pipe_inv s V sel ((pp_sock p)(1 - c := ?y\<lparr>ps_err_read_done := True\<rparr>)) (pp_log p @ [ShutSend c])"
      using i(2) by (intro inv_local [OF inv d(3)]) (auto simp: side_inv_def sock_ok_def sock_view_def pending_def d)
    then have p: "pipe_inv s V sel (pp_sock ?p) (pp_log ?p)" using inv by (cases b) simp_all
    have q: "pp_sock ?p c = ?x" "pp_sock ?p (1 - c) = ?y\<lparr>ps_err_read_done := ?dn\<rparr>" "pp_callback ?p = pp_callback p"
      using d by (cases b; simp)+
    have run: "sock_wants sel p c = (if ps_select_write ?x then do {
          (sel, _) \<leftarrow> fdselect_unset True sel (ps_sock ?x) FDSELECT_WRITE;
          Some (sel, put_sock c (?x\<lparr>ps_select_write := False\<rparr>) ?p)
        } else Some (sel, ?p))"
      unfolding sock_wants_def Let_def if_not_P [OF w] b_def by (rule refl)
    show ?thesis
    proof (cases "ps_select_write ?x")
      case False
      then have "?x\<lparr>ps_select_write := 0 < ps_len ?y \<and> \<not> ps_err_write ?x\<rparr> = ?x" using w by simp
      then show ?thesis using run False p q by (intro exI [of _ sel] exI [of _ ?p] exI [of _ ?dn]) simp
    next
      case True
      obtain sel' where s: "fdselect_unset True sel (ps_sock ?x) FDSELECT_WRITE = Some (sel', 0)" "sel_ok sel'"
          "view_of sel' = (view_of sel)(s c := wanted (ps_select_read ?x \<and> \<not> ps_err_read ?x) False c)"
        using want_read(4) [OF i(3) v(1)] v(2) by auto
      have "pipe_inv s V sel' ((pp_sock ?p)(c := ?x\<lparr>ps_select_write := False\<rparr>)) (pp_log ?p)"
        using inv_side(1) [OF p c] s q(1) by (intro inv_step [OF p c]) (auto simp: side_inv_def sock_ok_def sock_view_def pending_def)
      then show ?thesis using run True s(1) w q d
        by (intro exI [of _ sel'] exI [of _ "put_sock c (?x\<lparr>ps_select_write := False\<rparr>) ?p"] exI [of _ ?dn]) simp
    qed
  qed
qed

lemma closed_ok:
  assumes inv: "pipe_inv s V sel (pp_sock p) (pp_log p)"
  shows "\<exists>sel' p'. fdselect_pipe_closed_callback sel p = Some (sel', p') \<and> pipe_inv s V sel' (pp_sock p') (pp_log p') \<and>
    pp_sock p' = pp_sock p \<and> pp_callback p' = pp_callback p"
proof (cases "fdselect_pipe_closed p \<and> pp_callback p = None")
  case False
  then show ?thesis using inv by (cases "fdselect_pipe_closed p") (auto simp: fdselect_pipe_closed_callback_def)
next
  case True
  have i: "side_inv s sel (pp_sock p) (pp_log p) 0" "side_inv s sel (pp_sock p) (pp_log p) 1" "sel_ok sel" "s 0 \<noteq> s 1"
    using inv by (simp_all add: pipe_inv_def)
  have v: "ps_sock (pp_sock p 0) = s 0" "ps_sock (pp_sock p 1) = s 1" "view_of sel (s 0) = wanted False False 0" "view_of sel (s 1) = wanted False False 1"
    using i(1,2) True by (simp_all add: side_inv_def sock_view_def fdselect_pipe_closed_def)
  obtain sel1 where 1: "fdselect_unset True sel (s 0) FDSELECT_ALL = Some (sel1, 0)" "sel_ok sel1"
      "view_of sel1 = (view_of sel)(s 0 := wanted False False 0)" using want_read(5) [OF i(3) v(3)] by auto
  have "view_of sel1 (s 1) = wanted False False 1" using 1(3) v(4) i(4) by simp
  from want_read(5) [OF 1(2) this] obtain sel2 where 2: "fdselect_unset True sel1 (s 1) FDSELECT_ALL = Some (sel2, 0)" "sel_ok sel2"
      "view_of sel2 = (view_of sel1)(s 1 := wanted False False 1)" by auto
  have view: "view_of sel2 = view_of sel" using v(3,4) by (auto simp: 2(3) 1(3))
  let ?p = "pipe_log (SockClosed 1) (pipe_log (SockClosed 0) p)"
  have "fdselect_pipe_closed_callback sel p = Some (sel2, ?p)"
    using True v(1,2) 1(1) 2(1) by (simp add: fdselect_pipe_closed_callback_def fdselect_pipe_close_def Let_def)
  moreover have "pipe_inv s V sel2 (pp_sock ?p) (pp_log ?p)"
    using inv 2(2) by (simp add: pipe_inv_def side_inv_def view)
  ultimately show ?thesis by auto
qed

text \<open>The flags of a buffer are settled when they say what it has use for.\<close>

definition settled :: "(nat \<Rightarrow> pipe_sock) \<Rightarrow> nat \<Rightarrow> bool" where
  "settled S c \<longleftrightarrow> (ps_select_read (S c) \<longleftrightarrow> room (S c) \<and> \<not> ps_err_read (S c)) \<and>
     (ps_select_write (S (1 - c)) \<longleftrightarrow> 0 < ps_len (S c) \<and> \<not> ps_err_write (S (1 - c)))"

lemma sock_write_ok:
  assumes inv: "pipe_inv s V sel (pp_sock p) (pp_log p)" and c: "c \<le> 1"
  shows "\<exists>sel' p'. fdselect_pipe_sock_write sel p c = Some (sel', p') \<and> pipe_inv s V sel' (pp_sock p') (pp_log p') \<and>
    (settled (pp_sock p) c \<longrightarrow> settled (pp_sock p') c) \<and>
    (settled (pp_sock p) (1 - c) \<longrightarrow> settled (pp_sock p') (1 - c)) \<and>
    (ps_select_write (pp_sock p' c) \<longleftrightarrow> 0 < ps_len (pp_sock p' (1 - c)) \<and> \<not> ps_err_write (pp_sock p' c)) \<and>
    pp_callback p' = pp_callback p"
proof -
  let ?x = "pp_sock p c" and ?y = "pp_sock p (1 - c)"
  have d: "1 - (1 - c) = c" using c by arith
  obtain sel1 p1 ew off len sr where 1: "write_loop (ps_len ?y + 1) sel p c = Some (sel1, p1)" "pipe_inv s V sel1 (pp_sock p1) (pp_log p1)"
      "pp_sock p1 c = ?x\<lparr>ps_err_write := ew\<rparr>" "pp_sock p1 (1 - c) = ?y\<lparr>ps_off := off, ps_len := len, ps_select_read := sr\<rparr>"
      "off + len \<le> ps_off ?y + ps_len ?y" "sr \<longrightarrow> ps_select_read ?y" "pp_callback p1 = pp_callback p"
    using write_loop_ok [OF inv c, of "ps_len ?y + 1"] by auto
  obtain sel2 p2 where 2: "peer_wants sel1 p1 c = Some (sel2, p2)" "pipe_inv s V sel2 (pp_sock p2) (pp_log p2)"
      "pp_sock p2 c = pp_sock p1 c" "pp_sock p2 (1 - c) = (pp_sock p1 (1 - c))\<lparr>ps_select_read :=
         ps_select_read (pp_sock p1 (1 - c)) \<or> room (pp_sock p1 (1 - c)) \<and> \<not> ps_err_read (pp_sock p1 (1 - c))\<rparr>"
      "pp_callback p2 = pp_callback p1"
    using peer_wants_ok [OF 1(2) c] by blast
  obtain sel3 p3 dn where 3: "sock_wants sel2 p2 c = Some (sel3, p3)" "pipe_inv s V sel3 (pp_sock p3) (pp_log p3)"
      "pp_sock p3 c = (pp_sock p2 c)\<lparr>ps_select_write := 0 < ps_len (pp_sock p2 (1 - c)) \<and> \<not> ps_err_write (pp_sock p2 c)\<rparr>"
      "pp_sock p3 (1 - c) = (pp_sock p2 (1 - c))\<lparr>ps_err_read_done := dn\<rparr>" "pp_callback p3 = pp_callback p2"
    using sock_wants_ok [OF 2(2) c] by blast
  obtain sel4 p4 where 4: "fdselect_pipe_closed_callback sel3 p3 = Some (sel4, p4)" "pipe_inv s V sel4 (pp_sock p4) (pp_log p4)"
      "pp_sock p4 = pp_sock p3" "pp_callback p4 = pp_callback p3"
    using closed_ok [OF 3(2)] by blast
  have "fdselect_pipe_sock_write sel p c = Some (sel4, p4)"
    using 1(1) 2(1) 3(1) 4(1) by (simp add: fdselect_pipe_sock_write_def)
  moreover have x: "pp_sock p4 c = ?x\<lparr>ps_err_write := ew, ps_select_write := 0 < len \<and> \<not> ew\<rparr>"
    by (simp add: 4(3) 3(3) 2(3,4) 1(3,4))
  moreover have y: "pp_sock p4 (1 - c) = ?y\<lparr>ps_off := off, ps_len := len, ps_err_read_done := dn,
      ps_select_read := sr \<or> off + len < ps_max ?y \<and> \<not> ps_err_read ?y\<rparr>"
    by (simp add: 4(3) 3(4) 2(4) 1(4) room_def)
  have "settled (pp_sock p) c \<longrightarrow> settled (pp_sock p4) c" by (simp add: settled_def x y room_def)
  moreover have "settled (pp_sock p) (1 - c) \<longrightarrow> settled (pp_sock p4) (1 - c)"
    using 1(5,6) by (auto simp: settled_def x y room_def d)
  ultimately show ?thesis using 4(2,4) 3(5) 2(5) 1(7) y by auto
qed

lemma own_wants_ok:
  assumes inv: "pipe_inv s V sel (pp_sock p) (pp_log p)" and c: "c \<le> 1"
  shows "\<exists>sel' p'. own_wants sel p c = Some (sel', p') \<and> pipe_inv s V sel' (pp_sock p') (pp_log p') \<and>
    pp_sock p' = (pp_sock p)(c := (pp_sock p c)\<lparr>ps_select_read := room (pp_sock p c) \<and> \<not> ps_err_read (pp_sock p c)\<rparr>) \<and>
    pp_callback p' = pp_callback p"
proof -
  let ?x = "pp_sock p c"
  note i = inv_side [OF inv c]
  have v: "view_of sel (ps_sock ?x) = wanted (ps_select_read ?x \<and> \<not> ps_err_read ?x) (ps_select_write ?x) c" "ps_sock ?x = s c"
    using i(1) by (simp_all add: side_inv_def sock_view_def)
  show ?thesis
  proof (cases "ps_select_read ?x = (room ?x \<and> \<not> ps_err_read ?x)")
    case True
    then have "?x\<lparr>ps_select_read := room ?x \<and> \<not> ps_err_read ?x\<rparr> = ?x" by (simp flip: True)
    moreover have "own_wants sel p c = Some (sel, p)" using True by (auto simp: own_wants_def Let_def room_def)
    ultimately show ?thesis using inv by simp
  next
    case False
    obtain sel' where s: "(if room ?x \<and> \<not> ps_err_read ?x then fdselect_set True sel (ps_sock ?x) FDSELECT_READ (Some SockRead) c
        else fdselect_unset True sel (ps_sock ?x) FDSELECT_READ) = Some (sel', 0)" "sel_ok sel'"
        "view_of sel' = (view_of sel)(s c := wanted (room ?x \<and> \<not> ps_err_read ?x) (ps_select_write ?x) c)"
      using want_read(1,2) [OF i(3) v(1)] v(2) by (cases "room ?x \<and> \<not> ps_err_read ?x") auto
    let ?p = "put_sock c (?x\<lparr>ps_select_read := room ?x \<and> \<not> ps_err_read ?x\<rparr>) p"
    have "pipe_inv s V sel' (pp_sock ?p) (pp_log ?p)"
      using i(1) s by (auto intro!: inv_step [OF inv c] simp: side_inv_def sock_ok_def sock_view_def pending_def conj_comms)
    moreover have "own_wants sel p c = Some (sel', ?p)"
      using s(1) False by (cases "room ?x \<and> \<not> ps_err_read ?x") (auto simp: own_wants_def Let_def room_def)
    ultimately show ?thesis by auto
  qed
qed

lemma sock_read_ok:
  assumes inv: "pipe_inv s V sel (pp_sock p) (pp_log p)" and c: "c \<le> 1"
  shows "\<exists>sel' p'. fdselect_pipe_sock_read sel p c = Some (sel', p') \<and> pipe_inv s V sel' (pp_sock p') (pp_log p') \<and>
    (settled (pp_sock p) (1 - c) \<longrightarrow> settled (pp_sock p') (1 - c)) \<and> settled (pp_sock p') c"
proof -
  have d: "1 - (1 - c) = c" "1 - c \<le> 1" "1 - c \<noteq> c" using c by arith+
  obtain sel1 p1 er buf len where 1: "read_loop (pipe_in_size (pp_in p c) + 1) sel p c = Some (sel1, p1)"
      "pipe_inv s V sel1 (pp_sock p1) (pp_log p1)"
      "pp_sock p1 c = (pp_sock p c)\<lparr>ps_err_read := er, ps_buf := buf, ps_len := len\<rparr>" "pp_sock p1 (1 - c) = pp_sock p (1 - c)"
    using read_loop_ok [OF inv c, of "pipe_in_size (pp_in p c) + 1"] by auto
  have s1: "settled (pp_sock p) (1 - c) \<longrightarrow> settled (pp_sock p1) (1 - c)" by (simp add: settled_def 1(3,4) d room_def)
  obtain sel2 p2 where 2: "fdselect_pipe_sock_write sel1 p1 (1 - c) = Some (sel2, p2)" "pipe_inv s V sel2 (pp_sock p2) (pp_log p2)"
      "settled (pp_sock p1) (1 - c) \<longrightarrow> settled (pp_sock p2) (1 - c)"
      "ps_select_write (pp_sock p2 (1 - c)) \<longleftrightarrow> 0 < ps_len (pp_sock p2 c) \<and> \<not> ps_err_write (pp_sock p2 (1 - c))"
    using sock_write_ok [OF 1(2) d(2)] unfolding d(1) by blast
  obtain sel3 p3 where 3: "own_wants sel2 p2 c = Some (sel3, p3)" "pipe_inv s V sel3 (pp_sock p3) (pp_log p3)"
      "pp_sock p3 = (pp_sock p2)(c := (pp_sock p2 c)\<lparr>ps_select_read := room (pp_sock p2 c) \<and> \<not> ps_err_read (pp_sock p2 c)\<rparr>)"
    using own_wants_ok [OF 2(2) c] by blast
  obtain sel4 p4 where 4: "fdselect_pipe_closed_callback sel3 p3 = Some (sel4, p4)" "pipe_inv s V sel4 (pp_sock p4) (pp_log p4)"
      "pp_sock p4 = pp_sock p3" using closed_ok [OF 3(2)] by blast
  have "fdselect_pipe_sock_read sel p c = Some (sel4, p4)" using 1(1) 2(1) 3(1) 4(1) by (simp add: fdselect_pipe_sock_read_def)
  moreover have "settled (pp_sock p2) (1 - c) \<longrightarrow> settled (pp_sock p4) (1 - c)" using d by (simp add: settled_def 4(3) 3(3) room_def)
  moreover have "settled (pp_sock p4) c" using 2(4) d by (simp add: settled_def 4(3) 3(3) room_def)
  ultimately show ?thesis using 4(2) s1 2(3) by blast
qed

section \<open>Histories\<close>

datatype pipe_step = ReadOn nat | WriteOn nat

fun on_side :: "pipe_step \<Rightarrow> nat" where "on_side (ReadOn c) = c" | "on_side (WriteOn c) = c"

fun pipe_run :: "pipe_step list \<Rightarrow> pipe_table \<Rightarrow> 'w pipe \<Rightarrow> (pipe_table \<times> 'w pipe) option" where
  "pipe_run [] sel p = Some (sel, p)"
| "pipe_run (ReadOn c # es) sel p = do { (sel, p) \<leftarrow> fdselect_pipe_sock_read sel p c; pipe_run es sel p }"
| "pipe_run (WriteOn c # es) sel p = do { (sel, p) \<leftarrow> fdselect_pipe_sock_write sel p c; pipe_run es sel p }"

lemma settled_sides: "c \<le> 1 \<Longrightarrow> settled S c \<Longrightarrow> settled S (1 - c) \<Longrightarrow> settled S 0 \<and> settled S 1"
proof -
  assume "c \<le> 1" "settled S c" "settled S (1 - c)"
  moreover from this(1) have "c = 0 \<or> c = 1" by auto
  ultimately show ?thesis by auto
qed

lemma pipe_run_ok:
  assumes "pipe_inv s V sel (pp_sock p) (pp_log p)" "settled (pp_sock p) 0" "settled (pp_sock p) 1" "\<forall>e\<in>set es. on_side e \<le> 1"
  shows "\<exists>sel' p'. pipe_run es sel p = Some (sel', p') \<and> pipe_inv s V sel' (pp_sock p') (pp_log p') \<and>
    settled (pp_sock p') 0 \<and> settled (pp_sock p') 1"
  using assms
proof (induction es arbitrary: sel p)
  case (Cons e es)
  let ?c = "on_side e"
  have c: "?c \<le> 1" using Cons.prems(4) by simp
  then have "?c = 0 \<or> ?c = 1" by auto
  then have st: "settled (pp_sock p) ?c" "settled (pp_sock p) (1 - ?c)" using Cons.prems(2,3) by auto
  obtain sel1 p1 where 1: "pipe_run [e] sel p = Some (sel1, p1)" "pipe_inv s V sel1 (pp_sock p1) (pp_log p1)"
      "settled (pp_sock p1) ?c" "settled (pp_sock p1) (1 - ?c)"
    using sock_read_ok [OF Cons.prems(1) c] sock_write_ok [OF Cons.prems(1) c] st by (cases e) auto
  have "pipe_run (e # es) sel p = pipe_run es sel1 p1" using 1(1) by (cases e) (auto split: bind_splits)
  with Cons.IH [OF 1(2)] settled_sides [OF c 1(3,4)] Cons.prems(4) show ?case by auto
qed simp

lemma inv_others: "pipe_inv s V sel S L \<Longrightarrow> fd \<noteq> s 0 \<Longrightarrow> fd \<noteq> s 1 \<Longrightarrow> view_of sel fd = V fd"
  by (simp add: pipe_inv_def)

lemma side_result:
  assumes "side_inv s sel S L c \<and> settled S c \<and> settled S (1 - c) \<and> 1 - (1 - c) = c"
  shows "got c L = sent (1 - c) L @ pending (S c) \<and> ps_off (S c) + ps_len (S c) \<le> length (ps_buf (S c)) \<and>
    view_of sel (s c) = wanted (room (S c) \<and> \<not> ps_err_read (S c)) (0 < ps_len (S (1 - c)) \<and> \<not> ps_err_write (S c)) c"
proof -
  have i: "sock_ok (S c)" "view_of sel (s c) = sock_view (S c) c" "got c L = sent (1 - c) L @ pending (S c)"
    using assms by (simp_all add: side_inv_def)
  have "ps_select_read (S c) \<and> \<not> ps_err_read (S c) \<longleftrightarrow> room (S c) \<and> \<not> ps_err_read (S c)"
    "ps_select_write (S c) \<longleftrightarrow> 0 < ps_len (S (1 - c)) \<and> \<not> ps_err_write (S c)"
    using assms by (auto simp: settled_def)
  with i show ?thesis by (simp add: sock_view_def sock_ok_def)
qed

text \<open>
  C33. A pipe relays. Whatever the two sockets deliver and take, in whatever order their callbacks run: everything received
  on one side has been sent on the other, in order, but for the bytes the buffer holds; no buffer is ever exceeded; and the
  table asks for reading a socket exactly while its buffer has room and its stream has not ended, for writing one exactly while
  there is something to write and writing has not failed. The other descriptors of the table stay as they were.
\<close>

theorem pipe_relays:
  assumes table: "sel_ok sel" "view_of sel s0 = None" "view_of sel s1 = None" "s0 \<noteq> s1"
    and buf: "length b0 = m0" "0 < m0" "length b1 = m1" "0 < m1" and es: "\<forall>e\<in>set es. on_side e \<le> 1"
  shows "\<exists>sel' p'. do { (sel, p) \<leftarrow> fdselect_pipe_init sel cb w ins outs s0 b0 m0 s1 b1 m1; pipe_run es sel p } = Some (sel', p') \<and>
    (\<forall>c\<le>1. got c (pp_log p') = sent (1 - c) (pp_log p') @ pending (pp_sock p' c) \<and>
       ps_off (pp_sock p' c) + ps_len (pp_sock p' c) \<le> length (ps_buf (pp_sock p' c)) \<and>
       view_of sel' (if c = 0 then s0 else s1) =
         wanted (room (pp_sock p' c) \<and> \<not> ps_err_read (pp_sock p' c)) (0 < ps_len (pp_sock p' (1 - c)) \<and> \<not> ps_err_write (pp_sock p' c)) c) \<and>
    (\<forall>fd. fd \<noteq> s0 \<and> fd \<noteq> s1 \<longrightarrow> view_of sel' fd = view_of sel fd)"
proof -
  let ?s = "\<lambda>c :: nat. if c = 0 then s0 else s1"
  have v: "view_of sel s0 = wanted False False 0" using table(2) by (simp add: wanted_def)
  obtain sel1 where 1: "fdselect_set True sel s0 FDSELECT_READ (Some SockRead) 0 = Some (sel1, 0)" "sel_ok sel1"
      "view_of sel1 = (view_of sel)(s0 := wanted True False 0)" using want_read(1) [OF table(1) v] by auto
  have v1: "view_of sel1 s1 = wanted False False 1" using table(3,4) by (simp add: wanted_def 1(3))
  obtain sel2 where 2: "fdselect_set True sel1 s1 FDSELECT_READ (Some SockRead) 1 = Some (sel2, 0)" "sel_ok sel2"
      "view_of sel2 = (view_of sel1)(s1 := wanted True False 1)" using want_read(1) [OF 1(2) v1] by auto
  let ?p = "\<lparr>pp_sock = (\<lambda>c. if c = 0 then sock_init s0 b0 m0 else sock_init s1 b1 m1), pp_callback = cb, pp_world = w, pp_in = ins,
      pp_out = outs, pp_log = []\<rparr>"
  have init: "fdselect_pipe_init sel cb w ins outs s0 b0 m0 s1 b1 m1 = Some (sel2, ?p)"
    using 1(1) 2(1) by (simp add: fdselect_pipe_init_def Let_def)
  have "pipe_inv ?s (view_of sel) sel2 (pp_sock ?p) (pp_log ?p)"
    using 2(2) table(4) buf
    by (auto simp: pipe_inv_def side_inv_def sock_ok_def sock_view_def sock_init_def pending_def 2(3) 1(3))
  moreover have "settled (pp_sock ?p) 0" "settled (pp_sock ?p) 1" using buf by (simp_all add: settled_def sock_init_def room_def)
  ultimately obtain sel' p' where r: "pipe_run es sel2 ?p = Some (sel', p')" "pipe_inv ?s (view_of sel) sel' (pp_sock p') (pp_log p')"
      "settled (pp_sock p') 0" "settled (pp_sock p') 1" using pipe_run_ok [OF _ _ _ es] by blast
  have side: "side_inv ?s sel' (pp_sock p') (pp_log p') c \<and> settled (pp_sock p') c \<and> settled (pp_sock p') (1 - c) \<and> 1 - (1 - c) = c"
    if "c \<le> 1" for c
  proof -
    from that have "c = 0 \<or> c = 1" by auto
    then show ?thesis using r(2-4) by (auto simp: pipe_inv_def)
  qed
  have "\<forall>c\<le>1. got c (pp_log p') = sent (1 - c) (pp_log p') @ pending (pp_sock p' c) \<and>
       ps_off (pp_sock p' c) + ps_len (pp_sock p' c) \<le> length (ps_buf (pp_sock p' c)) \<and>
       view_of sel' (?s c) =
         wanted (room (pp_sock p' c) \<and> \<not> ps_err_read (pp_sock p' c)) (0 < ps_len (pp_sock p' (1 - c)) \<and> \<not> ps_err_write (pp_sock p' c)) c"
  proof (intro allI impI)
    fix c :: nat assume "c \<le> 1"
    from side_result [OF side [OF this]]
    show "got c (pp_log p') = sent (1 - c) (pp_log p') @ pending (pp_sock p' c) \<and>
       ps_off (pp_sock p' c) + ps_len (pp_sock p' c) \<le> length (ps_buf (pp_sock p' c)) \<and>
       view_of sel' (?s c) =
         wanted (room (pp_sock p' c) \<and> \<not> ps_err_read (pp_sock p' c)) (0 < ps_len (pp_sock p' (1 - c)) \<and> \<not> ps_err_write (pp_sock p' c)) c" .
  qed
  moreover have "\<forall>fd. fd \<noteq> s0 \<and> fd \<noteq> s1 \<longrightarrow> view_of sel' fd = view_of sel fd"
    using inv_others [OF r(2)] by simp
  moreover have "do { (sel, p) \<leftarrow> fdselect_pipe_init sel cb w ins outs s0 b0 m0 s1 b1 m1; pipe_run es sel p } = Some (sel', p')"
    by (simp only: init r(1) Option.bind.simps prod.case)
  ultimately show ?thesis by blast
qed

lemma pipe_relays_witness:
  "\<exists>sel' p'. do { (sel, p) \<leftarrow> fdselect_pipe_init fdselect_init (None :: unit pipe_callback option) () (\<lambda>c. [PData [1, 2, 3], PBroken])
        (\<lambda>c. [PTook 2, PFull]) 4 (replicate 2 0) 2 5 (replicate 8 0) 8;
      pipe_run [ReadOn 0, WriteOn 1, ReadOn 1] sel p } = Some (sel', p') \<and>
    got 0 (pp_log p') = sent 1 (pp_log p') @ pending (pp_sock p' 0)"
proof -
  have i: "sel_ok (fdselect_init :: pipe_table)" "view_of (fdselect_init :: pipe_table) x = None" for x
    by (simp_all add: sel_ok_init view_of_def)
  have b: "length (replicate 2 0 :: byte list) = 2" "length (replicate 8 0 :: byte list) = 8" by simp_all
  have e: "\<forall>e\<in>set [ReadOn 0, WriteOn 1, ReadOn 1]. on_side e \<le> 1" by simp
  have d: "(4 :: int) \<noteq> 5" by simp
  obtain sel' p' where r: "do { (sel, p) \<leftarrow> fdselect_pipe_init fdselect_init (None :: unit pipe_callback option) () (\<lambda>c. [PData [1, 2, 3], PBroken])
        (\<lambda>c. [PTook 2, PFull]) 4 (replicate 2 0) 2 5 (replicate 8 0) 8;
      pipe_run [ReadOn 0, WriteOn 1, ReadOn 1] sel p } = Some (sel', p')"
    "\<forall>c\<le>1. got c (pp_log p') = sent (1 - c) (pp_log p') @ pending (pp_sock p' c) \<and>
       ps_off (pp_sock p' c) + ps_len (pp_sock p' c) \<le> length (ps_buf (pp_sock p' c)) \<and>
       view_of sel' (if c = 0 then 4 else 5) =
         wanted (room (pp_sock p' c) \<and> \<not> ps_err_read (pp_sock p' c)) (0 < ps_len (pp_sock p' (1 - c)) \<and> \<not> ps_err_write (pp_sock p' c)) c"
    using pipe_relays [OF i(1) i(2) i(2) d b(1) _ b(2) _ e, of None "()" "\<lambda>c. [PData [1, 2, 3], PBroken]" "\<lambda>c. [PTook 2, PFull]"]
    by (elim meta_impE exE conjE) simp_all
  from r(2) have "got 0 (pp_log p') = sent (1 - 0) (pp_log p') @ pending (pp_sock p' 0)" by (elim allE [of _ 0] impE conjE) simp
  then have "got 0 (pp_log p') = sent 1 (pp_log p') @ pending (pp_sock p' 0)" by (simp only: diff_zero)
  with r(1) show ?thesis by blast
qed

end
