(* ===== verification/Readable.thy ===== *)
theory Readable
  imports CfgProps
begin

text \<open>
  \<open>readable.c\<close>: numbers, dates and durations as text. The format \<open>%.3g\<close>, the local time and \<open>strftime\<close> are parameters.
  A \<open>double\<close> is a real number; converting one that does not fit into an \<open>int\<close> is \<open>None\<close>, like an access outside the buffer.
\<close>

section \<open>Numbers\<close>

definition metric_units :: "(real \<times> string) list" where
  "metric_units = [(10 ^ 12, ''T''), (10 ^ 9, ''G''), (10 ^ 6, ''M''), (10 ^ 3, ''k''), (1, ''''), (1 / 10 ^ 3, ''m''),
     (1 / 10 ^ 6, ''u''), (1 / 10 ^ 9, ''n'')]"

text \<open>The loop over the units: the first one that is not too large, or the last.\<close>

fun metric_unit :: "real \<Rightarrow> (real \<times> string) list \<Rightarrow> (real \<times> string) option" where
  "metric_unit x [] = None"
| "metric_unit x [u] = Some u"
| "metric_unit x (u # us) = (if x < fst u then metric_unit x us else Some u)"

definition readable_metric ::
    "(real \<Rightarrow> byte list) \<Rightarrow> real \<Rightarrow> byte list \<Rightarrow> mem \<Rightarrow> int \<Rightarrow> mem option" where
  "readable_metric fmt_g bytes name buf buflen =
     (if bytes = 0 then map_option fst (snprintf_size buf 0 buflen (bytes_of ''0'' @ name))
      else case metric_unit \<bar>bytes\<bar> metric_units of
             None \<Rightarrow> Some buf
           | Some (m, label) \<Rightarrow>
               map_option fst (snprintf_size buf 0 buflen (fmt_g (bytes / m) @ bytes_of label @ name)))"

definition readable_bytes :: "(real \<Rightarrow> byte list) \<Rightarrow> real \<Rightarrow> mem \<Rightarrow> int \<Rightarrow> mem option" where
  "readable_bytes fmt_g bytes buf buflen = readable_metric fmt_g bytes (bytes_of ''b'') buf buflen"

section \<open>Dates\<close>

record tm =
  tm_hour :: int
  tm_min :: int
  tm_sec :: int

definition readable_date ::
    "(int \<Rightarrow> 'x tm_scheme) \<Rightarrow> (mem \<Rightarrow> int \<Rightarrow> string \<Rightarrow> 'x tm_scheme \<Rightarrow> mem) \<Rightarrow> real \<Rightarrow> mem \<Rightarrow> int \<Rightarrow> mem" where
  "readable_date localtime strftime mst buf len =
     (let tm = localtime (if 0 \<le> mst then \<lfloor>mst\<rfloor> else \<lceil>mst\<rceil>)
      in if tm_hour tm = 0 \<and> tm_min tm = 0 \<and> tm_sec tm = 0 then strftime buf len ''%b %d %Y'' tm
         else strftime buf len ''%b %d %Y %I:%M:%S%p'' tm)"

section \<open>Durations\<close>

text \<open>\<open>j = snprintf(buf, len, ...); buf += j; len -= j;\<close>\<close>

type_synonym print_pos = "mem \<times> int \<times> int"

definition print_on :: "byte list \<Rightarrow> print_pos \<Rightarrow> print_pos option" where
  "print_on t st = (case st of (m, p, n) \<Rightarrow> do { (m, j) \<leftarrow> snprintf_size m p n t; Some (m, p + j, n - j) })"

definition two_digits :: "int \<Rightarrow> byte list" where
  "two_digits v = (if 0 \<le> v \<and> v < 10 then bytes_of ''0'' else []) @ bytes_of (dec_int v)"

definition plural :: "int \<Rightarrow> string \<Rightarrow> byte list" where
  "plural v label = bytes_of (dec_int v) @ bytes_of '' '' @ bytes_of label @ (if v = 1 then [] else bytes_of ''s'')"

definition duration_units :: "(int \<times> string) list" where
  "duration_units = [(1, ''sec''), (60, ''min''), (60, ''hour''), (24, ''day'')]"

text \<open>From the largest unit to the smallest; \<open>unit\<close> is the length of the first of \<open>us\<close>.\<close>

fun duration_loop :: "bool \<Rightarrow> (int \<times> string) list \<Rightarrow> real \<Rightarrow> real \<Rightarrow> bool \<Rightarrow> print_pos \<Rightarrow> print_pos option" where
  "duration_loop longfmt [] unit dur started st = Some st"
| "duration_loop longfmt ((u, label) # us) unit dur started st =
     (if dur \<ge> unit
      then (let v = \<lfloor>dur / unit\<rfloor>
        in if 2 ^ 31 \<le> v then None
           else do {
             st \<leftarrow> print_on ((if started then bytes_of (if longfmt then '' '' else '':'') else []) @
                 (if longfmt then plural v label else two_digits v)) st;
             duration_loop longfmt us (unit / of_int u) (dur - of_int v * unit) True st
           })
      else do {
        st \<leftarrow> (if started
              then print_on (if longfmt then bytes_of '' 0 '' @ bytes_of label @ bytes_of ''s'' else bytes_of '':00'') st
              else Some st);
        duration_loop longfmt us (unit / of_int u) dur started st
      })"

definition readable_duration :: "real \<Rightarrow> mem \<Rightarrow> int \<Rightarrow> bool \<Rightarrow> mem option" where
  "readable_duration dur buf len longfmt =
     do {
       buf \<leftarrow> wr8 buf 0 0;
       let unit = of_int (prod_list (map fst duration_units));
       st \<leftarrow> (if \<not> longfmt \<and> dur < 60 then print_on (bytes_of ''00:'') (buf, 0, len) else Some (buf, 0, len));
       st \<leftarrow> (if \<not> longfmt \<and> dur < 1 then print_on (bytes_of ''00'') st else Some st);
       st \<leftarrow> duration_loop longfmt (rev duration_units) unit dur False st;
       Some (fst st)
     }"

section \<open>What is printed\<close>

text \<open>Days, hours, minutes and seconds of \<open>n\<close> seconds.\<close>

definition calendar :: "int \<Rightarrow> (int \<times> string) list" where
  "calendar n = [(n div 86400, ''day''), (n div 3600 mod 24, ''hour''), (n div 60 mod 60, ''min''), (n mod 60, ''sec'')]"

fun join :: "byte list \<Rightarrow> byte list list \<Rightarrow> byte list" where
  "join s [] = []"
| "join s [x] = x"
| "join s (x # xs) = x @ s @ join s xs"

definition without_zeros :: "(int \<times> string) list \<Rightarrow> (int \<times> string) list" where
  "without_zeros = dropWhile (\<lambda>(v, _). v = 0)"

text \<open>In the long format units that are zero are left out up to the first that is not; the short format keeps minutes and seconds.\<close>

definition duration_text :: "bool \<Rightarrow> int \<Rightarrow> byte list" where
  "duration_text longfmt n =
     (if longfmt then join (bytes_of '' '') (map (\<lambda>(v, l). plural v l) (without_zeros (calendar n)))
      else join (bytes_of '':'') (map (two_digits \<circ> fst) (without_zeros (take 2 (calendar n)) @ drop 2 (calendar n))))"

text \<open>The text so far, its zero, and the room that is left.\<close>

definition printed :: "nat \<Rightarrow> int \<Rightarrow> byte list \<Rightarrow> print_pos \<Rightarrow> bool" where
  "printed L len T st \<longleftrightarrow> (case st of (m, p, n) \<Rightarrow>
     p = int (length T) \<and> n = len - p \<and> length m = L \<and> (\<exists>R. m = T @ 0 # R))"

lemma print_on_printed:
  assumes "printed L len T st" "int (length (T @ t)) < len" "len \<le> int L"
  shows "\<exists>st'. print_on t st = Some st' \<and> printed L len (T @ t) st'"
proof -
  obtain m p n R where st: "st = (m, p, n)" "p = int (length T)" "n = len - p" "length m = L" "m = T @ 0 # R"
    using assms(1) by (cases st) (auto simp: printed_def)
  have "take (nat (n - 1)) t = t" using assms(2) st by simp
  moreover have "blit (T @ 0 # R) (int (length T)) (t @ [0]) = Some (T @ (t @ [0]) @ drop (length (t @ [0])) (0 # R))"
    using assms(2,3) st by (intro blit_at) auto
  ultimately have "print_on t st = Some (T @ (t @ [0]) @ drop (length t) R, p + int (length t), n - int (length t))"
    using assms(2) st by (simp add: print_on_def snprintf_size_def)
  then show ?thesis using st assms(2,3) by (auto simp: printed_def)
qed

lemma print_if:
  "printed L len T st \<Longrightarrow> int (length (T @ (if c then t else []))) < len \<Longrightarrow> len \<le> int L \<Longrightarrow>
   \<exists>st'. (if c then print_on t st else Some st) = Some st' \<and> printed L len (T @ (if c then t else [])) st'"
  using print_on_printed [of L len T st t] by (cases c) simp_all

text \<open>The text the loop prints, on whole seconds.\<close>

fun loop_text :: "bool \<Rightarrow> (int \<times> string) list \<Rightarrow> int \<Rightarrow> int \<Rightarrow> bool \<Rightarrow> byte list" where
  "loop_text longfmt [] unit d started = []"
| "loop_text longfmt ((u, label) # us) unit d started =
     (if d \<ge> unit \<or> started
      then (if started then bytes_of (if longfmt then '' '' else '':'') else []) @
        (if longfmt then plural (d div unit) label else two_digits (d div unit)) @
        loop_text longfmt us (unit div u) (d mod unit) True
      else loop_text longfmt us (unit div u) d False)"

fun units_fit :: "(int \<times> string) list \<Rightarrow> int \<Rightarrow> bool" where
  "units_fit [] unit = True"
| "units_fit ((u, _) # us) unit = (0 < u \<and> u < 2 ^ 31 \<and> 0 < unit \<and> u dvd unit \<and> units_fit us (unit div u))"

lemma zero_texts:
  "bytes_of '' 0 '' @ bytes_of l @ bytes_of ''s'' = bytes_of '' '' @ plural 0 l"
  "bytes_of '':00'' = bytes_of '':'' @ two_digits 0"
proof -
  have "bytes_of (dec_int 0) = bytes_of ''0''" "bytes_of '' 0 '' = bytes_of '' '' @ bytes_of ''0'' @ bytes_of '' ''" by code_simp+
  then show "bytes_of '' 0 '' @ bytes_of l @ bytes_of ''s'' = bytes_of '' '' @ plural 0 l" by (simp add: plural_def)
  show "bytes_of '':00'' = bytes_of '':'' @ two_digits 0" by code_simp
qed

lemma duration_loop_text:
  assumes "printed L len T st" "len \<le> int L" "units_fit us unit" "0 \<le> dur" "\<lfloor>dur\<rfloor> < 2 ^ 31 * unit"
    "int (length (T @ loop_text longfmt us unit \<lfloor>dur\<rfloor> started)) < len"
  shows "\<exists>st'. duration_loop longfmt us (of_int unit) dur started st = Some st' \<and>
    printed L len (T @ loop_text longfmt us unit \<lfloor>dur\<rfloor> started) st'"
  using assms
proof (induction us arbitrary: unit dur started st T)
  case Nil
  then show ?case by simp
next
  case (Cons ul us)
  obtain u l where ul: "ul = (u, l)" by (cases ul)
  have u: "0 < u" "u < 2 ^ 31" "0 < unit" "u dvd unit" "units_fit us (unit div u)" using Cons.prems(3) ul by auto
  have un: "of_int unit / of_int u = (of_int (unit div u) :: real)" using u by (simp add: real_of_int_div)
  let ?d = "\<lfloor>dur\<rfloor>"
  have d0: "0 \<le> ?d" using Cons.prems(4) by simp
  have ge: "of_int unit \<le> dur \<longleftrightarrow> unit \<le> ?d" by (simp add: le_floor_iff)
  have v: "\<lfloor>dur / of_int unit\<rfloor> = ?d div unit" using u(3) by (simp add: floor_divide_real_eq_div)
  have v31: "?d div unit < 2 ^ 31"
  proof (rule ccontr)
    assume "\<not> ?thesis"
    then have "2 ^ 31 * unit \<le> ?d div unit * unit" using u(3) by (simp only: not_less mult_right_mono less_imp_le)
    also have "\<dots> \<le> ?d" using u(3) pos_mod_sign [of unit ?d] div_mult_mod_eq [of ?d unit] by linarith
    finally show False using Cons.prems(5) by simp
  qed
  have next_unit: "unit \<le> 2 ^ 31 * (unit div u)"
  proof -
    have "unit = u * (unit div u)" using u(4) by simp
    moreover have "0 \<le> unit div u" using u(1,3) by (simp add: pos_imp_zdiv_nonneg_iff)
    ultimately show ?thesis using u(2) by (metis less_imp_le mult_right_mono)
  qed
  have rest: "\<lfloor>dur - of_int (?d div unit) * of_int unit\<rfloor> = ?d mod unit"
  proof -
    have "dur - of_int (?d div unit) * of_int unit = dur - of_int (?d div unit * unit)" by simp
    then show ?thesis by (simp only: floor_diff_of_int minus_div_mult_eq_mod)
  qed
  have rest0: "0 \<le> dur - of_int (?d div unit) * of_int unit"
    using rest u(3) by (metis pos_mod_sign zero_le_floor)
  show ?case
  proof (cases "unit \<le> ?d")
    case True
    let ?t = "(if started then bytes_of (if longfmt then '' '' else '':'') else []) @
      (if longfmt then plural (?d div unit) l else two_digits (?d div unit))"
    have t_eq: "loop_text longfmt (ul # us) unit ?d started = ?t @ loop_text longfmt us (unit div u) (?d mod unit) True"
      using True by (simp add: ul)
    obtain st1 where st1: "print_on ?t st = Some st1" "printed L len (T @ ?t) st1"
      using print_on_printed [OF Cons.prems(1) _ Cons.prems(2), of ?t] Cons.prems(6) unfolding t_eq by auto
    have "\<lfloor>dur - of_int (?d div unit) * of_int unit\<rfloor> < 2 ^ 31 * (unit div u)"
      unfolding rest using next_unit u(3) by (meson less_le_trans pos_mod_bound)
    from Cons.IH [OF st1(2) Cons.prems(2) u(5) rest0 this, of True] Cons.prems(6)
    show ?thesis unfolding t_eq rest using True st1(1) v31 by (simp add: ul ge v un Let_def)
  next
    case False
    then have dm: "?d div unit = 0" "?d mod unit = ?d" using d0 by (simp_all add: div_pos_pos_trivial mod_pos_pos_trivial)
    have less: "\<lfloor>dur\<rfloor> < 2 ^ 31 * (unit div u)" using False next_unit by simp
    show ?thesis
    proof (cases started)
      case True
      let ?t = "if longfmt then bytes_of '' 0 '' @ bytes_of l @ bytes_of ''s'' else bytes_of '':00''"
      have t_eq: "loop_text longfmt (ul # us) unit ?d started = ?t @ loop_text longfmt us (unit div u) ?d True"
        using True by (simp add: ul dm zero_texts)
      obtain st1 where st1: "print_on ?t st = Some st1" "printed L len (T @ ?t) st1"
        using print_on_printed [OF Cons.prems(1) _ Cons.prems(2), of ?t] Cons.prems(6) unfolding t_eq by auto
      from Cons.IH [OF st1(2) Cons.prems(2) u(5) Cons.prems(4) less, of True] Cons.prems(6)
      show ?thesis unfolding t_eq using True False st1(1) by (simp add: ul ge un)
    next
      case False2: False
      have t_eq: "loop_text longfmt (ul # us) unit ?d started = loop_text longfmt us (unit div u) ?d False"
        using False2 False by (simp add: ul)
      from Cons.IH [OF Cons.prems(1,2) u(5) Cons.prems(4) less, of False] Cons.prems(6)
      show ?thesis unfolding t_eq using False2 False by (simp add: ul ge un)
    qed
  qed
qed

text \<open>The calendar read from the loop.\<close>

lemma mod_div: "0 < a \<Longrightarrow> 0 < b \<Longrightarrow> (n :: int) mod (a * b) div a = n div a mod b"
proof -
  assume ab: "0 < a" "0 < b"
  then have "n mod (a * b) = a * (n div a mod b) + n mod a" by (intro zmod_zmult2_eq) simp
  moreover have "(a * (n div a mod b) + n mod a) div a = n div a mod b + n mod a div a" using ab(1) by (intro div_mult_self4) simp
  ultimately show ?thesis by (simp only: mod_div_trivial add_0_right)
qed

lemma div_twice: "(n :: int) mod 86400 div 3600 = n div 3600 mod 24" "n mod 3600 div 60 = n div 60 mod 60"
    "n mod 86400 mod 3600 = n mod 3600" "n mod 3600 mod 60 = n mod 60"
proof -
  show "n mod 86400 div 3600 = n div 3600 mod 24" 
  proof -
    have e: "(86400 :: int) = 3600 * 24" by simp
    show ?thesis unfolding e by (rule mod_div) simp_all
  qed
  show "n mod 3600 div 60 = n div 60 mod 60" 
  proof -
    have e: "(3600 :: int) = 60 * 60" by simp
    show ?thesis unfolding e by (rule mod_div) simp_all
  qed
  show "n mod 86400 mod 3600 = n mod 3600" by (rule mod_mod_cancel) simp
  show "n mod 3600 mod 60 = n mod 60" by (rule mod_mod_cancel) simp
qed

lemma text_nonzero: "0 \<le> n \<Longrightarrow> 0 \<notin> set (duration_text longfmt n)"
proof -
  assume n: "0 \<le> n"
  have digits: "0 \<notin> set (bytes_of (dec_int v))" if "0 \<le> v" for v
  proof -
    have "\<forall>d\<in>set (dec_bytes (nat v)). d \<noteq> 0" using dec_bytes_facts [of "nat v"] decimal_digit by blast
    with that show ?thesis by (auto simp: dec_int_def dec_bytes_def)
  qed
  have labels: "\<forall>s\<in>set ['' '', ''0'', ''s'', '':'', ''day'', ''hour'', ''min'', ''sec'']. 0 \<notin> set (bytes_of s)" by code_simp
  have joined: "0 \<notin> set s \<Longrightarrow> \<forall>x\<in>set xs. 0 \<notin> set x \<Longrightarrow> 0 \<notin> set (join s xs)" for s :: "byte list" and xs
    by (induction s xs rule: join.induct) auto
  have cal: "\<forall>(v, l)\<in>set (calendar n). 0 \<le> v \<and> 0 \<notin> set (bytes_of l)" using n labels by (auto simp: calendar_def)
  have sub: "set (without_zeros xs) \<subseteq> set xs" for xs by (auto simp: without_zeros_def dest: set_dropWhileD)
  have each: "0 \<notin> set (plural v l)" "0 \<notin> set (two_digits v)" if "(v, l) \<in> set (calendar n)" for v l
  proof -
    have vl: "0 \<le> v" "0 \<notin> set (bytes_of l)" using that cal by auto
    show "0 \<notin> set (plural v l)" "0 \<notin> set (two_digits v)"
      using vl digits [OF vl(1)] labels by (simp_all add: plural_def two_digits_def)
  qed
  have "\<forall>x\<in>set (map (\<lambda>(v, l). plural v l) (without_zeros (calendar n))). 0 \<notin> set x"
    using sub [of "calendar n"] each(1) by auto
  moreover have "set (without_zeros (take 2 (calendar n)) @ drop 2 (calendar n)) \<subseteq> set (calendar n)"
    using sub [of "take 2 (calendar n)"] by (auto dest: in_set_takeD in_set_dropD)
  then have "\<forall>x\<in>set (map (two_digits \<circ> fst) (without_zeros (take 2 (calendar n)) @ drop 2 (calendar n))). 0 \<notin> set x"
    using each(2) by auto
  ultimately show ?thesis using labels joined by (cases longfmt) (simp_all add: duration_text_def)
qed

lemma loop_calendar:
  assumes "0 \<le> n"
  shows "loop_text True (rev duration_units) 86400 n False = duration_text True n"
    "(if n < 60 then bytes_of ''00:'' else []) @ (if n < 1 then bytes_of ''00'' else []) @
       loop_text False (rev duration_units) 86400 n False = duration_text False n"
proof -
  have days: "86400 \<le> n \<longleftrightarrow> n div 86400 \<noteq> 0" using assms by (auto simp: zdiv_eq_0_iff)
  have h: "n div 3600 mod 24 = n div 3600" "n div 86400 = 0" if "n < 86400"
    using that assms by (simp_all add: mod_pos_pos_trivial div_less_iff_less_mult div_pos_pos_trivial)
  have m: "n div 60 mod 60 = n div 60" "n div 3600 = 0" "n mod 3600 = n" if "n < 3600"
    using that assms by (simp_all add: mod_pos_pos_trivial div_pos_pos_trivial)
  have s: "n mod 60 = n" "n div 60 = 0" if "n < 60" using that assms by (simp_all add: mod_pos_pos_trivial div_pos_pos_trivial)
  have p: "n div 3600 \<noteq> 0" if "3600 \<le> n" using that by (auto simp: zdiv_eq_0_iff)
  have q: "n div 60 \<noteq> 0" if "60 \<le> n" using that by (auto simp: zdiv_eq_0_iff)
  note defs = duration_units_def duration_text_def calendar_def without_zeros_def div_twice
  consider "86400 \<le> n" | "3600 \<le> n" "n < 86400" | "60 \<le> n" "n < 3600" | "1 \<le> n" "n < 60" | "n = 0" using assms by linarith
  note range = this
  from range show "loop_text True (rev duration_units) 86400 n False = duration_text True n"
  proof cases
    case 1
    then show ?thesis using days by (simp add: defs)
  next
    case 2
    then show ?thesis using h p by (simp add: defs)
  next
    case 3
    then show ?thesis using h m q by (simp add: defs)
  next
    case 4
    then show ?thesis using h m s by (simp add: defs)
  next
    case 5
    then show ?thesis by (simp add: defs)
  qed
  show "(if n < 60 then bytes_of ''00:'' else []) @ (if n < 1 then bytes_of ''00'' else []) @
       loop_text False (rev duration_units) 86400 n False = duration_text False n"
  proof -
    have z: "bytes_of ''00:'' = two_digits 0 @ bytes_of '':''" "bytes_of ''00'' = two_digits 0" by code_simp+
    from range show ?thesis
    proof cases
      case 1
      then show ?thesis using days by (simp add: defs z)
    next
      case 2
      then show ?thesis using h p by (simp add: defs z)
    next
      case 3
      then show ?thesis using h m q by (simp add: defs z)
    next
      case 4
      then show ?thesis using h m s by (simp add: defs z)
    next
      case 5
      then show ?thesis by (simp add: defs z)
    qed
  qed
qed


text \<open>
  C34. The text of a duration, in both formats and for any duration whose days fit an \<open>int\<close>, is that of its whole days, hours,
  minutes and seconds as the calendar counts them, provided the buffer has room for it; nothing else is written.
\<close>

theorem duration_printed:
  assumes "0 \<le> dur" "\<lfloor>dur\<rfloor> < 2 ^ 31 * 86400" "int (length (duration_text longfmt \<lfloor>dur\<rfloor>)) < len" "len \<le> int (length buf)"
  shows "\<exists>buf'. readable_duration dur buf len longfmt = Some buf' \<and> cstr buf' = duration_text longfmt \<lfloor>dur\<rfloor> \<and>
    length buf' = length buf"
proof -
  let ?n = "\<lfloor>dur\<rfloor>"
  obtain x r where buf: "buf = x # r" using assms(3,4) by (cases buf) auto
  have 0: "wr8 buf 0 0 = Some (0 # r)" by (simp add: buf wr8_def mem_put_def)
  let ?a = "if \<not> longfmt \<and> dur < 60 then bytes_of ''00:'' else []" and ?b = "if \<not> longfmt \<and> dur < 1 then bytes_of ''00'' else []"
  let ?l = "loop_text longfmt (rev duration_units) 86400 ?n False"
  have whole: "?a @ ?b @ ?l = duration_text longfmt ?n" using loop_calendar [of ?n] assms(1) by (cases longfmt) (simp_all add: floor_less_iff)
  have len: "int (length (?a @ ?b @ ?l)) < len" unfolding whole by (rule assms(3))
  have "printed (length buf) len [] (0 # r, 0, len)" by (simp add: printed_def buf)
  moreover have "int (length ([] @ ?a)) < len" using len by simp
  ultimately obtain st1 where 1: "(if \<not> longfmt \<and> dur < 60 then print_on (bytes_of ''00:'') (0 # r, 0, len) else Some (0 # r, 0, len)) = Some st1"
      "printed (length buf) len ([] @ ?a) st1" using print_if assms(4) by blast
  have "int (length (([] @ ?a) @ ?b)) < len" using len by simp
  then obtain st2 where 2: "(if \<not> longfmt \<and> dur < 1 then print_on (bytes_of ''00'') st1 else Some st1) = Some st2"
      "printed (length buf) len (([] @ ?a) @ ?b) st2" using print_if [OF 1(2)] assms(4) by blast
  have fit: "units_fit (rev duration_units) 86400" by (simp add: duration_units_def)
  obtain st3 where 3: "duration_loop longfmt (rev duration_units) 86400 dur False st2 = Some st3"
      "printed (length buf) len ((([] @ ?a) @ ?b) @ ?l) st3"
  proof -
    have "int (length ((([] @ ?a) @ ?b) @ ?l)) < len" using len by (simp only: append_assoc append_Nil)
    from duration_loop_text [OF 2(2) assms(4) fit assms(1,2) this] that show thesis by (auto simp only: of_int_numeral)
  qed
  have unit: "of_int (prod_list (map fst duration_units)) = (86400 :: real)" by (simp add: duration_units_def)
  have "readable_duration dur buf len longfmt = Some (fst st3)"
    by (simp only: readable_duration_def 0 Option.bind.simps unit Let_def 1(1) 2(1) 3(1))
  moreover obtain R where "fst st3 = duration_text longfmt ?n @ 0 # R" "length (fst st3) = length buf"
    using 3(2) unfolding append_assoc append_Nil whole by (cases st3) (auto simp: printed_def)
  ultimately show ?thesis using text_nonzero assms(1) by (auto simp: cstr_def takeWhile_append)
qed

lemma duration_printed_witness:
  "\<exists>buf'. readable_duration (7451 / 2) (replicate 20 7) 20 False = Some buf' \<and> cstr buf' = bytes_of ''01:02:05'' \<and> length buf' = 20"
proof -
  have t: "duration_text False 3725 = bytes_of ''01:02:05''" by code_simp
  have f: "\<lfloor>7451 / 2 :: real\<rfloor> = 3725" by (rule floor_eq) simp_all
  have "length (bytes_of ''01:02:05'') = 8" by code_simp
  then show ?thesis using duration_printed [of "7451 / 2" False 20 "replicate 20 7"] unfolding f t by simp
qed

text \<open>A number between a billionth and a thousand billions is printed with one to three digits before the point.\<close>

lemma metric_scaled:
  assumes "1 / 10 ^ 9 \<le> \<bar>x\<bar>" "\<bar>x\<bar> < 10 ^ 15"
  shows "case metric_unit \<bar>x\<bar> metric_units of Some (m, l) \<Rightarrow> 1 \<le> \<bar>x\<bar> / m \<and> \<bar>x\<bar> / m < 1000 | None \<Rightarrow> False"
  using assms by (auto simp: metric_units_def)

end
