(* ===== verification/Update.thy ===== *)
theory Update
  imports HttpReq Vercmp Readable
begin

text \<open>
  \<open>update.c\<close>: looking for a newer version, asking whether to install it, downloading and installing it. The callback \<open>func\<close>
  works on a state of its own and on the record \<open>update_t\<close>, which it may change (but for the callback itself). The XML
  parser, the network, the clock, the file that is written and the programs that are started are parameters; what is done
  with them is a log. \<open>None\<close> is a null pointer or an access outside a buffer.
\<close>

datatype update_state_t =
  UPDATE_STATE_INIT | UPDATE_STATE_ERROR | UPDATE_STATE_ASK | UPDATE_STATE_DOWNLOAD | UPDATE_STATE_PROGRESS
  | UPDATE_STATE_INSTALL | UPDATE_STATE_UPDATED

datatype update_error_t = UPDATE_ERROR_NONE | UPDATE_ERROR_FILE_NOT_FOUND | UPDATE_ERROR_FILE_BAD

record 'x update_t =
  ud_new_xml_url :: "byte list option"
  ud_state :: update_state_t
  ud_error :: update_error_t
  ud_error_msg :: "byte list"
  ud_old_xml :: "'x option"
  ud_old_ver :: "byte list option"
  ud_new_xml :: "'x option"
  ud_new_ver :: "byte list option"
  ud_new_product :: "byte list option"
  ud_cmp_newer :: bool
  ud_new_details :: "byte list option"
  ud_new_url :: "byte list option"
  ud_new_path :: mem
  ud_prog_time_start :: real
  ud_prog_time_update :: real
  ud_prog_time_interval :: real
  ud_prog_percent :: int
  ud_prog_remain :: int
  ud_prog_remain_buf :: "byte list"
  ud_prog_msg :: "byte list"

definition update_zero :: "'x update_t" where
  "update_zero =
     \<lparr>ud_new_xml_url = None, ud_state = UPDATE_STATE_INIT, ud_error = UPDATE_ERROR_NONE, ud_error_msg = [], ud_old_xml = None,
      ud_old_ver = None, ud_new_xml = None, ud_new_ver = None, ud_new_product = None, ud_cmp_newer = False, ud_new_details = None,
      ud_new_url = None, ud_new_path = replicate 2048 0, ud_prog_time_start = 0, ud_prog_time_update = 0,
      ud_prog_time_interval = 0, ud_prog_percent = 0, ud_prog_remain = 0, ud_prog_remain_buf = [], ud_prog_msg = []\<rparr>"

text \<open>What happens outside: the callback is asked, the file is opened, written and closed, programs are run and started.\<close>

datatype upd_act =
  Asked update_state_t int | Opened "byte list" | Wrote "byte list" | Closed | Ran "byte list" | Chdir "byte list" | Started "byte list"

text \<open>The parameters; \<open>sy_buf\<close> and \<open>sy_hdr\<close> are what the uninitialised variables of \<open>http_get\<close> hold.\<close>

record 'x sys =
  sy_xml_parse :: "byte list \<Rightarrow> 'x option"
  sy_xml_find_val :: "'x \<Rightarrow> byte list \<Rightarrow> byte list option"
  sy_net :: "byte list \<Rightarrow> net"
  sy_fs :: fs
  sy_buf :: mem
  sy_hdr :: http_header
  sy_clock :: "nat \<Rightarrow> real"
  sy_fopen :: "byte list \<Rightarrow> bool"
  sy_fwrite :: "byte list \<Rightarrow> nat"
  sy_run :: "byte list \<Rightarrow> int"
  sy_start :: "byte list \<Rightarrow> int"
  sy_chdir :: "byte list \<Rightarrow> int"
  sy_stat :: "byte list \<Rightarrow> bool"

record ('w, 'x) upd =
  uw_up :: "'x update_t"
  uw_world :: 'w
  uw_log :: "upd_act list"
  uw_ticks :: nat
  uw_buf :: "byte list"
  uw_len :: nat

type_synonym ('w, 'x) update_func = "'w \<Rightarrow> 'x update_t \<Rightarrow> 'w \<times> 'x update_t \<times> int"

definition upd_log :: "upd_act \<Rightarrow> ('w, 'x) upd \<Rightarrow> ('w, 'x) upd" where
  "upd_log a w = w\<lparr>uw_log := uw_log w @ [a]\<rparr>"

definition set_up :: "('x update_t \<Rightarrow> 'x update_t) \<Rightarrow> ('w, 'x) upd \<Rightarrow> ('w, 'x) upd" where
  "set_up f w = w\<lparr>uw_up := f (uw_up w)\<rparr>"

text \<open>\<open>up->state = s; i = up->func(up)\<close>\<close>

definition call_func :: "('w, 'x) update_func \<Rightarrow> update_state_t \<Rightarrow> ('w, 'x) upd \<Rightarrow> ('w, 'x) upd \<times> int" where
  "call_func func s w =
     (let (x, up, i) = func (uw_world w) ((uw_up w)\<lparr>ud_state := s\<rparr>)
      in (upd_log (Asked s i) (w\<lparr>uw_world := x, uw_up := up\<rparr>), i))"

definition set_error :: "update_error_t \<Rightarrow> ('w, 'x) upd \<Rightarrow> ('w, 'x) upd" where
  "set_error e = set_up (\<lambda>up. up\<lparr>ud_error := e\<rparr>)"

text \<open>\<open>mstime()\<close>\<close>

definition tick :: "'x sys \<Rightarrow> ('w, 'x) upd \<Rightarrow> ('w, 'x) upd \<times> real" where
  "tick sys w = (w\<lparr>uw_ticks := uw_ticks w + 1\<rparr>, sy_clock sys (uw_ticks w))"

section \<open>The callbacks of the two downloads\<close>

definition UPDATE_BUF :: nat where "UPDATE_BUF = 65536"

text \<open>A piece for which the buffer has no room is passed over: \<open>assertb\<close> leaves the \<open>switch\<close> when \<open>err\<close> is zero.\<close>

definition http_req_buf :: "('w, 'x) update_func \<Rightarrow> ('w, 'x) upd http_req_func" where
  "http_req_buf func w req d =
     (case req_state req of
        HTTP_REQ_ERROR \<Rightarrow> (set_error UPDATE_ERROR_NONE (fst (call_func func UPDATE_STATE_ERROR w)), - 1)
      | HTTP_REQ_BODY \<Rightarrow> (if length d + length (uw_buf w) < UPDATE_BUF then w\<lparr>uw_buf := uw_buf w @ d\<rparr> else w, 0)
      | _ \<Rightarrow> (w, 0))"

definition to_zero :: "real \<Rightarrow> int" where "to_zero x = (if 0 \<le> x then \<lfloor>x\<rfloor> else \<lceil>x\<rceil>)"

text \<open>The remaining time as text, from the percentage that is done; \<open>readable_duration\<close> fills a buffer of 1024 bytes.\<close>

definition progress_text :: "int \<Rightarrow> int \<Rightarrow> byte list" where
  "progress_text percent remain =
     bytes_of (dec_int percent) @ bytes_of ''% complete, '' @
     (case readable_duration (of_int remain) (replicate 1024 0) 1024 True of Some m \<Rightarrow> cstr m | None \<Rightarrow> []) @ bytes_of '' remaining''"

definition set_progress :: "real \<Rightarrow> nat \<Rightarrow> u64 \<Rightarrow> 'x update_t \<Rightarrow> 'x update_t" where
  "set_progress t len content_len up =
     (let up = up\<lparr>ud_prog_time_update := t\<rparr>;
          up = (if content_len > 0 then up\<lparr>ud_prog_percent := to_i32 (int (100 * len) mod 2 ^ 64 div uint content_len)\<rparr> else up);
          up = up\<lparr>ud_prog_remain_buf := []\<rparr>
      in if ud_prog_percent up > 0
         then (let r = to_i32 (to_zero ((t - ud_prog_time_start up) * (100 / of_int (ud_prog_percent up) - 1)))
           in up\<lparr>ud_prog_remain := r, ud_prog_remain_buf := cut 1024 (progress_text (ud_prog_percent up) r)\<rparr>)
         else up)"

definition http_req_prog :: "'x sys \<Rightarrow> ('w, 'x) update_func \<Rightarrow> ('w, 'x) upd http_req_func" where
  "http_req_prog sys func w req d =
     (case req_state req of
        HTTP_REQ_ERROR \<Rightarrow> (set_error UPDATE_ERROR_NONE (fst (call_func func UPDATE_STATE_ERROR w)), - 1)
      | HTTP_REQ_BODY \<Rightarrow>
          (let w = upd_log (Wrote (take (sy_fwrite sys d) d)) w
           in if sy_fwrite sys d < length d then (w, 0)
              else let w = w\<lparr>uw_len := uw_len w + length d\<rparr>; (w, t) = tick sys w
                in if t - ud_prog_time_update (uw_up w) > ud_prog_time_interval (uw_up w)
                   then call_func func UPDATE_STATE_PROGRESS (set_up (set_progress t (uw_len w) (h_content_len (reply_hdr req))) w)
                   else (w, 0))
      | _ \<Rightarrow> (w, 0))"

section \<open>The steps of \<open>update\<close>\<close>

text \<open>
  A step gives the value of \<open>err\<close> with which it leaves the \<open>do\<close> block, or nothing when it goes on; \<open>assertb\<close> leaves it with
  \<open>- 1\<close>.
\<close>

type_synonym ('w, 'x) step = "(('w, 'x) upd \<times> int option) option"

definition go_on :: "('w, 'x) step \<Rightarrow> (('w, 'x) upd \<Rightarrow> ('w, 'x) step) \<Rightarrow> ('w, 'x) step" where
  "go_on s f = do { (w, r) \<leftarrow> s; case r of None \<Rightarrow> f w | Some e \<Rightarrow> Some (w, Some e) }"

text \<open>\<open>i = up->func(up); if( i ) { err = i; break; }\<close>\<close>

definition ask :: "('w, 'x) update_func \<Rightarrow> update_state_t \<Rightarrow> ('w, 'x) upd \<Rightarrow> ('w, 'x) step" where
  "ask func s w = (let (w, i) = call_func func s w in Some (w, if i = 0 then None else Some i))"

definition msg_read :: "byte list" where
  "msg_read = bytes_of (''There was an error reading the version information'' @
     '' for your product.  Please check the website for the'' @ '' latest updates.'')"

definition msg_info :: "byte list" where
  "msg_info = bytes_of (''There was an error downloading the update information'' @ '' for your product.  Please check again later.'')"

definition msg_download :: "byte list" where
  "msg_download = bytes_of (''There was an error downloading the new version'' @ '' of your product.  Please try again later.'')"

definition msg_install :: "byte list" where
  "msg_install = bytes_of (''There was an error installing the new version'' @ '' of your product.  Please try again later.'')"

definition read_old :: "'x sys \<Rightarrow> byte list \<Rightarrow> ('w, 'x) upd \<Rightarrow> ('w, 'x) step" where
  "read_old sys xml w =
     (let w = set_up (\<lambda>up. up\<lparr>ud_error := UPDATE_ERROR_FILE_BAD, ud_error_msg := msg_read\<rparr>) w in
      case sy_xml_parse sys xml of None \<Rightarrow> Some (w, Some (- 1))
      | Some x \<Rightarrow>
          (let ver = sy_xml_find_val sys x (bytes_of ''/version/version'');
               w = set_up (\<lambda>up. up\<lparr>ud_old_xml := Some x, ud_old_ver := ver\<rparr>) w
           in if ver = None then Some (w, Some (- 1))
              else (let url = sy_xml_find_val sys x (bytes_of ''/version/version_url'')
                in Some (set_up (\<lambda>up. up\<lparr>ud_new_xml_url := url\<rparr>) w, if url = None then Some (- 1) else None))))"

text \<open>What the new description says; the result of \<open>url_parse\<close> is never negative.\<close>

definition read_values :: "'x sys \<Rightarrow> 'x \<Rightarrow> ('w, 'x) upd \<Rightarrow> ('w, 'x) step" where
  "read_values sys x w =
     (let val = (\<lambda>k. sy_xml_find_val sys x (bytes_of k));
          w = set_up (\<lambda>up. up\<lparr>ud_new_xml := Some x, ud_new_ver := val ''/version/version''\<rparr>) w
      in if val ''/version/version'' = None then Some (w, Some (- 1))
         else (let w = set_up (\<lambda>up. up\<lparr>ud_new_product := val ''/version/product''\<rparr>) w
           in if val ''/version/product'' = None then Some (w, Some (- 1))
              else (let w = set_up (\<lambda>up. up\<lparr>ud_new_details := val ''/version/update_details''\<rparr>) w
                in if val ''/version/update_details'' = None then Some (w, Some (- 1))
                   else do {
                     s \<leftarrow> val ''/version/install_url'';
                     (url, i) \<leftarrow> url_parse (s @ [0]);
                     path \<leftarrow> u_path url;
                     name \<leftarrow> dir_basename (cstr path) 2048;
                     Some (set_up (\<lambda>up. up\<lparr>ud_new_url := Some s, ud_new_path := name\<rparr>) w, None)
                   })))"

definition read_new :: "'x sys \<Rightarrow> ('w, 'x) update_func \<Rightarrow> ('w, 'x) upd \<Rightarrow> ('w, 'x) step" where
  "read_new sys func w =
     do {
       let w = set_up (\<lambda>up. up\<lparr>ud_error_msg := msg_info, ud_error := UPDATE_ERROR_FILE_NOT_FOUND\<rparr>) w;
       url \<leftarrow> ud_new_xml_url (uw_up w);
       (w, i) \<leftarrow> http_get (sy_fs sys) (sy_net sys url) (sy_buf sys) (sy_hdr sys) (url @ [0]) (http_req_buf func) (w\<lparr>uw_buf := []\<rparr>);
       if i < 0 then Some (w, Some (- 1))
       else do {
         let w = set_error UPDATE_ERROR_FILE_BAD w;
         case sy_xml_parse sys (uw_buf w) of None \<Rightarrow> Some (w, Some (- 1)) | Some x \<Rightarrow> read_values sys x w
       }
     }"

definition ask_update :: "('w, 'x) update_func \<Rightarrow> ('w, 'x) upd \<Rightarrow> ('w, 'x) step" where
  "ask_update func w =
     do {
       old \<leftarrow> ud_old_ver (uw_up w);
       new \<leftarrow> ud_new_ver (uw_up w);
       product \<leftarrow> ud_new_product (uw_up w);
       ask func UPDATE_STATE_ASK (set_up (\<lambda>up. up\<lparr>ud_error := UPDATE_ERROR_NONE, ud_cmp_newer := vercmp old new < 0,
         ud_prog_msg := cut 4096 (bytes_of ''A newer version of '' @ product @
           bytes_of '' is available.  Would you like to install it now?'')\<rparr>) w)
     }"

definition start_download :: "'x sys \<Rightarrow> ('w, 'x) update_func \<Rightarrow> ('w, 'x) upd \<Rightarrow> ('w, 'x) step" where
  "start_download sys func w =
     (let (w, t) = tick sys w
      in ask func UPDATE_STATE_DOWNLOAD (set_up (\<lambda>up. up\<lparr>ud_prog_msg := bytes_of ''Downloading file...'',
           ud_prog_time_interval := 1 / 5, ud_prog_time_start := t\<rparr>) w))"

definition download :: "'x sys \<Rightarrow> ('w, 'x) update_func \<Rightarrow> ('w, 'x) upd \<Rightarrow> ('w, 'x) step" where
  "download sys func w =
     do {
       let w = set_up (\<lambda>up. up\<lparr>ud_error := UPDATE_ERROR_FILE_NOT_FOUND, ud_error_msg := msg_download\<rparr>) w;
       path \<leftarrow> string_at (ud_new_path (uw_up w)) 0;
       if \<not> sy_fopen sys path then Some (w, Some (- 1))
       else do {
         url \<leftarrow> ud_new_url (uw_up w);
         (w, i) \<leftarrow> http_get (sy_fs sys) (sy_net sys url) (sy_buf sys) (sy_hdr sys) (url @ [0]) (http_req_prog sys func)
           (upd_log (Opened path) (w\<lparr>uw_len := 0\<rparr>));
         let w = upd_log Closed w;
         Some (if i = 0 then (w, None) else (if i > 0 then set_error UPDATE_ERROR_NONE w else w, Some i))
       }
     }"

definition run_prog :: "('x sys \<Rightarrow> byte list \<Rightarrow> int) \<Rightarrow> (byte list \<Rightarrow> upd_act) \<Rightarrow> 'x sys \<Rightarrow> byte list \<Rightarrow> ('w, 'x) upd \<Rightarrow> ('w, 'x) upd \<times> int" where
  "run_prog f a sys s w = (upd_log (a s) w, f sys s)"

text \<open>An archive is unpacked and its script is started; what starting gave is overwritten by the last \<open>chdir\<close>.\<close>

definition install_tar :: "'x sys \<Rightarrow> byte list \<Rightarrow> ('w, 'x) upd \<Rightarrow> ('w, 'x) upd \<times> int" where
  "install_tar sys path w =
     (let (w, i) = run_prog sy_run Ran sys (cut 65536 (bytes_of ''tar zxf '' @ [39] @ path @ [39])) w
      in if i < 0 then (w, i)
         else let dir = take (length path - 7) path;
                  w = set_up (\<lambda>up. up\<lparr>ud_new_path := (ud_new_path up)[length path - 7 := 0]\<rparr>) w;
                  (w, i) = run_prog sy_chdir Chdir sys dir w
           in if i < 0 then (w, i)
              else let (w, i) =
                     (if sy_stat sys (bytes_of ''INSTALL.sh'') then run_prog sy_start Started sys (bytes_of ''sh ./INSTALL.sh'') w
                      else if sy_stat sys (bytes_of ''install.sh'') then run_prog sy_start Started sys (bytes_of ''sh ./install.sh'') w
                      else (w, i))
                in run_prog sy_chdir Chdir sys (bytes_of ''..'') w)"

definition install :: "'x sys \<Rightarrow> ('w, 'x) update_func \<Rightarrow> ('w, 'x) upd \<Rightarrow> ('w, 'x) step" where
  "install sys func w =
     do {
       let w = set_up (\<lambda>up. up\<lparr>ud_error := UPDATE_ERROR_FILE_BAD, ud_error_msg := msg_install\<rparr>) w;
       path \<leftarrow> string_at (ud_new_path (uw_up w)) 0;
       if length path < 7 then None
       else do {
         let (w, i) = (if map tolower (drop (length path - 7) path) = bytes_of ''.tar.gz'' then install_tar sys path w
           else run_prog sy_start Started sys (cut 65536 ([34] @ bytes_of ''./'' @ path @ [34])) w);
         if i < 0 then Some (w, Some (- 1))
         else (let (w, i) = call_func func UPDATE_STATE_UPDATED (set_error UPDATE_ERROR_NONE w) in Some (w, Some i))
       }
     }"

text \<open>\<open>old_xml_buf\<close> is a string; the result is that of \<open>update\<close>.\<close>

definition update :: "'x sys \<Rightarrow> ('w, 'x) update_func \<Rightarrow> byte list \<Rightarrow> 'w \<Rightarrow> (('w, 'x) upd \<times> int) option" where
  "update sys func old_xml_buf x =
     do {
       let w = \<lparr>uw_up = update_zero, uw_world = x, uw_log = [], uw_ticks = 0, uw_buf = [], uw_len = 0\<rparr>;
       (w, r) \<leftarrow> go_on (read_old sys old_xml_buf w) (\<lambda>w. go_on (read_new sys func w) (\<lambda>w. go_on (ask_update func w)
         (\<lambda>w. go_on (start_download sys func w) (\<lambda>w. go_on (download sys func w) (\<lambda>w. go_on (ask func UPDATE_STATE_INSTALL w)
           (install sys func))))));
       let err = (case r of None \<Rightarrow> - 1 | Some e \<Rightarrow> e);
       Some (if ud_error (uw_up w) = UPDATE_ERROR_NONE then (w, err) else call_func func UPDATE_STATE_ERROR w)
     }"

section \<open>The callback on the terminal\<close>

text \<open>
  The answers are the lines of the standard input, the result with the number of lines read; when they are used up the
  last one is answered again and again, which is \<open>None\<close>. Printing is left out.
\<close>

fun ask_stdio :: "byte list list \<Rightarrow> (int \<times> byte list list) option" where
  "ask_stdio [] = None"
| "ask_stdio (l # ls) =
     (let c = tolower (case l of [] \<Rightarrow> 0 | c # _ \<Rightarrow> c)
      in if c = 121 then Some (0, ls) else if c = 110 then Some (- 1, ls) else ask_stdio ls)"

definition update_func_stdio :: "byte list list \<Rightarrow> 'x update_t \<Rightarrow> (byte list list \<times> int) option" where
  "update_func_stdio ls up =
     (if ud_state up = UPDATE_STATE_ASK
      then (if \<not> ud_cmp_newer up then Some (ls, 1) else map_option (\<lambda>(i, ls). (ls, i)) (ask_stdio ls))
      else Some (ls, 0))"

end
