(* ===== verification/HttpCall.thy ===== *)
theory HttpCall
  imports HttpReq
begin

text \<open>
  What \<open>http_get\<close> promises its callback: it goes on as long as the answers are zero, it ends with the first answer that is
  not, and whatever went wrong it reports at most once, as the last call. The locale states this for a client as a rule:
  \<open>I\<close> holds of the state of the callback while everything is answered with zero, \<open>J\<close> after the first other answer, \<open>K\<close> after the report.
\<close>

definition answered :: "('w \<Rightarrow> bool) \<Rightarrow> ('w \<Rightarrow> int \<Rightarrow> bool) \<Rightarrow> 'w get_t \<Rightarrow> bool" where
  "answered I J st \<longleftrightarrow> (if g_err st = 0 then I (g_world st) else J (g_world st) (g_err st))"

text \<open>Nothing was asked yet, or the last answer is known.\<close>

definition asked :: "('w \<Rightarrow> bool) \<Rightarrow> ('w \<Rightarrow> int \<Rightarrow> bool) \<Rightarrow> 'w get_t \<Rightarrow> bool" where
  "asked I J st \<longleftrightarrow> answered I J st \<or> I (g_world st) \<and> g_req_err st \<noteq> HTTP_REQ_ERROR_NONE"

lemma if_disj: "(if a \<or> b then x else y) = (if a then x else if b then x else y)"
  by simp

locale http_callback =
  fixes func :: "'w http_req_func" and I :: "'w \<Rightarrow> bool" and J :: "'w \<Rightarrow> int \<Rightarrow> bool" and K :: "'w \<Rightarrow> int \<Rightarrow> bool"
  assumes going: "I w \<Longrightarrow> req_state req \<noteq> HTTP_REQ_ERROR \<Longrightarrow> func w req d = (w', 0) \<Longrightarrow> I w'"
    and stopped: "I w \<Longrightarrow> req_state req \<noteq> HTTP_REQ_ERROR \<Longrightarrow> func w req d = (w', i) \<Longrightarrow> i \<noteq> 0 \<Longrightarrow> J w' i"
    and failed: "I w \<or> (\<exists>j. J w j) \<Longrightarrow> req_state req = HTTP_REQ_ERROR \<Longrightarrow> func w req d = (w', i) \<Longrightarrow> K w' i"
begin

lemma notify_answered:
  assumes "I (g_world st)" "s \<noteq> HTTP_REQ_ERROR"
  shows "answered I J (notify func s d st) \<and> g_req_err (notify func s d st) = g_req_err st"
proof -
  let ?req = "(g_req st)\<lparr>req_state := s, reply_hdr := g_http st\<rparr>"
  obtain w i where f: "func (g_world st) ?req d = (w, i)" by (cases "func (g_world st) ?req d")
  have n: "g_world (notify func s d st) = w" "g_err (notify func s d st) = i" "g_req_err (notify func s d st) = g_req_err st"
    using f by (simp_all add: notify_def Let_def)
  have s: "req_state ?req \<noteq> HTTP_REQ_ERROR" using assms(2) by simp
  show ?thesis
  proof (cases "i = 0")
    case True
    with going [OF assms(1) s] f have "I w" by simp
    with True n show ?thesis by (simp add: answered_def)
  next
    case False
    with stopped [OF assms(1) s f] n show ?thesis by (simp add: answered_def)
  qed
qed

lemma print_notify_answered:
  assumes "I (g_world st)" "s \<noteq> HTTP_REQ_ERROR" "print_notify func s t st = Some st'"
  shows "answered I J st' \<and> g_req_err st' = g_req_err st"
proof -
  obtain buf d where "st' = notify func s d (st\<lparr>g_buf := buf\<rparr>)" using assms(3) by (auto simp: print_notify_def split: bind_splits)
  then show ?thesis using notify_answered [of "st\<lparr>g_buf := buf\<rparr>" s d] assms(1,2) by simp
qed

lemma get_head_answered:
  assumes "I (g_world st)" "g_err st = 0" "get_head func st = Some (t, st')"
  shows "answered I J st' \<and> (t \<noteq> Stop \<longrightarrow> g_err st' = 0)"
proof (cases "g_got_header st")
  case True
  then show ?thesis using assms by (auto simp: get_head_def answered_def)
next
  case False
  obtain h0 x0 where hi: "http_header_init None (Some (g_pool st)) = (h0, x0)" by (cases "http_header_init None (Some (g_pool st))")
  obtain http i where p: "http_header_parse h0 (g_buf st) (g_len st) = Some (http, i)"
    using assms(3) False hi by (auto simp: get_head_def split: bind_splits)
  let ?st = "st\<lparr>g_http := http, g_pool := g_pool st + 1\<rparr>"
  let ?hl = "uint (h_header_len http)"
  let ?st1 = "?st\<lparr>g_got_header := True, g_req := (g_req ?st)\<lparr>reply_max := to_i32 (uint (h_content_len http))\<rparr>\<rparr>"
  consider "i < 0" | "i = 0" | "0 < i" by linarith
  then show ?thesis
  proof cases
    case 1
    then have "st' = ?st\<lparr>g_req_err := HTTP_REQ_ERROR_BAD_RESPONSE\<rparr>" "t = Stop"
      using assms(3) by (auto simp: get_head_def False hi p)
    then show ?thesis using assms(1,2) by (simp add: answered_def)
  next
    case 2
    then have "st' = ?st" using assms(3) by (auto simp: get_head_def False hi p)
    then show ?thesis using assms(1,2) by (simp add: answered_def)
  next
    case 3
    then obtain d where d: "slice (g_buf ?st1) 0 ?hl = Some d"
      using assms(3) by (auto simp: get_head_def Let_def False hi p split: bind_splits)
    let ?st2 = "notify func HTTP_REQ_HEAD d ?st1"
    have a: "answered I J ?st2" using notify_answered [of ?st1 HTTP_REQ_HEAD d] assms(1) by simp
    have h: "get_head func st = (if g_err ?st2 \<noteq> 0 then Some (Stop, ?st2)
        else do {
          let st = ?st2\<lparr>g_len := g_len ?st2 - nat ?hl\<rparr>;
          buf \<leftarrow> (if g_len st > 0 then mem_move (g_buf st) 0 ?hl (int (g_len st)) else Some (g_buf st));
          Some (Body, st\<lparr>g_buf := buf\<rparr>)
        })"
      using 3 d by (simp add: get_head_def Let_def False hi p)
    show ?thesis
    proof (cases "g_err ?st2 = 0")
      case True
      then obtain buf where "st' = ?st2\<lparr>g_len := g_len ?st2 - nat ?hl, g_buf := buf\<rparr>"
        using assms(3) unfolding h by (auto simp: Let_def split: bind_splits)
      then show ?thesis using a True by (simp add: answered_def)
    next
      case F: False
      then have "st' = ?st2" "t = Stop" using assms(3) unfolding h by simp_all
      then show ?thesis using a by simp
    qed
  qed
qed

lemma get_body_answered:
  assumes "I (g_world st)" "get_body func st = Some (t, st')"
  shows "answered I J st' \<and> (t = Again \<longrightarrow> g_err st' = 0)"
proof -
  let ?st = "st\<lparr>g_req := (g_req st)\<lparr>reply_len := reply_len (g_req st) + int (g_len st)\<rparr>\<rparr>"
  obtain d where d: "st' = (notify func HTTP_REQ_BODY d ?st)\<lparr>g_len := 0\<rparr>" "t = (if g_err st' \<noteq> 0 then Stop else Again)"
    using assms(2) by (auto simp: get_body_def Let_def split: bind_splits)
  have "answered I J (notify func HTTP_REQ_BODY d ?st)" using notify_answered [of ?st HTTP_REQ_BODY d] assms(1) by simp
  then show ?thesis using d by (simp add: answered_def)
qed

lemma get_turn_answered:
  assumes "I (g_world st)" "g_err st = 0" "get_turn func st = Some (t, st')"
  shows "answered I J st' \<and> (t = Again \<longrightarrow> g_err st' = 0)"
proof (cases "g_len st < GET_BUF")
  case False
  then show ?thesis using assms by (auto simp: get_turn_def answered_def)
next
  case True
  obtain r rest where rr: "sock_recv (g_in st) (GET_BUF - g_len st) = (r, rest)" by (cases "sock_recv (g_in st) (GET_BUF - g_len st)")
  let ?st = "st\<lparr>g_in := rest\<rparr>"
  show ?thesis
  proof (cases r)
    case None
    then show ?thesis using assms True rr by (auto simp: get_turn_def answered_def)
  next
    case (Some d)
    show ?thesis
    proof (cases "d = []")
      case True
      then have "st' = notify func HTTP_REQ_EOF [] ?st" "t = Stop"
        using assms(3) \<open>g_len st < GET_BUF\<close> rr Some by (auto simp: get_turn_def Let_def)
      then show ?thesis using notify_answered [of ?st HTTP_REQ_EOF "[]"] assms(1) by simp
    next
      case F: False
      obtain buf t1 st1 where h: "get_head func (?st\<lparr>g_buf := buf, g_len := g_len ?st + length d\<rparr>) = Some (t1, st1)"
          "(if t1 = Body then get_body func st1 else Some (t1, st1)) = Some (t, st')"
        using assms(3) True rr Some F by (auto simp: get_turn_def Let_def split: bind_splits prod.splits)
      have a: "answered I J st1 \<and> (t1 \<noteq> Stop \<longrightarrow> g_err st1 = 0)" using get_head_answered [OF _ _ h(1)] assms(1,2) by simp
      show ?thesis
      proof (cases "t1 = Body")
        case True
        then have "I (g_world st1)" using a by (simp add: answered_def)
        from get_body_answered [OF this] h(2) True show ?thesis by simp
      next
        case False
        then show ?thesis using a h(2) by auto
      qed
    qed
  qed
qed

lemma get_loop_answered:
  "I (g_world st) \<Longrightarrow> g_err st = 0 \<Longrightarrow> get_loop k func st = Some st' \<Longrightarrow> answered I J st'"
proof (induction k arbitrary: st)
  case (Suc k)
  obtain t st1 where t: "get_turn func st = Some (t, st1)" "(if t = Again then get_loop k func st1 else Some st1) = Some st'"
    using Suc.prems(3) by (auto split: bind_splits prod.splits)
  note a = get_turn_answered [OF Suc.prems(1,2) t(1)]
  show ?case
  proof (cases "t = Again")
    case True
    then have "I (g_world st1)" "g_err st1 = 0" using a by (auto simp: answered_def)
    from Suc.IH [OF this] t(2) True show ?thesis by simp
  next
    case False
    then show ?thesis using a t(2) by simp
  qed
qed simp

text \<open>A step of the connection that prints and asks; the rest is only done when the answer is zero.\<close>

lemma print_then:
  assumes "I (g_world st)" "s \<noteq> HTTP_REQ_ERROR" "g_req_err st \<noteq> HTTP_REQ_ERROR_NONE"
    and r: "do { st \<leftarrow> print_notify func s t st; if g_err st \<noteq> 0 then Some st else f st } = Some st'"
    and f: "\<And>st1. I (g_world st1) \<Longrightarrow> g_err st1 = 0 \<Longrightarrow> g_req_err st1 \<noteq> HTTP_REQ_ERROR_NONE \<Longrightarrow> f st1 = Some st' \<Longrightarrow> asked I J st'"
  shows "asked I J st'"
proof -
  obtain st1 where p: "print_notify func s t st = Some st1" "(if g_err st1 \<noteq> 0 then Some st1 else f st1) = Some st'"
    using r by (auto split: bind_splits)
  note a = print_notify_answered [OF assms(1,2) p(1)]
  show ?thesis
  proof (cases "g_err st1 = 0")
    case True
    then have "I (g_world st1)" using a by (simp add: answered_def)
    then show ?thesis using f True p(2) a assms(3) by simp
  next
    case False
    then show ?thesis using a p(2) by (simp add: asked_def)
  qed
qed

lemma get_net_asked:
  assumes "I (g_world st)" "get_net func net u st = Some st'"
  shows "asked I J st'"
proof (cases "n_socket net")
  case False
  then show ?thesis using assms by (auto simp: get_net_def asked_def)
next
  case True
  let ?st = "st\<lparr>g_req_err := HTTP_REQ_ERROR_CONNECT\<rparr>"
  let ?send = "\<lambda>st. do {
      d \<leftarrow> slice (g_buf st) 0 (int (length (get_text u)));
      if n_send net d < 0 then Some st
      else do {
        st \<leftarrow> get_loop (in_size (n_in net) + 1) func (st\<lparr>g_len := 0, g_got_header := False, g_in := n_in net\<rparr>);
        Some (st\<lparr>g_req_err := HTTP_REQ_ERROR_NONE\<rparr>)
      } }"
  let ?connect = "\<lambda>st. if \<not> n_connect net then Some st
      else do { st \<leftarrow> print_notify func HTTP_REQ_SEND (get_text u) st; if g_err st \<noteq> 0 then Some st else ?send st }"
  let ?resolve = "\<lambda>st. do { st \<leftarrow> print_notify func HTTP_REQ_CONNECT (connect_text net u) st; if g_err st \<noteq> 0 then Some st else ?connect st }"
  have eq: "do { st \<leftarrow> print_notify func HTTP_REQ_RESOLVE (resolve_text u) ?st; if g_err st \<noteq> 0 then Some st else ?resolve st } = Some st'"
    using assms(2) by (simp only: get_net_def Let_def True not_True_eq_False if_False if_disj)
  have w: "I (g_world ?st)" "g_req_err ?st \<noteq> HTTP_REQ_ERROR_NONE" using assms(1) by simp_all
  have send: "asked I J st'" if "I (g_world st1)" "g_err st1 = 0" "?send st1 = Some st'" for st1
  proof -
    note r = that
    obtain st2 where "st' = st1 \<or> get_loop (in_size (n_in net) + 1) func (st1\<lparr>g_len := 0, g_got_header := False, g_in := n_in net\<rparr>) = Some st2 \<and>
        st' = st2\<lparr>g_req_err := HTTP_REQ_ERROR_NONE\<rparr>"
      using r(3) by (auto split: bind_splits if_splits simp del: get_loop.simps)
    then show ?thesis
    proof
      assume "st' = st1"
      then show ?thesis using r(1,2) by (simp add: asked_def answered_def)
    next
      assume "get_loop (in_size (n_in net) + 1) func (st1\<lparr>g_len := 0, g_got_header := False, g_in := n_in net\<rparr>) = Some st2 \<and>
        st' = st2\<lparr>g_req_err := HTTP_REQ_ERROR_NONE\<rparr>"
      moreover from this have "answered I J st2" using get_loop_answered [of "st1\<lparr>g_len := 0, g_got_header := False, g_in := n_in net\<rparr>" "in_size (n_in net) + 1" st2] r(1,2)
        by (simp del: get_loop.simps)
      ultimately show ?thesis by (simp add: asked_def answered_def)
    qed
  qed
  have connect: "asked I J st'" if "I (g_world st1)" "g_req_err st1 \<noteq> HTTP_REQ_ERROR_NONE" "?connect st1 = Some st'" for st1
  proof (cases "n_connect net")
    case True
    then show ?thesis using print_then [OF that(1) _ that(2), of HTTP_REQ_SEND "get_text u" ?send] that(3) send by simp
  next
    case False
    then show ?thesis using that by (auto simp: asked_def)
  qed
  have resolve: "asked I J st'" if "I (g_world st1)" "g_req_err st1 \<noteq> HTTP_REQ_ERROR_NONE" "?resolve st1 = Some st'" for st1
    using print_then [OF that(1) _ that(2), of HTTP_REQ_CONNECT "connect_text net u" ?connect] that(3) connect by simp
  show ?thesis by (rule print_then [OF w(1) _ w(2) eq]) (simp_all add: resolve)
qed

text \<open>How it ends.\<close>

lemma get_end_ends:
  assumes "asked I J st" "get_end func st = Some (w, i)"
  shows "i = 0 \<and> I w \<or> i \<noteq> 0 \<and> J w i \<or> K w i"
proof -
  let ?st = "if g_got_header st \<and> h_response_code (g_http st) \<noteq> 200 then st\<lparr>g_req_err := HTTP_REQ_ERROR_FILE_NOT_FOUND\<rparr> else st"
  have f: "g_world ?st = g_world st" "g_err ?st = g_err st" by simp_all
  show ?thesis
  proof (cases "g_req_err ?st = HTTP_REQ_ERROR_NONE")
    case True
    then have "w = g_world st" "i = g_err st" using assms(2) by (auto simp: get_end_def Let_def split: if_splits)
    moreover have "answered I J st" using assms(1) True by (auto simp: asked_def split: if_splits)
    ultimately show ?thesis by (auto simp: answered_def split: if_splits)
  next
    case False
    let ?st1 = "?st\<lparr>g_req := (g_req ?st)\<lparr>req_error := g_req_err ?st\<rparr>\<rparr>"
    obtain d where "w = g_world (notify func HTTP_REQ_ERROR d ?st1)" "i = g_err (notify func HTTP_REQ_ERROR d ?st1)"
      using assms(2) False by (auto simp: get_end_def Let_def split: bind_splits)
    then have "func (g_world st) ((g_req ?st1)\<lparr>req_state := HTTP_REQ_ERROR, reply_hdr := g_http ?st1\<rparr>) d = (w, i)"
      by (simp add: notify_def Let_def split: prod.splits)
    moreover have "I (g_world st) \<or> (\<exists>j. J (g_world st) j)"
      using assms(1) by (auto simp: asked_def answered_def split: if_splits)
    ultimately have "K w i" by (rule failed [rotated 2]) simp_all
    then show ?thesis by simp
  qed
qed

text \<open>A local file is left out: what \<open>http_get\<close> does with the answers for its pieces is not this.\<close>

lemma http_get_ends:
  assumes "I w" "\<forall>p. fs_files fs p = None" "http_get fs net buf http urlstr func w = Some (w', i)"
  shows "i = 0 \<and> I w' \<or> i \<noteq> 0 \<and> J w' i \<or> K w' i"
proof -
  obtain u e where u: "url_parse urlstr = Some (u, e)" using assms(3) by (auto simp: http_get_def split: bind_splits)
  let ?req = "\<lparr>req_url = u, req_state = HTTP_REQ_RESOLVE, req_error = HTTP_REQ_ERROR_NONE, reply_hdr = http, reply_max = 0, reply_len = 0\<rparr>"
  let ?st = "\<lparr>g_buf = buf, g_len = 0, g_http = http, g_got_header = False, g_req = ?req, g_req_err = HTTP_REQ_ERROR_BAD_URL,
    g_err = - 1, g_in = [], g_pool = 0, g_world = w\<rparr>"
  have st: "asked I J ?st" using assms(1) by (simp add: asked_def)
  obtain st where r: "(if e \<noteq> URL_PARSE_ERR_OK then Some ?st
        else do {
          proto \<leftarrow> u_proto u;
          if map tolower (cstr proto) = bytes_of ''file'' then do { path \<leftarrow> u_path u; get_file_url func fs path ?st }
          else if map tolower (cstr proto) = bytes_of ''http'' then get_net func net u ?st
          else Some ?st
        }) = Some st" and e: "get_end func st = Some (w', i)"
    using assms(3) u by (auto simp: http_get_def Let_def split: bind_splits)
  then consider "st = ?st" | path where "get_file_url func fs path ?st = Some st" | "get_net func net u ?st = Some st"
  proof (cases "e = URL_PARSE_ERR_OK")
    case ok: True
    then obtain proto where p: "(if map tolower (cstr proto) = bytes_of ''file'' then do { path \<leftarrow> u_path u; get_file_url func fs path ?st }
          else if map tolower (cstr proto) = bytes_of ''http'' then get_net func net u ?st
          else Some ?st) = Some st" (is "(if ?f then ?F else if ?h then ?H else ?O) = _")
      using r by (cases "u_proto u") auto
    show ?thesis
    proof (cases ?f)
      case True
      have "?F = Some st" using p unfolding if_P [OF True] .
      then show ?thesis using that(2) by (cases "u_path u") auto
    next
      case F: False
      show ?thesis
      proof (cases ?h)
        case True
        have "?H = Some st" using p unfolding if_not_P [OF F] if_P [OF True] .
        then show ?thesis by (rule that(3))
      next
        case False
        have "?O = Some st" using p unfolding if_not_P [OF F] if_not_P [OF False] .
        then show ?thesis using that(1) by simp
      qed
    qed
  qed simp
  then have "asked I J st"
  proof cases
    case 1
    then show ?thesis using st by simp
  next
    case 2
    then have "st = ?st\<lparr>g_req_err := HTTP_REQ_ERROR_FILE_NOT_FOUND\<rparr>" using assms(2) by (simp add: get_file_url_def)
    then show ?thesis using assms(1) by (simp add: asked_def)
  next
    case 3
    then show ?thesis using get_net_asked [OF _ 3] assms(1) by simp
  qed
  from get_end_ends [OF this e] show ?thesis .
qed

end

end
