(* ===== verification/HttpSim.thy ===== *)
theory HttpSim
  imports HttpReqProps HttpCall
begin

text \<open>
  Two callbacks that answer alike are called alike: what is known of a run with one of them, such as the log of all calls,
  holds of a run with the other. \<open>R\<close> relates the states of the two callbacks.
\<close>

definition alike :: "('v \<Rightarrow> 'w \<Rightarrow> bool) \<Rightarrow> 'v get_t \<Rightarrow> 'w get_t \<Rightarrow> bool" where
  "alike R s t \<longleftrightarrow> g_buf s = g_buf t \<and> g_len s = g_len t \<and> g_http s = g_http t \<and> g_got_header s = g_got_header t \<and>
     g_req s = g_req t \<and> g_req_err s = g_req_err t \<and> g_err s = g_err t \<and> g_in s = g_in t \<and> g_pool s = g_pool t \<and>
     R (g_world s) (g_world t)"

lemma rel_bind:
  "rel_option A x y \<Longrightarrow> (\<And>a b. A a b \<Longrightarrow> rel_option B (f a) (g b)) \<Longrightarrow> rel_option B (x \<bind> f) (y \<bind> g)"
  by (cases x; cases y) auto

lemma rel_if:
  "(c \<Longrightarrow> rel_option A x y) \<Longrightarrow> (\<not> c \<Longrightarrow> rel_option A x' y') \<Longrightarrow> rel_option A (if c then x else x') (if c then y else y')"
  by simp

locale answers_alike =
  fixes f1 :: "'v http_req_func" and f2 :: "'w http_req_func" and R :: "'v \<Rightarrow> 'w \<Rightarrow> bool"
  assumes answers: "R v w \<Longrightarrow> req_state req \<noteq> HTTP_REQ_ERROR \<Longrightarrow> f1 v req d = (v', i) \<Longrightarrow> f2 w req d = (w', j) \<Longrightarrow> i = j \<and> R v' w'"
begin

lemma notify_alike:
  assumes "alike R s t" "st \<noteq> HTTP_REQ_ERROR"
  shows "alike R (notify f1 st d s) (notify f2 st d t)"
proof -
  let ?req = "(g_req s)\<lparr>req_state := st, reply_hdr := g_http s\<rparr>"
  obtain v i where v: "f1 (g_world s) ?req d = (v, i)" by fastforce
  obtain w j where w: "f2 (g_world t) ?req d = (w, j)" by fastforce
  have "i = j \<and> R v w" using answers [OF _ _ v w] assms by (simp add: alike_def)
  then show ?thesis using assms(1) v w by (simp add: alike_def notify_def Let_def)
qed

abbreviation same_turn :: "turn \<times> 'v get_t \<Rightarrow> turn \<times> 'w get_t \<Rightarrow> bool" where
  "same_turn \<equiv> rel_prod (=) (alike R)"

lemma print_notify_alike:
  assumes "alike R s t" "st \<noteq> HTTP_REQ_ERROR"
  shows "rel_option (alike R) (print_notify f1 st x s) (print_notify f2 st x t)"
proof -
  have b: "g_buf s = g_buf t" using assms(1) by (simp add: alike_def)
  have "alike R (notify f1 st d (s\<lparr>g_buf := m\<rparr>)) (notify f2 st d (t\<lparr>g_buf := m\<rparr>))" for d m
    using assms by (intro notify_alike) (simp_all add: alike_def)
  then show ?thesis by (auto simp: print_notify_def b split: bind_splits)
qed

lemma get_head_alike:
  assumes "alike R s t"
  shows "rel_option same_turn (get_head f1 s) (get_head f2 t)"
proof (cases "g_got_header t")
  case True
  then show ?thesis using assms by (simp add: get_head_def alike_def)
next
  case False
  have e: "g_got_header s = g_got_header t" "g_pool s = g_pool t" "g_buf s = g_buf t" "g_len s = g_len t" "g_req s = g_req t"
    using assms by (simp_all add: alike_def)
  obtain h0 x0 where hi: "http_header_init None (Some (g_pool t)) = (h0, x0)" by fastforce
  show ?thesis
  proof (cases "http_header_parse h0 (g_buf t) (g_len t)")
    case None
    then show ?thesis by (simp add: get_head_def False e hi)
  next
    case (Some hpi)
    obtain http i where p: "hpi = (http, i)" by fastforce
    let ?upd = "\<lambda>st. st\<lparr>g_http := http, g_pool := g_pool st + 1\<rparr>"
    let ?hl = "uint (h_header_len http)"
    let ?got = "\<lambda>st. (?upd st)\<lparr>g_got_header := True, g_req := (g_req (?upd st))\<lparr>reply_max := to_i32 (uint (h_content_len http))\<rparr>\<rparr>"
    consider "i < 0" | "i = 0" | "0 < i" by linarith
    then show ?thesis
    proof cases
      case 1
      then show ?thesis using assms by (simp add: get_head_def False e hi Some p alike_def)
    next
      case 2
      then show ?thesis using assms by (simp add: get_head_def False e hi Some p alike_def)
    next
      case 3
      show ?thesis
      proof (cases "slice (g_buf t) 0 ?hl")
        case None
        then show ?thesis using 3 by (simp add: get_head_def False e hi Some p Let_def)
      next
        case d: (Some d)
        let ?s = "notify f1 HTTP_REQ_HEAD d (s\<lparr>g_http := http, g_pool := g_pool s + 1, g_got_header := True,
          g_req := (g_req s)\<lparr>reply_max := to_i32 (uint (h_content_len http))\<rparr>\<rparr>)"
        let ?t = "notify f2 HTTP_REQ_HEAD d (t\<lparr>g_http := http, g_pool := g_pool t + 1, g_got_header := True,
          g_req := (g_req t)\<lparr>reply_max := to_i32 (uint (h_content_len http))\<rparr>\<rparr>)"
        have a: "alike R ?s ?t" using assms by (intro notify_alike) (simp_all add: alike_def)
        have f: "g_err ?s = g_err ?t" "g_len ?s = g_len ?t" "g_buf ?s = g_buf ?t" using a by (simp_all add: alike_def)
        let ?rest = "\<lambda>st. if g_err st \<noteq> 0 then Some (Stop, st)
            else do {
              let st = st\<lparr>g_len := g_len st - nat ?hl\<rparr>;
              buf \<leftarrow> (if g_len st > 0 then mem_move (g_buf st) 0 ?hl (int (g_len st)) else Some (g_buf st));
              Some (Body, st\<lparr>g_buf := buf\<rparr>)
            }"
        have h: "get_head f1 s = ?rest ?s" using 3 d by (simp add: get_head_def Let_def False e hi Some p)
        have k: "get_head f2 t = ?rest ?t" using 3 d by (simp add: get_head_def Let_def False hi Some p)
        show ?thesis
        proof (cases "g_err ?t = 0")
          case False
          then show ?thesis using a f unfolding h k by simp
        next
          case True
          define m where "m = (if 0 < g_len ?t - nat ?hl then mem_move (g_buf ?t) 0 ?hl (int (g_len ?t - nat ?hl)) else Some (g_buf ?t))"
          have "?rest ?s = do { buf \<leftarrow> m; Some (Body, ?s\<lparr>g_len := g_len ?t - nat ?hl, g_buf := buf\<rparr>) }"
            "?rest ?t = do { buf \<leftarrow> m; Some (Body, ?t\<lparr>g_len := g_len ?t - nat ?hl, g_buf := buf\<rparr>) }"
            using True f by (simp_all add: m_def Let_def)
          then show ?thesis using a unfolding h k by (cases m) (simp_all add: alike_def)
        qed
      qed
    qed
  qed
qed

lemma get_body_alike:
  assumes "alike R s t"
  shows "rel_option same_turn (get_body f1 s) (get_body f2 t)"
proof -
  let ?upd = "\<lambda>st. st\<lparr>g_req := (g_req st)\<lparr>reply_len := reply_len (g_req st) + int (g_len st)\<rparr>\<rparr>"
  have e: "g_buf s = g_buf t" "g_len s = g_len t" using assms by (simp_all add: alike_def)
  have "alike R (notify f1 HTTP_REQ_BODY d (s\<lparr>g_req := (g_req s)\<lparr>reply_len := reply_len (g_req s) + int (g_len s)\<rparr>\<rparr>))
      (notify f2 HTTP_REQ_BODY d (t\<lparr>g_req := (g_req t)\<lparr>reply_len := reply_len (g_req t) + int (g_len t)\<rparr>\<rparr>))" for d
    using assms by (intro notify_alike) (simp_all add: alike_def)
  then show ?thesis by (cases "slice (g_buf t) 0 (int (g_len t))") (simp_all add: get_body_def Let_def e alike_def)
qed

lemma get_turn_alike:
  assumes "alike R s t"
  shows "rel_option same_turn (get_turn f1 s) (get_turn f2 t)"
proof (cases "g_len t < GET_BUF")
  case False
  then show ?thesis using assms by (simp add: get_turn_def alike_def)
next
  case True
  have e: "g_in s = g_in t" "g_len s = g_len t" "g_buf s = g_buf t" using assms by (simp_all add: alike_def)
  obtain r rest where rr: "sock_recv (g_in t) (GET_BUF - g_len t) = (r, rest)" by fastforce
  show ?thesis
  proof (cases r)
    case None
    then show ?thesis using assms True rr by (simp add: get_turn_def e) (simp add: alike_def)
  next
    case (Some d)
    show ?thesis
    proof (cases "d = []")
      case d: True
      have "alike R (notify f1 HTTP_REQ_EOF [] (s\<lparr>g_in := rest\<rparr>)) (notify f2 HTTP_REQ_EOF [] (t\<lparr>g_in := rest\<rparr>))"
        using assms by (intro notify_alike) (simp_all add: alike_def)
      then show ?thesis using True rr Some d by (simp add: get_turn_def e)
    next
      case False
      show ?thesis
      proof (cases "blit (g_buf t) (int (g_len t)) d")
        case None
        then show ?thesis using True rr Some False by (simp add: get_turn_def e)
      next
        case m: (Some m)
        let ?s = "s\<lparr>g_in := rest, g_buf := m, g_len := g_len t + length d\<rparr>" and ?t = "t\<lparr>g_in := rest, g_buf := m, g_len := g_len t + length d\<rparr>"
        have a: "alike R ?s ?t" using assms by (simp add: alike_def)
        have "rel_option same_turn (do { (t, st) \<leftarrow> get_head f1 ?s; if t = Body then get_body f1 st else Some (t, st) })
            (do { (t, st) \<leftarrow> get_head f2 ?t; if t = Body then get_body f2 st else Some (t, st) })"
          by (rule rel_bind [OF get_head_alike [OF a]]) (auto intro: get_body_alike split: prod.splits)
        then show ?thesis using True rr Some False m by (simp add: get_turn_def e)
      qed
    qed
  qed
qed

lemma get_loop_alike: "alike R s t \<Longrightarrow> rel_option (alike R) (get_loop k f1 s) (get_loop k f2 t)"
proof (induction k arbitrary: s t)
  case (Suc k)
  show ?case
    unfolding get_loop.simps by (rule rel_bind [OF get_turn_alike [OF Suc.prems]]) (auto intro: Suc.IH)
qed simp

lemma ask_alike:
  assumes "alike R s t" "st \<noteq> HTTP_REQ_ERROR" "\<And>s t. alike R s t \<Longrightarrow> rel_option (alike R) (f s) (g t)"
  shows "rel_option (alike R) (do { s \<leftarrow> print_notify f1 st x s; if g_err s \<noteq> 0 then Some s else f s })
    (do { t \<leftarrow> print_notify f2 st x t; if g_err t \<noteq> 0 then Some t else g t })"
proof (rule rel_bind [OF print_notify_alike [OF assms(1,2)]])
  fix a :: "'v get_t" and b :: "'w get_t" assume a: "alike R a b"
  then have "g_err a = g_err b" by (simp add: alike_def)
  then show "rel_option (alike R) (if g_err a \<noteq> 0 then Some a else f a) (if g_err b \<noteq> 0 then Some b else g b)"
    using a assms(3) by simp
qed

lemma get_net_alike:
  assumes "alike R s t"
  shows "rel_option (alike R) (get_net f1 net u s) (get_net f2 net u t)"
proof -
  have err: "alike R (s\<lparr>g_req_err := e\<rparr>) (t\<lparr>g_req_err := e\<rparr>)" if "alike R s t" for e and s :: "'v get_t" and t :: "'w get_t"
    using that by (simp add: alike_def)
  have send: "rel_option (alike R)
      (do { d \<leftarrow> slice (g_buf s) 0 (int (length (get_text u)));
        if n_send net d < 0 then Some s
        else do {
          st \<leftarrow> get_loop (in_size (n_in net) + 1) f1 (s\<lparr>g_len := 0, g_got_header := False, g_in := n_in net\<rparr>);
          Some (st\<lparr>g_req_err := HTTP_REQ_ERROR_NONE\<rparr>) } })
      (do { d \<leftarrow> slice (g_buf t) 0 (int (length (get_text u)));
        if n_send net d < 0 then Some t
        else do {
          st \<leftarrow> get_loop (in_size (n_in net) + 1) f2 (t\<lparr>g_len := 0, g_got_header := False, g_in := n_in net\<rparr>);
          Some (st\<lparr>g_req_err := HTTP_REQ_ERROR_NONE\<rparr>) } })"
    if a: "alike R s t" for s :: "'v get_t" and t :: "'w get_t"
  proof -
    have b: "g_buf s = g_buf t" using a by (simp add: alike_def)
    have l: "alike R (s\<lparr>g_len := 0, g_got_header := False, g_in := n_in net\<rparr>) (t\<lparr>g_len := 0, g_got_header := False, g_in := n_in net\<rparr>)"
      using a by (simp add: alike_def)
    have "rel_option (alike R)
        (do { st \<leftarrow> get_loop (in_size (n_in net) + 1) f1 (s\<lparr>g_len := 0, g_got_header := False, g_in := n_in net\<rparr>);
          Some (st\<lparr>g_req_err := HTTP_REQ_ERROR_NONE\<rparr>) })
        (do { st \<leftarrow> get_loop (in_size (n_in net) + 1) f2 (t\<lparr>g_len := 0, g_got_header := False, g_in := n_in net\<rparr>);
          Some (st\<lparr>g_req_err := HTTP_REQ_ERROR_NONE\<rparr>) })"
      by (rule rel_bind [OF get_loop_alike [OF l]]) (simp add: err)
    then show ?thesis unfolding b using a by (cases "slice (g_buf t) 0 (int (length (get_text u)))") simp_all
  qed
  show ?thesis
    unfolding get_net_def Let_def if_disj
    by (intro rel_if ask_alike err [OF assms] send) (simp_all add: err [OF assms])
qed

lemma end_alike:
  assumes "alike R s t" "get_end f1 s = Some (v, i)" "\<not> bad v"
    and bad: "\<And>v req d v' j. req_state req = HTTP_REQ_ERROR \<Longrightarrow> f1 v req d = (v', j) \<Longrightarrow> bad v'"
  shows "get_end f2 t = Some (g_world t, i) \<and> R v (g_world t)"
proof -
  let ?s = "if g_got_header s \<and> h_response_code (g_http s) \<noteq> 200 then s\<lparr>g_req_err := HTTP_REQ_ERROR_FILE_NOT_FOUND\<rparr> else s"
  show ?thesis
  proof (cases "g_req_err ?s = HTTP_REQ_ERROR_NONE")
    case True
    then show ?thesis using assms(1,2) by (auto simp: get_end_def Let_def alike_def split: if_splits)
  next
    case False
    let ?s1 = "?s\<lparr>g_req := (g_req ?s)\<lparr>req_error := g_req_err ?s\<rparr>\<rparr>"
    obtain d where "v = g_world (notify f1 HTTP_REQ_ERROR d ?s1)"
      using assms(2) False by (auto simp: get_end_def Let_def split: bind_splits)
    moreover obtain v1 j where "f1 (g_world s) ((g_req ?s1)\<lparr>req_state := HTTP_REQ_ERROR, reply_hdr := g_http ?s1\<rparr>) d = (v1, j)" by fastforce
    ultimately have "bad v" using bad by (force simp: notify_def Let_def)
    then show ?thesis using assms(3) by simp
  qed
qed

text \<open>
  A run of the first callback in which no error is reported; \<open>bad\<close> recognises its state after a report. Local files are left
  out.
\<close>

lemma http_get_alike:
  assumes R: "R v w" and bad: "\<And>v req d v' j. req_state req = HTTP_REQ_ERROR \<Longrightarrow> f1 v req d = (v', j) \<Longrightarrow> bad v'"
    and fs: "\<forall>p. fs_files fs p = None" and run: "http_get fs net buf http urlstr f1 v = Some (v', i)" "\<not> bad v'"
  shows "\<exists>w'. http_get fs net buf http urlstr f2 w = Some (w', i) \<and> R v' w'"
proof -
  obtain u e where u: "url_parse urlstr = Some (u, e)" using run(1) by (auto simp: http_get_def split: bind_splits)
  let ?req = "\<lparr>req_url = u, req_state = HTTP_REQ_RESOLVE, req_error = HTTP_REQ_ERROR_NONE, reply_hdr = http, reply_max = 0, reply_len = 0\<rparr>"
  let ?s = "\<lparr>g_buf = buf, g_len = 0, g_http = http, g_got_header = False, g_req = ?req, g_req_err = HTTP_REQ_ERROR_BAD_URL,
    g_err = - 1, g_in = [], g_pool = 0, g_world = v\<rparr>"
  let ?t = "\<lparr>g_buf = buf, g_len = 0, g_http = http, g_got_header = False, g_req = ?req, g_req_err = HTTP_REQ_ERROR_BAD_URL,
    g_err = - 1, g_in = [], g_pool = 0, g_world = w\<rparr>"
  have st: "alike R ?s ?t" using R by (simp add: alike_def)
  let ?body = "\<lambda>net_part file_part st. if e \<noteq> URL_PARSE_ERR_OK then Some st
        else do {
          proto \<leftarrow> u_proto u;
          if map tolower (cstr proto) = bytes_of ''file'' then do { path \<leftarrow> u_path u; file_part path st }
          else if map tolower (cstr proto) = bytes_of ''http'' then net_part st
          else Some st
        }"
  have local_file: "rel_option (alike R) (get_file_url f1 fs path ?s) (get_file_url f2 fs path ?t)" for path
    using fs st by (simp add: get_file_url_def alike_def)
  have body: "rel_option (alike R) (?body (get_net f1 net u) (get_file_url f1 fs) ?s) (?body (get_net f2 net u) (get_file_url f2 fs) ?t)"
    using st local_file get_net_alike [OF st] by (intro rel_if) (auto split: bind_splits)
  have run1: "http_get fs net buf http urlstr f1 v = do { st \<leftarrow> ?body (get_net f1 net u) (get_file_url f1 fs) ?s; get_end f1 st }"
    by (simp only: http_get_def u Option.bind.simps prod.case Let_def)
  have run2: "http_get fs net buf http urlstr f2 w = do { st \<leftarrow> ?body (get_net f2 net u) (get_file_url f2 fs) ?t; get_end f2 st }"
    by (simp only: http_get_def u Option.bind.simps prod.case Let_def)
  obtain s where s: "?body (get_net f1 net u) (get_file_url f1 fs) ?s = Some s" "get_end f1 s = Some (v', i)"
    using run(1) unfolding run1 by (cases "?body (get_net f1 net u) (get_file_url f1 fs) ?s") simp_all
  obtain t where t: "?body (get_net f2 net u) (get_file_url f2 fs) ?t = Some t" "alike R s t"
    using body unfolding s(1) by (cases "?body (get_net f2 net u) (get_file_url f2 fs) ?t") simp_all
  have "get_end f2 t = Some (g_world t, i) \<and> R v' (g_world t)"
    using s(2) t(2) run(2) end_alike bad by blast
  then show ?thesis unfolding run2 t(1) by auto
qed

end

end
