(* ===== verification/UpdateProps.thy ===== *)
theory UpdateProps
  imports Update HttpCall
begin

text \<open>
  The order in which an update proceeds, as a step relation between its phases: nothing is fetched before the user has
  agreed twice, nothing is run before the download is complete and the user has agreed again, and after a refusal or an
  error nothing more is done.
\<close>

datatype phase = Looking | Agreed | Ready | Fetching | Fetched | Installing | Over

inductive upd_step :: "phase \<Rightarrow> upd_act \<Rightarrow> phase \<Rightarrow> bool" where
  agree: "upd_step Looking (Asked UPDATE_STATE_ASK 0) Agreed"
| ready: "upd_step Agreed (Asked UPDATE_STATE_DOWNLOAD 0) Ready"
| opened: "upd_step Ready (Opened p) Fetching"
| wrote: "upd_step Fetching (Wrote d) Fetching"
| progress: "upd_step Fetching (Asked UPDATE_STATE_PROGRESS 0) Fetching"
| closed: "upd_step Fetching Closed Fetched"
| accept: "upd_step Fetched (Asked UPDATE_STATE_INSTALL 0) Installing"
| run: "upd_step Installing (Ran s) Installing"
| chdir: "upd_step Installing (Chdir s) Installing"
| start: "upd_step Installing (Started s) Installing"
| updated: "upd_step Installing (Asked UPDATE_STATE_UPDATED i) Over"
| refuse: "i \<noteq> 0 \<Longrightarrow> (p, s) \<in> {(Looking, UPDATE_STATE_ASK), (Agreed, UPDATE_STATE_DOWNLOAD), (Fetching, UPDATE_STATE_PROGRESS),
    (Fetched, UPDATE_STATE_INSTALL)} \<Longrightarrow> upd_step p (Asked s i) Over"
| error: "upd_step p (Asked UPDATE_STATE_ERROR i) Over"
| close_over: "upd_step Over Closed Over"

inductive_simps upd_step_simps: "upd_step p (Asked s i) q" "upd_step p (Opened x) q" "upd_step p (Wrote x) q" "upd_step p Closed q"
  "upd_step p (Ran x) q" "upd_step p (Chdir x) q" "upd_step p (Started x) q"

inductive upd_path :: "phase \<Rightarrow> upd_act list \<Rightarrow> phase \<Rightarrow> bool" where
  start: "upd_path p [] p"
| "step": "upd_path p as q \<Longrightarrow> upd_step q a r \<Longrightarrow> upd_path p (as @ [a]) r"

text \<open>The log of a run has led to the phase \<open>q\<close>.\<close>

definition at_phase :: "phase \<Rightarrow> ('w, 'x) upd \<Rightarrow> bool" where
  "at_phase q w \<longleftrightarrow> upd_path Looking (uw_log w) q"

lemma at_log [intro]: "at_phase p w \<Longrightarrow> upd_step p a q \<Longrightarrow> at_phase q (upd_log a w)"
  by (simp add: at_phase_def upd_log_def upd_path.step)

lemma at_same [simp]:
  "at_phase q (set_up f w) = at_phase q w" "at_phase q (set_error e w) = at_phase q w" "at_phase q (fst (tick sys w)) = at_phase q w"
  "at_phase q (w\<lparr>uw_buf := b\<rparr>) = at_phase q w" "at_phase q (w\<lparr>uw_len := n\<rparr>) = at_phase q w"
  by (simp_all add: at_phase_def set_up_def set_error_def tick_def)

lemma at_call: "at_phase p w \<Longrightarrow> call_func func s w = (w', i) \<Longrightarrow> upd_step p (Asked s i) q \<Longrightarrow> at_phase q w'"
  by (auto simp: call_func_def at_phase_def upd_log_def upd_path.step Let_def split: prod.splits)

text \<open>The two callbacks of \<open>http_get\<close>, under the rule of the locale.\<close>

interpretation fetch_info: http_callback "http_req_buf func" "at_phase Looking" "\<lambda>w i. False" "\<lambda>w i. at_phase Over w \<and> i = - 1"
  for func :: "('w, 'x) update_func"
proof
  fix w w' :: "('w, 'x) upd" and req d i
  show "at_phase Looking w \<Longrightarrow> req_state req \<noteq> HTTP_REQ_ERROR \<Longrightarrow> http_req_buf func w req d = (w', 0) \<Longrightarrow> at_phase Looking w'"
    by (auto simp: http_req_buf_def split: http_req_state_t.splits if_splits)
  show "at_phase Looking w \<Longrightarrow> req_state req \<noteq> HTTP_REQ_ERROR \<Longrightarrow> http_req_buf func w req d = (w', i) \<Longrightarrow> i \<noteq> 0 \<Longrightarrow> False"
    by (auto simp: http_req_buf_def split: http_req_state_t.splits)
  assume a: "at_phase Looking w \<or> (\<exists>j. False)" "req_state req = HTTP_REQ_ERROR" "http_req_buf func w req d = (w', i)"
  obtain w1 j where c: "call_func func UPDATE_STATE_ERROR w = (w1, j)" by (cases "call_func func UPDATE_STATE_ERROR w")
  have "at_phase Over w1" using at_call [OF _ c] a(1) by (auto simp: upd_step_simps)
  then show "at_phase Over w' \<and> i = - 1" using a(2,3) c by (auto simp: http_req_buf_def)
qed

interpretation fetch_file: http_callback "http_req_prog sys func" "at_phase Fetching" "\<lambda>w i. at_phase Over w"
    "\<lambda>w i. at_phase Over w \<and> i = - 1"
  for sys :: "'x sys" and func :: "('w, 'x) update_func"
proof
  fix w w' :: "('w, 'x) upd" and req d i
  have body: "if i = 0 then at_phase Fetching w' else at_phase Over w'"
    if "at_phase Fetching w" "req_state req \<noteq> HTTP_REQ_ERROR" "http_req_prog sys func w req d = (w', i)" for i
  proof (cases "req_state req = HTTP_REQ_BODY")
    case False
    then have "w' = w" "i = 0" using that(2,3) by (auto simp: http_req_prog_def split: http_req_state_t.splits)
    then show ?thesis using that(1) by simp
  next
    case True
    note r = that(3)
    let ?w1 = "upd_log (Wrote (take (sy_fwrite sys d) d)) w"
    let ?w2 = "?w1\<lparr>uw_len := uw_len ?w1 + length d\<rparr>"
    let ?t = "snd (tick sys ?w2)" and ?w3 = "fst (tick sys ?w2)"
    let ?w4 = "set_up (set_progress ?t (uw_len ?w3) (h_content_len (reply_hdr req))) ?w3"
    have 1: "at_phase Fetching ?w1" using that(1) by (auto intro: wrote)
    then have 3: "at_phase Fetching ?w3" "at_phase Fetching ?w4" by simp_all
    have eq: "http_req_prog sys func w req d = (if sy_fwrite sys d < length d then (?w1, 0)
        else if ud_prog_time_interval (uw_up ?w3) < ?t - ud_prog_time_update (uw_up ?w3) then call_func func UPDATE_STATE_PROGRESS ?w4
        else (?w3, 0))"
      by (simp add: http_req_prog_def True Let_def tick_def)
    consider "w' = ?w1" "i = 0" | "w' = ?w3" "i = 0" | "call_func func UPDATE_STATE_PROGRESS ?w4 = (w', i)"
      using r unfolding eq by (metis prod.inject)
    then show ?thesis
    proof cases
      case 3
      then show ?thesis using at_call [OF \<open>at_phase Fetching ?w4\<close> 3] by (auto simp: upd_step_simps)
    qed (use 1 \<open>at_phase Fetching ?w3\<close> in simp_all)
  qed
  show "at_phase Fetching w \<Longrightarrow> req_state req \<noteq> HTTP_REQ_ERROR \<Longrightarrow> http_req_prog sys func w req d = (w', 0) \<Longrightarrow> at_phase Fetching w'"
    using body by fastforce
  show "at_phase Fetching w \<Longrightarrow> req_state req \<noteq> HTTP_REQ_ERROR \<Longrightarrow> http_req_prog sys func w req d = (w', i) \<Longrightarrow> i \<noteq> 0 \<Longrightarrow> at_phase Over w'"
    using body by fastforce
  assume a: "at_phase Fetching w \<or> (\<exists>j. at_phase Over w)" "req_state req = HTTP_REQ_ERROR" "http_req_prog sys func w req d = (w', i)"
  obtain w1 j where c: "call_func func UPDATE_STATE_ERROR w = (w1, j)" by (cases "call_func func UPDATE_STATE_ERROR w")
  have "at_phase Over w1" using at_call [OF _ c] a(1) by (auto simp: upd_step_simps)
  then show "at_phase Over w' \<and> i = - 1" using a(2,3) c by (auto simp: http_req_prog_def)
qed

text \<open>A step that goes on has led to \<open>q\<close>; one that leaves has kept to the order as well.\<close>

definition leads :: "('w, 'x) step \<Rightarrow> phase \<Rightarrow> bool" where
  "leads s q \<longleftrightarrow> (\<forall>w r. s = Some (w, r) \<longrightarrow> (if r = None then at_phase q w else \<exists>p. at_phase p w))"

lemma leads_go_on: "leads s p \<Longrightarrow> (\<And>w. at_phase p w \<Longrightarrow> leads (f w) q) \<Longrightarrow> leads (go_on s f) q"
  by (fastforce simp: leads_def go_on_def split: bind_splits option.splits)

lemma leads_simps [simp]:
  "leads None q" "leads (Some (w, None)) q = at_phase q w" "leads (Some (w, Some e)) q = (\<exists>p. at_phase p w)"
  by (simp_all add: leads_def)

lemma leads_ask:
  assumes "at_phase p w" "upd_step p (Asked s 0) q" "\<forall>i. i \<noteq> 0 \<longrightarrow> upd_step p (Asked s i) Over"
  shows "leads (ask func s w) q"
proof -
  obtain w' i where c: "call_func func s w = (w', i)" by (cases "call_func func s w")
  show ?thesis using at_call [OF assms(1) c] assms(2,3) c by (cases "i = 0") (auto simp: ask_def)
qed

lemma leads_read_old: "at_phase p w \<Longrightarrow> leads (read_old sys xml w) p"
  by (auto simp: read_old_def Let_def split: option.splits if_splits)

lemma leads_read_values: "at_phase p w \<Longrightarrow> leads (read_values sys x w) p"
  by (auto simp: read_values_def Let_def split: bind_splits)

lemma leads_read_new:
  assumes "at_phase Looking w" "\<forall>p. fs_files (sy_fs sys) p = None"
  shows "leads (read_new sys func w) Looking"
proof -
  let ?w = "set_up (\<lambda>up. up\<lparr>ud_error_msg := msg_info, ud_error := UPDATE_ERROR_FILE_NOT_FOUND\<rparr>) w"
  have w: "at_phase Looking (?w\<lparr>uw_buf := []\<rparr>)" using assms(1) by simp
  show ?thesis
  proof (cases "ud_new_xml_url (uw_up ?w)")
    case None
    then show ?thesis by (simp add: read_new_def Let_def)
  next
    case (Some url)
    show ?thesis
    proof (cases "http_get (sy_fs sys) (sy_net sys url) (sy_buf sys) (sy_hdr sys) (url @ [0]) (http_req_buf func) (?w\<lparr>uw_buf := []\<rparr>)")
      case None
      with Some show ?thesis by (simp add: read_new_def Let_def)
    next
      case r: (Some wi)
      obtain w1 i where wi: "wi = (w1, i)" by (cases wi)
      note e = fetch_info.http_get_ends [OF w assms(2) r [unfolded wi]]
      have eq: "read_new sys func w = (if i < 0 then Some (w1, Some (- 1))
          else case sy_xml_parse sys (uw_buf (set_error UPDATE_ERROR_FILE_BAD w1)) of
            None \<Rightarrow> Some (set_error UPDATE_ERROR_FILE_BAD w1, Some (- 1)) | Some x \<Rightarrow> read_values sys x (set_error UPDATE_ERROR_FILE_BAD w1))"
        using Some r by (simp add: read_new_def Let_def wi)
      show ?thesis
      proof (cases "i < 0")
        case True
        then show ?thesis unfolding eq using e by auto
      next
        case False
        then have "at_phase Looking w1" using e by auto
        then show ?thesis unfolding eq using False by (auto intro!: leads_read_values split: option.splits)
      qed
    qed
  qed
qed

lemma leads_ask_update: "at_phase Looking w \<Longrightarrow> leads (ask_update func w) Agreed"
  by (auto simp: ask_update_def Let_def upd_step_simps intro!: leads_ask [of Looking] split: bind_splits)

lemma leads_start_download: "at_phase Agreed w \<Longrightarrow> leads (start_download sys func w) Ready"
  by (auto simp: start_download_def Let_def upd_step_simps tick_def at_phase_def set_up_def intro!: leads_ask [of Agreed] split: prod.splits)

lemma leads_download:
  assumes "at_phase Ready w" "\<forall>p. fs_files (sy_fs sys) p = None"
  shows "leads (download sys func w) Fetched"
proof -
  let ?w = "set_up (\<lambda>up. up\<lparr>ud_error := UPDATE_ERROR_FILE_NOT_FOUND, ud_error_msg := msg_download\<rparr>) w"
  have w: "at_phase Ready ?w" using assms(1) by simp
  show ?thesis
  proof (cases "string_at (ud_new_path (uw_up ?w)) 0")
    case None
    then show ?thesis by (simp add: download_def Let_def)
  next
    case p: (Some path)
    let ?w1 = "upd_log (Opened path) (?w\<lparr>uw_len := 0\<rparr>)"
    have w1: "at_phase Fetching ?w1" using w by (intro at_log [of Ready]) (simp_all add: upd_step_simps)
    show ?thesis
    proof (cases "sy_fopen sys path")
      case False
      then show ?thesis using p w by (auto simp: download_def Let_def)
    next
      case o: True
      show ?thesis
      proof (cases "do { url \<leftarrow> ud_new_url (uw_up ?w);
          http_get (sy_fs sys) (sy_net sys url) (sy_buf sys) (sy_hdr sys) (url @ [0]) (http_req_prog sys func) ?w1 }")
        case None
        then show ?thesis using p o by (cases "ud_new_url (uw_up ?w)") (simp_all add: download_def Let_def)
      next
        case r: (Some wi)
        obtain w2 i where wi: "wi = (w2, i)" by (cases wi)
        obtain url where u: "ud_new_url (uw_up ?w) = Some url"
            "http_get (sy_fs sys) (sy_net sys url) (sy_buf sys) (sy_hdr sys) (url @ [0]) (http_req_prog sys func) ?w1 = Some (w2, i)"
          using r wi by (auto split: bind_splits)
        note e = fetch_file.http_get_ends [OF w1 assms(2) u(2)]
        have eq: "download sys func w = Some (if i = 0 then (upd_log Closed w2, None)
            else (if i > 0 then set_error UPDATE_ERROR_NONE (upd_log Closed w2) else upd_log Closed w2, Some i))"
          using p o u by (simp add: download_def Let_def)
        show ?thesis
        proof (cases "i = 0")
          case True
          then have "at_phase Fetching w2" using e by auto
          then show ?thesis unfolding eq using True by (auto simp: upd_step_simps intro: at_log)
        next
          case False
          then have "at_phase Over w2" using e by auto
          then have "at_phase Over (upd_log Closed w2)" by (auto simp: upd_step_simps intro: at_log)
          then show ?thesis unfolding eq using False by auto
        qed
      qed
    qed
  qed
qed

lemma leads_install:
  fixes w :: "('w, 'x) upd"
  assumes "at_phase Installing w"
  shows "leads (install sys func w) Over"
proof -
  have log: "at_phase Installing (upd_log a w)" if "at_phase Installing w" "upd_step Installing a Installing" for a and w :: "('w, 'x) upd"
    using that by blast
  have run: "at_phase Installing (fst (run_prog f a sys s w))" if "at_phase Installing w" "upd_step Installing (a s) Installing"
    for f :: "'x sys \<Rightarrow> byte list \<Rightarrow> int" and a s and w :: "('w, 'x) upd" using log that by (simp add: run_prog_def)
  have tar: "at_phase Installing (fst (install_tar sys path w))" if "at_phase Installing w" for path and w :: "('w, 'x) upd"
    using that by (auto simp: install_tar_def Let_def run_prog_def upd_step_simps split: prod.splits intro!: log)
  show ?thesis
  proof (cases "install sys func w")
    case None
    then show ?thesis by simp
  next
    case (Some wr)
    let ?w = "set_up (\<lambda>up. up\<lparr>ud_error := UPDATE_ERROR_FILE_BAD, ud_error_msg := msg_install\<rparr>) w"
    obtain path where p: "string_at (ud_new_path (uw_up ?w)) 0 = Some path" "\<not> length path < 7"
      using Some by (auto simp: install_def Let_def split: bind_splits if_splits)
    obtain w1 i where 1: "(if map tolower (drop (length path - 7) path) = bytes_of ''.tar.gz'' then install_tar sys path ?w
           else run_prog sy_start Started sys (cut 65536 ([34] @ bytes_of ''./'' @ path @ [34])) ?w) = (w1, i)" by fastforce
    have w0: "at_phase Installing ?w" using assms by simp
    have w1: "at_phase Installing w1"
    proof (cases "map tolower (drop (length path - 7) path) = bytes_of ''.tar.gz''")
      case True
      then have "install_tar sys path ?w = (w1, i)" using 1 by simp
      then show ?thesis using tar [OF w0, of path] by simp
    next
      case False
      then have "run_prog sy_start Started sys (cut 65536 ([34] @ bytes_of ''./'' @ path @ [34])) ?w = (w1, i)" using 1 by simp
      then show ?thesis using run [OF w0, of Started "cut 65536 ([34] @ bytes_of ''./'' @ path @ [34])" sy_start]
        by (simp add: upd_step_simps)
    qed
    obtain w2 j where 2: "call_func func UPDATE_STATE_UPDATED (set_error UPDATE_ERROR_NONE w1) = (w2, j)" by fastforce
    have "at_phase Over w2" using at_call [OF _ 2] w1 by (auto simp: upd_step_simps)
    moreover have "install sys func w = Some (if i < 0 then (w1, Some (- 1)) else (w2, Some j))"
      using p 1 2 by (simp add: install_def Let_def)
    ultimately show ?thesis using w1 by auto
  qed
qed

lemma update_path:
  assumes "\<forall>p. fs_files (sy_fs sys) p = None" "update sys func xml x = Some (w, err)"
  shows "\<exists>q. upd_path Looking (uw_log w) q"
proof -
  let ?w = "\<lparr>uw_up = update_zero, uw_world = x, uw_log = [], uw_ticks = 0, uw_buf = [], uw_len = 0\<rparr>"
  have w: "at_phase Looking ?w" by (simp add: at_phase_def upd_path.start)
  let ?s = "go_on (read_old sys xml ?w) (\<lambda>w. go_on (read_new sys func w) (\<lambda>w. go_on (ask_update func w)
    (\<lambda>w. go_on (start_download sys func w) (\<lambda>w. go_on (download sys func w) (\<lambda>w. go_on (ask func UPDATE_STATE_INSTALL w)
      (install sys func))))))"
  have "leads ?s Over"
    by (intro leads_go_on [of _ Looking] leads_go_on [of _ Agreed] leads_go_on [of _ Ready] leads_go_on [of _ Fetched]
          leads_go_on [of _ Installing] leads_read_old [OF w] leads_read_new leads_ask_update leads_start_download leads_download
          leads_ask [of Fetched] leads_install assms(1)) (simp_all add: upd_step_simps)
  moreover obtain w1 r where s: "?s = Some (w1, r)" using assms(2) by (auto simp: update_def Let_def split: bind_splits)
  ultimately obtain p where p: "at_phase p w1" by (auto simp: leads_def split: if_splits)
  have u: "(if ud_error (uw_up w1) = UPDATE_ERROR_NONE then (w1, case r of None \<Rightarrow> - 1 | Some e \<Rightarrow> e)
      else call_func func UPDATE_STATE_ERROR w1) = (w, err)" using assms(2) s by (simp add: update_def Let_def)
  show ?thesis
  proof (cases "ud_error (uw_up w1) = UPDATE_ERROR_NONE")
    case True
    then show ?thesis using u p by (auto simp: at_phase_def)
  next
    case False
    then show ?thesis using u at_call [OF p _ upd_step.error] by (auto simp: at_phase_def)
  qed
qed

section \<open>What the order says\<close>

lemma path_split: "upd_path p (xs @ ys) q \<Longrightarrow> \<exists>m. upd_path p xs m \<and> upd_path m ys q"
proof (induction ys arbitrary: q rule: rev_induct)
  case Nil
  then show ?case by (auto intro: upd_path.start)
next
  case (snoc a ys)
  from snoc.prems obtain r where "upd_path p (xs @ ys) r" "upd_step r a q"
    by (cases rule: upd_path.cases) (auto simp flip: append_assoc)
  with snoc.IH show ?case by (blast intro: upd_path.step)
qed

definition ending :: "upd_act \<Rightarrow> bool" where
  "ending a \<longleftrightarrow> a = Closed \<or> (\<exists>i. a = Asked UPDATE_STATE_ERROR i)"

lemma path_over: "upd_path p as q \<Longrightarrow> p = Over \<Longrightarrow> q = Over \<and> (\<forall>a\<in>set as. ending a)"
  by (induction rule: upd_path.induct) (auto elim: upd_step.cases simp: ending_def)

fun needed :: "phase \<Rightarrow> upd_act list" where
  "needed Agreed = [Asked UPDATE_STATE_ASK 0]"
| "needed Ready = [Asked UPDATE_STATE_ASK 0, Asked UPDATE_STATE_DOWNLOAD 0]"
| "needed Fetching = [Asked UPDATE_STATE_ASK 0, Asked UPDATE_STATE_DOWNLOAD 0]"
| "needed Fetched = [Asked UPDATE_STATE_ASK 0, Asked UPDATE_STATE_DOWNLOAD 0, Closed]"
| "needed Installing = [Asked UPDATE_STATE_ASK 0, Asked UPDATE_STATE_DOWNLOAD 0, Closed, Asked UPDATE_STATE_INSTALL 0]"
| "needed _ = []"

lemma subseq_snoc: "subseq xs ys \<Longrightarrow> subseq (xs @ [a]) (ys @ [a])"
  by (rule list_emb_append_mono) auto

lemma subseq_more: "subseq xs ys \<Longrightarrow> subseq xs (ys @ zs)"
  by (rule list_emb_prefix)

lemma path_needed: "upd_path p as q \<Longrightarrow> p = Looking \<Longrightarrow> subseq (needed q) as"
proof (induction rule: upd_path.induct)
  case (step p as q a r)
  from step.hyps(2) step.IH [OF step.prems] show ?case
    using subseq_snoc [of "needed q" as a] subseq_more [of "needed q" as "[a]"] by (cases rule: upd_step.cases) auto
qed simp

definition starts_program :: "upd_act \<Rightarrow> bool" where
  "starts_program a \<longleftrightarrow> (\<exists>s. a = Ran s \<or> a = Started s)"

lemma starts_installing: "upd_step p a q \<Longrightarrow> starts_program a \<Longrightarrow> p = Installing"
  by (auto simp: starts_program_def upd_step_simps)

lemma refused_over: "upd_step p (Asked s i) q \<Longrightarrow> i \<noteq> 0 \<Longrightarrow> q = Over"
  by (auto simp: upd_step_simps)

lemma path_around: "upd_path p (xs @ a # ys) q \<Longrightarrow> \<exists>m n. upd_path p xs m \<and> upd_step m a n \<and> upd_path n ys q"
proof -
  assume "upd_path p (xs @ a # ys) q"
  then have "upd_path p ((xs @ [a]) @ ys) q" by simp
  then obtain n where n: "upd_path p (xs @ [a]) n" "upd_path n ys q" using path_split by blast
  from n(1) obtain m where "upd_path p xs m" "upd_step m a n" by (cases rule: upd_path.cases) auto
  with n(2) show ?thesis by blast
qed

end
