(* ===== verification/UpdateRun.thy ===== *)
theory UpdateRun
  imports UpdateProps HttpSim
begin

text \<open>
  An update to which the user agrees: what the network delivers for the address of the new version is written, complete, to
  the file of its name, and that file is started.
\<close>

definition body_of :: "log \<Rightarrow> byte list" where
  "body_of cs = concat (map snd (filter (\<lambda>(s, _). s = HTTP_REQ_BODY) cs))"

lemma body_of_simps [simp]:
  "body_of [] = []" "body_of (xs @ ys) = body_of xs @ body_of ys" "body_of (body_log ds) = concat ds"
  "body_of ((s, d) # cs) = (if s = HTTP_REQ_BODY then d else []) @ body_of cs" "HTTP_REQ_ERROR \<notin> fst ` set (body_log ds)"
  by (simp_all add: body_of_def body_log_def comp_def image_iff)

text \<open>The network answers a request for \<open>url\<close> with \<open>body\<close>.\<close>

definition delivers :: "'x sys \<Rightarrow> byte list \<Rightarrow> byte list \<Rightarrow> bool" where
  "delivers sys url body \<longleftrightarrow> (\<exists>cs. http_get (sy_fs sys) (sy_net sys url) (sy_buf sys) (sy_hdr sys) (url @ [0]) log_call [] = Some (cs, 0) \<and>
     HTTP_REQ_ERROR \<notin> fst ` set cs \<and> body_of cs = body)"

definition agrees :: "('w, 'x) update_func \<Rightarrow> bool" where
  "agrees func \<longleftrightarrow> (\<forall>x up. \<exists>x'. func x up = (x', up, 0))"

lemma agrees_call:
  assumes "agrees func"
  obtains x where "call_func func s w = (upd_log (Asked s 0) (w\<lparr>uw_world := x, uw_up := (uw_up w)\<lparr>ud_state := s\<rparr>\<rparr>), 0)"
proof -
  obtain x where "func (uw_world w) ((uw_up w)\<lparr>ud_state := s\<rparr>) = (x, (uw_up w)\<lparr>ud_state := s\<rparr>, 0)"
    using assms unfolding agrees_def by blast
  then have "call_func func s w = (upd_log (Asked s 0) (w\<lparr>uw_world := x, uw_up := (uw_up w)\<lparr>ud_state := s\<rparr>\<rparr>), 0)"
    by (simp add: call_func_def)
  then show thesis by (rule that)
qed

fun written :: "upd_act list \<Rightarrow> byte list" where
  "written [] = []"
| "written (Wrote d # as) = d @ written as"
| "written (a # as) = written as"

definition fetching :: "upd_act \<Rightarrow> bool" where
  "fetching a \<longleftrightarrow> a = Asked UPDATE_STATE_PROGRESS 0 \<or> (\<exists>d. a = Wrote d)"

lemma written_append [simp]: "written (as @ bs) = written as @ written bs"
  by (induction as rule: written.induct) simp_all

text \<open>The two callbacks against the one that only keeps a log.\<close>

definition info_state :: "('w, 'x) upd \<Rightarrow> log \<Rightarrow> ('w, 'x) upd \<Rightarrow> bool" where
  "info_state w0 cs w \<longleftrightarrow> (length (body_of cs) < UPDATE_BUF \<longrightarrow> w = w0\<lparr>uw_buf := body_of cs\<rparr>)"

interpretation info_log: answers_alike log_call "http_req_buf func" "info_state w0"
  for func :: "('w, 'x) update_func" and w0
proof
  fix v v' req d i and w w' :: "('w, 'x) upd" and j
  assume "info_state w0 v w" "req_state req \<noteq> HTTP_REQ_ERROR" "log_call v req d = (v', i)" "http_req_buf func w req d = (w', j)"
  then show "i = j \<and> info_state w0 v' w'"
    by (auto simp: log_call_def http_req_buf_def info_state_def split: http_req_state_t.splits if_splits)
qed

definition file_state :: "upd_act list \<Rightarrow> mem \<Rightarrow> update_error_t \<Rightarrow> log \<Rightarrow> ('w, 'x) upd \<Rightarrow> bool" where
  "file_state L path e cs w \<longleftrightarrow> (\<exists>as. uw_log w = L @ as \<and> list_all fetching as \<and> written as = body_of cs) \<and>
     ud_new_path (uw_up w) = path \<and> ud_error (uw_up w) = e"

lemma set_progress_keeps:
  "ud_new_path (set_progress t n c up) = ud_new_path up" "ud_error (set_progress t n c up) = ud_error up"
  by (simp_all add: set_progress_def Let_def)

lemma body_state:
  assumes agrees: "agrees func" and room: "\<And>d. length d \<le> sy_fwrite sys d"
    and "file_state L path e v w" "req_state req \<noteq> HTTP_REQ_ERROR" "http_req_prog sys func w req d = (w', j)"
  shows "j = 0 \<and> file_state L path e (v @ [(req_state req, d)]) w'"
proof (cases "req_state req = HTTP_REQ_BODY")
  case False
  then show ?thesis using assms by (auto simp: http_req_prog_def file_state_def split: http_req_state_t.splits)
next
  case True
  obtain as where as: "uw_log w = L @ as" "list_all fetching as" "written as = body_of v" "ud_new_path (uw_up w) = path" "ud_error (uw_up w) = e"
    using assms(3) by (auto simp: file_state_def)
  let ?w1 = "upd_log (Wrote d) w"
  let ?w3 = "?w1\<lparr>uw_len := uw_len ?w1 + length d, uw_ticks := uw_ticks ?w1 + 1\<rparr>"
  let ?t = "sy_clock sys (uw_ticks ?w1)"
  let ?w4 = "set_up (set_progress ?t (uw_len ?w3) (h_content_len (reply_hdr req))) ?w3"
  have eq: "http_req_prog sys func w req d = (if ud_prog_time_interval (uw_up ?w3) < ?t - ud_prog_time_update (uw_up ?w3)
      then call_func func UPDATE_STATE_PROGRESS ?w4 else (?w3, 0))"
    using room [of d] by (simp add: http_req_prog_def True Let_def tick_def not_less [symmetric])
  have w3: "file_state L path e (v @ [(req_state req, d)]) ?w3"
    using as True unfolding file_state_def by (intro conjI exI [of _ "as @ [Wrote d]"]) (simp_all add: upd_log_def fetching_def)
  obtain x where c: "call_func func UPDATE_STATE_PROGRESS ?w4 =
      (upd_log (Asked UPDATE_STATE_PROGRESS 0) (?w4\<lparr>uw_world := x, uw_up := (uw_up ?w4)\<lparr>ud_state := UPDATE_STATE_PROGRESS\<rparr>\<rparr>), 0)"
    using agrees_call [OF agrees] by blast
  have w4: "file_state L path e (v @ [(req_state req, d)])
      (upd_log (Asked UPDATE_STATE_PROGRESS 0) (?w4\<lparr>uw_world := x, uw_up := (uw_up ?w4)\<lparr>ud_state := UPDATE_STATE_PROGRESS\<rparr>\<rparr>))"
    using as True unfolding file_state_def
    by (intro conjI exI [of _ "as @ [Wrote d, Asked UPDATE_STATE_PROGRESS 0]"])
      (simp_all add: upd_log_def fetching_def set_up_def set_progress_keeps)
  show ?thesis using assms(5) w3 w4 unfolding eq c by (auto split: if_splits)
qed

lemma file_alike: "agrees func \<Longrightarrow> (\<And>d. length d \<le> sy_fwrite sys d) \<Longrightarrow> answers_alike log_call (http_req_prog sys func) (file_state L path e)"
proof
  fix v v' req d i w w' j
  assume a: "agrees func" "\<And>d. length d \<le> sy_fwrite sys d" "file_state L path e v w" "req_state req \<noteq> HTTP_REQ_ERROR"
    "log_call v req d = (v', i)" "http_req_prog sys func w req d = (w', j)"
  show "i = j \<and> file_state L path e v' w'" using body_state [OF a(1-4,6)] a(5) by (auto simp: log_call_def)
qed

lemma log_reports: "req_state req = HTTP_REQ_ERROR \<Longrightarrow> log_call v req d = (v', j) \<Longrightarrow> HTTP_REQ_ERROR \<in> fst ` set v'"
  by (auto simp: log_call_def)

section \<open>The steps\<close>

lemma info_read:
  assumes "\<forall>p. fs_files (sy_fs sys) p = None" "delivers sys url body" "length body < UPDATE_BUF"
  shows "http_get (sy_fs sys) (sy_net sys url) (sy_buf sys) (sy_hdr sys) (url @ [0]) (http_req_buf func) (w\<lparr>uw_buf := []\<rparr>) =
    Some (w\<lparr>uw_buf := body\<rparr>, 0)"
proof -
  obtain cs where cs: "http_get (sy_fs sys) (sy_net sys url) (sy_buf sys) (sy_hdr sys) (url @ [0]) log_call [] = Some (cs, 0)"
      "HTTP_REQ_ERROR \<notin> fst ` set cs" "body_of cs = body" using assms(2) by (auto simp: delivers_def)
  have "info_state w [] (w\<lparr>uw_buf := []\<rparr>)" by (simp add: info_state_def)
  then have "\<exists>w'. http_get (sy_fs sys) (sy_net sys url) (sy_buf sys) (sy_hdr sys) (url @ [0]) (http_req_buf func) (w\<lparr>uw_buf := []\<rparr>) = Some (w', 0) \<and>
      info_state w cs w'"
    by (rule info_log.http_get_alike [where bad = "\<lambda>v. HTTP_REQ_ERROR \<in> fst ` set v", OF _ _ assms(1) cs(1,2)]) (rule log_reports)
  then show ?thesis using cs(3) assms(3) by (auto simp: info_state_def)
qed

lemma file_read:
  assumes "\<forall>p. fs_files (sy_fs sys) p = None" "delivers sys url body" "agrees func" "\<And>d. length d \<le> sy_fwrite sys d"
  shows "\<exists>w' as. http_get (sy_fs sys) (sy_net sys url) (sy_buf sys) (sy_hdr sys) (url @ [0]) (http_req_prog sys func) w = Some (w', 0) \<and>
    uw_log w' = uw_log w @ as \<and> list_all fetching as \<and> written as = body \<and> ud_new_path (uw_up w') = ud_new_path (uw_up w) \<and>
    ud_error (uw_up w') = ud_error (uw_up w)"
proof -
  obtain cs where cs: "http_get (sy_fs sys) (sy_net sys url) (sy_buf sys) (sy_hdr sys) (url @ [0]) log_call [] = Some (cs, 0)"
      "HTTP_REQ_ERROR \<notin> fst ` set cs" "body_of cs = body" using assms(2) by (auto simp: delivers_def)
  have "file_state (uw_log w) (ud_new_path (uw_up w)) (ud_error (uw_up w)) [] w" by (simp add: file_state_def)
  then have "\<exists>w'. http_get (sy_fs sys) (sy_net sys url) (sy_buf sys) (sy_hdr sys) (url @ [0]) (http_req_prog sys func) w = Some (w', 0) \<and>
      file_state (uw_log w) (ud_new_path (uw_up w)) (ud_error (uw_up w)) cs w'"
    by (rule answers_alike.http_get_alike [where bad = "\<lambda>v. HTTP_REQ_ERROR \<in> fst ` set v", OF file_alike [OF assms(3,4)] _ _ assms(1) cs(1,2)])
      (rule log_reports)
  then show ?thesis using cs(3) by (auto simp: file_state_def)
qed

text \<open>What the XML says of a version.\<close>

definition describes :: "'x sys \<Rightarrow> byte list \<Rightarrow> (string \<times> byte list) list \<Rightarrow> bool" where
  "describes sys xml kvs \<longleftrightarrow> (\<exists>x. sy_xml_parse sys xml = Some x \<and> (\<forall>(k, v)\<in>set kvs. sy_xml_find_val sys x (bytes_of k) = Some v))"

text \<open>The name under which the file of an address is kept.\<close>

definition file_name :: "byte list \<Rightarrow> byte list \<Rightarrow> bool" where
  "file_name url name \<longleftrightarrow> (\<exists>u e p m. url_parse (url @ [0]) = Some (u, e) \<and> u_path u = Some p \<and> dir_basename (cstr p) 2048 = Some m \<and>
     string_at m 0 = Some name)"

definition start_command :: "byte list \<Rightarrow> byte list" where
  "start_command name = cut 65536 ([34] @ bytes_of ''./'' @ name @ [34])"

lemma run_read_old:
  assumes "describes sys xml [(''/version/version'', v0), (''/version/version_url'', url0)]"
  shows "\<exists>w'. read_old sys xml w = Some (w', None) \<and> ud_old_ver (uw_up w') = Some v0 \<and> ud_new_xml_url (uw_up w') = Some url0 \<and>
    uw_log w' = uw_log w"
  using assms by (auto simp: describes_def read_old_def Let_def set_up_def)

lemma run_read_new:
  assumes fs: "\<forall>p. fs_files (sy_fs sys) p = None" and info: "delivers sys url0 new_xml" "length new_xml < UPDATE_BUF"
    and new: "describes sys new_xml [(''/version/version'', v1), (''/version/product'', product), (''/version/update_details'', details),
      (''/version/install_url'', url1)]"
    and name: "file_name url1 name" and w: "ud_new_xml_url (uw_up w) = Some url0"
  shows "\<exists>w'. read_new sys func w = Some (w', None) \<and> ud_old_ver (uw_up w') = ud_old_ver (uw_up w) \<and> ud_new_ver (uw_up w') = Some v1 \<and>
    ud_new_product (uw_up w') = Some product \<and> ud_new_url (uw_up w') = Some url1 \<and>
    string_at (ud_new_path (uw_up w')) 0 = Some name \<and> uw_log w' = uw_log w"
proof -
  let ?w = "set_up (\<lambda>up. up\<lparr>ud_error_msg := msg_info, ud_error := UPDATE_ERROR_FILE_NOT_FOUND\<rparr>) w"
  have u: "ud_new_xml_url (uw_up ?w) = Some url0" using w by (simp add: set_up_def)
  obtain x where x: "sy_xml_parse sys new_xml = Some x" "sy_xml_find_val sys x (bytes_of ''/version/version'') = Some v1"
      "sy_xml_find_val sys x (bytes_of ''/version/product'') = Some product"
      "sy_xml_find_val sys x (bytes_of ''/version/update_details'') = Some details"
      "sy_xml_find_val sys x (bytes_of ''/version/install_url'') = Some url1" using new by (auto simp: describes_def)
  obtain url e p m where n: "url_parse (url1 @ [0]) = Some (url, e)" "u_path url = Some p" "dir_basename (cstr p) 2048 = Some m"
      "string_at m 0 = Some name" using name by (auto simp: file_name_def)
  have "read_new sys func w = read_values sys x (set_error UPDATE_ERROR_FILE_BAD (?w\<lparr>uw_buf := new_xml\<rparr>))"
    unfolding read_new_def Let_def using u info_read [OF fs info, of func ?w] x(1) by (simp add: set_error_def set_up_def)
  then show ?thesis using x n by (simp add: read_values_def Let_def set_up_def set_error_def)
qed

lemma run_ask:
  assumes "agrees func"
  shows "\<exists>w'. ask func s w = Some (w', None) \<and> uw_log w' = uw_log w @ [Asked s 0] \<and> uw_up w' = (uw_up w)\<lparr>ud_state := s\<rparr>"
proof -
  obtain x where "call_func func s w = (upd_log (Asked s 0) (w\<lparr>uw_world := x, uw_up := (uw_up w)\<lparr>ud_state := s\<rparr>\<rparr>), 0)"
    using agrees_call [OF assms] by blast
  then show ?thesis by (simp add: ask_def upd_log_def)
qed

lemma run_ask_update:
  assumes "agrees func" "ud_old_ver (uw_up w) = Some v0" "ud_new_ver (uw_up w) = Some v1" "ud_new_product (uw_up w) = Some product"
  shows "\<exists>w'. ask_update func w = Some (w', None) \<and> uw_log w' = uw_log w @ [Asked UPDATE_STATE_ASK 0] \<and>
    ud_new_url (uw_up w') = ud_new_url (uw_up w) \<and> ud_new_path (uw_up w') = ud_new_path (uw_up w)"
  using run_ask [OF assms(1), of UPDATE_STATE_ASK "set_up (\<lambda>up. up\<lparr>ud_error := UPDATE_ERROR_NONE, ud_cmp_newer := vercmp v0 v1 < 0,
         ud_prog_msg := cut 4096 (bytes_of ''A newer version of '' @ product @
           bytes_of '' is available.  Would you like to install it now?'')\<rparr>) w"] assms(2-4)
  by (auto simp: ask_update_def set_up_def)

lemma run_start_download:
  assumes "agrees func"
  shows "\<exists>w'. start_download sys func w = Some (w', None) \<and> uw_log w' = uw_log w @ [Asked UPDATE_STATE_DOWNLOAD 0] \<and>
    ud_new_url (uw_up w') = ud_new_url (uw_up w) \<and> ud_new_path (uw_up w') = ud_new_path (uw_up w)"
  using run_ask [OF assms(1), of UPDATE_STATE_DOWNLOAD "set_up (\<lambda>up. up\<lparr>ud_prog_msg := bytes_of ''Downloading file...'',
           ud_prog_time_interval := 1 / 5, ud_prog_time_start := sy_clock sys (uw_ticks w)\<rparr>) (w\<lparr>uw_ticks := uw_ticks w + 1\<rparr>)"]
  by (auto simp: start_download_def set_up_def tick_def Let_def)

lemma run_download:
  assumes fs: "\<forall>p. fs_files (sy_fs sys) p = None" and agrees: "agrees func"
    and prog: "delivers sys url body" "sy_fopen sys name" "\<And>d. length d \<le> sy_fwrite sys d"
    and w: "ud_new_url (uw_up w) = Some url" "string_at (ud_new_path (uw_up w)) 0 = Some name"
  shows "\<exists>w' as. download sys func w = Some (w', None) \<and> uw_log w' = uw_log w @ Opened name # as @ [Closed] \<and> list_all fetching as \<and>
    written as = body \<and> ud_new_path (uw_up w') = ud_new_path (uw_up w)"
proof -
  let ?w = "set_up (\<lambda>up. up\<lparr>ud_error := UPDATE_ERROR_FILE_NOT_FOUND, ud_error_msg := msg_download\<rparr>) w"
  let ?w1 = "upd_log (Opened name) (?w\<lparr>uw_len := 0\<rparr>)"
  have u: "ud_new_url (uw_up ?w) = Some url" "string_at (ud_new_path (uw_up ?w)) 0 = Some name" using w by (simp_all add: set_up_def)
  obtain w2 as where r: "http_get (sy_fs sys) (sy_net sys url) (sy_buf sys) (sy_hdr sys) (url @ [0]) (http_req_prog sys func) ?w1 = Some (w2, 0)"
      "uw_log w2 = uw_log ?w1 @ as" "list_all fetching as" "written as = body" "ud_new_path (uw_up w2) = ud_new_path (uw_up ?w1)"
    using file_read [OF fs prog(1) agrees prog(3), of ?w1] by blast
  have "download sys func w = Some (upd_log Closed w2, None)"
    unfolding download_def Let_def using u r(1) prog(2) by simp
  then show ?thesis using r(2-5) by (simp add: upd_log_def set_up_def)
qed

lemma run_install:
  assumes "agrees func" "string_at (ud_new_path (uw_up w)) 0 = Some name" "7 \<le> length name"
    "map tolower (drop (length name - 7) name) \<noteq> bytes_of ''.tar.gz''" "0 \<le> sy_start sys (start_command name)"
  shows "\<exists>w'. install sys func w = Some (w', Some 0) \<and> ud_error (uw_up w') = UPDATE_ERROR_NONE \<and>
    uw_log w' = uw_log w @ [Started (start_command name), Asked UPDATE_STATE_UPDATED 0]"
proof -
  let ?w = "set_up (\<lambda>up. up\<lparr>ud_error := UPDATE_ERROR_FILE_BAD, ud_error_msg := msg_install\<rparr>) w"
  let ?w1 = "set_error UPDATE_ERROR_NONE (upd_log (Started (start_command name)) ?w)"
  have u: "string_at (ud_new_path (uw_up ?w)) 0 = Some name" using assms(2) by (simp add: set_up_def)
  obtain x where c: "call_func func UPDATE_STATE_UPDATED ?w1 =
      (upd_log (Asked UPDATE_STATE_UPDATED 0) (?w1\<lparr>uw_world := x, uw_up := (uw_up ?w1)\<lparr>ud_state := UPDATE_STATE_UPDATED\<rparr>\<rparr>), 0)"
    using agrees_call [OF assms(1)] by blast
  have "install sys func w =
      Some (upd_log (Asked UPDATE_STATE_UPDATED 0) (?w1\<lparr>uw_world := x, uw_up := (uw_up ?w1)\<lparr>ud_state := UPDATE_STATE_UPDATED\<rparr>\<rparr>), Some 0)"
    unfolding install_def Let_def using u assms(3-5) c by (simp add: run_prog_def start_command_def)
  then show ?thesis by (simp add: upd_log_def set_error_def set_up_def)
qed

lemma installs:
  assumes fs: "\<forall>p. fs_files (sy_fs sys) p = None" and agrees: "agrees func"
    and old: "describes sys old_xml [(''/version/version'', v0), (''/version/version_url'', url0)]"
    and info: "delivers sys url0 new_xml" "length new_xml < UPDATE_BUF"
    and new: "describes sys new_xml [(''/version/version'', v1), (''/version/product'', product), (''/version/update_details'', details),
      (''/version/install_url'', url1)]"
    and name: "file_name url1 name" "7 \<le> length name" "map tolower (drop (length name - 7) name) \<noteq> bytes_of ''.tar.gz''"
    and prog: "delivers sys url1 body" "sy_fopen sys name" "\<And>d. length d \<le> sy_fwrite sys d" "0 \<le> sy_start sys (start_command name)"
  shows "\<exists>w as. update sys func old_xml x = Some (w, 0) \<and> list_all fetching as \<and> written as = body \<and>
    uw_log w = [Asked UPDATE_STATE_ASK 0, Asked UPDATE_STATE_DOWNLOAD 0, Opened name] @ as @
      [Closed, Asked UPDATE_STATE_INSTALL 0, Started (start_command name), Asked UPDATE_STATE_UPDATED 0]"
proof -
  let ?w = "\<lparr>uw_up = update_zero, uw_world = x, uw_log = [], uw_ticks = 0, uw_buf = [], uw_len = 0\<rparr>"
  obtain w1 where 1: "read_old sys old_xml ?w = Some (w1, None)" "ud_old_ver (uw_up w1) = Some v0"
      "ud_new_xml_url (uw_up w1) = Some url0" "uw_log w1 = []" using run_read_old [OF old, of ?w] by auto
  obtain w2 where 2: "read_new sys func w1 = Some (w2, None)" "ud_old_ver (uw_up w2) = Some v0" "ud_new_ver (uw_up w2) = Some v1"
      "ud_new_product (uw_up w2) = Some product" "ud_new_url (uw_up w2) = Some url1"
      "string_at (ud_new_path (uw_up w2)) 0 = Some name" "uw_log w2 = []"
    using run_read_new [OF fs info new name(1) 1(3), of func] 1 by auto
  obtain w3 where 3: "ask_update func w2 = Some (w3, None)" "uw_log w3 = [Asked UPDATE_STATE_ASK 0]" "ud_new_url (uw_up w3) = Some url1"
      "string_at (ud_new_path (uw_up w3)) 0 = Some name" using run_ask_update [OF agrees 2(2-4)] 2 by auto
  obtain w4 where 4: "start_download sys func w3 = Some (w4, None)" "uw_log w4 = [Asked UPDATE_STATE_ASK 0, Asked UPDATE_STATE_DOWNLOAD 0]"
      "ud_new_url (uw_up w4) = Some url1" "string_at (ud_new_path (uw_up w4)) 0 = Some name"
    using run_start_download [OF agrees, of sys w3] 3 by auto
  obtain w5 as where 5: "download sys func w4 = Some (w5, None)" "uw_log w5 = uw_log w4 @ Opened name # as @ [Closed]"
      "list_all fetching as" "written as = body" "string_at (ud_new_path (uw_up w5)) 0 = Some name"
    using run_download [OF fs agrees prog(1-3) 4(3,4)] 4(4) by auto
  obtain w6 where 6: "ask func UPDATE_STATE_INSTALL w5 = Some (w6, None)" "uw_log w6 = uw_log w5 @ [Asked UPDATE_STATE_INSTALL 0]"
      "string_at (ud_new_path (uw_up w6)) 0 = Some name" using run_ask [OF agrees, of UPDATE_STATE_INSTALL w5] 5(5) by auto
  obtain w7 where 7: "install sys func w6 = Some (w7, Some 0)" "ud_error (uw_up w7) = UPDATE_ERROR_NONE"
      "uw_log w7 = uw_log w6 @ [Started (start_command name), Asked UPDATE_STATE_UPDATED 0]"
    using run_install [OF agrees 6(3) name(2,3) prog(4)] by auto
  have "update sys func old_xml x = Some (w7, 0)"
    unfolding update_def Let_def using 1(1) 2(1) 3(1) 4(1) 5(1) 6(1) 7(1,2) by (simp add: go_on_def)
  then show ?thesis using 7(3) 6(2) 5(2-4) 4(2) by auto
qed

section \<open>The properties\<close>



section \<open>An example\<close>

definition setup_url_text :: "byte list" where
  "setup_url_text = url_text (bytes_of ''http'') (bytes_of ''a.org'') (bytes_of ''80'') (bytes_of ''/setup.exe'') [(bytes_of ''q'', bytes_of ''1'')]"

definition setup_url :: url where
  "setup_url = url_zero\<lparr>u_url := Some setup_url_text, u_proto := Some (bytes_of ''http''), u_host := Some (bytes_of ''a.org''),
     u_port := code_value (bytes_of ''80''), u_path_args := Some (bytes_of ''/setup.exe'' @ 63 # args_text [(bytes_of ''q'', bytes_of ''1'')]),
     u_path := Some (bytes_of ''/setup.exe''), u_args_str := Some (args_text [(bytes_of ''q'', bytes_of ''1'')]),
     u_args := Some (map arg_node [(bytes_of ''q'', bytes_of ''1'')])\<rparr>"

lemma setup_url_parsed: "url_parse (setup_url_text @ [0]) = Some (setup_url, URL_PARSE_ERR_OK)"
  unfolding setup_url_text_def setup_url_def
proof (rule url_reads)
  have c: "\<forall>c\<in>set (bytes_of ''http''). is_alnum c \<or> c = 95 \<or> c = 45 \<or> c = 46"
    "\<forall>c\<in>set (bytes_of ''a.org''). is_alnum c \<or> c = 95 \<or> c = 45 \<or> c = 46"
    "\<forall>c\<in>set (bytes_of ''/setup.exe''). c \<noteq> 0 \<and> c \<noteq> 37 \<and> c \<noteq> 63" "hd (bytes_of ''/setup.exe'') = 47" by code_simp+
  show "name_chars (bytes_of ''http'')" "name_chars (bytes_of ''a.org'')" "path_ok (bytes_of ''/setup.exe'')"
    "length (bytes_of ''80'') < URL_BUF_SIZE"
    using c by (simp_all add: name_chars_def path_ok_def URL_BUF_SIZE_def bytes_of_def)
  show "port_ok (bytes_of ''80'')" "[(bytes_of ''q'', bytes_of ''1'')] \<noteq> []"
    "\<forall>(k, v)\<in>set [(bytes_of ''q'', bytes_of ''1'')]. k \<noteq> [] \<and> v \<noteq> []" by code_simp+
qed

definition setup_sys :: "unit sys" where
  "setup_sys = \<lparr>sy_xml_parse = \<lambda>_. Some (), sy_xml_find_val = \<lambda>_ k. Some (if k = bytes_of ''/version/version_url'' \<or>
       k = bytes_of ''/version/install_url'' then setup_url_text else bytes_of ''1.0''),
     sy_net = \<lambda>_. sample_net, sy_fs = \<lparr>fs_files = \<lambda>_. None, fs_dirs = [], fs_locked = \<lambda>_. False, fs_errno = 0\<rparr>,
     sy_buf = replicate GET_BUF 7, sy_hdr = http_zero, sy_clock = \<lambda>n. real n, sy_fopen = \<lambda>_. True, sy_fwrite = length,
     sy_run = \<lambda>_. 0, sy_start = \<lambda>_. 1, sy_chdir = \<lambda>_. 0, sy_stat = \<lambda>_. False\<rparr>"

lemma setup_delivers: "delivers setup_sys setup_url_text [65, 66, 67]"
proof -
  let ?ss = "[bytes_of ''HTTP/1.0 20'', bytes_of ''0 Ok'' @ [10] @ bytes_of ''Content-Length: 0x10'' @ [10, 10, 65], [66, 67]]"
  let ?pre = "[(HTTP_REQ_RESOLVE, resolve_text setup_url), (HTTP_REQ_CONNECT, connect_text sample_net setup_url),
    (HTTP_REQ_SEND, get_text setup_url), (HTTP_REQ_HEAD, response_text (bytes_of ''HTTP/1.0'') (bytes_of ''200'') (bytes_of ''Ok'') sample_hdrs)]"
  have "\<exists>ds. http_get (sy_fs setup_sys) (sy_net setup_sys setup_url_text) (sy_buf setup_sys) (sy_hdr setup_sys) (setup_url_text @ [0]) log_call [] =
    Some (?pre @ body_log ds @ [(HTTP_REQ_EOF, [])], 0) \<and> concat ds = [65, 66, 67]"
    unfolding setup_sys_def sys.simps
  proof (rule http_get_logs)
    show "url_parse (setup_url_text @ [0]) = Some (setup_url, URL_PARSE_ERR_OK)" by (rule setup_url_parsed)
    show "u_proto setup_url = Some (bytes_of ''http'')" by (simp add: setup_url_def)
    show "n_socket sample_net" "n_connect sample_net" "\<forall>d. 0 \<le> n_send sample_net d" "n_in sample_net = segments ?ss"
      by (simp_all add: sample_net_def)
    show "[] \<notin> set ?ss" "concat ?ss = response_text (bytes_of ''HTTP/1.0'') (bytes_of ''200'') (bytes_of ''Ok'') sample_hdrs @ [65, 66, 67]"
      by code_simp+
    show "map tolower (cstr (bytes_of ''http'')) = bytes_of ''http''" "token_ok (bytes_of ''HTTP/1.0'')"
      "take 5 (cstr (kept (bytes_of ''HTTP/1.0''))) = bytes_of ''HTTP/''" "code_ok (bytes_of ''200'')" "code_value (bytes_of ''200'') = 200"
      "value_ok (bytes_of ''Ok'')" "list_all header_ok sample_hdrs" by code_simp+
    have "length (response_text (bytes_of ''HTTP/1.0'') (bytes_of ''200'') (bytes_of ''Ok'') sample_hdrs) \<le> 100" by code_simp
    then show "length (response_text (bytes_of ''HTTP/1.0'') (bytes_of ''200'') (bytes_of ''Ok'') sample_hdrs) \<le> GET_BUF"
      by (simp add: GET_BUF_def)
    have "length (resolve_text setup_url) \<le> 100" "length (connect_text sample_net setup_url) \<le> 100" "length (get_text setup_url) \<le> 100"
      by code_simp+
    then show "text_fits (resolve_text setup_url)" "text_fits (connect_text sample_net setup_url)" "text_fits (get_text setup_url)"
      by (simp_all add: text_fits_def GET_BUF_def)
    show "length (replicate GET_BUF 7) = GET_BUF" by simp
  qed
  then obtain ds where "http_get (sy_fs setup_sys) (sy_net setup_sys setup_url_text) (sy_buf setup_sys) (sy_hdr setup_sys) (setup_url_text @ [0])
      log_call [] = Some (?pre @ body_log ds @ [(HTTP_REQ_EOF, [])], 0)" "concat ds = [65, 66, 67]" by blast
  then show ?thesis unfolding delivers_def by (intro exI conjI) (assumption, simp_all)
qed

lemma setup_name: "file_name setup_url_text (bytes_of ''setup.exe'')"
proof -
  let ?n = "bytes_of ''setup.exe''"
  have b: "dir_basename (cstr (bytes_of ''/setup.exe'')) n = Some (take n (?n @ replicate n 0))" for n
  proof -
    have "cstr (bytes_of ''/setup.exe'') = 47 # ?n" "back_over sep_or_zero (47 # ?n @ [0]) 10 = 9"
      "back_over (\<lambda>c. \<not> sep_or_zero c) (47 # ?n @ [0]) 9 = 0" "sep_or_zero 47" "length ?n = 9" by code_simp+
    then show ?thesis by (simp add: dir_basename_def Let_def)
  qed
  have "length ?n = 9" "0 \<notin> set ?n" by code_simp+
  then have "string_at (take 2048 (?n @ replicate 2048 0)) 0 = Some ?n"
    by (simp add: string_at_def cstr_def takeWhile_append)
  then show ?thesis using setup_url_parsed b by (auto simp: file_name_def setup_url_def)
qed

definition yes :: "(unit, unit) update_func" where
  "yes x up = (x, up, 0)"

lemma setup_facts:
  "\<forall>p. fs_files (sy_fs setup_sys) p = None" "agrees yes"
  "describes setup_sys [] [(''/version/version'', bytes_of ''1.0''), (''/version/version_url'', setup_url_text)]"
  "length [65, 66, 67 :: byte] < UPDATE_BUF"
  "describes setup_sys [65, 66, 67] [(''/version/version'', bytes_of ''1.0''), (''/version/product'', bytes_of ''1.0''),
      (''/version/update_details'', bytes_of ''1.0''), (''/version/install_url'', setup_url_text)]"
  "7 \<le> length (bytes_of ''setup.exe'')"
  "map tolower (drop (length (bytes_of ''setup.exe'') - 7) (bytes_of ''setup.exe'')) \<noteq> bytes_of ''.tar.gz''"
  "sy_fopen setup_sys (bytes_of ''setup.exe'')" "length d \<le> sy_fwrite setup_sys d" "0 \<le> sy_start setup_sys c"
proof -
  let ?k = "[bytes_of ''/version/version'', bytes_of ''/version/product'', bytes_of ''/version/update_details'']"
  have k: "\<forall>k\<in>set ?k. k \<noteq> bytes_of ''/version/version_url'' \<and> k \<noteq> bytes_of ''/version/install_url''" by code_simp
  show "describes setup_sys [] [(''/version/version'', bytes_of ''1.0''), (''/version/version_url'', setup_url_text)]"
    "describes setup_sys [65, 66, 67] [(''/version/version'', bytes_of ''1.0''), (''/version/product'', bytes_of ''1.0''),
      (''/version/update_details'', bytes_of ''1.0''), (''/version/install_url'', setup_url_text)]"
    using k by (simp_all add: describes_def setup_sys_def)
  show "7 \<le> length (bytes_of ''setup.exe'')"
    "map tolower (drop (length (bytes_of ''setup.exe'') - 7) (bytes_of ''setup.exe'')) \<noteq> bytes_of ''.tar.gz''" by code_simp+
qed (simp_all add: setup_sys_def yes_def agrees_def UPDATE_BUF_def)

definition setup_log :: "upd_act list \<Rightarrow> upd_act list" where
  "setup_log as = [Asked UPDATE_STATE_ASK 0, Asked UPDATE_STATE_DOWNLOAD 0, Opened (bytes_of ''setup.exe'')] @ as @
      [Closed, Asked UPDATE_STATE_INSTALL 0, Started (start_command (bytes_of ''setup.exe'')), Asked UPDATE_STATE_UPDATED 0]"


lemma setup_run:
  "\<exists>w as. update setup_sys yes [] () = Some (w, 0) \<and> list_all fetching as \<and> written as = [65, 66, 67] \<and> uw_log w = setup_log as"
  unfolding setup_log_def
  by (rule installs [OF setup_facts(1-3) setup_delivers setup_facts(4,5) setup_name setup_facts(6,7) setup_delivers setup_facts(8-10)])


end
