(* ===== verification/Sock.thy ===== *)
theory Sock
  imports Readable
begin

unbundle bit_operations_syntax

text \<open>
  \<open>sock.c\<close> and the inline functions of \<open>sock.h\<close>: internet addresses as text and as numbers, and the loop that moves a whole
  buffer with a time limit. The resolver and the system calls are parameters or lists of the results still to come. Addresses
  are in host order, except those in a \<open>sockaddr_in\<close>, which are in network order.
\<close>

section \<open>Addresses\<close>

record sockaddr_in =
  sin_family :: int
  sin_addr :: u32
  sin_port :: u16

definition AF_INET :: int where "AF_INET = 2"
definition INADDR_NONE :: int where "INADDR_NONE = 0xffffffff"
definition INADDR_ANY :: int where "INADDR_ANY = 0"
definition INADDR_LOOPBACK :: u64 where "INADDR_LOOPBACK = 0x7f000001"

text \<open>
  \<open>inet_addr\<close> gives network order; \<open>gethostbyname\<close> gives the memory at \<open>h_addr\<close>, of which an \<open>unsigned long\<close> is read. The
  result of \<open>ntohl\<close> has 32 bits and no sign.
\<close>

definition inet_resolve :: "(byte list \<Rightarrow> u32) \<Rightarrow> (byte list \<Rightarrow> byte list option) \<Rightarrow> byte list \<Rightarrow> int option" where
  "inet_resolve inet_addr gethostbyname hostname =
     (let l = uint (ntohl (inet_addr hostname))
      in if l \<noteq> INADDR_NONE then Some l
         else case gethostbyname hostname of
                None \<Rightarrow> Some INADDR_NONE
              | Some h \<Rightarrow> if length h < 8 then None else Some (uint (ntohl (le32 (h ! 0) (h ! 1) (h ! 2) (h ! 3)))))"

definition addr_zero :: sockaddr_in where "addr_zero = \<lparr>sin_family = 0, sin_addr = 0, sin_port = 0\<rparr>"

definition iaddr_pack :: "int \<Rightarrow> int \<Rightarrow> sockaddr_in \<times> int" where
  "iaddr_pack ip port =
     (\<lparr>sin_family = AF_INET, sin_addr = htonl (word_of_int ip), sin_port = htons (word_of_int port)\<rparr>, 16)"

text \<open>The bytes of an address as they are in memory.\<close>

definition inet_ntoa :: "u32 \<Rightarrow> byte list" where
  "inet_ntoa a = join (bytes_of ''.'') (map (\<lambda>b. bytes_of (dec_int (uint b))) (bytes_of32 a))"

definition addr_text :: "sockaddr_in \<Rightarrow> byte list" where
  "addr_text addr = inet_ntoa (sin_addr addr) @ bytes_of '':'' @ bytes_of (dec_int (uint (ntohs (sin_port addr))))"

definition iaddr_fmt :: "sockaddr_in \<Rightarrow> mem \<Rightarrow> int \<Rightarrow> mem option" where
  "iaddr_fmt addr buf len = map_option fst (snprintf_size buf 0 len (addr_text addr))"

definition iaddr_parse ::
    "(byte list \<Rightarrow> u32) \<Rightarrow> (byte list \<Rightarrow> byte list option) \<Rightarrow> byte list \<Rightarrow> (sockaddr_in \<times> int) option" where
  "iaddr_parse inet_addr gethostbyname ip_port =
     do {
       let buf = take 4095 ip_port;
       let host = takeWhile (\<lambda>c. c \<noteq> 58) buf;
       ip \<leftarrow> (if 58 \<in> set buf then inet_resolve inet_addr gethostbyname host else Some INADDR_ANY);
       if 58 \<in> set buf \<and> ip = INADDR_NONE then Some (addr_zero, - 1)
       else do {
         let (port, n) = strtoul (if 58 \<in> set buf then drop (length host + 1) buf else buf) 0;
         if n = 0 \<or> to_i32 port < 0 then Some (addr_zero, - 1) else Some (iaddr_pack ip (to_i32 port))
       }
     }"

definition iaddr_ntoa :: "u64 \<Rightarrow> mem \<Rightarrow> mem option" where
  "iaddr_ntoa i buf = map_option fst (snprintf_size buf 0 20 (inet_ntoa (ucast i)))"

text \<open>\<open>%d\<close> of \<open>sscanf\<close>: white space, a sign, digits; the number is read as a \<open>long\<close> and stored as an \<open>int\<close>.\<close>

definition scan_int :: "byte list \<Rightarrow> (int \<times> byte list) option" where
  "scan_int s =
     (let r = dropWhile is_space s;
          neg = (r \<noteq> [] \<and> hd r = 45);
          r = (if r \<noteq> [] \<and> (hd r = 43 \<or> hd r = 45) then tl r else r);
          ds = takeWhile is_digit r;
          v = dec_val ds
      in if ds = [] then None
         else Some (to_i32 (if neg then max (- v) (- (2 ^ 63)) else min v (2 ^ 63 - 1)), drop (length ds) r))"

definition scan_dot :: "byte list \<Rightarrow> byte list option" where
  "scan_dot s = (case s of c # r \<Rightarrow> if c = 46 then Some r else None | [] \<Rightarrow> None)"

fun scan_more :: "nat \<Rightarrow> byte list \<Rightarrow> int list option" where
  "scan_more 0 s = Some []"
| "scan_more (Suc n) s = do { s \<leftarrow> scan_dot s; (a, s) \<leftarrow> scan_int s; as \<leftarrow> scan_more n s; Some (a # as) }"

fun aton_loop :: "int list \<Rightarrow> u64 \<Rightarrow> u64 option" where
  "aton_loop [] addr = Some addr"
| "aton_loop (a # as) addr = (if 0 \<le> a \<and> a \<le> 255 then aton_loop as (push_bit 8 addr OR word_of_int a) else None)"

definition iaddr_aton :: "byte list \<Rightarrow> u64" where
  "iaddr_aton buf =
     (case do { (a, s) \<leftarrow> scan_int buf; as \<leftarrow> scan_more 3 s; aton_loop (a # as) 0 } of Some addr \<Rightarrow> addr | None \<Rightarrow> 0)"

text \<open>Addresses of local sockets; the length of a path that fills the field is looked for behind it.\<close>

definition uaddr_len :: "byte list \<Rightarrow> int option" where
  "uaddr_len sun_path = map_option (\<lambda>s. 2 + int (length s)) (string_at sun_path 0)"

definition uaddr_pack :: "byte list \<Rightarrow> (byte list \<times> int) option" where
  "uaddr_pack path = do { let p = take 108 (path @ replicate 108 0); n \<leftarrow> uaddr_len p; Some (p, n) }"

section \<open>Networks\<close>

text \<open>\<open>IADDR\<close> is an expression of type \<open>int\<close>, extended with its sign when it is passed.\<close>

definition IADDR :: "u32 \<Rightarrow> u32 \<Rightarrow> u32 \<Rightarrow> u32 \<Rightarrow> u64" where
  "IADDR a b c d = scast (push_bit 24 (a AND 0xff) OR push_bit 16 (b AND 0xff) OR push_bit 8 (c AND 0xff) OR (d AND 0xff) :: u32)"

definition ipaddr_netmask :: "u64 \<Rightarrow> u64 \<Rightarrow> u64 \<Rightarrow> bool" where
  "ipaddr_netmask addr network netmask \<longleftrightarrow> addr AND netmask = network AND netmask"

definition ipaddr_netbits :: "u64 \<Rightarrow> u64 \<Rightarrow> nat \<Rightarrow> bool" where
  "ipaddr_netbits addr network netmask_bits = ipaddr_netmask addr network (scast (NOT (push_bit netmask_bits (1 :: u32) - 1)))"

definition ipaddr_routable :: "u64 \<Rightarrow> bool" where
  "ipaddr_routable ipaddr \<longleftrightarrow> \<not> (ipaddr = 0 \<or> ipaddr = INADDR_LOOPBACK \<or> ipaddr_netbits ipaddr (IADDR 127 0 0 0) 8 \<or>
     ipaddr_netbits ipaddr (IADDR 10 0 0 0) 8 \<or> ipaddr_netbits ipaddr (IADDR 192 168 0 0) 16 \<or> ipaddr_netbits ipaddr (IADDR 172 16 0 0) 16)"

section \<open>Moving a buffer with a time limit\<close>

text \<open>
  \<open>func\<close> works on the state of the system and the buffer from \<open>off\<close> on; it gives its result and whether it would have blocked.
  \<open>sel\<close> waits with the time limit. The loop may go on forever when the system does.
\<close>

type_synonym 'w sock_func = "'w \<Rightarrow> mem \<Rightarrow> int \<Rightarrow> int \<Rightarrow> ('w \<times> mem \<times> int \<times> bool) option"

partial_function (option) timeout_loop ::
    "'w sock_func \<Rightarrow> ('w \<Rightarrow> 'w \<times> int) \<Rightarrow> 'w \<Rightarrow> mem \<Rightarrow> int \<Rightarrow> int \<Rightarrow> ('w \<times> mem \<times> int) option" where
  "timeout_loop func sel w buf off len =
     (if len \<le> 0 then Some (w, buf, - 1)
      else do {
        (w, buf, i, block) \<leftarrow> func w buf off len;
        if i > 0 then
          (if \<not> i \<le> len then Some (w, buf, - 1)
           else if len - i = 0 then Some (w, buf, off + i)
           else timeout_loop func sel w buf (off + i) (len - i))
        else if \<not> block then Some (w, buf, - 1)
        else case sel w of (w, i) \<Rightarrow>
          if i < 0 then Some (w, buf, - 1)
          else if i = 0 then Some (w, buf, off)
          else timeout_loop func sel w buf off len
      })"

definition sock_func_timeout ::
    "'w sock_func \<Rightarrow> ('w \<Rightarrow> 'w \<times> int) \<Rightarrow> 'w \<Rightarrow> mem \<Rightarrow> int \<Rightarrow> ('w \<times> mem \<times> int) option" where
  "sock_func_timeout func sel w buf len = timeout_loop func sel w buf 0 len"

text \<open>
  The system: what its calls return and \<open>select\<close> returns, in turn; when there is nothing more a call blocks and \<open>select\<close> times out.
  \<open>sk_in\<close> is what can still be received, \<open>sk_log\<close> what was sent or received.
\<close>

datatype sk_result = Result nat | Blocks | Fails

record sk =
  sk_calls :: "sk_result list"
  sk_waits :: "int list"
  sk_in :: "byte list"
  sk_log :: "byte list"

definition sys_call :: "sk \<Rightarrow> sk \<times> int \<times> bool" where
  "sys_call w =
     (case sk_calls w of
        [] \<Rightarrow> (w, - 1, True)
      | Result n # r \<Rightarrow> (w\<lparr>sk_calls := r\<rparr>, int n, False)
      | Blocks # r \<Rightarrow> (w\<lparr>sk_calls := r\<rparr>, - 1, True)
      | Fails # r \<Rightarrow> (w\<lparr>sk_calls := r\<rparr>, - 1, False))"

definition sys_select :: "sk \<Rightarrow> sk \<times> int" where
  "sys_select w = (case sk_waits w of [] \<Rightarrow> (w, 0) | i # r \<Rightarrow> (w\<lparr>sk_waits := r\<rparr>, i))"

definition sock_func_send :: "sk sock_func" where
  "sock_func_send w buf off len =
     do {
       d \<leftarrow> slice buf off len;
       let (w, i, b) = sys_call w;
       let i = min i len;
       Some (w\<lparr>sk_log := sk_log w @ take (nat i) d\<rparr>, buf, i, b)
     }"

definition sock_func_recv :: "sk sock_func" where
  "sock_func_recv w buf off len =
     do {
       d0 \<leftarrow> slice buf off len;
       let (w, i, b) = sys_call w;
       let i = min (min i len) (int (length (sk_in w)));
       let d = take (nat i) (sk_in w);
       buf \<leftarrow> blit buf off d;
       Some (w\<lparr>sk_in := drop (nat i) (sk_in w), sk_log := sk_log w @ d\<rparr>, buf, i, b)
     }"

text \<open>For \<open>accept\<close> and \<open>connect\<close> the buffer is an address, which is not looked at; the call returns a descriptor or zero.\<close>

definition sock_func_accept :: "sk sock_func" where
  "sock_func_accept w buf off len = (let (w, i, b) = sys_call w in Some (w, buf, if i = 0 then len else i, b))"

definition sock_func_connect :: "sk sock_func" where
  "sock_func_connect w buf off len = (let (w, i, b) = sys_call w in Some (w, buf, if i = 0 then len else i, b))"

definition sock_recv_timeout :: "sk \<Rightarrow> mem \<Rightarrow> int \<Rightarrow> (sk \<times> mem \<times> int) option" where
  "sock_recv_timeout = sock_func_timeout sock_func_recv sys_select"

definition sock_send_timeout :: "sk \<Rightarrow> mem \<Rightarrow> int \<Rightarrow> (sk \<times> mem \<times> int) option" where
  "sock_send_timeout = sock_func_timeout sock_func_send sys_select"

definition sock_accept_timeout :: "sk \<Rightarrow> mem \<Rightarrow> int \<Rightarrow> (sk \<times> mem \<times> int) option" where
  "sock_accept_timeout = sock_func_timeout sock_func_accept sys_select"

definition sock_connect_timeout :: "sk \<Rightarrow> mem \<Rightarrow> int \<Rightarrow> (sk \<times> mem \<times> int) option" where
  "sock_connect_timeout = sock_func_timeout sock_func_connect sys_select"

section \<open>What is not routable\<close>

text \<open>A network of \<open>n\<close> bits is compared in all but its last \<open>n\<close> bits.\<close>

lemma netbits_low:
  assumes "n < 31"
  shows "ipaddr_netbits addr network n \<longleftrightarrow> drop_bit n addr = drop_bit n network"
proof -
  have mask: "push_bit n (1 :: u32) - 1 = mask n" by (simp only: mask_eq_exp_minus_1 push_bit_of_1)
  define M where "M = (scast (NOT (push_bit n (1 :: u32) - 1)) :: u64)"
  have m: "bit M k \<longleftrightarrow> n \<le> k \<and> k < 64" for k
    unfolding M_def mask using assms by (auto simp: bit_signed_iff bit_not_iff bit_mask_iff min_def)
  have bits: "ipaddr_netbits addr network n \<longleftrightarrow> addr AND M = network AND M"
    by (simp add: ipaddr_netbits_def ipaddr_netmask_def M_def)
  show ?thesis unfolding bits
  proof
    assume e: "addr AND M = network AND M"
    show "drop_bit n addr = drop_bit n network"
    proof (rule bit_eqI)
      fix k assume "possible_bit TYPE(u64) k"
      have "bit (addr AND M) (n + k) = bit (network AND M) (n + k)" by (simp only: e)
      then show "bit (drop_bit n addr) k = bit (drop_bit n network) k"
        by (auto simp: bit_drop_bit_eq bit_and_iff m dest: bit_imp_le_length)
    qed
  next
    assume e: "drop_bit n addr = drop_bit n network"
    have "bit addr k = bit network k" if "n \<le> k" for k
      using arg_cong [OF e, of "\<lambda>x. bit x (k - n)"] that by (simp add: bit_drop_bit_eq)
    then show "addr AND M = network AND M" by (intro bit_eqI) (auto simp: bit_and_iff m)
  qed
qed

text \<open>
  Contrary to RFC 1918, which the code quotes, of all addresses only 0.0.0.0, 127.0.0.0 to 127.0.0.255 and 10.0.0.0 to
  10.0.0.255 are not routable: the number of bits is taken from the wrong end, and the constants with a first byte from
  128 on are extended with their sign.
\<close>

theorem routable_exactly:
  "ipaddr_routable (ucast (a :: u32)) \<longleftrightarrow> a \<noteq> 0 \<and> drop_bit 8 a \<noteq> 0x7f0000 \<and> drop_bit 8 a \<noteq> 0x0a0000"
proof -
  have c: "drop_bit 8 (IADDR 127 0 0 0) = 0x7f0000" "drop_bit 8 (IADDR 10 0 0 0) = 0x0a0000"
    "drop_bit 16 (IADDR 192 168 0 0) = 0xffffffffc0a8" "drop_bit 16 (IADDR 172 16 0 0) = 0xffffffffac10" by code_simp+
  have d: "drop_bit k (ucast a :: u64) = ucast (drop_bit k a)" for k
    by (rule bit_eqI) (auto simp: bit_drop_bit_eq bit_ucast_iff dest: bit_imp_le_length)
  have far: "(ucast (drop_bit 16 a) :: u64) \<noteq> x" if "bit x 40" for x
    using that bit_imp_le_length [of a 56] by (auto simp: bit_ucast_iff bit_drop_bit_eq)
  have b: "bit (0xffffffffc0a8 :: u64) 40" "bit (0xffffffffac10 :: u64) 40" by code_simp+
  have narrow: "(ucast (ucast x :: u64) :: u32) = x" for x :: u32
    by (rule bit_eqI) (auto simp: bit_ucast_iff dest: bit_imp_le_length)
  have inj: "(ucast v :: u64) = ucast w \<longleftrightarrow> v = w" for v w :: u32
    by (metis narrow)
  have same: "(ucast (drop_bit 8 a) :: u64) = 0x7f0000 \<longleftrightarrow> drop_bit 8 a = 0x7f0000"
    "(ucast (drop_bit 8 a) :: u64) = 0x0a0000 \<longleftrightarrow> drop_bit 8 a = 0x0a0000"
    using inj [of "drop_bit 8 a" "0x7f0000"] inj [of "drop_bit 8 a" "0x0a0000"] by simp_all
  have net: "ipaddr_netbits (ucast a) (IADDR 127 0 0 0) 8 \<longleftrightarrow> drop_bit 8 a = 0x7f0000"
    "ipaddr_netbits (ucast a) (IADDR 10 0 0 0) 8 \<longleftrightarrow> drop_bit 8 a = 0x0a0000"
    "\<not> ipaddr_netbits (ucast a) (IADDR 192 168 0 0) 16" "\<not> ipaddr_netbits (ucast a) (IADDR 172 16 0 0) 16"
    using same far b by (simp_all add: netbits_low d c)
  have "drop_bit 8 a = 0x7f0000" if "ucast a = INADDR_LOOPBACK"
  proof -
    have "ucast (drop_bit 8 a) = drop_bit 8 INADDR_LOOPBACK" using d [of 8] that by simp
    also have "drop_bit 8 INADDR_LOOPBACK = 0x7f0000" by code_simp
    finally show ?thesis using same(1) by simp
  qed
  moreover have "ucast a = (0 :: u64) \<longleftrightarrow> a = 0" by (metis narrow unsigned_0)
  ultimately show ?thesis using net(3,4) unfolding ipaddr_routable_def net(1,2) by blast
qed

section \<open>The loop returns and moves the bytes in order\<close>

text \<open>
  What one call promises: it works on the buffer from \<open>off\<close> on and moves as many bytes as it says, does to the rest of the
  buffer only what \<open>keeps\<close> allows, and \<open>select\<close> reports the socket ready only so often.
\<close>

abbreviation part :: "mem \<Rightarrow> int \<Rightarrow> int \<Rightarrow> byte list" where
  "part buf off n \<equiv> take (nat n) (drop (nat off) buf)"

locale transfer =
  fixes func :: "'w sock_func"
    and sel :: "'w \<Rightarrow> 'w \<times> int"
    and moved :: "'w \<Rightarrow> byte list"
    and left :: "'w \<Rightarrow> nat"
    and keeps :: "int \<Rightarrow> mem \<Rightarrow> mem \<Rightarrow> bool"
  assumes call: "0 \<le> off \<Longrightarrow> 0 < len \<Longrightarrow> off + len \<le> int (length buf) \<Longrightarrow>
      \<exists>w' buf' i b. func w buf off len = Some (w', buf', i, b) \<and> i \<le> len \<and> left w' \<le> left w \<and> keeps off buf buf' \<and>
        moved w' = moved w @ part buf' off i"
    and wait: "sel w = (w', i) \<Longrightarrow> moved w' = moved w \<and> (0 < i \<longrightarrow> left w' < left w)"
    and keeps_refl: "keeps off buf buf"
    and keeps_trans: "keeps off a b \<Longrightarrow> off \<le> off' \<Longrightarrow> keeps off' b c \<Longrightarrow> keeps off a c"
    and keeps_front: "keeps off a b \<Longrightarrow> length b = length a \<and> take (nat off) b = take (nat off) a"
begin

lemma part_join:
  assumes "0 \<le> off" "0 \<le> i" "0 \<le> n" "keeps (off + i) a b"
  shows "part a off i @ part b (off + i) n = part b off (i + n)"
proof -
  have "take (nat (off + i)) a = take (nat (off + i)) b" using keeps_front [OF assms(4)] by simp
  then have "drop (nat off) (take (nat off + nat i) a) = drop (nat off) (take (nat off + nat i) b)"
    using assms by (simp add: nat_add_distrib)
  then have "part a off i = part b off i" by (simp add: drop_take)
  then show ?thesis using assms by (simp add: nat_add_distrib take_add add.commute)
qed

lemma loop_moves:
  assumes "0 \<le> off" "0 < len" "off + len \<le> int (length buf)"
  shows "\<exists>w' buf' r n. timeout_loop func sel w buf off len = Some (w', buf', r) \<and> keeps off buf buf' \<and>
    0 \<le> n \<and> n \<le> len \<and> moved w' = moved w @ part buf' off n \<and>
    (r = - 1 \<or> r = off + n \<and> (n = len \<or> (\<exists>v. sel v = (w', 0))))"
  using assms
proof (induction "nat len + left w" arbitrary: w buf off len rule: less_induct)
  case less
  obtain w1 buf1 i b where f: "func w buf off len = Some (w1, buf1, i, b)" "i \<le> len" "left w1 \<le> left w"
      "keeps off buf buf1" "moved w1 = moved w @ part buf1 off i"
    using call [OF less.prems] by blast
  note l = timeout_loop.simps [of func sel w buf off len]
  have long: "length buf1 = length buf" using keeps_front [OF f(4)] by simp
  show ?case
  proof (cases "0 < i")
    case more: True
    show ?thesis
    proof (cases "len = i")
      case True
      then show ?thesis using l f more less.prems by (intro exI [of _ w1] exI [of _ buf1] exI [of _ "off + i"] exI [of _ i]) simp
    next
      case False
      then have "nat (len - i) + left w1 < nat len + left w" "0 < len - i" "off + i + (len - i) \<le> int (length buf1)" "0 \<le> off + i"
        using f(2,3) more less.prems long by simp_all
      note h = less.hyps [OF this(1,4,2,3)]
      obtain w' buf' r n where r: "timeout_loop func sel w1 buf1 (off + i) (len - i) = Some (w', buf', r)"
          "keeps (off + i) buf1 buf'" "0 \<le> n" "n \<le> len - i" "moved w' = moved w1 @ part buf' (off + i) n"
          "r = - 1 \<or> r = off + i + n \<and> (n = len - i \<or> (\<exists>v. sel v = (w', 0)))"
        using h by blast
      have "moved w' = moved w @ part buf' off (i + n)"
        using r f part_join [of off i n buf1 buf'] more less.prems by simp
      moreover have "keeps off buf buf'" using keeps_trans [OF f(4) _ r(2)] more by simp
      moreover have "timeout_loop func sel w buf off len = Some (w', buf', r)" using l f more False less.prems r(1) by simp
      ultimately show ?thesis using r more
        by (intro exI [of _ w'] exI [of _ buf'] exI [of _ r] exI [of _ "i + n"]) auto
    qed
  next
    case no: False
    then have same: "moved w1 = moved w" using f(5) by simp
    obtain w2 j where s: "sel w1 = (w2, j)" by (cases "sel w1")
    note w = wait [OF s]
    consider "\<not> b \<or> j < 0" | "b" "j = 0" | "b" "0 < j" by linarith
    then show ?thesis
    proof cases
      case 1
      then have "\<exists>w'. timeout_loop func sel w buf off len = Some (w', buf1, - 1) \<and> moved w' = moved w"
        using l f no less.prems s w same by (cases b) auto
      then show ?thesis using f(4) less.prems by (metis append.right_neutral less_imp_le nat_0 order_refl take_0)
    next
      case 2
      then have "timeout_loop func sel w buf off len = Some (w2, buf1, off)" using l f no less.prems s by simp
      moreover have "moved w2 = moved w @ part buf1 off 0" using w same by simp
      ultimately show ?thesis using f(4) less.prems s 2
        by (intro exI [of _ w2] exI [of _ buf1] exI [of _ off] exI [of _ 0]) auto
    next
      case 3
      then have step: "timeout_loop func sel w buf off len = timeout_loop func sel w2 buf1 off len"
        using l f no less.prems s by simp
      have "nat len + left w2 < nat len + left w" using w 3 f(3) by simp
      then obtain w' buf' r n where r: "timeout_loop func sel w2 buf1 off len = Some (w', buf', r)"
          "keeps off buf1 buf'" "0 \<le> n" "n \<le> len" "moved w' = moved w2 @ part buf' off n"
          "r = - 1 \<or> r = off + n \<and> (n = len \<or> (\<exists>v. sel v = (w', 0)))"
        using less.hyps [of len w2 off buf1] less.prems long by (metis (no_types, lifting))
      then show ?thesis using keeps_trans [OF f(4) order_refl] step w same by metis
    qed
  qed
qed

end

text \<open>The system calls of the model keep the contract.\<close>

lemma sys_call_frame:
  "sys_call w = (w', i, b) \<Longrightarrow> sk_log w' = sk_log w \<and> sk_in w' = sk_in w \<and> sk_waits w' = sk_waits w \<and> - 1 \<le> i"
  by (auto simp: sys_call_def split: list.splits sk_result.splits)

lemma sys_select_frame:
  "sys_select w = (w', i) \<Longrightarrow> sk_log w' = sk_log w \<and> (0 < i \<longrightarrow> length (sk_waits w') < length (sk_waits w))"
  by (auto simp: sys_select_def split: list.splits)

interpretation sending: transfer sock_func_send sys_select sk_log "\<lambda>w. length (sk_waits w)" "\<lambda>off a b. b = a"
proof
  fix off len :: int and buf :: mem and w :: sk
  assume a: "0 \<le> off" "0 < len" "off + len \<le> int (length buf)"
  obtain w1 i b where s: "sys_call w = (w1, i, b)" by (cases "sys_call w") auto
  have "take (nat (min i len)) (part buf off len) = part buf off (min i len)" by (simp add: min_def)
  then show "\<exists>w' buf' i b. sock_func_send w buf off len = Some (w', buf', i, b) \<and> i \<le> len \<and>
      length (sk_waits w') \<le> length (sk_waits w) \<and> buf' = buf \<and> sk_log w' = sk_log w @ part buf' off i"
    using a s sys_call_frame [OF s] by (simp add: sock_func_send_def slice_ok Let_def)
qed (auto dest: sys_select_frame)

interpretation receiving: transfer sock_func_recv sys_select sk_log "\<lambda>w. length (sk_waits w)"
  "\<lambda>off a b. length b = length a \<and> take (nat off) b = take (nat off) a"
proof
  fix off len :: int and buf :: mem and w :: sk
  assume a: "0 \<le> off" "0 < len" "off + len \<le> int (length buf)"
  obtain w1 i b where s: "sys_call w = (w1, i, b)" by (cases "sys_call w") auto
  define j where "j = min (min i len) (int (length (sk_in w1)))"
  define d where "d = take (nat j) (sk_in w1)"
  have d: "length d = nat j" "j \<le> len" "int (length d) \<le> len" using a(2) by (auto simp: d_def j_def)
  define buf1 where "buf1 = take (nat off) buf @ d @ drop (nat off + length d) buf"
  have p: "part buf1 off j = d" using a d by (auto simp: buf1_def)
  have l: "length buf1 = length buf \<and> take (nat off) buf1 = take (nat off) buf" using a d by (auto simp: buf1_def)
  have "sock_func_recv w buf off len =
      Some (w1\<lparr>sk_in := drop (nat j) (sk_in w1), sk_log := sk_log w1 @ d\<rparr>, buf1, j, b)"
    using a s d by (simp add: sock_func_recv_def slice_ok blit_ok Let_def buf1_def flip: j_def d_def)
  then show "\<exists>w' buf' i b. sock_func_recv w buf off len = Some (w', buf', i, b) \<and> i \<le> len \<and>
      length (sk_waits w') \<le> length (sk_waits w) \<and> (length buf' = length buf \<and> take (nat off) buf' = take (nat off) buf) \<and>
      sk_log w' = sk_log w @ part buf' off i"
    using d p l sys_call_frame [OF s] by simp
next
  fix off off' :: int and a b c :: mem
  assume "length b = length a \<and> take (nat off) b = take (nat off) a" "off \<le> off'"
    "length c = length b \<and> take (nat off') c = take (nat off') b"
  then show "length c = length a \<and> take (nat off) c = take (nat off) a"
    by (metis min.absorb1 nat_mono take_take)
qed (auto dest: sys_select_frame)


text \<open>The same of what is received into the buffer.\<close>

lemma recv_timeout_receives:
  assumes "0 < len" "len \<le> int (length buf)"
  shows "\<exists>w' buf' r n. sock_recv_timeout w buf len = Some (w', buf', r) \<and> length buf' = length buf \<and> 0 \<le> n \<and> n \<le> len \<and>
    sk_log w' = sk_log w @ take (nat n) buf' \<and> (r = - 1 \<or> r = n \<and> (n = len \<or> (\<exists>v. sys_select v = (w', 0))))"
  using receiving.loop_moves [of 0 len buf w] assms
  by (fastforce simp: sock_recv_timeout_def sock_func_timeout_def)

text \<open>\<open>accept\<close> returns a descriptor, which is taken for a number of bytes: of two connections both are accepted, and 16 is returned.\<close>

lemma accept_counts_descriptors:
  "sock_accept_timeout \<lparr>sk_calls = [Result 7, Result 9], sk_waits = [], sk_in = [], sk_log = []\<rparr> (replicate 16 0) 16 =
     Some (\<lparr>sk_calls = [], sk_waits = [], sk_in = [], sk_log = []\<rparr>, replicate 16 0, 16)"
  by (simp add: sock_accept_timeout_def sock_func_timeout_def timeout_loop.simps sock_func_accept_def sys_call_def)


end
