(* ===== verification/Mmap.thy ===== *)
theory Mmap
  imports Bytes
begin

unbundle bit_operations_syntax

text \<open>
  \<open>mmap.c\<close>: a file that is written through a mapping and grows by blocks. A \<open>size_t\<close> is an integer below \<open>2 ^ 64\<close>; a pointer
  into the mapping is its offset. The system maps, extends and cuts the file as it is told; only \<open>open\<close> and \<open>fstat\<close> may fail.
\<close>

section \<open>The system\<close>

text \<open>A file with its position, and what \<open>mmap\<close> makes of it: a shared mapping is the file itself, a private one a copy.\<close>

record mfile =
  f_data :: mem
  f_pos :: int
  f_open :: bool

datatype mapping = Shared int | Private mem

definition szt :: "int \<Rightarrow> int" where "szt x = x mod 2 ^ 64"

definition pad :: "mem \<Rightarrow> int \<Rightarrow> mem" where "pad d n = d @ replicate (nat n - length d) 0"

definition sys_lseek :: "mfile \<Rightarrow> int \<Rightarrow> mfile \<times> int" where
  "sys_lseek f off = (if off < 2 ^ 63 then (f\<lparr>f_pos := off\<rparr>, off) else (f, - 1))"

definition sys_write0 :: "mfile \<Rightarrow> mfile" where
  "sys_write0 f = f\<lparr>f_data := (pad (f_data f) (f_pos f + 1))[nat (f_pos f) := 0], f_pos := f_pos f + 1\<rparr>"

definition sys_truncate :: "mfile \<Rightarrow> int \<Rightarrow> mfile" where
  "sys_truncate f n = f\<lparr>f_data := take (nat n) (pad (f_data f) n)\<rparr>"

section \<open>Operations\<close>

record mmap_t =
  mm_mode :: u32
  mm_close_fd :: bool
  mm_blocksz :: int
  mm_start :: "mapping option"
  mm_max :: int
  mm_len :: int

definition MMAP_MODE_WRITE :: u32 where "MMAP_MODE_WRITE = 1"
definition MMAP_MODE_PRIVATE :: u32 where "MMAP_MODE_PRIVATE = 2"
definition MMAP_APPEND :: int where "MMAP_APPEND = 2 ^ 64 - 1"

definition mmap_zero :: mmap_t where
  "mmap_zero = \<lparr>mm_mode = 0, mm_close_fd = False, mm_blocksz = 0, mm_start = None, mm_max = 0, mm_len = 0\<rparr>"

definition init_mmap :: "mmap_t \<Rightarrow> mfile \<Rightarrow> mmap_t \<times> int" where
  "init_mmap mm f =
     (if mm_max mm = 0 then (mm, 0)
      else (mm\<lparr>mm_start := Some (if mm_mode mm AND MMAP_MODE_PRIVATE \<noteq> 0 then Private (take (nat (mm_max mm)) (f_data f))
                                else Shared (mm_max mm))\<rparr>, 0))"

definition mmap_fd :: "int \<Rightarrow> mfile \<Rightarrow> u32 \<Rightarrow> int \<Rightarrow> mmap_t \<times> int" where
  "mmap_fd pagesize f mode blocksz =
     (let blocksz = (if blocksz = 0 then 4 * pagesize else blocksz);
          mm = mmap_zero\<lparr>mm_mode := mode, mm_blocksz := blocksz\<rparr>
      in if \<not> f_open f then (mm, - 1)
         else init_mmap (mm\<lparr>mm_max := int (length (f_data f)), mm_len := int (length (f_data f))\<rparr>) f)"

text \<open>\<open>close_fd\<close> is set before \<open>mmap_fd\<close> clears the structure.\<close>

definition mmap_open :: "int \<Rightarrow> mem option \<Rightarrow> u32 \<Rightarrow> int \<Rightarrow> (mmap_t \<times> int) \<times> mfile" where
  "mmap_open pagesize content mode blocksz =
     (let w = mode AND MMAP_MODE_WRITE \<noteq> 0;
          f = \<lparr>f_data = (case content of Some d \<Rightarrow> d | None \<Rightarrow> []), f_pos = 0, f_open = content \<noteq> None \<or> w\<rparr>;
          mm = mmap_zero
      in if \<not> f_open f then ((mm, - 1), f)
         else let mm = mm\<lparr>mm_close_fd := True\<rparr> in (mmap_fd pagesize f mode blocksz, f))"

definition sys_mremap :: "mapping \<Rightarrow> int \<Rightarrow> mfile \<Rightarrow> mapping" where
  "sys_mremap m n f = (case m of Shared _ \<Rightarrow> Shared n | Private d \<Rightarrow> Private (d @ drop (length d) (take (nat n) (f_data f))))"

text \<open>The result of \<open>lseek\<close> is kept in an \<open>int\<close>. The last component is the offset of the pointer, or nothing for the null pointer.\<close>

definition mmap_grow :: "mmap_t \<Rightarrow> mfile \<Rightarrow> int \<Rightarrow> int \<Rightarrow> (mmap_t \<times> mfile \<times> bool) option" where
  "mmap_grow mm f off len =
     (let blk = szt (mm_blocksz mm);
          mm = mm\<lparr>mm_max := szt (off + len)\<rparr>
      in if blk = 0 then None
         else let mm = mm\<lparr>mm_max := szt (szt (szt (mm_max mm + blk) - 1) div blk * blk)\<rparr> in
           if \<not> mm_max mm \<ge> szt (off + len) then Some (mm, f, False)
           else let (f, e) = sys_lseek f (szt (mm_max mm - 1)); e = to_i32 e in
             if \<not> szt e = szt (mm_max mm - 1) then Some (mm, f, False)
             else let f = sys_write0 f in
               case mm_start mm of
                 Some m \<Rightarrow> Some (mm\<lparr>mm_start := Some (sys_mremap m (mm_max mm) f)\<rparr>, f, True)
               | None \<Rightarrow> Some (fst (init_mmap mm f), f, True))"

definition mmap_write :: "mmap_t \<Rightarrow> mfile \<Rightarrow> int \<Rightarrow> int \<Rightarrow> (mmap_t \<times> mfile \<times> int option) option" where
  "mmap_write mm f off len =
     (if mm_mode mm AND MMAP_MODE_WRITE = 0 then Some (mm, f, None)
      else do {
        let off = (if off = MMAP_APPEND then mm_len mm else off);
        (mm, f, ok) \<leftarrow> (if mm_start mm = None \<or> szt (off + len) > mm_max mm then mmap_grow mm f off len else Some (mm, f, True));
        if \<not> ok then Some (mm, f, None)
        else do {
          let mm = (if szt (off + len) > mm_len mm then mm\<lparr>mm_len := szt (off + len)\<rparr> else mm);
          if mm_start mm = None then (if off = 0 then Some (mm, f, None) else None) else Some (mm, f, Some off)
        }
      })"

definition mmap_close :: "mmap_t \<Rightarrow> mfile \<Rightarrow> mmap_t \<times> mfile \<times> int" where
  "mmap_close mm f =
     (let mm = mm\<lparr>mm_start := None\<rparr>;
          f = (if mm_mode mm AND MMAP_MODE_WRITE \<noteq> 0 \<and> mm_len mm \<noteq> mm_max mm then sys_truncate f (mm_len mm) else f);
          f = (if mm_close_fd mm then f\<lparr>f_open := False\<rparr> else f)
      in (mm, f, 0))"

definition mmap_offset :: "mmap_t \<Rightarrow> int \<Rightarrow> int" where "mmap_offset mm ptr = ptr"
definition mmap_ptr :: "mmap_t \<Rightarrow> int \<Rightarrow> int" where "mmap_ptr mm len = len"

text \<open>What the caller does with the pointer: storing bytes at it.\<close>

definition map_store :: "mmap_t \<Rightarrow> mfile \<Rightarrow> int \<Rightarrow> mem \<Rightarrow> (mmap_t \<times> mfile) option" where
  "map_store mm f p xs =
     (case mm_start mm of
        None \<Rightarrow> None
      | Some (Shared n) \<Rightarrow>
          if 0 \<le> p \<and> p + int (length xs) \<le> n then map_option (\<lambda>d. (mm, f\<lparr>f_data := d\<rparr>)) (blit (f_data f) p xs) else None
      | Some (Private d) \<Rightarrow> map_option (\<lambda>d. (mm\<lparr>mm_start := Some (Private d)\<rparr>, f)) (blit d p xs))"

definition mmap_put :: "mmap_t \<Rightarrow> mfile \<Rightarrow> int \<Rightarrow> mem \<Rightarrow> (mmap_t \<times> mfile) option" where
  "mmap_put mm f off xs =
     do { (mm, f, p) \<leftarrow> mmap_write mm f off (int (length xs)); p \<leftarrow> p; map_store mm f p xs }"

fun mmap_puts :: "(int \<times> mem) list \<Rightarrow> mmap_t \<Rightarrow> mfile \<Rightarrow> (mmap_t \<times> mfile) option" where
  "mmap_puts [] mm f = Some (mm, f)"
| "mmap_puts ((off, xs) # ops) mm f = do { (mm, f) \<leftarrow> mmap_put mm f off xs; mmap_puts ops mm f }"

section \<open>The file as a sequence of bytes\<close>

text \<open>Bytes put at a place of a file, which is filled with zeros up to there, or behind its end.\<close>

definition put_at :: "mem \<Rightarrow> int \<Rightarrow> mem \<Rightarrow> mem" where
  "put_at S off xs =
     (let k = (if off = MMAP_APPEND then length S else nat off)
      in take k (pad S (int k)) @ xs @ drop (k + length xs) S)"

fun put_all :: "(int \<times> mem) list \<Rightarrow> mem \<Rightarrow> mem" where
  "put_all [] S = S"
| "put_all ((off, xs) # ops) S = put_all ops (put_at S off xs)"

definition op_size :: "int \<times> mem \<Rightarrow> int" where
  "op_size op = (if fst op = MMAP_APPEND then 0 else fst op) + int (length (snd op))"

text \<open>While it is open the file has \<open>max\<close> bytes: what was put, and zeros.\<close>

definition mm_ok :: "mem \<Rightarrow> mmap_t \<Rightarrow> mfile \<Rightarrow> bool" where
  "mm_ok S mm f \<longleftrightarrow>
     mm_mode mm AND MMAP_MODE_WRITE \<noteq> 0 \<and> mm_mode mm AND MMAP_MODE_PRIVATE = 0 \<and> 0 < mm_blocksz mm \<and>
     mm_len mm = int (length S) \<and> f_data f = S @ replicate (nat (mm_max mm) - length S) 0 \<and> mm_len mm \<le> mm_max mm \<and>
     f_open f \<and> mm_max mm < 2 ^ 62 \<and> mm_start mm = (if mm_max mm = 0 then None else Some (Shared (mm_max mm)))"

lemma szt_id: "0 \<le> x \<Longrightarrow> x < 2 ^ 64 \<Longrightarrow> szt x = x"
  by (simp add: szt_def)

text \<open>The size rounded up to whole blocks.\<close>

lemma round_up:
  assumes "0 < blk" "0 \<le> (x :: int)"
  shows "x \<le> (x + blk - 1) div blk * blk" "(x + blk - 1) div blk * blk < x + blk"
proof -
  have "(x + blk - 1) div blk * blk = x + blk - 1 - (x + blk - 1) mod blk" by (simp add: minus_mod_eq_div_mult)
  moreover have "0 \<le> (x + blk - 1) mod blk" "(x + blk - 1) mod blk < blk" using assms by simp_all
  ultimately show "x \<le> (x + blk - 1) div blk * blk" "(x + blk - 1) div blk * blk < x + blk" by linarith+
qed

lemma update_replicate [simp]: "(replicate n x)[i := x] = replicate n x"
  by (cases "i < n") (simp_all add: list_update_same_conv list_update_beyond)

lemma mmap_grow_ok:
  assumes m: "mm_ok S mm f" and b: "0 \<le> off" "0 < len" "off + len > mm_max mm" "off + len + mm_blocksz mm \<le> 2 ^ 31"
  shows "\<exists>n f'. mmap_grow mm f off len = Some (mm\<lparr>mm_max := n, mm_start := Some (Shared n)\<rparr>, f', True) \<and>
    off + len \<le> n \<and> n < 2 ^ 31 \<and> f_open f' \<and> f_data f' = S @ replicate (nat n - length S) 0"
proof -
  define n where "n = (off + len + mm_blocksz mm - 1) div mm_blocksz mm * mm_blocksz mm"
  have blk: "0 < mm_blocksz mm" "mm_blocksz mm \<le> 2 ^ 31" using m b by (simp_all add: mm_ok_def)
  note r = round_up [of "mm_blocksz mm" "off + len", folded n_def]
  have n: "off + len \<le> n" "n < 2 ^ 31" using r blk b by linarith+
  have s: "szt (mm_blocksz mm) = mm_blocksz mm" "szt (off + len) = off + len" "szt n = n" "szt (n - 1) = n - 1"
    "szt (off + len + mm_blocksz mm) = off + len + mm_blocksz mm"
    "szt (off + len + mm_blocksz mm - 1) = off + len + mm_blocksz mm - 1"
    using blk b n by (auto intro!: szt_id)
  have e: "to_i32 (n - 1) = n - 1" using n b by (simp add: to_i32_id)
  let ?f = "sys_write0 (f\<lparr>f_pos := n - 1\<rparr>)"
  have "pad (f_data f) n = S @ replicate (nat n - length S) 0"
    using m n b by (auto simp: mm_ok_def pad_def replicate_add [symmetric])
  moreover have "int (length S) \<le> n - 1" using m b n by (simp add: mm_ok_def)
  ultimately have d: "f_data ?f = S @ replicate (nat n - length S) 0"
    by (simp add: sys_write0_def list_update_append update_replicate del: of_nat_le_iff) linarith
  have o: "f_open ?f" using m by (simp add: sys_write0_def mm_ok_def)
  show ?thesis
    using m n d s e b blk o
    by (intro exI [of _ n] exI [of _ ?f])
      (simp add: mmap_grow_def sys_lseek_def init_mmap_def sys_mremap_def mm_ok_def flip: n_def)
qed

lemma put_at_length: "0 \<le> fst op \<Longrightarrow> int (length (put_at S (fst op) (snd op))) \<le> int (length S) + op_size op"
  by (auto simp: put_at_def op_size_def pad_def Let_def)

lemma filled_take: "q \<le> N \<Longrightarrow> length S \<le> N \<Longrightarrow> take q (S @ replicate (N - length S) z) = take q (S @ replicate (q - length S) z)"
  by (simp add: min_def)

lemma filled_drop:
  "j \<le> N \<Longrightarrow> length S \<le> N \<Longrightarrow> drop j (S @ replicate (N - length S) z) = drop j S @ replicate (N - max (length S) j) z"
  by (cases "j \<le> length S") (simp_all add: max_def)

text \<open>One write: the bytes are put at the place that was asked for.\<close>

lemma put_ok:
  assumes m: "mm_ok S mm f" and b: "0 \<le> off" "xs \<noteq> []" "int (length S) + op_size (off, xs) + mm_blocksz mm \<le> 2 ^ 31"
  shows "\<exists>mm' f'. mmap_put mm f off xs = Some (mm', f') \<and> mm_ok (put_at S off xs) mm' f' \<and>
    mm_blocksz mm' = mm_blocksz mm \<and> mm_close_fd mm' = mm_close_fd mm"
proof -
  define p where "p = (if off = MMAP_APPEND then int (length S) else off)"
  define k where "k = length xs"
  have p: "0 \<le> p" "0 < int k" "p + int k + mm_blocksz mm \<le> 2 ^ 31" "(if off = MMAP_APPEND then mm_len mm else off) = p"
    using b m by (auto simp: p_def k_def op_size_def mm_ok_def split: if_splits)
  have z: "szt (p + int k) = p + int k" using p m by (intro szt_id) (auto simp: mm_ok_def)
  have w: "mm_mode mm AND MMAP_MODE_WRITE \<noteq> 0" "mm_mode mm AND MMAP_MODE_PRIVATE = 0" "0 < mm_blocksz mm"
    using m by (simp_all add: mm_ok_def)
  obtain n f1 where g: "(if mm_start mm = None \<or> szt (p + int k) > mm_max mm then mmap_grow mm f p (int k) else Some (mm, f, True)) =
      Some (mm\<lparr>mm_max := n, mm_start := Some (Shared n)\<rparr>, f1, True)"
      "p + int k \<le> n" "n < 2 ^ 62" "f_data f1 = S @ replicate (nat n - length S) 0" "int (length S) \<le> n" "f_open f1"
  proof (cases "mm_start mm = None \<or> p + int k > mm_max mm")
    case True
    then have "p + int k > mm_max mm" using m p by (auto simp: mm_ok_def split: if_splits)
    from mmap_grow_ok [OF m p(1,2) this p(3)] obtain n f1 where
      "mmap_grow mm f p (int k) = Some (mm\<lparr>mm_max := n, mm_start := Some (Shared n)\<rparr>, f1, True)" "p + int k \<le> n" "n < 2 ^ 31" "f_open f1"
      "f_data f1 = S @ replicate (nat n - length S) 0" by blast
    moreover have "int (length S) \<le> n" using calculation \<open>p + int k > mm_max mm\<close> m by (simp add: mm_ok_def)
    ultimately show ?thesis using that [of n f1] True z by auto
  next
    case False
    then have "mm = mm\<lparr>mm_max := mm_max mm, mm_start := Some (Shared (mm_max mm))\<rparr>" using m by (auto simp: mm_ok_def split: if_splits)
    then show ?thesis using that [of "mm_max mm" f] False z m by (auto simp: mm_ok_def split: if_splits)
  qed
  define mm1 where "mm1 = mm\<lparr>mm_max := n, mm_start := Some (Shared n), mm_len := max (int (length S)) (p + int k)\<rparr>"
  have wr: "mmap_write mm f off (int k) = Some (mm1, f1, Some p)"
    using m w g(1) p z by (auto simp: mmap_write_def mm1_def mm_ok_def max_def Let_def)
  let ?T = "put_at S off xs"
  have T: "?T = take (nat p) (S @ replicate (nat p - length S) 0) @ xs @ drop (nat p + k) S"
    using p(1) by (auto simp: put_at_def pad_def p_def k_def Let_def)
  have len: "int (length ?T) = max (int (length S)) (p + int k)" unfolding T using p(1) by (auto simp: k_def)
  have q: "nat p + k \<le> nat n" "length S \<le> nat n" "nat p \<le> nat n" using g(2,5) p by linarith+
  have "length ?T = max (length S) (nat p + k)" using len p(1) by linarith
  then have "blit (f_data f1) p xs = Some (?T @ replicate (nat n - length ?T) 0)"
    unfolding blit_def g(4) filled_take [OF q(3,2)] k_def [symmetric] filled_drop [OF q(1,2)] using T q p(1) g(2,5) by (simp add: k_def)
  then have "mmap_put mm f off xs = Some (mm1, f1\<lparr>f_data := ?T @ replicate (nat n - length ?T) 0\<rparr>)"
    using wr g(2) p(1) by (simp add: mmap_put_def map_store_def mm1_def flip: k_def)
  moreover have "mm_ok ?T mm1 (f1\<lparr>f_data := ?T @ replicate (nat n - length ?T) 0\<rparr>)"
    using w g(2,3,5,6) len p(1,2) by (auto simp: mm_ok_def mm1_def)
  ultimately show ?thesis by (auto simp: mm1_def)
qed


lemma puts_ok:
  assumes "mm_ok S mm f" "\<forall>(off, xs) \<in> set ops. 0 \<le> off \<and> xs \<noteq> []"
    "int (length S) + sum_list (map op_size ops) + mm_blocksz mm \<le> 2 ^ 31"
  shows "\<exists>mm' f'. mmap_puts ops mm f = Some (mm', f') \<and> mm_ok (put_all ops S) mm' f' \<and> mm_close_fd mm' = mm_close_fd mm"
  using assms
proof (induction ops arbitrary: S mm f)
  case Nil
  then show ?case by simp
next
  case (Cons op ops)
  obtain off xs where op: "op = (off, xs)" by (cases op)
  have "0 \<le> op_size x" if "x \<in> set ops" for x using Cons.prems(2) that by (force simp: op_size_def)
  then have "0 \<le> sum_list (map op_size ops)" by (intro sum_list_nonneg) auto
  then obtain mm1 f1 where s: "mmap_put mm f off xs = Some (mm1, f1)" "mm_ok (put_at S off xs) mm1 f1"
      "mm_blocksz mm1 = mm_blocksz mm" "mm_close_fd mm1 = mm_close_fd mm"
    using put_ok [OF Cons.prems(1), of off xs] Cons.prems(2,3) op by auto
  have "int (length (put_at S off xs)) + sum_list (map op_size ops) + mm_blocksz mm1 \<le> 2 ^ 31"
    using put_at_length [of "(off, xs)" S] Cons.prems(2,3) s(3) op by auto
  then show ?case using Cons.IH [OF s(2)] Cons.prems(2) s op by auto
qed



text \<open>
  An empty write to an empty file leaves a byte in it. After a place beyond \<open>2 ^ 31\<close> was refused, \<open>max\<close> keeps the size the file
  did not get, and the next write there gets a pointer behind the mapping.
\<close>

lemma empty_append_writes:
  "map_option (\<lambda>(mm, f, p). (p, f_data (fst (snd (mmap_close mm f)))))
     (mmap_write (fst (fst (mmap_open 4096 None 1 8))) (snd (mmap_open 4096 None 1 8)) MMAP_APPEND 0) = Some (None, [0])"
  by code_simp

lemma refused_then_stray:
  "map_option (\<lambda>(mm, f, p). (p, map_option (\<lambda>(mm, f, p). (mm_start mm, p)) (mmap_write mm f (2 ^ 31) 1)))
     (mmap_write \<lparr>mm_mode = 1, mm_close_fd = False, mm_blocksz = 1, mm_start = Some (Shared 4), mm_max = 4, mm_len = 4\<rparr>
       \<lparr>f_data = [1, 2, 3, 4], f_pos = 0, f_open = True\<rparr> (2 ^ 31) 1) =
   Some (None, Some (Some (Shared 4), Some (2 ^ 31)))"
  by code_simp

end
