(* ===== verification/Pack.thy ===== *)
theory Pack
  imports Bytes
begin

unbundle bit_operations_syntax

text \<open>
  \<open>pack.h\<close>: the same functions write numbers and blocks of bytes into a buffer and read them. The state is the memory with
  \<open>*buf\<close> and \<open>*len\<close>, which move on even when there is no room. The result is what \<open>*buf\<close> moved by.
\<close>

section \<open>Numbers and blocks\<close>

datatype pack_dir_t = PACK_READ | PACK_WRITE

type_synonym pbuf = "mem \<times> int \<times> int"

fun pack_i16 :: "pack_dir_t \<Rightarrow> pbuf \<Rightarrow> u16 \<Rightarrow> (pbuf \<times> u16 \<times> int) option" where
  "pack_i16 d (m, buf, len) v =
     do {
       (m, v) \<leftarrow> (if len \<ge> 2 then (case d of PACK_READ \<Rightarrow> map_option (\<lambda>x. (m, ntohs x)) (rd16 m buf)
                                      | PACK_WRITE \<Rightarrow> map_option (\<lambda>m. (m, v)) (wr16 m buf (htons v)))
                  else Some (m, v));
       Some ((m, buf + 2, len - 2), v, 2)
     }"

fun pack_i32 :: "pack_dir_t \<Rightarrow> pbuf \<Rightarrow> u32 \<Rightarrow> (pbuf \<times> u32 \<times> int) option" where
  "pack_i32 d (m, buf, len) v =
     do {
       (m, v) \<leftarrow> (if len \<ge> 4 then (case d of PACK_READ \<Rightarrow> map_option (\<lambda>x. (m, ntohl x)) (rd32 m buf)
                                      | PACK_WRITE \<Rightarrow> map_option (\<lambda>m. (m, v)) (wr32 m buf (htonl v)))
                  else Some (m, v));
       Some ((m, buf + 4, len - 4), v, 4)
     }"

text \<open>The copy of a block of \<open>n\<close> bytes in either direction, with the zero behind it when there is room for one.\<close>

definition copy_block :: "pack_dir_t \<Rightarrow> mem \<Rightarrow> int \<Rightarrow> mem \<Rightarrow> int \<Rightarrow> int \<Rightarrow> (mem \<times> mem) option" where
  "copy_block d m buf v n limit =
     (case d of
        PACK_READ \<Rightarrow> do {
          xs \<leftarrow> slice m buf n;
          v \<leftarrow> blit v 0 xs;
          v \<leftarrow> (if n < limit then mem_put v n 0 else Some v);
          Some (m, v)
        }
      | PACK_WRITE \<Rightarrow> do { xs \<leftarrow> slice v 0 n; m \<leftarrow> blit m buf xs; Some (m, v) })"

definition pack_buf16 :: "pack_dir_t \<Rightarrow> pbuf \<Rightarrow> mem \<Rightarrow> u16 \<Rightarrow> int \<Rightarrow> (pbuf \<times> mem \<times> u16 \<times> int) option" where
  "pack_buf16 d b v vlen limit =
     do {
       let limit = (if limit = 0 then sint vlen else limit);
       ((m, buf, len), vlen, r) \<leftarrow> pack_i16 d b vlen;
       let n = sint vlen;
       (m, v) \<leftarrow> (if len \<ge> n \<and> n \<le> limit then copy_block d m buf v n limit else Some (m, v));
       Some ((m, buf + n, len - n), v, vlen, r + n)
     }"

definition pack_buf32 :: "pack_dir_t \<Rightarrow> pbuf \<Rightarrow> mem \<Rightarrow> u32 \<Rightarrow> int \<Rightarrow> (pbuf \<times> mem \<times> u32 \<times> int) option" where
  "pack_buf32 d b v vlen limit =
     do {
       let limit = (if limit = 0 then sint vlen else limit);
       ((m, buf, len), vlen, r) \<leftarrow> pack_i32 d b vlen;
       let n = sint vlen;
       (m, v) \<leftarrow> (if len \<ge> n then copy_block d m buf v n limit else Some (m, v));
       Some ((m, buf + n, len - n), v, vlen, r + n)
     }"

text \<open>
  Doubles are real numbers. \<open>frexp\<close> is a parameter; a conversion to \<open>i32\<close> of what does not fit is undefined, and so is a value
  read from too short a buffer, because \<open>e\<close> and \<open>mi\<close> have none of their own.
\<close>

definition trunc :: "real \<Rightarrow> int" where "trunc x = (if 0 \<le> x then \<lfloor>x\<rfloor> else \<lceil>x\<rceil>)"

definition ldexp :: "real \<Rightarrow> int \<Rightarrow> real" where "ldexp m e = m * 2 powi e"

definition pack_double :: "(real \<Rightarrow> real \<times> int) \<Rightarrow> pack_dir_t \<Rightarrow> pbuf \<Rightarrow> real \<Rightarrow> (pbuf \<times> real \<times> int) option" where
  "pack_double frexp d b v =
     do {
       (e, mi) \<leftarrow> (case d of
           PACK_WRITE \<Rightarrow> (case frexp v of (m, e) \<Rightarrow>
              let mi = trunc ((m - 1 / 2) * 0xffffffff)
              in if - (2 ^ 31) \<le> mi \<and> mi < 2 ^ 31 then Some (word_of_int e, word_of_int mi) else None)
         | PACK_READ \<Rightarrow> if snd (snd b) \<ge> 8 then Some (0, 0) else None);
       (b, e, r1) \<leftarrow> pack_i32 d b e;
       (b, mi, r2) \<leftarrow> pack_i32 d b mi;
       let v = (case d of PACK_WRITE \<Rightarrow> v | PACK_READ \<Rightarrow> ldexp (real_of_int (sint mi) / 0xffffffff + 1 / 2) (sint e));
       Some (b, v, r1 + r2)
     }"

text \<open>
  The field of a word: the place does not depend on \<open>from\<close>. With \<open>len\<close> of 0 or 32 a shift by 32 is undefined; where the
  check of the length fails, the mask is not used.
\<close>

definition pack_bits32 :: "pack_dir_t \<Rightarrow> u32 \<Rightarrow> int \<Rightarrow> int \<Rightarrow> u32 \<Rightarrow> (u32 \<times> u32 \<times> int) option" where
  "pack_bits32 d p from to bits =
     (let len = from - to + 1; shift = 32 - len
      in if shift < 0 \<or> len < 0 \<or> len > 32 then Some (p, bits, - 1)
         else if len = 0 \<or> len = 32 then None
         else let mask = NOT (- (push_bit (nat len) (1 :: u32))) in
           case d of
             PACK_WRITE \<Rightarrow> Some ((p AND NOT (push_bit (nat shift) mask)) OR push_bit (nat shift) (bits AND mask), bits, len)
           | PACK_READ \<Rightarrow> Some (p, signed_drop_bit (nat shift) (p AND push_bit (nat shift) mask), len))"

section \<open>A sequence of items\<close>

datatype item = I16 u16 | I32 u32 | B16 mem u16 int | B32 mem u32 int

fun pack_item :: "pack_dir_t \<Rightarrow> pbuf \<Rightarrow> item \<Rightarrow> (pbuf \<times> item \<times> int) option" where
  "pack_item d b (I16 v) = map_option (\<lambda>(b, v, r). (b, I16 v, r)) (pack_i16 d b v)"
| "pack_item d b (I32 v) = map_option (\<lambda>(b, v, r). (b, I32 v, r)) (pack_i32 d b v)"
| "pack_item d b (B16 v n limit) = map_option (\<lambda>(b, v, n, r). (b, B16 v n limit, r)) (pack_buf16 d b v n limit)"
| "pack_item d b (B32 v n limit) = map_option (\<lambda>(b, v, n, r). (b, B32 v n limit, r)) (pack_buf32 d b v n limit)"

fun pack_items :: "pack_dir_t \<Rightarrow> pbuf \<Rightarrow> item list \<Rightarrow> (pbuf \<times> item list \<times> int) option" where
  "pack_items d b [] = Some (b, [], 0)"
| "pack_items d b (it # its) =
     do { (b, it, r) \<leftarrow> pack_item d b it; (b, its, s) \<leftarrow> pack_items d b its; Some (b, it # its, r + s) }"

text \<open>What an item stands for, and its bytes in the buffer.\<close>

datatype packed = Number int | Block "byte list"

fun item_val :: "item \<Rightarrow> packed" where
  "item_val (I16 v) = Number (uint v)"
| "item_val (I32 v) = Number (uint v)"
| "item_val (B16 v n limit) = Block (take (nat (sint n)) v)"
| "item_val (B32 v n limit) = Block (take (nat (sint n)) v)"

definition be16 :: "u16 \<Rightarrow> byte list" where "be16 v = [byte_of 0 (htons v), byte_of 1 (htons v)]"
definition be32 :: "u32 \<Rightarrow> byte list" where "be32 v = bytes_of32 (htonl v)"

fun enc :: "item \<Rightarrow> byte list" where
  "enc (I16 v) = be16 v"
| "enc (I32 v) = be32 v"
| "enc (B16 v n limit) = be16 n @ take (nat (sint n)) v"
| "enc (B32 v n limit) = be32 n @ take (nat (sint n)) v"

fun item_ok :: "item \<Rightarrow> bool" where
  "item_ok (B16 v n limit) \<longleftrightarrow> limit = 0 \<and> 0 \<le> sint n \<and> sint n \<le> int (length v)"
| "item_ok (B32 v n limit) \<longleftrightarrow> limit = 0 \<and> 0 \<le> sint n \<and> sint n \<le> int (length v)"
| "item_ok _ \<longleftrightarrow> True"

text \<open>A destination for an item: a block needs a limit that is not exceeded and memory up to it.\<close>

fun takes_item :: "item \<Rightarrow> item \<Rightarrow> bool" where
  "takes_item (I16 _) it = (\<exists>v. it = I16 v)"
| "takes_item (I32 _) it = (\<exists>v. it = I32 v)"
| "takes_item (B16 w _ limit) it = (\<exists>v n l. it = B16 v n l \<and> 0 < limit \<and> sint n \<le> limit \<and> limit \<le> int (length w))"
| "takes_item (B32 w _ limit) it = (\<exists>v n l. it = B32 v n l \<and> 0 < limit \<and> sint n \<le> limit \<and> limit \<le> int (length w))"

lemma be_length [simp]: "length (be16 v) = 2" "length (be32 w) = 4"
  by (simp_all add: be16_def be32_def)

lemma i16_write:
  "2 \<le> len \<Longrightarrow> 2 \<le> length R \<Longrightarrow>
   pack_i16 PACK_WRITE (P @ R, int (length P), len) v = Some ((P @ be16 v @ drop 2 R, int (length P) + 2, len - 2), v, 2)"
  by (simp add: wr16_def blit_def be16_def)

lemma i32_write:
  "4 \<le> len \<Longrightarrow> 4 \<le> length R \<Longrightarrow>
   pack_i32 PACK_WRITE (P @ R, int (length P), len) v = Some ((P @ be32 v @ drop 4 R, int (length P) + 4, len - 4), v, 4)"
  by (simp add: wr32_def blit_def be32_def bytes_of32_def)

lemma i16_read:
  "2 \<le> len \<Longrightarrow>
   pack_i16 PACK_READ (P @ be16 v @ R, int (length P), len) w = Some ((P @ be16 v @ R, int (length P) + 2, len - 2), v, 2)"
  by (simp add: rd16_def mem_get_def be16_def nth_append nat_add_distrib)

lemma i32_read:
  "4 \<le> len \<Longrightarrow>
   pack_i32 PACK_READ (P @ be32 v @ R, int (length P), len) w = Some ((P @ be32 v @ R, int (length P) + 4, len - 4), v, 4)"
  by (simp add: rd32_def mem_get_def be32_def bytes_of32_def nth_append nat_add_distrib)


text \<open>One item at its place, in both directions.\<close>

lemma block_write:
  assumes "0 \<le> n" "n \<le> int (length v)" "n \<le> int (length R)"
  shows "copy_block PACK_WRITE (P @ R) (int (length P)) v n limit = Some (P @ take (nat n) v @ drop (nat n) R, v)"
  using assms by (simp add: copy_block_def slice_def blit_def min_absorb2)

lemma block_read:
  assumes "n = int (length xs)" "n \<le> limit" "limit \<le> int (length w)" "i = int (length P)"
  shows "\<exists>w'. copy_block PACK_READ (P @ xs @ R) i w n limit = Some (P @ xs @ R, w') \<and> take (nat n) w' = xs"
proof -
  have "slice (P @ xs @ R) i n = Some xs" using assms by (simp add: slice_def)
  moreover have "blit w 0 xs = Some (xs @ drop (length xs) w)" using assms by (simp add: blit_def)
  moreover have "mem_put (xs @ drop (length xs) w) n 0 = Some (xs @ (drop (length xs) w)[0 := 0])" if "n < limit"
    using assms that by (simp add: mem_put_def list_update_append)
  ultimately show ?thesis using assms(1) by (simp add: copy_block_def)
qed

lemma item_write:
  assumes "item_ok it" "length (enc it) \<le> length R" "int (length (enc it)) \<le> len"
  shows "pack_item PACK_WRITE (P @ R, int (length P), len) it =
    Some ((P @ enc it @ drop (length (enc it)) R, int (length P + length (enc it)), len - int (length (enc it))), it, int (length (enc it)))"
proof (cases it)
  case (B16 v n limit)
  then have n: "0 \<le> sint n" "sint n \<le> int (length v)" "min (length v) (nat (sint n)) = nat (sint n)" "limit = 0" using assms(1) by auto
  then have r: "2 + nat (sint n) \<le> length R" "2 + sint n \<le> len" using assms(2,3) B16 by auto
  have "copy_block PACK_WRITE ((P @ be16 n) @ drop 2 R) (int (length (P @ be16 n))) v (sint n) (sint n) =
      Some ((P @ be16 n) @ take (nat (sint n)) v @ drop (nat (sint n)) (drop 2 R), v)"
    using n r by (intro block_write) auto
  then have "copy_block PACK_WRITE (P @ be16 n @ drop 2 R) (int (length P) + 2) v (sint n) (sint n) =
      Some (P @ be16 n @ take (nat (sint n)) v @ drop (2 + nat (sint n)) R, v)" by (simp add: add.commute)
  then show ?thesis using i16_write [of len R P n] n r B16 by (simp add: pack_buf16_def Let_def algebra_simps del: pack_i16.simps)
next
  case (B32 v n limit)
  then have n: "0 \<le> sint n" "sint n \<le> int (length v)" "min (length v) (nat (sint n)) = nat (sint n)" "limit = 0" using assms(1) by auto
  then have r: "4 + nat (sint n) \<le> length R" "4 + sint n \<le> len" using assms(2,3) B32 by auto
  have "copy_block PACK_WRITE ((P @ be32 n) @ drop 4 R) (int (length (P @ be32 n))) v (sint n) (sint n) =
      Some ((P @ be32 n) @ take (nat (sint n)) v @ drop (nat (sint n)) (drop 4 R), v)"
    using n r by (intro block_write) auto
  then have "copy_block PACK_WRITE (P @ be32 n @ drop 4 R) (int (length P) + 4) v (sint n) (sint n) =
      Some (P @ be32 n @ take (nat (sint n)) v @ drop (4 + nat (sint n)) R, v)" by (simp add: add.commute)
  then show ?thesis using i32_write [of len R P n] n r B32 by (simp add: pack_buf32_def Let_def algebra_simps del: pack_i32.simps)
qed (use assms i16_write [of len R P] i32_write [of len R P] in \<open>auto simp del: pack_i16.simps pack_i32.simps\<close>)

lemma item_read:
  assumes "item_ok it" "takes_item d it" "int (length (enc it)) \<le> len"
  shows "\<exists>it'. pack_item PACK_READ (P @ enc it @ R, int (length P), len) d =
    Some ((P @ enc it @ R, int (length P + length (enc it)), len - int (length (enc it))), it', int (length (enc it))) \<and>
    item_val it' = item_val it"
proof (cases d)
  case (B16 w k limit)
  then obtain v n where it: "it = B16 v n 0" "0 < limit" "sint n \<le> limit" "limit \<le> int (length w)" "0 \<le> sint n" "sint n \<le> int (length v)"
    using assms(1,2) by auto
  have l: "min (length v) (nat (sint n)) = nat (sint n)" using it by simp
  obtain w' where "copy_block PACK_READ ((P @ be16 n) @ take (nat (sint n)) v @ R) (int (length P) + 2) w (sint n) limit =
      Some ((P @ be16 n) @ take (nat (sint n)) v @ R, w')" "take (nat (sint n)) w' = take (nat (sint n)) v"
    using block_read [of "sint n" "take (nat (sint n)) v" limit w "int (length P) + 2" "P @ be16 n" R] it l by auto
  then show ?thesis using i16_read [of len P n "take (nat (sint n)) v @ R" k] it l assms(3) B16
    by (auto simp: pack_buf16_def Let_def algebra_simps simp del: pack_i16.simps)
next
  case (B32 w k limit)
  then obtain v n where it: "it = B32 v n 0" "0 < limit" "sint n \<le> limit" "limit \<le> int (length w)" "0 \<le> sint n" "sint n \<le> int (length v)"
    using assms(1,2) by auto
  have l: "min (length v) (nat (sint n)) = nat (sint n)" using it by simp
  obtain w' where "copy_block PACK_READ ((P @ be32 n) @ take (nat (sint n)) v @ R) (int (length P) + 4) w (sint n) limit =
      Some ((P @ be32 n) @ take (nat (sint n)) v @ R, w')" "take (nat (sint n)) w' = take (nat (sint n)) v"
    using block_read [of "sint n" "take (nat (sint n)) v" limit w "int (length P) + 4" "P @ be32 n" R] it l by auto
  then show ?thesis using i32_read [of len P n "take (nat (sint n)) v @ R" k] it l assms(3) B32
    by (auto simp: pack_buf32_def Let_def algebra_simps simp del: pack_i32.simps)
qed (use assms i16_read [of len P] i32_read [of len P] in \<open>auto simp del: pack_i16.simps pack_i32.simps\<close>)

definition encs :: "item list \<Rightarrow> byte list" where "encs its = concat (map enc its)"

lemma items_write:
  assumes "\<forall>it \<in> set its. item_ok it" "length (encs its) \<le> length R" "int (length (encs its)) \<le> len"
  shows "pack_items PACK_WRITE (P @ R, int (length P), len) its =
    Some ((P @ encs its @ drop (length (encs its)) R, int (length P + length (encs its)), len - int (length (encs its))), its,
      int (length (encs its)))"
  using assms
proof (induction its arbitrary: P R len)
  case (Cons it its)
  let ?n = "length (enc it)"
  have "pack_item PACK_WRITE (P @ R, int (length P), len) it =
      Some ((P @ enc it @ drop ?n R, int (length P + ?n), len - int ?n), it, int ?n)"
    using Cons.prems by (intro item_write) (auto simp: encs_def)
  moreover have "pack_items PACK_WRITE ((P @ enc it) @ drop ?n R, int (length (P @ enc it)), len - int ?n) its =
      Some (((P @ enc it) @ encs its @ drop (length (encs its)) (drop ?n R), int (length (P @ enc it) + length (encs its)),
        len - int ?n - int (length (encs its))), its, int (length (encs its)))"
    using Cons.prems by (intro Cons.IH) (auto simp: encs_def)
  ultimately show ?case by (simp add: encs_def add.commute algebra_simps)
qed (simp add: encs_def)

lemma items_read:
  assumes "list_all2 takes_item ds its" "\<forall>it \<in> set its. item_ok it" "int (length (encs its)) \<le> len"
  shows "\<exists>its'. pack_items PACK_READ (P @ encs its @ R, int (length P), len) ds =
    Some ((P @ encs its @ R, int (length P + length (encs its)), len - int (length (encs its))), its', int (length (encs its))) \<and>
    map item_val its' = map item_val its"
  using assms
proof (induction ds its arbitrary: P len rule: list_all2_induct)
  case (Cons d ds it its)
  let ?n = "length (enc it)"
  obtain it' where a: "pack_item PACK_READ (P @ enc it @ encs its @ R, int (length P), len) d =
      Some ((P @ enc it @ encs its @ R, int (length P + ?n), len - int ?n), it', int ?n)" "item_val it' = item_val it"
    using item_read [of it d len P "encs its @ R"] Cons by (auto simp: encs_def)
  obtain its' where b: "pack_items PACK_READ ((P @ enc it) @ encs its @ R, int (length (P @ enc it)), len - int ?n) ds =
      Some (((P @ enc it) @ encs its @ R, int (length (P @ enc it) + length (encs its)), len - int ?n - int (length (encs its))), its',
        int (length (encs its)))" "map item_val its' = map item_val its"
    using Cons.IH [of "len - int ?n" "P @ enc it"] Cons.prems by (auto simp: encs_def)
  show ?case using a b by (simp add: encs_def algebra_simps)
qed (simp add: encs_def)

text \<open>
  C39. Numbers and blocks that were written one after the other are read back by the same functions in the same order, into
  memory that is large enough, and both use the same bytes of the buffer and leave all others.
\<close>

theorem pack_roundtrip:
  assumes "\<forall>it \<in> set its. item_ok it" "list_all2 takes_item ds its" "int (length (encs its)) \<le> len" "len \<le> int (length R)"
  shows "\<exists>m b its'. pack_items PACK_WRITE (P @ R, int (length P), len) its = Some ((m, b), its, int (length (encs its))) \<and>
    pack_items PACK_READ (m, int (length P), len) ds = Some ((m, b), its', int (length (encs its))) \<and>
    map item_val its' = map item_val its \<and> take (length P) m = P \<and> drop (length P + length (encs its)) m = drop (length (encs its)) R"
  using items_write [OF assms(1), of R len P] items_read [OF assms(2,1,3), of P "drop (length (encs its)) R"] assms(3,4) by force

lemma pack_roundtrip_witness:
  "\<exists>m b its'. pack_items PACK_WRITE ([9] @ [0, 0, 0, 0, 0, 0, 0], int (length [9 :: byte]), 7) [I16 258, B16 [7, 8] 2 0] =
       Some ((m, b), [I16 258, B16 [7, 8] 2 0], int (length (encs [I16 258, B16 [7, 8] 2 0]))) \<and>
     pack_items PACK_READ (m, int (length [9 :: byte]), 7) [I16 0, B16 [0, 0, 0] 0 3] = Some ((m, b), its', int (length (encs [I16 258, B16 [7, 8] 2 0]))) \<and>
     map item_val its' = map item_val [I16 258, B16 [7, 8] 2 0] \<and> take (length [9 :: byte]) m = [9] \<and>
     drop (length [9 :: byte] + length (encs [I16 258, B16 [7, 8] 2 0])) m = drop (length (encs [I16 258, B16 [7, 8] 2 0])) [0, 0, 0, 0, 0, 0, 0]"
proof -
  have s: "sint (2 :: u16) = 2" by code_simp
  show ?thesis by (rule pack_roundtrip) (simp_all add: s encs_def)
qed

section \<open>Doubles and bit fields\<close>

text \<open>
  A positive double that is written and read back differs by less than its binary exponent allows: by a part in
  \<open>2 ^ 31\<close> of \<open>2 ^ e\<close>.
\<close>

theorem double_bound:
  assumes f: "frexp v = (x, e)" "v = x * 2 powi e" "1 / 2 \<le> x" "x < 1" "- (2 ^ 31) \<le> e" "e < 2 ^ 31" and r: "8 \<le> len" "len \<le> int (length R)"
  shows "\<exists>m b v'. pack_double frexp PACK_WRITE (P @ R, int (length P), len) v = Some ((m, b), v, 8) \<and>
    pack_double frexp PACK_READ (m, int (length P), len) w = Some ((m, b), v', 8) \<and> v' \<le> v \<and> v - v' < 2 powi e / (2 ^ 32 - 1)"
proof -
  define y where "y = (x - 1 / 2) * 0xffffffff"
  define mi where "mi = trunc y"
  have y: "0 \<le> y" "y < 2 ^ 31" using f(3,4) by (simp_all add: y_def)
  then have mi: "0 \<le> mi" "real_of_int mi \<le> y" "y < real_of_int mi + 1" by (simp_all add: mi_def trunc_def)
  then have "real_of_int mi < real_of_int (2 ^ 31)" using y(2) by simp
  then have "mi < 2 ^ 31" by (simp only: of_int_less_iff)
  then have s: "sint (word_of_int mi :: u32) = mi" "sint (word_of_int e :: u32) = e"
    using mi(1) f(5,6) to_i32_id [of mi] to_i32_id [of e] by (simp_all add: to_i32_def)
  have t: "trunc ((x - 1 / 2) * 0xffffffff) = mi" by (simp only: mi_def y_def)
  have r8: "8 \<le> length R" using r by linarith
  have g: "(signed (word_of_int mi :: u32) :: real) = real_of_int mi" using s(1) by (metis of_int_sint)
  define v' where "v' = ldexp (real_of_int mi / 0xffffffff + 1 / 2) e"
  have x: "x = y / 0xffffffff + 1 / 2" unfolding y_def by (subst nonzero_mult_div_cancel_right) simp_all
  have two: "(0 :: real) < 2 powi e" by simp
  have "v' \<le> v" unfolding v'_def ldexp_def f(2) using mi(2) two x by (intro mult_right_mono) simp_all
  moreover have "v - v' = (y - real_of_int mi) / 0xffffffff * 2 powi e"
    unfolding v'_def ldexp_def f(2) by (subst x) (simp add: algebra_simps diff_divide_distrib)
  then have "v - v' < 1 / 0xffffffff * 2 powi e" using mi(3) two by (simp add: mult_strict_right_mono)
  moreover have "pack_double frexp PACK_WRITE (P @ R, int (length P), len) v =
      Some ((P @ be32 (word_of_int e) @ be32 (word_of_int mi) @ drop 8 R, int (length P) + 8, len - 8), v, 8)"
    using i32_write [of len R P "word_of_int e"] i32_write [of "len - 4" "drop 4 R" "P @ be32 (word_of_int e)" "word_of_int mi"]
      r r8 f(1) mi(1) t \<open>mi < 2 ^ 31\<close> by (simp add: pack_double_def Let_def algebra_simps del: pack_i32.simps)
  moreover have "pack_double frexp PACK_READ (P @ be32 (word_of_int e) @ be32 (word_of_int mi) @ drop 8 R, int (length P), len) w =
      Some ((P @ be32 (word_of_int e) @ be32 (word_of_int mi) @ drop 8 R, int (length P) + 8, len - 8), v', 8)"
    using i32_read [of len P "word_of_int e" "be32 (word_of_int mi) @ drop 8 R" 0]
      i32_read [of "len - 4" "P @ be32 (word_of_int e)" "word_of_int mi" "drop 8 R" 0] r s g
    by (simp add: pack_double_def v'_def del: pack_i32.simps)
  ultimately show ?thesis by auto
qed

lemma double_bound_witness:
  "\<exists>m b v'. pack_double (\<lambda>_. (3 / 4, 2)) PACK_WRITE ([] @ replicate 8 0, int (length ([] :: byte list)), 8) 3 = Some ((m, b), 3, 8) \<and>
    pack_double (\<lambda>_. (3 / 4, 2)) PACK_READ (m, int (length ([] :: byte list)), 8) 0 = Some ((m, b), v', 8) \<and> v' \<le> 3 \<and> 3 - v' < 2 powi 2 / (2 ^ 32 - 1)"
  by (rule double_bound [where x = "3 / 4" and e = 2]) simp_all

text \<open>A negative double cannot be written: its fraction does not fit into 32 bits.\<close>

lemma double_negative:
  assumes "frexp v = (x, e)" "x \<le> - 1 / 2"
  shows "pack_double frexp PACK_WRITE b v = None"
proof -
  define y where "y = (x - 1 / 2) * 0xffffffff"
  have "y \<le> - 0xffffffff" using assms(2) by (simp add: y_def)
  then have "trunc y < - (2 ^ 31)" by (simp add: trunc_def)
  then show ?thesis using assms(1) unfolding y_def by (simp add: pack_double_def Let_def)
qed

text \<open>The ranges of the example in the source are refused, and what is read of a field is extended with its sign.\<close>

lemma bits_of_example: "from < to - 1 \<Longrightarrow> pack_bits32 d p from to bits = Some (p, bits, - 1)"
  by (simp add: pack_bits32_def)

lemma bits_signed: "map_option (\<lambda>(p, _, _). map_option (fst \<circ> snd) (pack_bits32 PACK_READ p 3 0 0)) (pack_bits32 PACK_WRITE 0 3 0 9) = Some (Some (- 7))"
  by code_simp

end
