(* ===== verification/ConnLog.thy ===== *)
theory ConnLog
  imports ConnTrack Http
begin

text \<open>
  \<open>ipconntrack_db.c\<close>: captured packets go to a raw file and to the connection tracker; from time to time every connection
  is flushed, its packets to a data base and its stream to a file of its own, and closed when it has ended. The data base
  is the list of the statements; whether a statement or \<open>fopen\<close> succeeds, the number of a new row and the formats of an
  address and of a time are parameters. \<open>conn_varg\<close> is a map from the address of the connection.
\<close>

section \<open>State\<close>

datatype sql =
  Sql "byte list"
| InsertConn real "byte list" u32 u32 u32 u32
| InsertPkt int real int int int int
| CloseConn int

record log_env =
  sql_ok :: "sql \<Rightarrow> bool"
  last_insert_rowid :: "sql list \<Rightarrow> int"
  fopen_ok :: "byte list \<Rightarrow> bool"
  ntoa :: "u32 \<Rightarrow> byte list"
  time_text :: "real \<Rightarrow> byte list"

datatype side = Server | Client

record IpTrackConnVargPkt =
  k_queue :: side
  k_end :: int
  k_time :: real
  k_from_server :: int
  k_raw_len :: int

record IpTrackConnVarg =
  v_vpkt :: "IpTrackConnVargPkt list"
  v_fd :: bool
  v_off :: int
  v_fname :: "byte list"
  v_conn_id :: int

record IpTrack =
  t_track :: IpConnTrack
  t_vargs :: "IpConnAddr \<Rightarrow> IpTrackConnVarg option"
  t_db :: "sql list"
  t_files :: "byte list \<Rightarrow> byte list"
  t_log_dir :: "byte list"
  t_fd_open :: int
  t_fd_max :: int
  t_raw_dir :: "byte list option"
  t_raw_len :: int
  t_raw_max :: int
  t_raw_fd :: "byte list option"
  t_time :: real
  t_flush_last :: real
  t_flush_timeout :: real
  t_conn_timeout :: real

definition IpTrack_init :: "IpTrack option" where
  "IpTrack_init =
     do {
       track \<leftarrow> IpConnTrack_init None;
       Some \<lparr>t_track = track, t_vargs = Map.empty, t_db = [], t_files = (\<lambda>_. []), t_log_dir = [], t_fd_open = 0, t_fd_max = 5,
             t_raw_dir = None, t_raw_len = 0, t_raw_max = 100000000, t_raw_fd = None, t_time = 0, t_flush_last = 0,
             t_flush_timeout = 5, t_conn_timeout = 30 * 60\<rparr>
     }"

definition sql_exec :: "sql \<Rightarrow> IpTrack \<Rightarrow> IpTrack" where "sql_exec q self = self\<lparr>t_db := t_db self @ [q]\<rparr>"

definition set_varg :: "IpConnAddr \<Rightarrow> IpTrackConnVarg \<Rightarrow> IpTrack \<Rightarrow> IpTrack" where
  "set_varg a v self = self\<lparr>t_vargs := (t_vargs self)(a \<mapsto> v)\<rparr>"

definition put_file :: "byte list \<Rightarrow> byte list \<Rightarrow> IpTrack \<Rightarrow> IpTrack" where
  "put_file name d self = self\<lparr>t_files := (t_files self)(name := d)\<rparr>"

section \<open>The tables\<close>

definition create_sql :: "string list" where
  "create_sql =
     [''begin transaction'',
      ''create table conn ( conn_id      integer primary key ,time_first  float not null ,time_last   float not null'' @
      '' ,open        integer not null default 1 ,proto       varchar(8) not null ,server_addr integer not null'' @
      '' ,server_port integer not null ,client_addr integer not null ,client_port integer not null'' @
      '' ,pkt_count   integer default 0 not null ,msg_len     integer default 0 not null ,raw_len     integer default 0 not null )'',
      ''create table pkt ( conn_id      integer not null ,time        float not null ,from_server integer not null'' @
      '' ,msg_off     integer not null ,msg_len     integer not null ,raw_len     integer not null )'',
      ''create trigger conn_delete_pkt after delete on conn begin   delete from pkt where conn_id = old.conn_id; end'',
      ''create trigger pkt_insert after insert on pkt begin   update conn set      time_last = new.time     ,pkt_count = pkt_count + 1'' @
      ''     ,msg_len = msg_len + new.msg_len     ,raw_len = raw_len + new.raw_len     where conn_id = new.conn_id     ; end'',
      ''commit transaction'']"

text \<open>What is left of the list decides the result.\<close>

fun exec_all :: "log_env \<Rightarrow> string list \<Rightarrow> IpTrack \<Rightarrow> IpTrack \<times> string list" where
  "exec_all env [] self = (self, [])"
| "exec_all env (q # qs) self =
     (let self = sql_exec (Sql (bytes_of q)) self
      in if \<not> sql_ok env (Sql (bytes_of q)) then (self, q # qs) else exec_all env qs self)"

definition IpTrack_createdb :: "log_env \<Rightarrow> IpTrack \<Rightarrow> IpTrack \<times> int" where
  "IpTrack_createdb env self = (case exec_all env create_sql self of (self, qs) \<Rightarrow> (self, if qs \<noteq> [] then 0 else - 1))"

section \<open>Flushing a connection\<close>

text \<open>The connection with an open file that was quiet for longest.\<close>

definition IpTrack_foreach_lru_varg :: "IpTrack \<Rightarrow> (IpConnAddr, IpConn, IpConn option) foreach_func" where
  "IpTrack_foreach_lru_varg self h p lru =
     do {
       n \<leftarrow> node_at h p;
       let conn = node_val n;
       varg \<leftarrow> t_vargs self (conn_addr conn);
       Some (h, if v_fd varg \<and> (case lru of None \<Rightarrow> True | Some l \<Rightarrow> conn_time_last conn < conn_time_last l) then Some conn else lru, 0)
     }"

definition open_log ::
    "log_env \<Rightarrow> (IpConnAddr, IpConn) hash_t \<Rightarrow> IpConnAddr \<Rightarrow> IpTrack \<Rightarrow> (IpTrack \<times> bool) option" where
  "open_log env h a self =
     do {
       (self, ok) \<leftarrow>
         (if t_fd_open self > t_fd_max self then do {
            (h, lru, r) \<leftarrow> hash_foreach (IpTrack_foreach_lru_varg self) h None;
            case lru of None \<Rightarrow> Some (self, False)
            | Some c \<Rightarrow> do {
                v \<leftarrow> t_vargs self (conn_addr c);
                Some ((set_varg (conn_addr c) (v\<lparr>v_fd := False\<rparr>) self)\<lparr>t_fd_open := t_fd_open self - 1\<rparr>, True)
              }
          }
          else Some (self, True));
       varg \<leftarrow> t_vargs self a;
       if \<not> ok \<or> \<not> fopen_ok env (v_fname varg) then Some (self, False)
       else Some ((set_varg a (varg\<lparr>v_fd := True, v_off := int (length (t_files self (v_fname varg)))\<rparr>) self)
                    \<lparr>t_fd_open := t_fd_open self + 1\<rparr>, True)
     }"

definition queue_of :: "side \<Rightarrow> IpConn \<Rightarrow> IpConnTcpQueue" where
  "queue_of s conn = (case s of Server \<Rightarrow> queue_server conn | Client \<Rightarrow> queue_client conn)"

text \<open>The search back for the packet before the \<open>i\<close>th in the same queue.\<close>

fun prev_end :: "IpTrackConnVargPkt list \<Rightarrow> side \<Rightarrow> nat \<Rightarrow> int" where
  "prev_end vpkt s 0 = 0"
| "prev_end vpkt s (Suc i) = (if k_queue (vpkt ! i) = s then k_end (vpkt ! i) else prev_end vpkt s i)"

definition append_log :: "IpConnAddr \<Rightarrow> byte list \<Rightarrow> IpTrack \<Rightarrow> IpTrack option" where
  "append_log a d self =
     do {
       v \<leftarrow> t_vargs self a;
       Some (set_varg a (v\<lparr>v_off := v_off v + int (length d)\<rparr>) (put_file (v_fname v) (t_files self (v_fname v) @ d) self))
     }"

text \<open>\<open>n\<close> packets are left, from \<open>idx\<close> on.\<close>

fun flush_loop ::
    "log_env \<Rightarrow> (IpConnAddr, IpConn) hash_t \<Rightarrow> IpConn \<Rightarrow> IpTrackConnVargPkt list \<Rightarrow> nat \<Rightarrow> nat \<Rightarrow> IpTrack \<Rightarrow> IpTrack option" where
  "flush_loop env h conn vpkt idx 0 self = Some self"
| "flush_loop env h conn vpkt idx (Suc n) self =
     do {
       let a = conn_addr conn;
       let k = vpkt ! idx;
       let off = prev_end vpkt (k_queue k) idx;
       let i = k_end k - off;
       varg \<leftarrow> t_vargs self a;
       let q = InsertPkt (v_conn_id varg) (k_time k) (k_from_server k) (v_off varg) i (k_raw_len (vpkt ! 0));
       let self = sql_exec q self;
       if \<not> sql_ok env q then Some self
       else if i > 0 then do {
         (self, ok) \<leftarrow> (if v_fd varg then Some (self, True) else open_log env h a self);
         if \<not> ok then Some self
         else do {
           let b = q_buf (queue_of (k_queue k) conn);
           src \<leftarrow> array_get b off;
           m \<leftarrow> m_array b;
           d \<leftarrow> slice m src i;
           self \<leftarrow> append_log a d self;
           flush_loop env h conn vpkt (Suc idx) n self
         }
       }
       else flush_loop env h conn vpkt (Suc idx) n self
     }"

definition clear_queues :: "IpConn \<Rightarrow> IpConn" where
  "clear_queues conn =
     conn\<lparr>queue_server := (queue_server conn)\<lparr>q_buf := fst (array_clear (q_buf (queue_server conn)))\<rparr>,
          queue_client := (queue_client conn)\<lparr>q_buf := fst (array_clear (q_buf (queue_client conn)))\<rparr>\<rparr>"

text \<open>The table is that of the tracker, which the traversal hands over; the result is always zero.\<close>

definition IpTrack_foreach_flush :: "log_env \<Rightarrow> (IpConnAddr, IpConn, IpTrack) foreach_func" where
  "IpTrack_foreach_flush env h p self =
     do {
       n \<leftarrow> node_at h p;
       let conn = node_val n;
       let a = conn_addr conn;
       case t_vargs self a of None \<Rightarrow> Some (h, self, 0)
       | Some varg \<Rightarrow> do {
           self \<leftarrow> flush_loop env h conn (v_vpkt varg) 0 (nat (int (length (v_vpkt varg)) - 1)) self;
           varg \<leftarrow> t_vargs self a;
           let self = set_varg a (varg\<lparr>v_vpkt := []\<rparr>) self;
           let conn = clear_queues conn;
           h \<leftarrow> node_store h p conn;
           if conn_closed conn \<noteq> 0 \<or> t_time self - conn_time_last conn > t_conn_timeout self then do {
             let q = CloseConn (v_conn_id varg);
             let self = sql_exec q self;
             if \<not> sql_ok env q then Some (h, self, 0)
             else do {
               let self = self\<lparr>t_fd_open := t_fd_open self - 1, t_vargs := (t_vargs self)(a := None)\<rparr>;
               (h, ev) \<leftarrow> hash_remove h a;
               Some (h, self, 0)
             }
           }
           else Some (h, self, 0)
         }
     }"

section \<open>A captured packet\<close>

definition le_bytes :: "int \<Rightarrow> byte list" where "le_bytes i = bytes_of32 (word_of_int i)"

definition to_int :: "real \<Rightarrow> int" where "to_int x = (if 0 \<le> x then \<lfloor>x\<rfloor> else \<lceil>x\<rceil>)"

text \<open>\<open>!self->raw_len >= self->raw_max\<close> compares zero or one with the limit.\<close>

definition save_raw :: "log_env \<Rightarrow> real \<Rightarrow> byte list \<Rightarrow> IpTrack \<Rightarrow> (IpTrack \<times> bool) option" where
  "save_raw env t pktbuf self =
     (case t_raw_dir self of None \<Rightarrow> Some (self, True)
      | Some dir \<Rightarrow> do {
          self \<leftarrow> (if (if t_raw_len self = 0 then 1 else 0) \<ge> t_raw_max self
                    then (if t_raw_fd self = None then None else Some (self\<lparr>t_raw_fd := None\<rparr>)) else Some self);
          let name = take 4095 (dir @ bytes_of ''/'' @ time_text env t @ bytes_of ''.raw'');
          let (self, ok) =
            (if t_raw_fd self \<noteq> None then (self, True)
             else if \<not> fopen_ok env name then (self, False)
             else ((put_file name [] self)\<lparr>t_raw_fd := Some name, t_raw_len := 0\<rparr>, True));
          if \<not> ok then Some (self, False)
          else do {
            fd \<leftarrow> t_raw_fd self;
            let i = int (length pktbuf) + 12;
            let rec = le_bytes i @ le_bytes (to_int t) @ le_bytes (to_int ((t - real_of_int (to_int t)) * 1000000)) @ pktbuf;
            Some ((put_file fd (t_files self fd @ rec) self)\<lparr>t_raw_len := t_raw_len self + i\<rparr>, True)
          }
        })"

definition proto_text :: "u32 \<Rightarrow> byte list" where
  "proto_text p = (if p = 6 then bytes_of ''tcp'' else if p = 17 then bytes_of ''udp'' else take 39 (bytes_of (''ip-'' @ dec_int (sint p))))"

definition log_name :: "log_env \<Rightarrow> byte list \<Rightarrow> IpConnAddr \<Rightarrow> int \<Rightarrow> byte list" where
  "log_name env dir a row =
     take 1023 (dir @ bytes_of ''/'' @ proto_text (proto a) @ bytes_of ''-'' @
       ntoa env (server_addr a) @ bytes_of ('':'' @ dec_int (uint (server_port a)) @ ''-'') @
       ntoa env (client_addr a) @ bytes_of ('':'' @ dec_int (uint (client_port a)) @ ''-'' @ dec_int (row mod 2 ^ 32) @ ''.raw''))"

text \<open>A new connection gets its row and its record; otherwise the record is looked up.\<close>

definition conn_record :: "log_env \<Rightarrow> IpConn \<Rightarrow> IpTrack \<Rightarrow> IpTrack \<times> IpTrackConnVarg option" where
  "conn_record env conn self =
     (let a = conn_addr conn
      in if has_flag (conn_pkt_flags conn) CONN_PKT_FIRST then
           let q = InsertConn (conn_time_last conn) (proto_text (proto a)) (server_addr a) (server_port a) (client_addr a) (client_port a);
               self = sql_exec q self
           in if \<not> sql_ok env q then (self, None)
              else let row = last_insert_rowid env (t_db self) in
                if \<not> row \<ge> 0 then (self, None)
                else let v = \<lparr>v_vpkt = [], v_fd = False, v_off = 0, v_fname = log_name env (t_log_dir self) a row, v_conn_id = row\<rparr>
                     in (set_varg a v self, Some v)
         else (self, t_vargs self a))"

definition IpTrack_pktbuf :: "log_env \<Rightarrow> real \<Rightarrow> IpTrack \<Rightarrow> byte list \<Rightarrow> (IpTrack \<times> int) option" where
  "IpTrack_pktbuf env t self pktbuf =
     do {
       (self, ok) \<leftarrow> save_raw env t pktbuf self;
       if \<not> ok then Some (self, - 1)
       else do {
         (pkt, i) \<leftarrow> netpkt_parse_ether (netpkt_init pktbuf 0 (int (length pktbuf)));
         if i \<noteq> 0 then Some (self, - 1)
         else if pkt_ip pkt = None then Some (self, 0)
         else do {
           (track, pkt, p) \<leftarrow> IpConnTrack_track_pkt t (t_track self) pkt IPCONN_TRACK_BUFFER;
           let self = self\<lparr>t_track := track\<rparr>;
           case p of None \<Rightarrow> Some (self, - 1)
           | Some p \<Rightarrow> do {
               n \<leftarrow> node_at (m_conn_hash track) p;
               let conn = node_val n;
               let queue = (if has_flag (conn_pkt_flags conn) CONN_PKT_FROM_SERVER then Some Server
                            else if has_flag (conn_pkt_flags conn) CONN_PKT_FROM_CLIENT then Some Client else None);
               let (self, varg) = conn_record env conn self;
               case varg of None \<Rightarrow> Some (self, - 1)
               | Some varg \<Rightarrow> do {
                   s \<leftarrow> queue;
                   let k = \<lparr>k_queue = s, k_end = array_count (q_buf (queue_of s conn)), k_time = conn_time_last conn,
                            k_from_server = (case s of Server \<Rightarrow> 1 | Client \<Rightarrow> 0), k_raw_len = pkt_rawlen pkt\<rparr>;
                   Some (set_varg (conn_addr conn) (varg\<lparr>v_vpkt := v_vpkt varg @ [k]\<rparr>) self, 0)
                 }
             }
         }
       }
     }"

text \<open>One turn of the loop of \<open>main\<close>, at the time \<open>t\<close>: a packet, when there is one, and the flush that is due.\<close>

definition capture_step :: "log_env \<Rightarrow> real \<Rightarrow> byte list \<Rightarrow> IpTrack \<Rightarrow> IpTrack option" where
  "capture_step env t pktbuf self =
     do {
       let self = self\<lparr>t_time := t\<rparr>;
       self \<leftarrow> (if pktbuf \<noteq> [] then map_option fst (IpTrack_pktbuf env t self pktbuf) else Some self);
       if t_time self - t_flush_last self > t_flush_timeout self then do {
         (h, self, r) \<leftarrow> hash_foreach (IpTrack_foreach_flush env) (m_conn_hash (t_track self)) self;
         Some (self\<lparr>t_track := (t_track self)\<lparr>m_conn_hash := h\<rparr>, t_flush_last := t_time self\<rparr>)
       }
       else Some self
     }"


section \<open>What a flush writes\<close>

text \<open>The bytes that the packets added to the two queues, in the order of the packets.\<close>

fun log_of :: "IpConn \<Rightarrow> int \<Rightarrow> int \<Rightarrow> IpTrackConnVargPkt list \<Rightarrow> byte list" where
  "log_of conn s c [] = []"
| "log_of conn s c (k # ks) =
     (case k_queue k of
        Server \<Rightarrow> take (nat (k_end k - s)) (drop (nat s) (elems (q_buf (queue_server conn)))) @ log_of conn (k_end k) c ks
      | Client \<Rightarrow> take (nat (k_end k - c)) (drop (nat c) (elems (q_buf (queue_client conn)))) @ log_of conn s (k_end k) ks)"

definition ends_ok :: "IpConn \<Rightarrow> IpTrackConnVargPkt list \<Rightarrow> bool" where
  "ends_ok conn vpkt \<longleftrightarrow> (\<forall>k \<in> set vpkt. 0 \<le> k_end k \<and> k_end k \<le> int (length (elems (q_buf (queue_of (k_queue k) conn)))))"

definition same_but :: "IpTrack \<Rightarrow> IpTrack \<Rightarrow> bool" where
  "same_but self self' \<longleftrightarrow> t_time self' = t_time self \<and> t_conn_timeout self' = t_conn_timeout self \<and> t_fd_max self' = t_fd_max self"

lemma prev_end_ok: "ends_ok conn vpkt \<Longrightarrow> i \<le> length vpkt \<Longrightarrow> 0 \<le> prev_end vpkt s i"
  by (induction i) (auto simp: ends_ok_def)

text \<open>The bytes of one packet are read from its queue.\<close>

lemma read_piece:
  assumes "array_wf b" "0 \<le> off" "off < e" "e \<le> int (length (elems b))"
  shows "\<exists>m. array_get b off = Some off \<and> m_array b = Some m \<and> slice m off (e - off) = Some (take (nat (e - off)) (drop (nat off) (elems b)))"
proof -
  have g: "array_get b off = Some off" using array_get_eq [OF assms(1), of off] assms by simp
  show ?thesis using assms(1)
  proof (cases rule: array_wf_cases)
    case null
    then show ?thesis using assms by simp
  next
    case (buf xs ys)
    then have "nat off + nat (e - off) \<le> length xs" "off + (e - off) \<le> int (length (xs @ ys))" using assms by auto
    then show ?thesis using g buf assms by (auto simp: slice_def)
  qed
qed

lemma loop_writes:
  assumes "array_wf (q_buf (queue_server conn))" "array_wf (q_buf (queue_client conn))" "ends_ok conn vpkt" "idx + n \<le> length vpkt"
    "\<forall>q. sql_ok env q" "\<forall>f. fopen_ok env f"
    "t_vargs self (conn_addr conn) = Some v" "v_fd v \<or> t_fd_open self \<le> t_fd_max self" 
  shows "\<exists>self' v'. flush_loop env h conn vpkt idx n self = Some self' \<and> t_vargs self' (conn_addr conn) = Some v' \<and>
    v_fname v' = v_fname v \<and> v_conn_id v' = v_conn_id v \<and> v_vpkt v' = v_vpkt v \<and> same_but self self' \<and>
    t_files self' = (t_files self)(v_fname v := t_files self (v_fname v) @
      log_of conn (prev_end vpkt Server idx) (prev_end vpkt Client idx) (take n (drop idx vpkt)))"
  using assms(4,7,8)
proof (induction n arbitrary: idx self v)
  case 0
  then show ?case by (simp add: same_but_def)
next
  case (Suc n)
  define k where "k = vpkt ! idx"
  define off where "off = prev_end vpkt (k_queue k) idx"
  define b where "b = q_buf (queue_of (k_queue k) conn)"
  define q where "q = InsertPkt (v_conn_id v) (k_time k) (k_from_server k) (v_off v) (k_end k - off) (k_raw_len (vpkt ! 0))"
  have k: "k \<in> set vpkt" "drop idx vpkt = k # drop (Suc idx) vpkt" using Suc.prems(1) by (simp_all add: k_def Cons_nth_drop_Suc)
  have off: "0 \<le> off" unfolding off_def using prev_end_ok [OF assms(3)] Suc.prems(1) by simp
  have wf: "array_wf b" using assms(1,2) by (cases "k_queue k") (simp_all add: b_def queue_of_def)
  have e: "k_end k \<le> int (length (elems b))" "0 \<le> k_end k" using assms(3) k(1) by (auto simp: ends_ok_def b_def)
  define d where "d = take (nat (k_end k - off)) (drop (nat off) (elems b))"
  have log: "log_of conn (prev_end vpkt Server idx) (prev_end vpkt Client idx) (take (Suc n) (drop idx vpkt)) =
      d @ log_of conn (prev_end vpkt Server (Suc idx)) (prev_end vpkt Client (Suc idx)) (take n (drop (Suc idx) vpkt))"
    unfolding k(2) by (cases "k_queue k") (simp_all add: d_def off_def b_def queue_of_def flip: k_def)
  have nxt: "Suc idx + n \<le> length vpkt" using Suc.prems(1) by simp
  let ?self = "sql_exec q self"
  have step: "flush_loop env h conn vpkt idx (Suc n) self =
      (if k_end k - off > 0 then do {
         (self, ok) \<leftarrow> (if v_fd v then Some (?self, True) else open_log env h (conn_addr conn) ?self);
         if \<not> ok then Some self
         else do {
           src \<leftarrow> array_get b off;
           m \<leftarrow> m_array b;
           d \<leftarrow> slice m src (k_end k - off);
           self \<leftarrow> append_log (conn_addr conn) d self;
           flush_loop env h conn vpkt (Suc idx) n self
         }
       } else flush_loop env h conn vpkt (Suc idx) n ?self)"
    unfolding off_def b_def q_def k_def flush_loop.simps Let_def using Suc.prems(2) assms(5)
    by (simp cong: if_cong)
  show ?case
  proof (cases "k_end k - off > 0")
    case True
    define v1 where "v1 = (if v_fd v then v else v\<lparr>v_fd := True, v_off := int (length (t_files self (v_fname v)))\<rparr>)"
    obtain s1 where s1: "(if v_fd v then Some (?self, True) else open_log env h (conn_addr conn) ?self) = Some (s1, True)"
        "t_vargs s1 (conn_addr conn) = Some v1" "t_files s1 = t_files self" "same_but self s1"
    proof (cases "v_fd v")
      case True
      then show ?thesis using that [of ?self] Suc.prems(2) by (simp add: v1_def same_but_def sql_exec_def)
    next
      case False
      then show ?thesis
        using that [of "(set_varg (conn_addr conn) v1 ?self)\<lparr>t_fd_open := t_fd_open self + 1\<rparr>"] Suc.prems(2,3) assms(6)
        by (simp add: open_log_def v1_def set_varg_def same_but_def sql_exec_def)
    qed
    obtain m where m: "array_get b off = Some off" "m_array b = Some m" "slice m off (k_end k - off) = Some d"
      using read_piece [OF wf off _ e(1)] True by (auto simp: d_def)
    define v2 where "v2 = v1\<lparr>v_off := v_off v1 + int (length d)\<rparr>"
    obtain s2 where s2: "append_log (conn_addr conn) d s1 = Some s2" "t_vargs s2 (conn_addr conn) = Some v2"
        "t_files s2 = (t_files self)(v_fname v := t_files self (v_fname v) @ d)" "same_but self s2"
      using s1 by (auto simp: append_log_def set_varg_def put_file_def v2_def v1_def same_but_def)
    have v2: "v_fd v2" "v_fname v2 = v_fname v" "v_conn_id v2 = v_conn_id v" "v_vpkt v2 = v_vpkt v" by (simp_all add: v2_def v1_def)
    obtain s3 v3 where "flush_loop env h conn vpkt (Suc idx) n s2 = Some s3" "t_vargs s3 (conn_addr conn) = Some v3"
        "v_fname v3 = v_fname v2" "v_conn_id v3 = v_conn_id v2" "v_vpkt v3 = v_vpkt v2" "same_but s2 s3"
        "t_files s3 = (t_files s2)(v_fname v2 := t_files s2 (v_fname v2) @
          log_of conn (prev_end vpkt Server (Suc idx)) (prev_end vpkt Client (Suc idx)) (take n (drop (Suc idx) vpkt)))"
      using Suc.IH [OF nxt s2(2)] v2(1) by blast
    then show ?thesis using step True s1(1) m s2 v2 log by (auto simp: same_but_def)
  next
    case False
    then have d: "d = []" by (simp add: d_def)
    have "t_vargs ?self (conn_addr conn) = Some v" "v_fd v \<or> t_fd_open ?self \<le> t_fd_max ?self" "t_files ?self = t_files self" "same_but self ?self"
      using Suc.prems(2,3) by (auto simp: sql_exec_def same_but_def)
    then show ?thesis using Suc.IH [of "Suc idx" ?self v] Suc.prems(1) step False log d by (auto simp: same_but_def)
  qed
qed



definition sample_conn :: IpConn where
  "sample_conn = IpConn_init\<lparr>queue_server := IpConnTcpQueue_init\<lparr>q_buf := array_import (Some [1, 2, 3]) 3 1 0 None 0\<rparr>\<rparr>"

definition sample_varg :: IpTrackConnVarg where
  "sample_varg =
     \<lparr>v_vpkt = [\<lparr>k_queue = Server, k_end = 2, k_time = 0, k_from_server = 1, k_raw_len = 0\<rparr>,
                \<lparr>k_queue = Server, k_end = 3, k_time = 0, k_from_server = 1, k_raw_len = 0\<rparr>],
      v_fd = False, v_off = 0, v_fname = [7], v_conn_id = 1\<rparr>"

definition sample_env :: log_env where
  "sample_env = \<lparr>sql_ok = (\<lambda>_. True), last_insert_rowid = (\<lambda>_. 1), fopen_ok = (\<lambda>_. True), ntoa = (\<lambda>_. []), time_text = (\<lambda>_. [])\<rparr>"


text \<open>\<open>IpTrack_createdb\<close> returns \<open>- 1\<close> when all statements succeed.\<close>

lemma createdb_result: "\<forall>q. sql_ok env q \<Longrightarrow> snd (IpTrack_createdb env self) = - 1"
proof -
  assume ok: "\<forall>q. sql_ok env q"
  have "snd (exec_all env qs self) = []" for qs self using ok by (induction qs arbitrary: self) (auto simp: Let_def)
  then show ?thesis by (simp add: IpTrack_createdb_def split: prod.split) (metis snd_conv)
qed

end
