(* ===== verification/Spec2Isabelle.thy ===== *)
theory Spec2Isabelle
  imports Prelude CArray Hash Memutil LList Pool Bytes Netpkt Cksum ConnTrack Dns DnsHeader DnsNames DnsMsg
    Http HttpProps HttpCgi HttpUrl Select SendList StateMachine
    Opt OptProps OptSafe OptPrint DnsProxy DnsProxyProps Vercmp Tstat
    Dir Cfg CfgProps CfgStore HttpPart HttpReq HttpReqProps HttpServer HttpServerProps
    Leak LeakProps SelectView Pipe PipeProps Readable Update HttpCall HttpSim UpdateProps UpdateRun
    Sock Mmap Pack ConnLog
begin

text \<open>
  bklib is a C library of containers, buffers, packet and protocol code, with a handful of programs over it (a DNS proxy, an
  HTTP server, a file downloader). This development models the library's own logic function by function and proves what it
  does on every path. The C names are kept; file and function names below are those under \<open>src/\<close>.

  \<^bold>\<open>How C is read.\<close> The machine is little-endian LP64 with signed \<open>char\<close> and the C locale. Memory is a list of cells per object
  (\<open>Prelude\<close>, \<open>Bytes\<close>), a pointer is an index into its object, and every access is checked: a function whose result is an
  option returns \<open>None\<close> exactly where the code would leave an object, follow a null pointer or divide by zero. A
  theorem that says \<open>= Some _\<close> therefore says that the code is safe on these inputs and that it terminates. Integers whose
  wrap-around can be reached keep their width (\<open>u8\<close> to \<open>u64\<close> as words, \<open>to_i32\<close> for the truncation to \<open>int\<close>); counters that
  stay far below it are \<open>int\<close> or \<open>nat\<close>. \<open>assertb\<close> leaves the innermost loop or switch and is translated where it stands.
  Allocation succeeds, but for the parameter \<open>ok\<close> of \<open>array_add\<close>. Values of type \<open>double\<close> are real numbers. What the system
  does (sockets, \<open>select\<close>, \<open>sendfile\<close>, \<open>rand\<close>, \<open>qsort\<close>, \<open>strtod\<close>, the clock) is a parameter of the definitions or a list of
  the results still to come in the state; what the code does to the system is a log in the state. Debug output is left out.

  \<^bold>\<open>Containers.\<close>
  \<^item> \<open>CArray\<close> (\<open>array.c\<close>, \<open>array.h\<close>, \<open>array_inline.c\<close>): the record \<open>array_t\<close> with count, capacity and buffer. Every operation
    refines one on lists (\<open>elems\<close>), binary search finds the first match, and the locale \<open>growable\<close> states what clients of
    an array use; \<open>arr\<close> interprets it on the model.
  \<^item> \<open>Hash\<close> (\<open>hash.c\<close>, \<open>hash.h\<close>): chained table over arrays of nodes, resizing, iteration with callbacks that may free the visited
    node, clearing with destructors. The locale \<open>hash_key\<close> asks that equal keys hash alike; in it the table refines a map.
    Interpretations: \<open>int_key\<close>, \<open>str_key\<close>, \<open>nocase_key\<close> here, \<open>addr_key\<close> in \<open>ConnTrack\<close>, \<open>line_key\<close> in \<open>LeakProps\<close>.
  \<^item> \<open>LList\<close> (\<open>llist.h\<close>): the intrusive ring on a heap of nodes; any history refines a sequence and never follows a bad pointer.
  \<^item> \<open>Pool\<close> (\<open>pool.c\<close>): reference counts and free functions; each pointer is freed at the moment its count reaches zero.
  \<^item> \<open>Memutil\<close> (\<open>memutil.c\<close>), \<open>Vercmp\<close> (\<open>vercmp.c\<close>), \<open>Tstat\<close> (\<open>tstat.c\<close>), \<open>StateMachine\<close> (\<open>state.c\<close>): searching memory, the order of
    version strings, sums over a sliding window, tables of states with retries and timeouts.

  \<^bold>\<open>Packets.\<close>
  \<^item> \<open>Netpkt\<close>, \<open>Cksum\<close> (\<open>netpkt.c\<close>, \<open>netpkt.h\<close>, \<open>netpkt_inline.c\<close>): parsing and building Ethernet, IP, TCP and UDP headers in place,
    TCP options, checksums. What is built parses back, set checksums check, and the incremental update of an address change
    is equivalent to summing again.
  \<^item> \<open>ConnTrack\<close> (\<open>ipconntrack.c\<close>): connections in a hash table under both directions, the states of TCP, and the reassembly
    of a stream from segments in any order.
  \<^item> \<open>Dns\<close>, \<open>DnsHeader\<close>, \<open>DnsNames\<close>, \<open>DnsMsg\<close> (\<open>dns.c\<close>): the header's bit fields, compressed names (the inductive \<open>name_at\<close> says what
    bytes denote a name), records, replies. Reading arbitrary bytes stays in stated bounds; packing and unpacking are inverse.

  \<^bold>\<open>The event loop and its clients.\<close>
  \<^item> \<open>Select\<close>, \<open>SelectView\<close> (\<open>fdselect.c\<close>, \<open>fdselect_unix.c\<close>): the table of descriptors refines a map to wanted events; one round of the
    loop calls each ready callback once.
  \<^item> \<open>SendList\<close> (\<open>sendlist.c\<close>): a queue of buffers and file ranges on a socket; nothing is lost, doubled or reordered, and a
    socket that takes something each time empties it.
  \<^item> \<open>Pipe\<close>, \<open>PipeProps\<close> (\<open>fdselect_pipe.c\<close>): two sockets copied into each other through bounded buffers.
  \<^item> \<open>DnsProxy\<close>, \<open>DnsProxyProps\<close> (\<open>dns_proxy.c\<close>): queries under new ids, replies back to where they belong, over the table of
    requests and the DNS messages.
  \<^item> \<open>HttpServer\<close>, \<open>HttpServerProps\<close> (\<open>http_server.c\<close>): accept, request, file, end, as callbacks of the descriptor table.

  \<^bold>\<open>Text.\<close>
  \<^item> \<open>Http\<close>, \<open>HttpProps\<close>, \<open>HttpPart\<close>, \<open>HttpCgi\<close>, \<open>HttpUrl\<close> (\<open>http.c\<close>): the header parser as the state machine of the code, complete
    and cut off, CGI arguments, URLs. \<open>HttpReq\<close>, \<open>HttpReqProps\<close> (\<open>http_req.c\<close>): one GET with its callbacks.
  \<^item> \<open>Opt\<close>, \<open>OptProps\<close>, \<open>OptSafe\<close>, \<open>OptPrint\<close> (\<open>opt.c\<close>, \<open>opt_print.c\<close>): quoting and splitting command lines in place, option tables, nested
    printing.
  \<^item> \<open>Dir\<close> (\<open>dir.c\<close>, \<open>dir_unix.c\<close>): paths and directories over a small model of the file system, in which paths are compared as they
    are written. \<open>Cfg\<close>, \<open>CfgProps\<close>, \<open>CfgStore\<close> (\<open>cfg.c\<close>, \<open>cfg_unix.c\<close>): configuration values as files; the store behaves as two maps.
  \<^item> \<open>Leak\<close>, \<open>LeakProps\<close> (\<open>debug_leak.c\<close>, \<open>alloc_count.c\<close>): tables of allocated pointers and their reports.
  \<^item> \<open>Readable\<close> (\<open>readable.c\<close>): durations and numbers as text, against the calendar.
  \<^item> \<open>Update\<close>, \<open>HttpCall\<close>, \<open>HttpSim\<close>, \<open>UpdateProps\<close>, \<open>UpdateRun\<close> (\<open>update.c\<close>): fetching and installing a new version. The locale \<open>http_callback\<close> is
    the rule by which \<open>http_get\<close> calls its callback, \<open>answers_alike\<close> carries what is known of one callback over to another; both are
    interpreted on the two callbacks of \<open>update\<close>. The inductive relation \<open>upd_step\<close> is the order of questions and actions.
  \<^item> \<open>Sock\<close> (\<open>sock.c\<close>, inline functions of \<open>sock.h\<close>): addresses, networks, and the loop that moves a buffer with a time limit. The locale
    \<open>transfer\<close> is the contract of one call; \<open>sending\<close> and \<open>receiving\<close> interpret it. The loop is a \<open>partial_function\<close>, and the lemmas show
    that it returns, because \<open>select\<close> reports the socket ready only finitely often.
  \<^item> \<open>Mmap\<close> (\<open>mmap.c\<close>): a file written through a mapping that grows by blocks refines a sequence of bytes.
  \<^item> \<open>Pack\<close> (\<open>pack.h\<close>): numbers, blocks, doubles and bit fields written and read by the same functions.
  \<^item> \<open>ConnLog\<close> (\<open>ipconntrack_db.c\<close>): the tracker of \<open>ConnTrack\<close> with raw files, a data base and a file for every connection; what a
    flush, run over the hash table, writes of the streams.

  \<^bold>\<open>Lemmas.\<close> Each component theory states an invariant (\<open>array_wf\<close>, \<open>hash_ok\<close>, \<open>sel_ok\<close>, \<open>pipe_inv\<close>, \<open>conn_ok\<close>, ...), one lemma per operation that
  keeps it and says what the operation does on every branch, and histories: any sequence of operations against an abstract
  state. The theorems with a claim number are the properties; each with hypotheses has a witness that applies it.

  \<^bold>\<open>Loops and bounds.\<close> A loop is structural recursion or a \<open>function\<close> with a measure (bytes left, nodes left). Loops whose end
  depends on the outside count turns: \<open>erase_loop\<close> has one turn more than the window has buckets; \<open>pick_id\<close> has the thousand
  tries of the code; \<open>sorted_loop\<close> one turn more than the directory has entries; \<open>get_loop\<close>, \<open>read_loop\<close> and \<open>write_loop\<close> one more than the
  bytes and segments that can come, because every turn but the last takes at least one. The lemmas show that these turns
  suffice (the result is \<open>Some\<close>). \<open>server_loop\<close>, \<open>rounds\<close> and \<open>pipe_run\<close> take the number or list of events as an argument.

  \<^bold>\<open>Not modelled.\<close>
  \<^item> Calls of other libraries only: \<open>cryptbk.c\<close>, \<open>ssl.cpp\<close>, \<open>ssl_util.c\<close>, \<open>cfg_crypt.c\<close> (OpenSSL), \<open>sql_psql.c\<close> (PostgreSQL).
  \<^item> Windows: \<open>*_win32.c\<close>, \<open>ifcfg_win32.cpp\<close>, \<open>variant.c\<close>, \<open>winmm.c\<close>. System calls only: \<open>sock_unix.c\<close>, \<open>sock_raw.c\<close>, \<open>proc_unix.c\<close>, \<open>service*.c\<close>, \<open>thread*.c\<close>,
    \<open>shell*.c\<close>, \<open>sig.c\<close>, \<open>rand.c\<close>, \<open>mstime*.c\<close>, \<open>env.c\<close>. \<open>ns.c\<close> enters namespaces of the kernel.
  \<^item> Files that do not compile: \<open>http_router.c\<close>, \<open>http_redirect.c\<close>, \<open>rtt.c\<close>, \<open>mmapdb.c\<close>, \<open>select.c\<close> use names or fields declared nowhere.
  \<^item> Tests (\<open>*_t.c\<close>) and command line programs around a function that is modelled.
  \<^item> Of the modelled files: formatting for debug output (\<open>netpkt_fmt\<close>, \<open>memdump\<close> and their like), the set-up of sockets in the
    \<open>main\<close> of the programs, and functions that only release memory.
\<close>

end
